(* ===== verification/Prelude.thy ===== *)
theory Prelude
  imports Main "HOL-Library.Word" "HOL-Library.Monad_Syntax"
begin

text \<open>
  What every component of the development shares.

  \<^item> The C integer types as words of their width.
  \<^item> The C heap of structs: an address is a \<open>nat\<close>, a pointer is an address or \<open>NULL\<close>
    (\<open>None\<close>), a heap is a partial map from addresses to structs. Every access through a
    pointer is an \<open>option\<close>: \<open>None\<close> is undefined behaviour (a null or dangling pointer
    is dereferenced, a block is freed twice). A theorem that an operation returns \<open>Some\<close> is
    therefore a memory-safety theorem.
  \<^item> Generic facts on lists, words and circular indices, and the collections
    \<open>heap_simps\<close> (evaluating heap accesses) and \<open>word_nat\<close> (words read as numbers).
\<close>

named_theorems heap_simps \<open>evaluation of loads and stores on a known heap\<close>
named_theorems word_nat \<open>machine words read as natural numbers\<close>

type_synonym u8 = "8 word"
type_synonym u16 = "16 word"
type_synonym u32 = "32 word"
type_synonym u64 = "64 word"
type_synonym i32 = "32 word"  \<comment> \<open>a C \<open>int\<close>, read with \<open>sint\<close>\<close>

subsection \<open>Pointers and the heap of structs\<close>

type_synonym addr = nat
type_synonym ptr = "addr option"
type_synonym 'n heap = "addr \<Rightarrow> 'n option"

definition load :: "'n heap \<Rightarrow> ptr \<Rightarrow> 'n option" where
  "load h p = (case p of None \<Rightarrow> None | Some a \<Rightarrow> h a)"

definition store :: "ptr \<Rightarrow> ('n \<Rightarrow> 'n) \<Rightarrow> 'n heap \<Rightarrow> 'n heap option" where
  "store p f h =
     (case p of None \<Rightarrow> None
      | Some a \<Rightarrow> (case h a of None \<Rightarrow> None | Some n \<Rightarrow> Some (h(a \<mapsto> f n))))"

text \<open>
  \<open>free\<close> does nothing on \<open>NULL\<close>; freeing an address that is not allocated (a double free)
  is undefined.
\<close>

definition dealloc :: "ptr \<Rightarrow> 'n heap \<Rightarrow> 'n heap option" where
  "dealloc p h =
     (case p of None \<Rightarrow> Some h
      | Some a \<Rightarrow> (case h a of None \<Rightarrow> None | Some n \<Rightarrow> Some (h(a := None))))"

text \<open>
  \<open>malloc\<close> either fails (\<open>None\<close>) or returns an address with unspecified contents
  \<open>junk\<close>. The caller's theorems assume that the address is fresh and nothing about the
  contents.
\<close>

definition malloc_ok :: "(addr \<times> 'n) option \<Rightarrow> 'n heap \<Rightarrow> bool" where
  "malloc_ok m h = (case m of None \<Rightarrow> True | Some (a, junk) \<Rightarrow> h a = None)"

lemma load_None [heap_simps]: "load h None = None"
  by (simp add: load_def)

lemma load_Some [heap_simps]: "load h (Some a) = h a"
  by (simp add: load_def)

lemma store_Some [heap_simps]: "h a = Some n \<Longrightarrow> store (Some a) f h = Some (h(a \<mapsto> f n))"
  by (simp add: store_def)

lemma dealloc_Some [heap_simps]: "h a = Some n \<Longrightarrow> dealloc (Some a) h = Some (h(a := None))"
  by (simp add: dealloc_def)

lemma dealloc_None [heap_simps]: "dealloc None h = Some h"
  by (simp add: dealloc_def)

lemma malloc_ok_Some [heap_simps]: "malloc_ok (Some (a, j)) h \<longleftrightarrow> h a = None"
  by (simp add: malloc_ok_def)

text \<open>
  The allocator itself is a parameter: a function from the current heap to the answer of
  \<open>malloc\<close>. \<open>malloc_serves alloc n\<close> says what the code relies on: with fewer than \<open>n\<close>
  blocks allocated the call succeeds, and the address it returns is not in use.
  \<open>first_free\<close> is a concrete allocator that does so.
\<close>

type_synonym 'n allocator = "'n heap \<Rightarrow> (addr \<times> 'n) option"

definition malloc_serves :: "'n allocator \<Rightarrow> nat \<Rightarrow> bool" where
  "malloc_serves alloc n \<longleftrightarrow>
     (\<forall>h. finite (dom h) \<and> card (dom h) < n \<longrightarrow> (\<exists>a junk. alloc h = Some (a, junk) \<and> h a = None))"

definition first_free :: "nat \<Rightarrow> 'n \<Rightarrow> 'n allocator" where
  "first_free n junk h = map_option (\<lambda>a. (a, junk)) (List.find (\<lambda>a. h a = None) [0..<n])"

lemma malloc_servesD:
  assumes "malloc_serves alloc n" "finite (dom h)" "card (dom h) < n"
  obtains a junk where "alloc h = Some (a, junk)" "h a = None"
  using assms unfolding malloc_serves_def by blast

lemma malloc_serves_first_free: "malloc_serves (first_free n junk) n"
  unfolding malloc_serves_def
proof (intro allI impI)
  fix h :: "'a heap"
  assume h: "finite (dom h) \<and> card (dom h) < n"
  have "\<not> {0..<n} \<subseteq> dom h"
  proof
    assume "{0..<n} \<subseteq> dom h"
    then have "card {0..<n} \<le> card (dom h)" using h by (intro card_mono) auto
    with h show False by simp
  qed
  then obtain a where a: "a \<in> set [0..<n]" "h a = None" by (auto simp: subset_iff domIff)
  then have "List.find (\<lambda>a. h a = None) [0..<n] \<noteq> None"
    by (auto simp: find_None_iff)
  then obtain b where "List.find (\<lambda>a. h a = None) [0..<n] = Some b" by auto
  moreover from this have "h b = None" by (auto simp: find_Some_iff)
  ultimately show "\<exists>a junk'. first_free n junk h = Some (a, junk') \<and> h a = None"
    by (auto simp: first_free_def)
qed

subsection \<open>Lists\<close>

definition first_ptr :: "addr list \<Rightarrow> ptr \<Rightarrow> ptr" where
  "first_ptr xs q = (case xs of [] \<Rightarrow> q | a # _ \<Rightarrow> Some a)"

definition last_ptr :: "addr list \<Rightarrow> ptr \<Rightarrow> ptr" where
  "last_ptr xs p = (if xs = [] then p else Some (last xs))"

lemma first_ptr_simps [simp]: "first_ptr [] q = q" "first_ptr (a # xs) q = Some a"
  by (simp_all add: first_ptr_def)

lemma last_ptr_simps [simp]:
  "last_ptr [] p = p" "last_ptr (a # xs) p = last_ptr xs (Some a)"
  "last_ptr (xs @ [a]) p = Some a"
  by (simp_all add: last_ptr_def)

lemma first_ptr_append [simp]: "first_ptr (xs @ ys) q = first_ptr xs (first_ptr ys q)"
  by (cases xs) auto

lemma last_ptr_append [simp]: "last_ptr (xs @ ys) p = last_ptr ys (last_ptr xs p)"
  by (induction xs arbitrary: p) auto

lemma first_ptr_eq_None [simp]: "first_ptr xs None = None \<longleftrightarrow> xs = []"
  by (cases xs) auto

lemma last_ptr_eq_None [simp]: "last_ptr xs None = None \<longleftrightarrow> xs = []"
  by (auto simp: last_ptr_def)

lemma distinct_snoc_split:
  "distinct (xs @ a # ys) \<longleftrightarrow>
     distinct (xs @ ys) \<and> a \<notin> set xs \<and> a \<notin> set ys"
  by auto

lemma map_cong_notin: "a \<notin> set xs \<Longrightarrow> map (f(a := v)) xs = map f xs"
  by (induction xs) auto

lemma count_update:
  "i < length xs \<Longrightarrow> length (filter P (xs[i := x])) + (if P (xs ! i) then 1 else 0) =
     length (filter P xs) + (if P x then 1 else 0)"
proof (induction xs arbitrary: i)
  case (Cons a xs)
  then show ?case by (cases i) auto
qed simp

lemma distinct_filterI:
  "(\<And>i j. i < length xs \<Longrightarrow> j < length xs \<Longrightarrow> xs ! i = xs ! j \<Longrightarrow> P (xs ! i) \<Longrightarrow> i = j) \<Longrightarrow>
     distinct (filter P xs)"
proof (induction xs)
  case (Cons x xs)
  have "distinct (filter P xs)"
    using Cons.prems [of "Suc _" "Suc _"] by (intro Cons.IH) simp
  moreover have "x \<notin> set xs" if "P x"
  proof
    assume "x \<in> set xs"
    then obtain j where "j < length xs" "xs ! j = x" by (auto simp: in_set_conv_nth)
    then show False using Cons.prems [of 0 "Suc j"] that by simp
  qed
  ultimately show ?case by simp
qed simp

subsection \<open>Ownership\<close>

text \<open>Every resource in \<open>S\<close> is held by exactly one owner: \<open>g\<close> says what an owner holds.\<close>

definition owners :: "(nat \<Rightarrow> nat option) \<Rightarrow> nat set \<Rightarrow> bool" where
  "owners g S \<longleftrightarrow> S = ran g \<and> inj_on g (dom g)"

lemma owners_inj: "owners g S \<Longrightarrow> g v = Some h \<Longrightarrow> g w = Some h \<Longrightarrow> v = w"
  unfolding owners_def inj_on_def by (metis domI)

lemma owners_mem: "owners g S \<Longrightarrow> g v = Some h \<Longrightarrow> h \<in> S"
  unfolding owners_def by (auto simp: ran_def)

lemma ownersI:
  "(\<And>h. h \<in> S \<longleftrightarrow> (\<exists>v. g v = Some h)) \<Longrightarrow> (\<And>v w h. g v = Some h \<Longrightarrow> g w = Some h \<Longrightarrow> v = w) \<Longrightarrow> owners g S"
  unfolding owners_def ran_def inj_on_def by auto

lemma owners_iff: "owners g S \<Longrightarrow> h \<in> S \<longleftrightarrow> (\<exists>v. g v = Some h)"
  unfolding owners_def by (auto simp: ran_def)

lemma owners_drop:
  assumes o: "owners g S"
  shows "owners (g(v := None)) (S - (case g v of None \<Rightarrow> {} | Some h \<Rightarrow> {h}))"
proof (rule ownersI)
  fix h
  have "(\<exists>w. (g(v := None)) w = Some h) \<longleftrightarrow> (\<exists>w. w \<noteq> v \<and> g w = Some h)" by (auto split: if_splits)
  also have "\<dots> \<longleftrightarrow> h \<in> S \<and> g v \<noteq> Some h" using owners_iff [OF o] owners_inj [OF o] by metis
  also have "\<dots> \<longleftrightarrow> h \<in> S - (case g v of None \<Rightarrow> {} | Some h \<Rightarrow> {h})" by (cases "g v") auto
  finally show "h \<in> S - (case g v of None \<Rightarrow> {} | Some h \<Rightarrow> {h}) \<longleftrightarrow> (\<exists>w. (g(v := None)) w = Some h)" by simp
next
  show "u = w" if "(g(v := None)) u = Some h" "(g(v := None)) w = Some h" for u w h
    using that owners_inj [OF o, of u h w] by (simp split: if_splits)
qed

lemma owners_new:
  assumes o: "owners g S" and h: "h \<notin> S" "g v = None"
  shows "owners (g(v \<mapsto> h)) (insert h S)"
proof (rule ownersI)
  fix k
  have "(\<exists>w. (g(v \<mapsto> h)) w = Some k) \<longleftrightarrow> k = h \<or> (\<exists>w. w \<noteq> v \<and> g w = Some k)" by (auto split: if_splits)
  also have "\<dots> \<longleftrightarrow> k \<in> insert h S" using owners_iff [OF o] h(2) by (metis insert_iff option.distinct(1))
  finally show "k \<in> insert h S \<longleftrightarrow> (\<exists>w. (g(v \<mapsto> h)) w = Some k)" by simp
next
  show "u = w" if "(g(v \<mapsto> h)) u = Some k" "(g(v \<mapsto> h)) w = Some k" for u w k
    using that owners_inj [OF o, of u k w] owners_mem [OF o, of _ k] h(1) by (cases "u = v"; cases "w = v") auto
qed

lemma owners_move:
  assumes o: "owners g S" and v: "g v = None"
  shows "owners (g(v := g w, w := None)) S"
proof (cases "v = w")
  case True
  then have "g(v := g w, w := None) = g" using v by (simp add: fun_upd_idem)
  then show ?thesis using o by simp
next
  case False
  let ?\<pi> = "\<lambda>u. if u = v then w else if u = w then v else u"
  have g': "(g(v := g w, w := None)) u = g (?\<pi> u)" for u using False v by simp
  show ?thesis
  proof (rule ownersI)
    fix h
    have "(\<exists>u. g (?\<pi> u) = Some h) \<longleftrightarrow> (\<exists>u. g u = Some h)"
    proof
      assume "\<exists>u. g u = Some h"
      then obtain u where "g u = Some h" by blast
      moreover have "?\<pi> (?\<pi> u) = u" by simp
      ultimately show "\<exists>u. g (?\<pi> u) = Some h" by metis
    qed blast
    then show "h \<in> S \<longleftrightarrow> (\<exists>u. (g(v := g w, w := None)) u = Some h)" unfolding g' owners_iff [OF o] by simp
  next
    show "x = y" if "(g(v := g w, w := None)) x = Some h" "(g(v := g w, w := None)) y = Some h" for x y h
      using owners_inj [OF o that [unfolded g']] by (simp split: if_splits)
  qed
qed

subsection \<open>Circular indices\<close>

lemma mod_add_left_inject:
  assumes "i < (n::nat)" "j < n" "(s + i) mod n = (s + j) mod n"
  shows "i = j"
proof -
  have aux: "a = b" if "a \<le> b" "b < n" "(s + a) mod n = (s + b) mod n" for a b
  proof -
    have "n dvd (s + b) - (s + a)"
      using that(1,3) by (metis mod_eq_dvd_iff_nat add_le_mono order_refl)
    then have "n dvd b - a" by simp
    then show ?thesis using that(1,2) by (metis dvd_imp_le le_antisym less_imp_diff_less not_less
          zero_less_diff)
  qed
  show ?thesis using aux [of i j] aux [of j i] assms by (cases "i \<le> j") auto
qed

text \<open>The contents of a ring buffer with \<open>n\<close> elements from index \<open>h\<close> on; taking the first, and putting one behind the last.\<close>

definition ring_list :: "'a list \<Rightarrow> nat \<Rightarrow> nat \<Rightarrow> 'a list" where
  "ring_list buf h n = map (\<lambda>i. buf ! ((h + i) mod length buf)) [0..<n]"

lemma length_ring_list [simp]: "length (ring_list buf h n) = n"
  by (simp add: ring_list_def)

lemma ring_list_0 [simp]: "ring_list buf h 0 = []"
  by (simp add: ring_list_def)

lemma ring_list_take:
  assumes "0 < n" "h < length buf"
  shows "ring_list buf h n = buf ! h # ring_list buf ((h + 1) mod length buf) (n - 1)"
proof -
  have "[0..<n] = 0 # map Suc [0..<n - 1]" using assms(1) by (metis Suc_diff_1 map_Suc_upt upt_conv_Cons)
  then show ?thesis using assms(2) by (simp add: ring_list_def comp_def mod_add_left_eq)
qed

lemma ring_list_put:
  assumes "n < length buf"
  shows "ring_list (buf[(h + n) mod length buf := x]) h (n + 1) = ring_list buf h n @ [x]"
proof -
  have neq: "(h + n) mod length buf \<noteq> (h + i) mod length buf" if "i < n" for i
  proof
    assume "(h + n) mod length buf = (h + i) mod length buf"
    then have "n = i" using assms that by (intro mod_add_left_inject [of n "length buf" i h]) simp_all
    then show False using that by simp
  qed
  have "buf[(h + n) mod length buf := x] ! ((h + i) mod length buf) = buf ! ((h + i) mod length buf)" if "i < n" for i
    by (rule nth_list_update_neq) (rule neq [OF that])
  moreover have "(h + n) mod length buf < length buf" using assms by (intro mod_less_divisor) linarith
  ultimately show ?thesis by (simp add: ring_list_def)
qed

lemma ring_tail_take: "0 < n \<Longrightarrow> ((h + 1) mod m + (n - 1)) mod m = (h + n) mod (m :: nat)"
  by (cases n) (simp_all add: mod_add_left_eq)

lemma ring_tail_put: "((h + n) mod m + 1) mod m = (h + (n + 1)) mod (m :: nat)"
  by (simp add: mod_Suc_eq)

subsection \<open>Bytes in words\<close>

lemma unat_u8_less: "unat (b::u8) < 256"
  using unsigned_less [of b] by simp

lemma unat_ucast_u8 [word_nat]:
  "8 \<le> LENGTH('a) \<Longrightarrow> unat (ucast (b::u8) :: 'a::len word) = unat b"
proof -
  assume "8 \<le> LENGTH('a)"
  then have "(256::nat) \<le> 2 ^ LENGTH('a)" using power_increasing [of 8 "LENGTH('a)" "2::nat"] by simp
  then show ?thesis using unat_u8_less [of b] by (simp add: unsigned_ucast_eq take_bit_nat_eq_self_iff)
qed

lemma or_shift_nat: "m < 256 \<Longrightarrow> or (push_bit 8 n) m = n * 256 + (m::nat)"
proof -
  assume "m < 256"
  then have "take_bit 8 m = m" by (simp add: take_bit_nat_eq_self_iff)
  then have m: "bit m k \<Longrightarrow> k < 8" for k by (metis bit_take_bit_iff)
  have "or (push_bit 8 n) m = push_bit 8 n + m"
    by (rule disjunctive_add [symmetric]) (auto simp: bit_simps dest: m)
  then show ?thesis by (simp add: push_bit_eq_mult)
qed

lemma unat_shift_byte [word_nat]:
  assumes "8 \<le> LENGTH('a)" "unat (w::'a::len word) * 256 < 2 ^ LENGTH('a)"
  shows "unat (or (push_bit 8 w) (ucast (b::u8))) = unat w * 256 + unat b"
proof -
  have "unat (push_bit 8 w) = take_bit LENGTH('a) (push_bit 8 (unat w))"
    by (rule unsigned_push_bit_eq)
  also have "\<dots> = push_bit 8 (unat w)"
    using assms(2) by (simp add: push_bit_eq_mult take_bit_nat_eq_self_iff)
  finally show ?thesis
    by (simp only: unsigned_or_eq or_shift_nat unat_u8_less unat_ucast_u8 assms)
qed

lemma unat_pow2 [word_nat]:
  assumes "k < LENGTH('a)"
  shows "unat (2 ^ k :: 'a::len word) = 2 ^ k"
proof -
  have "(2::nat) ^ k < 2 ^ LENGTH('a)" using assms by (intro power_strict_increasing) simp_all
  moreover have "unat (word_of_nat (2 ^ k) :: 'a word) = take_bit LENGTH('a) (2 ^ k)"
    unfolding unsigned_of_nat by simp
  ultimately show ?thesis using assms by (simp add: take_bit_nat_eq_self_iff)
qed

text \<open>Rounding down to a multiple of a power of two, the way allocators do it.\<close>

lemma unat_and_not_mask [word_nat]:
  "unat (and (x::'a::len word) (not (mask k))) = unat x div 2 ^ k * 2 ^ k"
proof -
  have "and x (not (mask k)) = push_bit k (drop_bit k x)"
    by (rule bit_word_eqI) (auto simp: bit_simps)
  moreover have "unat x < 2 ^ LENGTH('a)" by (rule unsigned_less)
  then have "unat x div 2 ^ k * 2 ^ k < 2 ^ LENGTH('a)"
    using div_times_less_eq_dividend [of "unat x" "2 ^ k"] by linarith
  moreover have "unat (push_bit k (drop_bit k x)) = unat x div 2 ^ k * 2 ^ k"
  proof -
    have "unat (push_bit k (drop_bit k x)) =
        take_bit LENGTH('a) (push_bit k (drop_bit k (take_bit LENGTH('a) (unat x))))"
      by (simp only: unsigned_push_bit_eq unsigned_drop_bit_eq)
    moreover have "take_bit LENGTH('a) (unat x) = unat x"
      using \<open>unat x < _\<close> by (simp add: take_bit_nat_eq_self_iff)
    ultimately show ?thesis using \<open>unat x div 2 ^ k * 2 ^ k < _\<close>
      by (simp only: push_bit_eq_mult drop_bit_eq_div) (simp add: take_bit_nat_eq_self_iff)
  qed
  ultimately show ?thesis by simp
qed

lemma bit_slice:
  "bit (push_bit k (ucast (ucast (drop_bit k (v::'a::len word)) :: u8)) :: 'a word) n \<longleftrightarrow>
     n < LENGTH('a) \<and> k \<le> n \<and> n < k + 8 \<and> bit v n"
  by (auto simp: bit_simps dest: bit_imp_le_length)

lemma bit_slice0:
  "bit (ucast (ucast (v::'a::len word) :: u8) :: 'a word) n \<longleftrightarrow> n < 8 \<and> bit v n"
  by (auto simp: bit_simps dest: bit_imp_le_length)

end
