(* ===== verification/Linked_Lists.thy ===== *)
theory Linked_Lists
  imports Prelude
begin

text \<open>
  Linked structures on the heap, shared by the LRU cache, the pager, the buddy allocator and
  the free-list allocator.

  \<^item> \<open>chain nx h p xs q\<close>: following the field \<open>nx\<close> from \<open>p\<close> visits exactly the addresses
    \<open>xs\<close>, all allocated, and ends at \<open>q\<close> (hash buckets, free lists);
  \<^item> \<open>dls nx pv h p xs q\<close>: \<open>xs\<close> is a doubly linked segment whose first node points back to
    \<open>p\<close> and whose last node points on to \<open>q\<close>.

  The locale \<open>link_fields\<close> is the interface such a struct provides: two link fields with
  their assignments, and a payload the assignments do not touch. Its lemmas are the
  pointer-level correctness of the three manipulations every list of the repository uses
  (push at the front, unlink of an inner node, bypass of a chain node); every struct of the
  model interprets it.
\<close>

subsection \<open>Singly linked chains\<close>

fun chain :: "('n \<Rightarrow> ptr) \<Rightarrow> 'n heap \<Rightarrow> ptr \<Rightarrow> addr list \<Rightarrow> ptr \<Rightarrow> bool" where
  "chain nx h p [] q \<longleftrightarrow> p = q"
| "chain nx h p (a # as) q \<longleftrightarrow> p = Some a \<and> (\<exists>n. h a = Some n \<and> chain nx h (nx n) as q)"

lemma chain_append:
  "chain nx h p (xs @ ys) q \<longleftrightarrow> (\<exists>r. chain nx h p xs r \<and> chain nx h r ys q)"
  by (induction xs arbitrary: p) auto

lemma chain_None [simp]: "chain nx h None xs None \<longleftrightarrow> xs = []"
  by (cases xs) auto

lemma chain_Some:
  "chain nx h (Some a) xs None \<longleftrightarrow>
     (\<exists>n ys. xs = a # ys \<and> h a = Some n \<and> chain nx h (nx n) ys None)"
  by (cases xs) auto

lemma chain_frame [simp]: "a \<notin> set xs \<Longrightarrow> chain nx (h(a := v)) p xs q = chain nx h p xs q"
  by (induction xs arbitrary: p) auto

lemma chain_cong:
  "(\<And>a. a \<in> set xs \<Longrightarrow> map_option nx (h a) = map_option nx (h' a)) \<Longrightarrow>
     chain nx h p xs q = chain nx h' p xs q"
proof (induction xs arbitrary: p)
  case (Cons a xs)
  have "map_option nx (h a) = map_option nx (h' a)" using Cons.prems by simp
  moreover have "chain nx h r xs q = chain nx h' r xs q" for r
    using Cons.prems by (intro Cons.IH) simp
  ultimately show ?case by (cases "h a"; cases "h' a") auto
qed simp

lemma chain_allocated: "chain nx h p xs q \<Longrightarrow> a \<in> set xs \<Longrightarrow> \<exists>n. h a = Some n"
  by (induction xs arbitrary: p) auto

lemma chain_first: "chain nx h p xs q \<Longrightarrow> p = first_ptr xs q"
  by (cases xs) auto

lemma chain_functional: "chain nx h p xs None \<Longrightarrow> chain nx h p ys None \<Longrightarrow> xs = ys"
proof (induction xs arbitrary: p ys)
  case (Cons a xs)
  then show ?case by (cases ys) auto
qed simp

lemma chain_distinct: "chain nx h p xs None \<Longrightarrow> distinct xs"
proof (induction xs arbitrary: p)
  case (Cons a xs)
  then obtain n where n: "h a = Some n" and rest: "chain nx h (nx n) xs None" by auto
  have "a \<notin> set xs"
  proof
    assume "a \<in> set xs"
    then obtain us vs where xs: "xs = us @ a # vs" by (meson split_list)
    with rest have "chain nx h (Some a) (a # vs) None" by (auto simp: chain_append)
    with n have "chain nx h (nx n) vs None" by auto
    with rest have "xs = vs" by (rule chain_functional)
    with xs show False by simp
  qed
  with rest Cons.IH show ?case by auto
qed simp

subsection \<open>Doubly linked segments\<close>

fun dls :: "('n \<Rightarrow> ptr) \<Rightarrow> ('n \<Rightarrow> ptr) \<Rightarrow> 'n heap \<Rightarrow> ptr \<Rightarrow> addr list \<Rightarrow> ptr \<Rightarrow> bool" where
  "dls nx pv h p [] q \<longleftrightarrow> True"
| "dls nx pv h p (a # as) q \<longleftrightarrow>
     (\<exists>n. h a = Some n \<and> pv n = p \<and> nx n = first_ptr as q) \<and> dls nx pv h (Some a) as q"

lemma dls_append:
  "dls nx pv h p (xs @ ys) q \<longleftrightarrow>
     dls nx pv h p xs (first_ptr ys q) \<and> dls nx pv h (last_ptr xs p) ys q"
  by (induction xs arbitrary: p) auto

lemma dls_frame [simp]: "a \<notin> set xs \<Longrightarrow> dls nx pv (h(a := v)) p xs q = dls nx pv h p xs q"
  by (induction xs arbitrary: p) auto

lemma dls_cong:
  "(\<And>a. a \<in> set xs \<Longrightarrow>
      map_option (\<lambda>n. (nx n, pv n)) (h a) = map_option (\<lambda>n. (nx n, pv n)) (h' a)) \<Longrightarrow>
     dls nx pv h p xs q = dls nx pv h' p xs q"
proof (induction xs arbitrary: p)
  case (Cons a xs)
  have "map_option (\<lambda>n. (nx n, pv n)) (h a) = map_option (\<lambda>n. (nx n, pv n)) (h' a)"
    using Cons.prems by simp
  moreover have "dls nx pv h r xs q = dls nx pv h' r xs q" for r
    using Cons.prems by (intro Cons.IH) simp
  ultimately show ?case by (cases "h a"; cases "h' a") auto
qed simp

lemma dls_allocated: "dls nx pv h p xs q \<Longrightarrow> a \<in> set xs \<Longrightarrow> \<exists>n. h a = Some n"
  by (induction xs arbitrary: p) auto

lemma dls_node:
  "dls nx pv h p (xs @ a # ys) q \<Longrightarrow>
     \<exists>n. h a = Some n \<and> pv n = last_ptr xs p \<and> nx n = first_ptr ys q"
  by (auto simp: dls_append)

lemma dls_chain: "dls nx pv h p xs q \<Longrightarrow> chain nx h (first_ptr xs q) xs q"
  by (induction xs arbitrary: p) auto

lemma dls_distinct: "dls nx pv h p xs None \<Longrightarrow> distinct xs"
  by (auto dest: dls_chain chain_distinct)

subsection \<open>The interface of a struct with link fields\<close>

text \<open>
  \<open>store_if\<close> is the guarded write \<^verbatim>\<open>if (p) p->f = v;\<close>.
\<close>

definition store_if :: "ptr \<Rightarrow> ('n \<Rightarrow> 'n) \<Rightarrow> 'n heap \<Rightarrow> 'n heap option" where
  "store_if p f h = (if p = None then Some h else store p f h)"

lemma store_if_None [heap_simps]: "store_if None f h = Some h"
  by (simp add: store_if_def)

lemma store_if_Some [heap_simps]: "h a = Some n \<Longrightarrow> store_if (Some a) f h = Some (h(a \<mapsto> f n))"
  by (simp add: store_if_def heap_simps)

locale link_fields =
  fixes nx pv :: "'n \<Rightarrow> ptr"
    and set_nx set_pv :: "ptr \<Rightarrow> 'n \<Rightarrow> 'n"
    and payload :: "'n \<Rightarrow> 'p"
  assumes nx_set_nx: "nx (set_nx p n) = p"
    and nx_set_pv: "nx (set_pv p n) = nx n"
    and pv_set_nx: "pv (set_nx p n) = pv n"
    and pv_set_pv: "pv (set_pv p n) = p"
    and payload_set_nx: "payload (set_nx p n) = payload n"
    and payload_set_pv: "payload (set_pv p n) = payload n"
begin

lemmas link_simps = nx_set_nx nx_set_pv pv_set_nx pv_set_pv payload_set_nx payload_set_pv

lemma dls_set_last:
  assumes "dls nx pv h p (xs @ [a]) q" "distinct (xs @ [a])" "h a = Some n"
  shows "dls nx pv (h(a \<mapsto> set_nx r n)) p (xs @ [a]) r"
  using assms by (auto simp: dls_append link_simps)

lemma dls_set_first:
  assumes "dls nx pv h p (a # xs) q" "a \<notin> set xs" "h a = Some n"
  shows "dls nx pv (h(a \<mapsto> set_pv r n)) r (a # xs) q"
  using assms by (auto simp: link_simps)

text \<open>
  The two guarded writes of an unlink, \<^verbatim>\<open>if (n->prev) n->prev->next = n->next;\<close> and
  \<^verbatim>\<open>if (n->next) n->next->prev = n->prev;\<close>, bypass the node: the remaining nodes are a
  doubly linked list in the same order, and no payload changes.
\<close>

lemma unlink:
  assumes d: "dls nx pv h None (xs @ a # ys) None" and n: "h a = Some n"
  obtains h1 h2 where
    "store_if (pv n) (set_nx (nx n)) h = Some h1"
    "h1 a = Some n"
    "store_if (nx n) (set_pv (pv n)) h1 = Some h2"
    "h2 a = Some n"
    "dls nx pv h2 None (xs @ ys) None"
    "\<And>b. map_option payload (h2 b) = map_option payload (h b)"
    "\<And>b. b \<notin> set (xs @ ys) \<Longrightarrow> h2 b = h b"
proof -
  have dist: "distinct (xs @ a # ys)" using d by (rule dls_distinct)
  have ptrs: "pv n = last_ptr xs None" "nx n = first_ptr ys None"
    using dls_node [OF d] n by auto
  have dx: "dls nx pv h None xs (Some a)" and dy: "dls nx pv h (Some a) ys None"
    using d by (auto simp: dls_append)
  obtain h1 where h1: "store_if (pv n) (set_nx (nx n)) h = Some h1" "h1 a = Some n"
    "dls nx pv h1 None xs (first_ptr ys None)" "dls nx pv h1 (Some a) ys None"
    "\<And>b. map_option payload (h1 b) = map_option payload (h b)"
    "\<And>b. b \<notin> set xs \<Longrightarrow> h1 b = h b"
  proof (cases xs rule: rev_cases)
    case Nil
    with that [of h] n dx dy ptrs show ?thesis by (simp add: heap_simps)
  next
    case (snoc us c)
    then obtain m where m: "h c = Some m" using dx dls_allocated by fastforce
    show ?thesis
    proof (rule that [of "h(c \<mapsto> set_nx (nx n) m)"])
      show "store_if (pv n) (set_nx (nx n)) h = Some (h(c \<mapsto> set_nx (nx n) m))"
        using m snoc ptrs by (simp add: heap_simps)
      show "dls nx pv (h(c \<mapsto> set_nx (nx n) m)) None xs (first_ptr ys None)"
        using dls_set_last [of h None us c "Some a" m] dx dist m snoc ptrs by simp
    qed (use snoc dist n dy m in \<open>auto simp: link_simps\<close>)
  qed
  obtain h2 where h2: "store_if (nx n) (set_pv (pv n)) h1 = Some h2" "h2 a = Some n"
    "dls nx pv h2 None xs (first_ptr ys None)" "dls nx pv h2 (last_ptr xs None) ys None"
    "\<And>b. map_option payload (h2 b) = map_option payload (h1 b)"
    "\<And>b. b \<notin> set ys \<Longrightarrow> h2 b = h1 b"
  proof (cases ys)
    case Nil
    with that [of h1] h1 ptrs show ?thesis by (simp add: heap_simps)
  next
    case (Cons c us)
    then obtain m where m: "h1 c = Some m" using h1(4) dls_allocated by fastforce
    show ?thesis
    proof (rule that [of "h1(c \<mapsto> set_pv (pv n) m)"])
      show "store_if (nx n) (set_pv (pv n)) h1 = Some (h1(c \<mapsto> set_pv (pv n) m))"
        using m Cons ptrs by (simp add: heap_simps)
      show "dls nx pv (h1(c \<mapsto> set_pv (pv n) m)) (last_ptr xs None) ys None"
        using dls_set_first [of h1 "Some a" c us None m] h1(4) dist m Cons ptrs by simp
    qed (use Cons dist h1 m in \<open>auto simp: link_simps\<close>)
  qed
  show ?thesis
    by (rule that [OF h1(1,2) h2(1,2)]) (use h1 h2 in \<open>auto simp: dls_append\<close>)
qed

text \<open>
  Pushing a node \<open>a\<close> whose \<open>next\<close> is the old head: after \<^verbatim>\<open>if (head) head->prev = a;\<close> the
  list is \<open>a\<close> followed by the old list.
\<close>

lemma push_front:
  assumes d: "dls nx pv h None xs None" and a: "a \<notin> set xs" and n: "h a = Some n"
    and links: "pv n = None" "nx n = first_ptr xs None"
  obtains h1 where
    "store_if (first_ptr xs None) (set_pv (Some a)) h = Some h1"
    "h1 a = Some n"
    "dls nx pv h1 None (a # xs) None"
    "\<And>b. map_option payload (h1 b) = map_option payload (h b)"
    "\<And>b. b \<notin> set xs \<Longrightarrow> h1 b = h b"
proof (cases xs)
  case Nil
  with that [of h] assms show ?thesis by (simp add: heap_simps)
next
  case (Cons c us)
  then obtain m where m: "h c = Some m" using d by auto
  have dist: "c \<notin> set us" using dls_distinct [OF d] Cons by simp
  show ?thesis
  proof (rule that [of "h(c \<mapsto> set_pv (Some a) m)"])
    show "dls nx pv (h(c \<mapsto> set_pv (Some a) m)) None (a # xs) None"
      using dls_set_first [of h None c us None m "Some a"] d dist m Cons a n links by simp
  qed (use Cons a n m in \<open>auto simp: heap_simps link_simps\<close>)
qed

end

text \<open>
  A chain loses the node \<open>a\<close> when the link that points to it is redirected: the head pointer,
  or the \<open>nx\<close> field of the node \<open>d\<close> before it.
\<close>

lemma chain_bypass:
  assumes c: "chain nx h p (us @ d # a # vs) None" and d: "h d = Some m" and a: "h a = Some n"
    and upd: "nx (f m) = nx n"
  shows "chain nx (h(d \<mapsto> f m)) p (us @ d # vs) None"
proof -
  have "distinct (us @ d # a # vs)" using c by (rule chain_distinct)
  moreover have "chain nx h (nx n) vs None" using c d a by (auto simp: chain_append)
  ultimately show ?thesis using c upd by (auto simp: chain_append)
qed

end
