(* ===== verification/LRU_Cache.thy ===== *)
theory LRU_Cache
  imports Linked_Lists
begin

text \<open>
  The LRU cache of \<^verbatim>\<open>Phase-1/Day30/C/lru.c\<close> and of its benchmark copy \<^verbatim>\<open>bench_c.c\<close>: a
  hash table of chained nodes and an intrusive doubly linked list in order of use. Every
  operation is modelled on the heap, pointer write by pointer write; the two files differ in
  their hash function and table size only, so the operations take the hash function as an
  argument, and the lemmas are proved once in the locale \<open>bucket_hash\<close>, which both hash
  functions interpret.

  The abstract cache is the list of its (key, value) pairs, most recently used first.
\<close>

subsection \<open>The structs\<close>

record lru_node =
  key :: i32
  val :: i32
  prv :: ptr
  nxt :: ptr
  hnext :: ptr

record lru_cache =
  heap :: "lru_node heap"
  head :: ptr
  tail :: ptr
  table :: "ptr list"
  size :: int
  capacity :: int

text \<open>What the operations print.\<close>

datatype lru_event =
  Evicting i32
| Updated i32 i32
| Inserted i32 i32
| Get_hit i32 i32
| Get_miss i32

subsection \<open>Hash functions and construction\<close>

definition TABLE_SIZE :: nat where
  "TABLE_SIZE = 16"

definition lru_hash :: "i32 \<Rightarrow> nat" where
  "lru_hash k = unat (k * 2654435761) mod TABLE_SIZE"

text \<open>
  \<^verbatim>\<open>createCache\<close>: \<^verbatim>\<open>calloc\<close> zeroes the cache, so both ends and all buckets are null.
\<close>

definition createCache :: "nat \<Rightarrow> int \<Rightarrow> lru_cache" where
  "createCache buckets cap =
     \<lparr>heap = Map.empty, head = None, tail = None, table = replicate buckets None,
      size = 0, capacity = cap\<rparr>"

subsection \<open>The hash chains\<close>

partial_function (option) find_loop :: "lru_node heap \<Rightarrow> i32 \<Rightarrow> ptr \<Rightarrow> ptr option" where
  "find_loop h k p =
     (case p of None \<Rightarrow> Some None
      | Some a \<Rightarrow>
          (case load h p of None \<Rightarrow> None
           | Some n \<Rightarrow> if key n = k then Some p else find_loop h k (hnext n)))"

definition tableFind :: "(i32 \<Rightarrow> nat) \<Rightarrow> lru_cache \<Rightarrow> i32 \<Rightarrow> ptr option" where
  "tableFind hf c k = find_loop (heap c) k (table c ! hf k)"

definition tableInsert :: "(i32 \<Rightarrow> nat) \<Rightarrow> lru_cache \<Rightarrow> ptr \<Rightarrow> lru_cache option" where
  "tableInsert hf c node = do {
     n \<leftarrow> load (heap c) node;
     let b = hf (key n);
     h \<leftarrow> store node (\<lambda>n. n\<lparr>hnext := table c ! b\<rparr>) (heap c);
     Some (c\<lparr>heap := h, table := (table c)[b := node]\<rparr>)
   }"

text \<open>
  \<^verbatim>\<open>tableRemove\<close> walks a pointer \<^verbatim>\<open>pp\<close> to the link it may have to redirect: the bucket head
  \<^verbatim>\<open>&c->table[h]\<close> or the field \<^verbatim>\<open>&(*pp)->hnext\<close> of a node.
\<close>

datatype link = Bucket nat | Hnext addr

fun read_link :: "lru_cache \<Rightarrow> link \<Rightarrow> ptr option" where
  "read_link c (Bucket b) = Some (table c ! b)"
| "read_link c (Hnext a) = map_option hnext (heap c a)"

fun write_link :: "link \<Rightarrow> ptr \<Rightarrow> lru_cache \<Rightarrow> lru_cache option" where
  "write_link (Bucket b) p c = Some (c\<lparr>table := (table c)[b := p]\<rparr>)"
| "write_link (Hnext a) p c =
     (case store (Some a) (\<lambda>n. n\<lparr>hnext := p\<rparr>) (heap c) of None \<Rightarrow> None
      | Some h \<Rightarrow> Some (c\<lparr>heap := h\<rparr>))"

partial_function (option) remove_loop :: "i32 \<Rightarrow> link \<Rightarrow> lru_cache \<Rightarrow> lru_cache option" where
  "remove_loop k pp c =
     (case read_link c pp of None \<Rightarrow> None
      | Some p \<Rightarrow>
        (case p of None \<Rightarrow> Some c
         | Some a \<Rightarrow>
           (case load (heap c) p of None \<Rightarrow> None
            | Some n \<Rightarrow>
                if key n = k then write_link pp (hnext n) c
                else remove_loop k (Hnext a) c)))"

definition tableRemove :: "(i32 \<Rightarrow> nat) \<Rightarrow> lru_cache \<Rightarrow> i32 \<Rightarrow> lru_cache option" where
  "tableRemove hf c k = remove_loop k (Bucket (hf k)) c"

subsection \<open>The list in order of use\<close>

definition listAddFront :: "lru_cache \<Rightarrow> ptr \<Rightarrow> lru_cache option" where
  "listAddFront c n = do {
     h1 \<leftarrow> store n (\<lambda>m. m\<lparr>prv := None\<rparr>) (heap c);
     h2 \<leftarrow> store n (\<lambda>m. m\<lparr>nxt := head c\<rparr>) h1;
     h3 \<leftarrow> store_if (head c) (\<lambda>m. m\<lparr>prv := n\<rparr>) h2;
     Some (c\<lparr>heap := h3, head := n, tail := (if tail c = None then n else tail c)\<rparr>)
   }"

definition listUnlink :: "lru_cache \<Rightarrow> ptr \<Rightarrow> lru_cache option" where
  "listUnlink c n = do {
     m \<leftarrow> load (heap c) n;
     h1 \<leftarrow> store_if (prv m) (\<lambda>x. x\<lparr>nxt := nxt m\<rparr>) (heap c);
     let hd' = (if prv m = None then nxt m else head c);
     m' \<leftarrow> load h1 n;
     h2 \<leftarrow> store_if (nxt m') (\<lambda>x. x\<lparr>prv := prv m'\<rparr>) h1;
     let tl' = (if nxt m' = None then prv m' else tail c);
     Some (c\<lparr>heap := h2, head := hd', tail := tl'\<rparr>)
   }"

definition moveToFront :: "lru_cache \<Rightarrow> ptr \<Rightarrow> lru_cache option" where
  "moveToFront c n =
     (if head c = n then Some c
      else do { c1 \<leftarrow> listUnlink c n; listAddFront c1 n })"

subsection \<open>The cache operations\<close>

definition evictLRU :: "(i32 \<Rightarrow> nat) \<Rightarrow> lru_cache \<Rightarrow> (lru_cache \<times> lru_event list) option" where
  "evictLRU hf c =
     (let victim = tail c in
      if victim = None then Some (c, [])
      else do {
        v \<leftarrow> load (heap c) victim;
        let ev = [Evicting (key v)];
        c1 \<leftarrow> listUnlink c victim;
        v1 \<leftarrow> load (heap c1) victim;
        c2 \<leftarrow> tableRemove hf c1 (key v1);
        h \<leftarrow> dealloc victim (heap c2);
        Some (c2\<lparr>heap := h, size := size c2 - 1\<rparr>, ev)
      })"

text \<open>
  \<^verbatim>\<open>put\<close> does not test the result of \<^verbatim>\<open>malloc\<close>: a null result is dereferenced at once.
\<close>

definition put ::
  "lru_node allocator \<Rightarrow> (i32 \<Rightarrow> nat) \<Rightarrow> lru_cache \<Rightarrow> i32 \<Rightarrow> i32 \<Rightarrow>
     (lru_cache \<times> lru_event list) option" where
  "put alloc hf c k v = do {
     n \<leftarrow> tableFind hf c k;
     if n \<noteq> None then do {
       h \<leftarrow> store n (\<lambda>m. m\<lparr>val := v\<rparr>) (heap c);
       c1 \<leftarrow> moveToFront (c\<lparr>heap := h\<rparr>) n;
       Some (c1, [Updated k v])
     } else do {
       (c1, ev) \<leftarrow> (if size c = capacity c then evictLRU hf c else Some (c, []));
       (a, junk) \<leftarrow> alloc (heap c1);
       let h = (heap c1)(a \<mapsto> junk\<lparr>key := k, val := v, hnext := None\<rparr>);
       c2 \<leftarrow> listAddFront (c1\<lparr>heap := h\<rparr>) (Some a);
       c3 \<leftarrow> tableInsert hf c2 (Some a);
       Some (c3\<lparr>size := size c3 + 1\<rparr>, ev @ [Inserted k v])
     }
   }"

definition get :: "(i32 \<Rightarrow> nat) \<Rightarrow> lru_cache \<Rightarrow> i32 \<Rightarrow> (lru_cache \<times> i32 \<times> lru_event list) option" where
  "get hf c k = do {
     n \<leftarrow> tableFind hf c k;
     if n = None then Some (c, -1, [Get_miss k])
     else do {
       c1 \<leftarrow> moveToFront c n;
       m \<leftarrow> load (heap c1) n;
       Some (c1, val m, [Get_hit k (val m)])
     }
   }"

partial_function (option) free_loop :: "ptr \<Rightarrow> lru_node heap \<Rightarrow> lru_node heap option" where
  "free_loop p h =
     (case p of None \<Rightarrow> Some h
      | Some a \<Rightarrow>
        (case load h p of None \<Rightarrow> None
         | Some n \<Rightarrow>
           (case dealloc p h of None \<Rightarrow> None
            | Some h' \<Rightarrow> free_loop (nxt n) h')))"

text \<open>\<^verbatim>\<open>freeCache\<close>: what is left of the heap of nodes.\<close>

definition freeCache :: "lru_cache \<Rightarrow> lru_node heap option" where
  "freeCache c = free_loop (head c) (heap c)"


subsection \<open>The invariant and the abstract cache\<close>

abbreviation key_at :: "lru_node heap \<Rightarrow> addr \<Rightarrow> i32" where
  "key_at h a \<equiv> key (the (h a))"

abbreviation val_at :: "lru_node heap \<Rightarrow> addr \<Rightarrow> i32" where
  "val_at h a \<equiv> val (the (h a))"

definition entries :: "lru_node heap \<Rightarrow> addr list \<Rightarrow> (i32 \<times> i32) list" where
  "entries h xs = map (\<lambda>a. (key_at h a, val_at h a)) xs"

definition list_inv :: "lru_cache \<Rightarrow> addr list \<Rightarrow> bool" where
  "list_inv c xs \<longleftrightarrow>
     dls nxt prv (heap c) None xs None \<and> head c = first_ptr xs None \<and> tail c = last_ptr xs None"

text \<open>Bucket \<open>b\<close> chains exactly the nodes of \<open>S\<close> whose key hashes to \<open>b\<close>.\<close>

definition table_inv :: "(i32 \<Rightarrow> nat) \<Rightarrow> nat \<Rightarrow> lru_cache \<Rightarrow> addr set \<Rightarrow> bool" where
  "table_inv hf nb c S \<longleftrightarrow> length (table c) = nb \<and>
     (\<forall>b < nb. \<exists>ch. chain hnext (heap c) (table c ! b) ch None \<and>
        set ch = {a \<in> S. hf (key_at (heap c) a) = b})"

definition lru_inv :: "(i32 \<Rightarrow> nat) \<Rightarrow> nat \<Rightarrow> lru_cache \<Rightarrow> addr list \<Rightarrow> bool" where
  "lru_inv hf nb c xs \<longleftrightarrow>
     list_inv c xs \<and> table_inv hf nb c (set xs) \<and> dom (heap c) = set xs \<and>
     inj_on (key_at (heap c)) (set xs) \<and> size c = int (length xs)"

text \<open>
  \<open>represents hf nb c l\<close>: the cache \<open>c\<close> is well formed and holds the entries \<open>l\<close>, most
  recently used first.
\<close>

definition represents :: "(i32 \<Rightarrow> nat) \<Rightarrow> nat \<Rightarrow> lru_cache \<Rightarrow> (i32 \<times> i32) list \<Rightarrow> bool" where
  "represents hf nb c l \<longleftrightarrow>
     (\<exists>xs. lru_inv hf nb c xs \<and> l = entries (heap c) xs) \<and> int (length l) \<le> capacity c"

text \<open>The specification of the two operations on the list of entries.\<close>

definition without :: "i32 \<Rightarrow> (i32 \<times> i32) list \<Rightarrow> (i32 \<times> i32) list" where
  "without k l = filter (\<lambda>e. fst e \<noteq> k) l"

definition spec_put :: "nat \<Rightarrow> (i32 \<times> i32) list \<Rightarrow> i32 \<Rightarrow> i32 \<Rightarrow> (i32 \<times> i32) list \<times> lru_event list" where
  "spec_put cap l k v =
     (if k \<in> fst ` set l then ((k, v) # without k l, [Updated k v])
      else if length l = cap
           then ((k, v) # butlast l, [Evicting (fst (last l)), Inserted k v])
           else ((k, v) # l, [Inserted k v]))"

definition spec_get :: "(i32 \<times> i32) list \<Rightarrow> i32 \<Rightarrow> (i32 \<times> i32) list \<times> i32 \<times> lru_event list" where
  "spec_get l k =
     (case map_of l k of
        None \<Rightarrow> (l, -1, [Get_miss k])
      | Some v \<Rightarrow> ((k, v) # without k l, v, [Get_hit k v]))"

subsection \<open>Pointer-level lemmas\<close>

lemma list_inv_distinct: "list_inv c xs \<Longrightarrow> distinct xs"
  by (auto simp: list_inv_def intro: dls_distinct)

interpretation lru: link_fields nxt prv "\<lambda>p n. n\<lparr>nxt := p\<rparr>" "\<lambda>p n. n\<lparr>prv := p\<rparr>"
  "\<lambda>n. (key n, val n, hnext n)"
  by unfold_locales auto

lemma payload_at:
  assumes "map_option (\<lambda>n. (key n, val n, hnext n)) (h' a) =
           map_option (\<lambda>n. (key n, val n, hnext n)) (h a)"
  shows "h' a = None \<longleftrightarrow> h a = None" "key_at h' a = key_at h a" "val_at h' a = val_at h a"
    "map_option (\<lambda>n. (key n, hnext n)) (h' a) = map_option (\<lambda>n. (key n, hnext n)) (h a)"
  using assms by (cases "h a"; cases "h' a"; simp)+

lemma listUnlink_ok:
  assumes "list_inv c (xs @ a # ys)"
  obtains h where
    "listUnlink c (Some a) = Some (c\<lparr>heap := h, head := first_ptr (xs @ ys) None,
                                     tail := last_ptr (xs @ ys) None\<rparr>)"
    "h a = heap c a" "dls nxt prv h None (xs @ ys) None"
    "\<And>b. map_option (\<lambda>n. (key n, val n, hnext n)) (h b) =
         map_option (\<lambda>n. (key n, val n, hnext n)) (heap c b)"
proof -
  have d: "dls nxt prv (heap c) None (xs @ a # ys) None"
    and ends: "head c = first_ptr (xs @ a # ys) None" "tail c = last_ptr (xs @ a # ys) None"
    using assms by (auto simp: list_inv_def)
  obtain n where n: "heap c a = Some n" "prv n = last_ptr xs None" "nxt n = first_ptr ys None"
    using dls_node [OF d] by auto
  show ?thesis
  proof (rule lru.unlink [OF d n(1)])
    fix h1 h2
    assume h: "store_if (prv n) (\<lambda>m. m\<lparr>nxt := nxt n\<rparr>) (heap c) = Some h1" "h1 a = Some n"
      "store_if (nxt n) (\<lambda>m. m\<lparr>prv := prv n\<rparr>) h1 = Some h2" "h2 a = Some n"
      "dls nxt prv h2 None (xs @ ys) None"
      "\<And>b. map_option (\<lambda>n. (key n, val n, hnext n)) (h2 b) =
           map_option (\<lambda>n. (key n, val n, hnext n)) (heap c b)"
    have "listUnlink c (Some a) = Some (c\<lparr>heap := h2,
        head := (if prv n = None then nxt n else head c),
        tail := (if nxt n = None then prv n else tail c)\<rparr>)"
      by (simp add: listUnlink_def heap_simps n(1) h(1-3) Let_def)
    moreover have "(if prv n = None then nxt n else head c) = first_ptr (xs @ ys) None"
      using n(2,3) ends(1) by (cases xs) (simp_all add: last_ptr_def)
    moreover have "(if nxt n = None then prv n else tail c) = last_ptr (xs @ ys) None"
      using n(2,3) ends(2) by (cases ys) (simp_all add: last_ptr_def)
    ultimately show ?thesis using that [of h2] h(4-6) n(1) by simp
  qed
qed

lemma listAddFront_ok:
  assumes l: "list_inv c xs" and a: "a \<notin> set xs" "heap c a = Some n"
  obtains h where
    "listAddFront c (Some a) = Some (c\<lparr>heap := h, head := Some a, tail := last_ptr (a # xs) None\<rparr>)"
    "dls nxt prv h None (a # xs) None"
    "\<And>b. map_option (\<lambda>n. (key n, val n, hnext n)) (h b) =
         map_option (\<lambda>n. (key n, val n, hnext n)) (heap c b)"
proof -
  let ?n = "n\<lparr>prv := None, nxt := head c\<rparr>" and ?h = "(heap c)(a \<mapsto> n\<lparr>prv := None, nxt := head c\<rparr>)"
  have ends: "head c = first_ptr xs None" "tail c = last_ptr xs None"
    and d: "dls nxt prv ?h None xs None"
    using l a by (auto simp: list_inv_def)
  have "?h a = Some ?n" "prv ?n = None" "nxt ?n = first_ptr xs None"
    using ends(1) by simp_all
  then show ?thesis
  proof (rule lru.push_front [OF d a(1)])
    fix h1
    assume h: "store_if (first_ptr xs None) (\<lambda>m. m\<lparr>prv := Some a\<rparr>) ?h = Some h1"
      "dls nxt prv h1 None (a # xs) None"
      "\<And>b. map_option (\<lambda>n. (key n, val n, hnext n)) (h1 b) =
           map_option (\<lambda>n. (key n, val n, hnext n)) (?h b)"
    have "listAddFront c (Some a) =
        Some (c\<lparr>heap := h1, head := Some a, tail := last_ptr (a # xs) None\<rparr>)"
      using h(1) ends by (simp add: listAddFront_def heap_simps a(2) last_ptr_def)
    then show ?thesis
      by (rule that) (use h a(2) in \<open>auto split: if_splits\<close>)
  qed
qed

lemma moveToFront_ok:
  assumes l: "list_inv c (xs @ a # ys)"
  obtains h where
    "moveToFront c (Some a) =
       Some (c\<lparr>heap := h, head := Some a, tail := last_ptr (a # xs @ ys) None\<rparr>)"
    "dls nxt prv h None (a # xs @ ys) None"
    "\<And>b. map_option (\<lambda>n. (key n, val n, hnext n)) (h b) =
         map_option (\<lambda>n. (key n, val n, hnext n)) (heap c b)"
proof (cases "head c = Some a")
  case True
  have d: "dls nxt prv (heap c) None (xs @ a # ys) None"
    and ends: "head c = first_ptr (xs @ a # ys) None" "tail c = last_ptr (xs @ a # ys) None"
    using l by (auto simp: list_inv_def)
  have "xs = []" using dls_distinct [OF d] True ends(1) by (cases xs) auto
  then show ?thesis using that [of "heap c"] True d ends by (simp add: moveToFront_def)
next
  case False
  have d: "dls nxt prv (heap c) None (xs @ a # ys) None" using l by (simp add: list_inv_def)
  have a: "a \<notin> set (xs @ ys)" using dls_distinct [OF d] by simp
  obtain n where n: "heap c a = Some n" using dls_node [OF d] by auto
  show ?thesis
  proof (rule listUnlink_ok [OF l])
    fix h1
    let ?c1 = "c\<lparr>heap := h1, head := first_ptr (xs @ ys) None, tail := last_ptr (xs @ ys) None\<rparr>"
    assume h1: "listUnlink c (Some a) = Some ?c1" "h1 a = heap c a" "dls nxt prv h1 None (xs @ ys) None"
      "\<And>b. map_option (\<lambda>n. (key n, val n, hnext n)) (h1 b) =
           map_option (\<lambda>n. (key n, val n, hnext n)) (heap c b)"
    have "list_inv ?c1 (xs @ ys)" using h1(3) by (simp add: list_inv_def)
    moreover have "heap ?c1 a = Some n" using h1(2) n by simp
    ultimately show ?thesis
    proof (rule listAddFront_ok [OF _ a])
      fix h
      assume h: "listAddFront ?c1 (Some a) =
          Some (?c1\<lparr>heap := h, head := Some a, tail := last_ptr (a # xs @ ys) None\<rparr>)"
        "dls nxt prv h None (a # xs @ ys) None"
        "\<And>b. map_option (\<lambda>n. (key n, val n, hnext n)) (h b) =
             map_option (\<lambda>n. (key n, val n, hnext n)) (heap ?c1 b)"
      show ?thesis
        by (rule that [of h]) (use False h h1 in \<open>simp_all add: moveToFront_def\<close>)
    qed
  qed
qed

subsection \<open>Chain-level lemmas\<close>

lemma find_loop_chain:
  "chain hnext h p ch None \<Longrightarrow> find_loop h k p = Some (List.find (\<lambda>a. key_at h a = k) ch)"
proof (induction ch arbitrary: p)
  case Nil
  then show ?case by (simp add: find_loop.simps)
next
  case (Cons a ch)
  then obtain n where n: "p = Some a" "h a = Some n" "chain hnext h (hnext n) ch None" by auto
  then show ?case using Cons.IH [OF n(3)]
    by (subst find_loop.simps) (simp add: heap_simps)
qed

lemma remove_loop_chain:
  assumes "read_link c pp = Some p" "chain hnext (heap c) p (us @ a # vs) None"
    "\<And>b. b \<in> set us \<Longrightarrow> key_at (heap c) b \<noteq> k" "heap c a = Some n" "key n = k"
  shows "remove_loop k pp c = write_link (if us = [] then pp else Hnext (last us)) (hnext n) c"
  using assms
proof (induction us arbitrary: pp p)
  case Nil
  then show ?case by (subst remove_loop.simps) (simp add: heap_simps)
next
  case (Cons d us)
  then obtain m where m: "p = Some d" "heap c d = Some m"
    "chain hnext (heap c) (hnext m) (us @ a # vs) None" by auto
  have "key m \<noteq> k" using Cons.prems(3) [of d] m(2) by simp
  then have "remove_loop k pp c = remove_loop k (Hnext d) c"
    using Cons.prems(1) m by (subst remove_loop.simps) (simp add: heap_simps)
  also have "\<dots> = write_link (if us = [] then Hnext d else Hnext (last us)) (hnext n) c"
    by (rule Cons.IH) (use Cons.prems m in auto)
  finally show ?case by simp
qed

lemma free_loop_ok:
  "dls nxt prv h q xs None \<Longrightarrow> distinct xs \<Longrightarrow>
     free_loop (first_ptr xs None) h = Some (\<lambda>a. if a \<in> set xs then None else h a)"
proof (induction xs arbitrary: h q)
  case Nil
  then show ?case by (simp add: free_loop.simps)
next
  case (Cons a xs)
  then obtain n where n: "h a = Some n" "nxt n = first_ptr xs None" "dls nxt prv h (Some a) xs None"
    by auto
  have d': "dls nxt prv (h(a := None)) (Some a) xs None" using Cons.prems(2) n(3) by simp
  have "free_loop (Some a) h = free_loop (first_ptr xs None) (h(a := None))"
    using n by (subst free_loop.simps) (simp add: heap_simps)
  also have "\<dots> = Some (\<lambda>b. if b \<in> set xs then None else (h(a := None)) b)"
    by (rule Cons.IH [OF d']) (use Cons.prems(2) in simp)
  finally show ?case by (auto simp: fun_eq_iff)
qed

subsection \<open>Congruence of the invariant\<close>

lemma table_inv_cong:
  assumes "table c' = table c"
    and "\<And>b. map_option (\<lambda>n. (key n, hnext n)) (heap c' b) =
              map_option (\<lambda>n. (key n, hnext n)) (heap c b)"
  shows "table_inv hf nb c' S = table_inv hf nb c S"
proof -
  have eq: "map_option hnext (heap c' b) = map_option hnext (heap c b)"
    "key_at (heap c') b = key_at (heap c) b" for b
    using assms(2) [of b] by (cases "heap c b"; cases "heap c' b"; simp)+
  have "chain hnext (heap c') p ch None = chain hnext (heap c) p ch None" for p ch
    by (rule chain_cong) (rule eq(1))
  then show ?thesis by (simp add: table_inv_def assms(1) eq(2))
qed

lemma table_invE:
  assumes "table_inv hf nb c S" "b < nb"
  obtains ch where "chain hnext (heap c) (table c ! b) ch None"
    "set ch = {a \<in> S. hf (key_at (heap c) a) = b}"
  using assms by (auto simp: table_inv_def)

lemma lru_inv_distinct: "lru_inv hf nb c xs \<Longrightarrow> distinct xs"
  by (auto simp: lru_inv_def intro: list_inv_distinct)

lemma representsI:
  "lru_inv hf nb c xs \<Longrightarrow> l = entries (heap c) xs \<Longrightarrow> int (length xs) \<le> capacity c \<Longrightarrow>
     represents hf nb c l"
  by (auto simp: represents_def entries_def)

lemma represents_distinct:
  assumes "represents hf nb c l"
  shows "distinct (map fst l)"
proof -
  obtain xs where inv: "lru_inv hf nb c xs" and l: "l = entries (heap c) xs"
    using assms by (auto simp: represents_def)
  have "map fst l = map (key_at (heap c)) xs" by (simp add: l entries_def comp_def)
  moreover have "inj_on (key_at (heap c)) (set xs)" using inv by (simp add: lru_inv_def)
  ultimately show ?thesis using lru_inv_distinct [OF inv] by (simp only: distinct_map)
qed

text \<open>Relinking the list of a well-formed cache, payloads kept, only changes the order.\<close>

lemma lru_inv_relink:
  assumes inv: "lru_inv hf nb c xs" and perm: "set xs' = set xs" "distinct xs'"
    and d: "dls nxt prv h None xs' None"
    and pay: "\<And>b. map_option (\<lambda>n. (key n, val n, hnext n)) (h b) =
                   map_option (\<lambda>n. (key n, val n, hnext n)) (heap c b)"
    and c': "c' = c\<lparr>heap := h, head := first_ptr xs' None, tail := last_ptr xs' None\<rparr>"
  shows "lru_inv hf nb c' xs'" "entries (heap c') ys = entries (heap c) ys"
proof -
  have p: "h b = None \<longleftrightarrow> heap c b = None" "key_at h b = key_at (heap c) b"
    "val_at h b = val_at (heap c) b"
    "map_option (\<lambda>n. (key n, hnext n)) (h b) = map_option (\<lambda>n. (key n, hnext n)) (heap c b)" for b
    using payload_at [where h' = h and h = "heap c", OF pay] by blast+
  have "distinct xs" using inv dls_distinct by (auto simp: lru_inv_def list_inv_def)
  then have len: "length xs' = length xs" using perm by (metis distinct_card)
  have "table_inv hf nb c' (set xs) = table_inv hf nb c (set xs)"
    by (rule table_inv_cong) (simp_all add: c' p(4))
  moreover have "dom h = dom (heap c)" using p(1) by (simp add: dom_def)
  moreover have "inj_on (key_at h) (set xs) = inj_on (key_at (heap c)) (set xs)"
    by (simp add: inj_on_def p(2))
  ultimately show "lru_inv hf nb c' xs'"
    using inv d perm len by (simp add: lru_inv_def list_inv_def c')
  show "entries (heap c') ys = entries (heap c) ys"
    by (simp add: entries_def c' p(2,3))
qed

subsection \<open>The interface of the hash function\<close>

text \<open>
  All the table relies on is that the hash of every key is a valid bucket number. Both
  hash functions of the repository interpret this interface below.
\<close>

locale bucket_hash =
  fixes hf :: "i32 \<Rightarrow> nat" and nb :: nat
  assumes hf_less: "hf k < nb"
begin

lemma tableFind_cases:
  assumes "lru_inv hf nb c xs"
  obtains (absent) "tableFind hf c k = Some None" "k \<notin> key_at (heap c) ` set xs"
  | (present) a where "tableFind hf c k = Some (Some a)" "a \<in> set xs" "key_at (heap c) a = k"
proof -
  obtain ch where ch: "chain hnext (heap c) (table c ! hf k) ch None"
    "set ch = {a \<in> set xs. hf (key_at (heap c) a) = hf k}"
    using assms hf_less [of k] by (auto simp: lru_inv_def table_inv_def)
  have find: "tableFind hf c k = Some (List.find (\<lambda>a. key_at (heap c) a = k) ch)"
    using find_loop_chain [OF ch(1)] by (simp add: tableFind_def)
  show ?thesis
  proof (cases "List.find (\<lambda>a. key_at (heap c) a = k) ch")
    case None
    then have "k \<notin> key_at (heap c) ` set xs" using ch(2) by (auto simp: find_None_iff)
    with None find absent show ?thesis by simp
  next
    case (Some a)
    then have "a \<in> set xs" "key_at (heap c) a = k" using ch(2) by (auto simp: find_Some_iff)
    with Some find present show ?thesis by simp
  qed
qed

lemma tableInsert_ok:
  assumes t: "table_inv hf nb c S" and a: "heap c a = Some n" "a \<notin> S"
  obtains h t' where
    "tableInsert hf c (Some a) = Some (c\<lparr>heap := h, table := t'\<rparr>)"
    "table_inv hf nb (c\<lparr>heap := h, table := t'\<rparr>) (insert a S)"
    "h = (heap c)(a \<mapsto> n\<lparr>hnext := table c ! hf (key n)\<rparr>)"
proof -
  let ?b = "hf (key n)"
  let ?h = "(heap c)(a \<mapsto> n\<lparr>hnext := table c ! ?b\<rparr>)" and ?t = "(table c)[?b := Some a]"
  have len: "length (table c) = nb" using t by (simp add: table_inv_def)
  have "\<exists>ch. chain hnext ?h (?t ! b) ch None \<and> set ch = {x \<in> insert a S. hf (key_at ?h x) = b}"
    if b: "b < nb" for b
  proof -
    obtain ch where ch: "chain hnext (heap c) (table c ! b) ch None"
      "set ch = {x \<in> S. hf (key_at (heap c) x) = b}"
      using t b by (auto simp: table_inv_def)
    have na: "a \<notin> set ch" using ch(2) a(2) by simp
    have keys: "{x \<in> insert a S. hf (key_at ?h x) = b} =
        (if hf (key n) = b then insert a (set ch) else set ch)"
      using ch(2) a(2) by auto
    show ?thesis
    proof (cases "b = ?b")
      case True
      have "chain hnext ?h (?t ! b) (a # ch) None"
        using ch(1) na True hf_less len by simp
      then show ?thesis unfolding keys using True by (intro exI [of _ "a # ch"]) simp
    next
      case False
      have "chain hnext ?h (?t ! b) ch None" using ch(1) na False by simp
      then show ?thesis unfolding keys using False by (intro exI [of _ ch]) simp
    qed
  qed
  then have "table_inv hf nb (c\<lparr>heap := ?h, table := ?t\<rparr>) (insert a S)"
    by (simp add: table_inv_def len)
  moreover have "tableInsert hf c (Some a) = Some (c\<lparr>heap := ?h, table := ?t\<rparr>)"
    using a(1) by (simp add: tableInsert_def heap_simps Let_def)
  ultimately show ?thesis using that by blast
qed

lemma tableRemove_ok:
  assumes t: "table_inv hf nb c S" and a: "a \<in> S" "heap c a = Some n"
    and inj: "inj_on (key_at (heap c)) S"
  obtains h t' where
    "tableRemove hf c (key n) = Some (c\<lparr>heap := h, table := t'\<rparr>)"
    "table_inv hf nb (c\<lparr>heap := h, table := t'\<rparr>) (S - {a})"
    "\<And>b. map_option (\<lambda>n. (key n, val n, prv n, nxt n)) (h b) =
         map_option (\<lambda>n. (key n, val n, prv n, nxt n)) (heap c b)"
proof -
  let ?b = "hf (key n)"
  have len: "length (table c) = nb" using t by (simp add: table_inv_def)
  obtain ch where ch: "chain hnext (heap c) (table c ! ?b) ch None"
    "set ch = {x \<in> S. hf (key_at (heap c) x) = ?b}"
    by (rule table_invE [OF t hf_less])
  have "a \<in> set ch" using ch(2) a by simp
  then obtain us vs where split: "ch = us @ a # vs" by (meson split_list)
  have dist: "distinct ch" using ch(1) by (rule chain_distinct)
  have diff: "key_at (heap c) x \<noteq> key n" if "x \<in> set us" for x
  proof
    assume "key_at (heap c) x = key n"
    then have "key_at (heap c) x = key_at (heap c) a" using a(2) by simp
    moreover have "x \<in> S" using that ch(2) split by auto
    ultimately have "x = a" using a(1) by (rule inj_onD [OF inj])
    with that dist split show False by simp
  qed
  have rem: "tableRemove hf c (key n) =
      write_link (if us = [] then Bucket ?b else Hnext (last us)) (hnext n) c"
    unfolding tableRemove_def
    by (rule remove_loop_chain [where p = "table c ! ?b" and a = a and vs = vs])
      (use ch(1) split diff a(2) in auto)
  have rest: "chain hnext (heap c) (hnext n) vs None" if "us = []"
    using ch(1) split that a(2) by auto
  obtain h t' where w: "tableRemove hf c (key n) = Some (c\<lparr>heap := h, table := t'\<rparr>)"
      "length t' = nb" "\<And>b. b \<noteq> ?b \<Longrightarrow> t' ! b = table c ! b"
      "chain hnext h (t' ! ?b) (us @ vs) None"
      "\<And>b. b \<notin> set ch \<Longrightarrow> h b = heap c b"
      "\<And>b. map_option (\<lambda>n. (key n, val n, prv n, nxt n)) (h b) =
           map_option (\<lambda>n. (key n, val n, prv n, nxt n)) (heap c b)"
  proof (cases us rule: rev_cases)
    case Nil
    show ?thesis
      by (rule that [where h = "heap c" and t' = "(table c)[?b := hnext n]"])
        (use rem rest Nil len hf_less in auto)
  next
    case (snoc ws d)
    then obtain m where m: "heap c d = Some m"
      using chain_allocated [OF ch(1)] split by fastforce
    have "chain hnext ((heap c)(d \<mapsto> m\<lparr>hnext := hnext n\<rparr>)) (table c ! ?b) (ws @ d # vs) None"
      by (rule chain_bypass [where a = a and n = n]) (use ch(1) split snoc m a(2) in auto)
    then show ?thesis
      using m by (intro that [where h = "(heap c)(d \<mapsto> m\<lparr>hnext := hnext n\<rparr>)" and t' = "table c"])
        (use rem snoc len split in \<open>auto simp: heap_simps\<close>)
  qed
  have keys: "key_at h x = key_at (heap c) x" for x
    using w(6) [of x] by (cases "h x"; cases "heap c x"; simp)
  have "\<exists>ch. chain hnext h (t' ! b) ch None \<and> set ch = {x \<in> S - {a}. hf (key_at h x) = b}"
    if b: "b < nb" for b
  proof (cases "b = ?b")
    case True
    have "set (us @ vs) = {x \<in> S - {a}. hf (key_at h x) = b}"
      using ch(2) split dist True keys by auto
    with w(4) True show ?thesis by blast
  next
    case False
    obtain ch' where ch': "chain hnext (heap c) (table c ! b) ch' None"
      "set ch' = {x \<in> S. hf (key_at (heap c) x) = b}"
      using t b by (auto simp: table_inv_def)
    have "chain hnext h (t' ! b) ch' None = chain hnext (heap c) (t' ! b) ch' None"
      by (rule chain_cong) (use w(5) ch(2) ch'(2) False in auto)
    moreover have "set ch' = {x \<in> S - {a}. hf (key_at h x) = b}"
      using ch'(2) keys False a(2) by auto
    ultimately show ?thesis using ch'(1) w(3) [OF False] by auto
  qed
  then have "table_inv hf nb (c\<lparr>heap := h, table := t'\<rparr>) (S - {a})"
    by (simp add: table_inv_def w(2))
  with w(1,6) that show ?thesis by blast
qed

lemma evictLRU_ok:
  assumes inv: "lru_inv hf nb c (zs @ [a])"
  obtains c' where
    "evictLRU hf c = Some (c', [Evicting (key_at (heap c) a)])"
    "lru_inv hf nb c' zs" "entries (heap c') zs = entries (heap c) zs" "capacity c' = capacity c"
proof -
  have l: "list_inv c (zs @ a # [])" and t: "table_inv hf nb c (set (zs @ [a]))"
    and inj: "inj_on (key_at (heap c)) (set (zs @ [a]))" and dom: "dom (heap c) = set (zs @ [a])"
    and sz: "size c = int (length zs) + 1"
    using inv by (auto simp: lru_inv_def)
  have tl: "tail c = Some a" using l by (simp add: list_inv_def)
  have na: "a \<notin> set zs" using list_inv_distinct [OF l] by simp
  obtain n where n: "heap c a = Some n" using dom by auto
  show ?thesis
  proof (rule listUnlink_ok [OF l])
    fix h1
    let ?c1 = "c\<lparr>heap := h1, head := first_ptr (zs @ []) None, tail := last_ptr (zs @ []) None\<rparr>"
    assume h1: "listUnlink c (Some a) = Some ?c1" "h1 a = heap c a" "dls nxt prv h1 None (zs @ []) None"
      and pay: "\<And>b. map_option (\<lambda>n. (key n, val n, hnext n)) (h1 b) =
           map_option (\<lambda>n. (key n, val n, hnext n)) (heap c b)"
    have p: "h1 b = None \<longleftrightarrow> heap c b = None" "key_at h1 b = key_at (heap c) b"
      "val_at h1 b = val_at (heap c) b"
      "map_option (\<lambda>n. (key n, hnext n)) (h1 b) = map_option (\<lambda>n. (key n, hnext n)) (heap c b)" for b
      using payload_at [where h' = h1 and h = "heap c", OF pay] by blast+
    have t1: "table_inv hf nb ?c1 (set (zs @ [a]))"
      using t by (subst table_inv_cong [where c = c]) (simp_all add: p(4))
    have inj1: "inj_on (key_at (heap ?c1)) (set (zs @ [a]))"
      using inj by (simp add: inj_on_def p(2))
    have n1: "heap ?c1 a = Some n" "a \<in> set (zs @ [a])" using h1(2) n by simp_all
    show ?thesis
    proof (rule tableRemove_ok [OF t1 n1(2,1) inj1])
      fix h2 t2
      let ?c2 = "?c1\<lparr>heap := h2, table := t2\<rparr>"
      assume c2: "tableRemove hf ?c1 (key n) = Some ?c2"
        "table_inv hf nb ?c2 (set (zs @ [a]) - {a})"
        and pay2: "\<And>b. map_option (\<lambda>n. (key n, val n, prv n, nxt n)) (h2 b) =
          map_option (\<lambda>n. (key n, val n, prv n, nxt n)) (heap ?c1 b)"
      have q: "h2 b = None \<longleftrightarrow> h1 b = None" "key_at h2 b = key_at h1 b" "val_at h2 b = val_at h1 b"
        "map_option (\<lambda>n. (nxt n, prv n)) (h2 b) = map_option (\<lambda>n. (nxt n, prv n)) (h1 b)" for b
        using pay2 [of b] by (cases "h1 b"; cases "h2 b"; simp)+
      let ?c3 = "?c2\<lparr>heap := h2(a := None), size := size c - 1\<rparr>"
      obtain n2 where n2: "h2 a = Some n2" using q(1) n1(1) by fastforce
      have ev: "evictLRU hf c = Some (?c3, [Evicting (key_at (heap c) a)])"
        using tl n n1 h1(1) c2(1) n2 by (simp add: evictLRU_def heap_simps Let_def)
      have d3: "dls nxt prv (h2(a := None)) None zs None"
      proof -
        have "dls nxt prv h2 None zs None = dls nxt prv h1 None zs None"
          by (rule dls_cong) (rule q(4))
        then show ?thesis using h1(3) na by simp
      qed
      have t3: "table_inv hf nb ?c3 (set zs)"
        unfolding table_inv_def
      proof (intro conjI allI impI)
        fix b assume "b < nb"
        then obtain ch where ch: "chain hnext h2 (t2 ! b) ch None"
            "set ch = {x \<in> set (zs @ [a]) - {a}. hf (key_at h2 x) = b}"
          using table_invE [OF c2(2)] by auto
        have "chain hnext (h2(a := None)) (t2 ! b) ch None" using ch by simp
        moreover have "set ch = {x \<in> set zs. hf (key_at (h2(a := None)) x) = b}"
          using ch(2) na by auto
        ultimately show "\<exists>ch. chain hnext (heap ?c3) (table ?c3 ! b) ch None \<and>
            set ch = {x \<in> set zs. hf (key_at (heap ?c3) x) = b}" by auto
      qed (use c2(2) in \<open>simp add: table_inv_def\<close>)
      have keys: "key_at (h2(a := None)) b = key_at (heap c) b"
        "val_at (h2(a := None)) b = val_at (heap c) b" if "b \<in> set zs" for b
        using that na p q by auto
      have "dom (h2(a := None)) = set zs"
        using dom na p(1) q(1) by (auto simp: domIff set_eq_iff)
      moreover have "inj_on (key_at (h2(a := None))) (set zs)"
        using inj keys(1) by (auto simp: inj_on_def)
      ultimately have "lru_inv hf nb ?c3 zs"
        using d3 t3 sz by (simp add: lru_inv_def list_inv_def)
      moreover have "entries (heap ?c3) zs = entries (heap c) zs"
        using keys by (simp add: entries_def)
      ultimately show ?thesis using ev that by simp
    qed
  qed
qed

lemma insert_ok:
  assumes inv: "lru_inv hf nb c xs" and a: "heap c a = None" and k: "k \<notin> key_at (heap c) ` set xs"
  obtains c2 c3 where
    "listAddFront (c\<lparr>heap := (heap c)(a \<mapsto> junk\<lparr>key := k, val := v, hnext := None\<rparr>)\<rparr>) (Some a) = Some c2"
    "tableInsert hf c2 (Some a) = Some c3"
    "lru_inv hf nb (c3\<lparr>size := size c3 + 1\<rparr>) (a # xs)"
    "entries (heap c3) (a # xs) = (k, v) # entries (heap c) xs" "capacity c3 = capacity c"
proof -
  let ?n = "junk\<lparr>key := k, val := v, hnext := None\<rparr>" and ?h0 = "(heap c)(a \<mapsto> junk\<lparr>key := k, val := v, hnext := None\<rparr>)"
  let ?c0 = "c\<lparr>heap := ?h0\<rparr>"
  have dom: "dom (heap c) = set xs" and t: "table_inv hf nb c (set xs)" and l: "list_inv c xs"
    and inj: "inj_on (key_at (heap c)) (set xs)"
    using inv by (auto simp: lru_inv_def)
  have na: "a \<notin> set xs" using dom a by auto
  have l0: "list_inv ?c0 xs" using l na by (simp add: list_inv_def)
  have h0a: "heap ?c0 a = Some ?n" by simp
  show ?thesis
  proof (rule listAddFront_ok [OF l0 na h0a])
    fix h1
    let ?c2 = "?c0\<lparr>heap := h1, head := Some a, tail := last_ptr (a # xs) None\<rparr>"
    assume add: "listAddFront ?c0 (Some a) = Some ?c2" "dls nxt prv h1 None (a # xs) None"
      and pay: "\<And>b. map_option (\<lambda>n. (key n, val n, hnext n)) (h1 b) =
           map_option (\<lambda>n. (key n, val n, hnext n)) (heap ?c0 b)"
    have p: "h1 b = None \<longleftrightarrow> ?h0 b = None" "key_at h1 b = key_at ?h0 b"
      "val_at h1 b = val_at ?h0 b"
      "map_option (\<lambda>n. (key n, hnext n)) (h1 b) = map_option (\<lambda>n. (key n, hnext n)) (?h0 b)" for b
      using payload_at [where h' = h1 and h = ?h0] pay by simp_all
    have t0: "table_inv hf nb ?c0 (set xs)"
      unfolding table_inv_def
    proof (intro conjI allI impI)
      fix b assume "b < nb"
      then obtain ch where ch: "chain hnext (heap c) (table c ! b) ch None"
          "set ch = {x \<in> set xs. hf (key_at (heap c) x) = b}"
        by (rule table_invE [OF t])
      have "chain hnext ?h0 (table c ! b) ch None" using ch na by simp
      moreover have "set ch = {x \<in> set xs. hf (key_at ?h0 x) = b}" using ch(2) na by auto
      ultimately show "\<exists>ch. chain hnext (heap ?c0) (table ?c0 ! b) ch None \<and>
          set ch = {x \<in> set xs. hf (key_at (heap ?c0) x) = b}" by auto
    qed (use t in \<open>simp add: table_inv_def\<close>)
    have t2: "table_inv hf nb ?c2 (set xs)"
      using t0 by (subst table_inv_cong [where c = ?c0]) (simp_all add: p(4))
    obtain m where m: "h1 a = Some m" using p(1) [of a] by auto
    have mk: "key m = k" "val m = v" using p(2,3) [of a] m by simp_all
    have m2: "heap ?c2 a = Some m" using m by simp
    show ?thesis
    proof (rule tableInsert_ok [OF t2 m2 na])
      fix h t'
      let ?c3 = "?c2\<lparr>heap := h, table := t'\<rparr>"
      assume ins: "tableInsert hf ?c2 (Some a) = Some ?c3" "table_inv hf nb ?c3 (insert a (set xs))"
        "h = (heap ?c2)(a \<mapsto> m\<lparr>hnext := table ?c2 ! hf (key m)\<rparr>)"
      have ha: "h a = Some (m\<lparr>hnext := table c ! hf (key m)\<rparr>)" and hb: "b \<noteq> a \<Longrightarrow> h b = h1 b" for b
        using ins(3) by auto
      have "dls nxt prv h None (a # xs) None = dls nxt prv h1 None (a # xs) None"
      proof (rule dls_cong)
        fix b
        show "map_option (\<lambda>n. (nxt n, prv n)) (h b) = map_option (\<lambda>n. (nxt n, prv n)) (h1 b)"
          by (cases "b = a") (simp_all add: ha hb m)
      qed
      with add(2) have d: "dls nxt prv h None (a # xs) None" by simp
      have keys: "key_at h b = key_at (heap c) b" "val_at h b = val_at (heap c) b" if "b \<in> set xs" for b
      proof -
        from that na have "b \<noteq> a" by blast
        then show "key_at h b = key_at (heap c) b" "val_at h b = val_at (heap c) b"
          using hb [of b] p(2,3) [of b] by simp_all
      qed
      have hk: "key_at h a = k" "val_at h a = v" using ha mk by simp_all
      have "h b \<noteq> None \<longleftrightarrow> b \<in> set (a # xs)" for b
      proof (cases "b = a")
        case False
        then show ?thesis using hb [OF False] p(1) [of b] dom by (auto simp: domIff)
      qed (simp add: ha)
      then have "dom h = set (a # xs)"
        by (intro set_eqI) (simp only: dom_def mem_Collect_eq)
      moreover have "inj_on (key_at h) (set xs) = inj_on (key_at (heap c)) (set xs)"
        by (rule inj_on_cong) (rule keys(1))
      then have "inj_on (key_at h) (set (a # xs))"
        using inj k na hk(1) keys(1) by auto
      moreover have "table_inv hf nb (?c3\<lparr>size := size ?c3 + 1\<rparr>) (set (a # xs))"
        using ins(2) by (simp add: table_inv_def)
      ultimately have "lru_inv hf nb (?c3\<lparr>size := size ?c3 + 1\<rparr>) (a # xs)"
        using d inv by (simp add: lru_inv_def list_inv_def)
      moreover have "entries (heap ?c3) (a # xs) = (k, v) # entries (heap c) xs"
        using hk keys by (simp add: entries_def)
      ultimately show ?thesis using that add(1) ins(1) by simp
    qed
  qed
qed

lemma move_ok:
  assumes inv: "lru_inv hf nb c xs" and a: "a \<in> set xs"
  obtains c1 us vs where
    "moveToFront c (Some a) = Some c1" "xs = us @ a # vs" "lru_inv hf nb c1 (a # us @ vs)"
    "entries (heap c1) (a # us @ vs) = entries (heap c) (a # us @ vs)" "capacity c1 = capacity c"
proof -
  obtain us vs where split: "xs = us @ a # vs" using a by (meson split_list)
  have l: "list_inv c (us @ a # vs)" using inv split by (simp add: lru_inv_def)
  have dist: "distinct (a # us @ vs)" using list_inv_distinct [OF l] by auto
  show ?thesis
  proof (rule moveToFront_ok [OF l])
    fix h
    let ?c1 = "c\<lparr>heap := h, head := Some a, tail := last_ptr (a # us @ vs) None\<rparr>"
    assume m: "moveToFront c (Some a) = Some ?c1" "dls nxt prv h None (a # us @ vs) None"
      "\<And>b. map_option (\<lambda>n. (key n, val n, hnext n)) (h b) =
           map_option (\<lambda>n. (key n, val n, hnext n)) (heap c b)"
    have "lru_inv hf nb ?c1 (a # us @ vs) \<and>
        entries (heap ?c1) (a # us @ vs) = entries (heap c) (a # us @ vs)"
      using lru_inv_relink [OF inv _ dist m(2,3), of ?c1] split by auto
    then show ?thesis using that [OF m(1) split] by simp
  qed
qed

lemma update_val_ok:
  assumes inv: "lru_inv hf nb c xs" and n: "heap c a = Some n"
  shows "lru_inv hf nb (c\<lparr>heap := (heap c)(a \<mapsto> n\<lparr>val := v\<rparr>)\<rparr>) xs" (is "lru_inv hf nb ?c' xs")
proof -
  let ?h = "(heap c)(a \<mapsto> n\<lparr>val := v\<rparr>)"
  have t: "table_inv hf nb ?c' (set xs) = table_inv hf nb c (set xs)"
    by (rule table_inv_cong) (use n in auto)
  have d: "dls nxt prv ?h None xs None = dls nxt prv (heap c) None xs None"
    by (rule dls_cong) (use n in auto)
  have k: "key_at ?h b = key_at (heap c) b" for b using n by simp
  have "dom ?h = dom (heap c)" using n by auto
  moreover have "inj_on (key_at ?h) (set xs) = inj_on (key_at (heap c)) (set xs)"
    by (rule inj_on_cong) (rule k)
  ultimately show ?thesis
    using inv t d by (simp del: fun_upd_apply add: lru_inv_def list_inv_def)
qed

lemma keys_entries: "fst ` set (entries h xs) = key_at h ` set xs"
  by (force simp: entries_def)

lemma entries_append: "entries h (xs @ ys) = entries h xs @ entries h ys"
  by (simp add: entries_def)

lemma without_absent: "k \<notin> key_at h ` set xs \<Longrightarrow> without k (entries h xs) = entries h xs"
  by (induction xs) (auto simp: entries_def without_def)

lemma map_of_entries_absent: "k \<notin> key_at h ` set xs \<Longrightarrow> map_of (entries h xs) k = None"
  by (simp add: map_of_eq_None_iff keys_entries)

lemma entries_split:
  assumes inj: "inj_on (key_at h) (set (us @ a # vs))" and d: "distinct (us @ a # vs)"
    and k: "key_at h a = k"
  shows "without k (entries h (us @ a # vs)) = entries h (us @ vs)"
    "map_of (entries h (us @ a # vs)) k = Some (val_at h a)"
    "k \<in> fst ` set (entries h (us @ a # vs))"
proof -
  have nk: "k \<notin> key_at h ` set us" "k \<notin> key_at h ` set vs"
    using inj d k by (auto simp: inj_on_def)
  then show "without k (entries h (us @ a # vs)) = entries h (us @ vs)"
    using without_absent [OF nk(1)] without_absent [OF nk(2)] k
    by (simp add: entries_def without_def)
  show "map_of (entries h (us @ a # vs)) k = Some (val_at h a)"
    using map_of_entries_absent [OF nk(1)] k by (simp add: entries_append entries_def map_add_def)
  show "k \<in> fst ` set (entries h (us @ a # vs))"
    using k unfolding keys_entries by simp
qed

lemma get_refines:
  assumes r: "represents hf nb c l"
  shows "\<exists>c'. get hf c k = Some (c', snd (spec_get l k)) \<and>
           represents hf nb c' (fst (spec_get l k)) \<and> capacity c' = capacity c"
proof -
  obtain xs where inv: "lru_inv hf nb c xs" and l: "l = entries (heap c) xs"
    and cap: "int (length l) \<le> capacity c"
    using r by (auto simp: represents_def)
  show ?thesis
  proof (rule tableFind_cases [OF inv])
    assume absent: "tableFind hf c k = Some None" "k \<notin> key_at (heap c) ` set xs"
    have "map_of l k = None" unfolding l by (rule map_of_entries_absent [OF absent(2)])
    with absent(1) r show ?thesis by (simp add: get_def spec_get_def)
  next
    fix a
    assume present: "tableFind hf c k = Some (Some a)" "a \<in> set xs" "key_at (heap c) a = k"
    show ?thesis
    proof (rule move_ok [OF inv present(2)])
      fix c1 us vs
      assume m: "moveToFront c (Some a) = Some c1" "xs = us @ a # vs" "lru_inv hf nb c1 (a # us @ vs)"
        "entries (heap c1) (a # us @ vs) = entries (heap c) (a # us @ vs)" "capacity c1 = capacity c"
      have inj: "inj_on (key_at (heap c)) (set (us @ a # vs))" and d: "distinct (us @ a # vs)"
        using inv lru_inv_distinct [OF inv] unfolding m(2) lru_inv_def by blast+
      note e = entries_split [OF inj d present(3)]
      obtain n where n: "heap c1 a = Some n" using m(3) by (force simp: lru_inv_def)
      have v: "val n = val_at (heap c) a" using m(4) n by (simp add: entries_def)
      have "get hf c k = Some (c1, val n, [Get_hit k (val n)])"
        using present(1) m(1) n by (simp add: get_def heap_simps)
      moreover have "spec_get l k =
          ((k, val n) # entries (heap c) (us @ vs), val n, [Get_hit k (val n)])"
        using e v by (simp add: spec_get_def l m(2))
      moreover have "entries (heap c1) (a # us @ vs) = (k, val n) # entries (heap c) (us @ vs)"
        using m(4) v present(3) by (simp add: entries_def)
      moreover have "length (entries (heap c1) (a # us @ vs)) = length l"
        by (simp add: entries_def l m(2))
      ultimately show ?thesis using m(3,5) cap unfolding represents_def by (metis fst_conv snd_conv)
    qed
  qed
qed

lemma put_present:
  assumes inv: "lru_inv hf nb c xs"
    and f: "tableFind hf c k = Some (Some a)" "a \<in> set xs" "key_at (heap c) a = k"
  obtains c' ys where "put alloc hf c k v = Some (c', [Updated k v])" "lru_inv hf nb c' ys"
    "entries (heap c') ys = (k, v) # without k (entries (heap c) xs)"
    "k \<in> fst ` set (entries (heap c) xs)" "length ys = length xs" "capacity c' = capacity c"
proof -
  obtain n where n: "heap c a = Some n" using inv f(2) by (force simp: lru_inv_def)
  let ?c0 = "c\<lparr>heap := (heap c)(a \<mapsto> n\<lparr>val := v\<rparr>)\<rparr>"
  have inv0: "lru_inv hf nb ?c0 xs" using inv n by (rule update_val_ok)
  show ?thesis
  proof (rule move_ok [OF inv0 f(2)])
    fix c1 us vs
    assume m: "moveToFront ?c0 (Some a) = Some c1" "xs = us @ a # vs" "lru_inv hf nb c1 (a # us @ vs)"
      "entries (heap c1) (a # us @ vs) = entries (heap ?c0) (a # us @ vs)" "capacity c1 = capacity ?c0"
    have inj: "inj_on (key_at (heap c)) (set (us @ a # vs))" and d: "distinct (us @ a # vs)"
      using inv lru_inv_distinct [OF inv] unfolding m(2) lru_inv_def by blast+
    note e = entries_split [OF inj d f(3)]
    have p: "put alloc hf c k v = Some (c1, [Updated k v])"
      using f(1) n m(1) by (simp add: put_def heap_simps)
    have "entries (heap ?c0) (us @ vs) = entries (heap c) (us @ vs)"
      using d by (auto simp: entries_def)
    then have ent: "entries (heap c1) (a # us @ vs) = (k, v) # without k (entries (heap c) xs)"
      using m(4) n f(3) e(1) unfolding m(2) by (simp add: entries_def)
    show ?thesis
      by (rule that [OF p m(3) ent]) (use e(3) m(2,5) in simp_all)
  qed
qed

lemma put_absent:
  assumes inv: "lru_inv hf nb c xs" and f: "tableFind hf c k = Some None"
    and k: "k \<notin> key_at (heap c) ` set xs"
    and ev: "(if size c = capacity c then evictLRU hf c else Some (c, [])) = Some (c1, es)"
    and inv1: "lru_inv hf nb c1 ys" and ys: "entries (heap c1) ys = entries (heap c) ys"
      "set ys \<subseteq> set xs" "capacity c1 = capacity c"
    and serves: "malloc_serves alloc m" "length ys < m"
  obtains c' zs where "put alloc hf c k v = Some (c', es @ [Inserted k v])" "lru_inv hf nb c' zs"
    "entries (heap c') zs = (k, v) # entries (heap c) ys" "length zs = Suc (length ys)"
    "capacity c' = capacity c"
proof -
  have dom: "dom (heap c1) = set ys" using inv1 by (simp add: lru_inv_def)
  then have "finite (dom (heap c1))" "card (dom (heap c1)) < m"
    using serves(2) card_length [of ys] by simp_all
  then obtain a junk where a: "alloc (heap c1) = Some (a, junk)" "heap c1 a = None"
    using malloc_servesD [OF serves(1)] by blast
  have "key_at (heap c1) ` set ys = fst ` set (entries (heap c) ys)"
    unfolding ys(1) [symmetric] by (simp add: keys_entries)
  then have k1: "k \<notin> key_at (heap c1) ` set ys" using k ys(2) by (auto simp: keys_entries)
  show ?thesis
  proof (rule insert_ok [OF inv1 a(2) k1, where junk = junk and v = v])
    fix c2 c3
    assume i: "listAddFront (c1\<lparr>heap := (heap c1)(a \<mapsto> junk\<lparr>key := k, val := v, hnext := None\<rparr>)\<rparr>)
        (Some a) = Some c2"
      "tableInsert hf c2 (Some a) = Some c3"
      "lru_inv hf nb (c3\<lparr>size := size c3 + 1\<rparr>) (a # ys)"
      "entries (heap c3) (a # ys) = (k, v) # entries (heap c1) ys" "capacity c3 = capacity c1"
    have "put alloc hf c k v = Some (c3\<lparr>size := size c3 + 1\<rparr>, es @ [Inserted k v])"
      using f ev a(1) i(1,2) by (simp add: put_def Let_def)
    then show ?thesis
      by (rule that [OF _ i(3)]) (use i(4,5) ys in simp_all)
  qed
qed

lemma put_refines:
  assumes r: "represents hf nb c l" and pos: "0 < capacity c"
    and serves: "malloc_serves alloc (nat (capacity c))"
  shows "\<exists>c'. put alloc hf c k v = Some (c', snd (spec_put (nat (capacity c)) l k v)) \<and>
           represents hf nb c' (fst (spec_put (nat (capacity c)) l k v)) \<and>
           capacity c' = capacity c"
proof -
  obtain xs where inv: "lru_inv hf nb c xs" and l: "l = entries (heap c) xs"
    and cap: "int (length l) \<le> capacity c"
    using r by (auto simp: represents_def)
  have len: "length l = length xs" by (simp add: l entries_def)
  have sz: "size c = int (length xs)" using inv by (simp add: lru_inv_def)
  show ?thesis
  proof (rule tableFind_cases [OF inv])
    fix a
    assume f: "tableFind hf c k = Some (Some a)" "a \<in> set xs" "key_at (heap c) a = k"
    show ?thesis
    proof (rule put_present [OF inv f, of alloc v])
      fix c' ys
      assume p: "put alloc hf c k v = Some (c', [Updated k v])" "lru_inv hf nb c' ys"
        "entries (heap c') ys = (k, v) # without k (entries (heap c) xs)"
        "k \<in> fst ` set (entries (heap c) xs)" "length ys = length xs" "capacity c' = capacity c"
      have "spec_put (nat (capacity c)) l k v = ((k, v) # without k l, [Updated k v])"
        using p(4) by (simp add: spec_put_def l)
      moreover have "represents hf nb c' ((k, v) # without k l)"
        by (rule representsI [OF p(2)]) (use p l len cap in simp_all)
      ultimately show ?thesis using p(1,6) by simp
    qed
  next
    assume f: "tableFind hf c k = Some None" "k \<notin> key_at (heap c) ` set xs"
    have nk: "k \<notin> fst ` set l" using f(2) by (simp add: l keys_entries)
    show ?thesis
    proof (cases "size c = capacity c")
      case False
      then have lt: "length xs < nat (capacity c)" using sz cap len by linarith
      have ev: "(if size c = capacity c then evictLRU hf c else Some (c, [])) = Some (c, [])"
        using False by simp
      show ?thesis
      proof (rule put_absent [OF inv f ev inv refl subset_refl refl serves lt])
        fix c' zs
        assume p: "put alloc hf c k v = Some (c', [] @ [Inserted k v])" "lru_inv hf nb c' zs"
          "entries (heap c') zs = (k, v) # entries (heap c) xs" "length zs = Suc (length xs)"
          "capacity c' = capacity c"
        have "spec_put (nat (capacity c)) l k v = ((k, v) # l, [Inserted k v])"
          using nk False sz len pos by (simp add: spec_put_def)
        moreover have "represents hf nb c' ((k, v) # l)"
          by (rule representsI [OF p(2)]) (use p l len cap False sz in simp_all)
        ultimately show ?thesis using p(1,5) by simp
      qed
    next
      case True
      then obtain zs a where xs: "xs = zs @ [a]" using sz pos by (cases xs rule: rev_cases) auto
      have inv': "lru_inv hf nb c (zs @ [a])" using inv xs by simp
      show ?thesis
      proof (rule evictLRU_ok [OF inv'])
        fix c1
        assume e: "evictLRU hf c = Some (c1, [Evicting (key_at (heap c) a)])"
          "lru_inv hf nb c1 zs" "entries (heap c1) zs = entries (heap c) zs" "capacity c1 = capacity c"
        have ev: "(if size c = capacity c then evictLRU hf c else Some (c, [])) =
            Some (c1, [Evicting (key_at (heap c) a)])" using e(1) True by simp
        have lt: "length zs < nat (capacity c)" using True sz xs by simp
        have sub: "set zs \<subseteq> set xs" using xs by auto
        show ?thesis
        proof (rule put_absent [OF inv f ev e(2,3) sub e(4) serves lt])
          fix c' ys
          assume p: "put alloc hf c k v =
              Some (c', [Evicting (key_at (heap c) a)] @ [Inserted k v])" "lru_inv hf nb c' ys"
            "entries (heap c') ys = (k, v) # entries (heap c) zs" "length ys = Suc (length zs)"
            "capacity c' = capacity c"
          have "fst (last l) = key_at (heap c) a" "butlast l = entries (heap c) zs"
            by (simp_all add: l xs entries_def)
          moreover have "length l = nat (capacity c)" using True sz len by simp
          ultimately have "spec_put (nat (capacity c)) l k v =
              ((k, v) # entries (heap c) zs, [Evicting (key_at (heap c) a), Inserted k v])"
            using nk by (simp add: spec_put_def)
          moreover have "represents hf nb c' ((k, v) # entries (heap c) zs)"
            by (rule representsI [OF p(2)]) (use p True sz xs in simp_all)
          ultimately show ?thesis using p(1,5) by simp
        qed
      qed
    qed
  qed
qed

lemma createCache_represents: "0 \<le> cap \<Longrightarrow> represents hf nb (createCache nb cap) []"
  by (auto simp: represents_def lru_inv_def list_inv_def table_inv_def createCache_def entries_def)

lemma freeCache_ok:
  assumes "represents hf nb c l"
  shows "freeCache c = Some Map.empty"
proof -
  obtain xs where xs: "dls nxt prv (heap c) None xs None" "head c = first_ptr xs None"
    "dom (heap c) = set xs"
    using assms by (auto simp: represents_def lru_inv_def list_inv_def)
  have "(\<lambda>a. if a \<in> set xs then None else heap c a) = Map.empty"
  proof
    fix a
    show "(if a \<in> set xs then None else heap c a) = None"
      unfolding xs(3) [symmetric] by (simp add: domIff)
  qed
  with free_loop_ok [OF xs(1) dls_distinct [OF xs(1)]] show ?thesis
    by (simp add: freeCache_def xs(2))
qed

end

subsection \<open>The two hash functions\<close>

text \<open>\<^verbatim>\<open>bench_c.c\<close> has 16384 buckets and masks the hash instead of reducing it.\<close>

definition BENCH_TABLE_SIZE :: nat where
  "BENCH_TABLE_SIZE = 16384"

definition bench_hash_func :: "i32 \<Rightarrow> nat" where
  "bench_hash_func k =
     unat (and (k * 2654435761) (word_of_nat (BENCH_TABLE_SIZE - 1)))"

interpretation lru16: bucket_hash lru_hash TABLE_SIZE
  by unfold_locales (simp add: lru_hash_def TABLE_SIZE_def)

lemma bench_hash_func_mod: "bench_hash_func k = unat (k * 2654435761) mod BENCH_TABLE_SIZE"
proof -
  have "(16383 :: i32) = mask 14" by (simp add: mask_eq_exp_minus_1)
  then have "and x 16383 = take_bit 14 x" for x :: i32
    by (simp add: take_bit_eq_mask)
  then show ?thesis
    by (simp add: bench_hash_func_def BENCH_TABLE_SIZE_def take_bit_eq_mod unat_mod)
qed

interpretation lru16k: bucket_hash bench_hash_func BENCH_TABLE_SIZE
  by unfold_locales (simp add: bench_hash_func_mod BENCH_TABLE_SIZE_def)

text \<open>
  The operations of \<^verbatim>\<open>bench_c.c\<close>: the text of \<^verbatim>\<open>lru.c\<close> over the other hash function and
  without the prints.
\<close>

definition bench_createCache :: "int \<Rightarrow> lru_cache" where
  "bench_createCache cap = createCache BENCH_TABLE_SIZE cap"

definition bench_tableFind :: "lru_cache \<Rightarrow> i32 \<Rightarrow> ptr option" where
  "bench_tableFind c k = tableFind bench_hash_func c k"

definition bench_tableInsert :: "lru_cache \<Rightarrow> ptr \<Rightarrow> lru_cache option" where
  "bench_tableInsert c n = tableInsert bench_hash_func c n"

definition bench_tableRemove :: "lru_cache \<Rightarrow> i32 \<Rightarrow> lru_cache option" where
  "bench_tableRemove c k = tableRemove bench_hash_func c k"

definition bench_evictLRU :: "lru_cache \<Rightarrow> lru_cache option" where
  "bench_evictLRU c = map_option fst (evictLRU bench_hash_func c)"

definition bench_put :: "lru_node allocator \<Rightarrow> lru_cache \<Rightarrow> i32 \<Rightarrow> i32 \<Rightarrow> lru_cache option" where
  "bench_put alloc c k v = map_option fst (put alloc bench_hash_func c k v)"

definition bench_get :: "lru_cache \<Rightarrow> i32 \<Rightarrow> (lru_cache \<times> i32) option" where
  "bench_get c k = map_option (\<lambda>(c', v, _). (c', v)) (get bench_hash_func c k)"

subsection \<open>Sequences of operations\<close>

datatype cache_op = Put i32 i32 | Get i32

fun lru_run ::
  "lru_node allocator \<Rightarrow> (i32 \<Rightarrow> nat) \<Rightarrow> lru_cache \<Rightarrow> cache_op list \<Rightarrow>
     (lru_cache \<times> lru_event list) option" where
  "lru_run alloc hf c [] = Some (c, [])"
| "lru_run alloc hf c (Put k v # ops) = do {
     (c1, ev) \<leftarrow> put alloc hf c k v;
     (c2, evs) \<leftarrow> lru_run alloc hf c1 ops;
     Some (c2, ev @ evs)
   }"
| "lru_run alloc hf c (Get k # ops) = do {
     (c1, v, ev) \<leftarrow> get hf c k;
     (c2, evs) \<leftarrow> lru_run alloc hf c1 ops;
     Some (c2, ev @ evs)
   }"

fun spec_run :: "nat \<Rightarrow> (i32 \<times> i32) list \<Rightarrow> cache_op list \<Rightarrow> (i32 \<times> i32) list \<times> lru_event list" where
  "spec_run cap l [] = (l, [])"
| "spec_run cap l (Put k v # ops) =
     (let (l1, ev) = spec_put cap l k v; (l2, evs) = spec_run cap l1 ops in (l2, ev @ evs))"
| "spec_run cap l (Get k # ops) =
     (let (l1, v, ev) = spec_get l k; (l2, evs) = spec_run cap l1 ops in (l2, ev @ evs))"

context bucket_hash begin

lemma run_refines:
  assumes "represents hf nb c l" "0 < capacity c" "malloc_serves alloc (nat (capacity c))"
  shows "\<exists>c'. lru_run alloc hf c ops = Some (c', snd (spec_run (nat (capacity c)) l ops)) \<and>
           represents hf nb c' (fst (spec_run (nat (capacity c)) l ops)) \<and>
           capacity c' = capacity c"
  using assms
proof (induction ops arbitrary: c l)
  case Nil
  then show ?case by simp
next
  case (Cons op ops)
  show ?case
  proof (cases op)
    case (Put k v)
    obtain c1 where "put alloc hf c k v = Some (c1, snd (spec_put (nat (capacity c)) l k v))"
      and r: "represents hf nb c1 (fst (spec_put (nat (capacity c)) l k v))" "capacity c1 = capacity c"
      using put_refines [OF Cons.prems] by blast
    moreover from Cons.IH [OF r(1)] r(2) Cons.prems obtain c2 where
      "lru_run alloc hf c1 ops =
         Some (c2, snd (spec_run (nat (capacity c)) (fst (spec_put (nat (capacity c)) l k v)) ops))"
      "represents hf nb c2 (fst (spec_run (nat (capacity c)) (fst (spec_put (nat (capacity c)) l k v)) ops))"
      "capacity c2 = capacity c" by auto
    ultimately show ?thesis by (auto simp: Put split: prod.splits)
  next
    case (Get k)
    obtain c1 where "get hf c k = Some (c1, snd (spec_get l k))"
      and r: "represents hf nb c1 (fst (spec_get l k))" "capacity c1 = capacity c"
      using get_refines [OF Cons.prems(1)] by blast
    moreover from Cons.IH [OF r(1)] r(2) Cons.prems obtain c2 where
      "lru_run alloc hf c1 ops = Some (c2, snd (spec_run (nat (capacity c)) (fst (spec_get l k)) ops))"
      "represents hf nb c2 (fst (spec_run (nat (capacity c)) (fst (spec_get l k)) ops))"
      "capacity c2 = capacity c" by auto
    ultimately show ?thesis by (auto simp: Get split: prod.splits)
  qed
qed

end

text \<open>\<^verbatim>\<open>main\<close> of \<^verbatim>\<open>lru.c\<close>: what it prints, and the heap left after \<^verbatim>\<open>freeCache\<close>.\<close>

definition lru_main :: "lru_node allocator \<Rightarrow> (lru_event list \<times> lru_node heap) option" where
  "lru_main alloc = do {
     let cache = createCache TABLE_SIZE 3;
     (c, evs) \<leftarrow> lru_run alloc lru_hash cache
       [Put 1 10, Put 2 20, Put 3 30, Get 1, Put 4 40, Get 2, Get 3];
     h \<leftarrow> freeCache c;
     Some (evs, h)
   }"


subsection \<open>Properties\<close>

text \<open>C5: put refines the abstract cache. On a well-formed cache that holds the entries \<open>l\<close> (most
  recently used first), with a positive capacity and a working allocator, \<^verbatim>\<open>put\<close> of
  \<^verbatim>\<open>lru.c\<close> dereferences no null or dangling pointer, and leaves a well-formed cache that holds
  what the specification says: the pair moved or inserted at the front, and, exactly when the
  cache was full and the key new, the least recently used entry evicted. It also prints what
  the specification prints.\<close>

theorem lru_put_refines:
  assumes "represents lru_hash TABLE_SIZE c l" and "0 < capacity c"
    and "malloc_serves alloc (nat (capacity c))"
  shows "\<exists>c'. put alloc lru_hash c k v = Some (c', snd (spec_put (nat (capacity c)) l k v)) \<and>
           represents lru_hash TABLE_SIZE c' (fst (spec_put (nat (capacity c)) l k v)) \<and>
           capacity c' = capacity c"
  using assms by (rule lru16.put_refines)

abbreviation junk_node :: lru_node where
  "junk_node \<equiv> \<lparr>key = 7, val = 7, prv = Some 99, nxt = Some 98, hnext = Some 97\<rparr>"

theorem lru_put_refines_witness:
  "\<exists>c'. put (first_free 3 junk_node) lru_hash (createCache TABLE_SIZE 3) 5 50 =
          Some (c', [Inserted 5 50]) \<and>
        represents lru_hash TABLE_SIZE c' [(5, 50)] \<and> capacity c' = 3"
proof -
  have "represents lru_hash TABLE_SIZE (createCache TABLE_SIZE 3) []"
    by (rule lru16.createCache_represents) simp
  moreover have "0 < capacity (createCache TABLE_SIZE 3)" by (simp add: createCache_def)
  moreover have "malloc_serves (first_free 3 junk_node) (nat (capacity (createCache TABLE_SIZE 3)))"
    by (simp add: createCache_def malloc_serves_first_free)
  ultimately show ?thesis
    using lru_put_refines [of "createCache TABLE_SIZE 3" "[]" "first_free 3 junk_node" 5 50]
    by (simp add: spec_put_def createCache_def)
qed

text \<open>get refines the abstract cache. On a well-formed cache \<^verbatim>\<open>get\<close> is memory safe, returns the
  value stored under the key (-1 when there is none), makes that entry the most recently used
  and changes nothing else.\<close>

theorem lru_get_refines:
  assumes "represents lru_hash TABLE_SIZE c l"
  shows "\<exists>c'. get lru_hash c k = Some (c', snd (spec_get l k)) \<and>
           represents lru_hash TABLE_SIZE c' (fst (spec_get l k)) \<and> capacity c' = capacity c"
  using assms by (rule lru16.get_refines)

theorem lru_get_refines_witness:
  "\<exists>c'. get lru_hash (createCache TABLE_SIZE 3) 5 = Some (c', -1, [Get_miss 5]) \<and>
        represents lru_hash TABLE_SIZE c' [] \<and> capacity c' = 3"
proof -
  have "represents lru_hash TABLE_SIZE (createCache TABLE_SIZE 3) []"
    by (rule lru16.createCache_represents) simp
  from lru_get_refines [OF this, of 5] show ?thesis
    by (simp add: spec_get_def createCache_def)
qed

text \<open>C17: With a positive capacity and an allocator that serves that many nodes, any program of puts and gets on a fresh cache of \<^verbatim>\<open>lru.c\<close> runs to its end without undefined
  behaviour, prints what the specification prints, never exceeds its capacity, and
  \<^verbatim>\<open>freeCache\<close> then frees every node exactly once: the heap is empty, nothing leaks.\<close>

theorem lru_run_safe_and_leak_free:
  assumes "0 < cap" and "malloc_serves alloc (nat cap)"
  shows "\<exists>c. lru_run alloc lru_hash (createCache TABLE_SIZE cap) ops =
               Some (c, snd (spec_run (nat cap) [] ops)) \<and>
           represents lru_hash TABLE_SIZE c (fst (spec_run (nat cap) [] ops)) \<and>
           size c \<le> cap \<and> freeCache c = Some Map.empty"
proof -
  have cap: "capacity (createCache TABLE_SIZE cap) = cap" by (simp add: createCache_def)
  have "represents lru_hash TABLE_SIZE (createCache TABLE_SIZE cap) []"
    using assms(1) by (intro lru16.createCache_represents) simp
  from lru16.run_refines [OF this, unfolded cap, OF assms, of ops] obtain c where
    c: "lru_run alloc lru_hash (createCache TABLE_SIZE cap) ops =
          Some (c, snd (spec_run (nat cap) [] ops))"
       "represents lru_hash TABLE_SIZE c (fst (spec_run (nat cap) [] ops))" "capacity c = cap"
    by blast
  from c(2,3) have "size c \<le> cap"
    by (auto simp: represents_def lru_inv_def entries_def)
  with c lru16.freeCache_ok [OF c(2)] show ?thesis by blast
qed

theorem lru_run_safe_and_leak_free_witness:
  "\<exists>c. lru_run (first_free 1 junk_node) lru_hash (createCache TABLE_SIZE 1) [Put 1 10, Put 2 20, Get 1] =
          Some (c, [Inserted 1 10, Evicting 1, Inserted 2 20, Get_miss 1]) \<and>
        freeCache c = Some Map.empty"
  using lru_run_safe_and_leak_free
      [of 1 "first_free 1 junk_node" "[Put 1 10, Put 2 20, Get 1]"]
      malloc_serves_first_free [of 1 junk_node]
  by (auto simp: spec_put_def spec_get_def)

text \<open>\<^verbatim>\<open>main\<close> of \<^verbatim>\<open>lru.c\<close> prints what its comments announce, with any working allocator: the
  fourth put evicts key 2, the later lookup of 2 misses and that of 3 hits, and every node is
  freed.\<close>

theorem lru_main_output:
  assumes "malloc_serves alloc 3"
  shows "lru_main alloc = Some
    ([Inserted 1 10, Inserted 2 20, Inserted 3 30, Get_hit 1 10, Evicting 2, Inserted 4 40,
      Get_miss 2, Get_hit 3 30], Map.empty)"
proof -
  let ?ops = "[Put 1 10, Put 2 20, Put 3 30, Get 1, Put 4 40, Get 2, Get 3]"
  have "snd (spec_run 3 [] ?ops) =
    [Inserted 1 10, Inserted 2 20, Inserted 3 30, Get_hit 1 10, Evicting 2, Inserted 4 40,
      Get_miss 2, Get_hit 3 30]"
    by (simp add: spec_put_def spec_get_def without_def)
  moreover obtain c where "lru_run alloc lru_hash (createCache TABLE_SIZE 3) ?ops =
      Some (c, snd (spec_run 3 [] ?ops))" "freeCache c = Some Map.empty"
    using lru16.run_refines [OF lru16.createCache_represents, of 3 alloc ?ops] lru16.freeCache_ok
      assms by (fastforce simp: createCache_def)
  ultimately show ?thesis by (simp add: lru_main_def Let_def del: lru_run.simps)
qed

theorem lru_main_output_witness:
  "lru_main (first_free 3 junk_node) = Some
    ([Inserted 1 10, Inserted 2 20, Inserted 3 30, Get_hit 1 10, Evicting 2, Inserted 4 40,
      Get_miss 2, Get_hit 3 30], Map.empty)"
  using malloc_serves_first_free by (rule lru_main_output)

text \<open>the benchmark's copy of the cache (\<^verbatim>\<open>bench_c.c\<close>, 16384 buckets, masked hash) refines the same
  abstract cache: \<^verbatim>\<open>put\<close> and a following \<^verbatim>\<open>get\<close> of the same key return the value put.\<close>

theorem bench_put_get:
  assumes "represents bench_hash_func BENCH_TABLE_SIZE c l" and "0 < capacity c"
    and "malloc_serves alloc (nat (capacity c))"
  shows "\<exists>c1 c2. bench_put alloc c k v = Some c1 \<and> bench_get c1 k = Some (c2, v) \<and>
           represents bench_hash_func BENCH_TABLE_SIZE c2 (fst (spec_put (nat (capacity c)) l k v))"
proof -
  let ?s = "spec_put (nat (capacity c)) l k v"
  obtain c1 where c1: "put alloc bench_hash_func c k v = Some (c1, snd ?s)"
    "represents bench_hash_func BENCH_TABLE_SIZE c1 (fst ?s)"
    using lru16k.put_refines [OF assms] by blast
  obtain c2 where c2: "get bench_hash_func c1 k = Some (c2, snd (spec_get (fst ?s) k))"
    "represents bench_hash_func BENCH_TABLE_SIZE c2 (fst (spec_get (fst ?s) k))"
    using lru16k.get_refines [OF c1(2)] by blast
  have "\<exists>r. fst ?s = (k, v) # r" by (simp add: spec_put_def)
  then obtain r where r: "fst ?s = (k, v) # r" by blast
  have "k \<notin> fst ` set r" using represents_distinct [OF c1(2)] by (simp add: r)
  then have "without k r = r" by (force simp: without_def filter_id_conv)
  then have "spec_get (fst ?s) k = (fst ?s, v, [Get_hit k v])"
    by (simp add: spec_get_def r without_def)
  with c1 c2 show ?thesis by (auto simp: bench_put_def bench_get_def)
qed

theorem bench_put_get_witness:
  "\<exists>c1 c2. bench_put (first_free 2 junk_node) (bench_createCache 2) 8 80 = Some c1 \<and>
           bench_get c1 8 = Some (c2, 80)"
proof -
  have "represents bench_hash_func BENCH_TABLE_SIZE (bench_createCache 2) []"
    unfolding bench_createCache_def by (rule lru16k.createCache_represents) simp
  moreover have "capacity (bench_createCache 2) = 2"
    by (simp add: bench_createCache_def createCache_def)
  ultimately show ?thesis
    using bench_put_get [of "bench_createCache 2" "[]" "first_free 2 junk_node" 8 80]
      malloc_serves_first_free [of 2 junk_node] by auto
qed

end
