(* ===== verification/Wire_Format.thy ===== *)
theory Wire_Format
  imports Prelude
begin

unbundle bit_operations_syntax

text \<open>
  The binary formats: the big-endian market-tick serializer
  \<^verbatim>\<open>Phase-1/Day13/C/ser_des.c\<close>, the shift formulas of \<^verbatim>\<open>endian.c\<close>, the zero-copy feed
  parser \<^verbatim>\<open>Phase-1/Day26/C/zeroCopyParse.c\<close> and the fuzzed TLV parser
  \<^verbatim>\<open>Phase-0/Day5/C/parser.c\<close>.

  A buffer is a list of bytes; a read or write outside it is undefined (\<open>None\<close>). A pointer
  into the caller's buffer is the index it points to.
\<close>

type_synonym bytes = "u8 list"

definition rd :: "bytes \<Rightarrow> nat \<Rightarrow> u8 option" where
  "rd buf i = (if i < length buf then Some (buf ! i) else None)"

definition wr :: "nat \<Rightarrow> u8 \<Rightarrow> bytes \<Rightarrow> bytes option" where
  "wr i b buf = (if i < length buf then Some (buf[i := b]) else None)"

subsection \<open>Market ticks, big endian\<close>

record tick =
  symbol_id :: u32
  price :: u64
  tsize :: u32
  side :: u8

definition TICK_WIRE_SIZE :: nat where
  "TICK_WIRE_SIZE = 4 + 8 + 4 + 1"

definition write_u32_be :: "nat \<Rightarrow> u32 \<Rightarrow> bytes \<Rightarrow> bytes option" where
  "write_u32_be p v buf = do {
     buf \<leftarrow> wr (p + 0) (ucast (drop_bit 24 v)) buf;
     buf \<leftarrow> wr (p + 1) (ucast (drop_bit 16 v)) buf;
     buf \<leftarrow> wr (p + 2) (ucast (drop_bit 8 v)) buf;
     wr (p + 3) (ucast v) buf
   }"

definition write_u64_be :: "nat \<Rightarrow> u64 \<Rightarrow> bytes \<Rightarrow> bytes option" where
  "write_u64_be p v buf = do {
     buf \<leftarrow> wr (p + 0) (ucast (drop_bit 56 v)) buf;
     buf \<leftarrow> wr (p + 1) (ucast (drop_bit 48 v)) buf;
     buf \<leftarrow> wr (p + 2) (ucast (drop_bit 40 v)) buf;
     buf \<leftarrow> wr (p + 3) (ucast (drop_bit 32 v)) buf;
     buf \<leftarrow> wr (p + 4) (ucast (drop_bit 24 v)) buf;
     buf \<leftarrow> wr (p + 5) (ucast (drop_bit 16 v)) buf;
     buf \<leftarrow> wr (p + 6) (ucast (drop_bit 8 v)) buf;
     wr (p + 7) (ucast v) buf
   }"

definition read_u32_be :: "bytes \<Rightarrow> nat \<Rightarrow> u32 option" where
  "read_u32_be buf p = do {
     b0 \<leftarrow> rd buf (p + 0);
     b1 \<leftarrow> rd buf (p + 1);
     b2 \<leftarrow> rd buf (p + 2);
     b3 \<leftarrow> rd buf (p + 3);
     Some (push_bit 24 (ucast b0) OR push_bit 16 (ucast b1) OR push_bit 8 (ucast b2) OR ucast b3)
   }"

definition read_u64_be :: "bytes \<Rightarrow> nat \<Rightarrow> u64 option" where
  "read_u64_be buf p = do {
     b0 \<leftarrow> rd buf (p + 0);
     b1 \<leftarrow> rd buf (p + 1);
     b2 \<leftarrow> rd buf (p + 2);
     b3 \<leftarrow> rd buf (p + 3);
     b4 \<leftarrow> rd buf (p + 4);
     b5 \<leftarrow> rd buf (p + 5);
     b6 \<leftarrow> rd buf (p + 6);
     b7 \<leftarrow> rd buf (p + 7);
     Some (push_bit 56 (ucast b0) OR push_bit 48 (ucast b1) OR push_bit 40 (ucast b2) OR
           push_bit 32 (ucast b3) OR push_bit 24 (ucast b4) OR push_bit 16 (ucast b5) OR
           push_bit 8 (ucast b6) OR ucast b7)
   }"

text \<open>
  \<^verbatim>\<open>serialize_tick\<close> returns the number of bytes written and the buffer afterwards; the claimed
  length \<open>buf_len\<close> is the caller's word for the buffer's real length.
\<close>

definition serialize_tick :: "tick \<Rightarrow> bytes \<Rightarrow> nat \<Rightarrow> (nat \<times> bytes) option" where
  "serialize_tick src buf buf_len =
     (let required_len = TICK_WIRE_SIZE in
      if buf_len < required_len then Some (0, buf)
      else do {
        buf \<leftarrow> write_u32_be 0 (symbol_id src) buf;
        buf \<leftarrow> write_u64_be 4 (price src) buf;
        buf \<leftarrow> write_u32_be 12 (tsize src) buf;
        buf \<leftarrow> wr 16 (side src) buf;
        Some (required_len, buf)
      })"

definition deserialize_tick :: "bytes \<Rightarrow> nat \<Rightarrow> tick \<Rightarrow> (int \<times> tick) option" where
  "deserialize_tick buf buf_len dst =
     (let required_len = TICK_WIRE_SIZE in
      if buf_len < required_len then Some (-1, dst)
      else do {
        i \<leftarrow> read_u32_be buf 0;
        p \<leftarrow> read_u64_be buf 4;
        s \<leftarrow> read_u32_be buf 12;
        d \<leftarrow> rd buf 16;
        Some (0, dst\<lparr>symbol_id := i, price := p, tsize := s, side := d\<rparr>)
      })"

text \<open>
  \<^verbatim>\<open>main\<close> of \<^verbatim>\<open>ser_des.c\<close>: the bytes written, their dump, and the unpacked tick it prints. The
  contents of the uninitialised locals are arguments.
\<close>

definition ser_des_main :: "bytes \<Rightarrow> tick \<Rightarrow> (nat \<times> bytes \<times> tick option) option" where
  "ser_des_main buffer unpacked =
     (let original = \<lparr>symbol_id = 1001, price = 15025000, tsize = 50, side = 1\<rparr> in do {
        (bytes_written, buffer) \<leftarrow> serialize_tick original buffer (length buffer);
        (r, unpacked) \<leftarrow> deserialize_tick buffer bytes_written unpacked;
        Some (bytes_written, take bytes_written buffer, if r = 0 then Some unpacked else None)
      })"

subsection \<open>Byte-order conversion by shifts (\<^verbatim>\<open>endian.c\<close>)\<close>

definition net_port_shift :: "u16 \<Rightarrow> u16" where
  "net_port_shift host_port =
     push_bit 8 (host_port AND 0x00FF) OR drop_bit 8 (host_port AND 0xFF00)"

definition net_ip_shift :: "u32 \<Rightarrow> u32" where
  "net_ip_shift host_ip =
     push_bit 24 (host_ip AND 0x000000FF) OR push_bit 8 (host_ip AND 0x0000FF00) OR
     drop_bit 8 (host_ip AND 0x00FF0000) OR drop_bit 24 (host_ip AND 0xFF000000)"

text \<open>
  \<^verbatim>\<open>main\<close> of \<^verbatim>\<open>endian.c\<close>: what the two \<^verbatim>\<open>printf\<close> groups print. \<^verbatim>\<open>htons\<close>, \<^verbatim>\<open>htonl\<close>, \<^verbatim>\<open>ntohs\<close> and
  \<^verbatim>\<open>ntohl\<close> come from the system's socket library and are arguments.
\<close>

definition endian_main ::
  "(u16 \<Rightarrow> u16) \<Rightarrow> (u32 \<Rightarrow> u32) \<Rightarrow> (u16 \<Rightarrow> u16) \<Rightarrow> (u32 \<Rightarrow> u32) \<Rightarrow> (u16 \<times> u16) \<times> (u32 \<times> u32) \<times> u16 \<times> u32" where
  "endian_main htons htonl ntohs ntohl =
     (let host_port = 80;
          host_ip = 0xC0A80105;
          net_port_func = htons host_port;
          net_ip_func = htonl host_ip;
          net_port = net_port_shift host_port;
          net_ip = net_ip_shift host_ip;
          back_port_func = ntohs net_port_func;
          back_ip_func = ntohl net_ip_func;
          back_port_shift = net_port_shift net_port_func;
          back_ip_shift = net_ip_shift net_ip_func
      in ((net_port_func, net_port), (net_ip_func, net_ip), back_port_shift, back_ip_shift))"

subsection \<open>The zero-copy feed parser\<close>

definition TICK_SIZE :: nat where
  "TICK_SIZE = 16"

text \<open>
  \<^verbatim>\<open>memcpy\<close> of four bytes into a \<^verbatim>\<open>uint32_t\<close> on a little-endian host, and the compiler's byte
  swap.
\<close>

definition load_le32 :: "bytes \<Rightarrow> nat \<Rightarrow> u32 option" where
  "load_le32 buf p = do {
     b0 \<leftarrow> rd buf (p + 0);
     b1 \<leftarrow> rd buf (p + 1);
     b2 \<leftarrow> rd buf (p + 2);
     b3 \<leftarrow> rd buf (p + 3);
     Some (ucast b0 OR push_bit 8 (ucast b1) OR push_bit 16 (ucast b2) OR push_bit 24 (ucast b3))
   }"

definition load_le64 :: "bytes \<Rightarrow> nat \<Rightarrow> u64 option" where
  "load_le64 buf p = do {
     b0 \<leftarrow> rd buf (p + 0);
     b1 \<leftarrow> rd buf (p + 1);
     b2 \<leftarrow> rd buf (p + 2);
     b3 \<leftarrow> rd buf (p + 3);
     b4 \<leftarrow> rd buf (p + 4);
     b5 \<leftarrow> rd buf (p + 5);
     b6 \<leftarrow> rd buf (p + 6);
     b7 \<leftarrow> rd buf (p + 7);
     Some (ucast b0 OR push_bit 8 (ucast b1) OR push_bit 16 (ucast b2) OR push_bit 24 (ucast b3) OR
           push_bit 32 (ucast b4) OR push_bit 40 (ucast b5) OR push_bit 48 (ucast b6) OR
           push_bit 56 (ucast b7))
   }"

definition byte_of :: "nat \<Rightarrow> 'a::len word \<Rightarrow> 'a word" where
  "byte_of i x = take_bit 8 (drop_bit (8 * i) x)"

definition BSWAP32 :: "u32 \<Rightarrow> u32" where
  "BSWAP32 x = push_bit 24 (byte_of 0 x) OR push_bit 16 (byte_of 1 x) OR
               push_bit 8 (byte_of 2 x) OR byte_of 3 x"

definition BSWAP64 :: "u64 \<Rightarrow> u64" where
  "BSWAP64 x = push_bit 56 (byte_of 0 x) OR push_bit 48 (byte_of 1 x) OR
               push_bit 40 (byte_of 2 x) OR push_bit 32 (byte_of 3 x) OR
               push_bit 24 (byte_of 4 x) OR push_bit 16 (byte_of 5 x) OR
               push_bit 8 (byte_of 6 x) OR byte_of 7 x"

definition read_be32 :: "bytes \<Rightarrow> nat \<Rightarrow> u32 option" where
  "read_be32 buf p = map_option BSWAP32 (load_le32 buf p)"

definition read_be64 :: "bytes \<Rightarrow> nat \<Rightarrow> u64 option" where
  "read_be64 buf p = map_option BSWAP64 (load_le64 buf p)"

text \<open>
  A \<^verbatim>\<open>MarketTickView\<close> points into the caller's buffer; \<open>symbol\<close> is the index it points to.
\<close>

record MarketTickView =
  symbol :: nat
  sym_len :: nat
  view_price :: u32
  quantity :: u64

text \<open>
  The loop of \<^verbatim>\<open>parse_feed\<close>: the callback \<open>on_tick\<close> is an argument of the C function, so here a
  state transformer; it is called once per record, in order. Offsets do not wrap: they stay
  below the length of a real buffer.
\<close>

function parse_feed_loop ::
  "bytes \<Rightarrow> nat \<Rightarrow> (MarketTickView \<Rightarrow> 's \<Rightarrow> 's) \<Rightarrow> nat \<Rightarrow> 's \<Rightarrow> (nat \<times> 's) option" where
  "parse_feed_loop buf len on_tick offset s =
     (if offset + TICK_SIZE \<le> len then do {
        p \<leftarrow> read_be32 buf (offset + 4);
        q \<leftarrow> read_be64 buf (offset + 8);
        let tick = \<lparr>symbol = offset, sym_len = 4, view_price = p, quantity = q\<rparr>;
        parse_feed_loop buf len on_tick (offset + TICK_SIZE) (on_tick tick s)
      }
      else Some (offset, s))"
  by pat_completeness auto
termination
  by (relation "measure (\<lambda>(buf, len, on_tick, offset, s). len - offset)")
    (auto simp: TICK_SIZE_def)

declare parse_feed_loop.simps [simp del]

definition parse_feed ::
  "bytes \<Rightarrow> nat \<Rightarrow> (MarketTickView \<Rightarrow> 's \<Rightarrow> 's) \<Rightarrow> 's \<Rightarrow> (nat \<times> 's) option" where
  "parse_feed buf len on_tick s = parse_feed_loop buf len on_tick 0 s"

text \<open>
  \<^verbatim>\<open>handle_tick\<close> prints a line; \<^verbatim>\<open>%.4s\<close> stops at the first zero byte. The output is a list of
  printed values.
\<close>

definition handle_tick ::
  "bytes \<Rightarrow> MarketTickView \<Rightarrow> (bytes \<times> u32 \<times> u64) list \<Rightarrow> (bytes \<times> u32 \<times> u64) list" where
  "handle_tick buf tick out =
     out @ [(takeWhile (\<lambda>b. b \<noteq> 0) (take 4 (drop (symbol tick) buf)),
             view_price tick, quantity tick)]"

definition feed_stream :: bytes where
  "feed_stream =
     [65, 65, 80, 76, 0, 0, 0, 100, 0, 0, 0, 0, 0, 0, 3, 232,
      77, 83, 70, 84, 0, 0, 1, 144, 0, 0, 0, 0, 0, 0, 1, 244,
      78, 86, 68, 65, 0]"

definition feed_main :: "((bytes \<times> u32 \<times> u64) list \<times> nat \<times> nat \<times> nat) option" where
  "feed_main = do {
     (consumed, out) \<leftarrow> parse_feed feed_stream (length feed_stream) (handle_tick feed_stream) [];
     Some (out, length feed_stream, consumed, length feed_stream - consumed)
   }"

subsection \<open>The TLV parser\<close>

record Packet =
  pkt_type :: u8
  pkt_length :: u16
  pkt_value :: "nat option"

text \<open>
  Returns the code and the packet, whose fields are written as the code goes, so also on the
  second error exit. The shift is on an \<^verbatim>\<open>int\<close>, its result cut to 16 bits.
\<close>

definition parse_tlv :: "bytes \<Rightarrow> nat \<Rightarrow> Packet \<Rightarrow> (int \<times> Packet) option" where
  "parse_tlv data n out =
     (if n < 3 then Some (-1, out)
      else do {
        t \<leftarrow> rd data 0;
        let out = out\<lparr>pkt_type := t\<rparr>;
        hi \<leftarrow> rd data 1;
        lo \<leftarrow> rd data 2;
        let out = out\<lparr>pkt_length := ucast (push_bit 8 (ucast hi) OR ucast lo :: i32)\<rparr>;
        if n - 3 < unat (pkt_length out) then Some (-1, out)
        else Some (0, out\<lparr>pkt_value := Some 3\<rparr>)
      })"

subsection \<open>The value of a big-endian field\<close>

definition be_value :: "bytes \<Rightarrow> nat" where
  "be_value bs = foldl (\<lambda>a b. a * 256 + unat b) 0 bs"

definition field :: "bytes \<Rightarrow> nat \<Rightarrow> nat \<Rightarrow> nat" where
  "field buf p n = be_value (take n (drop p buf))"

lemma rd_eq [simp]: "i < length buf \<Longrightarrow> rd buf i = Some (buf ! i)"
  by (simp add: rd_def)

lemma wr_eq [simp]: "i < length buf \<Longrightarrow> wr i b buf = Some (buf[i := b])"
  by (simp add: wr_def)

lemma take_Suc_drop: "i < length xs \<Longrightarrow> take (Suc n) (drop i xs) = xs ! i # take n (drop (Suc i) xs)"
  by (simp add: Cons_nth_drop_Suc [symmetric])

lemma take4_drop:
  "p + 4 \<le> length buf \<Longrightarrow>
     take 4 (drop p buf) = [buf ! p, buf ! (p + 1), buf ! (p + 2), buf ! (p + 3)]"
  by (simp add: numeral_eq_Suc take_Suc_drop)

lemma take8_drop:
  "p + 8 \<le> length buf \<Longrightarrow>
     take 8 (drop p buf) = [buf ! p, buf ! (p + 1), buf ! (p + 2), buf ! (p + 3),
                            buf ! (p + 4), buf ! (p + 5), buf ! (p + 6), buf ! (p + 7)]"
  by (simp add: numeral_eq_Suc take_Suc_drop)

lemma or_horner32:
  "push_bit 24 (ucast b0) OR push_bit 16 (ucast b1) OR push_bit 8 (ucast b2) OR ucast b3 =
   (push_bit 8 (push_bit 8 (push_bit 8 (ucast (b0::u8)) OR ucast (b1::u8)) OR ucast (b2::u8))
     OR ucast (b3::u8) :: 'a::len word)"
  by (simp only: push_bit_or push_bit_push_bit or.assoc) simp

lemma or_horner64:
  "push_bit 56 (ucast b0) OR push_bit 48 (ucast b1) OR push_bit 40 (ucast b2) OR
   push_bit 32 (ucast b3) OR push_bit 24 (ucast b4) OR push_bit 16 (ucast b5) OR
   push_bit 8 (ucast b6) OR ucast b7 =
   (push_bit 8 (push_bit 8 (push_bit 8 (push_bit 8 (push_bit 8 (push_bit 8 (push_bit 8
     (ucast (b0::u8)) OR ucast (b1::u8)) OR ucast (b2::u8)) OR ucast (b3::u8)) OR
      ucast (b4::u8)) OR ucast (b5::u8)) OR ucast (b6::u8)) OR ucast (b7::u8) :: 'a::len word)"
  by (simp only: push_bit_or push_bit_push_bit or.assoc) simp

lemma unat_be32:
  "unat (push_bit 24 (ucast b0) OR push_bit 16 (ucast b1) OR push_bit 8 (ucast b2) OR
         ucast b3 :: u32) = be_value [b0, b1, b2, b3]"
  unfolding or_horner32 using unat_u8_less [of b0] unat_u8_less [of b1] unat_u8_less [of b2]
  by (simp del: push_bit_or add: word_nat be_value_def)

lemma unat_be64:
  "unat (push_bit 56 (ucast b0) OR push_bit 48 (ucast b1) OR push_bit 40 (ucast b2) OR
         push_bit 32 (ucast b3) OR push_bit 24 (ucast b4) OR push_bit 16 (ucast b5) OR
         push_bit 8 (ucast b6) OR ucast b7 :: u64) = be_value [b0, b1, b2, b3, b4, b5, b6, b7]"
  unfolding or_horner64 using unat_u8_less [of b0] unat_u8_less [of b1] unat_u8_less [of b2]
    unat_u8_less [of b3] unat_u8_less [of b4] unat_u8_less [of b5] unat_u8_less [of b6]
  by (simp del: push_bit_or add: word_nat be_value_def)

lemma write_u32_be_eq:
  "p + 4 \<le> length buf \<Longrightarrow> write_u32_be p v buf =
     Some (buf[p := ucast (drop_bit 24 v), p + 1 := ucast (drop_bit 16 v),
               p + 2 := ucast (drop_bit 8 v), p + 3 := ucast v])"
  by (simp add: write_u32_be_def)

lemma write_u64_be_eq:
  "p + 8 \<le> length buf \<Longrightarrow> write_u64_be p v buf =
     Some (buf[p := ucast (drop_bit 56 v), p + 1 := ucast (drop_bit 48 v),
               p + 2 := ucast (drop_bit 40 v), p + 3 := ucast (drop_bit 32 v),
               p + 4 := ucast (drop_bit 24 v), p + 5 := ucast (drop_bit 16 v),
               p + 6 := ucast (drop_bit 8 v), p + 7 := ucast v])"
  by (simp add: write_u64_be_def)

lemma be_value_bytes32:
  "be_value [ucast (drop_bit 24 v), ucast (drop_bit 16 v), ucast (drop_bit 8 v), ucast v] =
     unat (v :: u32)"
proof -
  have "push_bit 24 (ucast (ucast (drop_bit 24 v) :: u8)) OR
        push_bit 16 (ucast (ucast (drop_bit 16 v) :: u8)) OR
        push_bit 8 (ucast (ucast (drop_bit 8 v) :: u8)) OR ucast (ucast v :: u8) = v"
    by (rule bit_word_eqI) (auto simp: bit_slice bit_slice0 bit_or_iff)
  then show ?thesis using unat_be32 by metis
qed

lemma be_value_bytes64:
  "be_value [ucast (drop_bit 56 v), ucast (drop_bit 48 v), ucast (drop_bit 40 v),
             ucast (drop_bit 32 v), ucast (drop_bit 24 v), ucast (drop_bit 16 v),
             ucast (drop_bit 8 v), ucast v] = unat (v :: u64)"
proof -
  have "push_bit 56 (ucast (ucast (drop_bit 56 v) :: u8)) OR
        push_bit 48 (ucast (ucast (drop_bit 48 v) :: u8)) OR
        push_bit 40 (ucast (ucast (drop_bit 40 v) :: u8)) OR
        push_bit 32 (ucast (ucast (drop_bit 32 v) :: u8)) OR
        push_bit 24 (ucast (ucast (drop_bit 24 v) :: u8)) OR
        push_bit 16 (ucast (ucast (drop_bit 16 v) :: u8)) OR
        push_bit 8 (ucast (ucast (drop_bit 8 v) :: u8)) OR ucast (ucast v :: u8) = v"
    by (rule bit_word_eqI) (auto simp: bit_slice bit_slice0 bit_or_iff)
  then show ?thesis using unat_be64 by metis
qed

lemma read_u32_be_eq:
  "p + 4 \<le> length buf \<Longrightarrow> read_u32_be buf p = Some (word_of_nat (field buf p 4))"
  by (simp add: read_u32_be_def field_def take4_drop unat_be32 [symmetric])

lemma read_u64_be_eq:
  "p + 8 \<le> length buf \<Longrightarrow> read_u64_be buf p = Some (word_of_nat (field buf p 8))"
  by (simp add: read_u64_be_def field_def take8_drop unat_be64 [symmetric])

lemma bit_byte_of: "bit (byte_of i (x::'a::len word)) n \<longleftrightarrow> n < 8 \<and> bit x (8 * i + n)"
  by (auto simp: byte_of_def bit_simps dest: bit_imp_le_length)

lemma byte_of_or: "byte_of i (x OR y) = (byte_of i x OR byte_of i y)"
  by (simp add: byte_of_def)

lemma byte_of_ucast:
  "8 \<le> LENGTH('a) \<Longrightarrow> byte_of i (ucast (b::u8) :: 'a::len word) = (if i = 0 then ucast b else 0)"
  by (cases i) (rule bit_word_eqI; auto simp: bit_byte_of bit_simps dest: bit_imp_le_length)+

lemma byte_of_push:
  "8 dvd k \<Longrightarrow> k + 8 \<le> LENGTH('a) \<Longrightarrow>
     byte_of i (push_bit k (ucast (b::u8)) :: 'a::len word) = (if k = 8 * i then ucast b else 0)"
  by (rule bit_word_eqI)
    (auto simp: bit_byte_of bit_simps elim!: dvdE dest: bit_imp_le_length)

lemma read_be32_eq:
  "p + 4 \<le> length buf \<Longrightarrow> read_be32 buf p = Some (word_of_nat (field buf p 4))"
  by (simp add: read_be32_def load_le32_def field_def take4_drop BSWAP32_def
      byte_of_or byte_of_ucast byte_of_push unat_be32 [symmetric])

lemma read_be64_eq:
  "p + 8 \<le> length buf \<Longrightarrow> read_be64 buf p = Some (word_of_nat (field buf p 8))"
  by (simp add: read_be64_def load_le64_def field_def take8_drop BSWAP64_def
      byte_of_or byte_of_ucast byte_of_push unat_be64 [symmetric])

lemma net_ip_bytes: "net_ip_shift x = BSWAP32 x"
proof -
  have m: "(0xFF::u32) = mask 8" "(0xFF00::u32) = push_bit 8 (mask 8)"
    "(0xFF0000::u32) = push_bit 16 (mask 8)" "(0xFF000000::u32) = push_bit 24 (mask 8)"
    by (simp_all add: mask_eq_exp_minus_1 push_bit_eq_mult)
  show ?thesis unfolding net_ip_shift_def BSWAP32_def byte_of_def m
    by (rule bit_word_eqI) (auto simp: bit_simps dest: bit_imp_le_length)
qed
lemmas slice_simps = field_def take4_drop [of 0, simplified] take4_drop take8_drop
  be_value_bytes32 be_value_bytes64

lemma serialize_tick_spec:
  assumes "TICK_WIRE_SIZE \<le> n" "n \<le> length buf"
  obtains buf' where "serialize_tick t buf n = Some (TICK_WIRE_SIZE, buf')"
    "length buf' = length buf" "drop TICK_WIRE_SIZE buf' = drop TICK_WIRE_SIZE buf"
    "field buf' 0 4 = unat (symbol_id t)" "field buf' 4 8 = unat (price t)"
    "field buf' 12 4 = unat (tsize t)" "buf' ! 16 = side t"
proof -
  have len: "17 \<le> length buf" "buf \<noteq> []" using assms by (auto simp: TICK_WIRE_SIZE_def)
  show ?thesis
  proof (rule that)
    show "serialize_tick t buf n = Some (TICK_WIRE_SIZE, the (map_option snd (serialize_tick t buf n)))"
      using assms len by (simp add: serialize_tick_def write_u32_be_eq write_u64_be_eq)
  qed (use assms len in \<open>simp_all add: serialize_tick_def write_u32_be_eq write_u64_be_eq
      slice_simps TICK_WIRE_SIZE_def\<close>)
qed

lemma deserialize_tick_eq:
  "TICK_WIRE_SIZE \<le> n \<Longrightarrow> n \<le> length buf \<Longrightarrow> deserialize_tick buf n d =
     Some (0, d\<lparr>symbol_id := word_of_nat (field buf 0 4), price := word_of_nat (field buf 4 8),
                tsize := word_of_nat (field buf 12 4), side := buf ! 16\<rparr>)"
  by (simp add: deserialize_tick_def read_u32_be_eq read_u64_be_eq TICK_WIRE_SIZE_def)

text \<open>C25: Serializing a tick into a buffer of at least 17 bytes writes exactly its first 17 bytes: the symbol in 4, the price
  in 8 and the size in 4, the most significant byte of each first, and the side in the last. Deserializing them gives the tick
  back; with a shorter length both operations refuse and change nothing.\<close>

theorem tick_round_trip:
  assumes "TICK_WIRE_SIZE \<le> n" "n \<le> length buf"
  shows "\<exists>buf'. serialize_tick t buf n = Some (TICK_WIRE_SIZE, buf') \<and> length buf' = length buf \<and>
           drop TICK_WIRE_SIZE buf' = drop TICK_WIRE_SIZE buf \<and>
           be_value (take 4 buf') = unat (symbol_id t) \<and> be_value (take 8 (drop 4 buf')) = unat (price t) \<and>
           be_value (take 4 (drop 12 buf')) = unat (tsize t) \<and> buf' ! 16 = side t \<and>
           (\<forall>m d. TICK_WIRE_SIZE \<le> m \<longrightarrow> m \<le> length buf \<longrightarrow> deserialize_tick buf' m d = Some (0, t)) \<and>
           (\<forall>m d. m < TICK_WIRE_SIZE \<longrightarrow> serialize_tick t buf' m = Some (0, buf') \<and>
                                       deserialize_tick buf' m d = Some (-1, d))"
proof (rule serialize_tick_spec [OF assms, of t])
  fix buf'
  assume "serialize_tick t buf n = Some (TICK_WIRE_SIZE, buf')" "length buf' = length buf"
    "drop TICK_WIRE_SIZE buf' = drop TICK_WIRE_SIZE buf"
    "field buf' 0 4 = unat (symbol_id t)" "field buf' 4 8 = unat (price t)"
    "field buf' 12 4 = unat (tsize t)" "buf' ! 16 = side t"
  then show ?thesis
    by (intro exI [of _ buf'])
      (simp add: deserialize_tick_eq, simp add: field_def deserialize_tick_def serialize_tick_def)
qed

lemma tick_round_trip_witness:
  "\<exists>buf'. serialize_tick \<lparr>symbol_id = 1001, price = 15025000, tsize = 50, side = 1\<rparr> (replicate 32 0) 32 =
     Some (17, buf') \<and> deserialize_tick buf' 17 \<lparr>symbol_id = 0, price = 0, tsize = 0, side = 0\<rparr> =
     Some (0, \<lparr>symbol_id = 1001, price = 15025000, tsize = 50, side = 1\<rparr>)"
proof -
  have "TICK_WIRE_SIZE \<le> 32" "32 \<le> length (replicate 32 (0::u8))" "TICK_WIRE_SIZE = 17"
    by (simp_all add: TICK_WIRE_SIZE_def)
  then show ?thesis
    using tick_round_trip [of 32 "replicate 32 0" "\<lparr>symbol_id = 1001, price = 15025000, tsize = 50, side = 1\<rparr>"]
    by auto
qed

lemma ser_des_main_out:
  "ser_des_main (replicate 32 0) \<lparr>symbol_id = 0, price = 0, tsize = 0, side = 0\<rparr> =
     Some (17, [0, 0, 3, 0xE9, 0, 0, 0, 0, 0, 0xE5, 0x43, 0x68, 0, 0, 0, 50, 1],
           Some \<lparr>symbol_id = 1001, price = 15025000, tsize = 50, side = 1\<rparr>)"
  by code_simp

subsection \<open>Byte order\<close>

definition le_bytes16 :: "u16 \<Rightarrow> bytes" where
  "le_bytes16 y = [ucast y, ucast (drop_bit 8 y)]"

definition le_bytes32 :: "u32 \<Rightarrow> bytes" where
  "le_bytes32 y = [ucast y, ucast (drop_bit 8 y), ucast (drop_bit 16 y), ucast (drop_bit 24 y)]"

text \<open>
  What the socket library documents on a little-endian host: the memory image of the converted
  number is the big-endian image of the argument.
\<close>

definition net_order16 :: "(u16 \<Rightarrow> u16) \<Rightarrow> bool" where
  "net_order16 f \<longleftrightarrow> (\<forall>x. be_value (le_bytes16 (f x)) = unat x)"

definition net_order32 :: "(u32 \<Rightarrow> u32) \<Rightarrow> bool" where
  "net_order32 f \<longleftrightarrow> (\<forall>x. be_value (le_bytes32 (f x)) = unat x)"

lemma split_bytes32:
  obtains b0 b1 b2 b3 :: u8 where "(x::u32) = ucast b0 OR push_bit 8 (ucast b1) OR push_bit 16 (ucast b2) OR push_bit 24 (ucast b3)"
proof (rule that)
  show "x = ucast (ucast x :: u8) OR push_bit 8 (ucast (ucast (drop_bit 8 x) :: u8)) OR
     push_bit 16 (ucast (ucast (drop_bit 16 x) :: u8)) OR push_bit 24 (ucast (ucast (drop_bit 24 x) :: u8))"
    by (rule bit_word_eqI) (auto simp: bit_slice bit_slice0 bit_or_iff)
qed
lemma BSWAP32_invol: "BSWAP32 (BSWAP32 x) = x"
proof (rule split_bytes32 [of x])
  fix b0 b1 b2 b3 :: u8
  assume x: "x = ucast b0 OR push_bit 8 (ucast b1) OR push_bit 16 (ucast b2) OR push_bit 24 (ucast b3)"
  show ?thesis unfolding x by (simp add: BSWAP32_def byte_of_or byte_of_ucast byte_of_push or.assoc or.commute or.left_commute)
qed

lemma port_invol: "net_port_shift (net_port_shift x) = x"
proof -
  have m: "(0xFF::u16) = mask 8" "(0xFF00::u16) = push_bit 8 (mask 8)" 
    by (simp_all add: mask_eq_exp_minus_1 push_bit_eq_mult)
  show ?thesis unfolding net_port_shift_def m
    by (rule bit_word_eqI) (auto simp: bit_simps dest: bit_imp_le_length)
qed

lemma be_value_le_bytes32: "be_value (le_bytes32 y) = unat (BSWAP32 y)"
proof -
  have b: "ucast (ucast (drop_bit (8 * i) y) :: u8) = byte_of i y" for i
    by (rule bit_word_eqI) (auto simp: byte_of_def bit_simps dest: bit_imp_le_length)
  show ?thesis using b [of 0] b [of 1] b [of 2] b [of 3]
    by (simp add: le_bytes32_def BSWAP32_def unat_be32 [symmetric])
qed

lemma be_value_le_bytes16: "be_value (le_bytes16 y) = unat (net_port_shift y)"
proof -
  have m: "(0xFF::u16) = mask 8" "(0xFF00::u16) = push_bit 8 (mask 8)"
    by (simp_all add: mask_eq_exp_minus_1 push_bit_eq_mult)
  have "net_port_shift y = push_bit 8 (ucast (ucast y :: u8)) OR ucast (ucast (drop_bit 8 y) :: u8)"
    unfolding net_port_shift_def m
    by (rule bit_word_eqI) (auto simp: bit_simps dest: bit_imp_le_length)
  then show ?thesis using unat_u8_less [of "ucast y"]
    by (simp add: le_bytes16_def be_value_def word_nat)
qed

lemma net_order32_unique: "net_order32 f \<Longrightarrow> f x = net_ip_shift x"
  by (metis net_order32_def be_value_le_bytes32 BSWAP32_invol net_ip_bytes word_unat_eq_iff)

lemma net_order16_unique: "net_order16 f \<Longrightarrow> f x = net_port_shift x"
  by (metis net_order16_def be_value_le_bytes16 port_invol word_unat_eq_iff)

lemma net_order_shift: "net_order16 net_port_shift" "net_order32 net_ip_shift"
  by (simp_all add: net_order16_def net_order32_def be_value_le_bytes16 be_value_le_bytes32
      port_invol BSWAP32_invol net_ip_bytes)

text \<open>The hand-written shifts of endian.c agree with the library's conversions, and shifting the
  library's result back gives the host value again.\<close>

theorem endian_main_agrees:
  assumes "net_order16 htons" "net_order32 htonl"
  shows "endian_main htons htonl ntohs ntohl =
           ((0x5000, 0x5000), (0x0501A8C0, 0x0501A8C0), 80, 0xC0A80105) \<and>
         (\<forall>p. htons p = net_port_shift p \<and> net_port_shift (htons p) = p) \<and>
         (\<forall>a. htonl a = net_ip_shift a \<and> net_ip_shift (htonl a) = a)"
proof -
  have "net_port_shift 80 = 0x5000" "net_ip_shift 0xC0A80105 = 0x0501A8C0" by code_simp+
  then show ?thesis
    by (simp add: endian_main_def Let_def net_order16_unique [OF assms(1)]
        net_order32_unique [OF assms(2)])
      (metis port_invol BSWAP32_invol net_ip_bytes)
qed

lemma endian_main_agrees_witness:
  "fst (snd (endian_main net_port_shift net_ip_shift net_port_shift net_ip_shift)) =
     (0x0501A8C0, 0x0501A8C0)"
  using endian_main_agrees [OF net_order_shift] by simp

subsection \<open>feed\<close>
definition feed_view :: "bytes \<Rightarrow> nat \<Rightarrow> MarketTickView" where
  "feed_view buf k = \<lparr>symbol = 16 * k, sym_len = 4,
     view_price = word_of_nat (field buf (16 * k + 4) 4),
     quantity = word_of_nat (field buf (16 * k + 8) 8)\<rparr>"

lemma parse_feed_loop_eq:
  "len \<le> length buf \<Longrightarrow> k \<le> len div 16 \<Longrightarrow> parse_feed_loop buf len on_tick (16 * k) s =
     Some (16 * (len div 16), fold on_tick (map (feed_view buf) [k..<len div 16]) s)"
proof (induction "len div 16 - k" arbitrary: k s)
  case 0
  then have "k = len div 16" by simp
  moreover have "\<not> 16 * (len div 16) + 16 \<le> len"
    using mod_less_divisor [of 16 len] mult_div_mod_eq [of 16 len] by linarith
  ultimately show ?case by (simp add: parse_feed_loop.simps TICK_SIZE_def)
next
  case (Suc j)
  then have k: "k < len div 16" by simp
  then have in_buf: "16 * k + 16 \<le> len"
    using mult_div_mod_eq [of 16 len] by linarith
  have "parse_feed_loop buf len on_tick (16 * k) s =
          parse_feed_loop buf len on_tick (16 * Suc k) (on_tick (feed_view buf k) s)"
    using in_buf Suc.prems
    by (subst parse_feed_loop.simps)
      (simp add: TICK_SIZE_def read_be32_eq read_be64_eq feed_view_def add.commute)
  then show ?case using Suc.hyps(1) [of "Suc k"] Suc.hyps(2) Suc.prems(1) k
    by (simp add: upt_conv_Cons del: mult_Suc_right)
qed

text \<open>The feed parser calls back once per complete 16-byte record, in order, with the record's
  symbol pointer and big-endian fields, never reads outside the buffer and reports the bytes of the
  complete records as consumed, leaving the partial record at the end.\<close>

theorem parse_feed_records:
  assumes "len \<le> length buf"
  shows "parse_feed buf len on_tick s =
           Some (16 * (len div 16), fold on_tick (map (feed_view buf) [0..<len div 16]) s)"
  using parse_feed_loop_eq [OF assms, of 0] by (simp add: parse_feed_def)

lemma parse_feed_records_witness:
  "parse_feed feed_stream 37 (\<lambda>v n. n + unat (view_price v)) 0 = Some (32, 500)"
proof -
  have "fold (\<lambda>v n. n + unat (view_price v)) (map (feed_view feed_stream) [0..<2]) 0 = 500"
    by code_simp
  then show ?thesis
    using parse_feed_records [of 37 feed_stream "\<lambda>v n. n + unat (view_price v)" 0]
    by (simp add: feed_stream_def)
qed

lemma feed_main_out: "feed_main = Some ([([65, 65, 80, 76], 100, 1000), ([77, 83, 70, 84], 400, 500)], 37, 32, 5)"
  by code_simp

subsection \<open>The TLV parser: accepted exactly when the length fits\<close>

lemma take2_drop:
  "p + 2 \<le> length buf \<Longrightarrow> take 2 (drop p buf) = [buf ! p, buf ! (p + 1)]"
  by (simp add: numeral_eq_Suc take_Suc_drop)

lemma unat_length_field:
  "unat (ucast (push_bit 8 (ucast (hi::u8)) OR ucast (lo::u8) :: i32) :: u16) = be_value [hi, lo]"
proof -
  have "unat (push_bit 8 (ucast hi) OR ucast lo :: i32) = be_value [hi, lo]"
    using unat_u8_less [of hi] by (simp add: word_nat be_value_def)
  moreover have "be_value [hi, lo] < 65536"
    using unat_u8_less [of hi] unat_u8_less [of lo] by (simp add: be_value_def)
  ultimately show ?thesis by (simp add: unsigned_ucast_eq take_bit_nat_eq_self_iff)
qed

text \<open>The TLV parser never reads outside its input; it accepts exactly the inputs whose declared
  length fits in the bytes after the 3-byte header, and it has already stored type and length when
  it rejects a packet for its length.\<close>

theorem parse_tlv_spec:
  assumes "n \<le> length data"
  shows "parse_tlv data n out =
     Some (if n < 3 then (-1, out)
           else let out' = out\<lparr>pkt_type := data ! 0, pkt_length := word_of_nat (field data 1 2)\<rparr> in
                if 3 + field data 1 2 \<le> n then (0, out'\<lparr>pkt_value := Some 3\<rparr>) else (-1, out'))"
proof (cases "n < 3")
  case False
  then have "field data 1 2 = be_value [data ! 1, data ! 2]"
    using assms take2_drop [of 1 data] by (simp add: field_def numeral_2_eq_2)
  moreover from this have "(word_of_nat (field data 1 2) :: u16) =
      ucast (push_bit 8 (ucast (data ! 1)) OR ucast (data ! 2) :: i32)"
    by (simp add: unat_length_field [symmetric])
  moreover have "data \<noteq> []" using False assms by auto
  ultimately show ?thesis using False assms
    by (auto simp add: parse_tlv_def unat_length_field Let_def)
qed (simp add: parse_tlv_def)


lemma parse_tlv_spec_witness:
  "map_option fst (parse_tlv [7, 0, 2, 65, 66] 5 \<lparr>pkt_type = 0, pkt_length = 0, pkt_value = None\<rparr>)
     = Some 0 \<and>
   map_option fst (parse_tlv [7, 0, 3, 65, 66] 5 \<lparr>pkt_type = 0, pkt_length = 0, pkt_value = None\<rparr>)
     = Some (-1)"
proof -
  have "field [7, 0, 2, 65, 66] 1 2 = 2" "field [7, 0, 3, 65, 66] 1 2 = 3" by code_simp+
  then show ?thesis
    using parse_tlv_spec [of 5 "[7, 0, 2, 65, 66]"] parse_tlv_spec [of 5 "[7, 0, 3, 65, 66]"]
    by simp
qed

lemma parse_tlv_frame:
  assumes "length payload < 65536" "n \<le> length rest"
  shows "parse_tlv (t # ucast (drop_bit 8 (word_of_nat (length payload) :: u16)) #
            ucast (word_of_nat (length payload) :: u16) # payload @ rest) (3 + length payload + n) out =
     Some (0, \<lparr>pkt_type = t, pkt_length = word_of_nat (length payload), pkt_value = Some 3\<rparr>)"
proof -
  let ?L = "word_of_nat (length payload) :: u16"
  have L: "(ucast (push_bit 8 (ucast (ucast (drop_bit 8 ?L) :: u8)) OR ucast (ucast ?L :: u8) :: i32) :: u16) = ?L"
    by (rule bit_word_eqI) (auto simp: bit_simps dest: bit_imp_le_length)
  have "unat ?L = length payload" using assms(1) by (simp add: unat_of_nat)
  then show ?thesis by (simp add: parse_tlv_def rd_def L) 
qed

end
