(* ===== verification/Probing.thy ===== *)
theory Probing
  imports Prelude
begin

text \<open>
  Open addressing with linear probing, as three programs of the repository use it (the symbol
  table of Day 24 in C and in C++, the string pool of Day 16). A table is a
  list of slots; what the programs share is an interface: a hash of the key, the test that stops a
  probe (\<open>vacant\<close>) and the key a slot holds. The locale \<open>open_addressing\<close> proves once what a
  probe may conclude and which updates keep the table searchable.
\<close>

definition probe_at :: "('k \<Rightarrow> nat) \<Rightarrow> 's list \<Rightarrow> 'k \<Rightarrow> nat \<Rightarrow> nat" where
  "probe_at hash tab k d = (hash k + d) mod length tab"

text \<open>
  A table is searchable when every key it holds is reached from its hash without crossing a
  vacant slot, and no key is held twice.
\<close>

definition searchable :: "('k \<Rightarrow> nat) \<Rightarrow> ('s \<Rightarrow> bool) \<Rightarrow> ('s \<Rightarrow> 'k option) \<Rightarrow> 's list \<Rightarrow> bool" where
  "searchable hash vacant skey tab \<longleftrightarrow>
     tab \<noteq> [] \<and>
     (\<forall>i<length tab. \<forall>k. skey (tab ! i) = Some k \<longrightarrow>
        (\<exists>d<length tab. i = probe_at hash tab k d \<and>
           (\<forall>j<d. \<not> vacant (tab ! probe_at hash tab k j)))) \<and>
     (\<forall>i<length tab. \<forall>j<length tab.
        skey (tab ! i) \<noteq> None \<longrightarrow> skey (tab ! i) = skey (tab ! j) \<longrightarrow> i = j)"

text \<open>The abstract content: the slot that holds a key.\<close>

definition slot_of :: "('s \<Rightarrow> 'k option) \<Rightarrow> 's list \<Rightarrow> 'k \<Rightarrow> 's option" where
  "slot_of skey tab k = List.find (\<lambda>s. skey s = Some k) tab"

text \<open>What a probe has established after \<open>d\<close> steps: no stop, no match.\<close>

definition probed ::
  "('k \<Rightarrow> nat) \<Rightarrow> ('s \<Rightarrow> bool) \<Rightarrow> ('s \<Rightarrow> 'k option) \<Rightarrow> 's list \<Rightarrow> 'k \<Rightarrow> nat \<Rightarrow> bool" where
  "probed hash vacant skey tab k d \<longleftrightarrow>
     (\<forall>j<d. \<not> vacant (tab ! probe_at hash tab k j) \<and> skey (tab ! probe_at hash tab k j) \<noteq> Some k)"

lemma slot_of_None: "slot_of skey tab k = None \<longleftrightarrow> (\<forall>i<length tab. skey (tab ! i) \<noteq> Some k)"
  by (auto simp: slot_of_def find_None_iff in_set_conv_nth)

lemma searchable_unique:
  "searchable hash vacant skey tab \<Longrightarrow> i < length tab \<Longrightarrow> j < length tab \<Longrightarrow>
     skey (tab ! i) = Some k \<Longrightarrow> skey (tab ! j) = Some k \<Longrightarrow> i = j"
  by (simp add: searchable_def)

lemma searchable_reach:
  assumes "searchable hash vacant skey tab" "i < length tab" "skey (tab ! i) = Some k"
  obtains d where "d < length tab" "i = probe_at hash tab k d"
    "\<forall>j<d. \<not> vacant (tab ! probe_at hash tab k j)"
  using assms unfolding searchable_def by blast

lemma slot_ofE:
  assumes "slot_of skey tab k = Some s"
  obtains j where "j < length tab" "s = tab ! j" "skey (tab ! j) = Some k"
  using assms by (auto simp: slot_of_def find_Some_iff)

lemma probe_at_less [simp]: "tab \<noteq> [] \<Longrightarrow> probe_at hash tab k d < length tab"
  by (simp add: probe_at_def)

lemma probe_at_update [simp]: "probe_at hash (tab[i := s]) k d = probe_at hash tab k d"
  by (simp add: probe_at_def)

lemma probe_at_Suc: "probe_at hash tab k (Suc d) = (probe_at hash tab k d + 1) mod length tab"
  by (simp add: probe_at_def mod_Suc_eq)

lemma probe_at_inject:
  "i < length tab \<Longrightarrow> j < length tab \<Longrightarrow> probe_at hash tab k i = probe_at hash tab k j \<Longrightarrow> i = j"
  unfolding probe_at_def by (rule mod_add_left_inject)

lemma probe_at_surj:
  assumes "i < length tab"
  obtains d where "d < length tab" "i = probe_at hash tab k d"
proof -
  let ?n = "length tab"
  have "inj_on (probe_at hash tab k) {..<?n}"
    by (rule inj_onI) (auto dest: probe_at_inject)
  moreover have "tab \<noteq> []" using assms by auto
  then have "probe_at hash tab k ` {..<?n} \<subseteq> {..<?n}" by auto
  ultimately have "probe_at hash tab k ` {..<?n} = {..<?n}" by (simp add: endo_inj_surj)
  with assms have "i \<in> probe_at hash tab k ` {..<?n}" by simp
  then show ?thesis using that by auto
qed

lemma probed_0 [simp]: "probed hash vacant skey tab k 0"
  by (simp add: probed_def)

lemma probed_Suc:
  "probed hash vacant skey tab k (Suc d) \<longleftrightarrow>
     probed hash vacant skey tab k d \<and> \<not> vacant (tab ! probe_at hash tab k d) \<and>
     skey (tab ! probe_at hash tab k d) \<noteq> Some k"
  by (auto simp: probed_def less_Suc_eq)

text \<open>A table with a vacant slot stops every probe before it comes round.\<close>

lemma probed_stops:
  assumes "i < length tab" "vacant (tab ! i)" "probed hash vacant skey tab k d" "d \<le> length tab"
  shows "d < length tab"
proof (rule ccontr)
  assume "\<not> d < length tab"
  moreover obtain e where "e < length tab" "i = probe_at hash tab k e"
    using probe_at_surj [OF assms(1)] .
  ultimately show False using assms by (auto simp: probed_def)
qed

text \<open>Only the keys of the slots in the table matter.\<close>

lemma searchable_cong:
  assumes "\<And>s. s \<in> set tab \<Longrightarrow> skey s = skey' s"
  shows "searchable hash vacant skey tab = searchable hash vacant skey' tab"
proof -
  have "skey (tab ! i) = skey' (tab ! i)" if "i < length tab" for i
    using assms that by simp
  then show ?thesis unfolding searchable_def by simp
qed

lemma slot_of_cong:
  assumes "\<And>s. s \<in> set tab \<Longrightarrow> skey s = skey' s"
  shows "slot_of skey tab = slot_of skey' tab"
  using assms by (intro ext) (auto simp: slot_of_def intro!: find_cong)

locale open_addressing =
  fixes hash :: "'k \<Rightarrow> nat"
    and vacant :: "'s \<Rightarrow> bool"
    and skey :: "'s \<Rightarrow> 'k option"
  assumes vacant_no_key: "vacant s \<Longrightarrow> skey s = None"
begin

lemma find_unique:
  assumes "searchable hash vacant skey tab" "i < length tab" "skey (tab ! i) = Some k"
  shows "slot_of skey tab k = Some (tab ! i)"
proof (cases "slot_of skey tab k")
  case None
  then show ?thesis using assms by (simp add: slot_of_None)
next
  case (Some s)
  then obtain j where j: "j < length tab" "s = tab ! j" "skey (tab ! j) = Some k"
    by (rule slot_ofE)
  then have "i = j" by (intro searchable_unique [OF assms(1,2) _ assms(3)])
  then show ?thesis using Some j by simp
qed

lemma probe_hit:
  assumes "searchable hash vacant skey tab" "skey (tab ! probe_at hash tab k d) = Some k"
  shows "slot_of skey tab k = Some (tab ! probe_at hash tab k d)"
  using assms by (intro find_unique) (auto simp: searchable_def)

text \<open>A probe that meets a vacant slot has shown that the key is absent.\<close>

lemma probe_miss:
  assumes wf: "searchable hash vacant skey tab"
    and p: "probed hash vacant skey tab k d" and d: "d < length tab"
    and v: "vacant (tab ! probe_at hash tab k d)"
  shows "slot_of skey tab k = None"
  unfolding slot_of_None
proof (intro allI impI notI)
  fix i
  assume i: "i < length tab" "skey (tab ! i) = Some k"
  obtain e where e: "e < length tab" "i = probe_at hash tab k e"
    "\<forall>j<e. \<not> vacant (tab ! probe_at hash tab k j)"
    using searchable_reach [OF wf i] .
  consider "e < d" | "e = d" | "d < e" by linarith
  then show False
    using e i p v vacant_no_key by cases (auto simp: probed_def)
qed

lemma probe_exhausted:
  assumes "probed hash vacant skey tab k (length tab)"
  shows "slot_of skey tab k = None"
  unfolding slot_of_None
proof (intro allI impI notI)
  fix i
  assume i: "i < length tab" "skey (tab ! i) = Some k"
  obtain d where "d < length tab" "i = probe_at hash tab k d"
    using probe_at_surj [OF i(1)] .
  then show False using assms i by (auto simp: probed_def)
qed

text \<open>Storing a new key in a slot without one, on the key's own probe path.\<close>

lemma place:
  assumes wf: "searchable hash vacant skey tab"
    and absent: "slot_of skey tab k = None"
    and d: "d < length tab"
    and path: "\<forall>j<d. \<not> vacant (tab ! probe_at hash tab k j)"
    and free: "skey (tab ! probe_at hash tab k d) = None"
    and s: "skey s = Some k"
  shows "searchable hash vacant skey (tab[probe_at hash tab k d := s])" (is ?wf)
    and "slot_of skey (tab[probe_at hash tab k d := s]) = (slot_of skey tab)(k \<mapsto> s)" (is ?abs)
proof -
  let ?i = "probe_at hash tab k d"
  let ?t = "tab[?i := s]"
  have ne: "tab \<noteq> []" and i: "?i < length tab" using wf by (auto simp: searchable_def)
  have nv: "\<not> vacant s" using s vacant_no_key by fastforce
  have keep: "\<not> vacant (?t ! j)" if "\<not> vacant (tab ! j)" "j < length tab" for j
    using that nv by (cases "j = ?i") simp_all
  have reach: "\<exists>e<length ?t. j = probe_at hash ?t q e \<and> (\<forall>l<e. \<not> vacant (?t ! probe_at hash ?t q l))"
    if j: "j < length ?t" "skey (?t ! j) = Some q" for j q
  proof (cases "j = ?i")
    case True
    then have "q = k" using j s i by simp
    then show ?thesis using True d path ne by (intro exI [of _ d]) (simp add: keep)
  next
    case False
    then have "j < length tab" "skey (tab ! j) = Some q" using j by simp_all
    then obtain e where "e < length tab" "j = probe_at hash tab q e"
      "\<forall>l<e. \<not> vacant (tab ! probe_at hash tab q l)"
      by (rule searchable_reach [OF wf])
    then show ?thesis using ne by (intro exI [of _ e]) (simp add: keep)
  qed
  have uniq: "j = l" if "j < length ?t" "l < length ?t" "skey (?t ! j) \<noteq> None"
    "skey (?t ! j) = skey (?t ! l)" for j l
  proof -
    have no_k: "skey (tab ! m) \<noteq> Some k" if "m < length tab" for m
      using absent that by (simp add: slot_of_None)
    have old: "skey (tab ! j) = skey (tab ! l) \<Longrightarrow> skey (tab ! j) \<noteq> None \<Longrightarrow> j = l"
      using wf that(1,2) unfolding searchable_def by auto
    show ?thesis
      using that no_k [of j] no_k [of l] old s by (cases "j = ?i"; cases "l = ?i") auto
  qed
  show wf': ?wf
    unfolding searchable_def by (intro conjI allI impI; (rule reach | rule uniq)?; (simp add: ne)?)
  show ?abs
  proof
    fix q
    show "slot_of skey ?t q = ((slot_of skey tab)(k \<mapsto> s)) q"
    proof (cases "q = k")
      case True
      then show ?thesis using find_unique [OF wf', of ?i k] i s by simp
    next
      case False
      show ?thesis
      proof (cases "slot_of skey tab q")
        case None
        have "skey (?t ! j) \<noteq> Some q" if "j < length tab" for j
          using None False s that by (cases "j = ?i") (simp_all add: slot_of_None)
        then have "slot_of skey ?t q = None" by (simp add: slot_of_None)
        then show ?thesis using None False by simp
      next
        case (Some r)
        then obtain j where j: "j < length tab" "r = tab ! j" "skey (tab ! j) = Some q"
          by (rule slot_ofE)
        then have "j \<noteq> ?i" using free by auto
        then show ?thesis using find_unique [OF wf', of j q] j False Some by simp
      qed
    qed
  qed
qed

text \<open>Replacing a slot by one with the same key, or by one with no key that is not vacant.\<close>

lemma replace:
  assumes wf: "searchable hash vacant skey tab" and i: "i < length tab"
    and k: "skey (tab ! i) = Some k" and s: "skey s = Some k"
  shows "searchable hash vacant skey (tab[i := s])" (is ?wf)
    and "slot_of skey (tab[i := s]) = (slot_of skey tab)(k \<mapsto> s)" (is ?abs)
proof -
  have nv: "\<not> vacant s" using s vacant_no_key by fastforce
  have same: "skey (tab[i := s] ! j) = skey (tab ! j)" if "j < length tab" for j
    using that k s by (cases "j = i") simp_all
  have keep: "\<not> vacant (tab ! j) \<Longrightarrow> j < length tab \<Longrightarrow> \<not> vacant (tab[i := s] ! j)" for j
    using nv by (cases "j = i") simp_all
  have ne: "tab \<noteq> []" using i by auto
  show wf': ?wf
    using wf ne keep unfolding searchable_def
    by (simp add: same) (meson probe_at_less)
  show ?abs
  proof
    fix q
    show "slot_of skey (tab[i := s]) q = ((slot_of skey tab)(k \<mapsto> s)) q"
    proof (cases "slot_of skey tab q")
      case None
      then have "q \<noteq> k" using i k by (auto simp: slot_of_None)
      moreover have "slot_of skey (tab[i := s]) q = None" using None by (simp add: slot_of_None same)
      ultimately show ?thesis using None by simp
    next
      case (Some r)
      then obtain j where j: "j < length tab" "r = tab ! j" "skey (tab ! j) = Some q"
        by (rule slot_ofE)
      have "j = i \<longleftrightarrow> q = k" using searchable_unique [OF wf i j(1)] j k by auto
      moreover have "slot_of skey (tab[i := s]) q = Some (tab[i := s] ! j)"
        using j by (intro find_unique wf') (simp_all add: same)
      ultimately show ?thesis using Some j by (auto simp: nth_list_update)
    qed
  qed
qed

lemma erase:
  assumes wf: "searchable hash vacant skey tab" and i: "i < length tab"
    and k: "skey (tab ! i) = Some k" and s: "skey s = None" "\<not> vacant s"
  shows "searchable hash vacant skey (tab[i := s])" (is ?wf)
    and "slot_of skey (tab[i := s]) = (slot_of skey tab)(k := None)" (is ?abs)
proof -
  have keep: "\<not> vacant (tab ! j) \<Longrightarrow> j < length tab \<Longrightarrow> \<not> vacant (tab[i := s] ! j)" for j
    using s(2) by (cases "j = i") simp_all
  have key: "skey (tab[i := s] ! j) = Some q \<longleftrightarrow> j \<noteq> i \<and> skey (tab ! j) = Some q" if "j < length tab" for j q
    using that s(1) by (cases "j = i") simp_all
  have ne: "tab \<noteq> []" using i by auto
  show wf': ?wf
    unfolding searchable_def
  proof (intro conjI allI impI)
    fix j q
    assume "j < length (tab[i := s])" "skey (tab[i := s] ! j) = Some q"
    then have "j < length tab" "skey (tab ! j) = Some q" by (simp_all add: key)
    then obtain e where "e < length tab" "j = probe_at hash tab q e"
      "\<forall>l<e. \<not> vacant (tab ! probe_at hash tab q l)"
      by (rule searchable_reach [OF wf])
    then show "\<exists>d<length (tab[i := s]). j = probe_at hash (tab[i := s]) q d \<and>
        (\<forall>l<d. \<not> vacant (tab[i := s] ! probe_at hash (tab[i := s]) q l))"
      using ne by (intro exI [of _ e]) (simp add: keep)
  next
    fix j l
    assume jl: "j < length (tab[i := s])" "l < length (tab[i := s])"
      and "skey (tab[i := s] ! j) \<noteq> None" "skey (tab[i := s] ! j) = skey (tab[i := s] ! l)"
    then obtain q where "skey (tab[i := s] ! j) = Some q" "skey (tab[i := s] ! l) = Some q" by auto
    then have "skey (tab ! j) = Some q" "skey (tab ! l) = Some q" using jl by (simp_all add: key)
    then show "j = l" using searchable_unique [OF wf] jl by simp
  qed (use ne in simp)
  show ?abs
  proof
    fix q
    show "slot_of skey (tab[i := s]) q = ((slot_of skey tab)(k := None)) q"
    proof (cases "slot_of skey (tab[i := s]) q")
      case None
      have "slot_of skey tab q = None" if "q \<noteq> k"
        using None that k key by (auto simp: slot_of_None)
      then show ?thesis using None by simp
    next
      case (Some r)
      then obtain j where j: "j < length tab" "r = tab[i := s] ! j" "skey (tab[i := s] ! j) = Some q"
        by (auto elim: slot_ofE)
      then have ji: "j \<noteq> i" "skey (tab ! j) = Some q" using key by auto
      then have "q \<noteq> k" using searchable_unique [OF wf i j(1)] k by auto
      then show ?thesis using find_unique [OF wf j(1) ji(2)] Some j ji by simp
    qed
  qed
qed

end

end
