(* ===== verification/Symbol_Table.thy ===== *)
theory Symbol_Table
  imports Probing
begin

unbundle bit_operations_syntax

text \<open>
  The symbol table of \<^verbatim>\<open>Phase-1/Day24/C/LookUpTable.c\<close>: open addressing with tombstones, a
  capacity that is a power of two, growth at a load of 0.7.

  The global \<^verbatim>\<open>g_table\<close> is a state passed along. A C string is the list of its characters before
  the terminating zero; a \<^verbatim>\<open>double\<close> price is only stored and copied, so its type is a parameter.
  The outcome of each \<^verbatim>\<open>calloc\<close> is an argument. \<open>None\<close> is undefined behaviour (a slot outside
  the array) or a probe that never ends; the theorems show \<open>Some\<close>.
\<close>

type_synonym cstring = "u8 list"

definition SYMBOL_LENGTH :: nat where
  "SYMBOL_LENGTH = 8"

definition INITIAL_CAPACITY :: nat where
  "INITIAL_CAPACITY = 16"

datatype SlotState = EMPTY | OCCUPIED | DELETED

record 'p slot =
  sym_name :: cstring
  sym_price :: 'p
  slot_state :: SlotState

record 'p SymbolTable =
  slots :: "'p slot list option"
  tab_capacity :: nat
  tab_count :: nat
  tombstones :: nat

subsection \<open>Operations\<close>

fun hash_chars :: "u32 \<Rightarrow> cstring \<Rightarrow> u32" where
  "hash_chars hash [] = hash"
| "hash_chars hash (c # str) = hash_chars ((hash XOR ucast c) * 0x01000193) str"

definition hashFunc :: "cstring \<Rightarrow> u32" where
  "hashFunc str = hash_chars 0x811C9DC5 str"

text \<open>\<^verbatim>\<open>calloc\<close> clears the slots; \<open>p0\<close> is the price 0.0.\<close>

definition empty_slot :: "'p \<Rightarrow> 'p slot" where
  "empty_slot p0 = \<lparr>sym_name = [], sym_price = p0, slot_state = EMPTY\<rparr>"

definition table_alloc :: "'p \<Rightarrow> bool \<Rightarrow> nat \<Rightarrow> 'p SymbolTable \<Rightarrow> bool \<times> 'p SymbolTable" where
  "table_alloc p0 calloc_ok capacity t =
     (if \<not> calloc_ok then (False, t\<lparr>slots := None\<rparr>)
      else (True, t\<lparr>slots := Some (replicate capacity (empty_slot p0)), tab_capacity := capacity,
                    tab_count := 0, tombstones := 0\<rparr>))"

definition symbol_table_create :: "'p \<Rightarrow> bool \<Rightarrow> 'p SymbolTable \<Rightarrow> 'p SymbolTable" where
  "symbol_table_create p0 calloc_ok t = snd (table_alloc p0 calloc_ok INITIAL_CAPACITY t)"

text \<open>\<^verbatim>\<open>strncmp(s->symbol, symbol, SYMBOL_LENGTH) == 0\<close> on two terminated strings.\<close>

definition same_symbol :: "'p slot \<Rightarrow> cstring \<Rightarrow> bool" where
  "same_symbol s symbol \<longleftrightarrow> take SYMBOL_LENGTH (sym_name s) = take SYMBOL_LENGTH symbol"

definition index_mask :: "nat \<Rightarrow> u32" where
  "index_mask capacity = word_of_int (int capacity - 1)"

text \<open>
  The probe that \<^verbatim>\<open>table_insert_raw\<close> and \<^verbatim>\<open>symbol_table_insert\<close> share: it stops at the slot that
  holds the symbol, at the place for a new one (the first tombstone met, else the empty slot), or
  when it comes round.
\<close>

datatype probe_result = Hit nat | Dest nat | Full

partial_function (option) insert_probe ::
  "'p slot list \<Rightarrow> u32 \<Rightarrow> cstring \<Rightarrow> u32 \<Rightarrow> u32 \<Rightarrow> nat option \<Rightarrow> probe_result option" where
  "insert_probe tab msk symbol start index first_tombstone =
     (if \<not> unat index < length tab then None
      else if slot_state (tab ! unat index) = EMPTY then
        Some (Dest (case first_tombstone of Some t \<Rightarrow> t | None \<Rightarrow> unat index))
      else if slot_state (tab ! unat index) \<noteq> DELETED \<and> same_symbol (tab ! unat index) symbol then
        Some (Hit (unat index))
      else if (index + 1) AND msk = start then Some Full
      else insert_probe tab msk symbol start ((index + 1) AND msk)
             (if slot_state (tab ! unat index) = DELETED \<and> first_tombstone = None
              then Some (unat index) else first_tombstone))"

text \<open>\<^verbatim>\<open>strncpy\<close> of seven characters and the terminator, the price, the state.\<close>

definition write_slot :: "cstring \<Rightarrow> 'p \<Rightarrow> 'p slot" where
  "write_slot symbol price =
     \<lparr>sym_name = take (SYMBOL_LENGTH - 1) symbol, sym_price = price, slot_state = OCCUPIED\<rparr>"

definition table_insert_raw ::
  "'p slot list \<Rightarrow> nat \<Rightarrow> cstring \<Rightarrow> 'p \<Rightarrow> (bool \<times> 'p slot list) option" where
  "table_insert_raw tab capacity symbol price =
     (let mask = index_mask capacity;
          index = hashFunc symbol AND mask in
      case insert_probe tab mask symbol index index None of
        None \<Rightarrow> None
      | Some (Dest dest) \<Rightarrow> Some (True, tab[dest := write_slot symbol price])
      | Some (Hit i) \<Rightarrow> Some (True, tab[i := (tab ! i)\<lparr>sym_price := price\<rparr>])
      | Some Full \<Rightarrow> Some (False, tab))"

fun rehash :: "'p slot list \<Rightarrow> nat list \<Rightarrow> nat \<Rightarrow> 'p slot list \<Rightarrow> 'p slot list option" where
  "rehash old [] new_capacity new = Some new"
| "rehash old (i # is) new_capacity new =
     (if \<not> i < length old then None
      else if slot_state (old ! i) = OCCUPIED then
        (case table_insert_raw new new_capacity (sym_name (old ! i)) (sym_price (old ! i)) of
           None \<Rightarrow> None
         | Some (_, new) \<Rightarrow> rehash old is new_capacity new)
      else rehash old is new_capacity new)"

text \<open>A null slot array cannot be read: the loop over it is defined only if it is empty.\<close>

definition table_resize ::
  "'p \<Rightarrow> bool \<Rightarrow> nat \<Rightarrow> 'p SymbolTable \<Rightarrow> (bool \<times> 'p SymbolTable) option" where
  "table_resize p0 calloc_ok new_capacity t =
     (if \<not> calloc_ok then Some (False, t)
      else case rehash (case slots t of None \<Rightarrow> [] | Some old \<Rightarrow> old) [0..<tab_capacity t]
                  new_capacity (replicate new_capacity (empty_slot p0)) of
        None \<Rightarrow> None
      | Some new \<Rightarrow> Some (True, t\<lparr>slots := Some new, tab_capacity := new_capacity, tombstones := 0\<rparr>))"

text \<open>
  The load test is in \<^verbatim>\<open>double\<close>: the numerator and a power-of-two capacity are exact and so is
  their quotient; the constant 0.7 is the double 6305039478318694 / 2^53. (For capacity 0 the
  quotient is infinite, and the test true, as here.)
\<close>

definition load_exceeded :: "'p SymbolTable \<Rightarrow> bool" where
  "load_exceeded t \<longleftrightarrow>
     6305039478318694 * int (tab_capacity t) < int (tab_count t + tombstones t + 1) * 9007199254740992"

text \<open>The second half of \<^verbatim>\<open>symbol_table_insert\<close>: the probe and what it does with its result.\<close>

definition insert_at :: "cstring \<Rightarrow> 'p \<Rightarrow> 'p SymbolTable \<Rightarrow> (bool \<times> 'p SymbolTable) option" where
  "insert_at symbol price t =
     (let mask = index_mask (tab_capacity t);
          index = hashFunc symbol AND mask in
      case slots t of
        None \<Rightarrow> None
      | Some tab \<Rightarrow>
          (case insert_probe tab mask symbol index index None of
             None \<Rightarrow> None
           | Some (Dest dest) \<Rightarrow>
               Some (True, t\<lparr>slots := Some (tab[dest := write_slot symbol price]),
                 tab_count := tab_count t + 1,
                 tombstones := (if slot_state (tab ! dest) = DELETED then tombstones t - 1
                                else tombstones t)\<rparr>)
           | Some (Hit i) \<Rightarrow>
               Some (True, t\<lparr>slots := Some (tab[i := (tab ! i)\<lparr>sym_price := price\<rparr>])\<rparr>)
           | Some Full \<Rightarrow> Some (False, t)))"

definition symbol_table_insert ::
  "'p \<Rightarrow> bool \<Rightarrow> cstring \<Rightarrow> 'p \<Rightarrow> 'p SymbolTable \<Rightarrow> (bool \<times> 'p SymbolTable) option" where
  "symbol_table_insert p0 calloc_ok symbol price t =
     (case (if load_exceeded t
            then table_resize p0 calloc_ok (unat (word_of_nat (tab_capacity t) * 2 :: u64)) t
            else Some (True, t)) of
        None \<Rightarrow> None
      | Some (False, t) \<Rightarrow> Some (False, t)
      | Some (True, t) \<Rightarrow> insert_at symbol price t)"

text \<open>The probe of lookup and delete: the index of the symbol's slot, if any.\<close>

partial_function (option) find_probe ::
  "'p slot list \<Rightarrow> u32 \<Rightarrow> cstring \<Rightarrow> u32 \<Rightarrow> u32 \<Rightarrow> nat option option" where
  "find_probe tab msk symbol start index =
     (if \<not> unat index < length tab then None
      else if slot_state (tab ! unat index) = EMPTY then Some None
      else if slot_state (tab ! unat index) = OCCUPIED \<and> same_symbol (tab ! unat index) symbol then
        Some (Some (unat index))
      else if (index + 1) AND msk = start then Some None
      else find_probe tab msk symbol start ((index + 1) AND msk))"

definition find_slot :: "cstring \<Rightarrow> 'p SymbolTable \<Rightarrow> nat option option" where
  "find_slot symbol t =
     (let mask = index_mask (tab_capacity t);
          index = hashFunc symbol AND mask in
      case slots t of None \<Rightarrow> None | Some tab \<Rightarrow> find_probe tab mask symbol index index)"

text \<open>\<open>out_price\<close> is the value behind the out parameter, \<open>None\<close> for a null pointer.\<close>

definition symbol_table_lookup ::
  "cstring \<Rightarrow> 'p option \<Rightarrow> 'p SymbolTable \<Rightarrow> (bool \<times> 'p option) option" where
  "symbol_table_lookup symbol out_price t =
     (case find_slot symbol t of
        None \<Rightarrow> None
      | Some None \<Rightarrow> Some (False, out_price)
      | Some (Some i) \<Rightarrow>
          Some (True, map_option (\<lambda>_. sym_price (the (slots t) ! i)) out_price))"

definition symbol_table_delete :: "cstring \<Rightarrow> 'p SymbolTable \<Rightarrow> (bool \<times> 'p SymbolTable) option" where
  "symbol_table_delete symbol t =
     (case find_slot symbol t of
        None \<Rightarrow> None
      | Some None \<Rightarrow> Some (False, t)
      | Some (Some i) \<Rightarrow>
          Some (True, t\<lparr>slots := map_option (\<lambda>tab. tab[i := (tab ! i)\<lparr>slot_state := DELETED\<rparr>]) (slots t),
                        tab_count := tab_count t - 1, tombstones := tombstones t + 1\<rparr>))"

definition symbol_table_destroy :: "'p SymbolTable \<Rightarrow> 'p SymbolTable" where
  "symbol_table_destroy t = t\<lparr>slots := None, tab_capacity := 0, tab_count := 0, tombstones := 0\<rparr>"

text \<open>
  \<^verbatim>\<open>main\<close>, with every \<^verbatim>\<open>calloc\<close> succeeding: the lines it prints. \<open>dbl c\<close> is the
  \<^verbatim>\<open>double\<close> nearest to \<open>c / 100\<close>: the decimal literals, and the exact products \<^verbatim>\<open>i * 1.5\<close>.
\<close>

datatype 'p table_line =
    PriceLine cstring 'p
  | NotFoundLine cstring
  | DeletedLine cstring
  | GrowthLine nat nat
  | StillFoundLine cstring 'p

fun decimal :: "nat \<Rightarrow> cstring" where
  "decimal n = (if n < 10 then [] else decimal (n div 10)) @ [word_of_nat (48 + n mod 10)]"

declare decimal.simps [simp del]

text \<open>The symbols and prices of the loop that forces growth; \<^verbatim>\<open>snprintf\<close> cuts at the buffer's size.\<close>

definition growth_entries :: "(int \<Rightarrow> 'p) \<Rightarrow> (cstring \<times> 'p) list" where
  "growth_entries dbl =
     map (\<lambda>i. (take (SYMBOL_LENGTH - 1) (83 # decimal i), dbl (of_nat i * 150))) [0..<50]"

primrec insert_all ::
  "'p \<Rightarrow> (cstring \<times> 'p) list \<Rightarrow> 'p SymbolTable \<Rightarrow> 'p SymbolTable option" where
  "insert_all p0 [] t = Some t"
| "insert_all p0 (kv # kvs) t =
     (case symbol_table_insert p0 True (fst kv) (snd kv) t of
        None \<Rightarrow> None
      | Some (_, t) \<Rightarrow> insert_all p0 kvs t)"

definition AAPL :: cstring where "AAPL = [65, 65, 80, 76]"
definition NVDA :: cstring where "NVDA = [78, 86, 68, 65]"
definition TSLA :: cstring where "TSLA = [84, 83, 76, 65]"
definition MSFT :: cstring where "MSFT = [77, 83, 70, 84]"

definition symbol_table_main :: "(int \<Rightarrow> 'p) \<Rightarrow> 'p SymbolTable \<Rightarrow> 'p table_line list option" where
  "symbol_table_main dbl g_table = do {
     let g_table = symbol_table_create (dbl 0) True g_table;
     g_table \<leftarrow> insert_all (dbl 0)
       [(AAPL, dbl 18250), (NVDA, dbl 72133), (TSLA, dbl 19357),
        (AAPL, dbl 18500)] g_table;
     let price = dbl 0;
     (found, price) \<leftarrow> symbol_table_lookup AAPL (Some price) g_table;
     let out = [if found then PriceLine AAPL (the price) else NotFoundLine AAPL];
     (found, price) \<leftarrow> symbol_table_lookup NVDA price g_table;
     let out = out @ (if found then [PriceLine NVDA (the price)] else []);
     (found, price) \<leftarrow> symbol_table_lookup MSFT price g_table;
     let out = out @ (if \<not> found then [NotFoundLine MSFT] else []);
     (_, g_table) \<leftarrow> symbol_table_delete NVDA g_table;
     (found, price) \<leftarrow> symbol_table_lookup NVDA price g_table;
     let out = out @ (if \<not> found then [DeletedLine NVDA] else []);
     g_table \<leftarrow> insert_all (dbl 0) (growth_entries dbl) g_table;
     let out = out @ [GrowthLine (tab_capacity g_table) (tab_count g_table)];
     (found, price) \<leftarrow> symbol_table_lookup AAPL price g_table;
     let out = out @ (if found then [StillFoundLine AAPL (the price)] else []);
     Some out
   }"

subsection \<open>The probes find what they should\<close>

definition sym_hash :: "cstring \<Rightarrow> nat" where
  "sym_hash s = unat (hashFunc s)"

definition is_empty_slot :: "'p slot \<Rightarrow> bool" where
  "is_empty_slot s \<longleftrightarrow> slot_state s = EMPTY"

definition slot_key :: "'p slot \<Rightarrow> cstring option" where
  "slot_key s = (if slot_state s = OCCUPIED then Some (sym_name s) else None)"

interpretation symtab: open_addressing sym_hash is_empty_slot slot_key
  by unfold_locales (simp add: is_empty_slot_def slot_key_def)

definition pow2_size :: "'p slot list \<Rightarrow> bool" where
  "pow2_size tab \<longleftrightarrow> (\<exists>m\<le>32. length tab = 2 ^ m)"

definition short_names :: "'p slot list \<Rightarrow> bool" where
  "short_names tab \<longleftrightarrow> (\<forall>s\<in>set tab. slot_state s = OCCUPIED \<longrightarrow> length (sym_name s) < SYMBOL_LENGTH)"

lemma unat_index_mask:
  assumes "m \<le> 32"
  shows "unat (w AND index_mask (2 ^ m)) = unat w mod 2 ^ m"
proof -
  have "index_mask (2 ^ m) = mask m"
    by (simp add: index_mask_def mask_eq_exp_minus_1 )
  then have "w AND index_mask (2 ^ m) = take_bit m w" by (simp only: take_bit_eq_mask)
  also have "unat \<dots> = take_bit m (unat w)" using assms by (simp only: unsigned_take_bit_eq)
  finally show ?thesis by (simp only: take_bit_eq_mod)
qed

lemma next_index:
  assumes "pow2_size tab" "unat index = probe_at sym_hash tab k d"
  shows "unat ((index + 1) AND index_mask (length tab)) = probe_at sym_hash tab k (Suc d)"
proof -
  obtain m where m: "m \<le> 32" "length tab = 2 ^ m" using assms(1) by (auto simp: pow2_size_def)
  have "unat (index + 1) = (unat index + 1) mod 2 ^ 32"
    by (simp add: unat_word_ariths)
  then have "unat ((index + 1) AND index_mask (length tab)) = (unat index + 1) mod 2 ^ 32 mod 2 ^ m"
    using m by (simp add: unat_index_mask)
  also have "\<dots> = (unat index + 1) mod 2 ^ m"
    by (rule mod_mod_cancel [OF le_imp_power_dvd [OF m(1)]])
  finally show ?thesis using m assms(2) by (simp add: probe_at_Suc)
qed

lemma first_index:
  assumes "pow2_size tab"
  shows "unat (hashFunc k AND index_mask (length tab)) = probe_at sym_hash tab k 0"
  using assms by (auto simp: pow2_size_def probe_at_def sym_hash_def unat_index_mask)

lemma pow2_nonempty: "pow2_size tab \<Longrightarrow> tab \<noteq> []"
  by (auto simp: pow2_size_def)

lemma round_trip_index:
  assumes "pow2_size tab" "unat start = probe_at sym_hash tab k 0" "d < length tab"
    "unat index = probe_at sym_hash tab k d"
  shows "(index + 1) AND index_mask (length tab) = start \<longleftrightarrow> Suc d = length tab"
proof -
  have "unat ((index + 1) AND index_mask (length tab)) = probe_at sym_hash tab k (Suc d)"
    by (rule next_index [OF assms(1,4)])
  moreover have "probe_at sym_hash tab k (length tab) = probe_at sym_hash tab k 0"
    by (simp add: probe_at_def)
  moreover have "probe_at sym_hash tab k (Suc d) = probe_at sym_hash tab k 0 \<Longrightarrow> Suc d < length tab \<Longrightarrow> False"
    using probe_at_inject [of "Suc d" tab 0 sym_hash k] pow2_nonempty [OF assms(1)] by simp
  ultimately show ?thesis using assms(2,3) by (metis Suc_lessI word_unat_eq_iff)
qed

lemma same_symbol_iff:
  assumes "short_names tab" "i < length tab" "slot_state (tab ! i) = OCCUPIED"
  shows "same_symbol (tab ! i) k \<longleftrightarrow> slot_key (tab ! i) = Some k"
proof -
  have "length (sym_name (tab ! i)) < 8" using assms by (simp add: short_names_def SYMBOL_LENGTH_def)
  moreover have "take 8 k = sym_name (tab ! i) \<Longrightarrow> k = sym_name (tab ! i)"
    using calculation by (metis length_take min_def not_le take_all_iff less_le_not_le)
  ultimately show ?thesis using assms(3) by (auto simp: same_symbol_def slot_key_def SYMBOL_LENGTH_def)
qed

lemma find_probe_spec:
  assumes tab: "pow2_size tab" "short_names tab"
    and start: "unat start = probe_at sym_hash tab k 0"
    and d: "d < length tab" and index: "unat index = probe_at sym_hash tab k d"
    and probed: "probed sym_hash is_empty_slot slot_key tab k d"
  shows "\<exists>r. find_probe tab (index_mask (length tab)) k start index = Some r \<and>
     (case r of None \<Rightarrow> (\<exists>e<length tab. probed sym_hash is_empty_slot slot_key tab k e \<and>
                          is_empty_slot (tab ! probe_at sym_hash tab k e)) \<or>
                       probed sym_hash is_empty_slot slot_key tab k (length tab)
      | Some i \<Rightarrow> \<exists>e. i = probe_at sym_hash tab k e \<and> slot_key (tab ! i) = Some k)"
  using d index probed
proof (induction "length tab - d" arbitrary: d index)
  case 0
  then show ?case by simp
next
  case (Suc n)
  let ?i = "probe_at sym_hash tab k d"
  have i: "?i < length tab" using pow2_nonempty [OF tab(1)] by simp
  consider "slot_state (tab ! ?i) = EMPTY" | "slot_key (tab ! ?i) = Some k"
    | "slot_state (tab ! ?i) \<noteq> EMPTY" "slot_key (tab ! ?i) \<noteq> Some k" by blast
  then show ?case
  proof cases
    case 1
    then show ?thesis using Suc.prems i by (subst find_probe.simps) (auto simp: is_empty_slot_def)
  next
    case 2
    then have "slot_state (tab ! ?i) = OCCUPIED" by (simp add: slot_key_def split: if_splits)
    then show ?thesis using Suc.prems i 2 same_symbol_iff [OF tab(2) i]
      by (subst find_probe.simps) auto
  next
    case 3
    then have pd: "probed sym_hash is_empty_slot slot_key tab k (Suc d)"
      using Suc.prems by (simp add: probed_Suc is_empty_slot_def)
    have nomatch: "\<not> (slot_state (tab ! ?i) = OCCUPIED \<and> same_symbol (tab ! ?i) k)"
      using 3 same_symbol_iff [OF tab(2) i] by auto
    have step: "find_probe tab (index_mask (length tab)) k start index =
        (if Suc d = length tab then Some None
         else find_probe tab (index_mask (length tab)) k start ((index + 1) AND index_mask (length tab)))"
      using Suc.prems i 3 nomatch round_trip_index [OF tab(1) start Suc.prems(1,2)]
      by (subst find_probe.simps) auto
    show ?thesis
    proof (cases "Suc d = length tab")
      case True
      then show ?thesis using step pd by simp
    next
      case False
      then show ?thesis
        using Suc.hyps(1) [of "Suc d" "(index + 1) AND index_mask (length tab)"] Suc.hyps(2) Suc.prems pd
          next_index [OF tab(1) Suc.prems(2)] step by simp
    qed
  qed
qed

lemma find_slot_spec:
  assumes tab: "slots t = Some tab" "tab_capacity t = length tab" "pow2_size tab" "short_names tab"
  shows "\<exists>r. find_slot k t = Some r \<and>
     (case r of None \<Rightarrow> (\<exists>e<length tab. probed sym_hash is_empty_slot slot_key tab k e \<and>
                          is_empty_slot (tab ! probe_at sym_hash tab k e)) \<or>
                       probed sym_hash is_empty_slot slot_key tab k (length tab)
      | Some i \<Rightarrow> \<exists>e. i = probe_at sym_hash tab k e \<and> slot_key (tab ! i) = Some k)"
  using find_probe_spec [OF tab(3,4) first_index [OF tab(3)] _ first_index [OF tab(3)], of k]
    pow2_nonempty [OF tab(3)] by (simp add: find_slot_def tab Let_def)

lemma find_slot_searchable:
  assumes tab: "slots t = Some tab" "tab_capacity t = length tab" "pow2_size tab" "short_names tab"
    "searchable sym_hash is_empty_slot slot_key tab"
  shows "(find_slot k t = Some None \<and> slot_of slot_key tab k = None) \<or>
     (\<exists>i<length tab. find_slot k t = Some (Some i) \<and> slot_key (tab ! i) = Some k \<and> slot_of slot_key tab k = Some (tab ! i))"
proof -
  obtain r where r: "find_slot k t = Some r" 
    "case r of None \<Rightarrow> (\<exists>e<length tab. probed sym_hash is_empty_slot slot_key tab k e \<and>
                          is_empty_slot (tab ! probe_at sym_hash tab k e)) \<or>
                       probed sym_hash is_empty_slot slot_key tab k (length tab)
      | Some i \<Rightarrow> \<exists>e. i = probe_at sym_hash tab k e \<and> slot_key (tab ! i) = Some k"
    using find_slot_spec [OF tab(1-4)] by blast
  show ?thesis
  proof (cases r)
    case None
    then have "slot_of slot_key tab k = None"
      using r(2) symtab.probe_miss [OF tab(5)] symtab.probe_exhausted by auto
    then show ?thesis using r None by simp
  next
    case (Some i)
    then show ?thesis using r symtab.probe_hit [OF tab(5)] pow2_nonempty [OF tab(3)] by auto
  qed
qed

subsection \<open>Where an insertion ends\<close>

definition deleted_slot :: "'p slot \<Rightarrow> bool" where
  "deleted_slot s \<longleftrightarrow> slot_state s = DELETED"

definition dest_ok :: "'p slot list \<Rightarrow> cstring \<Rightarrow> nat \<Rightarrow> bool" where
  "dest_ok tab k i \<longleftrightarrow> slot_of slot_key tab k = None \<and> 
     (\<exists>d<length tab. i = probe_at sym_hash tab k d \<and> (\<forall>j<d. \<not> is_empty_slot (tab ! probe_at sym_hash tab k j)) \<and>
        slot_key (tab ! i) = None)"

text \<open>The place for a new symbol: the first tombstone met on the way to the empty slot, or that slot.\<close>

lemma dest_chosen:
  assumes d: "d < length tab" and probed: "probed sym_hash is_empty_slot slot_key tab k d"
    and e: "is_empty_slot (tab ! probe_at sym_hash tab k d)"
    and ft: "\<forall>t. ft = Some t \<longrightarrow> (\<exists>e<d. t = probe_at sym_hash tab k e \<and> slot_key (tab ! t) = None)"
    and absent: "slot_of slot_key tab k = None"
  shows "dest_ok tab k (case ft of Some t \<Rightarrow> t | None \<Rightarrow> probe_at sym_hash tab k d)"
proof (cases ft)
  case None
  then show ?thesis using d probed absent symtab.vacant_no_key [OF e] by (auto simp: dest_ok_def probed_def)
next
  case (Some t)
  then obtain e where "e < d" "t = probe_at sym_hash tab k e" "slot_key (tab ! t) = None" using ft by auto
  then show ?thesis using d probed absent Some by (auto simp: dest_ok_def probed_def intro!: exI [of _ e])
qed

lemma insert_probe_spec:
  assumes tab: "pow2_size tab" "short_names tab" "searchable sym_hash is_empty_slot slot_key tab"
    and space: "i < length tab" "is_empty_slot (tab ! i)"
    and start: "unat start = probe_at sym_hash tab k 0"
    and d: "d < length tab" and index: "unat index = probe_at sym_hash tab k d"
    and probed: "probed sym_hash is_empty_slot slot_key tab k d"
    and ft: "\<forall>t. ft = Some t \<longrightarrow> (\<exists>e<d. t = probe_at sym_hash tab k e \<and> slot_key (tab ! t) = None)"
  shows "\<exists>r. insert_probe tab (index_mask (length tab)) k start index ft = Some r \<and>
     (case r of Hit i \<Rightarrow> i < length tab \<and> slot_key (tab ! i) = Some k | Dest i \<Rightarrow> dest_ok tab k i | Full \<Rightarrow> False)"
  using d index probed ft
proof (induction "length tab - d" arbitrary: d index ft)
  case 0
  then show ?case by simp
next
  case (Suc n)
  let ?i = "probe_at sym_hash tab k d"
  have i: "?i < length tab" using pow2_nonempty [OF tab(1)] by simp
  consider "slot_state (tab ! ?i) = EMPTY" | "slot_key (tab ! ?i) = Some k"
    | "slot_state (tab ! ?i) \<noteq> EMPTY" "slot_key (tab ! ?i) \<noteq> Some k" by blast
  then show ?case
  proof cases
    case 1
    then have e: "is_empty_slot (tab ! ?i)" by (simp add: is_empty_slot_def)
    have absent: "slot_of slot_key tab k = None"
      by (rule symtab.probe_miss [OF tab(3) Suc.prems(3) Suc.prems(1) e])
    have "dest_ok tab k (case ft of Some t \<Rightarrow> t | None \<Rightarrow> ?i)"
      by (rule dest_chosen [OF Suc.prems(1,3) e Suc.prems(4) absent])
    then show ?thesis using Suc.prems(2) i 1
      by (subst insert_probe.simps) (simp cong: option.case_cong)
  next
    case 2
    then have "slot_state (tab ! ?i) = OCCUPIED" by (simp add: slot_key_def split: if_splits)
    then show ?thesis using Suc.prems i 2 same_symbol_iff [OF tab(2) i]
      by (subst insert_probe.simps) auto
  next
    case 3
    then have pd: "probed sym_hash is_empty_slot slot_key tab k (Suc d)"
      using Suc.prems by (simp add: probed_Suc is_empty_slot_def)
    then have more: "Suc d < length tab"
      using probed_stops [OF space pd] Suc.prems(1) by simp
    let ?ft = "if slot_state (tab ! ?i) = DELETED \<and> ft = None then Some ?i else ft"
    have nomatch: "\<not> (slot_state (tab ! ?i) \<noteq> DELETED \<and> same_symbol (tab ! ?i) k)"
      using 3 same_symbol_iff [OF tab(2) i] by (cases "slot_state (tab ! ?i)") auto
    have step: "insert_probe tab (index_mask (length tab)) k start index ft =
        insert_probe tab (index_mask (length tab)) k start ((index + 1) AND index_mask (length tab)) ?ft"
      using Suc.prems i 3 nomatch more round_trip_index [OF tab(1) start Suc.prems(1,2)]
      by (subst insert_probe.simps) auto
    have ft': "\<forall>t. ?ft = Some t \<longrightarrow> (\<exists>e<Suc d. t = probe_at sym_hash tab k e \<and> slot_key (tab ! t) = None)"
      using Suc.prems(4) by (auto simp: slot_key_def less_Suc_eq)
    show ?thesis unfolding step
      by (rule Suc.hyps(1) [OF _ more next_index [OF tab(1) Suc.prems(2)] pd ft'])
        (use Suc.hyps(2) in simp)
  qed
qed

definition tab_ok :: "'p slot list \<Rightarrow> bool" where
  "tab_ok tab \<longleftrightarrow> pow2_size tab \<and> short_names tab \<and> searchable sym_hash is_empty_slot slot_key tab"

definition prices :: "'p slot list \<Rightarrow> cstring \<Rightarrow> 'p option" where
  "prices tab k = map_option sym_price (slot_of slot_key tab k)"

definition occupied :: "'p slot list \<Rightarrow> nat" where
  "occupied tab = length (filter (\<lambda>s. slot_state s = OCCUPIED) tab)"

definition deleted :: "'p slot list \<Rightarrow> nat" where
  "deleted tab = length (filter (\<lambda>s. slot_state s = DELETED) tab)"

lemma vacancy:
  assumes "occupied tab + deleted tab < length tab"
  obtains i where "i < length tab" "is_empty_slot (tab ! i)"
proof -
  have "length tab = occupied tab + deleted tab + length (filter is_empty_slot tab)"
    by (induction tab) (auto simp: occupied_def deleted_def is_empty_slot_def intro: SlotState.exhaust)
  then have "filter is_empty_slot tab \<noteq> []" using assms by auto
  then obtain s where "s \<in> set tab" "is_empty_slot s" by (auto simp: filter_empty_conv)
  then show ?thesis using that by (auto simp: in_set_conv_nth)
qed

lemma write_slot_key: "length k < SYMBOL_LENGTH \<Longrightarrow> slot_key (write_slot k p) = Some k"
  by (simp add: write_slot_def slot_key_def SYMBOL_LENGTH_def)

lemma short_names_update: 
  "short_names tab \<Longrightarrow> (slot_state s = OCCUPIED \<Longrightarrow> length (sym_name s) < SYMBOL_LENGTH) \<Longrightarrow> short_names (tab[i := s])"
  unfolding short_names_def by (metis insertE set_update_subset_insert subsetD)

lemma pow2_size_update: "pow2_size (tab[i := s]) = pow2_size tab"
  by (simp add: pow2_size_def)

text \<open>What the three ways of writing a slot do to the content and to the counts.\<close>

lemma place_effects:
  assumes wf: "pow2_size tab" "searchable sym_hash is_empty_slot slot_key tab" and dest: "dest_ok tab k i" and s: "slot_key s = Some k"
  shows "searchable sym_hash is_empty_slot slot_key (tab[i := s])" "prices (tab[i := s]) = (prices tab)(k \<mapsto> sym_price s)"
    "occupied (tab[i := s]) = Suc (occupied tab)"
    "deleted (tab[i := s]) = (if slot_state (tab ! i) = DELETED then deleted tab - 1 else deleted tab)"
    "slot_state (tab ! i) = DELETED \<Longrightarrow> 0 < deleted tab" "i < length tab"
proof -
  obtain d where d: "d < length tab" "i = probe_at sym_hash tab k d"
    "\<forall>j<d. \<not> is_empty_slot (tab ! probe_at sym_hash tab k j)" "slot_key (tab ! i) = None"
    "slot_of slot_key tab k = None"
    using dest by (auto simp: dest_ok_def)
  show i: "i < length tab" using d wf(1) by (auto dest: pow2_nonempty)
  note pl = symtab.place [OF wf(2) d(5,1,3) _ s, folded d(2), OF d(4)]
  show "searchable sym_hash is_empty_slot slot_key (tab[i := s])" by (rule pl(1))
  show "prices (tab[i := s]) = (prices tab)(k \<mapsto> sym_price s)"
    by (rule ext) (simp add: prices_def pl(2))
  have st: "slot_state (tab ! i) \<noteq> OCCUPIED" "slot_state s = OCCUPIED" using d(4) s by (auto simp: slot_key_def split: if_splits)
  show "occupied (tab[i := s]) = Suc (occupied tab)"
    using count_update [OF i, of "\<lambda>s. slot_state s = OCCUPIED" s] st by (simp add: occupied_def)
  show "deleted (tab[i := s]) = (if slot_state (tab ! i) = DELETED then deleted tab - 1 else deleted tab)"
    using count_update [OF i, of "\<lambda>s. slot_state s = DELETED" s] st by (auto simp: deleted_def)
  show "slot_state (tab ! i) = DELETED \<Longrightarrow> 0 < deleted tab"
    using i by (auto simp: deleted_def filter_empty_conv)
qed

lemma update_effects:
  fixes p :: 'p
  assumes wf: "searchable sym_hash is_empty_slot slot_key tab" and i: "i < length tab" "slot_key (tab ! i) = Some k"
  defines "tab' \<equiv> tab[i := (tab ! i)\<lparr>sym_price := p\<rparr>]"
  shows "searchable sym_hash is_empty_slot slot_key tab'" "prices tab' = (prices tab)(k \<mapsto> p)"
    "occupied tab' = occupied tab" "deleted tab' = deleted tab"
proof -
  have occ: "slot_state (tab ! i) = OCCUPIED" using i(2) by (auto simp: slot_key_def split: if_splits)
  have "slot_key ((tab ! i)\<lparr>sym_price := p\<rparr>) = Some k" using i(2) occ by (simp add: slot_key_def)
  note pl = symtab.replace [OF wf i this]
  show "searchable sym_hash is_empty_slot slot_key tab'" unfolding tab'_def by (rule pl(1))
  show "prices tab' = (prices tab)(k \<mapsto> p)"
    unfolding tab'_def by (rule ext) (simp add: prices_def pl(2))
  show "occupied tab' = occupied tab" "deleted tab' = deleted tab"
    using count_update [OF i(1), of "\<lambda>s. slot_state s = OCCUPIED" "(tab ! i)\<lparr>sym_price := p\<rparr>"]
      count_update [OF i(1), of "\<lambda>s. slot_state s = DELETED" "(tab ! i)\<lparr>sym_price := p\<rparr>"] occ
    unfolding tab'_def by (simp_all add: occupied_def deleted_def)
qed

lemma erase_effects:
  assumes wf: "searchable sym_hash is_empty_slot slot_key tab" and i: "i < length tab" "slot_key (tab ! i) = Some k"
  defines "tab' \<equiv> tab[i := (tab ! i)\<lparr>slot_state := DELETED\<rparr>]"
  shows "searchable sym_hash is_empty_slot slot_key tab'" "prices tab' = (prices tab)(k := None)"
    "Suc (occupied tab') = occupied tab" "deleted tab' = Suc (deleted tab)"
proof -
  have occ: "slot_state (tab ! i) = OCCUPIED" using i(2) by (auto simp: slot_key_def split: if_splits)
  have "slot_key ((tab ! i)\<lparr>slot_state := DELETED\<rparr>) = None" "\<not> is_empty_slot ((tab ! i)\<lparr>slot_state := DELETED\<rparr>)"
    by (simp_all add: slot_key_def is_empty_slot_def)
  note pl = symtab.erase [OF wf i this]
  show "searchable sym_hash is_empty_slot slot_key tab'" unfolding tab'_def by (rule pl(1))
  show "prices tab' = (prices tab)(k := None)"
    unfolding tab'_def by (rule ext) (simp add: prices_def pl(2))
  show "Suc (occupied tab') = occupied tab" "deleted tab' = Suc (deleted tab)"
    using count_update [OF i(1), of "\<lambda>s. slot_state s = OCCUPIED" "(tab ! i)\<lparr>slot_state := DELETED\<rparr>"]
      count_update [OF i(1), of "\<lambda>s. slot_state s = DELETED" "(tab ! i)\<lparr>slot_state := DELETED\<rparr>"] occ
    unfolding tab'_def by (simp_all add: occupied_def deleted_def)
qed

lemma tab_place:
  assumes tab: "tab_ok tab" and dest: "dest_ok tab k i" and k: "length k < SYMBOL_LENGTH"
  shows "tab_ok (tab[i := write_slot k p])" "prices (tab[i := write_slot k p]) = (prices tab)(k \<mapsto> p)"
    "occupied (tab[i := write_slot k p]) = Suc (occupied tab)"
    "deleted (tab[i := write_slot k p]) = (if slot_state (tab ! i) = DELETED then deleted tab - 1 else deleted tab)"
    "slot_state (tab ! i) = DELETED \<Longrightarrow> 0 < deleted tab"
proof -
  have wf: "pow2_size tab" "searchable sym_hash is_empty_slot slot_key tab" using tab by (simp_all add: tab_ok_def)
  note pl = place_effects [OF wf dest write_slot_key [OF k, of p]]
  have "length (sym_name (write_slot k p)) < SYMBOL_LENGTH" "sym_price (write_slot k p) = p"
    by (simp_all add: write_slot_def SYMBOL_LENGTH_def)
  then show "tab_ok (tab[i := write_slot k p])" "prices (tab[i := write_slot k p]) = (prices tab)(k \<mapsto> p)"
    using pl(1,2) tab by (simp_all add: tab_ok_def pow2_size_update short_names_update)
  show "occupied (tab[i := write_slot k p]) = Suc (occupied tab)"
    "deleted (tab[i := write_slot k p]) = (if slot_state (tab ! i) = DELETED then deleted tab - 1 else deleted tab)"
    "slot_state (tab ! i) = DELETED \<Longrightarrow> 0 < deleted tab"
    by (rule pl(3), rule pl(4), rule pl(5))
qed

lemma tab_update:
  fixes p :: 'p
  assumes tab: "tab_ok tab" and i: "i < length tab" "slot_key (tab ! i) = Some k"
  defines "tab' \<equiv> tab[i := (tab ! i)\<lparr>sym_price := p\<rparr>]"
  shows "tab_ok tab'" "prices tab' = (prices tab)(k \<mapsto> p)" "occupied tab' = occupied tab" "deleted tab' = deleted tab"
proof -
  have wf: "searchable sym_hash is_empty_slot slot_key tab" using tab by (simp add: tab_ok_def)
  note pl = update_effects [OF wf i, of p]
  show "prices tab' = (prices tab)(k \<mapsto> p)" "occupied tab' = occupied tab" "deleted tab' = deleted tab"
    using pl(2-4) by (simp_all add: tab'_def)
  have "length (sym_name (tab ! i)) < SYMBOL_LENGTH"
    using tab i by (auto simp: tab_ok_def short_names_def slot_key_def split: if_splits)
  then show "tab_ok tab'"
    using pl(1) tab unfolding tab'_def by (simp add: tab_ok_def pow2_size_update short_names_update)
qed

lemma tab_delete:
  assumes tab: "tab_ok tab" and i: "i < length tab" "slot_key (tab ! i) = Some k"
  defines "tab' \<equiv> tab[i := (tab ! i)\<lparr>slot_state := DELETED\<rparr>]"
  shows "tab_ok tab'" "prices tab' = (prices tab)(k := None)" "Suc (occupied tab') = occupied tab" "deleted tab' = Suc (deleted tab)"
proof -
  have wf: "searchable sym_hash is_empty_slot slot_key tab" using tab by (simp add: tab_ok_def)
  note pl = erase_effects [OF wf i]
  show "tab_ok tab'"
    using pl(1) tab unfolding tab'_def by (auto simp add: tab_ok_def pow2_size_update intro!: short_names_update)
  show "prices tab' = (prices tab)(k := None)" "Suc (occupied tab') = occupied tab" "deleted tab' = Suc (deleted tab)"
    using pl(2-4) by (simp_all add: tab'_def)
qed

lemma table_insert_raw_spec:
  assumes tab: "tab_ok tab" "occupied tab + deleted tab < length tab" and k: "length k < SYMBOL_LENGTH"
  shows "\<exists>tab'. table_insert_raw tab (length tab) k p = Some (True, tab') \<and> tab_ok tab' \<and>
    length tab' = length tab \<and> prices tab' = (prices tab)(k \<mapsto> p) \<and>
    occupied tab' = (if prices tab k = None then Suc (occupied tab) else occupied tab) \<and>
    deleted tab' \<le> deleted tab"
proof -
  obtain i where i: "i < length tab" "is_empty_slot (tab ! i)" using vacancy [OF tab(2)] .
  have wf: "pow2_size tab" "short_names tab" "searchable sym_hash is_empty_slot slot_key tab"
    using tab(1) by (simp_all add: tab_ok_def)
  let ?start = "hashFunc k AND index_mask (length tab)"
  obtain r where r: "insert_probe tab (index_mask (length tab)) k ?start ?start None = Some r"
    "case r of Hit i \<Rightarrow> i < length tab \<and> slot_key (tab ! i) = Some k | Dest i \<Rightarrow> dest_ok tab k i | Full \<Rightarrow> False"
    using insert_probe_spec [OF wf i first_index [OF wf(1)] _ first_index [OF wf(1)], where k = k and ft = None] pow2_nonempty [OF wf(1)]
    by auto
  show ?thesis
  proof (cases r)
    case (Hit i)
    then have h: "i < length tab" "slot_key (tab ! i) = Some k" using r(2) by auto
    then have "prices tab k \<noteq> None" using symtab.find_unique [OF wf(3) h] by (simp add: prices_def)
    then show ?thesis using r(1) Hit tab_update [OF tab(1) h, where p = p] by (simp add: table_insert_raw_def)
  next
    case (Dest i)
    then have d: "dest_ok tab k i" using r(2) by simp
    then have "prices tab k = None" by (simp add: prices_def dest_ok_def)
    then show ?thesis using r(1) Dest tab_place(1-4) [OF tab(1) d k, where p = p] by (simp add: table_insert_raw_def)
  qed (use r(2) in simp)
qed

lemma prices_Cons: "prices (s # ss) k = (if slot_key s = Some k then Some (sym_price s) else prices ss k)"
  by (simp add: prices_def slot_of_def)

lemma prices_None: "prices tab k = None \<longleftrightarrow> (\<forall>s\<in>set tab. slot_key s \<noteq> Some k)"
  by (simp add: prices_def slot_of_def find_None_iff Ball_def)

lemma prices_Nil: "prices [] = Map.empty"
  by (rule ext) (simp add: prices_def slot_of_def)

lemma prices_moved:
  assumes "prices new' = (prices new)(k \<mapsto> sym_price s)" "slot_key s = Some k" "prices ss k = None"
  shows "prices new' ++ prices ss = prices new ++ prices (s # ss)"
proof
  fix q
  show "(prices new' ++ prices ss) q = (prices new ++ prices (s # ss)) q"
    using assms by (cases "q = k") (auto simp: prices_Cons map_add_def split: option.splits)
qed

lemma occupied_Cons: "occupied (s # ss) = (if slot_state s = OCCUPIED then Suc (occupied ss) else occupied ss)"
  by (simp add: occupied_def)

lemma rehash_spec:
  assumes old: "tab_ok old"
    and new: "tab_ok new" "deleted new = 0" "length new = cap"
    and idx: "distinct idx" "\<forall>i\<in>set idx. i < length old"
    and fresh: "\<forall>i\<in>set idx. \<forall>k. slot_key (old ! i) = Some k \<longrightarrow> prices new k = None"
    and space: "occupied new + occupied (map ((!) old) idx) < cap"
  shows "\<exists>new'. rehash old idx cap new = Some new' \<and> tab_ok new' \<and> deleted new' = 0 \<and> length new' = cap \<and>
     occupied new' = occupied new + occupied (map ((!) old) idx) \<and>
     prices new' = prices new ++ prices (map ((!) old) idx)"
  using new idx fresh space
proof (induction idx arbitrary: new)
  case Nil
  then show ?case by (simp add: occupied_def prices_Nil)
next
  case (Cons i idx)
  have wf: "searchable sym_hash is_empty_slot slot_key old" using old by (simp add: tab_ok_def)
  have i: "i < length old" using Cons.prems by simp
  show ?case
  proof (cases "slot_state (old ! i) = OCCUPIED")
    case False
    then have "prices (map ((!) old) (i # idx)) = prices (map ((!) old) idx)"
      by (intro ext) (simp add: prices_Cons slot_key_def)
    then show ?thesis using Cons.IH [OF Cons.prems(1-3)] Cons.prems(4-) False by (simp add: occupied_Cons)
  next
    case True
    let ?k = "sym_name (old ! i)" and ?p = "sym_price (old ! i)"
    have key: "slot_key (old ! i) = Some ?k" using True by (simp add: slot_key_def)
    have len: "length ?k < SYMBOL_LENGTH" using old i True by (simp add: tab_ok_def short_names_def)
    have none: "prices new ?k = None" using Cons.prems(6) key by simp
    obtain new1 where n1: "table_insert_raw new cap ?k ?p = Some (True, new1)" "tab_ok new1"
      "length new1 = cap" "prices new1 = (prices new)(?k \<mapsto> ?p)" "occupied new1 = Suc (occupied new)" "deleted new1 = 0"
      using table_insert_raw_spec [OF Cons.prems(1) _ len, of ?p] Cons.prems(2,3,7) none by auto
    have other: "slot_key (old ! j) \<noteq> Some ?k" if "j \<in> set idx" for j
      using searchable_unique [OF wf i, of j ?k] key that Cons.prems(4,5) by auto
    have "\<exists>new'. rehash old idx cap new1 = Some new' \<and> tab_ok new' \<and> deleted new' = 0 \<and> length new' = cap \<and>
        occupied new' = occupied new1 + occupied (map ((!) old) idx) \<and>
        prices new' = prices new1 ++ prices (map ((!) old) idx)"
      using Cons.prems(4-) n1 other True by (intro Cons.IH) (auto simp: occupied_Cons)
    moreover have "prices (map ((!) old) idx) ?k = None" using other by (simp add: prices_None)
    then have "prices new1 ++ prices (map ((!) old) idx) = prices new ++ prices (map ((!) old) (i # idx))"
      using prices_moved [OF n1(4) key] by simp
    ultimately show ?thesis using n1 True i by (simp add: occupied_Cons)
  qed
qed

subsection \<open>The table as a map from symbols to prices\<close>

definition table_ok :: "'p SymbolTable \<Rightarrow> bool" where
  "table_ok t \<longleftrightarrow> (case slots t of None \<Rightarrow> False | Some tab \<Rightarrow>
     tab_capacity t = length tab \<and> tab_ok tab \<and> tab_count t = occupied tab \<and> tombstones t = deleted tab \<and>
     occupied tab + deleted tab < length tab)"

definition table_prices :: "'p SymbolTable \<Rightarrow> cstring \<Rightarrow> 'p option" where
  "table_prices t = prices (the (slots t))"

lemma table_okD:
  assumes "table_ok t"
  obtains tab where "slots t = Some tab" "tab_capacity t = length tab" "tab_ok tab"
    "tab_count t = occupied tab" "tombstones t = deleted tab" "occupied tab + deleted tab < length tab"
    "table_prices t = prices tab"
  using assms by (auto simp: table_ok_def table_prices_def split: option.splits)

lemma empty_table:
  assumes "m \<le> 32"
  shows "tab_ok (replicate (2 ^ m) (empty_slot p0))" "deleted (replicate (2 ^ m) (empty_slot p0)) = 0"
    "occupied (replicate (2 ^ m) (empty_slot p0)) = 0" "prices (replicate (2 ^ m) (empty_slot p0)) = Map.empty"
proof -
  show "tab_ok (replicate (2 ^ m) (empty_slot p0))"
    using assms by (auto simp: tab_ok_def pow2_size_def short_names_def searchable_def empty_slot_def slot_key_def)
  show "prices (replicate (2 ^ m) (empty_slot p0)) = Map.empty"
    by (rule ext) (simp add: prices_None empty_slot_def slot_key_def)
qed (simp_all add: occupied_def deleted_def empty_slot_def)

lemma double_no_wrap: "x \<le> 2 ^ 31 \<Longrightarrow> unat (word_of_nat x * 2 :: u64) = 2 * x"
  by (simp add: unat_word_ariths unat_of_nat)

lemma table_resize_spec:
  assumes t: "table_ok t" and cap: "tab_capacity t \<le> 2 ^ 31"
  shows "\<exists>t'. table_resize p0 True (unat (word_of_nat (tab_capacity t) * 2 :: u64)) t = Some (True, t') \<and> table_ok t' \<and>
     table_prices t' = table_prices t \<and> tab_capacity t' = 2 * tab_capacity t \<and> tombstones t' = 0 \<and> tab_count t' = tab_count t"
proof (rule table_okD [OF t])
  fix tab
  assume tab: "slots t = Some tab" "tab_capacity t = length tab" "tab_ok tab"
    "tab_count t = occupied tab" "tombstones t = deleted tab" "occupied tab + deleted tab < length tab"
    "table_prices t = prices tab"
  obtain m where m: "length tab = 2 ^ m" using tab(3) by (auto simp: tab_ok_def pow2_size_def)
  have le: "(2::nat) ^ m \<le> 2 ^ 31" using cap unfolding tab(2) m .
  then have m31: "m \<le> 31" by (rule power_le_imp_le_exp [rotated]) simp
  have cap2: "unat (word_of_nat (tab_capacity t) * 2 :: u64) = 2 ^ Suc m"
    unfolding tab(2) m using double_no_wrap [OF le] by simp
  have m32: "Suc m \<le> 32" using m31 by simp
  define new where "new = replicate (2 ^ Suc m) (empty_slot p0)"
  note new = empty_table [OF m32, of p0, folded new_def]
  have "occupied tab < 2 ^ m" using tab(6) m by linarith
  then have less: "occupied tab < 2 ^ Suc m" by (rule less_le_trans) simp
  have len: "length new = 2 ^ Suc m" by (simp add: new_def)
  have none: "prices new k = None" for k by (simp add: new(4))
  have "\<exists>new'. rehash tab [0..<length tab] (2 ^ Suc m) new = Some new' \<and> tab_ok new' \<and> deleted new' = 0 \<and>
     length new' = 2 ^ Suc m \<and> occupied new' = occupied new + occupied (map ((!) tab) [0..<length tab]) \<and>
     prices new' = prices new ++ prices (map ((!) tab) [0..<length tab])"
    by (rule rehash_spec [OF tab(3) new(1,2) len]) (simp_all add: none map_nth new(3) less [simplified])
  then obtain new' where n: "rehash tab [0..<length tab] (2 ^ Suc m) new = Some new'" "tab_ok new'" "deleted new' = 0"
     "length new' = 2 ^ Suc m" "occupied new' = occupied tab" "prices new' = prices tab"
    by (auto simp: map_nth new(3,4))
  let ?t = "t\<lparr>slots := Some new', tab_capacity := 2 ^ Suc m, tombstones := 0\<rparr>"
  have "table_resize p0 True (unat (word_of_nat (tab_capacity t) * 2 :: u64)) t = Some (True, ?t)"
    unfolding cap2 by (simp add: table_resize_def tab(1,2) n(1) new_def [symmetric] del: power_Suc)
  moreover have "table_ok ?t" using n tab less by (simp add: table_ok_def)
  moreover have "table_prices ?t = table_prices t" using n(6) tab(7) by (simp add: table_prices_def)
  ultimately show ?thesis using m tab(2) by (intro exI [of _ ?t]) simp
qed

lemma insert_at_spec:
  assumes t: "table_ok t" and room: "tab_count t + tombstones t + 1 < tab_capacity t"
    and k: "length k < SYMBOL_LENGTH"
  shows "\<exists>t'. insert_at k p t = Some (True, t') \<and> table_ok t' \<and>
     table_prices t' = (table_prices t)(k \<mapsto> p) \<and> tab_capacity t' = tab_capacity t \<and>
     tombstones t' \<le> tombstones t \<and>
     tab_count t' = (if table_prices t k = None then Suc (tab_count t) else tab_count t)"
proof (rule table_okD [OF t])
  fix tab
  assume tab: "slots t = Some tab" "tab_capacity t = length tab" "tab_ok tab"
    "tab_count t = occupied tab" "tombstones t = deleted tab" "occupied tab + deleted tab < length tab"
    "table_prices t = prices tab"
  obtain i where i: "i < length tab" "is_empty_slot (tab ! i)" using vacancy [OF tab(6)] .
  have wf: "pow2_size tab" "short_names tab" "searchable sym_hash is_empty_slot slot_key tab"
    using tab(3) by (simp_all add: tab_ok_def)
  let ?start = "hashFunc k AND index_mask (length tab)"
  obtain r where r: "insert_probe tab (index_mask (length tab)) k ?start ?start None = Some r"
    "case r of Hit i \<Rightarrow> i < length tab \<and> slot_key (tab ! i) = Some k | Dest i \<Rightarrow> dest_ok tab k i | Full \<Rightarrow> False"
    using insert_probe_spec [OF wf i first_index [OF wf(1)] _ first_index [OF wf(1)], where k = k and ft = None] pow2_nonempty [OF wf(1)]
    by auto
  show ?thesis
  proof (cases r)
    case (Hit i)
    then have h: "i < length tab" "slot_key (tab ! i) = Some k" using r(2) by auto
    have "prices tab k \<noteq> None" using symtab.find_unique [OF wf(3) h] by (simp add: prices_def)
    then show ?thesis using r(1) Hit tab tab_update [OF tab(3) h, where p = p]
      by (simp add: insert_at_def Let_def table_ok_def table_prices_def)
  next
    case (Dest i)
    then have d: "dest_ok tab k i" using r(2) by simp
    then have "prices tab k = None" by (simp add: prices_def dest_ok_def)
    then show ?thesis using r(1) Dest tab tab_place [OF tab(3) d k] room
      by (auto simp add: insert_at_def Let_def table_ok_def table_prices_def)
  qed (use r(2) in simp)
qed

lemma table_ok_count: "table_ok t \<Longrightarrow> tab_count t + tombstones t < tab_capacity t"
  by (auto simp: table_ok_def split: option.splits)

lemma load_room: "table_ok t \<Longrightarrow> \<not> load_exceeded t \<Longrightarrow> tab_count t + tombstones t + 1 < tab_capacity t"
  using table_ok_count [of t] by (simp add: load_exceeded_def)

lemma symbol_insert_spec:
  assumes t: "table_ok t" and cap: "tab_capacity t \<le> 2 ^ 31" and k: "length k < SYMBOL_LENGTH"
  shows "\<exists>t'. symbol_table_insert p0 calloc_ok k p t = Some (\<not> load_exceeded t \<or> calloc_ok, t') \<and>
     table_ok t' \<and>
     table_prices t' = (if \<not> load_exceeded t \<or> calloc_ok then (table_prices t)(k \<mapsto> p) else table_prices t) \<and>
     tab_capacity t' = (if load_exceeded t \<and> calloc_ok then 2 else 1) * tab_capacity t \<and>
     tombstones t' \<le> tombstones t \<and>
     tab_count t' = (if (\<not> load_exceeded t \<or> calloc_ok) \<and> table_prices t k = None
                     then Suc (tab_count t) else tab_count t)"
proof (cases "load_exceeded t")
  case False
  then show ?thesis using insert_at_spec [OF t load_room [OF t False] k, of p]
    by (simp add: symbol_table_insert_def)
next
  case exceeded: True
  show ?thesis
  proof (cases calloc_ok)
    case False
    then show ?thesis using exceeded t by (simp add: symbol_table_insert_def table_resize_def)
  next
    case True
    obtain t1 where t1: "table_resize p0 True (unat (word_of_nat (tab_capacity t) * 2 :: u64)) t = Some (True, t1)" "table_ok t1"
     "table_prices t1 = table_prices t" "tab_capacity t1 = 2 * tab_capacity t" "tombstones t1 = 0" "tab_count t1 = tab_count t"
      using table_resize_spec [OF t cap] by blast
    have "tab_count t1 + tombstones t1 + 1 < tab_capacity t1"
      using table_ok_count [OF t] t1 by simp
    then obtain t' where "insert_at k p t1 = Some (True, t')" "table_ok t'"
      "table_prices t' = (table_prices t1)(k \<mapsto> p)" "tab_capacity t' = tab_capacity t1"
      "tombstones t' \<le> tombstones t1" "tab_count t' = (if table_prices t1 k = None then Suc (tab_count t1) else tab_count t1)"
      using insert_at_spec [OF t1(2) _ k] by blast
    then show ?thesis using t1 exceeded True by (simp add: symbol_table_insert_def)
  qed
qed


lemma lookup_delete_spec:
  assumes t: "table_ok t"
  shows "symbol_table_lookup k out t = Some (table_prices t k \<noteq> None,
           if table_prices t k = None then out else map_option (\<lambda>_. the (table_prices t k)) out) \<and>
     (\<exists>t'. symbol_table_delete k t = Some (table_prices t k \<noteq> None, t') \<and> table_ok t' \<and>
        table_prices t' = (table_prices t)(k := None) \<and> tab_capacity t' = tab_capacity t \<and>
        (if table_prices t k = None then tab_count t' = tab_count t \<and> tombstones t' = tombstones t
         else Suc (tab_count t') = tab_count t \<and> tombstones t' = Suc (tombstones t)))"
proof (rule table_okD [OF t])
  fix tab
  assume tab: "slots t = Some tab" "tab_capacity t = length tab" "tab_ok tab"
    "tab_count t = occupied tab" "tombstones t = deleted tab" "occupied tab + deleted tab < length tab"
    "table_prices t = prices tab"
  have wf: "pow2_size tab" "short_names tab" "searchable sym_hash is_empty_slot slot_key tab"
    using tab(3) by (simp_all add: tab_ok_def)
  from find_slot_searchable [OF tab(1,2) wf, of k] show ?thesis
  proof (elim disjE exE conjE)
    assume f: "find_slot k t = Some None" "slot_of slot_key tab k = None"
    then have "table_prices t k = None" by (simp add: tab(7) prices_def)
    then show ?thesis using f t by (simp add: symbol_table_lookup_def symbol_table_delete_def fun_upd_idem)
  next
    fix i
    assume f: "i < length tab" "find_slot k t = Some (Some i)" "slot_key (tab ! i) = Some k" 
      "slot_of slot_key tab k = Some (tab ! i)"
    then have p: "table_prices t k = Some (sym_price (tab ! i))" by (simp add: tab(7) prices_def)
    show ?thesis using f p tab tab_delete [OF tab(3) f(1,3)]
      by (auto simp add: symbol_table_lookup_def symbol_table_delete_def table_ok_def table_prices_def)
  qed
qed

text \<open>Lookup and delete always end and stay inside the table; lookup returns exactly what the
  abstract map holds, delete removes exactly that symbol and leaves a tombstone.\<close>

theorem symbol_lookup_delete:
  assumes t: "table_ok t"
  shows "symbol_table_lookup k out t = Some (table_prices t k \<noteq> None,
           if table_prices t k = None then out else map_option (\<lambda>_. the (table_prices t k)) out) \<and>
     (\<exists>t'. symbol_table_delete k t = Some (table_prices t k \<noteq> None, t') \<and> table_ok t' \<and>
        table_prices t' = (table_prices t)(k := None) \<and> tab_capacity t' = tab_capacity t \<and>
        (if table_prices t k = None then tab_count t' = tab_count t \<and> tombstones t' = tombstones t
         else Suc (tab_count t') = tab_count t \<and> tombstones t' = Suc (tombstones t)))"
  by (rule lookup_delete_spec [OF t])

lemma long_not_found:
  assumes tab: "slots t = Some tab" "tab_capacity t = length tab" "pow2_size tab" "short_names tab"
    and k: "SYMBOL_LENGTH \<le> length k"
  shows "symbol_table_lookup k out t = Some (False, out)"
proof -
  have no: "slot_key (tab ! i) \<noteq> Some k" if "i < length tab" for i
  proof
    assume "slot_key (tab ! i) = Some k"
    then have "slot_state (tab ! i) = OCCUPIED" "sym_name (tab ! i) = k"
      by (simp_all add: slot_key_def split: if_splits)
    then show False using tab(4) k that by (auto simp: short_names_def)
  qed
  from find_slot_spec [OF tab, of k] obtain r where r: "find_slot k t = Some r"
    "case r of None \<Rightarrow> (\<exists>e<length tab. probed sym_hash is_empty_slot slot_key tab k e \<and>
                          is_empty_slot (tab ! probe_at sym_hash tab k e)) \<or>
                       probed sym_hash is_empty_slot slot_key tab k (length tab)
      | Some i \<Rightarrow> \<exists>e. i = probe_at sym_hash tab k e \<and> slot_key (tab ! i) = Some k"
    by blast
  have "r = None"
  proof (cases r)
    case (Some i)
    then show ?thesis using r(2) no pow2_nonempty [OF tab(3)] by auto
  qed
  then show ?thesis using r(1) by (simp add: symbol_table_lookup_def)
qed

lemma insert_at_long:
  assumes t: "table_ok t" and room: "tab_count t + tombstones t + 1 < tab_capacity t"
    and k: "SYMBOL_LENGTH \<le> length k"
  shows "\<exists>t'. insert_at k p t = Some (True, t') \<and> tab_count t' = Suc (tab_count t) \<and>
     symbol_table_lookup k out t' = Some (False, out)"
proof (rule table_okD [OF t])
  fix tab
  assume tab: "slots t = Some tab" "tab_capacity t = length tab" "tab_ok tab"
    "tab_count t = occupied tab" "tombstones t = deleted tab" "occupied tab + deleted tab < length tab"
    "table_prices t = prices tab"
  obtain i where i: "i < length tab" "is_empty_slot (tab ! i)" using vacancy [OF tab(6)] .
  have wf: "pow2_size tab" "short_names tab" "searchable sym_hash is_empty_slot slot_key tab"
    using tab(3) by (simp_all add: tab_ok_def)
  let ?start = "hashFunc k AND index_mask (length tab)"
  obtain r where r: "insert_probe tab (index_mask (length tab)) k ?start ?start None = Some r"
    "case r of Hit i \<Rightarrow> i < length tab \<and> slot_key (tab ! i) = Some k | Dest i \<Rightarrow> dest_ok tab k i | Full \<Rightarrow> False"
    using insert_probe_spec [OF wf i first_index [OF wf(1)] _ first_index [OF wf(1)], where k = k and ft = None] pow2_nonempty [OF wf(1)]
    by auto
  show ?thesis
  proof (cases r)
    case (Hit i)
    then have "slot_state (tab ! i) = OCCUPIED" "sym_name (tab ! i) = k" "i < length tab"
      using r(2) by (simp_all add: slot_key_def split: if_splits)
    then show ?thesis using wf(2) k by (auto simp: short_names_def)
  next
    case (Dest d)
    let ?tab = "tab[d := write_slot k p]"
    have "short_names ?tab" "pow2_size ?tab"
      using wf k by (auto intro!: short_names_update simp: pow2_size_update write_slot_def SYMBOL_LENGTH_def)
    then show ?thesis using r(1) Dest tab
      by (simp add: insert_at_def Let_def long_not_found [OF _ _ _ _ k])
  qed (use r(2) in simp)
qed

text \<open>A symbol of eight or more characters is lost: inserting it succeeds and uses up a slot, but
  looking it up afterwards fails, because the stored name is cut to seven characters and compared over
  eight.\<close>

theorem long_symbol_lost:
  assumes t: "table_ok t" and cap: "tab_capacity t \<le> 2 ^ 31" and k: "SYMBOL_LENGTH \<le> length k"
  shows "\<exists>t'. symbol_table_insert p0 True k p t = Some (True, t') \<and>
    tab_count t' = Suc (tab_count t) \<and> symbol_table_lookup k out t' = Some (False, out)"
proof (cases "load_exceeded t")
  case False
  then show ?thesis using insert_at_long [OF t load_room [OF t False] k, of p out]
    by (simp add: symbol_table_insert_def)
next
  case exceeded: True
  obtain t1 where t1: "table_resize p0 True (unat (word_of_nat (tab_capacity t) * 2 :: u64)) t = Some (True, t1)" "table_ok t1"
     "table_prices t1 = table_prices t" "tab_capacity t1 = 2 * tab_capacity t" "tombstones t1 = 0" "tab_count t1 = tab_count t"
    using table_resize_spec [OF t cap] by blast
  have "tab_count t1 + tombstones t1 + 1 < tab_capacity t1"
    using table_ok_count [OF t] t1 by simp
  from insert_at_long [OF t1(2) this k, of p out] t1 exceeded show ?thesis
    by (simp add: symbol_table_insert_def)
qed

lemma create_ok: 
  "table_ok (symbol_table_create p0 True t)" "table_prices (symbol_table_create p0 True t) = Map.empty"
  using empty_table [of 4 p0] by (simp_all add: symbol_table_create_def table_alloc_def INITIAL_CAPACITY_def table_ok_def table_prices_def)

lemma create_capacity: "tab_capacity (symbol_table_create p0 True t) = 16"
  by (simp add: symbol_table_create_def table_alloc_def INITIAL_CAPACITY_def)

definition fresh_table :: "nat SymbolTable" where
  "fresh_table = symbol_table_create 0 True \<lparr>slots = None, tab_capacity = 0, tab_count = 0, tombstones = 0\<rparr>"

lemma fresh_table: "table_ok fresh_table" "tab_capacity fresh_table \<le> 2 ^ 31" "table_prices fresh_table = Map.empty"
  by (simp_all add: fresh_table_def create_ok create_capacity)


lemma symbol_lookup_delete_witness:
  "symbol_table_lookup MSFT (Some 3) fresh_table = Some (False, Some 3)"
  using symbol_lookup_delete [OF fresh_table(1), of MSFT "Some 3"] by (simp add: fresh_table(3))

lemma long_symbol_lost_witness:
  "\<exists>t'. symbol_table_insert 0 True (AAPL @ AAPL) 7 fresh_table = Some (True, t') \<and>
     symbol_table_lookup (AAPL @ AAPL) (Some 0) t' = Some (False, Some 0)"
proof -
  have "SYMBOL_LENGTH \<le> length (AAPL @ AAPL)" by (simp add: AAPL_def SYMBOL_LENGTH_def)
  from long_symbol_lost [OF fresh_table(1,2) this, of 0 7 "Some 0"] show ?thesis by auto
qed

subsection \<open>The demonstration program\<close>

text \<open>What bounds the growth: a table larger than the first is at least about a third full.\<close>

definition grow_inv :: "'p SymbolTable \<Rightarrow> bool" where
  "grow_inv t \<longleftrightarrow> table_ok t \<and> tombstones t \<le> 1 \<and> 16 \<le> tab_capacity t \<and>
     (tab_capacity t = 16 \<or> 7 * tab_capacity t \<le> 20 * (tab_count t + 2)) \<and>
     10 * (tab_count t + tombstones t) \<le> 7 * tab_capacity t"

lemma load_bounds:
  "load_exceeded t \<Longrightarrow> tab_capacity t \<le> 2 ^ 31 \<Longrightarrow>
     7 * tab_capacity t \<le> 10 * (tab_count t + tombstones t + 1)"
  "\<not> load_exceeded t \<Longrightarrow> 10 * (tab_count t + tombstones t + 1) \<le> 7 * tab_capacity t"
  by (simp_all add: load_exceeded_def)

lemma symbol_insert_ok: "length k < SYMBOL_LENGTH \<Longrightarrow> table_ok t \<Longrightarrow> tab_capacity t \<le> 2 ^ 31 \<Longrightarrow>
  \<exists>t'. symbol_table_insert p0 True k p t = Some (True, t') \<and> table_ok t' \<and>
     table_prices t' = (table_prices t)(k \<mapsto> p) \<and>
     tab_capacity t' = (if load_exceeded t then 2 else 1) * tab_capacity t \<and>
     tombstones t' \<le> tombstones t \<and>
     tab_count t' = (if table_prices t k = None then Suc (tab_count t) else tab_count t)"
  using symbol_insert_spec [of t k p0 True p] by simp

lemma insert_grow:
  assumes "grow_inv t" "length k < SYMBOL_LENGTH" "tab_count t < 1000"
  shows "\<exists>t'. symbol_table_insert p0 True k p t = Some (True, t') \<and> grow_inv t' \<and>
     table_prices t' = (table_prices t)(k \<mapsto> p) \<and> tombstones t' \<le> tombstones t \<and>
     tab_count t' = (if table_prices t k = None then Suc (tab_count t) else tab_count t)"
proof -
  have cap: "tab_capacity t \<le> 2 ^ 31" using assms(1,3) by (auto simp: grow_inv_def)
  then obtain t' where t': "symbol_table_insert p0 True k p t = Some (True, t')" "table_ok t'"
     "table_prices t' = (table_prices t)(k \<mapsto> p)"
     "tab_capacity t' = (if load_exceeded t then 2 else 1) * tab_capacity t"
     "tombstones t' \<le> tombstones t"
     "tab_count t' = (if table_prices t k = None then Suc (tab_count t) else tab_count t)"
    using symbol_insert_ok [of k t p0 p] assms(1,2) by (auto simp: grow_inv_def)
  have "grow_inv t'"
    using t'(2,4-6) assms(1) load_bounds [of t] cap
    by (cases "load_exceeded t") (auto simp: grow_inv_def split: if_splits)
  then show ?thesis using t' by simp
qed

lemma insert_all_grow:
  assumes "grow_inv t" "\<forall>kv\<in>set kvs. length (fst kv) < SYMBOL_LENGTH" "tab_count t + length kvs < 1000"
  shows "\<exists>t'. insert_all p0 kvs t = Some t' \<and> grow_inv t' \<and> table_prices t' = table_prices t ++ map_of (rev kvs) \<and>
     (distinct (map fst kvs) \<longrightarrow> (\<forall>kv\<in>set kvs. table_prices t (fst kv) = None) \<longrightarrow> tab_count t' = tab_count t + length kvs) \<and>
     tab_count t' \<le> tab_count t + length kvs"
  using assms
proof (induction kvs arbitrary: t)
  case (Cons kv kvs)
  obtain t1 where t1: "symbol_table_insert p0 True (fst kv) (snd kv) t = Some (True, t1)" "grow_inv t1"
     "table_prices t1 = (table_prices t)(fst kv \<mapsto> snd kv)"
     "tab_count t1 = (if table_prices t (fst kv) = None then Suc (tab_count t) else tab_count t)"
    using insert_grow [OF Cons.prems(1), of "fst kv" p0 "snd kv"] Cons.prems by auto
  have "tab_count t1 + length kvs < 1000" "\<forall>kv\<in>set kvs. length (fst kv) < SYMBOL_LENGTH"
    using Cons.prems(2,3) t1(4) by simp_all
  from Cons.IH [OF t1(2) this(2,1)]
  obtain t' where t': "insert_all p0 kvs t1 = Some t'" "grow_inv t'" "table_prices t' = table_prices t1 ++ map_of (rev kvs)"
     "distinct (map fst kvs) \<longrightarrow> (\<forall>kv\<in>set kvs. table_prices t1 (fst kv) = None) \<longrightarrow> tab_count t' = tab_count t1 + length kvs"
     "tab_count t' \<le> tab_count t1 + length kvs"
    by blast
  have "tab_count t' = tab_count t + length (kv # kvs)"
    if "distinct (map fst (kv # kvs))" "\<forall>kv\<in>set (kv # kvs). table_prices t (fst kv) = None"
  proof -
    have "\<forall>kv'\<in>set kvs. table_prices t1 (fst kv') = None"
      using that unfolding t1(3) by (auto simp: image_iff)
    then show ?thesis using t'(4) t1(4) that by simp
  qed
  moreover have "map_of (rev (kv # kvs)) = [fst kv \<mapsto> snd kv] ++ map_of (rev kvs)"
    by (simp add: map_of_append)
  then have "table_prices t' = table_prices t ++ map_of (rev (kv # kvs))"
    by (simp add: t'(3) t1(3) map_add_assoc)
  ultimately show ?case using t' t1 by (auto split: if_splits)
qed simp

definition S_symbols :: "cstring list" where
  "S_symbols = map (\<lambda>i. take (SYMBOL_LENGTH - 1) (83 # decimal i)) [0..<50]"

lemma S_symbols_facts: "distinct S_symbols" "\<forall>s\<in>set S_symbols. length s < SYMBOL_LENGTH"
  "AAPL \<notin> set S_symbols" "NVDA \<notin> set S_symbols" "TSLA \<notin> set S_symbols"
  by code_simp+

lemma create_grow: "grow_inv (symbol_table_create p0 True t)" "tab_count (symbol_table_create p0 True t) = 0"
  "tombstones (symbol_table_create p0 True t) = 0"
  using create_ok(1) [of p0 t]
  by (simp_all add: grow_inv_def symbol_table_create_def table_alloc_def INITIAL_CAPACITY_def)

lemma symbol_names: "length AAPL < SYMBOL_LENGTH" "length NVDA < SYMBOL_LENGTH" "length TSLA < SYMBOL_LENGTH"
  "AAPL \<noteq> NVDA" "AAPL \<noteq> TSLA" "NVDA \<noteq> TSLA" "MSFT \<noteq> AAPL" "MSFT \<noteq> NVDA" "MSFT \<noteq> TSLA"
  by code_simp+

text \<open>The program prints the prices it inserted, reports the missing and the deleted symbol, grows
  to capacity 128 with 52 symbols, and still finds the updated price after three rehashes.\<close>

theorem symbol_table_main_output:
  "symbol_table_main dbl g_table =
     Some [PriceLine AAPL (dbl 18500), PriceLine NVDA (dbl 72133), NotFoundLine MSFT, DeletedLine NVDA,
           GrowthLine 128 52, StillFoundLine AAPL (dbl 18500)]"
proof -
  let ?t0 = "symbol_table_create (dbl 0) True g_table"
  obtain t1 where t1: "symbol_table_insert (dbl 0) True AAPL (dbl 18250) ?t0 = Some (True, t1)" "grow_inv t1"
    "table_prices t1 = [AAPL \<mapsto> dbl 18250]" "tombstones t1 = 0" "tab_count t1 = 1"
    using insert_grow [OF create_grow(1) symbol_names(1), of "dbl 0" g_table "dbl 0" "dbl 18250"]
    by (auto simp: create_grow create_ok)
  obtain t2 where t2: "symbol_table_insert (dbl 0) True NVDA (dbl 72133) t1 = Some (True, t2)" "grow_inv t2"
    "table_prices t2 = [AAPL \<mapsto> dbl 18250, NVDA \<mapsto> dbl 72133]" "tombstones t2 = 0" "tab_count t2 = 2"
    using insert_grow [OF t1(2) symbol_names(2), of "dbl 0" "dbl 72133"] t1 symbol_names by auto
  obtain t3 where t3: "symbol_table_insert (dbl 0) True TSLA (dbl 19357) t2 = Some (True, t3)" "grow_inv t3"
    "table_prices t3 = [AAPL \<mapsto> dbl 18250, NVDA \<mapsto> dbl 72133, TSLA \<mapsto> dbl 19357]" "tombstones t3 = 0" "tab_count t3 = 3"
    using insert_grow [OF t2(2) symbol_names(3), of "dbl 0" "dbl 19357"] t2 symbol_names by auto
  obtain t4 where t4: "symbol_table_insert (dbl 0) True AAPL (dbl 18500) t3 = Some (True, t4)" "grow_inv t4"
    "table_prices t4 = [AAPL \<mapsto> dbl 18500, NVDA \<mapsto> dbl 72133, TSLA \<mapsto> dbl 19357]" "tombstones t4 = 0" "tab_count t4 = 3"
    using insert_grow [OF t3(2) symbol_names(1), of "dbl 0" "dbl 18500"] t3 symbol_names
    by (auto simp: fun_upd_twist)
  have ok4: "table_ok t4" using t4(2) by (simp add: grow_inv_def)
  obtain t5 where t5: "symbol_table_delete NVDA t4 = Some (True, t5)" "table_ok t5"
    "table_prices t5 = [AAPL \<mapsto> dbl 18500, TSLA \<mapsto> dbl 19357]" "tab_capacity t5 = tab_capacity t4" "tab_count t5 = 2" "tombstones t5 = 1"
    using lookup_delete_spec [OF ok4, of NVDA None] t4 symbol_names
    by (auto simp: fun_upd_twist)
  have "grow_inv t5" using t5 t4 by (auto simp: grow_inv_def)
  let ?kvs = "growth_entries dbl"
  have keys: "map fst ?kvs = S_symbols" by (simp add: growth_entries_def S_symbols_def comp_def del: upt_conv_Cons)
  have len: "length ?kvs = 50" by (simp add: growth_entries_def)
  have "\<forall>kv\<in>set ?kvs. fst kv \<in> set S_symbols" unfolding keys [symmetric] by simp
  then have short: "\<forall>kv\<in>set ?kvs. length (fst kv) < SYMBOL_LENGTH" 
    and fresh: "\<forall>kv\<in>set ?kvs. table_prices t5 (fst kv) = None" 
    using S_symbols_facts t5(3) by fastforce+
  obtain t6 where t6: "insert_all (dbl 0) ?kvs t5 = Some t6" "grow_inv t6"
    "table_prices t6 = table_prices t5 ++ map_of (rev ?kvs)" "tab_count t6 = 52"
    using insert_all_grow [OF \<open>grow_inv t5\<close> short, of "dbl 0"] t5(5) S_symbols_facts(1) fresh
    unfolding keys len by auto
  have "map_of (rev ?kvs) AAPL = None"
    using S_symbols_facts(3) unfolding keys [symmetric] by (auto simp: map_of_eq_None_iff)
  then have p6: "table_prices t6 AAPL = Some (dbl 18500)" using t6(3) t5(3) symbol_names by (simp add: map_add_def)
  have ok6: "table_ok t6" using t6(2) by (simp add: grow_inv_def)
  have "tab_capacity t6 = 128"
  proof -
    obtain m where m: "tab_capacity t6 = 2 ^ m"
      using ok6 by (auto simp: table_ok_def tab_ok_def pow2_size_def split: option.splits)
    have "75 \<le> tab_capacity t6" "tab_capacity t6 < 155" using t6(2,4) by (auto simp: grow_inv_def)
    then have "(2::nat) ^ 6 < 2 ^ m" "(2::nat) ^ m < 2 ^ 8" unfolding m by auto
    then have "6 < m" "m < 8" by (simp_all only: power_strict_increasing_iff one_less_numeral_iff semiring_norm)
    then have "m = 7" by simp
    then show ?thesis using m by simp
  qed
  then show ?thesis 
    unfolding symbol_table_main_def Let_def insert_all.simps fst_conv snd_conv 
    using t1(1) t2(1) t3(1) t4(1) t5(1) t6(1,4) t4(3) t5(3) p6 symbol_names
      lookup_delete_spec [OF ok4] lookup_delete_spec [OF t5(2)] lookup_delete_spec [OF ok6]
    by simp
qed

end
