(* ===== verification/String_Pool.thy ===== *)
theory String_Pool
  imports Probing
begin

unbundle bit_operations_syntax

text \<open>
  Day 16: the three string hashes of \<^verbatim>\<open>Phase-1/Day16/C/StringHashs.c\<close> and the string
  interning pool of \<^verbatim>\<open>string_interning.c\<close> and \<^verbatim>\<open>pool.h\<close>, a linear-probing table of pointers
  to private copies of the strings.

  A C string is the list of its characters before the terminating zero. The copies live in a heap
  of strings; a bucket is a pointer. A probe that never ends is \<open>None\<close>.
\<close>

subsection \<open>Hashes\<close>

fun djb2_loop :: "u32 \<Rightarrow> u8 list \<Rightarrow> u32" where
  "djb2_loop hash [] = hash"
| "djb2_loop hash (c # str) = djb2_loop ((push_bit 5 hash + hash) + ucast c) str"

definition djb2 :: "u8 list \<Rightarrow> u32" where
  "djb2 str = djb2_loop 5381 str"

fun fnv1a_loop :: "u32 \<Rightarrow> u8 list \<Rightarrow> u32" where
  "fnv1a_loop hash [] = hash"
| "fnv1a_loop hash (c # str) = fnv1a_loop ((hash XOR ucast c) * 0x01000193) str"

definition fnv1a :: "u8 list \<Rightarrow> u32" where
  "fnv1a str = fnv1a_loop 0x811C9DC5 str"

text \<open>
  \<^verbatim>\<open>murmur3_32\<close>: the blocks are four-byte little-endian loads, the tail is the \<^verbatim>\<open>switch\<close> with its
  fall-throughs.
\<close>

definition rotl32 :: "nat \<Rightarrow> u32 \<Rightarrow> u32" where
  "rotl32 r k = push_bit r k OR drop_bit (32 - r) k"

definition murmur_k :: "u32 \<Rightarrow> u32" where
  "murmur_k k1 = rotl32 15 (k1 * 0xcc9e2d51) * 0x1b873593"

definition murmur_block :: "u32 \<Rightarrow> u32 \<Rightarrow> u32" where
  "murmur_block h1 k1 = rotl32 13 (h1 XOR murmur_k k1) * 5 + 0xe6546b64"

fun murmur_body :: "u32 \<Rightarrow> u8 list \<Rightarrow> u32 \<times> u8 list" where
  "murmur_body h1 (b0 # b1 # b2 # b3 # data) =
     murmur_body (murmur_block h1 (ucast b0 OR push_bit 8 (ucast b1) OR push_bit 16 (ucast b2) OR
                                   push_bit 24 (ucast b3))) data"
| "murmur_body h1 tail = (h1, tail)"

definition murmur_tail :: "u32 \<Rightarrow> u8 list \<Rightarrow> u32" where
  "murmur_tail h1 tail =
     (case tail of
        [t0, t1, t2] \<Rightarrow> h1 XOR murmur_k ((push_bit 16 (ucast t2) XOR push_bit 8 (ucast t1)) XOR ucast t0)
      | [t0, t1] \<Rightarrow> h1 XOR murmur_k (push_bit 8 (ucast t1) XOR ucast t0)
      | [t0] \<Rightarrow> h1 XOR murmur_k (ucast t0)
      | _ \<Rightarrow> h1)"

definition murmur_final :: "u32 \<Rightarrow> u32" where
  "murmur_final h =
     (let h = h XOR drop_bit 16 h;
          h = h * 0x85ebca6b;
          h = h XOR drop_bit 13 h;
          h = h * 0xc2b2ae35
      in h XOR drop_bit 16 h)"

definition murmur3_32 :: "u8 list \<Rightarrow> u32 \<Rightarrow> u32" where
  "murmur3_32 key seed =
     (let (h1, tail) = murmur_body seed key;
          h1 = murmur_tail h1 tail;
          h1 = h1 XOR word_of_nat (length key)
      in murmur_final h1)"

subsection \<open>The pool\<close>

record StringPool =
  buckets :: "ptr list"
  pool_capacity :: nat
  pool_count :: nat

text \<open>The outcomes of the two allocations are arguments.\<close>

definition pool_create :: "bool \<Rightarrow> bool \<Rightarrow> nat \<Rightarrow> StringPool option" where
  "pool_create malloc_succeeds calloc_succeeds capacity =
     (if \<not> malloc_succeeds then None
      else if \<not> calloc_succeeds then None
      else Some \<lparr>buckets = replicate capacity None, pool_capacity = capacity, pool_count = 0\<rparr>)"

datatype bucket_result = Interned addr | FreeBucket nat

partial_function (option) pool_probe ::
  "u8 list heap \<Rightarrow> StringPool \<Rightarrow> u8 list \<Rightarrow> nat \<Rightarrow> bucket_result option" where
  "pool_probe h pool str index =
     (if \<not> index < length (buckets pool) then None
      else case buckets pool ! index of
        None \<Rightarrow> Some (FreeBucket index)
      | Some a \<Rightarrow>
          (case h a of
             None \<Rightarrow> None
           | Some s \<Rightarrow>
               if s = str then Some (Interned a)
               else pool_probe h pool str ((index + 1) mod pool_capacity pool)))"

text \<open>
  \<^verbatim>\<open>pool_intern\<close> returns the pointer (\<open>None\<close> for \<^verbatim>\<open>NULL\<close>), the pool and the heap; \<open>m\<close> is what
  \<^verbatim>\<open>strdup\<close>'s allocation answers.
\<close>

definition pool_intern ::
  "(addr \<times> u8 list) option \<Rightarrow> StringPool option \<Rightarrow> u8 list option \<Rightarrow> u8 list heap \<Rightarrow>
     (ptr \<times> StringPool option \<times> u8 list heap) option" where
  "pool_intern m pool str h =
     (case pool of None \<Rightarrow> Some (None, pool, h)
      | Some p \<Rightarrow> (case str of None \<Rightarrow> Some (None, pool, h)
        | Some s \<Rightarrow>
            if pool_capacity p \<le> pool_count p then Some (None, pool, h)
            else case pool_probe h p s (unat (fnv1a s) mod pool_capacity p) of
                None \<Rightarrow> None
              | Some (Interned a) \<Rightarrow> Some (Some a, pool, h)
              | Some (FreeBucket index) \<Rightarrow>
                  (case m of
                     None \<Rightarrow> Some (None, pool, h)
                   | Some (a, junk) \<Rightarrow>
                       Some (Some a,
                         Some (p\<lparr>buckets := (buckets p)[index := Some a],
                                 pool_count := pool_count p + 1\<rparr>),
                         h(a \<mapsto> s)))))"

primrec free_all :: "ptr list \<Rightarrow> u8 list heap \<Rightarrow> u8 list heap option" where
  "free_all [] h = Some h"
| "free_all (b # bs) h = (case dealloc b h of None \<Rightarrow> None | Some h \<Rightarrow> free_all bs h)"

definition pool_destroy :: "StringPool option \<Rightarrow> u8 list heap \<Rightarrow> u8 list heap option" where
  "pool_destroy pool h =
     (case pool of None \<Rightarrow> Some h
      | Some p \<Rightarrow>
          if length (buckets p) < pool_capacity p then None
          else free_all (take (pool_capacity p) (buckets p)) h)"

text \<open>
  \<^verbatim>\<open>main\<close>: interns "hello", "world", "hello"; the assertion and the printed comparison are the
  returned booleans.
\<close>

definition pool_main ::
  "u8 list allocator \<Rightarrow> u8 list heap \<Rightarrow> (bool \<times> u8 list option \<times> u8 list option \<times> u8 list option \<times> u8 list heap) option" where
  "pool_main alloc h = do {
     let pool = pool_create True True 16;
     let hello = [104, 101, 108, 108, 111];
     let world = [119, 111, 114, 108, 100];
     (s1, pool, h) \<leftarrow> pool_intern (alloc h) pool (Some hello) h;
     (s2, pool, h) \<leftarrow> pool_intern (alloc h) pool (Some world) h;
     (s3, pool, h) \<leftarrow> pool_intern (alloc h) pool (Some hello) h;
     let out = (load h s1, load h s3, load h s2);
     h \<leftarrow> pool_destroy pool h;
     Some (s1 = s3, fst out, fst (snd out), snd (snd out), h)
   }"

subsection \<open>The pool is a searchable table\<close>

definition str_hash :: "u8 list \<Rightarrow> nat" where
  "str_hash s = unat (fnv1a s)"

definition no_string :: "ptr \<Rightarrow> bool" where
  "no_string b \<longleftrightarrow> b = None"

interpretation strpool: open_addressing str_hash no_string "load h" for h
  by unfold_locales (simp add: no_string_def load_def)

definition pool_ok :: "u8 list heap \<Rightarrow> StringPool \<Rightarrow> bool" where
  "pool_ok h p \<longleftrightarrow>
     length (buckets p) = pool_capacity p \<and> searchable str_hash no_string (load h) (buckets p) \<and>
     (\<forall>a. Some a \<in> set (buckets p) \<longrightarrow> h a \<noteq> None) \<and>
     pool_count p = length (filter (\<lambda>b. b \<noteq> None) (buckets p))"

definition interned :: "u8 list heap \<Rightarrow> StringPool \<Rightarrow> u8 list \<Rightarrow> addr option" where
  "interned h p s = Option.bind (slot_of (load h) (buckets p) s) id"


lemma pool_probe_spec:
  assumes p: "pool_ok h p" and space: "i < length (buckets p)" "no_string (buckets p ! i)"
    and d: "d < length (buckets p)" "index = probe_at str_hash (buckets p) s d"
    and probed: "probed str_hash no_string (load h) (buckets p) s d"
  shows "\<exists>r. pool_probe h p s index = Some r \<and>
     (case r of Interned a \<Rightarrow> interned h p s = Some a
      | FreeBucket i \<Rightarrow> slot_of (load h) (buckets p) s = None \<and> (\<exists>e<length (buckets p).
          i = probe_at str_hash (buckets p) s e \<and>
          (\<forall>j<e. \<not> no_string (buckets p ! probe_at str_hash (buckets p) s j)) \<and> buckets p ! i = None))"
  using d probed
proof (induction "length (buckets p) - d" arbitrary: d index)
  case 0
  then show ?case by simp
next
  case (Suc n)
  let ?i = "probe_at str_hash (buckets p) s d"
  have wf: "searchable str_hash no_string (load h) (buckets p)" and cap: "pool_capacity p = length (buckets p)"
    using p by (simp_all add: pool_ok_def)
  have ne: "buckets p \<noteq> []" using space by auto
  then have i: "?i < length (buckets p)" by simp
  show ?case
  proof (cases "buckets p ! ?i")
    case None
    then have "slot_of (load h) (buckets p) s = None"
      using strpool.probe_miss [OF wf Suc.prems(3) Suc.prems(1)] by (simp add: no_string_def)
    moreover have "\<forall>j<d. \<not> no_string (buckets p ! probe_at str_hash (buckets p) s j)"
      using Suc.prems(3) by (simp add: probed_def)
    moreover have "pool_probe h p s index = Some (FreeBucket ?i)"
      using None i Suc.prems(2) by (subst pool_probe.simps) simp
    ultimately show ?thesis using None Suc.prems(1) by (auto intro!: exI [of _ d])
  next
    case (Some a)
    then have "Some a \<in> set (buckets p)" using i by (metis nth_mem)
    then obtain str where str: "h a = Some str" using p by (auto simp: pool_ok_def)
    show ?thesis
    proof (cases "str = s")
      case True
      then have "slot_of (load h) (buckets p) s = Some (Some a)"
        using strpool.probe_hit [OF wf, of s d] Some str by (simp add: heap_simps)
      then show ?thesis using Some str True i Suc.prems(2)
        by (subst pool_probe.simps) (simp add: interned_def)
    next
      case False
      have pd: "probed str_hash no_string (load h) (buckets p) s (Suc d)"
        using Suc.prems(3) Some str False by (simp add: probed_Suc no_string_def heap_simps)
      then have more: "Suc d < length (buckets p)"
        using probed_stops [OF space pd] Suc.prems(1) by simp
      have "pool_probe h p s index = pool_probe h p s ((index + 1) mod pool_capacity p)"
        using Some str False i Suc.prems(2) by (subst pool_probe.simps) simp
      moreover have "(index + 1) mod pool_capacity p = probe_at str_hash (buckets p) s (Suc d)"
        by (simp add: Suc.prems(2) probe_at_Suc cap)
      ultimately show ?thesis
        using Suc.hyps(1) [OF _ more _ pd] Suc.hyps(2) by simp
    qed
  qed
qed

lemma room_in_pool:
  assumes "pool_ok h p" "pool_count p < pool_capacity p"
  obtains i where "i < length (buckets p)" "no_string (buckets p ! i)"
proof -
  have "filter (\<lambda>b. b = None) (buckets p) \<noteq> []"
    using assms sum_length_filter_compl [of "\<lambda>b. b \<noteq> None" "buckets p"] by (auto simp: pool_ok_def)
  then have "None \<in> set (buckets p)" by (auto simp: filter_empty_conv)
  then show ?thesis using that by (auto simp: in_set_conv_nth no_string_def)
qed

lemma interned_content: "interned h p s = Some a \<Longrightarrow> h a = Some s"
  by (auto simp: interned_def load_def bind_eq_Some_conv split: option.splits elim!: slot_ofE)

lemma pool_add:
  assumes p: "pool_ok h p" and fresh: "h a = None"
    and absent: "slot_of (load h) (buckets p) s = None"
    and e: "e < length (buckets p)" "i = probe_at str_hash (buckets p) s e"
      "\<forall>j<e. \<not> no_string (buckets p ! probe_at str_hash (buckets p) s j)" "buckets p ! i = None"
  defines "p' \<equiv> p\<lparr>buckets := (buckets p)[i := Some a], pool_count := pool_count p + 1\<rparr>"
  shows "pool_ok (h(a \<mapsto> s)) p'" "interned (h(a \<mapsto> s)) p' = (interned h p)(s \<mapsto> a)"
proof -
  let ?h = "h(a \<mapsto> s)"
  have same: "load h b = load ?h b" if "b \<in> set (buckets p)" for b
  proof (cases b)
    case (Some x)
    then have "h x \<noteq> None" using that p unfolding pool_ok_def by blast
    then show ?thesis using Some fresh by (cases "x = a") (simp_all add: heap_simps)
  qed (simp add: heap_simps)
  have wf: "searchable str_hash no_string (load ?h) (buckets p)"
    using p searchable_cong [of "buckets p" "load h" "load ?h" str_hash no_string, OF same]
    by (simp add: pool_ok_def)
  have abs: "slot_of (load ?h) (buckets p) = slot_of (load h) (buckets p)"
    using slot_of_cong [of "buckets p" "load h" "load ?h", OF same] by simp
  have ne: "buckets p \<noteq> []" using e(1) by auto
  then have i: "i < length (buckets p)" using e(2) by simp
  note pl = strpool.place [OF wf _ e(1,3), where s = "Some a", folded e(2), unfolded abs, OF absent]
  have pl1: "searchable str_hash no_string (load ?h) ((buckets p)[i := Some a])"
    and pl2: "slot_of (load ?h) ((buckets p)[i := Some a]) = (slot_of (load h) (buckets p))(s \<mapsto> Some a)"
    using pl e(4) by (simp_all add: heap_simps)
  have "\<forall>x. Some x \<in> set ((buckets p)[i := Some a]) \<longrightarrow> ?h x \<noteq> None"
    using p set_update_subset_insert [of "buckets p" i "Some a"] by (auto simp: pool_ok_def)
  moreover have "length (filter (\<lambda>b. b \<noteq> None) ((buckets p)[i := Some a])) = pool_count p + 1"
    using count_update [OF i, of "\<lambda>b. b \<noteq> None" "Some a"] p e(4) by (simp add: pool_ok_def)
  ultimately show "pool_ok ?h p'"
    using p pl1 by (simp add: p'_def pool_ok_def)
  show "interned ?h p' = (interned h p)(s \<mapsto> a)"
    by (rule ext) (simp add: interned_def p'_def pl2)
qed

lemma pool_intern_spec:
  assumes p: "pool_ok h p" and m: "malloc_ok m h"
  shows "\<exists>r p' h'. pool_intern m (Some p) (Some s) h = Some (r, Some p', h') \<and> pool_ok h' p' \<and>
     pool_capacity p' = pool_capacity p \<and>
     (if pool_capacity p \<le> pool_count p then r = None \<and> p' = p \<and> h' = h
      else case interned h p s of
        Some a \<Rightarrow> r = Some a \<and> p' = p \<and> h' = h
      | None \<Rightarrow> (case m of None \<Rightarrow> r = None \<and> p' = p \<and> h' = h
          | Some (a, _) \<Rightarrow> r = Some a \<and> h' = h(a \<mapsto> s) \<and> pool_count p' = pool_count p + 1 \<and>
              interned h' p' = (interned h p)(s \<mapsto> a)))"
proof (cases "pool_capacity p \<le> pool_count p")
  case True
  then show ?thesis using p by (simp add: pool_intern_def)
next
  case False
  then have room: "pool_count p < pool_capacity p" by simp
  obtain i where i: "i < length (buckets p)" "no_string (buckets p ! i)"
    using room_in_pool [OF p room] .
  have "unat (fnv1a s) mod pool_capacity p = probe_at str_hash (buckets p) s 0"
    using p by (simp add: probe_at_def str_hash_def pool_ok_def)
  with pool_probe_spec [OF p i, of 0, OF _ refl] obtain r
    where r: "pool_probe h p s (unat (fnv1a s) mod pool_capacity p) = Some r"
      "case r of Interned a \<Rightarrow> interned h p s = Some a
      | FreeBucket i \<Rightarrow> slot_of (load h) (buckets p) s = None \<and> (\<exists>e<length (buckets p).
          i = probe_at str_hash (buckets p) s e \<and>
          (\<forall>j<e. \<not> no_string (buckets p ! probe_at str_hash (buckets p) s j)) \<and> buckets p ! i = None)"
    using i by force
  show ?thesis
  proof (cases r)
    case (Interned a)
    then show ?thesis using r p room by (simp add: pool_intern_def)
  next
    case (FreeBucket j)
    then obtain e where e: "slot_of (load h) (buckets p) s = None" "e < length (buckets p)"
      "j = probe_at str_hash (buckets p) s e"
      "\<forall>j<e. \<not> no_string (buckets p ! probe_at str_hash (buckets p) s j)" "buckets p ! j = None"
      using r(2) by auto
    have none: "interned h p s = None" by (simp add: interned_def e(1))
    show ?thesis
    proof (cases m)
      case None
      then show ?thesis using r(1) FreeBucket none p room by (simp add: pool_intern_def)
    next
      case (Some aj)
      obtain a junk where aj: "aj = (a, junk)" by (cases aj)
      then have "h a = None" using m Some by (simp add: heap_simps)
      from pool_add [OF p this e] show ?thesis
        using r(1) FreeBucket none room Some aj by (simp add: pool_intern_def)
    qed
  qed
qed

text \<open>C26: Interning a string in a pool with room always ends: it returns the pointer of the one
  copy the pool holds of it, making the copy if there was none, so two strings get the same pointer
  exactly when they are equal. A full pool and a failed allocation give \<^verbatim>\<open>NULL\<close> and change nothing.\<close>

theorem pool_intern_canonical:
  assumes p: "pool_ok h p" and m: "malloc_ok m h"
  shows "\<exists>r p' h'. pool_intern m (Some p) (Some s) h = Some (r, Some p', h') \<and> pool_ok h' p' \<and>
     pool_capacity p' = pool_capacity p \<and>
     (if pool_capacity p \<le> pool_count p then r = None \<and> p' = p \<and> h' = h
      else case interned h p s of
        Some a \<Rightarrow> r = Some a \<and> p' = p \<and> h' = h
      | None \<Rightarrow> (case m of None \<Rightarrow> r = None \<and> p' = p \<and> h' = h
          | Some (a, _) \<Rightarrow> r = Some a \<and> h' = h(a \<mapsto> s) \<and> pool_count p' = pool_count p + 1 \<and>
              interned h' p' = (interned h p)(s \<mapsto> a)))"
  by (rule pool_intern_spec [OF p m])

lemma free_all_spec:
  assumes "\<forall>a. Some a \<in> set bs \<longrightarrow> h a \<noteq> None" "distinct (filter (\<lambda>b. b \<noteq> None) bs)"
  shows "free_all bs h = Some (h |` (- {a. Some a \<in> set bs}))"
  using assms
proof (induction bs arbitrary: h)
  case Nil
  then show ?case by (simp add: restrict_map_def)
next
  case (Cons b bs)
  show ?case
  proof (cases b)
    case None
    then show ?thesis using Cons by (simp add: heap_simps)
  next
    case (Some a)
    then obtain s where s: "h a = Some s" using Cons.prems by auto
    have "Some a \<notin> set bs" using Cons.prems(2) Some by simp
    then have "\<forall>x. Some x \<in> set bs \<longrightarrow> (h(a := None)) x \<noteq> None" using Cons.prems(1) by auto
    then have "free_all bs (h(a := None)) = Some ((h(a := None)) |` (- {x. Some x \<in> set bs}))"
      using Cons.prems(2) Some by (intro Cons.IH) (simp_all del: fun_upd_apply)
    moreover have "(h(a := None)) |` (- {x. Some x \<in> set bs}) = h |` (- {x. Some x \<in> set (b # bs)})"
      using Some by (auto simp: restrict_map_def)
    ultimately show ?thesis using Some s by (simp add: heap_simps)
  qed
qed

lemma pool_distinct:
  assumes p: "pool_ok h p"
  shows "distinct (filter (\<lambda>b. b \<noteq> None) (buckets p))"
proof -
  have wf: "searchable str_hash no_string (load h) (buckets p)" using p by (simp add: pool_ok_def)
  have "i = j" if "i < length (buckets p)" "j < length (buckets p)" "buckets p ! i = Some a" "buckets p ! j = Some a" for i j a
  proof -
    have "Some a \<in> set (buckets p)" using that by (metis nth_mem)
    then obtain s where "h a = Some s" using p by (auto simp: pool_ok_def)
    then show ?thesis using searchable_unique [OF wf that(1,2)] that(3,4) by (simp add: heap_simps)
  qed
  then show ?thesis by (intro distinct_filterI) (metis option.exhaust)
qed

lemma ran_interned:
  assumes p: "pool_ok h p"
  shows "ran (interned h p) = {a. Some a \<in> set (buckets p)}"
proof (intro set_eqI iffI)
  fix a
  assume "a \<in> ran (interned h p)"
  then obtain s where "slot_of (load h) (buckets p) s = Some (Some a)"
    by (auto simp: ran_def interned_def bind_eq_Some_conv)
  then show "a \<in> {a. Some a \<in> set (buckets p)}" by (metis mem_Collect_eq nth_mem slot_ofE)
next
  fix a
  assume a: "a \<in> {a. Some a \<in> set (buckets p)}"
  then obtain i where i: "i < length (buckets p)" "buckets p ! i = Some a" by (auto simp: in_set_conv_nth)
  obtain s where "h a = Some s" using a p by (auto simp: pool_ok_def)
  then have "slot_of (load h) (buckets p) s = Some (Some a)"
    using strpool.find_unique [of h "buckets p" i s] p i by (simp add: pool_ok_def heap_simps)
  then have "interned h p s = Some a" by (simp add: interned_def)
  then show "a \<in> ran (interned h p)" by (rule ranI)
qed

lemma pool_destroy_spec:
  assumes p: "pool_ok h p"
  shows "pool_destroy (Some p) h = Some (h |` (- ran (interned h p)))"
  using free_all_spec [of "buckets p" h, OF _ pool_distinct [OF p]] p
  by (simp add: pool_destroy_def pool_ok_def ran_interned)

lemma pool_create_ok:
  fixes n :: nat
  assumes "0 < n"
  defines "p \<equiv> \<lparr>buckets = replicate n None, pool_capacity = n, pool_count = 0\<rparr>"
  shows "pool_ok h p" "interned h p = Map.empty"
proof -
  have none: "slot_of (load h) (replicate n None) s = None" for s :: "u8 list"
    by (simp add: slot_of_None heap_simps)
  show "pool_ok h p" using assms by (simp add: pool_ok_def searchable_def p_def heap_simps)
  show "interned h p = Map.empty" by (rule ext) (simp add: interned_def p_def none)
qed

lemma pool_intern_new:
  assumes "pool_ok h p" "pool_count p < pool_capacity p" "interned h p s = None" "m = Some (a, j)" "h a = None"
  obtains p' where "pool_intern m (Some p) (Some s) h = Some (Some a, Some p', h(a \<mapsto> s))"
    "pool_ok (h(a \<mapsto> s)) p'" "interned (h(a \<mapsto> s)) p' = (interned h p)(s \<mapsto> a)"
    "pool_count p' = pool_count p + 1" "pool_capacity p' = pool_capacity p"
  using pool_intern_spec [OF assms(1), of m s] assms(2-)
  by (auto simp: heap_simps simp del: fun_upd_apply)

lemma pool_intern_old:
  assumes "pool_ok h p" "pool_count p < pool_capacity p" "interned h p s = Some a"
  shows "pool_intern m (Some p) (Some s) h = Some (Some a, Some p, h)"
proof -
  have "pool_intern None (Some p) (Some s) h = Some (Some a, Some p, h)"
    using pool_intern_spec [OF assms(1), of None s] assms(2-) by (auto simp: malloc_ok_def)
  then show ?thesis using assms(2) by (auto simp: pool_intern_def split: option.splits bucket_result.splits)
qed

text \<open>The demonstration program interns "hello" twice and "world" once: the two pointers for
  "hello" are equal, the strings read back are right, and destroying the pool frees every copy.\<close>

theorem pool_main_output:
  assumes alloc: "malloc_serves alloc (card (dom h) + 2)" and fin: "finite (dom h)"
  shows "pool_main alloc h = Some (True, Some [104, 101, 108, 108, 111], Some [104, 101, 108, 108, 111],
    Some [119, 111, 114, 108, 100], h)"
proof -
  let ?hello = "[104, 101, 108, 108, 111] :: u8 list" and ?world = "[119, 111, 114, 108, 100] :: u8 list"
  let ?p = "\<lparr>buckets = replicate 16 None, pool_capacity = 16, pool_count = 0\<rparr>"
  have p: "pool_ok h ?p" "interned h ?p = Map.empty" using pool_create_ok [of 16 h] by simp_all
  obtain a ja where a: "alloc h = Some (a, ja)" "h a = None"
    using malloc_servesD [OF alloc fin] by auto
  define h1 where "h1 = h(a \<mapsto> ?hello)"
  obtain p1 where p1: "pool_intern (alloc h) (Some ?p) (Some ?hello) h = Some (Some a, Some p1, h1)"
    "pool_ok h1 p1" "interned h1 p1 = [?hello \<mapsto> a]" "pool_count p1 = 1" "pool_capacity p1 = 16"
    by (rule pool_intern_new [OF p(1) _ _ a, of ?hello]) (simp_all add: p(2) h1_def)
  have "finite (dom h1)" "card (dom h1) < card (dom h) + 2"
    using fin a(2) by (simp_all add: card_insert_if domIff h1_def)
  then obtain b jb where b: "alloc h1 = Some (b, jb)" "h1 b = None"
    by (rule malloc_servesD [OF alloc])
  define h2 where "h2 = h1(b \<mapsto> ?world)"
  obtain p2 where p2: "pool_intern (alloc h1) (Some p1) (Some ?world) h1 = Some (Some b, Some p2, h2)"
    "pool_ok h2 p2" "interned h2 p2 = [?hello \<mapsto> a, ?world \<mapsto> b]"
    "pool_count p2 = 2" "pool_capacity p2 = 16"
    by (rule pool_intern_new [OF p1(2) _ _ b, of ?world]) (simp_all add: p1(3-5) h2_def)
  have p3: "pool_intern m (Some p2) (Some ?hello) h2 = Some (Some a, Some p2, h2)" for m
    by (rule pool_intern_old [OF p2(2)]) (simp_all add: p2(3-5))
  have ab: "a \<noteq> b" using b(2) by (auto simp: h1_def)
  have "ran [?hello \<mapsto> a, ?world \<mapsto> b] = {b, a}" by simp
  then have "pool_destroy (Some p2) h2 = Some (h2 |` (- {b, a}))"
    using pool_destroy_spec [OF p2(2)] p2(3) by simp
  moreover have "h2 |` (- {b, a}) = h"
    using a(2) b(2) ab by (intro ext) (simp add: restrict_map_def h1_def h2_def)
  moreover have "load h2 (Some a) = Some ?hello" "load h2 (Some b) = Some ?world"
    using ab by (simp_all add: heap_simps h1_def h2_def)
  ultimately show ?thesis using p1(1) p2(1) p3
    by (simp add: pool_main_def pool_create_def Let_def)
qed

lemma pool_main_output_witness:
  "pool_main (first_free 2 []) Map.empty =
     Some (True, Some [104, 101, 108, 108, 111], Some [104, 101, 108, 108, 111],
           Some [119, 111, 114, 108, 100], Map.empty)"
  using pool_main_output [of "first_free 2 []" Map.empty] malloc_serves_first_free [of 2 "[]"]
  by (simp add: numeral_2_eq_2)

lemma pool_intern_canonical_witness:
  "\<exists>p' h'. pool_intern (Some (5, [])) (Some \<lparr>buckets = replicate 4 None, pool_capacity = 4, pool_count = 0\<rparr>)
     (Some [65]) Map.empty = Some (Some 5, Some p', h') \<and> interned h' p' [65] = Some 5"
  using pool_intern_canonical [OF pool_create_ok(1) [of 4 Map.empty], of "Some (5, [])" "[65]"]
    pool_create_ok(2) [of 4 Map.empty]
  by (auto simp: heap_simps)

end
