(* ===== verification/Free_List.thy ===== *)
theory Free_List
  imports Linked_Lists
begin

unbundle bit_operations_syntax

text \<open>
  The first-fit allocator of \<^verbatim>\<open>Phase-1/Day23/C/freelist.c\<close>: a pool of 1024 bytes, blocks with a
  16-byte header, an address-ordered free list, splitting and coalescing.

  \<open>mp\<close> is the address of \<^verbatim>\<open>memory_pool\<close>. The state holds the headers written so far, by address
  (a block keeps its header while it is allocated, and a merged block leaves its old header in
  memory, as in C), and the head of the free list. Reading an address where no header was ever
  written, or writing a header outside the pool, is undefined (\<open>None\<close>). Sizes inside the pool
  are at most 1024 and are natural numbers; the requested size is a 64-bit word, because its
  rounding can wrap.
\<close>

definition POOL_SIZE :: nat where
  "POOL_SIZE = 1024"

definition HDR :: nat where  \<comment> \<open>\<^verbatim>\<open>sizeof(FreeBlock)\<close>\<close>
  "HDR = 16"

definition MAX_ALIGN :: nat where  \<comment> \<open>\<^verbatim>\<open>alignof(max_align_t)\<close>\<close>
  "MAX_ALIGN = 16"

record FreeBlock =
  fb_size :: nat
  fb_next :: ptr

record pool_state =
  headers :: "FreeBlock heap"
  free_list :: ptr

definition align_up :: "u64 \<Rightarrow> u64" where
  "align_up sz = (sz + word_of_nat MAX_ALIGN - 1) AND NOT (word_of_nat MAX_ALIGN - 1)"

definition ptr_in_pool :: "nat \<Rightarrow> addr \<Rightarrow> bool" where
  "ptr_in_pool mp p \<longleftrightarrow> mp \<le> p \<and> p < mp + POOL_SIZE"

text \<open>Writing a whole header into the pool.\<close>

definition put_header :: "nat \<Rightarrow> addr \<Rightarrow> FreeBlock \<Rightarrow> pool_state \<Rightarrow> pool_state option" where
  "put_header mp a b st =
     (if mp \<le> a \<and> a + HDR \<le> mp + POOL_SIZE then Some (st\<lparr>headers := (headers st)(a \<mapsto> b)\<rparr>)
      else None)"

definition free_list_init :: "nat \<Rightarrow> pool_state \<Rightarrow> pool_state option" where
  "free_list_init mp st =
     put_header mp mp \<lparr>fb_size = POOL_SIZE - HDR, fb_next = None\<rparr> (st\<lparr>free_list := Some mp\<rparr>)"

text \<open>\<^verbatim>\<open>if (previous != NULL) previous->next = p; else free_list = p;\<close>\<close>

definition set_link :: "ptr \<Rightarrow> ptr \<Rightarrow> pool_state \<Rightarrow> pool_state option" where
  "set_link previous p st =
     (case previous of
        None \<Rightarrow> Some (st\<lparr>free_list := p\<rparr>)
      | Some _ \<Rightarrow> map_option (\<lambda>h. st\<lparr>headers := h\<rparr>)
                    (store previous (fb_next_update (\<lambda>_. p)) (headers st)))"

definition set_size :: "addr \<Rightarrow> nat \<Rightarrow> pool_state \<Rightarrow> pool_state option" where
  "set_size a n st =
     map_option (\<lambda>h. st\<lparr>headers := h\<rparr>) (store (Some a) (fb_size_update (\<lambda>_. n)) (headers st))"

definition take_block ::
  "nat \<Rightarrow> nat \<Rightarrow> addr \<Rightarrow> FreeBlock \<Rightarrow> ptr \<Rightarrow> pool_state \<Rightarrow> (ptr \<times> pool_state) option" where
  "take_block mp n current b previous st =
     (let remaining = fb_size b - n in
      if HDR + MAX_ALIGN \<le> remaining then do {
        let new_block = current + HDR + n;
        st \<leftarrow> put_header mp new_block \<lparr>fb_size = remaining - HDR, fb_next = fb_next b\<rparr> st;
        st \<leftarrow> set_link previous (Some new_block) st;
        st \<leftarrow> set_size current n st;
        Some (Some (current + HDR), st)
      }
      else do {
        st \<leftarrow> set_link previous (fb_next b) st;
        Some (Some (current + HDR), st)
      })"

partial_function (option) alloc_loop ::
  "nat \<Rightarrow> nat \<Rightarrow> ptr \<Rightarrow> ptr \<Rightarrow> pool_state \<Rightarrow> (ptr \<times> pool_state) option" where
  "alloc_loop mp n current previous st =
     (case current of
        None \<Rightarrow> Some (None, st)
      | Some c \<Rightarrow>
          (case headers st c of
             None \<Rightarrow> None
           | Some b \<Rightarrow>
               if n \<le> fb_size b then take_block mp n c b previous st
               else alloc_loop mp n (fb_next b) (Some c) st))"

definition free_list_alloc :: "nat \<Rightarrow> u64 \<Rightarrow> pool_state \<Rightarrow> (ptr \<times> pool_state) option" where
  "free_list_alloc mp requested_size st =
     (if requested_size = 0 then Some (None, st)
      else alloc_loop mp (unat (align_up requested_size)) (free_list st) None st)"

partial_function (option) insert_walk ::
  "addr \<Rightarrow> ptr \<Rightarrow> ptr \<Rightarrow> pool_state \<Rightarrow> (ptr \<times> ptr) option" where
  "insert_walk block current previous st =
     (case current of
        None \<Rightarrow> Some (current, previous)
      | Some c \<Rightarrow>
          if c < block then
            (case headers st c of
               None \<Rightarrow> None
             | Some b \<Rightarrow> insert_walk block (fb_next b) (Some c) st)
          else Some (current, previous))"

definition insert_free_block :: "addr \<Rightarrow> pool_state \<Rightarrow> pool_state option" where
  "insert_free_block block st = do {
     (current, previous) \<leftarrow> insert_walk block (free_list st) None st;
     h \<leftarrow> store (Some block) (fb_next_update (\<lambda>_. current)) (headers st);
     set_link previous (Some block) (st\<lparr>headers := h\<rparr>)
   }"

partial_function (option) coalesce_loop :: "ptr \<Rightarrow> FreeBlock heap \<Rightarrow> FreeBlock heap option" where
  "coalesce_loop current h =
     (case current of
        None \<Rightarrow> Some h
      | Some c \<Rightarrow>
          (case h c of
             None \<Rightarrow> None
           | Some b \<Rightarrow>
               (case fb_next b of
                  None \<Rightarrow> Some h
                | Some nx \<Rightarrow>
                    if c + HDR + fb_size b = nx then
                      (case h nx of
                         None \<Rightarrow> None
                       | Some b' \<Rightarrow>
                           coalesce_loop current
                             (h(c \<mapsto> \<lparr>fb_size = fb_size b + (HDR + fb_size b'),
                                       fb_next = fb_next b'\<rparr>)))
                    else coalesce_loop (Some nx) h)))"

definition coalesce :: "pool_state \<Rightarrow> pool_state option" where
  "coalesce st = map_option (\<lambda>h. st\<lparr>headers := h\<rparr>) (coalesce_loop (free_list st) (headers st))"

partial_function (option) already_free_loop :: "addr \<Rightarrow> ptr \<Rightarrow> FreeBlock heap \<Rightarrow> bool option" where
  "already_free_loop block current h =
     (case current of
        None \<Rightarrow> Some False
      | Some c \<Rightarrow>
          if c = block then Some True
          else (case h c of
                  None \<Rightarrow> None
                | Some b \<Rightarrow> already_free_loop block (fb_next b) h))"

definition is_already_free :: "addr \<Rightarrow> pool_state \<Rightarrow> bool option" where
  "is_already_free block st = already_free_loop block (free_list st) (headers st)"

datatype free_error = OutsidePool | InvalidPointer | InvalidBlock | DoubleFree

text \<open>The message on \<^verbatim>\<open>stderr\<close> is returned with the result.\<close>

definition free_list_free ::
  "nat \<Rightarrow> ptr \<Rightarrow> pool_state \<Rightarrow> (bool \<times> free_error option \<times> pool_state) option" where
  "free_list_free mp p st =
     (case p of
        None \<Rightarrow> Some (True, None, st)
      | Some q \<Rightarrow>
          if \<not> ptr_in_pool mp q then Some (False, Some OutsidePool, st)
          else if q < mp + HDR then Some (False, Some InvalidPointer, st)
          else
            (let block = q - HDR in
             if \<not> ptr_in_pool mp block then Some (False, Some InvalidBlock, st)
             else do {
               already \<leftarrow> is_already_free block st;
               if already then Some (False, Some DoubleFree, st)
               else do {
                 st \<leftarrow> insert_free_block block st;
                 st \<leftarrow> coalesce st;
                 Some (True, None, st)
               }
             }))"

partial_function (option) dump_loop :: "ptr \<Rightarrow> FreeBlock heap \<Rightarrow> (addr \<times> nat) list \<Rightarrow> (addr \<times> nat) list option" where
  "dump_loop current h out =
     (case current of
        None \<Rightarrow> Some out
      | Some c \<Rightarrow>
          (case h c of
             None \<Rightarrow> None
           | Some b \<Rightarrow> dump_loop (fb_next b) h (out @ [(c, fb_size b)])))"

definition free_list_dump :: "pool_state \<Rightarrow> (addr \<times> nat) list option" where
  "free_list_dump st = dump_loop (free_list st) (headers st) []"

text \<open>
  \<^verbatim>\<open>main\<close> up to its own output: the three dumps, the two values read back through the pointers
  (they lie in payloads, which hold what was stored), whether the double free was rejected.
\<close>

definition freelist_main ::
  "nat \<Rightarrow> pool_state \<Rightarrow> ((addr \<times> nat) list \<times> ((addr \<times> nat) list \<times> (addr \<times> nat) list \<times> bool) option) option" where
  "freelist_main mp st = do {
     st \<leftarrow> free_list_init mp st;
     d0 \<leftarrow> free_list_dump st;
     (a, st) \<leftarrow> free_list_alloc mp 4 st;
     (b, st) \<leftarrow> free_list_alloc mp 4 st;
     (buffer, st) \<leftarrow> free_list_alloc mp 101 st;
     if a = None \<or> b = None \<or> buffer = None then Some (d0, None)
     else do {
       d1 \<leftarrow> free_list_dump st;
       (_, _, st) \<leftarrow> free_list_free mp a st;
       (_, _, st) \<leftarrow> free_list_free mp b st;
       (_, _, st) \<leftarrow> free_list_free mp buffer st;
       d2 \<leftarrow> free_list_dump st;
       (r, _, st) \<leftarrow> free_list_free mp a st;
       Some (d0, Some (d1, d2, \<not> r))
     }
   }"

subsection \<open>The layout of the pool\<close>

text \<open>
  The abstract state is the list of the blocks that tile the pool, in address order.
  \<open>fl_rep mp st bs\<close>: the headers hold the sizes, and the free list links exactly the free
  blocks, in order.
\<close>

record blk =
  bstart :: nat
  bsize :: nat
  bfree :: bool

definition bend :: "blk \<Rightarrow> nat" where
  "bend b = bstart b + HDR + bsize b"

fun tiled :: "nat \<Rightarrow> blk list \<Rightarrow> nat \<Rightarrow> bool" where
  "tiled a [] e \<longleftrightarrow> a = e"
| "tiled a (b # bs) e \<longleftrightarrow> bstart b = a \<and> tiled (bend b) bs e"

definition frees :: "blk list \<Rightarrow> addr list" where
  "frees bs = map bstart (filter bfree bs)"

definition sized :: "FreeBlock heap \<Rightarrow> blk list \<Rightarrow> bool" where
  "sized h bs \<longleftrightarrow> (\<forall>b\<in>set bs. map_option fb_size (h (bstart b)) = Some (bsize b) \<and> MAX_ALIGN dvd bsize b \<and> 0 < bsize b)"

definition fl_rep :: "nat \<Rightarrow> pool_state \<Rightarrow> blk list \<Rightarrow> bool" where
  "fl_rep mp st bs \<longleftrightarrow> tiled mp bs (mp + POOL_SIZE) \<and> sized (headers st) bs \<and>
     chain fb_next (headers st) (free_list st) (frees bs) None"

lemma frees_simps [simp]:
  "frees [] = []" "frees (b # bs) = (if bfree b then [bstart b] else []) @ frees bs"
  "frees (us @ vs) = frees us @ frees vs"
  by (simp_all add: frees_def)

lemma tiled_append: "tiled a (us @ vs) e \<longleftrightarrow> (\<exists>m. tiled a us m \<and> tiled m vs e)"
  by (induction us arbitrary: a) auto

lemma tiled_le: "tiled a bs e \<Longrightarrow> a \<le> e"
  by (induction bs arbitrary: a) (auto simp: bend_def HDR_def, fastforce)

lemma tiled_bounds: "tiled a bs e \<Longrightarrow> b \<in> set bs \<Longrightarrow> a \<le> bstart b \<and> bend b \<le> e"
proof (induction bs arbitrary: a)
  case (Cons c bs)
  then show ?case using tiled_le [of "bend c" bs e] by (force simp: bend_def)
qed simp

lemma sized_append [simp]: "sized h (us @ vs) \<longleftrightarrow> sized h us \<and> sized h vs"
  by (auto simp: sized_def)

lemma sized_Cons: "sized h (b # bs) \<longleftrightarrow> map_option fb_size (h (bstart b)) = Some (bsize b) \<and> MAX_ALIGN dvd bsize b \<and> 0 < bsize b \<and> sized h bs"
  by (auto simp: sized_def)

lemma sized_cong: "(\<And>b. b \<in> set bs \<Longrightarrow> map_option fb_size (h' (bstart b)) = map_option fb_size (h (bstart b))) \<Longrightarrow> sized h' bs = sized h bs"
  by (auto simp: sized_def)

lemma set_frees: "set (frees bs) = bstart ` {b \<in> set bs. bfree b}"
  by (auto simp: frees_def)

text \<open>The assignment through \<open>previous\<close> redirects the end of the chain prefix before it.\<close>

lemma set_link_chain:
  assumes c: "chain fb_next (headers st) (free_list st) xs r" and d: "distinct xs"
  obtains st' where "set_link (last_ptr xs None) p st = Some st'"
    "chain fb_next (headers st') (free_list st') xs p"
    "\<And>a. map_option fb_size (headers st' a) = map_option fb_size (headers st a)"
    "\<And>a. a \<notin> set xs \<Longrightarrow> headers st' a = headers st a"
proof (cases xs rule: rev_cases)
  case Nil
  show ?thesis by (rule that [of "st\<lparr>free_list := p\<rparr>"]) (simp_all add: Nil set_link_def)
next
  case (snoc ys y)
  then obtain b where b: "headers st y = Some b" using c by (auto simp: chain_append)
  let ?h = "(headers st)(y \<mapsto> b\<lparr>fb_next := p\<rparr>)"
  show ?thesis
  proof (rule that [of "st\<lparr>headers := ?h\<rparr>"])
    show "chain fb_next (headers (st\<lparr>headers := ?h\<rparr>)) (free_list (st\<lparr>headers := ?h\<rparr>)) xs p"
      using c d b snoc by (auto simp: chain_append)
  qed (use b snoc in \<open>simp_all add: set_link_def heap_simps\<close>)
qed

lemma take_block_spec:
  assumes rep: "fl_rep mp st (us @ b # vs)" and free: "bfree b" and n: "n \<le> bsize b" "MAX_ALIGN dvd n" "0 < n"
    and hb: "headers st (bstart b) = Some hb"
  defines "repl \<equiv> if HDR + MAX_ALIGN \<le> bsize b - n
      then [\<lparr>bstart = bstart b, bsize = n, bfree = False\<rparr>,
            \<lparr>bstart = bstart b + HDR + n, bsize = bsize b - n - HDR, bfree = True\<rparr>]
      else [b\<lparr>bfree := False\<rparr>]"
  shows "\<exists>st'. take_block mp n (bstart b) hb (last_ptr (frees us) None) st = Some (Some (bstart b + HDR), st') \<and>
     fl_rep mp st' (us @ repl @ vs)"
proof -
  let ?h = "headers st"
  have tile: "tiled mp us (bstart b)" "tiled (bend b) vs (mp + POOL_SIZE)"
    using rep by (auto simp: fl_rep_def tiled_append)
  have sz: "sized ?h us" "sized ?h vs" "fb_size hb = bsize b" "MAX_ALIGN dvd bsize b" "0 < bsize b"
    using rep hb by (auto simp: fl_rep_def sized_Cons)
  have ch: "chain fb_next ?h (free_list st) (frees us @ bstart b # frees vs) None"
    using rep free by (simp add: fl_rep_def)
  then have ch1: "chain fb_next ?h (free_list st) (frees us) (Some (bstart b))"
    and ch2: "chain fb_next ?h (fb_next hb) (frees vs) None"
    using hb by (auto simp: chain_append)
  have dist: "distinct (frees us @ bstart b # frees vs)" by (rule chain_distinct [OF ch])
  have below: "bend c \<le> bstart b" if "c \<in> set us" for c using tiled_bounds [OF tile(1) that] by simp
  have above: "bend b \<le> bstart c" if "c \<in> set vs" for c using tiled_bounds [OF tile(2) that] by simp
  have low: "mp \<le> bstart b" and high: "bend b \<le> mp + POOL_SIZE" using tiled_le [OF tile(1)] tiled_le [OF tile(2)] by auto
  show ?thesis
  proof (cases "HDR + MAX_ALIGN \<le> bsize b - n")
    case False
    obtain st' where st': "set_link (last_ptr (frees us) None) (fb_next hb) st = Some st'"
      "chain fb_next (headers st') (free_list st') (frees us) (fb_next hb)"
      "\<And>a. map_option fb_size (headers st' a) = map_option fb_size (headers st a)"
      "\<And>a. a \<notin> set (frees us) \<Longrightarrow> headers st' a = headers st a"
      using set_link_chain [OF ch1] dist by (metis distinct_append)
    have "headers st' x = ?h x" if "x \<in> set (frees vs)" for x
      using that dist st'(4) [of x] by auto
    then have "chain fb_next (headers st') (fb_next hb) (frees vs) None"
      using ch2 chain_cong [of "frees vs" fb_next "headers st'" ?h] by simp
    then have "fl_rep mp st' (us @ repl @ vs)"
      using st'(2) False tile sz(1,2) sz(3-5) hb sized_cong [of _ "headers st'" ?h] st'(3)
      by (auto simp: fl_rep_def repl_def tiled_append chain_append bend_def sized_Cons)
    then show ?thesis using st'(1) False sz(3) by (simp add: take_block_def)
  next
    case True
    define new where "new = bstart b + HDR + n"
    have new: "bstart b < new" "new < bend b" "mp \<le> new" "new + HDR \<le> mp + POOL_SIZE"
      using True low high n by (auto simp: new_def bend_def HDR_def MAX_ALIGN_def)
    have newus: "bstart c \<noteq> new" if "c \<in> set us" for c using below [OF that] new by (auto simp: bend_def)
    have newvs: "bstart c \<noteq> new" if "c \<in> set vs" for c using above [OF that] new by auto
    have bus: "bstart c \<noteq> bstart b" if "c \<in> set us" for c using below [OF that] by (auto simp: bend_def HDR_def)
    have bvs: "bstart c \<noteq> bstart b" if "c \<in> set vs" for c using above [OF that] by (auto simp: bend_def HDR_def)
    have newf: "new \<notin> set (frees us)" "new \<notin> set (frees vs)" using newus newvs by (auto simp: set_frees)
    let ?hn = "\<lparr>fb_size = bsize b - n - HDR, fb_next = fb_next hb\<rparr>"
    let ?st1 = "st\<lparr>headers := ?h(new \<mapsto> ?hn)\<rparr>"
    have "chain fb_next (headers ?st1) (free_list ?st1) (frees us) (Some (bstart b))" using ch1 newf by simp
    from set_link_chain [OF this] dist
    obtain st2 where st2: "set_link (last_ptr (frees us) None) (Some new) ?st1 = Some st2"
      "chain fb_next (headers st2) (free_list st2) (frees us) (Some new)"
      "\<And>a. map_option fb_size (headers st2 a) = map_option fb_size (headers ?st1 a)"
      "\<And>a. a \<notin> set (frees us) \<Longrightarrow> headers st2 a = headers ?st1 a"
      by (metis distinct_append)
    have b2: "headers st2 (bstart b) = Some hb" using st2(4) [of "bstart b"] dist hb new by simp
    let ?st3 = "st2\<lparr>headers := (headers st2)(bstart b \<mapsto> hb\<lparr>fb_size := n\<rparr>)\<rparr>"
    have tb: "take_block mp n (bstart b) hb (last_ptr (frees us) None) st = Some (Some (bstart b + HDR), ?st3)"
      using True sz(3) new st2(1) b2 by (simp add: take_block_def put_header_def new_def [symmetric] set_size_def heap_simps)
    have h3: "headers ?st3 new = Some ?hn" using st2(4) [of new] newf new by simp
    have c1: "chain fb_next (headers ?st3) (free_list ?st3) (frees us) (Some new)"
      using st2(2) dist by simp
    have c2: "chain fb_next (headers ?st3) (fb_next hb) (frees vs) None"
    proof -
      have "headers ?st3 x = ?h x" if x: "x \<in> set (frees vs)" for x
      proof -
        have "x \<notin> set (frees us)" "x \<noteq> bstart b" "x \<noteq> new" using x dist newf by auto
        then show ?thesis using st2(4) [of x] by simp
      qed
      then show ?thesis using ch2 chain_cong [of "frees vs" fb_next "headers ?st3" ?h] by simp
    qed
    have same: "map_option fb_size (headers ?st3 x) = map_option fb_size (?h x)" if "x \<noteq> bstart b" "x \<noteq> new" for x
      using that st2(3) [of x] by simp
    have s1: "sized (headers ?st3) us" using sz(1) sized_cong [of us "headers ?st3" ?h] same newus bus by auto
    have s2: "sized (headers ?st3) vs" using sz(2) sized_cong [of vs "headers ?st3" ?h] same newvs bvs by auto
    have d: "MAX_ALIGN dvd bsize b - n - HDR" "0 < bsize b - n - HDR"
      using sz(4) n(2) True by (simp_all add: MAX_ALIGN_def HDR_def)
    have "fl_rep mp ?st3 (us @ repl @ vs)"
      unfolding fl_rep_def
    proof (intro conjI)
      show "tiled mp (us @ repl @ vs) (mp + POOL_SIZE)"
      proof -
        have "bend \<lparr>bstart = bstart b + HDR + n, bsize = bsize b - n - HDR, bfree = True\<rparr> = bend b"
          using True n(1) by (simp add: bend_def HDR_def MAX_ALIGN_def)
        moreover have "bend \<lparr>bstart = bstart b, bsize = n, bfree = False\<rparr> = bstart b + HDR + n"
          by (simp add: bend_def)
        ultimately show ?thesis using tile True by (auto simp: repl_def tiled_append)
      qed
      show "sized (headers ?st3) (us @ repl @ vs)"
        using s1 s2 True n(2,3) d h3 new by (simp add: repl_def sized_Cons new_def [symmetric])
      show "chain fb_next (headers ?st3) (free_list ?st3) (frees (us @ repl @ vs)) None"
        using c1 c2 h3 True by (auto simp: repl_def chain_append new_def [symmetric])
    qed
    then show ?thesis using tb by blast
  qed
qed

subsection \<open>Allocation is first fit\<close>

fun first_fit :: "nat \<Rightarrow> blk list \<Rightarrow> (addr \<times> blk list) option" where
  "first_fit n [] = None"
| "first_fit n (b # bs) =
     (if bfree b \<and> n \<le> bsize b then
        Some (bstart b,
          (if HDR + MAX_ALIGN \<le> bsize b - n
           then [\<lparr>bstart = bstart b, bsize = n, bfree = False\<rparr>,
                 \<lparr>bstart = bstart b + HDR + n, bsize = bsize b - n - HDR, bfree = True\<rparr>]
           else [b\<lparr>bfree := False\<rparr>]) @ bs)
      else map_option (\<lambda>(a, bs'). (a, b # bs')) (first_fit n bs))"

lemma alloc_loop_spec:
  assumes "fl_rep mp st (us @ vs)" "MAX_ALIGN dvd n" "0 < n"
  shows "case first_fit n vs of
      None \<Rightarrow> alloc_loop mp n (first_ptr (frees vs) None) (last_ptr (frees us) None) st = Some (None, st)
    | Some (a, vs') \<Rightarrow> \<exists>st'. alloc_loop mp n (first_ptr (frees vs) None) (last_ptr (frees us) None) st =
          Some (Some (a + HDR), st') \<and> fl_rep mp st' (us @ vs')"
  using assms(1)
proof (induction vs arbitrary: us)
  case Nil
  then show ?case by (simp add: alloc_loop.simps)
next
  case (Cons b vs)
  have IH: "case first_fit n vs of
      None \<Rightarrow> alloc_loop mp n (first_ptr (frees vs) None) (last_ptr (frees (us @ [b])) None) st = Some (None, st)
    | Some (a, vs') \<Rightarrow> \<exists>st'. alloc_loop mp n (first_ptr (frees vs) None) (last_ptr (frees (us @ [b])) None) st =
          Some (Some (a + HDR), st') \<and> fl_rep mp st' ((us @ [b]) @ vs')"
    using Cons.prems by (intro Cons.IH) simp
  show ?case
  proof (cases "bfree b")
    case False
    then show ?thesis using IH by (auto split: option.splits)
  next
    case True
    have "chain fb_next (headers st) (free_list st) (frees us @ bstart b # frees vs) None"
      using Cons.prems True by (simp add: fl_rep_def)
    then obtain hb where hb: "headers st (bstart b) = Some hb" "fb_next hb = first_ptr (frees vs) None"
      by (auto simp: chain_append dest: chain_first)
    have sz: "fb_size hb = bsize b" using Cons.prems hb(1) by (simp add: fl_rep_def sized_Cons)
    show ?thesis
    proof (cases "n \<le> bsize b")
      case fit: True
      have "alloc_loop mp n (Some (bstart b)) (last_ptr (frees us) None) st =
          take_block mp n (bstart b) hb (last_ptr (frees us) None) st"
        using hb(1) sz fit by (subst alloc_loop.simps) simp
      then show ?thesis using take_block_spec [OF Cons.prems True fit assms(2,3) hb(1)] True fit by simp
    next
      case False
      have "alloc_loop mp n (Some (bstart b)) (last_ptr (frees us) None) st =
          alloc_loop mp n (first_ptr (frees vs) None) (Some (bstart b)) st"
        using hb sz False by (subst alloc_loop.simps) simp
      then show ?thesis using IH True False by (auto split: option.splits)
    qed
  qed
qed

subsection \<open>Freeing and coalescing\<close>

lemma insert_walk_spec:
  assumes "chain fb_next (headers st) p (xs @ ys) None" "\<forall>x\<in>set xs. x < a" "\<forall>y\<in>set ys. a < y"
  shows "insert_walk a p prev st = Some (first_ptr ys None, last_ptr xs prev)"
  using assms
proof (induction xs arbitrary: p prev)
  case Nil
  then have "p = first_ptr ys None" by (auto dest: chain_first)
  then show ?case using Nil by (cases ys) (simp_all add: insert_walk.simps)
next
  case (Cons x xs)
  then obtain b where "p = Some x" "headers st x = Some b" "chain fb_next (headers st) (fb_next b) (xs @ ys) None"
    by auto
  then show ?case using Cons.IH Cons.prems(2,3) by (subst insert_walk.simps) simp
qed

lemma already_free_spec:
  assumes "chain fb_next h p xs None"
  shows "already_free_loop a p h = Some (a \<in> set xs)"
  using assms
proof (induction xs arbitrary: p)
  case (Cons x xs)
  then show ?case by (subst already_free_loop.simps) auto
qed (simp add: already_free_loop.simps)

lemma dump_spec:
  assumes "chain fb_next h p xs None"
  shows "dump_loop p h out = Some (out @ map (\<lambda>x. (x, fb_size (the (h x)))) xs)"
  using assms
proof (induction xs arbitrary: p out)
  case (Cons x xs)
  then show ?case by (subst dump_loop.simps) auto
qed (simp add: dump_loop.simps)

text \<open>Marking a block free: its header is linked in at its place.\<close>

lemma insert_free_block_spec:
  assumes rep: "fl_rep mp st (us @ b # vs)" and used: "\<not> bfree b"
  shows "\<exists>st'. insert_free_block (bstart b) st = Some st' \<and> fl_rep mp st' (us @ b\<lparr>bfree := True\<rparr> # vs)"
proof -
  let ?h = "headers st"
  have tile: "tiled mp us (bstart b)" "tiled (bend b) vs (mp + POOL_SIZE)"
    using rep by (auto simp: fl_rep_def tiled_append)
  have ch: "chain fb_next ?h (free_list st) (frees us @ frees vs) None"
    using rep used by (simp add: fl_rep_def)
  have dist: "distinct (frees us @ frees vs)" by (rule chain_distinct [OF ch])
  have below: "\<forall>x\<in>set (frees us). x < bstart b"
    using tiled_bounds [OF tile(1)] by (fastforce simp: set_frees bend_def HDR_def)
  have above: "\<forall>x\<in>set (frees vs). bstart b < x"
    using tiled_bounds [OF tile(2)] by (fastforce simp: set_frees bend_def HDR_def)
  obtain hb where hb: "?h (bstart b) = Some hb" "fb_size hb = bsize b"
    using rep by (auto simp: fl_rep_def sized_Cons)
  define h1 where "h1 = ?h(bstart b \<mapsto> hb\<lparr>fb_next := first_ptr (frees vs) None\<rparr>)"
  have notin: "bstart b \<notin> set (frees us)" "bstart b \<notin> set (frees vs)" using below above by auto
  obtain r where r: "chain fb_next ?h (free_list st) (frees us) r" "chain fb_next ?h r (frees vs) None"
    using ch by (auto simp: chain_append)
  have r': "r = first_ptr (frees vs) None" using r(2) by (rule chain_first)
  have "chain fb_next (headers (st\<lparr>headers := h1\<rparr>)) (free_list (st\<lparr>headers := h1\<rparr>)) (frees us) r"
    using r(1) notin by (simp add: h1_def)
  moreover have "distinct (frees us)" using dist by simp
  ultimately obtain st' where st': "set_link (last_ptr (frees us) None) (Some (bstart b)) (st\<lparr>headers := h1\<rparr>) = Some st'"
    "chain fb_next (headers st') (free_list st') (frees us) (Some (bstart b))"
    "\<And>a. map_option fb_size (headers st' a) = map_option fb_size (headers (st\<lparr>headers := h1\<rparr>) a)"
    "\<And>a. a \<notin> set (frees us) \<Longrightarrow> headers st' a = headers (st\<lparr>headers := h1\<rparr>) a"
    by (rule set_link_chain [where p = "Some (bstart b)"]) blast
  have run: "insert_free_block (bstart b) st = Some st'"
    using insert_walk_spec [OF ch below above, of None] hb(1) st'(1)
    by (simp add: insert_free_block_def heap_simps h1_def)
  have "headers st' x = ?h x" if x: "x \<in> set (frees vs)" for x
  proof -
    have "x \<notin> set (frees us)" "x \<noteq> bstart b" using x dist notin by auto
    then show ?thesis using st'(4) [of x] by (simp add: h1_def)
  qed
  then have c2: "chain fb_next (headers st') r (frees vs) None"
    using r(2) chain_cong [of "frees vs" fb_next "headers st'" ?h] by simp
  have b': "headers st' (bstart b) = Some (hb\<lparr>fb_next := r\<rparr>)"
    using st'(4) [OF notin(1)] r' by (simp add: h1_def)
  have "map_option fb_size (headers st' x) = map_option fb_size (?h x)" for x
    using st'(3) [of x] hb by (cases "x = bstart b") (simp_all add: h1_def)
  then have "sized (headers st') (us @ b # vs)"
    using rep sized_cong [of _ "headers st'" ?h] by (simp add: fl_rep_def)
  then have "fl_rep mp st' (us @ b\<lparr>bfree := True\<rparr> # vs)"
    using tile c2 b' st'(2) by (auto simp: fl_rep_def tiled_append bend_def sized_Cons chain_append)
  then show ?thesis using run by blast
qed

fun merge_free :: "blk list \<Rightarrow> blk list" where
  "merge_free (b # c # bs) =
     (if bfree b \<and> bfree c then merge_free (b\<lparr>bsize := bsize b + (HDR + bsize c)\<rparr> # bs)
      else b # merge_free (c # bs))"
| "merge_free [b] = [b]"
| "merge_free [] = []"

lemma coalesce_loop_spec:
  assumes "tiled a bs e" "sized h bs" "chain fb_next h p (frees bs) None"
  shows "\<exists>h'. coalesce_loop p h = Some h' \<and> tiled a (merge_free bs) e \<and> sized h' (merge_free bs) \<and>
    chain fb_next h' p (frees (merge_free bs)) None \<and> (\<forall>x. x \<notin> set (frees bs) \<longrightarrow> h' x = h x)"
  using assms
proof (induction bs arbitrary: a h p rule: merge_free.induct)
  case (1 b c bs)
  have dist: "distinct (frees (b # c # bs))" using 1(5) by (rule chain_distinct)
  have starts: "bstart b < bstart x" if "x \<in> set (c # bs)" for x
    using tiled_bounds [of "bend b" "c # bs" e x] 1(3) that by (auto simp: bend_def HDR_def)
  show ?case
  proof (cases "bfree b \<and> bfree c")
    case True
    then obtain hb hc where hb: "h (bstart b) = Some hb" "fb_next hb = Some (bstart c)" "fb_size hb = bsize b"
      and hc: "h (bstart c) = Some hc" "fb_size hc = bsize c" "chain fb_next h (fb_next hc) (frees bs) None"
      and p: "p = Some (bstart b)"
      using 1(4,5) by (auto simp: sized_Cons)
    let ?m = "b\<lparr>bsize := bsize b + (HDR + bsize c)\<rparr>"
    let ?h = "h(bstart b \<mapsto> \<lparr>fb_size = fb_size hb + (HDR + fb_size hc), fb_next = fb_next hc\<rparr>)"
    have adj: "bstart b + HDR + bsize b = bstart c" using 1(3) by (simp add: bend_def)
    have step: "coalesce_loop p h = coalesce_loop p ?h"
      using p hb hc(1) adj by (subst coalesce_loop.simps) simp
    have "bstart x \<noteq> bstart b" if "x \<in> set bs" for x using starts [of x] that by auto
    then have "sized ?h (?m # bs)"
      using 1(4) hb hc sized_cong [of bs ?h h] by (simp add: sized_Cons MAX_ALIGN_def HDR_def)
    moreover have "bend ?m = bend c" using adj by (simp add: bend_def)
    then have "tiled a (?m # bs) e" using 1(3) by simp
    moreover have "chain fb_next ?h p (frees (?m # bs)) None"
      using True p hc(3) dist by simp
    ultimately have "\<exists>h'. coalesce_loop p ?h = Some h' \<and> tiled a (merge_free (?m # bs)) e \<and>
      sized h' (merge_free (?m # bs)) \<and> chain fb_next h' p (frees (merge_free (?m # bs))) None \<and>
      (\<forall>x. x \<notin> set (frees (?m # bs)) \<longrightarrow> h' x = ?h x)"
      using True by (intro 1(1))
    then show ?thesis unfolding step using True by auto
  next
    case False
    have tile: "tiled (bend b) (c # bs) e" "bstart b = a" using 1(3) by simp_all
    have sz: "sized h (c # bs)" using 1(4) by (simp add: sized_Cons)
    show ?thesis
    proof (cases "bfree b")
      case used: False
      then have "chain fb_next h p (frees (c # bs)) None" using 1(5) by simp
      from 1(2) [OF False tile(1) sz this] obtain h' where h': "coalesce_loop p h = Some h'"
        "tiled (bend b) (merge_free (c # bs)) e" "sized h' (merge_free (c # bs))"
        "chain fb_next h' p (frees (merge_free (c # bs))) None" "\<forall>x. x \<notin> set (frees (c # bs)) \<longrightarrow> h' x = h x"
        by blast
      have "bstart b \<notin> set (frees (c # bs))" using starts unfolding set_frees by (metis (no_types, lifting) imageE mem_Collect_eq less_irrefl)
      then have "h' (bstart b) = h (bstart b)" using h'(5) by blast
      then show ?thesis using h' used tile 1(4) by (simp add: sized_Cons)
    next
      case True
      then have cused: "\<not> bfree c" using False by simp
      obtain hb where hb: "h (bstart b) = Some hb" "fb_size hb = bsize b" "chain fb_next h (fb_next hb) (frees (c # bs)) None"
        and p: "p = Some (bstart b)"
        using 1(4,5) True by (auto simp: sized_Cons)
      have step: "coalesce_loop p h = coalesce_loop (fb_next hb) h"
      proof (cases "fb_next hb")
        case None
        then show ?thesis using p hb(1) by (simp add: coalesce_loop.simps)
      next
        case (Some y)
        have "y \<in> set (frees bs)" using hb(3) Some cused by (cases "frees bs") auto
        then obtain x where x: "x \<in> set bs" "y = bstart x" by (auto simp: set_frees)
        have "bend c \<le> y" using tiled_bounds [of "bend c" bs e x] tile(1) x by simp
        then have "bstart b + HDR + fb_size hb \<noteq> y" using tile(1) hb(2) by (auto simp: bend_def HDR_def)
        then show ?thesis using p hb(1) Some by (subst coalesce_loop.simps) simp
      qed
      from 1(2) [OF False tile(1) sz hb(3)] obtain h' where h': "coalesce_loop (fb_next hb) h = Some h'"
        "tiled (bend b) (merge_free (c # bs)) e" "sized h' (merge_free (c # bs))"
        "chain fb_next h' (fb_next hb) (frees (merge_free (c # bs))) None" "\<forall>x. x \<notin> set (frees (c # bs)) \<longrightarrow> h' x = h x"
        by blast
      have "bstart b \<notin> set (frees (c # bs))" using starts unfolding set_frees by (metis (no_types, lifting) imageE mem_Collect_eq less_irrefl)
      then have "h' (bstart b) = h (bstart b)" using h'(5) by blast
      then show ?thesis using h' True cused tile 1(4) hb(1) p step by (auto simp add: sized_Cons)
    qed
  qed
next
  case (2 b)
  show ?case
  proof (cases "bfree b")
    case True
    then show ?thesis using 2 by (subst coalesce_loop.simps) (auto split: option.splits)
  next
    case False
    then show ?thesis using 2 by (subst coalesce_loop.simps) auto
  qed
qed (simp_all add: coalesce_loop.simps)

subsection \<open>What a client can rely on\<close>

lemma unat_align_up:
  assumes "unat req + 15 < 2 ^ 64"
  shows "unat (align_up req) = (unat req + 15) div 16 * 16"
proof -
  have "align_up req = push_bit 4 (drop_bit 4 (req + 15))"
  proof -
    have m: "(15::u64) = mask 4" by (simp add: mask_eq_exp_minus_1)
    have "x AND NOT (mask 4) = push_bit 4 (drop_bit 4 x)" for x :: u64
      by (rule bit_word_eqI) (auto simp: bit_simps)
    then show ?thesis by (simp add: align_up_def MAX_ALIGN_def add.commute flip: m)
  qed
  then have al: "unat (align_up req) = unat (push_bit 4 (drop_bit 4 (req + 15)))" by (rule arg_cong)
  have r: "unat (req + 15) = unat req + 15"
    using assms by (simp add: unat_word_ariths)
  have "unat (push_bit 4 (drop_bit 4 (req + 15))) =
      take_bit 64 (push_bit 4 (drop_bit 4 (take_bit 64 (unat (req + 15)))))"
    by (simp only: unsigned_push_bit_eq unsigned_drop_bit_eq) simp
  also have "\<dots> = unat (req + 15) div 16 * 16"
  proof -
    have "take_bit 64 (unat (req + 15)) = unat (req + 15)"
      using assms r by (simp add: take_bit_nat_eq_self_iff)
    moreover have "unat (req + 15) div 16 * 16 < 2 ^ 64"
      using assms r div_times_less_eq_dividend [of "unat (req + 15)" 16] by linarith
    ultimately show ?thesis
      by (simp only: push_bit_eq_mult drop_bit_eq_div) (simp add: take_bit_nat_eq_self_iff)
  qed
  finally show ?thesis unfolding al r .
qed

lemma fl_alloc_spec:
  assumes "fl_rep mp st bs" "req \<noteq> 0" "MAX_ALIGN dvd unat (align_up req)"
    "0 < unat (align_up req)"
  shows "case first_fit (unat (align_up req)) bs of
      None \<Rightarrow> free_list_alloc mp req st = Some (None, st)
    | Some (a, bs') \<Rightarrow> \<exists>st'. free_list_alloc mp req st = Some (Some (a + HDR), st') \<and> fl_rep mp st' bs'"
proof -
  have "free_list st = first_ptr (frees bs) None"
    using assms(1) by (auto simp: fl_rep_def dest: chain_first)
  then show ?thesis using alloc_loop_spec [of mp st "[]" bs, OF _ assms(3,4)] assms(1,2)
    by (auto simp: free_list_alloc_def split: option.splits)
qed

definition used :: "blk list \<Rightarrow> blk set" where
  "used bs = {b \<in> set bs. \<not> bfree b}"

lemma used_simps [simp]: "used [] = {}" "used (b # bs) = (if bfree b then used bs else insert b (used bs))"
  by (auto simp: used_def)

lemma used_subset: "b \<in> used bs \<Longrightarrow> b \<in> set bs"
  by (simp add: used_def)

fun separated :: "blk list \<Rightarrow> bool" where
  "separated (b # c # bs) \<longleftrightarrow> \<not> (bfree b \<and> bfree c) \<and> separated (c # bs)"
| "separated bs \<longleftrightarrow> True"

lemma separated_Cons: "separated (b # bs) \<longleftrightarrow> (bs = [] \<or> \<not> (bfree b \<and> bfree (hd bs))) \<and> separated bs"
  by (cases bs) auto

lemma merge_free_hd: "bs \<noteq> [] \<Longrightarrow> merge_free bs \<noteq> [] \<and> bfree (hd (merge_free bs)) = bfree (hd bs)"
  by (induction bs rule: merge_free.induct) auto

lemma merge_free_separated: "separated (merge_free bs)"
proof (induction bs rule: merge_free.induct)
  case (1 b c bs)
  then show ?case using merge_free_hd [of "c # bs"] by (auto simp: separated_Cons)
qed simp_all

lemma merge_free_used: "used (merge_free bs) = used bs"
proof (induction bs rule: merge_free.induct)
  case (1 b c bs)
  then show ?case by (cases "bfree b"; cases "bfree c") simp_all
qed simp_all

lemma first_fit_start: "first_fit n bs = Some (a, bs') \<Longrightarrow> \<exists>x\<in>set bs. a = bstart x"
  by (induction bs arbitrary: bs') (auto split: if_splits)

lemma first_fit_spec:
  assumes "first_fit n bs = Some (a, bs')" "tiled s bs e"
  shows "\<exists>b'. b' \<in> used bs' \<and> bstart b' = a \<and> n \<le> bsize b' \<and> used bs' = insert b' (used bs) \<and> b' \<notin> used bs \<and>
    (separated bs \<longrightarrow> separated bs') \<and> bs' \<noteq> [] \<and> (\<not> bfree (hd bs) \<longrightarrow> \<not> bfree (hd bs'))"
  using assms
proof (induction bs arbitrary: s bs')
  case (Cons b bs)
  have starts: "bstart b < bstart x" if "x \<in> set bs" for x
    using tiled_bounds [of "bend b" bs e x] Cons.prems(2) that by (auto simp: bend_def HDR_def)
  then have new: "c \<notin> used bs" if "bstart c = bstart b" for c using that by (force simp: used_def)
  show ?case
  proof (cases "bfree b \<and> n \<le> bsize b")
    case True
    show ?thesis
    proof (cases "HDR + MAX_ALIGN \<le> bsize b - n")
      case split: True
      then have bs': "bs' = \<lparr>bstart = bstart b, bsize = n, bfree = False\<rparr> #
            \<lparr>bstart = bstart b + HDR + n, bsize = bsize b - n - HDR, bfree = True\<rparr> # bs" "a = bstart b"
        using Cons.prems(1) True by auto
      show ?thesis
        by (rule exI [of _ "\<lparr>bstart = bstart b, bsize = n, bfree = False\<rparr>"])
          (use True new in \<open>auto simp: bs' separated_Cons\<close>)
    next
      case False
      then have bs': "bs' = b\<lparr>bfree := False\<rparr> # bs" "a = bstart b" using Cons.prems(1) True by auto
      show ?thesis
        by (rule exI [of _ "b\<lparr>bfree := False\<rparr>"])
          (use True new in \<open>auto simp: bs' separated_Cons\<close>)
    qed
  next
    case False
    then obtain bs'' where bs'': "first_fit n bs = Some (a, bs'')" "bs' = b # bs''"
      using Cons.prems(1) by auto
    obtain b' where b': "b' \<in> used bs''" "bstart b' = a" "n \<le> bsize b'" "used bs'' = insert b' (used bs)" "b' \<notin> used bs"
      "separated bs \<longrightarrow> separated bs''" "bs'' \<noteq> []" "\<not> bfree (hd bs) \<longrightarrow> \<not> bfree (hd bs'')"
      using Cons.IH [OF bs''(1)] Cons.prems(2) by auto
    obtain x where x: "x \<in> set bs" "a = bstart x" using first_fit_start [OF bs''(1)] by blast
    have "b' \<noteq> b" using starts [OF x(1)] x(2) b'(2) by auto
    moreover have "bs \<noteq> []" using bs''(1) by auto
    ultimately show ?thesis
      by (intro exI [of _ b']) (use b' bs''(2) False in \<open>auto simp: separated_Cons\<close>)
  qed
qed simp
lemma HDR_simps: "HDR = 16" "MAX_ALIGN = 16" "POOL_SIZE = 1024"
  by (simp_all add: HDR_def MAX_ALIGN_def POOL_SIZE_def)

lemma in_layout:
  assumes "fl_rep mp st bs" "b \<in> set bs"
  shows "mp \<le> bstart b" "bstart b + 16 + bsize b \<le> mp + 1024" "\<exists>us vs. bs = us @ b # vs"
    "0 < bsize b"
  using tiled_bounds [of mp bs "mp + POOL_SIZE" b] assms split_list [OF assms(2)]
  by (auto simp: fl_rep_def bend_def HDR_simps sized_def)

lemma layout_aligned:
  assumes "fl_rep mp st bs" "b \<in> set bs"
  shows "16 dvd bstart b - mp"
proof -
  have "tiled a bs e \<Longrightarrow> sized h bs \<Longrightarrow> b \<in> set bs \<Longrightarrow> 16 dvd bstart b - a" for a e h
  proof (induction bs arbitrary: a)
    case (Cons c bs)
    show ?case
    proof (cases "b = c")
      case False
      then have "16 dvd bstart b - bend c" "bend c \<le> bstart b"
        using Cons tiled_bounds [of "bend c" bs e b] by (auto simp: sized_Cons)
      moreover have "16 dvd bend c - a" "a \<le> bend c"
        using Cons.prems(1,2) by (auto simp: bend_def HDR_simps sized_Cons)
      ultimately have "16 dvd (bstart b - bend c) + (bend c - a)" by (intro dvd_add)
      then show ?thesis using \<open>bend c \<le> bstart b\<close> \<open>a \<le> bend c\<close> by simp
    qed (use Cons.prems in simp)
  qed simp
  then show ?thesis using assms by (auto simp: fl_rep_def)
qed

lemma used_append [simp]: "used (us @ vs) = used us \<union> used vs"
  by (auto simp: used_def)

lemma free_used_spec:
  assumes rep: "fl_rep mp st bs" and b: "b \<in> used bs"
  shows "\<exists>st' bs'. free_list_free mp (Some (bstart b + HDR)) st = Some (True, None, st') \<and>
     fl_rep mp st' bs' \<and> used bs' = used bs - {b} \<and> separated bs'"
proof -
  have bb: "b \<in> set bs" "\<not> bfree b" using b by (auto simp: used_def)
  obtain us vs where bs: "bs = us @ b # vs" using in_layout(3) [OF rep bb(1)] by blast
  have tile: "tiled mp us (bstart b)" "tiled (bend b) vs (mp + POOL_SIZE)"
    using rep by (auto simp: fl_rep_def tiled_append bs)
  have "c \<noteq> b \<and> bstart c \<noteq> bstart b" if "c \<in> set us \<or> c \<in> set vs" for c
    using that tiled_bounds [OF tile(1)] tiled_bounds [OF tile(2)] by (fastforce simp: bend_def HDR_def)
  then have other: "b \<notin> used us" "b \<notin> used vs" and notfree: "bstart b \<notin> set (frees bs)"
    using bb(2) by (auto simp: used_def set_frees bs) metis+
  obtain st1 where st1: "insert_free_block (bstart b) st = Some st1" "fl_rep mp st1 (us @ b\<lparr>bfree := True\<rparr> # vs)"
    using insert_free_block_spec [OF rep [unfolded bs] bb(2)] by blast
  let ?bs1 = "us @ b\<lparr>bfree := True\<rparr> # vs"
  obtain h where h: "coalesce_loop (free_list st1) (headers st1) = Some h" "tiled mp (merge_free ?bs1) (mp + POOL_SIZE)"
    "sized h (merge_free ?bs1)" "chain fb_next h (free_list st1) (frees (merge_free ?bs1)) None"
    using coalesce_loop_spec [of mp ?bs1 "mp + POOL_SIZE" "headers st1" "free_list st1"] st1(2)
    unfolding fl_rep_def by blast
  have "fl_rep mp (st1\<lparr>headers := h\<rparr>) (merge_free ?bs1)" using h by (simp add: fl_rep_def)
  moreover have "is_already_free (bstart b) st = Some False"
    using already_free_spec [of "headers st" "free_list st" "frees bs"] rep notfree
    by (simp add: is_already_free_def fl_rep_def)
  then have "free_list_free mp (Some (bstart b + HDR)) st = Some (True, None, st1\<lparr>headers := h\<rparr>)"
    using in_layout(1,2,4) [OF rep bb(1)] st1(1) h(1)
    by (simp add: free_list_free_def ptr_in_pool_def coalesce_def HDR_simps)
  moreover have "used (merge_free ?bs1) = used bs - {b}"
    using other bb(2) by (auto simp: merge_free_used bs)
  ultimately show ?thesis using merge_free_separated by blast
qed

lemma free_errors:
  assumes rep: "fl_rep mp st bs"
  shows "free_list_free mp None st = Some (True, None, st)"
    "\<not> ptr_in_pool mp p \<Longrightarrow> free_list_free mp (Some p) st = Some (False, Some OutsidePool, st)"
    "mp \<le> p \<Longrightarrow> p < mp + HDR \<Longrightarrow> free_list_free mp (Some p) st = Some (False, Some InvalidPointer, st)"
    "b \<in> set bs \<Longrightarrow> bfree b \<Longrightarrow> free_list_free mp (Some (bstart b + HDR)) st = Some (False, Some DoubleFree, st)"
proof -
  show "free_list_free mp (Some (bstart b + HDR)) st = Some (False, Some DoubleFree, st)" if "b \<in> set bs" "bfree b"
  proof -
    have "is_already_free (bstart b) st = Some True"
      using already_free_spec [of "headers st" "free_list st" "frees bs"] rep that
      by (simp add: is_already_free_def fl_rep_def set_frees)
    then show ?thesis using in_layout(1,2,4) [OF rep that(1)]
      by (simp add: free_list_free_def ptr_in_pool_def HDR_simps)
  qed
qed (simp_all add: free_list_free_def ptr_in_pool_def HDR_simps)

lemma alloc_used_spec:
  assumes rep: "fl_rep mp st bs" and req: "req \<noteq> 0" "unat req + 15 < 2 ^ 64"
  shows "\<exists>r st' bs'. free_list_alloc mp req st = Some (r, st') \<and> fl_rep mp st' bs' \<and> (separated bs \<longrightarrow> separated bs') \<and>
     (case r of None \<Rightarrow> st' = st \<and> bs' = bs \<and> (\<forall>b\<in>set bs. bfree b \<longrightarrow> bsize b < unat req)
      | Some p \<Rightarrow> \<exists>b'. p = bstart b' + HDR \<and> unat req \<le> bsize b' \<and> b' \<notin> used bs \<and> used bs' = insert b' (used bs))"
proof -
  let ?n = "unat (align_up req)"
  have n: "?n = (unat req + 15) div 16 * 16" by (rule unat_align_up [OF req(2)])
  then have dvd: "MAX_ALIGN dvd ?n" by (simp add: HDR_simps)
  have ge: "unat req \<le> ?n" unfolding n by linarith
  have pos: "0 < ?n" using ge req(1) by (metis gr0I le_zero_eq unat_eq_0)
  show ?thesis
  proof (cases "first_fit ?n bs")
    case None
    have small: "\<forall>b\<in>set bs. bfree b \<longrightarrow> bsize b < ?n"
      using None by (induction bs) (auto split: if_splits)
    have "bsize b < unat req" if "b \<in> set bs" "bfree b" for b
    proof -
      have "16 dvd bsize b" using rep that(1) by (auto simp: fl_rep_def sized_def HDR_simps)
      moreover have "bsize b < (unat req + 15) div 16 * 16" using small that n by auto
      ultimately show ?thesis by (auto elim!: dvdE)
    qed
    then show ?thesis using fl_alloc_spec [OF rep req(1) dvd pos] None rep by auto
  next
    case (Some r)
    obtain a bs' where r: "r = (a, bs')" by (cases r)
    obtain st' where st': "free_list_alloc mp req st = Some (Some (a + HDR), st')" "fl_rep mp st' bs'"
      using fl_alloc_spec [OF rep req(1) dvd pos] Some r by auto
    have tile: "tiled mp bs (mp + POOL_SIZE)" using rep by (simp add: fl_rep_def)
    show ?thesis using first_fit_spec [OF Some [unfolded r] tile] st' ge by fastforce
  qed
qed

inductive fl_reach :: "nat \<Rightarrow> pool_state \<Rightarrow> addr set \<Rightarrow> bool" for mp where
  reach_init: "free_list_init mp st0 = Some st \<Longrightarrow> fl_reach mp st {}"
| reach_alloc: "fl_reach mp st L \<Longrightarrow> req \<noteq> 0 \<Longrightarrow> unat req + 15 < 2 ^ 64 \<Longrightarrow>
    free_list_alloc mp req st = Some (p, st') \<Longrightarrow> fl_reach mp st' (L \<union> set_option p)"
| reach_free: "fl_reach mp st L \<Longrightarrow> p \<in> L \<Longrightarrow> free_list_free mp (Some p) st = Some (r, e, st') \<Longrightarrow>
    fl_reach mp st' (L - {p})"

lemma init_rep: "free_list_init mp st0 = Some st \<Longrightarrow> fl_rep mp st [\<lparr>bstart = mp, bsize = 1008, bfree = True\<rparr>]"
  by (auto simp: free_list_init_def put_header_def fl_rep_def sized_def bend_def HDR_simps)

lemma start_inj:
  assumes "fl_rep mp st bs" "b \<in> set bs" "c \<in> set bs" "bstart b = bstart c"
  shows "b = c"
proof -
  have "tiled a bs e \<Longrightarrow> b \<in> set bs \<Longrightarrow> c \<in> set bs \<Longrightarrow> bstart b = bstart c \<Longrightarrow> b = c" for a e
  proof (induction bs arbitrary: a)
    case (Cons d bs)
    have "bstart d < bstart x" if "x \<in> set bs" for x
      using tiled_bounds [of "bend d" bs e x] Cons.prems(1) that by (auto simp: bend_def HDR_def)
    then show ?case using Cons by (metis less_irrefl set_ConsD tiled.simps(2))
  qed simp
  then show ?thesis using assms by (auto simp: fl_rep_def)
qed

lemma reach_rep:
  assumes "fl_reach mp st L"
  shows "\<exists>bs. fl_rep mp st bs \<and> separated bs \<and> L = (\<lambda>b. bstart b + HDR) ` used bs"
  using assms
proof induction
  case (reach_init st0 st)
  then show ?case using init_rep by fastforce
next
  case (reach_alloc st L req p st')
  then obtain bs where bs: "fl_rep mp st bs" "separated bs" "L = (\<lambda>b. bstart b + HDR) ` used bs" by blast
  obtain r st'' bs' where "free_list_alloc mp req st = Some (r, st'')" "fl_rep mp st'' bs'" "separated bs'"
     "case r of None \<Rightarrow> st'' = st \<and> bs' = bs \<and> (\<forall>b\<in>set bs. bfree b \<longrightarrow> bsize b < unat req)
      | Some p \<Rightarrow> \<exists>b'. p = bstart b' + HDR \<and> unat req \<le> bsize b' \<and> b' \<notin> used bs \<and> used bs' = insert b' (used bs)"
    using alloc_used_spec [OF bs(1) reach_alloc(2,3)] bs(2) by blast
  then show ?case using reach_alloc(4) bs(3) by (intro exI [of _ bs']) (auto split: option.splits)
next
  case (reach_free st L p r e st')
  then obtain bs where bs: "fl_rep mp st bs" "separated bs" "L = (\<lambda>b. bstart b + HDR) ` used bs" by blast
  then obtain b where b: "b \<in> used bs" "p = bstart b + HDR" using reach_free(2) by blast
  obtain bs' where bs': "fl_rep mp st' bs'" "used bs' = used bs - {b}" "separated bs'"
    using free_used_spec [OF bs(1) b(1)] reach_free(3) b(2) by auto
  have "(\<lambda>b. bstart b + HDR) ` (used bs - {b}) = L - {p}"
    using start_inj [OF bs(1)] b unfolding bs(3) by (auto simp: used_def)
  then show ?case using bs' by (intro exI [of _ bs']) simp
qed

lemma all_free_single:
  assumes "fl_rep mp st bs" "separated bs" "used bs = {}"
  shows "free_list_dump st = Some [(mp, 1008)]"
proof -
  obtain b where b: "bs = [b]" "bfree b"
  proof (cases bs)
    case Nil
    then show ?thesis using assms(1) by (simp add: fl_rep_def POOL_SIZE_def)
  next
    case (Cons b cs)
    show ?thesis
    proof (cases cs)
      case Nil
      then show ?thesis using that Cons assms(3) by (simp split: if_splits)
    next
      case (Cons c ds)
      then show ?thesis using assms(2,3) \<open>bs = b # cs\<close> by (simp split: if_splits)
    qed
  qed
  have ch: "chain fb_next (headers st) (free_list st) [bstart b] None"
    using assms(1) b unfolding fl_rep_def by (auto simp del: chain.simps)
  show ?thesis using dump_spec [OF ch, of "[]"] assms(1) b
    by (auto simp: free_list_dump_def fl_rep_def sized_def bend_def HDR_simps)
qed

text \<open>C8: Whatever sequence of allocations and frees of live pointers ran since the pool was set up,
  no operation has undefined behaviour or loops for ever, every live pointer lies in the pool, is a
  multiple of 16 bytes from its start and can be freed; and once everything is freed the pool is one
  block of 1008 bytes again.\<close>

theorem freelist_safe_and_complete:
  assumes reach: "fl_reach mp st L"
  shows "(\<forall>req. req \<noteq> 0 \<and> unat req + 15 < 2 ^ 64 \<longrightarrow> free_list_alloc mp req st \<noteq> None) \<and>
    (\<forall>p\<in>L. mp + 16 \<le> p \<and> p < mp + 1024 \<and> 16 dvd p - mp \<and>
       (\<exists>st'. free_list_free mp (Some p) st = Some (True, None, st'))) \<and>
    (L = {} \<longrightarrow> free_list_dump st = Some [(mp, 1008)])"
proof (intro conjI ballI allI impI)
  obtain bs where bs: "fl_rep mp st bs" "separated bs" "L = (\<lambda>b. bstart b + HDR) ` used bs"
    using reach_rep [OF reach] by blast
  show "free_list_alloc mp req st \<noteq> None" if "req \<noteq> 0 \<and> unat req + 15 < 2 ^ 64" for req
    using alloc_used_spec [OF bs(1), of req] that by auto
  show "free_list_dump st = Some [(mp, 1008)]" if "L = {}"
    using all_free_single [OF bs(1,2)] that bs(3) by simp
  fix p
  assume "p \<in> L"
  then obtain b where b: "b \<in> used bs" "p = bstart b + HDR" using bs(3) by blast
  then show "\<exists>st'. free_list_free mp (Some p) st = Some (True, None, st')"
    using free_used_spec [OF bs(1)] by blast
  show "mp + 16 \<le> p" "p < mp + 1024"
    using in_layout [OF bs(1) used_subset [OF b(1)]] b(2) by (simp_all add: HDR_simps)
  have "p - mp = (bstart b - mp) + 16"
    using in_layout(1) [OF bs(1) used_subset [OF b(1)]] b(2) by (simp add: HDR_simps)
  then show "16 dvd p - mp" using layout_aligned [OF bs(1) used_subset [OF b(1)]] by simp
qed


text \<open>C18: For a nonzero request more than 15 bytes below \<open>2 ^ 64\<close>, so that rounding it up to a multiple of 16 does not wrap
  around, allocation returns a block of at least the requested size that was not in use, leaving every
  block in use as it was, or returns \<^verbatim>\<open>NULL\<close> and changes nothing, and then no free block was large
  enough.\<close>

theorem freelist_alloc:
  assumes rep: "fl_rep mp st bs" and req: "req \<noteq> 0" "unat req + 15 < 2 ^ 64"
  shows "\<exists>r st' bs'. free_list_alloc mp req st = Some (r, st') \<and> fl_rep mp st' bs' \<and>
     (separated bs \<longrightarrow> separated bs') \<and>
     (case r of None \<Rightarrow> st' = st \<and> bs' = bs \<and> (\<forall>b\<in>set bs. bfree b \<longrightarrow> bsize b < unat req)
      | Some p \<Rightarrow> \<exists>b'. p = bstart b' + HDR \<and> unat req \<le> bsize b' \<and> b' \<notin> used bs \<and>
                    used bs' = insert b' (used bs))"
  by (rule alloc_used_spec [OF rep req])

text \<open>C19: Freeing a block in use releases exactly that block and leaves no two adjacent free blocks;
  freeing a block that is on the list, a pointer outside the pool or into its first header fails with
  the right message and changes nothing.\<close>

theorem freelist_free:
  assumes rep: "fl_rep mp st bs"
  shows "(\<forall>b\<in>used bs. \<exists>st' bs'. free_list_free mp (Some (bstart b + HDR)) st = Some (True, None, st') \<and>
            fl_rep mp st' bs' \<and> used bs' = used bs - {b} \<and> separated bs') \<and>
         (\<forall>b\<in>set bs. bfree b \<longrightarrow>
            free_list_free mp (Some (bstart b + HDR)) st = Some (False, Some DoubleFree, st)) \<and>
         (\<forall>p. \<not> ptr_in_pool mp p \<longrightarrow>
            free_list_free mp (Some p) st = Some (False, Some OutsidePool, st)) \<and>
         (\<forall>p. mp \<le> p \<and> p < mp + HDR \<longrightarrow>
            free_list_free mp (Some p) st = Some (False, Some InvalidPointer, st)) \<and>
         free_list_free mp None st = Some (True, None, st)"
  using free_used_spec [OF rep] free_errors [OF rep] by blast

definition fresh_pool :: pool_state where
  "fresh_pool = \<lparr>headers = [64 \<mapsto> \<lparr>fb_size = 1008, fb_next = None\<rparr>], free_list = Some 64\<rparr>"

lemma fresh_pool:
  "free_list_init 64 \<lparr>headers = Map.empty, free_list = None\<rparr> = Some fresh_pool"
  "fl_rep 64 fresh_pool [\<lparr>bstart = 64, bsize = 1008, bfree = True\<rparr>]"
proof -
  show init: "free_list_init 64 \<lparr>headers = Map.empty, free_list = None\<rparr> = Some fresh_pool"
    by (simp add: fresh_pool_def free_list_init_def put_header_def HDR_simps)
  show "fl_rep 64 fresh_pool [\<lparr>bstart = 64, bsize = 1008, bfree = True\<rparr>]"
    by (rule init_rep [OF init])
qed

lemma freelist_alloc_witness:
  "\<exists>p st'. free_list_alloc 64 100 fresh_pool = Some (Some p, st')"
  using freelist_alloc [OF fresh_pool(2), of 100] by (auto split: option.splits)

lemma freelist_free_witness:
  "free_list_free 64 (Some 80) fresh_pool = Some (False, Some DoubleFree, fresh_pool)"
  using freelist_free [OF fresh_pool(2)] by (simp add: HDR_simps)

lemma freelist_safe_and_complete_witness:
  "free_list_alloc 64 100 fresh_pool \<noteq> None \<and> free_list_dump fresh_pool = Some [(64, 1008)]"
  using freelist_safe_and_complete [OF reach_init [OF fresh_pool(1)]] by simp

subsection \<open>The demonstration program and the limits of the checks\<close>

lemmas run_simps = Let_def freelist_main_def free_list_init_def put_header_def HDR_simps free_list_dump_def dump_loop.simps
   free_list_alloc_def unat_align_up alloc_loop.simps take_block_def set_link_def set_size_def store_def free_list_free_def 
   ptr_in_pool_def is_already_free_def already_free_loop.simps
   insert_free_block_def insert_walk.simps coalesce_def coalesce_loop.simps

text \<open>The demonstration program sees one block before and after, the remainder of 816 bytes in
  between, and its second free of the first block is rejected.\<close>

theorem freelist_main_output:
  "freelist_main mp st = Some ([(mp, 1008)], Some ([(mp + 192, 816)], [(mp, 1008)], True))"
  by (simp add: run_simps)

text \<open>
  The double-free test only knows blocks that are still on the list: after the same frees, freeing
  the second block again is accepted, because it was merged into the first, and the list then holds
  the same bytes twice.
\<close>

definition double_free_run :: "nat \<Rightarrow> pool_state \<Rightarrow> (bool \<times> (addr \<times> nat) list) option" where
  "double_free_run mp st = do {
     st \<leftarrow> free_list_init mp st;
     (a, st) \<leftarrow> free_list_alloc mp 4 st;
     (b, st) \<leftarrow> free_list_alloc mp 4 st;
     (_, _, st) \<leftarrow> free_list_free mp a st;
     (_, _, st) \<leftarrow> free_list_free mp b st;
     (r, _, st) \<leftarrow> free_list_free mp b st;
     d \<leftarrow> free_list_dump st;
     Some (r, d)
   }"

lemma double_free_accepted: "double_free_run mp st = Some (True, [(mp, 1008), (mp + 32, 16)])"
  by (simp add: run_simps double_free_run_def)

text \<open>Rounding up wraps: a request of almost 2^64 bytes gets a block of no bytes.\<close>

lemma huge_request_granted:
  "map_option fst (Option.bind (free_list_init mp st) (free_list_alloc mp (- 1))) = Some (Some (mp + 16))"
proof -
  have "align_up (- 1) = 0" by (simp add: align_up_def MAX_ALIGN_def)
  then show ?thesis by (simp add: run_simps)
qed
end
