(* ===== verification/SSO_String.thy ===== *)
theory SSO_String
  imports Prelude
begin

text \<open>
  The small-string-optimised string of \<^verbatim>\<open>Phase-1/Day21/C/sso_string.c\<close>: up to 14 characters live
  inside the struct, longer strings on the heap.

  The heap maps addresses to byte blocks; a write outside a block is undefined (\<open>None\<close>), and
  so is the use of a block that is not allocated. A C string argument is the list of its
  characters, without zeros; its terminator is copied with it. The union is a datatype with one
  constructor per member. \<^verbatim>\<open>sso_free\<close> clears every field of the heap member, which is also the empty
  stack member (all bytes zero). The allocator is an argument; a failed \<^verbatim>\<open>sso_copy\<close> leaves the size
  and capacity fields with stale bytes, which are arguments too.
\<close>

definition SSO_STACK_BUFFER_CAP :: nat where
  "SSO_STACK_BUFFER_CAP = 14"

definition SIZE_MAX :: u64 where
  "SIZE_MAX = - 1"

text \<open>Arithmetic on \<^verbatim>\<open>size_t\<close> wraps.\<close>

definition size_t :: "nat \<Rightarrow> nat" where
  "size_t n = unat (word_of_nat n :: 64 word)"

text \<open>\<^verbatim>\<open>SIZE_MAX - currLen < append_len\<close>, on \<^verbatim>\<open>size_t\<close>.\<close>

definition length_overflow :: "nat \<Rightarrow> nat \<Rightarrow> bool" where
  "length_overflow currLen append_len \<longleftrightarrow> SIZE_MAX - word_of_nat currLen < word_of_nat append_len"

type_synonym chars = "u8 list"

datatype sso_storage =
    HeapMember ptr nat nat
  | StackMember chars u8

record sso_string =
  is_long :: bool
  storage :: sso_storage

text \<open>The heap and the three counters of the tracking wrappers.\<close>

record sso_world =
  blocks :: "chars heap"
  malloc_count :: nat
  realloc_count :: nat
  free_count :: nat

type_synonym sized_alloc = "nat \<Rightarrow> chars heap \<Rightarrow> (addr \<times> chars) option"

text \<open>
  What the code relies on: a block of the size asked for, at a free address. No block is larger than \<^verbatim>\<open>PTRDIFF_MAX\<close>
  bytes: larger requests fail.
\<close>

definition alloc_ok :: "sized_alloc \<Rightarrow> bool" where
  "alloc_ok al \<longleftrightarrow> (\<forall>n h a junk. al n h = Some (a, junk) \<longrightarrow> h a = None \<and> length junk = n \<and> n < 2 ^ 63)"

definition memcpy_at :: "nat \<Rightarrow> chars \<Rightarrow> chars \<Rightarrow> chars option" where
  "memcpy_at off src dst =
     (if off + length src \<le> length dst
      then Some (take off dst @ src @ drop (off + length src) dst) else None)"

definition memcpy_block :: "ptr \<Rightarrow> nat \<Rightarrow> chars \<Rightarrow> sso_world \<Rightarrow> sso_world option" where
  "memcpy_block p off src w =
     (case load (blocks w) p of
        None \<Rightarrow> None
      | Some b \<Rightarrow>
          (case memcpy_at off src b of
             None \<Rightarrow> None
           | Some b \<Rightarrow> map_option (\<lambda>h. w\<lparr>blocks := h\<rparr>) (store p (\<lambda>_. b) (blocks w))))"

subsection \<open>Tracking wrappers\<close>

definition tracked_malloc :: "sized_alloc \<Rightarrow> nat \<Rightarrow> sso_world \<Rightarrow> ptr \<times> sso_world" where
  "tracked_malloc al n w =
     (let w = w\<lparr>malloc_count := malloc_count w + 1\<rparr> in
      case al n (blocks w) of
        None \<Rightarrow> (None, w)
      | Some (a, junk) \<Rightarrow> (Some a, w\<lparr>blocks := (blocks w)(a \<mapsto> junk)\<rparr>))"

text \<open>\<^verbatim>\<open>realloc\<close> keeps the contents up to the smaller size and frees the old block.\<close>

definition tracked_realloc ::
  "sized_alloc \<Rightarrow> ptr \<Rightarrow> nat \<Rightarrow> sso_world \<Rightarrow> (ptr \<times> sso_world) option" where
  "tracked_realloc al p n w =
     (let w = w\<lparr>realloc_count := realloc_count w + 1\<rparr> in
      case p of
        None \<Rightarrow>
          (case al n (blocks w) of
             None \<Rightarrow> Some (None, w)
           | Some (a, junk) \<Rightarrow> Some (Some a, w\<lparr>blocks := (blocks w)(a \<mapsto> junk)\<rparr>))
      | Some q \<Rightarrow>
          (case blocks w q of
             None \<Rightarrow> None
           | Some old \<Rightarrow>
               (case al n ((blocks w)(q := None)) of
                  None \<Rightarrow> Some (None, w)
                | Some (a, junk) \<Rightarrow>
                    Some (Some a, w\<lparr>blocks := ((blocks w)(q := None))
                                      (a \<mapsto> take n old @ drop (length old) junk)\<rparr>))))"

definition tracked_free :: "ptr \<Rightarrow> sso_world \<Rightarrow> sso_world option" where
  "tracked_free p w =
     (let w = (if p = None then w else w\<lparr>free_count := free_count w + 1\<rparr>) in
      map_option (\<lambda>h. w\<lparr>blocks := h\<rparr>) (dealloc p (blocks w)))"

definition reset_counters :: "sso_world \<Rightarrow> sso_world" where
  "reset_counters w = w\<lparr>malloc_count := 0, realloc_count := 0, free_count := 0\<rparr>"

subsection \<open>String operations\<close>

definition empty_stack :: sso_storage where
  "empty_stack = StackMember (replicate (SSO_STACK_BUFFER_CAP + 1) 0) 0"

definition sso_free :: "sso_string \<Rightarrow> sso_world \<Rightarrow> (sso_string \<times> sso_world) option" where
  "sso_free ss w =
     (if is_long ss then
        (case storage ss of
           HeapMember p sz cap \<Rightarrow>
             (case tracked_free p w of
                None \<Rightarrow> None
              | Some w \<Rightarrow> Some (ss\<lparr>storage := empty_stack, is_long := False\<rparr>, w))
         | StackMember _ _ \<Rightarrow> None)
      else
        (case storage ss of
           StackMember d n \<Rightarrow>
             Some (ss\<lparr>storage := StackMember (d[0 := 0]) 0, is_long := False\<rparr>, w)
         | HeapMember _ _ _ \<Rightarrow> None))"

text \<open>The first component of a result is \<open>True\<close> when the C function returns non-null.\<close>

definition sso_init ::
  "sized_alloc \<Rightarrow> sso_string \<Rightarrow> chars option \<Rightarrow> sso_world \<Rightarrow> (bool \<times> sso_string \<times> sso_world) option" where
  "sso_init al ss str w = do {
     let str = (case str of None \<Rightarrow> [] | Some s \<Rightarrow> s);
     (ss, w) \<leftarrow> (if is_long ss then sso_free ss w else Some (ss, w));
     let ss = \<lparr>is_long = False, storage = empty_stack\<rparr>;
     let len = length str;
     if len \<le> SSO_STACK_BUFFER_CAP then do {
       d \<leftarrow> memcpy_at 0 (str @ [0]) (replicate (SSO_STACK_BUFFER_CAP + 1) 0);
       Some (True, ss\<lparr>storage := StackMember d (word_of_nat len)\<rparr>, w)
     }
     else
       (case tracked_malloc al (size_t (len + 1)) w of
          (None, w) \<Rightarrow> Some (False, ss\<lparr>is_long := True, storage := HeapMember None 0 0\<rparr>, w)
        | (Some p, w) \<Rightarrow> do {
            w \<leftarrow> memcpy_block (Some p) 0 (str @ [0]) w;
            Some (True, ss\<lparr>is_long := True, storage := HeapMember (Some p) len len\<rparr>, w)
          })
   }"

definition sso_append ::
  "sized_alloc \<Rightarrow> sso_string \<Rightarrow> chars option \<Rightarrow> sso_world \<Rightarrow> (bool \<times> sso_string \<times> sso_world) option" where
  "sso_append al ss str w =
     (case str of None \<Rightarrow> Some (False, ss, w)
      | Some str \<Rightarrow>
        (let append_len = length str in
         case storage ss of
           StackMember d n \<Rightarrow>
             if is_long ss then None
             else
               (let currLen = unat n in
                if length_overflow currLen append_len then Some (False, ss, w)
                else
                  (let newLen = currLen + append_len in
                   if newLen \<le> SSO_STACK_BUFFER_CAP then do {
                     d \<leftarrow> memcpy_at currLen (str @ [0]) d;
                     Some (True, ss\<lparr>storage := StackMember d (word_of_nat newLen)\<rparr>, w)
                   }
                   else
                     (let newCap = size_t (newLen * 2) in
                      case tracked_malloc al (size_t (newCap + 1)) w of
                        (None, w) \<Rightarrow> Some (False, ss, w)
                      | (Some p, w) \<Rightarrow> do {
                          w \<leftarrow> memcpy_block (Some p) 0 (take currLen d) w;
                          w \<leftarrow> memcpy_block (Some p) currLen (str @ [0]) w;
                          Some (True, ss\<lparr>is_long := True, storage := HeapMember (Some p) newLen newCap\<rparr>, w)
                        })))
         | HeapMember p currLen cap \<Rightarrow>
             if \<not> is_long ss then None
             else if length_overflow currLen append_len then Some (False, ss, w)
             else
               (let newLen = currLen + append_len in do {
                  (ok, p, cap, w) \<leftarrow>
                    (if cap < newLen then
                       (let newCap = size_t (cap * 2); newCap = (if newCap < newLen then newLen else newCap) in
                        case tracked_realloc al p (size_t (newCap + 1)) w of
                          None \<Rightarrow> None
                        | Some (None, w) \<Rightarrow> Some (False, p, cap, w)
                        | Some (Some q, w) \<Rightarrow> Some (True, Some q, newCap, w))
                     else Some (True, p, cap, w));
                  if \<not> ok then Some (False, ss, w)
                  else do {
                    w \<leftarrow> memcpy_block p currLen (str @ [0]) w;
                    Some (True, ss\<lparr>storage := HeapMember p newLen cap\<rparr>, w)
                  }
                })))"

text \<open>\<open>aliased\<close> says that the two arguments are the same object.\<close>

definition sso_copy ::
  "sized_alloc \<Rightarrow> nat \<times> nat \<Rightarrow> bool \<Rightarrow> sso_string \<Rightarrow> sso_string \<Rightarrow> sso_world \<Rightarrow>
     (bool \<times> sso_string \<times> sso_world) option" where
  "sso_copy al stale aliased dist src w =
     (if aliased then Some (True, dist, w)
      else do {
        (dist, w) \<leftarrow> sso_free dist w;
        let dist = dist\<lparr>is_long := is_long src\<rparr>;
        (case storage src of
           StackMember d n \<Rightarrow>
             if is_long src then None else Some (True, dist\<lparr>storage := StackMember d n\<rparr>, w)
         | HeapMember p len cap \<Rightarrow>
             if \<not> is_long src then None
             else
               (case tracked_malloc al (size_t (len + 1)) w of
                  (None, w) \<Rightarrow> Some (False, dist\<lparr>storage := HeapMember None (fst stale) (snd stale)\<rparr>, w)
                | (Some q, w) \<Rightarrow>
                    (case load (blocks w) p of
                       None \<Rightarrow> None
                     | Some b \<Rightarrow>
                         if length b < len + 1 then None
                         else do {
                           w \<leftarrow> memcpy_block (Some q) 0 (take (len + 1) b) w;
                           Some (True, dist\<lparr>storage := HeapMember (Some q) len len\<rparr>, w)
                         })))
      })"

text \<open>The bytes the returned pointer points to.\<close>

definition sso_get_cstr :: "sso_string \<Rightarrow> sso_world \<Rightarrow> chars option" where
  "sso_get_cstr ss w =
     (case storage ss of
        HeapMember p _ _ \<Rightarrow> if is_long ss then load (blocks w) p else None
      | StackMember d _ \<Rightarrow> if is_long ss then None else Some d)"

text \<open>The heap blocks a string owns.\<close>

definition owned :: "sso_string \<Rightarrow> addr set" where
  "owned ss = (case storage ss of HeapMember p _ _ \<Rightarrow> set_option p | StackMember _ _ \<Rightarrow> {})"

subsection \<open>The test program\<close>

definition cstr :: "string \<Rightarrow> chars" where
  "cstr s = map (\<lambda>c. word_of_nat (of_char c)) s"

text \<open>\<^verbatim>\<open>strcmp(sso_get_cstr(&ss), s) == 0\<close>\<close>

definition str_is :: "sso_string \<Rightarrow> sso_world \<Rightarrow> string \<Rightarrow> bool option" where
  "str_is ss w s = map_option (\<lambda>b. takeWhile (\<lambda>c. c \<noteq> 0) b = cstr s) (sso_get_cstr ss w)"

definition zero_sso :: sso_string where
  "zero_sso = \<lparr>is_long = False, storage = empty_stack\<rparr>"

type_synonym sso_vars = "sso_string \<times> sso_string \<times> sso_world"

text \<open>Each test returns the conditions it asserts, in order, and the variables afterwards.\<close>

definition sso_test1 :: "sized_alloc \<Rightarrow> sso_vars \<Rightarrow> (bool list \<times> sso_vars) option" where
  "sso_test1 al v = do {
     let (ss1, ss2, w) = v;
     let w = reset_counters w;
     (_, ss1, w) \<leftarrow> sso_init al ss1 (Some (cstr ''Hello'')) w;
     let a1 = \<not> is_long ss1;
     a2 \<leftarrow> str_is ss1 w ''Hello'';
     let a3 = malloc_count w = 0;
     (ss1, w) \<leftarrow> sso_free ss1 w;
     let a4 = free_count w = 0;
     Some ([a1, a2, a3, a4], ss1, ss2, w)
   }"

definition sso_test2 :: "sized_alloc \<Rightarrow> sso_vars \<Rightarrow> (bool list \<times> sso_vars) option" where
  "sso_test2 al v = do {
     let (ss1, ss2, w) = v;
     let w = reset_counters w;
     (_, ss1, w) \<leftarrow> sso_init al ss1 (Some (cstr ''Hello'')) w;
     (_, ss1, w) \<leftarrow> sso_append al ss1 (Some (cstr '' World'')) w;
     let a1 = \<not> is_long ss1;
     a2 \<leftarrow> str_is ss1 w ''Hello World'';
     let a3 = malloc_count w = 0;
     (ss1, w) \<leftarrow> sso_free ss1 w;
     let a4 = free_count w = 0;
     Some ([a1, a2, a3, a4], ss1, ss2, w)
   }"

definition sso_test3 :: "sized_alloc \<Rightarrow> sso_vars \<Rightarrow> (bool list \<times> sso_vars) option" where
  "sso_test3 al v = do {
     let (ss1, ss2, w) = v;
     let w = reset_counters w;
     (_, ss1, w) \<leftarrow> sso_init al ss1 (Some (cstr ''Hello World'')) w;
     (_, ss1, w) \<leftarrow> sso_append al ss1 (Some (cstr ''!!!'')) w;
     let a1 = \<not> is_long ss1;
     let a2 = malloc_count w = 0;
     (_, ss1, w) \<leftarrow> sso_append al ss1 (Some (cstr '' SSO Mode Active'')) w;
     let a3 = is_long ss1;
     a4 \<leftarrow> str_is ss1 w ''Hello World!!! SSO Mode Active'';
     let a5 = malloc_count w = 1;
     (ss1, w) \<leftarrow> sso_free ss1 w;
     let a6 = free_count w = 1;
     Some ([a1, a2, a3, a4, a5, a6], ss1, ss2, w)
   }"

definition sso_test4 :: "sized_alloc \<Rightarrow> sso_vars \<Rightarrow> (bool list \<times> sso_vars) option" where
  "sso_test4 al v = do {
     let (ss1, ss2, w) = v;
     let w = reset_counters w;
     (_, ss1, w) \<leftarrow> sso_init al ss1 (Some (cstr ''This string is way longer than 14 bytes'')) w;
     let a1 = is_long ss1;
     let a2 = malloc_count w = 1;
     (_, ss1, w) \<leftarrow> sso_append al ss1 (Some (cstr '' appending more heap data'')) w;
     let a3 = realloc_count w = 1;
     (ss1, w) \<leftarrow> sso_free ss1 w;
     let a4 = free_count w = 1;
     Some ([a1, a2, a3, a4], ss1, ss2, w)
   }"

definition sso_test5 :: "sized_alloc \<Rightarrow> sso_vars \<Rightarrow> (bool list \<times> sso_vars) option" where
  "sso_test5 al v = do {
     let (ss1, ss2, w) = v;
     let w = reset_counters w;
     (_, ss1, w) \<leftarrow> sso_init al ss1 (Some (cstr ''StackOrig'')) w;
     let a1 = \<not> is_long ss1;
     (_, ss2, w) \<leftarrow> sso_copy al (0, 0) False ss2 ss1 w;
     let a2 = \<not> is_long ss2;
     let a3 = malloc_count w = 0;
     (_, ss2, w) \<leftarrow> sso_append al ss2 (Some (cstr ''Mut'')) w;
     a4 \<leftarrow> str_is ss1 w ''StackOrig'';
     a5 \<leftarrow> str_is ss2 w ''StackOrigMut'';
     (ss1, w) \<leftarrow> sso_free ss1 w;
     (ss2, w) \<leftarrow> sso_free ss2 w;
     let a6 = free_count w = 0;
     Some ([a1, a2, a3, a4, a5, a6], ss1, ss2, w)
   }"

definition sso_test6 :: "sized_alloc \<Rightarrow> sso_vars \<Rightarrow> (bool list \<times> sso_vars) option" where
  "sso_test6 al v = do {
     let (ss1, ss2, w) = v;
     let w = reset_counters w;
     (_, ss1, w) \<leftarrow> sso_init al ss1 (Some (cstr ''Heap original string payload that forces heap mode'')) w;
     let a1 = is_long ss1;
     let a2 = malloc_count w = 1;
     (_, ss2, w) \<leftarrow> sso_copy al (0, 0) False ss2 ss1 w;
     let a3 = is_long ss2;
     let a4 = malloc_count w = 2;
     let a5 = owned ss1 \<noteq> owned ss2;
     (_, ss2, w) \<leftarrow> sso_append al ss2 (Some (cstr '' [MUTATED COPY]'')) w;
     a6 \<leftarrow> str_is ss1 w ''Heap original string payload that forces heap mode'';
     a7 \<leftarrow> str_is ss2 w ''Heap original string payload that forces heap mode [MUTATED COPY]'';
     (ss1, w) \<leftarrow> sso_free ss1 w;
     (ss2, w) \<leftarrow> sso_free ss2 w;
     let a8 = free_count w = 2;
     Some ([a1, a2, a3, a4, a5, a6, a7, a8], ss1, ss2, w)
   }"

definition sso_test7 :: "sized_alloc \<Rightarrow> sso_vars \<Rightarrow> (bool list \<times> sso_vars) option" where
  "sso_test7 al v = do {
     let (ss1, ss2, w) = v;
     let w = reset_counters w;
     (_, ss1, w) \<leftarrow> sso_init al ss1 (Some (cstr ''First long heap string payload to force allocation'')) w;
     let a1 = is_long ss1;
     let a2 = malloc_count w = 1;
     (_, ss1, w) \<leftarrow> sso_init al ss1 (Some (cstr ''Second long heap string payload forcing re-init overwrite'')) w;
     let a3 = is_long ss1;
     let a4 = malloc_count w = 2;
     let a5 = free_count w = 1;
     (ss1, w) \<leftarrow> sso_free ss1 w;
     let a6 = free_count w = 2;
     Some ([a1, a2, a3, a4, a5, a6], ss1, ss2, w)
   }"

primrec run_tests ::
  "(sso_vars \<Rightarrow> (bool list \<times> sso_vars) option) list \<Rightarrow> sso_vars \<Rightarrow> (bool list \<times> sso_vars) option" where
  "run_tests [] v = Some ([], v)"
| "run_tests (t # ts) v = do {
     (as, v) \<leftarrow> t v;
     (bs, v) \<leftarrow> run_tests ts v;
     Some (as @ bs, v)
   }"

definition sso_main :: "sized_alloc \<Rightarrow> chars heap \<Rightarrow> (bool list \<times> sso_vars) option" where
  "sso_main al h =
     run_tests [sso_test1 al, sso_test2 al, sso_test3 al, sso_test4 al, sso_test5 al, sso_test6 al, sso_test7 al]
       (zero_sso, zero_sso, \<lparr>blocks = h, malloc_count = 0, realloc_count = 0, free_count = 0\<rparr>)"

subsection \<open>The abstract string\<close>

text \<open>\<open>sso_ok w ss s\<close>: \<open>ss\<close> holds the characters \<open>s\<close>, terminated, in the right place.\<close>

definition sso_ok :: "sso_world \<Rightarrow> sso_string \<Rightarrow> chars \<Rightarrow> bool" where
  "sso_ok w ss s \<longleftrightarrow>
     (case storage ss of
        StackMember d n \<Rightarrow>
          \<not> is_long ss \<and> length d = SSO_STACK_BUFFER_CAP + 1 \<and> length s \<le> SSO_STACK_BUFFER_CAP \<and>
          unat n = length s \<and> take (length s + 1) d = s @ [0]
      | HeapMember p n cap \<Rightarrow>
          is_long ss \<and> n = length s \<and> n \<le> cap \<and> cap + 1 < 2 ^ 63 \<and>
          (\<exists>a b. p = Some a \<and> blocks w a = Some b \<and> length b = cap + 1 \<and>
                 take (length s + 1) b = s @ [0]))"

definition sso_frame :: "sso_world \<Rightarrow> sso_string \<Rightarrow> sso_world \<Rightarrow> sso_string \<Rightarrow> bool" where
  "sso_frame w ss w' ss' \<longleftrightarrow> blocks w' |` (- owned ss') = blocks w |` (- owned ss)"

lemma frame_keeps:
  assumes "sso_frame w ss w' ss'" "owned ss \<inter> A = {}" "\<forall>a\<in>A. blocks w a \<noteq> None"
  shows "\<forall>a\<in>A. blocks w' a = blocks w a" "owned ss' \<inter> A = {}"
proof -
  have at: "(blocks w' |` (- owned ss')) a = (blocks w |` (- owned ss)) a" for a
    using assms(1) by (simp add: sso_frame_def)
  have "blocks w' a = blocks w a \<and> a \<notin> owned ss'" if "a \<in> A" for a
    using at [of a] that assms(2,3) by (cases "a \<in> owned ss'") (auto simp: restrict_map_def split: if_splits)
  then show "\<forall>a\<in>A. blocks w' a = blocks w a" "owned ss' \<inter> A = {}" by blast+
qed

lemma sso_frame_other:
  assumes "sso_frame w ss w' ss'" "sso_ok w other s" "owned ss \<inter> owned other = {}"
  shows "sso_ok w' other s" "owned ss' \<inter> owned other = {}"
proof -
  have al: "\<forall>a\<in>owned other. blocks w a \<noteq> None"
    using assms(2) by (auto simp: owned_def sso_ok_def split: sso_storage.splits)
  note keep = frame_keeps [OF assms(1,3) al]
  show "owned ss' \<inter> owned other = {}" by (rule keep(2))
  show "sso_ok w' other s"
    using assms(2) keep(1) by (auto simp: sso_ok_def owned_def split: sso_storage.splits)
qed

lemma restrict_UNIV [simp]: "f |` UNIV = f"
  by (simp add: restrict_map_def)

lemma small_unat: "n \<le> SSO_STACK_BUFFER_CAP \<Longrightarrow> unat (word_of_nat n :: u8) = n"
  by (simp add: unat_of_nat SSO_STACK_BUFFER_CAP_def)

lemma no_length_overflow:
  assumes "m + n < 2 ^ 64"
  shows "\<not> length_overflow m n"
proof -
  have "unat (SIZE_MAX - word_of_nat m) = 2 ^ 64 - 1 - m"
    using assms by (simp add: SIZE_MAX_def unat_sub_if_size unsigned_minus_1_eq_mask mask_eq_exp_minus_1 unat_of_nat)
  then show ?thesis using assms
    by (simp add: length_overflow_def word_less_nat_alt unat_of_nat)
qed

lemma size_t_small [simp]: "n < 2 ^ 64 \<Longrightarrow> size_t n = n"
  by (simp add: size_t_def unat_of_nat)

text \<open>Whether an append that needs memory is refused it.\<close>

definition append_refused :: "sized_alloc \<Rightarrow> sso_string \<Rightarrow> nat \<Rightarrow> sso_world \<Rightarrow> bool" where
  "append_refused al ss newLen w =
     (case storage ss of
        StackMember d n \<Rightarrow> SSO_STACK_BUFFER_CAP < newLen \<and> al (newLen * 2 + 1) (blocks w) = None
      | HeapMember p n cap \<Rightarrow> cap < newLen \<and> al (max (cap * 2) newLen + 1) ((blocks w)(the p := None)) = None)"

lemma memcpy_at_spec:
  assumes "off + length src \<le> length dst"
  obtains d where "memcpy_at off src dst = Some d" "length d = length dst"
    "take (off + length src) d = take off dst @ src" "drop (off + length src) d = drop (off + length src) dst"
  using assms by (auto simp: memcpy_at_def)

lemma memcpy_block_spec:
  assumes "blocks w a = Some b" "off + length src \<le> length b"
  obtains b' where "memcpy_block (Some a) off src w = Some (w\<lparr>blocks := (blocks w)(a \<mapsto> b')\<rparr>)" "length b' = length b"
    "take (off + length src) b' = take off b @ src"
proof (rule memcpy_at_spec [OF assms(2)])
  fix d
  assume d: "memcpy_at off src b = Some d" "length d = length b" "take (off + length src) d = take off b @ src"
  show ?thesis by (rule that [of d]) (use assms d in \<open>simp_all add: memcpy_block_def heap_simps\<close>)
qed

lemma sso_free_spec:
  assumes "sso_ok w ss s"
  shows "\<exists>ss' w'. sso_free ss w = Some (ss', w') \<and> sso_ok w' ss' [] \<and> owned ss' = {} \<and> sso_frame w ss w' ss' \<and>
     malloc_count w' = malloc_count w \<and> \<not> is_long ss'"
proof (cases "storage ss")
  case (HeapMember p n cap)
  then obtain a b where a: "is_long ss" "p = Some a" "blocks w a = Some b"
    using assms by (auto simp: sso_ok_def)
  then show ?thesis using HeapMember
    by (auto simp: sso_free_def tracked_free_def heap_simps sso_ok_def empty_stack_def owned_def sso_frame_def
        restrict_map_def fun_eq_iff SSO_STACK_BUFFER_CAP_def)
next
  case (StackMember d n)
  then have "\<not> is_long ss" "length d = 15" using assms by (auto simp: sso_ok_def SSO_STACK_BUFFER_CAP_def)
  moreover from this have "d \<noteq> []" by auto
  ultimately show ?thesis using StackMember
    by (auto simp: sso_free_def sso_ok_def owned_def sso_frame_def SSO_STACK_BUFFER_CAP_def take_Suc hd_conv_nth)
qed

lemma sso_init_spec:
  assumes ok: "sso_ok w ss s" and al: "alloc_ok al" and len: "length str + 1 < 2 ^ 64"
  shows "\<exists>r ss' w'. sso_init al ss (Some str) w = Some (r, ss', w') \<and> sso_frame w ss w' ss' \<and>
     (r \<longrightarrow> sso_ok w' ss' str) \<and> (\<not> r \<longrightarrow> storage ss' = HeapMember None 0 0) \<and>
     (is_long ss' \<longleftrightarrow> SSO_STACK_BUFFER_CAP < length str) \<and>
     malloc_count w' = malloc_count w + (if is_long ss' then 1 else 0) \<and> (length str \<le> SSO_STACK_BUFFER_CAP \<longrightarrow> r)"
proof -
  obtain ss1 w1 where s1: "(if is_long ss then sso_free ss w else Some (ss, w)) = Some (ss1, w1)"
    "sso_frame w ss w1 ss1" "owned ss1 = {}" "malloc_count w1 = malloc_count w"
  proof (cases "is_long ss")
    case True
    then show ?thesis using that sso_free_spec [OF ok] by auto
  next
    case False
    then have "owned ss = {}" using ok by (auto simp: owned_def sso_ok_def split: sso_storage.splits)
    then show ?thesis using that False by (simp add: sso_frame_def)
  qed
  show ?thesis
  proof (cases "length str \<le> SSO_STACK_BUFFER_CAP")
    case True
    then have "0 + length (str @ [0]) \<le> length (replicate (SSO_STACK_BUFFER_CAP + 1) (0::u8))" by simp
    then obtain d where d: "memcpy_at 0 (str @ [0]) (replicate (SSO_STACK_BUFFER_CAP + 1) 0) = Some d"
      "length d = SSO_STACK_BUFFER_CAP + 1" "take (length str + 1) d = str @ [0]"
      by (rule memcpy_at_spec) simp
    have "unat (word_of_nat (length str) :: u8) = length str"
      using True by (simp add: unat_of_nat SSO_STACK_BUFFER_CAP_def)
    then have "sso_ok w1 (ss1\<lparr>is_long := False, storage := StackMember d (word_of_nat (length str))\<rparr>) str" 
      using d True by (simp add: sso_ok_def)
    moreover have "sso_init al ss (Some str) w =
        Some (True, \<lparr>is_long = False, storage = StackMember d (word_of_nat (length str))\<rparr>, w1)"
      using s1(1) d(1) True by (simp add: sso_init_def)
    ultimately show ?thesis using s1(2-4) True
      by (intro exI [of _ True] exI [of _ "\<lparr>is_long = False, storage = StackMember d (word_of_nat (length str))\<rparr>"]
          exI [of _ w1]) (simp add: owned_def sso_frame_def sso_ok_def)
  next
    case False
    have size: "size_t (Suc (length str)) = Suc (length str)" using len by simp
    show ?thesis
    proof (cases "al (length str + 1) (blocks w1)")
      case None
      let ?ss' = "\<lparr>is_long = True, storage = HeapMember None 0 0\<rparr>"
        and ?w' = "w1\<lparr>malloc_count := malloc_count w1 + 1\<rparr>"
      have "sso_init al ss (Some str) w = Some (False, ?ss', ?w')"
        using s1(1) None False by (simp add: sso_init_def tracked_malloc_def Let_def size)
      then show ?thesis using s1(2-4) False
        by (intro exI [of _ False] exI [of _ ?ss'] exI [of _ ?w']) (simp add: owned_def sso_frame_def)
    next
      case (Some aj)
      obtain a junk where aj: "aj = (a, junk)" by (cases aj)
      then have fresh: "blocks w1 a = None" "length junk = length str + 1" "length str + 1 < 2 ^ 63"
        using Some al unfolding alloc_ok_def by blast+
      let ?w2 = "w1\<lparr>malloc_count := malloc_count w1 + 1, blocks := (blocks w1)(a \<mapsto> junk)\<rparr>"
      obtain b where b: "memcpy_block (Some a) 0 (str @ [0]) ?w2 = Some (?w2\<lparr>blocks := (blocks ?w2)(a \<mapsto> b)\<rparr>)"
        "length b = length str + 1" "take (length str + 1) b = str @ [0]"
        by (rule memcpy_block_spec [of ?w2 a junk 0 "str @ [0]"]) (use fresh in auto)
      have m: "tracked_malloc al (length str + 1) w1 = (Some a, ?w2)"
        using Some aj by (simp add: tracked_malloc_def)
      let ?ss' = "\<lparr>is_long = True, storage = HeapMember (Some a) (length str) (length str)\<rparr>"
        and ?w' = "?w2\<lparr>blocks := (blocks ?w2)(a \<mapsto> b)\<rparr>"
      have run: "sso_init al ss (Some str) w = Some (True, ?ss', ?w')"
        using s1(1) m b(1) False by (simp add: sso_init_def Let_def size)
      have "blocks w1 |` (- {a}) = blocks w1"
        using fresh(1) by (intro ext) (simp add: restrict_map_def)
      then have "sso_frame w ss ?w' ?ss'" using s1(2,3) by (simp add: sso_frame_def owned_def)
      moreover have "sso_ok ?w' ?ss' str" using b(2,3) fresh(3) by (simp add: sso_ok_def)
      ultimately show ?thesis using run s1(4) False
        by (intro exI [of _ True] exI [of _ ?ss'] exI [of _ ?w']) simp
    qed
  qed
qed

lemma tracked_malloc_cases:
  assumes "alloc_ok al"
  obtains "tracked_malloc al n w = (None, w\<lparr>malloc_count := malloc_count w + 1\<rparr>)" "al n (blocks w) = None"
  | a junk where "tracked_malloc al n w =
      (Some a, w\<lparr>malloc_count := malloc_count w + 1, blocks := (blocks w)(a \<mapsto> junk)\<rparr>)"
      "blocks w a = None" "length junk = n" "n < 2 ^ 63" "al n (blocks w) \<noteq> None"
proof (cases "al n (blocks w)")
  case None
  then show ?thesis using that(1) by (simp add: tracked_malloc_def)
next
  case (Some aj)
  obtain a junk where aj: "aj = (a, junk)" by (cases aj)
  then have "blocks w a = None" "length junk = n" "n < 2 ^ 63" using Some assms unfolding alloc_ok_def by blast+
  then show ?thesis using that(2) Some aj by (simp add: tracked_malloc_def)
qed

lemma owned_only:
  "blocks w' = (blocks w)(a \<mapsto> b) \<Longrightarrow> owned ss' = {a} \<Longrightarrow> owned ss \<subseteq> {a} \<Longrightarrow> blocks w a = None \<or> owned ss = {a} \<Longrightarrow> 
    sso_frame w ss w' ss'"
  by (auto simp: sso_frame_def restrict_map_def fun_eq_iff)

lemma stack_append:
  assumes ok: "sso_ok w ss s" and st: "storage ss = StackMember d n" and al: "alloc_ok al"
    and len: "length s + length str < 2 ^ 63"
  shows "\<exists>r ss' w'. sso_append al ss (Some str) w = Some (r, ss', w') \<and> sso_frame w ss w' ss' \<and>
     sso_ok w' ss' (if r then s @ str else s) \<and>
     (is_long ss' \<longleftrightarrow> r \<and> SSO_STACK_BUFFER_CAP < length (s @ str)) \<and>
     (length (s @ str) \<le> SSO_STACK_BUFFER_CAP \<longrightarrow> w' = w) \<and>
     (r \<longleftrightarrow> \<not> append_refused al ss (length (s @ str)) w) \<and> (\<not> r \<longrightarrow> ss' = ss \<and> blocks w' = blocks w)"
proof -
  have o: "\<not> is_long ss" "length d = SSO_STACK_BUFFER_CAP + 1" "length s \<le> SSO_STACK_BUFFER_CAP" "unat n = length s"
    "take (length s + 1) d = s @ [0]"
    using ok st by (simp_all add: sso_ok_def)
  have s: "take (length s) d = s"
    using arg_cong [OF o(5), of "take (length s)"] by (simp add: min_def)
  have own: "owned ss = {}" using st by (simp add: owned_def)
  have nomax: "\<not> length_overflow (length s) (length str)" by (rule no_length_overflow) (use len in simp)
  show ?thesis
  proof (cases "length s + length str \<le> SSO_STACK_BUFFER_CAP")
    case True
    then have "length s + length (str @ [0]) \<le> length d" using o(2) by simp
    then obtain d' where d': "memcpy_at (length s) (str @ [0]) d = Some d'" "length d' = length d"
      "take (length s + length (str @ [0])) d' = take (length s) d @ str @ [0]"
      by (rule memcpy_at_spec)
    let ?ss' = "ss\<lparr>storage := StackMember d' (word_of_nat (length s + length str))\<rparr>"
    have u: "unat (word_of_nat (length s + length str) :: u8) = length s + length str"
      using True by (rule small_unat)
    have "take (length (s @ str) + 1) d' = (s @ str) @ [0]" using d'(3) s by (simp add: ac_simps)
    then have "sso_ok w ?ss' (s @ str)" using o d'(2) True u by (simp add: sso_ok_def)
    moreover have "sso_append al ss (Some str) w = Some (True, ?ss', w)"
      using st o(1,4) nomax True d'(1) by (simp add: sso_append_def Let_def)
    ultimately show ?thesis using True own o(1) st
      by (intro exI [of _ True] exI [of _ ?ss'] exI [of _ w]) (simp add: sso_frame_def owned_def append_refused_def)
  next
    case False
    let ?n = "(length s + length str) * 2 + 1"
    have size: "size_t (length s * 2 + length str * 2) = length s * 2 + length str * 2"
      "size_t (Suc (length s * 2 + length str * 2)) = Suc (length s * 2 + length str * 2)" using len by simp_all
    show ?thesis
    proof (rule tracked_malloc_cases [OF al, of ?n w])
      assume m: "tracked_malloc al ?n w = (None, w\<lparr>malloc_count := malloc_count w + 1\<rparr>)"
        and none: "al ?n (blocks w) = None"
      let ?w' = "w\<lparr>malloc_count := malloc_count w + 1\<rparr>"
      have "sso_append al ss (Some str) w = Some (False, ss, ?w')"
        using st o(1,4) nomax False m by (simp add: sso_append_def Let_def size)
      moreover have "sso_ok ?w' ss s" using ok st by (simp add: sso_ok_def)
      ultimately show ?thesis using False o(1) st none
        by (intro exI [of _ False] exI [of _ ss] exI [of _ ?w']) (simp add: sso_frame_def append_refused_def)
    next
      fix a junk
      assume m: "tracked_malloc al ?n w = (Some a, w\<lparr>malloc_count := malloc_count w + 1, blocks := (blocks w)(a \<mapsto> junk)\<rparr>)"
        and fresh: "blocks w a = None" "length junk = ?n" "?n < 2 ^ 63" "al ?n (blocks w) \<noteq> None"
      let ?w1 = "w\<lparr>malloc_count := malloc_count w + 1, blocks := (blocks w)(a \<mapsto> junk)\<rparr>"
      obtain b1 where b1: "memcpy_block (Some a) 0 (take (length s) d) ?w1 = Some (?w1\<lparr>blocks := (blocks ?w1)(a \<mapsto> b1)\<rparr>)"
        "length b1 = length junk" "take (0 + length (take (length s) d)) b1 = take 0 junk @ take (length s) d"
        by (rule memcpy_block_spec [of ?w1 a junk 0 "take (length s) d"]) (use fresh o(2) in auto)
      let ?w2 = "?w1\<lparr>blocks := (blocks ?w1)(a \<mapsto> b1)\<rparr>"
      obtain b2 where b2: "memcpy_block (Some a) (length s) (str @ [0]) ?w2 = Some (?w2\<lparr>blocks := (blocks ?w2)(a \<mapsto> b2)\<rparr>)"
        "length b2 = length b1" "take (length s + length (str @ [0])) b2 = take (length s) b1 @ str @ [0]"
        by (rule memcpy_block_spec [of ?w2 a b1 "length s" "str @ [0]"]) (use fresh b1(2) in auto)
      let ?w' = "?w2\<lparr>blocks := (blocks ?w2)(a \<mapsto> b2)\<rparr>"
      let ?ss' = "ss\<lparr>is_long := True, storage := HeapMember (Some a) (length s + length str) ((length s + length str) * 2)\<rparr>"
      have run: "sso_append al ss (Some str) w = Some (True, ?ss', ?w')"
        using st o(1,4) nomax False m b1(1) b2(1) by (simp add: sso_append_def Let_def size)
      have "take (length s) b1 = s" using b1(3) s by simp
      then have "take (length (s @ str) + 1) b2 = (s @ str) @ [0]" using b2(3) by (simp add: ac_simps)
      then have "sso_ok ?w' ?ss' (s @ str)" using b1(2) b2(2) fresh by (simp add: sso_ok_def)
      moreover have "sso_frame w ss ?w' ?ss'"
        by (rule owned_only) (use own fresh in \<open>simp_all add: owned_def\<close>)
      ultimately show ?thesis using run False st fresh(4)
        by (intro exI [of _ True] exI [of _ ?ss'] exI [of _ ?w']) (simp add: append_refused_def)
    qed
  qed
qed

lemma memcpy_append:
  assumes "blocks w a = Some b" "length s + length str < length b" "take (length s) b = s"
  obtains b' where "memcpy_block (Some a) (length s) (str @ [0]) w = Some (w\<lparr>blocks := (blocks w)(a \<mapsto> b')\<rparr>)"
    "length b' = length b" "take (length (s @ str) + 1) b' = (s @ str) @ [0]"
proof -
  have "length s + length (str @ [0]) \<le> length b" using assms(2) by simp
  then obtain b' where b': "memcpy_block (Some a) (length s) (str @ [0]) w = Some (w\<lparr>blocks := (blocks w)(a \<mapsto> b')\<rparr>)"
    "length b' = length b" "take (length s + length (str @ [0])) b' = take (length s) b @ str @ [0]"
    by (rule memcpy_block_spec [OF assms(1)])
  show ?thesis by (rule that [OF b'(1,2)]) (use b'(3) assms(3) in \<open>simp add: ac_simps\<close>)
qed

lemma heap_append:
  assumes ok: "sso_ok w ss s" and st: "storage ss = HeapMember p n cap" and al: "alloc_ok al"
    and len: "length s + length str < 2 ^ 63"
  shows "\<exists>r ss' w'. sso_append al ss (Some str) w = Some (r, ss', w') \<and> sso_frame w ss w' ss' \<and>
     sso_ok w' ss' (if r then s @ str else s) \<and> is_long ss' \<and> (length (s @ str) \<le> cap \<longrightarrow> r \<and> owned ss' = owned ss) \<and>
     (r \<longleftrightarrow> \<not> append_refused al ss (length (s @ str)) w) \<and> (\<not> r \<longrightarrow> ss' = ss \<and> blocks w' = blocks w)"
proof -
  obtain a b where o: "is_long ss" "p = Some a" "blocks w a = Some b" "length b = cap + 1" "n = length s" "n \<le> cap"
    "take (length s + 1) b = s @ [0]" "cap + 1 < 2 ^ 63"
    using ok st by (auto simp: sso_ok_def)
  have s: "take (length s) b = s"
    using arg_cong [OF o(7), of "take (length s)"] by (simp add: min_def)
  have own: "owned ss = {a}" using st o(2) by (simp add: owned_def)
  have nomax: "\<not> length_overflow (length s) (length str)" by (rule no_length_overflow) (use len in simp)
  show ?thesis
  proof (cases "cap < length s + length str")
    case False
    then have "length s + length str < length b" using o(4) by simp
    then obtain b' where b': "memcpy_block (Some a) (length s) (str @ [0]) w = Some (w\<lparr>blocks := (blocks w)(a \<mapsto> b')\<rparr>)"
      "length b' = length b" "take (length (s @ str) + 1) b' = (s @ str) @ [0]"
      by (rule memcpy_append [OF o(3) _ s])
    let ?w' = "w\<lparr>blocks := (blocks w)(a \<mapsto> b')\<rparr>"
    let ?ss' = "ss\<lparr>storage := HeapMember (Some a) (length s + length str) cap\<rparr>"
    have "sso_append al ss (Some str) w = Some (True, ?ss', ?w')"
      using st o(1,2,5) nomax False b'(1) by (simp add: sso_append_def Let_def)
    moreover have "sso_ok ?w' ?ss' (s @ str)" using b'(2,3) o(1,4,8) False by (simp add: sso_ok_def)
    moreover have "sso_frame w ss ?w' ?ss'"
      using own by (auto simp: sso_frame_def owned_def restrict_map_def fun_eq_iff)
    ultimately show ?thesis using o(1) own st False
      by (intro exI [of _ True] exI [of _ ?ss'] exI [of _ ?w']) (simp add: owned_def append_refused_def)
  next
    case True
    define cap' where "cap' = max (cap * 2) (length s + length str)"
    have "cap * 2 < 2 ^ 64" "Suc cap' < 2 ^ 64" using o(8) len by (auto simp: cap'_def)
    then have size: "size_t (cap * 2) = cap * 2" "size_t (Suc cap') = Suc cap'" by simp_all
    have new: "(if cap * 2 < length s + length str then length s + length str else cap * 2) = cap'" by (simp add: cap'_def)
    have refused: "append_refused al ss (length (s @ str)) w \<longleftrightarrow> al (cap' + 1) ((blocks w)(a := None)) = None"
      using st o(2) True by (simp add: append_refused_def cap'_def)
    show ?thesis
    proof (cases "al (cap' + 1) ((blocks w)(a := None))")
      case None
      let ?w' = "w\<lparr>realloc_count := realloc_count w + 1\<rparr>"
      have "sso_append al ss (Some str) w = Some (False, ss, ?w')"
        using st o(1,2,3,5) nomax True None by (simp add: sso_append_def Let_def tracked_realloc_def size new)
      moreover have "sso_ok ?w' ss s" using ok st by (simp add: sso_ok_def)
      ultimately show ?thesis using True o(1) None refused
        by (intro exI [of _ False] exI [of _ ss] exI [of _ ?w']) (simp add: sso_frame_def)
    next
      case (Some aj)
      obtain a' junk where aj: "aj = (a', junk)" by (cases aj)
      then have "((blocks w)(a := None)) a' = None" "length junk = cap' + 1" "cap' + 1 < 2 ^ 63"
        using Some al unfolding alloc_ok_def by blast+
      then have fresh: "a' = a \<or> blocks w a' = None" "length junk = cap' + 1" "cap' + 1 < 2 ^ 63" by (auto split: if_splits)
      define b1 where "b1 = take (cap' + 1) b @ drop (length b) junk"
      let ?w1 = "w\<lparr>realloc_count := realloc_count w + 1, blocks := ((blocks w)(a := None))(a' \<mapsto> b1)\<rparr>"
      have re: "tracked_realloc al (Some a) (cap' + 1) w = Some (Some a', ?w1)"
        using Some aj o(3) by (simp add: tracked_realloc_def b1_def)
      have b1: "length b1 = cap' + 1" "take (length s) b1 = s"
        using True o(4-6) fresh(2) s by (auto simp: b1_def cap'_def)
      have "length s + length str < length b1" using b1(1) by (simp add: cap'_def)
      moreover have "blocks ?w1 a' = Some b1" by simp
      ultimately obtain b2 where b2: "memcpy_block (Some a') (length s) (str @ [0]) ?w1 = Some (?w1\<lparr>blocks := (blocks ?w1)(a' \<mapsto> b2)\<rparr>)"
        "length b2 = length b1" "take (length (s @ str) + 1) b2 = (s @ str) @ [0]"
        using memcpy_append [OF _ _ b1(2)] by blast
      let ?w' = "?w1\<lparr>blocks := (blocks ?w1)(a' \<mapsto> b2)\<rparr>"
      let ?ss' = "ss\<lparr>storage := HeapMember (Some a') (length s + length str) cap'\<rparr>"
      have run: "sso_append al ss (Some str) w = Some (True, ?ss', ?w')"
        using st o(1,2,5) nomax True re b2(1) by (simp add: sso_append_def Let_def size new)
      have "length s + length str \<le> cap'" by (simp add: cap'_def)
      then have "sso_ok ?w' ?ss' (s @ str)" using b2(2,3) b1(1) o(1) fresh(3) by (simp add: sso_ok_def)
      moreover have "sso_frame w ss ?w' ?ss'"
        using own fresh(1) by (auto simp: sso_frame_def owned_def restrict_map_def fun_eq_iff)
      ultimately show ?thesis using run True o(1) Some refused
        by (intro exI [of _ True] exI [of _ ?ss'] exI [of _ ?w']) simp
    qed
  qed
qed

lemma sso_copy_spec:
  assumes d: "sso_ok w dist t" and src: "sso_ok w src s" and disj: "owned dist \<inter> owned src = {}" and al: "alloc_ok al"
  shows "\<exists>r dist' w'. sso_copy al stale False dist src w = Some (r, dist', w') \<and> sso_frame w dist w' dist' \<and>
     sso_ok w' src s \<and> owned dist' \<inter> owned src = {} \<and> (r \<longrightarrow> sso_ok w' dist' s)"
proof -
  obtain d1 w1 where f: "sso_free dist w = Some (d1, w1)" "sso_ok w1 d1 []" "owned d1 = {}" "sso_frame w dist w1 d1"
    using sso_free_spec [OF d] by blast
  have src1: "sso_ok w1 src s" using sso_frame_other(1) [OF f(4) src disj] .
  show ?thesis
  proof (cases "storage src")
    case (StackMember b n)
    then have nl: "\<not> is_long src" using src by (simp add: sso_ok_def)
    let ?d' = "d1\<lparr>is_long := is_long src, storage := StackMember b n\<rparr>"
    have "sso_copy al stale False dist src w = Some (True, ?d', w1)"
      using f(1) StackMember nl by (simp add: sso_copy_def)
    moreover have "sso_ok w1 ?d' s" using src1 StackMember nl by (simp add: sso_ok_def)
    ultimately show ?thesis using f(3,4) src1
      by (intro exI [of _ True] exI [of _ ?d'] exI [of _ w1]) (simp add: sso_frame_def owned_def)
  next
    case (HeapMember p n cap)
    obtain a b where o: "is_long src" "p = Some a" "blocks w1 a = Some b" "length b = cap + 1" "n = length s" "n \<le> cap"
      "take (length s + 1) b = s @ [0]" "cap + 1 < 2 ^ 63"
      using src1 HeapMember by (auto simp: sso_ok_def)
    have size: "size_t (Suc (length s)) = Suc (length s)" using o(5,6,8) by simp
    show ?thesis
    proof (rule tracked_malloc_cases [OF al, of "length s + 1" w1])
      assume m: "tracked_malloc al (length s + 1) w1 = (None, w1\<lparr>malloc_count := malloc_count w1 + 1\<rparr>)"
      let ?w' = "w1\<lparr>malloc_count := malloc_count w1 + 1\<rparr>"
      let ?d' = "d1\<lparr>is_long := True, storage := HeapMember None (fst stale) (snd stale)\<rparr>"
      have "sso_copy al stale False dist src w = Some (False, ?d', ?w')"
        using f(1) HeapMember o(1,5) m by (simp add: sso_copy_def Let_def size)
      moreover have "sso_ok ?w' src s" using src1 HeapMember by (simp add: sso_ok_def)
      ultimately show ?thesis using f(3,4)
        by (intro exI [of _ False] exI [of _ ?d'] exI [of _ ?w']) (simp add: sso_frame_def owned_def)
    next
      fix q junk
      assume m: "tracked_malloc al (length s + 1) w1 = (Some q, w1\<lparr>malloc_count := malloc_count w1 + 1, blocks := (blocks w1)(q \<mapsto> junk)\<rparr>)"
        and fresh: "blocks w1 q = None" "length junk = length s + 1"
      let ?w2 = "w1\<lparr>malloc_count := malloc_count w1 + 1, blocks := (blocks w1)(q \<mapsto> junk)\<rparr>"
      have qa: "q \<noteq> a" using fresh(1) o(3) by auto
      have len: "length (take (length s + 1) b) = length s + 1" using o(4-6) by simp
      have w2q: "blocks ?w2 q = Some junk" by simp
      have room: "0 + length (take (length s + 1) b) \<le> length junk" unfolding len fresh(2) by simp
      obtain c where c: "memcpy_block (Some q) 0 (take (length s + 1) b) ?w2 = Some (?w2\<lparr>blocks := (blocks ?w2)(q \<mapsto> c)\<rparr>)"
        "length c = length junk" "take (0 + length (take (length s + 1) b)) c = take 0 junk @ take (length s + 1) b"
        by (rule memcpy_block_spec [OF w2q room]) blast
      let ?w' = "?w2\<lparr>blocks := (blocks ?w2)(q \<mapsto> c)\<rparr>"
      let ?d' = "d1\<lparr>is_long := True, storage := HeapMember (Some q) (length s) (length s)\<rparr>"
      have run: "sso_copy al stale False dist src w = Some (True, ?d', ?w')"
        using f(1) HeapMember o(1-6) m c(1) qa by (simp add: sso_copy_def heap_simps Let_def size)
      have "take (length s + 1) c = s @ [0]" using c(3) o(7) unfolding len by simp
      then have "sso_ok ?w' ?d' s" using c(2) fresh(2) o(5,6,8) by (simp add: sso_ok_def)
      moreover have "sso_frame w1 d1 ?w' ?d'"
        by (rule owned_only) (use f(3) fresh in \<open>simp_all add: owned_def\<close>)
      then have "sso_frame w dist ?w' ?d'" using f(4) by (simp add: sso_frame_def)
      moreover have "sso_ok ?w' src s" using src1 HeapMember o(2) qa by (auto simp: sso_ok_def)
      ultimately show ?thesis using run qa HeapMember o(2)
        by (intro exI [of _ True] exI [of _ ?d'] exI [of _ ?w']) (simp add: owned_def)
    qed
  qed
qed

subsection \<open>What a client can rely on\<close>

text \<open>C16: Appending concatenates, as long as the result is shorter than \<open>2 ^ 63\<close> bytes: whatever the representation before
  and after, on success the string holds the old characters followed by the new ones, terminated, in memory it owns. It fails
  exactly when it needs memory (beyond 14 characters on the stack, beyond the capacity on the heap, where it asks for twice the
  length, or twice the capacity or the length if that is more) and the allocator refuses it; then the string and the heap are
  unchanged. Up to 14 characters nothing is allocated; every other heap block is untouched and nothing leaks.\<close>

theorem sso_append_refines:
  assumes ok: "sso_ok w ss s" and al: "alloc_ok al" and len: "length s + length str < 2 ^ 63"
  shows "\<exists>r ss' w'. sso_append al ss (Some str) w = Some (r, ss', w') \<and> sso_frame w ss w' ss' \<and>
     sso_ok w' ss' (if r then s @ str else s) \<and>
     (r \<longleftrightarrow> \<not> append_refused al ss (length (s @ str)) w) \<and> (\<not> r \<longrightarrow> ss' = ss \<and> blocks w' = blocks w) \<and>
     (\<not> is_long ss \<and> length (s @ str) \<le> SSO_STACK_BUFFER_CAP \<longrightarrow> r \<and> \<not> is_long ss' \<and> w' = w)"
proof (cases "storage ss")
  case (StackMember d n)
  then have "\<not> append_refused al ss (length (s @ str)) w" if "length (s @ str) \<le> SSO_STACK_BUFFER_CAP"
    using that by (simp add: append_refused_def)
  then show ?thesis using stack_append [OF ok StackMember al len] by fastforce
next
  case (HeapMember p n cap)
  then have "is_long ss" using ok by (simp add: sso_ok_def)
  then show ?thesis using heap_append [OF ok HeapMember al len] by fastforce
qed

text \<open>Copying is deep: the destination's old buffer is freed, the source keeps its characters, and
  on success the destination holds the same characters in memory of its own.\<close>

theorem sso_copy_deep:
  assumes d: "sso_ok w dist t" and src: "sso_ok w src s" and disj: "owned dist \<inter> owned src = {}"
    and al: "alloc_ok al"
  shows "\<exists>r dist' w'. sso_copy al stale False dist src w = Some (r, dist', w') \<and>
     sso_frame w dist w' dist' \<and> sso_ok w' src s \<and> owned dist' \<inter> owned src = {} \<and>
     (r \<longrightarrow> sso_ok w' dist' s)"
proof -
  obtain r dist' w' where r: "sso_copy al stale False dist src w = Some (r, dist', w')"
    "sso_frame w dist w' dist'" "sso_ok w' src s" "owned dist' \<inter> owned src = {}" "r \<longrightarrow> sso_ok w' dist' s"
    using sso_copy_spec [OF d src disj al, of stale] by blast
  then show ?thesis by blast
qed

definition first_block :: "nat \<Rightarrow> sized_alloc" where
  "first_block k n h =
     (if int n < 2 ^ 63 then map_option (\<lambda>a. (a, replicate n 0)) (List.find (\<lambda>a. h a = None) [0..<k]) else None)"

lemma first_block_ok: "alloc_ok (first_block k)"
  by (auto simp: alloc_ok_def first_block_def find_Some_iff simp flip: of_nat_power split: if_splits)

definition world0 :: sso_world where
  "world0 = \<lparr>blocks = Map.empty, malloc_count = 0, realloc_count = 0, free_count = 0\<rparr>"

lemma zero_sso_ok: "sso_ok w zero_sso []"
  by (simp add: sso_ok_def zero_sso_def empty_stack_def SSO_STACK_BUFFER_CAP_def)

lemma sso_append_refines_witness:
  "\<exists>ss' w'. sso_append (first_block 4) zero_sso (Some [72, 105]) world0 = Some (True, ss', w') \<and>
     sso_ok w' ss' [72, 105] \<and> w' = world0"
  using sso_append_refines [OF zero_sso_ok first_block_ok [of 4], where str = "[72, 105]" and w = world0]
  by (auto simp: zero_sso_def SSO_STACK_BUFFER_CAP_def)

lemma sso_copy_deep_witness:
  "\<exists>r d' w'. sso_copy (first_block 4) (0, 0) False zero_sso zero_sso world0 = Some (r, d', w') \<and>
     sso_ok w' zero_sso []"
  using sso_copy_deep [OF zero_sso_ok zero_sso_ok _ first_block_ok [of 4], where w = world0 and stale = "(0, 0)"]
  by (auto simp: zero_sso_def owned_def empty_stack_def)

text \<open>All 38 assertions of the test program hold when the heap can serve its requests.\<close>

lemma sso_main_assertions:
  "map_option fst (sso_main (first_block 4) Map.empty) = Some (replicate 38 True)"
  by code_simp

text \<open>A failed copy leaves the destination marked long with a null pointer.\<close>

lemma sso_copy_failure:
  assumes "sso_ok w src s" "is_long src" "sso_ok w dist t" "owned dist \<inter> owned src = {}"
  shows "\<exists>dist' w'. sso_copy (\<lambda>n h. None) stale False dist src w = Some (False, dist', w') \<and>
     is_long dist' \<and> sso_get_cstr dist' w' = None"
proof -
  obtain d1 w1 where f: "sso_free dist w = Some (d1, w1)" using sso_free_spec [OF assms(3)] by blast
  obtain p n c where s: "storage src = HeapMember p n c"
    using assms(1,2) by (cases "storage src") (auto simp: sso_ok_def)
  let ?d = "d1\<lparr>is_long := True, storage := HeapMember None (fst stale) (snd stale)\<rparr>"
  have "sso_copy (\<lambda>n h. None) stale False dist src w =
      Some (False, ?d, w1\<lparr>malloc_count := malloc_count w1 + 1\<rparr>)"
    using f s assms(2) by (simp add: sso_copy_def tracked_malloc_def)
  moreover have "sso_get_cstr ?d w' = None" for w' by (simp add: sso_get_cstr_def heap_simps)
  ultimately show ?thesis by (intro exI [of _ ?d]) simp
qed

end
