(* ===== verification/Object_Pool.thy ===== *)
theory Object_Pool
  imports Linked_Lists
begin

text \<open>
  The three fixed-size object pools of Day 23: the flag array \<^verbatim>\<open>ObjPool.c\<close>, the free-list pool
  \<^verbatim>\<open>ObjPool_w_Freelist.c\<close> and the entity pool \<^verbatim>\<open>Entity_ObjPool.c\<close> with its guarded free.

  A pointer to an object of a pool is an address; \<open>base\<close> is the address of the array and the slot
  size is the C one (16 bytes for a flagged vector, 24 and 48 for the others). An assertion that fails
  is \<open>None\<close>, and so is an access outside the array.
\<close>

subsection \<open>The flag array\<close>

definition NUM_SLOTS :: nat where
  "NUM_SLOTS = 10"

text \<open>A slot is its flag; \<open>obj\<close> is 4 bytes behind it (a \<^verbatim>\<open>bool\<close>, padding, three \<^verbatim>\<open>int\<close>).\<close>

definition FLAG_SLOT :: nat where
  "FLAG_SLOT = 16"

definition obj_addr :: "nat \<Rightarrow> nat \<Rightarrow> addr" where
  "obj_addr base i = base + FLAG_SLOT * i + 4"

fun alloc_scan :: "nat \<Rightarrow> nat list \<Rightarrow> bool list \<Rightarrow> ptr \<times> bool list" where
  "alloc_scan base [] allocated = (None, allocated)"
| "alloc_scan base (i # is) allocated =
     (if \<not> allocated ! i then (Some (obj_addr base i), allocated[i := True])
      else alloc_scan base is allocated)"

definition AllocateMemory :: "nat \<Rightarrow> bool list \<Rightarrow> ptr \<times> bool list" where
  "AllocateMemory base allocated = alloc_scan base [0..<NUM_SLOTS] allocated"

definition FreeMemory :: "nat \<Rightarrow> addr \<Rightarrow> bool list \<Rightarrow> bool list option" where
  "FreeMemory base vec allocated =
     (let i = (vec - base) div FLAG_SLOT in
      if \<not> i < NUM_SLOTS then None
      else if obj_addr base i \<noteq> vec then None
      else if \<not> allocated ! i then None
      else Some (allocated[i := False]))"

text \<open>One round of \<^verbatim>\<open>main\<close>: two allocations, printed, and two frees.\<close>

definition objpool_round :: "nat \<Rightarrow> bool list \<Rightarrow> ((ptr \<times> ptr) \<times> bool list) option" where
  "objpool_round base allocated =
     (let (v1, allocated) = AllocateMemory base allocated;
          (v2, allocated) = AllocateMemory base allocated in
      case v1 of None \<Rightarrow> None
      | Some a \<Rightarrow> (case v2 of None \<Rightarrow> None
        | Some b \<Rightarrow>
            (case FreeMemory base a allocated of
               None \<Rightarrow> None
             | Some allocated \<Rightarrow>
                 map_option (\<lambda>allocated. ((v1, v2), allocated)) (FreeMemory base b allocated))))"

primrec objpool_rounds :: "nat \<Rightarrow> nat \<Rightarrow> bool list \<Rightarrow> ((ptr \<times> ptr) list \<times> bool list) option" where
  "objpool_rounds base 0 allocated = Some ([], allocated)"
| "objpool_rounds base (Suc n) allocated =
     (case objpool_round base allocated of
        None \<Rightarrow> None
      | Some (out, allocated) \<Rightarrow>
          map_option (\<lambda>(outs, allocated). (out # outs, allocated)) (objpool_rounds base n allocated))"

definition objpool_main :: "nat \<Rightarrow> ((ptr \<times> ptr) list \<times> bool list) option" where
  "objpool_main base = objpool_rounds base NUM_SLOTS (replicate NUM_SLOTS False)"

subsection \<open>The entity pool\<close>

text \<open>
  A node is a union of the entity and the link, and a flag. The link is live only while the node is on
  the free list; \<open>link_of\<close> is \<open>None\<close> once the entity has been written over it. Nodes are
  indexed; \<open>N\<close> is the number of nodes (\<^verbatim>\<open>NUM_ALLOCTION\<close>, 1028).
\<close>

definition NUM_ALLOCTION :: nat where
  "NUM_ALLOCTION = 1028"

definition NODE_SIZE :: nat where
  "NODE_SIZE = 48"

record PoolNode =
  pn_next :: ptr
  in_use :: bool

record entity_pool =
  object_pool :: "PoolNode heap"
  freelist :: ptr

definition init_node :: "nat \<Rightarrow> nat \<Rightarrow> PoolNode option" where
  "init_node N i =
     (if i < N then Some \<lparr>pn_next = (if i < N - 1 then Some (i + 1) else None), in_use = False\<rparr> else None)"

definition Entity_Init :: "nat \<Rightarrow> entity_pool" where
  "Entity_Init N = \<lparr>object_pool = init_node N, freelist = Some 0\<rparr>"

text \<open>The address of the entity of node \<open>i\<close> is that of the node itself.\<close>

definition entity_addr :: "nat \<Rightarrow> nat \<Rightarrow> addr" where
  "entity_addr base i = base + NODE_SIZE * i"

definition Entity_Pool_Alloc :: "nat \<Rightarrow> entity_pool \<Rightarrow> (ptr \<times> entity_pool) option" where
  "Entity_Pool_Alloc base p =
     (case freelist p of
        None \<Rightarrow> Some (None, p)
      | Some i \<Rightarrow>
          (case object_pool p i of
             None \<Rightarrow> None
           | Some node \<Rightarrow>
               Some (Some (entity_addr base i),
                 p\<lparr>freelist := pn_next node,
                   object_pool := (object_pool p)(i \<mapsto> node\<lparr>in_use := True\<rparr>)\<rparr>)))"

datatype entity_error = OutsideEntityPool | Misaligned | EntityDoubleFree

definition Entity_Free ::
  "nat \<Rightarrow> nat \<Rightarrow> ptr \<Rightarrow> entity_pool \<Rightarrow> (bool \<times> entity_error option \<times> entity_pool) option" where
  "Entity_Free N base entity p =
     (case entity of
        None \<Rightarrow> Some (False, None, p)
      | Some a \<Rightarrow>
          if a < base \<or> base + NODE_SIZE * N \<le> a then Some (False, Some OutsideEntityPool, p)
          else
            (let i = (a - base) div NODE_SIZE in
             if entity_addr base i \<noteq> a then Some (False, Some Misaligned, p)
             else
               (case object_pool p i of
                  None \<Rightarrow> None
                | Some node \<Rightarrow>
                    if \<not> in_use node then Some (False, Some EntityDoubleFree, p)
                    else
                      Some (True, None,
                        p\<lparr>object_pool := (object_pool p)(i \<mapsto> \<lparr>pn_next = freelist p, in_use = False\<rparr>),
                          freelist := Some i\<rparr>))))"

definition Pool_Reset :: "nat \<Rightarrow> entity_pool \<Rightarrow> entity_pool" where
  "Pool_Reset N p = \<lparr>object_pool = init_node N, freelist = Some 0\<rparr>"

text \<open>
  \<^verbatim>\<open>main\<close>: the conditions it asserts. Between allocation and free the program writes through the
  entity pointer, over the link of the node; \<open>junk\<close> is what the link reads as afterwards.
\<close>

definition write_entity :: "nat \<Rightarrow> ptr \<Rightarrow> ptr \<Rightarrow> entity_pool \<Rightarrow> entity_pool option" where
  "write_entity base junk entity p =
     (case entity of None \<Rightarrow> None
      | Some a \<Rightarrow>
          map_option (\<lambda>h. p\<lparr>object_pool := h\<rparr>)
            (store (Some ((a - base) div NODE_SIZE)) (\<lambda>node. node\<lparr>pn_next := junk\<rparr>) (object_pool p)))"

primrec alloc_many :: "nat \<Rightarrow> nat \<Rightarrow> entity_pool \<Rightarrow> (ptr list \<times> entity_pool) option" where
  "alloc_many base 0 p = Some ([], p)"
| "alloc_many base (Suc n) p = do {
     (e, p) \<leftarrow> Entity_Pool_Alloc base p;
     (es, p) \<leftarrow> alloc_many base n p;
     Some (e # es, p)
   }"

primrec free_many :: "nat \<Rightarrow> nat \<Rightarrow> ptr list \<Rightarrow> entity_pool \<Rightarrow> (bool list \<times> entity_pool) option" where
  "free_many N base [] p = Some ([], p)"
| "free_many N base (e # es) p = do {
     (r, _, p) \<leftarrow> Entity_Free N base e p;
     (rs, p) \<leftarrow> free_many N base es p;
     Some (r # rs, p)
   }"

definition entity_main :: "nat \<Rightarrow> nat \<Rightarrow> ptr \<Rightarrow> (bool list \<times> entity_pool) option" where
  "entity_main N base junk = do {
     let p = Entity_Init N;
     (e1, p) \<leftarrow> Entity_Pool_Alloc base p;
     (e2, p) \<leftarrow> Entity_Pool_Alloc base p;
     p \<leftarrow> write_entity base junk e1 p;
     (_, _, p) \<leftarrow> Entity_Free N base e1 p;
     (_, _, p) \<leftarrow> Entity_Free N base e2 p;
     (r, _, p) \<leftarrow> Entity_Free N base e1 p;
     (arr, p) \<leftarrow> alloc_many base N p;
     (extra, p) \<leftarrow> Entity_Pool_Alloc base p;
     (_, p) \<leftarrow> free_many N base arr p;
     Some ([e1 \<noteq> None, e2 \<noteq> None, r = False, extra = None], Pool_Reset N p)
   }"

subsection \<open>The vector pool with a free list\<close>

definition VEC_SLOT :: nat where
  "VEC_SLOT = 24"

record vec_pool =
  vp_next :: "ptr heap"  \<comment> \<open>the link of each slot\<close>
  vp_freelist :: ptr

definition InitFreeList :: "nat \<Rightarrow> vec_pool" where
  "InitFreeList N =
     \<lparr>vp_next = (\<lambda>i. if i < N then Some (if i < N - 1 then Some (i + 1) else None) else None),
      vp_freelist = Some 0\<rparr>"

definition vec_alloc :: "nat \<Rightarrow> vec_pool \<Rightarrow> (ptr \<times> vec_pool) option" where
  "vec_alloc base p =
     (case vp_freelist p of
        None \<Rightarrow> Some (None, p)
      | Some i \<Rightarrow>
          (case vp_next p i of
             None \<Rightarrow> None
           | Some nx \<Rightarrow> Some (Some (base + VEC_SLOT * i), p\<lparr>vp_freelist := nx\<rparr>)))"

definition vec_free :: "nat \<Rightarrow> addr \<Rightarrow> vec_pool \<Rightarrow> vec_pool option" where
  "vec_free base vec p =
     (let i = (vec - base) div VEC_SLOT in
      if base + VEC_SLOT * i \<noteq> vec then None
      else map_option (\<lambda>h. p\<lparr>vp_next := h, vp_freelist := Some i\<rparr>)
             (store (Some i) (\<lambda>_. vp_freelist p) (vp_next p)))"

text \<open>
  One round of \<^verbatim>\<open>main\<close>: \<open>n\<close> objects (the random number) are allocated and then freed in the same
  order; freeing \<^verbatim>\<open>NULL\<close> fails the assertion.
\<close>

primrec vec_alloc_n :: "nat \<Rightarrow> nat \<Rightarrow> vec_pool \<Rightarrow> (ptr list \<times> vec_pool) option" where
  "vec_alloc_n base 0 p = Some ([], p)"
| "vec_alloc_n base (Suc n) p = do {
     (v, p) \<leftarrow> vec_alloc base p;
     (vs, p) \<leftarrow> vec_alloc_n base n p;
     Some (v # vs, p)
   }"

primrec vec_free_all :: "nat \<Rightarrow> ptr list \<Rightarrow> vec_pool \<Rightarrow> vec_pool option" where
  "vec_free_all base [] p = Some p"
| "vec_free_all base (v # vs) p =
     (case v of None \<Rightarrow> None
      | Some a \<Rightarrow> (case vec_free base a p of None \<Rightarrow> None | Some p \<Rightarrow> vec_free_all base vs p))"

primrec vec_rounds :: "nat \<Rightarrow> nat list \<Rightarrow> vec_pool \<Rightarrow> vec_pool option" where
  "vec_rounds base [] p = Some p"
| "vec_rounds base (n # ns) p = do {
     (vs, p) \<leftarrow> vec_alloc_n base n p;
     p \<leftarrow> vec_free_all base vs p;
     vec_rounds base ns p
   }"

subsection \<open>Correctness of the entity pool\<close>

text \<open>\<open>ent_ok N p xs\<close>: the free list visits exactly the nodes \<open>xs\<close>, which are those not in use.\<close>

definition ent_ok :: "nat \<Rightarrow> entity_pool \<Rightarrow> addr list \<Rightarrow> bool" where
  "ent_ok N p xs \<longleftrightarrow> chain pn_next (object_pool p) (freelist p) xs None \<and>
     (\<forall>i. object_pool p i = None \<longleftrightarrow> N \<le> i) \<and>
     (\<forall>i node. object_pool p i = Some node \<longrightarrow> (in_use node \<longleftrightarrow> i \<notin> set xs))"

lemma init_chain: "k < N \<Longrightarrow> chain pn_next (init_node N) (Some k) [k..<N] None"
proof (induction "N - k" arbitrary: k)
  case (Suc n)
  show ?case
  proof (cases "k = N - 1")
    case True
    then have "[k..<N] = [k]" using Suc.prems by (simp add: upt_conv_Cons)
    then show ?thesis using True Suc.prems by (simp add: init_node_def)
  next
    case False
    then have "Suc k < N" using Suc.prems by simp
    then have "chain pn_next (init_node N) (Some (Suc k)) [Suc k..<N] None"
      using Suc.hyps by (intro Suc.hyps(1)) simp_all
    then show ?thesis using Suc.prems \<open>Suc k < N\<close> by (simp add: upt_conv_Cons init_node_def)
  qed
qed simp

lemma init_ok: "0 < N \<Longrightarrow> ent_ok N (Entity_Init N) [0..<N]"
  using init_chain [of 0 N] by (auto simp: ent_ok_def Entity_Init_def init_node_def)

lemma reset_ok: "0 < N \<Longrightarrow> ent_ok N (Pool_Reset N p) [0..<N]"
  using init_ok [of N] by (simp add: Pool_Reset_def Entity_Init_def)

lemma ent_bounds: "ent_ok N p xs \<Longrightarrow> i \<in> set xs \<Longrightarrow> i < N"
  unfolding ent_ok_def by (metis chain_allocated not_le option.distinct(1))

lemma ent_distinct: "ent_ok N p xs \<Longrightarrow> distinct xs"
  unfolding ent_ok_def by (auto dest: chain_distinct)

lemma entity_alloc_spec:
  assumes ok: "ent_ok N p xs"
  shows "case xs of [] \<Rightarrow> Entity_Pool_Alloc base p = Some (None, p)
    | i # ys \<Rightarrow> \<exists>p'. Entity_Pool_Alloc base p = Some (Some (entity_addr base i), p') \<and> ent_ok N p' ys"
proof (cases xs)
  case Nil
  then show ?thesis using ok by (simp add: ent_ok_def Entity_Pool_Alloc_def)
next
  case (Cons i ys)
  then obtain node where n: "freelist p = Some i" "object_pool p i = Some node" 
    "chain pn_next (object_pool p) (pn_next node) ys None"
    using ok by (auto simp: ent_ok_def)
  have "i \<notin> set ys" using ent_distinct [OF ok] Cons by simp
  let ?p = "p\<lparr>freelist := pn_next node, object_pool := (object_pool p)(i \<mapsto> node\<lparr>in_use := True\<rparr>)\<rparr>"
  have "ent_ok N ?p ys"
    using ok n \<open>i \<notin> set ys\<close> Cons ent_bounds [OF ok, of i] by (auto simp: ent_ok_def)
  moreover have "Entity_Pool_Alloc base p = Some (Some (entity_addr base i), ?p)"
    using n by (simp add: Entity_Pool_Alloc_def)
  ultimately show ?thesis using Cons by simp
qed

lemma entity_index: "a = entity_addr base i \<Longrightarrow> (a - base) div NODE_SIZE = i"
  by (simp add: entity_addr_def NODE_SIZE_def)

lemma entity_free_spec:
  assumes ok: "ent_ok N p xs" and i: "i < N" "i \<notin> set xs"
  shows "\<exists>p'. Entity_Free N base (Some (entity_addr base i)) p = Some (True, None, p') \<and> ent_ok N p' (i # xs)"
proof -
  obtain node where n: "object_pool p i = Some node" "in_use node"
    using ok i unfolding ent_ok_def by (metis not_le not_None_eq)
  let ?p = "p\<lparr>object_pool := (object_pool p)(i \<mapsto> \<lparr>pn_next = freelist p, in_use = False\<rparr>), freelist := Some i\<rparr>"
  have "Entity_Free N base (Some (entity_addr base i)) p = Some (True, None, ?p)"
    using n i entity_index [OF refl, of base i] by (simp add: Entity_Free_def entity_addr_def NODE_SIZE_def)
  moreover have "ent_ok N ?p (i # xs)"
    using ok i by (auto simp: ent_ok_def)
  ultimately show ?thesis by blast
qed

lemma free_refused:
  assumes ok: "ent_ok N p xs" and no: "\<not> (\<exists>i<N. a = entity_addr base i \<and> i \<notin> set xs)"
  shows "\<exists>e. Entity_Free N base (Some a) p = Some (False, Some e, p)"
proof (cases "a < base \<or> base + NODE_SIZE * N \<le> a")
  case True
  then show ?thesis by (simp add: Entity_Free_def)
next
  case False
  let ?i = "(a - base) div NODE_SIZE"
  have "a - base < N * NODE_SIZE" using False by (simp add: mult.commute) linarith
  then have i: "?i < N" by (rule less_mult_imp_div_less)
  then obtain node where n: "object_pool p ?i = Some node" using ok unfolding ent_ok_def by (metis not_le not_None_eq)
  show ?thesis
  proof (cases "entity_addr base ?i = a")
    case aligned: True
    then have "?i \<in> set xs" using no i by metis
    then have "\<not> in_use node" using ok n by (auto simp: ent_ok_def)
    then show ?thesis using False aligned n by (simp add: Entity_Free_def)
  next
    case misaligned: False
    then show ?thesis using False by (simp add: Entity_Free_def)
  qed
qed

lemma write_ok:
  assumes ok: "ent_ok N p xs" and i: "i < N" "i \<notin> set xs"
  shows "\<exists>p'. write_entity base junk (Some (entity_addr base i)) p = Some p' \<and> ent_ok N p' xs"
proof -
  obtain node where n: "object_pool p i = Some node" "in_use node"
    using ok i unfolding ent_ok_def by (metis not_le not_None_eq)
  have "ent_ok N (p\<lparr>object_pool := (object_pool p)(i \<mapsto> node\<lparr>pn_next := junk\<rparr>)\<rparr>) xs"
    using ok i n by (auto simp: ent_ok_def)
  then show ?thesis using n(1) entity_index [OF refl, of base i] by (simp add: write_entity_def heap_simps)
qed

lemma alloc_many_spec:
  "ent_ok N p (xs @ ys) \<Longrightarrow> \<exists>p'. alloc_many base (length xs) p = Some (map (\<lambda>i. Some (entity_addr base i)) xs, p') \<and> ent_ok N p' ys"
proof (induction xs arbitrary: p)
  case (Cons x xs)
  obtain p1 where p1: "Entity_Pool_Alloc base p = Some (Some (entity_addr base x), p1)" "ent_ok N p1 (xs @ ys)"
    using entity_alloc_spec [OF Cons.prems, of base] by auto
  obtain p' where "alloc_many base (length xs) p1 = Some (map (\<lambda>i. Some (entity_addr base i)) xs, p')" "ent_ok N p' ys"
    using Cons.IH [OF p1(2)] by blast
  then show ?case using p1 by simp
qed simp

lemma free_many_spec:
  "ent_ok N p ys \<Longrightarrow> distinct xs \<Longrightarrow> set xs \<inter> set ys = {} \<Longrightarrow> \<forall>x\<in>set xs. x < N \<Longrightarrow>
    \<exists>p'. free_many N base (map (\<lambda>i. Some (entity_addr base i)) xs) p = Some (replicate (length xs) True, p') \<and> ent_ok N p' (rev xs @ ys)"
proof (induction xs arbitrary: p ys)
  case (Cons x xs)
  obtain p1 where p1: "Entity_Free N base (Some (entity_addr base x)) p = Some (True, None, p1)" "ent_ok N p1 (x # ys)"
    using entity_free_spec [OF Cons.prems(1), of x base] Cons.prems by auto
  obtain p' where "free_many N base (map (\<lambda>i. Some (entity_addr base i)) xs) p1 = Some (replicate (length xs) True, p')"
    "ent_ok N p' (rev xs @ x # ys)"
    using Cons.IH [OF p1(2)] Cons.prems by auto
  then show ?case using p1 by simp
qed simp

text \<open>C23: The entity pool is a stack of free nodes: allocation takes the top or returns \<^verbatim>\<open>NULL\<close> when it
  is empty; a free succeeds exactly on the address of an entity in use and pushes its node; every
  other pointer (outside, misaligned, already free) is refused and nothing changes.\<close>

theorem entity_pool_refines:
  assumes ok: "ent_ok N p xs"
  shows "(case xs of [] \<Rightarrow> Entity_Pool_Alloc base p = Some (None, p)
    | i # ys \<Rightarrow> \<exists>p'. Entity_Pool_Alloc base p = Some (Some (entity_addr base i), p') \<and> ent_ok N p' ys) \<and>
    (\<forall>a. if \<exists>i<N. a = entity_addr base i \<and> i \<notin> set xs
         then \<exists>p' i. a = entity_addr base i \<and> Entity_Free N base (Some a) p = Some (True, None, p') \<and> ent_ok N p' (i # xs)
         else \<exists>e. Entity_Free N base (Some a) p = Some (False, Some e, p))"
  using entity_alloc_spec [OF ok] entity_free_spec [OF ok] free_refused [OF ok] by (auto split: if_splits) blast+

text \<open>The test program's assertions hold for every pool of at least two nodes: two allocations succeed,
  the double free is detected, the pool is exhausted after exactly all nodes, and the reset
  restores it.\<close>

theorem entity_main_output:
  assumes N: "2 \<le> N"
  shows "entity_main N base junk = Some ([True, True, True, True], Entity_Init N)"
proof -
  have "0 < N" using N by simp
  have "[0..<N] = 0 # [Suc 0..<N]" using N by (simp add: upt_conv_Cons)
  also have "[Suc 0..<N] = 1 # [2..<N]" using N by (simp add: upt_conv_Cons numeral_2_eq_2)
  finally have list: "[0..<N] = 0 # 1 # [2..<N]" .
  have ok0: "ent_ok N (Entity_Init N) (0 # 1 # [2..<N])" using init_ok [OF \<open>0 < N\<close>] list by simp
  obtain p1 where p1: "Entity_Pool_Alloc base (Entity_Init N) = Some (Some (entity_addr base 0), p1)" "ent_ok N p1 (1 # [2..<N])"
    using entity_alloc_spec [OF ok0, of base] by auto
  obtain p2 where p2: "Entity_Pool_Alloc base p1 = Some (Some (entity_addr base 1), p2)" "ent_ok N p2 [2..<N]"
    using entity_alloc_spec [OF p1(2), of base] by auto
  obtain p3 where p3: "write_entity base junk (Some (entity_addr base 0)) p2 = Some p3" "ent_ok N p3 [2..<N]"
    using write_ok [OF p2(2), of 0 base junk] N by auto
  obtain p4 where p4: "Entity_Free N base (Some (entity_addr base 0)) p3 = Some (True, None, p4)" "ent_ok N p4 (0 # [2..<N])"
    using entity_free_spec [OF p3(2), of 0 base] N by auto
  obtain p5 where p5: "Entity_Free N base (Some (entity_addr base 1)) p4 = Some (True, None, p5)" "ent_ok N p5 (1 # 0 # [2..<N])"
    using entity_free_spec [OF p4(2), of 1 base] N by auto
  have "\<not> (\<exists>i<N. entity_addr base 0 = entity_addr base i \<and> i \<notin> set (1 # 0 # [2..<N]))"
    by (auto simp: entity_addr_def NODE_SIZE_def)
  then obtain e where p6: "Entity_Free N base (Some (entity_addr base 0)) p5 = Some (False, Some e, p5)"
    using free_refused [OF p5(2)] by blast
  let ?xs = "1 # 0 # [2..<N]"
  have len: "length ?xs = N" using N by simp
  have "ent_ok N p5 (?xs @ [])" using p5(2) by simp
  define arr where "arr = map (\<lambda>i. Some (entity_addr base i)) ?xs"
  from alloc_many_spec [OF \<open>ent_ok N p5 (?xs @ [])\<close>, of base, unfolded len]
  obtain p7 where p7: "alloc_many base N p5 = Some (arr, p7)" "ent_ok N p7 []"
    unfolding arr_def by blast
  have p8: "Entity_Pool_Alloc base p7 = Some (None, p7)" using entity_alloc_spec [OF p7(2), of base] by simp
  obtain rs p9 where p9: "free_many N base arr p7 = Some (rs, p9)"
    using free_many_spec [OF p7(2), of ?xs base] N unfolding arr_def by auto
  show ?thesis using p1(1) p2(1) p3(1) p4(1) p5(1) p6 p7(1) p8 p9
    by (simp add: entity_main_def Pool_Reset_def Entity_Init_def)
qed

subsection \<open>Correctness of the flag array\<close>

lemma obj_addr_index: "(obj_addr base i - base) div FLAG_SLOT = i"
  by (simp add: obj_addr_def FLAG_SLOT_def)

lemma alloc_scan_spec:
  assumes "\<forall>i\<in>set is. i < length allocated"
  shows "alloc_scan base is allocated =
     (case List.find (\<lambda>i. \<not> allocated ! i) is of None \<Rightarrow> (None, allocated)
      | Some i \<Rightarrow> (Some (obj_addr base i), allocated[i := True]))"
  by (induction "is") auto

text \<open>The flag array: first fit, and freeing what was just allocated undoes the allocation.\<close>

lemma flag_pool:
  assumes len: "length allocated = NUM_SLOTS"
  shows "case AllocateMemory base allocated of
      (None, al) \<Rightarrow> al = allocated \<and> (\<forall>i<NUM_SLOTS. allocated ! i)
    | (Some v, al) \<Rightarrow> \<exists>i<NUM_SLOTS. v = obj_addr base i \<and> \<not> allocated ! i \<and> al = allocated[i := True] \<and>
        (\<forall>j<i. allocated ! j) \<and> FreeMemory base v al = Some allocated"
proof (cases "List.find (\<lambda>i. \<not> allocated ! i) [0..<NUM_SLOTS]")
  case None
  then have "\<forall>i<NUM_SLOTS. allocated ! i" by (auto simp: find_None_iff)
  then show ?thesis using None len by (simp add: AllocateMemory_def alloc_scan_spec)
next
  case (Some i)
  then have i: "i < NUM_SLOTS" "\<not> allocated ! i" "\<forall>j<i. allocated ! j"
    by (auto simp: find_Some_iff)
  have "allocated[i := True, i := False] = allocated"
    using i len by (simp add: list_update_same_conv)
  then show ?thesis using Some i len obj_addr_index [of base i]
    by (auto simp add: AllocateMemory_def alloc_scan_spec FreeMemory_def)
qed

lemma objpool_round_spec:
  "objpool_round base (replicate NUM_SLOTS False) =
     Some ((Some (obj_addr base 0), Some (obj_addr base 1)), replicate NUM_SLOTS False)"
proof -
  let ?a0 = "replicate NUM_SLOTS False"
  have upt: "[0..<NUM_SLOTS] = 0 # 1 # [2..<NUM_SLOTS]" by (simp add: NUM_SLOTS_def upt_rec)
  have a1: "AllocateMemory base ?a0 = (Some (obj_addr base 0), ?a0[0 := True])"
    unfolding AllocateMemory_def upt by (simp add: NUM_SLOTS_def)
  have a2: "AllocateMemory base (?a0[0 := True]) = (Some (obj_addr base 1), ?a0[0 := True, 1 := True])"
    unfolding AllocateMemory_def upt by (simp add: NUM_SLOTS_def)
  have f1: "FreeMemory base (obj_addr base 0) (?a0[0 := True, 1 := True]) = Some (?a0[0 := True, 1 := True, 0 := False])"
    using obj_addr_index [of base 0] by (simp add: FreeMemory_def NUM_SLOTS_def)
  have f2: "FreeMemory base (obj_addr base 1) (?a0[0 := True, 1 := True, 0 := False]) =
      Some (?a0[0 := True, 1 := True, 0 := False, 1 := False])"
    using obj_addr_index [of base 1] by (simp add: FreeMemory_def NUM_SLOTS_def)
  have "?a0[0 := True, 1 := True, 0 := False, 1 := False] = ?a0"
    by (simp add: NUM_SLOTS_def numeral_eq_Suc)
  then show ?thesis unfolding objpool_round_def a1 Let_def prod.case a2 option.case f1 f2 by simp
qed

lemma objpool_main_output:
  "objpool_main base = Some (replicate 10 (Some (base + 4), Some (base + 20)), replicate 10 False)"
proof -
  have "objpool_rounds base n (replicate NUM_SLOTS False) =
      Some (replicate n (Some (obj_addr base 0), Some (obj_addr base 1)), replicate NUM_SLOTS False)" for n
    by (induction n) (simp_all add: objpool_round_spec)
  then show ?thesis by (simp add: objpool_main_def NUM_SLOTS_def obj_addr_def FLAG_SLOT_def)
qed

subsection \<open>Correctness of the vector pool\<close>

definition vec_ok :: "nat \<Rightarrow> vec_pool \<Rightarrow> addr list \<Rightarrow> bool" where
  "vec_ok N p xs \<longleftrightarrow> chain id (vp_next p) (vp_freelist p) xs None \<and> (\<forall>i. vp_next p i = None \<longleftrightarrow> N \<le> i)"

lemma vec_init_chain:
  "k < N \<Longrightarrow> chain id (vp_next (InitFreeList N)) (Some k) [k..<N] None"
proof (induction "N - k" arbitrary: k)
  case (Suc n)
  show ?case
  proof (cases "k = N - 1")
    case True
    then have "[k..<N] = [k]" using Suc.prems by (simp add: upt_conv_Cons)
    then show ?thesis using True Suc.prems by (simp add: InitFreeList_def)
  next
    case False
    then have "Suc k < N" using Suc.prems by simp
    then have "chain id (vp_next (InitFreeList N)) (Some (Suc k)) [Suc k..<N] None"
      using Suc.hyps by (intro Suc.hyps(1)) simp_all
    then show ?thesis using Suc.prems \<open>Suc k < N\<close> by (simp add: upt_conv_Cons InitFreeList_def)
  qed
qed simp

lemma vec_init_ok: "0 < N \<Longrightarrow> vec_ok N (InitFreeList N) [0..<N]"
  using vec_init_chain [of 0 N] by (auto simp: vec_ok_def InitFreeList_def)

lemma vec_alloc_spec:
  "vec_ok N p (i # xs) \<Longrightarrow> \<exists>p'. vec_alloc base p = Some (Some (base + VEC_SLOT * i), p') \<and> vec_ok N p' xs"
  by (auto simp: vec_ok_def vec_alloc_def)

lemma vec_free_spec:
  assumes "vec_ok N p xs" "i < N" "i \<notin> set xs"
  shows "\<exists>p'. vec_free base (base + VEC_SLOT * i) p = Some p' \<and> vec_ok N p' (i # xs)"
proof -
  obtain nx where "vp_next p i = Some nx" using assms unfolding vec_ok_def by (metis not_le not_None_eq)
  then show ?thesis using assms by (auto simp: vec_free_def VEC_SLOT_def heap_simps vec_ok_def)
qed

lemma vec_alloc_n_spec:
  "vec_ok N p (xs @ ys) \<Longrightarrow> \<exists>p'. vec_alloc_n base (length xs) p = Some (map (\<lambda>i. Some (base + VEC_SLOT * i)) xs, p') \<and> vec_ok N p' ys"
proof (induction xs arbitrary: p)
  case (Cons x xs)
  obtain p1 where p1: "vec_alloc base p = Some (Some (base + VEC_SLOT * x), p1)" "vec_ok N p1 (xs @ ys)"
    using vec_alloc_spec [of N p x "xs @ ys" base] Cons.prems by auto
  obtain p' where "vec_alloc_n base (length xs) p1 = Some (map (\<lambda>i. Some (base + VEC_SLOT * i)) xs, p')" "vec_ok N p' ys"
    using Cons.IH [OF p1(2)] by blast
  then show ?case using p1 by simp
qed simp

lemma vec_free_all_spec:
  "vec_ok N p ys \<Longrightarrow> distinct xs \<Longrightarrow> set xs \<inter> set ys = {} \<Longrightarrow> \<forall>x\<in>set xs. x < N \<Longrightarrow>
    \<exists>p'. vec_free_all base (map (\<lambda>i. Some (base + VEC_SLOT * i)) xs) p = Some p' \<and> vec_ok N p' (rev xs @ ys)"
proof (induction xs arbitrary: p ys)
  case (Cons x xs)
  obtain p1 where p1: "vec_free base (base + VEC_SLOT * x) p = Some p1" "vec_ok N p1 (x # ys)"
    using vec_free_spec [OF Cons.prems(1), of x base] Cons.prems by auto
  obtain p' where "vec_free_all base (map (\<lambda>i. Some (base + VEC_SLOT * i)) xs) p1 = Some p'" "vec_ok N p' (rev xs @ x # ys)"
    using Cons.IH [OF p1(2)] Cons.prems by auto
  then show ?case using p1 by simp
qed simp

lemma vec_bounds: "vec_ok N p xs \<Longrightarrow> i \<in> set xs \<Longrightarrow> i < N"
  unfolding vec_ok_def by (metis chain_allocated not_le option.distinct(1))

text \<open>Rounds that allocate and free never lose a slot and never fail an assertion.\<close>

lemma vec_rounds_spec:
  "vec_ok N p xs \<Longrightarrow> \<forall>n\<in>set ns. n \<le> length xs \<Longrightarrow>
     \<exists>p' xs'. vec_rounds base ns p = Some p' \<and> vec_ok N p' xs' \<and> set xs' = set xs \<and> length xs' = length xs"
proof (induction ns arbitrary: p xs)
  case (Cons n ns)
  let ?us = "take n xs" and ?vs = "drop n xs"
  have d: "distinct xs" using Cons.prems(1) unfolding vec_ok_def by (auto dest: chain_distinct)
  have n: "length ?us = n" using Cons.prems(2) by simp
  obtain p1 where p1: "vec_alloc_n base n p = Some (map (\<lambda>i. Some (base + VEC_SLOT * i)) ?us, p1)" "vec_ok N p1 ?vs"
    using vec_alloc_n_spec [of N p ?us ?vs base] Cons.prems(1) n by auto
  have "distinct ?us" "set ?us \<inter> set ?vs = {}" using d by (simp_all add: set_take_disj_set_drop_if_distinct)
  moreover have "\<forall>x\<in>set ?us. x < N" using vec_bounds [OF Cons.prems(1)] by (meson in_set_takeD)
  ultimately obtain p2 where p2: "vec_free_all base (map (\<lambda>i. Some (base + VEC_SLOT * i)) ?us) p1 = Some p2" "vec_ok N p2 (rev ?us @ ?vs)"
    using vec_free_all_spec [OF p1(2)] by blast
  have "set (rev ?us @ ?vs) = set xs" by (metis append_take_drop_id set_append set_rev)
  moreover have "length (rev ?us @ ?vs) = length xs" using n Cons.prems(2) by simp
  ultimately have set: "set (rev ?us @ ?vs) = set xs" "length (rev ?us @ ?vs) = length xs" .
  obtain p' xs' where "vec_rounds base ns p2 = Some p'" "vec_ok N p' xs'" "set xs' = set (rev ?us @ ?vs)" "length xs' = length (rev ?us @ ?vs)"
    using Cons.IH [OF p2(2)] Cons.prems(2) set(2) by auto
  then show ?case using p1(1) p2(1) set by auto
qed auto
lemma entity_pool_refines_witness:
  "\<exists>p'. Entity_Free 3 96 (Some 144) (Entity_Init 3) = Some (False, Some EntityDoubleFree, p')"
proof -
  have ok: "ent_ok 3 (Entity_Init 3) [0, 1, 2]" using init_ok [of 3] by (simp add: upt_rec numeral_2_eq_2)
  have "\<not> (\<exists>i<3. (144::nat) = entity_addr 96 i \<and> i \<notin> set [0, 1, 2])"
    by (auto simp: entity_addr_def NODE_SIZE_def)
  then have "\<exists>e. Entity_Free 3 96 (Some 144) (Entity_Init 3) = Some (False, Some e, Entity_Init 3)"
    using entity_pool_refines [OF ok, of 96] by meson
  then show ?thesis
    by (simp add: Entity_Free_def NODE_SIZE_def entity_addr_def Entity_Init_def init_node_def)
qed

lemma entity_main_output_witness:
  "entity_main NUM_ALLOCTION 4096 None = Some ([True, True, True, True], Entity_Init NUM_ALLOCTION)"
  using entity_main_output [of NUM_ALLOCTION 4096 None] by (simp add: NUM_ALLOCTION_def)

end
