(* ===== verification/Allocators.thy ===== *)
theory Allocators
  imports Prelude
begin

unbundle bit_operations_syntax

text \<open>
  The bump allocator of \<^verbatim>\<open>Phase-1/Day6/C/arena.c\<close> and the pluggable allocators of
  \<^verbatim>\<open>Phase-1/Day27/C/Allocators.c\<close>: a table of functions, an arena and a \<^verbatim>\<open>malloc\<close> backend, and
  a vector that only uses the table.

  Addresses, sizes and offsets are 64-bit words where the code computes with them and natural
  numbers where it only stores them. The operating system (\<^verbatim>\<open>mmap\<close>, \<^verbatim>\<open>posix_memalign\<close>) is an argument.
\<close>

subsection \<open>The arena of Day 6\<close>

record Arena =
  a_buffer :: u64  \<comment> \<open>0 for \<^verbatim>\<open>NULL\<close>\<close>
  currentOffset :: u64
  bufferSize :: u64

definition KB :: "u64 \<Rightarrow> u64" where
  "KB x = x * 1024"

text \<open>\<open>mapped\<close> is what \<^verbatim>\<open>mmap\<close> returned, \<open>None\<close> for failure: then the arena is left as it was.\<close>

definition ArenaInit :: "u64 option \<Rightarrow> u64 \<Rightarrow> Arena \<Rightarrow> Arena" where
  "ArenaInit mapped bytes arena =
     (case mapped of
        None \<Rightarrow> arena
      | Some p \<Rightarrow> \<lparr>a_buffer = p, currentOffset = 0, bufferSize = bytes\<rparr>)"

text \<open>The result is the address, \<open>None\<close> for \<^verbatim>\<open>NULL\<close>, and the range \<^verbatim>\<open>memset\<close> clears.\<close>

definition ArenaAlloc ::
  "u64 \<Rightarrow> u64 \<Rightarrow> u64 \<Rightarrow> Arena \<Rightarrow> u64 option \<times> (u64 \<times> u64) option \<times> Arena" where
  "ArenaAlloc numOfElem elemSize alignSize arena =
     (if alignSize = 0 \<or> alignSize AND (alignSize - 1) \<noteq> 0 then (None, None, arena)
      else
        (let allocationSize = numOfElem * elemSize in
         if allocationSize < elemSize then (None, None, arena)
         else
           (let totalOffset = currentOffset arena + a_buffer arena;
                padding = NOT totalOffset AND (alignSize - 1);
                totalOffset = totalOffset + padding in
            if bufferSize arena + a_buffer arena < totalOffset + allocationSize then (None, None, arena)
            else
              (Some totalOffset, Some (totalOffset, allocationSize),
               arena\<lparr>currentOffset := currentOffset arena + (padding + allocationSize)\<rparr>))))"

definition ArenaResetPointer :: "Arena \<Rightarrow> Arena" where
  "ArenaResetPointer arena = arena\<lparr>currentOffset := 0\<rparr>"

text \<open>The second component is the mapping handed back to the system.\<close>

definition ArenaDelete :: "Arena \<Rightarrow> Arena \<times> (u64 \<times> u64) option" where
  "ArenaDelete arena =
     (\<lparr>a_buffer = 0, currentOffset = 0, bufferSize = 0\<rparr>,
      if a_buffer arena \<noteq> 0 then Some (a_buffer arena, bufferSize arena) else None)"

subsection \<open>The allocator table of Day 27\<close>

text \<open>
  \<^verbatim>\<open>ctx\<close> points to the backend; here its state \<open>'b\<close> is passed along. \<open>deallocate\<close> is undefined
  (\<open>None\<close>) where \<^verbatim>\<open>free\<close> is.
\<close>

record 'b Allocator =
  allocate :: "'b \<Rightarrow> u64 \<Rightarrow> u64 \<Rightarrow> u64 option \<times> 'b"
  deallocate :: "'b \<Rightarrow> u64 \<Rightarrow> u64 \<Rightarrow> 'b option"

record AllocStats =
  alloc_calls :: nat
  bytes_allocated :: u64

record ArenaBackend =
  ab_buffer :: u64
  ab_capacity :: u64
  ab_offset :: u64
  ab_stats :: AllocStats

text \<open>\<open>malloc_succeeds\<close> and \<open>mapped\<close> are the answers of \<^verbatim>\<open>malloc\<close> and \<^verbatim>\<open>mmap\<close>.\<close>

definition arena_create :: "bool \<Rightarrow> u64 option \<Rightarrow> u64 \<Rightarrow> ArenaBackend option" where
  "arena_create malloc_succeeds mapped cap =
     (if \<not> malloc_succeeds then None
      else case mapped of
        None \<Rightarrow> None
      | Some p \<Rightarrow>
          if p = 0 then None
          else Some \<lparr>ab_buffer = p, ab_capacity = cap, ab_offset = 0,
                     ab_stats = \<lparr>alloc_calls = 0, bytes_allocated = 0\<rparr>\<rparr>)"

text \<open>The mapping handed back to the system.\<close>

definition arena_destroy :: "ArenaBackend option \<Rightarrow> (u64 \<times> u64) option" where
  "arena_destroy arena =
     (case arena of
        None \<Rightarrow> None
      | Some b \<Rightarrow> if ab_buffer b = 0 then None else Some (ab_buffer b, ab_capacity b))"

definition count_alloc :: "u64 \<Rightarrow> AllocStats \<Rightarrow> AllocStats" where
  "count_alloc n st = st\<lparr>alloc_calls := alloc_calls st + 1, bytes_allocated := bytes_allocated st + n\<rparr>"

definition arena_alloc :: "ArenaBackend \<Rightarrow> u64 \<Rightarrow> u64 \<Rightarrow> u64 option \<times> ArenaBackend" where
  "arena_alloc arena n align =
     (if align = 0 \<or> align AND (align - 1) \<noteq> 0 then (None, arena)
      else
        (let current = ab_buffer arena + ab_offset arena;
             aligned = (current + align - 1) AND NOT (align - 1);
             padding = aligned - current in
         if ab_capacity arena < ab_offset arena + padding + n then (None, arena)
         else
           (Some aligned,
            arena\<lparr>ab_offset := ab_offset arena + (padding + n), ab_stats := count_alloc n (ab_stats arena)\<rparr>)))"

definition arena_free :: "ArenaBackend \<Rightarrow> u64 \<Rightarrow> u64 \<Rightarrow> ArenaBackend option" where
  "arena_free arena p n = Some arena"

text \<open>
  The heap behind \<^verbatim>\<open>posix_memalign\<close>: the blocks it has given out. \<open>memalign\<close> is its answer for the
  current blocks, an alignment and a size.
\<close>

record MallocBackend =
  mb_blocks :: "(u64 \<times> u64) list"
  mb_stats :: AllocStats

definition malloc_alloc ::
  "((u64 \<times> u64) list \<Rightarrow> u64 \<Rightarrow> u64 \<Rightarrow> u64 option) \<Rightarrow> MallocBackend \<Rightarrow> u64 \<Rightarrow> u64 \<Rightarrow> u64 option \<times> MallocBackend" where
  "malloc_alloc memalign mb n align =
     (let align = (if align < 8 then 8 else align) in
      case memalign (mb_blocks mb) align n of
        None \<Rightarrow> (None, mb)
      | Some p \<Rightarrow> (Some p, mb\<lparr>mb_blocks := (p, n) # mb_blocks mb, mb_stats := count_alloc n (mb_stats mb)\<rparr>))"

definition malloc_free :: "MallocBackend \<Rightarrow> u64 \<Rightarrow> u64 \<Rightarrow> MallocBackend option" where
  "malloc_free mb p n =
     (if p = 0 then Some mb
      else if p \<in> set (map fst (mb_blocks mb))
      then Some (mb\<lparr>mb_blocks := filter (\<lambda>b. fst b \<noteq> p) (mb_blocks mb)\<rparr>)
      else None)"

definition arena_vtable :: "ArenaBackend Allocator" where
  "arena_vtable = \<lparr>allocate = arena_alloc, deallocate = arena_free\<rparr>"

definition malloc_vtable ::
  "((u64 \<times> u64) list \<Rightarrow> u64 \<Rightarrow> u64 \<Rightarrow> u64 option) \<Rightarrow> MallocBackend Allocator" where
  "malloc_vtable memalign = \<lparr>allocate = malloc_alloc memalign, deallocate = malloc_free\<rparr>"

subsection \<open>The vector\<close>

text \<open>
  \<open>v_data\<close> is \<open>None\<close> for \<^verbatim>\<open>NULL\<close>. The memory maps the address of an \<^verbatim>\<open>int\<close> to its value; an access at
  an index beyond the capacity is undefined.
\<close>

record CustomVector =
  v_data :: "u64 option"
  v_size :: nat
  v_capacity :: nat

type_synonym int_memory = "nat \<Rightarrow> i32"

definition cell :: "u64 \<Rightarrow> nat \<Rightarrow> nat" where
  "cell p i = unat p + 4 * i"

definition vec_create :: CustomVector where
  "vec_create = \<lparr>v_data = None, v_size = 0, v_capacity = 0\<rparr>"

primrec copy_ints :: "u64 \<Rightarrow> u64 \<Rightarrow> nat \<Rightarrow> int_memory \<Rightarrow> int_memory" where
  "copy_ints dst src 0 m = m"
| "copy_ints dst src (Suc k) m =
     (let m = copy_ints dst src k m in m(cell dst k := m (cell src k)))"

definition vec_grow ::
  "'b Allocator \<Rightarrow> CustomVector \<Rightarrow> 'b \<Rightarrow> int_memory \<Rightarrow> (bool \<times> CustomVector \<times> 'b \<times> int_memory) option" where
  "vec_grow al vec b m =
     (let new_cap = (if v_capacity vec = 0 then 4 else v_capacity vec * 2);
          new_bytes = word_of_nat new_cap * 4;
          old_bytes = word_of_nat (v_capacity vec) * 4 in
      case allocate al b new_bytes 4 of
        (None, b) \<Rightarrow> Some (False, vec, b, m)
      | (Some new_data, b) \<Rightarrow>
          (case v_data vec of
             None \<Rightarrow>
               if 0 < v_size vec then None
               else Some (True, vec\<lparr>v_data := Some new_data, v_capacity := new_cap\<rparr>, b, m)
           | Some old \<Rightarrow>
               (let m = copy_ints new_data old (v_size vec) m in
                map_option (\<lambda>b. (True, vec\<lparr>v_data := Some new_data, v_capacity := new_cap\<rparr>, b, m))
                  (deallocate al b old old_bytes))))"

definition vec_push_back ::
  "'b Allocator \<Rightarrow> CustomVector \<Rightarrow> i32 \<Rightarrow> 'b \<Rightarrow> int_memory \<Rightarrow>
     (bool \<times> CustomVector \<times> 'b \<times> int_memory) option" where
  "vec_push_back al vec val b m =
     (case (if v_capacity vec \<le> v_size vec then vec_grow al vec b m else Some (True, vec, b, m)) of
        None \<Rightarrow> None
      | Some (False, vec, b, m) \<Rightarrow> Some (False, vec, b, m)
      | Some (True, vec, b, m) \<Rightarrow>
          (case v_data vec of
             None \<Rightarrow> None
           | Some p \<Rightarrow>
               if \<not> v_size vec < v_capacity vec then None
               else Some (True, vec\<lparr>v_size := v_size vec + 1\<rparr>, b, m(cell p (v_size vec) := val))))"

definition vec_destroy :: "'b Allocator \<Rightarrow> CustomVector \<Rightarrow> 'b \<Rightarrow> (CustomVector \<times> 'b) option" where
  "vec_destroy al vec b =
     (case v_data vec of
        None \<Rightarrow> Some (\<lparr>v_data = None, v_size = 0, v_capacity = 0\<rparr>, b)
      | Some p \<Rightarrow>
          map_option (\<lambda>b. (\<lparr>v_data = None, v_size = 0, v_capacity = 0\<rparr>, b))
            (deallocate al b p (word_of_nat (v_capacity vec) * 4)))"

text \<open>The loop of the test program: pushes until the first failure, counting the successes.\<close>

primrec push_all ::
  "'b Allocator \<Rightarrow> i32 list \<Rightarrow> CustomVector \<Rightarrow> 'b \<Rightarrow> int_memory \<Rightarrow>
     (nat \<times> CustomVector \<times> 'b \<times> int_memory) option" where
  "push_all al [] vec b m = Some (0, vec, b, m)"
| "push_all al (x # xs) vec b m =
     (case vec_push_back al vec x b m of
        None \<Rightarrow> None
      | Some (False, vec, b, m) \<Rightarrow> Some (0, vec, b, m)
      | Some (True, vec, b, m) \<Rightarrow>
          map_option (\<lambda>(n, r). (Suc n, r)) (push_all al xs vec b m))"

subsection \<open>The contract of an allocator\<close>

text \<open>
  A region is an address and a size. \<open>valid b L\<close> says that the backend \<open>b\<close> has the regions \<open>L\<close>
  given out and not taken back. Memory ends below \<open>2^60\<close>, which keeps every size computation in
  range.
\<close>

type_synonym region = "nat \<times> nat"

definition apart :: "region \<Rightarrow> region \<Rightarrow> bool" where
  "apart r s \<longleftrightarrow> fst r + snd r \<le> fst s \<or> fst s + snd s \<le> fst r"

definition region_of :: "u64 \<Rightarrow> u64 \<Rightarrow> region" where
  "region_of p n = (unat p, unat n)"

text \<open>The vector \<open>vec\<close> holds \<open>xs\<close> in the memory \<open>m\<close>, in a region of \<open>L\<close>.\<close>

definition vec_rep :: "CustomVector \<Rightarrow> i32 list \<Rightarrow> region set \<Rightarrow> int_memory \<Rightarrow> bool" where
  "vec_rep vec xs L m \<longleftrightarrow>
     v_size vec = length xs \<and> length xs \<le> v_capacity vec \<and>
     (case v_data vec of
        None \<Rightarrow> v_capacity vec = 0
      | Some p \<Rightarrow> 0 < v_capacity vec \<and> 4 dvd unat p \<and> (unat p, 4 * v_capacity vec) \<in> L \<and>
          (\<forall>i < length xs. m (cell p i) = xs ! i))"

definition vec_region :: "CustomVector \<Rightarrow> region set" where
  "vec_region vec = (case v_data vec of None \<Rightarrow> {} | Some p \<Rightarrow> {(unat p, 4 * v_capacity vec)})"

lemma vec_region_size [simp]: "vec_region (vec\<lparr>v_size := n\<rparr>) = vec_region vec"
  by (simp add: vec_region_def cong: option.case_cong)

lemma copy_ints_other: "(\<And>i. i < k \<Longrightarrow> a \<noteq> cell dst i) \<Longrightarrow> copy_ints dst src k m a = m a"
  by (induction k) (auto simp: Let_def)

lemma copy_ints_at:
  assumes "\<And>i j. i < k \<Longrightarrow> j < k \<Longrightarrow> cell dst i \<noteq> cell src j" "j < k"
  shows "copy_ints dst src k m (cell dst j) = m (cell src j)"
  using assms
proof (induction k)
  case (Suc k)
  have o: "copy_ints dst src k m (cell src k) = m (cell src k)"
    by (rule copy_ints_other) (metis Suc.prems(1) lessI less_SucI)
  show ?case
  proof (cases "j = k")
    case True
    then show ?thesis by (simp add: Let_def o)
  next
    case False
    then have "j < k" using Suc.prems(2) by simp
    then have "copy_ints dst src k m (cell dst j) = m (cell src j)" using Suc by simp
    moreover have "cell dst j \<noteq> cell dst k" using \<open>j < k\<close> by (simp add: cell_def)
    ultimately show ?thesis by (simp add: Let_def)
  qed
qed simp

lemma cell_apart:
  "apart (unat p, 4 * c) (unat q, 4 * d) \<Longrightarrow> i < c \<Longrightarrow> j < d \<Longrightarrow> cell p i \<noteq> cell q j"
  by (auto simp: apart_def cell_def)

lemma unat_bytes: "c \<le> 2 ^ 60 \<Longrightarrow> unat (word_of_nat c * 4 :: u64) = 4 * c"
proof -
  assume c: "c \<le> 2 ^ 60"
  have "unat (word_of_nat (c * 4) :: u64) = c * 4"
    using c by (simp add: unsigned_of_nat take_bit_nat_eq_self_iff del: of_nat_mult)
  then show ?thesis by (simp add: mult.commute)
qed

locale allocator_contract =
  fixes al :: "'b Allocator"
    and valid :: "'b \<Rightarrow> region set \<Rightarrow> bool"
  assumes allocate_some:
      "valid b L \<Longrightarrow> 0 < unat n \<Longrightarrow> unat n \<le> 2 ^ 61 \<Longrightarrow> allocate al b n 4 = (Some p, b') \<Longrightarrow>
         valid b' (insert (region_of p n) L) \<and> region_of p n \<notin> L \<and>
         (\<forall>r\<in>L. apart (region_of p n) r) \<and> 4 dvd unat p"
    and allocate_none:
      "valid b L \<Longrightarrow> 0 < unat n \<Longrightarrow> unat n \<le> 2 ^ 61 \<Longrightarrow> allocate al b n 4 = (None, b') \<Longrightarrow> valid b' L"
    and deallocate_live:
      "valid b L \<Longrightarrow> region_of p n \<in> L \<Longrightarrow> 0 < unat n \<Longrightarrow>
         \<exists>b'. deallocate al b p n = Some b' \<and> valid b' (L - {region_of p n})"
    and memory_end: "valid b L \<Longrightarrow> (a, s) \<in> L \<Longrightarrow> a + s \<le> 2 ^ 60"
begin

text \<open>
  Growing and appending: either the allocator refuses and nothing changes, or the vector holds
  what it should, in a region of its own, and the rest of the memory is as before.
\<close>

lemma grow_spec:
  assumes v: "valid b L" and r: "vec_rep vec xs L m" and full: "length xs = v_capacity vec"
  shows "\<exists>ok vec' b' L' m'. vec_grow al vec b m = Some (ok, vec', b', m') \<and> valid b' L' \<and>
    vec_rep vec' xs L' m' \<and> L' - vec_region vec' = L - vec_region vec \<and>
    (if ok then length xs < v_capacity vec' \<and> (\<exists>p. v_data vec' = Some p) else vec' = vec \<and> m' = m)"
proof -
  let ?c = "if v_capacity vec = 0 then 4 else v_capacity vec * 2"
  let ?n = "word_of_nat ?c * 4 :: u64"
  have old: "4 * v_capacity vec \<le> 2 ^ 60"
    using r memory_end [OF v] by (cases "v_data vec") (auto simp: vec_rep_def dest!: memory_end [OF v])
  then have n: "unat ?n = 4 * ?c" by (intro unat_bytes) simp
  then have n0: "0 < unat ?n" "unat ?n \<le> 2 ^ 61" using old by auto
  obtain q b1 where al: "allocate al b ?n 4 = (q, b1)" by fastforce
  show ?thesis
  proof (cases q)
    case None
    then show ?thesis using allocate_none [OF v n0, of b1] al r v
      by (intro exI [of _ False] exI [of _ vec] exI [of _ b1] exI [of _ L] exI [of _ m])
        (simp add: vec_grow_def)
  next
    case (Some p)
    let ?R = "(unat p, 4 * ?c)"
    let ?v = "vec\<lparr>v_data := Some p, v_capacity := ?c\<rparr>"
    have R: "region_of p ?n = ?R" by (simp add: region_of_def n)
    have s: "valid b1 (insert ?R L)" "?R \<notin> L" "\<And>r. r \<in> L \<Longrightarrow> apart ?R r" "4 dvd unat p"
      using allocate_some [OF v n0, of p b1] al Some unfolding R by auto
    show ?thesis
    proof (cases "v_data vec")
      case N: None
      then have "xs = []" "v_capacity vec = 0" "v_size vec = 0" using r by (auto simp: vec_rep_def)
      then show ?thesis using s al Some N r
        by (intro exI [of _ True] exI [of _ ?v] exI [of _ b1] exI [of _ "insert ?R L"] exI [of _ m])
          (auto simp: vec_grow_def vec_rep_def vec_region_def)
    next
      case O: (Some old)
      let ?O = "(unat old, 4 * v_capacity vec)"
      let ?m = "copy_ints p old (length xs) m"
      have o: "?O \<in> L" "0 < v_capacity vec" "4 dvd unat old" "v_size vec = length xs"
        "\<And>i. i < length xs \<Longrightarrow> m (cell old i) = xs ! i"
        using r O by (auto simp: vec_rep_def)
      have ob: "unat (word_of_nat (v_capacity vec) * 4 :: u64) = 4 * v_capacity vec"
        using old by (intro unat_bytes) simp
      then have RO: "region_of old (word_of_nat (v_capacity vec) * 4) = ?O" by (simp add: region_of_def)
      obtain b2 where d: "deallocate al b1 old (word_of_nat (v_capacity vec) * 4) = Some b2"
          "valid b2 (insert ?R L - {?O})"
        using deallocate_live [OF s(1), of old "word_of_nat (v_capacity vec) * 4"] o RO ob by auto
      have ne: "?R \<noteq> ?O" using s(2) o(1) by auto
      have cp: "?m (cell p i) = xs ! i" if "i < length xs" for i
      proof -
        have "?m (cell p i) = m (cell old i)"
        proof (rule copy_ints_at [OF _ that])
          fix i j assume "i < length xs" "j < length xs"
          then show "cell p i \<noteq> cell old j"
            using cell_apart [OF s(3) [OF o(1)], of i j] full by auto
        qed
        then show ?thesis using o(5) that by simp
      qed
      have g: "vec_grow al vec b m = Some (True, ?v, b2, ?m)"
        using al Some O d(1) by (simp add: vec_grow_def Let_def o(4))
      have "vec_rep ?v xs (insert ?R L - {?O}) ?m"
        using cp s(4) ne o full by (auto simp: vec_rep_def)
      moreover have "insert ?R L - {?O} - vec_region ?v = L - vec_region vec"
        using s(2) O by (auto simp: vec_region_def)
      ultimately show ?thesis using g d(2) full o(2)
        by (intro exI [of _ True] exI [of _ ?v] exI [of _ b2] exI [of _ "insert ?R L - {?O}"] exI [of _ ?m])
          simp
    qed
  qed
qed

lemma store_rep:
  assumes "vec_rep vec xs L m" "v_data vec = Some p" "length xs < v_capacity vec"
  shows "vec_rep (vec\<lparr>v_size := v_size vec + 1\<rparr>) (xs @ [x]) L (m(cell p (v_size vec) := x))"
  using assms by (auto simp: vec_rep_def nth_append cell_def less_Suc_eq)

lemma push_spec:
  assumes v: "valid b L" and r: "vec_rep vec xs L m"
  shows "\<exists>ok vec' b' L' m'. vec_push_back al vec x b m = Some (ok, vec', b', m') \<and> valid b' L' \<and>
    vec_rep vec' (if ok then xs @ [x] else xs) L' m' \<and> L' - vec_region vec' = L - vec_region vec \<and>
    (\<not> ok \<longrightarrow> vec' = vec \<and> m' = m \<and> length xs = v_capacity vec)"
proof (cases "length xs = v_capacity vec")
  case True
  then obtain ok v1 b1 L1 m1 where g: "vec_grow al vec b m = Some (ok, v1, b1, m1)" "valid b1 L1"
      "vec_rep v1 xs L1 m1" "L1 - vec_region v1 = L - vec_region vec"
      "if ok then length xs < v_capacity v1 \<and> (\<exists>p. v_data v1 = Some p) else v1 = vec \<and> m1 = m"
    using grow_spec [OF v r] by blast
  have "v_size vec = length xs" using r by (simp add: vec_rep_def)
  then have full: "v_capacity vec \<le> v_size vec" using True by simp
  show ?thesis
  proof (cases ok)
    case False
    then show ?thesis using g full True
      by (intro exI [of _ False] exI [of _ v1] exI [of _ b1] exI [of _ L1] exI [of _ m1])
        (simp add: vec_push_back_def)
  next
    case ok: True
    then obtain p where p: "v_data v1 = Some p" "length xs < v_capacity v1" using g(5) by auto
    have "v_size v1 = length xs" using g(3) by (simp add: vec_rep_def)
    then have "vec_push_back al vec x b m =
        Some (True, v1\<lparr>v_size := v_size v1 + 1\<rparr>, b1, m1(cell p (v_size v1) := x))"
      using g(1) ok full p by (simp add: vec_push_back_def)
    then show ?thesis using store_rep [OF g(3) p, of x] g(2,4)
      by (intro exI [of _ True] exI [of _ "v1\<lparr>v_size := v_size v1 + 1\<rparr>"] exI [of _ b1] exI [of _ L1]
          exI [of _ "m1(cell p (v_size v1) := x)"]) simp
  qed
next
  case False
  then have lt: "length xs < v_capacity vec" "v_size vec = length xs" using r by (auto simp: vec_rep_def)
  then obtain p where p: "v_data vec = Some p" using r by (cases "v_data vec") (auto simp: vec_rep_def)
  have "vec_push_back al vec x b m =
      Some (True, vec\<lparr>v_size := v_size vec + 1\<rparr>, b, m(cell p (v_size vec) := x))"
    using lt p by (simp add: vec_push_back_def)
  then show ?thesis using store_rep [OF r p lt(1), of x] v
    by (intro exI [of _ True] exI [of _ "vec\<lparr>v_size := v_size vec + 1\<rparr>"] exI [of _ b] exI [of _ L]
        exI [of _ "m(cell p (v_size vec) := x)"]) simp
qed

lemma push_all_spec:
  assumes "valid b L" "vec_rep vec xs L m"
  shows "\<exists>n vec' b' L' m'. push_all al ys vec b m = Some (n, vec', b', m') \<and> valid b' L' \<and>
    n \<le> length ys \<and> vec_rep vec' (xs @ take n ys) L' m' \<and> L' - vec_region vec' = L - vec_region vec \<and>
    (n < length ys \<longrightarrow> length xs + n = v_capacity vec')"
  using assms
proof (induction ys arbitrary: vec b L m xs)
  case Nil
  then show ?case by auto
next
  case (Cons y ys)
  obtain ok v1 b1 L1 m1 where p: "vec_push_back al vec y b m = Some (ok, v1, b1, m1)" "valid b1 L1"
      "vec_rep v1 (if ok then xs @ [y] else xs) L1 m1" "L1 - vec_region v1 = L - vec_region vec"
      "\<not> ok \<longrightarrow> v1 = vec \<and> m1 = m \<and> length xs = v_capacity vec"
    using push_spec [OF Cons.prems] by blast
  show ?case
  proof (cases ok)
    case False
    then show ?thesis using p
      by (intro exI [of _ 0] exI [of _ v1] exI [of _ b1] exI [of _ L1] exI [of _ m1]) simp
  next
    case True
    then obtain n v2 b2 L2 m2 where i: "push_all al ys v1 b1 m1 = Some (n, v2, b2, m2)" "valid b2 L2"
        "n \<le> length ys" "vec_rep v2 ((xs @ [y]) @ take n ys) L2 m2" "L2 - vec_region v2 = L1 - vec_region v1"
        "n < length ys \<longrightarrow> length (xs @ [y]) + n = v_capacity v2"
      using Cons.IH [OF p(2), of v1 "xs @ [y]" m1] p(3) by auto
    then show ?thesis using p True
      by (intro exI [of _ "Suc n"] exI [of _ v2] exI [of _ b2] exI [of _ L2] exI [of _ m2]) simp
  qed
qed

lemma destroy_spec:
  assumes v: "valid b L" and r: "vec_rep vec xs L m"
  shows "\<exists>b'. vec_destroy al vec b = Some (vec_create, b') \<and> valid b' (L - vec_region vec)"
proof (cases "v_data vec")
  case None
  then show ?thesis using v by (simp add: vec_destroy_def vec_create_def vec_region_def)
next
  case (Some p)
  then have p: "(unat p, 4 * v_capacity vec) \<in> L" "0 < v_capacity vec"
    using r by (auto simp: vec_rep_def)
  then have n: "unat (word_of_nat (v_capacity vec) * 4 :: u64) = 4 * v_capacity vec"
    using memory_end [OF v p(1)] by (intro unat_bytes) simp
  then show ?thesis using deallocate_live [OF v, of p "word_of_nat (v_capacity vec) * 4"] p Some
    by (auto simp: vec_destroy_def vec_create_def vec_region_def region_of_def)
qed

text \<open>The whole life of a vector, from an allocator with the regions \<open>L\<close> given out.\<close>

lemma vector_life:
  assumes "valid b L"
  shows "\<exists>n vec b1 m' b2. push_all al xs vec_create b m = Some (n, vec, b1, m') \<and> n \<le> length xs \<and>
    v_size vec = n \<and> (\<forall>i < n. \<exists>p. v_data vec = Some p \<and> m' (cell p i) = xs ! i) \<and>
    (n < length xs \<longrightarrow> n = v_capacity vec) \<and>
    vec_destroy al vec b1 = Some (vec_create, b2) \<and> valid b2 L"
proof -
  have "vec_rep vec_create [] L m" by (simp add: vec_rep_def vec_create_def)
  then obtain n vec b1 L1 m' where p: "push_all al xs vec_create b m = Some (n, vec, b1, m')" "valid b1 L1"
      "n \<le> length xs" "vec_rep vec (take n xs) L1 m'" "L1 - vec_region vec = L"
      "n < length xs \<longrightarrow> n = v_capacity vec"
    using push_all_spec [OF assms, of vec_create "[]" m xs]
    by (auto simp: vec_region_def vec_create_def)
  obtain b2 where d: "vec_destroy al vec b1 = Some (vec_create, b2)" "valid b2 L"
    using destroy_spec [OF p(2,4)] p(5) by auto
  have "\<exists>p. v_data vec = Some p \<and> m' (cell p i) = xs ! i" if "i < n" for i
    using p(3,4) that by (auto simp: vec_rep_def split: option.splits)
  moreover have "v_size vec = n" using p(3,4) by (simp add: vec_rep_def)
  ultimately show ?thesis using p d by blast
qed

end

subsection \<open>The arena keeps the contract\<close>

lemma power_of_two_word:
  assumes "k < 64"
  shows "(2 ^ k :: u64) \<noteq> 0" "2 ^ k AND (2 ^ k - 1 :: u64) = 0" "(2 ^ k :: u64) - 1 = mask k"
    "unat (mask k :: u64) = 2 ^ k - 1"
proof -
  show m: "(2 ^ k :: u64) - 1 = mask k" by (simp add: mask_eq_exp_minus_1)
  show "(2 ^ k :: u64) \<noteq> 0" using assms by simp
  show "2 ^ k AND (2 ^ k - 1 :: u64) = 0"
    unfolding m by (rule bit_word_eqI) (auto simp: bit_simps)
  show "unat (mask k :: u64) = 2 ^ k - 1"
  proof -
    have u: "unat (2 ^ k :: u64) = 2 ^ k" using assms by (simp add: unat_pow2)
    have "unat (2 ^ k - 1 :: u64) = unat (2 ^ k :: u64) - unat (1 :: u64)"
      by (intro unat_sub) (simp add: word_le_nat_alt u)
    then show ?thesis by (simp add: u flip: m)
  qed
qed

definition round_up :: "nat \<Rightarrow> nat \<Rightarrow> nat" where
  "round_up k x = (x + 2 ^ k - 1) div 2 ^ k * 2 ^ k"

lemma round_up_bounds: "x \<le> round_up k x" "round_up k x < x + 2 ^ k" "2 ^ k dvd round_up k x"
proof -
  let ?y = "x + 2 ^ k - 1"
  have e: "?y = ?y div 2 ^ k * 2 ^ k + ?y mod 2 ^ k" by (rule div_mult_mod_eq [symmetric])
  have l: "?y mod 2 ^ k < 2 ^ k" by simp
  have "(0::nat) < 2 ^ k" by simp
  then show "x \<le> round_up k x" "round_up k x < x + 2 ^ k" using e l unfolding round_up_def by linarith+
  show "2 ^ k dvd round_up k x" by (simp add: round_up_def)
qed

lemma unat_plus_small: "unat (a::u64) + unat b < 2 ^ 64 \<Longrightarrow> unat (a + b) = unat a + unat b"
  by (simp add: unat_word_ariths)

lemma arena_alloc_spec:
  assumes "unat (ab_buffer b) + unat (ab_capacity b) \<le> 2 ^ 60" "unat (ab_offset b) \<le> unat (ab_capacity b)"
    "k \<le> 60" "unat n \<le> 2 ^ 62"
  defines "q \<equiv> round_up k (unat (ab_buffer b) + unat (ab_offset b))"
  shows "\<exists>p off. unat p = q \<and> unat off = q - unat (ab_buffer b) + unat n \<and>
    arena_alloc b n (2 ^ k) =
      (if unat (ab_capacity b) < q - unat (ab_buffer b) + unat n then (None, b)
       else (Some p, b\<lparr>ab_offset := off, ab_stats := count_alloc n (ab_stats b)\<rparr>))"
proof -
  let ?cur = "ab_buffer b + ab_offset b"
  let ?p = "(?cur + mask k) AND NOT (mask k)"
  let ?pad = "?p - ?cur"
  have k: "k < 64" using assms(3) by simp
  have k2: "(2::nat) ^ k \<le> 2 ^ 60" using assms(3) by (intro power_increasing) auto
  have k0: "(0::nat) < 2 ^ k" by simp
  have cur: "unat ?cur = unat (ab_buffer b) + unat (ab_offset b)"
    using assms(1,2) by (intro unat_plus_small) simp
  have s: "unat (?cur + mask k) = unat ?cur + 2 ^ k - 1"
    using power_of_two_word(4) [OF k] cur assms(1,2) k2 k0 by (subst unat_plus_small) simp_all
  have p: "unat ?p = q"
    using s cur by (simp add: unat_and_not_mask q_def round_up_def)
  have qb: "unat ?cur \<le> q" "q < unat ?cur + 2 ^ k"
    using round_up_bounds(1,2) [where x = "unat ?cur" and k = k] cur unfolding q_def by auto
  have pad: "unat ?pad = q - unat ?cur"
    using p qb by (simp add: unat_sub word_le_nat_alt)
  have o1: "unat (ab_offset b + ?pad) = unat (ab_offset b) + (q - unat ?cur)"
    using pad qb k2 assms(1,2) by (subst unat_plus_small) simp_all
  have o2: "unat (ab_offset b + ?pad + n) = unat (ab_offset b) + (q - unat ?cur) + unat n"
    using o1 pad qb k2 assms(1,2,4) by (subst unat_plus_small) simp_all
  have o3: "unat (ab_offset b) + (q - unat ?cur) + unat n = q - unat (ab_buffer b) + unat n"
    using cur qb by simp
  have "arena_alloc b n (2 ^ k) =
      (if ab_capacity b < ab_offset b + ?pad + n then (None, b)
       else (Some ?p, b\<lparr>ab_offset := ab_offset b + (?pad + n), ab_stats := count_alloc n (ab_stats b)\<rparr>))"
  proof -
    have "?cur + 2 ^ k - 1 = ?cur + mask k" using power_of_two_word(3) [OF k] by (simp add: algebra_simps)
    then show ?thesis
      unfolding arena_alloc_def Let_def using power_of_two_word(1-3) [OF k] by (simp only: if_False de_Morgan_disj simp_thms)
  qed
  moreover have "ab_capacity b < ab_offset b + ?pad + n \<longleftrightarrow>
      unat (ab_capacity b) < q - unat (ab_buffer b) + unat n"
    using o2 o3 by (simp add: word_less_nat_alt)
  moreover have "ab_offset b + ?pad + n = ab_offset b + (?pad + n)" by simp
  ultimately show ?thesis using p o2 o3
    by (intro exI [of _ ?p] exI [of _ "ab_offset b + ?pad + n"]) (simp del: add.assoc)
qed

definition arena_valid :: "ArenaBackend \<Rightarrow> region set \<Rightarrow> bool" where
  "arena_valid b L \<longleftrightarrow>
     ab_buffer b \<noteq> 0 \<and> unat (ab_buffer b) + unat (ab_capacity b) \<le> 2 ^ 60 \<and>
     unat (ab_offset b) \<le> unat (ab_capacity b) \<and>
     (\<forall>(a, s)\<in>L. 0 < s \<and> unat (ab_buffer b) \<le> a \<and> a + s \<le> unat (ab_buffer b) + unat (ab_offset b))"

lemma arena_alloc_valid:
  assumes v: "arena_valid b L" and n: "0 < unat n" "unat n \<le> 2 ^ 62" and k: "k \<le> 60"
  shows "case arena_alloc b n (2 ^ k) of
      (None, b') \<Rightarrow> b' = b
    | (Some p, b') \<Rightarrow> arena_valid b' (insert (region_of p n) L) \<and> region_of p n \<notin> L \<and>
        (\<forall>r\<in>L. apart (region_of p n) r) \<and> 2 ^ k dvd unat p"
proof -
  have v': "unat (ab_buffer b) + unat (ab_capacity b) \<le> 2 ^ 60" "unat (ab_offset b) \<le> unat (ab_capacity b)"
    using v by (auto simp: arena_valid_def)
  define q where "q = round_up k (unat (ab_buffer b) + unat (ab_offset b))"
  obtain p off where a: "unat p = q" "unat off = q - unat (ab_buffer b) + unat n"
      "arena_alloc b n (2 ^ k) =
        (if unat (ab_capacity b) < q - unat (ab_buffer b) + unat n then (None, b)
         else (Some p, b\<lparr>ab_offset := off, ab_stats := count_alloc n (ab_stats b)\<rparr>))"
    using arena_alloc_spec [OF v' k n(2)] unfolding q_def by blast
  have q: "unat (ab_buffer b) + unat (ab_offset b) \<le> q" "2 ^ k dvd q"
    unfolding q_def by (rule round_up_bounds)+
  have L: "0 < s" "unat (ab_buffer b) \<le> x" "x + s \<le> unat (ab_buffer b) + unat (ab_offset b)"
    if "(x, s) \<in> L" for x s using v that by (auto simp: arena_valid_def)
  show ?thesis
  proof (cases "unat (ab_capacity b) < q - unat (ab_buffer b) + unat n")
    case False
    have ap: "\<forall>r\<in>L. apart (region_of p n) r"
      using L(3) a(1) q(1) by (fastforce simp: apart_def region_of_def)
    have "region_of p n \<notin> L"
      using L(3) [of q "unat n"] a(1) q(1) n(1) by (auto simp: region_of_def)
    moreover have "arena_valid (b\<lparr>ab_offset := off, ab_stats := count_alloc n (ab_stats b)\<rparr>)
        (insert (region_of p n) L)"
      using v False a(1,2) q(1) n(1) by (fastforce simp: arena_valid_def region_of_def)
    ultimately show ?thesis using a(1,3) q(2) False ap by simp
  qed (simp add: a(3))
qed

interpretation arena: allocator_contract arena_vtable arena_valid
proof unfold_locales
  fix b L n p b'
  assume v: "arena_valid b L" and n: "0 < unat (n::u64)" "unat n \<le> 2 ^ 61"
  then have n62: "unat n \<le> 2 ^ 62" by simp
  have k: "(2::nat) \<le> 60" by simp
  note a = arena_alloc_valid [OF v n(1) n62 k]
  show "allocate arena_vtable b n 4 = (None, b') \<Longrightarrow> arena_valid b' L"
    using a v by (simp add: arena_vtable_def)
  show "allocate arena_vtable b n 4 = (Some p, b') \<Longrightarrow>
      arena_valid b' (insert (region_of p n) L) \<and> region_of p n \<notin> L \<and>
      (\<forall>r\<in>L. apart (region_of p n) r) \<and> 4 dvd unat p"
    using a by (simp add: arena_vtable_def)
next
  fix b L p n
  assume "arena_valid b L" "region_of p n \<in> L"
  then show "\<exists>b'. deallocate arena_vtable b p n = Some b' \<and> arena_valid b' (L - {region_of p n})"
    by (auto simp: arena_vtable_def arena_free_def arena_valid_def)
next
  fix b L a s
  assume "arena_valid b L" "(a, s) \<in> L"
  then show "a + s \<le> 2 ^ 60" by (fastforce simp: arena_valid_def)
qed

subsection \<open>The malloc backend keeps the contract\<close>

text \<open>
  What \<^verbatim>\<open>posix_memalign\<close> promises: a non-null address that is a multiple of the alignment, of a
  region that overlaps no block given out, below the end of memory. It may also refuse.
\<close>

definition memalign_ok :: "((u64 \<times> u64) list \<Rightarrow> u64 \<Rightarrow> u64 \<Rightarrow> u64 option) \<Rightarrow> bool" where
  "memalign_ok f \<longleftrightarrow>
     (\<forall>bs al n p. f bs al n = Some p \<and> n \<noteq> 0 \<longrightarrow>
        p \<noteq> 0 \<and> unat al dvd unat p \<and> unat p + unat n \<le> 2 ^ 60 \<and>
        (\<forall>(q, s)\<in>set bs. apart (region_of p n) (region_of q s)))"

definition memalign_bump :: "(u64 \<times> u64) list \<Rightarrow> u64 \<Rightarrow> u64 \<Rightarrow> u64 option" where
  "memalign_bump bs al n =
     (let top = foldr (\<lambda>(q, s) t. max (unat q + unat s) t) bs 4096;
          p = (top div unat al + 1) * unat al in
      if p = 0 \<or> 2 ^ 20 < p + unat n then None else Some (word_of_nat p))"

lemma memalign_bump_ok: "memalign_ok memalign_bump"
  unfolding memalign_ok_def
proof (intro allI impI)
  fix bs al n p
  assume a: "memalign_bump bs al n = Some p \<and> n \<noteq> 0"
  define top where "top = foldr (\<lambda>(q, s) t. max (unat q + unat s) t) bs 4096"
  define x where "x = (top div unat al + 1) * unat al"
  have x: "x \<noteq> 0" "x + unat n \<le> 2 ^ 20" "p = word_of_nat x"
    using a by (auto simp: memalign_bump_def Let_def top_def x_def split: if_splits)
  then have ux: "unat p = x" by (simp add: unsigned_of_nat take_bit_nat_eq_self_iff)
  have "unat al \<noteq> 0" using x(1) by (auto simp: x_def)
  then have "top < x" unfolding x_def
    by (metis Suc_eq_plus1 dividend_less_div_times gr0I mult.commute mult_Suc add.commute)
  moreover have "\<forall>(q, s)\<in>set bs. unat q + unat s \<le> top"
    unfolding top_def by (induction bs) auto
  ultimately have "\<forall>(q, s)\<in>set bs. apart (region_of p n) (region_of q s)"
    by (fastforce simp: apart_def region_of_def ux)
  moreover have "unat al dvd x" by (simp add: x_def)
  moreover have "p \<noteq> 0" using x(1) ux by auto
  moreover have "x + unat n \<le> 2 ^ 60" using x(2) by simp
  ultimately show "p \<noteq> 0 \<and> unat al dvd unat p \<and> unat p + unat n \<le> 2 ^ 60 \<and>
      (\<forall>(q, s)\<in>set bs. apart (region_of p n) (region_of q s))" unfolding ux by blast
qed

definition malloc_valid :: "MallocBackend \<Rightarrow> region set \<Rightarrow> bool" where
  "malloc_valid mb L \<longleftrightarrow>
     L = (\<lambda>(p, n). region_of p n) ` set (mb_blocks mb) \<and> distinct (map fst (mb_blocks mb)) \<and>
     (\<forall>(p, n)\<in>set (mb_blocks mb). p \<noteq> 0 \<and> n \<noteq> 0 \<and> unat p + unat n \<le> 2 ^ 60)"

lemma region_of_inject: "region_of p n = region_of q s \<longleftrightarrow> p = q \<and> n = s"
  by (simp add: region_of_def word_unat_eq_iff)

lemma malloc_alloc_valid:
  assumes f: "memalign_ok f" and v: "malloc_valid mb L" and n: "n \<noteq> 0"
    and a: "malloc_alloc f mb n 4 = (Some p, mb')"
  shows "malloc_valid mb' (insert (region_of p n) L) \<and> region_of p n \<notin> L \<and>
    (\<forall>r\<in>L. apart (region_of p n) r) \<and> 4 dvd unat p"
proof -
  have p: "f (mb_blocks mb) 8 n = Some p"
    "mb' = mb\<lparr>mb_blocks := (p, n) # mb_blocks mb, mb_stats := count_alloc n (mb_stats mb)\<rparr>"
    using a by (auto simp: malloc_alloc_def split: option.splits)
  then have ok: "p \<noteq> 0" "unat (8::u64) dvd unat p" "unat p + unat n \<le> 2 ^ 60"
      "\<forall>(q, s)\<in>set (mb_blocks mb). apart (region_of p n) (region_of q s)"
    using f n unfolding memalign_ok_def by blast+
  have n0: "0 < unat n" using n by (simp add: unat_gt_0)
  have L: "L = (\<lambda>(p, n). region_of p n) ` set (mb_blocks mb)"
    "\<And>q s. (q, s) \<in> set (mb_blocks mb) \<Longrightarrow> 0 < unat s" "distinct (map fst (mb_blocks mb))"
    using v by (auto simp: malloc_valid_def unat_gt_0)
  have ap: "\<forall>r\<in>L. apart (region_of p n) r" using ok(4) L(1) by auto
  have np: "p \<notin> fst ` set (mb_blocks mb)"
  proof
    assume "p \<in> fst ` set (mb_blocks mb)"
    then obtain s where s: "(p, s) \<in> set (mb_blocks mb)" by auto
    then show False using ok(4) L(2) [OF s] n0 by (fastforce simp: apart_def region_of_def)
  qed
  then have "region_of p n \<notin> L" using L(1) by (auto simp: region_of_inject image_iff)
  moreover have "(4::nat) dvd unat p" using ok(2) by (rule dvd_trans [rotated]) simp
  moreover have "malloc_valid mb' (insert (region_of p n) L)"
    using v p(2) ok n np by (auto simp: malloc_valid_def)
  ultimately show ?thesis using ap by blast
qed

lemma malloc_free_valid:
  assumes v: "malloc_valid mb L" and r: "region_of p n \<in> L"
  shows "\<exists>mb'. malloc_free mb p n = Some mb' \<and> malloc_valid mb' (L - {region_of p n})"
proof -
  let ?bs = "filter (\<lambda>b. fst b \<noteq> p) (mb_blocks mb)"
  have L: "L = (\<lambda>(p, n). region_of p n) ` set (mb_blocks mb)" "distinct (map fst (mb_blocks mb))"
      "\<And>p n. (p, n) \<in> set (mb_blocks mb) \<Longrightarrow> p \<noteq> 0 \<and> n \<noteq> 0 \<and> unat p + unat n \<le> 2 ^ 60"
    using v unfolding malloc_valid_def by fast+
  have p: "(p, n) \<in> set (mb_blocks mb)" using r unfolding L(1) by (auto simp: region_of_inject)
  then have nz: "p \<noteq> 0" "p \<in> fst ` set (mb_blocks mb)" using L(3) by force+
  have only: "s = n" if "(p, s) \<in> set (mb_blocks mb)" for s
    using L(2) that p by (rule eq_key_imp_eq_value)
  have "L - {region_of p n} = (\<lambda>(p, n). region_of p n) ` set ?bs"
  proof -
    have "set ?bs = set (mb_blocks mb) - {(p, n)}" using only by fastforce
    moreover have "inj (\<lambda>(p, n). region_of p n)" by (auto simp: inj_def region_of_inject)
    ultimately show ?thesis unfolding L(1) by (simp add: image_set_diff)
  qed
  moreover have "distinct (map fst ?bs)" using L(2) by (rule distinct_map_filter)
  ultimately have "malloc_valid (mb\<lparr>mb_blocks := ?bs\<rparr>) (L - {region_of p n})"
    using L(3) by (auto simp: malloc_valid_def)
  then show ?thesis using nz by (simp add: malloc_free_def)
qed

lemma malloc_contract: "memalign_ok f \<Longrightarrow> allocator_contract (malloc_vtable f) malloc_valid"
proof unfold_locales
  fix b L n p b'
  assume f: "memalign_ok f" and v: "malloc_valid b L" and n: "0 < unat (n::u64)"
  then have "n \<noteq> 0" by auto
  then show "allocate (malloc_vtable f) b n 4 = (Some p, b') \<Longrightarrow>
      malloc_valid b' (insert (region_of p n) L) \<and> region_of p n \<notin> L \<and>
      (\<forall>r\<in>L. apart (region_of p n) r) \<and> 4 dvd unat p"
    using malloc_alloc_valid [OF f v, of n p b'] by (simp add: malloc_vtable_def)
  show "allocate (malloc_vtable f) b n 4 = (None, b') \<Longrightarrow> malloc_valid b' L"
    using v by (auto simp: malloc_vtable_def malloc_alloc_def split: option.splits)
next
  fix b L p n
  assume "malloc_valid b L" "region_of p n \<in> L"
  then show "\<exists>b'. deallocate (malloc_vtable f) b p n = Some b' \<and> malloc_valid b' (L - {region_of p n})"
    using malloc_free_valid by (simp add: malloc_vtable_def)
next
  fix b L a s
  assume "malloc_valid b L" "(a, s) \<in> L"
  then show "a + s \<le> 2 ^ 60" by (fastforce simp: malloc_valid_def region_of_def)
qed

subsection \<open>Properties\<close>

text \<open>C24: On a backend whose buffer ends below 2^60, arena_alloc of at most 2^62 bytes (so that offset, padding and size do not
  wrap around) with a power-of-two alignment of at most 2^60 either
  refuses and changes nothing, or returns an aligned region inside the buffer that overlaps no
  region given out before.\<close>

theorem arena_alloc_separate:
  assumes "arena_valid b L" "0 < unat n" "unat n \<le> 2 ^ 62" "k \<le> 60"
  shows "case arena_alloc b n (2 ^ k) of
      (None, b') \<Rightarrow> b' = b
    | (Some p, b') \<Rightarrow> arena_valid b' (insert (region_of p n) L) \<and> region_of p n \<notin> L \<and>
        (\<forall>r\<in>L. apart (region_of p n) r) \<and> 2 ^ k dvd unat p"
  using assms by (rule arena_alloc_valid)

theorem arena_alloc_separate_witness:
  "case arena_alloc \<lparr>ab_buffer = 4096, ab_capacity = 100, ab_offset = 5,
        ab_stats = \<lparr>alloc_calls = 1, bytes_allocated = 5\<rparr>\<rparr> 16 (2 ^ 3) of
      (None, b') \<Rightarrow> b' = \<lparr>ab_buffer = 4096, ab_capacity = 100, ab_offset = 5,
        ab_stats = \<lparr>alloc_calls = 1, bytes_allocated = 5\<rparr>\<rparr>
    | (Some p, b') \<Rightarrow> arena_valid b' (insert (region_of p 16) {(4096, 5)}) \<and>
        region_of p 16 \<notin> {(4096, 5)} \<and> (\<forall>r\<in>{(4096, 5)}. apart (region_of p 16) r) \<and> 2 ^ 3 dvd unat p"
  by (rule arena_alloc_separate) (simp_all add: arena_valid_def)

text \<open>A vector on an arena: whatever is pushed, the vector holds exactly the values pushed before
  the first refusal, it is full then, and destroying it is defined and empties it. The arena only
  has to end below 2^60.\<close>

theorem vector_on_arena:
  assumes "arena_create True (Some p) cap = Some b" "unat p + unat cap \<le> 2 ^ 60"
  shows "\<exists>n vec b1 m' b2. push_all arena_vtable xs vec_create b m = Some (n, vec, b1, m') \<and>
    n \<le> length xs \<and> v_size vec = n \<and>
    (\<forall>i < n. \<exists>q. v_data vec = Some q \<and> m' (cell q i) = xs ! i) \<and>
    (n < length xs \<longrightarrow> n = v_capacity vec) \<and>
    vec_destroy arena_vtable vec b1 = Some (vec_create, b2) \<and> ab_offset b2 \<le> ab_capacity b2"
proof -
  have "arena_valid b {}"
    using assms by (auto simp: arena_create_def arena_valid_def split: if_splits)
  from arena.vector_life [OF this, of xs m] show ?thesis
    by (auto simp: arena_valid_def word_le_nat_alt)
qed

theorem vector_on_arena_witness:
  "\<exists>n vec b1 m' b2.
    push_all arena_vtable [1, 2, 3] vec_create (the (arena_create True (Some 4096) 500)) (\<lambda>_. 0) =
      Some (n, vec, b1, m') \<and>
    n \<le> length [1, 2, 3 :: i32] \<and> v_size vec = n \<and>
    (\<forall>i < n. \<exists>q. v_data vec = Some q \<and> m' (cell q i) = [1, 2, 3] ! i) \<and>
    (n < length [1, 2, 3 :: i32] \<longrightarrow> n = v_capacity vec) \<and>
    vec_destroy arena_vtable vec b1 = Some (vec_create, b2) \<and> ab_offset b2 \<le> ab_capacity b2"
  by (rule vector_on_arena [where p = 4096 and cap = 500]) (simp_all add: arena_create_def)

text \<open>The same vector code on the malloc backend: with an allocator that keeps the promises of
  posix_memalign it holds exactly the values pushed before the first refusal, no call of free is
  undefined, and after vec_destroy nothing is left allocated.\<close>

theorem vector_on_malloc:
  assumes "memalign_ok f"
  shows "\<exists>n vec b1 m' b2.
    push_all (malloc_vtable f) xs vec_create \<lparr>mb_blocks = [], mb_stats = st\<rparr> m = Some (n, vec, b1, m') \<and>
    n \<le> length xs \<and> v_size vec = n \<and>
    (\<forall>i < n. \<exists>q. v_data vec = Some q \<and> m' (cell q i) = xs ! i) \<and>
    (n < length xs \<longrightarrow> n = v_capacity vec) \<and>
    vec_destroy (malloc_vtable f) vec b1 = Some (vec_create, b2) \<and> mb_blocks b2 = []"
proof -
  have "malloc_valid \<lparr>mb_blocks = [], mb_stats = st\<rparr> {}" by (simp add: malloc_valid_def)
  from allocator_contract.vector_life [OF malloc_contract [OF assms] this, of xs m] show ?thesis
    by (auto simp: malloc_valid_def)
qed

theorem vector_on_malloc_witness:
  "\<exists>n vec b1 m' b2.
    push_all (malloc_vtable memalign_bump) [7, 8] vec_create
      \<lparr>mb_blocks = [], mb_stats = \<lparr>alloc_calls = 0, bytes_allocated = 0\<rparr>\<rparr> (\<lambda>_. 0) = Some (n, vec, b1, m') \<and>
    n \<le> length [7, 8 :: i32] \<and> v_size vec = n \<and>
    (\<forall>i < n. \<exists>q. v_data vec = Some q \<and> m' (cell q i) = [7, 8] ! i) \<and>
    (n < length [7, 8 :: i32] \<longrightarrow> n = v_capacity vec) \<and>
    vec_destroy (malloc_vtable memalign_bump) vec b1 = Some (vec_create, b2) \<and> mb_blocks b2 = []"
  by (rule vector_on_malloc) (rule memalign_bump_ok)

text \<open>The padding of Day 6 sets every low bit of the address.\<close>

lemma pad_is_or: "t + (NOT t AND m) = t OR (m :: u64)"
proof -
  have "t + (NOT t AND m) = t OR (NOT t AND m)"
    by (rule disjunctive_add) (simp add: bit_simps)
  also have "\<dots> = t OR m" by (rule bit_word_eqI) (auto simp: bit_simps)
  finally show ?thesis .
qed

definition arena6_ok :: "Arena \<Rightarrow> bool" where
  "arena6_ok ar \<longleftrightarrow> unat (a_buffer ar) + unat (bufferSize ar) \<le> 2 ^ 60 \<and> currentOffset ar \<le> bufferSize ar"

text \<open>The arena of Day 6 gives out regions inside its buffer, past everything given out before, and
  keeps its invariant; but every address it returns is one below a multiple of the alignment, so
  it is never aligned unless the alignment is 1.\<close>

theorem arena6_alloc:
  assumes "arena6_ok ar" "unat numOfElem * unat elemSize \<le> 2 ^ 62" "unat alignSize \<le> 2 ^ 60"
    "ArenaAlloc numOfElem elemSize alignSize ar = (Some p, z, ar')"
  shows "p AND (alignSize - 1) = alignSize - 1 \<and>
    z = Some (p, numOfElem * elemSize) \<and> arena6_ok ar' \<and>
    unat (a_buffer ar) + unat (currentOffset ar) \<le> unat p \<and>
    unat p + unat numOfElem * unat elemSize = unat (a_buffer ar') + unat (currentOffset ar') \<and>
    a_buffer ar' = a_buffer ar \<and> bufferSize ar' = bufferSize ar"
proof -
  let ?t = "currentOffset ar + a_buffer ar" and ?m = "alignSize - 1" and ?n = "numOfElem * elemSize"
  let ?pad = "NOT ?t AND ?m"
  have al: "alignSize \<noteq> 0" "p = ?t + ?pad" "z = Some (p, ?n)"
      "ar' = ar\<lparr>currentOffset := currentOffset ar + (?pad + ?n)\<rparr>"
      "\<not> bufferSize ar + a_buffer ar < p + ?n"
    using assms(4) by (auto simp: ArenaAlloc_def Let_def split: if_splits)
  have ok: "unat (a_buffer ar) + unat (bufferSize ar) \<le> 2 ^ 60" "unat (currentOffset ar) \<le> unat (bufferSize ar)"
    using assms(1) by (auto simp: arena6_ok_def word_le_nat_alt)
  have n: "unat ?n = unat numOfElem * unat elemSize"
    using assms(2) by (simp add: unat_word_ariths)
  have m: "unat ?m < 2 ^ 60"
  proof -
    have "unat ?m = unat alignSize - 1" using al(1) by (simp add: unat_sub word_le_nat_alt unat_gt_0 Suc_leI)
    then show ?thesis using assms(3) al(1) unat_gt_0 [of alignSize] by linarith
  qed
  have "?pad \<le> ?m" by (simp add: word_and_le1)
  then have pad: "unat ?pad < 2 ^ 60" using m by (simp add: word_le_nat_alt)
  have t: "unat ?t = unat (currentOffset ar) + unat (a_buffer ar)"
    using ok by (intro unat_plus_small) simp
  have p: "unat p = unat ?t + unat ?pad" unfolding al(2) using t ok pad by (intro unat_plus_small) simp
  have pn: "unat (p + ?n) = unat p + unat ?n" using p t ok pad n assms(2) by (intro unat_plus_small) simp
  have "unat (bufferSize ar + a_buffer ar) = unat (bufferSize ar) + unat (a_buffer ar)"
    using ok by (intro unat_plus_small) simp
  then have fits: "unat p + unat ?n \<le> unat (bufferSize ar) + unat (a_buffer ar)"
    using al(5) pn by (simp add: word_less_nat_alt)
  have o1: "unat (?pad + ?n) = unat ?pad + unat ?n"
    using pad n assms(2) by (intro unat_plus_small) simp
  have off: "unat (currentOffset ar') = unat (currentOffset ar) + (unat ?pad + unat ?n)"
  proof -
    have "unat (currentOffset ar + (?pad + ?n)) = unat (currentOffset ar) + unat (?pad + ?n)"
      using o1 pad ok n assms(2) by (intro unat_plus_small) simp
    then show ?thesis using o1 al(4) by simp
  qed
  have "p AND ?m = ?m" unfolding al(2) pad_is_or by (rule bit_word_eqI) (auto simp: bit_simps)
  moreover have "arena6_ok ar'"
    using ok off fits p t al(4) by (simp add: arena6_ok_def word_le_nat_alt)
  ultimately show ?thesis using al off p t n by simp
qed

theorem arena6_alloc_witness:
  "4099 AND (4 - 1 :: u64) = 4 - 1 \<and> Some (4099 :: u64, 1 * 4 :: u64) = Some (4099, 1 * 4) \<and>
   arena6_ok \<lparr>a_buffer = 4096, currentOffset = 7, bufferSize = KB 10\<rparr> \<and>
   unat (4096 :: u64) + unat (0 :: u64) \<le> unat (4099 :: u64) \<and>
   unat (4099 :: u64) + unat (1 :: u64) * unat (4 :: u64) = unat (4096 :: u64) + unat (7 :: u64) \<and>
   (4096 :: u64) = 4096 \<and> KB 10 = KB 10"
  using arena6_alloc [of "ArenaInit (Some 4096) (KB 10) \<lparr>a_buffer = 0, currentOffset = 0, bufferSize = 0\<rparr>" 1 4 4
      4099 "Some (4099, 4)" "\<lparr>a_buffer = 4096, currentOffset = 7, bufferSize = KB 10\<rparr>"]
  by (simp add: ArenaInit_def arena6_ok_def KB_def ArenaAlloc_def Let_def)

text \<open>The test program of Day 6: the address it stores an \<^verbatim>\<open>int\<close> at, and the mapping it gives back.\<close>

definition arena6_main :: "u64 option \<Rightarrow> (u64 option \<times> (u64 \<times> u64) option)" where
  "arena6_main mapped =
     (let arena = ArenaInit mapped (KB 10) \<lparr>a_buffer = 0, currentOffset = 0, bufferSize = 0\<rparr>;
          (a, _, arena) = ArenaAlloc 1 4 4 arena in
      case a of
        None \<Rightarrow> (None, None)
      | Some p \<Rightarrow> (Some p, snd (ArenaDelete arena)))"

lemma arena6_main_misaligned: "arena6_main (Some 4096) = (Some 4099, Some (4096, 10240))"
  by (simp add: arena6_main_def ArenaInit_def KB_def ArenaAlloc_def ArenaDelete_def Let_def)

end
