(* ===== verification/Buddy.thy ===== *)
theory Buddy
  imports Linked_Lists
begin

text \<open>
  The buddy allocator, \<^verbatim>\<open>Phase-1/Day9/C/buddy_alloc.c\<close>.

  A pointer into the pool is its byte offset from \<^verbatim>\<open>memory_pool\<close> (the code only subtracts, compares
  and adds to such pointers), \<^verbatim>\<open>NULL\<close> is \<open>None\<close>. Headers live in the pool: the heap maps the offsets
  where one was written to it, and a header may only be written where its 24 bytes fit. Orders and
  list indices are small and are natural numbers; sizes are 64-bit words, and \<^verbatim>\<open>log2_ceil\<close> is computed
  on words.

  The abstraction of the pool is a map \<open>B\<close> from the offsets of the current blocks to their order and
  whether they are free.
\<close>

unbundle bit_operations_syntax

subsection \<open>Data\<close>

definition MAX_ORDERS :: nat where "MAX_ORDERS = 16"

record BlockHeader =
  bh_next :: ptr
  bh_prev :: ptr
  bh_order :: nat
  bh_free :: bool

definition HEADER :: nat where "HEADER = 24"  \<comment> \<open>\<^verbatim>\<open>sizeof(BlockHeader)\<close>\<close>

record BuddyAllocator =
  memory_pool :: "BlockHeader heap"
  pool_size :: u64
  min_block_size :: u64
  min_order :: nat
  max_order :: nat
  free_lists :: "ptr list"

subsection \<open>Operations\<close>

text \<open>The loop does not end once \<^verbatim>\<open>val\<close> has been shifted out: then the value is \<open>None\<close>.\<close>

partial_function (option) log2_loop :: "u64 \<Rightarrow> nat \<Rightarrow> u64 \<Rightarrow> nat option" where
  "log2_loop val order sz = (if val < sz then log2_loop (push_bit 1 val) (order + 1) sz else Some order)"

definition log2_ceil :: "u64 \<Rightarrow> nat option" where
  "log2_ceil sz = log2_loop 1 0 sz"

definition list_add :: "nat \<Rightarrow> addr \<Rightarrow> BuddyAllocator \<Rightarrow> BuddyAllocator option" where
  "list_add i node st = do {
     let head = free_lists st ! i;
     h \<leftarrow> store (Some node) (bh_next_update (\<lambda>_. head)) (memory_pool st);
     h \<leftarrow> store (Some node) (bh_prev_update (\<lambda>_. None)) h;
     h \<leftarrow> store_if head (bh_prev_update (\<lambda>_. Some node)) h;
     Some (st\<lparr>memory_pool := h, free_lists := (free_lists st)[i := Some node]\<rparr>)
   }"

definition list_remove :: "nat \<Rightarrow> addr \<Rightarrow> BuddyAllocator \<Rightarrow> BuddyAllocator option" where
  "list_remove i node st = do {
     n \<leftarrow> memory_pool st node;
     h \<leftarrow> store_if (bh_prev n) (bh_next_update (\<lambda>_. bh_next n)) (memory_pool st);
     let fl = (if bh_prev n = None then (free_lists st)[i := bh_next n] else free_lists st);
     n \<leftarrow> h node;
     h \<leftarrow> store_if (bh_next n) (bh_prev_update (\<lambda>_. bh_prev n)) h;
     Some (st\<lparr>memory_pool := h, free_lists := fl\<rparr>)
   }"

text \<open>Writing a new header: its links are written by \<^verbatim>\<open>list_add\<close> before anything reads them.\<close>

definition put_block :: "addr \<Rightarrow> nat \<Rightarrow> BuddyAllocator \<Rightarrow> BuddyAllocator option" where
  "put_block a k st =
     (if a + HEADER \<le> unat (pool_size st)
      then Some (st\<lparr>memory_pool := (memory_pool st)(a \<mapsto>
             \<lparr>bh_next = None, bh_prev = None, bh_order = k, bh_free = True\<rparr>)\<rparr>)
      else None)"

definition set_block :: "addr \<Rightarrow> (BlockHeader \<Rightarrow> BlockHeader) \<Rightarrow> BuddyAllocator \<Rightarrow> BuddyAllocator option" where
  "set_block a f st = map_option (\<lambda>h. st\<lparr>memory_pool := h\<rparr>) (store (Some a) f (memory_pool st))"

text \<open>
  A failed assertion stops the program: \<open>None\<close>. With \<^verbatim>\<open>max_order < min_order\<close> either the assertion
  fails or the index 255 is out of the array.
\<close>

definition buddy_init :: "BlockHeader heap \<Rightarrow> u64 \<Rightarrow> u64 \<Rightarrow> BuddyAllocator option" where
  "buddy_init pool psize msize = do {
     mn \<leftarrow> log2_ceil msize;
     mx \<leftarrow> log2_ceil psize;
     (if int mx - int mn + 1 \<le> int MAX_ORDERS \<and> mn \<le> mx then
        do {
          st \<leftarrow> put_block 0 mx
            \<lparr>memory_pool = pool, pool_size = psize, min_block_size = msize, min_order = mn,
             max_order = mx, free_lists = replicate MAX_ORDERS None\<rparr>;
          Some (st\<lparr>free_lists := (free_lists st)[mx - mn := Some 0]\<rparr>)
        }
      else None)
   }"

function find_idx :: "ptr list \<Rightarrow> nat \<Rightarrow> nat \<Rightarrow> nat" where
  "find_idx fl n idx = (if idx < n \<and> fl ! idx = None then find_idx fl n (Suc idx) else idx)"
  by auto

termination
  by (relation "measure (\<lambda>(fl, n, idx). n - idx)") auto

declare find_idx.simps [simp del]

primrec split_down :: "addr \<Rightarrow> nat \<Rightarrow> nat \<Rightarrow> BuddyAllocator \<Rightarrow> BuddyAllocator option" where
  "split_down block target 0 st = Some st"
| "split_down block target (Suc current) st =
     (if target < Suc current then
        do {
          st \<leftarrow> set_block block (bh_order_update (\<lambda>k. k - 1)) st;
          n \<leftarrow> memory_pool st block;
          let buddy = block + 2 ^ bh_order n;
          st \<leftarrow> put_block buddy (bh_order n) st;
          st \<leftarrow> list_add current buddy st;
          split_down block target current st
        }
      else Some st)"

definition buddy_alloc :: "u64 \<Rightarrow> BuddyAllocator \<Rightarrow> (ptr \<times> BuddyAllocator) option" where
  "buddy_alloc sz st = do {
     req \<leftarrow> log2_ceil (sz + word_of_nat HEADER);
     let req = (if req < min_order st then min_order st else req);
     (if max_order st < req then Some (None, st)
      else
        (let target = req - min_order st;
             current = find_idx (free_lists st) (max_order st - min_order st + 1) target in
         if max_order st - min_order st < current then Some (None, st)
         else
           (case free_lists st ! current of
              None \<Rightarrow> None
            | Some block \<Rightarrow> do {
                st \<leftarrow> list_remove current block st;
                st \<leftarrow> split_down block target current st;
                st \<leftarrow> set_block block (bh_free_update (\<lambda>_. False)) st;
                Some (Some (block + HEADER), st)
              })))
   }"

text \<open>The loop returns the block and the index it ends with.\<close>

partial_function (option) merge_up ::
  "addr \<Rightarrow> nat \<Rightarrow> BuddyAllocator \<Rightarrow> (addr \<times> nat \<times> BuddyAllocator) option" where
  "merge_up block current st =
     (case memory_pool st block of
        None \<Rightarrow> None
      | Some n \<Rightarrow>
          if \<not> bh_order n < max_order st then Some (block, current, st)
          else
            (let buddy = block XOR 2 ^ bh_order n in
             case memory_pool st buddy of
               None \<Rightarrow> None
             | Some b \<Rightarrow>
                 if \<not> bh_free b \<or> bh_order b \<noteq> bh_order n then Some (block, current, st)
                 else
                   (case list_remove current buddy st of
                      None \<Rightarrow> None
                    | Some st \<Rightarrow>
                        (let block = (if buddy < block then buddy else block) in
                         case set_block block (bh_order_update Suc) st of
                           None \<Rightarrow> None
                         | Some st \<Rightarrow> merge_up block (current + 1) st))))"

definition buddy_free :: "ptr \<Rightarrow> BuddyAllocator \<Rightarrow> BuddyAllocator option" where
  "buddy_free p st =
     (case p of
        None \<Rightarrow> Some st
      | Some p \<Rightarrow>
          if p < HEADER then None
          else do {
            let block = p - HEADER;
            st \<leftarrow> set_block block (bh_free_update (\<lambda>_. True)) st;
            n \<leftarrow> memory_pool st block;
            (block, current, st) \<leftarrow> merge_up block (bh_order n - min_order st) st;
            list_add current block st
          })"

subsection \<open>The stress test\<close>

definition NUM_PTRS :: nat where "NUM_PTRS = 64"

definition ranges_overlap :: "addr \<Rightarrow> nat \<Rightarrow> addr \<Rightarrow> nat \<Rightarrow> bool" where
  "ranges_overlap a_start a_len b_start b_len \<longleftrightarrow>
     a_start < b_start + b_len \<and> b_start < a_start + a_len"

record stress_state =
  sx_alloc :: BuddyAllocator
  sx_ptrs :: "ptr list"
  sx_sizes :: "nat list"

definition overlaps_live :: "nat \<Rightarrow> addr \<Rightarrow> nat \<Rightarrow> stress_state \<Rightarrow> bool" where
  "overlaps_live i p sz s \<longleftrightarrow>
     list_ex (\<lambda>j. j \<noteq> i \<and>
       (case sx_ptrs s ! j of None \<Rightarrow> False | Some q \<Rightarrow> ranges_overlap p sz q (sx_sizes s ! j)))
       [0..<NUM_PTRS]"

text \<open>One round, with the two results of \<^verbatim>\<open>rand\<close> as arguments.\<close>

definition stress_round :: "nat \<times> nat \<Rightarrow> stress_state \<Rightarrow> stress_state option" where
  "stress_round r s =
     (let i = fst r mod NUM_PTRS in
      case sx_ptrs s ! i of
        Some p \<Rightarrow>
          map_option (\<lambda>al. \<lparr>sx_alloc = al, sx_ptrs = (sx_ptrs s)[i := None], sx_sizes = (sx_sizes s)[i := 0]\<rparr>)
            (buddy_free (Some p) (sx_alloc s))
      | None \<Rightarrow>
          (let sz = snd r mod 256 + 1 in
           case buddy_alloc (word_of_nat sz) (sx_alloc s) of
             None \<Rightarrow> None
           | Some (None, al) \<Rightarrow> Some (s\<lparr>sx_alloc := al\<rparr>)
           | Some (Some p, al) \<Rightarrow>
               if overlaps_live i p sz s \<or> unat (pool_size al) < p + sz then None
               else Some \<lparr>sx_alloc = al, sx_ptrs = (sx_ptrs s)[i := Some p], sx_sizes = (sx_sizes s)[i := sz]\<rparr>))"

primrec stress_rounds :: "(nat \<times> nat) list \<Rightarrow> stress_state \<Rightarrow> stress_state option" where
  "stress_rounds [] s = Some s"
| "stress_rounds (r # rs) s = Option.bind (stress_round r s) (stress_rounds rs)"

primrec free_live :: "ptr list \<Rightarrow> BuddyAllocator \<Rightarrow> BuddyAllocator option" where
  "free_live [] al = Some al"
| "free_live (p # ps) al =
     (case p of None \<Rightarrow> free_live ps al | Some _ \<Rightarrow> Option.bind (buddy_free p al) (free_live ps))"

text \<open>The final assertions.\<close>

definition coalesced_check :: "BuddyAllocator \<Rightarrow> bool" where
  "coalesced_check al \<longleftrightarrow>
     (let top = max_order al - min_order al in
      (case free_lists al ! top of
         None \<Rightarrow> False
       | Some a \<Rightarrow> (case memory_pool al a of None \<Rightarrow> False | Some n \<Rightarrow> bh_next n = None)) \<and>
      list_all (\<lambda>i. free_lists al ! i = None) [0..<top])"

definition stress_test :: "BlockHeader heap \<Rightarrow> (nat \<times> nat) list \<Rightarrow> bool" where
  "stress_test pool rs =
     (case buddy_init pool (2 ^ 16) 32 of
        None \<Rightarrow> False
      | Some al \<Rightarrow>
          (case stress_rounds rs
                  \<lparr>sx_alloc = al, sx_ptrs = replicate NUM_PTRS None, sx_sizes = replicate NUM_PTRS 0\<rparr> of
             None \<Rightarrow> False
           | Some s \<Rightarrow>
               (case free_live (sx_ptrs s) (sx_alloc s) of
                  None \<Rightarrow> False
                | Some al \<Rightarrow> coalesced_check al)))"

text \<open>The first part of \<^verbatim>\<open>main\<close>: the two pointers it prints and the free lists it ends with.\<close>

definition buddy_main :: "BlockHeader heap \<Rightarrow> (ptr \<times> ptr \<times> ptr list) option" where
  "buddy_main pool = do {
     al \<leftarrow> buddy_init pool 1024 32;
     (p1, al) \<leftarrow> buddy_alloc 100 al;
     (p2, al) \<leftarrow> buddy_alloc 200 al;
     al \<leftarrow> buddy_free p1 al;
     al \<leftarrow> buddy_free p2 al;
     (if free_lists al ! (max_order al - min_order al) = None then None
      else Some (p1, p2, free_lists al))
   }"

subsection \<open>Bits of offsets\<close>

lemma xor_pow_cases:
  assumes "2 ^ k dvd (x::nat)"
  shows "x XOR 2 ^ k = (if odd (x div 2 ^ k) then x - 2 ^ k else x + 2 ^ k)"
proof -
  obtain q where q: "x = 2 ^ k * q" using assms by (elim dvdE)
  have "x XOR 2 ^ k = push_bit k q XOR push_bit k 1" by (simp add: q push_bit_eq_mult mult.commute)
  also have "\<dots> = push_bit k (q XOR 1)" by simp
  also have "\<dots> = 2 ^ k * (q XOR 1)" by (simp add: push_bit_eq_mult mult.commute)
  also have "q XOR 1 = (if odd q then q - 1 else q + 1)"
    by (simp add: xor_Suc_0_eq)
  finally show ?thesis using q by (auto simp: algebra_simps)
qed

definition anc :: "nat \<Rightarrow> nat \<Rightarrow> nat" where
  "anc j x = x div 2 ^ j * 2 ^ j"

lemma anc_dvd [simp]: "2 ^ j dvd anc j x"
  by (simp add: anc_def)

lemma anc_self: "2 ^ j dvd x \<Longrightarrow> anc j x = x"
  by (simp add: anc_def)

lemma anc_bounds: "anc j x \<le> x" "x < anc j x + 2 ^ j"
proof -
  have "x = x div 2 ^ j * 2 ^ j + x mod 2 ^ j" by (rule div_mult_mod_eq [symmetric])
  moreover have "x mod 2 ^ j < 2 ^ j" by simp
  ultimately show "anc j x \<le> x" "x < anc j x + 2 ^ j" unfolding anc_def by linarith+
qed

lemma anc_same:
  assumes "2 ^ m dvd c" "x < 2 ^ m" "m \<le> j"
  shows "anc j (c + x) = anc j c"
proof -
  obtain q where q: "c = 2 ^ m * q" using assms(1) by (elim dvdE)
  have j: "(2::nat) ^ j = 2 ^ m * 2 ^ (j - m)" using assms(3) by (simp flip: power_add)
  have "(c + x) div 2 ^ j = (c + x) div 2 ^ m div 2 ^ (j - m)" by (simp only: j div_mult2_eq)
  also have "(c + x) div 2 ^ m = c div 2 ^ m" using assms(2) q by simp
  also have "c div 2 ^ m div 2 ^ (j - m) = c div 2 ^ j" by (simp only: j div_mult2_eq)
  finally show ?thesis by (simp add: anc_def)
qed

lemma xor_pow_dvd: "2 ^ k dvd x \<Longrightarrow> 2 ^ k dvd (x XOR 2 ^ k :: nat)"
  by (simp add: xor_pow_cases)

lemma xor_pow_xor [simp]: "(x XOR 2 ^ k) XOR 2 ^ k = (x::nat)"
  by (simp add: xor.assoc)

lemma pow_le_dvd: "k \<le> j \<Longrightarrow> 2 ^ j dvd (x::nat) \<Longrightarrow> 2 ^ k dvd x"
  by (meson dvd_trans le_imp_power_dvd)

text \<open>Two buddies are the halves of a block of the next order.\<close>

lemma buddies:
  assumes "2 ^ k dvd (x::nat)"
  obtains c where "2 ^ Suc k dvd c" "{x, x XOR 2 ^ k} = {c, c + 2 ^ k}"
    "min x (x XOR 2 ^ k) = c" "max x (x XOR 2 ^ k) = c + 2 ^ k" "c XOR 2 ^ k = c + 2 ^ k"
    "(c + 2 ^ k) XOR 2 ^ k = c"
proof -
  obtain q where q: "x = q * 2 ^ k" using assms by (auto elim: dvdE simp: mult.commute)
  have [simp]: "x div 2 ^ k = q" by (simp add: q)
  define c where "c = (if odd q then x - 2 ^ k else x)"
  have c: "2 ^ Suc k dvd c" unfolding c_def q by (auto elim!: oddE evenE)
  have c2: "c XOR 2 ^ k = c + 2 ^ k"
    using c xor_pow_cases [of k c] by (auto elim!: dvdE)
  then have c3: "(c + 2 ^ k) XOR 2 ^ k = c" by (metis xor_pow_xor)
  have "x = c \<or> x = c + 2 ^ k" unfolding c_def q by (auto elim!: oddE)
  then show ?thesis using that [OF c] c2 c3 by (auto simp: insert_commute)
qed

lemma not_dvd_upper: "2 ^ Suc k dvd (c::nat) \<Longrightarrow> k < j \<Longrightarrow> \<not> 2 ^ j dvd c + 2 ^ k"
proof
  assume c: "2 ^ Suc k dvd c" "k < j" "2 ^ j dvd c + 2 ^ k"
  then have "(2::nat) ^ Suc k dvd c + 2 ^ k" by (intro pow_le_dvd [of "Suc k" j]) auto
  then have "(2::nat) ^ Suc k dvd 2 ^ k" using c(1) dvd_add_right_iff by blast
  then have "Suc k \<le> k" by (rule power_dvd_imp_le) simp
  then show False by simp
qed

subsection \<open>The map of blocks\<close>

type_synonym block_map = "nat \<Rightarrow> (nat \<times> bool) option"

definition covered :: "block_map \<Rightarrow> nat \<Rightarrow> nat \<Rightarrow> bool" where
  "covered B j t \<longleftrightarrow> (\<exists>i g. B t = Some (i, g) \<and> i \<le> j)"

text \<open>
  The blocks are aligned, inside the pool and disjoint, and every buddy of a block, or of a larger
  block it is the part of, begins with a block of at most that order: this is why the header that
  \<^verbatim>\<open>buddy_free\<close> reads is always one.
\<close>

definition blocks_wf :: "nat \<Rightarrow> nat \<Rightarrow> block_map \<Rightarrow> bool" where
  "blocks_wf mn mx B \<longleftrightarrow>
     (\<forall>a k f. B a = Some (k, f) \<longrightarrow> mn \<le> k \<and> k \<le> mx \<and> 2 ^ k dvd a \<and> a + 2 ^ k \<le> 2 ^ mx) \<and>
     (\<forall>a b k f j g. B a = Some (k, f) \<longrightarrow> B b = Some (j, g) \<longrightarrow> a < b \<longrightarrow> a + 2 ^ k \<le> b) \<and>
     (\<forall>a k f j. B a = Some (k, f) \<longrightarrow> k \<le> j \<longrightarrow> j < mx \<longrightarrow> covered B j (anc j a XOR 2 ^ j)) \<and>
     B 0 \<noteq> None"

lemma blocks_wfD:
  assumes "blocks_wf mn mx B" "B a = Some (k, f)"
  shows "mn \<le> k" "k \<le> mx" "2 ^ k dvd a" "a + 2 ^ k \<le> 2 ^ mx"
    "k \<le> j \<Longrightarrow> j < mx \<Longrightarrow> covered B j (anc j a XOR 2 ^ j)"
    "B b = Some (j, g) \<Longrightarrow> a < b \<Longrightarrow> a + 2 ^ k \<le> b"
    "B b = Some (j, g) \<Longrightarrow> b < a \<Longrightarrow> b + 2 ^ j \<le> a"
  using assms unfolding blocks_wf_def by blast+

lemma blocks_inside:
  assumes "blocks_wf mn mx B" "B a = Some (k, f)" "a \<le> b" "b < a + 2 ^ k" "B b \<noteq> None"
  shows "b = a"
proof (rule ccontr)
  assume "b \<noteq> a"
  then have "a < b" using assms(3) by simp
  moreover obtain j g where "B b = Some (j, g)" using assms(5) by auto
  ultimately show False using blocks_wfD(6) [OF assms(1,2)] assms(4) by force
qed

lemma blocks_wfI:
  assumes "\<And>a k f. B a = Some (k, f) \<Longrightarrow> mn \<le> k \<and> k \<le> mx \<and> 2 ^ k dvd a \<and> a + 2 ^ k \<le> 2 ^ mx"
    "\<And>a b k f j g. B a = Some (k, f) \<Longrightarrow> B b = Some (j, g) \<Longrightarrow> a < b \<Longrightarrow> a + 2 ^ k \<le> b"
    "\<And>a k f j. B a = Some (k, f) \<Longrightarrow> k \<le> j \<Longrightarrow> j < mx \<Longrightarrow> covered B j (anc j a XOR 2 ^ j)"
    "B 0 \<noteq> None"
  shows "blocks_wf mn mx B"
  using assms unfolding blocks_wf_def by blast

lemma wf_set_free:
  assumes w: "blocks_wf mn mx B" and a: "B a = Some (k, f)"
  shows "blocks_wf mn mx (B(a \<mapsto> (k, g)))"
proof -
  let ?B = "B(a \<mapsto> (k, g))"
  have c: "covered ?B j t" if "covered B j t" for j t using that a by (auto simp: covered_def)
  have e: "\<exists>f. B b = Some (j, f)" if "?B b = Some (j, h)" for b j h
    using that a by (auto split: if_splits)
  show ?thesis
  proof (rule blocks_wfI)
    show "?B 0 \<noteq> None" using w a by (auto simp: blocks_wf_def)
  next
    fix b i h assume "?B b = Some (i, h)"
    then obtain f where f: "B b = Some (i, f)" using e by blast
    show "mn \<le> i \<and> i \<le> mx \<and> 2 ^ i dvd b \<and> b + 2 ^ i \<le> 2 ^ mx" using blocks_wfD(1-4) [OF w f] by blast
    show "covered ?B j (anc j b XOR 2 ^ j)" if "i \<le> j" "j < mx" for j
      using c blocks_wfD(5) [OF w f that] .
    show "b + 2 ^ i \<le> d" if "?B d = Some (j, l)" "b < d" for d j l
      using e [OF that(1)] blocks_wfD(6) [OF w f _ that(2)] by blast
  qed
qed

text \<open>Splitting a block, and merging a block with its buddy.\<close>

lemma wf_split:
  assumes w: "blocks_wf mn mx B" and a: "B a = Some (Suc k, f)" and k: "mn \<le> k"
  shows "blocks_wf mn mx (B(a \<mapsto> (k, g), a + 2 ^ k \<mapsto> (k, h)))" (is "blocks_wf mn mx ?B")
    and "B (a + 2 ^ k) = None"
proof -
  note wa = blocks_wfD [OF w a]
  have ak: "2 ^ k dvd a" using wa(3) by (intro pow_le_dvd [of k "Suc k"]) auto
  have x: "a XOR 2 ^ k = a + 2 ^ k" using xor_pow_cases [OF ak] wa(3) by (auto elim!: dvdE)
  show n: "B (a + 2 ^ k) = None"
  proof (rule ccontr)
    assume "B (a + 2 ^ k) \<noteq> None"
    from blocks_inside [OF w a _ _ this] show False by simp
  qed
  have c: "covered ?B j t" if "covered B j t" for j t using that a n by (auto simp: covered_def)
  have anc: "anc j (a + 2 ^ k) = anc j a" if "k < j" for j
    using wa(3) that by (intro anc_same [of "Suc k"]) auto
  show "blocks_wf mn mx ?B"
  proof (rule blocks_wfI)
    show "?B 0 \<noteq> None" using w by (auto simp: blocks_wf_def)
  next
    fix b i f' assume "?B b = Some (i, f')"
    then show "mn \<le> i \<and> i \<le> mx \<and> 2 ^ i dvd b \<and> b + 2 ^ i \<le> 2 ^ mx"
      using wa(1-4) k ak blocks_wfD(1-4) [OF w, of b i f'] by (auto split: if_splits)
  next
    fix b i f' d j g' assume b: "?B b = Some (i, f')" and d: "?B d = Some (j, g')" and l: "b < d"
    have o: "d < a \<or> a + 2 ^ Suc k \<le> d" if "B d = Some (j, g')" "d \<noteq> a"
      using wa(6) [OF that(1)] that(2) by linarith
    have o2: "b < a \<Longrightarrow> b + 2 ^ i \<le> a" if "B b = Some (i, f')" using wa(7) [OF that] by simp
    have o3: "b < a \<or> a + 2 ^ Suc k \<le> b" if "B b = Some (i, f')" "b \<noteq> a"
      using wa(6) [OF that(1)] that(2) by linarith
    show "b + 2 ^ i \<le> d"
      using b d l o o2 o3 blocks_wfD(6) [OF w, of b i f' d j g'] by (auto split: if_splits)
  next
    fix b i f' j assume b: "?B b = Some (i, f')" and j: "i \<le> j" "j < mx"
    show "covered ?B j (anc j b XOR 2 ^ j)"
    proof (cases "b = a \<or> b = a + 2 ^ k")
      case True
      then have i: "i = k" using b by (auto split: if_splits)
      show ?thesis
      proof (cases "j = k")
        case True
        have "2 ^ k dvd b" using \<open>b = a \<or> b = a + 2 ^ k\<close> ak by auto
        then have "anc j b XOR 2 ^ j = (if b = a then a + 2 ^ k else a)"
          using \<open>b = a \<or> b = a + 2 ^ k\<close> x True by (auto simp: anc_self) (metis x xor_pow_xor)
        then show ?thesis using True by (auto simp: covered_def)
      next
        case False
        then have "covered B j (anc j a XOR 2 ^ j)" using wa(5) j i by simp
        moreover have "anc j b = anc j a" using True anc False j i by auto
        ultimately show ?thesis using c by simp
      qed
    next
      case False
      then show ?thesis using b j c blocks_wfD(5) [OF w, of b i f' j] by simp
    qed
  qed
qed

lemma wf_merge:
  assumes w: "blocks_wf mn mx B" and a: "B a = Some (k, f)" and b: "B (a XOR 2 ^ k) = Some (k, g)"
    and k: "k < mx"
  shows "blocks_wf mn mx (B(max a (a XOR 2 ^ k) := None, min a (a XOR 2 ^ k) \<mapsto> (Suc k, h)))"
proof -
  have ak: "2 ^ k dvd a" using blocks_wfD(3) [OF w a] .
  then obtain c where c: "2 ^ Suc k dvd c" "{a, a XOR 2 ^ k} = {c, c + 2 ^ k}"
      "min a (a XOR 2 ^ k) = c" "max a (a XOR 2 ^ k) = c + 2 ^ k" "c XOR 2 ^ k = c + 2 ^ k"
      "(c + 2 ^ k) XOR 2 ^ k = c" by (rule buddies)
  let ?d = "c + 2 ^ k" and ?B = "B(c + 2 ^ k := None, c \<mapsto> (Suc k, h))"
  have "a = c \<and> a XOR 2 ^ k = ?d \<or> a = ?d \<and> a XOR 2 ^ k = c"
    using c(2) by (simp add: doubleton_eq_iff)
  then obtain f' g' where C: "B c = Some (k, f')" and D: "B ?d = Some (k, g')" using a b by metis
  note wc = blocks_wfD [OF w C] and wd = blocks_wfD [OF w D]
  have far: "p < c \<or> ?d + 2 ^ k \<le> p" if "B p = Some (i, e)" "p \<noteq> c" "p \<noteq> ?d" for p i e
    using wc(6) [OF that(1)] wd(6) [OF that(1)] that(2,3) by linarith
  have t: "covered ?B j (anc j p XOR 2 ^ j)"
    if p: "B p = Some (i, e)" "i \<le> j" "j < mx" "p \<noteq> ?d" "p = c \<Longrightarrow> k < j" for p i e j
  proof -
    let ?t = "anc j p XOR 2 ^ j"
    have cov: "covered B j ?t" using blocks_wfD(5) [OF w p(1-3)] .
    have dvd: "2 ^ j dvd ?t" by (intro xor_pow_dvd) simp
    have anc: "anc j p = x XOR 2 ^ j" if "?t = x" for x using that by (metis xor_pow_xor)
    have near: "anc j p \<noteq> c \<and> anc j p \<noteq> ?d" if "j = k" "p \<noteq> c"
      using far [OF p(1) that(2) p(4)] anc_bounds(1) [of j p] anc_bounds(2) [of p j] that(1) by auto
    have "?t \<noteq> ?d"
    proof
      assume e: "?t = ?d"
      then have "\<not> k < j" using dvd not_dvd_upper [OF c(1)] by metis
      moreover have "k \<le> j" using cov D by (simp add: e covered_def)
      ultimately have "j = k" by simp
      then show False using near p(5) anc [OF e] c(6) by auto
    qed
    moreover have "k < j" if "?t = c"
    proof (rule ccontr)
      assume "\<not> k < j"
      moreover have "k \<le> j" using cov C by (simp add: that covered_def)
      ultimately have "j = k" by simp
      then show False using near p(5) anc [OF that] c(5) by auto
    qed
    ultimately show ?thesis using cov by (auto simp: covered_def)
  qed
  have "blocks_wf mn mx ?B"
  proof (rule blocks_wfI)
    show "?B 0 \<noteq> None" using w by (auto simp: blocks_wf_def)
  next
    fix p i e assume "?B p = Some (i, e)"
    then show "mn \<le> i \<and> i \<le> mx \<and> 2 ^ i dvd p \<and> p + 2 ^ i \<le> 2 ^ mx"
      using wc(1) k c(1) wd(4) blocks_wfD(1-4) [OF w, of p i e] by (auto split: if_splits)
  next
    fix p i e q j e' assume p: "?B p = Some (i, e)" and q: "?B q = Some (j, e')" and l: "p < q"
    have "?d + 2 ^ k \<le> q" if "p = c" using far [of q j e'] q that l by (auto split: if_splits)
    moreover have "p + 2 ^ i \<le> c" if "q = c" using wc(7) [of p i e] p that l by (auto split: if_splits)
    ultimately show "p + 2 ^ i \<le> q"
      using p q l blocks_wfD(6) [OF w, of p i e q j e'] by (auto split: if_splits)
  next
    fix p i e j assume p: "?B p = Some (i, e)" and j: "i \<le> j" "j < mx"
    show "covered ?B j (anc j p XOR 2 ^ j)"
    proof (cases "p = c")
      case True
      then have "k < j" using p j by simp
      then show ?thesis using t [OF C, of j] True j by simp
    next
      case False
      then show ?thesis using t [of p i e j] p j by (auto split: if_splits)
    qed
  qed
  then show ?thesis unfolding c(3,4) .
qed

text \<open>Fully merged: no two free buddies. Then a pool without blocks in use is one free block.\<close>

definition merged :: "nat \<Rightarrow> block_map \<Rightarrow> bool" where
  "merged mx B \<longleftrightarrow> (\<forall>a k. B a = Some (k, True) \<longrightarrow> k < mx \<longrightarrow> B (a XOR 2 ^ k) \<noteq> Some (k, True))"

definition live :: "block_map \<Rightarrow> (nat \<times> nat) set" where
  "live B = {(a, k). B a = Some (k, False)}"

lemma all_free_root:
  assumes w: "blocks_wf mn mx B" and m: "merged mx B" and l: "live B = {}"
  shows "B = [0 \<mapsto> (mx, True)]"
proof -
  have free: "f" if "B a = Some (k, f)" for a k f using l that by (cases f) (auto simp: live_def)
  define K where "K = {k. \<exists>a f. B a = Some (k, f)}"
  have "K \<noteq> {}" using w by (auto simp: K_def blocks_wf_def)
  define m where "m = (LEAST k. k \<in> K)"
  have mK: "m \<in> K" unfolding m_def using \<open>K \<noteq> {}\<close> by (metis LeastI ex_in_conv)
  have least: "m \<le> k" if "k \<in> K" for k unfolding m_def using that by (rule Least_le)
  obtain a f where a: "B a = Some (m, f)" using mK by (auto simp: K_def)
  have "m = mx"
  proof (rule ccontr)
    assume "m \<noteq> mx"
    then have lt: "m < mx" using blocks_wfD(2) [OF w a] by simp
    have "covered B m (a XOR 2 ^ m)"
      using blocks_wfD(5) [OF w a order_refl lt] blocks_wfD(3) [OF w a] by (simp add: anc_self)
    then obtain i g where i: "B (a XOR 2 ^ m) = Some (i, g)" "i \<le> m" by (auto simp: covered_def)
    then have "i = m" using least [of i] by (force simp: K_def)
    then show False using assms(2) a i free [OF a] free [OF i(1)] lt by (auto simp: merged_def)
  qed
  have only: "b = 0 \<and> k = mx" if "B b = Some (k, f)" for b k f
  proof -
    have "k = mx" using least [of k] that \<open>m = mx\<close> blocks_wfD(2) [OF w that] by (force simp: K_def)
    moreover have "b + 2 ^ k \<le> 2 ^ mx" using blocks_wfD(4) [OF w that] .
    ultimately show ?thesis by simp
  qed
  have "B 0 = Some (mx, True)" using only [OF a] a free [OF a] \<open>m = mx\<close> by simp
  then show ?thesis using only by (intro ext) (metis fun_upd_apply not_None_eq old.prod.exhaust)
qed

subsection \<open>The free lists\<close>

abbreviation payload :: "BlockHeader \<Rightarrow> nat \<times> bool" where
  "payload n \<equiv> (bh_order n, bh_free n)"

interpretation bh: link_fields bh_next bh_prev "\<lambda>p. bh_next_update (\<lambda>_. p)" "\<lambda>p. bh_prev_update (\<lambda>_. p)" payload
  by unfold_locales simp_all

text \<open>\<open>fl i\<close> are the blocks on the list of index \<open>i\<close>, in order; no block is on two lists.\<close>

definition lists_ok :: "BuddyAllocator \<Rightarrow> (nat \<Rightarrow> addr list) \<Rightarrow> bool" where
  "lists_ok st fl \<longleftrightarrow> length (free_lists st) = MAX_ORDERS \<and>
     (\<forall>i < MAX_ORDERS. dls bh_next bh_prev (memory_pool st) None (fl i) None \<and>
        free_lists st ! i = first_ptr (fl i) None) \<and>
     (\<forall>i < MAX_ORDERS. \<forall>j < MAX_ORDERS. i \<noteq> j \<longrightarrow> set (fl i) \<inter> set (fl j) = {})"

definition buddy_params :: "BuddyAllocator \<Rightarrow> nat \<times> nat \<times> u64" where
  "buddy_params st = (min_order st, max_order st, pool_size st)"

definition same_payload :: "BuddyAllocator \<Rightarrow> BuddyAllocator \<Rightarrow> bool" where
  "same_payload st st' \<longleftrightarrow> buddy_params st' = buddy_params st \<and>
     (\<forall>b. map_option payload (memory_pool st' b) = map_option payload (memory_pool st b))"

lemma list_add_spec:
  assumes l: "lists_ok st fl" and i: "i < MAX_ORDERS" and a: "memory_pool st a = Some n"
    and new: "\<And>j. j < MAX_ORDERS \<Longrightarrow> a \<notin> set (fl j)"
  shows "\<exists>st'. list_add i a st = Some st' \<and> lists_ok st' (fl(i := a # fl i)) \<and> same_payload st st'"
proof -
  let ?h = "memory_pool st" and ?n = "n\<lparr>bh_next := first_ptr (fl i) None, bh_prev := None\<rparr>"
  let ?h1 = "?h(a \<mapsto> ?n)"
  have d: "dls bh_next bh_prev ?h None (fl j) None" "free_lists st ! j = first_ptr (fl j) None"
    if "j < MAX_ORDERS" for j using l that by (auto simp: lists_ok_def)
  have disj: "set (fl j) \<inter> set (fl i) = {}" if "j < MAX_ORDERS" "j \<noteq> i" for j
    using l that i by (auto simp: lists_ok_def)
  have "dls bh_next bh_prev ?h1 None (fl i) None" using d(1) [OF i] new [OF i] by simp
  then obtain h2 where h2: "store_if (first_ptr (fl i) None) (bh_prev_update (\<lambda>_. Some a)) ?h1 = Some h2"
      "dls bh_next bh_prev h2 None (a # fl i) None"
      "\<And>b. map_option payload (h2 b) = map_option payload (?h1 b)"
      "\<And>b. b \<notin> set (fl i) \<Longrightarrow> h2 b = ?h1 b"
    by (rule bh.push_front [of ?h1 "fl i" a ?n]) (use new i in auto)
  let ?st = "st\<lparr>memory_pool := h2, free_lists := (free_lists st)[i := Some a]\<rparr>"
  have "list_add i a st = Some ?st"
    using h2(1) d(2) [OF i] a by (simp add: list_add_def heap_simps)
  moreover have "lists_ok ?st (fl(i := a # fl i))"
  proof -
    have o: "dls bh_next bh_prev h2 None (fl j) None" if "j < MAX_ORDERS" "j \<noteq> i" for j
    proof -
      have "dls bh_next bh_prev h2 None (fl j) None = dls bh_next bh_prev ?h None (fl j) None"
        by (rule dls_cong) (use h2(4) disj [OF that] new [OF that(1)] in \<open>auto simp: disjoint_iff\<close>)
      then show ?thesis using d(1) [OF that(1)] by simp
    qed
    show ?thesis using l i o h2(2) new disj by (auto simp: lists_ok_def nth_list_update)
  qed
  moreover have "same_payload st ?st"
    using h2(3) a by (simp add: same_payload_def buddy_params_def)
  ultimately show ?thesis by blast
qed

lemma list_remove_spec:
  assumes l: "lists_ok st fl" and i: "i < MAX_ORDERS" and a: "fl i = xs @ a # ys"
  shows "\<exists>st'. list_remove i a st = Some st' \<and> lists_ok st' (fl(i := xs @ ys)) \<and> same_payload st st'"
proof -
  let ?h = "memory_pool st"
  have d: "dls bh_next bh_prev ?h None (fl j) None" "free_lists st ! j = first_ptr (fl j) None"
    if "j < MAX_ORDERS" for j using l that by (auto simp: lists_ok_def)
  have disj: "set (fl j) \<inter> set (fl i) = {}" if "j < MAX_ORDERS" "j \<noteq> i" for j
    using l that i by (auto simp: lists_ok_def)
  have da: "dls bh_next bh_prev ?h None (xs @ a # ys) None" using d(1) [OF i] a by simp
  then obtain n where n: "?h a = Some n" "bh_prev n = last_ptr xs None" "bh_next n = first_ptr ys None"
    using dls_node by blast
  obtain h1 h2 where h: "store_if (bh_prev n) (bh_next_update (\<lambda>_. bh_next n)) ?h = Some h1" "h1 a = Some n"
      "store_if (bh_next n) (bh_prev_update (\<lambda>_. bh_prev n)) h1 = Some h2" "h2 a = Some n"
      "dls bh_next bh_prev h2 None (xs @ ys) None"
      "\<And>b. map_option payload (h2 b) = map_option payload (?h b)"
      "\<And>b. b \<notin> set (xs @ ys) \<Longrightarrow> h2 b = ?h b"
    by (rule bh.unlink [OF da n(1)]) blast
  let ?fl = "if bh_prev n = None then (free_lists st)[i := bh_next n] else free_lists st"
  let ?st = "st\<lparr>memory_pool := h2, free_lists := ?fl\<rparr>"
  have "list_remove i a st = Some ?st" using n(1) h(1-3) by (simp add: list_remove_def)
  moreover have "lists_ok ?st (fl(i := xs @ ys))"
  proof -
    have o: "dls bh_next bh_prev h2 None (fl j) None" if "j < MAX_ORDERS" "j \<noteq> i" for j
    proof -
      have "dls bh_next bh_prev h2 None (fl j) None = dls bh_next bh_prev ?h None (fl j) None"
        by (rule dls_cong) (use h(7) disj [OF that] a in \<open>auto simp: disjoint_iff\<close>)
      then show ?thesis using d(1) [OF that(1)] by simp
    qed
    have f: "?fl ! j = first_ptr ((fl(i := xs @ ys)) j) None" if "j < MAX_ORDERS" for j
      using d(2) [OF that] a n(2,3) i l that by (cases xs rule: rev_cases) (auto simp: lists_ok_def nth_list_update)
    show ?thesis using l i o h(5) disj a f by (simp add: lists_ok_def) blast
  qed
  moreover have "same_payload st ?st" using h(6) by (simp add: same_payload_def buddy_params_def)
  ultimately show ?thesis by blast
qed

subsection \<open>The pool represents a map of blocks\<close>

text \<open>
  \<open>X\<close> are the blocks an operation is working on: free or about to be, but on no list.
\<close>

definition headers_ok :: "BuddyAllocator \<Rightarrow> block_map \<Rightarrow> bool" where
  "headers_ok st B \<longleftrightarrow> (\<forall>a k f. B a = Some (k, f) \<longrightarrow> map_option payload (memory_pool st a) = Some (k, f))"

definition on_list :: "nat \<Rightarrow> block_map \<Rightarrow> addr set \<Rightarrow> nat \<Rightarrow> addr set" where
  "on_list mn B X i = {a. B a = Some (mn + i, True)} - X"

definition heap_rep :: "nat \<Rightarrow> nat \<Rightarrow> BuddyAllocator \<Rightarrow> block_map \<Rightarrow> addr set \<Rightarrow> bool" where
  "heap_rep mn mx st B X \<longleftrightarrow>
     min_order st = mn \<and> max_order st = mx \<and> unat (pool_size st) = 2 ^ mx \<and>
     5 \<le> mn \<and> mn \<le> mx \<and> mx - mn < MAX_ORDERS \<and> headers_ok st B \<and>
     (\<exists>fl. lists_ok st fl \<and> (\<forall>i < MAX_ORDERS. set (fl i) = on_list mn B X i))"

lemma heap_repE:
  assumes "heap_rep mn mx st B X"
  obtains fl where "lists_ok st fl" "\<And>i. i < MAX_ORDERS \<Longrightarrow> set (fl i) = on_list mn B X i"
  using assms unfolding heap_rep_def by blast

lemma heap_rep_header:
  assumes "heap_rep mn mx st B X" "B a = Some (k, f)"
  obtains n where "memory_pool st a = Some n" "bh_order n = k" "bh_free n = f"
  using assms unfolding heap_rep_def headers_ok_def by (cases "memory_pool st a") fastforce+

lemma heap_rep_same:
  assumes "heap_rep mn mx st B X" "same_payload st st'" "lists_ok st' fl"
    "\<And>i. i < MAX_ORDERS \<Longrightarrow> set (fl i) = on_list mn B Y i"
  shows "heap_rep mn mx st' B Y"
  using assms unfolding heap_rep_def same_payload_def headers_ok_def buddy_params_def by auto

lemma rep_add:
  assumes r: "heap_rep mn mx st B X" and a: "B a = Some (k, True)" "a \<in> X" and k: "mn \<le> k" "k \<le> mx"
  shows "\<exists>st'. list_add (k - mn) a st = Some st' \<and> heap_rep mn mx st' B (X - {a})"
proof -
  obtain fl where fl: "lists_ok st fl" "\<And>i. i < MAX_ORDERS \<Longrightarrow> set (fl i) = on_list mn B X i"
    using r by (rule heap_repE) blast
  have i: "k - mn < MAX_ORDERS" using r k unfolding heap_rep_def by linarith
  have new: "a \<notin> set (fl j)" if "j < MAX_ORDERS" for j using fl(2) [OF that] a(2) by (simp add: on_list_def)
  obtain n where n: "memory_pool st a = Some n" using r a(1) by (rule heap_rep_header)
  obtain st' where st': "list_add (k - mn) a st = Some st'" "lists_ok st' (fl(k - mn := a # fl (k - mn)))"
      "same_payload st st'"
    using list_add_spec [OF fl(1) i n] new by blast
  have "heap_rep mn mx st' B (X - {a})"
    by (rule heap_rep_same [OF r st'(3,2)]) (use fl(2) a k in \<open>auto simp: on_list_def\<close>)
  then show ?thesis using st'(1) by blast
qed

lemma rep_remove:
  assumes r: "heap_rep mn mx st B X" and a: "B a = Some (k, True)" "a \<notin> X" and k: "mn \<le> k" "k \<le> mx"
  shows "\<exists>st'. list_remove (k - mn) a st = Some st' \<and> heap_rep mn mx st' B (insert a X)"
proof -
  obtain fl where fl: "lists_ok st fl" "\<And>i. i < MAX_ORDERS \<Longrightarrow> set (fl i) = on_list mn B X i"
    using r by (rule heap_repE) blast
  have i: "k - mn < MAX_ORDERS" using r k unfolding heap_rep_def by linarith
  have "a \<in> set (fl (k - mn))" using fl(2) [OF i] a k by (simp add: on_list_def)
  then obtain xs ys where xs: "fl (k - mn) = xs @ a # ys" by (meson split_list)
  have "dls bh_next bh_prev (memory_pool st) None (fl (k - mn)) None" using fl(1) i by (simp add: lists_ok_def)
  then have "distinct (fl (k - mn))" by (rule dls_distinct)
  then have d: "a \<notin> set xs" "a \<notin> set ys" using xs by auto
  have x: "set xs \<union> set ys = on_list mn B X (k - mn) - {a}" using fl(2) [OF i] xs d by auto
  obtain st' where st': "list_remove (k - mn) a st = Some st'" "lists_ok st' (fl(k - mn := xs @ ys))"
      "same_payload st st'"
    using list_remove_spec [OF fl(1) i xs] by blast
  have "heap_rep mn mx st' B (insert a X)"
    by (rule heap_rep_same [OF r st'(3,2)]) (use fl(2) x a k in \<open>auto simp: on_list_def\<close>)
  then show ?thesis using st'(1) by blast
qed

text \<open>Writing the header of a block that is on no list.\<close>

lemma rep_write:
  assumes r: "heap_rep mn mx st B X" and a: "a \<in> X \<or> B a = None"
  shows "heap_rep mn mx (st\<lparr>memory_pool := (memory_pool st)(a \<mapsto> n)\<rparr>) (B(a \<mapsto> payload n)) (insert a X)"
proof -
  obtain fl where fl: "lists_ok st fl" "\<And>i. i < MAX_ORDERS \<Longrightarrow> set (fl i) = on_list mn B X i"
    using r by (rule heap_repE) blast
  let ?st = "st\<lparr>memory_pool := (memory_pool st)(a \<mapsto> n)\<rparr>" and ?B = "B(a \<mapsto> payload n)"
  have new: "a \<notin> set (fl j)" if "j < MAX_ORDERS" for j
    using fl(2) [OF that] a by (auto simp: on_list_def)
  have "lists_ok ?st fl" using fl(1) new by (simp add: lists_ok_def)
  moreover have "set (fl i) = on_list mn ?B (insert a X) i" if "i < MAX_ORDERS" for i
    using fl(2) [OF that] a by (auto simp: on_list_def)
  moreover have "headers_ok ?st ?B" using r by (auto simp: heap_rep_def headers_ok_def)
  ultimately show ?thesis using r unfolding heap_rep_def by auto
qed

lemma rep_set_block:
  assumes r: "heap_rep mn mx st B X" and a: "B a = Some (k, f)" "a \<in> X"
    and g: "\<And>n. bh_order n = k \<Longrightarrow> bh_free n = f \<Longrightarrow> payload (g n) = (k', f')"
  shows "\<exists>st'. set_block a g st = Some st' \<and> heap_rep mn mx st' (B(a \<mapsto> (k', f'))) X"
proof -
  obtain n where n: "memory_pool st a = Some n" "bh_order n = k" "bh_free n = f"
    using r a(1) by (rule heap_rep_header)
  have "set_block a g st = Some (st\<lparr>memory_pool := (memory_pool st)(a \<mapsto> g n)\<rparr>)"
    using n(1) by (simp add: set_block_def heap_simps)
  then show ?thesis using rep_write [OF r, of a "g n"] a(2) g [OF n(2,3)] by (simp add: insert_absorb)
qed

lemma rep_drop:
  assumes r: "heap_rep mn mx st B X" and a: "a \<in> X"
  shows "heap_rep mn mx st (B(a := None)) (X - {a})"
proof -
  obtain fl where fl: "lists_ok st fl" "\<And>i. i < MAX_ORDERS \<Longrightarrow> set (fl i) = on_list mn B X i"
    using r by (rule heap_repE) blast
  have "set (fl i) = on_list mn (B(a := None)) (X - {a}) i" if "i < MAX_ORDERS" for i
    using fl(2) [OF that] a by (auto simp: on_list_def)
  moreover have "headers_ok st (B(a := None))" using r by (auto simp: heap_rep_def headers_ok_def)
  ultimately show ?thesis using r fl(1) unfolding heap_rep_def by auto
qed

lemma rep_unmark:
  assumes r: "heap_rep mn mx st B X" and a: "B a = Some (k, False)"
  shows "heap_rep mn mx st B (X - {a})" "heap_rep mn mx st B (insert a X)"
proof -
  have "on_list mn B (X - {a}) = on_list mn B X" "on_list mn B (insert a X) = on_list mn B X"
    using a by (auto simp: on_list_def fun_eq_iff)
  then show "heap_rep mn mx st B (X - {a})" "heap_rep mn mx st B (insert a X)"
    using r unfolding heap_rep_def by simp_all
qed

text \<open>Splitting and merging in the pool.\<close>

definition merged_except :: "nat \<Rightarrow> block_map \<Rightarrow> addr \<Rightarrow> bool" where
  "merged_except mx B a \<longleftrightarrow>
     (\<forall>b k. B b = Some (k, True) \<longrightarrow> k < mx \<longrightarrow> b \<noteq> a \<longrightarrow> b XOR 2 ^ k \<noteq> a \<longrightarrow>
        B (b XOR 2 ^ k) \<noteq> Some (k, True))"

lemma split_down_spec:
  assumes "heap_rep mn mx st B {a}" "blocks_wf mn mx B" "merged_except mx B a"
    "B a = Some (mn + current, True)" "target \<le> current"
  shows "\<exists>st' B'. split_down a target current st = Some st' \<and> heap_rep mn mx st' B' {a} \<and>
    blocks_wf mn mx B' \<and> merged_except mx B' a \<and> B' a = Some (mn + target, True) \<and> live B' = live B"
  using assms
proof (induction current arbitrary: st B)
  case 0
  then show ?case by auto
next
  case (Suc c)
  show ?case
  proof (cases "target = Suc c")
    case True
    then show ?thesis using Suc.prems by auto
  next
    case False
    then have t: "target < Suc c" using Suc.prems(5) by simp
    let ?k = "mn + c" and ?b = "a + 2 ^ (mn + c)"
    let ?B1 = "B(a \<mapsto> (?k, True))" and ?B2 = "B(a \<mapsto> (?k, True), ?b \<mapsto> (?k, True))"
    have a: "B a = Some (Suc ?k, True)" using Suc.prems(4) by simp
    note wa = blocks_wfD [OF Suc.prems(2) a]
    have w2: "blocks_wf mn mx ?B2" and nb: "B ?b = None"
      using wf_split [OF Suc.prems(2) a] by auto
    have kmx: "mn \<le> ?k" "?k \<le> mx" using wa(2) by auto
    obtain s1 where s1: "set_block a (bh_order_update (\<lambda>k. k - 1)) st = Some s1" "heap_rep mn mx s1 ?B1 {a}"
      using rep_set_block [OF Suc.prems(1) a singletonI, of "bh_order_update (\<lambda>k. k - 1)" ?k True] by auto
    obtain n where n: "memory_pool s1 a = Some n" "bh_order n = ?k"
      using heap_rep_header [OF s1(2), of a ?k True] by auto
    let ?n = "\<lparr>bh_next = None, bh_prev = None, bh_order = ?k, bh_free = True\<rparr>"
    let ?s2 = "s1\<lparr>memory_pool := (memory_pool s1)(?b \<mapsto> ?n)\<rparr>"
    have "HEADER \<le> 2 ^ ?k"
    proof -
      have "5 \<le> ?k" using Suc.prems(1) by (simp add: heap_rep_def)
      then have "(2::nat) ^ 5 \<le> 2 ^ ?k" by (intro power_increasing) auto
      then show ?thesis by (simp add: HEADER_def)
    qed
    then have "?b + HEADER \<le> unat (pool_size s1)" using wa(4) s1(2) by (simp add: heap_rep_def)
    then have p: "put_block ?b ?k s1 = Some ?s2" by (simp add: put_block_def)
    have r2: "heap_rep mn mx ?s2 ?B2 {?b, a}" using rep_write [OF s1(2), of ?b ?n] nb by simp
    have b2: "?B2 ?b = Some (?k, True)" by simp
    have "?b \<noteq> a" by simp
    then have X: "{?b, a} - {?b} = {a}" by blast
    obtain s3 where s3: "list_add c ?b ?s2 = Some s3" "heap_rep mn mx s3 ?B2 {a}"
      using rep_add [OF r2 b2 insertI1 kmx] unfolding X diff_add_inverse by blast
    have run: "split_down a target (Suc c) st = split_down a target c s3"
      using t s1(1) n p s3(1) by simp
    have m: "merged_except mx ?B2 a"
    proof -
      have x: "?b XOR 2 ^ ?k = a"
      proof -
        have ak: "2 ^ ?k dvd a" using wa(3) by (intro pow_le_dvd [of ?k "Suc ?k"]) auto
        have "a XOR 2 ^ ?k = ?b" using xor_pow_cases [OF ak] wa(3) by (auto elim!: dvdE)
        then show ?thesis by (metis xor_pow_xor)
      qed
      show ?thesis unfolding merged_except_def
      proof (intro allI impI)
        fix d k assume d: "?B2 d = Some (k, True)" "k < mx" "d \<noteq> a" "d XOR 2 ^ k \<noteq> a"
        show "?B2 (d XOR 2 ^ k) \<noteq> Some (k, True)"
        proof (cases "d = ?b")
          case True
          then show ?thesis using d x by auto
        next
          case False
          then have "B d = Some (k, True)" using d by simp
          moreover have "d XOR 2 ^ k \<noteq> ?b \<or> k \<noteq> ?k" using x d(3) by (metis xor_pow_xor)
          ultimately show ?thesis using Suc.prems(3) d False by (auto simp: merged_except_def)
        qed
      qed
    qed
    have lv: "live ?B2 = live B" using a nb by (auto simp: live_def split: if_splits)
    have "?B2 a = Some (?k, True)" by simp
    then obtain s4 B4 where "split_down a target c s3 = Some s4 \<and> heap_rep mn mx s4 B4 {a} \<and>
        blocks_wf mn mx B4 \<and> merged_except mx B4 a \<and> B4 a = Some (mn + target, True) \<and> live B4 = live ?B2"
      using Suc.IH [OF s3(2) w2 m _ less_Suc_eq_le [THEN iffD1, OF t]] by blast
    then show ?thesis using run lv by (intro exI [of _ s4] exI [of _ B4]) simp
  qed
qed

lemma merge_up_spec:
  assumes "heap_rep mn mx st B {a}" "blocks_wf mn mx B" "merged_except mx B a" "B a = Some (k, True)"
  shows "\<exists>st' B' a' k'. merge_up a (k - mn) st = Some (a', k' - mn, st') \<and> heap_rep mn mx st' B' {a'} \<and>
    blocks_wf mn mx B' \<and> merged mx B' \<and> B' a' = Some (k', True) \<and> live B' = live B"
  using assms
proof (induction "mx - k" arbitrary: a k st B rule: less_induct)
  case less
  note w = blocks_wfD [OF less.prems(2,4)]
  obtain n where n: "memory_pool st a = Some n" "bh_order n = k" "bh_free n"
    using heap_rep_header [OF less.prems(1,4)] by blast
  have mx: "max_order st = mx" using less.prems(1) by (simp add: heap_rep_def)
  have stop: ?case if "merge_up a (k - mn) st = Some (a, k - mn, st)" "k < mx \<Longrightarrow> B (a XOR 2 ^ k) \<noteq> Some (k, True)"
  proof -
    have "merged mx B" unfolding merged_def
    proof (intro allI impI)
      fix b j assume b: "B b = Some (j, True)" "j < mx"
      show "B (b XOR 2 ^ j) \<noteq> Some (j, True)"
      proof (cases "b = a \<or> b XOR 2 ^ j = a")
        case True
        then show ?thesis
        proof
          assume x: "b XOR 2 ^ j = a"
          then have "b = a XOR 2 ^ j" by (metis xor_pow_xor)
          then show ?thesis using that(2) b x less.prems(4) by auto
        qed (use that(2) b less.prems(4) in auto)
      next
        case False
        then show ?thesis using less.prems(3) b by (auto simp: merged_except_def)
      qed
    qed
    then show ?thesis using that(1) less.prems by blast
  qed
  show ?case
  proof (cases "k < mx")
    case False
    then show ?thesis using n mx by (intro stop) (simp_all add: merge_up.simps)
  next
    case k: True
    let ?b = "a XOR 2 ^ k"
    have "covered B k ?b" using w(5) [of k] k w(3) by (simp add: anc_self)
    then obtain j g where j: "B ?b = Some (j, g)" "j \<le> k" by (auto simp: covered_def)
    obtain b where b: "memory_pool st ?b = Some b" "bh_order b = j" "bh_free b = g"
      using heap_rep_header [OF less.prems(1) j(1)] by blast
    show ?thesis
    proof (cases "g \<and> j = k")
      case False
      then show ?thesis using n mx b j k by (intro stop) (auto simp: merge_up.simps)
    next
      case True
      then have B: "B ?b = Some (k, True)" using j by simp
      have nab: "?b \<noteq> a" "?b \<notin> {a}" using xor_pow_cases [OF w(3)] w(3) by (auto elim!: dvdE oddE)
      obtain s1 where s1: "list_remove (k - mn) ?b st = Some s1" "heap_rep mn mx s1 B {?b, a}"
        using rep_remove [OF less.prems(1) B nab(2) w(1,2)] by blast
      let ?lo = "min a ?b" and ?hi = "max a ?b"
      have lohi: "(?lo = a \<and> ?hi = ?b) \<or> (?lo = ?b \<and> ?hi = a)" by (simp add: min_def max_def)
      have X: "{?b, a} - {?hi} = {?lo}" using nab(1) by (cases "a \<le> ?b") (auto simp: min_def max_def)
      have lo: "(B(?hi := None)) ?lo = Some (k, True)" using lohi nab(1) B less.prems(4) by auto
      have r: "heap_rep mn mx s1 (B(?hi := None)) {?lo}"
        using rep_drop [OF s1(2), of ?hi] lohi unfolding X by blast
      let ?B = "B(?hi := None, ?lo \<mapsto> (Suc k, True))"
      obtain s2 where s2: "set_block ?lo (bh_order_update Suc) s1 = Some s2" "heap_rep mn mx s2 ?B {?lo}"
        using rep_set_block [OF r lo singletonI, of "bh_order_update Suc" "Suc k" True] by fastforce
      have w2: "blocks_wf mn mx ?B" using wf_merge [OF less.prems(2,4) B k] .
      have same: "B d = Some v" if "?B d = Some v" "d \<noteq> ?lo" for d v
        using that by (auto split: if_splits)
      have m: "merged_except mx ?B ?lo" unfolding merged_except_def
      proof (intro allI impI notI)
        fix d i assume d: "?B d = Some (i, True)" "i < mx" "d \<noteq> ?lo" "d XOR 2 ^ i \<noteq> ?lo"
          "?B (d XOR 2 ^ i) = Some (i, True)"
        have "d \<noteq> ?hi" "d XOR 2 ^ i \<noteq> ?hi" using d by (auto split: if_splits)
        then have "d \<noteq> a" "d XOR 2 ^ i \<noteq> a" using d(3,4) lohi by metis+
        moreover have "B d = Some (i, True)" "B (d XOR 2 ^ i) = Some (i, True)"
          using same [OF d(1,3)] same [OF d(5,4)] by blast+
        ultimately show False using less.prems(3) d(2) by (auto simp: merged_except_def)
      qed
      have lv: "live ?B = live B" using lohi B less.prems(4) by (auto simp: live_def split: if_splits)
      have idx: "k - mn + 1 = Suc k - mn" using w(1) by simp
      have lo2: "(if ?b < a then ?b else a) = ?lo" by (simp add: min_def)
      have run: "merge_up a (k - mn) st = merge_up ?lo (Suc k - mn) s2"
        using n mx b True k s1(1) s2(1) lo2 idx by (subst merge_up.simps) (simp add: Let_def)
      have "mx - Suc k < mx - k" using k by simp
      from less.hyps [OF this s2(2) w2 m] run lv show ?thesis by auto
    qed
  qed
qed

subsection \<open>The operations\<close>

declare log2_loop.simps [simp del]

lemma log2_loop_returns:
  assumes "unat sz \<le> 2 ^ 63" "i \<le> 63" "i = 0 \<or> 2 ^ (i - 1) < unat sz"
  shows "\<exists>k. log2_loop (2 ^ i) i sz = Some k \<and> unat sz \<le> 2 ^ k \<and> (k = 0 \<or> 2 ^ (k - 1) < unat sz)"
  using assms(2,3)
proof (induction "63 - i" arbitrary: i)
  case 0
  then have "\<not> (2 ^ i :: u64) < sz" using assms(1) by (simp add: word_less_nat_alt unat_pow2)
  then show ?case using 0 assms(1) by (subst log2_loop.simps) auto
next
  case (Suc d)
  have u: "unat (2 ^ i :: u64) = 2 ^ i" using Suc by (simp add: unat_pow2)
  show ?case
  proof (cases "(2 ^ i :: u64) < sz")
    case True
    have "log2_loop (2 ^ i) i sz = log2_loop (2 ^ Suc i) (Suc i) sz"
      using True by (subst log2_loop.simps) (simp add: push_bit_eq_mult mult.commute)
    moreover have "\<exists>k. log2_loop (2 ^ Suc i) (Suc i) sz = Some k \<and> unat sz \<le> 2 ^ k \<and>
        (k = 0 \<or> 2 ^ (k - 1) < unat sz)"
      using Suc True u by (intro Suc.hyps(1)) (auto simp: word_less_nat_alt)
    ultimately show ?thesis by simp
  next
    case False
    then show ?thesis using Suc u by (subst log2_loop.simps) (auto simp: word_less_nat_alt)
  qed
qed

lemma log2_loop_diverges:
  assumes "log2_loop v i sz = Some k"
  shows "(v = 0 \<or> (\<exists>j < 64. v = 2 ^ j)) \<longrightarrow> unat sz \<le> 2 ^ 63"
  using _ assms
proof (rule log2_loop.raw_induct
    [where P = "\<lambda>v i sz k. (v = 0 \<or> (\<exists>j < 64. v = 2 ^ j)) \<longrightarrow> unat sz \<le> 2 ^ 63"])
  fix f :: "u64 \<Rightarrow> nat \<Rightarrow> u64 \<Rightarrow> nat option" and v i sz k
  assume 1: "\<And>v i sz k. f v i sz = Some k \<Longrightarrow> (v = 0 \<or> (\<exists>j < 64. v = 2 ^ j)) \<longrightarrow> unat sz \<le> 2 ^ 63"
    "(if v < sz then f (push_bit 1 v) (i + 1) sz else Some i) = Some k"
  have le: "unat (2 ^ j :: u64) \<le> 2 ^ 63" if "j < 64" for j
    using that power_increasing [of j 63 "2::nat"] by (simp add: unat_pow2)
  have shl: "push_bit 1 v = 0 \<or> (\<exists>j < 64. push_bit 1 v = 2 ^ j)" if "v = 0 \<or> (\<exists>j < 64. v = 2 ^ j)"
    using that
  proof
    assume "\<exists>j < 64. v = 2 ^ j"
    then obtain j where j: "j < 64" "v = 2 ^ j" by blast
    have "push_bit 1 v = 2 ^ Suc j" by (simp add: j push_bit_eq_mult)
    then show ?thesis using j by (cases "j = 63") (auto intro!: exI [of _ "Suc j"])
  qed simp
  show "(v = 0 \<or> (\<exists>j < 64. v = 2 ^ j)) \<longrightarrow> unat sz \<le> 2 ^ 63"
  proof (cases "v < sz")
    case True
    then have "f (push_bit 1 v) (i + 1) sz = Some k" using 1(2) by simp
    then show ?thesis using 1(1) shl by blast
  next
    case False
    then have "unat sz \<le> unat v" by (simp add: word_less_nat_alt)
    then show ?thesis using le by (auto intro: order_trans)
  qed
qed

lemma log2_ceil_least:
  "log2_ceil sz = (if unat sz \<le> 2 ^ 63 then Some (LEAST k. unat sz \<le> 2 ^ k) else None)"
proof (cases "unat sz \<le> 2 ^ 63")
  case True
  then obtain k where k: "log2_loop (2 ^ 0) 0 sz = Some k" "unat sz \<le> 2 ^ k"
      "k = 0 \<or> 2 ^ (k - 1) < unat sz"
    using log2_loop_returns [of sz 0] by auto
  have "(LEAST k. unat sz \<le> 2 ^ k) = k"
  proof (rule Least_equality)
    fix j assume "unat sz \<le> 2 ^ j"
    show "k \<le> j"
    proof (rule ccontr)
      assume "\<not> k \<le> j"
      then have "(2::nat) ^ j \<le> 2 ^ (k - 1)" "k \<noteq> 0" by (auto intro!: power_increasing)
      then show False using k(3) \<open>unat sz \<le> 2 ^ j\<close> by linarith
    qed
  qed (rule k)
  then show ?thesis using k(1) True by (simp add: log2_ceil_def)
next
  case False
  have "log2_loop 1 0 sz = None"
  proof (cases "log2_loop 1 0 sz")
    case (Some k)
    have "\<exists>j < 64. (1::u64) = 2 ^ j" by (rule exI [of _ 0]) simp
    then show ?thesis using log2_loop_diverges [OF Some] False by blast
  qed
  then show ?thesis using False by (simp add: log2_ceil_def)
qed

lemma log2_ceil_le:
  assumes "unat sz \<le> 2 ^ 63"
  obtains k where "log2_ceil sz = Some k" "unat sz \<le> 2 ^ k" "\<And>j. unat sz \<le> 2 ^ j \<Longrightarrow> k \<le> j"
proof -
  have "unat sz \<le> 2 ^ (LEAST k. unat sz \<le> 2 ^ k)" using assms by (rule LeastI)
  then show ?thesis using that assms by (auto simp: log2_ceil_least intro: Least_le)
qed

text \<open>Between operations no block is being worked on and no two free buddies remain.\<close>

definition buddy_ok :: "nat \<Rightarrow> nat \<Rightarrow> BuddyAllocator \<Rightarrow> block_map \<Rightarrow> bool" where
  "buddy_ok mn mx st B \<longleftrightarrow> heap_rep mn mx st B {} \<and> blocks_wf mn mx B \<and> merged mx B"

lemma find_idx_spec:
  "i \<le> n \<Longrightarrow> i \<le> find_idx fl n i \<and> find_idx fl n i \<le> n \<and>
     (\<forall>j. i \<le> j \<longrightarrow> j < find_idx fl n i \<longrightarrow> fl ! j = None) \<and>
     (find_idx fl n i < n \<longrightarrow> fl ! find_idx fl n i \<noteq> None)"
proof (induction fl n i rule: find_idx.induct)
  case (1 fl n i)
  show ?case
  proof (cases "i < n \<and> fl ! i = None")
    case True
    then have e: "find_idx fl n i = find_idx fl n (Suc i)" by (subst find_idx.simps) simp
    have ih: "Suc i \<le> find_idx fl n (Suc i) \<and> find_idx fl n (Suc i) \<le> n \<and>
        (\<forall>j. Suc i \<le> j \<longrightarrow> j < find_idx fl n (Suc i) \<longrightarrow> fl ! j = None) \<and>
        (find_idx fl n (Suc i) < n \<longrightarrow> fl ! find_idx fl n (Suc i) \<noteq> None)"
      using 1 True by simp
    have "fl ! j = None" if "i \<le> j" "j < find_idx fl n (Suc i)" for j
      using ih that True by (cases "i = j") auto
    then show ?thesis using ih unfolding e by auto
  next
    case False
    then have "find_idx fl n i = i" by (subst find_idx.simps) argo
    then show ?thesis using 1 False by auto
  qed
qed

lemma ok_params:
  assumes "buddy_ok mn mx st B"
  shows "min_order st = mn" "max_order st = mx" "5 \<le> mn" "mn \<le> mx" "mx - mn < MAX_ORDERS"
    "unat (pool_size st) = 2 ^ mx"
  using assms by (auto simp: buddy_ok_def heap_rep_def)

lemma head_of_list:
  assumes r: "heap_rep mn mx st B X" and i: "i < MAX_ORDERS"
  shows "case free_lists st ! i of None \<Rightarrow> on_list mn B X i = {} | Some a \<Rightarrow> a \<in> on_list mn B X i"
proof -
  obtain fl where fl: "lists_ok st fl" "\<And>i. i < MAX_ORDERS \<Longrightarrow> set (fl i) = on_list mn B X i"
    using r by (rule heap_repE) blast
  have "free_lists st ! i = first_ptr (fl i) None" using fl(1) i by (simp add: lists_ok_def)
  then show ?thesis using fl(2) [OF i] by (cases "fl i") auto
qed

lemma merged_imp_except: "merged mx B \<Longrightarrow> merged_except mx B a"
  by (simp add: merged_def merged_except_def)

lemma buddy_alloc_spec:
  assumes ok: "buddy_ok mn mx st B" and sz: "unat sz \<le> 2 ^ 62"
  shows "\<exists>res st' B'. buddy_alloc sz st = Some (res, st') \<and> buddy_ok mn mx st' B' \<and>
    (case res of
       None \<Rightarrow> st' = st \<and> B' = B \<and> (\<forall>a k. B a = Some (k, True) \<longrightarrow> 2 ^ k < unat sz + HEADER)
     | Some p \<Rightarrow> HEADER \<le> p \<and> (\<exists>k. unat sz + HEADER \<le> 2 ^ k \<and> (p - HEADER, k) \<notin> live B \<and>
                  live B' = insert (p - HEADER, k) (live B)))"
proof -
  note par = ok_params [OF ok]
  have w: "blocks_wf mn mx B" and r: "heap_rep mn mx st B {}" and mg: "merged mx B"
    using ok by (auto simp: buddy_ok_def)
  have tot: "unat (sz + word_of_nat HEADER) = unat sz + HEADER"
    using sz by (simp add: HEADER_def unat_word_ariths)
  then have "unat (sz + word_of_nat HEADER) \<le> 2 ^ 63" using sz by (simp add: HEADER_def)
  then obtain q where q: "log2_ceil (sz + word_of_nat HEADER) = Some q" "unat sz + HEADER \<le> 2 ^ q"
      "\<And>j. unat sz + HEADER \<le> 2 ^ j \<Longrightarrow> q \<le> j"
    using tot by (metis log2_ceil_le)
  define r' where "r' = (if q < mn then mn else q)"
  have eq: "buddy_alloc sz st =
      (if mx < r' then Some (None, st)
       else
         (let current = find_idx (free_lists st) (mx - mn + 1) (r' - mn) in
          if mx - mn < current then Some (None, st)
          else
            (case free_lists st ! current of
               None \<Rightarrow> None
             | Some block \<Rightarrow> do {
                 st \<leftarrow> list_remove current block st;
                 st \<leftarrow> split_down block (r' - mn) current st;
                 st \<leftarrow> set_block block (bh_free_update (\<lambda>_. False)) st;
                 Some (Some (block + HEADER), st)
               })))"
    using q(1) unfolding buddy_alloc_def par(1,2) r'_def by (simp only: bind.bind_lunit Let_def)
  have rq: "q \<le> r'" "mn \<le> r'" by (auto simp: r'_def)
  have small: "2 ^ k < unat sz + HEADER" if "k < r'" "B a = Some (k, True)" for a k
    using q(3) [of k] blocks_wfD(1) [OF w that(2)] that(1) by (force simp: r'_def split: if_splits)
  show ?thesis
  proof (cases "mx < r'")
    case True
    then have "buddy_alloc sz st = Some (None, st)" unfolding eq by simp
    moreover have "\<forall>a k. B a = Some (k, True) \<longrightarrow> 2 ^ k < unat sz + HEADER"
      using True small blocks_wfD(2) [OF w] by (meson le_less_trans)
    ultimately show ?thesis using ok by auto
  next
    case False
    let ?t = "r' - mn" and ?n = "mx - mn + 1"
    define c where "c = find_idx (free_lists st) ?n ?t"
    have "?t \<le> ?n" using False by simp
    from find_idx_spec [OF this, of "free_lists st"]
    have c: "?t \<le> c" "c \<le> ?n" "\<And>j. ?t \<le> j \<Longrightarrow> j < c \<Longrightarrow> free_lists st ! j = None"
        "c < ?n \<Longrightarrow> free_lists st ! c \<noteq> None"
      unfolding c_def by auto
    show ?thesis
    proof (cases "mx - mn < c")
      case True
      have "buddy_alloc sz st = Some (None, st)"
        using True False unfolding eq Let_def c_def by simp
      moreover have "2 ^ k < unat sz + HEADER" if a: "B a = Some (k, True)" for a k
      proof (rule small [OF _ a], rule ccontr)
        assume "\<not> k < r'"
        then have k: "r' \<le> k" "mn \<le> k" "k \<le> mx" using blocks_wfD(1,2) [OF w a] by auto
        then have "free_lists st ! (k - mn) = None" using True by (intro c(3)) auto
        moreover have "a \<in> on_list mn B {} (k - mn)" using a k by (simp add: on_list_def)
        ultimately show False using head_of_list [OF r, of "k - mn"] k par by auto
      qed
      ultimately show ?thesis using ok by auto
    next
      case False
      then have cn: "c < ?n" "c < MAX_ORDERS" using par by auto
      then obtain a where a: "free_lists st ! c = Some a" using c(4) by auto
      then have B: "B a = Some (mn + c, True)" using head_of_list [OF r cn(2)] by (simp add: on_list_def)
      have k: "mn \<le> mn + c" "mn + c \<le> mx" using cn par(4) by auto
      obtain s1 where s1: "list_remove c a st = Some s1" "heap_rep mn mx s1 B {a}"
        using rep_remove [OF r B _ k] by auto
      obtain s2 B2 where s2: "split_down a ?t c s1 = Some s2" "heap_rep mn mx s2 B2 {a}"
          "blocks_wf mn mx B2" "merged_except mx B2 a" "B2 a = Some (mn + ?t, True)" "live B2 = live B"
        using split_down_spec [OF s1(2) w merged_imp_except [OF mg] B c(1)] by blast
      let ?B = "B2(a \<mapsto> (mn + ?t, False))"
      obtain s3 where s3: "set_block a (bh_free_update (\<lambda>_. False)) s2 = Some s3" "heap_rep mn mx s3 ?B {a}"
        using rep_set_block [OF s2(2,5) singletonI, of "bh_free_update (\<lambda>_. False)" "mn + ?t" False] by auto
      have "heap_rep mn mx s3 ?B ({a} - {a})" by (rule rep_unmark [OF s3(2)]) simp
      moreover have "blocks_wf mn mx ?B" by (rule wf_set_free [OF s2(3,5)])
      moreover have "merged mx ?B" unfolding merged_def
      proof (intro allI impI)
        fix b j assume b: "?B b = Some (j, True)" "j < mx"
        show "?B (b XOR 2 ^ j) \<noteq> Some (j, True)"
          using b s2(4) by (cases "b XOR 2 ^ j = a") (auto simp: merged_except_def split: if_splits)
      qed
      ultimately have ok': "buddy_ok mn mx s3 ?B" by (simp add: buddy_ok_def)
      have run: "buddy_alloc sz st = Some (Some (a + HEADER), s3)"
        using False \<open>\<not> mx < r'\<close> a s1(1) s2(1) s3(1) unfolding eq Let_def c_def [symmetric] by simp
      have "live ?B = insert (a, mn + ?t) (live B)"
        unfolding s2(6) [symmetric] using s2(5) by (auto simp: live_def split: if_splits)
      moreover have "(a, mn + ?t) \<notin> live B" using B by (simp add: live_def)
      moreover have "unat sz + HEADER \<le> 2 ^ (mn + ?t)"
      proof -
        have "(2::nat) ^ q \<le> 2 ^ (mn + ?t)" using rq by (intro power_increasing) auto
        then show ?thesis using q(2) by linarith
      qed
      ultimately show ?thesis using run ok'
        by (intro exI [of _ "Some (a + HEADER)"] exI [of _ s3] exI [of _ ?B]) auto
    qed
  qed
qed

lemma buddy_free_spec:
  assumes ok: "buddy_ok mn mx st B" and a: "B a = Some (k, False)"
  shows "\<exists>st' B'. buddy_free (Some (a + HEADER)) st = Some st' \<and> buddy_ok mn mx st' B' \<and>
    live B' = live B - {(a, k)}"
proof -
  have w: "blocks_wf mn mx B" and r: "heap_rep mn mx st B {}" and mg: "merged mx B"
    using ok by (auto simp: buddy_ok_def)
  note wa = blocks_wfD [OF w a]
  let ?B = "B(a \<mapsto> (k, True))"
  have ra: "heap_rep mn mx st B {a}" by (rule rep_unmark(2) [OF r a])
  obtain s1 where s1: "set_block a (bh_free_update (\<lambda>_. True)) st = Some s1" "heap_rep mn mx s1 ?B {a}"
    using rep_set_block [OF ra a singletonI, of "bh_free_update (\<lambda>_. True)" k True] by auto
  have B: "?B a = Some (k, True)" by simp
  obtain n where n: "memory_pool s1 a = Some n" "bh_order n = k"
    using heap_rep_header [OF s1(2) B] by blast
  have m: "merged_except mx ?B a"
    using mg by (auto simp: merged_def merged_except_def split: if_splits)
  obtain s2 B2 b j where s2: "merge_up a (k - mn) s1 = Some (b, j - mn, s2)" "heap_rep mn mx s2 B2 {b}"
      "blocks_wf mn mx B2" "merged mx B2" "B2 b = Some (j, True)" "live B2 = live ?B"
    using merge_up_spec [OF s1(2) wf_set_free [OF w a] m B] by blast
  obtain s3 where s3: "list_add (j - mn) b s2 = Some s3" "heap_rep mn mx s3 B2 ({b} - {b})"
    using rep_add [OF s2(2,5) singletonI] blocks_wfD(1,2) [OF s2(3,5)] by blast
  have mn: "min_order s1 = mn" using s1(2) by (simp add: heap_rep_def)
  have "buddy_free (Some (a + HEADER)) st = Some s3"
    using s1(1) n mn s2(1) s3(1) by (simp add: buddy_free_def Let_def)
  moreover have "buddy_ok mn mx s3 B2" using s3(2) s2(3,4) by (simp add: buddy_ok_def)
  moreover have "live B2 = live B - {(a, k)}"
    unfolding s2(6) using a by (auto simp: live_def split: if_splits)
  ultimately show ?thesis by blast
qed

lemma init_spec:
  assumes p: "unat psize = 2 ^ mx" and m: "unat msize = 2 ^ mn" and b: "5 \<le> mn" "mn \<le> mx" "mx - mn < MAX_ORDERS"
  shows "\<exists>st. buddy_init pool psize msize = Some st \<and> buddy_ok mn mx st [0 \<mapsto> (mx, True)]"
proof -
  have log: "log2_ceil s = Some k" if "unat s = 2 ^ k" for s :: u64 and k
  proof -
    have "unat s < 2 ^ LENGTH(64)" by (rule unsigned_less)
    then have "(2::nat) ^ k < 2 ^ 64" by (simp add: that)
    then have "k < 64" by (rule power_less_imp_less_exp [rotated]) simp
    then have "(2::nat) ^ k \<le> 2 ^ 63" by (intro power_increasing) auto
    moreover have "(LEAST j. (2::nat) ^ k \<le> 2 ^ j) = k" by (rule Least_equality) auto
    ultimately show ?thesis by (simp add: log2_ceil_least that)
  qed
  let ?n = "\<lparr>bh_next = None, bh_prev = None, bh_order = mx, bh_free = True\<rparr>"
  let ?st = "\<lparr>memory_pool = pool(0 \<mapsto> ?n), pool_size = psize, min_block_size = msize, min_order = mn,
     max_order = mx, free_lists = (replicate MAX_ORDERS None)[mx - mn := Some 0]\<rparr>"
  have "(2::nat) ^ 5 \<le> 2 ^ mx" using b by (intro power_increasing) auto
  then have "HEADER \<le> unat psize" using p by (simp add: HEADER_def)
  then have "buddy_init pool psize msize = Some ?st"
    using log [OF p] log [OF m] b by (simp add: buddy_init_def put_block_def)
  moreover have "buddy_ok mn mx ?st [0 \<mapsto> (mx, True)]"
  proof -
    have "lists_ok ?st (\<lambda>i. if i = mx - mn then [0] else [])"
      by (auto simp: lists_ok_def MAX_ORDERS_def nth_list_update)
    then have "heap_rep mn mx ?st [0 \<mapsto> (mx, True)] {}"
      unfolding heap_rep_def using p b
      by (auto simp: headers_ok_def on_list_def intro!: exI [of _ "\<lambda>i. if i = mx - mn then [0] else []"]
          split: if_splits)
    moreover have "blocks_wf mn mx [0 \<mapsto> (mx, True)]"
      using b by (intro blocks_wfI) (auto split: if_splits)
    ultimately show ?thesis by (auto simp: buddy_ok_def merged_def split: if_splits)
  qed
  ultimately show ?thesis by blast
qed

lemma coalesced_spec:
  assumes ok: "buddy_ok mn mx st B" and l: "live B = {}"
  shows "coalesced_check st"
proof -
  have r: "heap_rep mn mx st B {}" and B: "B = [0 \<mapsto> (mx, True)]"
    using ok all_free_root [OF _ _ l] by (auto simp: buddy_ok_def)
  obtain fl where fl: "lists_ok st fl" "\<And>i. i < MAX_ORDERS \<Longrightarrow> set (fl i) = on_list mn B {} i"
    using r by (rule heap_repE) blast
  note par = ok_params [OF ok]
  have d: "dls bh_next bh_prev (memory_pool st) None (fl i) None" "free_lists st ! i = first_ptr (fl i) None"
    if "i < MAX_ORDERS" for i using fl(1) that by (auto simp: lists_ok_def)
  have "set (fl (mx - mn)) = {0}" using fl(2) [OF par(5)] par(4) unfolding B by (auto simp: on_list_def split: if_splits)
  moreover have "distinct (fl (mx - mn))" using d(1) [OF par(5)] by (rule dls_distinct)
  ultimately have top: "fl (mx - mn) = [0]" by (cases "fl (mx - mn)"; cases "tl (fl (mx - mn))") auto
  have "free_lists st ! i = None" if "i < mx - mn" for i
  proof -
    have "set (fl i) = {}" using fl(2) [of i] that par(5) unfolding B by (auto simp: on_list_def split: if_splits)
    then show ?thesis using d(2) [of i] that par(5) by simp
  qed
  then show ?thesis using d [OF par(5)] top par(1,2)
    by (auto simp: coalesced_check_def Let_def list_all_iff)
qed

subsection \<open>The stress test passes for every sequence of random numbers\<close>

text \<open>Every slot in use is a live block, large enough, and no two slots hold the same one.\<close>

definition slots_ok :: "block_map \<Rightarrow> ptr list \<Rightarrow> nat list \<Rightarrow> bool" where
  "slots_ok B ptrs sizes \<longleftrightarrow> length ptrs = NUM_PTRS \<and> length sizes = NUM_PTRS \<and>
     (\<forall>j < NUM_PTRS. \<forall>p. ptrs ! j = Some p \<longrightarrow>
        HEADER \<le> p \<and> (\<exists>k. (p - HEADER, k) \<in> live B \<and> sizes ! j + HEADER \<le> 2 ^ k)) \<and>
     (\<forall>i < NUM_PTRS. \<forall>j < NUM_PTRS. \<forall>p. ptrs ! i = Some p \<longrightarrow> ptrs ! j = Some p \<longrightarrow> i = j) \<and>
     (\<forall>a k. (a, k) \<in> live B \<longrightarrow> (\<exists>j < NUM_PTRS. ptrs ! j = Some (a + HEADER)))"

lemma slots_okD:
  assumes "slots_ok B ptrs sizes"
  shows "length ptrs = NUM_PTRS" "length sizes = NUM_PTRS"
    "j < NUM_PTRS \<Longrightarrow> ptrs ! j = Some p \<Longrightarrow> HEADER \<le> p"
    "j < NUM_PTRS \<Longrightarrow> ptrs ! j = Some p \<Longrightarrow> \<exists>k. (p - HEADER, k) \<in> live B \<and> sizes ! j + HEADER \<le> 2 ^ k"
    "i < NUM_PTRS \<Longrightarrow> j < NUM_PTRS \<Longrightarrow> ptrs ! i = Some p \<Longrightarrow> ptrs ! j = Some p \<Longrightarrow> i = j"
    "(a, k) \<in> live B \<Longrightarrow> \<exists>j < NUM_PTRS. ptrs ! j = Some (a + HEADER)"
  using assms unfolding slots_ok_def by blast+

lemma slots_remove:
  assumes s: "slots_ok B ptrs sizes" and i: "i < NUM_PTRS" "ptrs ! i = Some p"
    and l: "live B' = live B - {(p - HEADER, k)}" and k: "(p - HEADER, k) \<in> live B"
  shows "slots_ok B' (ptrs[i := None]) (sizes[i := 0])"
proof -
  note d = slots_okD [OF s]
  have other: "(q - HEADER, m) \<noteq> (p - HEADER, k)" if "j < NUM_PTRS" "j \<noteq> i" "ptrs ! j = Some q" for j q m
  proof -
    have "q \<noteq> p" using d(5) [OF that(1) i(1)] that i by auto
    then have "q - HEADER \<noteq> p - HEADER" using d(3) [OF that(1,3)] d(3) [OF i] by linarith
    then show ?thesis by simp
  qed
  have uniq: "m = k" if "(p - HEADER, m) \<in> live B" for m using that k by (auto simp: live_def)
  have "HEADER \<le> q \<and> (\<exists>m. (q - HEADER, m) \<in> live B' \<and> sizes[i := 0] ! j + HEADER \<le> 2 ^ m)"
    if "j < NUM_PTRS" "ptrs[i := None] ! j = Some q" for j q
  proof -
    have j: "j \<noteq> i" "ptrs ! j = Some q" using that d(1) i(1) by (auto simp: nth_list_update split: if_splits)
    have "\<exists>m. (q - HEADER, m) \<in> live B \<and> sizes ! j + HEADER \<le> 2 ^ m" by (rule d(4) [OF that(1) j(2)])
    then obtain m where "(q - HEADER, m) \<in> live B" "sizes ! j + HEADER \<le> 2 ^ m" by blast
    then show ?thesis using d(3) [OF that(1) j(2)] other [OF that(1) j] j(1) unfolding l by auto
  qed
  moreover have "\<exists>j < NUM_PTRS. ptrs[i := None] ! j = Some (a + HEADER)" if "(a, m) \<in> live B'" for a m
  proof -
    have m: "(a, m) \<in> live B" "(a, m) \<noteq> (p - HEADER, k)" using that unfolding l by auto
    then obtain j where j: "j < NUM_PTRS" "ptrs ! j = Some (a + HEADER)" using d(6) by blast
    have "j \<noteq> i" using j i m uniq by auto
    then show ?thesis using j by auto
  qed
  ultimately show ?thesis using d(1,2,5) i(1) unfolding slots_ok_def
    by (auto simp: nth_list_update split: if_splits)
qed

lemma slots_add:
  assumes s: "slots_ok B ptrs sizes" and i: "i < NUM_PTRS" "ptrs ! i = None" and p: "HEADER \<le> p"
    and l: "live B' = insert (p - HEADER, k) (live B)" and n: "\<And>m. (p - HEADER, m) \<notin> live B"
    and sz: "sz + HEADER \<le> 2 ^ k"
  shows "slots_ok B' (ptrs[i := Some p]) (sizes[i := sz])"
proof -
  note d = slots_okD [OF s]
  have new: "ptrs ! j \<noteq> Some p" if "j < NUM_PTRS" for j using d(4) [OF that] n by blast
  have "HEADER \<le> q \<and> (\<exists>m. (q - HEADER, m) \<in> live B' \<and> sizes[i := sz] ! j + HEADER \<le> 2 ^ m)"
    if "j < NUM_PTRS" "ptrs[i := Some p] ! j = Some q" for j q
  proof (cases "j = i")
    case True
    then show ?thesis using that p sz d(1,2) unfolding l by auto
  next
    case False
    then have "ptrs ! j = Some q" using that by simp
    then show ?thesis using d(3,4) [OF that(1)] False unfolding l by auto
  qed
  moreover have "\<exists>j < NUM_PTRS. ptrs[i := Some p] ! j = Some (a + HEADER)" if "(a, m) \<in> live B'" for a m
  proof (cases "a = p - HEADER")
    case True
    then show ?thesis using i(1) d(1) p by auto
  next
    case False
    then have "(a, m) \<in> live B" using that unfolding l by simp
    then obtain j where "j < NUM_PTRS" "ptrs ! j = Some (a + HEADER)" using d(6) by blast
    moreover have "j \<noteq> i" using i calculation by auto
    ultimately show ?thesis by auto
  qed
  ultimately show ?thesis using d(1,2,5) new i(1) unfolding slots_ok_def
    by (auto simp: nth_list_update split: if_splits)
qed

definition stress_ok :: "stress_state \<Rightarrow> block_map \<Rightarrow> bool" where
  "stress_ok s B \<longleftrightarrow> buddy_ok 5 16 (sx_alloc s) B \<and> slots_ok B (sx_ptrs s) (sx_sizes s)"

text \<open>Two live blocks do not overlap, and neither do the parts of them in use.\<close>

lemma live_apart:
  assumes w: "blocks_wf mn mx B" and a: "(a, k) \<in> live B" and b: "(b, j) \<in> live B" and ne: "a \<noteq> b"
    and s: "sa + HEADER \<le> 2 ^ k" "sb + HEADER \<le> 2 ^ j"
  shows "\<not> ranges_overlap (a + HEADER) sa (b + HEADER) sb"
proof -
  have B: "B a = Some (k, False)" "B b = Some (j, False)" using a b by (auto simp: live_def)
  have "a + 2 ^ k \<le> b \<or> b + 2 ^ j \<le> a"
    using blocks_wfD(6,7) [OF w B(1) B(2)] ne by (metis linorder_neqE_nat)
  then show ?thesis using s by (auto simp: ranges_overlap_def)
qed

lemma stress_round_ok:
  assumes "stress_ok s B"
  shows "\<exists>s' B'. stress_round r s = Some s' \<and> stress_ok s' B'"
proof -
  let ?i = "fst r mod NUM_PTRS"
  have ok: "buddy_ok 5 16 (sx_alloc s) B" and sl: "slots_ok B (sx_ptrs s) (sx_sizes s)"
    using assms by (auto simp: stress_ok_def)
  have i: "?i < NUM_PTRS" by (simp add: NUM_PTRS_def)
  note d = slots_okD [OF sl]
  show ?thesis
  proof (cases "sx_ptrs s ! ?i")
    case (Some p)
    obtain k where k: "(p - HEADER, k) \<in> live B" using d(4) [OF i Some] by blast
    have p: "p - HEADER + HEADER = p" using d(3) [OF i Some] by simp
    have "B (p - HEADER) = Some (k, False)" using k by (simp add: live_def)
    from buddy_free_spec [OF ok this] obtain al B' where f: "buddy_free (Some p) (sx_alloc s) = Some al"
        "buddy_ok 5 16 al B'" "live B' = live B - {(p - HEADER, k)}" unfolding p by blast
    show ?thesis using f Some slots_remove [OF sl i Some f(3) k]
      by (auto simp: stress_round_def Let_def stress_ok_def)
  next
    case None
    define sz where "sz = snd r mod 256 + 1"
    have run: "stress_round r s =
        (case buddy_alloc (word_of_nat sz) (sx_alloc s) of
           None \<Rightarrow> None
         | Some (None, al) \<Rightarrow> Some (s\<lparr>sx_alloc := al\<rparr>)
         | Some (Some p, al) \<Rightarrow>
             if overlaps_live ?i p sz s \<or> unat (pool_size al) < p + sz then None
             else Some \<lparr>sx_alloc = al, sx_ptrs = (sx_ptrs s)[?i := Some p], sx_sizes = (sx_sizes s)[?i := sz]\<rparr>)"
      using None unfolding stress_round_def sz_def Let_def by simp
    have sz: "sz \<le> 256" "0 < sz" unfolding sz_def by (auto simp: Suc_le_eq)
    then have usz: "unat (word_of_nat sz :: u64) = sz" by (simp add: unsigned_of_nat take_bit_nat_eq_self_iff)
    obtain res al B' where al: "buddy_alloc (word_of_nat sz) (sx_alloc s) = Some (res, al)"
        "buddy_ok 5 16 al B'"
        "case res of
           None \<Rightarrow> al = sx_alloc s \<and> B' = B \<and> (\<forall>a k. B a = Some (k, True) \<longrightarrow> 2 ^ k < sz + HEADER)
         | Some p \<Rightarrow> HEADER \<le> p \<and> (\<exists>k. sz + HEADER \<le> 2 ^ k \<and> (p - HEADER, k) \<notin> live B \<and>
                      live B' = insert (p - HEADER, k) (live B))"
      using buddy_alloc_spec [OF ok, of "word_of_nat sz"] sz unfolding usz by auto
    show ?thesis
    proof (cases res)
      case None': None
      then show ?thesis using al sl by (auto simp: run stress_ok_def)
    next
      case (Some p)
      then obtain k where p: "HEADER \<le> p" "sz + HEADER \<le> 2 ^ k" "(p - HEADER, k) \<notin> live B"
          "live B' = insert (p - HEADER, k) (live B)" using al(3) by auto
      have w: "blocks_wf 5 16 B'" using al(2) by (simp add: buddy_ok_def)
      have live': "(p - HEADER, k) \<in> live B'" using p(4) by simp
      then have Bp: "B' (p - HEADER) = Some (k, False)" by (simp add: live_def)
      have fresh: "(p - HEADER, m) \<notin> live B" for m
      proof
        assume m: "(p - HEADER, m) \<in> live B"
        then have "(p - HEADER, m) \<in> live B'" using p(4) by simp
        then have "m = k" using Bp by (auto simp: live_def)
        then show False using m p(3) by simp
      qed
      have "\<not> overlaps_live ?i p sz s"
      proof -
        have "\<not> ranges_overlap p sz q (sx_sizes s ! j)" if j: "j < NUM_PTRS" "sx_ptrs s ! j = Some q" for j q
        proof -
          obtain m where m: "(q - HEADER, m) \<in> live B" "sx_sizes s ! j + HEADER \<le> 2 ^ m"
            using d(4) [OF j] by blast
          have "(q - HEADER, m) \<in> live B'" using m(1) p(4) by simp
          moreover have "p - HEADER \<noteq> q - HEADER" using fresh m(1) by auto
          ultimately have "\<not> ranges_overlap (p - HEADER + HEADER) sz (q - HEADER + HEADER) (sx_sizes s ! j)"
            using live_apart [OF w live'] p(2) m(2) by blast
          then show ?thesis using p(1) d(3) [OF j] by simp
        qed
        then show ?thesis by (auto simp: overlaps_live_def list_ex_iff split: option.splits)
      qed
      moreover have "p + sz \<le> unat (pool_size al)"
        using blocks_wfD(4) [OF w Bp] p(1,2) ok_params(6) [OF al(2)] by simp
      ultimately show ?thesis
        using Some al(1,2) slots_add [OF sl i None p(1,4) fresh p(2)] by (auto simp: run stress_ok_def)
    qed
  qed
qed

lemma stress_rounds_ok: "stress_ok s B \<Longrightarrow> \<exists>s' B'. stress_rounds rs s = Some s' \<and> stress_ok s' B'"
proof (induction rs arbitrary: s B)
  case (Cons r rs)
  then show ?case using stress_round_ok [of s B r] by fastforce
qed auto

lemma free_live_ok:
  assumes "buddy_ok mn mx al B" "\<And>p. Some p \<in> set ps \<Longrightarrow> HEADER \<le> p \<and> (\<exists>k. (p - HEADER, k) \<in> live B)"
    "distinct (filter (\<lambda>p. p \<noteq> None) ps)" "\<And>a k. (a, k) \<in> live B \<Longrightarrow> Some (a + HEADER) \<in> set ps"
  shows "\<exists>al' B'. free_live ps al = Some al' \<and> buddy_ok mn mx al' B' \<and> live B' = {}"
  using assms
proof (induction ps arbitrary: al B)
  case Nil
  then have "live B = {}" by auto
  then show ?case using Nil by auto
next
  case (Cons p ps)
  show ?case
  proof (cases p)
    case None
    then show ?thesis using Cons.IH [OF Cons.prems(1)] Cons.prems(2-4) by auto
  next
    case (Some q)
    obtain k where k: "HEADER \<le> q" "(q - HEADER, k) \<in> live B" using Cons.prems(2) [of q] Some by auto
    then have "B (q - HEADER) = Some (k, False)" by (simp add: live_def)
    from buddy_free_spec [OF Cons.prems(1) this] obtain al1 B1 where f: "buddy_free (Some q) al = Some al1"
        "buddy_ok mn mx al1 B1" "live B1 = live B - {(q - HEADER, k)}" using k(1) by auto
    have q: "Some q \<notin> set ps" using Cons.prems(3) Some by auto
    have "\<exists>al' B'. free_live ps al1 = Some al' \<and> buddy_ok mn mx al' B' \<and> live B' = {}"
    proof (rule Cons.IH [OF f(2)])
      fix r assume r: "Some r \<in> set ps"
      then have h: "HEADER \<le> r" "\<exists>k. (r - HEADER, k) \<in> live B" using Cons.prems(2) [of r] by auto
      moreover have "r \<noteq> q" using r q by auto
      then have "r - HEADER \<noteq> q - HEADER" using h(1) k(1) by linarith
      ultimately show "HEADER \<le> r \<and> (\<exists>k. (r - HEADER, k) \<in> live B1)" unfolding f(3) by auto
    next
      fix a m assume a: "(a, m) \<in> live B1"
      then have "(a, m) \<in> live B" "a \<noteq> q - HEADER" using k(2) unfolding f(3) by (auto simp: live_def)
      then show "Some (a + HEADER) \<in> set ps" using Cons.prems(4) [of a m] Some by auto
    qed (use Cons.prems(3) Some in auto)
    then show ?thesis using f(1) Some by simp
  qed
qed

lemma stress_test_spec: "stress_test pool rs"
proof -
  obtain al where al: "buddy_init pool (2 ^ 16) 32 = Some al" "buddy_ok 5 16 al [0 \<mapsto> (16, True)]"
    using init_spec [of "2 ^ 16" 16 32 5 pool] by (auto simp: MAX_ORDERS_def unat_pow2)
  let ?s = "\<lparr>sx_alloc = al, sx_ptrs = replicate NUM_PTRS None, sx_sizes = replicate NUM_PTRS 0\<rparr>"
  have "stress_ok ?s [0 \<mapsto> (16, True)]"
    using al(2) by (auto simp: stress_ok_def slots_ok_def live_def split: if_splits)
  then obtain s B where s: "stress_rounds rs ?s = Some s" "stress_ok s B" using stress_rounds_ok by blast
  have ok: "buddy_ok 5 16 (sx_alloc s) B" and sl: "slots_ok B (sx_ptrs s) (sx_sizes s)"
    using s(2) by (auto simp: stress_ok_def)
  note d = slots_okD [OF sl]
  obtain al' B' where f: "free_live (sx_ptrs s) (sx_alloc s) = Some al'" "buddy_ok 5 16 al' B'" "live B' = {}"
  proof (rule exE [OF free_live_ok [OF ok, of "sx_ptrs s"]])
    show "distinct (filter (\<lambda>p. p \<noteq> None) (sx_ptrs s))"
      by (rule distinct_filterI) (use d(1,5) in auto)
    show "HEADER \<le> p \<and> (\<exists>k. (p - HEADER, k) \<in> live B)" if "Some p \<in> set (sx_ptrs s)" for p
      using that d(1,3,4) by (metis in_set_conv_nth)
    show "Some (a + HEADER) \<in> set (sx_ptrs s)" if "(a, k) \<in> live B" for a k
      using d(6) [OF that] d(1) by (metis nth_mem)
  qed blast
  show ?thesis using al(1) s(1) f(1) coalesced_spec [OF f(2,3)] by (simp add: stress_test_def)
qed

subsection \<open>Properties\<close>

text \<open>C27: log2_ceil returns the least order whose power of two is at least the size, and it does so
  exactly for the sizes up to 2^63; for a larger one its loop never ends.\<close>

theorem log2_ceil_correct:
  "log2_ceil sz = (if unat sz \<le> 2 ^ 63 then Some (LEAST k. unat sz \<le> 2 ^ k) else None)"
  by (rule log2_ceil_least)

text \<open>C6: For a size of at most \<open>2 ^ 62\<close> bytes, so that the size and the header do not wrap around (a size within 24 bytes of
  \<open>SIZE_MAX\<close> does, and gets a block that is too small), buddy_alloc on a well-formed pool is defined and keeps it well formed
  and fully merged. It returns NULL, without any change, only when every free block is too small for the size and its
  header; otherwise the result starts a new live block that is large enough, and the live blocks
  before it stay as they are.\<close>

theorem buddy_alloc_correct:
  assumes "buddy_ok mn mx st B" "unat sz \<le> 2 ^ 62"
  shows "\<exists>res st' B'. buddy_alloc sz st = Some (res, st') \<and> buddy_ok mn mx st' B' \<and>
    (case res of
       None \<Rightarrow> st' = st \<and> B' = B \<and> (\<forall>a k. B a = Some (k, True) \<longrightarrow> 2 ^ k < unat sz + HEADER)
     | Some p \<Rightarrow> HEADER \<le> p \<and> (\<exists>k. unat sz + HEADER \<le> 2 ^ k \<and> (p - HEADER, k) \<notin> live B \<and>
                  live B' = insert (p - HEADER, k) (live B)))"
  using assms by (rule buddy_alloc_spec)

definition small_pool :: BuddyAllocator where
  "small_pool = the (buddy_init (\<lambda>_. None) 1024 32)"

abbreviation one_free :: block_map where
  "one_free \<equiv> [0 \<mapsto> (10, True)]"

lemma small_pool_ok: "buddy_ok 5 10 small_pool one_free"
  using init_spec [of 1024 10 32 5 "\<lambda>_. None"] by (auto simp: MAX_ORDERS_def small_pool_def)

theorem buddy_alloc_correct_witness:
  "\<exists>res st' B'. buddy_alloc 100 small_pool = Some (res, st') \<and> buddy_ok 5 10 st' B' \<and>
    (case res of
       None \<Rightarrow> st' = small_pool \<and> B' = one_free \<and>
         (\<forall>a k. one_free a = Some (k, True) \<longrightarrow> 2 ^ k < unat (100 :: u64) + HEADER)
     | Some p \<Rightarrow> HEADER \<le> p \<and> (\<exists>k. unat (100 :: u64) + HEADER \<le> 2 ^ k \<and>
         (p - HEADER, k) \<notin> live one_free \<and>
         live B' = insert (p - HEADER, k) (live one_free)))"
  by (rule buddy_alloc_correct [OF small_pool_ok]) simp

text \<open>C7: buddy_free of a live block is defined, ends, keeps the pool well formed and fully merged, and
  releases exactly that block; once no block is live the whole pool is one free block again.\<close>

theorem buddy_free_correct:
  assumes "buddy_ok mn mx st B" "B a = Some (k, False)"
  shows "\<exists>st' B'. buddy_free (Some (a + HEADER)) st = Some st' \<and> buddy_ok mn mx st' B' \<and>
    live B' = live B - {(a, k)} \<and> (live B' = {} \<longrightarrow> B' = [0 \<mapsto> (mx, True)] \<and> coalesced_check st')"
proof -
  obtain st' B' where f: "buddy_free (Some (a + HEADER)) st = Some st'" "buddy_ok mn mx st' B'"
      "live B' = live B - {(a, k)}"
    using buddy_free_spec [OF assms] by blast
  have "B' = [0 \<mapsto> (mx, True)] \<and> coalesced_check st'" if "live B' = {}"
    using all_free_root [OF _ _ that] coalesced_spec [OF f(2) that] f(2) by (auto simp: buddy_ok_def)
  then show ?thesis using f by blast
qed

theorem buddy_free_correct_witness:
  "\<exists>st B a k. buddy_alloc 100 small_pool = Some (Some (a + HEADER), st) \<and>
    (\<exists>st' B'. buddy_free (Some (a + HEADER)) st = Some st' \<and> buddy_ok 5 10 st' B' \<and>
      live B' = live B - {(a, k)} \<and> (live B' = {} \<longrightarrow> B' = one_free \<and> coalesced_check st'))"
proof -
  have sz: "unat (100 :: u64) \<le> 2 ^ 62" by simp
  have l: "live one_free = {}" by (auto simp: live_def split: if_splits)
  obtain res st B where a: "buddy_alloc 100 small_pool = Some (res, st)" "buddy_ok 5 10 st B"
      "case res of
         None \<Rightarrow> st = small_pool \<and> B = one_free \<and>
           (\<forall>a k. one_free a = Some (k, True) \<longrightarrow> 2 ^ k < unat (100 :: u64) + HEADER)
       | Some p \<Rightarrow> HEADER \<le> p \<and> (\<exists>k. unat (100 :: u64) + HEADER \<le> 2 ^ k \<and>
           (p - HEADER, k) \<notin> live one_free \<and>
           live B = insert (p - HEADER, k) (live one_free))"
    using buddy_alloc_spec [OF small_pool_ok sz] by blast
  have "res \<noteq> None"
  proof
    assume "res = None"
    then have "\<forall>a k. one_free a = Some (k, True) \<longrightarrow> 2 ^ k < unat (100 :: u64) + HEADER"
      using a(3) by simp
    then have "one_free 0 = Some (10, True) \<longrightarrow> 2 ^ 10 < unat (100 :: u64) + HEADER" by blast
    then show False by (simp add: HEADER_def)
  qed
  then obtain p k where p: "res = Some p" "HEADER \<le> p" "live B = {(p - HEADER, k)}" using a(3) l by auto
  have "(p - HEADER, k) \<in> live B" using p(3) by simp
  then have B: "B (p - HEADER) = Some (k, False)" by (simp add: live_def)
  show ?thesis
    using a(1) p(1,2) buddy_free_correct [OF a(2) B]
    by (intro exI [of _ st] exI [of _ B] exI [of _ "p - HEADER"] exI [of _ k]) simp
qed

text \<open>The stress test of the program passes for every sequence of random numbers: nothing is
  undefined, no two allocations overlap, every write stays in the pool, and after freeing
  everything its assertions on full coalescing hold.\<close>

theorem stress_test_passes: "stress_test pool rs"
  by (rule stress_test_spec)

text \<open>A request within 24 bytes of \<^verbatim>\<open>SIZE_MAX\<close> wraps to a tiny one and is granted.\<close>

lemma huge_request_wraps: "unat ((2 ^ 64 - 1 :: u64) + word_of_nat HEADER) = 23"
  by (simp add: HEADER_def)

end
