(* ===== verification/Deadlock.thy ===== *)
theory Deadlock
  imports Prelude
begin

text \<open>
  Deadlock detection with a resource graph, \<^verbatim>\<open>Phase-2/Day40/C/DeadlockDetection.c\<close>: the graph, the
  depth-first search for a cycle, and the mutex that refuses a request closing one.

  The first part is sequential. In the second part threads run \<^verbatim>\<open>my_mutex_lock\<close> and
  \<^verbatim>\<open>my_mutex_unlock\<close> interleaved: what a thread does between \<^verbatim>\<open>pthread_mutex_lock(&g_graph.lock)\<close> and the
  matching unlock is one step, and so is taking or releasing the native mutex. A thread is its 64-bit handle
  \<^verbatim>\<open>pthread_self()\<close>; its node is found by \<open>thread_id\<close>, the handle cut to an \<^verbatim>\<open>int\<close>, so that two threads can
  share a node. A mutex stands for its \<^verbatim>\<open>id\<close>, which \<^verbatim>\<open>main\<close> gives to one mutex only.
\<close>

subsection \<open>The graph\<close>

definition MAX_NODES :: nat where "MAX_NODES = 64"

datatype NodeType = NODE_THREAD | NODE_MUTEX

record Node =
  node_id :: int
  node_type :: NodeType
  node_active :: bool

text \<open>\<open>nodes\<close> are the first \<^verbatim>\<open>node_count\<close> entries of the array.\<close>

record Graph =
  nodes :: "Node list"
  adj :: "nat \<Rightarrow> nat \<Rightarrow> bool"

abbreviation node_count :: "Graph \<Rightarrow> nat" where
  "node_count g \<equiv> length (nodes g)"

definition set_edge :: "nat \<Rightarrow> nat \<Rightarrow> bool \<Rightarrow> Graph \<Rightarrow> Graph" where
  "set_edge a b v g = g\<lparr>adj := (adj g)(a := (adj g a)(b := v))\<rparr>"

primrec find_node :: "int \<Rightarrow> NodeType \<Rightarrow> nat \<Rightarrow> Node list \<Rightarrow> nat option" where
  "find_node nid ty i [] = None"
| "find_node nid ty i (n # ns) =
     (if node_id n = nid \<and> node_type n = ty then Some i else find_node nid ty (i + 1) ns)"

text \<open>\<open>None\<close>: the graph is full and the program exits.\<close>

definition get_or_create_node :: "int \<Rightarrow> NodeType \<Rightarrow> Graph \<Rightarrow> (nat \<times> Graph) option" where
  "get_or_create_node nid ty g =
     (case find_node nid ty 0 (nodes g) of
        Some i \<Rightarrow> Some (i, g)
      | None \<Rightarrow>
          if MAX_NODES \<le> node_count g then None
          else Some (node_count g,
                 g\<lparr>nodes := nodes g @ [\<lparr>node_id = nid, node_type = ty, node_active = True\<rparr>]\<rparr>))"

text \<open>
  The loop of \<^verbatim>\<open>dfs\<close> from the successor \<open>next\<close> on; the recursive call \<^verbatim>\<open>dfs(next, ...)\<close> marks \<open>next\<close> and
  runs the loop on it. The arrays \<^verbatim>\<open>visited\<close> and \<^verbatim>\<open>stack\<close> are shared by all calls.
\<close>

partial_function (option) dfs_loop ::
  "Graph \<Rightarrow> nat \<Rightarrow> nat \<Rightarrow> bool list \<Rightarrow> bool list \<Rightarrow> (bool \<times> bool list \<times> bool list) option" where
  "dfs_loop g cur next visited stack =
     (if \<not> next < node_count g then Some (False, visited, stack[cur := False])
      else if adj g cur next then
        (if \<not> visited ! next then
           do {
             (found, visited, stack) \<leftarrow> dfs_loop g next 0 (visited[next := True]) (stack[next := True]);
             (if found then Some (True, visited, stack)
              else dfs_loop g cur (next + 1) visited stack)
           }
         else if stack ! next then Some (True, visited, stack)
         else dfs_loop g cur (next + 1) visited stack)
      else dfs_loop g cur (next + 1) visited stack)"

definition dfs :: "Graph \<Rightarrow> nat \<Rightarrow> bool list \<Rightarrow> bool list \<Rightarrow> (bool \<times> bool list \<times> bool list) option" where
  "dfs g cur visited stack = dfs_loop g cur 0 (visited[cur := True]) (stack[cur := True])"

primrec detect_loop :: "Graph \<Rightarrow> nat list \<Rightarrow> bool list \<Rightarrow> bool list \<Rightarrow> bool option" where
  "detect_loop g [] visited stack = Some False"
| "detect_loop g (i # is) visited stack =
     (if \<not> visited ! i then
        (case dfs g i visited stack of
           None \<Rightarrow> None
         | Some (found, visited, stack) \<Rightarrow>
             if found then Some True else detect_loop g is visited stack)
      else detect_loop g is visited stack)"

definition detect_cycle :: "Graph \<Rightarrow> bool option" where
  "detect_cycle g =
     detect_loop g [0..<node_count g] (replicate MAX_NODES False) (replicate MAX_NODES False)"

definition graph_init :: Graph where
  "graph_init = \<lparr>nodes = [], adj = (\<lambda>_ _. False)\<rparr>"

subsection \<open>The search finds exactly the cycles\<close>

text \<open>The abstract side: the edges among the nodes, as a relation.\<close>

definition edges :: "Graph \<Rightarrow> (nat \<times> nat) set" where
  "edges g = {(a, b). a < node_count g \<and> b < node_count g \<and> adj g a b}"

text \<open>
  A node is unvisited, on the stack, or finished. Finished nodes only lead to finished nodes and lie
  on no cycle; every node on the stack leads to the current one.
\<close>

definition finished :: "Graph \<Rightarrow> bool list \<Rightarrow> bool list \<Rightarrow> nat set" where
  "finished g v s = {i. i < node_count g \<and> v ! i \<and> \<not> s ! i}"

definition search_ok :: "Graph \<Rightarrow> bool list \<Rightarrow> bool list \<Rightarrow> bool" where
  "search_ok g v s \<longleftrightarrow> length v = MAX_NODES \<and> length s = MAX_NODES \<and>
     (\<forall>i < node_count g. s ! i \<longrightarrow> v ! i) \<and>
     (\<forall>a\<in>finished g v s. \<forall>b. (a, b) \<in> edges g \<longrightarrow> b \<in> finished g v s) \<and>
     (\<forall>a\<in>finished g v s. (a, a) \<notin> (edges g)\<^sup>+)"

definition on_path :: "Graph \<Rightarrow> nat \<Rightarrow> bool list \<Rightarrow> bool" where
  "on_path g cur s \<longleftrightarrow> cur < node_count g \<and> s ! cur \<and>
     (\<forall>i < node_count g. s ! i \<longrightarrow> (i, cur) \<in> (edges g)\<^sup>*)"

definition unvisited :: "Graph \<Rightarrow> bool list \<Rightarrow> nat" where
  "unvisited g v = card {i. i < node_count g \<and> \<not> v ! i}"

lemma unvisited_mono:
  assumes "\<And>i. i < node_count g \<Longrightarrow> v ! i \<Longrightarrow> v' ! i"
  shows "unvisited g v' \<le> unvisited g v"
  unfolding unvisited_def by (rule card_mono) (use assms in auto)

lemma unvisited_less:
  assumes "\<And>i. i < node_count g \<Longrightarrow> v ! i \<Longrightarrow> v' ! i" "j < node_count g" "\<not> v ! j" "v' ! j"
  shows "unvisited g v' < unvisited g v"
  unfolding unvisited_def by (rule psubset_card_mono) (use assms in auto)

lemma finished_closed:
  assumes "search_ok g v s" "a \<in> finished g v s" "(a, b) \<in> (edges g)\<^sup>*"
  shows "b \<in> finished g v s"
  using assms(3,2) by (induction rule: rtrancl_induct) (use assms(1) in \<open>auto simp: search_ok_def\<close>)

text \<open>When all successors of the current node are finished, it is finished too.\<close>

lemma finish_node:
  assumes ok: "search_ok g v s" and c: "cur < node_count g" "s ! cur" "node_count g \<le> MAX_NODES"
    and succ: "\<And>j. (cur, j) \<in> edges g \<Longrightarrow> j \<in> finished g v s"
  shows "search_ok g v (s[cur := False])"
    and "finished g v (s[cur := False]) = insert cur (finished g v s)"
proof -
  have l: "length v = MAX_NODES" "length s = MAX_NODES" "v ! cur" using ok c by (auto simp: search_ok_def)
  show f: "finished g v (s[cur := False]) = insert cur (finished g v s)"
    using c l by (auto simp: finished_def nth_list_update)
  have nf: "cur \<notin> finished g v s" using c by (simp add: finished_def)
  have "(cur, cur) \<notin> (edges g)\<^sup>+"
  proof
    assume "(cur, cur) \<in> (edges g)\<^sup>+"
    then obtain j where "(cur, j) \<in> edges g" "(j, cur) \<in> (edges g)\<^sup>*" by (blast dest: tranclD)
    then show False using finished_closed [OF ok succ] nf by blast
  qed
  then show "search_ok g v (s[cur := False])"
    using ok succ c l unfolding search_ok_def f by (auto simp: nth_list_update)
qed

declare dfs_loop.simps [simp del, code]

lemma dfs_loop_spec:
  assumes "search_ok g v s" "on_path g cur s" "node_count g \<le> MAX_NODES" "nxt \<le> node_count g"
    "\<And>j. j < nxt \<Longrightarrow> (cur, j) \<in> edges g \<Longrightarrow> j \<in> finished g v s"
  shows "\<exists>r v' s'. dfs_loop g cur nxt v s = Some (r, v', s') \<and>
    (if r then \<exists>i. (i, i) \<in> (edges g)\<^sup>+
     else search_ok g v' s' \<and> s' = s[cur := False] \<and> (\<forall>i < node_count g. v ! i \<longrightarrow> v' ! i))"
  using assms
proof (induction "(unvisited g v, node_count g - nxt)" arbitrary: cur nxt v s
    rule: wf_induct_rule [OF wf_lex_prod [OF wf_less_than wf_less_than]])
  case 1
  note ok = 1(2) and path = 1(3) and n = 1(4) and nxt = 1(5) and succ = 1(6)
  have IH: "\<exists>r v' s'. dfs_loop g c k v1 s1 = Some (r, v', s') \<and>
      (if r then \<exists>i. (i, i) \<in> (edges g)\<^sup>+
       else search_ok g v' s' \<and> s' = s1[c := False] \<and> (\<forall>i < node_count g. v1 ! i \<longrightarrow> v' ! i))"
    if "unvisited g v1 < unvisited g v \<or> unvisited g v1 \<le> unvisited g v \<and> node_count g - k < node_count g - nxt"
      "search_ok g v1 s1" "on_path g c s1" "k \<le> node_count g"
      "\<And>j. j < k \<Longrightarrow> (c, j) \<in> edges g \<Longrightarrow> j \<in> finished g v1 s1" for c k v1 s1
  proof -
    have "((unvisited g v1, node_count g - k), (unvisited g v, node_count g - nxt)) \<in> less_than <*lex*> less_than"
      using that(1) by (simp add: le_less) blast
    from 1(1) [OF this that(2,3) n that(4,5)] show ?thesis by blast
  qed
  have l: "length v = MAX_NODES" "length s = MAX_NODES" and cur: "cur < node_count g" "s ! cur" "v ! cur"
    using ok path by (auto simp: search_ok_def on_path_def)
  show ?case
  proof (cases "nxt < node_count g")
    case False
    then have "\<And>j. (cur, j) \<in> edges g \<Longrightarrow> j \<in> finished g v s" using succ by (auto simp: edges_def)
    from finish_node(1) [OF ok cur(1,2) n this] show ?thesis
      using False by (subst dfs_loop.simps) auto
  next
    case lt: True
    then have len: "nxt < length v" "nxt < length s" "nxt + 1 \<le> node_count g" using l n by auto
    have step: "\<exists>r v' s'. dfs_loop g cur (nxt + 1) v1 s1 = Some (r, v', s') \<and>
        (if r then \<exists>i. (i, i) \<in> (edges g)\<^sup>+
         else search_ok g v' s' \<and> s' = s1[cur := False] \<and> (\<forall>i < node_count g. v1 ! i \<longrightarrow> v' ! i))"
      if "unvisited g v1 \<le> unvisited g v" "search_ok g v1 s1" "on_path g cur s1"
        "\<And>j. j < nxt + 1 \<Longrightarrow> (cur, j) \<in> edges g \<Longrightarrow> j \<in> finished g v1 s1" for v1 s1
      using that lt len(3) by (intro IH) auto
    show ?thesis
    proof (cases "adj g cur nxt")
      case False
      then have "\<And>j. j < nxt + 1 \<Longrightarrow> (cur, j) \<in> edges g \<Longrightarrow> j \<in> finished g v s"
        using succ by (auto simp: edges_def less_Suc_eq)
      from step [OF order_refl ok path this] show ?thesis
        using lt False by (subst dfs_loop.simps) simp
    next
      case adj: True
      then have e: "(cur, nxt) \<in> edges g" using lt cur by (simp add: edges_def)
      show ?thesis
      proof (cases "v ! nxt")
        case vis: True
        show ?thesis
        proof (cases "s ! nxt")
          case True
          then have "(nxt, cur) \<in> (edges g)\<^sup>*" using path lt by (auto simp: on_path_def)
          with e have "(cur, cur) \<in> (edges g)\<^sup>+" by (rule rtrancl_into_trancl2)
          then show ?thesis using lt adj vis True by (subst dfs_loop.simps) auto
        next
          case False
          then have "nxt \<in> finished g v s" using lt vis by (simp add: finished_def)
          then have "\<And>j. j < nxt + 1 \<Longrightarrow> (cur, j) \<in> edges g \<Longrightarrow> j \<in> finished g v s"
            using succ by (auto simp: less_Suc_eq)
          from step [OF order_refl ok path this] show ?thesis
            using lt adj vis False by (subst dfs_loop.simps) simp
        qed
      next
        case unv: False
        let ?v = "v[nxt := True]" and ?s = "s[nxt := True]"
        have ns: "\<not> s ! nxt" using ok unv lt by (auto simp: search_ok_def)
        have fin: "finished g ?v ?s = finished g v s"
          using unv len by (auto simp: finished_def nth_list_update)
        have ok1: "search_ok g ?v ?s"
          using ok len unfolding search_ok_def fin by (auto simp: nth_list_update)
        have path1: "on_path g nxt ?s"
          using path e lt len by (auto simp: on_path_def nth_list_update)
        have less1: "unvisited g ?v < unvisited g v"
          by (rule unvisited_less [of g v ?v nxt]) (use lt unv len in \<open>auto simp: nth_list_update\<close>)
        obtain r v' s' where r: "dfs_loop g nxt 0 ?v ?s = Some (r, v', s')"
            "if r then \<exists>i. (i, i) \<in> (edges g)\<^sup>+
             else search_ok g v' s' \<and> s' = ?s[nxt := False] \<and> (\<forall>i < node_count g. ?v ! i \<longrightarrow> v' ! i)"
          using IH [of ?v 0 ?s nxt] less1 ok1 path1 by auto
        show ?thesis
        proof (cases r)
          case True
          then show ?thesis using r lt adj unv by (subst dfs_loop.simps) auto
        next
          case False
          then have r2: "search_ok g v' s'" "s' = s" "\<And>i. i < node_count g \<Longrightarrow> ?v ! i \<Longrightarrow> v' ! i"
            using r(2) ns len(2) by (auto simp: list_update_same_conv)
          have mono: "v' ! i" if "i < node_count g" "v ! i" for i
            using r2(3) [OF that(1)] that len by (simp add: nth_list_update split: if_splits)
          have fin': "j \<in> finished g v' s'" if "j \<in> finished g v s" for j
            using that mono r2(2) by (auto simp: finished_def)
          have "v' ! nxt" using r2(3) [OF lt] len by simp
          then have "nxt \<in> finished g v' s'" using lt ns r2(2) by (simp add: finished_def)
          then have "\<And>j. j < nxt + 1 \<Longrightarrow> (cur, j) \<in> edges g \<Longrightarrow> j \<in> finished g v' s'"
            using succ fin' by (auto simp: less_Suc_eq)
          moreover have "unvisited g v' \<le> unvisited g v" by (rule unvisited_mono) (rule mono)
          ultimately obtain r3 v3 s3 where r3: "dfs_loop g cur (nxt + 1) v' s' = Some (r3, v3, s3)"
              "if r3 then \<exists>i. (i, i) \<in> (edges g)\<^sup>+
               else search_ok g v3 s3 \<and> s3 = s'[cur := False] \<and> (\<forall>i < node_count g. v' ! i \<longrightarrow> v3 ! i)"
            using step [OF _ r2(1)] path r2(2) by auto
          have "dfs_loop g cur nxt v s = Some (r3, v3, s3)"
            using r(1) r3(1) False lt adj unv by (subst dfs_loop.simps) simp
          then show ?thesis using r3(2) mono r2(2) by auto
        qed
      qed
    qed
  qed
qed

lemma detect_loop_spec:
  assumes "search_ok g v s" "\<forall>i < node_count g. \<not> s ! i" "node_count g \<le> MAX_NODES"
    "set is \<subseteq> {..<node_count g}" "\<And>i. i < node_count g \<Longrightarrow> i \<notin> set is \<Longrightarrow> v ! i"
  shows "detect_loop g is v s = Some (\<exists>i. (i, i) \<in> (edges g)\<^sup>+)"
  using assms
proof (induction "is" arbitrary: v s)
  case Nil
  have "(i, i) \<notin> (edges g)\<^sup>+" for i
  proof
    assume c: "(i, i) \<in> (edges g)\<^sup>+"
    then obtain j where "(i, j) \<in> edges g" by (blast dest: tranclD)
    then have "i < node_count g" by (simp add: edges_def)
    then have "i \<in> finished g v s" using Nil.prems(2,5) by (simp add: finished_def)
    then show False using c Nil.prems(1) by (simp add: search_ok_def)
  qed
  then show ?case by simp
next
  case (Cons i "is")
  show ?case
  proof (cases "v ! i")
    case True
    then show ?thesis using Cons by (auto intro!: Cons.IH)
  next
    case False
    let ?v = "v[i := True]" and ?s = "s[i := True]"
    have i: "i < node_count g" "i < length v" "i < length s" using Cons.prems by (auto simp: search_ok_def)
    have fin: "finished g ?v ?s = finished g v s"
      using False i Cons.prems(2) by (auto simp: finished_def nth_list_update)
    have ok: "search_ok g ?v ?s"
      using Cons.prems(1) i unfolding search_ok_def fin by (auto simp: nth_list_update)
    have path: "on_path g i ?s" using i Cons.prems(2) by (auto simp: on_path_def nth_list_update)
    obtain r v' s' where r: "dfs g i v s = Some (r, v', s')"
        "if r then \<exists>i. (i, i) \<in> (edges g)\<^sup>+
         else search_ok g v' s' \<and> s' = ?s[i := False] \<and> (\<forall>j < node_count g. ?v ! j \<longrightarrow> v' ! j)"
      using dfs_loop_spec [OF ok path Cons.prems(3), of 0] by (auto simp: dfs_def)
    show ?thesis
    proof (cases r)
      case True
      then show ?thesis using r False by auto
    next
      case nr: False
      then have r2: "search_ok g v' s'" "s' = ?s[i := False]" "\<And>j. j < node_count g \<Longrightarrow> ?v ! j \<Longrightarrow> v' ! j"
        using r(2) by auto
      have "detect_loop g is v' s' = Some (\<exists>i. (i, i) \<in> (edges g)\<^sup>+)"
      proof (rule Cons.IH [OF r2(1) _ Cons.prems(3)])
        show "\<forall>j < node_count g. \<not> s' ! j" using r2(2) Cons.prems(2) i by (auto simp: nth_list_update)
        show "set is \<subseteq> {..<node_count g}" using Cons.prems(4) by simp
        show "v' ! j" if "j < node_count g" "j \<notin> set is" for j
          using r2(3) [OF that(1)] Cons.prems(5) [of j] that i by (auto simp: nth_list_update)
      qed
      then show ?thesis using r(1) nr False by simp
    qed
  qed
qed

lemma detect_cycle_spec:
  assumes "node_count g \<le> MAX_NODES"
  shows "detect_cycle g = Some (\<exists>i. (i, i) \<in> (edges g)\<^sup>+)"
  unfolding detect_cycle_def
proof (rule detect_loop_spec)
  have "finished g (replicate MAX_NODES False) (replicate MAX_NODES False) = {}"
    using assms by (auto simp: finished_def)
  then show "search_ok g (replicate MAX_NODES False) (replicate MAX_NODES False)"
    using assms by (auto simp: search_ok_def)
qed (use assms in auto)

subsection \<open>The mutexes, interleaved\<close>

text \<open>
  What a thread is doing: nothing with a mutex, waiting for the native mutex after its request was
  accepted, holding it but not recorded yet, or releasing it (native mutex released, edge not removed
  yet). The indices are the local variables \<^verbatim>\<open>t_idx\<close> and \<^verbatim>\<open>m_idx\<close>.
\<close>

datatype lock_pc = Running | Waiting nat nat int | Granted nat nat int | Releasing int

record lock_state =
  graph :: Graph
  native :: "int \<Rightarrow> u64 option"   \<comment> \<open>the owner of each mutex\<close>
  pc :: "u64 \<Rightarrow> lock_pc"

definition lock_init :: lock_state where
  "lock_init = \<lparr>graph = graph_init, native = (\<lambda>_. None), pc = (\<lambda>_. Running)\<rparr>"

text \<open>\<^verbatim>\<open>(int)pthread_self()\<close>\<close>

definition thread_id :: "u64 \<Rightarrow> int" where
  "thread_id tid = sint (ucast tid :: u32)"

text \<open>
  The first critical section of \<^verbatim>\<open>my_mutex_lock\<close>: \<open>Some (False, s)\<close> when the request is refused (the
  function returns -1), \<open>None\<close> when the graph is full and the program exits.
\<close>

definition lock_request :: "u64 \<Rightarrow> int \<Rightarrow> lock_state \<Rightarrow> (bool \<times> lock_state) option" where
  "lock_request tid m s = do {
     (t_idx, g) \<leftarrow> get_or_create_node (thread_id tid) NODE_THREAD (graph s);
     (m_idx, g) \<leftarrow> get_or_create_node m NODE_MUTEX g;
     let g = set_edge t_idx m_idx True g;
     found \<leftarrow> detect_cycle g;
     Some (if found then (False, s\<lparr>graph := set_edge t_idx m_idx False g\<rparr>)
           else (True, s\<lparr>graph := g, pc := (pc s)(tid := Waiting t_idx m_idx m)\<rparr>))
   }"

definition lock_acquire :: "u64 \<Rightarrow> nat \<Rightarrow> nat \<Rightarrow> int \<Rightarrow> lock_state \<Rightarrow> lock_state" where
  "lock_acquire tid t_idx m_idx m s =
     s\<lparr>native := (native s)(m := Some tid), pc := (pc s)(tid := Granted t_idx m_idx m)\<rparr>"

definition lock_record :: "u64 \<Rightarrow> nat \<Rightarrow> nat \<Rightarrow> lock_state \<Rightarrow> lock_state" where
  "lock_record tid t_idx m_idx s =
     s\<lparr>graph := set_edge m_idx t_idx True (set_edge t_idx m_idx False (graph s)), pc := (pc s)(tid := Running)\<rparr>"

definition unlock_native :: "u64 \<Rightarrow> int \<Rightarrow> lock_state \<Rightarrow> lock_state" where
  "unlock_native tid m s = s\<lparr>native := (native s)(m := None), pc := (pc s)(tid := Releasing m)\<rparr>"

definition unlock_record :: "u64 \<Rightarrow> int \<Rightarrow> lock_state \<Rightarrow> lock_state option" where
  "unlock_record tid m s = do {
     (t_idx, g) \<leftarrow> get_or_create_node (thread_id tid) NODE_THREAD (graph s);
     (m_idx, g) \<leftarrow> get_or_create_node m NODE_MUTEX g;
     Some (s\<lparr>graph := set_edge m_idx t_idx False g, pc := (pc s)(tid := Running)\<rparr>)
   }"

text \<open>
  \<open>T\<close> are the handles of the threads; a thread only unlocks a mutex it owns (anything else is
  undefined for a default mutex).
\<close>

inductive lock_step :: "u64 set \<Rightarrow> lock_state \<Rightarrow> lock_state \<Rightarrow> bool" for T where
  refused: "tid \<in> T \<Longrightarrow> pc s tid = Running \<Longrightarrow> lock_request tid m s = Some (False, s') \<Longrightarrow> lock_step T s s'"
| accepted: "tid \<in> T \<Longrightarrow> pc s tid = Running \<Longrightarrow> lock_request tid m s = Some (True, s') \<Longrightarrow> lock_step T s s'"
| acquired: "tid \<in> T \<Longrightarrow> pc s tid = Waiting t_idx m_idx m \<Longrightarrow> native s m = None \<Longrightarrow>
     lock_step T s (lock_acquire tid t_idx m_idx m s)"
| recorded: "tid \<in> T \<Longrightarrow> pc s tid = Granted t_idx m_idx m \<Longrightarrow> lock_step T s (lock_record tid t_idx m_idx s)"
| released: "tid \<in> T \<Longrightarrow> pc s tid = Running \<Longrightarrow> native s m = Some tid \<Longrightarrow> lock_step T s (unlock_native tid m s)"
| erased: "tid \<in> T \<Longrightarrow> pc s tid = Releasing m \<Longrightarrow> unlock_record tid m s = Some s' \<Longrightarrow> lock_step T s s'"

inductive lock_reachable :: "u64 set \<Rightarrow> lock_state \<Rightarrow> bool" for T where
  init: "lock_reachable T lock_init"
| step: "lock_reachable T s \<Longrightarrow> lock_step T s s' \<Longrightarrow> lock_reachable T s'"

text \<open>A thread waits for another when it waits for a mutex the other owns.\<close>

definition waits_for :: "lock_state \<Rightarrow> (u64 \<times> u64) set" where
  "waits_for s = {(t, u). \<exists>ti mi m. pc s t = Waiting ti mi m \<and> native s m = Some u}"

subsection \<open>No circular wait\<close>

definition node_is :: "Graph \<Rightarrow> nat \<Rightarrow> int \<Rightarrow> NodeType \<Rightarrow> bool" where
  "node_is g i x ty \<longleftrightarrow> i < node_count g \<and> node_id (nodes g ! i) = x \<and> node_type (nodes g ! i) = ty"

definition graph_ok :: "Graph \<Rightarrow> bool" where
  "graph_ok g \<longleftrightarrow> node_count g \<le> MAX_NODES \<and>
     (\<forall>i j x ty. node_is g i x ty \<longrightarrow> node_is g j x ty \<longrightarrow> i = j) \<and>
     (\<forall>a b. adj g a b \<longrightarrow> a < node_count g \<and> b < node_count g)"

lemma graph_okD:
  assumes "graph_ok g"
  shows "node_count g \<le> MAX_NODES" "node_is g i x ty \<Longrightarrow> node_is g j x ty \<Longrightarrow> i = j"
    "adj g a b \<Longrightarrow> a < node_count g" "adj g a b \<Longrightarrow> b < node_count g"
    "edges g = {(a, b). adj g a b}"
  using assms unfolding graph_ok_def edges_def by blast+

lemma node_is_type: "node_is g i x NODE_THREAD \<Longrightarrow> node_is g i y NODE_MUTEX \<Longrightarrow> False"
  by (simp add: node_is_def)

lemma find_node_spec:
  "case find_node x ty k ns of
     None \<Rightarrow> \<forall>n\<in>set ns. \<not> (node_id n = x \<and> node_type n = ty)
   | Some i \<Rightarrow> k \<le> i \<and> i - k < length ns \<and> node_id (ns ! (i - k)) = x \<and> node_type (ns ! (i - k)) = ty"
proof (induction ns arbitrary: k)
  case (Cons n ns)
  show ?case using Cons [of "k + 1"] by (auto split: option.splits simp: nth_Cons' Suc_le_eq)
qed simp

text \<open>Looking up a node, or adding it, keeps the graph.\<close>

lemma get_or_create_spec:
  assumes ok: "graph_ok g" and r: "get_or_create_node x ty g = Some (i, g')"
  shows "graph_ok g'" "node_is g' i x ty" "adj g' = adj g"
    "\<And>j y t. node_is g j y t \<Longrightarrow> node_is g' j y t"
    "\<And>j y t b. adj g j b \<Longrightarrow> node_is g' j y t \<Longrightarrow> node_is g j y t"
proof -
  let ?n = "\<lparr>node_id = x, node_type = ty, node_active = True\<rparr>"
  have "g' = g \<and> node_is g i x ty \<or>
      (\<forall>j. \<not> node_is g j x ty) \<and> i = node_count g \<and> node_count g < MAX_NODES \<and> g' = g\<lparr>nodes := nodes g @ [?n]\<rparr>"
    using r find_node_spec [where x = x and ty = ty and k = 0 and ns = "nodes g"]
    by (auto simp: get_or_create_node_def node_is_def all_set_conv_all_nth split: option.splits if_splits)
  then show "graph_ok g'" "node_is g' i x ty" "adj g' = adj g"
    "\<And>j y t. node_is g j y t \<Longrightarrow> node_is g' j y t"
    "\<And>j y t b. adj g j b \<Longrightarrow> node_is g' j y t \<Longrightarrow> node_is g j y t"
    using ok unfolding graph_ok_def
    by (auto simp: node_is_def nth_append less_Suc_eq dest: less_imp_le split: if_splits)
qed

text \<open>
  The invariant. A thread's node has an edge only to the mutex it has asked for; a mutex that is
  owned has an edge to its owner, unless the owner has not recorded it yet; there is no cycle.
\<close>

definition lock_inv :: "u64 set \<Rightarrow> lock_state \<Rightarrow> bool" where
  "lock_inv T s \<longleftrightarrow> graph_ok (graph s) \<and> acyclic (edges (graph s)) \<and>
     (\<forall>t ti mi m. pc s t = Waiting ti mi m \<or> pc s t = Granted ti mi m \<longrightarrow>
        node_is (graph s) ti (thread_id t) NODE_THREAD \<and> node_is (graph s) mi m NODE_MUTEX) \<and>
     (\<forall>t ti mi m. pc s t = Waiting ti mi m \<longrightarrow> adj (graph s) ti mi) \<and>
     (\<forall>t\<in>T. \<forall>ti j. adj (graph s) ti j \<longrightarrow> node_is (graph s) ti (thread_id t) NODE_THREAD \<longrightarrow>
        (\<exists>m. pc s t = Waiting ti j m \<or> pc s t = Granted ti j m)) \<and>
     (\<forall>m u. native s m = Some u \<longrightarrow> u \<in> T \<and> pc s u \<noteq> Releasing m \<and>
        ((\<exists>ui mi. pc s u = Granted ui mi m) \<or>
         (\<exists>ui mi. node_is (graph s) ui (thread_id u) NODE_THREAD \<and> node_is (graph s) mi m NODE_MUTEX \<and>
            adj (graph s) mi ui))) \<and>
     (\<forall>t. pc s t \<noteq> Running \<longrightarrow> t \<in> T)"

lemma lock_invD:
  assumes "lock_inv T s"
  shows "graph_ok (graph s)" "acyclic (edges (graph s))"
    "pc s t = Waiting ti mi m \<or> pc s t = Granted ti mi m \<Longrightarrow> node_is (graph s) ti (thread_id t) NODE_THREAD"
    "pc s t = Waiting ti mi m \<or> pc s t = Granted ti mi m \<Longrightarrow> node_is (graph s) mi m NODE_MUTEX"
    "pc s t = Waiting ti mi m \<Longrightarrow> adj (graph s) ti mi"
    "adj (graph s) ti j \<Longrightarrow> node_is (graph s) ti (thread_id t) NODE_THREAD \<Longrightarrow> t \<in> T \<Longrightarrow>
       \<exists>m. pc s t = Waiting ti j m \<or> pc s t = Granted ti j m"
    "native s m = Some u \<Longrightarrow> pc s u \<noteq> Releasing m"
    "native s m = Some u \<Longrightarrow> (\<exists>ui mi. pc s u = Granted ui mi m) \<or>
       (\<exists>ui mi. node_is (graph s) ui (thread_id u) NODE_THREAD \<and> node_is (graph s) mi m NODE_MUTEX \<and> adj (graph s) mi ui)"
    "native s m = Some u \<Longrightarrow> u \<in> T" "pc s t \<noteq> Running \<Longrightarrow> t \<in> T"
  using assms unfolding lock_inv_def by blast+

lemma adj_set_edge [simp]:
  "adj (set_edge a b v g) x y = (if x = a \<and> y = b then v else adj g x y)"
  "nodes (set_edge a b v g) = nodes g"
  by (auto simp: set_edge_def)

lemma node_is_set_edge [simp]: "node_is (set_edge a b v g) = node_is g"
  by (simp add: node_is_def fun_eq_iff)

lemma graph_ok_set_edge:
  "graph_ok g \<Longrightarrow> a < node_count g \<Longrightarrow> b < node_count g \<Longrightarrow> graph_ok (set_edge a b v g)"
  unfolding graph_ok_def by (auto split: if_splits)

lemma acyclic_iff: "acyclic r \<longleftrightarrow> \<not> (\<exists>i. (i, i) \<in> r\<^sup>+)"
  by (auto simp: acyclic_def)

text \<open>
  Both nodes of a request or an unlock, found or added: the graph with the same edges.
\<close>

lemma two_nodes:
  assumes ok: "graph_ok g" and r1: "get_or_create_node t NODE_THREAD g = Some (ti, g1)"
    and r2: "get_or_create_node m NODE_MUTEX g1 = Some (mi, g2)"
  shows "graph_ok g2" "node_is g2 ti t NODE_THREAD" "node_is g2 mi m NODE_MUTEX" "adj g2 = adj g"
    "node_is g j y ty \<Longrightarrow> node_is g2 j y ty" "adj g j b \<Longrightarrow> node_is g2 j y ty \<Longrightarrow> node_is g j y ty"
    "edges g2 = edges g"
proof -
  note s1 = get_or_create_spec [OF ok r1]
  note s2 = get_or_create_spec [OF s1(1) r2]
  show g2: "graph_ok g2" "node_is g2 mi m NODE_MUTEX" "adj g2 = adj g" using s1 s2 by auto
  show "node_is g2 ti t NODE_THREAD" using s1(2) s2(4) by blast
  show "node_is g j y ty \<Longrightarrow> node_is g2 j y ty" using s1(4) s2(4) by blast
  show "adj g j b \<Longrightarrow> node_is g2 j y ty \<Longrightarrow> node_is g j y ty"
    using s1(5) s2(5) s1(3) by metis
  show "edges g2 = edges g" using graph_okD(5) [OF ok] graph_okD(5) [OF g2(1)] g2(3) by simp
qed

lemma lock_invI:
  assumes "graph_ok (graph s)" "acyclic (edges (graph s))"
    "\<And>t ti mi m. pc s t = Waiting ti mi m \<or> pc s t = Granted ti mi m \<Longrightarrow>
       node_is (graph s) ti (thread_id t) NODE_THREAD \<and> node_is (graph s) mi m NODE_MUTEX"
    "\<And>t ti mi m. pc s t = Waiting ti mi m \<Longrightarrow> adj (graph s) ti mi"
    "\<And>t ti j. adj (graph s) ti j \<Longrightarrow> node_is (graph s) ti (thread_id t) NODE_THREAD \<Longrightarrow> t \<in> T \<Longrightarrow>
       \<exists>m. pc s t = Waiting ti j m \<or> pc s t = Granted ti j m"
    "\<And>m u. native s m = Some u \<Longrightarrow> u \<in> T \<and> pc s u \<noteq> Releasing m \<and> ((\<exists>ui mi. pc s u = Granted ui mi m) \<or>
       (\<exists>ui mi. node_is (graph s) ui (thread_id u) NODE_THREAD \<and> node_is (graph s) mi m NODE_MUTEX \<and> adj (graph s) mi ui))"
    "\<And>t. pc s t \<noteq> Running \<Longrightarrow> t \<in> T"
  shows "lock_inv T s"
  using assms unfolding lock_inv_def by blast

lemma request_inv:
  assumes inv: "lock_inv T s" and inj: "inj_on thread_id T" and mem: "tid \<in> T" and run: "pc s tid = Running" and r: "lock_request tid m s = Some (ok, s')"
  shows "lock_inv T s'"
proof -
  note I = lock_invD [OF inv]
  obtain ti g1 mi g2 where g: "get_or_create_node (thread_id tid) NODE_THREAD (graph s) = Some (ti, g1)"
      "get_or_create_node m NODE_MUTEX g1 = Some (mi, g2)"
    using r by (auto simp: lock_request_def bind_eq_Some_conv)
  let ?g = "set_edge ti mi True g2"
  note T = two_nodes [OF I(1) g]
  have lt: "ti < node_count g2" "mi < node_count g2" using T(2,3) by (auto simp: node_is_def)
  have gok: "graph_ok ?g" using graph_ok_set_edge [OF T(1) lt] .
  have out: "\<not> adj g2 ti j" for j
  proof
    assume a: "adj g2 ti j"
    then have "node_is (graph s) ti (thread_id tid) NODE_THREAD" using T(2,4,6) by metis
    then show False using I(6) [of ti j tid] a T(4) run mem by auto
  qed
  have det: "detect_cycle ?g = Some (\<not> acyclic (edges ?g))"
    using detect_cycle_spec [of ?g] graph_okD(1) [OF gok] by (simp add: acyclic_iff)
  have asked: "\<exists>m. pc s t = Waiting tj j m \<or> pc s t = Granted tj j m"
    if "adj g2 tj j" "node_is g2 tj (thread_id t) NODE_THREAD" "t \<in> T" for t tj j
    using I(6) [of tj j t] T(4,6) that by metis
  have owned: "u \<in> T \<and> pc s u \<noteq> Releasing m' \<and> ((\<exists>ui mi. pc s u = Granted ui mi m') \<or>
       (\<exists>ui mi. node_is g2 ui (thread_id u) NODE_THREAD \<and> node_is g2 mi m' NODE_MUTEX \<and> adj g2 mi ui))"
    if "native s m' = Some u" for m' u
    using I(7-9) [OF that] T(4,5) by metis
  show ?thesis
  proof (cases "acyclic (edges ?g)")
    case False
    let ?g' = "set_edge ti mi False ?g"
    have s': "s' = s\<lparr>graph := ?g'\<rparr>" using r g det False by (simp add: lock_request_def)
    have adj: "adj ?g' = adj g2" using out by (auto simp: fun_eq_iff)
    have ok': "graph_ok ?g'" using graph_ok_set_edge [OF gok] lt by simp
    have "edges ?g' = edges (graph s)"
      unfolding T(7) [symmetric] graph_okD(5) [OF ok'] graph_okD(5) [OF T(1)] adj ..
    then have ac: "acyclic (edges ?g')" using I(2) by simp
    show ?thesis unfolding s'
      by (rule lock_invI) (use ok' ac adj I(3,4,5,10) T(4,5) asked owned in auto)
  next
    case True
    have s': "s' = s\<lparr>graph := ?g, pc := (pc s)(tid := Waiting ti mi m)\<rparr>"
      using r g det True by (simp add: lock_request_def)
    have nr: "u \<noteq> tid" if "pc s u = Granted ui mi m'" for u ui mi m' using that run by auto
    show ?thesis unfolding s'
    proof (rule lock_invI, goal_cases)
      case (3 t tj mj m')
      then show ?case using I(3,4) T(2,3,5) by (auto split: if_splits)
    next
      case (4 t tj mj m')
      then show ?case using I(5) T(4) by (auto split: if_splits)
    next
      case (5 t tj j)
      show ?case
      proof (cases "t = tid")
        case True
        then have "tj = ti" using 5(2) T(1,2) graph_okD(2) by simp
        then show ?thesis using 5(1) True out by (auto split: if_splits)
      next
        case False
        then have "thread_id t \<noteq> thread_id tid" using inj mem 5(3) by (auto dest: inj_onD)
        then have "tj \<noteq> ti" using 5(2) T(2) by (auto simp: node_is_def)
        then show ?thesis using 5 False asked [of tj j t] by auto
      qed
    next
      case (6 m' u)
      then show ?case using owned [of m' u] run by auto
    qed (use gok True I(10) mem in \<open>auto split: if_splits\<close>)
  qed
qed

lemma acquire_inv:
  assumes inv: "lock_inv T s" and mem: "tid \<in> T" and w: "pc s tid = Waiting ti mi m" and n: "native s m = None"
  shows "lock_inv T (lock_acquire tid ti mi m s)"
proof -
  note I = lock_invD [OF inv]
  show ?thesis unfolding lock_acquire_def
  proof (rule lock_invI, goal_cases)
    case (3 t tj mj m')
    then show ?case using I(3,4) [of t tj mj m'] I(3,4) [of tid ti mi m] w by (auto split: if_splits)
  next
    case (5 t tj j)
    then show ?case using I(6) [of tj j t] w by (auto split: if_splits)
  next
    case (6 m' u)
    show ?case
    proof (cases "m' = m")
      case False
      then have o: "native s m' = Some u" using 6 by simp
      have "\<And>x y. pc s u = Granted x y m' \<Longrightarrow> u \<noteq> tid" using w by auto
      then show ?thesis using I(7-9) [OF o] by (auto split: if_splits)
    qed (use 6 mem in auto)
  qed (use I w mem in \<open>auto split: if_splits\<close>)
qed

lemma record_inv:
  assumes inv: "lock_inv T s" and inj: "inj_on thread_id T" and mem: "tid \<in> T" and w: "pc s tid = Granted ti mi m"
  shows "lock_inv T (lock_record tid ti mi s)"
proof -
  note I = lock_invD [OF inv]
  let ?g = "graph s"
  have t: "node_is ?g ti (thread_id tid) NODE_THREAD" "node_is ?g mi m NODE_MUTEX" using I(3,4) w by blast+
  then have lt: "ti < node_count ?g" "mi < node_count ?g" "ti \<noteq> mi" by (auto simp: node_is_def)
  let ?h = "set_edge ti mi False ?g"
  have hok: "graph_ok ?h" using graph_ok_set_edge [OF I(1) lt(1,2)] .
  have gok: "graph_ok (set_edge mi ti True ?h)" using graph_ok_set_edge [OF hok, of mi ti True] lt by simp
  have out: "\<not> adj ?h ti j" for j using I(6) [OF _ t(1) mem, of j] w by auto
  have e: "edges (set_edge mi ti True ?h) = insert (mi, ti) (edges ?h)"
    unfolding graph_okD(5) [OF gok] graph_okD(5) [OF hok] by (auto split: if_splits)
  have "edges ?h \<subseteq> edges ?g" unfolding graph_okD(5) [OF hok] graph_okD(5) [OF I(1)] by (auto split: if_splits)
  then have "acyclic (edges ?h)" using I(2) by (rule acyclic_subset [rotated])
  moreover have "(ti, mi) \<notin> (edges ?h)\<^sup>*"
  proof
    assume "(ti, mi) \<in> (edges ?h)\<^sup>*"
    then obtain j where "(ti, j) \<in> edges ?h" using lt(3) by (meson converse_rtranclE)
    then have "adj ?h ti j" unfolding graph_okD(5) [OF hok] by blast
    then show False using out by blast
  qed
  ultimately have ac: "acyclic (edges (set_edge mi ti True ?h))" unfolding e by (simp add: acyclic_insert)
  show ?thesis unfolding lock_record_def
  proof (rule lock_invI, goal_cases)
    case (3 t tj mj m')
    then show ?case using I(3,4) by (auto split: if_splits)
  next
    case (4 t tj mj m')
    then have "pc s t = Waiting tj mj m'" "t \<noteq> tid" by (auto split: if_splits)
    moreover from this have "thread_id t \<noteq> thread_id tid" using inj mem I(10) [of t] by (auto dest: inj_onD)
    then have "tj \<noteq> ti" using I(3) [of t tj mj m'] t(1) \<open>pc s t = _\<close> by (auto simp: node_is_def)
    ultimately show ?case using I(5) by auto
  next
    case (5 t tj j)
    then have nt: "node_is ?g tj (thread_id t) NODE_THREAD" "t \<in> T" by simp_all
    then have "tj \<noteq> mi" using t(2) node_is_type by blast
    then have a: "adj ?h tj j" using 5(1) by (auto split: if_splits)
    then have "tj \<noteq> ti" using out by blast
    then have "t \<noteq> tid" using nt(1) t(1) graph_okD(2) [OF I(1)] by blast
    then show ?case using I(6) [OF _ nt, of j] a by (auto split: if_splits)
  next
    case (6 m' u)
    then have o: "native s m' = Some u" by simp
    show ?case
    proof (cases "u = tid \<and> m' = m")
      case True
      then show ?thesis using t mem by auto
    next
      case False
      have ng: "u \<noteq> tid" if "pc s u = Granted x y m'" for x y using that False w by auto
      from I(8) [OF o] show ?thesis
      proof
        assume "\<exists>ui mj. pc s u = Granted ui mj m'"
        then obtain x y where gr: "pc s u = Granted x y m'" by blast
        have "((pc s)(tid := Running)) u = Granted x y m'" using gr ng [OF gr] by simp
        then show ?thesis using I(9) [OF o] by simp
      next
        assume "\<exists>ui mj. node_is ?g ui (thread_id u) NODE_THREAD \<and> node_is ?g mj m' NODE_MUTEX \<and> adj ?g mj ui"
        then obtain ui mj where x: "node_is ?g ui (thread_id u) NODE_THREAD" "node_is ?g mj m' NODE_MUTEX" "adj ?g mj ui"
          by blast
        have "mj \<noteq> ti" using x(2) t(1) node_is_type by blast
        then have "adj (set_edge mi ti True ?h) mj ui" using x(3) by auto
        then have "\<exists>ui mj. node_is ?g ui (thread_id u) NODE_THREAD \<and> node_is ?g mj m' NODE_MUTEX \<and>
            adj (set_edge mi ti True ?h) mj ui" using x(1,2) by blast
        then show ?thesis using I(7,9) [OF o] by (simp del: adj_set_edge add: node_is_set_edge)
      qed
    qed
  qed (use gok ac I(10) in \<open>auto split: if_splits\<close>)
qed

lemma unlock_native_inv:
  assumes inv: "lock_inv T s" and mem: "tid \<in> T" and run: "pc s tid = Running" and o: "native s m = Some tid"
  shows "lock_inv T (unlock_native tid m s)"
proof -
  note I = lock_invD [OF inv]
  show ?thesis unfolding unlock_native_def
  proof (rule lock_invI, goal_cases)
    case (5 t tj j)
    then show ?case using I(6) [of tj j t] run by (auto split: if_splits)
  next
    case (6 m' u)
    then have "native s m' = Some u" "m' \<noteq> m" by (auto split: if_splits)
    then show ?case using I(7-9) [of m' u] run by (auto split: if_splits)
  qed (use I run mem in \<open>auto split: if_splits\<close>)
qed

lemma unlock_record_inv:
  assumes inv: "lock_inv T s" and inj: "inj_on thread_id T" and mem: "tid \<in> T" and rel: "pc s tid = Releasing m" and r: "unlock_record tid m s = Some s'"
  shows "lock_inv T s'"
proof -
  note I = lock_invD [OF inv]
  obtain ti g1 mi g2 where g: "get_or_create_node (thread_id tid) NODE_THREAD (graph s) = Some (ti, g1)"
      "get_or_create_node m NODE_MUTEX g1 = Some (mi, g2)"
    using r by (auto simp: unlock_record_def bind_eq_Some_conv)
  let ?g = "set_edge mi ti False g2"
  have s': "s' = s\<lparr>graph := ?g, pc := (pc s)(tid := Running)\<rparr>" using r g by (simp add: unlock_record_def)
  note T = two_nodes [OF I(1) g]
  have lt: "ti < node_count g2" "mi < node_count g2" using T(2,3) by (auto simp: node_is_def)
  have gok: "graph_ok ?g" using graph_ok_set_edge [OF T(1) lt(2,1)] .
  have "edges ?g \<subseteq> edges (graph s)"
    unfolding T(7) [symmetric] graph_okD(5) [OF gok] graph_okD(5) [OF T(1)] by (auto split: if_splits)
  then have ac: "acyclic (edges ?g)" using I(2) by (rule acyclic_subset [rotated])
  show ?thesis unfolding s'
  proof (rule lock_invI, goal_cases)
    case (3 t tj mj m')
    then show ?case using I(3,4) T(5) by (auto split: if_splits)
  next
    case (4 t tj mj m')
    then have w: "pc s t = Waiting tj mj m'" "t \<noteq> tid" by (auto split: if_splits)
    have "node_is g2 tj (thread_id t) NODE_THREAD" using I(3) w(1) T(5) by blast
    then have "tj \<noteq> mi" using T(3) node_is_type by blast
    then show ?case using I(5) [OF w(1)] T(4) by auto
  next
    case (5 t tj j)
    then have a: "adj (graph s) tj j" "node_is g2 tj (thread_id t) NODE_THREAD" using T(4) by (auto split: if_splits)
    then have "node_is (graph s) tj (thread_id t) NODE_THREAD" using T(6) by blast
    from I(6) [OF a(1) this 5(3)] show ?case using rel by (auto split: if_splits)
  next
    case (6 m' u)
    then have o: "native s m' = Some u" by simp
    have ne: "\<not> (m' = m \<and> u = tid)" using I(7) [OF o] rel by auto
    have ng: "u \<noteq> tid" if "pc s u = Granted x y m'" for x y using that rel by auto
    have nr: "((pc s)(tid := Running)) u \<noteq> Releasing m'" using I(7) [OF o] by simp
    from I(8) [OF o] show ?case
    proof
      assume "\<exists>ui mj. pc s u = Granted ui mj m'"
      then show ?thesis using ng nr I(9) [OF o] by auto
    next
      assume "\<exists>ui mj. node_is (graph s) ui (thread_id u) NODE_THREAD \<and> node_is (graph s) mj m' NODE_MUTEX \<and> adj (graph s) mj ui"
      then obtain ui mj where x: "node_is g2 ui (thread_id u) NODE_THREAD" "node_is g2 mj m' NODE_MUTEX" "adj g2 mj ui"
        using T(4,5) by metis
      have "\<not> (mj = mi \<and> ui = ti)"
        using x T(2,3) ne inj mem I(9) [OF o] by (auto simp: node_is_def dest: inj_onD)
      then have "adj ?g mj ui" using x(3) by auto
      then have "\<exists>ui mj. node_is ?g ui (thread_id u) NODE_THREAD \<and> node_is ?g mj m' NODE_MUTEX \<and> adj ?g mj ui"
        using x(1,2) unfolding node_is_set_edge by blast
      then show ?thesis using nr I(9) [OF o] by (simp del: adj_set_edge)
    qed
  qed (use gok ac I(10) in \<open>auto split: if_splits\<close>)
qed

lemma reachable_inv:
  assumes "lock_reachable T s" and inj: "inj_on thread_id T"
  shows "lock_inv T s"
  using assms(1)
proof (induction rule: lock_reachable.induct)
  case init
  show ?case by (rule lock_invI) (auto simp: lock_init_def graph_init_def graph_ok_def edges_def acyclic_def node_is_def)
next
  case (step s s')
  from step.hyps(2) step.IH show ?case
    by (cases rule: lock_step.cases)
      (auto intro: request_inv [OF _ inj] acquire_inv record_inv [OF _ inj] unlock_native_inv unlock_record_inv [OF _ inj])
qed

lemma one_wait:
  assumes inv: "lock_inv T s" and w: "(t, u) \<in> waits_for s" and u: "pc s u = Waiting ui mi m"
  shows "\<exists>ti mj m'. pc s t = Waiting ti mj m' \<and> (ti, ui) \<in> (edges (graph s))\<^sup>+"
proof -
  note I = lock_invD [OF inv]
  obtain ti mj m' where t: "pc s t = Waiting ti mj m'" "native s m' = Some u" using w by (auto simp: waits_for_def)
  have "\<nexists>x y. pc s u = Granted x y m'" using u by simp
  then obtain ui' mj' where x: "node_is (graph s) ui' (thread_id u) NODE_THREAD" "node_is (graph s) mj' m' NODE_MUTEX"
      "adj (graph s) mj' ui'" using I(8) [OF t(2)] by blast
  have "mj' = mj" using x(2) I(4) [of t ti mj m'] t(1) graph_okD(2) [OF I(1)] by blast
  moreover have "ui' = ui" using x(1) I(3) [of u ui mi m] u graph_okD(2) [OF I(1)] by blast
  ultimately have "(ti, mj) \<in> edges (graph s)" "(mj, ui) \<in> edges (graph s)"
    using I(5) [OF t(1)] x(3) graph_okD(5) [OF I(1)] by auto
  then show ?thesis using t(1) by (meson r_into_trancl trancl_into_trancl)
qed

lemma waits_for_path:
  assumes inv: "lock_inv T s" and w: "(t, u) \<in> (waits_for s)\<^sup>+" and u: "pc s u = Waiting ui mi m"
  shows "\<exists>ti mj m'. pc s t = Waiting ti mj m' \<and> (ti, ui) \<in> (edges (graph s))\<^sup>+"
  using w u
proof (induction arbitrary: ui mi m rule: trancl_induct)
  case (base u)
  then show ?case using one_wait [OF inv] by blast
next
  case (step u v)
  obtain xi mj m' where x: "pc s u = Waiting xi mj m'" "(xi, ui) \<in> (edges (graph s))\<^sup>+"
    using one_wait [OF inv step(2,4)] by blast
  obtain ti mk mm where "pc s t = Waiting ti mk mm" "(ti, xi) \<in> (edges (graph s))\<^sup>+"
    using step(3) [OF x(1)] by blast
  then show ?case using x(2) by (meson trancl_trans)
qed

lemma no_wait_cycle:
  assumes r: "lock_reachable T s" and inj: "inj_on thread_id T"
  shows "(t, t) \<notin> (waits_for s)\<^sup>+"
proof
  assume c: "(t, t) \<in> (waits_for s)\<^sup>+"
  note inv = reachable_inv [OF r inj]
  obtain u where "(t, u) \<in> waits_for s" using c by (blast dest: tranclD)
  then obtain ti mi m where t: "pc s t = Waiting ti mi m" by (auto simp: waits_for_def)
  from waits_for_path [OF inv c t] t have "(ti, ti) \<in> (edges (graph s))\<^sup>+" by auto
  then show False using lock_invD(2) [OF inv] by (simp add: acyclic_def)
qed

subsection \<open>Running a schedule\<close>

datatype lock_action = Request u64 int | Acquire u64 | Record u64 | Release u64 int | Erase u64

text \<open>The next step of a thread; \<open>None\<close> when it has no such step.\<close>

definition lock_act :: "lock_action \<Rightarrow> lock_state \<Rightarrow> lock_state option" where
  "lock_act a s = (case a of
       Request t m \<Rightarrow> if pc s t = Running then map_option snd (lock_request t m s) else None
     | Acquire t \<Rightarrow> (case pc s t of Waiting ti mi m \<Rightarrow> if native s m = None then Some (lock_acquire t ti mi m s) else None | _ \<Rightarrow> None)
     | Record t \<Rightarrow> (case pc s t of Granted ti mi m \<Rightarrow> Some (lock_record t ti mi s) | _ \<Rightarrow> None)
     | Release t m \<Rightarrow> if pc s t = Running \<and> native s m = Some t then Some (unlock_native t m s) else None
     | Erase t \<Rightarrow> (case pc s t of Releasing m \<Rightarrow> unlock_record t m s | _ \<Rightarrow> None))"

primrec lock_run :: "lock_action list \<Rightarrow> lock_state \<Rightarrow> lock_state option" where
  "lock_run [] s = Some s"
| "lock_run (a # as) s = do { s \<leftarrow> lock_act a s; lock_run as s }"

primrec actor_of :: "lock_action \<Rightarrow> u64" where
  "actor_of (Request t m) = t"
| "actor_of (Acquire t) = t"
| "actor_of (Record t) = t"
| "actor_of (Release t m) = t"
| "actor_of (Erase t) = t"

lemma lock_act_step: "lock_act a s = Some s' \<Longrightarrow> actor_of a \<in> T \<Longrightarrow> lock_step T s s'"
proof (cases a)
  case (Request t m)
  assume r: "lock_act a s = Some s'" "actor_of a \<in> T"
  then obtain ok where "pc s t = Running" "lock_request t m s = Some (ok, s')" "t \<in> T"
    using Request by (auto simp: lock_act_def split: if_splits)
  then show ?thesis by (cases ok) (auto intro: lock_step.intros)
qed (auto simp: lock_act_def split: lock_pc.splits if_splits intro: lock_step.intros)

lemma lock_run_reachable:
  "lock_run as s = Some s' \<Longrightarrow> lock_reachable T s \<Longrightarrow> actor_of ` set as \<subseteq> T \<Longrightarrow> lock_reachable T s'"
proof (induction as arbitrary: s)
  case (Cons a as)
  then obtain s1 where s1: "lock_act a s = Some s1" "lock_run as s1 = Some s'" by (auto simp: bind_eq_Some_conv)
  then have "lock_step T s s1" using lock_act_step Cons.prems(3) by auto
  then show ?case using Cons s1 lock_reachable.step by auto
qed simp

subsection \<open>Properties\<close>

text \<open>C15: On a graph of at most 64 nodes detect_cycle always ends and returns true exactly when some node
  lies on a cycle of edges.\<close>

theorem detect_cycle_correct:
  assumes "node_count g \<le> MAX_NODES"
  shows "detect_cycle g = Some (\<exists>i. (i, i) \<in> (edges g)\<^sup>+)"
  using assms by (rule detect_cycle_spec)

definition two_locks :: Graph where
  "two_locks = set_edge 0 1 True (set_edge 1 0 True
     \<lparr>nodes = [\<lparr>node_id = 7, node_type = NODE_THREAD, node_active = True\<rparr>,
       \<lparr>node_id = 101, node_type = NODE_MUTEX, node_active = True\<rparr>], adj = (\<lambda>_ _. False)\<rparr>)"

theorem detect_cycle_correct_witness:
  "detect_cycle two_locks = Some (\<exists>i. (i, i) \<in> (edges two_locks)\<^sup>+) \<and> (0, 0) \<in> (edges two_locks)\<^sup>+"
proof
  show "detect_cycle two_locks = Some (\<exists>i. (i, i) \<in> (edges two_locks)\<^sup>+)"
    by (rule detect_cycle_correct) (simp add: two_locks_def MAX_NODES_def)
  have "(0, 1) \<in> edges two_locks" "(1, 0) \<in> edges two_locks"
    by (simp_all add: edges_def two_locks_def)
  then show "(0, 0) \<in> (edges two_locks)\<^sup>+" by (meson r_into_trancl trancl_into_trancl)
qed

text \<open>C4: However the threads interleave, no circular wait ever arises, as long as no two of the thread handles agree in their
  low 32 bits and each mutex has its own id: in every reachable state the relation of threads waiting for the owner of a mutex
  has no cycle.\<close>

theorem no_circular_wait:
  assumes "lock_reachable T s" "inj_on thread_id T"
  shows "(t, t) \<notin> (waits_for s)\<^sup>+"
  using assms by (rule no_wait_cycle)

text \<open>A state with a waiting thread: thread 1 owns mutex 101 and thread 2 asks for it.\<close>

definition contended :: lock_state where
  "contended = the (lock_run [Request 1 101, Acquire 1, Record 1, Request 2 101] lock_init)"

lemma contended_run:
  "lock_run [Request 1 101, Acquire 1, Record 1, Request 2 101] lock_init = Some contended"
  "(2, 1) \<in> waits_for contended"
proof -
  have "lock_run [Request 1 101, Acquire 1, Record 1, Request 2 101] lock_init \<noteq> None" by code_simp
  then show "lock_run [Request 1 101, Acquire 1, Record 1, Request 2 101] lock_init = Some contended"
    by (auto simp: contended_def)
  have "pc contended 2 = Waiting 2 1 101" "native contended 101 = Some 1" by code_simp+
  then show "(2, 1) \<in> waits_for contended" by (auto simp: waits_for_def)
qed

theorem no_circular_wait_witness:
  "(2, 1) \<in> waits_for contended \<and> (2, 2) \<notin> (waits_for contended)\<^sup>+"
proof -
  have "lock_reachable {1, 2} contended"
    by (rule lock_run_reachable [OF contended_run(1) lock_reachable.init]) simp
  moreover have "inj_on thread_id {1, 2}" by (simp add: thread_id_def)
  ultimately show ?thesis using contended_run(2) no_circular_wait by blast
qed

text \<open>
  Two handles that agree in their low 32 bits share a node, and recording an acquisition of one erases the request of the
  other: the threads 1 and \<open>2 ^ 32 + 1\<close> have one node, and 1 and 2 end up waiting for each other without any refusal.
\<close>

definition shared_node :: "lock_action list" where
  "shared_node = (let t = 2 ^ 32 + 1 in
     [Request 1 101, Acquire 1, Record 1, Request t 102, Request 1 102, Acquire t, Record t, Release t 102, Erase t,
      Request 2 102, Acquire 2, Record 2, Request 2 101])"

lemma shared_node_deadlock:
  "\<exists>s. lock_reachable {1, 2, 2 ^ 32 + 1} s \<and> (1, 1) \<in> (waits_for s)\<^sup>+"
proof -
  have "map_option (\<lambda>s. (pc s 1, pc s 2, native s 101, native s 102)) (lock_run shared_node lock_init) =
      Some (Waiting 0 2 102, Waiting 3 1 101, Some 1, Some 2)" by code_simp
  then obtain s where s: "lock_run shared_node lock_init = Some s" "pc s 1 = Waiting 0 2 102" "pc s 2 = Waiting 3 1 101"
    "native s 101 = Some 1" "native s 102 = Some 2" by auto
  have "lock_reachable {1, 2, 2 ^ 32 + 1} s"
    by (rule lock_run_reachable [OF s(1) lock_reachable.init]) (simp add: shared_node_def)
  moreover have "(1, 2) \<in> waits_for s" "(2, 1) \<in> waits_for s" using s by (auto simp: waits_for_def)
  ultimately show ?thesis by (meson r_into_trancl trancl_into_trancl)
qed

end
