(* ===== verification/Pager.thy ===== *)
theory Pager
  imports Linked_Lists
begin

text \<open>
  The page cache of \<^verbatim>\<open>Phase-1/Day25/C\<close> (\<^verbatim>\<open>include/pager.h\<close>, \<^verbatim>\<open>src/pager.c\<close>): pages of a file in memory, in
  LRU order on a doubly linked list and in a hash table of 20 buckets, with pin counts, dirty
  flags and a free list of pages kept in page 0.

  The file is a map from page numbers to page contents, where a page beyond the end reads as zeros:
  \<^verbatim>\<open>pager_fetch\<close> clears the buffer before \<^verbatim>\<open>pread\<close>. What \<^verbatim>\<open>pwrite\<close> and \<^verbatim>\<open>pread\<close> do is an argument: whether the whole
  page was written, and the file afterwards; how many bytes were read. \<^verbatim>\<open>malloc\<close> is an argument too. A negative
  page number would index the hash table below its start, and a pin more than \<^verbatim>\<open>INT_MAX\<close> would overflow the count:
  both are undefined.
\<close>

subsection \<open>Data\<close>

definition PAGE_SIZE :: nat where "PAGE_SIZE = 4096"
definition CACHE_CAPACITY :: nat where "CACHE_CAPACITY = 10"
definition HASH_MAP_SIZE :: nat where "HASH_MAP_SIZE = CACHE_CAPACITY * 2"

type_synonym page_data = "u8 list"

record Page =
  page_id :: int
  pg_data :: page_data
  pin_count :: nat
  is_dirty :: bool
  pg_next :: ptr
  pg_prev :: ptr
  hash_next :: ptr

type_synonym disk = "int \<Rightarrow> page_data"

record Pager =
  pages :: "Page heap"
  lru_head :: ptr
  lru_tail :: ptr
  lru_size :: int
  hash_map :: "ptr list"
  pg_capacity :: int
  pwrite_count :: u64
  db_file :: disk

text \<open>
  \<^verbatim>\<open>pwrite\<close> of a page: whether all of it was written, and the file afterwards. \<^verbatim>\<open>pread\<close> of a page: the number of bytes
  it stored, fewer than a page or none at all when it fails; the rest of the buffer stays zero.
\<close>

record file_io =
  io_write :: "int \<Rightarrow> page_data \<Rightarrow> disk \<Rightarrow> bool \<times> disk"
  io_read :: "int \<Rightarrow> disk \<Rightarrow> nat"

definition read_page :: "file_io \<Rightarrow> int \<Rightarrow> disk \<Rightarrow> page_data" where
  "read_page io pid d = (let n = io_read io pid d in take n (d pid) @ replicate (length (d pid) - n) 0)"

subsection \<open>The list and the hash table\<close>

definition write_page :: "ptr \<Rightarrow> (Page \<Rightarrow> Page) \<Rightarrow> Pager \<Rightarrow> Pager option" where
  "write_page p f pg = map_option (\<lambda>h. pg\<lparr>pages := h\<rparr>) (store p f (pages pg))"

definition write_page_if :: "ptr \<Rightarrow> (Page \<Rightarrow> Page) \<Rightarrow> Pager \<Rightarrow> Pager option" where
  "write_page_if p f pg = map_option (\<lambda>h. pg\<lparr>pages := h\<rparr>) (store_if p f (pages pg))"

definition list_unlink :: "addr \<Rightarrow> Pager \<Rightarrow> Pager option" where
  "list_unlink a pg = do {
     n \<leftarrow> pages pg a;
     pg \<leftarrow> write_page_if (pg_prev n) (pg_next_update (\<lambda>_. pg_next n)) pg;
     let pg = (if pg_prev n = None then pg\<lparr>lru_head := pg_next n\<rparr> else pg);
     n \<leftarrow> pages pg a;
     pg \<leftarrow> write_page_if (pg_next n) (pg_prev_update (\<lambda>_. pg_prev n)) pg;
     let pg = (if pg_next n = None then pg\<lparr>lru_tail := pg_prev n\<rparr> else pg);
     pg \<leftarrow> write_page (Some a) (\<lambda>n. n\<lparr>pg_next := None, pg_prev := None\<rparr>) pg;
     Some (pg\<lparr>lru_size := lru_size pg - 1\<rparr>)
   }"

definition list_add_front :: "addr \<Rightarrow> Pager \<Rightarrow> Pager option" where
  "list_add_front a pg = do {
     pg \<leftarrow> write_page (Some a) (\<lambda>n. n\<lparr>pg_next := lru_head pg, pg_prev := None\<rparr>) pg;
     pg \<leftarrow> write_page_if (lru_head pg) (pg_prev_update (\<lambda>_. Some a)) pg;
     let pg = pg\<lparr>lru_head := Some a\<rparr>;
     let pg = (if lru_tail pg = None then pg\<lparr>lru_tail := Some a\<rparr> else pg);
     Some (pg\<lparr>lru_size := lru_size pg + 1\<rparr>)
   }"

definition list_move_to_front :: "addr \<Rightarrow> Pager \<Rightarrow> Pager option" where
  "list_move_to_front a pg =
     (if lru_head pg = Some a then Some pg
      else do { pg \<leftarrow> list_unlink a pg; list_add_front a pg })"

text \<open>\<^verbatim>\<open>%\<close> keeps the sign of a negative page number.\<close>

definition hash_func :: "int \<Rightarrow> int" where
  "hash_func i = (if 0 \<le> i then i mod int HASH_MAP_SIZE else - ((- i) mod int HASH_MAP_SIZE))"

definition bucket :: "int \<Rightarrow> nat option" where
  "bucket i = (let b = hash_func i in if 0 \<le> b then Some (nat b) else None)"

partial_function (option) hash_find_loop :: "int \<Rightarrow> ptr \<Rightarrow> Page heap \<Rightarrow> ptr option" where
  "hash_find_loop pid cur h =
     (case cur of
        None \<Rightarrow> Some None
      | Some a \<Rightarrow>
          (case h a of
             None \<Rightarrow> None
           | Some n \<Rightarrow> if page_id n = pid then Some (Some a) else hash_find_loop pid (hash_next n) h))"

definition hash_find :: "int \<Rightarrow> Pager \<Rightarrow> ptr option" where
  "hash_find pid pg = do { b \<leftarrow> bucket pid; hash_find_loop pid (hash_map pg ! b) (pages pg) }"

definition hash_insert :: "addr \<Rightarrow> Pager \<Rightarrow> Pager option" where
  "hash_insert a pg = do {
     n \<leftarrow> pages pg a;
     b \<leftarrow> bucket (page_id n);
     pg \<leftarrow> write_page (Some a) (hash_next_update (\<lambda>_. hash_map pg ! b)) pg;
     Some (pg\<lparr>hash_map := (hash_map pg)[b := Some a]\<rparr>)
   }"

partial_function (option) hash_remove_loop :: "addr \<Rightarrow> nat \<Rightarrow> ptr \<Rightarrow> ptr \<Rightarrow> Pager \<Rightarrow> Pager option" where
  "hash_remove_loop a b cur prev pg =
     (case cur of
        None \<Rightarrow> Some pg
      | Some c \<Rightarrow>
          (case pages pg c of
             None \<Rightarrow> None
           | Some n \<Rightarrow>
               if c = a then
                 do {
                   pg \<leftarrow> (if prev = None then Some (pg\<lparr>hash_map := (hash_map pg)[b := hash_next n]\<rparr>)
                         else write_page prev (hash_next_update (\<lambda>_. hash_next n)) pg);
                   write_page (Some c) (hash_next_update (\<lambda>_. None)) pg
                 }
               else hash_remove_loop a b (hash_next n) (Some c) pg))"

definition hash_remove :: "addr \<Rightarrow> Pager \<Rightarrow> Pager option" where
  "hash_remove a pg = do {
     n \<leftarrow> pages pg a;
     b \<leftarrow> bucket (page_id n);
     hash_remove_loop a b (hash_map pg ! b) None pg
   }"

subsection \<open>Flushing, eviction, fetching\<close>

definition pager_flush :: "file_io \<Rightarrow> addr \<Rightarrow> Pager \<Rightarrow> Pager option" where
  "pager_flush io a pg = do {
     n \<leftarrow> pages pg a;
     (if \<not> is_dirty n then Some pg
      else
        (let (ok, d) = io_write io (page_id n) (pg_data n) (db_file pg);
             pg = pg\<lparr>db_file := d\<rparr> in
         if ok then write_page (Some a) (is_dirty_update (\<lambda>_. False)) (pg\<lparr>pwrite_count := pwrite_count pg + 1\<rparr>)
         else Some pg))
   }"

text \<open>The walk from the tail to the last page that is not pinned.\<close>

partial_function (option) evict_walk :: "ptr \<Rightarrow> Page heap \<Rightarrow> ptr option" where
  "evict_walk cur h =
     (case cur of
        None \<Rightarrow> Some None
      | Some a \<Rightarrow>
          (case h a of
             None \<Rightarrow> None
           | Some n \<Rightarrow> if pin_count n = 0 then Some (Some a) else evict_walk (pg_prev n) h))"

definition pager_evict :: "file_io \<Rightarrow> Pager \<Rightarrow> (ptr \<times> Pager) option" where
  "pager_evict io pg = do {
     cur \<leftarrow> evict_walk (lru_tail pg) (pages pg);
     (case cur of
        None \<Rightarrow> Some (None, pg)
      | Some a \<Rightarrow> do {
          pg \<leftarrow> pager_flush io a pg;
          pg \<leftarrow> hash_remove a pg;
          pg \<leftarrow> list_unlink a pg;
          Some (Some a, pg)
        })
   }"

definition load_page :: "file_io \<Rightarrow> addr \<Rightarrow> int \<Rightarrow> Pager \<Rightarrow> Pager option" where
  "load_page io a pid pg = do {
     pg \<leftarrow> write_page (Some a) (\<lambda>n. n\<lparr>page_id := pid, pin_count := 1, is_dirty := False,
             pg_data := read_page io pid (db_file pg)\<rparr>) pg;
     pg \<leftarrow> hash_insert a pg;
     list_add_front a pg
   }"

text \<open>\<^verbatim>\<open>page->pin_count++\<close> on an \<^verbatim>\<open>int\<close> that is never negative.\<close>

definition PIN_MAX :: nat where "PIN_MAX = 2 ^ 31 - 1"

definition pin_page :: "addr \<Rightarrow> Pager \<Rightarrow> Pager option" where
  "pin_page a pg = do {
     n \<leftarrow> pages pg a;
     if pin_count n = PIN_MAX then None else write_page (Some a) (pin_count_update Suc) pg
   }"

definition pager_fetch :: "Page allocator \<Rightarrow> file_io \<Rightarrow> int \<Rightarrow> Pager \<Rightarrow> (ptr \<times> Pager) option" where
  "pager_fetch alloc io pid pg = do {
     found \<leftarrow> hash_find pid pg;
     (case found of
        Some a \<Rightarrow> do {
          pg \<leftarrow> pin_page a pg;
          pg \<leftarrow> list_move_to_front a pg;
          Some (Some a, pg)
        }
      | None \<Rightarrow>
          if pg_capacity pg \<le> lru_size pg then
            do {
              (victim, pg) \<leftarrow> pager_evict io pg;
              (case victim of
                 None \<Rightarrow> Some (None, pg)
               | Some a \<Rightarrow> do { pg \<leftarrow> load_page io a pid pg; Some (Some a, pg) })
            }
          else
            (case alloc (pages pg) of
               None \<Rightarrow> Some (None, pg)
             | Some (a, junk) \<Rightarrow> do {
                 pg \<leftarrow> load_page io a pid (pg\<lparr>pages := (pages pg)(a \<mapsto> junk)\<rparr>);
                 Some (Some a, pg)
               }))
   }"

definition pager_unpin :: "ptr \<Rightarrow> bool \<Rightarrow> Pager \<Rightarrow> Pager option" where
  "pager_unpin p dirty pg =
     (if p = None then Some pg
      else write_page p (\<lambda>n. n\<lparr>is_dirty := is_dirty n \<or> dirty, pin_count := pin_count n - 1\<rparr>) pg)"

subsection \<open>The header page and the free list\<close>

text \<open>Little-endian 32-bit integers inside a page; the three fields of \<^verbatim>\<open>DatabaseHeader\<close>.\<close>

definition get_u32 :: "nat \<Rightarrow> page_data \<Rightarrow> u32" where
  "get_u32 k d = or (or (or (push_bit 24 (ucast (d ! (k + 3)))) (push_bit 16 (ucast (d ! (k + 2)))))
     (push_bit 8 (ucast (d ! (k + 1))))) (ucast (d ! k))"

definition put_u32 :: "nat \<Rightarrow> u32 \<Rightarrow> page_data \<Rightarrow> page_data" where
  "put_u32 k w d = d[k := ucast w, k + 1 := ucast (drop_bit 8 w), k + 2 := ucast (drop_bit 16 w),
     k + 3 := ucast (drop_bit 24 w)]"

definition HDR_PAGE_SIZE :: nat where "HDR_PAGE_SIZE = 0"
definition HDR_TOTAL_PAGES :: nat where "HDR_TOTAL_PAGES = 4"
definition HDR_FREE_LIST :: nat where "HDR_FREE_LIST = 8"

definition zero_page :: page_data where
  "zero_page = replicate PAGE_SIZE 0"

definition header_page :: page_data where
  "header_page = put_u32 HDR_FREE_LIST (-1) (put_u32 HDR_TOTAL_PAGES 1
     (put_u32 HDR_PAGE_SIZE (word_of_nat PAGE_SIZE) zero_page))"

definition set_data :: "addr \<Rightarrow> (page_data \<Rightarrow> page_data) \<Rightarrow> Pager \<Rightarrow> Pager option" where
  "set_data a f pg = write_page (Some a) (pg_data_update f) pg"


text \<open>
  The pointer \<^verbatim>\<open>hdr\<close> stays valid across the second fetch because the header page is pinned. A page the
  fetch could not provide is a null pointer, which the code dereferences.
\<close>

definition fetch_or_crash :: "Page allocator \<Rightarrow> file_io \<Rightarrow> int \<Rightarrow> Pager \<Rightarrow> (addr \<times> page_data \<times> Pager) option" where
  "fetch_or_crash alloc io pid pg = do {
     (p, pg) \<leftarrow> pager_fetch alloc io pid pg;
     a \<leftarrow> p;
     n \<leftarrow> pages pg a;
     Some (a, pg_data n, pg)
   }"

definition pager_alloc_page :: "Page allocator \<Rightarrow> file_io \<Rightarrow> Pager \<Rightarrow> (int \<times> Pager) option" where
  "pager_alloc_page alloc io pg = do {
     (hdr, d, pg) \<leftarrow> fetch_or_crash alloc io 0 pg;
     (new_page_id, pg) \<leftarrow>
       (if get_u32 HDR_FREE_LIST d \<noteq> -1 then
          do {
            let new_page_id = sint (get_u32 HDR_FREE_LIST d);
            (p, fd, pg) \<leftarrow> fetch_or_crash alloc io new_page_id pg;
            let next_free = get_u32 0 fd;
            pg \<leftarrow> set_data hdr (put_u32 HDR_FREE_LIST next_free) pg;
            pg \<leftarrow> pager_unpin (Some p) False pg;
            Some (new_page_id, pg)
          }
        else
          do {
            let total = get_u32 HDR_TOTAL_PAGES d;
            pg \<leftarrow> set_data hdr (put_u32 HDR_TOTAL_PAGES (total + 1)) pg;
            Some (sint total, pg)
          });
     pg \<leftarrow> pager_unpin (Some hdr) True pg;
     Some (new_page_id, pg)
   }"

definition pager_free_page :: "Page allocator \<Rightarrow> file_io \<Rightarrow> int \<Rightarrow> Pager \<Rightarrow> Pager option" where
  "pager_free_page alloc io pid pg =
     (if pid \<le> 0 then Some pg
      else do {
        (hdr, d, pg) \<leftarrow> fetch_or_crash alloc io 0 pg;
        (target, td, pg) \<leftarrow> fetch_or_crash alloc io pid pg;
        pg \<leftarrow> set_data target (\<lambda>_. put_u32 0 (get_u32 HDR_FREE_LIST d) zero_page) pg;
        pg \<leftarrow> set_data hdr (put_u32 HDR_FREE_LIST (word_of_int pid)) pg;
        pg \<leftarrow> pager_unpin (Some target) True pg;
        pager_unpin (Some hdr) True pg
      })"

text \<open>Closing: every page is flushed and freed; what remains is the file.\<close>

partial_function (option) close_loop :: "file_io \<Rightarrow> bool \<Rightarrow> ptr \<Rightarrow> Pager \<Rightarrow> Pager option" where
  "close_loop io flush cur pg =
     (case cur of
        None \<Rightarrow> Some pg
      | Some a \<Rightarrow>
          (case pages pg a of
             None \<Rightarrow> None
           | Some n \<Rightarrow> do {
               pg \<leftarrow> (if flush then pager_flush io a pg else Some pg);
               h \<leftarrow> dealloc (Some a) (pages pg);
               close_loop io flush (pg_next n) (pg\<lparr>pages := h\<rparr>)
             }))"


definition pager_destroy_no_flush :: "file_io \<Rightarrow> Pager option \<Rightarrow> Pager option option" where
  "pager_destroy_no_flush io pager =
     (case pager of
        None \<Rightarrow> Some None
      | Some pg \<Rightarrow> map_option Some (close_loop io False (lru_head pg) pg))"

subsection \<open>The LRU list\<close>

abbreviation content :: "Page \<Rightarrow> int \<times> page_data \<times> nat \<times> bool" where
  "content n \<equiv> (page_id n, pg_data n, pin_count n, is_dirty n)"

interpretation pl: link_fields pg_next pg_prev "\<lambda>p. pg_next_update (\<lambda>_. p)" "\<lambda>p. pg_prev_update (\<lambda>_. p)"
  "\<lambda>n. (content n, hash_next n)"
  by unfold_locales simp_all

definition list_ok :: "Pager \<Rightarrow> addr list \<Rightarrow> bool" where
  "list_ok pg xs \<longleftrightarrow> dls pg_next pg_prev (pages pg) None xs None \<and> lru_head pg = first_ptr xs None \<and>
     lru_tail pg = last_ptr xs None \<and> lru_size pg = int (length xs)"

text \<open>The parts of the state the list operations leave alone.\<close>

definition list_frame :: "Pager \<Rightarrow> Pager \<Rightarrow> bool" where
  "list_frame pg pg' \<longleftrightarrow> hash_map pg' = hash_map pg \<and> pg_capacity pg' = pg_capacity pg \<and>
     pwrite_count pg' = pwrite_count pg \<and> db_file pg' = db_file pg \<and>
     (\<forall>b. map_option (\<lambda>n. (content n, hash_next n)) (pages pg' b) =
          map_option (\<lambda>n. (content n, hash_next n)) (pages pg b))"

lemma list_frame_trans: "list_frame a b \<Longrightarrow> list_frame b c \<Longrightarrow> list_frame a c"
  by (simp add: list_frame_def)

lemma list_unlink_ok:
  assumes l: "list_ok pg (xs @ a # ys)"
  shows "\<exists>pg'. list_unlink a pg = Some pg' \<and> list_ok pg' (xs @ ys) \<and> list_frame pg pg'"
proof -
  let ?h = "pages pg"
  have d: "dls pg_next pg_prev ?h None (xs @ a # ys) None" using l by (simp add: list_ok_def)
  have dist: "a \<notin> set (xs @ ys)" using dls_distinct [OF d] by auto
  obtain n where n: "?h a = Some n" "pg_prev n = last_ptr xs None" "pg_next n = first_ptr ys None"
    using dls_node [OF d] by blast
  obtain h1 h2 where h: "store_if (pg_prev n) (pg_next_update (\<lambda>_. pg_next n)) ?h = Some h1" "h1 a = Some n"
      "store_if (pg_next n) (pg_prev_update (\<lambda>_. pg_prev n)) h1 = Some h2" "h2 a = Some n"
      "dls pg_next pg_prev h2 None (xs @ ys) None"
      "\<And>b. map_option (\<lambda>n. (content n, hash_next n)) (h2 b) = map_option (\<lambda>n. (content n, hash_next n)) (?h b)"
      "\<And>b. b \<notin> set (xs @ ys) \<Longrightarrow> h2 b = ?h b"
    by (rule pl.unlink [OF d n(1)]) blast
  let ?n = "n\<lparr>pg_next := None, pg_prev := None\<rparr>"
  let ?pg = "pg\<lparr>pages := h2(a \<mapsto> ?n), lru_head := (if pg_prev n = None then pg_next n else lru_head pg),
     lru_tail := (if pg_next n = None then pg_prev n else lru_tail pg), lru_size := lru_size pg - 1\<rparr>"
  have "list_unlink a pg = Some ?pg"
    using n(1) h(1-4)
    by (cases pg; cases "pg_prev n"; cases "pg_next n")
      (auto simp: list_unlink_def write_page_if_def write_page_def heap_simps Let_def)
  moreover have "list_ok ?pg (xs @ ys)"
  proof -
    have "dls pg_next pg_prev (h2(a \<mapsto> ?n)) None (xs @ ys) None" using h(5) dist by simp
    moreover have "(if pg_prev n = None then pg_next n else lru_head pg) = first_ptr (xs @ ys) None"
      using n(2,3) l by (cases xs rule: rev_cases) (auto simp: list_ok_def)
    moreover have "(if pg_next n = None then pg_prev n else lru_tail pg) = last_ptr (xs @ ys) None"
      using n(2,3) l by (cases ys) (auto simp: list_ok_def)
    ultimately show ?thesis using l by (simp add: list_ok_def)
  qed
  moreover have "list_frame pg ?pg" using h(6) n(1) by (auto simp: list_frame_def)
  ultimately show ?thesis by blast
qed

lemma list_add_front_ok:
  assumes l: "list_ok pg xs" and a: "a \<notin> set xs" "pages pg a = Some n"
  shows "\<exists>pg'. list_add_front a pg = Some pg' \<and> list_ok pg' (a # xs) \<and> list_frame pg pg'"
proof -
  let ?h = "pages pg" and ?n = "n\<lparr>pg_next := lru_head pg, pg_prev := None\<rparr>"
  have d: "dls pg_next pg_prev (?h(a \<mapsto> ?n)) None xs None" using l a(1) by (simp add: list_ok_def)
  have hd: "lru_head pg = first_ptr xs None" using l by (simp add: list_ok_def)
  obtain h1 where h: "store_if (first_ptr xs None) (pg_prev_update (\<lambda>_. Some a)) (?h(a \<mapsto> ?n)) = Some h1"
      "h1 a = Some ?n" "dls pg_next pg_prev h1 None (a # xs) None"
      "\<And>b. map_option (\<lambda>n. (content n, hash_next n)) (h1 b) =
           map_option (\<lambda>n. (content n, hash_next n)) ((?h(a \<mapsto> ?n)) b)"
      "\<And>b. b \<notin> set xs \<Longrightarrow> h1 b = (?h(a \<mapsto> ?n)) b"
    by (rule pl.push_front [OF d a(1), of ?n]) (use hd in auto)
  let ?pg = "pg\<lparr>pages := h1, lru_head := Some a,
     lru_tail := (if lru_tail pg = None then Some a else lru_tail pg), lru_size := lru_size pg + 1\<rparr>"
  have "list_add_front a pg = Some ?pg"
    using a(2) h(1) hd
    by (cases pg) (auto simp: list_add_front_def write_page_def write_page_if_def heap_simps Let_def)
  moreover have "list_ok ?pg (a # xs)" using l h(3) by (cases xs rule: rev_cases) (auto simp: list_ok_def)
  moreover have "list_frame pg ?pg" using h(4) a(2) by (simp add: list_frame_def)
  ultimately show ?thesis by blast
qed

lemma list_frame_pages:
  assumes "list_frame pg pg'" "pages pg a = Some n"
  obtains n' where "pages pg' a = Some n'" "content n' = content n" "hash_next n' = hash_next n"
proof -
  have "map_option (\<lambda>n. (content n, hash_next n)) (pages pg' a) = Some (content n, hash_next n)"
    using assms unfolding list_frame_def by simp
  then show ?thesis using that by (cases "pages pg' a") auto
qed

lemma list_move_ok:
  assumes l: "list_ok pg (xs @ a # ys)"
  shows "\<exists>pg'. list_move_to_front a pg = Some pg' \<and> list_ok pg' (a # xs @ ys) \<and> list_frame pg pg'"
proof (cases "lru_head pg = Some a")
  case True
  have "distinct (xs @ a # ys)" using l dls_distinct by (fastforce simp: list_ok_def)
  then have "xs = []" using l True by (cases xs) (auto simp: list_ok_def)
  then show ?thesis using l True by (simp add: list_move_to_front_def list_frame_def)
next
  case False
  have "distinct (xs @ a # ys)" using l dls_distinct by (fastforce simp: list_ok_def)
  then have dist: "a \<notin> set (xs @ ys)" by auto
  have d: "dls pg_next pg_prev (pages pg) None (xs @ a # ys) None" using l by (simp add: list_ok_def)
  obtain n where n: "pages pg a = Some n" using dls_node [OF d] by blast
  obtain p1 where p1: "list_unlink a pg = Some p1" "list_ok p1 (xs @ ys)" "list_frame pg p1"
    using list_unlink_ok [OF l] by blast
  obtain n1 where "pages p1 a = Some n1" using list_frame_pages [OF p1(3) n] by blast
  then obtain p2 where "list_add_front a p1 = Some p2" "list_ok p2 (a # xs @ ys)" "list_frame p1 p2"
    using list_add_front_ok [OF p1(2) dist] by blast
  then show ?thesis using p1 False list_frame_trans by (auto simp: list_move_to_front_def)
qed

subsection \<open>The hash table\<close>

definition id_of :: "Pager \<Rightarrow> addr \<Rightarrow> int" where
  "id_of pg a = page_id (the (pages pg a))"

definition in_bucket :: "Pager \<Rightarrow> addr set \<Rightarrow> nat \<Rightarrow> addr set" where
  "in_bucket pg S b = {a \<in> S. id_of pg a mod int HASH_MAP_SIZE = int b}"

definition hash_ok :: "Pager \<Rightarrow> addr set \<Rightarrow> bool" where
  "hash_ok pg S \<longleftrightarrow> length (hash_map pg) = HASH_MAP_SIZE \<and>
     (\<forall>a\<in>S. \<exists>n. pages pg a = Some n \<and> 0 \<le> page_id n) \<and> inj_on (id_of pg) S \<and>
     (\<forall>b < HASH_MAP_SIZE. \<exists>ys. chain hash_next (pages pg) (hash_map pg ! b) ys None \<and> set ys = in_bucket pg S b)"

definition hash_frame :: "Pager \<Rightarrow> Pager \<Rightarrow> bool" where
  "hash_frame pg pg' \<longleftrightarrow> lru_head pg' = lru_head pg \<and> lru_tail pg' = lru_tail pg \<and> lru_size pg' = lru_size pg \<and>
     pg_capacity pg' = pg_capacity pg \<and> pwrite_count pg' = pwrite_count pg \<and> db_file pg' = db_file pg \<and>
     (\<forall>b. map_option (\<lambda>n. (content n, pg_next n, pg_prev n)) (pages pg' b) =
          map_option (\<lambda>n. (content n, pg_next n, pg_prev n)) (pages pg b))"

lemma bucket_eq:
  "0 \<le> pid \<Longrightarrow> bucket pid = Some (nat (pid mod int HASH_MAP_SIZE))" "nat (pid mod int HASH_MAP_SIZE) < HASH_MAP_SIZE"
  by (simp_all add: bucket_def hash_func_def HASH_MAP_SIZE_def CACHE_CAPACITY_def nat_less_iff)

lemma list_ok_hash_frame: "list_ok pg xs \<Longrightarrow> hash_frame pg pg' \<Longrightarrow> list_ok pg' xs"
proof -
  assume l: "list_ok pg xs" and f: "hash_frame pg pg'"
  have "dls pg_next pg_prev (pages pg') None xs None = dls pg_next pg_prev (pages pg) None xs None"
  proof (rule dls_cong)
    fix a
    have "map_option (\<lambda>n. (content n, pg_next n, pg_prev n)) (pages pg' a) =
        map_option (\<lambda>n. (content n, pg_next n, pg_prev n)) (pages pg a)" using f by (simp add: hash_frame_def)
    then show "map_option (\<lambda>n. (pg_next n, pg_prev n)) (pages pg' a) =
        map_option (\<lambda>n. (pg_next n, pg_prev n)) (pages pg a)"
      by (cases "pages pg a"; cases "pages pg' a") auto
  qed
  then show ?thesis using l f by (simp add: list_ok_def hash_frame_def)
qed

lemma hash_ok_list_frame: "hash_ok pg S \<Longrightarrow> list_frame pg pg' \<Longrightarrow> hash_ok pg' S"
proof -
  assume l: "hash_ok pg S" and f: "list_frame pg pg'"
  have e: "map_option (\<lambda>n. (content n, hash_next n)) (pages pg' a) =
      map_option (\<lambda>n. (content n, hash_next n)) (pages pg a)" for a using f by (simp add: list_frame_def)
  have hn: "map_option hash_next (pages pg' a) = map_option hash_next (pages pg a)" for a
    using e [of a] by (cases "pages pg a"; cases "pages pg' a") auto
  have id: "id_of pg' a = id_of pg a" if "a \<in> S" for a
    using e [of a] by (cases "pages pg a"; cases "pages pg' a") (auto simp: id_of_def)
  have ch: "chain hash_next (pages pg') p ys None = chain hash_next (pages pg) p ys None" for p ys
    by (rule chain_cong) (rule hn)
  have "\<exists>n. pages pg' a = Some n \<and> 0 \<le> page_id n" if "a \<in> S" for a
    using l e [of a] that by (cases "pages pg' a") (fastforce simp: hash_ok_def)+
  moreover have "in_bucket pg' S b = in_bucket pg S b" for b using id by (auto simp: in_bucket_def)
  moreover have "inj_on (id_of pg') S" using l id by (auto simp: hash_ok_def inj_on_def)
  ultimately show ?thesis using l f by (simp add: hash_ok_def ch list_frame_def)
qed

lemma hash_okE:
  assumes "hash_ok pg S" "b < HASH_MAP_SIZE"
  obtains ys where "chain hash_next (pages pg) (hash_map pg ! b) ys None" "set ys = in_bucket pg S b"
  using assms unfolding hash_ok_def by blast

lemma hash_find_loop_chain:
  "chain hash_next h p ys None \<Longrightarrow>
     hash_find_loop pid p h = Some (List.find (\<lambda>a. page_id (the (h a)) = pid) ys)"
proof (induction ys arbitrary: p)
  case Nil
  then show ?case by (subst hash_find_loop.simps) simp
next
  case (Cons a ys)
  then show ?case by (subst hash_find_loop.simps) auto
qed

lemma hash_find_ok:
  assumes h: "hash_ok pg S" and pid: "0 \<le> pid"
  shows "a \<in> S \<Longrightarrow> id_of pg a = pid \<Longrightarrow> hash_find pid pg = Some (Some a)"
    and "pid \<notin> id_of pg ` S \<Longrightarrow> hash_find pid pg = Some None"
proof -
  let ?b = "nat (pid mod int HASH_MAP_SIZE)"
  obtain ys where ys: "chain hash_next (pages pg) (hash_map pg ! ?b) ys None" "set ys = in_bucket pg S ?b"
    using h bucket_eq(2) by (rule hash_okE)
  have f: "hash_find pid pg = Some (List.find (\<lambda>a. id_of pg a = pid) ys)"
    using bucket_eq(1) [OF pid] hash_find_loop_chain [OF ys(1)] by (simp add: hash_find_def id_of_def)
  have inb: "a \<in> set ys \<longleftrightarrow> a \<in> S" if "id_of pg a = pid" for a
    using ys(2) that bucket_eq(2) [of pid] by (auto simp: in_bucket_def HASH_MAP_SIZE_def CACHE_CAPACITY_def)
  show "hash_find pid pg = Some None" if "pid \<notin> id_of pg ` S"
    unfolding f using inb that by (auto simp: find_None_iff)
  show "hash_find pid pg = Some (Some a)" if "a \<in> S" "id_of pg a = pid"
  proof -
    have "List.find (\<lambda>a. id_of pg a = pid) ys \<noteq> None" using inb [of a] that by (auto simp: find_None_iff)
    then obtain c where c: "List.find (\<lambda>a. id_of pg a = pid) ys = Some c" by auto
    then have "c \<in> set ys" "id_of pg c = pid" by (auto simp: find_Some_iff)
    then have "c = a" using inb [of c] that h by (auto simp: hash_ok_def inj_on_def)
    then show ?thesis unfolding f c by simp
  qed
qed

lemma hash_insert_ok:
  assumes h: "hash_ok pg S" and a: "pages pg a = Some n" "0 \<le> page_id n" "a \<notin> S" "page_id n \<notin> id_of pg ` S"
  shows "\<exists>pg'. hash_insert a pg = Some pg' \<and> hash_ok pg' (insert a S) \<and> hash_frame pg pg'"
proof -
  let ?b = "nat (page_id n mod int HASH_MAP_SIZE)"
  let ?n = "n\<lparr>hash_next := hash_map pg ! ?b\<rparr>"
  let ?pg = "pg\<lparr>pages := (pages pg)(a \<mapsto> ?n), hash_map := (hash_map pg)[?b := Some a]\<rparr>"
  have b: "?b < HASH_MAP_SIZE" by (rule bucket_eq(2))
  have "hash_insert a pg = Some ?pg"
    using a(1) bucket_eq(1) [OF a(2)] by (simp add: hash_insert_def write_page_def heap_simps)
  moreover have "hash_ok ?pg (insert a S)"
  proof -
    have id: "id_of ?pg c = id_of pg c" for c using a(1) by (simp add: id_of_def)
    have ida: "id_of pg a = page_id n" using a(1) by (simp add: id_of_def)
    have "id_of ?pg = id_of pg" by (rule ext) (rule id)
    then have "inj_on (id_of ?pg) (insert a S)"
      using h a(3,4) ida by (simp add: hash_ok_def inj_on_insert)
    moreover have "\<exists>ys. chain hash_next (pages ?pg) (hash_map ?pg ! c) ys None \<and>
        set ys = in_bucket ?pg (insert a S) c" if c: "c < HASH_MAP_SIZE" for c
    proof -
      obtain ys where ys: "chain hash_next (pages pg) (hash_map pg ! c) ys None" "set ys = in_bucket pg S c"
        using h c by (rule hash_okE)
      have na: "a \<notin> set ys" using ys(2) a(3) by (auto simp: in_bucket_def)
      have len: "length (hash_map pg) = HASH_MAP_SIZE" using h by (simp add: hash_ok_def)
      show ?thesis
      proof (cases "c = ?b")
        case True
        then have "set (a # ys) = in_bucket ?pg (insert a S) c"
          using ys(2) a(1) b by (auto simp: in_bucket_def id id_of_def HASH_MAP_SIZE_def CACHE_CAPACITY_def)
        moreover have "chain hash_next (pages ?pg) (hash_map ?pg ! c) (a # ys) None"
          using ys(1) na True b len by simp
        ultimately show ?thesis by blast
      next
        case False
        then have "page_id n mod int HASH_MAP_SIZE \<noteq> int c" by auto
        then have "set ys = in_bucket ?pg (insert a S) c"
          using ys(2) a(1) unfolding in_bucket_def id by (auto simp: id_of_def)
        then show ?thesis using ys(1) na False by (intro exI [of _ ys]) simp
      qed
    qed
    ultimately show ?thesis using h a by (auto simp: hash_ok_def)
  qed
  moreover have "hash_frame pg ?pg" using a(1) by (simp add: hash_frame_def)
  ultimately show ?thesis by blast
qed

lemma hash_remove_loop_reach:
  assumes "chain hash_next (pages pg) p (us @ ws @ a # vs) None" "a \<notin> set (us @ ws)" "pages pg a = Some n"
  shows "hash_remove_loop a b (first_ptr (ws @ a # vs) None) (last_ptr us None) pg =
    hash_remove_loop a b (Some a) (last_ptr (us @ ws) None) pg"
  using assms
proof (induction ws arbitrary: us)
  case (Cons c ws)
  obtain m where m: "pages pg c = Some m" "chain hash_next (pages pg) (hash_next m) (ws @ a # vs) None"
    using Cons.prems(1) by (auto simp: chain_append)
  have "hash_next m = first_ptr (ws @ a # vs) None" using m(2) by (rule chain_first)
  then have "hash_remove_loop a b (Some c) (last_ptr us None) pg =
      hash_remove_loop a b (first_ptr (ws @ a # vs) None) (last_ptr (us @ [c]) None) pg"
    using m(1) Cons.prems(2) by (subst hash_remove_loop.simps) simp
  then show ?case using Cons.IH [of "us @ [c]"] Cons.prems by simp
qed simp

text \<open>Removing a page: its bucket loses it, nothing but \<^verbatim>\<open>hash_next\<close> fields and one bucket changes.\<close>

lemma hash_remove_ok:
  assumes h: "hash_ok pg S" and a: "a \<in> S"
  shows "\<exists>pg'. hash_remove a pg = Some pg' \<and> hash_ok pg' (S - {a}) \<and> hash_frame pg pg'"
proof -
  obtain n where n: "pages pg a = Some n" "0 \<le> page_id n" using h a by (auto simp: hash_ok_def)
  define b where "b = nat (page_id n mod int HASH_MAP_SIZE)"
  have b: "b < HASH_MAP_SIZE" "bucket (page_id n) = Some b" "int b = page_id n mod int HASH_MAP_SIZE"
    using bucket_eq [of "page_id n"] n(2) unfolding b_def by (auto simp: HASH_MAP_SIZE_def CACHE_CAPACITY_def)
  obtain ys where ys: "chain hash_next (pages pg) (hash_map pg ! b) ys None" "set ys = in_bucket pg S b"
    using h b(1) by (rule hash_okE)
  have "a \<in> set ys" using ys(2) a b(3) n(1) by (simp add: in_bucket_def id_of_def)
  then obtain us vs where split: "ys = us @ a # vs" by (meson split_list)
  have dist: "distinct ys" using ys(1) by (rule chain_distinct)
  then have na: "a \<notin> set us" "a \<notin> set vs" using split by auto
  have len: "length (hash_map pg) = HASH_MAP_SIZE" using h by (simp add: hash_ok_def)
  have "hash_map pg ! b = first_ptr (us @ a # vs) None" using chain_first [OF ys(1)] split by simp
  then have run: "hash_remove a pg = hash_remove_loop a b (Some a) (last_ptr us None) pg"
    using hash_remove_loop_reach [of pg "hash_map pg ! b" "[]" us a vs n b] ys(1) split na n(1) b(2)
    by (simp add: hash_remove_def)
  have tl: "chain hash_next (pages pg) (hash_next n) vs None"
    using ys(1) split n(1) by (auto simp: chain_append)
  obtain pg1 where pg1: "hash_remove_loop a b (Some a) (last_ptr us None) pg =
        write_page (Some a) (hash_next_update (\<lambda>_. None)) pg1"
      "pages pg1 a = Some n" "hash_frame pg pg1" "length (hash_map pg1) = HASH_MAP_SIZE"
      "\<And>c. c \<noteq> b \<Longrightarrow> hash_map pg1 ! c = hash_map pg ! c"
      "\<And>c. c \<notin> set us \<Longrightarrow> pages pg1 c = pages pg c"
      "chain hash_next (pages pg1) (hash_map pg1 ! b) (us @ vs) None"
  proof (cases us rule: rev_cases)
    case Nil
    show ?thesis
      by (rule that [of "pg\<lparr>hash_map := (hash_map pg)[b := hash_next n]\<rparr>"])
        (use Nil n(1) len b(1) tl in \<open>simp_all add: hash_remove_loop.simps hash_frame_def\<close>)
  next
    case (snoc ws d)
    obtain m where m: "pages pg d = Some m" using ys(1) split snoc by (auto simp: chain_append)
    have da: "d \<noteq> a" using na snoc by auto
    let ?pg = "pg\<lparr>pages := (pages pg)(d \<mapsto> m\<lparr>hash_next := hash_next n\<rparr>)\<rparr>"
    have "chain hash_next (pages ?pg) (hash_map pg ! b) (ws @ d # vs) None"
      using chain_bypass [of hash_next "pages pg" "hash_map pg ! b" ws d a vs m n
          "hash_next_update (\<lambda>_. hash_next n)"] ys(1) split snoc m n(1) by simp
    then show ?thesis
      by (intro that [of ?pg])
        (use snoc n(1) m da len in \<open>auto simp: hash_remove_loop.simps hash_frame_def write_page_def heap_simps\<close>)
  qed
  let ?n = "n\<lparr>hash_next := None\<rparr>"
  let ?pg = "pg1\<lparr>pages := (pages pg1)(a \<mapsto> ?n)\<rparr>"
  have r: "hash_remove a pg = Some ?pg"
    using run pg1(1,2) by (simp add: write_page_def heap_simps)
  have fr: "hash_frame pg ?pg" using pg1(2,3) n(1) by (auto simp: hash_frame_def)
  have id: "id_of ?pg c = id_of pg c" for c
  proof -
    have "map_option (\<lambda>n. (content n, pg_next n, pg_prev n)) (pages ?pg c) =
        map_option (\<lambda>n. (content n, pg_next n, pg_prev n)) (pages pg c)" using fr unfolding hash_frame_def by blast
    then show ?thesis by (cases "pages ?pg c"; cases "pages pg c") (auto simp: id_of_def)
  qed
  have "hash_ok ?pg (S - {a})" unfolding hash_ok_def
  proof (intro conjI allI impI ballI)
    show "length (hash_map ?pg) = HASH_MAP_SIZE" using pg1(4) by simp
    show "inj_on (id_of ?pg) (S - {a})"
      using h id unfolding hash_ok_def inj_on_def by auto
  next
    fix c assume c: "c \<in> S - {a}"
    then obtain m where m: "pages pg c = Some m" "0 \<le> page_id m" using h by (auto simp: hash_ok_def)
    have "map_option (\<lambda>n. (content n, pg_next n, pg_prev n)) (pages ?pg c) =
        map_option (\<lambda>n. (content n, pg_next n, pg_prev n)) (pages pg c)" using fr unfolding hash_frame_def by blast
    then show "\<exists>n. pages ?pg c = Some n \<and> 0 \<le> page_id n" using m by (cases "pages ?pg c") auto
  next
    fix c assume c: "c < HASH_MAP_SIZE"
    show "\<exists>ys. chain hash_next (pages ?pg) (hash_map ?pg ! c) ys None \<and> set ys = in_bucket ?pg (S - {a}) c"
    proof (cases "c = b")
      case True
      have "set (us @ vs) = in_bucket ?pg (S - {a}) c"
        using ys(2) split na True unfolding in_bucket_def id by auto
      moreover have "chain hash_next (pages ?pg) (hash_map ?pg ! c) (us @ vs) None"
        using pg1(7) na True by (simp del: chain_append)
      ultimately show ?thesis by blast
    next
      case False
      obtain zs where zs: "chain hash_next (pages pg) (hash_map pg ! c) zs None" "set zs = in_bucket pg S c"
        using h c by (rule hash_okE)
      have other: "x \<noteq> a \<and> x \<notin> set us" if "x \<in> set zs" for x
      proof -
        have "x \<notin> set ys" using that zs(2) ys(2) False by (auto simp: in_bucket_def)
        then show ?thesis using split by auto
      qed
      have "chain hash_next (pages ?pg) (hash_map pg ! c) zs None = chain hash_next (pages pg) (hash_map pg ! c) zs None"
        by (rule chain_cong) (use other pg1(6) in auto)
      moreover have "set zs = in_bucket ?pg (S - {a}) c"
        using zs(2) other unfolding in_bucket_def id by auto
      ultimately show ?thesis using zs(1) pg1(5) [OF False] by auto
    qed
  qed
  then show ?thesis using r fr by blast
qed

subsection \<open>The page cache as a list of entries\<close>

text \<open>
  The abstract cache: the entries from the most to the least recently used one (page number, data, pins,
  dirty flag), the file, and the number of pages written.
\<close>

type_synonym entry = "int \<times> page_data \<times> nat \<times> bool"
type_synonym cache = "entry list \<times> disk \<times> u64"

abbreviation ent_id :: "entry \<Rightarrow> int" where "ent_id \<equiv> fst"
abbreviation ent_data :: "entry \<Rightarrow> page_data" where "ent_data e \<equiv> fst (snd e)"
abbreviation ent_pins :: "entry \<Rightarrow> nat" where "ent_pins e \<equiv> fst (snd (snd e))"
abbreviation ent_dirty :: "entry \<Rightarrow> bool" where "ent_dirty e \<equiv> snd (snd (snd e))"

fun take_unpinned :: "entry list \<Rightarrow> (entry \<times> entry list) option" where
  "take_unpinned [] = None"
| "take_unpinned (e # es) =
     (if ent_pins e = 0 then Some (e, es) else map_option (apsnd (Cons e)) (take_unpinned es))"

definition flush_spec :: "file_io \<Rightarrow> entry \<Rightarrow> disk \<Rightarrow> u64 \<Rightarrow> entry \<times> disk \<times> u64" where
  "flush_spec io e d w =
     (if \<not> ent_dirty e then (e, d, w)
      else (let (ok, d') = io_write io (ent_id e) (ent_data e) d in
            if ok then ((ent_id e, ent_data e, ent_pins e, False), d', w + 1) else (e, d', w)))"

definition fetch_spec :: "file_io \<Rightarrow> bool \<Rightarrow> int \<Rightarrow> cache \<Rightarrow> bool \<times> cache" where
  "fetch_spec io mem pid c =
     (case c of (es, d, w) \<Rightarrow>
       (case List.find (\<lambda>e. ent_id e = pid) es of
          Some e \<Rightarrow> (True, (pid, ent_data e, Suc (ent_pins e), ent_dirty e) # filter (\<lambda>e. ent_id e \<noteq> pid) es, d, w)
        | None \<Rightarrow>
            if CACHE_CAPACITY \<le> length es then
              (case take_unpinned (rev es) of
                 None \<Rightarrow> (False, es, d, w)
               | Some (e, r) \<Rightarrow>
                   (case flush_spec io e d w of (_, d', w') \<Rightarrow> (True, (pid, read_page io pid d', 1, False) # rev r, d', w')))
            else if mem then (True, (pid, read_page io pid d, 1, False) # es, d, w) else (False, es, d, w)))"

text \<open>The pins of a page; a page that is not cached has none.\<close>

definition page_pins :: "cache \<Rightarrow> int \<Rightarrow> nat" where
  "page_pins c i = (case map_of (fst c) i of Some (_, k, _) \<Rightarrow> k | None \<Rightarrow> 0)"

definition entry_of :: "Pager \<Rightarrow> addr \<Rightarrow> entry" where
  "entry_of pg a = content (the (pages pg a))"

definition pager_abs :: "Pager \<Rightarrow> addr list \<Rightarrow> cache" where
  "pager_abs pg xs = (map (entry_of pg) xs, db_file pg, pwrite_count pg)"

definition pager_ok :: "Pager \<Rightarrow> addr list \<Rightarrow> bool" where
  "pager_ok pg xs \<longleftrightarrow> list_ok pg xs \<and> hash_ok pg (set xs) \<and> dom (pages pg) = set xs \<and>
     pg_capacity pg = int CACHE_CAPACITY \<and> length xs \<le> CACHE_CAPACITY"

lemma take_unpinned_Some:
  "take_unpinned es = Some (e, r) \<Longrightarrow>
     \<exists>us vs. es = us @ e # vs \<and> r = us @ vs \<and> ent_pins e = 0 \<and> (\<forall>u\<in>set us. ent_pins u \<noteq> 0)"
proof (induction es arbitrary: r)
  case (Cons x es)
  show ?case
  proof (cases "ent_pins x = 0")
    case True
    then have "x # es = [] @ e # r \<and> r = [] @ r \<and> ent_pins e = 0" using Cons.prems by simp
    then show ?thesis by fastforce
  next
    case False
    then obtain r' where r': "take_unpinned es = Some (e, r')" "r = x # r'" using Cons.prems by auto
    obtain us vs where "es = us @ e # vs" "r' = us @ vs" "ent_pins e = 0" "\<forall>u\<in>set us. ent_pins u \<noteq> 0"
      using Cons.IH [OF r'(1)] by blast
    then show ?thesis using r'(2) False by (intro exI [of _ "x # us"] exI [of _ vs]) simp
  qed
qed simp

lemma take_unpinned_None: "take_unpinned es = None \<longleftrightarrow> (\<forall>e\<in>set es. ent_pins e \<noteq> 0)"
  by (induction es) auto

lemma find_append:
  "List.find P (xs @ ys) = (case List.find P xs of None \<Rightarrow> List.find P ys | Some x \<Rightarrow> Some x)"
  by (induction xs) auto

lemma list_frameD:
  assumes "list_frame pg pg'"
  shows "entry_of pg' = entry_of pg" "dom (pages pg') = dom (pages pg)" "db_file pg' = db_file pg"
    "pwrite_count pg' = pwrite_count pg" "pg_capacity pg' = pg_capacity pg"
proof -
  have e: "map_option (\<lambda>n. (content n, hash_next n)) (pages pg' b) =
      map_option (\<lambda>n. (content n, hash_next n)) (pages pg b)" for b using assms by (simp add: list_frame_def)
  show "entry_of pg' = entry_of pg"
  proof
    fix b show "entry_of pg' b = entry_of pg b"
      using e [of b] by (cases "pages pg b"; cases "pages pg' b") (auto simp: entry_of_def)
  qed
  have "pages pg' b = None \<longleftrightarrow> pages pg b = None" for b
    using e [of b] by (cases "pages pg b"; cases "pages pg' b") auto
  then show "dom (pages pg') = dom (pages pg)" by (auto simp: dom_def)
qed (use assms in \<open>simp_all add: list_frame_def\<close>)

lemma hash_frameD:
  assumes "hash_frame pg pg'"
  shows "entry_of pg' = entry_of pg" "dom (pages pg') = dom (pages pg)" "db_file pg' = db_file pg"
    "pwrite_count pg' = pwrite_count pg" "pg_capacity pg' = pg_capacity pg"
proof -
  have e: "map_option (\<lambda>n. (content n, pg_next n, pg_prev n)) (pages pg' b) =
      map_option (\<lambda>n. (content n, pg_next n, pg_prev n)) (pages pg b)" for b
    using assms by (simp add: hash_frame_def)
  show "entry_of pg' = entry_of pg"
  proof
    fix b show "entry_of pg' b = entry_of pg b"
      using e [of b] by (cases "pages pg b"; cases "pages pg' b") (auto simp: entry_of_def)
  qed
  have "pages pg' b = None \<longleftrightarrow> pages pg b = None" for b
    using e [of b] by (cases "pages pg b"; cases "pages pg' b") auto
  then show "dom (pages pg') = dom (pages pg)" by (auto simp: dom_def)
qed (use assms in \<open>simp_all add: hash_frame_def\<close>)

lemma id_of_entry: "id_of pg a = ent_id (entry_of pg a)"
  by (simp add: id_of_def entry_of_def)

text \<open>Changing the data, pins or dirty flag of a page in use, and anything of a page not in use.\<close>

lemma touch_ok:
  assumes l: "list_ok pg xs" and h: "hash_ok pg S" and a: "pages pg a = Some n"
    and m: "page_id m = page_id n" "pg_next m = pg_next n" "pg_prev m = pg_prev n" "hash_next m = hash_next n"
  shows "list_ok (pg\<lparr>pages := (pages pg)(a \<mapsto> m)\<rparr>) xs" "hash_ok (pg\<lparr>pages := (pages pg)(a \<mapsto> m)\<rparr>) S"
proof -
  let ?pg = "pg\<lparr>pages := (pages pg)(a \<mapsto> m)\<rparr>"
  have "dls pg_next pg_prev (pages ?pg) None xs None = dls pg_next pg_prev (pages pg) None xs None"
    by (rule dls_cong) (use a m in auto)
  then show "list_ok ?pg xs" using l by (simp add: list_ok_def)
  have ch: "chain hash_next (pages ?pg) p ys None = chain hash_next (pages pg) p ys None" for p ys
    by (rule chain_cong) (use a m in auto)
  have "id_of ?pg = id_of pg" using a m by (auto simp: id_of_def)
  moreover from this have "in_bucket ?pg S b = in_bucket pg S b" for b by (simp add: in_bucket_def)
  moreover have "\<exists>k. pages ?pg c = Some k \<and> 0 \<le> page_id k" if "c \<in> S" for c
    using h that a m by (auto simp: hash_ok_def)
  ultimately show "hash_ok ?pg S" using h unfolding hash_ok_def ch by simp
qed

lemma hash_ok_notin:
  assumes h: "hash_ok pg S" and a: "a \<notin> S"
  shows "hash_ok (pg\<lparr>pages := (pages pg)(a := v)\<rparr>) S"
proof -
  let ?pg = "pg\<lparr>pages := (pages pg)(a := v)\<rparr>"
  have id: "id_of ?pg c = id_of pg c" if "c \<in> S" for c using a that by (auto simp: id_of_def)
  have ib: "in_bucket ?pg S b = in_bucket pg S b" for b using id by (auto simp: in_bucket_def)
  have "\<exists>ys. chain hash_next (pages ?pg) (hash_map ?pg ! b) ys None \<and> set ys = in_bucket ?pg S b"
    if b: "b < HASH_MAP_SIZE" for b
  proof -
    obtain ys where ys: "chain hash_next (pages pg) (hash_map pg ! b) ys None" "set ys = in_bucket pg S b"
      using h b by (rule hash_okE)
    have "a \<notin> set ys" using ys(2) a by (auto simp: in_bucket_def)
    then show ?thesis using ys ib by (intro exI [of _ ys]) simp
  qed
  moreover have "inj_on (id_of ?pg) S" using h id by (simp add: hash_ok_def inj_on_def)
  moreover have "\<exists>k. pages ?pg c = Some k \<and> 0 \<le> page_id k" if "c \<in> S" for c
    using h that a by (auto simp: hash_ok_def)
  ultimately show ?thesis using h by (simp add: hash_ok_def)
qed

lemma pager_flush_ok:
  assumes l: "list_ok pg xs" and h: "hash_ok pg S" and a: "pages pg a = Some n"
    and f: "flush_spec io (entry_of pg a) (db_file pg) (pwrite_count pg) = (e, d, w)"
  shows "\<exists>pg'. pager_flush io a pg = Some pg' \<and> list_ok pg' xs \<and> hash_ok pg' S \<and>
    dom (pages pg') = dom (pages pg) \<and> entry_of pg' = (entry_of pg)(a := e) \<and> db_file pg' = d \<and>
    pwrite_count pg' = w \<and> pg_capacity pg' = pg_capacity pg \<and> ent_id e = ent_id (entry_of pg a) \<and>
    (\<forall>b. map_option pg_next (pages pg' b) = map_option pg_next (pages pg b))"
proof (cases "is_dirty n")
  case False
  then have "pager_flush io a pg = Some pg" "e = entry_of pg a" "d = db_file pg" "w = pwrite_count pg"
    using a f by (simp_all add: pager_flush_def flush_spec_def entry_of_def)
  then show ?thesis using l h by simp
next
  case True
  obtain ok d' where pw: "io_write io (page_id n) (pg_data n) (db_file pg) = (ok, d')"
    by (cases "io_write io (page_id n) (pg_data n) (db_file pg)")
  let ?m = "n\<lparr>is_dirty := False\<rparr>"
  let ?pg = "pg\<lparr>pages := (pages pg)(a \<mapsto> ?m)\<rparr>"
  have t: "list_ok ?pg xs" "hash_ok ?pg S" using touch_ok [OF l h a, of ?m] by simp_all
  show ?thesis
  proof (cases ok)
    case True
    have "pager_flush io a pg = Some (?pg\<lparr>db_file := d', pwrite_count := pwrite_count pg + 1\<rparr>)"
      using \<open>is_dirty n\<close> True pw a by (cases pg) (simp add: pager_flush_def write_page_def heap_simps)
    moreover have "e = (page_id n, pg_data n, pin_count n, False)" "d = d'" "w = pwrite_count pg + 1"
      using f \<open>is_dirty n\<close> True pw a by (simp_all add: flush_spec_def entry_of_def)
    ultimately show ?thesis using t a
      by (auto simp: list_ok_def hash_ok_def id_of_def in_bucket_def entry_of_def fun_eq_iff inj_on_def)
  next
    case False
    have "pager_flush io a pg = Some (pg\<lparr>db_file := d'\<rparr>)"
      using \<open>is_dirty n\<close> False pw a by (simp add: pager_flush_def)
    moreover have "e = entry_of pg a" "d = d'" "w = pwrite_count pg"
      using f \<open>is_dirty n\<close> False pw a by (simp_all add: flush_spec_def entry_of_def)
    ultimately show ?thesis using l h
      by (auto simp: list_ok_def hash_ok_def id_of_def in_bucket_def entry_of_def fun_eq_iff inj_on_def)
  qed
qed

lemma load_page_ok:
  assumes l: "list_ok pg xs" and h: "hash_ok pg (set xs)" and a: "pages pg a = Some n" "a \<notin> set xs"
    and pid: "0 \<le> pid" "pid \<notin> id_of pg ` set xs"
  shows "\<exists>pg'. load_page io a pid pg = Some pg' \<and> list_ok pg' (a # xs) \<and> hash_ok pg' (insert a (set xs)) \<and>
    dom (pages pg') = dom (pages pg) \<and> entry_of pg' = (entry_of pg)(a := (pid, read_page io pid (db_file pg), 1, False)) \<and>
    db_file pg' = db_file pg \<and> pwrite_count pg' = pwrite_count pg \<and> pg_capacity pg' = pg_capacity pg"
proof -
  let ?n = "n\<lparr>page_id := pid, pin_count := 1, is_dirty := False, pg_data := read_page io pid (db_file pg)\<rparr>"
  let ?p0 = "pg\<lparr>pages := (pages pg)(a \<mapsto> ?n)\<rparr>"
  have w: "write_page (Some a) (\<lambda>n. n\<lparr>page_id := pid, pin_count := 1, is_dirty := False,
      pg_data := read_page io pid (db_file pg)\<rparr>) pg = Some ?p0" using a by (simp add: write_page_def heap_simps)
  have l0: "list_ok ?p0 xs" using l a(2) by (simp add: list_ok_def)
  have h0: "hash_ok ?p0 (set xs)" using h a(2) by (rule hash_ok_notin)
  have e0: "entry_of ?p0 = (entry_of pg)(a := (pid, read_page io pid (db_file pg), 1, False))"
    by (auto simp: entry_of_def)
  have ids: "id_of ?p0 ` set xs = id_of pg ` set xs" by (rule image_cong) (use a(2) in \<open>auto simp: id_of_def\<close>)
  have p0a: "pages ?p0 a = Some ?n" by simp
  obtain p1 where p1: "hash_insert a ?p0 = Some p1" "hash_ok p1 (insert a (set xs))" "hash_frame ?p0 p1"
    using hash_insert_ok [OF h0 p0a _ a(2)] pid ids by auto
  have l1: "list_ok p1 xs" using l0 p1(3) by (rule list_ok_hash_frame)
  have "a \<in> dom (pages p1)" using hash_frameD(2) [OF p1(3)] by simp
  then obtain k where k: "pages p1 a = Some k" by auto
  obtain p2 where p2: "list_add_front a p1 = Some p2" "list_ok p2 (a # xs)" "list_frame p1 p2"
    using list_add_front_ok [OF l1 a(2) k] by blast
  have h2: "hash_ok p2 (insert a (set xs))" using p1(2) p2(3) by (rule hash_ok_list_frame)
  have "entry_of p2 = (entry_of pg)(a := (pid, read_page io pid (db_file pg), 1, False))"
    using list_frameD(1) [OF p2(3)] hash_frameD(1) [OF p1(3)] e0 by (simp only:)
  moreover have "dom (pages p2) = dom (pages pg)"
    using list_frameD(2) [OF p2(3)] hash_frameD(2) [OF p1(3)] a(1) by auto
  moreover have "load_page io a pid pg = Some p2" unfolding load_page_def w using p1(1) p2(1) by simp
  ultimately show ?thesis
    using p2(2) h2 list_frameD(3-5) [OF p2(3)] hash_frameD(3-5) [OF p1(3)] by simp
qed

lemma pager_okD:
  assumes "pager_ok pg xs"
  shows "list_ok pg xs" "hash_ok pg (set xs)" "dom (pages pg) = set xs" "pg_capacity pg = int CACHE_CAPACITY"
    "length xs \<le> CACHE_CAPACITY" "lru_size pg = int (length xs)" "distinct xs"
  using assms by (auto simp: pager_ok_def list_ok_def dest: dls_distinct)

lemma evict_walk_find:
  "dls pg_next pg_prev h None xs q \<Longrightarrow>
     evict_walk (last_ptr xs None) h = Some (List.find (\<lambda>a. pin_count (the (h a)) = 0) (rev xs))"
proof (induction xs arbitrary: q rule: rev_induct)
  case (snoc a xs)
  then obtain n where "h a = Some n" "pg_prev n = last_ptr xs None" "dls pg_next pg_prev h None xs (Some a)"
    by (auto simp: dls_append)
  then show ?case using snoc.IH by (subst evict_walk.simps) auto
qed (simp add: evict_walk.simps)

text \<open>Eviction takes the unpinned page closest to the tail.\<close>

lemma pager_evict_ok:
  assumes ok: "pager_ok pg xs"
  shows "take_unpinned (rev (map (entry_of pg) xs)) = None \<Longrightarrow> pager_evict io pg = Some (None, pg)"
    and "take_unpinned (rev (map (entry_of pg) xs)) = Some (e, r) \<Longrightarrow>
      flush_spec io e (db_file pg) (pwrite_count pg) = (e', d, w) \<Longrightarrow>
      \<exists>us a vs pg'. pager_evict io pg = Some (Some a, pg') \<and> xs = us @ a # vs \<and> rev r = map (entry_of pg) (us @ vs) \<and>
        entry_of pg a = e \<and> list_ok pg' (us @ vs) \<and> hash_ok pg' (set (us @ vs)) \<and> dom (pages pg') = set xs \<and>
        entry_of pg' = (entry_of pg)(a := e') \<and> db_file pg' = d \<and> pwrite_count pg' = w \<and>
        pg_capacity pg' = pg_capacity pg"
proof -
  note d = pager_okD [OF ok]
  have walk: "evict_walk (lru_tail pg) (pages pg) = Some (List.find (\<lambda>a. ent_pins (entry_of pg a) = 0) (rev xs))"
    using d(1) evict_walk_find [of "pages pg" xs None] by (simp add: list_ok_def entry_of_def)
  show "pager_evict io pg = Some (None, pg)" if "take_unpinned (rev (map (entry_of pg) xs)) = None"
  proof -
    have "List.find (\<lambda>a. ent_pins (entry_of pg a) = 0) (rev xs) = None"
      using that by (simp add: take_unpinned_None find_None_iff)
    then show ?thesis by (simp add: pager_evict_def walk)
  qed
  assume t: "take_unpinned (rev (map (entry_of pg) xs)) = Some (e, r)"
    and f: "flush_spec io e (db_file pg) (pwrite_count pg) = (e', d, w)"
  obtain ues ves where s: "rev (map (entry_of pg) xs) = ves @ e # ues" "r = ves @ ues" "ent_pins e = 0"
      "\<forall>u\<in>set ves. ent_pins u \<noteq> 0" using take_unpinned_Some [OF t] by blast
  then have "map (entry_of pg) xs = rev ues @ e # rev ves" by (simp add: rev_swap)
  then obtain us a vs where x: "xs = us @ a # vs" "map (entry_of pg) us = rev ues" "entry_of pg a = e"
      "map (entry_of pg) vs = rev ves" by (auto simp: map_eq_append_conv map_eq_Cons_conv)
  have "\<forall>v\<in>set vs. ent_pins (entry_of pg v) \<noteq> 0"
    using s(4) arg_cong [OF x(4), of set] by auto
  then have "List.find (\<lambda>a. ent_pins (entry_of pg a) = 0) (rev vs) = None" by (simp add: find_None_iff)
  then have "List.find (\<lambda>a. ent_pins (entry_of pg a) = 0) (rev xs) = Some a"
    using x(1,3) s(3) by (simp add: find_append)
  note walk = walk [unfolded this]
  obtain n where n: "pages pg a = Some n" using d(3) x(1) by fastforce
  obtain p1 where p1: "pager_flush io a pg = Some p1" "list_ok p1 xs" "hash_ok p1 (set xs)"
      "dom (pages p1) = dom (pages pg)" "entry_of p1 = (entry_of pg)(a := e')" "db_file p1 = d"
      "pwrite_count p1 = w" "pg_capacity p1 = pg_capacity pg"
    using pager_flush_ok [OF d(1,2) n] f x(3) by metis
  obtain p2 where p2: "hash_remove a p1 = Some p2" "hash_ok p2 (set xs - {a})" "hash_frame p1 p2"
    using hash_remove_ok [OF p1(3), of a] x(1) by auto
  have "list_ok p2 (us @ a # vs)" using list_ok_hash_frame [OF p1(2) p2(3)] x(1) by simp
  then obtain p3 where p3: "list_unlink a p2 = Some p3" "list_ok p3 (us @ vs)" "list_frame p2 p3"
    using list_unlink_ok by blast
  have "set xs - {a} = set (us @ vs)" using x(1) d(7) by auto
  then have "hash_ok p3 (set (us @ vs))" using hash_ok_list_frame [OF p2(2) p3(3)] by simp
  moreover have "pager_evict io pg = Some (Some a, p3)"
    using walk p1(1) p2(1) p3(1) by (simp add: pager_evict_def)
  moreover have "rev r = map (entry_of pg) (us @ vs)" using s(2) x(2,4) by simp
  ultimately show "\<exists>us a vs pg'. pager_evict io pg = Some (Some a, pg') \<and> xs = us @ a # vs \<and>
      rev r = map (entry_of pg) (us @ vs) \<and>
      entry_of pg a = e \<and> list_ok pg' (us @ vs) \<and> hash_ok pg' (set (us @ vs)) \<and> dom (pages pg') = set xs \<and>
      entry_of pg' = (entry_of pg)(a := e') \<and> db_file pg' = d \<and> pwrite_count pg' = w \<and>
      pg_capacity pg' = pg_capacity pg"
    using x p3(2) list_frameD [OF p3(3)] hash_frameD [OF p2(3)] p1 d(3)
    by (intro exI [of _ us] exI [of _ a] exI [of _ vs] exI [of _ p3]) simp
qed

lemma fetch_hit:
  assumes ok: "pager_ok pg xs" and a: "a \<in> set xs" "id_of pg a = pid" and pid: "0 \<le> pid"
    and pins: "ent_pins (entry_of pg a) < PIN_MAX"
  shows "\<exists>us vs pg'. pager_fetch alloc io pid pg = Some (Some a, pg') \<and> xs = us @ a # vs \<and>
    pager_ok pg' (a # us @ vs) \<and> entry_of pg' = (entry_of pg)(a := (pid, ent_data (entry_of pg a),
      Suc (ent_pins (entry_of pg a)), ent_dirty (entry_of pg a))) \<and>
    db_file pg' = db_file pg \<and> pwrite_count pg' = pwrite_count pg"
proof -
  note d = pager_okD [OF ok]
  obtain n where n: "pages pg a = Some n" using d(3) a(1) by fastforce
  have find: "hash_find pid pg = Some (Some a)" using hash_find_ok(1) [OF d(2) pid a] .
  let ?n = "pin_count_update Suc n"
  let ?p1 = "pg\<lparr>pages := (pages pg)(a \<mapsto> ?n)\<rparr>"
  have t: "list_ok ?p1 xs" "hash_ok ?p1 (set xs)" using touch_ok [OF d(1,2) n, of ?n] by simp_all
  obtain us vs where x: "xs = us @ a # vs" using a(1) by (meson split_list)
  obtain p2 where p2: "list_move_to_front a ?p1 = Some p2" "list_ok p2 (a # us @ vs)" "list_frame ?p1 p2"
    using list_move_ok [of ?p1 us a vs] t(1) x by blast
  have h2: "hash_ok p2 (set xs)" using t(2) p2(3) by (rule hash_ok_list_frame)
  have "pager_fetch alloc io pid pg = Some (Some a, p2)"
    using find n p2(1) pins by (simp add: pager_fetch_def pin_page_def write_page_def heap_simps entry_of_def)
  moreover have "set xs = set (a # us @ vs)" "length (a # us @ vs) = length xs" using x by auto
  moreover have "dom (pages ?p1) = set xs" using d(3) a(1) by auto
  moreover have "entry_of ?p1 = (entry_of pg)(a := (pid, ent_data (entry_of pg a),
      Suc (ent_pins (entry_of pg a)), ent_dirty (entry_of pg a)))"
    using n a(2) by (auto simp: entry_of_def id_of_def)
  ultimately show ?thesis using x p2(2) h2 list_frameD [OF p2(3)] d(4,5)
    by (intro exI [of _ us] exI [of _ vs] exI [of _ p2]) (simp add: pager_ok_def)
qed

lemma entry_ids: "List.find (\<lambda>e. ent_id e = pid) (map (entry_of pg) xs) =
    map_option (entry_of pg) (List.find (\<lambda>a. id_of pg a = pid) xs)"
  by (induction xs) (auto simp: id_of_entry)

lemma find_distinct_id:
  assumes "hash_ok pg (set xs)" "distinct xs" "a \<in> set xs" "id_of pg a = pid"
  shows "List.find (\<lambda>a. id_of pg a = pid) xs = Some a"
proof -
  obtain c where c: "List.find (\<lambda>a. id_of pg a = pid) xs = Some c"
    using assms(3,4) by (cases "List.find (\<lambda>a. id_of pg a = pid) xs") (auto simp: find_None_iff)
  then have "c \<in> set xs" "id_of pg c = pid" by (auto simp: find_Some_iff)
  then show ?thesis using c assms by (auto simp: hash_ok_def inj_on_def)
qed

text \<open>The pointer to a pinned page stays good: its page is not moved, reloaded or changed.\<close>

definition pinned_stay :: "int \<Rightarrow> Pager \<Rightarrow> Pager \<Rightarrow> bool" where
  "pinned_stay pid pg pg' \<longleftrightarrow> (\<forall>x n. pages pg x = Some n \<longrightarrow> pin_count n \<noteq> 0 \<longrightarrow> page_id n \<noteq> pid \<longrightarrow>
     x \<in> dom (pages pg') \<and> entry_of pg' x = entry_of pg x)"

lemma pinned_stayD:
  assumes "pinned_stay pid pg pg'" "pages pg x = Some n" "pin_count n \<noteq> 0" "page_id n \<noteq> pid"
  obtains n' where "pages pg' x = Some n'" "content n' = content n"
  using assms unfolding pinned_stay_def entry_of_def by fastforce

lemma distinct_pager_abs: "pager_ok pg xs \<Longrightarrow> distinct (map fst (fst (pager_abs pg xs)))"
proof -
  assume ok: "pager_ok pg xs"
  have "inj_on (id_of pg) (set xs)" using pager_okD(2) [OF ok] by (simp add: hash_ok_def)
  moreover have "map fst (fst (pager_abs pg xs)) = map (id_of pg) xs"
    by (simp add: pager_abs_def id_of_entry)
  ultimately show ?thesis using pager_okD(7) [OF ok] by (simp add: distinct_map)
qed

lemma pager_abs_simps [simp]:
  "fst (pager_abs pg xs) = map (entry_of pg) xs" "fst (snd (pager_abs pg xs)) = db_file pg"
  "snd (snd (pager_abs pg xs)) = pwrite_count pg"
  by (simp_all add: pager_abs_def)

lemma map_of_entry:
  assumes "pager_ok pg xs" "pages pg a = Some n"
  shows "map_of (map (entry_of pg) xs) (page_id n) = Some (pg_data n, pin_count n, is_dirty n)"
proof -
  have "a \<in> set xs" using pager_okD(3) [OF assms(1)] assms(2) by blast
  then have "entry_of pg a \<in> set (map (entry_of pg) xs)" by simp
  then show ?thesis using distinct_pager_abs [OF assms(1)] assms(2) by (simp add: entry_of_def)
qed

lemma pins_entry:
  assumes "pager_ok pg xs" "a \<in> set xs" "id_of pg a = pid"
  shows "page_pins (pager_abs pg xs) pid = ent_pins (entry_of pg a)"
proof -
  obtain n where "pages pg a = Some n" using pager_okD(3) [OF assms(1)] assms(2) by fastforce
  then show ?thesis using map_of_entry [OF assms(1)] assms(3) by (auto simp: page_pins_def entry_of_def id_of_def)
qed

text \<open>\<^verbatim>\<open>pager_fetch\<close> is \<open>fetch_spec\<close> on the list of entries.\<close>

lemma pager_fetch_sim:
  assumes ok: "pager_ok pg xs" and pid: "0 \<le> pid" and pins: "page_pins (pager_abs pg xs) pid < PIN_MAX"
    and m: "length xs < CACHE_CAPACITY \<Longrightarrow> malloc_ok (alloc (pages pg)) (pages pg)"
    and s: "fetch_spec io (alloc (pages pg) \<noteq> None) pid (pager_abs pg xs) = (b, c)"
  shows "\<exists>p pg' xs'. pager_fetch alloc io pid pg = Some (p, pg') \<and> pager_ok pg' xs' \<and>
    pager_abs pg' xs' = c \<and> p = (if b then first_ptr xs' None else None) \<and> (b \<longrightarrow> xs' \<noteq> []) \<and> pinned_stay pid pg pg'"
proof (cases "pid \<in> id_of pg ` set xs")
  case True
  note d = pager_okD [OF ok]
  then obtain a where a: "a \<in> set xs" "id_of pg a = pid" using True by auto
  have pa: "ent_pins (entry_of pg a) < PIN_MAX" using pins pins_entry [OF ok a] by simp
  obtain us vs pg' where f: "pager_fetch alloc io pid pg = Some (Some a, pg')" "xs = us @ a # vs"
      "pager_ok pg' (a # us @ vs)" "entry_of pg' = (entry_of pg)(a := (pid, ent_data (entry_of pg a),
        Suc (ent_pins (entry_of pg a)), ent_dirty (entry_of pg a)))"
      "db_file pg' = db_file pg" "pwrite_count pg' = pwrite_count pg"
    using fetch_hit [OF ok a pid pa] by blast
  have nin: "a \<notin> set (us @ vs)" using d(7) f(2) by auto
  have "ent_id (entry_of pg x) \<noteq> pid" if "x \<in> set (us @ vs)" for x
    using that nin a f(2) d(2) by (auto simp: hash_ok_def inj_on_def id_of_entry)
  then have flt: "filter (\<lambda>e. ent_id e \<noteq> pid) (map (entry_of pg) xs) = map (entry_of pg) (us @ vs)"
    using f(2) a(2) by (auto simp: filter_map o_def id_of_entry)
  have "b" "c = pager_abs pg' (a # us @ vs)"
    using s flt f(4-6) nin find_distinct_id [OF d(2,7) a]
    by (auto simp: fetch_spec_def pager_abs_def entry_ids split: prod.splits)
  moreover have "x \<in> dom (pages pg')" if "pages pg x = Some n" for x n
    using pager_okD(3) [OF f(3)] d(3) f(2) that by auto
  then have "pinned_stay pid pg pg'" using f(4) a(2) by (auto simp: pinned_stay_def id_of_def)
  ultimately show ?thesis using f(1,3) by (intro exI [of _ "Some a"] exI [of _ pg'] exI [of _ "a # us @ vs"]) simp
next
  case False
  note d = pager_okD [OF ok]
  have miss: "hash_find pid pg = Some None" using hash_find_ok(2) [OF d(2) pid False] .
  have nf: "List.find (\<lambda>e. ent_id e = pid) (map (entry_of pg) xs) = None"
    unfolding entry_ids using False by (auto simp: find_None_iff)
  have full: "pg_capacity pg \<le> lru_size pg \<longleftrightarrow> CACHE_CAPACITY \<le> length xs" using d(4,6) by simp
  show ?thesis
  proof (cases "CACHE_CAPACITY \<le> length xs")
    case True
    show ?thesis
    proof (cases "take_unpinned (rev (map (entry_of pg) xs))")
      case None
      then have "\<not> b" "c = pager_abs pg xs"
        using s nf True by (auto simp: fetch_spec_def pager_abs_def)
      moreover have "pager_fetch alloc io pid pg = Some (None, pg)"
        using miss full True pager_evict_ok(1) [OF ok None] by (simp add: pager_fetch_def)
      ultimately show ?thesis using ok by (auto simp: pinned_stay_def)
    next
      case (Some er)
      obtain e r where er: "er = (e, r)" by (cases er)
      obtain e' dk w where fl: "flush_spec io e (db_file pg) (pwrite_count pg) = (e', dk, w)"
        by (cases "flush_spec io e (db_file pg) (pwrite_count pg)")
      obtain us a vs p1 where ev: "pager_evict io pg = Some (Some a, p1)" "xs = us @ a # vs"
          "rev r = map (entry_of pg) (us @ vs)" "entry_of pg a = e" "list_ok p1 (us @ vs)"
          "hash_ok p1 (set (us @ vs))" "dom (pages p1) = set xs" "entry_of p1 = (entry_of pg)(a := e')"
          "db_file p1 = dk" "pwrite_count p1 = w" "pg_capacity p1 = pg_capacity pg"
        using pager_evict_ok(2) [OF ok Some [unfolded er] fl] by blast
      have nin: "a \<notin> set (us @ vs)" using d(7) ev(2) by auto
      obtain k where k: "pages p1 a = Some k" using ev(2,7) by fastforce
      have "pid \<notin> id_of p1 ` set (us @ vs)"
        using False nin ev(2) unfolding id_of_entry ev(8) by auto
      then obtain p2 where p2: "load_page io a pid p1 = Some p2" "list_ok p2 (a # us @ vs)"
          "hash_ok p2 (insert a (set (us @ vs)))" "dom (pages p2) = dom (pages p1)"
          "entry_of p2 = (entry_of p1)(a := (pid, read_page io pid (db_file p1), 1, False))" "db_file p2 = db_file p1"
          "pwrite_count p2 = pwrite_count p1" "pg_capacity p2 = pg_capacity p1"
        using load_page_ok [OF ev(5,6) k nin pid] by blast
      have "pager_fetch alloc io pid pg = Some (Some a, p2)"
        using miss full True ev(1) p2(1) by (simp add: pager_fetch_def)
      moreover have "pager_ok p2 (a # us @ vs)"
        using p2 ev(2,7,11) d(4,5) by (auto simp: pager_ok_def)
      moreover have "b" "c = pager_abs p2 (a # us @ vs)"
        using s nf True Some er fl p2(5-7) ev(3,8-10) nin
        by (auto simp: fetch_spec_def pager_abs_def)
      moreover have "pinned_stay pid pg p2"
      proof -
        have "ent_pins e = 0" using take_unpinned_Some [OF Some [unfolded er]] by blast
        moreover have "x \<in> dom (pages p2)" if "pages pg x = Some n" for x n
          unfolding p2(4) ev(7) d(3) [symmetric] using that by blast
        ultimately show ?thesis using p2(5) ev(4,8) by (auto simp: pinned_stay_def entry_of_def)
      qed
      ultimately show ?thesis by (intro exI [of _ "Some a"] exI [of _ p2] exI [of _ "a # us @ vs"]) simp
    qed
  next
    case room: False
    show ?thesis
    proof (cases "alloc (pages pg)")
      case None
      then have "\<not> b" "c = pager_abs pg xs"
        using s nf room by (auto simp: fetch_spec_def pager_abs_def)
      moreover have "pager_fetch alloc io pid pg = Some (None, pg)"
        using miss full room None by (simp add: pager_fetch_def)
      ultimately show ?thesis using ok by (auto simp: pinned_stay_def)
    next
      case (Some aj)
      obtain a junk where aj: "aj = (a, junk)" by (cases aj)
      have fresh: "pages pg a = None" using m room Some aj by (simp add: malloc_ok_def)
      then have nin: "a \<notin> set xs" using d(3) by auto
      let ?p1 = "pg\<lparr>pages := (pages pg)(a \<mapsto> junk)\<rparr>"
      have l1: "list_ok ?p1 xs" using d(1) nin by (simp add: list_ok_def)
      have h1: "hash_ok ?p1 (set xs)" using d(2) nin by (rule hash_ok_notin)
      have e1: "entry_of ?p1 x = entry_of pg x" if "x \<noteq> a" for x using that by (simp add: entry_of_def)
      have "id_of ?p1 ` set xs = id_of pg ` set xs" by (rule image_cong) (use nin in \<open>auto simp: id_of_def\<close>)
      then obtain p2 where p2: "load_page io a pid ?p1 = Some p2" "list_ok p2 (a # xs)"
          "hash_ok p2 (insert a (set xs))" "dom (pages p2) = dom (pages ?p1)"
          "entry_of p2 = (entry_of ?p1)(a := (pid, read_page io pid (db_file ?p1), 1, False))" "db_file p2 = db_file ?p1"
          "pwrite_count p2 = pwrite_count ?p1" "pg_capacity p2 = pg_capacity ?p1"
        using load_page_ok [OF l1 h1 _ nin pid(1), of junk io] False by auto
      have "pager_fetch alloc io pid pg = Some (Some a, p2)"
        using miss full room Some aj p2(1) by (simp add: pager_fetch_def)
      moreover have "pager_ok p2 (a # xs)" using p2 d(3,4) room by (auto simp: pager_ok_def)
      moreover have "map (entry_of p2) xs = map (entry_of pg) xs"
        using nin unfolding p2(5) by (auto intro: e1)
      then have "b" "c = pager_abs p2 (a # xs)"
        using s nf room Some p2(5-7) by (auto simp: fetch_spec_def pager_abs_def)
      moreover have "pinned_stay pid pg p2"
        unfolding pinned_stay_def
      proof (intro allI impI conjI)
        fix x n assume x: "pages pg x = Some n"
        then have "x \<noteq> a" using fresh by auto
        then show "entry_of p2 x = entry_of pg x" unfolding p2(5) by (simp add: e1)
        show "x \<in> dom (pages p2)" unfolding p2(4) using x by auto
      qed
      ultimately show ?thesis by (intro exI [of _ "Some a"] exI [of _ p2] exI [of _ "a # xs"]) simp
    qed
  qed
qed

subsection \<open>What the users of the cache see\<close>

text \<open>
  A user of page \<open>i\<close> sees the cached data when the page is cached and the file otherwise. A clean cache
  holds what the file holds.
\<close>

definition page_view :: "cache \<Rightarrow> int \<Rightarrow> page_data" where
  "page_view c i = (case map_of (fst c) i of Some (dt, _) \<Rightarrow> dt | None \<Rightarrow> fst (snd c) i)"

definition clean_ok :: "cache \<Rightarrow> bool" where
  "clean_ok c \<longleftrightarrow> distinct (map fst (fst c)) \<and> (\<forall>e\<in>set (fst c). \<not> ent_dirty e \<longrightarrow> ent_data e = fst (snd c) (ent_id e))"

text \<open>The same for a cache in which the pages of \<open>S\<close> are being written.\<close>

definition clean_but :: "int set \<Rightarrow> cache \<Rightarrow> bool" where
  "clean_but S c \<longleftrightarrow> distinct (map fst (fst c)) \<and>
     (\<forall>e\<in>set (fst c). ent_id e \<notin> S \<longrightarrow> \<not> ent_dirty e \<longrightarrow> ent_data e = fst (snd c) (ent_id e))"

lemma clean_but_empty: "clean_but {} c = clean_ok c"
  by (simp add: clean_but_def clean_ok_def)

definition io_ok :: "file_io \<Rightarrow> bool" where
  "io_ok io \<longleftrightarrow> (\<forall>i dt d. io_write io i dt d = (True, d(i := dt))) \<and> (\<forall>i d. length (d i) \<le> io_read io i d)"

lemma read_page_ok: "io_ok io \<Longrightarrow> read_page io i d = d i"
  by (simp add: io_ok_def read_page_def Let_def)

definition pinned :: "entry list \<Rightarrow> nat" where
  "pinned es = length (filter (\<lambda>e. ent_pins e \<noteq> 0) es)"

lemma find_map_of: "List.find (\<lambda>e. fst e = i) es = map_option (Pair i) (map_of es i)"
  by (induction es) auto

lemma map_of_middle:
  "distinct (map fst (us @ (i, v) # vs)) \<Longrightarrow> map_of (us @ (i, v) # vs) = (map_of (us @ vs))(i \<mapsto> v)"
  "distinct (map fst (us @ (i, v) # vs)) \<Longrightarrow> map_of (us @ vs) i = None"
proof -
  assume d: "distinct (map fst (us @ (i, v) # vs))"
  then have "map_of us i = None" by (auto simp: map_of_eq_None_iff)
  then show "map_of (us @ (i, v) # vs) = (map_of (us @ vs))(i \<mapsto> v)"
    by (auto simp: fun_eq_iff map_add_def split: option.split)
  show "map_of (us @ vs) i = None" using d by (auto simp: map_of_eq_None_iff)
qed

text \<open>The four ways \<open>fetch_spec\<close> goes.\<close>

lemma fetch_spec_cases:
  assumes f: "fetch_spec io mem pid (es, d, w) = (b, c)" and dist: "distinct (map fst es)"
  obtains (hit) us v vs where "es = us @ (pid, v) # vs" "b"
      "c = ((pid, fst v, Suc (fst (snd v)), snd (snd v)) # us @ vs, d, w)"
  | (evict) us e vs e' d' w' where "es = us @ e # vs" "ent_pins e = 0" "b" "pid \<notin> fst ` set es"
      "flush_spec io e d w = (e', d', w')" "c = ((pid, read_page io pid d', 1, False) # us @ vs, d', w')"
      "CACHE_CAPACITY \<le> length es" "\<forall>v\<in>set vs. ent_pins v \<noteq> 0"
  | (room) "b" "mem" "pid \<notin> fst ` set es" "length es < CACHE_CAPACITY" "c = ((pid, read_page io pid d, 1, False) # es, d, w)"
  | (fail) "\<not> b" "c = (es, d, w)" "pid \<notin> fst ` set es"
      "CACHE_CAPACITY \<le> length es \<and> (\<forall>e\<in>set es. ent_pins e \<noteq> 0) \<or> length es < CACHE_CAPACITY \<and> \<not> mem"
proof (cases "map_of es pid")
  case (Some v)
  then obtain us vs where s: "es = us @ (pid, v) # vs" by (metis map_of_SomeD split_list)
  have "filter (\<lambda>e. fst e \<noteq> pid) es = us @ vs"
  proof -
    have "filter (\<lambda>e. fst e \<noteq> pid) us = us" "filter (\<lambda>e. fst e \<noteq> pid) vs = vs"
      using dist unfolding s by (auto intro!: filter_True)
    then show ?thesis by (simp add: s)
  qed
  then show ?thesis using hit [of us v vs] s f Some by (simp add: fetch_spec_def find_map_of)
next
  case None
  then have nin: "pid \<notin> fst ` set es" by (simp add: map_of_eq_None_iff)
  show ?thesis
  proof (cases "CACHE_CAPACITY \<le> length es")
    case full: True
    show ?thesis
    proof (cases "take_unpinned (rev es)")
      case tn: None
      have "\<not> b" "c = (es, d, w)" using f full None tn by (auto simp: fetch_spec_def find_map_of)
      then show ?thesis using fail nin full tn by (simp add: take_unpinned_None)
    next
      case (Some er)
      obtain e r where er: "er = (e, r)" by (cases er)
      obtain ps qs where pq: "rev es = ps @ e # qs" "r = ps @ qs" "ent_pins e = 0" "\<forall>u\<in>set ps. ent_pins u \<noteq> 0"
        using take_unpinned_Some Some er by blast
      obtain e' d' w' where fl: "flush_spec io e d w = (e', d', w')" by (cases "flush_spec io e d w")
      have "es = rev qs @ e # rev ps" using pq(1) by (simp add: rev_swap)
      moreover have "b" "c = ((pid, read_page io pid d', 1, False) # rev qs @ rev ps, d', w')"
        using f full None Some er fl pq(2) by (auto simp: fetch_spec_def find_map_of)
      ultimately show ?thesis
        using evict [of "rev qs" e "rev ps" e' d' w'] pq(3,4) fl full nin by simp
    qed
  next
    case False
    then show ?thesis using room fail f nin None
      by (cases mem) (auto simp: fetch_spec_def find_map_of)
  qed
qed

lemma fetch_spec_fail:
  "fetch_spec io mem pid (es, d, w) = (False, c) \<Longrightarrow> CACHE_CAPACITY \<le> length es \<Longrightarrow>
     \<forall>e\<in>set es. ent_pins e \<noteq> 0"
  using take_unpinned_None [of "rev es"]
  by (auto simp: fetch_spec_def split: option.splits prod.splits)

text \<open>
  Fetching a page changes nothing that a user of any page sees; the page itself gets one more pin and
  comes to the front, and no pinned page leaves the cache.
\<close>

lemma fetch_spec_view:
  assumes f: "fetch_spec io mem pid c = (b, c')" and ok: "clean_ok c" and w: "io_ok io"
  shows "clean_ok c'" "page_view c' = page_view c"
    "page_pins c' = (if b then (page_pins c)(pid := Suc (page_pins c pid)) else page_pins c)"
    "b \<Longrightarrow> \<exists>k dr es. fst c' = (pid, page_view c pid, k, dr) # es"
    "pinned (fst c') \<le> Suc (pinned (fst c))"
    "\<not> b \<Longrightarrow> c' = c \<and> (\<not> mem \<or> pinned (fst c) = length (fst c) \<and> CACHE_CAPACITY \<le> length (fst c))"
proof -
  obtain es d n where c: "c = (es, d, n)" by (cases c)
  have dist: "distinct (map fst es)" using ok c by (simp add: clean_ok_def)
  note defs = c page_view_def page_pins_def clean_ok_def pinned_def
  note read = read_page_ok [OF w]
  have "clean_ok c' \<and> page_view c' = page_view c \<and>
    page_pins c' = (if b then (page_pins c)(pid := Suc (page_pins c pid)) else page_pins c) \<and>
    (b \<longrightarrow> (\<exists>k dr es. fst c' = (pid, page_view c pid, k, dr) # es)) \<and>
    pinned (fst c') \<le> Suc (pinned (fst c)) \<and>
    (\<not> b \<longrightarrow> c' = c \<and> (\<not> mem \<or> pinned (fst c) = length (fst c) \<and> CACHE_CAPACITY \<le> length (fst c)))"
    using f [unfolded c] dist
  proof (cases rule: fetch_spec_cases)
    case (hit us v vs)
    obtain dt k dr where v: "v = (dt, k, dr)" by (cases v)
    have m: "map_of es = (map_of (us @ vs))(pid \<mapsto> v)" "map_of (us @ vs) pid = None"
      using map_of_middle [of us pid v vs] dist hit(1) by simp_all
    have "page_view c' = page_view c"
      by (rule ext) (simp add: page_view_def c m hit(3) v del: map_of_append split: option.split)
    moreover have "page_pins c' = (page_pins c)(pid := Suc (page_pins c pid))"
      by (rule ext) (simp add: page_pins_def c m hit(3) v del: map_of_append)
    moreover have "page_view c pid = dt" by (simp add: page_view_def c m v)
    moreover have "clean_ok c'" using ok dist unfolding hit(1,3) by (auto simp: defs hit(1) v)
    moreover have "pinned (fst c') \<le> Suc (pinned (fst c))" by (simp add: defs hit(1,3) v)
    ultimately show ?thesis using hit(2,3) v by simp
  next
    case (evict us e vs e' d' w')
    obtain i dt k dr where e: "e = (i, dt, k, dr)" by (cases e)
    have i: "i \<noteq> pid" using evict(1,4) e by auto
    have nin: "i \<notin> fst ` set (us @ vs)" using dist evict(1) e by auto
    have d': "d' = (if dr then d(i := dt) else d)"
      using evict(5) w e by (auto simp: flush_spec_def io_ok_def split: if_splits)
    have m: "map_of es = (map_of (us @ vs))(i \<mapsto> (dt, k, dr))" "map_of (us @ vs) i = None"
      using map_of_middle [of us i "(dt, k, dr)" vs] dist evict(1) e by simp_all
    have "map_of es pid = None" using evict(4) by (simp add: map_of_eq_None_iff)
    then have mp: "map_of (us @ vs) pid = None" using m(1) i by (simp split: if_splits)
    have di: "d' i = dt" using ok evict(1) e d' c by (auto simp: clean_ok_def)
    have dj: "d' j = d j" if "j \<noteq> i" for j using that d' by simp
    have "page_view c' = page_view c"
      by (rule ext) (use mp m(2) di dj i in
          \<open>auto simp: page_view_def c m(1) evict(6) read simp del: map_of_append split: option.split\<close>)
    moreover have "page_pins c' = (page_pins c)(pid := Suc (page_pins c pid))"
      by (rule ext) (use evict(2) m(2) mp i in
          \<open>auto simp: page_pins_def c m(1) evict(6) read e simp del: map_of_append split: option.split\<close>)
    moreover have "page_view c pid = d' pid"
      using \<open>map_of es pid = None\<close> dj i by (simp add: page_view_def c)
    moreover have "clean_ok c'"
    proof -
      have "distinct (map fst (us @ vs))" using dist evict(1) by auto
      moreover have "ent_data x = d' (ent_id x)" if "x \<in> set (us @ vs)" "\<not> ent_dirty x" for x
      proof -
        have "ent_data x = d (ent_id x)" using ok that evict(1) c by (auto simp: clean_ok_def)
        moreover have "ent_id x \<noteq> i" using nin that by (metis image_eqI)
        ultimately show ?thesis using dj by simp
      qed
      ultimately show ?thesis unfolding evict(6) read using evict(4) by (auto simp: clean_ok_def evict(1))
    qed
    moreover have "pinned (fst c') \<le> Suc (pinned (fst c))" by (simp add: defs evict(1,6) read)
    ultimately show ?thesis using evict(3,6) read by (simp, blast)
  next
    case room
    have m: "map_of es pid = None" using room(3) by (simp add: map_of_eq_None_iff)
    have "page_view c' = page_view c" "page_view c pid = d pid"
      using m by (auto simp: defs room(5) read fun_eq_iff split: option.split)
    moreover have "page_pins c' = (page_pins c)(pid := Suc (page_pins c pid))"
      using m by (auto simp: defs room(5) read fun_eq_iff split: option.split)
    moreover have "clean_ok c'" using ok room(3) by (auto simp: defs room(5) read)
    moreover have "pinned (fst c') \<le> Suc (pinned (fst c))" by (simp add: defs room(5) read)
    ultimately show ?thesis using room(1,5) read by (simp, blast)
  next
    case fail
    have "pinned es = length es" if "\<forall>e\<in>set es. ent_pins e \<noteq> 0"
      using that by (auto simp: pinned_def intro!: arg_cong [of _ _ length] filter_True)
    then show ?thesis using fail ok c by auto
  qed
  then show "clean_ok c'" "page_view c' = page_view c"
    "page_pins c' = (if b then (page_pins c)(pid := Suc (page_pins c pid)) else page_pins c)"
    "b \<Longrightarrow> \<exists>k dr es. fst c' = (pid, page_view c pid, k, dr) # es"
    "pinned (fst c') \<le> Suc (pinned (fst c))"
    "\<not> b \<Longrightarrow> c' = c \<and> (\<not> mem \<or> pinned (fst c) = length (fst c) \<and> CACHE_CAPACITY \<le> length (fst c))"
    by simp_all
qed

lemma view_entry:
  assumes "pager_ok pg xs" "pages pg a = Some n"
  shows "page_view (pager_abs pg xs) (page_id n) = pg_data n" "page_pins (pager_abs pg xs) (page_id n) = pin_count n"
  using map_of_entry [OF assms] by (simp_all add: page_view_def page_pins_def)

text \<open>The facts about one call of \<^verbatim>\<open>pager_fetch\<close> on the heap.\<close>

lemma fetch_view:
  assumes ok: "pager_ok pg xs" and clean: "clean_ok (pager_abs pg xs)" and w: "io_ok io" and pid: "0 \<le> pid"
    and pins: "page_pins (pager_abs pg xs) pid < PIN_MAX"
    and m: "length xs < CACHE_CAPACITY \<Longrightarrow> malloc_ok (alloc (pages pg)) (pages pg)"
  shows "\<exists>p pg' xs'. pager_fetch alloc io pid pg = Some (p, pg') \<and> pager_ok pg' xs' \<and> clean_ok (pager_abs pg' xs') \<and>
    pinned_stay pid pg pg' \<and> page_view (pager_abs pg' xs') = page_view (pager_abs pg xs) \<and>
    (case p of
       None \<Rightarrow> page_pins (pager_abs pg' xs') = page_pins (pager_abs pg xs) \<and>
         (alloc (pages pg) = None \<and> length xs < CACHE_CAPACITY \<or>
          length xs = CACHE_CAPACITY \<and> (\<forall>a\<in>set xs. \<exists>n. pages pg a = Some n \<and> pin_count n \<noteq> 0))
     | Some a \<Rightarrow> xs' \<noteq> [] \<and> hd xs' = a \<and>
         page_pins (pager_abs pg' xs') = (page_pins (pager_abs pg xs))(pid := Suc (page_pins (pager_abs pg xs) pid)) \<and>
         (\<exists>n. pages pg' a = Some n \<and> page_id n = pid \<and> pg_data n = page_view (pager_abs pg xs) pid))"
proof -
  obtain b c where f: "fetch_spec io (alloc (pages pg) \<noteq> None) pid (pager_abs pg xs) = (b, c)"
    by (cases "fetch_spec io (alloc (pages pg) \<noteq> None) pid (pager_abs pg xs)")
  obtain p pg' xs' where r: "pager_fetch alloc io pid pg = Some (p, pg')" "pager_ok pg' xs'"
      "pager_abs pg' xs' = c" "p = (if b then first_ptr xs' None else None)" "b \<longrightarrow> xs' \<noteq> []" "pinned_stay pid pg pg'"
    using pager_fetch_sim [where alloc = alloc, OF ok pid pins m f] by blast
  note v = fetch_spec_view [OF f clean w]
  have "case p of
       None \<Rightarrow> page_pins c = page_pins (pager_abs pg xs) \<and>
         (alloc (pages pg) = None \<and> length xs < CACHE_CAPACITY \<or>
          length xs = CACHE_CAPACITY \<and> (\<forall>a\<in>set xs. \<exists>n. pages pg a = Some n \<and> pin_count n \<noteq> 0))
     | Some a \<Rightarrow> xs' \<noteq> [] \<and> hd xs' = a \<and>
         page_pins c = (page_pins (pager_abs pg xs))(pid := Suc (page_pins (pager_abs pg xs) pid)) \<and>
         (\<exists>n. pages pg' a = Some n \<and> page_id n = pid \<and> pg_data n = page_view (pager_abs pg xs) pid)"
  proof (cases b)
    case True
    then obtain a ys where x: "xs' = a # ys" "p = Some a" using r(4,5) by (cases xs') auto
    obtain k dr es where "fst c = (pid, page_view (pager_abs pg xs) pid, k, dr) # es" using v(4) True by blast
    then have e: "entry_of pg' a = (pid, page_view (pager_abs pg xs) pid, k, dr)"
      using arg_cong [OF r(3), of fst] x(1) by simp
    obtain n where "pages pg' a = Some n" using pager_okD(3) [OF r(2)] x(1) by fastforce
    then show ?thesis using e x v(3) True by (simp add: entry_of_def)
  next
    case False
    have "c = pager_abs pg xs" using v(6) False by simp
    moreover have "length xs = CACHE_CAPACITY \<and> (\<forall>a\<in>set xs. \<exists>n. pages pg a = Some n \<and> pin_count n \<noteq> 0)"
      if full: "CACHE_CAPACITY \<le> length xs"
    proof -
      have "\<exists>n. pages pg a = Some n \<and> pin_count n \<noteq> 0" if a: "a \<in> set xs" for a
      proof -
        obtain n where n: "pages pg a = Some n" using pager_okD(3) [OF ok] a by fastforce
        have "\<forall>e\<in>set (map (entry_of pg) xs). ent_pins e \<noteq> 0"
          by (rule fetch_spec_fail) (use f full False in \<open>simp_all add: pager_abs_def\<close>)
        then show ?thesis using a n by (auto simp: entry_of_def)
      qed
      then show ?thesis using full pager_okD(5) [OF ok] by simp
    qed
    moreover have "alloc (pages pg) = None" if "length xs < CACHE_CAPACITY"
      using v(6) False that by (cases "alloc (pages pg)") auto
    ultimately show ?thesis using False r(4) by (cases "CACHE_CAPACITY \<le> length xs") simp_all
  qed
  then show ?thesis using r(1,2,6) v(1,2) unfolding r(3) [symmetric]
    by (intro exI [of _ p] exI [of _ pg'] exI [of _ xs'] conjI) assumption+
qed

text \<open>Changing the contents of one cached page.\<close>

lemma content_update:
  assumes ok: "pager_ok pg xs" and a: "pages pg a = Some n"
    and m: "page_id m = page_id n" "pg_next m = pg_next n" "pg_prev m = pg_prev n" "hash_next m = hash_next n"
  defines "pg' \<equiv> pg\<lparr>pages := (pages pg)(a \<mapsto> m)\<rparr>"
  shows "pager_ok pg' xs"
    "page_view (pager_abs pg' xs) = (page_view (pager_abs pg xs))(page_id n := pg_data m)"
    "page_pins (pager_abs pg' xs) = (page_pins (pager_abs pg xs))(page_id n := pin_count m)"
    "clean_but S (pager_abs pg xs) \<Longrightarrow> S \<subseteq> insert (page_id n) T \<Longrightarrow>
       page_id n \<in> T \<or> is_dirty m \<or> page_id n \<notin> S \<and> \<not> is_dirty n \<and> pg_data m = pg_data n \<Longrightarrow>
       clean_but T (pager_abs pg' xs)"
proof -
  note d = pager_okD [OF ok]
  have ax: "a \<in> set xs" using d(3) a by blast
  have dom: "dom (pages pg') = set xs" using d(3) ax by (auto simp: pg'_def)
  show ok': "pager_ok pg' xs"
    using touch_ok [OF d(1,2) a m] d(4,5) dom by (simp add: pager_ok_def pg'_def)
  obtain us vs where x: "xs = us @ a # vs" using ax by (meson split_list)
  then have nin: "a \<notin> set (us @ vs)" using d(7) by auto
  have e: "entry_of pg' x = (if x = a then content m else entry_of pg x)" for x
    by (simp add: entry_of_def pg'_def)
  have es: "map (entry_of pg) xs = map (entry_of pg) us @ (page_id n, pg_data n, pin_count n, is_dirty n) # map (entry_of pg) vs"
    using a x by (simp add: entry_of_def)
  have "map (entry_of pg') us = map (entry_of pg) us" "map (entry_of pg') vs = map (entry_of pg) vs"
    using nin by (auto simp: e)
  then have es': "map (entry_of pg') xs = map (entry_of pg) us @ (page_id n, pg_data m, pin_count m, is_dirty m) # map (entry_of pg) vs"
    using x m(1) by (simp add: e)
  have dist: "distinct (map fst (map (entry_of pg) xs))" using distinct_pager_abs [OF ok] by simp
  have dist': "distinct (map fst (map (entry_of pg') xs))" using distinct_pager_abs [OF ok'] by simp
  note mo = map_of_middle(1) [OF dist [unfolded es]] map_of_middle(1) [OF dist' [unfolded es']]
  have db: "db_file pg' = db_file pg" by (simp add: pg'_def)
  show "page_view (pager_abs pg' xs) = (page_view (pager_abs pg xs))(page_id n := pg_data m)"
    by (rule ext) (simp add: page_view_def es es' mo db del: map_of_append split: option.split)
  show "page_pins (pager_abs pg' xs) = (page_pins (pager_abs pg xs))(page_id n := pin_count m)"
    by (rule ext) (simp add: page_pins_def es es' mo db del: map_of_append split: option.split)
  show "clean_but T (pager_abs pg' xs)"
    if "clean_but S (pager_abs pg xs)" "S \<subseteq> insert (page_id n) T"
      "page_id n \<in> T \<or> is_dirty m \<or> page_id n \<notin> S \<and> \<not> is_dirty n \<and> pg_data m = pg_data n"
    unfolding clean_but_def
  proof (intro conjI ballI impI)
    show "distinct (map fst (fst (pager_abs pg' xs)))" using dist' by simp
    fix e assume "e \<in> set (fst (pager_abs pg' xs))" and e: "ent_id e \<notin> T" "\<not> ent_dirty e"
    then consider "e = (page_id n, pg_data m, pin_count m, is_dirty m)"
      | "e \<in> set (map (entry_of pg) us @ map (entry_of pg) vs)" unfolding pager_abs_simps es' by auto
    then show "ent_data e = fst (snd (pager_abs pg' xs)) (ent_id e)"
    proof cases
      case 1
      have "(page_id n, pg_data n, pin_count n, is_dirty n) \<in> set (map (entry_of pg) xs)" unfolding es by simp
      then have "pg_data n = db_file pg (page_id n)" if "page_id n \<notin> S" "\<not> is_dirty n"
        using \<open>clean_but S (pager_abs pg xs)\<close> that unfolding clean_but_def pager_abs_simps by fastforce
      then show ?thesis using e that(3) by (simp add: 1 db)
    next
      case 2
      have "ent_id e \<noteq> page_id n" using 2 dist unfolding es by (auto simp: image_iff)
      moreover have "e \<in> set (fst (pager_abs pg xs))" using 2 unfolding pager_abs_simps es by auto
      ultimately show ?thesis using \<open>clean_but S (pager_abs pg xs)\<close> e that(2) by (auto simp: clean_but_def db)
    qed
  qed
qed

text \<open>
  A page goes back to the cache: its pin goes away, and with \<open>dirty\<close> the cache knows that it was written.
\<close>

lemma pager_unpin_ok:
  assumes ok: "pager_ok pg xs" and clean: "clean_but S (pager_abs pg xs)" and a: "pages pg a = Some n"
  shows "\<exists>pg'. pager_unpin (Some a) dirty pg = Some pg' \<and> pager_ok pg' xs \<and>
    clean_but (if dirty then S - {page_id n} else S) (pager_abs pg' xs) \<and>
    page_view (pager_abs pg' xs) = page_view (pager_abs pg xs) \<and>
    page_pins (pager_abs pg' xs) = (page_pins (pager_abs pg xs))(page_id n := pin_count n - 1) \<and>
    (\<forall>b. b \<noteq> a \<longrightarrow> pages pg' b = pages pg b)"
proof -
  let ?m = "n\<lparr>is_dirty := is_dirty n \<or> dirty, pin_count := pin_count n - 1\<rparr>"
  let ?pg = "pg\<lparr>pages := (pages pg)(a \<mapsto> ?m)\<rparr>"
  note u = content_update [OF ok a, of ?m, simplified]
  have "pager_unpin (Some a) dirty pg = Some ?pg"
    using a by (simp add: pager_unpin_def write_page_def heap_simps)
  moreover have "page_view (pager_abs ?pg xs) = page_view (pager_abs pg xs)"
    using u(2) view_entry(1) [OF ok a] by auto
  moreover have "clean_but (if dirty then S - {page_id n} else S) (pager_abs ?pg xs)"
    by (rule content_update(4) [OF ok a _ _ _ _ clean, of ?m]) auto
  ultimately show ?thesis using u(1,3) by (intro exI [of _ ?pg]) simp
qed

text \<open>Writing into a page that is in use: until it is unpinned the cache may not know that it is dirty.\<close>

lemma set_data_ok:
  assumes ok: "pager_ok pg xs" and clean: "clean_but S (pager_abs pg xs)" and a: "pages pg a = Some n"
  shows "\<exists>pg'. set_data a f pg = Some pg' \<and> pager_ok pg' xs \<and>
    clean_but (insert (page_id n) S) (pager_abs pg' xs) \<and>
    page_view (pager_abs pg' xs) = (page_view (pager_abs pg xs))(page_id n := f (pg_data n)) \<and>
    page_pins (pager_abs pg' xs) = page_pins (pager_abs pg xs) \<and>
    pages pg' = (pages pg)(a \<mapsto> pg_data_update f n)"
proof -
  let ?m = "pg_data_update f n"
  let ?pg = "pg\<lparr>pages := (pages pg)(a \<mapsto> ?m)\<rparr>"
  note u = content_update [OF ok a, of ?m, simplified]
  have "set_data a f pg = Some ?pg" using a by (simp add: set_data_def write_page_def heap_simps)
  moreover have "page_pins (pager_abs ?pg xs) = page_pins (pager_abs pg xs)"
    using u(3) view_entry(2) [OF ok a] by auto
  moreover have "clean_but (insert (page_id n) S) (pager_abs ?pg xs)" by (rule content_update(4) [OF ok a _ _ _ _ clean, of ?m]) auto
  ultimately show ?thesis using u(1,2) by (intro exI [of _ ?pg]) simp
qed

text \<open>With a free slot a fetch succeeds.\<close>

lemma pinned_card: "distinct (map fst (fst c)) \<Longrightarrow> pinned (fst c) = card {i. page_pins c i \<noteq> 0}"
proof -
  assume d: "distinct (map fst (fst c))"
  let ?es = "filter (\<lambda>e. ent_pins e \<noteq> 0) (fst c)"
  have "{i. page_pins c i \<noteq> 0} = fst ` set ?es"
  proof (rule set_eqI)
    fix i
    show "i \<in> {i. page_pins c i \<noteq> 0} \<longleftrightarrow> i \<in> fst ` set ?es"
    proof (cases "map_of (fst c) i")
      case None
      then have "i \<notin> fst ` set (fst c)" by (simp add: map_of_eq_None_iff)
      then show ?thesis using None by (auto simp: page_pins_def)
    next
      case (Some v)
      then have iv: "(i, v) \<in> set (fst c)" by (rule map_of_SomeD)
      have "page_pins c i = fst (snd v)" by (cases v) (simp add: page_pins_def Some)
      moreover have "fst (snd v) \<noteq> 0" if mem: "i \<in> fst ` set ?es"
      proof -
        obtain e where "e \<in> set ?es" and i: "i = ent_id e" using mem by blast
        then have e: "e \<in> set (fst c)" "ent_pins e \<noteq> 0" by simp_all
        have "(i, snd e) \<in> set (fst c)" using e(1) i by simp
        then have "snd e = v" using map_of_is_SomeI [OF d, of i "snd e"] Some by simp
        then show ?thesis using e(2) by simp
      qed
      moreover have "i \<in> fst ` set ?es" if "fst (snd v) \<noteq> 0"
        using iv that by (intro rev_image_eqI [of "(i, v)"]) simp_all
      ultimately show ?thesis by auto
    qed
  qed
  moreover have "distinct (map fst ?es)" using d by (simp add: distinct_map_filter)
  ultimately show ?thesis
    using distinct_card [of "map fst ?es"] by (simp add: pinned_def)
qed

lemma card_pins_Suc:
  assumes "finite {i. f i \<noteq> (0::nat)}"
  shows "card {i. (f(j := Suc k)) i \<noteq> 0} \<le> Suc (card {i. f i \<noteq> 0})"
proof -
  have "{i. (f(j := Suc k)) i \<noteq> 0} \<subseteq> insert j {i. f i \<noteq> 0}" by auto
  then have "card {i. (f(j := Suc k)) i \<noteq> 0} \<le> card (insert j {i. f i \<noteq> 0})" using assms by (intro card_mono) auto
  also have "\<dots> \<le> Suc (card {i. f i \<noteq> 0})" using assms by (simp add: card_insert_if)
  finally show ?thesis .
qed

lemma finite_pins: "finite {i. page_pins c i \<noteq> 0}"
proof (rule finite_subset)
  show "{i. page_pins c i \<noteq> 0} \<subseteq> fst ` set (fst c)"
    using map_of_eq_None_iff [of "fst c"] by (auto simp: page_pins_def split: option.splits)
qed simp

lemma fetch_or_crash_ok:
  assumes ok: "pager_ok pg xs" and clean: "clean_ok (pager_abs pg xs)" and w: "io_ok io" and pid: "0 \<le> pid"
    and pins: "page_pins (pager_abs pg xs) pid < PIN_MAX"
    and m: "malloc_serves alloc CACHE_CAPACITY"
    and room: "card {i. page_pins (pager_abs pg xs) i \<noteq> 0} < CACHE_CAPACITY"
  shows "\<exists>a n pg' xs'. fetch_or_crash alloc io pid pg = Some (a, pg_data n, pg') \<and> pager_ok pg' xs' \<and>
    clean_ok (pager_abs pg' xs') \<and> pinned_stay pid pg pg' \<and> page_view (pager_abs pg' xs') = page_view (pager_abs pg xs) \<and>
    page_pins (pager_abs pg' xs') = (page_pins (pager_abs pg xs))(pid := Suc (page_pins (pager_abs pg xs) pid)) \<and>
    pages pg' a = Some n \<and> page_id n = pid \<and> pg_data n = page_view (pager_abs pg xs) pid"
proof -
  note d = pager_okD [OF ok]
  have c: "card (dom (pages pg)) = length xs" using d(3,7) distinct_card by metis
  have serve: "\<exists>a junk. alloc (pages pg) = Some (a, junk) \<and> pages pg a = None" if "length xs < CACHE_CAPACITY"
    using malloc_servesD [OF m, of "pages pg"] c d(3) that by (metis finite_set)
  then have mok: "malloc_ok (alloc (pages pg)) (pages pg)" if "length xs < CACHE_CAPACITY"
    using that by (auto simp: malloc_ok_def)
  obtain p pg' xs' where f: "pager_fetch alloc io pid pg = Some (p, pg')" "pager_ok pg' xs'"
      "clean_ok (pager_abs pg' xs')" "pinned_stay pid pg pg'" "page_view (pager_abs pg' xs') = page_view (pager_abs pg xs)"
      "case p of None \<Rightarrow> page_pins (pager_abs pg' xs') = page_pins (pager_abs pg xs) \<and>
         (alloc (pages pg) = None \<and> length xs < CACHE_CAPACITY \<or>
          length xs = CACHE_CAPACITY \<and> (\<forall>a\<in>set xs. \<exists>n. pages pg a = Some n \<and> pin_count n \<noteq> 0))
       | Some a \<Rightarrow> xs' \<noteq> [] \<and> hd xs' = a \<and>
         page_pins (pager_abs pg' xs') = (page_pins (pager_abs pg xs))(pid := Suc (page_pins (pager_abs pg xs) pid)) \<and>
         (\<exists>n. pages pg' a = Some n \<and> page_id n = pid \<and> pg_data n = page_view (pager_abs pg xs) pid)"
    using fetch_view [where alloc = alloc, OF ok clean w pid pins mok] by blast
  have "p \<noteq> None"
  proof
    assume "p = None"
    then have full: "length xs = CACHE_CAPACITY" "\<forall>a\<in>set xs. \<exists>n. pages pg a = Some n \<and> pin_count n \<noteq> 0"
      using f(6) serve by auto
    then have "filter (\<lambda>e. ent_pins e \<noteq> 0) (map (entry_of pg) xs) = map (entry_of pg) xs"
      by (intro filter_True) (auto simp: entry_of_def)
    then have "pinned (map (entry_of pg) xs) = CACHE_CAPACITY" using full(1) unfolding pinned_def by simp
    then show False using pinned_card [OF distinct_pager_abs [OF ok]] room by simp
  qed
  then obtain a where p: "p = Some a" by blast
  obtain n where n: "pages pg' a = Some n" "page_id n = pid" "pg_data n = page_view (pager_abs pg xs) pid"
    using f(6) p by auto
  have "fetch_or_crash alloc io pid pg = Some (a, pg_data n, pg')"
    using f(1) p n(1) by (simp add: fetch_or_crash_def)
  moreover have "page_pins (pager_abs pg' xs') = (page_pins (pager_abs pg xs))(pid := Suc (page_pins (pager_abs pg xs) pid))"
    using f(6) p by simp
  ultimately show ?thesis using f(2-5) n
    by (intro exI [of _ a] exI [of _ n] exI [of _ pg'] exI [of _ xs'] conjI)
qed

subsection \<open>The free list\<close>

lemma get_put_u32:
  assumes "k + 3 < length d"
  shows "get_u32 k (put_u32 k w d) = w"
proof -
  have "get_u32 k (put_u32 k w d) = or (or (or (push_bit 24 (ucast (ucast (drop_bit 24 w) :: u8)))
      (push_bit 16 (ucast (ucast (drop_bit 16 w) :: u8)))) (push_bit 8 (ucast (ucast (drop_bit 8 w) :: u8))))
      (ucast (ucast w :: u8))"
    using assms by (simp add: get_u32_def put_u32_def)
  also have "\<dots> = w" by (rule bit_word_eqI) (auto simp: bit_or_iff bit_slice bit_slice0)
  finally show ?thesis .
qed

lemma put_put_u32: "put_u32 k v (put_u32 k w d) = put_u32 k v d"
  unfolding put_u32_def by (simp add: list_update_swap)

lemma byte_of_word: "ucast (or (or (or (push_bit 24 (ucast b3)) (push_bit 16 (ucast b2))) (push_bit 8 (ucast b1)))
    (ucast b0) :: u32) = (b0::u8)"
  "ucast (drop_bit 8 (or (or (or (push_bit 24 (ucast (b3::u8))) (push_bit 16 (ucast (b2::u8)))) (push_bit 8 (ucast b1)))
    (ucast b0) :: u32)) = (b1::u8)"
  "ucast (drop_bit 16 (or (or (or (push_bit 24 (ucast b3)) (push_bit 16 (ucast b2))) (push_bit 8 (ucast b1)))
    (ucast b0) :: u32)) = (b2::u8)"
  "ucast (drop_bit 24 (or (or (or (push_bit 24 (ucast b3)) (push_bit 16 (ucast b2))) (push_bit 8 (ucast b1)))
    (ucast b0) :: u32)) = (b3::u8)"
  by (rule bit_word_eqI, auto simp: bit_simps dest: bit_imp_le_length)+

lemma put_get_u32: "k + 3 < length d \<Longrightarrow> put_u32 k (get_u32 k d) d = d"
  by (simp add: put_u32_def get_u32_def byte_of_word del: drop_bit_or)

lemma length_put_u32 [simp]: "length (put_u32 k w d) = length d"
  by (simp add: put_u32_def)

lemma pins_room: "card {i. page_pins c i \<noteq> 0} + 2 \<le> CACHE_CAPACITY \<Longrightarrow>
    card {i. ((page_pins c)(j := Suc k)) i \<noteq> 0} < CACHE_CAPACITY"
  using card_pins_Suc [OF finite_pins, of c j k] by linarith

text \<open>Taking a page: the head of the free list, or a new page at the end of the file.\<close>

lemma pager_alloc_page_ok:
  assumes ok: "pager_ok pg xs" and clean: "clean_ok (pager_abs pg xs)" and w: "io_ok io"
    and m: "malloc_serves alloc CACHE_CAPACITY"
    and room: "card {i. page_pins (pager_abs pg xs) i \<noteq> 0} + 2 \<le> CACHE_CAPACITY"
    and pin0: "page_pins (pager_abs pg xs) 0 < PIN_MAX"
  defines "hd0 \<equiv> page_view (pager_abs pg xs) 0" and "free \<equiv> get_u32 HDR_FREE_LIST (page_view (pager_abs pg xs) 0)"
  assumes pos: "free \<noteq> -1 \<Longrightarrow> 0 < sint free" and pinf: "free \<noteq> -1 \<Longrightarrow> page_pins (pager_abs pg xs) (sint free) < PIN_MAX"
  shows "\<exists>pg' xs'. pager_alloc_page alloc io pg =
      Some (sint (if free \<noteq> -1 then free else get_u32 HDR_TOTAL_PAGES hd0), pg') \<and> pager_ok pg' xs' \<and>
    clean_ok (pager_abs pg' xs') \<and> page_pins (pager_abs pg' xs') = page_pins (pager_abs pg xs) \<and>
    page_view (pager_abs pg' xs') = (page_view (pager_abs pg xs))(0 :=
      (if free \<noteq> -1 then put_u32 HDR_FREE_LIST (get_u32 0 (page_view (pager_abs pg xs) (sint free))) hd0
       else put_u32 HDR_TOTAL_PAGES (get_u32 HDR_TOTAL_PAGES hd0 + 1) hd0))"
proof -
  let ?V = "page_view (pager_abs pg xs)" and ?P = "page_pins (pager_abs pg xs)"
  have r1: "card {i. ?P i \<noteq> 0} < CACHE_CAPACITY" using room by linarith
  obtain a n p1 x1 where f1: "fetch_or_crash alloc io 0 pg = Some (a, pg_data n, p1)" "pager_ok p1 x1"
      "clean_ok (pager_abs p1 x1)" "page_view (pager_abs p1 x1) = ?V"
      "page_pins (pager_abs p1 x1) = ?P(0 := Suc (?P 0))" "pages p1 a = Some n" "page_id n = 0" "pg_data n = ?V 0"
    using fetch_or_crash_ok [OF ok clean w order_refl pin0 m r1] by blast
  show ?thesis
  proof (cases "free = -1")
    case True
    let ?f = "put_u32 HDR_TOTAL_PAGES (get_u32 HDR_TOTAL_PAGES hd0 + 1)"
    have c1: "clean_but {} (pager_abs p1 x1)" using f1(3) by (simp add: clean_but_empty)
    obtain p2 where p2: "set_data a ?f p1 = Some p2" "pager_ok p2 x1" "clean_but {0} (pager_abs p2 x1)"
        "page_view (pager_abs p2 x1) = ?V(0 := ?f hd0)" "page_pins (pager_abs p2 x1) = ?P(0 := Suc (?P 0))"
        "pages p2 = (pages p1)(a \<mapsto> pg_data_update ?f n)"
      using set_data_ok [OF f1(2) c1 f1(6), of ?f] f1(4,5,7,8) hd0_def by metis
    have p2a: "pages p2 a = Some (pg_data_update ?f n)" using p2(6) by simp
    obtain p3 where p3: "pager_unpin (Some a) True p2 = Some p3" "pager_ok p3 x1"
        "clean_but {} (pager_abs p3 x1)" "page_view (pager_abs p3 x1) = page_view (pager_abs p2 x1)"
        "page_pins (pager_abs p3 x1) = (page_pins (pager_abs p2 x1))(0 := pin_count n - 1)"
      using pager_unpin_ok [OF p2(2,3) p2a, of True] f1(7) by auto
    have "pin_count n = Suc (?P 0)" using view_entry(2) [OF f1(2,6)] f1(5,7) by simp
    then have "page_pins (pager_abs p3 x1) = ?P" using p3(5) p2(5) by auto
    moreover have "pager_alloc_page alloc io pg = Some (sint (get_u32 HDR_TOTAL_PAGES hd0), p3)"
      using f1(1,8) True p2(1) p3(1) by (simp add: pager_alloc_page_def free_def hd0_def Let_def)
    ultimately show ?thesis using p3(2-4) p2(4) True
      by (intro exI [of _ p3] exI [of _ x1]) (simp add: clean_but_empty)
  next
    case False
    let ?g = "put_u32 HDR_FREE_LIST (get_u32 0 (?V (sint free)))"
    have pos': "0 < sint free" using pos False by simp
    have pf: "page_pins (pager_abs p1 x1) (sint free) < PIN_MAX" using pinf False f1(5) pos' by simp
    have r2: "card {i. page_pins (pager_abs p1 x1) i \<noteq> 0} < CACHE_CAPACITY"
      unfolding f1(5) using pins_room [OF room] .
    obtain b k p2 x2 where f2: "fetch_or_crash alloc io (sint free) p1 = Some (b, pg_data k, p2)" "pager_ok p2 x2"
        "clean_ok (pager_abs p2 x2)" "pinned_stay (sint free) p1 p2" "page_view (pager_abs p2 x2) = ?V"
        "page_pins (pager_abs p2 x2) = (page_pins (pager_abs p1 x1))(sint free := Suc (page_pins (pager_abs p1 x1) (sint free)))"
        "pages p2 b = Some k" "page_id k = sint free" "pg_data k = ?V (sint free)"
      using fetch_or_crash_ok [OF f1(2,3) w less_imp_le [OF pos'] pf m r2] f1(4) by metis
    have pn: "pin_count n = Suc (?P 0)" using view_entry(2) [OF f1(2,6)] f1(5,7) by simp
    obtain m where m: "pages p2 a = Some m" "content m = content n"
      using pinned_stayD [OF f2(4) f1(6)] pn pos' f1(7) by auto
    have ba: "b \<noteq> a" using m f2(7,8) f1(7) pos' by auto
    have c2: "clean_but {} (pager_abs p2 x2)" using f2(3) by (simp add: clean_but_empty)
    obtain p3 where p3: "set_data a ?g p2 = Some p3" "pager_ok p3 x2" "clean_but {0} (pager_abs p3 x2)"
        "page_view (pager_abs p3 x2) = ?V(0 := ?g (?V 0))" "page_pins (pager_abs p3 x2) = page_pins (pager_abs p2 x2)"
        "pages p3 = (pages p2)(a \<mapsto> pg_data_update ?g m)"
      using set_data_ok [OF f2(2) c2 m(1), of ?g] f2(5) m(2) f1(7,8) by auto
    have p3b: "pages p3 b = Some k" using p3(6) f2(7) ba by simp
    obtain p4 where p4: "pager_unpin (Some b) False p3 = Some p4" "pager_ok p4 x2" "clean_but {0} (pager_abs p4 x2)"
        "page_view (pager_abs p4 x2) = page_view (pager_abs p3 x2)"
        "page_pins (pager_abs p4 x2) = (page_pins (pager_abs p3 x2))(sint free := pin_count k - 1)"
        "\<forall>c. c \<noteq> b \<longrightarrow> pages p4 c = pages p3 c"
      using pager_unpin_ok [OF p3(2,3) p3b, of False] f2(8) by auto
    have p4a: "pages p4 a = Some (pg_data_update ?g m)" using p4(6) p3(6) ba by auto
    obtain p5 where p5: "pager_unpin (Some a) True p4 = Some p5" "pager_ok p5 x2" "clean_but {} (pager_abs p5 x2)"
        "page_view (pager_abs p5 x2) = page_view (pager_abs p4 x2)"
        "page_pins (pager_abs p5 x2) = (page_pins (pager_abs p4 x2))(0 := pin_count n - 1)"
      using pager_unpin_ok [OF p4(2,3) p4a, of True] m(2) f1(7) by auto
    have "pin_count k = Suc (?P (sint free))" using view_entry(2) [OF f2(2,7)] f2(6,8) f1(5) pos' by simp
    then have "page_pins (pager_abs p5 x2) = ?P"
      unfolding p5(5) p4(5) p3(5) f2(6) f1(5) pn using pos' by (auto simp: fun_eq_iff)
    moreover have "pager_alloc_page alloc io pg = Some (sint free, p5)"
      using f1(1,8) False f2(1,9) p3(1) p4(1) p5(1) by (simp add: pager_alloc_page_def free_def Let_def)
    ultimately show ?thesis using p5(2-4) p4(4) p3(4) False
      by (intro exI [of _ p5] exI [of _ x2]) (simp add: clean_but_empty hd0_def)
  qed
qed

text \<open>Giving a page back: it becomes the head of the free list and points to the old head.\<close>

lemma pager_free_page_ok:
  assumes ok: "pager_ok pg xs" and clean: "clean_ok (pager_abs pg xs)" and w: "io_ok io"
    and m: "malloc_serves alloc CACHE_CAPACITY"
    and room: "card {i. page_pins (pager_abs pg xs) i \<noteq> 0} + 2 \<le> CACHE_CAPACITY" and pid: "0 < pid"
    and pin0: "page_pins (pager_abs pg xs) 0 < PIN_MAX" and pinp: "page_pins (pager_abs pg xs) pid < PIN_MAX"
  defines "hd0 \<equiv> page_view (pager_abs pg xs) 0"
  shows "\<exists>pg' xs'. pager_free_page alloc io pid pg = Some pg' \<and> pager_ok pg' xs' \<and>
    clean_ok (pager_abs pg' xs') \<and> page_pins (pager_abs pg' xs') = page_pins (pager_abs pg xs) \<and>
    page_view (pager_abs pg' xs') = (page_view (pager_abs pg xs))
      (0 := put_u32 HDR_FREE_LIST (word_of_int pid) hd0, pid := put_u32 0 (get_u32 HDR_FREE_LIST hd0) zero_page)"
proof -
  let ?V = "page_view (pager_abs pg xs)" and ?P = "page_pins (pager_abs pg xs)"
  have r1: "card {i. ?P i \<noteq> 0} < CACHE_CAPACITY" using room by linarith
  obtain a n p1 x1 where f1: "fetch_or_crash alloc io 0 pg = Some (a, pg_data n, p1)" "pager_ok p1 x1"
      "clean_ok (pager_abs p1 x1)" "page_view (pager_abs p1 x1) = ?V"
      "page_pins (pager_abs p1 x1) = ?P(0 := Suc (?P 0))" "pages p1 a = Some n" "page_id n = 0" "pg_data n = ?V 0"
    using fetch_or_crash_ok [OF ok clean w order_refl pin0 m r1] by blast
  let ?g = "put_u32 HDR_FREE_LIST (word_of_int pid)" and ?t = "put_u32 0 (get_u32 HDR_FREE_LIST hd0) zero_page"
  have r2: "card {i. page_pins (pager_abs p1 x1) i \<noteq> 0} < CACHE_CAPACITY"
    unfolding f1(5) using pins_room [OF room] .
  have pf: "page_pins (pager_abs p1 x1) pid < PIN_MAX" using pinp f1(5) pid by simp
  obtain b k p2 x2 where f2: "fetch_or_crash alloc io pid p1 = Some (b, pg_data k, p2)" "pager_ok p2 x2"
      "clean_ok (pager_abs p2 x2)" "pinned_stay pid p1 p2" "page_view (pager_abs p2 x2) = ?V"
      "page_pins (pager_abs p2 x2) = (page_pins (pager_abs p1 x1))(pid := Suc (page_pins (pager_abs p1 x1) pid))"
      "pages p2 b = Some k" "page_id k = pid" "pg_data k = ?V pid"
    using fetch_or_crash_ok [OF f1(2,3) w less_imp_le [OF pid] pf m r2] f1(4) by metis
  have pn: "pin_count n = Suc (?P 0)" using view_entry(2) [OF f1(2,6)] f1(5,7) by simp
  have pk: "pin_count k = Suc (?P pid)" using view_entry(2) [OF f2(2,7)] f2(6,8) f1(5) pid by simp
  obtain m where m: "pages p2 a = Some m" "content m = content n"
    using pinned_stayD [OF f2(4) f1(6)] pn pid f1(7) by auto
  have ba: "b \<noteq> a" using m f2(7,8) f1(7) pid by auto
  have c2: "clean_but {} (pager_abs p2 x2)" using f2(3) by (simp add: clean_but_empty)
  obtain p3 where p3: "set_data b (\<lambda>_. ?t) p2 = Some p3" "pager_ok p3 x2" "clean_but {pid} (pager_abs p3 x2)"
      "page_view (pager_abs p3 x2) = ?V(pid := ?t)" "page_pins (pager_abs p3 x2) = page_pins (pager_abs p2 x2)"
      "pages p3 = (pages p2)(b \<mapsto> pg_data_update (\<lambda>_. ?t) k)"
    using set_data_ok [OF f2(2) c2 f2(7), of "\<lambda>_. ?t"] f2(5,8) by auto
  have p3a: "pages p3 a = Some m" using p3(6) m(1) ba by simp
  obtain p4 where p4: "set_data a ?g p3 = Some p4" "pager_ok p4 x2" "clean_but {0, pid} (pager_abs p4 x2)"
      "page_view (pager_abs p4 x2) = (?V(pid := ?t))(0 := ?g hd0)" "page_pins (pager_abs p4 x2) = page_pins (pager_abs p2 x2)"
      "pages p4 = (pages p3)(a \<mapsto> pg_data_update ?g m)"
    using set_data_ok [OF p3(2,3) p3a, of ?g] p3(4,5) m(2) f1(7,8) hd0_def by auto
  have p4b: "pages p4 b = Some (pg_data_update (\<lambda>_. ?t) k)" using p4(6) p3(6) ba by simp
  have "{0, pid} - {pid} = {0}" using pid by auto
  then obtain p5 where p5: "pager_unpin (Some b) True p4 = Some p5" "pager_ok p5 x2" "clean_but {0} (pager_abs p5 x2)"
      "page_view (pager_abs p5 x2) = page_view (pager_abs p4 x2)"
      "page_pins (pager_abs p5 x2) = (page_pins (pager_abs p4 x2))(pid := pin_count k - 1)"
      "\<forall>c. c \<noteq> b \<longrightarrow> pages p5 c = pages p4 c"
    using pager_unpin_ok [OF p4(2,3) p4b, of True] f2(8) by auto
  have p5a: "pages p5 a = Some (pg_data_update ?g m)" using p5(6) p4(6) ba by auto
  obtain p6 where p6: "pager_unpin (Some a) True p5 = Some p6" "pager_ok p6 x2" "clean_but {} (pager_abs p6 x2)"
      "page_view (pager_abs p6 x2) = page_view (pager_abs p5 x2)"
      "page_pins (pager_abs p6 x2) = (page_pins (pager_abs p5 x2))(0 := pin_count n - 1)"
    using pager_unpin_ok [OF p5(2,3) p5a, of True] m(2) f1(7) by auto
  have "page_pins (pager_abs p6 x2) = ?P"
    unfolding p6(5) p5(5) p4(5) f2(6) f1(5) pn pk using pid by (auto simp: fun_eq_iff)
  moreover have "pager_free_page alloc io pid pg = Some p6"
    using f1(1,8) f2(1) p3(1) p4(1) p5(1) p6(1) pid by (simp add: pager_free_page_def hd0_def)
  moreover have "page_view (pager_abs p6 x2) = ?V(0 := ?g hd0, pid := ?t)"
    unfolding p6(4) p5(4) p4(4) using pid by (simp add: fun_upd_twist)
  ultimately show ?thesis using p6(2,3)
    by (intro exI [of _ p6] exI [of _ x2]) (simp add: clean_but_empty)
qed

subsection \<open>Opening and closing\<close>





text \<open>The state of a pager that was just opened on a file that is not empty.\<close>

definition fresh_pager :: "disk \<Rightarrow> Pager" where
  "fresh_pager d = \<lparr>pages = (\<lambda>_. None), lru_head = None, lru_tail = None, lru_size = 0,
     hash_map = replicate HASH_MAP_SIZE None, pg_capacity = int CACHE_CAPACITY, pwrite_count = 0, db_file = d\<rparr>"


lemma fresh_pager_ok:
  "pager_ok (fresh_pager d) []" "clean_ok (pager_abs (fresh_pager d) [])"
  "page_view (pager_abs (fresh_pager d) []) = d" "page_pins (pager_abs (fresh_pager d) []) = (\<lambda>_. 0)"
  by (auto simp: fresh_pager_def pager_ok_def list_ok_def hash_ok_def in_bucket_def clean_ok_def page_view_def
      page_pins_def fun_eq_iff)

text \<open>A file whose every write succeeds, as an example.\<close>

definition plain_file :: file_io where
  "plain_file = \<lparr>io_write = (\<lambda>i dt d. (True, d(i := dt))), io_read = (\<lambda>i d. length (d i))\<rparr>"

lemma plain_file_ok: "io_ok plain_file"
  by (simp add: io_ok_def plain_file_def)

abbreviation no_page :: Page where
  "no_page \<equiv> \<lparr>page_id = 0, pg_data = [], pin_count = 0, is_dirty = False, pg_next = None, pg_prev = None,
     hash_next = None\<rparr>"

abbreviation ten_pages :: "Page allocator" where
  "ten_pages \<equiv> first_free 10 no_page"

lemma malloc_ok_first_free: "malloc_ok (first_free n junk h) h"
  by (auto simp: malloc_ok_def first_free_def find_Some_iff split: option.split)

subsection \<open>Properties\<close>

text \<open>C13: On a well-formed pager, for a page number that is not negative and a page with fewer than \<^verbatim>\<open>INT_MAX\<close> pins,
\<^verbatim>\<open>pager_fetch\<close> has no undefined behaviour and does what the list of entries prescribes, whatever \<^verbatim>\<open>pread\<close>, \<^verbatim>\<open>pwrite\<close>
and \<^verbatim>\<open>malloc\<close> do: a cached page gets a pin and moves to the front; with ten pages cached the unpinned page
closest to the tail is flushed and replaced, or the result is \<^verbatim>\<open>NULL\<close> if all are pinned; otherwise a page
is allocated, or the result is \<^verbatim>\<open>NULL\<close> if \<^verbatim>\<open>malloc\<close> fails. The page returned is the first of the list, and the pager
is well formed again.\<close>
theorem pager_fetch_refines:
  assumes "pager_ok pg xs" "0 \<le> pid" "page_pins (pager_abs pg xs) pid < PIN_MAX" "length xs < CACHE_CAPACITY \<Longrightarrow> malloc_ok (alloc (pages pg)) (pages pg)"
    and "fetch_spec io (alloc (pages pg) \<noteq> None) pid (pager_abs pg xs) = (b, c)"
  shows "\<exists>p pg' xs'. pager_fetch alloc io pid pg = Some (p, pg') \<and> pager_ok pg' xs' \<and>
    pager_abs pg' xs' = c \<and> p = (if b then first_ptr xs' None else None) \<and> (b \<longrightarrow> xs' \<noteq> [])"
  using pager_fetch_sim [where alloc = alloc and io = io, OF assms] by blast

lemma pager_fetch_refines_witness:
  "\<exists>a pg' xs'. pager_fetch ten_pages plain_file 3 (fresh_pager (\<lambda>_. zero_page)) = Some (Some a, pg') \<and>
     pager_ok pg' xs' \<and> pager_abs pg' xs' = ([(3, zero_page, 1, False)], (\<lambda>_. zero_page), 0)"
proof -
  have "ten_pages (pages (fresh_pager (\<lambda>_. zero_page))) \<noteq> None"
    by (simp add: first_free_def fresh_pager_def upt_rec)
  then have "fetch_spec plain_file (ten_pages (pages (fresh_pager (\<lambda>_. zero_page))) \<noteq> None) 3
      (pager_abs (fresh_pager (\<lambda>_. zero_page)) []) = (True, [(3, zero_page, 1, False)], (\<lambda>_. zero_page), 0)"
    by (simp add: fetch_spec_def pager_abs_def fresh_pager_def CACHE_CAPACITY_def read_page_ok [OF plain_file_ok])
  from pager_fetch_refines [where alloc = ten_pages, OF fresh_pager_ok(1) _ _ _ this]
  show ?thesis using malloc_ok_first_free fresh_pager_ok(4) by (fastforce simp: neq_Nil_conv PIN_MAX_def)
qed

text \<open>C3: \<^verbatim>\<open>pager_fetch\<close> is transparent as long as \<^verbatim>\<open>pwrite\<close> writes and \<^verbatim>\<open>pread\<close> reads whole pages, for a page number that is
not negative and a page with fewer than \<^verbatim>\<open>INT_MAX\<close> pins: whatever it evicts, no user of any page sees a difference, the page returned holds what its users saw, it has one more pin, the pointers to pinned pages
stay good, and \<^verbatim>\<open>NULL\<close> is returned only when \<^verbatim>\<open>malloc\<close> failed or all ten pages are pinned.\<close>
theorem pager_fetch_transparent:
  assumes "pager_ok pg xs" "clean_ok (pager_abs pg xs)" "io_ok io" "0 \<le> pid"
    "page_pins (pager_abs pg xs) pid < PIN_MAX"
    and "length xs < CACHE_CAPACITY \<Longrightarrow> malloc_ok (alloc (pages pg)) (pages pg)"
  shows "\<exists>p pg' xs'. pager_fetch alloc io pid pg = Some (p, pg') \<and> pager_ok pg' xs' \<and> clean_ok (pager_abs pg' xs') \<and>
    pinned_stay pid pg pg' \<and> page_view (pager_abs pg' xs') = page_view (pager_abs pg xs) \<and>
    (case p of
       None \<Rightarrow> page_pins (pager_abs pg' xs') = page_pins (pager_abs pg xs) \<and>
         (alloc (pages pg) = None \<and> length xs < CACHE_CAPACITY \<or>
          length xs = CACHE_CAPACITY \<and> (\<forall>a\<in>set xs. \<exists>n. pages pg a = Some n \<and> pin_count n \<noteq> 0))
     | Some a \<Rightarrow> xs' \<noteq> [] \<and> hd xs' = a \<and>
         page_pins (pager_abs pg' xs') = (page_pins (pager_abs pg xs))(pid := Suc (page_pins (pager_abs pg xs) pid)) \<and>
         (\<exists>n. pages pg' a = Some n \<and> page_id n = pid \<and> pg_data n = page_view (pager_abs pg xs) pid))"
  using assms by (rule fetch_view)

lemma pager_fetch_transparent_witness:
  "\<exists>p pg' xs'. pager_fetch ten_pages plain_file 5 (fresh_pager (\<lambda>_. zero_page)) = Some (p, pg') \<and> pager_ok pg' xs' \<and>
     page_view (pager_abs pg' xs') = (\<lambda>_. zero_page)"
  using pager_fetch_transparent [where alloc = ten_pages, OF fresh_pager_ok(1,2) plain_file_ok _ _ malloc_ok_first_free,
      of 5 "\<lambda>_. zero_page"]
  unfolding fresh_pager_ok(3,4) by (auto simp: PIN_MAX_def)

text \<open>C20: As long as \<^verbatim>\<open>pwrite\<close> and \<^verbatim>\<open>pread\<close> transfer whole pages, \<^verbatim>\<open>malloc\<close> can serve ten pages, at most eight pages are
pinned, none of the two involved \<^verbatim>\<open>INT_MAX\<close> times, and the page number is from 1 to 2147483647: freeing a page and then
asking for one gives the same page back, so the free list is a stack. The header and every other page read as before, and
no pin is left behind.\<close>
theorem pager_free_alloc:
  assumes "pager_ok pg xs" "clean_ok (pager_abs pg xs)" "io_ok io" "malloc_serves alloc CACHE_CAPACITY"
    and "card {i. page_pins (pager_abs pg xs) i \<noteq> 0} + 2 \<le> CACHE_CAPACITY" "0 < pid" "pid < 2 ^ 31"
    and "length (page_view (pager_abs pg xs) 0) = PAGE_SIZE"
    and "page_pins (pager_abs pg xs) 0 < PIN_MAX" "page_pins (pager_abs pg xs) pid < PIN_MAX"
  shows "\<exists>pg1 pg2 ys. pager_free_page alloc io pid pg = Some pg1 \<and> pager_alloc_page alloc io pg1 = Some (pid, pg2) \<and>
    pager_ok pg2 ys \<and> clean_ok (pager_abs pg2 ys) \<and> page_pins (pager_abs pg2 ys) = page_pins (pager_abs pg xs) \<and>
    (\<forall>i. i \<noteq> pid \<longrightarrow> page_view (pager_abs pg2 ys) i = page_view (pager_abs pg xs) i)"
proof -
  let ?V = "page_view (pager_abs pg xs)"
  define hd0 where "hd0 = ?V 0"
  obtain p1 x1 where f: "pager_free_page alloc io pid pg = Some p1" "pager_ok p1 x1" "clean_ok (pager_abs p1 x1)"
      "page_pins (pager_abs p1 x1) = page_pins (pager_abs pg xs)"
      "page_view (pager_abs p1 x1) = ?V(0 := put_u32 HDR_FREE_LIST (word_of_int pid) hd0,
        pid := put_u32 0 (get_u32 HDR_FREE_LIST hd0) zero_page)"
    using pager_free_page_ok [OF assms(1-6,9,10)] unfolding hd0_def by blast
  have len: "HDR_FREE_LIST + 3 < length hd0" "(0::nat) + 3 < length zero_page"
    using assms(8) by (simp_all add: hd0_def zero_page_def PAGE_SIZE_def HDR_FREE_LIST_def)
  let ?hd1 = "put_u32 HDR_FREE_LIST (word_of_int pid) hd0"
  have view0: "page_view (pager_abs p1 x1) 0 = ?hd1" using f(5) assms(6) by simp
  have head: "get_u32 HDR_FREE_LIST (page_view (pager_abs p1 x1) 0) = word_of_int pid"
    unfolding view0 using get_put_u32 [OF len(1)] .
  have s: "sint (word_of_int pid :: u32) = pid"
    using assms(6,7) by (subst sint_sbintrunc') (simp add: signed_take_bit_int_eq_self)
  have ne: "(word_of_int pid :: u32) \<noteq> -1"
    using s assms(6) by (metis sint_n1 less_imp_not_less neg_less_0_iff_less zero_less_one)
  obtain p2 x2 where a: "pager_alloc_page alloc io p1 = Some (pid, p2)" "pager_ok p2 x2" "clean_ok (pager_abs p2 x2)"
      "page_pins (pager_abs p2 x2) = page_pins (pager_abs p1 x1)"
      "page_view (pager_abs p2 x2) = (page_view (pager_abs p1 x1))
        (0 := put_u32 HDR_FREE_LIST (get_u32 0 (page_view (pager_abs p1 x1) pid)) ?hd1)"
    using pager_alloc_page_ok [OF f(2,3) assms(3,4)] f(4) assms(5,6,9,10) ne s unfolding head unfolding view0 by auto
  have "get_u32 0 (page_view (pager_abs p1 x1) pid) = get_u32 HDR_FREE_LIST hd0"
    unfolding f(5) using get_put_u32 [OF len(2)] by simp
  then have "put_u32 HDR_FREE_LIST (get_u32 0 (page_view (pager_abs p1 x1) pid)) ?hd1 = hd0"
    using put_get_u32 [OF len(1)] by (simp add: put_put_u32)
  then have "page_view (pager_abs p2 x2) i = ?V i" if "i \<noteq> pid" for i
    unfolding a(5) f(5) using that by (simp add: hd0_def)
  then show ?thesis using f(1,4) a(1-4) by (intro exI [of _ p1] exI [of _ p2] exI [of _ x2]) simp
qed

lemma pager_free_alloc_witness:
  "\<exists>pg1 pg2. pager_free_page ten_pages plain_file 7 (fresh_pager (\<lambda>_. header_page)) = Some pg1 \<and>
     pager_alloc_page ten_pages plain_file pg1 = Some (7, pg2)"
proof -
  have "malloc_serves ten_pages CACHE_CAPACITY" unfolding CACHE_CAPACITY_def by (rule malloc_serves_first_free)
  then show ?thesis
    using pager_free_alloc [OF fresh_pager_ok(1,2) plain_file_ok, of ten_pages "\<lambda>_. header_page" 7]
    unfolding fresh_pager_ok(3,4) by (auto simp: CACHE_CAPACITY_def header_page_def zero_page_def PIN_MAX_def)
qed



end
