(* ===== verification/Ring_Queue.thy ===== *)
theory Ring_Queue
  imports Prelude
begin

text \<open>
  The single-producer single-consumer ring buffers: \<^verbatim>\<open>Phase-1/Day22/C/SPSC.c\<close> and
  \<^verbatim>\<open>AudioBuffer.c\<close> (the same queue with another capacity and element type), and the earlier
  \<^verbatim>\<open>Phase-1/Day11/C/SPSC.c\<close>, which claims a slot before it fills it.

  Two threads run; each step is one access to the shared state, and a schedule, a list of thread
  choices, says in which order they take their steps. A theorem over all schedules is a theorem over
  all interleavings of atomic accesses. The indices are \<open>size_t\<close>: 64-bit words that wrap around.
  Orderings weaker than sequential consistency are not modelled.
\<close>

subsection \<open>The queue, one call at a time\<close>

definition CAPACITY :: nat where "CAPACITY = 1024"

record 'a ring =
  cells :: "'a list"
  head :: u64
  tail :: u64

definition ring_initialize :: "'a ring \<Rightarrow> 'a ring" where
  "ring_initialize q = q\<lparr>head := 0, tail := 0\<rparr>"

text \<open>\<open>cap\<close> is \<^verbatim>\<open>CAPACITY\<close>; the slot of an index is \<^verbatim>\<open>index & MASK\<close>.\<close>

definition MASK :: "nat \<Rightarrow> u64" where
  "MASK cap = word_of_nat cap - 1"

definition slot_of :: "nat \<Rightarrow> u64 \<Rightarrow> nat" where
  "slot_of cap i = unat (and i (MASK cap))"

definition queue_push :: "nat \<Rightarrow> 'a \<Rightarrow> 'a ring \<Rightarrow> bool \<times> 'a ring" where
  "queue_push cap v q =
     (let current_tail = tail q;
          current_head = head q in
      if word_of_nat cap \<le> current_tail - current_head then (False, q)
      else (True, q\<lparr>cells := (cells q)[slot_of cap current_tail := v], tail := current_tail + 1\<rparr>))"

definition queue_pop :: "nat \<Rightarrow> 'a ring \<Rightarrow> 'a option \<times> 'a ring" where
  "queue_pop cap q =
     (let current_head = head q;
          current_tail = tail q in
      if current_head = current_tail then (None, q)
      else (Some (cells q ! slot_of cap current_head), q\<lparr>head := current_head + 1\<rparr>))"

subsection \<open>The two threads, one access at a time\<close>

text \<open>
  Where the producer is in \<^verbatim>\<open>queue_push\<close>: before it, with the tail loaded, with room found, with the
  value written. Where the consumer is in \<^verbatim>\<open>queue_pop\<close>: before it, with the head loaded, with a value
  found, with the value read.
\<close>

datatype ppc = P_idle | P_tail u64 | P_room u64 | P_written u64
datatype 'a cpc = C_idle | C_head u64 | C_some u64 | C_read u64 'a

record 'a spsc =
  queue :: "'a ring"
  sent :: nat
  ppc :: ppc
  got :: "'a option list"
  cpc :: "'a cpc"

text \<open>
  The producer thread pushes \<open>vals 0\<close>, \<open>vals 1\<close>, \dots, \<open>vals (n - 1)\<close>, each until the push succeeds. The
  consumer thread pops as long as \<open>wants\<close> holds of the results so far; a failed pop is \<open>None\<close>.
\<close>

fun producer_step :: "nat \<Rightarrow> nat \<Rightarrow> (nat \<Rightarrow> 'a) \<Rightarrow> 'a spsc \<Rightarrow> 'a spsc" where
  "producer_step cap n vals s =
     (case ppc s of
        P_idle \<Rightarrow> if sent s < n then s\<lparr>ppc := P_tail (tail (queue s))\<rparr> else s
      | P_tail t \<Rightarrow>
          if word_of_nat cap \<le> t - head (queue s) then s\<lparr>ppc := P_idle\<rparr> else s\<lparr>ppc := P_room t\<rparr>
      | P_room t \<Rightarrow>
          s\<lparr>queue := (queue s)\<lparr>cells := (cells (queue s))[slot_of cap t := vals (sent s)]\<rparr>, ppc := P_written t\<rparr>
      | P_written t \<Rightarrow>
          s\<lparr>queue := (queue s)\<lparr>tail := t + 1\<rparr>, sent := Suc (sent s), ppc := P_idle\<rparr>)"

fun consumer_step :: "nat \<Rightarrow> ('a option list \<Rightarrow> bool) \<Rightarrow> 'a spsc \<Rightarrow> 'a spsc" where
  "consumer_step cap wants s =
     (case cpc s of
        C_idle \<Rightarrow> if wants (got s) then s\<lparr>cpc := C_head (head (queue s))\<rparr> else s
      | C_head h \<Rightarrow>
          if h = tail (queue s) then s\<lparr>got := got s @ [None], cpc := C_idle\<rparr> else s\<lparr>cpc := C_some h\<rparr>
      | C_some h \<Rightarrow> s\<lparr>cpc := C_read h (cells (queue s) ! slot_of cap h)\<rparr>
      | C_read h v \<Rightarrow> s\<lparr>queue := (queue s)\<lparr>head := h + 1\<rparr>, got := got s @ [Some v], cpc := C_idle\<rparr>)"

definition spsc_step :: "nat \<Rightarrow> nat \<Rightarrow> (nat \<Rightarrow> 'a) \<Rightarrow> ('a option list \<Rightarrow> bool) \<Rightarrow> bool \<Rightarrow> 'a spsc \<Rightarrow> 'a spsc" where
  "spsc_step cap n vals wants b s = (if b then producer_step cap n vals s else consumer_step cap wants s)"

definition spsc_run :: "nat \<Rightarrow> nat \<Rightarrow> (nat \<Rightarrow> 'a) \<Rightarrow> ('a option list \<Rightarrow> bool) \<Rightarrow> bool list \<Rightarrow> 'a spsc \<Rightarrow> 'a spsc" where
  "spsc_run cap n vals wants bs s = fold (spsc_step cap n vals wants) bs s"

definition spsc_start :: "'a list \<Rightarrow> u64 \<Rightarrow> 'a spsc" where
  "spsc_start junk i =
     \<lparr>queue = (ring_initialize \<lparr>cells = junk, head = 0, tail = 0\<rparr>)\<lparr>head := i, tail := i\<rparr>,
      sent = 0, ppc = P_idle, got = [], cpc = C_idle\<rparr>"

definition received :: "'a option list \<Rightarrow> 'a list" where
  "received rs = map the (filter (\<lambda>r. r \<noteq> None) rs)"

subsection \<open>The stress test\<close>

definition NUM_OPS :: nat where "NUM_OPS = 100000000"

text \<open>
  \<^verbatim>\<open>main\<close> of \<^verbatim>\<open>SPSC.c\<close> starts both indices just below \<open>SIZE_MAX\<close>; the consumer checks each value it
  gets and stops after \<^verbatim>\<open>NUM_OPS\<close> of them.
\<close>

definition spsc_main_run :: "u64 list \<Rightarrow> bool list \<Rightarrow> u64 spsc" where
  "spsc_main_run junk bs =
     spsc_run CAPACITY NUM_OPS word_of_nat (\<lambda>rs. length (received rs) < NUM_OPS) bs (spsc_start junk (-1 - 1000))"

definition consumer_asserts :: "u64 spsc \<Rightarrow> bool" where
  "consumer_asserts s = list_all2 (=) (received (got s)) (map word_of_nat [0..<length (received (got s))])"

subsection \<open>The audio ring\<close>

definition AUDIO_CAPACITY :: nat where "AUDIO_CAPACITY = 8192"
definition SAMPLE_RATE :: nat where "SAMPLE_RATE = 44100"

text \<open>
  \<open>samples\<close> are the values of the sine generator. The callback takes one frame per pop, silence when the
  ring is empty; \<^verbatim>\<open>main\<close> asks for blocks of 256 frames until two seconds are played.
\<close>

definition audio_frames :: nat where
  "audio_frames = ((SAMPLE_RATE * 2 + 255) div 256) * 256"

definition ring_init :: "'a ring \<Rightarrow> 'a ring" where
  "ring_init = ring_initialize"

definition ring_push :: "'a \<Rightarrow> 'a ring \<Rightarrow> bool \<times> 'a ring" where
  "ring_push = queue_push AUDIO_CAPACITY"

definition ring_pop :: "'a ring \<Rightarrow> 'a option \<times> 'a ring" where
  "ring_pop = queue_pop AUDIO_CAPACITY"

definition dsp_producer_step :: "(nat \<Rightarrow> 'a) \<Rightarrow> 'a spsc \<Rightarrow> 'a spsc" where
  "dsp_producer_step samples = producer_step AUDIO_CAPACITY (SAMPLE_RATE * 2) samples"

definition audio_callback_step :: "'a spsc \<Rightarrow> 'a spsc" where
  "audio_callback_step = consumer_step AUDIO_CAPACITY (\<lambda>rs. length rs < audio_frames)"

definition audio_run :: "(nat \<Rightarrow> 'a) \<Rightarrow> 'a list \<Rightarrow> bool list \<Rightarrow> 'a spsc" where
  "audio_run samples junk bs =
     fold (\<lambda>b. if b then dsp_producer_step samples else audio_callback_step) bs (spsc_start junk 0)"

definition audio_out :: "'a \<Rightarrow> 'a spsc \<Rightarrow> 'a list" where
  "audio_out silence s = map (\<lambda>r. case r of None \<Rightarrow> silence | Some x \<Rightarrow> x) (got s)"

subsection \<open>The invariant\<close>

text \<open>
  With \<open>c\<close> values received and \<open>p\<close> sent, the head is \<open>c\<close> and the tail \<open>p\<close> steps behind the start, at most
  a full ring apart, and the cells between them hold the values in flight.
\<close>

fun producer_ok :: "nat \<Rightarrow> (nat \<Rightarrow> 'a) \<Rightarrow> 'a ring \<Rightarrow> nat \<Rightarrow> nat \<Rightarrow> ppc \<Rightarrow> bool" where
  "producer_ok cap vals q c p P_idle = True"
| "producer_ok cap vals q c p (P_tail t) = (t = tail q)"
| "producer_ok cap vals q c p (P_room t) = (t = tail q \<and> p < c + cap)"
| "producer_ok cap vals q c p (P_written t) = (t = tail q \<and> p < c + cap \<and> cells q ! slot_of cap t = vals p)"

fun consumer_ok :: "(nat \<Rightarrow> 'a) \<Rightarrow> 'a ring \<Rightarrow> nat \<Rightarrow> nat \<Rightarrow> 'a cpc \<Rightarrow> bool" where
  "consumer_ok vals q c p C_idle = True"
| "consumer_ok vals q c p (C_head h) = (h = head q)"
| "consumer_ok vals q c p (C_some h) = (h = head q \<and> c < p)"
| "consumer_ok vals q c p (C_read h v) = (h = head q \<and> c < p \<and> v = vals c)"

definition ring_ok :: "nat \<Rightarrow> u64 \<Rightarrow> (nat \<Rightarrow> 'a) \<Rightarrow> 'a ring \<Rightarrow> nat \<Rightarrow> nat \<Rightarrow> bool" where
  "ring_ok cap i vals q c p \<longleftrightarrow> length (cells q) = cap \<and> head q = i + word_of_nat c \<and> tail q = i + word_of_nat p \<and>
     c \<le> p \<and> p \<le> c + cap \<and> (\<forall>j. c \<le> j \<longrightarrow> j < p \<longrightarrow> cells q ! slot_of cap (i + word_of_nat j) = vals j)"

definition spsc_inv :: "nat \<Rightarrow> u64 \<Rightarrow> (nat \<Rightarrow> 'a) \<Rightarrow> 'a spsc \<Rightarrow> bool" where
  "spsc_inv cap i vals s \<longleftrightarrow>
     (let c = length (received (got s)); p = sent s in
      ring_ok cap i vals (queue s) c p \<and> received (got s) = map vals [0..<c] \<and>
      producer_ok cap vals (queue s) c p (ppc s) \<and> consumer_ok vals (queue s) c p (cpc s))"

lemma received_simps [simp]:
  "received [] = []" "received (rs @ [None]) = received rs" "received (rs @ [Some v]) = received rs @ [v]"
  by (simp_all add: received_def)

lemma slot_of_eq:
  assumes "k < 64"
  shows "slot_of (2 ^ k) (i + word_of_nat j) = (unat i + j) mod 2 ^ k"
proof -
  have "MASK (2 ^ k) = mask k" by (simp add: MASK_def mask_eq_exp_minus_1)
  then have "slot_of (2 ^ k) (i + word_of_nat j) = unat (take_bit k (i + word_of_nat j))"
    by (simp add: slot_of_def take_bit_eq_mask)
  also have "\<dots> = unat (i + word_of_nat j) mod 2 ^ k"
    by (simp only: unsigned_take_bit_eq take_bit_nat_def)
  also have "\<dots> = ((unat i + unat (word_of_nat j :: u64)) mod 2 ^ 64) mod 2 ^ k"
    by (simp add: unat_word_ariths)
  also have "\<dots> = (unat i + j mod 2 ^ 64) mod 2 ^ k"
  proof -
    have "(2::nat) ^ k dvd 2 ^ 64" using assms by (intro le_imp_power_dvd) simp
    then show ?thesis by (simp only: mod_mod_cancel unat_of_nat) simp
  qed
  also have "\<dots> = (unat i + j) mod 2 ^ k"
  proof -
    have "(j mod 2 ^ 64) mod 2 ^ k = j mod 2 ^ k" using assms by (intro mod_mod_cancel le_imp_power_dvd) simp
    then show ?thesis by (metis mod_add_right_eq)
  qed
  finally show ?thesis .
qed

lemma slot_of_less: "k < 64 \<Longrightarrow> slot_of (2 ^ k) (i + word_of_nat j) < 2 ^ k"
  by (simp add: slot_of_eq)

lemma slot_of_inject:
  assumes "k < 64" "c \<le> x" "x < c + 2 ^ k" "c \<le> y" "y < c + 2 ^ k"
    and "slot_of (2 ^ k) (i + word_of_nat x) = slot_of (2 ^ k) (i + word_of_nat y)"
  shows "x = y"
proof -
  have e: "((unat i + c) + (x - c)) mod 2 ^ k = ((unat i + c) + (y - c)) mod 2 ^ k"
    using assms(2,4,6) by (simp add: slot_of_eq [OF assms(1)])
  have "x - c < 2 ^ k" "y - c < 2 ^ k" using assms(2-5) by linarith+
  then have "x - c = y - c" using e by (rule mod_add_left_inject)
  then show ?thesis using assms(2,4) by linarith
qed

lemma index_diff:
  assumes "c \<le> p" "p \<le> c + 2 ^ k" "k < 64"
  shows "unat (((i::u64) + word_of_nat p) - (i + word_of_nat c)) = p - c"
    "(i + word_of_nat c = i + word_of_nat p) \<longleftrightarrow> c = p"
    "(word_of_nat (2 ^ k) \<le> (i + word_of_nat p) - (i + word_of_nat c)) \<longleftrightarrow> p = c + 2 ^ k"
proof -
  have b: "(2::nat) ^ k < 2 ^ 64" using assms(3) by (intro power_strict_increasing) simp_all
  have d: "(i + word_of_nat p) - (i + word_of_nat c) = (word_of_nat (p - c) :: u64)"
    using assms(1) by (simp add: of_nat_diff)
  show u: "unat ((i + word_of_nat p) - (i + word_of_nat c)) = p - c"
    unfolding d using assms(2) b by (simp add: unat_of_nat)
  show "(i + word_of_nat c = i + word_of_nat p) \<longleftrightarrow> c = p"
    using u assms(1) by (metis cancel_comm_monoid_add_class.diff_cancel diff_is_0_eq le_antisym unsigned_0)
  have "unat (word_of_nat (2 ^ k) :: u64) = 2 ^ k" using b by (simp only: unat_of_nat) simp
  then show "(word_of_nat (2 ^ k) \<le> (i + word_of_nat p) - (i + word_of_nat c)) \<longleftrightarrow> p = c + 2 ^ k"
    unfolding word_le_nat_alt u using assms(1,2) by auto
qed

lemma spsc_start_inv: "length junk = cap \<Longrightarrow> spsc_inv cap i vals (spsc_start junk i)"
  by (simp add: spsc_inv_def spsc_start_def ring_initialize_def ring_ok_def)

text \<open>Writing the next free cell, publishing it, taking the oldest cell.\<close>

lemma ring_ok_write:
  assumes r: "ring_ok (2 ^ k) i vals q c p" and k: "k < 64" and p: "p < c + 2 ^ k"
  shows "ring_ok (2 ^ k) i vals (q\<lparr>cells := (cells q)[slot_of (2 ^ k) (tail q) := v]\<rparr>) c p"
    "(cells q)[slot_of (2 ^ k) (tail q) := v] ! slot_of (2 ^ k) (tail q) = v"
    "c \<le> j \<Longrightarrow> j < p \<Longrightarrow> slot_of (2 ^ k) (tail q) \<noteq> slot_of (2 ^ k) (i + word_of_nat j)"
proof -
  have t: "tail q = i + word_of_nat p" "length (cells q) = 2 ^ k" using r by (simp_all add: ring_ok_def)
  show other: "slot_of (2 ^ k) (tail q) \<noteq> slot_of (2 ^ k) (i + word_of_nat j)" if "c \<le> j" "j < p" for j
    using slot_of_inject [OF k, of c p j i] that t(1) p by fastforce
  then show "ring_ok (2 ^ k) i vals (q\<lparr>cells := (cells q)[slot_of (2 ^ k) (tail q) := v]\<rparr>) c p"
    using r by (simp add: ring_ok_def)
  show "(cells q)[slot_of (2 ^ k) (tail q) := v] ! slot_of (2 ^ k) (tail q) = v"
    using slot_of_less [OF k] t by simp
qed

lemma ring_ok_publish:
  assumes "ring_ok cap i vals q c p" "p < c + cap" "cells q ! slot_of cap (tail q) = vals p"
  shows "ring_ok cap i vals (q\<lparr>tail := tail q + 1\<rparr>) c (Suc p)"
  using assms by (auto simp: ring_ok_def less_Suc_eq)

lemma ring_ok_take:
  assumes "ring_ok cap i vals q c p" "c < p"
  shows "ring_ok cap i vals (q\<lparr>head := head q + 1\<rparr>) (Suc c) p" "cells q ! slot_of cap (head q) = vals c"
  using assms by (auto simp: ring_ok_def)

lemma ring_ok_tests:
  assumes r: "ring_ok (2 ^ k) i vals q c p" and k: "k < 64"
  shows "word_of_nat (2 ^ k) \<le> tail q - head q \<longleftrightarrow> p = c + 2 ^ k" "head q = tail q \<longleftrightarrow> c = p"
  using index_diff(2,3) [of c p k i] r k by (simp_all add: ring_ok_def del: of_nat_power)

lemma producer_step_inv:
  assumes inv: "spsc_inv (2 ^ k) i vals s" and k: "k < 64"
  shows "spsc_inv (2 ^ k) i vals (producer_step (2 ^ k) n vals s)"
proof -
  let ?c = "length (received (got s))" and ?p = "sent s"
  have r: "ring_ok (2 ^ k) i vals (queue s) ?c ?p" using inv by (simp add: spsc_inv_def Let_def)
  then have le: "?p \<le> ?c + 2 ^ k" by (simp add: ring_ok_def)
  have co: "consumer_ok vals (queue s) ?c ?p (cpc s)" using inv by (simp add: spsc_inv_def Let_def)
  show ?thesis
  proof (cases "ppc s")
    case P_idle
    then show ?thesis using inv by (simp add: spsc_inv_def)
  next
    case (P_tail t)
    then show ?thesis using inv ring_ok_tests(1) [OF r k] le by (auto simp: spsc_inv_def Let_def simp del: of_nat_power)
  next
    case (P_room t)
    then have t: "t = tail (queue s)" "?p < ?c + 2 ^ k" using inv by (simp_all add: spsc_inv_def Let_def)
    have "consumer_ok vals ((queue s)\<lparr>cells := xs\<rparr>) ?c ?p (cpc s)" for xs
      using co by (cases "cpc s") simp_all
    then show ?thesis using inv P_room t ring_ok_write [OF r k t(2)] by (simp add: spsc_inv_def Let_def)
  next
    case (P_written t)
    then have t: "t = tail (queue s)" "?p < ?c + 2 ^ k" "cells (queue s) ! slot_of (2 ^ k) (tail (queue s)) = vals ?p"
      using inv by (auto simp: spsc_inv_def Let_def)
    have "consumer_ok vals ((queue s)\<lparr>tail := x\<rparr>) ?c (Suc ?p) (cpc s)" for x
      using co by (cases "cpc s") simp_all
    then show ?thesis using inv P_written t ring_ok_publish [OF r t(2,3)] by (simp add: spsc_inv_def Let_def)
  qed
qed

lemma consumer_step_inv:
  assumes inv: "spsc_inv (2 ^ k) i vals s" and k: "k < 64"
  shows "spsc_inv (2 ^ k) i vals (consumer_step (2 ^ k) wants s)"
proof -
  let ?c = "length (received (got s))" and ?p = "sent s"
  have r: "ring_ok (2 ^ k) i vals (queue s) ?c ?p" using inv by (simp add: spsc_inv_def Let_def)
  then have le: "?c \<le> ?p" by (simp add: ring_ok_def)
  have po: "producer_ok (2 ^ k) vals (queue s) ?c ?p (ppc s)" using inv by (simp add: spsc_inv_def Let_def)
  show ?thesis
  proof (cases "cpc s")
    case C_idle
    then show ?thesis using inv by (simp add: spsc_inv_def)
  next
    case (C_head h)
    then show ?thesis using inv ring_ok_tests(2) [OF r k] le by (auto simp: spsc_inv_def Let_def)
  next
    case (C_some h)
    then have h: "h = head (queue s)" "?c < ?p" using inv by (simp_all add: spsc_inv_def Let_def)
    then show ?thesis using inv C_some ring_ok_take(2) [OF r h(2)] by (simp add: spsc_inv_def Let_def)
  next
    case (C_read h v)
    then have h: "h = head (queue s)" "?c < ?p" "v = vals ?c" using inv by (simp_all add: spsc_inv_def Let_def)
    have "producer_ok (2 ^ k) vals ((queue s)\<lparr>head := x\<rparr>) (Suc ?c) ?p (ppc s)" for x
      using po by (cases "ppc s") simp_all
    then show ?thesis using inv C_read h ring_ok_take(1) [OF r h(2)] by (simp add: spsc_inv_def Let_def)
  qed
qed

lemma spsc_run_inv:
  "spsc_inv (2 ^ k) i vals s \<Longrightarrow> k < 64 \<Longrightarrow> spsc_inv (2 ^ k) i vals (spsc_run (2 ^ k) n vals wants bs s)"
  by (induction bs arbitrary: s)
    (auto simp: spsc_run_def spsc_step_def producer_step_inv consumer_step_inv simp del: producer_step.simps consumer_step.simps)

text \<open>The producer never counts past its \<open>n\<close> values.\<close>

definition sent_ok :: "nat \<Rightarrow> 'a spsc \<Rightarrow> bool" where
  "sent_ok n s \<longleftrightarrow> sent s \<le> n \<and> (ppc s \<noteq> P_idle \<longrightarrow> sent s < n)"

lemma spsc_step_sent: "sent_ok n s \<Longrightarrow> sent_ok n (spsc_step cap n vals wants b s)"
  by (cases "ppc s"; cases "cpc s") (auto simp: sent_ok_def spsc_step_def)

lemma spsc_run_sent: "sent_ok n s \<Longrightarrow> sent_ok n (spsc_run cap n vals wants bs s)"
  by (induction bs arbitrary: s) (auto simp: spsc_run_def spsc_step_sent)

lemma spsc_run_append: "spsc_run cap n vals wants (bs @ bs') s = spsc_run cap n vals wants bs' (spsc_run cap n vals wants bs s)"
  by (simp add: spsc_run_def)

lemma spsc_run_Cons: "spsc_run cap n vals wants (b # bs) s = spsc_run cap n vals wants bs (spsc_step cap n vals wants b s)"
  by (simp add: spsc_run_def)

subsection \<open>Progress\<close>

text \<open>Each thread alone finishes its operation in at most four steps when there is room, or a value.\<close>

lemma consumer_progress:
  assumes inv: "spsc_inv (2 ^ k) i vals s" and k: "k < 64" and c: "length (received (got s)) < sent s"
    and wants: "\<And>rs. length (received rs) = length (received (got s)) \<Longrightarrow> wants rs"
  shows "\<exists>m \<le> 4. \<exists>v. received (got (spsc_run (2 ^ k) n vals wants (replicate m False) s)) = received (got s) @ [v] \<and>
    sent (spsc_run (2 ^ k) n vals wants (replicate m False) s) = sent s"
proof -
  have r: "ring_ok (2 ^ k) i vals (queue s) (length (received (got s))) (sent s)"
    using inv by (simp add: spsc_inv_def Let_def)
  have ne: "head (queue s) \<noteq> tail (queue s)" using ring_ok_tests(2) [OF r k] c by simp
  have w: "wants (got s)" using wants by simp
  have 1: "\<exists>v. received (got (spsc_run (2 ^ k) n vals wants [False] s)) = received (got s) @ [v] \<and>
      sent (spsc_run (2 ^ k) n vals wants [False] s) = sent s" if "cpc s = C_read h v" for h v
    using that by (simp add: spsc_run_def spsc_step_def)
  show ?thesis
  proof (cases "cpc s")
    case C_idle
    then have "\<exists>v. received (got (spsc_run (2 ^ k) n vals wants (replicate 4 False) s)) = received (got s) @ [v] \<and>
        sent (spsc_run (2 ^ k) n vals wants (replicate 4 False) s) = sent s"
      using w ne by (simp add: spsc_run_def spsc_step_def numeral_eq_Suc)
    then show ?thesis by blast
  next
    case (C_head h)
    then have "h = head (queue s)" using inv by (simp add: spsc_inv_def Let_def)
    then have "\<exists>v. received (got (spsc_run (2 ^ k) n vals wants (replicate 3 False) s)) = received (got s) @ [v] \<and>
        sent (spsc_run (2 ^ k) n vals wants (replicate 3 False) s) = sent s"
      using C_head ne by (simp add: spsc_run_def spsc_step_def numeral_eq_Suc)
    then show ?thesis by (intro exI [of _ 3]) simp
  next
    case (C_some h)
    then have "\<exists>v. received (got (spsc_run (2 ^ k) n vals wants (replicate 2 False) s)) = received (got s) @ [v] \<and>
        sent (spsc_run (2 ^ k) n vals wants (replicate 2 False) s) = sent s"
      by (simp add: spsc_run_def spsc_step_def numeral_eq_Suc)
    then show ?thesis by (intro exI [of _ 2]) simp
  next
    case (C_read h v)
    then show ?thesis using 1 by (intro exI [of _ 1]) simp
  qed
qed

lemma producer_progress:
  assumes inv: "spsc_inv (2 ^ k) i vals s" and k: "k < 64" and c: "sent s < length (received (got s)) + 2 ^ k"
    and n: "sent s < n"
  shows "\<exists>m \<le> 4. sent (spsc_run (2 ^ k) n vals wants (replicate m True) s) = Suc (sent s) \<and>
    got (spsc_run (2 ^ k) n vals wants (replicate m True) s) = got s"
proof -
  have r: "ring_ok (2 ^ k) i vals (queue s) (length (received (got s))) (sent s)"
    using inv by (simp add: spsc_inv_def Let_def)
  have room: "\<not> word_of_nat (2 ^ k) \<le> tail (queue s) - head (queue s)"
    using ring_ok_tests(1) [OF r k] c by simp
  show ?thesis
  proof (cases "ppc s")
    case P_idle
    then show ?thesis using n room
      by (intro exI [of _ 4]) (simp add: spsc_run_def spsc_step_def numeral_eq_Suc del: of_nat_power)
  next
    case (P_tail t)
    then have "t = tail (queue s)" using inv by (simp add: spsc_inv_def Let_def)
    then show ?thesis using P_tail room
      by (intro exI [of _ 3]) (simp add: spsc_run_def spsc_step_def numeral_eq_Suc del: of_nat_power)
  next
    case (P_room t)
    then show ?thesis by (intro exI [of _ 2]) (simp add: spsc_run_def spsc_step_def numeral_eq_Suc)
  next
    case (P_written t)
    then show ?thesis by (intro exI [of _ 1]) (simp add: spsc_run_def spsc_step_def)
  qed
qed

lemma spsc_can_finish:
  assumes k: "k < 64"
  shows "spsc_inv (2 ^ k) i vals s \<Longrightarrow> sent_ok n s \<Longrightarrow>
    \<exists>bs. length (received (got (spsc_run (2 ^ k) n vals (\<lambda>rs. length (received rs) < n) bs s))) = n"
proof (induction "2 * n - length (received (got s)) - sent s" arbitrary: s rule: less_induct)
  case less
  let ?w = "\<lambda>rs. length (received rs) < n" and ?c = "length (received (got s))"
  have r: "ring_ok (2 ^ k) i vals (queue s) ?c (sent s)" using less.prems(1) by (simp add: spsc_inv_def Let_def)
  have le: "?c \<le> sent s" "sent s \<le> n" using r less.prems(2) by (simp_all add: ring_ok_def sent_ok_def)
  have go: ?case if m: "?c + sent s < length (received (got s')) + sent s'" and s': "s' = spsc_run (2 ^ k) n vals ?w bs s" for bs s'
  proof -
    have i': "spsc_inv (2 ^ k) i vals s'" "sent_ok n s'"
      unfolding s' using spsc_run_inv [OF less.prems(1) k] spsc_run_sent [OF less.prems(2)] by auto
    have "length (received (got s')) \<le> sent s'" "sent s' \<le> n"
      using i' by (auto simp: spsc_inv_def Let_def ring_ok_def sent_ok_def)
    then have "2 * n - length (received (got s')) - sent s' < 2 * n - ?c - sent s" using m le by linarith
    then obtain bs' where "length (received (got (spsc_run (2 ^ k) n vals ?w bs' s'))) = n"
      using less.hyps i' by blast
    then show ?thesis unfolding s' spsc_run_append [symmetric] by blast
  qed
  consider "?c = n" | "?c < sent s" | "?c = sent s" "sent s < n" using le by linarith
  then show ?case
  proof cases
    case 1
    then show ?thesis by (intro exI [of _ "[]"]) (simp add: spsc_run_def)
  next
    case 2
    have "\<exists>m \<le> 4. \<exists>v. received (got (spsc_run (2 ^ k) n vals ?w (replicate m False) s)) = received (got s) @ [v] \<and>
        sent (spsc_run (2 ^ k) n vals ?w (replicate m False) s) = sent s"
      by (rule consumer_progress [OF less.prems(1) k 2]) (use 2 le in simp)
    then show ?thesis using go by (metis length_append_singleton add_Suc lessI)
  next
    case 3
    have "(0::nat) < 2 ^ k" by simp
    then have "\<exists>m \<le> 4. sent (spsc_run (2 ^ k) n vals ?w (replicate m True) s) = Suc (sent s) \<and>
        got (spsc_run (2 ^ k) n vals ?w (replicate m True) s) = got s"
      by (intro producer_progress [OF less.prems(1) k _ 3(2)]) (use 3 in simp)
    then show ?thesis using go by (metis add_Suc_right lessI)
  qed
qed

subsection \<open>A call without interference\<close>

text \<open>The steps of one call in a row are the call.\<close>

lemma producer_alone:
  assumes "ppc s = P_idle" "sent s < n"
  shows "case queue_push cap (vals (sent s)) (queue s) of
      (True, q) \<Rightarrow> spsc_run cap n vals wants [True, True, True, True] s = s\<lparr>queue := q, sent := Suc (sent s)\<rparr>
    | (False, q) \<Rightarrow> spsc_run cap n vals wants [True, True] s = s\<lparr>queue := q\<rparr>"
  using assms by (cases s) (auto simp: queue_push_def spsc_run_def spsc_step_def Let_def)

lemma consumer_alone:
  assumes "cpc s = C_idle" "wants (got s)"
  shows "case queue_pop cap (queue s) of
      (Some v, q) \<Rightarrow> spsc_run cap n vals wants [False, False, False, False] s = s\<lparr>queue := q, got := got s @ [Some v]\<rparr>
    | (None, q) \<Rightarrow> spsc_run cap n vals wants [False, False] s = s\<lparr>queue := q, got := got s @ [None]\<rparr>"
  using assms by (cases s) (auto simp: queue_pop_def spsc_run_def spsc_step_def Let_def)

subsection \<open>The audio threads\<close>

lemma audio_run_spsc:
  "audio_run samples junk bs =
     spsc_run AUDIO_CAPACITY (SAMPLE_RATE * 2) samples (\<lambda>rs. length rs < audio_frames) bs (spsc_start junk 0)"
proof -
  have "(\<lambda>b. if b then dsp_producer_step samples else audio_callback_step) =
      spsc_step AUDIO_CAPACITY (SAMPLE_RATE * 2) samples (\<lambda>rs. length rs < audio_frames)"
    by (auto simp: fun_eq_iff spsc_step_def dsp_producer_step_def audio_callback_step_def
        simp del: producer_step.simps consumer_step.simps)
  then show ?thesis by (simp add: audio_run_def spsc_run_def)
qed

text \<open>The callback on an empty ring plays silence.\<close>

lemma audio_silence:
  assumes "m \<le> F"
  shows "spsc_run cap n vals (\<lambda>rs. length rs < F) (replicate (2 * m) False) (spsc_start junk i) =
    (spsc_start junk i)\<lparr>got := replicate m None\<rparr>"
  using assms
proof (induction m)
  case (Suc m)
  have e: "replicate (2 * Suc m) False = replicate (2 * m) False @ [False, False]"
  proof -
    have "2 * Suc m = 2 * m + 2" by simp
    then show ?thesis by (simp only: replicate_add) (simp add: numeral_eq_Suc)
  qed
  have "spsc_run cap n vals (\<lambda>rs. length rs < F) (replicate (2 * m) False) (spsc_start junk i) =
      (spsc_start junk i)\<lparr>got := replicate m None\<rparr>" using Suc by simp
  then show ?case unfolding e spsc_run_append
    using Suc.prems by (simp add: spsc_run_def spsc_step_def spsc_start_def ring_initialize_def replicate_append_same)
qed (simp add: spsc_run_def spsc_start_def)

lemma consumer_stopped:
  "cpc s = C_idle \<Longrightarrow> \<not> wants (got s) \<Longrightarrow>
     got (spsc_run cap n vals wants bs s) = got s \<and> cpc (spsc_run cap n vals wants bs s) = C_idle"
proof (induction bs arbitrary: s)
  case (Cons b bs)
  have "got (spsc_step cap n vals wants b s) = got s \<and> cpc (spsc_step cap n vals wants b s) = C_idle"
    using Cons.prems by (cases b; cases "ppc s") (auto simp: spsc_step_def)
  then show ?case using Cons by (simp add: spsc_run_Cons)
qed (simp add: spsc_run_def)

subsection \<open>The queue of Day 11\<close>

text \<open>
  Here the indices stay below \<open>CAPACITY\<close> and one cell stays free. A push claims its cell with a
  compare-and-swap on the tail and fills it afterwards; a pop claims with the head and reads afterwards.
  \<open>spurious\<close> lets the weak compare-and-swap fail without a reason.
\<close>

record 'a ring11 =
  data11 :: "'a list"
  head11 :: nat
  tail11 :: nat

definition initialize11 :: "'a ring11 \<Rightarrow> 'a ring11" where
  "initialize11 q = q\<lparr>head11 := 0, tail11 := 0\<rparr>"

datatype ppc11 = T_idle | T_tail nat | T_swap nat nat | T_claimed nat
datatype cpc11 = H_idle | H_head nat | H_swap nat nat | H_claimed nat

record 'a spsc11 =
  queue11 :: "'a ring11"
  sent11 :: nat
  ppc11 :: ppc11
  got11 :: "'a option list"
  cpc11 :: cpc11

fun push_step11 :: "(nat \<Rightarrow> 'a) \<Rightarrow> bool \<Rightarrow> 'a spsc11 \<Rightarrow> 'a spsc11" where
  "push_step11 vals spurious s =
     (case ppc11 s of
        T_idle \<Rightarrow> s\<lparr>ppc11 := T_tail (tail11 (queue11 s))\<rparr>
      | T_tail t \<Rightarrow>
          (let next_tail = (t + 1) mod CAPACITY in
           if next_tail = head11 (queue11 s) then s\<lparr>ppc11 := T_idle\<rparr> else s\<lparr>ppc11 := T_swap t next_tail\<rparr>)
      | T_swap t next_tail \<Rightarrow>
          if tail11 (queue11 s) = t \<and> \<not> spurious
          then s\<lparr>queue11 := (queue11 s)\<lparr>tail11 := next_tail\<rparr>, ppc11 := T_claimed t\<rparr>
          else s\<lparr>ppc11 := T_tail (tail11 (queue11 s))\<rparr>
      | T_claimed t \<Rightarrow>
          s\<lparr>queue11 := (queue11 s)\<lparr>data11 := (data11 (queue11 s))[t := vals (sent11 s)]\<rparr>,
            sent11 := Suc (sent11 s), ppc11 := T_idle\<rparr>)"

fun pop_step11 :: "bool \<Rightarrow> 'a spsc11 \<Rightarrow> 'a spsc11" where
  "pop_step11 spurious s =
     (case cpc11 s of
        H_idle \<Rightarrow> s\<lparr>cpc11 := H_head (head11 (queue11 s))\<rparr>
      | H_head h \<Rightarrow>
          if h = tail11 (queue11 s) then s\<lparr>got11 := got11 s @ [None], cpc11 := H_idle\<rparr>
          else s\<lparr>cpc11 := H_swap h ((h + 1) mod CAPACITY)\<rparr>
      | H_swap h next_head \<Rightarrow>
          if head11 (queue11 s) = h \<and> \<not> spurious
          then s\<lparr>queue11 := (queue11 s)\<lparr>head11 := next_head\<rparr>, cpc11 := H_claimed h\<rparr>
          else s\<lparr>cpc11 := H_head (head11 (queue11 s))\<rparr>
      | H_claimed h \<Rightarrow> s\<lparr>got11 := got11 s @ [Some (data11 (queue11 s) ! h)], cpc11 := H_idle\<rparr>)"

text \<open>A schedule says for each step which thread runs and whether a compare-and-swap fails spuriously.\<close>

definition run11 :: "(nat \<Rightarrow> 'a) \<Rightarrow> (bool \<times> bool) list \<Rightarrow> 'a spsc11 \<Rightarrow> 'a spsc11" where
  "run11 vals bs s = fold (\<lambda>(b, sp) s. if b then push_step11 vals sp s else pop_step11 sp s) bs s"

definition start11 :: "'a list \<Rightarrow> 'a spsc11" where
  "start11 junk = \<lparr>queue11 = initialize11 \<lparr>data11 = junk, head11 = 0, tail11 = 0\<rparr>, sent11 = 0, ppc11 = T_idle,
     got11 = [], cpc11 = H_idle\<rparr>"

abbreviation push_alone :: "(bool \<times> bool) list" where
  "push_alone \<equiv> [(True, False), (True, False), (True, False), (True, False)]"

abbreviation pop_alone :: "(bool \<times> bool) list" where
  "pop_alone \<equiv> [(False, False), (False, False), (False, False), (False, False)]"

text \<open>\<^verbatim>\<open>main\<close> of Day 11 pushes one value and pops it, in one thread.\<close>

lemma main11:
  "length junk = CAPACITY \<Longrightarrow>
     got11 (run11 vals (push_alone @ pop_alone) (start11 junk)) = [Some (vals 0)]"
  by (simp add: run11_def start11_def initialize11_def CAPACITY_def Let_def)

text \<open>
  With two threads a pop can return what was in the cell before the push wrote it: the tail is published
  when the cell is claimed, not when it is filled.
\<close>

lemma spsc11_stale_read:
  assumes "length junk = CAPACITY"
  shows "\<exists>bs. got11 (run11 vals bs (start11 junk)) = [Some (junk ! 0)] \<and> sent11 (run11 vals bs (start11 junk)) = 0"
  by (intro exI [of _ "butlast push_alone @ pop_alone"])
    (simp add: run11_def start11_def initialize11_def CAPACITY_def)

subsection \<open>Properties\<close>

text \<open>C11: in every interleaving of one producer and one consumer, from any start index (wrap-around of
\<^verbatim>\<open>size_t\<close> included), the values received are exactly the first values sent, in order; at most
\<^verbatim>\<open>CAPACITY\<close> are in flight; and the cell being written is never the cell being read.\<close>
theorem spsc_fifo:
  fixes vals :: "nat \<Rightarrow> 'a" and n i bs wants junk
  assumes "k < 64" "length junk = 2 ^ k"
  defines "s \<equiv> spsc_run (2 ^ k) n vals wants bs (spsc_start junk i)"
  shows "received (got s) = map vals [0..<length (received (got s))] \<and> length (received (got s)) \<le> sent s \<and>
    sent s \<le> length (received (got s)) + 2 ^ k \<and> sent s \<le> n \<and>
    (\<forall>t h. ppc s = P_room t \<longrightarrow> cpc s = C_some h \<longrightarrow> slot_of (2 ^ k) t \<noteq> slot_of (2 ^ k) h)"
proof -
  let ?c = "length (received (got s))"
  have inv: "spsc_inv (2 ^ k) i vals s"
    unfolding s_def by (rule spsc_run_inv [OF spsc_start_inv [OF assms(2)] assms(1)])
  then have r: "ring_ok (2 ^ k) i vals (queue s) ?c (sent s)" by (simp add: spsc_inv_def Let_def)
  have h1: "received (got s) = map vals [0..<?c]" using inv by (simp add: spsc_inv_def Let_def)
  have h2: "?c \<le> sent s" "sent s \<le> ?c + 2 ^ k" using r by (simp_all add: ring_ok_def)
  have "sent_ok n s" unfolding s_def by (rule spsc_run_sent) (simp add: sent_ok_def spsc_start_def)
  then have h3: "sent s \<le> n" by (simp add: sent_ok_def)
  have h4: "slot_of (2 ^ k) t \<noteq> slot_of (2 ^ k) h" if p: "ppc s = P_room t" and c: "cpc s = C_some h" for t h
  proof -
    have "t = tail (queue s)" "sent s < ?c + 2 ^ k" "h = i + word_of_nat ?c" "?c < sent s"
      using inv p c r by (simp_all add: spsc_inv_def Let_def ring_ok_def)
    then show ?thesis using ring_ok_write(3) [OF r assms(1), of ?c] by simp
  qed
  show ?thesis using h1 h2 h3 h4 by blast
qed

lemma spsc_fifo_witness:
  "received (got (spsc_run (2 ^ 1) 3 (\<lambda>j. j * 5) (\<lambda>_. True) [True, False, True, True, False, True, False, False, False, False]
     (spsc_start [0, 0] (-1)))) = map (\<lambda>j. j * 5) [0..<1]"
proof -
  have "length (received (got (spsc_run (2 ^ 1) 3 (\<lambda>j. j * 5) (\<lambda>_. True)
      [True, False, True, True, False, True, False, False, False, False] (spsc_start [0, 0::nat] (-1))))) = 1"
    by (simp add: spsc_run_def spsc_step_def spsc_start_def ring_initialize_def slot_of_def MASK_def received_def)
  then show ?thesis
    using spsc_fifo [of 1 "[0, 0::nat]" 3 "\<lambda>j. j * 5" "\<lambda>_. True"
        "[True, False, True, True, False, True, False, False, False, False]" "-1"] by simp
qed

text \<open>in the stress test of \<^verbatim>\<open>SPSC.c\<close> no assertion of the consumer fails under any schedule, and from
every state it reaches the threads can still finish, with all \<^verbatim>\<open>NUM_OPS\<close> values received.\<close>
theorem spsc_stress_test:
  assumes "length junk = CAPACITY"
  shows "consumer_asserts (spsc_main_run junk bs) \<and>
    (\<exists>bs'. received (got (spsc_main_run junk (bs @ bs'))) = map word_of_nat [0..<NUM_OPS])"
proof
  have cap: "CAPACITY = 2 ^ 10" by (simp add: CAPACITY_def)
  have inv: "spsc_inv (2 ^ 10) (-1 - 1000) word_of_nat (spsc_main_run junk bs)" for bs
    unfolding spsc_main_run_def cap by (intro spsc_run_inv spsc_start_inv) (use assms cap in auto)
  then have fifo: "received (got (spsc_main_run junk bs)) = map word_of_nat [0..<length (received (got (spsc_main_run junk bs)))]" for bs
    unfolding spsc_inv_def Let_def by blast
  show "consumer_asserts (spsc_main_run junk bs)"
    unfolding consumer_asserts_def fifo [symmetric] by (simp add: list.rel_eq)
  have "sent_ok NUM_OPS (spsc_main_run junk bs)"
    unfolding spsc_main_run_def by (rule spsc_run_sent) (simp add: sent_ok_def spsc_start_def)
  with inv obtain bs' where "length (received (got (spsc_run (2 ^ 10) NUM_OPS word_of_nat
      (\<lambda>rs. length (received rs) < NUM_OPS) bs' (spsc_main_run junk bs)))) = NUM_OPS"
    using spsc_can_finish [of 10] by fastforce
  then have "length (received (got (spsc_main_run junk (bs @ bs')))) = NUM_OPS"
    by (simp add: spsc_main_run_def spsc_run_append cap)
  then show "\<exists>bs'. received (got (spsc_main_run junk (bs @ bs'))) = map word_of_nat [0..<NUM_OPS]"
    using fifo by metis
qed

lemma spsc_stress_test_witness:
  "\<exists>bs'. received (got (spsc_main_run (replicate CAPACITY 7) ([True, False] @ bs'))) = map word_of_nat [0..<NUM_OPS]"
proof -
  have "length (replicate CAPACITY (7::u64)) = CAPACITY" by simp
  from spsc_stress_test [OF this] show ?thesis by blast
qed

text \<open>what the audio callback plays is, silences aside, exactly the first samples in order; but its
\<^verbatim>\<open>main\<close> can hang: after enough silences it stops popping while the producer still has more samples than
the ring holds, so no schedule ever lets the producer finish.\<close>
theorem audio_callback:
  assumes "length junk = AUDIO_CAPACITY"
  shows "received (got (audio_run samples junk bs)) = map samples [0..<length (received (got (audio_run samples junk bs)))] \<and>
    (\<exists>bs. cpc (audio_run samples junk bs) = C_idle \<and> length (audio_out silence (audio_run samples junk bs)) = audio_frames \<and>
      (\<forall>bs'. sent (audio_run samples junk (bs @ bs')) < SAMPLE_RATE * 2))"
proof (rule conjI)
  have cap: "AUDIO_CAPACITY = 2 ^ 13" by (simp add: AUDIO_CAPACITY_def)
  have inv: "spsc_inv (2 ^ 13) 0 samples (audio_run samples junk bs)" for bs
    unfolding audio_run_spsc cap by (intro spsc_run_inv spsc_start_inv) (use assms cap in auto)
  then show "received (got (audio_run samples junk bs)) = map samples [0..<length (received (got (audio_run samples junk bs)))]"
    unfolding spsc_inv_def Let_def by blast
  let ?bs = "replicate (2 * audio_frames) False"
  have run: "audio_run samples junk ?bs = (spsc_start junk 0)\<lparr>got := replicate audio_frames None\<rparr>"
    unfolding audio_run_spsc by (rule audio_silence) simp
  have "sent (audio_run samples junk (?bs @ bs')) < SAMPLE_RATE * 2" for bs'
  proof -
    have "got (audio_run samples junk (?bs @ bs')) = replicate audio_frames None"
      using consumer_stopped [of "audio_run samples junk ?bs" "\<lambda>rs. length rs < audio_frames"] run
      by (simp add: audio_run_spsc spsc_run_append spsc_start_def)
    then have "received (got (audio_run samples junk (?bs @ bs'))) = []" by (simp add: received_def)
    then have "sent (audio_run samples junk (?bs @ bs')) \<le> 2 ^ 13"
      using inv [of "?bs @ bs'"] by (simp add: spsc_inv_def Let_def ring_ok_def)
    then show ?thesis by (simp add: SAMPLE_RATE_def)
  qed
  then show "\<exists>bs. cpc (audio_run samples junk bs) = C_idle \<and> length (audio_out silence (audio_run samples junk bs)) = audio_frames \<and>
      (\<forall>bs'. sent (audio_run samples junk (bs @ bs')) < SAMPLE_RATE * 2)"
    using run by (intro exI [of _ ?bs]) (simp add: audio_out_def spsc_start_def)
qed

lemma audio_callback_witness:
  "\<exists>bs. \<forall>bs'. sent (audio_run (\<lambda>j. j) (replicate AUDIO_CAPACITY 0) (bs @ bs')) < SAMPLE_RATE * 2"
proof -
  have "length (replicate AUDIO_CAPACITY (0::nat)) = AUDIO_CAPACITY" by simp
  from audio_callback [OF this] show ?thesis by blast
qed

end
