(* ===== verification/Treiber_Stack.thy ===== *)
theory Treiber_Stack
  imports Linked_Lists
begin

text \<open>
  The lock-free stack of \<^verbatim>\<open>Phase-2/Day33/C/TrieberStack.c\<close>: a tagged head pointer that is swapped as one
  128-bit word, hazard pointers that keep a node from being freed while another thread reads it, and a
  list of retired nodes under a mutex.

  Any number of threads run. A step is one access to shared memory by one thread; a schedule is a list of
  steps. What a thread does when it is idle (push a node it got from \<^verbatim>\<open>malloc\<close>, pop, sweep) and whether its
  next weak compare-and-swap fails spuriously is part of the schedule, so that the producers and consumers of
  the stress test are among the threads covered. The two critical sections of the mutex that touch nothing
  but the retire list are one step each. Accesses are sequentially consistent: the weaker orderings of the
  code are not modelled.
\<close>

subsection \<open>Data\<close>

definition MAX_HAZARD_THREADS :: nat where "MAX_HAZARD_THREADS = 32"

record Node =
  nd_value :: int
  nd_next :: ptr
  nd_retire :: ptr

record TaggedPtr =
  tp_ptr :: ptr
  tp_tag :: u64

text \<open>Where a thread is in \<^verbatim>\<open>stack_push\<close>, \<^verbatim>\<open>stack_pop\<close>, \<^verbatim>\<open>retire_node\<close> and \<^verbatim>\<open>retire_sweep\<close>.\<close>

datatype pc =
    Idle
  | Push_load addr
  | Push_link addr TaggedPtr
  | Push_cas addr TaggedPtr
  | Pop_load
  | Pop_publish TaggedPtr
  | Pop_recheck TaggedPtr
  | Pop_deref TaggedPtr
  | Pop_cas TaggedPtr ptr
  | Pop_clear ptr
  | Retire_scan addr nat
  | Retire_lock addr
  | Sweep_loop ptr ptr
  | Sweep_scan ptr addr ptr nat

text \<open>What the successful operations did, in the order of their compare-and-swaps.\<close>

datatype stack_op = Op_push int | Op_pop int | Op_empty

record tstack =
  nodes :: "Node heap"
  top :: TaggedPtr
  hazard :: "ptr list"
  slots :: "nat \<Rightarrow> nat option"
  next_slot :: nat
  lock :: "nat option"
  retired :: ptr
  pcs :: "nat \<Rightarrow> pc"
  ops :: "stack_op list"
  aborted :: bool

datatype client = Do_push int addr Node | Do_pop | Do_sweep

subsection \<open>One step of one thread\<close>

definition goto :: "nat \<Rightarrow> pc \<Rightarrow> tstack \<Rightarrow> tstack" where
  "goto t p s = s\<lparr>pcs := (pcs s)(t := p)\<rparr>"

definition set_hazard :: "nat \<Rightarrow> ptr \<Rightarrow> tstack \<Rightarrow> tstack" where
  "set_hazard t p s = (case slots s t of None \<Rightarrow> s | Some i \<Rightarrow> s\<lparr>hazard := (hazard s)[i := p]\<rparr>)"

definition value_at :: "tstack \<Rightarrow> addr \<Rightarrow> int" where
  "value_at s a = (case nodes s a of None \<Rightarrow> 0 | Some n \<Rightarrow> nd_value n)"

text \<open>A thread takes its hazard slot on its first pop; the assertion stops the program when none is left.\<close>

definition hazard_slot_for_this_thread :: "nat \<Rightarrow> tstack \<Rightarrow> tstack" where
  "hazard_slot_for_this_thread t s =
     (case slots s t of
        Some i \<Rightarrow> s
      | None \<Rightarrow>
          if next_slot s < MAX_HAZARD_THREADS
          then s\<lparr>slots := (slots s)(t := Some (next_slot s)), next_slot := Suc (next_slot s)\<rparr>
          else s\<lparr>next_slot := Suc (next_slot s), aborted := True\<rparr>)"

definition stack_push_step :: "nat \<Rightarrow> bool \<Rightarrow> pc \<Rightarrow> tstack \<Rightarrow> tstack option" where
  "stack_push_step t spurious p s =
     (case p of
        Push_load a \<Rightarrow> Some (goto t (Push_link a (top s)) s)
      | Push_link a old \<Rightarrow>
          map_option (\<lambda>h. goto t (Push_cas a old) (s\<lparr>nodes := h\<rparr>))
            (store (Some a) (nd_next_update (\<lambda>_. tp_ptr old)) (nodes s))
      | Push_cas a old \<Rightarrow>
          if top s = old \<and> \<not> spurious
          then Some (goto t Idle (s\<lparr>top := \<lparr>tp_ptr = Some a, tp_tag = tp_tag old + 1\<rparr>, ops := ops s @ [Op_push (value_at s a)]\<rparr>))
          else Some (goto t (Push_link a (top s)) s)
      | _ \<Rightarrow> Some s)"

definition stack_pop_step :: "nat \<Rightarrow> bool \<Rightarrow> pc \<Rightarrow> tstack \<Rightarrow> tstack option" where
  "stack_pop_step t spurious p s =
     (case p of
        Pop_load \<Rightarrow>
          if tp_ptr (top s) = None then Some (goto t (Pop_clear None) (s\<lparr>ops := ops s @ [Op_empty]\<rparr>))
          else Some (goto t (Pop_publish (top s)) s)
      | Pop_publish tp1 \<Rightarrow> Some (goto t (Pop_recheck tp1) (set_hazard t (tp_ptr tp1) s))
      | Pop_recheck tp1 \<Rightarrow> if top s \<noteq> tp1 then Some (goto t Pop_load s) else Some (goto t (Pop_deref tp1) s)
      | Pop_deref tp1 \<Rightarrow> map_option (\<lambda>n. goto t (Pop_cas tp1 (nd_next n)) s) (load (nodes s) (tp_ptr tp1))
      | Pop_cas tp1 nx \<Rightarrow>
          if top s = tp1 \<and> \<not> spurious
          then Some (goto t (Pop_clear (tp_ptr tp1))
                 (s\<lparr>top := \<lparr>tp_ptr = nx, tp_tag = tp_tag tp1 + 1\<rparr>, ops := ops s @ [Op_pop (value_at s (the (tp_ptr tp1)))]\<rparr>))
          else Some (goto t Pop_load s)
      | Pop_clear p \<Rightarrow>
          Some (goto t (case p of None \<Rightarrow> Idle | Some a \<Rightarrow> Retire_scan a 0) (set_hazard t None s))
      | _ \<Rightarrow> Some s)"

text \<open>The scan of \<^verbatim>\<open>node_is_hazardous\<close> looks at one slot per step.\<close>

definition retire_step :: "nat \<Rightarrow> pc \<Rightarrow> tstack \<Rightarrow> tstack option" where
  "retire_step t p s =
     (case p of
        Retire_scan a i \<Rightarrow>
          if i < MAX_HAZARD_THREADS then
            Some (goto t (if hazard s ! i = Some a then Retire_lock a else Retire_scan a (Suc i)) s)
          else map_option (\<lambda>h. goto t Idle (s\<lparr>nodes := h\<rparr>)) (dealloc (Some a) (nodes s))
      | Retire_lock a \<Rightarrow>
          if lock s \<noteq> None then Some s
          else map_option (\<lambda>h. goto t Idle (s\<lparr>nodes := h, retired := Some a\<rparr>))
                 (store (Some a) (nd_retire_update (\<lambda>_. retired s)) (nodes s))
      | _ \<Rightarrow> Some s)"

definition retire_sweep_step :: "nat \<Rightarrow> pc \<Rightarrow> tstack \<Rightarrow> tstack option" where
  "retire_sweep_step t p s =
     (case p of
        Sweep_loop prev None \<Rightarrow> Some (goto t Idle (s\<lparr>lock := None\<rparr>))
      | Sweep_loop prev (Some c) \<Rightarrow> map_option (\<lambda>n. goto t (Sweep_scan prev c (nd_retire n) 0) s) (nodes s c)
      | Sweep_scan prev c nx i \<Rightarrow>
          if i < MAX_HAZARD_THREADS then
            Some (goto t (if hazard s ! i = Some c then Sweep_loop (Some c) nx else Sweep_scan prev c nx (Suc i)) s)
          else do {
            s \<leftarrow> (if prev = None then Some (s\<lparr>retired := nx\<rparr>)
                 else map_option (\<lambda>h. s\<lparr>nodes := h\<rparr>) (store prev (nd_retire_update (\<lambda>_. nx)) (nodes s)));
            h \<leftarrow> dealloc (Some c) (nodes s);
            Some (goto t (Sweep_loop prev nx) (s\<lparr>nodes := h\<rparr>))
          }
      | _ \<Rightarrow> Some s)"

text \<open>An idle thread starts what its client asks for; \<^verbatim>\<open>malloc\<close> gives an address that is not in use.\<close>

definition client_step :: "nat \<Rightarrow> client \<Rightarrow> tstack \<Rightarrow> tstack option" where
  "client_step t c s =
     (case c of
        Do_push v a junk \<Rightarrow>
          if nodes s a = None
          then Some (goto t (Push_load a) (s\<lparr>nodes := (nodes s)(a \<mapsto> junk\<lparr>nd_value := v\<rparr>)\<rparr>))
          else Some s
      | Do_pop \<Rightarrow> Some (goto t Pop_load (hazard_slot_for_this_thread t s))
      | Do_sweep \<Rightarrow>
          if lock s \<noteq> None then Some s
          else Some (goto t (Sweep_loop None (retired s)) (s\<lparr>lock := Some t\<rparr>)))"

definition thread_step :: "nat \<times> client \<times> bool \<Rightarrow> tstack \<Rightarrow> tstack option" where
  "thread_step e s =
     (case e of (t, c, spurious) \<Rightarrow>
       if aborted s then Some s
       else (case pcs s t of
          Idle \<Rightarrow> client_step t c s
        | Push_load a \<Rightarrow> stack_push_step t spurious (pcs s t) s
        | Push_link a old \<Rightarrow> stack_push_step t spurious (pcs s t) s
        | Push_cas a old \<Rightarrow> stack_push_step t spurious (pcs s t) s
        | Retire_scan a i \<Rightarrow> retire_step t (pcs s t) s
        | Retire_lock a \<Rightarrow> retire_step t (pcs s t) s
        | Sweep_loop prev cur \<Rightarrow> retire_sweep_step t (pcs s t) s
        | Sweep_scan prev c nx i \<Rightarrow> retire_sweep_step t (pcs s t) s
        | _ \<Rightarrow> stack_pop_step t spurious (pcs s t) s))"

fun stack_run :: "(nat \<times> client \<times> bool) list \<Rightarrow> tstack \<Rightarrow> tstack option" where
  "stack_run [] s = Some s"
| "stack_run (e # es) s = do { s \<leftarrow> thread_step e s; stack_run es s }"

definition stack_init :: tstack where
  "stack_init = \<lparr>nodes = (\<lambda>_. None), top = \<lparr>tp_ptr = None, tp_tag = 0\<rparr>, hazard = replicate MAX_HAZARD_THREADS None,
     slots = (\<lambda>_. None), next_slot = 0, lock = None, retired = None, pcs = (\<lambda>_. Idle), ops = [], aborted = False\<rparr>"

subsection \<open>The abstract stack\<close>

fun replay :: "stack_op list \<Rightarrow> int list \<Rightarrow> int list option" where
  "replay [] st = Some st"
| "replay (Op_push v # es) st = replay es (v # st)"
| "replay (Op_pop v # es) st = (case st of [] \<Rightarrow> None | x # st' \<Rightarrow> if x = v then replay es st' else None)"
| "replay (Op_empty # es) st = (if st = [] then replay es st else None)"

lemma replay_append: "replay (es @ es') st = do { st \<leftarrow> replay es st; replay es' st }"
  by (induction es st rule: replay.induct) (auto split: list.splits)

subsection \<open>The invariant\<close>

text \<open>
  The node a thread has for itself: the one it pushes, or the one it popped and retires. The node a thread
  is looking up in the hazard table, and how far it is.
\<close>

fun own :: "pc \<Rightarrow> ptr" where
  "own (Push_load a) = Some a"
| "own (Push_link a old) = Some a"
| "own (Push_cas a old) = Some a"
| "own (Pop_clear p) = p"
| "own (Retire_scan a i) = Some a"
| "own (Retire_lock a) = Some a"
| "own _ = None"

fun scanning :: "pc \<Rightarrow> (addr \<times> nat) option" where
  "scanning (Retire_scan a i) = Some (a, i)"
| "scanning (Sweep_scan p c nx i) = Some (c, i)"
| "scanning _ = None"

fun popping :: "pc \<Rightarrow> bool" where
  "popping Pop_load = True"
| "popping (Pop_publish tp) = True"
| "popping (Pop_recheck tp) = True"
| "popping (Pop_deref tp) = True"
| "popping (Pop_cas tp nx) = True"
| "popping (Pop_clear p) = True"
| "popping _ = False"

fun sweeping :: "pc \<Rightarrow> bool" where
  "sweeping (Sweep_loop p c) = True"
| "sweeping (Sweep_scan p c nx i) = True"
| "sweeping _ = False"

definition mem_ok :: "tstack \<Rightarrow> addr list \<Rightarrow> addr list \<Rightarrow> bool" where
  "mem_ok s stk ret \<longleftrightarrow> chain nd_next (nodes s) (tp_ptr (top s)) stk None \<and>
     chain nd_retire (nodes s) (retired s) ret None \<and> set stk \<inter> set ret = {} \<and>
     (\<forall>t a. own (pcs s t) = Some a \<longrightarrow> a \<in> dom (nodes s) \<and> a \<notin> set stk \<and> a \<notin> set ret) \<and>
     (\<forall>t t' a. own (pcs s t) = Some a \<longrightarrow> own (pcs s t') = Some a \<longrightarrow> t = t') \<and>
     dom (nodes s) = set stk \<union> set ret \<union> {a. \<exists>t. own (pcs s t) = Some a}"

text \<open>What a pushing thread wrote, and what a popping thread read, is still there when the tag is.\<close>

definition tag_ok :: "tstack \<Rightarrow> bool" where
  "tag_ok s \<longleftrightarrow>
     (\<forall>t a old. pcs s t = Push_cas a old \<longrightarrow> map_option nd_next (nodes s a) = Some (tp_ptr old)) \<and>
     (\<forall>t tp. pcs s t = Pop_deref tp \<longrightarrow> unat (tp_tag tp) \<le> unat (tp_tag (top s)) \<and>
        (tp_tag tp = tp_tag (top s) \<longrightarrow> tp = top s)) \<and>
     (\<forall>t tp nx. pcs s t = Pop_cas tp nx \<longrightarrow> unat (tp_tag tp) \<le> unat (tp_tag (top s)) \<and> tp_ptr tp \<noteq> None \<and>
        (tp_tag tp = tp_tag (top s) \<longrightarrow> tp = top s \<and> map_option nd_next (nodes s (the (tp_ptr tp))) = Some nx))"

definition hazard_ok :: "tstack \<Rightarrow> bool" where
  "hazard_ok s \<longleftrightarrow> length (hazard s) = MAX_HAZARD_THREADS \<and>
     (\<forall>t i. slots s t = Some i \<longrightarrow> i < next_slot s \<and> i < MAX_HAZARD_THREADS) \<and>
     (\<forall>t t' i. slots s t = Some i \<longrightarrow> slots s t' = Some i \<longrightarrow> t = t') \<and>
     (\<forall>t. popping (pcs s t) \<longrightarrow> aborted s \<or> slots s t \<noteq> None) \<and>
     (\<forall>t tp. pcs s t = Pop_publish tp \<or> pcs s t = Pop_recheck tp \<or> pcs s t = Pop_deref tp \<longrightarrow> tp_ptr tp \<noteq> None) \<and>
     (\<forall>t tp i. pcs s t = Pop_recheck tp \<or> pcs s t = Pop_deref tp \<longrightarrow> slots s t = Some i \<longrightarrow> hazard s ! i = tp_ptr tp)"

text \<open>
  The node a thread is about to read is allocated, and every thread that might free it has yet to come to
  the slot that names it.
\<close>

definition protect_ok :: "tstack \<Rightarrow> bool" where
  "protect_ok s \<longleftrightarrow>
     (\<forall>t tp a i. pcs s t = Pop_deref tp \<longrightarrow> tp_ptr tp = Some a \<longrightarrow> slots s t = Some i \<longrightarrow> a \<in> dom (nodes s) \<and>
        (\<forall>t' j. scanning (pcs s t') = Some (a, j) \<longrightarrow> j \<le> i))"

definition sweep_ok :: "tstack \<Rightarrow> addr list \<Rightarrow> bool" where
  "sweep_ok s ret \<longleftrightarrow> (\<forall>t. sweeping (pcs s t) \<longleftrightarrow> lock s = Some t) \<and>
     (\<forall>t p c. pcs s t = Sweep_loop p c \<longrightarrow>
        (\<exists>us vs. ret = us @ vs \<and> p = last_ptr us None \<and> c = first_ptr vs None)) \<and>
     (\<forall>t p c nx i. pcs s t = Sweep_scan p c nx i \<longrightarrow>
        (\<exists>us vs. ret = us @ c # vs \<and> p = last_ptr us None \<and> nx = first_ptr vs None))"

definition history_ok :: "tstack \<Rightarrow> addr list \<Rightarrow> bool" where
  "history_ok s stk \<longleftrightarrow> replay (ops s) [] = Some (map (value_at s) stk)"

definition stack_inv :: "tstack \<Rightarrow> addr list \<Rightarrow> addr list \<Rightarrow> bool" where
  "stack_inv s stk ret \<longleftrightarrow>
     mem_ok s stk ret \<and> tag_ok s \<and> hazard_ok s \<and> protect_ok s \<and> sweep_ok s ret \<and> history_ok s stk"

lemma goto_simps [simp]:
  "nodes (goto t p s) = nodes s" "top (goto t p s) = top s" "hazard (goto t p s) = hazard s"
  "slots (goto t p s) = slots s" "next_slot (goto t p s) = next_slot s" "lock (goto t p s) = lock s"
  "retired (goto t p s) = retired s" "pcs (goto t p s) = (pcs s)(t := p)" "ops (goto t p s) = ops s"
  "aborted (goto t p s) = aborted s"
  by (simp_all add: goto_def)

lemma value_at_goto [simp]: "value_at (goto t p s) = value_at s"
  by (simp add: value_at_def fun_eq_iff)

subsection \<open>Moving to another place in the code\<close>

lemma mem_ok_goto: "mem_ok s stk ret \<Longrightarrow> own p = own (pcs s t) \<Longrightarrow> mem_ok (goto t p s) stk ret"
proof -
  assume m: "mem_ok s stk ret" and o: "own p = own (pcs s t)"
  then have "own (pcs (goto t p s) u) = own (pcs s u)" for u by simp
  moreover from this have "{a. \<exists>u. own (pcs (goto t p s) u) = Some a} = {a. \<exists>u. own (pcs s u) = Some a}" by simp
  ultimately show ?thesis using m unfolding mem_ok_def by (simp, blast)
qed

lemma tag_ok_goto:
  assumes "tag_ok s"
    "\<And>a old. p = Push_cas a old \<Longrightarrow> map_option nd_next (nodes s a) = Some (tp_ptr old)"
    "\<And>tp. p = Pop_deref tp \<Longrightarrow> unat (tp_tag tp) \<le> unat (tp_tag (top s)) \<and> (tp_tag tp = tp_tag (top s) \<longrightarrow> tp = top s)"
    "\<And>tp nx. p = Pop_cas tp nx \<Longrightarrow> unat (tp_tag tp) \<le> unat (tp_tag (top s)) \<and> tp_ptr tp \<noteq> None \<and>
        (tp_tag tp = tp_tag (top s) \<longrightarrow> tp = top s \<and> map_option nd_next (nodes s (the (tp_ptr tp))) = Some nx)"
  shows "tag_ok (goto t p s)"
  using assms unfolding tag_ok_def by simp

lemma hazard_ok_goto:
  assumes "hazard_ok s" "popping p \<Longrightarrow> aborted s \<or> slots s t \<noteq> None"
    "\<And>tp. p = Pop_publish tp \<or> p = Pop_recheck tp \<or> p = Pop_deref tp \<Longrightarrow> tp_ptr tp \<noteq> None"
    "\<And>tp i. p = Pop_recheck tp \<or> p = Pop_deref tp \<Longrightarrow> slots s t = Some i \<Longrightarrow> hazard s ! i = tp_ptr tp"
  shows "hazard_ok (goto t p s)"
  using assms unfolding hazard_ok_def by simp

lemma protect_ok_goto:
  assumes pr: "protect_ok s"
    and p: "\<And>a j u tp i. scanning p = Some (a, j) \<Longrightarrow> u \<noteq> t \<Longrightarrow> pcs s u = Pop_deref tp \<Longrightarrow> tp_ptr tp = Some a \<Longrightarrow>
        slots s u = Some i \<Longrightarrow> j \<le> i"
    and d: "\<And>tp a i. p = Pop_deref tp \<Longrightarrow> tp_ptr tp = Some a \<Longrightarrow> slots s t = Some i \<Longrightarrow> a \<in> dom (nodes s) \<and>
        (\<forall>u j. scanning (pcs s u) = Some (a, j) \<longrightarrow> j \<le> i)"
  shows "protect_ok (goto t p s)"
  unfolding protect_ok_def
proof (intro allI impI)
  fix u tp a i
  assume u: "pcs (goto t p s) u = Pop_deref tp" "tp_ptr tp = Some a" "slots (goto t p s) u = Some i"
  have "a \<in> dom (nodes s) \<and> (\<forall>v j. v \<noteq> t \<longrightarrow> scanning (pcs s v) = Some (a, j) \<longrightarrow> j \<le> i)"
  proof (cases "u = t")
    case True
    then show ?thesis using d [of tp a i] u by simp
  next
    case False
    then have "pcs s u = Pop_deref tp" "slots s u = Some i" using u by simp_all
    then show ?thesis using pr u(2) unfolding protect_ok_def by blast
  qed
  moreover have "j \<le> i" if "scanning p = Some (a, j)" for j
  proof (cases "u = t")
    case True
    then show ?thesis using that u(1) by simp
  next
    case False
    then show ?thesis using p [OF that False] u by simp
  qed
  ultimately show "a \<in> dom (nodes (goto t p s)) \<and> (\<forall>v j. scanning (pcs (goto t p s) v) = Some (a, j) \<longrightarrow> j \<le> i)"
    by auto
qed

lemma sweep_ok_goto:
  assumes sw: "sweep_ok s ret" "sweeping p \<longleftrightarrow> sweeping (pcs s t)"
    "\<And>pr c. p = Sweep_loop pr c \<Longrightarrow> \<exists>us vs. ret = us @ vs \<and> pr = last_ptr us None \<and> c = first_ptr vs None"
    "\<And>pr c nx i. p = Sweep_scan pr c nx i \<Longrightarrow> \<exists>us vs. ret = us @ c # vs \<and> pr = last_ptr us None \<and> nx = first_ptr vs None"
  shows "sweep_ok (goto t p s) ret"
proof -
  have "sweeping (pcs (goto t p s) u) = sweeping (pcs s u)" for u using assms(2) by simp
  moreover have "\<exists>us vs. ret = us @ vs \<and> pr = last_ptr us None \<and> c = first_ptr vs None"
    if "pcs (goto t p s) u = Sweep_loop pr c" for u pr c
    using that assms(3) sw unfolding sweep_ok_def by (cases "u = t") simp_all
  moreover have "\<exists>us vs. ret = us @ c # vs \<and> pr = last_ptr us None \<and> nx = first_ptr vs None"
    if "pcs (goto t p s) u = Sweep_scan pr c nx i" for u pr c nx i
    using that assms(4) sw unfolding sweep_ok_def by (cases "u = t") (simp, fastforce)
  ultimately show ?thesis using sw unfolding sweep_ok_def by simp
qed

lemma history_ok_goto: "history_ok s stk \<Longrightarrow> history_ok (goto t p s) stk"
  by (simp add: history_ok_def)

text \<open>A step that changes nothing but where the thread is.\<close>

lemma stack_inv_goto:
  assumes inv: "stack_inv s stk ret" and "own p = own (pcs s t)" "sweeping p \<longleftrightarrow> sweeping (pcs s t)"
    and "\<And>a old. p = Push_cas a old \<Longrightarrow> map_option nd_next (nodes s a) = Some (tp_ptr old)"
    and "\<And>tp. p = Pop_deref tp \<Longrightarrow> unat (tp_tag tp) \<le> unat (tp_tag (top s)) \<and> (tp_tag tp = tp_tag (top s) \<longrightarrow> tp = top s)"
    and "\<And>tp nx. p = Pop_cas tp nx \<Longrightarrow> unat (tp_tag tp) \<le> unat (tp_tag (top s)) \<and> tp_ptr tp \<noteq> None \<and>
        (tp_tag tp = tp_tag (top s) \<longrightarrow> tp = top s \<and> map_option nd_next (nodes s (the (tp_ptr tp))) = Some nx)"
    and "popping p \<Longrightarrow> aborted s \<or> slots s t \<noteq> None"
    and "\<And>tp. p = Pop_publish tp \<or> p = Pop_recheck tp \<or> p = Pop_deref tp \<Longrightarrow> tp_ptr tp \<noteq> None"
    and "\<And>tp i. p = Pop_recheck tp \<or> p = Pop_deref tp \<Longrightarrow> slots s t = Some i \<Longrightarrow> hazard s ! i = tp_ptr tp"
    and "\<And>a j u tp i. scanning p = Some (a, j) \<Longrightarrow> u \<noteq> t \<Longrightarrow> pcs s u = Pop_deref tp \<Longrightarrow> tp_ptr tp = Some a \<Longrightarrow>
        slots s u = Some i \<Longrightarrow> j \<le> i"
    and "\<And>tp a i. p = Pop_deref tp \<Longrightarrow> tp_ptr tp = Some a \<Longrightarrow> slots s t = Some i \<Longrightarrow> a \<in> dom (nodes s) \<and>
        (\<forall>u j. scanning (pcs s u) = Some (a, j) \<longrightarrow> j \<le> i)"
    and "\<And>pr c. p = Sweep_loop pr c \<Longrightarrow> \<exists>us vs. ret = us @ vs \<and> pr = last_ptr us None \<and> c = first_ptr vs None"
    and "\<And>pr c nx i. p = Sweep_scan pr c nx i \<Longrightarrow> \<exists>us vs. ret = us @ c # vs \<and> pr = last_ptr us None \<and> nx = first_ptr vs None"
  shows "stack_inv (goto t p s) stk ret"
proof -
  note i = inv [unfolded stack_inv_def]
  have "mem_ok (goto t p s) stk ret" using i by (intro mem_ok_goto) (use assms(2) in auto)
  moreover have "tag_ok (goto t p s)" by (rule tag_ok_goto) (use i assms(4-6) in blast)+
  moreover have "hazard_ok (goto t p s)" by (rule hazard_ok_goto) (use i assms(7-9) in blast)+
  moreover have "protect_ok (goto t p s)" by (rule protect_ok_goto) (use i assms(10,11) in blast)+
  moreover have "sweep_ok (goto t p s) ret" by (rule sweep_ok_goto) (use i assms(3,12,13) in blast)+
  moreover have "history_ok (goto t p s) stk" using i history_ok_goto by blast
  ultimately show ?thesis by (simp add: stack_inv_def)
qed

subsection \<open>The steps that change shared memory\<close>

lemma stack_invD:
  assumes "stack_inv s stk ret"
  shows "mem_ok s stk ret" "tag_ok s" "hazard_ok s" "protect_ok s" "sweep_ok s ret" "history_ok s stk"
  using assms by (simp_all add: stack_inv_def)

lemma mem_okD:
  assumes "mem_ok s stk ret"
  shows "chain nd_next (nodes s) (tp_ptr (top s)) stk None" "chain nd_retire (nodes s) (retired s) ret None"
    "set stk \<inter> set ret = {}" "own (pcs s t) = Some a \<Longrightarrow> a \<in> dom (nodes s) \<and> a \<notin> set stk \<and> a \<notin> set ret"
    "own (pcs s t) = Some a \<Longrightarrow> own (pcs s u) = Some a \<Longrightarrow> t = u"
    "dom (nodes s) = set stk \<union> set ret \<union> {a. \<exists>t. own (pcs s t) = Some a}"
  using assms unfolding mem_ok_def by blast+

text \<open>Taking and giving up a hazard slot.\<close>

lemma popping_cases: "popping p \<Longrightarrow> sweeping p = False \<and> scanning p = None"
  by (cases p) auto

lemma stack_inv_slot:
  assumes inv: "stack_inv s stk ret" and idle: "pcs s t = Idle" and na: "\<not> aborted s"
  shows "stack_inv (hazard_slot_for_this_thread t s) stk ret"
proof (cases "slots s t = None")
  case True
  note i = stack_invD [OF inv]
  have h: "hazard_ok s" by (rule i(3))
  have lt: "j < next_slot s" if "slots s u = Some j" for u j using h that by (auto simp: hazard_ok_def)
  let ?s = "hazard_slot_for_this_thread t s"
  have same: "nodes ?s = nodes s" "top ?s = top s" "hazard ?s = hazard s" "lock ?s = lock s" "retired ?s = retired s"
    "pcs ?s = pcs s" "ops ?s = ops s" "value_at ?s = value_at s"
    using True by (auto simp: hazard_slot_for_this_thread_def value_at_def fun_eq_iff)
  have sl: "slots ?s u = Some j \<Longrightarrow> u \<noteq> t \<Longrightarrow> slots s u = Some j" for u j
    using True by (auto simp: hazard_slot_for_this_thread_def split: if_splits)
  have "mem_ok ?s stk ret" using i(1) unfolding mem_ok_def same by assumption
  moreover have "tag_ok ?s" using i(2) unfolding tag_ok_def same by assumption
  moreover have "sweep_ok ?s ret" using i(5) unfolding sweep_ok_def same by assumption
  moreover have "history_ok ?s stk" using i(6) unfolding history_ok_def same by assumption
  moreover have "protect_ok ?s"
    unfolding protect_ok_def same
  proof (intro allI impI)
    fix u tp a j assume u: "pcs s u = Pop_deref tp" "tp_ptr tp = Some a" "slots ?s u = Some j"
    then have "slots s u = Some j" using sl idle by (cases "u = t") auto
    then show "a \<in> dom (nodes s) \<and> (\<forall>v k. scanning (pcs s v) = Some (a, k) \<longrightarrow> k \<le> j)"
      using i(4) u(1,2) unfolding protect_ok_def by blast
  qed
  moreover have "hazard_ok ?s"
  proof (cases "next_slot s < MAX_HAZARD_THREADS")
    case False
    then have "slots ?s = slots s" "next_slot ?s = Suc (next_slot s)" "aborted ?s"
      using True by (simp_all add: hazard_slot_for_this_thread_def)
    then show ?thesis using h unfolding hazard_ok_def same by (auto simp: less_SucI)
  next
    case room: True
    then have e: "slots ?s = (slots s)(t := Some (next_slot s))" "next_slot ?s = Suc (next_slot s)" "aborted ?s = aborted s"
      using True by (simp_all add: hazard_slot_for_this_thread_def)
    have "slots s u = Some j \<Longrightarrow> j \<noteq> next_slot s" for u j using lt [of u j] by auto
    then have "slots ?s u = Some j \<Longrightarrow> slots ?s v = Some j \<Longrightarrow> u = v" for u v j
      using h unfolding e hazard_ok_def by (auto split: if_splits)
    moreover have "slots ?s u = Some j \<Longrightarrow> j < Suc (next_slot s) \<and> j < MAX_HAZARD_THREADS" for u j
      using h room unfolding e hazard_ok_def by (auto split: if_splits simp: less_SucI)
    moreover have "popping (pcs s u) \<Longrightarrow> aborted s \<or> slots ?s u \<noteq> None" for u
      using h unfolding e hazard_ok_def by auto
    moreover have "pcs s u = Pop_recheck tp \<or> pcs s u = Pop_deref tp \<Longrightarrow> slots ?s u = Some j \<Longrightarrow> hazard s ! j = tp_ptr tp"
      for u tp j using h idle unfolding e hazard_ok_def by (cases "u = t") auto
    ultimately show ?thesis using h unfolding hazard_ok_def same e(2,3) by blast
  qed
  ultimately show ?thesis by (simp add: stack_inv_def)
next
  case False
  then show ?thesis using inv by (auto simp: hazard_slot_for_this_thread_def)
qed

text \<open>Parts of the invariant that do not see some fields.\<close>

lemma ok_lock [simp]:
  "mem_ok (s\<lparr>lock := l\<rparr>) = mem_ok s" "tag_ok (s\<lparr>lock := l\<rparr>) = tag_ok s" "hazard_ok (s\<lparr>lock := l\<rparr>) = hazard_ok s"
  "protect_ok (s\<lparr>lock := l\<rparr>) = protect_ok s" "history_ok (s\<lparr>lock := l\<rparr>) = history_ok s"
  by (auto simp: mem_ok_def tag_ok_def hazard_ok_def protect_ok_def history_ok_def value_at_def fun_eq_iff)

lemma ok_ops [simp]:
  "mem_ok (s\<lparr>ops := l\<rparr>) = mem_ok s" "tag_ok (s\<lparr>ops := l\<rparr>) = tag_ok s" "hazard_ok (s\<lparr>ops := l\<rparr>) = hazard_ok s"
  "protect_ok (s\<lparr>ops := l\<rparr>) = protect_ok s" "sweep_ok (s\<lparr>ops := l\<rparr>) = sweep_ok s"
  by (auto simp: mem_ok_def tag_ok_def hazard_ok_def protect_ok_def sweep_ok_def fun_eq_iff)

lemma ok_hazard [simp]:
  "mem_ok (s\<lparr>hazard := l\<rparr>) = mem_ok s" "tag_ok (s\<lparr>hazard := l\<rparr>) = tag_ok s"
  "protect_ok (s\<lparr>hazard := l\<rparr>) = protect_ok s" "sweep_ok (s\<lparr>hazard := l\<rparr>) = sweep_ok s"
  "history_ok (s\<lparr>hazard := l\<rparr>) = history_ok s"
  by (auto simp: mem_ok_def tag_ok_def protect_ok_def sweep_ok_def history_ok_def value_at_def fun_eq_iff)

lemma goto_ops [simp]: "goto t p (s\<lparr>ops := l\<rparr>) = (goto t p s)\<lparr>ops := l\<rparr>"
  by (simp add: goto_def)

lemma ok_top [simp]:
  "hazard_ok (s\<lparr>top := l\<rparr>) = hazard_ok s" "protect_ok (s\<lparr>top := l\<rparr>) = protect_ok s"
  "sweep_ok (s\<lparr>top := l\<rparr>) = sweep_ok s"
  by (auto simp: hazard_ok_def protect_ok_def sweep_ok_def fun_eq_iff)

lemma ok_nodes [simp]:
  "hazard_ok (s\<lparr>nodes := l\<rparr>) = hazard_ok s" "sweep_ok (s\<lparr>nodes := l\<rparr>) = sweep_ok s"
  by (auto simp: hazard_ok_def sweep_ok_def fun_eq_iff)

lemma ok_retired [simp]:
  "hazard_ok (s\<lparr>retired := l\<rparr>) = hazard_ok s" "sweep_ok (s\<lparr>retired := l\<rparr>) = sweep_ok s"
  "tag_ok (s\<lparr>retired := l\<rparr>) = tag_ok s" "protect_ok (s\<lparr>retired := l\<rparr>) = protect_ok s"
  "history_ok (s\<lparr>retired := l\<rparr>) = history_ok s"
  by (auto simp: hazard_ok_def sweep_ok_def tag_ok_def protect_ok_def history_ok_def value_at_def fun_eq_iff)

text \<open>
  A thread allocates a node, writes to its own node, or frees it: nobody else has it, and it is on neither
  list.
\<close>

lemma stack_inv_private:
  assumes inv: "stack_inv s stk ret" and a: "a \<notin> set stk" "a \<notin> set ret"
    and others: "\<And>u. u \<noteq> t \<Longrightarrow> own (pcs s u) \<noteq> Some a"
    and old: "own (pcs s t) = Some a \<or> own (pcs s t) = None \<and> nodes s a = None"
    and new: "own p = (if v = None then None else Some a)"
    and simple: "\<not> sweeping p" "\<not> sweeping (pcs s t)" "\<not> popping p" "scanning p = None"
    and cas: "\<And>b old. p = Push_cas b old \<Longrightarrow> map_option nd_next v = Some (tp_ptr old)"
    and free: "\<And>u tp. v = None \<Longrightarrow> pcs s u = Pop_deref tp \<Longrightarrow> tp_ptr tp \<noteq> Some a"
  shows "stack_inv (goto t p (s\<lparr>nodes := (nodes s)(a := v)\<rparr>)) stk ret"
proof -
  note i = stack_invD [OF inv]
  note m = mem_okD [OF i(1)]
  let ?s = "s\<lparr>nodes := (nodes s)(a := v)\<rparr>"
  have np: "p \<noteq> Pop_publish tp" "p \<noteq> Pop_recheck tp" "p \<noteq> Pop_deref tp" "p \<noteq> Pop_cas tp nx" for tp nx
    using simple(3) by auto
  have owns: "own (pcs (goto t p ?s) u) = (if u = t then if v = None then None else Some a else own (pcs s u))" for u
    using new by simp
  have "mem_ok (goto t p ?s) stk ret"
    unfolding mem_ok_def owns
  proof (intro conjI allI impI)
    show "chain nd_next (nodes (goto t p ?s)) (tp_ptr (top (goto t p ?s))) stk None" using m(1) a by simp
    show "chain nd_retire (nodes (goto t p ?s)) (retired (goto t p ?s)) ret None" using m(2) a by simp
    show "set stk \<inter> set ret = {}" by (rule m(3))
  next
    fix u b assume b: "(if u = t then if v = None then None else Some a else own (pcs s u)) = Some b"
    then show "b \<in> dom (nodes (goto t p ?s))" "b \<notin> set stk" "b \<notin> set ret"
      using a m(4) [of u b] others [of u] by (auto split: if_splits)
    fix u' assume b': "(if u' = t then if v = None then None else Some a else own (pcs s u')) = Some b"
    then show "u = u'" using b others [of u] others [of u'] m(5) [of u b u'] by (auto split: if_splits)
  next
    let ?own = "\<lambda>u. if u = t then if v = None then None else Some a else own (pcs s u)"
    have O: "(\<exists>u. ?own u = Some b) \<longleftrightarrow> (\<exists>u. own (pcs s u) = Some b)" if b: "b \<noteq> a" for b
    proof
      assume "\<exists>u. ?own u = Some b"
      then obtain u where "?own u = Some b" by blast
      then have "own (pcs s u) = Some b" using b by (auto split: if_splits)
      then show "\<exists>u. own (pcs s u) = Some b" by blast
    next
      assume "\<exists>u. own (pcs s u) = Some b"
      then obtain u where u: "own (pcs s u) = Some b" by blast
      then have "u \<noteq> t" using b old by auto
      then show "\<exists>u. ?own u = Some b" using u by auto
    qed
    have A: "(\<exists>u. ?own u = Some a) \<longleftrightarrow> v \<noteq> None" using others by auto
    have owned: "{b. \<exists>u. ?own u = Some b} =
        (if v = None then {b. \<exists>u. own (pcs s u) = Some b} - {a} else insert a {b. \<exists>u. own (pcs s u) = Some b})"
    proof (rule set_eqI)
      fix b
      show "b \<in> {b. \<exists>u. ?own u = Some b} \<longleftrightarrow> b \<in> (if v = None then {b. \<exists>u. own (pcs s u) = Some b} - {a}
          else insert a {b. \<exists>u. own (pcs s u) = Some b})"
      proof (cases "b = a")
        case True
        then show ?thesis using A by (cases v) simp_all
      next
        case False
        then show ?thesis unfolding mem_Collect_eq O [OF False] by simp
      qed
    qed
    have "dom (nodes (goto t p ?s)) = (if v = None then dom (nodes s) - {a} else insert a (dom (nodes s)))"
      by auto
    also have "\<dots> = set stk \<union> set ret \<union> {b. \<exists>u. (if u = t then if v = None then None else Some a else own (pcs s u)) = Some b}"
      unfolding owned using m(6) a by auto
    finally show "dom (nodes (goto t p ?s)) = \<dots>" .
  qed
  moreover have "tag_ok (goto t p ?s)"
    unfolding tag_ok_def
  proof (intro conjI allI impI)
    fix u b old assume u: "pcs (goto t p ?s) u = Push_cas b old"
    show "map_option nd_next (nodes (goto t p ?s) b) = Some (tp_ptr old)"
    proof (cases "u = t")
      case True
      then have "b = a" using u new by (auto split: if_splits)
      then show ?thesis using cas True u by simp
    next
      case False
      then have "b \<noteq> a" using others [OF False] u by auto
      then show ?thesis using i(2) u False by (auto simp: tag_ok_def)
    qed
  next
    fix u tp assume "pcs (goto t p ?s) u = Pop_deref tp"
    then show "unat (tp_tag tp) \<le> unat (tp_tag (top (goto t p ?s)))" "tp_tag tp = tp_tag (top (goto t p ?s)) \<Longrightarrow> tp = top (goto t p ?s)"
      using i(2) np(3) unfolding tag_ok_def by (auto split: if_splits)
  next
    fix u tp nx assume u: "pcs (goto t p ?s) u = Pop_cas tp nx"
    then have pu: "pcs s u = Pop_cas tp nx" using np(4) by (auto split: if_splits)
    then show "unat (tp_tag tp) \<le> unat (tp_tag (top (goto t p ?s)))" "tp_ptr tp \<noteq> None"
      using i(2) unfolding tag_ok_def by auto
    assume g: "tp_tag tp = tp_tag (top (goto t p ?s))"
    then have e: "tp = top s" "map_option nd_next (nodes s (the (tp_ptr tp))) = Some nx"
      using i(2) pu unfolding tag_ok_def by auto
    obtain b where b: "tp_ptr tp = Some b" using \<open>tp_ptr tp \<noteq> None\<close> by blast
    then have "b \<in> set stk" using m(1) e(1) by (cases stk) auto
    then have "b \<noteq> a" using a by auto
    then show "tp = top (goto t p ?s)" "map_option nd_next (nodes (goto t p ?s) (the (tp_ptr tp))) = Some nx"
      using e b by auto
  qed
  moreover have "hazard_ok (goto t p ?s)" by (rule hazard_ok_goto) (use i(3) simple(3) np in auto)
  moreover have "protect_ok ?s"
    unfolding protect_ok_def
  proof (intro allI impI)
    fix u tp b j assume u: "pcs ?s u = Pop_deref tp" "tp_ptr tp = Some b" "slots ?s u = Some j"
    then have pb: "b \<in> dom (nodes s) \<and> (\<forall>w k. scanning (pcs s w) = Some (b, k) \<longrightarrow> k \<le> j)"
      using i(4) unfolding protect_ok_def by simp
    have "b \<noteq> a \<or> v \<noteq> None" using free u by auto
    then show "b \<in> dom (nodes ?s) \<and> (\<forall>w k. scanning (pcs ?s w) = Some (b, k) \<longrightarrow> k \<le> j)" using pb by auto
  qed
  then have "protect_ok (goto t p ?s)" by (rule protect_ok_goto) (use simple(4) np in auto)
  moreover have "sweep_ok (goto t p ?s) ret"
    by (rule sweep_ok_goto) (use i(5) simple(1,2) in auto)
  moreover have "history_ok (goto t p ?s) stk"
  proof -
    have "value_at ?s b = value_at s b" if "b \<in> set stk" for b using that a by (auto simp: value_at_def)
    then have "map (value_at ?s) stk = map (value_at s) stk" by simp
    then show ?thesis using i(6) by (simp add: history_ok_def)
  qed
  ultimately show ?thesis by (simp add: stack_inv_def)
qed

text \<open>
  A successful compare-and-swap makes every tag that another thread still holds smaller than the new one, so
  nothing that thread read counts any more.
\<close>

lemma tag_ok_bump:
  assumes tg: "tag_ok s" and wrap: "unat (tp_tag (top s)) < 2 ^ 64 - 1" and p: "p = Idle \<or> p = Pop_clear q"
  shows "tag_ok (goto t p (s\<lparr>top := \<lparr>tp_ptr = x, tp_tag = tp_tag (top s) + 1\<rparr>\<rparr>))"
proof -
  have u: "unat (tp_tag (top s) + 1) = unat (tp_tag (top s)) + 1"
    using wrap by (simp add: unat_word_ariths)
  have ne: "g \<noteq> tp_tag (top s) + 1" if "unat g \<le> unat (tp_tag (top s))" for g using that u by auto
  show ?thesis
    using tg p ne u unfolding tag_ok_def by (auto split: if_splits intro: le_SucI)
qed

lemma push_cas_inv:
  assumes inv: "stack_inv s stk ret" and t: "pcs s t = Push_cas a (top s)" and wrap: "unat (tp_tag (top s)) < 2 ^ 64 - 1"
  shows "stack_inv (goto t Idle (s\<lparr>top := \<lparr>tp_ptr = Some a, tp_tag = tp_tag (top s) + 1\<rparr>,
      ops := ops s @ [Op_push (value_at s a)]\<rparr>)) (a # stk) ret"
proof -
  note i = stack_invD [OF inv]
  note m = mem_okD [OF i(1)]
  let ?s = "s\<lparr>top := \<lparr>tp_ptr = Some a, tp_tag = tp_tag (top s) + 1\<rparr>\<rparr>"
  let ?g = "goto t Idle ?s"
  have oa: "own (pcs s t) = Some a" using t by simp
  note ma = m(4) [OF oa]
  have other: "own (pcs s u) \<noteq> Some a" if "u \<noteq> t" for u using m(5) [OF oa, of u] that by auto
  have nx: "map_option nd_next (nodes s a) = Some (tp_ptr (top s))" using i(2) t unfolding tag_ok_def by blast
  have "mem_ok ?g (a # stk) ret"
    unfolding mem_ok_def
  proof (intro conjI allI impI)
    show "chain nd_next (nodes ?g) (tp_ptr (top ?g)) (a # stk) None" using nx m(1) by auto
    show "chain nd_retire (nodes ?g) (retired ?g) ret None" using m(2) by simp
    show "set (a # stk) \<inter> set ret = {}" using m(3) ma by auto
    show "dom (nodes ?g) = set (a # stk) \<union> set ret \<union> {b. \<exists>u. own (pcs ?g u) = Some b}"
    proof -
      have "{b. \<exists>u. own (pcs s u) = Some b} = insert a {b. \<exists>u. own (pcs ?g u) = Some b}"
      proof (rule set_eqI, rule iffI)
        fix b assume "b \<in> {b. \<exists>u. own (pcs s u) = Some b}"
        then obtain u where u: "own (pcs s u) = Some b" by blast
        show "b \<in> insert a {b. \<exists>u. own (pcs ?g u) = Some b}"
        proof (cases "u = t")
          case False
          then have "own (pcs ?g u) = Some b" using u by simp
          then show ?thesis by blast
        qed (use u oa in simp)
      next
        fix b assume "b \<in> insert a {b. \<exists>u. own (pcs ?g u) = Some b}"
        then show "b \<in> {b. \<exists>u. own (pcs s u) = Some b}" using oa by (auto split: if_splits)
      qed
      then show ?thesis using m(6) by simp
    qed
  next
    fix u b assume u: "own (pcs ?g u) = Some b"
    then have ub: "own (pcs s u) = Some b" "u \<noteq> t" by (auto split: if_splits)
    then show "b \<in> dom (nodes ?g)" "b \<notin> set (a # stk)" "b \<notin> set ret" using m(4) [OF ub(1)] other [of u] by auto
    fix u' assume "own (pcs ?g u') = Some b"
    then show "u = u'" using ub m(5) by (auto split: if_splits)
  qed
  moreover have "tag_ok ?g" by (rule tag_ok_bump [OF i(2) wrap]) simp
  moreover have "hazard_ok ?g" by (rule hazard_ok_goto) (use i(3) in auto)
  moreover have "protect_ok ?g" by (rule protect_ok_goto) (use i(4) in auto)
  moreover have "sweep_ok ?g ret" by (rule sweep_ok_goto) (use i(5) t in auto)
  moreover have "history_ok (goto t Idle (s\<lparr>top := x, ops := ops s @ [Op_push (value_at s a)]\<rparr>)) (a # stk)" for x
    using i(6) by (simp add: history_ok_def replay_append value_at_def)
  ultimately show ?thesis by (simp add: stack_inv_def)
qed

lemma pop_cas_inv:
  assumes inv: "stack_inv s stk ret" and t: "pcs s t = Pop_cas (top s) nx" and wrap: "unat (tp_tag (top s)) < 2 ^ 64 - 1"
  shows "\<exists>a stk'. stk = a # stk' \<and> tp_ptr (top s) = Some a \<and>
    stack_inv (goto t (Pop_clear (Some a)) (s\<lparr>top := \<lparr>tp_ptr = nx, tp_tag = tp_tag (top s) + 1\<rparr>,
      ops := ops s @ [Op_pop (value_at s a)]\<rparr>)) stk' ret"
proof -
  note i = stack_invD [OF inv]
  note m = mem_okD [OF i(1)]
  have tp: "tp_ptr (top s) \<noteq> None" "map_option nd_next (nodes s (the (tp_ptr (top s)))) = Some nx"
    using i(2) t unfolding tag_ok_def by blast+
  obtain a stk' where stk: "stk = a # stk'" "tp_ptr (top s) = Some a" using m(1) tp(1) by (cases stk) auto
  have c: "chain nd_next (nodes s) nx stk' None" using m(1) tp(2) stk by auto
  have dist: "distinct stk" using m(1) by (rule chain_distinct)
  let ?s = "s\<lparr>top := \<lparr>tp_ptr = nx, tp_tag = tp_tag (top s) + 1\<rparr>\<rparr>" and ?p = "Pop_clear (Some a)"
  let ?g = "goto t ?p ?s"
  have ot: "own (pcs s t) = None" using t by simp
  have other: "own (pcs s u) \<noteq> Some a" for u using m(4) [of u a] stk by auto
  have "mem_ok ?g stk' ret"
    unfolding mem_ok_def
  proof (intro conjI allI impI)
    show "chain nd_next (nodes ?g) (tp_ptr (top ?g)) stk' None" using c by simp
    show "chain nd_retire (nodes ?g) (retired ?g) ret None" using m(2) by simp
    show "set stk' \<inter> set ret = {}" using m(3) stk by auto
    show "dom (nodes ?g) = set stk' \<union> set ret \<union> {b. \<exists>u. own (pcs ?g u) = Some b}"
    proof -
      have "{b. \<exists>u. own (pcs ?g u) = Some b} = insert a {b. \<exists>u. own (pcs s u) = Some b}"
      proof (rule set_eqI, rule iffI)
        fix b assume "b \<in> insert a {b. \<exists>u. own (pcs s u) = Some b}"
        then consider "b = a" | u where "own (pcs s u) = Some b" by blast
        then show "b \<in> {b. \<exists>u. own (pcs ?g u) = Some b}"
        proof cases
          case 1
          have "own (pcs ?g t) = Some a" by simp
          then show ?thesis using 1 by blast
        next
          case 2
          then have "own (pcs ?g u) = Some b" using ot by auto
          then show ?thesis by blast
        qed
      next
        fix b assume "b \<in> {b. \<exists>u. own (pcs ?g u) = Some b}"
        then show "b \<in> insert a {b. \<exists>u. own (pcs s u) = Some b}" by (auto split: if_splits)
      qed
      then show ?thesis using m(6) stk by simp
    qed
  next
    fix u b assume u: "own (pcs ?g u) = Some b"
    have ub: "u = t \<and> b = a \<or> u \<noteq> t \<and> own (pcs s u) = Some b" using u by (auto split: if_splits)
    then show "b \<in> dom (nodes ?g)" "b \<notin> set stk'" "b \<notin> set ret"
      using m(3) m(4) [of u b] m(6) stk dist by auto
    fix u' assume "own (pcs ?g u') = Some b"
    then show "u = u'" using ub m(5) [of u b u'] other by (auto split: if_splits)
  qed
  moreover have "tag_ok ?g" by (rule tag_ok_bump [OF i(2) wrap]) simp
  moreover have "hazard_ok ?g" by (rule hazard_ok_goto) (use i(3) t in \<open>auto simp: hazard_ok_def\<close>)
  moreover have "protect_ok ?g" by (rule protect_ok_goto) (use i(4) in auto)
  moreover have "sweep_ok ?g ret" by (rule sweep_ok_goto) (use i(5) t in auto)
  moreover have "history_ok (goto t ?p (s\<lparr>top := x, ops := ops s @ [Op_pop (value_at s a)]\<rparr>)) stk'" for x
    using i(6) stk by (simp add: history_ok_def replay_append value_at_def)
  ultimately show ?thesis using stk by (simp add: stack_inv_def)
qed

text \<open>A thread writes to its own hazard slot.\<close>

lemma stack_inv_hazard:
  assumes inv: "stack_inv s stk ret" and t: "\<And>tp. pcs s t \<noteq> Pop_recheck tp \<and> pcs s t \<noteq> Pop_deref tp"
  shows "stack_inv (set_hazard t q s) stk ret"
proof (cases "slots s t")
  case None
  then show ?thesis using inv by (simp add: set_hazard_def)
next
  case (Some i)
  have h: "hazard_ok s" by (rule stack_invD(3) [OF inv])
  have "hazard_ok (s\<lparr>hazard := (hazard s)[i := q]\<rparr>)"
  proof -
    have "hazard s ! j = (hazard s)[i := q] ! j" if "slots s u = Some j" "u \<noteq> t" for u j
      using h that Some unfolding hazard_ok_def by (metis nth_list_update_neq)
    then have "(hazard s)[i := q] ! j = tp_ptr tp" if "pcs s u = Pop_recheck tp \<or> pcs s u = Pop_deref tp" "slots s u = Some j" for u tp j
      using h that t unfolding hazard_ok_def by metis
    then show ?thesis using h unfolding hazard_ok_def by simp
  qed
  then show ?thesis using inv Some by (simp add: set_hazard_def stack_inv_def)
qed

lemma set_hazard_simps [simp]:
  "nodes (set_hazard t q s) = nodes s" "top (set_hazard t q s) = top s" "slots (set_hazard t q s) = slots s"
  "lock (set_hazard t q s) = lock s" "retired (set_hazard t q s) = retired s" "pcs (set_hazard t q s) = pcs s"
  "ops (set_hazard t q s) = ops s" "aborted (set_hazard t q s) = aborted s"
  by (simp_all add: set_hazard_def split: option.split)

text \<open>The retire list: a node is added, the sweep starts and ends, a node is unlinked and freed.\<close>

lemma retire_lock_inv:
  assumes inv: "stack_inv s stk ret" and t: "pcs s t = Retire_lock a" and l: "lock s = None" and n: "nodes s a = Some n"
  shows "stack_inv (goto t Idle (s\<lparr>nodes := (nodes s)(a \<mapsto> n\<lparr>nd_retire := retired s\<rparr>), retired := Some a\<rparr>)) stk (a # ret)"
proof -
  note i = stack_invD [OF inv]
  note m = mem_okD [OF i(1)]
  let ?n = "n\<lparr>nd_retire := retired s\<rparr>"
  let ?s = "s\<lparr>nodes := (nodes s)(a \<mapsto> ?n), retired := Some a\<rparr>"
  let ?g = "goto t Idle ?s"
  have oa: "own (pcs s t) = Some a" using t by simp
  note ma = m(4) [OF oa]
  have other: "own (pcs s u) \<noteq> Some a" if "u \<noteq> t" for u using m(5) [OF oa, of u] that by auto
  have nn: "map_option nd_next (nodes ?g x) = map_option nd_next (nodes s x)" for x using n by simp
  have "mem_ok ?g stk (a # ret)"
    unfolding mem_ok_def
  proof (intro conjI allI impI)
    show "chain nd_next (nodes ?g) (tp_ptr (top ?g)) stk None" using m(1) ma by simp
    show "chain nd_retire (nodes ?g) (retired ?g) (a # ret) None" using m(2) ma by simp
    show "set stk \<inter> set (a # ret) = {}" using m(3) ma by auto
    show "dom (nodes ?g) = set stk \<union> set (a # ret) \<union> {b. \<exists>u. own (pcs ?g u) = Some b}"
    proof -
      have "{b. \<exists>u. own (pcs s u) = Some b} = insert a {b. \<exists>u. own (pcs ?g u) = Some b}"
      proof (rule set_eqI, rule iffI)
        fix b assume "b \<in> {b. \<exists>u. own (pcs s u) = Some b}"
        then obtain u where u: "own (pcs s u) = Some b" by blast
        show "b \<in> insert a {b. \<exists>u. own (pcs ?g u) = Some b}"
        proof (cases "u = t")
          case False
          then have "own (pcs ?g u) = Some b" using u by simp
          then show ?thesis by blast
        qed (use u oa in simp)
      next
        fix b assume "b \<in> insert a {b. \<exists>u. own (pcs ?g u) = Some b}"
        then show "b \<in> {b. \<exists>u. own (pcs s u) = Some b}" using oa by (auto split: if_splits)
      qed
      moreover have "dom (nodes ?g) = dom (nodes s)" using n by auto
      ultimately show ?thesis using m(6) by simp
    qed
  next
    fix u b assume u: "own (pcs ?g u) = Some b"
    then have ub: "own (pcs s u) = Some b" "u \<noteq> t" by (auto split: if_splits)
    then show "b \<in> dom (nodes ?g)" "b \<notin> set stk" "b \<notin> set (a # ret)" using m(4) [OF ub(1)] other [of u] by auto
    fix u' assume "own (pcs ?g u') = Some b"
    then show "u = u'" using ub m(5) by (auto split: if_splits)
  qed
  moreover have "tag_ok ?s"
    using i(2) unfolding tag_ok_def by (simp del: fun_upd_apply add: nn [simplified])
  then have "tag_ok ?g" by (rule tag_ok_goto) auto
  moreover have "hazard_ok ?g" by (rule hazard_ok_goto) (use i(3) in auto)
  moreover have "dom (nodes ?s) = dom (nodes s)" using n by auto
  then have "protect_ok ?s" using i(4) unfolding protect_ok_def by simp
  then have "protect_ok ?g" by (rule protect_ok_goto) auto
  moreover have "sweep_ok ?g (a # ret)"
  proof -
    have ns: "\<not> sweeping (pcs s u)" for u using i(5) l unfolding sweep_ok_def by simp
    have "pcs s u \<noteq> Sweep_loop p c" "pcs s u \<noteq> Sweep_scan p d nx j" for u p c d nx j using ns [of u] by auto
    then show ?thesis using ns l unfolding sweep_ok_def by simp
  qed
  moreover have "history_ok ?g stk"
  proof -
    have "value_at ?s b = value_at s b" if "b \<in> set stk" for b using that ma by (auto simp: value_at_def)
    then have "map (value_at ?s) stk = map (value_at s) stk" by simp
    then show ?thesis using i(6) by (simp add: history_ok_def)
  qed
  ultimately show ?thesis by (simp add: stack_inv_def)
qed

lemma sweep_start_inv:
  assumes inv: "stack_inv s stk ret" and t: "pcs s t = Idle" and l: "lock s = None"
  shows "stack_inv (goto t (Sweep_loop None (retired s)) (s\<lparr>lock := Some t\<rparr>)) stk ret"
proof -
  note i = stack_invD [OF inv]
  let ?g = "goto t (Sweep_loop None (retired s)) (s\<lparr>lock := Some t\<rparr>)"
  have "mem_ok ?g stk ret" by (rule mem_ok_goto) (use i(1) t in auto)
  moreover have "tag_ok ?g" by (rule tag_ok_goto) (use i(2) in auto)
  moreover have "hazard_ok ?g" by (rule hazard_ok_goto) (use i(3) in auto)
  moreover have "protect_ok ?g" by (rule protect_ok_goto) (use i(4) in auto)
  moreover have "sweep_ok ?g ret"
  proof -
    have ns: "\<not> sweeping (pcs s u)" for u using i(5) l unfolding sweep_ok_def by simp
    then have np: "pcs s u \<noteq> Sweep_loop p c" "pcs s u \<noteq> Sweep_scan p d nx j" for u p c d nx j
      by (metis sweeping.simps(1)) (metis ns sweeping.simps(2))
    have "retired s = first_ptr ret None" using chain_first [OF mem_okD(2) [OF i(1)]] .
    then have "\<exists>us vs. ret = us @ vs \<and> None = last_ptr us None \<and> retired s = first_ptr vs None"
      by (intro exI [of _ "[]"] exI [of _ ret]) simp
    then show ?thesis using ns np unfolding sweep_ok_def by auto
  qed
  moreover have "history_ok ?g stk" using i(6) by (simp add: history_ok_goto)
  ultimately show ?thesis by (simp add: stack_inv_def)
qed

lemma sweep_end_inv:
  assumes inv: "stack_inv s stk ret" and t: "pcs s t = Sweep_loop prev None"
  shows "stack_inv (goto t Idle (s\<lparr>lock := None\<rparr>)) stk ret"
proof -
  note i = stack_invD [OF inv]
  let ?g = "goto t Idle (s\<lparr>lock := None\<rparr>)"
  have "mem_ok ?g stk ret" by (rule mem_ok_goto) (use i(1) t in auto)
  moreover have "tag_ok ?g" by (rule tag_ok_goto) (use i(2) in auto)
  moreover have "hazard_ok ?g" by (rule hazard_ok_goto) (use i(3) in auto)
  moreover have "protect_ok ?g" by (rule protect_ok_goto) (use i(4) in auto)
  moreover have "sweep_ok ?g ret"
  proof -
    have "sweeping (pcs s t)" using t by simp
    then have "lock s = Some t" using i(5) unfolding sweep_ok_def by blast
    then have ns: "u \<noteq> t \<Longrightarrow> \<not> sweeping (pcs s u)" for u using i(5) unfolding sweep_ok_def by simp
    then have "u \<noteq> t \<Longrightarrow> pcs s u \<noteq> Sweep_loop p c" "u \<noteq> t \<Longrightarrow> pcs s u \<noteq> Sweep_scan p d nx j" for u p c d nx j
      by (metis sweeping.simps(1)) (metis ns sweeping.simps(2))
    then show ?thesis using ns unfolding sweep_ok_def by auto
  qed
  moreover have "history_ok ?g stk" using i(6) by (simp add: history_ok_goto)
  ultimately show ?thesis by (simp add: stack_inv_def)
qed

lemma sweep_unlink_inv:
  assumes inv: "stack_inv s stk (us @ c # vs)" and t: "pcs s t = Sweep_scan (last_ptr us None) c (first_ptr vs None) i"
    and i: "MAX_HAZARD_THREADS \<le> i"
    and h: "chain nd_retire h r (us @ vs) None" "dom h = dom (nodes s) - {c}"
      "\<And>x. x \<noteq> c \<Longrightarrow> map_option (\<lambda>n. (nd_next n, nd_value n)) (h x) = map_option (\<lambda>n. (nd_next n, nd_value n)) (nodes s x)"
  shows "stack_inv (goto t (Sweep_loop (last_ptr us None) (first_ptr vs None)) (s\<lparr>nodes := h, retired := r\<rparr>)) stk (us @ vs)"
proof -
  note iv = stack_invD [OF inv]
  note m = mem_okD [OF iv(1)]
  let ?p = "Sweep_loop (last_ptr us None) (first_ptr vs None)"
  let ?s = "s\<lparr>nodes := h, retired := r\<rparr>"
  let ?g = "goto t ?p ?s"
  have dist: "distinct (us @ c # vs)" using m(2) by (rule chain_distinct)
  have cs: "c \<notin> set stk" using m(3) by auto
  have nx: "map_option nd_next (h x) = map_option nd_next (nodes s x)" and vl: "map_option nd_value (h x) = map_option nd_value (nodes s x)"
    if "x \<noteq> c" for x using h(3) [OF that] by (cases "h x"; cases "nodes s x"; simp)+
  have ot: "own (pcs ?g u) = own (pcs s u)" for u using t by simp
  have "mem_ok ?g stk (us @ vs)"
    unfolding mem_ok_def ot
  proof (intro conjI allI impI)
    have "chain nd_next h (tp_ptr (top s)) stk None = chain nd_next (nodes s) (tp_ptr (top s)) stk None"
      by (rule chain_cong, rule nx) (use cs in auto)
    then show "chain nd_next (nodes ?g) (tp_ptr (top ?g)) stk None" using m(1) by simp
    show "chain nd_retire (nodes ?g) (retired ?g) (us @ vs) None" using h(1) by simp
    show "set stk \<inter> set (us @ vs) = {}" using m(3) by auto
    have "c \<notin> {a. \<exists>t. own (pcs s t) = Some a}" using m(4) by fastforce
    then show "dom (nodes ?g) = set stk \<union> set (us @ vs) \<union> {a. \<exists>t. own (pcs s t) = Some a}"
      using h(2) m(6) dist cs by auto
  next
    fix u b assume u: "own (pcs s u) = Some b"
    then show "b \<in> dom (nodes ?g)" "b \<notin> set stk" "b \<notin> set (us @ vs)" using m(4) [OF u] h(2) by auto
    fix u' assume "own (pcs s u') = Some b"
    then show "u = u'" using u m(5) by blast
  qed
  moreover have "tag_ok ?s"
    unfolding tag_ok_def
  proof (intro conjI allI impI)
    fix u b old assume u: "pcs ?s u = Push_cas b old"
    then have "own (pcs s u) = Some b" by simp
    then have "b \<noteq> c" using m(4) [of u b] by auto
    then show "map_option nd_next (nodes ?s b) = Some (tp_ptr old)" using nx iv(2) u unfolding tag_ok_def by simp
  next
    fix u tp assume "pcs ?s u = Pop_deref tp"
    then show "unat (tp_tag tp) \<le> unat (tp_tag (top ?s))" "tp_tag tp = tp_tag (top ?s) \<Longrightarrow> tp = top ?s"
      using iv(2) unfolding tag_ok_def by auto
  next
    fix u tp nxt assume u: "pcs ?s u = Pop_cas tp nxt"
    then show "unat (tp_tag tp) \<le> unat (tp_tag (top ?s))" "tp_ptr tp \<noteq> None"
      using iv(2) unfolding tag_ok_def by auto
    assume g: "tp_tag tp = tp_tag (top ?s)"
    then have e: "tp = top s" "map_option nd_next (nodes s (the (tp_ptr tp))) = Some nxt"
      using iv(2) u unfolding tag_ok_def by auto
    obtain b where b: "tp_ptr tp = Some b" using \<open>tp_ptr tp \<noteq> None\<close> by blast
    then have "b \<in> set stk" using m(1) e(1) by (cases stk) auto
    then have "b \<noteq> c" using cs by auto
    then show "tp = top ?s" "map_option nd_next (nodes ?s (the (tp_ptr tp))) = Some nxt" using e b nx by simp_all
  qed
  then have "tag_ok ?g" by (rule tag_ok_goto) auto
  moreover have "hazard_ok ?g" by (rule hazard_ok_goto) (use iv(3) in auto)
  moreover have "protect_ok ?s"
    unfolding protect_ok_def
  proof (intro allI impI)
    fix u tp b j assume u: "pcs ?s u = Pop_deref tp" "tp_ptr tp = Some b" "slots ?s u = Some j"
    then have pb: "b \<in> dom (nodes s) \<and> (\<forall>w k. scanning (pcs s w) = Some (b, k) \<longrightarrow> k \<le> j)"
      using iv(4) unfolding protect_ok_def by simp
    have "j < MAX_HAZARD_THREADS" using iv(3) u(3) unfolding hazard_ok_def by simp
    then have "b \<noteq> c" using pb t i by (metis le_trans not_less scanning.simps(2))
    then show "b \<in> dom (nodes ?s) \<and> (\<forall>w k. scanning (pcs ?s w) = Some (b, k) \<longrightarrow> k \<le> j)" using pb h(2) by auto
  qed
  then have "protect_ok ?g" by (rule protect_ok_goto) auto
  moreover have "sweep_ok ?g (us @ vs)"
  proof -
    have "sweeping (pcs s t)" using t by simp
    then have l: "lock s = Some t" using iv(5) unfolding sweep_ok_def by blast
    then have ns: "u \<noteq> t \<Longrightarrow> \<not> sweeping (pcs s u)" for u using iv(5) unfolding sweep_ok_def by simp
    then have "u \<noteq> t \<Longrightarrow> pcs s u \<noteq> Sweep_loop p q" "u \<noteq> t \<Longrightarrow> pcs s u \<noteq> Sweep_scan p d nx j" for u p q d nx j
      by (metis sweeping.simps(1)) (metis ns sweeping.simps(2))
    moreover have "\<exists>xs ys. us @ vs = xs @ ys \<and> last_ptr us None = last_ptr xs None \<and> first_ptr vs None = first_ptr ys None"
      by blast
    ultimately show ?thesis using ns l unfolding sweep_ok_def by auto
  qed
  moreover have "history_ok ?g stk"
  proof -
    have "value_at ?s b = value_at s b" if "b \<in> set stk" for b
    proof -
      have "b \<noteq> c" using that cs by auto
      from vl [OF this] show ?thesis by (cases "h b"; cases "nodes s b") (auto simp: value_at_def)
    qed
    then have "map (value_at ?s) stk = map (value_at s) stk" by simp
    then show ?thesis using iv(6) by (simp add: history_ok_def)
  qed
  ultimately show ?thesis by (simp add: stack_inv_def)
qed

subsection \<open>Every step keeps the invariant\<close>

definition step_ok :: "tstack \<Rightarrow> tstack option \<Rightarrow> bool" where
  "step_ok s r \<longleftrightarrow> (\<exists>s' stk ret. r = Some s' \<and> stack_inv s' stk ret \<and>
     unat (tp_tag (top s')) \<le> Suc (unat (tp_tag (top s))))"

lemma step_okI:
  "stack_inv s' stk ret \<Longrightarrow> top s' = top s \<Longrightarrow> step_ok s (Some s')"
  unfolding step_ok_def by auto

lemma client_step_ok:
  assumes inv: "stack_inv s stk ret" and t: "pcs s t = Idle" and na: "\<not> aborted s"
  shows "step_ok s (client_step t c s)"
proof (cases c)
  case (Do_push v a junk)
  note m = mem_okD [OF stack_invD(1) [OF inv]]
  show ?thesis
  proof (cases "nodes s a")
    case None
    have "a \<notin> dom (nodes s)" using None by auto
    then have "a \<notin> set stk" "a \<notin> set ret" "own (pcs s u) \<noteq> Some a" for u using m(6) by auto
    then have "stack_inv (goto t (Push_load a) (s\<lparr>nodes := (nodes s)(a \<mapsto> junk\<lparr>nd_value := v\<rparr>)\<rparr>)) stk ret"
      by (intro stack_inv_private [OF inv]) (use t None in auto)
    then show ?thesis using Do_push None by (simp add: client_step_def step_okI)
  next
    case (Some n)
    then show ?thesis using Do_push inv by (simp add: client_step_def step_okI)
  qed
next
  case Do_pop
  let ?s = "hazard_slot_for_this_thread t s"
  have i: "stack_inv ?s stk ret" by (rule stack_inv_slot [OF inv t na])
  have sl: "aborted ?s \<or> slots ?s t \<noteq> None"
    by (auto simp: hazard_slot_for_this_thread_def split: option.split)
  have pt: "pcs ?s t = Idle" "top ?s = top s" using t by (simp_all add: hazard_slot_for_this_thread_def split: option.split)
  have "stack_inv (goto t Pop_load ?s) stk ret"
    by (rule stack_inv_goto [OF i]) (use sl pt in auto)
  then show ?thesis using Do_pop pt by (simp add: client_step_def step_okI)
next
  case Do_sweep
  show ?thesis
  proof (cases "lock s")
    case None
    then show ?thesis using Do_sweep sweep_start_inv [OF inv t None] by (simp add: client_step_def step_okI)
  next
    case (Some u)
    then show ?thesis using Do_sweep inv by (simp add: client_step_def step_okI)
  qed
qed

lemma push_step_ok:
  assumes inv: "stack_inv s stk ret" and t: "pcs s t = p" and p: "p = Push_load a \<or> p = Push_link a old \<or> p = Push_cas a old"
    and wrap: "unat (tp_tag (top s)) < 2 ^ 64 - 1"
  shows "step_ok s (stack_push_step t sp p s)"
proof -
  note m = mem_okD [OF stack_invD(1) [OF inv]]
  have oa: "own (pcs s t) = Some a" using t p by auto
  note ma = m(4) [OF oa]
  consider "p = Push_load a" | "p = Push_link a old" | "p = Push_cas a old" "top s = old \<and> \<not> sp"
    | "p = Push_cas a old" "\<not> (top s = old \<and> \<not> sp)" using p by blast
  then show ?thesis
  proof cases
    case 1
    have "stack_inv (goto t (Push_link a (top s)) s) stk ret"
      by (rule stack_inv_goto [OF inv]) (use t 1 in auto)
    then show ?thesis using 1 by (simp add: stack_push_step_def step_okI)
  next
    case 2
    obtain n where n: "nodes s a = Some n" using ma by auto
    have "own (pcs s u) \<noteq> Some a" if "u \<noteq> t" for u using m(5) [OF oa, of u] that by auto
    then have "stack_inv (goto t (Push_cas a old) (s\<lparr>nodes := (nodes s)(a \<mapsto> n\<lparr>nd_next := tp_ptr old\<rparr>)\<rparr>)) stk ret"
      by (intro stack_inv_private [OF inv]) (use t 2 ma in auto)
    then show ?thesis using 2 n by (simp add: stack_push_step_def heap_simps step_okI)
  next
    case 3
    then have "pcs s t = Push_cas a (top s)" using t by simp
    note i = push_cas_inv [OF inv this wrap]
    have "unat (tp_tag (top s) + 1) \<le> Suc (unat (tp_tag (top s)))" using wrap by (simp add: unat_word_ariths)
    then show ?thesis using 3 i unfolding step_ok_def by (fastforce simp: stack_push_step_def)
  next
    case 4
    have "stack_inv (goto t (Push_link a (top s)) s) stk ret"
      by (rule stack_inv_goto [OF inv]) (use t 4 in auto)
    then show ?thesis using 4 by (auto simp: stack_push_step_def step_okI)
  qed
qed

lemma pop_step_ok:
  assumes inv: "stack_inv s stk ret" and t: "pcs s t = p" and p: "popping p" and na: "\<not> aborted s"
    and wrap: "unat (tp_tag (top s)) < 2 ^ 64 - 1"
  shows "step_ok s (stack_pop_step t sp p s)"
proof -
  note i = stack_invD [OF inv]
  note m = mem_okD [OF i(1)]
  obtain j where j: "slots s t = Some j" "j < MAX_HAZARD_THREADS"
    using i(3) na t p unfolding hazard_ok_def by (metis option.exhaust)
  have len: "length (hazard s) = MAX_HAZARD_THREADS" using i(3) by (simp add: hazard_ok_def)
  show ?thesis
  proof (cases p)
    case Pop_load
    show ?thesis
    proof (cases "tp_ptr (top s)")
      case None
      then have "stk = []" using m(1) by simp
      then have h: "history_ok (s\<lparr>ops := ops s @ [Op_empty]\<rparr>) stk"
        using i(6) by (simp add: history_ok_def replay_append)
      then have "stack_inv (s\<lparr>ops := ops s @ [Op_empty]\<rparr>) stk ret" using i by (simp add: stack_inv_def)
      then have "stack_inv (goto t (Pop_clear None) (s\<lparr>ops := ops s @ [Op_empty]\<rparr>)) stk ret"
        by (rule stack_inv_goto) (use t Pop_load j in auto)
      then show ?thesis using Pop_load None by (simp add: stack_pop_step_def step_okI)
    next
      case (Some a)
      have "stack_inv (goto t (Pop_publish (top s)) s) stk ret"
        by (rule stack_inv_goto [OF inv]) (use t Pop_load j Some in auto)
      then show ?thesis using Pop_load Some by (simp add: stack_pop_step_def step_okI)
    qed
  next
    case (Pop_publish tp)
    have ne: "tp_ptr tp \<noteq> None" using i(3) t Pop_publish unfolding hazard_ok_def by blast
    let ?s = "set_hazard t (tp_ptr tp) s"
    have "stack_inv ?s stk ret" by (rule stack_inv_hazard [OF inv]) (use t Pop_publish in auto)
    moreover have "hazard ?s ! j = tp_ptr tp" using j len by (simp add: set_hazard_def)
    ultimately have "stack_inv (goto t (Pop_recheck tp) ?s) stk ret"
      by (intro stack_inv_goto) (use t Pop_publish j ne in auto)
    then show ?thesis using Pop_publish by (simp add: stack_pop_step_def step_okI)
  next
    case (Pop_recheck tp)
    have ne: "tp_ptr tp \<noteq> None" "hazard s ! j = tp_ptr tp"
      using i(3) t Pop_recheck j unfolding hazard_ok_def by blast+
    show ?thesis
    proof (cases "top s = tp")
      case True
      obtain a stk' where a: "tp_ptr tp = Some a" "stk = a # stk'" using m(1) ne(1) True by (cases stk) auto
      have dom: "a \<in> dom (nodes s)" using m(6) a(2) by auto
      have ns: "scanning (pcs s u) \<noteq> Some (a, k)" for u k
      proof
        assume sc: "scanning (pcs s u) = Some (a, k)"
        then consider "own (pcs s u) = Some a" | q nx where "pcs s u = Sweep_scan q a nx k"
          by (cases "pcs s u") auto
        then show False
        proof cases
          case 1
          then show False using m(4) a(2) by fastforce
        next
          case 2
          then have "a \<in> set ret" using i(5) unfolding sweep_ok_def by fastforce
          then show False using m(3) a(2) by auto
        qed
      qed
      have "stack_inv (goto t (Pop_deref tp) s) stk ret"
        by (rule stack_inv_goto [OF inv]) (use t Pop_recheck j ne True a dom ns in auto)
      then show ?thesis using Pop_recheck True by (simp add: stack_pop_step_def step_okI)
    next
      case False
      have "stack_inv (goto t Pop_load s) stk ret"
        by (rule stack_inv_goto [OF inv]) (use t Pop_recheck j in auto)
      then show ?thesis using Pop_recheck False by (simp add: stack_pop_step_def step_okI)
    qed
  next
    case (Pop_deref tp)
    have ne: "tp_ptr tp \<noteq> None" using i(3) t Pop_deref unfolding hazard_ok_def by blast
    then obtain a where a: "tp_ptr tp = Some a" by blast
    have "a \<in> dom (nodes s)" using i(4) t Pop_deref a j unfolding protect_ok_def by blast
    then obtain n where n: "nodes s a = Some n" by blast
    have tg: "unat (tp_tag tp) \<le> unat (tp_tag (top s))" "tp_tag tp = tp_tag (top s) \<Longrightarrow> tp = top s"
      using i(2) t Pop_deref unfolding tag_ok_def by blast+
    have "stack_inv (goto t (Pop_cas tp (nd_next n)) s) stk ret"
      by (rule stack_inv_goto [OF inv]) (use t Pop_deref j a n tg in auto)
    then show ?thesis using Pop_deref a n by (simp add: stack_pop_step_def heap_simps step_okI)
  next
    case (Pop_cas tp nx)
    show ?thesis
    proof (cases "top s = tp \<and> \<not> sp")
      case True
      then have "pcs s t = Pop_cas (top s) nx" using t Pop_cas by simp
      from pop_cas_inv [OF inv this wrap] obtain a stk' where r: "tp_ptr (top s) = Some a"
          "stack_inv (goto t (Pop_clear (Some a)) (s\<lparr>top := \<lparr>tp_ptr = nx, tp_tag = tp_tag (top s) + 1\<rparr>,
             ops := ops s @ [Op_pop (value_at s a)]\<rparr>)) stk' ret" by blast
      have "unat (tp_tag (top s) + 1) \<le> Suc (unat (tp_tag (top s)))" using wrap by (simp add: unat_word_ariths)
      then show ?thesis using True Pop_cas r unfolding step_ok_def by (fastforce simp: stack_pop_step_def)
    next
      case False
      have "stack_inv (goto t Pop_load s) stk ret"
        by (rule stack_inv_goto [OF inv]) (use t Pop_cas j in auto)
      then show ?thesis using Pop_cas False by (auto simp: stack_pop_step_def step_okI)
    qed
  next
    case (Pop_clear q)
    let ?s = "set_hazard t None s" and ?p = "case q of None \<Rightarrow> Idle | Some a \<Rightarrow> Retire_scan a 0"
    have "stack_inv ?s stk ret" by (rule stack_inv_hazard [OF inv]) (use t Pop_clear in auto)
    then have "stack_inv (goto t ?p ?s) stk ret"
      by (rule stack_inv_goto) (use t Pop_clear in \<open>auto split: option.splits\<close>)
    then show ?thesis using Pop_clear by (simp add: stack_pop_step_def step_okI)
  qed (use p in simp_all)
qed

text \<open>While a slot before the one that protects the node is looked at, the scan goes on.\<close>

lemma scan_next:
  assumes inv: "stack_inv s stk ret" and sc: "scanning (pcs s t) = Some (a, j)" and miss: "hazard s ! j \<noteq> Some a"
    and u: "pcs s u = Pop_deref tp" "tp_ptr tp = Some a" "slots s u = Some i"
  shows "Suc j \<le> i"
proof -
  have "j \<le> i" using stack_invD(4) [OF inv] sc u unfolding protect_ok_def by blast
  moreover have "hazard s ! i = Some a" using stack_invD(3) [OF inv] u unfolding hazard_ok_def by metis
  ultimately show ?thesis using miss by (cases "i = j") auto
qed

lemma scan_end:
  assumes inv: "stack_inv s stk ret" and sc: "scanning (pcs s t) = Some (a, j)" and e: "MAX_HAZARD_THREADS \<le> j"
    and u: "pcs s u = Pop_deref tp" "\<not> aborted s"
  shows "tp_ptr tp \<noteq> Some a"
proof
  assume a: "tp_ptr tp = Some a"
  have "popping (pcs s u)" using u by simp
  then obtain i where i: "slots s u = Some i" "i < MAX_HAZARD_THREADS"
    using stack_invD(3) [OF inv] u(2) unfolding hazard_ok_def by (metis option.exhaust)
  have "j \<le> i" using stack_invD(4) [OF inv] sc u(1) a i(1) unfolding protect_ok_def by blast
  then show False using e i(2) by simp
qed

lemma retire_step_ok:
  assumes inv: "stack_inv s stk ret" and t: "pcs s t = p" and p: "p = Retire_scan a i \<or> p = Retire_lock a" and na: "\<not> aborted s"
  shows "step_ok s (retire_step t p s)"
proof -
  note m = mem_okD [OF stack_invD(1) [OF inv]]
  have oa: "own (pcs s t) = Some a" using t p by auto
  then obtain n where n: "nodes s a = Some n" using m(4) by blast
  consider (scan) "p = Retire_scan a i" "i < MAX_HAZARD_THREADS" | (free) "p = Retire_scan a i" "\<not> i < MAX_HAZARD_THREADS"
    | (lock) "p = Retire_lock a" using p by blast
  then show ?thesis
  proof cases
    case scan
    have "stack_inv (goto t (if hazard s ! i = Some a then Retire_lock a else Retire_scan a (Suc i)) s) stk ret"
      by (rule stack_inv_goto [OF inv]) (use t scan scan_next [OF inv, of t a i] in \<open>auto split: if_splits\<close>)
    then show ?thesis using scan by (simp add: retire_step_def step_okI)
  next
    case free
    have "own (pcs s u) \<noteq> Some a" if "u \<noteq> t" for u using m(5) [OF oa, of u] that by auto
    moreover have "tp_ptr tp \<noteq> Some a" if "pcs s u = Pop_deref tp" for u tp
      by (rule scan_end [where t = t and j = i, OF inv _ _ that na]) (use t free in auto)
    ultimately have "stack_inv (goto t Idle (s\<lparr>nodes := (nodes s)(a := None)\<rparr>)) stk ret"
      by (intro stack_inv_private [OF inv]) (use t free m(4) [OF oa] in auto)
    then show ?thesis using free n by (simp add: retire_step_def heap_simps step_okI)
  next
    case lock
    show ?thesis
    proof (cases "tstack.lock s")
      case None
      have "pcs s t = Retire_lock a" using t lock by simp
      from retire_lock_inv [OF inv this None n] show ?thesis
        using lock None n by (simp add: retire_step_def heap_simps step_okI)
    next
      case (Some u)
      then show ?thesis using lock inv by (simp add: retire_step_def step_okI)
    qed
  qed
qed

lemma sweep_step_ok:
  assumes inv: "stack_inv s stk ret" and t: "pcs s t = p" and p: "sweeping p" and na: "\<not> aborted s"
  shows "step_ok s (retire_sweep_step t p s)"
proof -
  note i = stack_invD [OF inv]
  note m = mem_okD [OF i(1)]
  show ?thesis
  proof (cases p)
    case (Sweep_loop prev cur)
    then obtain us vs where s: "ret = us @ vs" "prev = last_ptr us None" "cur = first_ptr vs None"
      using i(5) t unfolding sweep_ok_def by blast
    show ?thesis
    proof (cases vs)
      case Nil
      then have "pcs s t = Sweep_loop prev None" using t Sweep_loop s(3) by simp
      from sweep_end_inv [OF inv this] show ?thesis
        using Sweep_loop s(3) Nil by (simp add: retire_sweep_step_def step_okI)
    next
      case (Cons c ws)
      obtain n where n: "nodes s c = Some n" "nd_retire n = first_ptr ws None"
        using m(2) s(1) Cons by (auto simp: chain_append dest: chain_first)
      have "\<exists>us vs. ret = us @ c # vs \<and> prev = last_ptr us None \<and> nd_retire n = first_ptr vs None"
        using s Cons n(2) by blast
      then have "stack_inv (goto t (Sweep_scan prev c (nd_retire n) 0) s) stk ret"
        by (intro stack_inv_goto [OF inv]) (use t Sweep_loop in auto)
      then show ?thesis using Sweep_loop s(3) Cons n(1) by (simp add: retire_sweep_step_def step_okI)
    qed
  next
    case (Sweep_scan prev c nx j)
    then obtain us vs where s: "ret = us @ c # vs" "prev = last_ptr us None" "nx = first_ptr vs None"
      using i(5) t unfolding sweep_ok_def by blast
    show ?thesis
    proof (cases "j < MAX_HAZARD_THREADS")
      case True
      have "\<exists>us' vs'. ret = us' @ vs' \<and> Some c = last_ptr us' None \<and> nx = first_ptr vs' None"
        using s by (intro exI [of _ "us @ [c]"] exI [of _ vs]) simp
      then have "stack_inv (goto t (Sweep_loop (Some c) nx) s) stk ret"
        by (intro stack_inv_goto [OF inv]) (use t Sweep_scan in simp_all)
      moreover have "stack_inv (goto t (Sweep_scan prev c nx (Suc j)) s) stk ret" if miss: "hazard s ! j \<noteq> Some c"
      proof (rule stack_inv_goto [OF inv])
        show "\<exists>us vs. ret = us @ c' # vs \<and> pr = last_ptr us None \<and> nx' = first_ptr vs None"
          if "Sweep_scan prev c nx (Suc j) = Sweep_scan pr c' nx' i'" for pr c' nx' i' using that s by auto
      qed (use t Sweep_scan scan_next [OF inv, of t c j] miss in auto)
      ultimately have "stack_inv (goto t (if hazard s ! j = Some c then Sweep_loop (Some c) nx else Sweep_scan prev c nx (Suc j)) s) stk ret"
        by simp
      then show ?thesis using Sweep_scan True by (simp add: retire_sweep_step_def step_okI)
    next
      case False
      have e: "MAX_HAZARD_THREADS \<le> j" using False by simp
      have pt: "pcs s t = Sweep_scan (last_ptr us None) c (first_ptr vs None) j" using t Sweep_scan s by simp
      have dist: "distinct (us @ c # vs)" using chain_distinct [OF m(2)] s(1) by simp
      obtain n where n: "nodes s c = Some n" "chain nd_retire (nodes s) (nd_retire n) vs None"
        using m(2) s(1) by (auto simp: chain_append)
      have nx: "nd_retire n = first_ptr vs None" by (rule chain_first [OF n(2)])
      show ?thesis
      proof (cases us rule: rev_cases)
        case Nil
        have "chain nd_retire ((nodes s)(c := None)) nx ([] @ vs) None" using n(2) dist s nx Nil by simp
        then have "stack_inv (goto t (Sweep_loop (last_ptr [] None) (first_ptr vs None)) (s\<lparr>nodes := (nodes s)(c := None), retired := nx\<rparr>)) stk ([] @ vs)"
          by (intro sweep_unlink_inv [OF _ _ e]) (use inv s pt Nil in auto)
        moreover have "retire_sweep_step t p s =
            Some (goto t (Sweep_loop (last_ptr [] None) (first_ptr vs None)) (s\<lparr>nodes := (nodes s)(c := None), retired := nx\<rparr>))"
          using Sweep_scan False s Nil n(1) by (cases s) (simp add: retire_sweep_step_def heap_simps goto_def)
        ultimately show ?thesis by (simp add: step_okI)
      next
        case (snoc ws d)
        obtain k where k: "nodes s d = Some k" using m(2) s(1) snoc by (auto simp: chain_append)
        let ?h = "((nodes s)(d \<mapsto> k\<lparr>nd_retire := nx\<rparr>))(c := None)"
        have dc: "d \<noteq> c" "c \<notin> set (us @ vs)" using dist snoc by auto
        have "chain nd_retire ((nodes s)(d \<mapsto> k\<lparr>nd_retire := nx\<rparr>)) (retired s) (ws @ d # vs) None"
          using chain_bypass [of nd_retire "nodes s" "retired s" ws d c vs k n "nd_retire_update (\<lambda>_. nx)"]
            m(2) s(1,3) snoc k n(1) nx by simp
        moreover have "us @ vs = ws @ d # vs" using snoc by simp
        ultimately have "chain nd_retire ?h (retired s) (us @ vs) None"
          using dc(2) chain_frame [of c "us @ vs"] by (metis (no_types))
        moreover have "dom ?h = dom (nodes s) - {c}" using k by auto
        moreover have "map_option (\<lambda>n. (nd_next n, nd_value n)) (?h x) = map_option (\<lambda>n. (nd_next n, nd_value n)) (nodes s x)"
          if "x \<noteq> c" for x using that k by simp
        moreover have "stack_inv s stk (us @ c # vs)" using inv s(1) by simp
        ultimately have "stack_inv (goto t (Sweep_loop (last_ptr us None) (first_ptr vs None)) (s\<lparr>nodes := ?h, retired := retired s\<rparr>)) stk (us @ vs)"
          using pt e by (intro sweep_unlink_inv)
        moreover have "retire_sweep_step t p s =
            Some (goto t (Sweep_loop (last_ptr us None) (first_ptr vs None)) (s\<lparr>nodes := ?h, retired := retired s\<rparr>))"
          using Sweep_scan False s snoc n(1) k dc(1) by (cases s) (simp add: retire_sweep_step_def heap_simps goto_def)
        ultimately show ?thesis by (simp add: step_okI)
      qed
    qed
  qed (use p in simp_all)
qed

lemma thread_step_ok:
  assumes inv: "stack_inv s stk ret" and wrap: "unat (tp_tag (top s)) < 2 ^ 64 - 1"
  shows "step_ok s (thread_step (t, c, sp) s)"
proof (cases "aborted s")
  case True
  then show ?thesis using inv by (simp add: thread_step_def step_okI)
next
  case False
  show ?thesis
    using client_step_ok [OF inv _ False, of t c] push_step_ok [OF inv _ _ wrap, of t] pop_step_ok [OF inv refl _ False wrap, of t]
      retire_step_ok [OF inv _ _ False, of t] sweep_step_ok [OF inv refl _ False, of t] False
    by (cases "pcs s t") (simp_all add: thread_step_def)
qed

lemma stack_init_inv: "stack_inv stack_init [] []"
  by (simp add: stack_inv_def stack_init_def mem_ok_def tag_ok_def hazard_ok_def protect_ok_def sweep_ok_def history_ok_def)

lemma stack_run_ok:
  "stack_inv s stk ret \<Longrightarrow> unat (tp_tag (top s)) + length es < 2 ^ 64 \<Longrightarrow>
     \<exists>s' stk' ret'. stack_run es s = Some s' \<and> stack_inv s' stk' ret'"
proof (induction es arbitrary: s stk ret)
  case (Cons e es)
  obtain t c sp where e: "e = (t, c, sp)" by (cases e)
  have "unat (tp_tag (top s)) < 2 ^ 64 - 1" using Cons.prems(2) by simp
  from thread_step_ok [OF Cons.prems(1) this, of t c sp]
  obtain s1 stk1 ret1 where s1: "thread_step e s = Some s1" "stack_inv s1 stk1 ret1"
      "unat (tp_tag (top s1)) \<le> Suc (unat (tp_tag (top s)))" unfolding step_ok_def e by blast
  have "unat (tp_tag (top s1)) + length es < 2 ^ 64" using s1(3) Cons.prems(2) by simp
  then show ?case using Cons.IH [OF s1(2)] s1(1) by simp
qed auto

subsection \<open>Properties\<close>

definition pushes :: "stack_op list \<Rightarrow> nat" where
  "pushes es = length (filter (\<lambda>e. case e of Op_push v \<Rightarrow> True | _ \<Rightarrow> False) es)"

definition pops :: "stack_op list \<Rightarrow> nat" where
  "pops es = length (filter (\<lambda>e. case e of Op_pop v \<Rightarrow> True | _ \<Rightarrow> False) es)"

lemma replay_count: "replay es st = Some st' \<Longrightarrow> length st + pushes es = pops es + length st'"
  by (induction es st rule: replay.induct) (auto simp: pushes_def pops_def split: list.splits if_splits)

text \<open>C1: under every schedule of fewer than \<open>2 ^ 64\<close> steps, by any number of threads, nothing is undefined:
no freed or null node is read or written and none is freed twice. The stack holds exactly what the
successful operations leave when they are done one after the other in the order of their
compare-and-swaps (each pop returns the value on top, and \<^verbatim>\<open>NULL\<close> only when the stack is empty), and what was
pushed is either popped or still there.\<close>
theorem treiber_linearizable:
  assumes "length es < 2 ^ 64"
  shows "\<exists>s stk. stack_run es stack_init = Some s \<and> chain nd_next (nodes s) (tp_ptr (top s)) stk None \<and>
    replay (ops s) [] = Some (map (value_at s) stk) \<and> pushes (ops s) = pops (ops s) + length stk"
proof -
  have "unat (tp_tag (top stack_init)) + length es < 2 ^ 64" using assms by (simp add: stack_init_def)
  from stack_run_ok [OF stack_init_inv this]
  obtain s stk ret where s: "stack_run es stack_init = Some s" "stack_inv s stk ret" by blast
  have "chain nd_next (nodes s) (tp_ptr (top s)) stk None" using s(2) by (simp add: stack_inv_def mem_ok_def)
  moreover have r: "replay (ops s) [] = Some (map (value_at s) stk)" using s(2) by (simp add: stack_inv_def history_ok_def)
  moreover have "pushes (ops s) = pops (ops s) + length stk" using replay_count [OF r] by simp
  ultimately show ?thesis using s(1) by blast
qed

lemma treiber_linearizable_witness:
  "\<exists>s stk. stack_run [(0, Do_push 5 7 \<lparr>nd_value = 0, nd_next = None, nd_retire = None\<rparr>, False), (1, Do_pop, False),
      (0, Do_pop, False), (1, Do_pop, True), (0, Do_pop, False)] stack_init = Some s \<and>
     chain nd_next (nodes s) (tp_ptr (top s)) stk None"
  using treiber_linearizable [of "[(0, Do_push 5 7 \<lparr>nd_value = 0, nd_next = None, nd_retire = None\<rparr>, False), (1, Do_pop, False),
      (0, Do_pop, False), (1, Do_pop, True), (0, Do_pop, False)]"] by auto

text \<open>nothing leaks: when every thread is idle again, each node that is allocated is on the stack or on
the list of retired nodes, and on only one of them.\<close>
theorem treiber_no_leak:
  assumes "length es < 2 ^ 64" "stack_run es stack_init = Some s" "\<And>t. pcs s t = Idle"
  shows "\<exists>stk ret. chain nd_next (nodes s) (tp_ptr (top s)) stk None \<and> chain nd_retire (nodes s) (retired s) ret None \<and>
    dom (nodes s) = set stk \<union> set ret \<and> set stk \<inter> set ret = {} \<and> lock s = None"
proof -
  have "unat (tp_tag (top stack_init)) + length es < 2 ^ 64" using assms by (simp add: stack_init_def)
  from stack_run_ok [OF stack_init_inv this] assms(2)
  obtain stk ret where s: "stack_inv s stk ret" by auto
  note m = mem_okD [OF stack_invD(1) [OF s]]
  have "{a. \<exists>t. own (pcs s t) = Some a} = {}" using assms(3) by simp
  then have "dom (nodes s) = set stk \<union> set ret" using m(6) by simp
  moreover have "lock s = None"
  proof (cases "lock s")
    case (Some t)
    then have "sweeping (pcs s t)" using stack_invD(5) [OF s] unfolding sweep_ok_def by simp
    then show ?thesis using assms(3) [of t] by simp
  qed
  ultimately show ?thesis using m(1-3) by blast
qed

lemma treiber_no_leak_witness:
  "\<exists>stk ret. chain nd_next (nodes stack_init) (tp_ptr (top stack_init)) stk None \<and>
     dom (nodes stack_init) = set stk \<union> set ret"
proof -
  have "stack_run [] stack_init = Some stack_init" "pcs stack_init t = Idle" for t by (simp_all add: stack_init_def)
  from treiber_no_leak [OF _ this] show ?thesis by auto
qed

end
