(* ===== verification/Bitboard.thy ===== *)
theory Bitboard
  imports Prelude
begin

unbundle bit_operations_syntax

text \<open>
  The chess bitboards of \<^verbatim>\<open>Phase-1/Day20/C/bitBoard.c\<close> and the bit macros of
  \<^verbatim>\<open>Phase-1/Day20/C/bitfields.c\<close>. A board is a list of twelve 64-bit words, one per kind of piece; square
  \<open>8 * rank + file\<close> is a bit of each.
\<close>

subsection \<open>Boards\<close>

type_synonym Bitboard = u64

text \<open>The indices of \<^verbatim>\<open>enum { P, N, B, R, Q, K, p, n, b, r, q, k }\<close>.\<close>

datatype piece = WP | WN | WB | WR | WQ | WK | BP | BN | BB | BR | BQ | BK

definition index :: "piece \<Rightarrow> nat" where
  "index x = (case x of WP \<Rightarrow> 0 | WN \<Rightarrow> 1 | WB \<Rightarrow> 2 | WR \<Rightarrow> 3 | WQ \<Rightarrow> 4 | WK \<Rightarrow> 5
     | BP \<Rightarrow> 6 | BN \<Rightarrow> 7 | BB \<Rightarrow> 8 | BR \<Rightarrow> 9 | BQ \<Rightarrow> 10 | BK \<Rightarrow> 11)"

definition piece_chars :: string where "piece_chars = ''PNBRQKpnbrqk''"

definition FILE_A :: Bitboard where "FILE_A = 0x0101010101010101"
definition FILE_B :: Bitboard where "FILE_B = 0x0202020202020202"
definition FILE_G :: Bitboard where "FILE_G = 0x4040404040404040"
definition FILE_H :: Bitboard where "FILE_H = 0x8080808080808080"

definition set_square :: "Bitboard \<Rightarrow> nat \<Rightarrow> Bitboard" where
  "set_square bb square = bb OR push_bit square 1"

definition get_square :: "Bitboard \<Rightarrow> nat \<Rightarrow> bool" where
  "get_square bb square = (drop_bit square bb AND 1 \<noteq> 0)"

definition init_board :: "Bitboard list" where
  "init_board =
     [0x000000000000FF00,
      set_square (set_square 0 1) 6,
      set_square (set_square 0 2) 5,
      set_square (set_square 0 0) 7,
      set_square 0 3,
      set_square 0 4,
      0x00FF000000000000,
      set_square (set_square 0 57) 62,
      set_square (set_square 0 58) 61,
      set_square (set_square 0 56) 63,
      set_square 0 59,
      set_square 0 60]"

definition get_occupied :: "Bitboard list \<Rightarrow> Bitboard" where
  "get_occupied boards = fold (\<lambda>bb occ. occ OR bb) boards 0"

definition knight_attacks :: "Bitboard \<Rightarrow> Bitboard" where
  "knight_attacks knights =
     (let l1 = drop_bit 1 knights AND NOT FILE_H;
          l2 = drop_bit 2 knights AND NOT (FILE_H OR FILE_G);
          r1 = push_bit 1 knights AND NOT FILE_A;
          r2 = push_bit 2 knights AND NOT (FILE_A OR FILE_B) in
      push_bit 16 l1 OR drop_bit 16 l1 OR
      push_bit 8 l2 OR drop_bit 8 l2 OR
      push_bit 16 r1 OR drop_bit 16 r1 OR
      push_bit 8 r2 OR drop_bit 8 r2)"

text \<open>The glyph of a square: the first piece found there, else \<^verbatim>\<open>*\<close> if the overlay has it.\<close>

definition glyph_at :: "Bitboard list \<Rightarrow> Bitboard \<Rightarrow> nat \<Rightarrow> char" where
  "glyph_at boards overlay sq =
     (let glyph = (case List.find (\<lambda>i. get_square (boards ! i) sq) [0..<12] of
                     None \<Rightarrow> CHR ''.'' | Some i \<Rightarrow> piece_chars ! i) in
      if get_square overlay sq then (if glyph = CHR ''.'' then CHR ''*'' else glyph) else glyph)"

definition newline :: string where "newline = [CHR 0x0A]"

definition rank_line :: "Bitboard list \<Rightarrow> Bitboard \<Rightarrow> nat \<Rightarrow> string" where
  "rank_line boards overlay rank =
     [char_of (49 + rank), CHR '' ''] @
     concat (map (\<lambda>file. [glyph_at boards overlay (rank * 8 + file), CHR '' '']) [0..<8]) @ newline"

text \<open>The ranks are printed from the eighth down to the first.\<close>

definition print_board :: "Bitboard list \<Rightarrow> Bitboard \<Rightarrow> string" where
  "print_board boards overlay =
     newline @ concat (map (rank_line boards overlay) (rev [0..<8])) @ ''  a b c d e f g h'' @ newline"

definition push_white_pawns :: "Bitboard list \<Rightarrow> Bitboard list" where
  "push_white_pawns boards =
     (let vacant = NOT (get_occupied boards);
          pushed = push_bit 8 (boards ! index WP) AND vacant;
          movers = drop_bit 8 pushed;
          boards = boards[index WP := boards ! index WP AND NOT movers] in
      boards[index WP := boards ! index WP OR pushed])"

definition push_black_pawns :: "Bitboard list \<Rightarrow> Bitboard list" where
  "push_black_pawns boards =
     (let vacant = NOT (get_occupied boards);
          pushed = drop_bit 8 (boards ! index BP) AND vacant;
          movers = push_bit 8 pushed;
          boards = boards[index BP := boards ! index BP AND NOT movers] in
      boards[index BP := boards ! index BP OR pushed])"

text \<open>What \<^verbatim>\<open>main\<close> prints.\<close>

definition board_main :: string where
  "board_main =
     (let boards = init_board;
          attacks = knight_attacks (boards ! index WN);
          blocked = boards[index BR := boards ! index BR OR push_bit 20 1];
          white = push_white_pawns blocked;
          black = push_black_pawns white in
      ''--- INITIAL BOARD ---'' @ print_board boards 0 @
      newline @ ''--- WHITE KNIGHT ATTACKS (*) ---'' @ print_board boards attacks @
      newline @ ''--- BLOCKER ADDED AT e3 ---'' @ print_board blocked 0 @
      newline @ ''--- WHITE PAWNS PUSHED (e2 blocked) ---'' @ print_board white 0 @
      newline @ ''--- BLACK PAWNS PUSHED ---'' @ print_board black 0)"

subsection \<open>Squares\<close>

lemma get_square_bit: "get_square bb n = bit bb n"
  unfolding get_square_def bit_iff_odd_drop_bit and_one_eq by (simp add: mod_2_eq_odd)

lemma bit_u64_less: "bit (w::u64) n \<Longrightarrow> n < 64"
  by (drule bit_imp_le_length) simp

lemma bit_set_square: "bit (set_square bb m) n \<longleftrightarrow> bit bb n \<or> n = m \<and> m < 64"
  by (auto simp: set_square_def bit_simps bit_1_iff dest: bit_imp_le_length)

lemma all_squares: "(\<forall>n < 64. Q n) \<longleftrightarrow> list_all Q [0..<64]"
  by (auto simp: list_all_iff)

lemma bit_files:
  "bit FILE_A n \<longleftrightarrow> n < 64 \<and> n mod 8 = 0" "bit FILE_B n \<longleftrightarrow> n < 64 \<and> n mod 8 = 1"
  "bit FILE_G n \<longleftrightarrow> n < 64 \<and> n mod 8 = 6" "bit FILE_H n \<longleftrightarrow> n < 64 \<and> n mod 8 = 7"
proof -
  have all: "\<forall>n < 64. (bit FILE_A n \<longleftrightarrow> n mod 8 = 0) \<and> (bit FILE_B n \<longleftrightarrow> n mod 8 = 1) \<and>
      (bit FILE_G n \<longleftrightarrow> n mod 8 = 6) \<and> (bit FILE_H n \<longleftrightarrow> n mod 8 = 7)"
    unfolding all_squares FILE_A_def FILE_B_def FILE_G_def FILE_H_def by (simp add: upt_rec)
  then show "bit FILE_A n \<longleftrightarrow> n < 64 \<and> n mod 8 = 0" "bit FILE_B n \<longleftrightarrow> n < 64 \<and> n mod 8 = 1"
    "bit FILE_G n \<longleftrightarrow> n < 64 \<and> n mod 8 = 6" "bit FILE_H n \<longleftrightarrow> n < 64 \<and> n mod 8 = 7"
    using bit_u64_less [of _ n] by metis+
qed

lemma bit_occupied: "bit (get_occupied boards) n \<longleftrightarrow> (\<exists>bb\<in>set boards. bit bb n)"
proof -
  have "bit (fold (\<lambda>bb occ. occ OR bb) boards acc) n \<longleftrightarrow> bit acc n \<or> (\<exists>bb\<in>set boards. bit bb n)" for acc
    by (induction boards arbitrary: acc) (auto simp: bit_or_iff)
  then show ?thesis by (simp add: get_occupied_def)
qed

subsection \<open>Knight moves\<close>

text \<open>Two squares a knight's move apart: one file and two ranks, or two files and one rank.\<close>

definition apart :: "nat \<Rightarrow> nat \<Rightarrow> nat" where
  "apart m n = (m - n) + (n - m)"

definition knight_move :: "nat \<Rightarrow> nat \<Rightarrow> bool" where
  "knight_move s t \<longleftrightarrow> apart (s mod 8) (t mod 8) = 1 \<and> apart (s div 8) (t div 8) = 2 \<or>
     apart (s mod 8) (t mod 8) = 2 \<and> apart (s div 8) (t div 8) = 1"

lemma square_unique: "8 * a + b = 8 * x + (y::nat) \<Longrightarrow> b < 8 \<Longrightarrow> y < 8 \<Longrightarrow> a = x \<and> b = y"
proof -
  assume e: "8 * a + b = 8 * x + y" and l: "b < 8" "y < 8"
  have "(8 * a + b) div 8 = a" "(8 * a + b) mod 8 = b" "(8 * x + y) div 8 = x" "(8 * x + y) mod 8 = y"
    using l by simp_all
  then show ?thesis using e by simp
qed

text \<open>The eight moves as differences of square numbers.\<close>

lemma knight_offsets:
  assumes s: "s = 8 * a + b" "b < 8" "t = 8 * c + d" "d < (8::nat)"
  shows "d < 7 \<and> s + 15 = t \<longleftrightarrow> b = d + 1 \<and> c = a + 2" "d < 7 \<and> s = t + 17 \<longleftrightarrow> b = d + 1 \<and> a = c + 2"
    "d < 6 \<and> s + 6 = t \<longleftrightarrow> b = d + 2 \<and> c = a + 1" "d < 6 \<and> s = t + 10 \<longleftrightarrow> b = d + 2 \<and> a = c + 1"
    "0 < d \<and> s + 17 = t \<longleftrightarrow> d = b + 1 \<and> c = a + 2" "0 < d \<and> s = t + 15 \<longleftrightarrow> d = b + 1 \<and> a = c + 2"
    "1 < d \<and> s + 10 = t \<longleftrightarrow> d = b + 2 \<and> c = a + 1" "1 < d \<and> s = t + 6 \<longleftrightarrow> d = b + 2 \<and> a = c + 1"
proof -
  show "d < 7 \<and> s + 15 = t \<longleftrightarrow> b = d + 1 \<and> c = a + 2" "d < 7 \<and> s = t + 17 \<longleftrightarrow> b = d + 1 \<and> a = c + 2"
    using s square_unique [of "a + 2" b c "d + 1"] square_unique [of a b "c + 2" "d + 1"] by auto
  show "d < 6 \<and> s + 6 = t \<longleftrightarrow> b = d + 2 \<and> c = a + 1" "d < 6 \<and> s = t + 10 \<longleftrightarrow> b = d + 2 \<and> a = c + 1"
    using s square_unique [of "a + 1" b c "d + 2"] square_unique [of a b "c + 1" "d + 2"] by auto
  show "0 < d \<and> s = t + 15 \<longleftrightarrow> d = b + 1 \<and> a = c + 2" "1 < d \<and> s = t + 6 \<longleftrightarrow> d = b + 2 \<and> a = c + 1"
    using s square_unique [of a b "c + 2" "d - 1"] square_unique [of a b "c + 1" "d - 2"] by auto
  show "0 < d \<and> s + 17 = t \<longleftrightarrow> d = b + 1 \<and> c = a + 2"
  proof
    assume h: "0 < d \<and> s + 17 = t"
    define e where "e = d - 1"
    then have e: "d = e + 1" using h by simp
    then have "8 * (a + 2) + b = 8 * c + e" using s h by simp
    then show "d = b + 1 \<and> c = a + 2" using square_unique [of "a + 2" b c e] e s by simp
  qed (use s in simp)
  show "1 < d \<and> s + 10 = t \<longleftrightarrow> d = b + 2 \<and> c = a + 1"
  proof
    assume h: "1 < d \<and> s + 10 = t"
    define e where "e = d - 2"
    then have e: "d = e + 2" using h by linarith
    then have "8 * (a + 1) + b = 8 * c + e" using s h by simp
    then show "d = b + 2 \<and> c = a + 1" using square_unique [of "a + 1" b c e] e s by simp
  qed (use s in simp)
qed

lemma knight_move_offset:
  "knight_move s t \<longleftrightarrow>
     (t mod 8 < 7 \<and> (s + 15 = t \<or> s = t + 17)) \<or> (t mod 8 < 6 \<and> (s + 6 = t \<or> s = t + 10)) \<or>
     (0 < t mod 8 \<and> (s + 17 = t \<or> s = t + 15)) \<or> (1 < t mod 8 \<and> (s + 10 = t \<or> s = t + 6))"
proof -
  define a b c d where abcd: "a = s div 8" "b = s mod 8" "c = t div 8" "d = t mod 8"
  have s: "s = 8 * a + b" "b < 8" "t = 8 * c + d" "d < 8" by (simp_all add: abcd)
  have ap: "apart m n = k \<longleftrightarrow> m = n + k \<or> n = m + k" if "0 < k" for m n k using that by (auto simp: apart_def)
  have "knight_move s t \<longleftrightarrow> (b = d + 1 \<or> d = b + 1) \<and> (a = c + 2 \<or> c = a + 2) \<or>
      (b = d + 2 \<or> d = b + 2) \<and> (a = c + 1 \<or> c = a + 1)"
    unfolding knight_move_def abcd by (simp add: ap)
  then show ?thesis
    by (simp only: abcd(4) [symmetric] conj_disj_distribL knight_offsets [OF s]) blast
qed

text \<open>A shift as a relation between squares.\<close>

lemma bit_push_ex: "bit (push_bit n (w::u64)) t \<longleftrightarrow> t < 64 \<and> (\<exists>u. bit w u \<and> t = u + n)"
proof -
  have "bit (push_bit n w) t \<longleftrightarrow> t < 64 \<and> n \<le> t \<and> bit w (t - n)" by (auto simp: bit_simps)
  also have "n \<le> t \<and> bit w (t - n) \<longleftrightarrow> (\<exists>u. bit w u \<and> t = u + n)" by (metis add_diff_cancel_right' le_add2 le_add_diff_inverse2)
  finally show ?thesis .
qed

lemma bit_drop_ex: "bit (drop_bit n (w::u64)) t \<longleftrightarrow> (\<exists>u. bit w u \<and> u = t + n)"
  by (simp add: bit_drop_bit_eq add.commute)

lemma bit_mask_out: "bit ((v::u64) AND NOT w) t \<longleftrightarrow> bit v t \<and> \<not> bit w t"
  using bit_u64_less [of v t] by (auto simp: bit_simps)

text \<open>The eight shifts of \<open>knight_attacks\<close>.\<close>

lemma shift_moves:
  fixes s t :: nat
  assumes "s < 64" "t < 64"
  shows "(\<exists>u. t = u + 16 \<and> s = u + 1 \<and> u mod 8 \<noteq> 7) \<longleftrightarrow> t mod 8 < 7 \<and> s + 15 = t"
    "(\<exists>u. u = t + 16 \<and> s = u + 1 \<and> u mod 8 \<noteq> 7) \<longleftrightarrow> t mod 8 < 7 \<and> s = t + 17"
    "(\<exists>u. t = u + 8 \<and> s = u + 2 \<and> u mod 8 \<noteq> 7 \<and> u mod 8 \<noteq> 6) \<longleftrightarrow> t mod 8 < 6 \<and> s + 6 = t"
    "(\<exists>u. u = t + 8 \<and> s = u + 2 \<and> u mod 8 \<noteq> 7 \<and> u mod 8 \<noteq> 6) \<longleftrightarrow> t mod 8 < 6 \<and> s = t + 10"
    "(\<exists>u. t = u + 16 \<and> u < 64 \<and> u = s + 1 \<and> u mod 8 \<noteq> 0) \<longleftrightarrow> 0 < t mod 8 \<and> s + 17 = t"
    "(\<exists>u. u = t + 16 \<and> u < 64 \<and> u = s + 1 \<and> u mod 8 \<noteq> 0) \<longleftrightarrow> 0 < t mod 8 \<and> s = t + 15"
    "(\<exists>u. t = u + 8 \<and> u < 64 \<and> u = s + 2 \<and> u mod 8 \<noteq> 0 \<and> u mod 8 \<noteq> 1) \<longleftrightarrow> 1 < t mod 8 \<and> s + 10 = t"
    "(\<exists>u. u = t + 8 \<and> u < 64 \<and> u = s + 2 \<and> u mod 8 \<noteq> 0 \<and> u mod 8 \<noteq> 1) \<longleftrightarrow> 1 < t mod 8 \<and> s = t + 6"
proof -
  have m: "(u + 8) mod 8 = u mod 8 \<and> (8 + u) mod 8 = u mod 8" "(u + 16) mod 8 = u mod 8 \<and> (16 + u) mod 8 = u mod 8"
    for u :: nat by presburger+
  have l: "x mod 8 \<noteq> 7 \<longleftrightarrow> x mod 8 < 7" "x mod 8 \<noteq> 7 \<and> x mod 8 \<noteq> 6 \<longleftrightarrow> x mod 8 < 6"
    "x mod 8 \<noteq> 0 \<and> x mod 8 \<noteq> 1 \<longleftrightarrow> 1 < x mod 8" for x :: nat
    using mod_less_divisor [of 8 x] by linarith+
  show "(\<exists>u. t = u + 16 \<and> s = u + 1 \<and> u mod 8 \<noteq> 7) \<longleftrightarrow> t mod 8 < 7 \<and> s + 15 = t"
  proof (cases s)
    case (Suc u)
    then show ?thesis using l(1) [of u] m(2) [of u] by auto
  qed auto
  show "(\<exists>u. u = t + 16 \<and> s = u + 1 \<and> u mod 8 \<noteq> 7) \<longleftrightarrow> t mod 8 < 7 \<and> s = t + 17"
    using l(1) [of t] m(2) [of t] by auto
  show "(\<exists>u. t = u + 8 \<and> s = u + 2 \<and> u mod 8 \<noteq> 7 \<and> u mod 8 \<noteq> 6) \<longleftrightarrow> t mod 8 < 6 \<and> s + 6 = t"
  proof (cases "s < 2")
    case True
    then have "s = 0 \<or> s = 1" by auto
    then show ?thesis by auto
  next
    case False
    define u where "u = s - 2"
    have "s = u + 2" using False by (simp add: u_def)
    then show ?thesis using l(2) [of u] m(1) [of u] by auto
  qed
  show "(\<exists>u. u = t + 8 \<and> s = u + 2 \<and> u mod 8 \<noteq> 7 \<and> u mod 8 \<noteq> 6) \<longleftrightarrow> t mod 8 < 6 \<and> s = t + 10"
    using l(2) [of t] m(1) [of t] by auto
  show "(\<exists>u. t = u + 16 \<and> u < 64 \<and> u = s + 1 \<and> u mod 8 \<noteq> 0) \<longleftrightarrow> 0 < t mod 8 \<and> s + 17 = t"
    using m(2) [of "s + 1"] assms(2) by (auto simp: add.commute [of _ 17])
  have "t + 16 \<noteq> 64" if "0 < t mod 8" using that by auto
  then show "(\<exists>u. u = t + 16 \<and> u < 64 \<and> u = s + 1 \<and> u mod 8 \<noteq> 0) \<longleftrightarrow> 0 < t mod 8 \<and> s = t + 15"
    using m(2) [of t] assms(1) by auto
  show "(\<exists>u. t = u + 8 \<and> u < 64 \<and> u = s + 2 \<and> u mod 8 \<noteq> 0 \<and> u mod 8 \<noteq> 1) \<longleftrightarrow> 1 < t mod 8 \<and> s + 10 = t"
    using m(1) [of "s + 2"] l(3) [of "s + 2"] assms(2) by (auto simp: add.commute [of _ 10])
  have "t + 8 \<noteq> 64" "t + 8 \<noteq> 65" if "1 < t mod 8"
  proof -
    show "t + 8 \<noteq> 64" using that by auto
    show "t + 8 \<noteq> 65"
    proof
      assume "t + 8 = 65"
      then have "t = 57" by simp
      then show False using that by simp
    qed
  qed
  then show "(\<exists>u. u = t + 8 \<and> u < 64 \<and> u = s + 2 \<and> u mod 8 \<noteq> 0 \<and> u mod 8 \<noteq> 1) \<longleftrightarrow> 1 < t mod 8 \<and> s = t + 6"
    using m(1) [of t] l(3) [of t] assms(1) by auto
qed

text \<open>A shift of a shifted and masked board, one for each pair of directions.\<close>

lemma shifted:
  fixes kn w :: u64
  assumes t: "t < 64"
  shows "bit (push_bit n (drop_bit m kn AND NOT w)) t \<longleftrightarrow>
      (\<exists>s<64. bit kn s \<and> (\<exists>u. t = u + n \<and> s = u + m \<and> \<not> bit w u))"
    "bit (drop_bit n (drop_bit m kn AND NOT w)) t \<longleftrightarrow>
      (\<exists>s<64. bit kn s \<and> (\<exists>u. u = t + n \<and> s = u + m \<and> \<not> bit w u))"
    "bit (push_bit n (push_bit m kn AND NOT w)) t \<longleftrightarrow>
      (\<exists>s<64. bit kn s \<and> (\<exists>u. t = u + n \<and> u < 64 \<and> u = s + m \<and> \<not> bit w u))"
    "bit (drop_bit n (push_bit m kn AND NOT w)) t \<longleftrightarrow>
      (\<exists>s<64. bit kn s \<and> (\<exists>u. u = t + n \<and> u < 64 \<and> u = s + m \<and> \<not> bit w u))"
  unfolding bit_push_ex bit_drop_ex bit_mask_out using bit_u64_less [of kn] t by blast+

lemma masks:
  assumes "u < 64"
  shows "\<not> bit FILE_H u \<longleftrightarrow> u mod 8 \<noteq> 7" "\<not> bit (FILE_H OR FILE_G) u \<longleftrightarrow> u mod 8 \<noteq> 7 \<and> u mod 8 \<noteq> 6"
    "\<not> bit FILE_A u \<longleftrightarrow> u mod 8 \<noteq> 0" "\<not> bit (FILE_A OR FILE_B) u \<longleftrightarrow> u mod 8 \<noteq> 0 \<and> u mod 8 \<noteq> 1"
  using assms by (simp_all add: bit_or_iff bit_files)

lemma shifted_masks:
  assumes t: "t < (64::nat)" and s: "s < (64::nat)"
  shows "(\<exists>u. t = u + 16 \<and> s = u + 1 \<and> \<not> bit FILE_H u) \<longleftrightarrow> t mod 8 < 7 \<and> s + 15 = t"
    "(\<exists>u. u = t + 16 \<and> s = u + 1 \<and> \<not> bit FILE_H u) \<longleftrightarrow> t mod 8 < 7 \<and> s = t + 17"
    "(\<exists>u. t = u + 8 \<and> s = u + 2 \<and> \<not> bit (FILE_H OR FILE_G) u) \<longleftrightarrow> t mod 8 < 6 \<and> s + 6 = t"
    "(\<exists>u. u = t + 8 \<and> s = u + 2 \<and> \<not> bit (FILE_H OR FILE_G) u) \<longleftrightarrow> t mod 8 < 6 \<and> s = t + 10"
    "(\<exists>u. t = u + 16 \<and> u < 64 \<and> u = s + 1 \<and> \<not> bit FILE_A u) \<longleftrightarrow> 0 < t mod 8 \<and> s + 17 = t"
    "(\<exists>u. u = t + 16 \<and> u < 64 \<and> u = s + 1 \<and> \<not> bit FILE_A u) \<longleftrightarrow> 0 < t mod 8 \<and> s = t + 15"
    "(\<exists>u. t = u + 8 \<and> u < 64 \<and> u = s + 2 \<and> \<not> bit (FILE_A OR FILE_B) u) \<longleftrightarrow> 1 < t mod 8 \<and> s + 10 = t"
    "(\<exists>u. u = t + 8 \<and> u < 64 \<and> u = s + 2 \<and> \<not> bit (FILE_A OR FILE_B) u) \<longleftrightarrow> 1 < t mod 8 \<and> s = t + 6"
proof -
  have u: "s = u + k \<Longrightarrow> u < 64" for u k :: nat using s by simp
  note moves = shift_moves [OF s t]
  show "(\<exists>u. t = u + 16 \<and> s = u + 1 \<and> \<not> bit FILE_H u) \<longleftrightarrow> t mod 8 < 7 \<and> s + 15 = t"
    unfolding moves(1) [symmetric] by (intro arg_cong [where f = Ex] ext) (metis u masks(1))
  show "(\<exists>u. u = t + 16 \<and> s = u + 1 \<and> \<not> bit FILE_H u) \<longleftrightarrow> t mod 8 < 7 \<and> s = t + 17"
    unfolding moves(2) [symmetric] by (intro arg_cong [where f = Ex] ext) (metis u masks(1))
  show "(\<exists>u. t = u + 8 \<and> s = u + 2 \<and> \<not> bit (FILE_H OR FILE_G) u) \<longleftrightarrow> t mod 8 < 6 \<and> s + 6 = t"
    unfolding moves(3) [symmetric] by (intro arg_cong [where f = Ex] ext) (metis u masks(2))
  show "(\<exists>u. u = t + 8 \<and> s = u + 2 \<and> \<not> bit (FILE_H OR FILE_G) u) \<longleftrightarrow> t mod 8 < 6 \<and> s = t + 10"
    unfolding moves(4) [symmetric] by (intro arg_cong [where f = Ex] ext) (metis u masks(2))
  show "(\<exists>u. t = u + 16 \<and> u < 64 \<and> u = s + 1 \<and> \<not> bit FILE_A u) \<longleftrightarrow> 0 < t mod 8 \<and> s + 17 = t"
    unfolding moves(5) [symmetric] by (intro arg_cong [where f = Ex] ext) (metis masks(3))
  show "(\<exists>u. u = t + 16 \<and> u < 64 \<and> u = s + 1 \<and> \<not> bit FILE_A u) \<longleftrightarrow> 0 < t mod 8 \<and> s = t + 15"
    unfolding moves(6) [symmetric] by (intro arg_cong [where f = Ex] ext) (metis masks(3))
  show "(\<exists>u. t = u + 8 \<and> u < 64 \<and> u = s + 2 \<and> \<not> bit (FILE_A OR FILE_B) u) \<longleftrightarrow> 1 < t mod 8 \<and> s + 10 = t"
    unfolding moves(7) [symmetric] by (intro arg_cong [where f = Ex] ext) (metis masks(4))
  show "(\<exists>u. u = t + 8 \<and> u < 64 \<and> u = s + 2 \<and> \<not> bit (FILE_A OR FILE_B) u) \<longleftrightarrow> 1 < t mod 8 \<and> s = t + 6"
    unfolding moves(8) [symmetric] by (intro arg_cong [where f = Ex] ext) (metis masks(4))
qed

lemma ex_less_cong: "(\<And>s. s < n \<Longrightarrow> Q s = R s) \<Longrightarrow> (\<exists>s<(n::nat). Q s) = (\<exists>s<n. R s)"
  by blast

lemma knight_attacks_bit:
  assumes t: "t < 64"
  shows "bit (knight_attacks kn) t \<longleftrightarrow> (\<exists>s<64. bit kn s \<and> knight_move s t)"
proof -
  have "(\<exists>s<64. bit kn s \<and> knight_move s t) \<longleftrightarrow> (\<exists>s<64.
     bit kn s \<and> (\<exists>u. t = u + 16 \<and> s = u + 1 \<and> \<not> bit FILE_H u) \<or>
     bit kn s \<and> (\<exists>u. u = t + 16 \<and> s = u + 1 \<and> \<not> bit FILE_H u) \<or>
     bit kn s \<and> (\<exists>u. t = u + 8 \<and> s = u + 2 \<and> \<not> bit (FILE_H OR FILE_G) u) \<or>
     bit kn s \<and> (\<exists>u. u = t + 8 \<and> s = u + 2 \<and> \<not> bit (FILE_H OR FILE_G) u) \<or>
     bit kn s \<and> (\<exists>u. t = u + 16 \<and> u < 64 \<and> u = s + 1 \<and> \<not> bit FILE_A u) \<or>
     bit kn s \<and> (\<exists>u. u = t + 16 \<and> u < 64 \<and> u = s + 1 \<and> \<not> bit FILE_A u) \<or>
     bit kn s \<and> (\<exists>u. t = u + 8 \<and> u < 64 \<and> u = s + 2 \<and> \<not> bit (FILE_A OR FILE_B) u) \<or>
     bit kn s \<and> (\<exists>u. u = t + 8 \<and> u < 64 \<and> u = s + 2 \<and> \<not> bit (FILE_A OR FILE_B) u))"
  proof (rule ex_less_cong)
    fix s :: nat
    assume s: "s < 64"
    show "bit kn s \<and> knight_move s t \<longleftrightarrow>
       bit kn s \<and> (\<exists>u. t = u + 16 \<and> s = u + 1 \<and> \<not> bit FILE_H u) \<or>
       bit kn s \<and> (\<exists>u. u = t + 16 \<and> s = u + 1 \<and> \<not> bit FILE_H u) \<or>
       bit kn s \<and> (\<exists>u. t = u + 8 \<and> s = u + 2 \<and> \<not> bit (FILE_H OR FILE_G) u) \<or>
       bit kn s \<and> (\<exists>u. u = t + 8 \<and> s = u + 2 \<and> \<not> bit (FILE_H OR FILE_G) u) \<or>
       bit kn s \<and> (\<exists>u. t = u + 16 \<and> u < 64 \<and> u = s + 1 \<and> \<not> bit FILE_A u) \<or>
       bit kn s \<and> (\<exists>u. u = t + 16 \<and> u < 64 \<and> u = s + 1 \<and> \<not> bit FILE_A u) \<or>
       bit kn s \<and> (\<exists>u. t = u + 8 \<and> u < 64 \<and> u = s + 2 \<and> \<not> bit (FILE_A OR FILE_B) u) \<or>
       bit kn s \<and> (\<exists>u. u = t + 8 \<and> u < 64 \<and> u = s + 2 \<and> \<not> bit (FILE_A OR FILE_B) u)"
      unfolding shifted_masks [OF t s] knight_move_offset by blast
  qed
  also have "\<dots> \<longleftrightarrow> bit (knight_attacks kn) t"
    unfolding knight_attacks_def Let_def bit_or_iff shifted [OF t] conj_disj_distribL ex_disj_distrib
    by (simp only: disj_assoc)
  finally show ?thesis by simp
qed

subsection \<open>Pawn pushes\<close>

text \<open>No two boards share a square: the twelve words together are one chess position.\<close>

definition one_piece_per_square :: "Bitboard list \<Rightarrow> bool" where
  "one_piece_per_square boards \<longleftrightarrow> length boards = 12 \<and>
     (\<forall>i<12. \<forall>j<12. i \<noteq> j \<longrightarrow> (\<forall>n. \<not> (bit (boards ! i) n \<and> bit (boards ! j) n)))"

lemma index_less: "index x < 12"
  by (cases x) (simp_all add: index_def)

lemma push_disjoint:
  assumes ok: "one_piece_per_square boards" and k: "k < 12"
    and new: "\<And>n. bit w n \<Longrightarrow> bit (boards ! k) n \<or> \<not> bit (get_occupied boards) n"
  shows "one_piece_per_square (boards[k := w])"
  unfolding one_piece_per_square_def
proof (intro conjI allI impI)
  have l: "length boards = 12" using ok by (simp add: one_piece_per_square_def)
  then show "length (boards[k := w]) = 12" by simp
  have other: "\<not> (bit w n \<and> bit (boards ! j) n)" if "j < 12" "j \<noteq> k" for j n
    using new [of n] that l ok k nth_mem [of j boards]
    unfolding one_piece_per_square_def bit_occupied by metis
  fix i j n
  assume ij: "i < 12" "j < 12" "i \<noteq> (j::nat)"
  have old: "\<not> (bit (boards ! i) n \<and> bit (boards ! j) n)"
    using ok ij unfolding one_piece_per_square_def by blast
  show "\<not> (bit (boards[k := w] ! i) n \<and> bit (boards[k := w] ! j) n)"
  proof (cases "i = k")
    case True
    then show ?thesis using other [of j n] ij l by simp
  next
    case False
    then show ?thesis using other [of i n] old ij l by (cases "j = k") auto
  qed
qed

lemma bit_push8: "bit (push_bit 8 (w::u64)) t \<longleftrightarrow> t < 64 \<and> 8 \<le> t \<and> bit w (t - 8)"
  by (auto simp: bit_simps)

lemma bit_drop8: "bit (drop_bit 8 (w::u64)) t \<longleftrightarrow> bit w (t + 8)"
  by (simp add: bit_drop_bit_eq add.commute)

lemma bit_vacant: "t < 64 \<Longrightarrow> bit (NOT (w::u64)) t \<longleftrightarrow> \<not> bit w t"
  by (simp add: bit_not_iff)

abbreviation white_word :: "u64 \<Rightarrow> u64 \<Rightarrow> u64" where
  "white_word P V \<equiv> P AND NOT (drop_bit 8 (push_bit 8 P AND NOT V)) OR push_bit 8 P AND NOT V"

abbreviation black_word :: "u64 \<Rightarrow> u64 \<Rightarrow> u64" where
  "black_word P V \<equiv> P AND NOT (push_bit 8 (drop_bit 8 P AND NOT V)) OR drop_bit 8 P AND NOT V"

lemma white_pawns_word:
  "length boards = 12 \<Longrightarrow> push_white_pawns boards =
     boards[index WP := white_word (boards ! index WP) (get_occupied boards)]"
  using index_less [of WP] unfolding push_white_pawns_def Let_def
  by (simp only: list_update_overwrite nth_list_update_eq length_list_update)

lemma black_pawns_word:
  "length boards = 12 \<Longrightarrow> push_black_pawns boards =
     boards[index BP := black_word (boards ! index BP) (get_occupied boards)]"
  using index_less [of BP] unfolding push_black_pawns_def Let_def
  by (simp only: list_update_overwrite nth_list_update_eq length_list_update)

lemma white_word_bit:
  assumes "t < 64"
  shows "bit (white_word P V) t \<longleftrightarrow>
     bit P t \<and> (56 \<le> t \<or> bit V (t + 8)) \<or> 8 \<le> t \<and> bit P (t - 8) \<and> \<not> bit V t"
proof -
  have "t + 8 < 64 \<longleftrightarrow> \<not> 56 \<le> t" "8 \<le> t + 8" "t + 8 - 8 = t" by auto
  then show ?thesis using assms unfolding bit_or_iff bit_mask_out bit_push8 bit_drop8 by metis
qed

lemma black_word_bit:
  assumes "t < 64"
  shows "bit (black_word P V) t \<longleftrightarrow>
     bit P t \<and> (t < 8 \<or> bit V (t - 8)) \<or> bit P (t + 8) \<and> \<not> bit V t"
proof -
  have "8 \<le> t \<Longrightarrow> t - 8 + 8 = t" "8 \<le> t \<longleftrightarrow> \<not> t < 8" by auto
  then show ?thesis using assms unfolding bit_or_iff bit_mask_out bit_push8 bit_drop8 by metis
qed

lemma new_square:
  "bit (white_word P V) n \<Longrightarrow> bit P n \<or> \<not> bit V n" "bit (black_word P V) n \<Longrightarrow> bit P n \<or> \<not> bit V n"
  unfolding bit_or_iff bit_mask_out by blast+

lemma push_white_disjoint:
  assumes ok: "one_piece_per_square boards"
  shows "one_piece_per_square (push_white_pawns boards)"
proof -
  have l: "length boards = 12" using ok by (simp add: one_piece_per_square_def)
  show ?thesis unfolding white_pawns_word [OF l]
    by (rule push_disjoint [OF ok index_less]) (rule new_square)
qed

lemma push_black_disjoint:
  assumes ok: "one_piece_per_square boards"
  shows "one_piece_per_square (push_black_pawns boards)"
proof -
  have l: "length boards = 12" using ok by (simp add: one_piece_per_square_def)
  show ?thesis unfolding black_pawns_word [OF l]
    by (rule push_disjoint [OF ok index_less]) (rule new_square)
qed

text \<open>Pushing never loses a pawn.\<close>

lemma white_count:
  fixes P V :: u64
  assumes occ: "\<And>t. bit P t \<Longrightarrow> bit V t"
  shows "card {t. bit (white_word P V) t} = card {t. bit P t}"
proof -
  define mv where "mv t = (if t < 56 \<and> \<not> bit V (t + 8) then t + 8 else t)" for t :: nat
  have "bit (white_word P V) t \<longleftrightarrow> (\<exists>u. bit P u \<and> t = mv u)" (is "?l \<longleftrightarrow> ?r") for t
  proof
    assume ?l
    then have "bit P t \<and> t = mv t \<or> bit P (t - 8) \<and> t = mv (t - 8)"
      using bit_u64_less [of "white_word P V" t] white_word_bit [of t P V] by (auto simp: mv_def)
    then show ?r by blast
  next
    assume ?r
    then obtain u where u: "bit P u" "t = mv u" by blast
    then have "t < 64" using bit_u64_less [of P u] by (simp add: mv_def)
    then show ?l unfolding white_word_bit [OF \<open>t < 64\<close>] using u occ by (auto simp: mv_def split: if_splits)
  qed
  then have 1: "{t. bit (white_word P V) t} = mv ` {t. bit P t}" by blast
  have "inj_on mv {t. bit P t}" using occ by (auto simp: inj_on_def mv_def split: if_splits)
  then show ?thesis unfolding 1 by (rule card_image)
qed

lemma black_count:
  fixes P V :: u64
  assumes occ: "\<And>t. bit P t \<Longrightarrow> bit V t"
  shows "card {t. bit (black_word P V) t} = card {t. bit P t}"
proof -
  define mv where "mv t = (if 8 \<le> t \<and> \<not> bit V (t - 8) then t - 8 else t)" for t :: nat
  have "bit (black_word P V) t \<longleftrightarrow> (\<exists>u. bit P u \<and> t = mv u)" (is "?l \<longleftrightarrow> ?r") for t
  proof
    assume ?l
    then have "bit P t \<and> t = mv t \<or> bit P (t + 8) \<and> t = mv (t + 8)"
      using bit_u64_less [of "black_word P V" t] black_word_bit [of t P V] by (auto simp: mv_def)
    then show ?r by blast
  next
    assume ?r
    then obtain u where u: "bit P u" "t = mv u" by blast
    then have "t < 64" using bit_u64_less [of P u] by (auto simp: mv_def split: if_splits)
    then show ?l unfolding black_word_bit [OF \<open>t < 64\<close>] using u occ by (auto simp: mv_def split: if_splits)
  qed
  then have 1: "{t. bit (black_word P V) t} = mv ` {t. bit P t}" by blast
  have "inj_on mv {t. bit P t}" using occ by (auto simp: inj_on_def mv_def split: if_splits)
  then show ?thesis unfolding 1 by (rule card_image)
qed

text \<open>The printed glyphs.\<close>

lemma glyph_empty:
  "\<not> bit (get_occupied boards) sq \<Longrightarrow> length boards = 12 \<Longrightarrow>
     glyph_at boards overlay sq = (if bit overlay sq then CHR ''*'' else CHR ''.'')"
  by (auto simp: glyph_at_def bit_occupied get_square_bit Let_def find_None_iff [THEN iffD2])

lemma glyph_of_piece:
  assumes ok: "one_piece_per_square boards" and b: "bit (boards ! index x) sq"
  shows "glyph_at boards overlay sq = piece_chars ! index x"
proof -
  have u: "i = index x" if "i < 12" "bit (boards ! i) sq" for i
    using ok that b index_less [of x] unfolding one_piece_per_square_def by blast
  obtain i where i: "List.find (\<lambda>i. get_square (boards ! i) sq) [0..<12] = Some i"
    using b index_less [of x]
    by (cases "List.find (\<lambda>i. get_square (boards ! i) sq) [0..<12]") (auto simp: find_None_iff get_square_bit)
  then have "i = index x" using u by (auto simp: find_Some_iff get_square_bit)
  moreover have "piece_chars ! index x \<noteq> CHR ''.''"
    by (cases x) (simp_all add: index_def piece_chars_def nth_Cons')
  ultimately show ?thesis using i by (simp add: glyph_at_def Let_def)
qed

lemma init_board_disjoint: "one_piece_per_square init_board"
proof -
  have 12: "(\<forall>i<(12::nat). Q i) \<longleftrightarrow> list_all Q [0..<12]" for Q by (auto simp: list_all_iff)
  have zero: "\<forall>i<12. \<forall>j<12. i \<noteq> j \<longrightarrow> init_board ! i AND init_board ! j = (0::u64)"
    unfolding 12 by (simp add: upt_rec init_board_def set_square_def)
  have "\<not> (bit (init_board ! i) n \<and> bit (init_board ! j) n)" if "i < 12" "j < 12" "i \<noteq> j" for i j n
    using zero that by (metis bit_and_iff bit_0_eq bot_apply bot_bool_def)
  then show ?thesis by (simp add: one_piece_per_square_def) (simp add: init_board_def)
qed

subsection \<open>The bit macros\<close>

definition SET_BIT :: "u64 \<Rightarrow> nat \<Rightarrow> u64" where
  "SET_BIT bf n = bf OR push_bit n 1"

text \<open>\<^verbatim>\<open>~\<close> binds tighter than \<^verbatim>\<open><<\<close>: the mask is the complement of 1, shifted.\<close>

definition CLR_BIT :: "u64 \<Rightarrow> nat \<Rightarrow> u64" where
  "CLR_BIT bf n = bf AND push_bit n (NOT 1)"

definition IS_BIT_SET :: "u64 \<Rightarrow> nat \<Rightarrow> bool" where
  "IS_BIT_SET bf n = (drop_bit n bf AND 1 \<noteq> 0)"

text \<open>The line \<^verbatim>\<open>main\<close> prints: the 64 signs and the two characters \<^verbatim>\<open>/n\<close>.\<close>

definition bitfields_main :: string where
  "bitfields_main =
     (let array_of_bits = CLR_BIT (fold (\<lambda>n bf. SET_BIT bf n) [0, 2, 0, 9, 4, 34, 5, 29, 22] 0) 2 in
      map (\<lambda>i. if IS_BIT_SET array_of_bits i then CHR ''+'' else CHR ''.'') [0..<64] @ ''/n'')"

lemma SET_BIT_bit: "bit (SET_BIT bf m) n \<longleftrightarrow> bit bf n \<or> n = m \<and> m < 64"
  by (auto simp: SET_BIT_def bit_simps bit_1_iff dest: bit_imp_le_length)

lemma CLR_BIT_bit: "bit (CLR_BIT bf m) n \<longleftrightarrow> bit bf n \<and> m < n"
proof -
  have "bit (push_bit m (NOT (1::u64))) n \<longleftrightarrow> n < 64 \<and> m < n"
    by (auto simp: bit_simps bit_1_iff)
  then show ?thesis using bit_u64_less [of bf n] by (auto simp: CLR_BIT_def bit_and_iff)
qed

lemma IS_BIT_SET_bit: "IS_BIT_SET bf n = bit bf n"
  unfolding IS_BIT_SET_def bit_iff_odd_drop_bit and_one_eq by (simp add: mod_2_eq_odd)

text \<open>Bits 0 and 2 were set, but clearing bit 2 cleared bit 0 as well.\<close>

lemma bitfields_main_output:
  "bitfields_main = map (\<lambda>i. if i \<in> {4, 5, 9, 22, 29, 34} then CHR ''+'' else CHR ''.'') [0..<64] @ ''/n''"
  unfolding bitfields_main_def Let_def
  by (auto simp: IS_BIT_SET_bit CLR_BIT_bit SET_BIT_bit)

subsection \<open>Properties\<close>

text \<open>C28: A square is in \<open>knight_attacks\<close> exactly when it is a knight's move away from a square of the
  argument: no move wraps around the edge of the board and none is missing.
\<close>

theorem knight_attacks_correct:
  assumes "t < 64"
  shows "bit (knight_attacks knights) t \<longleftrightarrow> (\<exists>s<64. bit knights s \<and> knight_move s t)"
  using assms by (rule knight_attacks_bit)

theorem knight_attacks_correct_witness:
  "\<not> bit (knight_attacks (set_square 0 7)) 16 \<and> bit (knight_attacks (set_square 0 7)) 22"
  by (subst (1 2) knight_attacks_correct)
    (auto simp: bit_set_square knight_move_def apart_def)

text \<open>A pawn push moves exactly the pawns with an empty square in front of them, by one rank, changes
  no other board, loses no pawn and never puts two pieces on one square.
\<close>

theorem pawn_pushes:
  assumes "one_piece_per_square boards" "t < 64"
  defines "occ \<equiv> \<lambda>n. bit (get_occupied boards) n"
    and "wp \<equiv> \<lambda>n. bit (boards ! index WP) n" and "bp \<equiv> \<lambda>n. bit (boards ! index BP) n"
  shows "(bit (push_white_pawns boards ! index WP) t \<longleftrightarrow>
        wp t \<and> (56 \<le> t \<or> occ (t + 8)) \<or> 8 \<le> t \<and> wp (t - 8) \<and> \<not> occ t) \<and>
     (bit (push_black_pawns boards ! index BP) t \<longleftrightarrow>
        bp t \<and> (t < 8 \<or> occ (t - 8)) \<or> bp (t + 8) \<and> \<not> occ t) \<and>
     (\<forall>x. (x = WP \<or> push_white_pawns boards ! index x = boards ! index x) \<and>
        (x = BP \<or> push_black_pawns boards ! index x = boards ! index x)) \<and>
     card {n. bit (push_white_pawns boards ! index WP) n} = card {n. wp n} \<and>
     card {n. bit (push_black_pawns boards ! index BP) n} = card {n. bp n} \<and>
     one_piece_per_square (push_white_pawns boards) \<and> one_piece_per_square (push_black_pawns boards)"
proof -
  have l: "length boards = 12" using assms(1) by (simp add: one_piece_per_square_def)
  have w: "push_white_pawns boards ! index WP = white_word (boards ! index WP) (get_occupied boards)"
    unfolding white_pawns_word [OF l] by (rule nth_list_update_eq) (simp only: l index_less)
  have b: "push_black_pawns boards ! index BP = black_word (boards ! index BP) (get_occupied boards)"
    unfolding black_pawns_word [OF l] by (rule nth_list_update_eq) (simp only: l index_less)
  have occ: "bit (boards ! index x) n \<Longrightarrow> bit (get_occupied boards) n" for x n
    unfolding bit_occupied using index_less [of x] l nth_mem by metis
  have inj: "index x = index y \<longleftrightarrow> x = y" for x y by (cases x; cases y) (simp_all add: index_def)
  have other: "(x = WP \<or> push_white_pawns boards ! index x = boards ! index x) \<and>
      (x = BP \<or> push_black_pawns boards ! index x = boards ! index x)" for x
    unfolding white_pawns_word [OF l] black_pawns_word [OF l]
    by (metis inj nth_list_update_neq)
  show ?thesis
    unfolding w b assms(3-5)
    by (intro conjI allI white_word_bit [OF assms(2)] black_word_bit [OF assms(2)] other [THEN conjunct1]
      other [THEN conjunct2] white_count black_count occ push_white_disjoint push_black_disjoint assms(1))
qed

theorem pawn_pushes_witness: "one_piece_per_square (push_white_pawns init_board) \<and> \<not> bit (push_white_pawns init_board ! index WP) 8"
proof -
  note p = pawn_pushes [OF init_board_disjoint, of 8]
  have "\<not> bit (get_occupied init_board) 16" "\<not> bit (init_board ! index WP) 0"
    by (simp_all add: get_occupied_def init_board_def set_square_def index_def)
  then show ?thesis using p by simp
qed

end
