(* ===== verification/Bitmap_Image.thy ===== *)
theory Bitmap_Image
  imports Prelude "HOL-Library.Signed_Division"
begin

unbundle bit_operations_syntax

text \<open>
  The bitmap inverter of \<^verbatim>\<open>Phase-1/Day14/C/byteMath.c\<close>: reading the header and the pixel rows of a
  BMP file, inverting the pixels, writing the file back. A file is the list of its bytes, the file
  system a map from paths to files. Integer overflow and every access outside a buffer is \<open>None\<close>.
\<close>

subsection \<open>The packed header\<close>

record BMPHeader =
  bfType :: u16
  bfSize :: u32
  bfReserved1 :: u16
  bfReserved2 :: u16
  bfOffbits :: u32
  biSize :: u32
  biWidth :: i32
  biHeight :: i32
  biPlanes :: u16
  biBitCount :: u16
  biCompression :: u32
  biSizeImage :: u32
  biXPelsPerMeter :: i32
  biYPelsPerMeter :: i32
  biClrUsed :: u32
  biClrImportant :: u32

definition HEADER_SIZE :: nat where "HEADER_SIZE = 54"

definition bytes16 :: "u16 \<Rightarrow> u8 list" where
  "bytes16 w = [ucast w, ucast (drop_bit 8 w)]"

definition bytes32 :: "u32 \<Rightarrow> u8 list" where
  "bytes32 w = [ucast w, ucast (drop_bit 8 w), ucast (drop_bit 16 w), ucast (drop_bit 24 w)]"

definition word16 :: "u8 list \<Rightarrow> nat \<Rightarrow> u16" where
  "word16 bs k = push_bit 8 (ucast (bs ! (k + 1))) OR ucast (bs ! k)"

definition word32 :: "u8 list \<Rightarrow> nat \<Rightarrow> u32" where
  "word32 bs k = push_bit 24 (ucast (bs ! (k + 3))) OR push_bit 16 (ucast (bs ! (k + 2))) OR
     push_bit 8 (ucast (bs ! (k + 1))) OR ucast (bs ! k)"

text \<open>The bytes of the struct in memory, without padding, on a little-endian host.\<close>

definition header_bytes :: "BMPHeader \<Rightarrow> u8 list" where
  "header_bytes h =
     bytes16 (bfType h) @ bytes32 (bfSize h) @ bytes16 (bfReserved1 h) @ bytes16 (bfReserved2 h) @
     bytes32 (bfOffbits h) @ bytes32 (biSize h) @ bytes32 (biWidth h) @ bytes32 (biHeight h) @
     bytes16 (biPlanes h) @ bytes16 (biBitCount h) @ bytes32 (biCompression h) @ bytes32 (biSizeImage h) @
     bytes32 (biXPelsPerMeter h) @ bytes32 (biYPelsPerMeter h) @ bytes32 (biClrUsed h) @
     bytes32 (biClrImportant h)"

definition header_of :: "u8 list \<Rightarrow> BMPHeader" where
  "header_of bs =
     \<lparr> bfType = word16 bs 0, bfSize = word32 bs 2, bfReserved1 = word16 bs 6, bfReserved2 = word16 bs 8,
       bfOffbits = word32 bs 10, biSize = word32 bs 14, biWidth = word32 bs 18, biHeight = word32 bs 22,
       biPlanes = word16 bs 26, biBitCount = word16 bs 28, biCompression = word32 bs 30,
       biSizeImage = word32 bs 34, biXPelsPerMeter = word32 bs 38, biYPelsPerMeter = word32 bs 42,
       biClrUsed = word32 bs 46, biClrImportant = word32 bs 50 \<rparr>"

subsection \<open>Integers, buffers and files\<close>

definition c_int :: "int \<Rightarrow> int option" where
  "c_int n = (if - (2 ^ 31) \<le> n \<and> n < 2 ^ 31 then Some n else None)"

definition size_of :: "int \<Rightarrow> nat" where
  "size_of n = nat (n mod 2 ^ 64)"

text \<open>\<^verbatim>\<open>biWidth * abs(biHeight) * 3\<close>, in \<^verbatim>\<open>int\<close>.\<close>

definition image_bytes :: "BMPHeader \<Rightarrow> int option" where
  "image_bytes h = do {
     height \<leftarrow> c_int \<bar>sint (biHeight h)\<bar>;
     n \<leftarrow> c_int (sint (biWidth h) * height);
     c_int (n * 3)
   }"

definition row_padding :: "BMPHeader \<Rightarrow> int option" where
  "row_padding h = do {
     n \<leftarrow> c_int (sint (biWidth h) * 3);
     Some ((4 - n smod 4) smod 4)
   }"

definition row_count :: "BMPHeader \<Rightarrow> nat" where
  "row_count h = nat \<bar>sint (biHeight h)\<bar>"

record stream =
  contents :: "u8 list"
  position :: nat

definition fread_bytes :: "nat \<Rightarrow> stream \<Rightarrow> u8 list \<times> stream" where
  "fread_bytes n f = (let got = take n (drop (position f) (contents f)) in
     (got, f\<lparr>position := position f + length got\<rparr>))"

text \<open>Copying bytes into a buffer at an offset, and out of one. A null buffer takes no bytes.\<close>

definition poke :: "nat \<Rightarrow> u8 list \<Rightarrow> u8 list option \<Rightarrow> u8 list option option" where
  "poke k bs buf =
     (if bs = [] then Some buf
      else case buf of None \<Rightarrow> None
        | Some px \<Rightarrow> if k + length bs \<le> length px then Some (Some (take k px @ bs @ drop (k + length bs) px))
                   else None)"

definition peek :: "nat \<Rightarrow> nat \<Rightarrow> u8 list option \<Rightarrow> u8 list option" where
  "peek k n buf =
     (if n = 0 then Some []
      else case buf of None \<Rightarrow> None
        | Some px \<Rightarrow> if k + n \<le> length px then Some (take n (drop k px)) else None)"

subsection \<open>Reading\<close>

text \<open>\<open>read_rows k i\<close> reads the rows \<open>i, \<dots>, i + k - 1\<close> of \<open>w\<close> pixels.\<close>

fun read_rows :: "nat \<Rightarrow> nat \<Rightarrow> nat \<Rightarrow> nat \<Rightarrow> stream \<Rightarrow> u8 list option \<Rightarrow> u8 list option option" where
  "read_rows 0 i w padding f pixels = Some pixels"
| "read_rows (Suc k) i w padding f pixels =
     (let (got, f) = fread_bytes (3 * w) f in
      do {
        pixels \<leftarrow> poke (i * w * 3 mod 2 ^ 64) got pixels;
        read_rows k (i + 1) w padding (f\<lparr>position := position f + padding\<rparr>) pixels
      })"

type_synonym files = "string \<Rightarrow> u8 list option"

datatype bmp_line = OpenError | CreateError | IsBMP | NotBMP | WidthLine u32 | HeightLine u32
  | BitsLine u16 | PaddingLine int

text \<open>
  The header is a variable of the caller: a short file overwrites only its first bytes. \<open>alloc n\<close> is
  what \<^verbatim>\<open>malloc(n)\<close> returns: a buffer of unspecified contents, or NULL. The test \<^verbatim>\<open>if(!pixels)\<close> looks
  at the address of the caller's variable and never holds.
\<close>

definition openBMP :: "(nat \<Rightarrow> u8 list option) \<Rightarrow> files \<Rightarrow> string \<Rightarrow> BMPHeader \<times> u8 list option \<Rightarrow>
    (bmp_line list \<times> BMPHeader \<times> u8 list option) option" where
  "openBMP alloc fs filePath vars =
     (case fs filePath of
        None \<Rightarrow> Some ([OpenError], vars)
      | Some bytes \<Rightarrow>
          (let (got, f) = fread_bytes HEADER_SIZE \<lparr>contents = bytes, position = 0\<rparr>;
               header = header_of (got @ drop (length got) (header_bytes (fst vars))) in
           do {
             n \<leftarrow> image_bytes header;
             let pixels = alloc (size_of n);
             padding \<leftarrow> row_padding header;
             pixels \<leftarrow> read_rows (row_count header) 0 (size_of (sint (biWidth header))) (nat padding)
               (f\<lparr>position := unat (bfOffbits header)\<rparr>) pixels;
             Some ([], header, pixels)
           }))"

definition verifyBMP :: "BMPHeader \<Rightarrow> bool" where
  "verifyBMP header = (bfType header = 0x4D42)"

definition isBMP :: "bool \<Rightarrow> bmp_line" where
  "isBMP a = (if a then IsBMP else NotBMP)"

subsection \<open>Inverting and writing\<close>

definition invertBMP :: "BMPHeader \<Rightarrow> u8 list option \<Rightarrow> u8 list option option" where
  "invertBMP header pixels = do {
     totalBytes \<leftarrow> image_bytes header;
     bs \<leftarrow> peek 0 (size_of totalBytes) pixels;
     poke 0 (map (\<lambda>b. 255 - b) bs) pixels
   }"

fun write_rows :: "nat \<Rightarrow> nat \<Rightarrow> nat \<Rightarrow> nat \<Rightarrow> u8 list \<Rightarrow> u8 list option \<Rightarrow> u8 list option" where
  "write_rows 0 i w padding out pixels = Some out"
| "write_rows (Suc k) i w padding out pixels = do {
     row \<leftarrow> peek (i * w * 3 mod 2 ^ 64) (3 * w) pixels;
     write_rows k (i + 1) w padding
       (out @ row @ (if padding > 0 then replicate padding 0 else [])) pixels
   }"

text \<open>\<open>can_create\<close> says whether the file can be opened for writing.\<close>

definition writeBMP :: "bool \<Rightarrow> files \<Rightarrow> string \<Rightarrow> BMPHeader \<Rightarrow> u8 list option \<Rightarrow> (bmp_line list \<times> files) option" where
  "writeBMP can_create fs filePath header pixels =
     (if \<not> can_create then Some ([CreateError], fs)
      else do {
        padding \<leftarrow> row_padding header;
        out \<leftarrow> write_rows (row_count header) 0 (size_of (sint (biWidth header))) (nat padding)
          (header_bytes header) pixels;
        Some ([], fs(filePath \<mapsto> out))
      })"

text \<open>\<open>main\<close>: the lines it prints and the file system it leaves. A failed assertion is \<open>None\<close>.\<close>

definition bmp_main :: "(nat \<Rightarrow> u8 list option) \<Rightarrow> bool \<Rightarrow> BMPHeader \<Rightarrow> files \<Rightarrow> (bmp_line list \<times> files) option" where
  "bmp_main alloc can_create junk fs = do {
     (errs, header, pixels) \<leftarrow> openBMP alloc fs ''cute_cat.bmp'' (junk, None);
     let lines = errs @ [isBMP (verifyBMP header), WidthLine (biWidth header), HeightLine (biHeight header),
                    BitsLine (biBitCount header)];
     _ \<leftarrow> (if biBitCount header = 24 then Some () else None);
     padding \<leftarrow> row_padding header;
     pixels \<leftarrow> invertBMP header pixels;
     (errs, fs) \<leftarrow> writeBMP can_create fs ''inverted_cute_cat.bmp'' header pixels;
     Some (lines @ [PaddingLine padding] @ errs, fs)
   }"

subsection \<open>The header in memory\<close>

lemma word16_bytes16: "bs ! k = ucast w \<Longrightarrow> bs ! (k + 1) = ucast (drop_bit 8 w) \<Longrightarrow> word16 bs k = w"
  unfolding word16_def by (simp only:) (rule bit_word_eqI, auto simp: bit_or_iff bit_slice bit_slice0)

lemma word32_bytes32:
  "bs ! k = ucast w \<Longrightarrow> bs ! (k + 1) = ucast (drop_bit 8 w) \<Longrightarrow> bs ! (k + 2) = ucast (drop_bit 16 w) \<Longrightarrow>
     bs ! (k + 3) = ucast (drop_bit 24 w) \<Longrightarrow> word32 bs k = w"
  unfolding word32_def by (simp only:) (rule bit_word_eqI, auto simp: bit_or_iff bit_slice bit_slice0)

lemma length_header [simp]: "length (header_bytes h) = 54"
  by (simp add: header_bytes_def bytes16_def bytes32_def)

lemma header_of_bytes_append: "header_of (header_bytes h @ rest) = h"
proof (cases h)
  case (fields a b c d e f g i j k l m n p q r)
  show ?thesis
    unfolding header_of_def fields header_bytes_def bytes16_def bytes32_def
    by (intro BMPHeader.equality; simp only: BMPHeader.simps; (rule word16_bytes16 word32_bytes32; simp)?)
qed

subsection \<open>Rows\<close>

definition sub_bytes :: "'a list \<Rightarrow> nat \<Rightarrow> nat \<Rightarrow> 'a list" where
  "sub_bytes xs p n = take n (drop p xs)"

lemma length_sub_bytes: "p + n \<le> length xs \<Longrightarrow> length (sub_bytes xs p n) = n"
  by (simp add: sub_bytes_def)

lemma sub_bytes_append: "sub_bytes (xs @ ys) (length xs + p) n = sub_bytes ys p n"
  by (simp add: sub_bytes_def)

lemma sub_bytes_concat:
  assumes "\<And>j. j < k \<Longrightarrow> length (f j) = l" "j < k" "n \<le> l"
  shows "sub_bytes (concat (map f [0..<k])) (j * l) n = take n (f j)"
  using assms
proof (induction k arbitrary: f j)
  case (Suc k)
  have up: "map f [0..<Suc k] = f 0 # map (\<lambda>i. f (Suc i)) [0..<k]"
    by (simp add: upt_conv_Cons map_Suc_upt [symmetric] del: upt_Suc)
  show ?case
  proof (cases j)
    case 0
    then show ?thesis unfolding up using Suc.prems by (simp add: sub_bytes_def)
  next
    case (Suc i)
    then have "sub_bytes (concat (map (\<lambda>i. f (Suc i)) [0..<k])) (i * l) n = take n (f (Suc i))"
      using Suc.prems by (intro Suc.IH) simp_all
    then show ?thesis unfolding up using Suc Suc.prems(1) [of 0] by (simp add: sub_bytes_def)
  qed
qed simp

lemma concat_sub_bytes:
  "length xs = k * l \<Longrightarrow> concat (map (\<lambda>j. sub_bytes xs (j * l) l) [0..<k]) = xs"
proof (induction k arbitrary: xs)
  case (Suc k)
  have up: "map g [0..<Suc k] = g 0 # map (\<lambda>i. g (Suc i)) [0..<k]" for g :: "nat \<Rightarrow> 'a list"
    by (simp add: upt_conv_Cons map_Suc_upt [symmetric] del: upt_Suc)
  have "concat (map (\<lambda>j. sub_bytes (drop l xs) (j * l) l) [0..<k]) = drop l xs"
    using Suc by simp
  then show ?case unfolding up by (simp add: sub_bytes_def add.commute)
qed simp

lemma length_concat_rows:
  "(\<And>j. j < k \<Longrightarrow> length (f j) = l) \<Longrightarrow> length (concat (map f [0..<k])) = k * l"
proof (induction k)
  case (Suc k)
  then show ?case by (simp add: less_Suc_eq)
qed simp

lemma read_rows_eq:
  assumes "(i + k) * w * 3 \<le> length px" "length px < 2 ^ 64"
    "position f + k * (3 * w + padding) \<le> length (contents f) + padding \<or> k = 0"
  shows "read_rows k i w padding f (Some px) = Some (Some (take (i * w * 3) px @
     concat (map (\<lambda>j. sub_bytes (contents f) (position f + j * (3 * w + padding)) (3 * w)) [0..<k]) @
     drop ((i + k) * w * 3) px))"
  using assms
proof (induction k arbitrary: i f px)
  case (Suc k)
  define got where "got = sub_bytes (contents f) (position f) (3 * w)"
  have lf: "position f + (3 * w + (k * (3 * w + padding))) \<le> length (contents f)"
    using Suc.prems(3) by (simp add: algebra_simps)
  then have lg: "length got = 3 * w" unfolding got_def by (intro length_sub_bytes) linarith
  have lpx: "i * w * 3 + 3 * w + k * w * 3 \<le> length px" using Suc.prems(1) by (simp add: algebra_simps)
  then have m: "i * w * 3 mod 2 ^ 64 = i * w * 3" using Suc.prems(2) by (intro mod_less) linarith
  have fr: "fread_bytes (3 * w) f = (got, f\<lparr>position := position f + length got\<rparr>)"
    by (simp only: fread_bytes_def Let_def got_def sub_bytes_def)
  have poke: "poke (i * w * 3) got (Some px) = Some (Some (take (i * w * 3) px @ got @ drop (i * w * 3 + 3 * w) px))"
    using lg lpx by (auto simp: poke_def)
  define px' where "px' = take (i * w * 3) px @ got @ drop (i * w * 3 + 3 * w) px"
  define f' where "f' = f\<lparr>position := position f + length got + padding\<rparr>"
  have lpx': "length px' = length px" using lg lpx by (simp add: px'_def)
  have IH: "read_rows k (i + 1) w padding f' (Some px') = Some (Some (take ((i + 1) * w * 3) px' @
     concat (map (\<lambda>j. sub_bytes (contents f') (position f' + j * (3 * w + padding)) (3 * w)) [0..<k]) @
     drop ((i + 1 + k) * w * 3) px'))"
    using Suc.prems lpx' lf lg by (intro Suc.IH) (simp_all add: f'_def algebra_simps)
  have t: "take ((i + 1) * w * 3) px' = take (i * w * 3) px @ got"
    using lg lpx by (simp add: px'_def algebra_simps)
  have d: "drop ((i + 1 + k) * w * 3) px' = drop ((i + Suc k) * w * 3) px"
    using lg lpx by (simp add: px'_def algebra_simps)
  have up: "map g [0..<Suc k] = g 0 # map (\<lambda>i. g (Suc i)) [0..<k]" for g :: "nat \<Rightarrow> u8 list"
    by (simp add: upt_conv_Cons map_Suc_upt [symmetric] del: upt_Suc)
  have step: "read_rows (Suc k) i w padding f (Some px) = read_rows k (i + 1) w padding f' (Some px')"
    unfolding read_rows.simps fr Let_def prod.case m poke f'_def px'_def by simp
  have c: "sub_bytes (contents f') (position f' + j * (3 * w + padding)) (3 * w) =
      sub_bytes (contents f) (position f + Suc j * (3 * w + padding)) (3 * w)" for j
    using lg by (simp add: f'_def algebra_simps)
  show ?case unfolding step IH t d up c by (simp add: got_def)
qed simp

lemma write_rows_eq:
  assumes "(i + k) * w * 3 \<le> length px" "length px < 2 ^ 64"
  shows "write_rows k i w padding out (Some px) = Some (out @
     concat (map (\<lambda>j. sub_bytes px ((i + j) * (3 * w)) (3 * w) @ replicate padding 0) [0..<k]))"
  using assms
proof (induction k arbitrary: i out)
  case (Suc k)
  have lpx: "i * w * 3 + 3 * w + k * w * 3 \<le> length px" using Suc.prems(1) by (simp add: algebra_simps)
  then have m: "i * w * 3 mod 2 ^ 64 = i * w * 3" using Suc.prems(2) by (intro mod_less) linarith
  have peek: "peek (i * w * 3) (3 * w) (Some px) = Some (sub_bytes px (i * (3 * w)) (3 * w))"
    using lpx by (auto simp: peek_def sub_bytes_def algebra_simps)
  have up: "map g [0..<Suc k] = g 0 # map (\<lambda>i. g (Suc i)) [0..<k]" for g :: "nat \<Rightarrow> u8 list"
    by (simp add: upt_conv_Cons map_Suc_upt [symmetric] del: upt_Suc)
  have r: "(if padding > 0 then replicate padding 0 else []) = replicate padding (0::u8)" by simp
  have IH: "write_rows k (i + 1) w padding out' (Some px) = Some (out' @
     concat (map (\<lambda>j. sub_bytes px ((i + 1 + j) * (3 * w)) (3 * w) @ replicate padding 0) [0..<k]))" for out'
    using Suc.prems by (intro Suc.IH) (simp_all add: algebra_simps)
  show ?case unfolding write_rows.simps m peek r IH Option.bind.simps up by simp
qed simp

subsection \<open>Images\<close>

text \<open>A header whose sizes are computed without overflow, and the sizes.\<close>

definition image_ok :: "BMPHeader \<Rightarrow> bool" where
  "image_ok h \<longleftrightarrow> 0 \<le> sint (biWidth h) \<and> sint (biWidth h) * 3 < 2 ^ 31 \<and>
     sint (biWidth h) * \<bar>sint (biHeight h)\<bar> * 3 < 2 ^ 31 \<and> \<bar>sint (biHeight h)\<bar> < 2 ^ 31"

definition width :: "BMPHeader \<Rightarrow> nat" where "width h = nat (sint (biWidth h))"

definition padding :: "BMPHeader \<Rightarrow> nat" where "padding h = (4 - 3 * width h mod 4) mod 4"

definition stride :: "BMPHeader \<Rightarrow> nat" where "stride h = 3 * width h + padding h"

definition pixel_count :: "BMPHeader \<Rightarrow> nat" where "pixel_count h = row_count h * (3 * width h)"

lemma stride_aligned: "stride h mod 4 = 0 \<and> padding h < 4"
proof -
  have "(x + (4 - x mod 4) mod 4) mod 4 = 0 \<and> (4 - x mod 4) mod 4 < 4" for x :: nat
  proof -
    have "x mod 4 = 0 \<or> x mod 4 = 1 \<or> x mod 4 = 2 \<or> x mod 4 = 3" using mod_less_divisor [of 4 x] by linarith
    moreover have "(x + (4 - x mod 4) mod 4) mod 4 = (x mod 4 + (4 - x mod 4) mod 4) mod 4"
      by (simp only: mod_add_left_eq)
    ultimately show ?thesis by auto
  qed
  then show ?thesis unfolding stride_def padding_def by blast
qed

lemma c_int_eq: "0 \<le> n \<Longrightarrow> n < 2 ^ 31 \<Longrightarrow> c_int n = Some n"
  by (simp add: c_int_def)

lemma smod_eq: "0 \<le> (n::int) \<Longrightarrow> n smod 4 = n mod 4"
  by (cases "n = 0") (auto simp: signed_modulo_int_def sgn_if)

lemma image_ok_sizes:
  assumes "image_ok h"
  shows "image_bytes h = Some (int (pixel_count h))" "row_padding h = Some (int (padding h))"
    "size_of (sint (biWidth h)) = width h" "size_of (int (pixel_count h)) = pixel_count h"
    "pixel_count h < 2 ^ 31"
proof -
  let ?w = "sint (biWidth h)" and ?r = "\<bar>sint (biHeight h)\<bar>"
  have w: "0 \<le> ?w" "?w * 3 < 2 ^ 31" "?w * ?r * 3 < 2 ^ 31" "?r < 2 ^ 31"
    using assms by (simp_all add: image_ok_def)
  have iw: "int (width h) = ?w" using w(1) by (simp add: width_def)
  have pc: "int (pixel_count h) = ?w * ?r * 3"
    by (simp add: pixel_count_def row_count_def iw)
  have nn: "0 \<le> ?w * ?r" using w(1) by simp
  show "image_bytes h = Some (int (pixel_count h))"
  proof -
    have "?w * ?r < 2 ^ 31" using w(3) nn by linarith
    moreover have "0 \<le> ?w * ?r * 3" using nn by linarith
    ultimately show ?thesis using w nn unfolding pc image_bytes_def
      by (simp only: c_int_eq abs_ge_zero Option.bind.simps)
  qed
  have "int (pixel_count h) < 2 ^ 31" unfolding pc by (rule w(3))
  then show "pixel_count h < 2 ^ 31" by simp
  then show "size_of (int (pixel_count h)) = pixel_count h" by (simp add: size_of_def)
  show "size_of ?w = width h" using w(1,2) unfolding size_of_def width_def by simp
  have "(4 - (?w * 3) smod 4) smod 4 = int (padding h)"
  proof -
    have m: "(?w * 3) smod 4 = (?w * 3) mod 4" by (rule smod_eq) (use w(1) in simp)
    have "0 \<le> 4 - (?w * 3) mod 4" using pos_mod_bound [of 4 "?w * 3"] by simp
    then have "(4 - (?w * 3) smod 4) smod 4 = (4 - (?w * 3) mod 4) mod 4"
      unfolding m by (rule smod_eq)
    also have "\<dots> = int (padding h)"
      unfolding padding_def iw [symmetric] by (simp add: zmod_int of_nat_diff mult.commute)
    finally show ?thesis .
  qed
  then show "row_padding h = Some (int (padding h))"
    using w(1,2) by (simp add: row_padding_def c_int_def)
qed

text \<open>The pixels of a file: the rows without their padding.\<close>

definition file_pixels :: "BMPHeader \<Rightarrow> u8 list \<Rightarrow> u8 list" where
  "file_pixels h bytes =
     concat (map (\<lambda>j. sub_bytes bytes (unat (bfOffbits h) + j * stride h) (3 * width h)) [0..<row_count h])"

text \<open>The bytes of a file with these pixels.\<close>

definition image_file :: "BMPHeader \<Rightarrow> u8 list \<Rightarrow> u8 list" where
  "image_file h pixels = header_bytes h @
     concat (map (\<lambda>j. sub_bytes pixels (j * (3 * width h)) (3 * width h) @ replicate (padding h) 0) [0..<row_count h])"

lemma openBMP_eq:
  assumes found: "fs path = Some bytes" and h: "h = header_of (sub_bytes bytes 0 54)"
    and len: "54 \<le> length bytes" "unat (bfOffbits h) + row_count h * stride h \<le> length bytes"
    and ok: "image_ok h" and mem: "alloc (pixel_count h) = Some buf" "length buf = pixel_count h"
  shows "openBMP alloc fs path vars = Some ([], h, Some (file_pixels h bytes))"
proof -
  have fr: "fread_bytes HEADER_SIZE \<lparr>contents = bytes, position = 0\<rparr> =
      (sub_bytes bytes 0 54, \<lparr>contents = bytes, position = 54\<rparr>)"
    using len(1) by (simp add: fread_bytes_def HEADER_SIZE_def sub_bytes_def Let_def)
  have hd: "sub_bytes bytes 0 54 @ drop (length (sub_bytes bytes 0 54)) (header_bytes (fst vars)) = sub_bytes bytes 0 54"
    using len(1) by (simp add: sub_bytes_def)
  note sz = image_ok_sizes [OF ok]
  have rows: "read_rows (row_count h) 0 (width h) (padding h) \<lparr>contents = bytes, position = unat (bfOffbits h)\<rparr> (Some buf) =
      Some (Some (file_pixels h bytes))"
    using read_rows_eq [of 0 "row_count h" "width h" buf "\<lparr>contents = bytes, position = unat (bfOffbits h)\<rparr>" "padding h"]
      mem(2) sz(5) len(2) by (simp add: pixel_count_def file_pixels_def stride_def algebra_simps)
  show ?thesis
    unfolding openBMP_def found option.case fr Let_def prod.case hd h [symmetric] sz Option.bind.simps mem(1)
    using rows by simp
qed

lemma writeBMP_eq:
  assumes ok: "image_ok h" and "length pixels = pixel_count h"
  shows "writeBMP True fs path h (Some pixels) = Some ([], fs(path \<mapsto> image_file h pixels))"
proof -
  note sz = image_ok_sizes [OF ok]
  have "write_rows (row_count h) 0 (width h) (padding h) (header_bytes h) (Some pixels) = Some (image_file h pixels)"
    using write_rows_eq [of 0 "row_count h" "width h" pixels "padding h" "header_bytes h"] assms(2) sz(5)
    by (simp add: pixel_count_def image_file_def algebra_simps)
  then show ?thesis by (simp add: writeBMP_def sz)
qed

lemma invertBMP_eq:
  assumes ok: "image_ok h" and "length pixels = pixel_count h"
  shows "invertBMP h (Some pixels) = Some (Some (map (\<lambda>b. 255 - b) pixels))"
  unfolding invertBMP_def image_ok_sizes [OF ok] Option.bind.simps
  using assms(2) by (auto simp: peek_def poke_def)

lemma length_file_pixels:
  assumes "unat (bfOffbits h) + row_count h * stride h \<le> length bytes"
  shows "length (file_pixels h bytes) = pixel_count h"
  unfolding file_pixels_def pixel_count_def
proof (rule length_concat_rows)
  fix j
  assume "j < row_count h"
  then have "j * stride h + stride h \<le> row_count h * stride h"
    using mult_le_mono1 [of "Suc j" "row_count h" "stride h"] by simp
  then have "unat (bfOffbits h) + j * stride h + 3 * width h \<le> length bytes"
    using assms by (simp add: stride_def)
  then show "length (sub_bytes bytes (unat (bfOffbits h) + j * stride h) (3 * width h)) = 3 * width h"
    by (rule length_sub_bytes)
qed

lemma length_pixel_row:
  assumes "length pixels = pixel_count h" "j < row_count h"
  shows "length (sub_bytes pixels (j * (3 * width h)) (3 * width h)) = 3 * width h"
proof -
  have "j * (3 * width h) + 3 * width h \<le> row_count h * (3 * width h)"
    using assms(2) mult_le_mono1 [of "Suc j" "row_count h" "3 * width h"] by simp
  then show ?thesis using assms(1) by (intro length_sub_bytes) (simp add: pixel_count_def)
qed

lemma image_file_pixels:
  assumes "length pixels = pixel_count h" "bfOffbits h = 54"
  shows "file_pixels h (image_file h pixels) = pixels"
    and "length (image_file h pixels) = 54 + row_count h * stride h"
    and "header_of (sub_bytes (image_file h pixels) 0 54) = h"
proof -
  let ?row = "\<lambda>j. sub_bytes pixels (j * (3 * width h)) (3 * width h)"
  let ?f = "\<lambda>j. ?row j @ replicate (padding h) 0"
  let ?r = "concat (map ?f [0..<row_count h])"
  have l: "length (?f j) = stride h" if "j < row_count h" for j
    using length_pixel_row [OF assms(1) that] by (simp add: stride_def)
  have "sub_bytes (header_bytes h @ ?r) (54 + j * stride h) (3 * width h) = ?row j" if j: "j < row_count h" for j
  proof -
    have "sub_bytes (header_bytes h @ ?r) (54 + j * stride h) (3 * width h) = sub_bytes ?r (j * stride h) (3 * width h)"
      using sub_bytes_append [of "header_bytes h"] by simp
    also have "\<dots> = take (3 * width h) (?f j)"
      by (rule sub_bytes_concat [OF l j]) (simp_all add: stride_def)
    also have "\<dots> = ?row j" using length_pixel_row [OF assms(1) j] by simp
    finally show ?thesis .
  qed
  then have "file_pixels h (image_file h pixels) = concat (map ?row [0..<row_count h])"
    unfolding file_pixels_def image_file_def assms(2) by (intro arg_cong [where f = concat] map_cong) simp_all
  also have "\<dots> = pixels" by (rule concat_sub_bytes) (simp add: assms(1) pixel_count_def)
  finally show "file_pixels h (image_file h pixels) = pixels" .
  show "length (image_file h pixels) = 54 + row_count h * stride h"
    using length_concat_rows [of "row_count h" ?f "stride h"] l by (simp add: image_file_def)
  have "sub_bytes (image_file h pixels) 0 54 = header_bytes h" by (simp add: sub_bytes_def image_file_def)
  then show "header_of (sub_bytes (image_file h pixels) 0 54) = h"
    using header_of_bytes_append [of h "[]"] by simp
qed

subsection \<open>Properties\<close>

text \<open>Writing an image with its pixel data directly after the header and opening the file again gives
  back the header and the pixels, whatever the row padding is; inverting the pixels twice restores them.\<close>

theorem bmp_round_trip:
  assumes "image_ok h" "bfOffbits h = 54" "length pixels = pixel_count h"
    and "alloc (pixel_count h) = Some buf" "length buf = pixel_count h"
  shows "(\<exists>fs'. writeBMP True fs path h (Some pixels) = Some ([], fs') \<and>
       openBMP alloc fs' path vars = Some ([], h, Some pixels)) \<and>
     Option.bind (invertBMP h (Some pixels)) (invertBMP h) = Some (Some pixels)"
proof -
  note f = image_file_pixels [OF assms(3,2)]
  let ?fs = "fs(path \<mapsto> image_file h pixels)"
  have "openBMP alloc ?fs path vars = Some ([], h, Some (file_pixels h (image_file h pixels)))"
    by (rule openBMP_eq [where buf = buf]) (use assms f in simp_all)
  moreover have "255 - (255 - b) = (b::u8)" for b by simp
  ultimately show ?thesis using f(1) writeBMP_eq [OF assms(1,3)]
    by (simp add: invertBMP_eq assms(1,3) comp_def)
qed

text \<open>On a complete 24-bit file the program prints the header fields and writes a file that holds the
  same header and, directly after it, the rows of the picture with every byte subtracted from 255, each
  padded with zeros to a multiple of four bytes. The input file is not touched.\<close>

theorem bmp_main_inverts:
  assumes "fs ''cute_cat.bmp'' = Some bytes" "h = header_of (sub_bytes bytes 0 54)"
    and "54 \<le> length bytes" "unat (bfOffbits h) + row_count h * stride h \<le> length bytes"
    and "image_ok h" "biBitCount h = 24" "alloc (pixel_count h) = Some buf" "length buf = pixel_count h"
  shows "bmp_main alloc True junk fs = Some
     ([isBMP (bfType h = 0x4D42), WidthLine (biWidth h), HeightLine (biHeight h), BitsLine 24,
       PaddingLine (int (padding h))],
      fs(''inverted_cute_cat.bmp'' \<mapsto> header_bytes h @ concat (map (\<lambda>j.
        map (\<lambda>b. 255 - b) (sub_bytes bytes (unat (bfOffbits h) + j * stride h) (3 * width h)) @
        replicate (padding h) 0) [0..<row_count h])))"
proof -
  have open_eq: "openBMP alloc fs ''cute_cat.bmp'' (junk, None) = Some ([], h, Some (file_pixels h bytes))"
    by (rule openBMP_eq) (use assms in simp_all)
  have lp: "length (file_pixels h bytes) = pixel_count h" using assms(4) by (rule length_file_pixels)
  define px where "px = map (\<lambda>b. 255 - b) (file_pixels h bytes)"
  let ?row = "\<lambda>j. sub_bytes bytes (unat (bfOffbits h) + j * stride h) (3 * width h)"
  have l: "length (?row j) = 3 * width h" if j: "j < row_count h" for j
  proof (rule length_sub_bytes)
    have "j * stride h + stride h \<le> row_count h * stride h"
      using j mult_le_mono1 [of "Suc j" "row_count h" "stride h"] by simp
    then show "unat (bfOffbits h) + j * stride h + 3 * width h \<le> length bytes"
      using assms(4) by (simp add: stride_def)
  qed
  have row: "sub_bytes px (j * (3 * width h)) (3 * width h) = map (\<lambda>b. 255 - b) (?row j)" if j: "j < row_count h" for j
  proof -
    have "sub_bytes (file_pixels h bytes) (j * (3 * width h)) (3 * width h) = take (3 * width h) (?row j)"
      unfolding file_pixels_def using l j by (intro sub_bytes_concat) simp_all
    then show ?thesis using l [OF j] by (simp add: px_def sub_bytes_def take_map drop_map)
  qed
  have "image_file h px = header_bytes h @ concat (map (\<lambda>j. map (\<lambda>b. 255 - b) (?row j) @
      replicate (padding h) 0) [0..<row_count h])"
    unfolding image_file_def using row by (intro arg_cong2 [where f = append] arg_cong [where f = concat] map_cong) simp_all
  moreover have "length px = pixel_count h" using lp by (simp add: px_def)
  ultimately show ?thesis
    using writeBMP_eq [OF assms(5), of px fs "''inverted_cute_cat.bmp''"] assms(6)
    by (simp add: bmp_main_def open_eq image_ok_sizes [OF assms(5)] invertBMP_eq [OF assms(5) lp] px_def [symmetric]
      verifyBMP_def)
qed

text \<open>A one-pixel picture.\<close>

definition tiny :: BMPHeader where
  "tiny = \<lparr> bfType = 0x4D42, bfSize = 58, bfReserved1 = 0, bfReserved2 = 0, bfOffbits = 54, biSize = 40,
     biWidth = 1, biHeight = 1, biPlanes = 1, biBitCount = 24, biCompression = 0, biSizeImage = 4,
     biXPelsPerMeter = 0, biYPelsPerMeter = 0, biClrUsed = 0, biClrImportant = 0 \<rparr>"

lemma tiny_sizes: "image_ok tiny" "bfOffbits tiny = 54" "pixel_count tiny = 3" "biBitCount tiny = 24"
  "row_count tiny = 1" "width tiny = 1" "padding tiny = 1" "stride tiny = 4"
  by (simp_all add: image_ok_def tiny_def pixel_count_def row_count_def width_def padding_def stride_def)

theorem bmp_round_trip_witness:
  "openBMP (\<lambda>n. Some (replicate n 0)) [''p'' \<mapsto> image_file tiny [1, 2, 3]] ''p'' (tiny, None) =
     Some ([], tiny, Some [1, 2, 3])"
  using bmp_round_trip [OF tiny_sizes(1,2), of "[1, 2, 3]" "\<lambda>n. Some (replicate n 0)" "replicate 3 0"
      Map.empty "''p''" "(tiny, None)"]
    writeBMP_eq [OF tiny_sizes(1), of "[1, 2, 3]" Map.empty "''p''"] by (simp add: tiny_sizes)

theorem bmp_main_inverts_witness:
  "map_option (\<lambda>r. snd r ''inverted_cute_cat.bmp'')
     (bmp_main (\<lambda>n. Some (replicate n 0)) True tiny [''cute_cat.bmp'' \<mapsto> header_bytes tiny @ [1, 2, 255, 0]]) =
   Some (Some (header_bytes tiny @ [254, 253, 0, 0]))"
proof -
  let ?b = "header_bytes tiny @ [1, 2, 255, 0]"
  have h: "tiny = header_of (sub_bytes ?b 0 54)" using header_of_bytes_append [of tiny "[]"] by (simp add: sub_bytes_def)
  have s: "sub_bytes ?b 54 3 = [1, 2, 255]" by (simp add: sub_bytes_def)
  show ?thesis
    using bmp_main_inverts [OF _ h, of "[''cute_cat.bmp'' \<mapsto> ?b]" "\<lambda>n. Some (replicate n 0)" "replicate 3 0" tiny]
    by (simp add: tiny_sizes s)
qed

end
