(* ===== verification/MPMC_Queue.thy ===== *)
theory MPMC_Queue
  imports Prelude "HOL-Library.Multiset"
begin

text \<open>
  The bounded queue for many producers and consumers of \<^verbatim>\<open>Phase-1/Day11/C/MPMC.c\<close>, its stress test
  \<^verbatim>\<open>MPMC_test.c\<close> and the mailbox of \<^verbatim>\<open>Phase-2/Day37/C/ActorModel.c\<close>. A slot carries a sequence number
  that says for which position it is ready; a thread claims a position with a compare-and-swap on \<open>tail\<close> or
  \<open>head\<close> and hands the slot over with a store of the sequence number.

  Any number of threads run. A step is one access to shared memory by one thread, a schedule is a list of
  steps, and whether a weak compare-and-swap fails spuriously is part of the schedule. Accesses are
  sequentially consistent. \<open>sent\<close> and \<open>returned\<close> are not in the code: they record the values in the order in
  which their positions were claimed, and what \<open>queue_pop\<close> gave back, with its position.
\<close>

subsection \<open>The queue\<close>

definition CAPACITY :: nat where "CAPACITY = 1024"

record Slot =
  sl_data :: u64
  sl_sequence :: u64

text \<open>Where a thread is in \<^verbatim>\<open>queue_push\<close> and \<^verbatim>\<open>queue_pop\<close>: the next access it makes.\<close>

datatype qpc =
    Idle
  | Push_load u64
  | Push_seq u64 u64
  | Push_cas u64 u64
  | Push_write u64 u64
  | Push_publish u64 u64
  | Push_done bool
  | Pop_load
  | Pop_seq u64
  | Pop_cas u64
  | Pop_read u64
  | Pop_release u64 u64
  | Pop_done "u64 option"

record mpmc =
  slots :: "Slot list"
  q_head :: u64
  q_tail :: u64
  pcs :: "nat \<Rightarrow> qpc"
  sent :: "u64 list"
  returned :: "(nat \<times> u64) list"

definition mpmc_initialize :: mpmc where
  "mpmc_initialize = \<lparr>slots = map (\<lambda>i. \<lparr>sl_data = 0, sl_sequence = of_nat i\<rparr>) [0..<CAPACITY],
     q_head = 0, q_tail = 0, pcs = (\<lambda>_. Idle), sent = [], returned = []\<rparr>"

definition goto :: "nat \<Rightarrow> qpc \<Rightarrow> mpmc \<Rightarrow> mpmc" where
  "goto t p q = q\<lparr>pcs := (pcs q)(t := p)\<rparr>"

definition slot_index :: "u64 \<Rightarrow> nat" where
  "slot_index pos = unat pos mod CAPACITY"

text \<open>\<^verbatim>\<open>(intptr_t)seq - (intptr_t)pos\<close>; an overflow is undefined.\<close>

definition seq_diff :: "u64 \<Rightarrow> u64 \<Rightarrow> int option" where
  "seq_diff seq pos = (let d = sint seq - sint pos in if - (2 ^ 63) \<le> d \<and> d < 2 ^ 63 then Some d else None)"

definition set_slot :: "u64 \<Rightarrow> (Slot \<Rightarrow> Slot) \<Rightarrow> mpmc \<Rightarrow> mpmc" where
  "set_slot pos f q = q\<lparr>slots := (slots q)[slot_index pos := f (slots q ! slot_index pos)]\<rparr>"

definition queue_push_step :: "nat \<Rightarrow> bool \<Rightarrow> qpc \<Rightarrow> mpmc \<Rightarrow> mpmc option" where
  "queue_push_step t spurious p q =
     (case p of
        Push_load val \<Rightarrow> Some (goto t (Push_seq val (q_tail q)) q)
      | Push_seq val pos \<Rightarrow> do {
          diff \<leftarrow> seq_diff (sl_sequence (slots q ! slot_index pos)) pos;
          Some (goto t (if diff = 0 then Push_cas val pos
                        else if diff < 0 then Push_done False else Push_load val) q)
        }
      | Push_cas val pos \<Rightarrow>
          if q_tail q = pos \<and> \<not> spurious
          then Some (goto t (Push_write val pos) (q\<lparr>q_tail := pos + 1, sent := sent q @ [val]\<rparr>))
          else Some (goto t (Push_seq val (q_tail q)) q)
      | Push_write val pos \<Rightarrow> Some (goto t (Push_publish val pos) (set_slot pos (sl_data_update (\<lambda>_. val)) q))
      | Push_publish val pos \<Rightarrow>
          Some (goto t (Push_done True) (set_slot pos (sl_sequence_update (\<lambda>_. pos + 1)) q))
      | _ \<Rightarrow> Some q)"

definition queue_pop_step :: "nat \<Rightarrow> bool \<Rightarrow> qpc \<Rightarrow> mpmc \<Rightarrow> mpmc option" where
  "queue_pop_step t spurious p q =
     (case p of
        Pop_load \<Rightarrow> Some (goto t (Pop_seq (q_head q)) q)
      | Pop_seq pos \<Rightarrow> do {
          diff \<leftarrow> seq_diff (sl_sequence (slots q ! slot_index pos)) (pos + 1);
          Some (goto t (if diff = 0 then Pop_cas pos
                        else if diff < 0 then Pop_done None else Pop_load) q)
        }
      | Pop_cas pos \<Rightarrow>
          if q_head q = pos \<and> \<not> spurious
          then Some (goto t (Pop_read pos) (q\<lparr>q_head := pos + 1\<rparr>))
          else Some (goto t (Pop_seq (q_head q)) q)
      | Pop_read pos \<Rightarrow> Some (goto t (Pop_release pos (sl_data (slots q ! slot_index pos))) q)
      | Pop_release pos val \<Rightarrow>
          Some (goto t (Pop_done (Some val)) (set_slot pos (sl_sequence_update (\<lambda>_. pos + of_nat CAPACITY))
            (q\<lparr>returned := returned q @ [(unat pos, val)]\<rparr>)))
      | _ \<Rightarrow> Some q)"

text \<open>A thread between two operations starts the one it is asked for.\<close>

datatype queue_op = Do_push u64 | Do_pop

fun start :: "queue_op \<Rightarrow> qpc" where
  "start (Do_push v) = Push_load v"
| "start Do_pop = Pop_load"

fun resting :: "qpc \<Rightarrow> bool" where
  "resting Idle = True"
| "resting (Push_done b) = True"
| "resting (Pop_done r) = True"
| "resting _ = False"

fun pushing :: "qpc \<Rightarrow> bool" where
  "pushing (Push_load v) = True"
| "pushing (Push_seq v pos) = True"
| "pushing (Push_cas v pos) = True"
| "pushing (Push_write v pos) = True"
| "pushing (Push_publish v pos) = True"
| "pushing _ = False"

definition queue_step :: "nat \<times> queue_op \<times> bool \<Rightarrow> mpmc \<Rightarrow> mpmc option" where
  "queue_step e q =
     (case e of (t, what, spurious) \<Rightarrow>
        if resting (pcs q t) then Some (goto t (start what) q)
        else if pushing (pcs q t) then queue_push_step t spurious (pcs q t) q
        else queue_pop_step t spurious (pcs q t) q)"

fun queue_run :: "(nat \<times> queue_op \<times> bool) list \<Rightarrow> mpmc \<Rightarrow> mpmc option" where
  "queue_run [] q = Some q"
| "queue_run (e # es) q = do { q \<leftarrow> queue_step e q; queue_run es q }"

subsection \<open>The invariant\<close>

text \<open>The position a thread has claimed for writing, and for reading.\<close>

fun writing :: "qpc \<Rightarrow> nat option" where
  "writing (Push_write v pos) = Some (unat pos)"
| "writing (Push_publish v pos) = Some (unat pos)"
| "writing _ = None"

fun reading :: "qpc \<Rightarrow> nat option" where
  "reading (Pop_read pos) = Some (unat pos)"
| "reading (Pop_release pos v) = Some (unat pos)"
| "reading _ = None"

definition head_nat :: "mpmc \<Rightarrow> nat" where "head_nat q = unat (q_head q)"
definition tail_nat :: "mpmc \<Rightarrow> nat" where "tail_nat q = unat (q_tail q)"
definition seq_nat :: "mpmc \<Rightarrow> nat \<Rightarrow> nat" where "seq_nat q p = unat (sl_sequence (slots q ! (p mod CAPACITY)))"
definition data_at :: "mpmc \<Rightarrow> nat \<Rightarrow> u64" where "data_at q p = sl_data (slots q ! (p mod CAPACITY))"

text \<open>A slot waits for the value of position \<open>p\<close>, or holds it.\<close>

definition slot_empty :: "mpmc \<Rightarrow> nat \<Rightarrow> bool" where
  "slot_empty q p \<longleftrightarrow> seq_nat q p = p \<and> head_nat q \<le> p \<and> p < head_nat q + CAPACITY \<and>
     (p < tail_nat q \<longrightarrow> (\<exists>t. writing (pcs q t) = Some p))"

definition slot_full :: "mpmc \<Rightarrow> nat \<Rightarrow> bool" where
  "slot_full q p \<longleftrightarrow> seq_nat q p = p + 1 \<and> p < tail_nat q \<and> tail_nat q \<le> p + CAPACITY \<and>
     data_at q p = sent q ! p \<and> (p < head_nat q \<longrightarrow> (\<exists>t. reading (pcs q t) = Some p))"

definition shape_ok :: "mpmc \<Rightarrow> bool" where
  "shape_ok q \<longleftrightarrow> length (slots q) = CAPACITY \<and> head_nat q \<le> tail_nat q \<and> tail_nat q \<le> head_nat q + CAPACITY \<and>
     length (sent q) = tail_nat q"

definition slots_ok :: "mpmc \<Rightarrow> bool" where
  "slots_ok q \<longleftrightarrow> (\<forall>i < CAPACITY. \<exists>p. p mod CAPACITY = i \<and> (slot_empty q p \<or> slot_full q p))"

definition writers_ok :: "mpmc \<Rightarrow> bool" where
  "writers_ok q \<longleftrightarrow>
     (\<forall>t p. writing (pcs q t) = Some p \<longrightarrow> p < tail_nat q \<and> seq_nat q p = p) \<and>
     (\<forall>t u p. writing (pcs q t) = Some p \<longrightarrow> writing (pcs q u) = Some p \<longrightarrow> t = u) \<and>
     (\<forall>t v pos. pcs q t = Push_write v pos \<or> pcs q t = Push_publish v pos \<longrightarrow> sent q ! unat pos = v) \<and>
     (\<forall>t v pos. pcs q t = Push_publish v pos \<longrightarrow> data_at q (unat pos) = v)"

definition readers_ok :: "mpmc \<Rightarrow> bool" where
  "readers_ok q \<longleftrightarrow>
     (\<forall>t p. reading (pcs q t) = Some p \<longrightarrow> p < head_nat q \<and> seq_nat q p = p + 1) \<and>
     (\<forall>t u p. reading (pcs q t) = Some p \<longrightarrow> reading (pcs q u) = Some p \<longrightarrow> t = u) \<and>
     (\<forall>t v pos. pcs q t = Pop_release pos v \<longrightarrow> v = sent q ! unat pos)"

definition seekers_ok :: "mpmc \<Rightarrow> bool" where
  "seekers_ok q \<longleftrightarrow>
     (\<forall>t v pos. pcs q t = Push_seq v pos \<or> pcs q t = Push_cas v pos \<longrightarrow> unat pos \<le> tail_nat q) \<and>
     (\<forall>t v pos. pcs q t = Push_cas v pos \<longrightarrow> unat pos \<le> seq_nat q (unat pos)) \<and>
     (\<forall>t pos. pcs q t = Pop_seq pos \<or> pcs q t = Pop_cas pos \<longrightarrow> unat pos \<le> head_nat q) \<and>
     (\<forall>t pos. pcs q t = Pop_cas pos \<longrightarrow> unat pos + 1 \<le> seq_nat q (unat pos))"

definition log_ok :: "mpmc \<Rightarrow> bool" where
  "log_ok q \<longleftrightarrow> distinct (map fst (returned q)) \<and>
     (\<forall>p v. (p, v) \<in> set (returned q) \<longrightarrow> p < head_nat q \<and> v = sent q ! p) \<and>
     (\<forall>p < head_nat q. (p \<in> fst ` set (returned q)) \<noteq> (\<exists>t. reading (pcs q t) = Some p))"

definition queue_inv :: "mpmc \<Rightarrow> bool" where
  "queue_inv q \<longleftrightarrow> shape_ok q \<and> slots_ok q \<and> writers_ok q \<and> readers_ok q \<and> seekers_ok q \<and> log_ok q"

subsection \<open>Words as numbers\<close>

lemma unat_add_small: "unat (pos::u64) + k < 2 ^ 64 \<Longrightarrow> unat (pos + of_nat k) = unat pos + k"
proof -
  assume a: "unat pos + k < 2 ^ 64"
  then have k: "unat (of_nat k :: u64) = k" by (simp add: unat_of_nat take_bit_nat_eq_self_iff)
  have "unat pos + unat (of_nat k :: u64) < 2 ^ LENGTH(64)" using a k by simp
  then show ?thesis using k by (simp add: unat_add_lem [THEN iffD1])
qed

lemma unat_plus_one: "unat (pos::u64) < 2 ^ 63 \<Longrightarrow> unat (pos + 1) = unat pos + 1"
  using unat_add_small [of pos 1] by simp

lemma seq_diff_eq:
  assumes "unat a < 2 ^ 63" "unat b < 2 ^ 63"
  shows "seq_diff a b = Some (int (unat a) - int (unat b))"
proof -
  have s: "sint (w::u64) = uint w \<and> uint w < 2 ^ 63" if "unat w < 2 ^ 63" for w
  proof -
    have u: "uint w = int (unat w)" by simp
    have "int (unat w) < int (2 ^ 63)" using that by (simp only: of_nat_less_iff)
    moreover have "int (2 ^ 63) = 2 ^ 63" by simp
    ultimately have "uint w < 2 ^ 63" by (simp only: u)
    moreover from this have "signed_take_bit 63 (uint w) = uint w"
      by (intro signed_take_bit_int_eq_self) (simp_all add: order_trans [OF _ uint_ge_0])
    ultimately show ?thesis unfolding sint_uint by simp
  qed
  have "- (2 ^ 63) \<le> uint a - uint b" "uint a - uint b < 2 ^ 63"
    using s [OF assms(1)] s [OF assms(2)] uint_ge_0 [of a] uint_ge_0 [of b] by linarith+
  then show ?thesis using s [OF assms(1)] s [OF assms(2)] by (simp add: seq_diff_def Let_def)
qed

subsection \<open>Positions of one slot\<close>

lemma CAPACITY_pos [simp]: "0 < CAPACITY" "CAPACITY \<noteq> 0"
  by (simp_all add: CAPACITY_def)

lemma same_slot_gap: "p mod CAPACITY = p' mod CAPACITY \<Longrightarrow> p < p' \<Longrightarrow> p + CAPACITY \<le> p'"
proof -
  assume "p mod CAPACITY = p' mod CAPACITY" "p < p'"
  then have "CAPACITY dvd p' - p" by (metis less_imp_le mod_eq_dvd_iff_nat)
  then show ?thesis using \<open>p < p'\<close> by (auto dest: dvd_imp_le)
qed

lemma next_slot: "(p + 1) mod CAPACITY \<noteq> p mod CAPACITY"
  using same_slot_gap [of p "p + 1"] by (auto simp: CAPACITY_def)

lemma mp_goto_simps [simp]:
  "slots (goto t p q) = slots q" "q_head (goto t p q) = q_head q" "q_tail (goto t p q) = q_tail q"
  "sent (goto t p q) = sent q" "returned (goto t p q) = returned q" "pcs (goto t p q) = (pcs q)(t := p)"
  "head_nat (goto t p q) = head_nat q" "tail_nat (goto t p q) = tail_nat q"
  "seq_nat (goto t p q) = seq_nat q" "data_at (goto t p q) = data_at q"
  by (simp_all add: goto_def head_nat_def tail_nat_def seq_nat_def [abs_def] data_at_def [abs_def])

lemma seq_nat_cong: "p mod CAPACITY = p' mod CAPACITY \<Longrightarrow> seq_nat q p = seq_nat q p'"
  by (simp add: seq_nat_def)

lemma data_at_cong: "p mod CAPACITY = p' mod CAPACITY \<Longrightarrow> data_at q p = data_at q p'"
  by (simp add: data_at_def)

lemma slot_of:
  assumes "slots_ok q"
  obtains p' where "p' mod CAPACITY = p mod CAPACITY" "slot_empty q p' \<or> slot_full q p'"
  using assms unfolding slots_ok_def by (meson CAPACITY_pos(1) mod_less_divisor)

lemma empty_of_seq: "slots_ok q \<Longrightarrow> seq_nat q p = p \<Longrightarrow> slot_empty q p"
proof (rule slot_of [of q p])
  fix p'
  assume "seq_nat q p = p" and p': "p' mod CAPACITY = p mod CAPACITY" "slot_empty q p' \<or> slot_full q p'"
  then have "seq_nat q p' = p" using seq_nat_cong by metis
  then have "slot_empty q p' \<and> p' = p \<or> slot_full q p' \<and> p' + 1 = p"
    using p'(2) unfolding slot_empty_def slot_full_def by auto
  then show "slot_empty q p" using p'(1) next_slot [of p'] by metis
qed

lemma full_of_seq: "slots_ok q \<Longrightarrow> seq_nat q p = p + 1 \<Longrightarrow> slot_full q p"
proof (rule slot_of [of q p])
  fix p'
  assume "seq_nat q p = p + 1" and p': "p' mod CAPACITY = p mod CAPACITY" "slot_empty q p' \<or> slot_full q p'"
  then have "seq_nat q p' = p + 1" using seq_nat_cong by metis
  then have "slot_empty q p' \<and> p' = p + 1 \<or> slot_full q p' \<and> p' = p"
    using p'(2) unfolding slot_empty_def slot_full_def by auto
  then show "slot_full q p" using p'(1) next_slot [of p] by metis
qed

text \<open>What a thread that is about to claim a position may rely on.\<close>

lemma claim_tail:
  assumes "slots_ok q" "shape_ok q" "tail_nat q \<le> seq_nat q (tail_nat q)"
  shows "slot_empty q (tail_nat q)"
proof (rule slot_of [OF assms(1), of "tail_nat q"])
  fix p
  assume p: "p mod CAPACITY = tail_nat q mod CAPACITY" "slot_empty q p \<or> slot_full q p"
  have s: "tail_nat q \<le> seq_nat q p" using assms(3) seq_nat_cong [OF p(1)] by simp
  from p(2) show ?thesis
  proof
    assume e: "slot_empty q p"
    then have "p < tail_nat q + CAPACITY" "tail_nat q \<le> p" using s assms(2) by (auto simp: slot_empty_def shape_ok_def)
    then have "p = tail_nat q" using same_slot_gap [of "tail_nat q" p] p(1) by linarith
    with e show ?thesis by simp
  next
    assume f: "slot_full q p"
    then have "tail_nat q = p + 1" using s by (auto simp: slot_full_def)
    then show ?thesis using p(1) next_slot [of p] by metis
  qed
qed

lemma claim_head:
  assumes "slots_ok q" "shape_ok q" "head_nat q + 1 \<le> seq_nat q (head_nat q)"
  shows "slot_full q (head_nat q)"
proof (rule slot_of [OF assms(1), of "head_nat q"])
  fix p
  assume p: "p mod CAPACITY = head_nat q mod CAPACITY" "slot_empty q p \<or> slot_full q p"
  have s: "head_nat q + 1 \<le> seq_nat q p" using assms(3) seq_nat_cong [OF p(1)] by simp
  from p(2) show ?thesis
  proof
    assume "slot_empty q p"
    then have "p < head_nat q + CAPACITY" "head_nat q < p" using s by (auto simp: slot_empty_def)
    then show ?thesis using same_slot_gap [of "head_nat q" p] p(1) by linarith
  next
    assume f: "slot_full q p"
    then have "head_nat q \<le> p" "p < head_nat q + CAPACITY" using s assms(2) by (auto simp: slot_full_def shape_ok_def)
    then have "p = head_nat q" using same_slot_gap [of "head_nat q" p] p(1) by linarith
    with f show ?thesis by simp
  qed
qed

text \<open>A slot whose sequence number is behind.\<close>

lemma push_refused:
  assumes "slots_ok q" "shape_ok q" "p \<le> tail_nat q" "seq_nat q p < p"
  shows "p = tail_nat q \<and> CAPACITY \<le> p \<and>
    (tail_nat q = head_nat q + CAPACITY \<or> (\<exists>t. reading (pcs q t) = Some (p - CAPACITY)))"
proof (rule slot_of [OF assms(1), of p])
  fix p'
  assume p': "p' mod CAPACITY = p mod CAPACITY" "slot_empty q p' \<or> slot_full q p'"
  have s: "seq_nat q p' < p" using assms(4) seq_nat_cong [OF p'(1)] by simp
  then have lt: "p' < p" using p'(2) by (auto simp: slot_empty_def slot_full_def)
  then have g: "p' + CAPACITY \<le> p" using same_slot_gap p'(1) by metis
  from p'(2) show ?thesis
  proof
    assume "slot_empty q p'"
    then have "head_nat q = p'" "tail_nat q = head_nat q + CAPACITY" "p = tail_nat q"
      using g assms(2,3) unfolding slot_empty_def shape_ok_def by linarith+
    then show ?thesis by simp
  next
    assume f: "slot_full q p'"
    then have p: "p = tail_nat q" "p' = p - CAPACITY" using g assms(3) unfolding slot_full_def by linarith+
    show ?thesis
    proof (cases "p' < head_nat q")
      case True
      then show ?thesis using f p g unfolding slot_full_def by auto
    next
      case False
      then have "tail_nat q = head_nat q + CAPACITY" using p g assms(2) unfolding shape_ok_def by linarith
      then show ?thesis using p g by simp
    qed
  qed
qed

lemma pop_refused:
  assumes "slots_ok q" "shape_ok q" "p \<le> head_nat q" "seq_nat q p < p + 1"
  shows "p = head_nat q \<and> (head_nat q = tail_nat q \<or> (\<exists>t. writing (pcs q t) = Some p))"
proof (rule slot_of [OF assms(1), of p])
  fix p'
  assume p': "p' mod CAPACITY = p mod CAPACITY" "slot_empty q p' \<or> slot_full q p'"
  have s: "seq_nat q p' < p + 1" using assms(4) seq_nat_cong [OF p'(1)] by simp
  from p'(2) show ?thesis
  proof
    assume e: "slot_empty q p'"
    then have p: "p' = p" "p = head_nat q" using s assms(3) unfolding slot_empty_def by linarith+
    then show ?thesis using e assms(2) unfolding slot_empty_def shape_ok_def by auto
  next
    assume f: "slot_full q p'"
    then have "p' < p" using s by (auto simp: slot_full_def)
    then have "p' + CAPACITY \<le> p" using same_slot_gap p'(1) by metis
    then show ?thesis using f assms(2,3) unfolding slot_full_def shape_ok_def by linarith
  qed
qed

subsection \<open>Every step keeps the invariant\<close>

lemma seekers_mono:
  assumes so: "seekers_ok q" and m: "\<And>k. seq_nat q k \<le> seq_nat q' k" "tail_nat q \<le> tail_nat q'" "head_nat q \<le> head_nat q'"
    and pc: "\<And>u. pcs q' u = pcs q u \<or> resting (pcs q' u)"
  shows "seekers_ok q'"
proof -
  have same: "pcs q' u = p \<Longrightarrow> \<not> resting p \<Longrightarrow> pcs q u = p" for u p using pc [of u] by metis
  show ?thesis
    unfolding seekers_ok_def
  proof (intro conjI allI impI)
    fix u v pos
    assume "pcs q' u = Push_seq v pos \<or> pcs q' u = Push_cas v pos"
    then have "pcs q u = Push_seq v pos \<or> pcs q u = Push_cas v pos" using same by fastforce
    then show "unat pos \<le> tail_nat q'" using so m(2) unfolding seekers_ok_def by (meson order_trans)
  next
    fix u v pos
    assume "pcs q' u = Push_cas v pos"
    then have "pcs q u = Push_cas v pos" using same by fastforce
    then show "unat pos \<le> seq_nat q' (unat pos)" using so m(1) unfolding seekers_ok_def by (meson order_trans)
  next
    fix u pos
    assume "pcs q' u = Pop_seq pos \<or> pcs q' u = Pop_cas pos"
    then have "pcs q u = Pop_seq pos \<or> pcs q u = Pop_cas pos" using same by fastforce
    then show "unat pos \<le> head_nat q'" using so m(3) unfolding seekers_ok_def by (meson order_trans)
  next
    fix u pos
    assume "pcs q' u = Pop_cas pos"
    then have "pcs q u = Pop_cas pos" using same by fastforce
    then show "unat pos + 1 \<le> seq_nat q' (unat pos)" using so m(1) unfolding seekers_ok_def by (meson order_trans)
  qed
qed

lemma inv_goto:
  assumes inv: "queue_inv q" and w: "writing p = writing (pcs q t)" and r: "reading p = reading (pcs q t)"
    and nw: "\<And>v pos. p \<noteq> Push_write v pos \<and> p \<noteq> Push_publish v pos"
    and rv: "\<And>v pos. p = Pop_release pos v \<Longrightarrow> v = sent q ! unat pos"
    and s1: "\<And>v pos. p = Push_seq v pos \<or> p = Push_cas v pos \<Longrightarrow> unat pos \<le> tail_nat q"
    and s2: "\<And>v pos. p = Push_cas v pos \<Longrightarrow> unat pos \<le> seq_nat q (unat pos)"
    and s3: "\<And>pos. p = Pop_seq pos \<or> p = Pop_cas pos \<Longrightarrow> unat pos \<le> head_nat q"
    and s4: "\<And>pos. p = Pop_cas pos \<Longrightarrow> unat pos + 1 \<le> seq_nat q (unat pos)"
  shows "queue_inv (goto t p q)"
proof -
  have wr: "writing (pcs (goto t p q) u) = writing (pcs q u)" "reading (pcs (goto t p q) u) = reading (pcs q u)" for u
    using w r by simp_all
  have e: "slot_empty (goto t p q) = slot_empty q" "slot_full (goto t p q) = slot_full q"
    by (simp_all only: slot_empty_def [abs_def] slot_full_def [abs_def] wr mp_goto_simps(1-5,7-10))
  have "shape_ok (goto t p q)" using inv by (simp add: queue_inv_def shape_ok_def)
  moreover have "slots_ok (goto t p q)" using inv unfolding queue_inv_def slots_ok_def e by blast
  moreover have "writers_ok (goto t p q)"
    using inv nw unfolding queue_inv_def writers_ok_def wr by (auto split: if_splits)
  moreover have "readers_ok (goto t p q)"
    using inv rv unfolding queue_inv_def readers_ok_def wr by (auto split: if_splits)
  moreover have "seekers_ok (goto t p q)"
    using inv s1 s2 s3 s4 unfolding queue_inv_def seekers_ok_def by simp
  moreover have "log_ok (goto t p q)"
    using inv unfolding queue_inv_def log_ok_def wr mp_goto_simps(1-5,7-10) by blast
  ultimately show ?thesis by (simp add: queue_inv_def)
qed

lemma inv_claim_tail:
  assumes inv: "queue_inv q" and p: "pcs q t = Push_cas v pos" "q_tail q = pos" and small: "tail_nat q < 2 ^ 62"
  shows "queue_inv (goto t (Push_write v pos) (q\<lparr>q_tail := pos + 1, sent := sent q @ [v]\<rparr>))" (is "queue_inv ?q")
proof -
  define T where "T = tail_nat q"
  have shape: "shape_ok q" and sl: "slots_ok q" and wo: "writers_ok q" and ro: "readers_ok q" and so: "seekers_ok q"
    and lo: "log_ok q" using inv by (simp_all add: queue_inv_def)
  have pos: "unat pos = T" using p(2) by (simp add: T_def tail_nat_def)
  have f: "head_nat ?q = head_nat q" "seq_nat ?q = seq_nat q" "data_at ?q = data_at q" "pcs ?q = (pcs q)(t := Push_write v pos)"
    "sent ?q = sent q @ [v]" "returned ?q = returned q" "slots ?q = slots q"
    by (simp_all add: head_nat_def seq_nat_def [abs_def] data_at_def [abs_def])
  have T': "tail_nat ?q = T + 1"
    using unat_plus_one [of pos] pos small by (simp add: tail_nat_def T_def)
  have len: "length (sent q) = T" "head_nat q \<le> T" "T \<le> head_nat q + CAPACITY" using shape by (simp_all add: shape_ok_def T_def)
  have old: "sent ?q ! k = sent q ! k" if "k < T" for k using that len by (simp add: f nth_append)
  have wr: "writing (pcs ?q u) = (if u = t then Some T else writing (pcs q u))" "reading (pcs ?q u) = reading (pcs q u)"
    "writing (pcs q t) = None" for u using p pos by (simp_all add: f)
  have "T \<le> seq_nat q T" using so p(1) pos unfolding seekers_ok_def by blast
  then have eT: "slot_empty q T" using claim_tail [OF sl shape] by (simp add: T_def)
  have sT: "seq_nat q T = T" using eT by (simp add: slot_empty_def)
  have "shape_ok ?q" unfolding shape_ok_def f T' using shape eT len by (simp add: shape_ok_def slot_empty_def)
  moreover have "slots_ok ?q"
    unfolding slots_ok_def
  proof (intro allI impI)
    fix i
    assume "i < CAPACITY"
    then obtain k where k: "k mod CAPACITY = i" "slot_empty q k \<or> slot_full q k" using sl unfolding slots_ok_def by blast
    have "slot_empty ?q k \<or> slot_full ?q k"
    proof (cases "slot_empty q k")
      case True
      have "\<exists>u. writing (pcs ?q u) = Some k" if kT: "k < T + 1"
      proof (cases "k = T")
        case True
        then show ?thesis using wr(1) [of t] by auto
      next
        case False
        then obtain u where "writing (pcs q u) = Some k"
          using \<open>slot_empty q k\<close> kT unfolding slot_empty_def T_def by auto
        then show ?thesis using wr(1) [of u] wr(3) by (intro exI [of _ u]) auto
      qed
      then have "slot_empty ?q k" using True unfolding slot_empty_def f(1,2) T' by simp
      then show ?thesis ..
    next
      case False
      then have fk: "slot_full q k" using k by blast
      have "T \<noteq> k + CAPACITY"
      proof
        assume "T = k + CAPACITY"
        then have "seq_nat q k = T" using seq_nat_cong [of k T q] sT by simp
        then have "T = k + 1" using fk by (simp add: slot_full_def)
        then show False using \<open>T = k + CAPACITY\<close> by (simp add: CAPACITY_def)
      qed
      then have "slot_full ?q k" using fk old [of k] unfolding slot_full_def f(1-3) T' wr T_def [symmetric] by auto
      then show ?thesis ..
    qed
    then show "\<exists>p. p mod CAPACITY = i \<and> (slot_empty ?q p \<or> slot_full ?q p)" using k(1) by blast
  qed
  moreover have "writers_ok ?q"
    unfolding writers_ok_def
  proof (intro conjI allI impI)
    fix u k
    assume "writing (pcs ?q u) = Some k"
    then show "k < tail_nat ?q" "seq_nat ?q k = k"
      using wo sT pos unfolding wr f T' writers_ok_def T_def by (auto split: if_splits dest: less_SucI)
  next
    fix u u' k
    assume "writing (pcs ?q u) = Some k" "writing (pcs ?q u') = Some k"
    then show "u = u'" using wo unfolding wr writers_ok_def T_def by (metis less_irrefl option.inject)
  next
    fix u v' pos'
    assume a: "pcs ?q u = Push_write v' pos' \<or> pcs ?q u = Push_publish v' pos'"
    show "sent ?q ! unat pos' = v'"
    proof (cases "u = t")
      case True
      then show ?thesis using a len(1) pos by (simp add: f nth_append)
    next
      case False
      then have b: "pcs q u = Push_write v' pos' \<or> pcs q u = Push_publish v' pos'" using a by (simp add: f)
      then have "writing (pcs q u) = Some (unat pos')" by auto
      then have "unat pos' < T" using wo unfolding writers_ok_def T_def by blast
      then show ?thesis using old b wo unfolding writers_ok_def by auto
    qed
  next
    fix u v' pos'
    assume "pcs ?q u = Push_publish v' pos'"
    then show "data_at ?q (unat pos') = v'" using wo unfolding writers_ok_def f by (auto split: if_splits)
  qed
  moreover have "readers_ok ?q"
    unfolding readers_ok_def wr f(1,2)
  proof (intro conjI)
    show "\<forall>u k. reading (pcs q u) = Some k \<longrightarrow> k < head_nat q \<and> seq_nat q k = k + 1"
      "\<forall>u u' k. reading (pcs q u) = Some k \<longrightarrow> reading (pcs q u') = Some k \<longrightarrow> u = u'"
      using ro unfolding readers_ok_def by blast+
    show "\<forall>u v' pos'. pcs ?q u = Pop_release pos' v' \<longrightarrow> v' = sent ?q ! unat pos'"
    proof (intro allI impI)
      fix u v' pos'
      assume "pcs ?q u = Pop_release pos' v'"
      then have b: "pcs q u = Pop_release pos' v'" by (simp add: f split: if_splits)
      then have "reading (pcs q u) = Some (unat pos')" by simp
      then have "unat pos' < T" using ro len unfolding readers_ok_def by fastforce
      then show "v' = sent ?q ! unat pos'" using old b ro unfolding readers_ok_def by auto
    qed
  qed
  moreover have "seekers_ok ?q"
    using so unfolding seekers_ok_def f T' by (auto simp: T_def split: if_splits intro: le_SucI)
  moreover have "log_ok ?q"
  proof -
    have "k < head_nat q \<and> w = sent ?q ! k" if kw: "(k, w) \<in> set (returned q)" for k w
    proof -
      have b: "k < head_nat q" "w = sent q ! k" using lo kw unfolding log_ok_def by blast+
      then have "k < T" using len(2) by linarith
      then show ?thesis using old b by metis
    qed
    then show ?thesis using lo unfolding log_ok_def wr f(1,6) by blast
  qed
  ultimately show ?thesis unfolding queue_inv_def by blast
qed

lemma inv_claim_head:
  assumes inv: "queue_inv q" and p: "pcs q t = Pop_cas pos" "q_head q = pos" and small: "tail_nat q < 2 ^ 62"
  shows "queue_inv (goto t (Pop_read pos) (q\<lparr>q_head := pos + 1\<rparr>))" (is "queue_inv ?q")
proof -
  define H where "H = head_nat q"
  have shape: "shape_ok q" and sl: "slots_ok q" and wo: "writers_ok q" and ro: "readers_ok q" and so: "seekers_ok q"
    and lo: "log_ok q" using inv by (simp_all add: queue_inv_def)
  have pos: "unat pos = H" using p(2) by (simp add: H_def head_nat_def)
  have f: "tail_nat ?q = tail_nat q" "seq_nat ?q = seq_nat q" "data_at ?q = data_at q"
    "sent ?q = sent q" "returned ?q = returned q" "slots ?q = slots q"
    by (simp_all add: tail_nat_def seq_nat_def [abs_def] data_at_def [abs_def])
  have H': "head_nat ?q = H + 1"
    using unat_plus_one [of pos] pos small shape by (simp add: head_nat_def H_def shape_ok_def)
  have pc: "pcs ?q u = (if u = t then Pop_read pos else pcs q u)" for u by simp
  have wr: "reading (pcs ?q u) = (if u = t then Some H else reading (pcs q u))" "writing (pcs ?q u) = writing (pcs q u)"
    "reading (pcs q t) = None" for u using p pos by simp_all
  have "H + 1 \<le> seq_nat q H" using so p(1) pos unfolding seekers_ok_def by metis
  then have fH: "slot_full q H" using claim_head [OF sl shape] by (simp add: H_def)
  have sH: "seq_nat q H = H + 1" "H < tail_nat q" using fH by (simp_all add: slot_full_def)
  have "shape_ok ?q" unfolding shape_ok_def f H' using shape sH by (simp add: shape_ok_def H_def)
  moreover have "slots_ok ?q"
    unfolding slots_ok_def
  proof (intro allI impI)
    fix i
    assume "i < CAPACITY"
    then obtain k where k: "k mod CAPACITY = i" "slot_empty q k \<or> slot_full q k" using sl unfolding slots_ok_def by blast
    have "slot_empty ?q k \<or> slot_full ?q k"
    proof (cases "slot_empty q k")
      case True
      then have "k \<noteq> H" using sH(1) by (auto simp: slot_empty_def)
      then have "slot_empty ?q k" using True unfolding slot_empty_def f H' wr H_def [symmetric] by simp
      then show ?thesis ..
    next
      case False
      then have fk: "slot_full q k" using k by blast
      have "\<exists>u. reading (pcs ?q u) = Some k" if kH: "k < H + 1"
      proof (cases "k = H")
        case True
        then show ?thesis using wr(1) [of t] by auto
      next
        case False
        then obtain u where "reading (pcs q u) = Some k"
          using fk kH unfolding slot_full_def H_def by auto
        then show ?thesis using wr(1) [of u] wr(3) by (intro exI [of _ u]) auto
      qed
      then have "slot_full ?q k" using fk unfolding slot_full_def f H' by simp
      then show ?thesis ..
    qed
    then show "\<exists>p. p mod CAPACITY = i \<and> (slot_empty ?q p \<or> slot_full ?q p)" using k(1) by blast
  qed
  moreover have "writers_ok ?q"
    using wo unfolding writers_ok_def f wr pc by (auto split: if_splits)
  moreover have "readers_ok ?q"
    unfolding readers_ok_def
  proof (intro conjI allI impI)
    fix u k
    assume "reading (pcs ?q u) = Some k"
    then show "k < head_nat ?q" "seq_nat ?q k = k + 1"
      using ro sH(1) unfolding wr f H' readers_ok_def H_def by (auto split: if_splits dest: less_SucI)
  next
    fix u u' k
    assume "reading (pcs ?q u) = Some k" "reading (pcs ?q u') = Some k"
    then show "u = u'" using ro unfolding wr readers_ok_def H_def by (metis less_irrefl option.inject)
  next
    fix u v' pos'
    assume "pcs ?q u = Pop_release pos' v'"
    then show "v' = sent ?q ! unat pos'" using ro unfolding readers_ok_def f pc by (auto split: if_splits)
  qed
  moreover have "seekers_ok ?q"
    using so unfolding seekers_ok_def f H' pc by (auto simp: H_def split: if_splits intro: le_SucI)
  moreover have "log_ok ?q"
    unfolding log_ok_def f H'
  proof (intro conjI allI impI)
    show "distinct (map fst (returned q))" using lo by (simp add: log_ok_def)
    fix k v
    assume "(k, v) \<in> set (returned q)"
    then show "k < H + 1" "v = sent q ! k" using lo unfolding log_ok_def H_def by (auto dest: less_SucI)
  next
    fix k
    assume k: "k < H + 1"
    show "(k \<in> fst ` set (returned q)) \<noteq> (\<exists>u. reading (pcs ?q u) = Some k)"
    proof (cases "k = H")
      case True
      then have "k \<notin> fst ` set (returned q)" using lo unfolding log_ok_def H_def by fastforce
      then show ?thesis using wr(1) [of t] True by auto
    next
      case False
      then have "(\<exists>u. reading (pcs ?q u) = Some k) \<longleftrightarrow> (\<exists>u. reading (pcs q u) = Some k)"
        unfolding wr by (metis option.inject option.simps(3) wr(3))
      then show ?thesis using lo k False unfolding log_ok_def H_def by auto
    qed
  qed
  ultimately show ?thesis unfolding queue_inv_def by blast
qed

lemma set_slot_simps [simp]:
  "q_head (set_slot pos f q) = q_head q" "q_tail (set_slot pos f q) = q_tail q" "sent (set_slot pos f q) = sent q"
  "returned (set_slot pos f q) = returned q" "pcs (set_slot pos f q) = pcs q"
  "length (slots (set_slot pos f q)) = length (slots q)"
  "head_nat (set_slot pos f q) = head_nat q" "tail_nat (set_slot pos f q) = tail_nat q"
  by (simp_all add: set_slot_def head_nat_def tail_nat_def)

lemma set_slot_seq:
  "length (slots q) = CAPACITY \<Longrightarrow> seq_nat (set_slot pos f q) k =
     (if k mod CAPACITY = unat pos mod CAPACITY then unat (sl_sequence (f (slots q ! slot_index pos))) else seq_nat q k)"
  by (simp add: set_slot_def seq_nat_def slot_index_def nth_list_update)

lemma set_slot_data:
  "length (slots q) = CAPACITY \<Longrightarrow> data_at (set_slot pos f q) k =
     (if k mod CAPACITY = unat pos mod CAPACITY then sl_data (f (slots q ! slot_index pos)) else data_at q k)"
  by (simp add: set_slot_def data_at_def slot_index_def nth_list_update)

lemma inv_write:
  assumes inv: "queue_inv q" and p: "pcs q t = Push_write v pos"
  shows "queue_inv (goto t (Push_publish v pos) (set_slot pos (sl_data_update (\<lambda>_. v)) q))" (is "queue_inv ?q")
proof -
  define P where "P = unat pos"
  have shape: "shape_ok q" and sl: "slots_ok q" and wo: "writers_ok q" and ro: "readers_ok q" and so: "seekers_ok q"
    and lo: "log_ok q" using inv by (simp_all add: queue_inv_def)
  have len: "length (slots q) = CAPACITY" using shape by (simp add: shape_ok_def)
  have wP: "writing (pcs q t) = Some P" using p by (simp add: P_def)
  have sP: "seq_nat q P = P" using wo wP unfolding writers_ok_def by blast
  have f: "head_nat ?q = head_nat q" "tail_nat ?q = tail_nat q" "sent ?q = sent q" "returned ?q = returned q"
    "length (slots ?q) = length (slots q)" by simp_all
  have pc: "pcs ?q u = (if u = t then Push_publish v pos else pcs q u)" for u by simp
  have seq: "seq_nat ?q = seq_nat q"
    using len by (intro ext) (simp add: set_slot_seq, simp add: seq_nat_def slot_index_def)
  have data: "data_at ?q k = (if k mod CAPACITY = P mod CAPACITY then v else data_at q k)" for k
    using len by (simp add: set_slot_data P_def)
  have wr: "writing (pcs ?q u) = writing (pcs q u)" "reading (pcs ?q u) = reading (pcs q u)" for u
    using p by simp_all
  have other: "k mod CAPACITY = P mod CAPACITY \<Longrightarrow> \<not> slot_full q k" for k
    using seq_nat_cong [of k P q] sP next_slot [of k] by (auto simp: slot_full_def)
  have mine: "k = P" if "k mod CAPACITY = P mod CAPACITY" "writing (pcs q u) = Some k" for k u
    using that wo sP seq_nat_cong [of k P q] unfolding writers_ok_def by metis
  have "shape_ok ?q" using shape unfolding shape_ok_def f by simp
  moreover have "slots_ok ?q"
  proof -
    have "slot_empty q k \<Longrightarrow> slot_empty ?q k" "slot_full q k \<Longrightarrow> slot_full ?q k" for k
      using other [of k] unfolding slot_empty_def slot_full_def f wr seq data by auto
    then show ?thesis using sl unfolding slots_ok_def by meson
  qed
  moreover have "writers_ok ?q"
    unfolding writers_ok_def wr f seq
  proof (intro conjI)
    show "\<forall>u v' pos'. pcs ?q u = Push_write v' pos' \<or> pcs ?q u = Push_publish v' pos' \<longrightarrow> sent q ! unat pos' = v'"
      using wo p unfolding writers_ok_def pc by auto
    show "\<forall>u v' pos'. pcs ?q u = Push_publish v' pos' \<longrightarrow> data_at ?q (unat pos') = v'"
    proof (intro allI impI)
      fix u v' pos'
      assume a: "pcs ?q u = Push_publish v' pos'"
      show "data_at ?q (unat pos') = v'"
      proof (cases "u = t")
        case True
        then show ?thesis unfolding data using a by (simp add: P_def)
      next
        case False
        then have b: "pcs q u = Push_publish v' pos'" using a by simp
        then have w: "writing (pcs q u) = Some (unat pos')" by simp
        have "unat pos' \<noteq> P" using wo w wP False unfolding writers_ok_def by metis
        then have "unat pos' mod CAPACITY \<noteq> P mod CAPACITY" using mine w by blast
        then show ?thesis using b wo unfolding data writers_ok_def by simp
      qed
    qed
  qed (use wo in \<open>unfold writers_ok_def, blast+\<close>)
  moreover have "readers_ok ?q"
    using ro unfolding readers_ok_def wr f seq pc by (auto split: if_splits)
  moreover have "seekers_ok ?q"
    using so unfolding seekers_ok_def f seq pc by (auto split: if_splits)
  moreover have "log_ok ?q" using lo unfolding log_ok_def f wr by blast
  ultimately show ?thesis unfolding queue_inv_def by blast
qed

lemma inv_publish:
  assumes inv: "queue_inv q" and p: "pcs q t = Push_publish v pos" and small: "tail_nat q < 2 ^ 62"
  shows "queue_inv (goto t (Push_done True) (set_slot pos (sl_sequence_update (\<lambda>_. pos + 1)) q))" (is "queue_inv ?q")
proof -
  define P where "P = unat pos"
  have shape: "shape_ok q" and sl: "slots_ok q" and wo: "writers_ok q" and ro: "readers_ok q" and so: "seekers_ok q"
    and lo: "log_ok q" using inv by (simp_all add: queue_inv_def)
  have len: "length (slots q) = CAPACITY" using shape by (simp add: shape_ok_def)
  have wP: "writing (pcs q t) = Some P" using p by (simp add: P_def)
  have sP: "seq_nat q P = P" "P < tail_nat q" using wo wP unfolding writers_ok_def by blast+
  have eP: "slot_empty q P" using sl sP(1) by (rule empty_of_seq)
  have vP: "data_at q P = v" "sent q ! P = v" using wo p unfolding writers_ok_def P_def by blast+
  have P1: "unat (pos + 1) = P + 1" using sP(2) small unat_plus_one [of pos] by (simp add: P_def)
  have f: "head_nat ?q = head_nat q" "tail_nat ?q = tail_nat q" "sent ?q = sent q" "returned ?q = returned q"
    "length (slots ?q) = length (slots q)" by simp_all
  have pc: "pcs ?q u = (if u = t then Push_done True else pcs q u)" for u by simp
  have seq: "seq_nat ?q k = (if k mod CAPACITY = P mod CAPACITY then P + 1 else seq_nat q k)" for k
    using len P1 by (simp add: set_slot_seq P_def)
  have data: "data_at ?q = data_at q"
    using len by (intro ext) (simp add: set_slot_data, simp add: data_at_def slot_index_def)
  have wr: "writing (pcs ?q u) = (if u = t then None else writing (pcs q u))"
    "reading (pcs ?q u) = reading (pcs q u)" for u using p by simp_all
  have ns: "seq_nat q k \<noteq> k + 1" if "k mod CAPACITY = P mod CAPACITY" for k
    using seq_nat_cong [OF that, of q] sP next_slot [of k] that by metis
  have "shape_ok ?q" using shape unfolding shape_ok_def f by simp
  moreover have "slots_ok ?q"
    unfolding slots_ok_def
  proof (intro allI impI)
    fix i
    assume "i < CAPACITY"
    then obtain k where k: "k mod CAPACITY = i" "slot_empty q k \<or> slot_full q k" using sl unfolding slots_ok_def by blast
    show "\<exists>k. k mod CAPACITY = i \<and> (slot_empty ?q k \<or> slot_full ?q k)"
    proof (cases "i = P mod CAPACITY")
      case True
      have "slot_full ?q P"
        using eP shape sP vP unfolding slot_full_def slot_empty_def shape_ok_def f seq data by simp
      then show ?thesis using True by blast
    next
      case False
      then have kP: "k \<noteq> P" "k mod CAPACITY \<noteq> P mod CAPACITY" using k(1) by auto
      have "slot_empty ?q k" if e: "slot_empty q k"
      proof -
        have "\<exists>u. writing (pcs ?q u) = Some k" if kt: "k < tail_nat q"
        proof -
          obtain u where u: "writing (pcs q u) = Some k" using e kt unfolding slot_empty_def by blast
          then have "u \<noteq> t" using wP kP by auto
          then show ?thesis using u wr(1) [of u] by (intro exI [of _ u]) simp
        qed
        then show ?thesis using e kP unfolding slot_empty_def f seq by simp
      qed
      moreover have "slot_full ?q k" if "slot_full q k"
        using that kP unfolding slot_full_def f seq data wr by simp
      ultimately show ?thesis using k by blast
    qed
  qed
  moreover have "writers_ok ?q"
    unfolding writers_ok_def f data
  proof (intro conjI allI impI)
    fix u k
    assume w: "writing (pcs ?q u) = Some k"
    then have u: "u \<noteq> t" "writing (pcs q u) = Some k" unfolding wr by (auto split: if_splits)
    then have k: "k < tail_nat q" "seq_nat q k = k" using wo unfolding writers_ok_def by blast+
    show "k < tail_nat q" by (rule k(1))
    have "k \<noteq> P" using wo u wP unfolding writers_ok_def by metis
    then have "k mod CAPACITY \<noteq> P mod CAPACITY" using seq_nat_cong [of k P q] k sP by auto
    then show "seq_nat ?q k = k" unfolding seq using k by simp
  next
    fix u u' k
    assume "writing (pcs ?q u) = Some k" "writing (pcs ?q u') = Some k"
    then show "u = u'" using wo unfolding wr writers_ok_def by (metis option.simps(3))
  qed (use wo in \<open>auto simp: writers_ok_def pc split: if_splits\<close>)
  moreover have "readers_ok ?q"
    unfolding readers_ok_def f wr
  proof (intro conjI allI impI)
    fix u k
    assume "reading (pcs q u) = Some k"
    then have k: "k < head_nat q" "seq_nat q k = k + 1" using ro unfolding readers_ok_def by blast+
    show "k < head_nat q" by (rule k(1))
    have "k mod CAPACITY \<noteq> P mod CAPACITY" using ns k by blast
    then show "seq_nat ?q k = k + 1" unfolding seq using k by simp
  next
    fix u u' k
    assume "reading (pcs q u) = Some k" "reading (pcs q u') = Some k"
    then show "u = u'" using ro unfolding readers_ok_def by blast
  next
    fix u v' pos'
    assume "pcs ?q u = Pop_release pos' v'"
    then show "v' = sent q ! unat pos'" using ro unfolding readers_ok_def pc by (auto split: if_splits)
  qed
  moreover have "seekers_ok ?q"
  proof -
    have "seq_nat q k \<le> seq_nat ?q k" for k
      unfolding seq using seq_nat_cong [of k P q] sP by auto
    then show ?thesis using so f(1,2) pc by (intro seekers_mono [OF so]) auto
  qed
  moreover have "log_ok ?q" using lo unfolding log_ok_def f wr by blast
  ultimately show ?thesis unfolding queue_inv_def by blast
qed

lemma inv_release:
  assumes inv: "queue_inv q" and p: "pcs q t = Pop_release pos v" and small: "tail_nat q < 2 ^ 62"
  shows "queue_inv (goto t (Pop_done (Some v)) (set_slot pos (sl_sequence_update (\<lambda>_. pos + of_nat CAPACITY))
    (q\<lparr>returned := returned q @ [(unat pos, v)]\<rparr>)))" (is "queue_inv ?q")
proof -
  define P where "P = unat pos"
  have shape: "shape_ok q" and sl: "slots_ok q" and wo: "writers_ok q" and ro: "readers_ok q" and so: "seekers_ok q"
    and lo: "log_ok q" using inv by (simp_all add: queue_inv_def)
  have len: "length (slots q) = CAPACITY" using shape by (simp add: shape_ok_def)
  have rP: "reading (pcs q t) = Some P" using p by (simp add: P_def)
  have sP: "seq_nat q P = P + 1" "P < head_nat q" using ro rP unfolding readers_ok_def by blast+
  have fP: "slot_full q P" using sl sP(1) by (rule full_of_seq)
  have vP: "v = sent q ! P" using ro p unfolding readers_ok_def P_def by blast
  have "P < tail_nat q" using sP(2) shape by (simp add: shape_ok_def)
  then have P1: "unat (pos + of_nat CAPACITY) = P + CAPACITY"
    using small unat_add_small [of pos CAPACITY] by (simp add: P_def CAPACITY_def)
  let ?base = "q\<lparr>returned := returned q @ [(unat pos, v)]\<rparr>"
  have f0: "head_nat ?base = head_nat q" "tail_nat ?base = tail_nat q" "seq_nat ?base = seq_nat q" "data_at ?base = data_at q"
    by (simp_all add: head_nat_def tail_nat_def seq_nat_def [abs_def] data_at_def [abs_def])
  have f: "head_nat ?q = head_nat q" "tail_nat ?q = tail_nat q" "sent ?q = sent q"
    "returned ?q = returned q @ [(P, v)]" "length (slots ?q) = length (slots q)" by (simp_all add: f0 P_def)
  have pc: "pcs ?q u = (if u = t then Pop_done (Some v) else pcs q u)" for u
    by simp
  have seq: "seq_nat ?q k = (if k mod CAPACITY = P mod CAPACITY then P + CAPACITY else seq_nat q k)" for k
    using len P1 by (simp add: set_slot_seq P_def f0)
  have data: "data_at ?q = data_at q"
    using len by (intro ext) (simp add: set_slot_data f0, simp add: data_at_def slot_index_def)
  have wr: "reading (pcs ?q u) = (if u = t then None else reading (pcs q u))"
    "writing (pcs ?q u) = writing (pcs q u)" for u using p by simp_all
  have ns: "seq_nat q k \<noteq> k" if "k mod CAPACITY = P mod CAPACITY" for k
    using seq_nat_cong [OF that, of q] sP next_slot [of P] that by metis
  have "shape_ok ?q" using shape unfolding shape_ok_def f by simp
  moreover have "slots_ok ?q"
    unfolding slots_ok_def
  proof (intro allI impI)
    fix i
    assume "i < CAPACITY"
    then obtain k where k: "k mod CAPACITY = i" "slot_empty q k \<or> slot_full q k" using sl unfolding slots_ok_def by blast
    show "\<exists>k. k mod CAPACITY = i \<and> (slot_empty ?q k \<or> slot_full ?q k)"
    proof (cases "i = P mod CAPACITY")
      case True
      have "slot_empty ?q (P + CAPACITY)"
        using fP shape sP unfolding slot_full_def slot_empty_def shape_ok_def f seq by simp
      moreover have "(P + CAPACITY) mod CAPACITY = i" using True by simp
      ultimately show ?thesis by blast
    next
      case False
      then have kP: "k \<noteq> P" "k mod CAPACITY \<noteq> P mod CAPACITY" using k(1) by auto
      have "slot_full ?q k" if e: "slot_full q k"
      proof -
        have "\<exists>u. reading (pcs ?q u) = Some k" if kt: "k < head_nat q"
        proof -
          obtain u where u: "reading (pcs q u) = Some k" using e kt unfolding slot_full_def by blast
          then have "u \<noteq> t" using rP kP by auto
          then show ?thesis using u wr(1) [of u] by (intro exI [of _ u]) simp
        qed
        then show ?thesis using e kP unfolding slot_full_def f seq data by simp
      qed
      moreover have "slot_empty ?q k" if "slot_empty q k"
        using that kP unfolding slot_empty_def f seq data wr by simp
      ultimately show ?thesis using k by blast
    qed
  qed
  moreover have "writers_ok ?q"
    unfolding writers_ok_def f wr data
  proof (intro conjI allI impI)
    fix u k
    assume "writing (pcs q u) = Some k"
    then have k: "k < tail_nat q" "seq_nat q k = k" using wo unfolding writers_ok_def by blast+
    show "k < tail_nat q" by (rule k(1))
    have "k mod CAPACITY \<noteq> P mod CAPACITY" using ns k by blast
    then show "seq_nat ?q k = k" unfolding seq using k by simp
  next
    fix u u' k
    assume "writing (pcs q u) = Some k" "writing (pcs q u') = Some k"
    then show "u = u'" using wo unfolding writers_ok_def by blast
  qed (use wo in \<open>auto simp: writers_ok_def pc split: if_splits\<close>)
  moreover have "readers_ok ?q"
    unfolding readers_ok_def f
  proof (intro conjI allI impI)
    fix u k
    assume w: "reading (pcs ?q u) = Some k"
    then have u: "u \<noteq> t" "reading (pcs q u) = Some k" unfolding wr by (auto split: if_splits)
    then have k: "k < head_nat q" "seq_nat q k = k + 1" using ro unfolding readers_ok_def by blast+
    show "k < head_nat q" by (rule k(1))
    have "k \<noteq> P" using ro u rP unfolding readers_ok_def by metis
    then have "k mod CAPACITY \<noteq> P mod CAPACITY" using seq_nat_cong [of k P q] k sP by auto
    then show "seq_nat ?q k = k + 1" unfolding seq using k by simp
  next
    fix u u' k
    assume "reading (pcs ?q u) = Some k" "reading (pcs ?q u') = Some k"
    then show "u = u'" using ro unfolding wr readers_ok_def by (metis option.simps(3))
  next
    fix u v' pos'
    assume "pcs ?q u = Pop_release pos' v'"
    then show "v' = sent q ! unat pos'" using ro unfolding readers_ok_def pc by (auto split: if_splits)
  qed
  moreover have "seekers_ok ?q"
  proof -
    have "seq_nat q k \<le> seq_nat ?q k" for k
      unfolding seq using seq_nat_cong [of k P q] sP by (auto simp: CAPACITY_def)
    then show ?thesis using so f(1,2) pc by (intro seekers_mono [OF so]) auto
  qed
  moreover have "log_ok ?q"
    unfolding log_ok_def f
  proof (intro conjI allI impI)
    have new: "P \<notin> fst ` set (returned q)" using lo sP(2) rP unfolding log_ok_def by blast
    then show "distinct (map fst (returned q @ [(P, v)]))" using lo by (simp add: log_ok_def)
    fix k w
    assume "(k, w) \<in> set (returned q @ [(P, v)])"
    then show "k < head_nat q" "w = sent q ! k" using lo sP(2) vP unfolding log_ok_def by auto
  next
    fix k
    assume k: "k < head_nat q"
    show "(k \<in> fst ` set (returned q @ [(P, v)])) \<noteq> (\<exists>u. reading (pcs ?q u) = Some k)"
    proof (cases "k = P")
      case True
      have "u = t" if "reading (pcs q u) = Some P" for u using that ro rP unfolding readers_ok_def by metis
      then show ?thesis unfolding wr True by auto
    next
      case False
      then have "(\<exists>u. reading (pcs ?q u) = Some k) \<longleftrightarrow> (\<exists>u. reading (pcs q u) = Some k)"
        unfolding wr using rP by (metis option.inject option.simps(3))
      then show ?thesis using lo k False unfolding log_ok_def by auto
    qed
  qed
  ultimately show ?thesis unfolding queue_inv_def by blast
qed

lemma seq_small:
  assumes "queue_inv q" "tail_nat q < 2 ^ 62"
  shows "unat (sl_sequence (slots q ! slot_index pos)) < 2 ^ 63"
proof -
  have shape: "shape_ok q" and sl: "slots_ok q" using assms(1) by (simp_all add: queue_inv_def)
  have "seq_nat q (unat pos) < 2 ^ 63"
  proof (rule slot_of [OF sl, of "unat pos"])
    fix p'
    assume p': "p' mod CAPACITY = unat pos mod CAPACITY" "slot_empty q p' \<or> slot_full q p'"
    have "seq_nat q p' < 2 ^ 63"
      using p'(2) shape assms(2) by (auto simp: slot_empty_def slot_full_def shape_ok_def CAPACITY_def)
    then show ?thesis using seq_nat_cong [OF p'(1), of q] by simp
  qed
  then show ?thesis by (simp add: seq_nat_def slot_index_def)
qed

lemma push_diff:
  assumes "queue_inv q" "tail_nat q < 2 ^ 62" "unat pos \<le> tail_nat q"
  obtains d where "seq_diff (sl_sequence (slots q ! slot_index pos)) pos = Some d"
    "d = 0 \<longleftrightarrow> seq_nat q (unat pos) = unat pos" "d < 0 \<longleftrightarrow> seq_nat q (unat pos) < unat pos"
proof
  show "seq_diff (sl_sequence (slots q ! slot_index pos)) pos = Some (int (seq_nat q (unat pos)) - int (unat pos))"
    using seq_diff_eq [OF seq_small [OF assms(1,2)], of pos pos] assms(2,3)
    by (simp add: seq_nat_def slot_index_def)
qed linarith+

lemma pop_diff:
  assumes "queue_inv q" "tail_nat q < 2 ^ 62" "unat pos \<le> tail_nat q"
  obtains d where "seq_diff (sl_sequence (slots q ! slot_index pos)) (pos + 1) = Some d"
    "d = 0 \<longleftrightarrow> seq_nat q (unat pos) = unat pos + 1" "d < 0 \<longleftrightarrow> seq_nat q (unat pos) < unat pos + 1"
proof
  have "unat (pos + 1) = unat pos + 1" using assms(2,3) unat_plus_one [of pos] by simp
  then show "seq_diff (sl_sequence (slots q ! slot_index pos)) (pos + 1) =
      Some (int (seq_nat q (unat pos)) - int (unat pos + 1))"
    using seq_diff_eq [OF seq_small [OF assms(1,2)], of "pos + 1" pos] assms(2,3)
    by (simp add: seq_nat_def slot_index_def)
qed linarith+

definition step_ok :: "mpmc \<Rightarrow> mpmc option \<Rightarrow> bool" where
  "step_ok q r \<longleftrightarrow> (\<exists>q'. r = Some q' \<and> queue_inv q' \<and> tail_nat q' \<le> tail_nat q + 1)"

lemma step_ok_goto: "queue_inv (goto t p q) \<Longrightarrow> step_ok q (Some (goto t p q))"
  by (simp add: step_ok_def)

lemma head_le_tail: "queue_inv q \<Longrightarrow> head_nat q \<le> tail_nat q"
  by (simp add: queue_inv_def shape_ok_def)

lemma push_step_inv:
  assumes inv: "queue_inv q" and small: "tail_nat q < 2 ^ 62" and p: "pushing (pcs q t)"
  shows "step_ok q (queue_push_step t spurious (pcs q t) q)"
proof (cases "pcs q t")
  case (Push_load v)
  then show ?thesis
    by (auto simp: queue_push_step_def tail_nat_def intro!: step_ok_goto inv_goto [OF inv])
next
  case (Push_seq v pos)
  then have le: "unat pos \<le> tail_nat q" using inv unfolding queue_inv_def seekers_ok_def by blast
  obtain d where "seq_diff (sl_sequence (slots q ! slot_index pos)) pos = Some d"
    "d = 0 \<longleftrightarrow> seq_nat q (unat pos) = unat pos" by (rule push_diff [OF inv small le])
  then show ?thesis
    using Push_seq le by (auto simp: queue_push_step_def intro!: step_ok_goto inv_goto [OF inv])
next
  case (Push_cas v pos)
  show ?thesis
  proof (cases "q_tail q = pos \<and> \<not> spurious")
    case True
    have "tail_nat (goto t (Push_write v pos) (q\<lparr>q_tail := pos + 1, sent := sent q @ [v]\<rparr>)) \<le> tail_nat q + 1"
      using unat_plus_one [of pos] True small by (simp add: tail_nat_def)
    then show ?thesis
      using True Push_cas inv_claim_tail [OF inv Push_cas _ small] by (simp add: queue_push_step_def step_ok_def)
  next
    case False
    have "queue_inv (goto t (Push_seq v (q_tail q)) q)"
      by (rule inv_goto [OF inv]) (auto simp: Push_cas tail_nat_def)
    then show ?thesis using False Push_cas by (auto simp: queue_push_step_def intro: step_ok_goto)
  qed
next
  case (Push_write v pos)
  then show ?thesis using inv_write [OF inv Push_write] by (simp add: queue_push_step_def step_ok_def)
next
  case (Push_publish v pos)
  then show ?thesis using inv_publish [OF inv Push_publish small] by (simp add: queue_push_step_def step_ok_def)
qed (use p in simp_all)

lemma pop_step_inv:
  assumes inv: "queue_inv q" and small: "tail_nat q < 2 ^ 62" and p: "\<not> resting (pcs q t)" "\<not> pushing (pcs q t)"
  shows "step_ok q (queue_pop_step t spurious (pcs q t) q)"
proof (cases "pcs q t")
  case Pop_load
  then show ?thesis
    by (auto simp: queue_pop_step_def head_nat_def intro!: step_ok_goto inv_goto [OF inv])
next
  case (Pop_seq pos)
  then have le: "unat pos \<le> head_nat q" using inv unfolding queue_inv_def seekers_ok_def by blast
  then have le': "unat pos \<le> tail_nat q" using head_le_tail [OF inv] by simp
  obtain d where "seq_diff (sl_sequence (slots q ! slot_index pos)) (pos + 1) = Some d"
    "d = 0 \<longleftrightarrow> seq_nat q (unat pos) = unat pos + 1" by (rule pop_diff [OF inv small le'])
  then show ?thesis
    using Pop_seq le by (auto simp: queue_pop_step_def intro!: step_ok_goto inv_goto [OF inv])
next
  case (Pop_cas pos)
  show ?thesis
  proof (cases "q_head q = pos \<and> \<not> spurious")
    case True
    have "tail_nat (goto t (Pop_read pos) (q\<lparr>q_head := pos + 1\<rparr>)) = tail_nat q" by (simp add: tail_nat_def)
    then show ?thesis
      using True Pop_cas inv_claim_head [OF inv Pop_cas _ small] by (simp add: queue_pop_step_def step_ok_def)
  next
    case False
    have "queue_inv (goto t (Pop_seq (q_head q)) q)"
      by (rule inv_goto [OF inv]) (auto simp: Pop_cas head_nat_def)
    then show ?thesis using False Pop_cas by (auto simp: queue_pop_step_def intro: step_ok_goto)
  qed
next
  case (Pop_read pos)
  have r: "reading (pcs q t) = Some (unat pos)" using Pop_read by simp
  have "seq_nat q (unat pos) = unat pos + 1" using inv r unfolding queue_inv_def readers_ok_def by blast
  then have "slot_full q (unat pos)" using inv full_of_seq by (simp add: queue_inv_def)
  then have "sl_data (slots q ! slot_index pos) = sent q ! unat pos"
    by (simp add: slot_full_def data_at_def slot_index_def)
  then have "queue_inv (goto t (Pop_release pos (sl_data (slots q ! slot_index pos))) q)"
    by (intro inv_goto [OF inv]) (auto simp: Pop_read)
  then show ?thesis using Pop_read by (simp add: queue_pop_step_def step_ok_def)
next
  case (Pop_release pos v)
  have "tail_nat (q\<lparr>returned := returned q @ [(unat pos, v)]\<rparr>) = tail_nat q" by (simp add: tail_nat_def)
  then show ?thesis using Pop_release inv_release [OF inv Pop_release small] by (simp add: queue_pop_step_def step_ok_def)
qed (use p in simp_all)

lemma rest_inv: "queue_inv q \<Longrightarrow> resting (pcs q t) \<Longrightarrow> resting p \<or> p = start what \<Longrightarrow> queue_inv (goto t p q)"
  by (rule inv_goto; cases "pcs q t"; cases p; cases what; simp)

lemma queue_step_inv:
  assumes inv: "queue_inv q" and small: "tail_nat q < 2 ^ 62"
  shows "step_ok q (queue_step e q)"
proof -
  obtain t what spurious where e: "e = (t, what, spurious)" by (cases e)
  show ?thesis
    using push_step_inv [OF inv small, of t spurious] pop_step_inv [OF inv small, of t spurious]
      rest_inv [OF inv, of t "start what" what] by (auto simp: e queue_step_def step_ok_goto)
qed

lemma queue_run_inv:
  "queue_inv q \<Longrightarrow> tail_nat q + length es < 2 ^ 62 \<Longrightarrow>
     \<exists>q'. queue_run es q = Some q' \<and> queue_inv q' \<and> tail_nat q' \<le> tail_nat q + length es"
proof (induction es arbitrary: q)
  case (Cons e es)
  have "step_ok q (queue_step e q)" by (rule queue_step_inv) (use Cons.prems in simp_all)
  then obtain q1 where q1: "queue_step e q = Some q1" "queue_inv q1" "tail_nat q1 \<le> tail_nat q + 1"
    unfolding step_ok_def by blast
  have "tail_nat q1 + length es < 2 ^ 62" using q1(3) Cons.prems(2) by simp
  then obtain q2 where "queue_run es q1 = Some q2" "queue_inv q2" "tail_nat q2 \<le> tail_nat q1 + length es"
    using Cons.IH [OF q1(2)] by blast
  then show ?case using q1 by auto
qed simp

lemma init_simps [simp]:
  "head_nat mpmc_initialize = 0" "tail_nat mpmc_initialize = 0" "sent mpmc_initialize = []"
  "returned mpmc_initialize = []" "pcs mpmc_initialize = (\<lambda>_. Idle)" "length (slots mpmc_initialize) = CAPACITY"
  by (simp_all add: mpmc_initialize_def head_nat_def tail_nat_def)

lemma init_inv: "queue_inv mpmc_initialize"
proof -
  have seq: "seq_nat mpmc_initialize i = i" if "i < CAPACITY" for i
  proof -
    have "i < 2 ^ LENGTH(64)" using that by (simp add: CAPACITY_def)
    then have "unat (of_nat i :: u64) = i" by (simp add: unat_of_nat take_bit_nat_eq_self_iff)
    then show ?thesis using that by (simp add: seq_nat_def mpmc_initialize_def)
  qed
  have "slots_ok mpmc_initialize"
    unfolding slots_ok_def using seq by (auto simp: slot_empty_def intro: mod_less)
  then show ?thesis
    by (simp add: queue_inv_def shape_ok_def writers_ok_def readers_ok_def seekers_ok_def log_ok_def)
qed

text \<open>The slot position a thread is reading or writing.\<close>

definition touching :: "qpc \<Rightarrow> nat option" where
  "touching p = (case writing p of Some k \<Rightarrow> Some k | None \<Rightarrow> reading p)"

lemma no_race:
  assumes inv: "queue_inv q" and tu: "t \<noteq> u" "touching (pcs q t) = Some a" "touching (pcs q u) = Some b"
  shows "a mod CAPACITY \<noteq> b mod CAPACITY"
proof
  assume same: "a mod CAPACITY = b mod CAPACITY"
  have wo: "writers_ok q" and ro: "readers_ok q" using inv by (simp_all add: queue_inv_def)
  have s: "seq_nat q a = seq_nat q b" by (rule seq_nat_cong [OF same])
  have t: "writing (pcs q t) = Some a \<and> seq_nat q a = a \<or> reading (pcs q t) = Some a \<and> seq_nat q a = a + 1"
    using tu(2) wo ro unfolding touching_def writers_ok_def readers_ok_def by (auto split: option.splits)
  have u: "writing (pcs q u) = Some b \<and> seq_nat q b = b \<or> reading (pcs q u) = Some b \<and> seq_nat q b = b + 1"
    using tu(3) wo ro unfolding touching_def writers_ok_def readers_ok_def by (auto split: option.splits)
  have "a \<noteq> b + 1" "b \<noteq> a + 1" using same next_slot by metis+
  then have "a = b" using s t u by auto
  then have "writing (pcs q t) = Some a \<and> writing (pcs q u) = Some a \<or> reading (pcs q t) = Some a \<and> reading (pcs q u) = Some a"
    using s t u by auto
  then show False using tu(1) wo ro unfolding writers_ok_def readers_ok_def by blast
qed

lemma all_returned:
  assumes inv: "queue_inv q" and rest: "\<And>t. resting (pcs q t)"
  shows "mset (map snd (returned q)) = mset (take (head_nat q) (sent q))"
proof -
  have lo: "log_ok q" using inv by (simp add: queue_inv_def)
  have le: "head_nat q \<le> length (sent q)" using inv by (simp add: queue_inv_def shape_ok_def)
  have "reading (pcs q t) = None" for t using rest [of t] by (cases "pcs q t") simp_all
  then have "k \<in> fst ` set (returned q) \<longleftrightarrow> k < head_nat q" for k using lo unfolding log_ok_def by force
  then have "set (map fst (returned q)) = set [0..<head_nat q]" by (intro set_eqI) simp
  then have m: "mset (map fst (returned q)) = mset [0..<head_nat q]"
    using lo by (subst set_eq_iff_mset_eq_distinct [symmetric]) (simp_all add: log_ok_def)
  have "map snd (returned q) = map (\<lambda>k. sent q ! k) (map fst (returned q))"
    using lo by (auto simp: log_ok_def)
  then have "mset (map snd (returned q)) = image_mset (\<lambda>k. sent q ! k) (mset (map fst (returned q)))"
    by (simp only: mset_map)
  also have "\<dots> = mset (map (\<lambda>k. sent q ! k) [0..<head_nat q])" unfolding m by simp
  also have "map (\<lambda>k. sent q ! k) [0..<head_nat q] = take (head_nat q) (sent q)"
    using le by (intro nth_equalityI) simp_all
  finally show ?thesis .
qed

lemma queue_reachable_inv:
  "length es < 2 ^ 62 \<Longrightarrow> \<exists>q. queue_run es mpmc_initialize = Some q \<and> queue_inv q \<and> tail_nat q \<le> length es"
  using queue_run_inv [OF init_inv, of es] by simp

subsection \<open>One thread alone\<close>

text \<open>\<open>solo n t\<close> lets a thread finish its operation within \<open>n\<close> steps while the others wait.\<close>

fun solo :: "nat \<Rightarrow> nat \<Rightarrow> mpmc \<Rightarrow> mpmc option" where
  "solo 0 t q = (if resting (pcs q t) then Some q else None)"
| "solo (Suc n) t q =
     (if resting (pcs q t) then Some q else do { q \<leftarrow> queue_step (t, Do_pop, False) q; solo n t q })"

text \<open>\<open>main\<close> of \<^verbatim>\<open>MPMC.c\<close>: the lines it prints.\<close>

datatype mpmc_line = Pushed u64 | Push_failed u64 | Popped u64 | Pop_failed u64

definition mpmc_main :: "mpmc_line list option" where
  "mpmc_main = do {
     q \<leftarrow> solo 5 0 (goto 0 (Push_load 1234) mpmc_initialize);
     let line1 = (if pcs q 0 = Push_done True then Pushed 1234 else Push_failed 1234);
     q \<leftarrow> solo 5 0 (goto 0 Pop_load q);
     let line2 = (case pcs q 0 of Pop_done (Some v) \<Rightarrow> Popped v | _ \<Rightarrow> Pop_failed 0);
     Some [line1, line2]
   }"

lemma mpmc_main_output: "mpmc_main = Some [Pushed 1234, Popped 1234]"
proof -
  have s0: "slots mpmc_initialize ! 0 = \<lparr>sl_data = 0, sl_sequence = 0\<rparr>" by (simp add: mpmc_initialize_def)
  have l: "length (slots mpmc_initialize) = CAPACITY" by simp
  have h: "q_head mpmc_initialize = 0" "q_tail mpmc_initialize = 0" by (simp_all add: mpmc_initialize_def)
  have i: "slot_index 0 = 0" by (simp add: slot_index_def)
  have five: "(5::nat) = Suc (Suc (Suc (Suc (Suc 0))))" by simp
  show ?thesis
    unfolding mpmc_main_def five
    by (simp add: queue_step_def queue_push_step_def queue_pop_step_def goto_def set_slot_def seq_diff_def s0 l h i)
qed

text \<open>Without interference the operations are those of a bounded FIFO queue.\<close>

definition contents :: "mpmc \<Rightarrow> u64 list" where "contents q = drop (head_nat q) (sent q)"

lemma quiet_tail:
  assumes inv: "queue_inv q" and rest: "\<And>t. resting (pcs q t)"
  shows "tail_nat q < head_nat q + CAPACITY \<Longrightarrow> seq_nat q (tail_nat q) = tail_nat q"
    "\<not> tail_nat q < head_nat q + CAPACITY \<Longrightarrow> seq_nat q (tail_nat q) < tail_nat q"
proof -
  have sl: "slots_ok q" and shape: "shape_ok q" using inv by (simp_all add: queue_inv_def)
  have none: "writing (pcs q t) = None" "reading (pcs q t) = None" for t using rest [of t] by (cases "pcs q t"; simp)+
  obtain p where p: "p mod CAPACITY = tail_nat q mod CAPACITY" "slot_empty q p \<or> slot_full q p"
    by (rule slot_of [OF sl])
  have s: "seq_nat q (tail_nat q) = seq_nat q p" using seq_nat_cong [OF p(1)] by simp
  have "slot_empty q p \<and> p = tail_nat q \<and> tail_nat q < head_nat q + CAPACITY \<or>
      slot_full q p \<and> p + CAPACITY = tail_nat q \<and> tail_nat q = head_nat q + CAPACITY"
    using p(2)
  proof
    assume e: "slot_empty q p"
    then have "tail_nat q \<le> p" "p < tail_nat q + CAPACITY" using none shape unfolding slot_empty_def shape_ok_def by auto
    then have "p = tail_nat q" using same_slot_gap [of "tail_nat q" p] p(1) by linarith
    then show ?thesis using e by (simp add: slot_empty_def)
  next
    assume f: "slot_full q p"
    then have "p < tail_nat q" "head_nat q \<le> p" "tail_nat q \<le> p + CAPACITY" using none unfolding slot_full_def by auto
    then show ?thesis using f same_slot_gap [of p "tail_nat q"] p(1) shape unfolding shape_ok_def by linarith
  qed
  then show "tail_nat q < head_nat q + CAPACITY \<Longrightarrow> seq_nat q (tail_nat q) = tail_nat q"
    "\<not> tail_nat q < head_nat q + CAPACITY \<Longrightarrow> seq_nat q (tail_nat q) < tail_nat q"
    unfolding s by (auto simp: slot_empty_def slot_full_def CAPACITY_def)
qed

lemma quiet_head:
  assumes inv: "queue_inv q" and rest: "\<And>t. resting (pcs q t)"
  shows "head_nat q < tail_nat q \<Longrightarrow> slot_full q (head_nat q)"
    "\<not> head_nat q < tail_nat q \<Longrightarrow> seq_nat q (head_nat q) < head_nat q + 1"
proof -
  have sl: "slots_ok q" and shape: "shape_ok q" using inv by (simp_all add: queue_inv_def)
  have none: "writing (pcs q t) = None" "reading (pcs q t) = None" for t using rest [of t] by (cases "pcs q t"; simp)+
  show "slot_full q (head_nat q)" if lt: "head_nat q < tail_nat q"
  proof (rule claim_head [OF sl shape])
    obtain p where p: "p mod CAPACITY = head_nat q mod CAPACITY" "slot_empty q p \<or> slot_full q p"
      by (rule slot_of [OF sl])
    have "seq_nat q p = p + 1 \<and> head_nat q \<le> p \<or> head_nat q < p \<and> seq_nat q p = p"
      using p(2) none lt unfolding slot_empty_def slot_full_def by auto
    then show "head_nat q + 1 \<le> seq_nat q (head_nat q)" using seq_nat_cong [OF p(1), of q] by auto
  qed
  show "seq_nat q (head_nat q) < head_nat q + 1" if ge: "\<not> head_nat q < tail_nat q"
    using quiet_tail(1) [OF inv rest] ge shape by (simp add: shape_ok_def not_less le_antisym)
qed

lemma quiet_push:
  assumes inv: "queue_inv q" and rest: "\<And>t. resting (pcs q t)" and small: "tail_nat q < 2 ^ 62"
  shows "\<exists>q'. solo 5 t (goto t (Push_load v) q) = Some q' \<and>
     (if length (contents q) < CAPACITY then pcs q' t = Push_done True \<and> contents q' = contents q @ [v]
      else pcs q' t = Push_done False \<and> contents q' = contents q)"
proof -
  have shape: "shape_ok q" using inv by (simp add: queue_inv_def)
  have len: "length (contents q) = tail_nat q - head_nat q" "head_nat q \<le> length (sent q)"
    using shape by (simp_all add: contents_def shape_ok_def)
  have T: "unat (q_tail q) = tail_nat q" by (simp add: tail_nat_def)
  obtain d where d: "seq_diff (sl_sequence (slots q ! slot_index (q_tail q))) (q_tail q) = Some d"
    "d = 0 \<longleftrightarrow> seq_nat q (tail_nat q) = tail_nat q" "d < 0 \<longleftrightarrow> seq_nat q (tail_nat q) < tail_nat q"
    using push_diff [OF inv small, of "q_tail q"] T by auto
  have five: "(5::nat) = Suc (Suc (Suc (Suc (Suc 0))))" by simp
  show ?thesis
  proof (cases "tail_nat q < head_nat q + CAPACITY")
    case True
    then have "d = 0" using d(2) quiet_tail(1) [OF inv rest] by simp
    moreover have "length (contents q) < CAPACITY" using True len(1) CAPACITY_pos(1) by linarith
    ultimately have "d = 0" "length (contents q) < CAPACITY" .
    then show ?thesis
      using d(1) len(2) unfolding five
      by (simp add: queue_step_def queue_push_step_def contents_def head_nat_def set_slot_def goto_def)
  next
    case False
    then have "d < 0" "\<not> length (contents q) < CAPACITY" using d(3) quiet_tail(2) [OF inv rest] len(1) by auto
    then show ?thesis
      using d(1) unfolding five
      by (simp add: queue_step_def queue_push_step_def contents_def head_nat_def goto_def)
  qed
qed

lemma quiet_pop:
  assumes inv: "queue_inv q" and rest: "\<And>t. resting (pcs q t)" and small: "tail_nat q < 2 ^ 62"
  shows "\<exists>q'. solo 5 t (goto t Pop_load q) = Some q' \<and>
     (case contents q of
        [] \<Rightarrow> pcs q' t = Pop_done None \<and> contents q' = []
      | x # xs \<Rightarrow> pcs q' t = Pop_done (Some x) \<and> contents q' = xs)"
proof -
  have shape: "shape_ok q" using inv by (simp add: queue_inv_def)
  have H: "unat (q_head q) = head_nat q" by (simp add: head_nat_def)
  obtain d where d: "seq_diff (sl_sequence (slots q ! slot_index (q_head q))) (q_head q + 1) = Some d"
    "d = 0 \<longleftrightarrow> seq_nat q (head_nat q) = head_nat q + 1" "d < 0 \<longleftrightarrow> seq_nat q (head_nat q) < head_nat q + 1"
    using pop_diff [OF inv small, of "q_head q"] H head_le_tail [OF inv] by auto
  have five: "(5::nat) = Suc (Suc (Suc (Suc (Suc 0))))" by simp
  show ?thesis
  proof (cases "head_nat q < tail_nat q")
    case True
    note full = quiet_head(1) [OF inv rest True]
    have d0: "d = 0" using d(2) full by (simp add: slot_full_def)
    have lt: "head_nat q < length (sent q)" using True shape by (simp add: shape_ok_def)
    have data: "sl_data (slots q ! slot_index (q_head q)) = sent q ! head_nat q"
      using full by (simp add: slot_full_def data_at_def slot_index_def H)
    have H1: "unat (q_head q + 1) = head_nat q + 1" using unat_plus_one [of "q_head q"] True small H by simp
    have c: "contents q = sent q ! head_nat q # drop (head_nat q + 1) (sent q)"
      using lt by (simp add: contents_def Cons_nth_drop_Suc)
    show ?thesis
      unfolding c using d(1) d0 data H1 unfolding five
      by (simp add: queue_step_def queue_pop_step_def contents_def head_nat_def set_slot_def goto_def)
  next
    case False
    then have d0: "d < 0" and c: "contents q = []"
      using d(3) quiet_head(2) [OF inv rest] shape by (auto simp: contents_def shape_ok_def)
    show ?thesis
      using d(1) d0 c unfolding five
      by (simp add: queue_step_def queue_pop_step_def contents_def head_nat_def goto_def)
  qed
qed

subsection \<open>The stress test\<close>

definition NUM_THREADS :: nat where "NUM_THREADS = 4"
definition ITEMS_PER_THREAD :: nat where "ITEMS_PER_THREAD = 100000"
definition TOTAL_ITEMS :: nat where "TOTAL_ITEMS = NUM_THREADS * ITEMS_PER_THREAD"

text \<open>The test file has its own copy of the queue, word for word that of \<^verbatim>\<open>MPMC.c\<close>.\<close>

definition test_initialize :: mpmc where
  [simp]: "test_initialize = mpmc_initialize"

definition test_push_step :: "nat \<Rightarrow> bool \<Rightarrow> qpc \<Rightarrow> mpmc \<Rightarrow> mpmc option" where
  [simp]: "test_push_step = queue_push_step"

definition test_pop_step :: "nat \<Rightarrow> bool \<Rightarrow> qpc \<Rightarrow> mpmc \<Rightarrow> mpmc option" where
  [simp]: "test_pop_step = queue_pop_step"

text \<open>
  Threads 0 to 3 are the producers, 4 to 7 the consumers. \<open>pushed t\<close> and \<open>popped t\<close> are their loop
  counters; \<open>got\<close> and \<open>total_consumed_sum\<close> are the shared tallies. A failed assertion is \<open>None\<close>.
\<close>

record stress =
  queue :: mpmc
  pushed :: "nat \<Rightarrow> nat"
  popped :: "nat \<Rightarrow> nat"
  received :: "nat \<Rightarrow> u8"
  total_consumed_sum :: u64

definition stress_value :: "nat \<Rightarrow> nat \<Rightarrow> u64" where
  "stress_value t i = of_nat t * of_nat ITEMS_PER_THREAD + of_nat i + 1"

definition producer_step :: "nat \<Rightarrow> bool \<Rightarrow> stress \<Rightarrow> stress option" where
  "producer_step t spurious s =
     (case pcs (queue s) t of
        Idle \<Rightarrow>
          if pushed s t < ITEMS_PER_THREAD
          then Some (s\<lparr>queue := goto t (Push_load (stress_value t (pushed s t))) (queue s)\<rparr>)
          else Some s
      | Push_done ok \<Rightarrow>
          Some (s\<lparr>queue := goto t Idle (queue s),
                  pushed := (pushed s)(t := if ok then pushed s t + 1 else pushed s t)\<rparr>)
      | p \<Rightarrow> map_option (\<lambda>q. s\<lparr>queue := q\<rparr>) (test_push_step t spurious p (queue s)))"

definition consume :: "u64 \<Rightarrow> nat \<Rightarrow> stress \<Rightarrow> stress option" where
  "consume val t s =
     (if 1 \<le> unat val \<and> unat val \<le> TOTAL_ITEMS \<and> received s (unat val) = 0
      then Some (s\<lparr>queue := goto t Idle (queue s), popped := (popped s)(t := popped s t + 1),
             received := (received s)(unat val := received s (unat val) + 1),
             total_consumed_sum := total_consumed_sum s + val\<rparr>)
      else None)"

definition consumer_step :: "nat \<Rightarrow> bool \<Rightarrow> stress \<Rightarrow> stress option" where
  "consumer_step t spurious s =
     (case pcs (queue s) t of
        Idle \<Rightarrow>
          if popped s t < ITEMS_PER_THREAD then Some (s\<lparr>queue := goto t Pop_load (queue s)\<rparr>) else Some s
      | Pop_done None \<Rightarrow> Some (s\<lparr>queue := goto t Idle (queue s)\<rparr>)
      | Pop_done (Some val) \<Rightarrow> consume val t s
      | p \<Rightarrow> map_option (\<lambda>q. s\<lparr>queue := q\<rparr>) (test_pop_step t spurious p (queue s)))"

definition stress_step :: "nat \<times> bool \<Rightarrow> stress \<Rightarrow> stress option" where
  "stress_step e s =
     (case e of (t, spurious) \<Rightarrow>
        if t < NUM_THREADS then producer_step t spurious s
        else if t < 2 * NUM_THREADS then consumer_step t spurious s
        else Some s)"

fun stress_run :: "(nat \<times> bool) list \<Rightarrow> stress \<Rightarrow> stress option" where
  "stress_run [] s = Some s"
| "stress_run (e # es) s = do { s \<leftarrow> stress_step e s; stress_run es s }"

definition stress_start :: stress where
  "stress_start = \<lparr>queue = test_initialize, pushed = (\<lambda>_. 0), popped = (\<lambda>_. 0), received = (\<lambda>_. 0),
     total_consumed_sum = 0\<rparr>"

text \<open>All threads have returned, and the assertions \<open>main\<close> makes then.\<close>

definition all_joined :: "stress \<Rightarrow> bool" where
  "all_joined s \<longleftrightarrow> (\<forall>t < 2 * NUM_THREADS. pcs (queue s) t = Idle \<and>
     (if t < NUM_THREADS then pushed s t = ITEMS_PER_THREAD else popped s t = ITEMS_PER_THREAD))"

definition main_asserts :: "stress \<Rightarrow> bool" where
  "main_asserts s \<longleftrightarrow> (\<forall>i\<in>{1..TOTAL_ITEMS}. received s i = 1) \<and>
     total_consumed_sum s = sum_list (map of_nat [1..<TOTAL_ITEMS + 1])"

subsection \<open>The invariant of the stress test\<close>

fun has_claim :: "qpc \<Rightarrow> bool" where
  "has_claim (Push_write v pos) = True"
| "has_claim (Push_publish v pos) = True"
| "has_claim (Push_done ok) = ok"
| "has_claim _ = False"

fun push_value :: "qpc \<Rightarrow> u64 option" where
  "push_value (Push_load v) = Some v"
| "push_value (Push_seq v pos) = Some v"
| "push_value (Push_cas v pos) = Some v"
| "push_value _ = None"

fun producing :: "qpc \<Rightarrow> bool" where
  "producing (Push_done ok) = True"
| "producing p = pushing p"

fun consuming :: "qpc \<Rightarrow> bool" where
  "consuming (Pop_done r) = True"
| "consuming p = (\<not> pushing p \<and> \<not> resting p)"

fun pending :: "qpc \<Rightarrow> u64 list" where
  "pending (Pop_done (Some v)) = [v]"
| "pending _ = []"

definition claimed :: "stress \<Rightarrow> nat \<Rightarrow> nat" where
  "claimed s t = pushed s t + (if has_claim (pcs (queue s) t) then 1 else 0)"

definition all_sent :: "stress \<Rightarrow> u64 list" where
  "all_sent s = concat (map (\<lambda>t. map (stress_value t) [0..<claimed s t]) [0, 1, 2, 3])"

definition all_pending :: "stress \<Rightarrow> u64 list" where
  "all_pending s = concat (map (\<lambda>t. pending (pcs (queue s) t)) [4, 5, 6, 7])"

definition all_popped :: "stress \<Rightarrow> nat" where
  "all_popped s = popped s 4 + popped s 5 + popped s 6 + popped s 7"

definition threads_ok :: "stress \<Rightarrow> bool" where
  "threads_ok s \<longleftrightarrow>
     (\<forall>t < 4. pcs (queue s) t = Idle \<or> producing (pcs (queue s) t)) \<and>
     (\<forall>t. 4 \<le> t \<longrightarrow> pcs (queue s) t = Idle \<or> consuming (pcs (queue s) t)) \<and>
     (\<forall>t < 4. pushed s t \<le> ITEMS_PER_THREAD \<and> (producing (pcs (queue s) t) \<longrightarrow> pushed s t < ITEMS_PER_THREAD)) \<and>
     (\<forall>t < 4. \<forall>v. push_value (pcs (queue s) t) = Some v \<longrightarrow> v = stress_value t (pushed s t))"

definition tally_ok :: "stress \<Rightarrow> u64 multiset \<Rightarrow> bool" where
  "tally_ok s D \<longleftrightarrow> mset (map snd (returned (queue s))) = mset (all_pending s) + D \<and>
     (\<forall>n. received s n = (if n \<in> unat ` set_mset D then 1 else 0)) \<and>
     total_consumed_sum s = sum_mset D \<and> size D = all_popped s"

definition stress_inv :: "stress \<Rightarrow> u64 multiset \<Rightarrow> bool" where
  "stress_inv s D \<longleftrightarrow> queue_inv (queue s) \<and> threads_ok s \<and> mset (sent (queue s)) = mset (all_sent s) \<and> tally_ok s D"

lemma unat_stress_value:
  assumes "t < 4" "i < ITEMS_PER_THREAD"
  shows "unat (stress_value t i) = t * ITEMS_PER_THREAD + i + 1"
proof -
  have l: "t * ITEMS_PER_THREAD + i + 1 < 2 ^ LENGTH(64)"
  proof -
    have "t * ITEMS_PER_THREAD \<le> 3 * ITEMS_PER_THREAD" using assms(1) by (intro mult_le_mono) simp_all
    then show ?thesis using assms(2) by (simp add: ITEMS_PER_THREAD_def)
  qed
  have "stress_value t i = of_nat (t * ITEMS_PER_THREAD + i + 1)" by (simp add: stress_value_def)
  then show ?thesis using l by (simp only: unat_of_nat mod_less)
qed

lemma distinct_concat_map:
  assumes "\<And>t. t \<in> set ts \<Longrightarrow> distinct (f t)" "distinct ts"
    "\<And>t u. t \<in> set ts \<Longrightarrow> u \<in> set ts \<Longrightarrow> t \<noteq> u \<Longrightarrow> set (f t) \<inter> set (f u) = {}"
  shows "distinct (concat (map f ts))"
  using assms
proof (induction ts)
  case (Cons t ts)
  have "distinct (concat (map f ts))" using Cons.prems by (intro Cons.IH) auto
  moreover have "set (f t) \<inter> set (f u) = {}" if "u \<in> set ts" for u
    using Cons.prems(2) Cons.prems(3) [of t u] that by auto
  then have "set (f t) \<inter> set (concat (map f ts)) = {}" by auto
  ultimately show ?case using Cons.prems(1) [of t] by simp
qed simp

lemma claimed_le: "threads_ok s \<Longrightarrow> t < 4 \<Longrightarrow> claimed s t \<le> ITEMS_PER_THREAD"
proof -
  assume a: "threads_ok s" "t < 4"
  then have "pushed s t \<le> ITEMS_PER_THREAD" "producing (pcs (queue s) t) \<longrightarrow> pushed s t < ITEMS_PER_THREAD"
    unfolding threads_ok_def by blast+
  moreover have "has_claim p \<Longrightarrow> producing p" for p by (cases p) simp_all
  ultimately show ?thesis by (auto simp: claimed_def)
qed

lemma value_injective:
  assumes "t < 4" "i < ITEMS_PER_THREAD" "u < 4" "j < ITEMS_PER_THREAD" "stress_value t i = stress_value u j"
  shows "t = u \<and> i = j"
proof -
  have e: "t * ITEMS_PER_THREAD + i = u * ITEMS_PER_THREAD + j"
    using assms unat_stress_value by (metis add_right_cancel)
  then have "(t * ITEMS_PER_THREAD + i) div ITEMS_PER_THREAD = (u * ITEMS_PER_THREAD + j) div ITEMS_PER_THREAD" by simp
  then have "t = u" using assms(2,4) by simp
  then show ?thesis using e by simp
qed

lemma all_sent_props:
  assumes "threads_ok s"
  shows "distinct (all_sent s)" "length (all_sent s) \<le> TOTAL_ITEMS"
    "v \<in> set (all_sent s) \<Longrightarrow> 1 \<le> unat v \<and> unat v \<le> TOTAL_ITEMS"
proof -
  note le = claimed_le [OF assms]
  let ?l = "\<lambda>t. map (stress_value t) [0..<claimed s t]"
  have d: "distinct (?l t)" if "t < 4" for t
    using value_injective that le [OF that] by (auto simp: distinct_map inj_on_def)
  have x: "set (?l t) \<inter> set (?l u) = {}" if "t < 4" "u < 4" "t \<noteq> u" for t u
  proof (rule equals0I)
    fix w
    assume "w \<in> set (?l t) \<inter> set (?l u)"
    then obtain i j where "i < claimed s t" "j < claimed s u" "w = stress_value t i" "w = stress_value u j"
      by auto
    then have "t = u" using value_injective [OF that(1) _ that(2), of i j] le [OF that(1)] le [OF that(2)] by simp
    then show False using that(3) by simp
  qed
  show "distinct (all_sent s)"
    unfolding all_sent_def
  proof (rule distinct_concat_map)
    have four: "t < 4" if "t \<in> set [0, 1, 2, 3]" for t :: nat using that by auto
    fix t u :: nat
    assume t: "t \<in> set [0, 1, 2, 3]"
    show "distinct (?l t)" by (rule d [OF four [OF t]])
    assume u: "u \<in> set [0, 1, 2, 3]" and tu: "t \<noteq> u"
    show "set (?l t) \<inter> set (?l u) = {}" by (rule x [OF four [OF t] four [OF u] tu])
  qed simp
  show "length (all_sent s) \<le> TOTAL_ITEMS"
    using le [of 0] le [of 1] le [of 2] le [of 3] by (simp add: all_sent_def TOTAL_ITEMS_def NUM_THREADS_def)
  assume "v \<in> set (all_sent s)"
  then obtain t i where v: "v = stress_value t i" "t \<in> set [0, 1, 2, 3]" "i < claimed s t" by (auto simp: all_sent_def)
  then have t: "t < 4" by auto
  then have i: "i < ITEMS_PER_THREAD" using v(3) le by fastforce
  have "t * ITEMS_PER_THREAD \<le> 3 * ITEMS_PER_THREAD" using t by (intro mult_le_mono) simp_all
  then have "t * ITEMS_PER_THREAD + i + 1 \<le> 4 * ITEMS_PER_THREAD" using i by linarith
  then show "1 \<le> unat v \<and> unat v \<le> TOTAL_ITEMS"
    unfolding v(1) unat_stress_value [OF t i] TOTAL_ITEMS_def NUM_THREADS_def by linarith
qed

lemma stress_small: "stress_inv s D \<Longrightarrow> tail_nat (queue s) < 2 ^ 62"
proof -
  assume a: "stress_inv s D"
  then have "length (sent (queue s)) = length (all_sent s)" unfolding stress_inv_def by (metis size_mset)
  moreover have "length (sent (queue s)) = tail_nat (queue s)"
    using a by (simp add: stress_inv_def queue_inv_def shape_ok_def)
  moreover have "length (all_sent s) \<le> TOTAL_ITEMS" using a all_sent_props(2) by (simp add: stress_inv_def)
  ultimately show ?thesis by (simp add: TOTAL_ITEMS_def NUM_THREADS_def ITEMS_PER_THREAD_def)
qed

text \<open>No value is returned twice.\<close>

lemma returned_distinct:
  assumes inv: "queue_inv q" and d: "distinct (sent q)"
  shows "distinct (map snd (returned q))" "set (map snd (returned q)) \<subseteq> set (sent q)"
proof -
  have lo: "log_ok q" using inv by (simp add: queue_inv_def)
  have le: "head_nat q \<le> length (sent q)" using inv by (simp add: queue_inv_def shape_ok_def)
  have m: "map snd (returned q) = map (\<lambda>k. sent q ! k) (map fst (returned q))" using lo by (auto simp: log_ok_def)
  have b: "k < length (sent q)" if "k \<in> set (map fst (returned q))" for k
    using that lo le unfolding log_ok_def by fastforce
  show "distinct (map snd (returned q))"
    unfolding m distinct_map [of "\<lambda>k. sent q ! k"] using lo b d
    by (auto simp: log_ok_def inj_on_def nth_eq_iff_index_eq)
  show "set (map snd (returned q)) \<subseteq> set (sent q)" 
  proof
    fix v
    assume "v \<in> set (map snd (returned q))"
    then obtain k where "k \<in> set (map fst (returned q))" "v = sent q ! k" unfolding m set_map by blast
    then show "v \<in> set (sent q)" using b nth_mem by blast
  qed
qed

lemma push_effect:
  assumes "queue_push_step t spurious (pcs q t) q = Some q'" "pushing (pcs q t)"
  shows "returned q' = returned q" "\<And>u. u \<noteq> t \<Longrightarrow> pcs q' u = pcs q u" "producing (pcs q' t)"
    "\<And>v. push_value (pcs q' t) = Some v \<Longrightarrow> push_value (pcs q t) = Some v"
    "sent q' = sent q \<and> has_claim (pcs q' t) = has_claim (pcs q t) \<or>
     (\<exists>v. sent q' = sent q @ [v] \<and> push_value (pcs q t) = Some v \<and> \<not> has_claim (pcs q t) \<and> has_claim (pcs q' t))"
  using assms
  by (cases "pcs q t"; auto simp: queue_push_step_def bind_eq_Some_conv split: if_splits)+

lemma pop_effect:
  assumes "queue_pop_step t spurious (pcs q t) q = Some q'" "\<not> pushing (pcs q t)" "\<not> resting (pcs q t)"
  shows "sent q' = sent q" "\<And>u. u \<noteq> t \<Longrightarrow> pcs q' u = pcs q u" "consuming (pcs q' t)"
    "returned q' = returned q \<and> pending (pcs q' t) = [] \<or>
     (\<exists>k v. returned q' = returned q @ [(k, v)] \<and> pending (pcs q' t) = [v])"
  using assms
  by (cases "pcs q t"; auto simp: queue_pop_step_def bind_eq_Some_conv split: if_splits)+

lemma all_sent_grow:
  assumes "t < 4" "claimed s' t = claimed s t + 1" "\<And>u. u \<noteq> t \<Longrightarrow> claimed s' u = claimed s u"
  shows "mset (all_sent s') = add_mset (stress_value t (claimed s t)) (mset (all_sent s))"
proof -
  have "t = 0 \<or> t = 1 \<or> t = 2 \<or> t = 3" using assms(1) by auto
  then show ?thesis
    using assms(2) assms(3) [of 0] assms(3) [of 1] assms(3) [of 2] assms(3) [of 3]
    unfolding all_sent_def by (elim disjE) simp_all
qed

lemma all_sent_same: "(\<And>u. claimed s' u = claimed s u) \<Longrightarrow> all_sent s' = all_sent s"
  by (simp add: all_sent_def)

lemma all_pending_change:
  assumes "4 \<le> t" "t < 8" "\<And>u. u \<noteq> t \<Longrightarrow> pcs (queue s') u = pcs (queue s) u"
  shows "mset (all_pending s') + mset (pending (pcs (queue s) t)) = mset (all_pending s) + mset (pending (pcs (queue s') t))"
proof -
  have "t = 4 \<or> t = 5 \<or> t = 6 \<or> t = 7" using assms(1,2) by auto
  then show ?thesis
    using assms(3) [of 4] assms(3) [of 5] assms(3) [of 6] assms(3) [of 7]
    unfolding all_pending_def by (elim disjE) simp_all
qed

lemma all_pending_same: "(\<And>u. 4 \<le> u \<Longrightarrow> pending (pcs (queue s') u) = pending (pcs (queue s) u)) \<Longrightarrow> all_pending s' = all_pending s"
  by (simp add: all_pending_def)

lemma tally_cong:
  assumes "tally_ok s D" "returned (queue s') = returned (queue s)" "all_pending s' = all_pending s"
    "received s' = received s" "total_consumed_sum s' = total_consumed_sum s" "popped s' = popped s"
  shows "tally_ok s' D"
  using assms by (simp add: tally_ok_def all_popped_def)

lemma threads_ok_update:
  assumes ok: "threads_ok s" and same: "\<And>u. u \<noteq> t \<Longrightarrow> pcs (queue s') u = pcs (queue s) u \<and> pushed s' u = pushed s u"
    and p: "t < 4 \<Longrightarrow> (pcs (queue s') t = Idle \<or> producing (pcs (queue s') t)) \<and> pushed s' t \<le> ITEMS_PER_THREAD \<and>
        (producing (pcs (queue s') t) \<longrightarrow> pushed s' t < ITEMS_PER_THREAD) \<and>
        (\<forall>v. push_value (pcs (queue s') t) = Some v \<longrightarrow> v = stress_value t (pushed s' t))"
    and c: "4 \<le> t \<Longrightarrow> pcs (queue s') t = Idle \<or> consuming (pcs (queue s') t)"
  shows "threads_ok s'"
proof -
  have "(pcs (queue s') u = Idle \<or> producing (pcs (queue s') u)) \<and> pushed s' u \<le> ITEMS_PER_THREAD \<and>
        (producing (pcs (queue s') u) \<longrightarrow> pushed s' u < ITEMS_PER_THREAD) \<and>
        (\<forall>v. push_value (pcs (queue s') u) = Some v \<longrightarrow> v = stress_value u (pushed s' u))" if "u < 4" for u
    using p ok same [of u] that unfolding threads_ok_def by (cases "u = t") auto
  moreover have "pcs (queue s') u = Idle \<or> consuming (pcs (queue s') u)" if "4 \<le> u" for u
    using c ok same [of u] that unfolding threads_ok_def by (cases "u = t") auto
  ultimately show ?thesis unfolding threads_ok_def by blast
qed

lemma test_producer_inv:
  assumes inv: "stress_inv s D" and t: "t < 4"
  shows "\<exists>s'. producer_step t spurious s = Some s' \<and> stress_inv s' D"
proof -
  let ?q = "queue s"
  have qi: "queue_inv ?q" and th: "threads_ok s" and se: "mset (sent ?q) = mset (all_sent s)" and ta: "tally_ok s D"
    using inv by (simp_all add: stress_inv_def)
  have here: "pcs ?q t = Idle \<or> producing (pcs ?q t)" "pushed s t \<le> ITEMS_PER_THREAD"
      "producing (pcs ?q t) \<Longrightarrow> pushed s t < ITEMS_PER_THREAD"
      "\<And>v. push_value (pcs ?q t) = Some v \<Longrightarrow> v = stress_value t (pushed s t)"
    using th t unfolding threads_ok_def by blast+
  consider (idle) "pcs ?q t = Idle" | (fin) ok where "pcs ?q t = Push_done ok" | (push) "pushing (pcs ?q t)"
    using here(1) by (cases "pcs ?q t") auto
  then show ?thesis
  proof cases
    case idle
    show ?thesis
    proof (cases "pushed s t < ITEMS_PER_THREAD")
      case True
      let ?s = "s\<lparr>queue := goto t (Push_load (stress_value t (pushed s t))) ?q\<rparr>"
      have "queue_inv (queue ?s)" using rest_inv [OF qi, of t "Push_load _" "Do_push _"] idle by simp
      moreover have "threads_ok ?s" by (rule threads_ok_update [OF th, of t]) (use True t in auto)
      moreover have "all_sent ?s = all_sent s" by (rule all_sent_same) (simp add: claimed_def idle)
      moreover have "tally_ok ?s D" by (rule tally_cong [OF ta]) (use t in \<open>auto intro: all_pending_same\<close>)
      ultimately have "stress_inv ?s D" using se by (simp add: stress_inv_def)
      then show ?thesis using idle True by (simp add: producer_step_def)
    next
      case False
      then show ?thesis using idle inv by (simp add: producer_step_def)
    qed
  next
    case (fin ok)
    let ?s = "s\<lparr>queue := goto t Idle ?q, pushed := (pushed s)(t := if ok then pushed s t + 1 else pushed s t)\<rparr>"
    have "queue_inv (queue ?s)" using rest_inv [OF qi, of t Idle] fin by simp
    moreover have "threads_ok ?s" by (rule threads_ok_update [OF th, of t]) (use here fin t in auto)
    moreover have "all_sent ?s = all_sent s" by (rule all_sent_same) (simp add: claimed_def fin)
    moreover have "tally_ok ?s D" by (rule tally_cong [OF ta]) (use t in \<open>auto intro: all_pending_same\<close>)
    ultimately have "stress_inv ?s D" using se by (simp add: stress_inv_def)
    then show ?thesis using fin by (simp add: producer_step_def)
  next
    case push
    have "step_ok ?q (queue_push_step t spurious (pcs ?q t) ?q)"
      by (rule push_step_inv [OF qi stress_small [OF inv] push])
    then obtain q' where q': "queue_push_step t spurious (pcs ?q t) ?q = Some q'" "queue_inv q'"
      unfolding step_ok_def by blast
    note ef = push_effect [OF q'(1) push]
    let ?s = "s\<lparr>queue := q'\<rparr>"
    have step: "producer_step t spurious s = Some ?s"
      using push q'(1) by (cases "pcs ?q t") (simp_all add: producer_step_def)
    have lt: "pushed s t < ITEMS_PER_THREAD" using here(3) push by (cases "pcs ?q t") simp_all
    have "threads_ok ?s"
      by (rule threads_ok_update [OF th, of t]) (use ef(2-4) here(4) lt t in auto)
    moreover have "tally_ok ?s D"
      by (rule tally_cong [OF ta]) (use ef(1,2) t in \<open>auto intro: all_pending_same\<close>)
    moreover have "mset (sent q') = mset (all_sent ?s)"
      using ef(5)
    proof
      assume a: "sent q' = sent ?q \<and> has_claim (pcs q' t) = has_claim (pcs ?q t)"
      have "claimed ?s u = claimed s u" for u using a ef(2) [of u] by (cases "u = t") (simp_all add: claimed_def)
      then show ?thesis using a se all_sent_same [of ?s s] by simp
    next
      assume "\<exists>v. sent q' = sent ?q @ [v] \<and> push_value (pcs ?q t) = Some v \<and> \<not> has_claim (pcs ?q t) \<and> has_claim (pcs q' t)"
      then obtain v where v: "sent q' = sent ?q @ [v]" "push_value (pcs ?q t) = Some v" "\<not> has_claim (pcs ?q t)"
        "has_claim (pcs q' t)" by blast
      have "claimed ?s t = claimed s t + 1" using v(3,4) by (simp add: claimed_def)
      moreover have "claimed ?s u = claimed s u" if "u \<noteq> t" for u using ef(2) [OF that] by (simp add: claimed_def)
      ultimately have "mset (all_sent ?s) = add_mset (stress_value t (claimed s t)) (mset (all_sent s))"
        by (rule all_sent_grow [OF t])
      moreover have "v = stress_value t (claimed s t)" using here(4) [OF v(2)] v(3) by (simp add: claimed_def)
      ultimately show ?thesis using v(1) se by simp
    qed
    ultimately have "stress_inv ?s D" using q'(2) by (simp add: stress_inv_def)
    then show ?thesis using step by blast
  qed
qed

lemma all_popped_grow:
  "4 \<le> t \<Longrightarrow> t < 8 \<Longrightarrow> popped s' = (popped s)(t := popped s t + 1) \<Longrightarrow> all_popped s' = all_popped s + 1"
proof -
  assume "4 \<le> t" "t < 8" and p: "popped s' = (popped s)(t := popped s t + 1)"
  then have "t = 4 \<or> t = 5 \<or> t = 6 \<or> t = 7" by auto
  then show ?thesis unfolding all_popped_def p by (elim disjE) simp_all
qed

lemma consume_inv:
  assumes inv: "stress_inv s D" and t: "4 \<le> t" "t < 8" and p: "pcs (queue s) t = Pop_done (Some v)"
  shows "\<exists>s'. consume v t s = Some s' \<and> stress_inv s' (add_mset v D)"
proof -
  let ?q = "queue s"
  have qi: "queue_inv ?q" and th: "threads_ok s" and se: "mset (sent ?q) = mset (all_sent s)" and ta: "tally_ok s D"
    using inv by (simp_all add: stress_inv_def)
  let ?s = "s\<lparr>queue := goto t Idle ?q, popped := (popped s)(t := popped s t + 1),
     received := (received s)(unat v := received s (unat v) + 1), total_consumed_sum := total_consumed_sum s + v\<rparr>"
  have ds: "distinct (sent ?q)" using all_sent_props(1) [OF th] se mset_eq_imp_distinct_iff by metis
  note dr = returned_distinct [OF qi ds]
  have pe: "mset (all_pending s) = add_mset v (mset (all_pending ?s))"
    using all_pending_change [OF t, of ?s s] p by simp
  have re: "mset (map snd (returned ?q)) = add_mset v (mset (all_pending ?s) + D)"
    using ta pe by (simp add: tally_ok_def)
  have "v \<in> set (map snd (returned ?q))" using re by (metis set_mset_mset union_single_eq_member)
  moreover have "set (sent ?q) = set (all_sent s)" using se by (rule mset_eq_setD)
  ultimately have "v \<in> set (all_sent s)" using dr(2) by blast
  then have range: "1 \<le> unat v" "unat v \<le> TOTAL_ITEMS" using all_sent_props(3) [OF th] by blast+
  have vD: "v \<notin># D"
  proof
    assume "v \<in># D"
    then have "count D v \<noteq> 0" by simp
    moreover have "count (mset (map snd (returned ?q))) v = 1 + count (mset (all_pending ?s)) v + count D v"
      unfolding re by simp
    moreover have "count (mset (map snd (returned ?q))) v \<le> 1"
      using dr(1) unfolding distinct_count_atmost_1 by simp
    ultimately show False by linarith
  qed
  have vr: "unat v \<notin> unat ` set_mset D"
  proof
    assume "unat v \<in> unat ` set_mset D"
    then obtain x where "x \<in># D" "unat v = unat x" by blast
    then have "x = v" by (simp only: word_unat_eq_iff)
    then show False using vD \<open>x \<in># D\<close> by simp
  qed
  have "received s (unat v) = 0" using ta vr by (simp add: tally_ok_def)
  then have step: "consume v t s = Some ?s" using range by (simp add: consume_def)
  have "queue_inv (queue ?s)" using rest_inv [OF qi, of t Idle] p by simp
  moreover have "threads_ok ?s" by (rule threads_ok_update [OF th, of t]) (use t in auto)
  moreover have "all_sent ?s = all_sent s" by (rule all_sent_same) (simp add: claimed_def p)
  moreover have "tally_ok ?s (add_mset v D)"
    unfolding tally_ok_def
  proof (intro conjI allI)
    show "mset (map snd (returned (queue ?s))) = mset (all_pending ?s) + add_mset v D" using re by simp
    show "received ?s n = (if n \<in> unat ` set_mset (add_mset v D) then 1 else 0)" for n
      using ta vr by (auto simp: tally_ok_def)
    show "total_consumed_sum ?s = sum_mset (add_mset v D)" using ta by (simp add: tally_ok_def)
    show "size (add_mset v D) = all_popped ?s" using ta all_popped_grow [OF t, of ?s s] by (simp add: tally_ok_def)
  qed
  ultimately have "stress_inv ?s (add_mset v D)" using se by (simp add: stress_inv_def)
  then show ?thesis using step by blast
qed

lemma test_consumer_inv:
  assumes inv: "stress_inv s D" and t: "4 \<le> t" "t < 8"
  shows "\<exists>s' D'. consumer_step t spurious s = Some s' \<and> stress_inv s' D'"
proof -
  let ?q = "queue s"
  have qi: "queue_inv ?q" and th: "threads_ok s" and se: "mset (sent ?q) = mset (all_sent s)" and ta: "tally_ok s D"
    using inv by (simp_all add: stress_inv_def)
  have here: "pcs ?q t = Idle \<or> consuming (pcs ?q t)" using th t unfolding threads_ok_def by blast
  consider (idle) "pcs ?q t = Idle" | (none) "pcs ?q t = Pop_done None" | (some) v where "pcs ?q t = Pop_done (Some v)"
    | (pop) "\<not> pushing (pcs ?q t)" "\<not> resting (pcs ?q t)"
    using here by (cases "pcs ?q t") auto
  then show ?thesis
  proof cases
    case idle
    let ?s = "s\<lparr>queue := goto t Pop_load ?q\<rparr>"
    have "queue_inv (queue ?s)" using rest_inv [OF qi, of t Pop_load Do_pop] idle by simp
    moreover have "threads_ok ?s" by (rule threads_ok_update [OF th, of t]) (use t in auto)
    moreover have "all_sent ?s = all_sent s" by (rule all_sent_same) (simp add: claimed_def idle)
    moreover have "tally_ok ?s D" by (rule tally_cong [OF ta]) (auto intro: all_pending_same simp: idle)
    ultimately have "stress_inv ?s D" using se by (simp add: stress_inv_def)
    then show ?thesis using idle inv by (auto simp: consumer_step_def)
  next
    case none
    let ?s = "s\<lparr>queue := goto t Idle ?q\<rparr>"
    have "queue_inv (queue ?s)" using rest_inv [OF qi, of t Idle] none by simp
    moreover have "threads_ok ?s" by (rule threads_ok_update [OF th, of t]) (use t in auto)
    moreover have "all_sent ?s = all_sent s" by (rule all_sent_same) (simp add: claimed_def none)
    moreover have "tally_ok ?s D" by (rule tally_cong [OF ta]) (auto intro: all_pending_same simp: none)
    ultimately have "stress_inv ?s D" using se by (simp add: stress_inv_def)
    then show ?thesis using none by (auto simp: consumer_step_def)
  next
    case (some v)
    then show ?thesis using consume_inv [OF inv t some] by (auto simp: consumer_step_def)
  next
    case pop
    have "step_ok ?q (queue_pop_step t spurious (pcs ?q t) ?q)"
      by (rule pop_step_inv [OF qi stress_small [OF inv] pop(2,1)])
    then obtain q' where q': "queue_pop_step t spurious (pcs ?q t) ?q = Some q'" "queue_inv q'"
      unfolding step_ok_def by blast
    note ef = pop_effect [OF q'(1) pop]
    let ?s = "s\<lparr>queue := q'\<rparr>"
    have step: "consumer_step t spurious s = Some ?s"
      using pop q'(1) by (cases "pcs ?q t") (simp_all add: consumer_step_def)
    have "threads_ok ?s" by (rule threads_ok_update [OF th, of t]) (use ef(2,3) t in auto)
    moreover have "all_sent ?s = all_sent s"
    proof (rule all_sent_same)
      fix u
      have "has_claim (pcs q' t) = has_claim (pcs ?q t)" using ef(3) pop by (cases "pcs q' t"; cases "pcs ?q t") auto
      then show "claimed ?s u = claimed s u" using ef(2) [of u] by (cases "u = t") (simp_all add: claimed_def)
    qed
    moreover have "tally_ok ?s D"
    proof -
      have old: "pending (pcs ?q t) = []" using pop(2) by (cases "pcs ?q t") simp_all
      have "mset (all_pending ?s) = mset (all_pending s) + mset (pending (pcs q' t))"
        using all_pending_change [OF t, of ?s s] ef(2) old by simp
      then have "mset (map snd (returned q')) = mset (all_pending ?s) + D"
        using ef(4) ta by (auto simp: tally_ok_def)
      then show ?thesis using ta by (simp add: tally_ok_def all_popped_def)
    qed
    ultimately have "stress_inv ?s D" using se ef(1) q'(2) by (simp add: stress_inv_def)
    then show ?thesis using step by blast
  qed
qed

lemma stress_run_inv: "stress_inv s D \<Longrightarrow> \<exists>s' D'. stress_run es s = Some s' \<and> stress_inv s' D'"
proof (induction es arbitrary: s D)
  case (Cons e es)
  obtain t spurious where e: "e = (t, spurious)" by (cases e)
  have "\<exists>s' D'. stress_step e s = Some s' \<and> stress_inv s' D'"
    using test_producer_inv [OF Cons.prems, of t spurious] test_consumer_inv [OF Cons.prems, of t spurious] Cons.prems
    by (auto simp: e stress_step_def NUM_THREADS_def)
  then show ?case using Cons.IH by fastforce
qed auto

lemma stress_start_inv: "stress_inv stress_start {#}"
  by (simp add: stress_inv_def stress_start_def init_inv threads_ok_def all_sent_def claimed_def tally_ok_def
    all_pending_def all_popped_def)

lemma sum_distinct_mset:
  assumes "\<And>v. v \<in># D \<Longrightarrow> count D v = 1"
  shows "sum f (set_mset D) = (\<Sum>v\<in>#D. f v)" "card (set_mset D) = size D"
proof -
  have D: "mset_set (set_mset D) = D"
  proof (rule multiset_eqI)
    fix v
    show "count (mset_set (set_mset D)) v = count D v"
      using assms [of v] by (cases "v \<in># D") (simp_all add: not_in_iff)
  qed
  show "sum f (set_mset D) = (\<Sum>v\<in>#D. f v)" unfolding sum_unfold_sum_mset D ..
  show "card (set_mset D) = size D" using size_mset_set [of "set_mset D"] by (simp only: D)
qed

text \<open>The values a consumer has accounted for: none twice, all in range.\<close>

lemma processed_props:
  assumes inv: "stress_inv s D"
  shows "\<And>v. v \<in># D \<Longrightarrow> count D v = 1" "\<And>v. v \<in># D \<Longrightarrow> 1 \<le> unat v \<and> unat v \<le> TOTAL_ITEMS"
proof -
  let ?q = "queue s"
  have qi: "queue_inv ?q" and th: "threads_ok s" and se: "mset (sent ?q) = mset (all_sent s)" and ta: "tally_ok s D"
    using inv by (simp_all add: stress_inv_def)
  have ds: "distinct (sent ?q)" using all_sent_props(1) [OF th] se mset_eq_imp_distinct_iff by metis
  note dr = returned_distinct [OF qi ds]
  fix v
  assume v: "v \<in># D"
  have re: "mset (map snd (returned ?q)) = mset (all_pending s) + D" using ta by (simp add: tally_ok_def)
  then have "count (mset (map snd (returned ?q))) v = count (mset (all_pending s)) v + count D v" by simp
  moreover have "count (mset (map snd (returned ?q))) v \<le> 1" using dr(1) unfolding distinct_count_atmost_1 by simp
  moreover have "count D v \<noteq> 0" using v by simp
  ultimately show "count D v = 1" by linarith
  have "v \<in># mset (map snd (returned ?q))" using re v by simp
  then have "v \<in> set (sent ?q)" using dr(2) by auto
  moreover have "set (sent ?q) = set (all_sent s)" using se by (rule mset_eq_setD)
  ultimately show "1 \<le> unat v \<and> unat v \<le> TOTAL_ITEMS" using all_sent_props(3) [OF th] by blast
qed

lemma all_values:
  "concat (map (\<lambda>t. map (stress_value t) [0..<ITEMS_PER_THREAD]) [0, 1, 2, 3]) = map of_nat [1..<TOTAL_ITEMS + 1]"
proof -
  let ?I = ITEMS_PER_THREAD
  have row: "map (stress_value t) [0..<?I] = map of_nat [t * ?I + 1..<(t + 1) * ?I + 1]" for t
    by (intro nth_equalityI) (simp_all add: stress_value_def del: upt_Suc)
  have join: "a \<le> b \<Longrightarrow> b \<le> c \<Longrightarrow> map of_nat [a..<b] @ map of_nat [b..<c] = (map of_nat [a..<c] :: u64 list)" for a b c
    using upt_add_eq_append [of a b "c - b"] by simp
  have r: "map (stress_value 0) [0..<?I] = map of_nat [1..<?I + 1]"
    "map (stress_value 1) [0..<?I] = map of_nat [?I + 1..<2 * ?I + 1]"
    "map (stress_value 2) [0..<?I] = map of_nat [2 * ?I + 1..<3 * ?I + 1]"
    "map (stress_value 3) [0..<?I] = map of_nat [3 * ?I + 1..<4 * ?I + 1]"
    using row [of 0] row [of 1] row [of 2] row [of 3] by (simp_all del: upt_Suc map_append add: mult_2)
  have "concat (map (\<lambda>t. map (stress_value t) [0..<?I]) [0, 1, 2, 3]) =
      map of_nat [1..<?I + 1] @ map of_nat [?I + 1..<2 * ?I + 1] @
      map of_nat [2 * ?I + 1..<3 * ?I + 1] @ map of_nat [3 * ?I + 1..<4 * ?I + 1]"
    by (simp only: list.map concat.simps r append_Nil2)
  also have "\<dots> = map of_nat [1..<4 * ?I + 1]"
    by (subst join, simp, simp)+ (rule refl)
  finally show ?thesis by (simp only: TOTAL_ITEMS_def NUM_THREADS_def)
qed

lemma joined_asserts:
  assumes inv: "stress_inv s D" and fin: "all_joined s"
  shows "main_asserts s"
proof -
  let ?q = "queue s"
  have qi: "queue_inv ?q" and th: "threads_ok s" and se: "mset (sent ?q) = mset (all_sent s)" and ta: "tally_ok s D"
    using inv by (simp_all add: stress_inv_def)
  have idle: "pcs ?q t = Idle" if "t < 8" for t using fin that unfolding all_joined_def NUM_THREADS_def by simp
  have push: "pushed s t = ITEMS_PER_THREAD" if "t < 4" for t
    using fin that unfolding all_joined_def NUM_THREADS_def by simp
  have pop: "popped s t = ITEMS_PER_THREAD" if "4 \<le> t" "t < 8" for t
    using fin that unfolding all_joined_def NUM_THREADS_def by simp
  have all: "all_sent s = map of_nat [1..<TOTAL_ITEMS + 1]"
    unfolding all_values [symmetric] all_sent_def by (simp add: claimed_def push idle)
  have "size D = TOTAL_ITEMS"
    using ta pop [of 4] pop [of 5] pop [of 6] pop [of 7] by (simp add: tally_ok_def all_popped_def TOTAL_ITEMS_def NUM_THREADS_def)
  moreover have D: "D = mset (map snd (returned ?q))" using ta by (simp add: tally_ok_def all_pending_def idle)
  moreover have ds: "distinct (sent ?q)" using all_sent_props(1) [OF th] se mset_eq_imp_distinct_iff by metis
  note dr = returned_distinct [OF qi ds]
  have "mset (map snd (returned ?q)) \<subseteq># mset (sent ?q)"
  proof (rule mset_subset_eqI)
    fix v
    have "count (mset (map snd (returned ?q))) v = (if v \<in> set (map snd (returned ?q)) then 1 else 0)"
      using dr(1) unfolding distinct_count_atmost_1 by blast
    moreover have "count (mset (sent ?q)) v = (if v \<in> set (sent ?q) then 1 else 0)"
      using ds unfolding distinct_count_atmost_1 by blast
    ultimately show "count (mset (map snd (returned ?q))) v \<le> count (mset (sent ?q)) v" using dr(2) by auto
  qed
  moreover have "size (mset (sent ?q)) = TOTAL_ITEMS" unfolding se all by simp
  ultimately have DS: "D = mset (map of_nat [1..<TOTAL_ITEMS + 1])"
    using se all by (metis mset_subset_size order_less_irrefl subset_mset.le_imp_less_or_eq)
  have "received s i = 1" if i: "i \<in> {1..TOTAL_ITEMS}" for i
  proof -
    have "i < 2 ^ LENGTH(64)" using i by (simp add: TOTAL_ITEMS_def NUM_THREADS_def ITEMS_PER_THREAD_def)
    then have "unat (of_nat i :: u64) = i" by (simp only: unat_of_nat mod_less)
    moreover have "(of_nat i :: u64) \<in># D" unfolding DS using i by (simp add: less_Suc_eq_le del: upt_Suc)
    ultimately have "i \<in> unat ` set_mset D" by (metis imageI)
    then show ?thesis using ta by (simp add: tally_ok_def)
  qed
  moreover have "total_consumed_sum s = sum_list (map of_nat [1..<TOTAL_ITEMS + 1])"
    using ta unfolding tally_ok_def DS by (simp only: sum_mset_sum_list)
  ultimately show ?thesis unfolding main_asserts_def by blast
qed

subsection \<open>Properties\<close>

text \<open>C2: In every interleaving of any number of threads, spurious failures included, of fewer than \<open>2 ^ 62\<close>
  steps, the queue has no undefined behaviour and no two threads ever touch the same slot at once; at most
  \<open>CAPACITY\<close> values are in flight; \<open>queue_pop\<close> returns for each position at most once exactly the value pushed
  there, and when all operations have returned, the values popped are the values pushed first.\<close>

theorem mpmc_linearizable:
  assumes "length es < 2 ^ 62"
  shows "\<exists>q. queue_run es mpmc_initialize = Some q \<and>
     head_nat q \<le> tail_nat q \<and> tail_nat q \<le> head_nat q + CAPACITY \<and> length (sent q) = tail_nat q \<and>
     distinct (map fst (returned q)) \<and>
     (\<forall>p v. (p, v) \<in> set (returned q) \<longrightarrow> p < head_nat q \<and> v = sent q ! p) \<and>
     (\<forall>t u a b. t \<noteq> u \<longrightarrow> touching (pcs q t) = Some a \<longrightarrow> touching (pcs q u) = Some b \<longrightarrow>
        a mod CAPACITY \<noteq> b mod CAPACITY) \<and>
     ((\<forall>t. resting (pcs q t)) \<longrightarrow> mset (map snd (returned q)) = mset (take (head_nat q) (sent q)))"
proof -
  obtain q where q: "queue_run es mpmc_initialize = Some q" "queue_inv q" using queue_reachable_inv [OF assms] by blast
  have shape: "head_nat q \<le> tail_nat q \<and> tail_nat q \<le> head_nat q + CAPACITY \<and> length (sent q) = tail_nat q"
    using q(2) by (simp add: queue_inv_def shape_ok_def)
  have log: "distinct (map fst (returned q)) \<and>
      (\<forall>p v. (p, v) \<in> set (returned q) \<longrightarrow> p < head_nat q \<and> v = sent q ! p)"
    using q(2) by (simp add: queue_inv_def log_ok_def)
  show ?thesis using q(1) shape log no_race [OF q(2)] all_returned [OF q(2)] by blast
qed

theorem mpmc_linearizable_witness:
  "\<exists>q. queue_run [(0, Do_push 7, False), (1, Do_pop, True)] mpmc_initialize = Some q \<and> tail_nat q \<le> head_nat q + CAPACITY"
  using mpmc_linearizable [of "[(0, Do_push 7, False), (1, Do_pop, True)]"] by auto

text \<open>An operation refuses only for a reason: when \<open>queue_push\<close> decides to return false the queue is full,
  or the pop that claimed the slot has not handed it back yet; when \<open>queue_pop\<close> decides to return false the
  queue is empty, or the push that claimed the next slot has not published its value yet.\<close>

theorem mpmc_refusals:
  assumes "length es < 2 ^ 62" "queue_run es mpmc_initialize = Some q"
  shows "(\<forall>v pos q'. pcs q t = Push_seq v pos \<longrightarrow> queue_push_step t spurious (pcs q t) q = Some q' \<longrightarrow>
       pcs q' t = Push_done False \<longrightarrow>
       tail_nat q = head_nat q + CAPACITY \<or> (\<exists>u. reading (pcs q u) = Some (tail_nat q - CAPACITY))) \<and>
    (\<forall>pos q'. pcs q t = Pop_seq pos \<longrightarrow> queue_pop_step t spurious (pcs q t) q = Some q' \<longrightarrow>
       pcs q' t = Pop_done None \<longrightarrow>
       head_nat q = tail_nat q \<or> (\<exists>u. writing (pcs q u) = Some (head_nat q)))"
proof -
  have inv: "queue_inv q" "tail_nat q \<le> length es" using queue_reachable_inv [OF assms(1)] assms(2) by auto
  then have small: "tail_nat q < 2 ^ 62" using assms(1) by simp
  have sl: "slots_ok q" and shape: "shape_ok q" and so: "seekers_ok q" using inv(1) by (simp_all add: queue_inv_def)
  show ?thesis
  proof (intro conjI allI impI)
    fix v pos q'
    assume p: "pcs q t = Push_seq v pos" and st: "queue_push_step t spurious (pcs q t) q = Some q'"
      and r: "pcs q' t = Push_done False"
    have le: "unat pos \<le> tail_nat q" using so p unfolding seekers_ok_def by blast
    obtain d where d: "seq_diff (sl_sequence (slots q ! slot_index pos)) pos = Some d"
      "d < 0 \<longleftrightarrow> seq_nat q (unat pos) < unat pos" by (rule push_diff [OF inv(1) small le])
    have "d < 0" using p st r d(1) by (auto simp: queue_push_step_def split: if_splits)
    then show "tail_nat q = head_nat q + CAPACITY \<or> (\<exists>u. reading (pcs q u) = Some (tail_nat q - CAPACITY))"
      using push_refused [OF sl shape le] d(2) by auto
  next
    fix pos q'
    assume p: "pcs q t = Pop_seq pos" and st: "queue_pop_step t spurious (pcs q t) q = Some q'"
      and r: "pcs q' t = Pop_done None"
    have le: "unat pos \<le> head_nat q" using so p unfolding seekers_ok_def by blast
    then have le': "unat pos \<le> tail_nat q" using head_le_tail [OF inv(1)] by simp
    obtain d where d: "seq_diff (sl_sequence (slots q ! slot_index pos)) (pos + 1) = Some d"
      "d < 0 \<longleftrightarrow> seq_nat q (unat pos) < unat pos + 1" by (rule pop_diff [OF inv(1) small le'])
    have "d < 0" using p st r d(1) by (auto simp: queue_pop_step_def split: if_splits)
    then show "head_nat q = tail_nat q \<or> (\<exists>u. writing (pcs q u) = Some (head_nat q))"
      using pop_refused [OF sl shape le] d(2) by auto
  qed
qed

theorem mpmc_refusals_witness:
  "\<exists>q q'. queue_run [(0, Do_pop, False), (0, Do_pop, False)] mpmc_initialize = Some q \<and>
     queue_pop_step 0 False (pcs q 0) q = Some q' \<and> pcs q' 0 = Pop_done None \<and> head_nat q = tail_nat q"
proof -
  let ?q = "goto 0 (Pop_seq 0) mpmc_initialize"
  have run: "queue_run [(0, Do_pop, False), (0, Do_pop, False)] mpmc_initialize = Some ?q"
    by (simp add: queue_step_def queue_pop_step_def goto_def mpmc_initialize_def)
  have "slots mpmc_initialize ! slot_index 0 = \<lparr>sl_data = 0, sl_sequence = 0\<rparr>"
    by (simp add: mpmc_initialize_def slot_index_def)
  then have st: "queue_pop_step 0 False (pcs ?q 0) ?q = Some (goto 0 (Pop_done None) ?q)"
    by (simp add: queue_pop_step_def seq_diff_def)
  have "head_nat ?q = tail_nat ?q \<or> (\<exists>u. writing (pcs ?q u) = Some (head_nat ?q))"
    using mpmc_refusals [OF _ run, of 0 False] st by auto
  moreover have "writing (pcs ?q u) = None" for u by simp
  ultimately show ?thesis using run st by auto
qed

text \<open>When no other operation is under way, \<open>queue_push\<close> and \<open>queue_pop\<close> return within five steps and do
  exactly what a bounded FIFO queue does.\<close>

theorem mpmc_sequential:
  assumes "length es < 2 ^ 62" "queue_run es mpmc_initialize = Some q" "\<And>t. resting (pcs q t)"
  shows "(\<exists>q'. solo 5 t (goto t (Push_load v) q) = Some q' \<and>
      (if length (contents q) < CAPACITY then pcs q' t = Push_done True \<and> contents q' = contents q @ [v]
       else pcs q' t = Push_done False \<and> contents q' = contents q)) \<and>
    (\<exists>q'. solo 5 t (goto t Pop_load q) = Some q' \<and>
      (case contents q of
         [] \<Rightarrow> pcs q' t = Pop_done None \<and> contents q' = []
       | x # xs \<Rightarrow> pcs q' t = Pop_done (Some x) \<and> contents q' = xs))"
proof -
  have inv: "queue_inv q" "tail_nat q < 2 ^ 62" using queue_reachable_inv [OF assms(1)] assms(1,2) by auto
  show ?thesis using quiet_push [OF inv(1) assms(3) inv(2)] quiet_pop [OF inv(1) assms(3) inv(2)] by blast
qed

theorem mpmc_sequential_witness:
  "\<exists>q'. solo 5 3 (goto 3 (Push_load 9) mpmc_initialize) = Some q' \<and> pcs q' 3 = Push_done True \<and> contents q' = [9]"
  using mpmc_sequential [of "[]" mpmc_initialize 3 9] by (simp add: contents_def)

text \<open>Under every schedule, no assertion of the stress test fails: no value is out of range and none is
  received twice. At every moment the number of values received is the number of pops counted by the
  consumers and the shared sum is the sum of the values received, so that once each consumer has counted its
  share every value has been received exactly once and the sum is right (lemma \<open>joined_asserts\<close>).\<close>

theorem mpmc_stress_test:
  "\<exists>s. stress_run es stress_start = Some s \<and>
     (\<forall>i. received s i = (if i \<in> {1..TOTAL_ITEMS} \<and> received s i = 1 then 1 else 0)) \<and>
     card {i. received s i = 1} = popped s 4 + popped s 5 + popped s 6 + popped s 7 \<and>
     total_consumed_sum s = (\<Sum>i | received s i = 1. of_nat i)"
proof -
  obtain s D where s: "stress_run es stress_start = Some s" and inv: "stress_inv s D"
    using stress_run_inv [OF stress_start_inv, of es] by blast
  have ta: "tally_ok s D" using inv by (simp add: stress_inv_def)
  note dp = processed_props [OF inv]
  have set: "{i. received s i = 1} = unat ` set_mset D" using ta by (auto simp: tally_ok_def)
  have inj: "inj_on unat (set_mset D)" by (simp add: inj_on_def word_unat_eq_iff)
  have "card {i. received s i = 1} = all_popped s"
    unfolding set card_image [OF inj] using sum_distinct_mset(2) [OF dp(1)] ta by (simp add: tally_ok_def)
  moreover have "total_consumed_sum s = (\<Sum>i | received s i = 1. of_nat i)"
    unfolding set sum.reindex [OF inj] using sum_distinct_mset(1) [OF dp(1), of "\<lambda>v. v"] ta by (simp add: tally_ok_def)
  moreover have "received s i = (if i \<in> {1..TOTAL_ITEMS} \<and> received s i = 1 then 1 else 0)" for i
    using ta dp(2) by (auto simp: tally_ok_def)
  ultimately show ?thesis using s unfolding all_popped_def by blast
qed

end
