(* ===== verification/Actor_Model.thy ===== *)
theory Actor_Model
  imports MPMC_Queue
begin

text \<open>
  The actor of \<^verbatim>\<open>Phase-2/Day37/C/ActorModel.c\<close>: the main thread allocates three messages and posts their
  addresses to a mailbox, a worker thread takes them out, prints and frees them until it meets the poison
  pill. The mailbox is the queue of \<open>MPMC_Queue\<close>, whose code the file repeats; thread 0 is main, thread 1 the
  worker. Each kind of block has its own heap; the addresses \<^verbatim>\<open>malloc\<close> returns are arguments. A \<^verbatim>\<open>double\<close> is
  its bit pattern.
\<close>

subsection \<open>The mailbox\<close>

text \<open>The file has its own copy of the queue, word for word that of \<^verbatim>\<open>MPMC.c\<close>.\<close>

definition mailbox_initialize :: mpmc where
  [simp]: "mailbox_initialize = mpmc_initialize"

definition mailbox_push_step :: "nat \<Rightarrow> bool \<Rightarrow> qpc \<Rightarrow> mpmc \<Rightarrow> mpmc option" where
  [simp]: "mailbox_push_step = queue_push_step"

definition mailbox_pop_step :: "nat \<Rightarrow> bool \<Rightarrow> qpc \<Rightarrow> mpmc \<Rightarrow> mpmc option" where
  [simp]: "mailbox_pop_step = queue_pop_step"

subsection \<open>Messages\<close>

datatype MessageType = MSG_NEW_ORDER | MSG_CANCEL_ORDER | MSG_POISON_PILL

record NewMessagePayload =
  new_order_id :: u64
  new_symbol :: u32
  new_price :: u64
  new_quantity :: u32
  new_side :: u8

record CancelMessagePayload =
  cancel_order_id :: u64
  cancel_symbol :: u32

text \<open>The union of the two payload pointers is the address it holds; the poison pill leaves it unset.\<close>

record Message =
  msg_type :: MessageType
  msg_payload :: addr

datatype actor_line =
    New_order_line u64 u32 u64 u32 u8
  | Cancel_order_line u64 u32
  | Shutdown_line

record actor =
  mailbox :: mpmc
  msgs :: "Message heap"
  news :: "NewMessagePayload heap"
  cancels :: "CancelMessagePayload heap"
  created :: nat
  running :: bool
  printed :: "actor_line list"

record mallocs =
  malloc_msg :: "Message allocator"
  malloc_new :: "NewMessagePayload allocator"
  malloc_cancel :: "CancelMessagePayload allocator"

subsection \<open>The main thread\<close>

definition post :: "addr \<Rightarrow> actor \<Rightarrow> actor" where
  "post a s = s\<lparr>mailbox := goto 0 (Push_load (of_nat a)) (mailbox s), created := created s + 1\<rparr>"

definition send_new :: "mallocs \<Rightarrow> actor \<Rightarrow> actor option" where
  "send_new m s = do {
     (a, junk) \<leftarrow> malloc_msg m (msgs s);
     (b, junk) \<leftarrow> malloc_new m (news s);
     let order = \<lparr>new_order_id = 1001, new_symbol = 65, new_price = 0x4062D00000000000, new_quantity = 10, new_side = 1\<rparr>;
     Some (post a (s\<lparr>news := (news s)(b \<mapsto> order),
       msgs := (msgs s)(a \<mapsto> \<lparr>msg_type = MSG_NEW_ORDER, msg_payload = b\<rparr>)\<rparr>))
   }"

definition send_cancel :: "mallocs \<Rightarrow> actor \<Rightarrow> actor option" where
  "send_cancel m s = do {
     (a, junk) \<leftarrow> malloc_msg m (msgs s);
     (b, junk) \<leftarrow> malloc_cancel m (cancels s);
     let order = \<lparr>cancel_order_id = 1001, cancel_symbol = 65\<rparr>;
     Some (post a (s\<lparr>cancels := (cancels s)(b \<mapsto> order),
       msgs := (msgs s)(a \<mapsto> \<lparr>msg_type = MSG_CANCEL_ORDER, msg_payload = b\<rparr>)\<rparr>))
   }"

definition send_poison :: "mallocs \<Rightarrow> actor \<Rightarrow> actor option" where
  "send_poison m s = do {
     (a, junk) \<leftarrow> malloc_msg m (msgs s);
     Some (post a (s\<lparr>msgs := (msgs s)(a \<mapsto> junk\<lparr>msg_type := MSG_POISON_PILL\<rparr>)\<rparr>))
   }"

text \<open>The results of \<^verbatim>\<open>queue_push\<close> are ignored. After the third message \<open>main\<close> only waits for the worker.\<close>

definition main_step :: "mallocs \<Rightarrow> bool \<Rightarrow> actor \<Rightarrow> actor option" where
  "main_step m spurious s =
     (case pcs (mailbox s) 0 of
        Idle \<Rightarrow>
          if created s = 0 then send_new m s
          else if created s = 1 then send_cancel m s
          else if created s = 2 then send_poison m s
          else Some s
      | Push_done ok \<Rightarrow> Some (s\<lparr>mailbox := goto 0 Idle (mailbox s)\<rparr>)
      | p \<Rightarrow> map_option (\<lambda>q. s\<lparr>mailbox := q\<rparr>) (mailbox_push_step 0 spurious p (mailbox s)))"

subsection \<open>The worker\<close>

definition handle_message :: "u64 \<Rightarrow> actor \<Rightarrow> actor option" where
  "handle_message raw_msg s = do {
     let a = unat raw_msg;
     msg \<leftarrow> msgs s a;
     let s = s\<lparr>mailbox := goto 1 Idle (mailbox s)\<rparr>;
     case msg_type msg of
       MSG_NEW_ORDER \<Rightarrow> do {
         p \<leftarrow> news s (msg_payload msg);
         news' \<leftarrow> dealloc (Some (msg_payload msg)) (news s);
         msgs' \<leftarrow> dealloc (Some a) (msgs s);
         Some (s\<lparr>news := news', msgs := msgs', printed := printed s @
           [New_order_line (new_order_id p) (new_symbol p) (new_price p) (new_quantity p) (new_side p)]\<rparr>)
       }
     | MSG_CANCEL_ORDER \<Rightarrow> do {
         p \<leftarrow> cancels s (msg_payload msg);
         cancels' \<leftarrow> dealloc (Some (msg_payload msg)) (cancels s);
         msgs' \<leftarrow> dealloc (Some a) (msgs s);
         Some (s\<lparr>cancels := cancels', msgs := msgs', printed := printed s @
           [Cancel_order_line (cancel_order_id p) (cancel_symbol p)]\<rparr>)
       }
     | MSG_POISON_PILL \<Rightarrow> do {
         msgs' \<leftarrow> dealloc (Some a) (msgs s);
         Some (s\<lparr>msgs := msgs', running := False, printed := printed s @ [Shutdown_line]\<rparr>)
       }
   }"

definition actor_worker_step :: "bool \<Rightarrow> actor \<Rightarrow> actor option" where
  "actor_worker_step spurious s =
     (case pcs (mailbox s) 1 of
        Idle \<Rightarrow> if running s then Some (s\<lparr>mailbox := goto 1 Pop_load (mailbox s)\<rparr>) else Some s
      | Pop_done None \<Rightarrow> Some (s\<lparr>mailbox := goto 1 Idle (mailbox s)\<rparr>)
      | Pop_done (Some raw_msg) \<Rightarrow> handle_message raw_msg s
      | p \<Rightarrow> map_option (\<lambda>q. s\<lparr>mailbox := q\<rparr>) (mailbox_pop_step 1 spurious p (mailbox s)))"

text \<open>A schedule says which of the two threads moves, and whether its compare-and-swap fails spuriously.\<close>

fun actor_run :: "mallocs \<Rightarrow> (bool \<times> bool) list \<Rightarrow> actor \<Rightarrow> actor option" where
  "actor_run m [] s = Some s"
| "actor_run m ((main, spurious) # es) s = do {
     s \<leftarrow> (if main then main_step m spurious s else actor_worker_step spurious s);
     actor_run m es s
   }"

definition actor_start :: actor where
  "actor_start = \<lparr>mailbox = mailbox_initialize, msgs = Map.empty, news = Map.empty, cancels = Map.empty,
     created = 0, running = True, printed = []\<rparr>"

subsection \<open>The invariant\<close>

definition transcript :: "actor_line list" where
  "transcript = [New_order_line 1001 65 0x4062D00000000000 10 1, Cancel_order_line 1001 65, Shutdown_line]"

text \<open>The messages in the mailbox, from the one to be handled next: their addresses and those of their payloads.\<close>

definition msg_kind :: "nat \<Rightarrow> MessageType" where
  "msg_kind k = (if k = 0 then MSG_NEW_ORDER else if k = 1 then MSG_CANCEL_ORDER else MSG_POISON_PILL)"

text \<open>\<open>ps\<close> lists the addresses of all messages created so far.\<close>

definition live_ok :: "actor \<Rightarrow> addr list \<Rightarrow> bool" where
  "live_ok s ps \<longleftrightarrow> length ps = created s \<and> created s \<le> 3 \<and> (\<forall>a\<in>set ps. a < 2 ^ 64) \<and>
     length (printed s) \<le> created s \<and> distinct (drop (length (printed s)) ps) \<and>
     dom (msgs s) = set (drop (length (printed s)) ps) \<and>
     (\<forall>k < created s. length (printed s) \<le> k \<longrightarrow> map_option msg_type (msgs s (ps ! k)) = Some (msg_kind k)) \<and>
     printed s = take (length (printed s)) transcript \<and> running s = (length (printed s) < 3)"

definition news_ok :: "actor \<Rightarrow> addr list \<Rightarrow> bool" where
  "news_ok s ps \<longleftrightarrow>
     (if length (printed s) = 0 \<and> 0 < created s
      then (\<exists>m. msgs s (ps ! 0) = Some m \<and> news s = [msg_payload m \<mapsto> \<lparr>new_order_id = 1001, new_symbol = 65,
             new_price = 0x4062D00000000000, new_quantity = 10, new_side = 1\<rparr>])
      else news s = Map.empty)"

definition cancels_ok :: "actor \<Rightarrow> addr list \<Rightarrow> bool" where
  "cancels_ok s ps \<longleftrightarrow>
     (if length (printed s) \<le> 1 \<and> 1 < created s
      then (\<exists>m. msgs s (ps ! 1) = Some m \<and> cancels s = [msg_payload m \<mapsto> \<lparr>cancel_order_id = 1001, cancel_symbol = 65\<rparr>])
      else cancels s = Map.empty)"

definition heaps_ok :: "actor \<Rightarrow> addr list \<Rightarrow> bool" where
  "heaps_ok s ps \<longleftrightarrow> live_ok s ps \<and> news_ok s ps \<and> cancels_ok s ps"

text \<open>What the mailbox knows about them.\<close>

definition mail_ok :: "actor \<Rightarrow> addr list \<Rightarrow> bool" where
  "mail_ok s ps \<longleftrightarrow>
     (let q = mailbox s; n = length (printed s) in
        queue_inv q \<and>
        (pcs q 0 = Idle \<or> producing (pcs q 0)) \<and> pcs q 0 \<noteq> Push_done False \<and>
        (pcs q 1 = Idle \<or> consuming (pcs q 1)) \<and> (\<forall>t. 2 \<le> t \<longrightarrow> pcs q t = Idle) \<and>
        (producing (pcs q 0) \<longrightarrow> 0 < created s) \<and>
        sent q = map of_nat (take (if pushing (pcs q 0) \<and> \<not> has_claim (pcs q 0) then created s - 1 else created s) ps) \<and>
        (\<forall>v. push_value (pcs q 0) = Some v \<longrightarrow> v = of_nat (ps ! (created s - 1))) \<and>
        (\<forall>k < length (returned q). returned q ! k = (k, sent q ! k)) \<and>
        length (returned q) = n + length (pending (pcs q 1)) \<and>
        (\<forall>v. pcs q 1 = Pop_done (Some v) \<longrightarrow> v = sent q ! n))"

definition mallocs_ok :: "mallocs \<Rightarrow> bool" where
  "mallocs_ok m \<longleftrightarrow> malloc_serves (malloc_msg m) 4 \<and> malloc_serves (malloc_new m) 2 \<and> malloc_serves (malloc_cancel m) 2 \<and>
     (\<forall>h a junk. malloc_msg m h = Some (a, junk) \<longrightarrow> a < 2 ^ 64)"

lemma list_len: "length xs = 0 \<longleftrightarrow> xs = []" "length xs = Suc n \<longleftrightarrow> (\<exists>x ys. xs = x # ys \<and> length ys = n)"
  by (auto simp: length_Suc_conv)

lemma heaps_dom: "heaps_ok s ps \<Longrightarrow> finite (dom (msgs s)) \<and> card (dom (msgs s)) < 4"
proof -
  assume a: "heaps_ok s ps"
  then have d: "dom (msgs s) = set (drop (length (printed s)) ps)" "length ps \<le> 3"
    by (simp_all add: heaps_ok_def live_ok_def)
  have "card (set (drop (length (printed s)) ps)) \<le> length ps" using card_length [of "drop (length (printed s)) ps"] by simp
  then show ?thesis using d by (simp add: d(1))
qed

lemma malloc_msg_ok:
  assumes "mallocs_ok m" "heaps_ok s ps"
  obtains a junk where "malloc_msg m (msgs s) = Some (a, junk)" "msgs s a = None" "a < 2 ^ 64"
  using assms heaps_dom [OF assms(2)] malloc_servesD [of "malloc_msg m" 4 "msgs s"] unfolding mallocs_ok_def by metis

lemma malloc_empty:
  assumes "malloc_serves alloc 2"
  obtains b junk where "alloc Map.empty = Some (b, junk)"
  using malloc_servesD [OF assms, of Map.empty] by auto

text \<open>A new message at a fresh address.\<close>

lemma live_post:
  assumes l: "live_ok s ps" and a: "msgs s a = None" "a < 2 ^ 64" and c: "created s < 3"
    and s': "msgs s' = (msgs s)(a \<mapsto> m)" "msg_type m = msg_kind (created s)" "created s' = created s"
      "printed s' = printed s" "running s' = running s"
  shows "live_ok (post a s') (ps @ [a])"
    "\<And>k. k < created s \<Longrightarrow> length (printed s) \<le> k \<Longrightarrow> msgs s' ((ps @ [a]) ! k) = msgs s (ps ! k)"
proof -
  let ?n = "length (printed s)"
  have o: "length ps = created s" "?n \<le> created s" "dom (msgs s) = set (drop ?n ps)"
    using l by (simp_all add: live_ok_def)
  have na: "a \<notin> set (drop ?n ps)" using a(1) o(3) by auto
  have old: "msgs s' ((ps @ [a]) ! k) = msgs s (ps ! k)" if "k < created s" "?n \<le> k" for k
  proof -
    have "ps ! k = drop ?n ps ! (k - ?n)" "k - ?n < length (drop ?n ps)" using that o(1) by simp_all
    then have "ps ! k \<noteq> a" using na nth_mem by metis
    then show ?thesis using s'(1) that o(1) by (simp add: nth_append)
  qed
  then show "\<And>k. k < created s \<Longrightarrow> ?n \<le> k \<Longrightarrow> msgs s' ((ps @ [a]) ! k) = msgs s (ps ! k)" .
  have kind: "map_option msg_type (msgs s' ((ps @ [a]) ! k)) = Some (msg_kind k)" if "k < created s + 1" "?n \<le> k" for k
  proof (cases "k = created s")
    case True
    then show ?thesis using s'(1,2) o(1) by (simp add: nth_append)
  next
    case False
    then show ?thesis using old [of k] that l by (simp add: live_ok_def)
  qed
  show "live_ok (post a s') (ps @ [a])"
    using l na c a(2) o kind s' unfolding live_ok_def by (simp add: post_def)
qed

lemma news_post:
  assumes "live_ok s ps" "news_ok s ps" "0 < created s" "news s0 = news s" "printed s0 = printed s" "created s0 = created s"
    and "\<And>k. k < created s \<Longrightarrow> length (printed s) \<le> k \<Longrightarrow> msgs s0 ((ps @ [a]) ! k) = msgs s (ps ! k)"
  shows "news_ok (post a s0) (ps @ [a])"
  using assms(2-6) assms(7) [of 0] by (simp add: news_ok_def post_def)

lemma cancels_post:
  assumes "live_ok s ps" "cancels_ok s ps" "created s \<noteq> 1" "cancels s0 = cancels s" "printed s0 = printed s" "created s0 = created s"
    and "\<And>k. k < created s \<Longrightarrow> length (printed s) \<le> k \<Longrightarrow> msgs s0 ((ps @ [a]) ! k) = msgs s (ps ! k)"
  shows "cancels_ok (post a s0) (ps @ [a])"
  using assms(2-6) assms(7) [of 1] by (auto simp: cancels_ok_def post_def)

lemma send_new_heaps:
  assumes m: "mallocs_ok m" and h: "heaps_ok s ps" and c: "created s = 0"
  shows "\<exists>a s0. send_new m s = Some (post a s0) \<and> mailbox s0 = mailbox s \<and> printed s0 = printed s \<and>
    running s0 = running s \<and> created s0 = created s \<and> heaps_ok (post a s0) (ps @ [a])"
proof -
  have l: "live_ok s ps" "news_ok s ps" "cancels_ok s ps" using h by (simp_all add: heaps_ok_def)
  obtain a junk where a: "malloc_msg m (msgs s) = Some (a, junk)" "msgs s a = None" "a < 2 ^ 64"
    by (rule malloc_msg_ok [OF m h])
  have e: "ps = []" "news s = Map.empty" "printed s = []"
    using l c by (auto simp: live_ok_def news_ok_def)
  obtain b junk' where b: "malloc_new m (news s) = Some (b, junk')"
    using m e(2) malloc_empty [of "malloc_new m"] by (auto simp: mallocs_ok_def)
  let ?s = "s\<lparr>news := (news s)(b \<mapsto> \<lparr>new_order_id = 1001, new_symbol = 65,
         new_price = 0x4062D00000000000, new_quantity = 10, new_side = 1\<rparr>),
       msgs := (msgs s)(a \<mapsto> \<lparr>msg_type = MSG_NEW_ORDER, msg_payload = b\<rparr>)\<rparr>"
  note lp = live_post [OF l(1) a(2,3), where s' = ?s and m = "\<lparr>msg_type = MSG_NEW_ORDER, msg_payload = b\<rparr>"]
  have "live_ok (post a ?s) (ps @ [a])" by (rule lp(1)) (simp_all add: c msg_kind_def)
  moreover have "news_ok (post a ?s) (ps @ [a])" using e c by (simp add: news_ok_def post_def)
  moreover have "cancels_ok (post a ?s) (ps @ [a])" by (rule cancels_post [OF l(1,3)]) (simp_all add: c)
  ultimately have "heaps_ok (post a ?s) (ps @ [a])" by (simp add: heaps_ok_def)
  then show ?thesis using a(1) b by (intro exI [of _ a] exI [of _ ?s]) (simp add: send_new_def)
qed

lemma send_cancel_heaps:
  assumes m: "mallocs_ok m" and h: "heaps_ok s ps" and c: "created s = 1"
  shows "\<exists>a s0. send_cancel m s = Some (post a s0) \<and> mailbox s0 = mailbox s \<and> printed s0 = printed s \<and>
    running s0 = running s \<and> created s0 = created s \<and> heaps_ok (post a s0) (ps @ [a])"
proof -
  have l: "live_ok s ps" "news_ok s ps" "cancels_ok s ps" using h by (simp_all add: heaps_ok_def)
  obtain a junk where a: "malloc_msg m (msgs s) = Some (a, junk)" "msgs s a = None" "a < 2 ^ 64"
    by (rule malloc_msg_ok [OF m h])
  have e: "cancels s = Map.empty" "length ps = 1" using l c by (simp_all add: live_ok_def cancels_ok_def)
  obtain b junk' where b: "malloc_cancel m (cancels s) = Some (b, junk')"
    using m e(1) malloc_empty [of "malloc_cancel m"] by (auto simp: mallocs_ok_def)
  let ?s = "s\<lparr>cancels := (cancels s)(b \<mapsto> \<lparr>cancel_order_id = 1001, cancel_symbol = 65\<rparr>),
       msgs := (msgs s)(a \<mapsto> \<lparr>msg_type = MSG_CANCEL_ORDER, msg_payload = b\<rparr>)\<rparr>"
  have lp: "live_ok (post a ?s) (ps @ [a])"
    "k < created s \<Longrightarrow> length (printed s) \<le> k \<Longrightarrow> msgs ?s ((ps @ [a]) ! k) = msgs s (ps ! k)" for k
    by (rule live_post [OF l(1) a(2,3), where s' = ?s and m = "\<lparr>msg_type = MSG_CANCEL_ORDER, msg_payload = b\<rparr>"]; simp add: c msg_kind_def)+
  moreover have "news_ok (post a ?s) (ps @ [a])" by (rule news_post [OF l(1,2) _ _ _ _ lp(2)]) (simp_all add: c)
  moreover have "cancels_ok (post a ?s) (ps @ [a])"
    using e l(1) c by (simp add: cancels_ok_def post_def nth_append live_ok_def)
  ultimately have "heaps_ok (post a ?s) (ps @ [a])" by (simp add: heaps_ok_def)
  then show ?thesis using a(1) b by (intro exI [of _ a] exI [of _ ?s]) (simp add: send_cancel_def)
qed

lemma send_poison_heaps:
  assumes m: "mallocs_ok m" and h: "heaps_ok s ps" and c: "created s = 2"
  shows "\<exists>a s0. send_poison m s = Some (post a s0) \<and> mailbox s0 = mailbox s \<and> printed s0 = printed s \<and>
    running s0 = running s \<and> created s0 = created s \<and> heaps_ok (post a s0) (ps @ [a])"
proof -
  have l: "live_ok s ps" "news_ok s ps" "cancels_ok s ps" using h by (simp_all add: heaps_ok_def)
  obtain a junk where a: "malloc_msg m (msgs s) = Some (a, junk)" "msgs s a = None" "a < 2 ^ 64"
    by (rule malloc_msg_ok [OF m h])
  let ?s = "s\<lparr>msgs := (msgs s)(a \<mapsto> junk\<lparr>msg_type := MSG_POISON_PILL\<rparr>)\<rparr>"
  have lp: "live_ok (post a ?s) (ps @ [a])"
    "k < created s \<Longrightarrow> length (printed s) \<le> k \<Longrightarrow> msgs ?s ((ps @ [a]) ! k) = msgs s (ps ! k)" for k
    by (rule live_post [OF l(1) a(2,3), where s' = ?s and m = "junk\<lparr>msg_type := MSG_POISON_PILL\<rparr>"]; simp add: c msg_kind_def)+
  moreover have "news_ok (post a ?s) (ps @ [a])" by (rule news_post [OF l(1,2) _ _ _ _ lp(2)]) (simp_all add: c)
  moreover have "cancels_ok (post a ?s) (ps @ [a])" by (rule cancels_post [OF l(1,3) _ _ _ _ lp(2)]) (simp_all add: c)
  ultimately have "heaps_ok (post a ?s) (ps @ [a])" by (simp add: heaps_ok_def)
  then show ?thesis using a(1) by (intro exI [of _ a] exI [of _ ?s]) (simp add: send_poison_def)
qed

text \<open>The worker handles message \<open>n\<close> once \<open>n\<close> have been handled.\<close>

lemma live_handle:
  assumes l: "live_ok s ps" and n: "n = length (printed s)" "n < created s"
    and s': "msgs s' = (msgs s)(ps ! n := None)" "created s' = created s" "printed s' = take (n + 1) transcript"
      "running s' = (n + 1 < 3)"
  shows "live_ok s' ps" "\<And>k. n < k \<Longrightarrow> k < created s \<Longrightarrow> msgs s' (ps ! k) = msgs s (ps ! k)" "length (printed s') = n + 1"
proof -
  have c: "length ps = created s" "created s \<le> 3" "distinct (drop n ps)" "dom (msgs s) = set (drop n ps)"
    using l n by (simp_all add: live_ok_def)
  have nd: "drop n ps = ps ! n # drop (n + 1) ps" using c(1) n(2) by (simp add: Cons_nth_drop_Suc)
  then have d: "distinct (drop (n + 1) ps)" "ps ! n \<notin> set (drop (n + 1) ps)" using c(3) by simp_all
  show later: "msgs s' (ps ! k) = msgs s (ps ! k)" if "n < k" "k < created s" for k
  proof -
    have "ps ! k = drop (n + 1) ps ! (k - (n + 1))" "k - (n + 1) < length (drop (n + 1) ps)" using that c(1) by simp_all
    then have "ps ! k \<noteq> ps ! n" using d(2) nth_mem by metis
    then show ?thesis using s'(1) by simp
  qed
  show len: "length (printed s') = n + 1" using s'(3) n(2) c(2) by (simp add: transcript_def)
  have "dom (msgs s') = set (drop (n + 1) ps)" using s'(1) c(4) nd d(2) by auto
  moreover have "map_option msg_type (msgs s' (ps ! k)) = Some (msg_kind k)" if "k < created s" "n + 1 \<le> k" for k
    using later [of k] that l n(1) by (simp add: live_ok_def)
  ultimately show "live_ok s' ps"
    using l n d(1) len s' unfolding live_ok_def by simp
qed

lemma handle_heaps:
  assumes h: "heaps_ok s ps" and n: "n = length (printed s)" "n < created s" and raw: "unat raw = ps ! n"
  shows "\<exists>s'. handle_message raw s = Some s' \<and> mailbox s' = goto 1 Idle (mailbox s) \<and> created s' = created s \<and>
    length (printed s') = n + 1 \<and> heaps_ok s' ps"
proof -
  have l: "live_ok s ps" "news_ok s ps" "cancels_ok s ps" using h by (simp_all add: heaps_ok_def)
  have c: "created s \<le> 3" "printed s = take n transcript" "running s = (n < 3)"
    "map_option msg_type (msgs s (ps ! n)) = Some (msg_kind n)"
    using l(1) n by (auto simp: live_ok_def)
  obtain msg where msg: "msgs s (ps ! n) = Some msg" "msg_type msg = msg_kind n" using c(4) by auto
  consider (0) "n = 0" | (1) "n = 1" | (2) "n = 2" using n(2) c(1) by linarith
  then show ?thesis
  proof cases
    case 0
    have nw: "news s = [msg_payload msg \<mapsto> \<lparr>new_order_id = 1001, new_symbol = 65,
        new_price = 0x4062D00000000000, new_quantity = 10, new_side = 1\<rparr>]"
      using l(2) n 0 msg by (auto simp: news_ok_def)
    let ?s = "s\<lparr>mailbox := goto 1 Idle (mailbox s), news := (news s)(msg_payload msg := None),
       msgs := (msgs s)(ps ! n := None), printed := printed s @ [New_order_line 1001 65 0x4062D00000000000 10 1]\<rparr>"
    have lh: "live_ok ?s ps" "n < k \<Longrightarrow> k < created s \<Longrightarrow> msgs ?s (ps ! k) = msgs s (ps ! k)" "length (printed ?s) = n + 1" for k
      by (rule live_handle [OF l(1) n]; simp add: c 0 transcript_def)+
    have "news_ok ?s ps" using lh(3) by (simp add: news_ok_def nw)
    moreover have "cancels_ok ?s ps" using l(3) lh(2) [of 1] lh(3) n 0 by (simp add: cancels_ok_def del: One_nat_def)
    ultimately have "heaps_ok ?s ps" using lh(1) by (simp add: heaps_ok_def)
    moreover have "handle_message raw s = Some ?s"
      using msg raw nw 0 by (simp add: handle_message_def dealloc_def msg_kind_def)
    ultimately show ?thesis using lh(3) by (intro exI [of _ ?s]) simp
  next
    case 1
    have cn: "cancels s = [msg_payload msg \<mapsto> \<lparr>cancel_order_id = 1001, cancel_symbol = 65\<rparr>]"
      using l(3) n 1 msg by (auto simp: cancels_ok_def)
    let ?s = "s\<lparr>mailbox := goto 1 Idle (mailbox s), cancels := (cancels s)(msg_payload msg := None),
       msgs := (msgs s)(ps ! n := None), printed := printed s @ [Cancel_order_line 1001 65]\<rparr>"
    have lh: "live_ok ?s ps" "length (printed ?s) = n + 1"
      by (rule live_handle [OF l(1) n]; simp add: c 1 transcript_def)+
    have "printed s \<noteq> []" using n 1 by auto
    then have "news_ok ?s ps" using l(2) by (simp add: news_ok_def)
    moreover have "cancels_ok ?s ps" using lh(2) 1 by (simp add: cancels_ok_def cn)
    ultimately have "heaps_ok ?s ps" using lh(1) by (simp add: heaps_ok_def)
    moreover have "handle_message raw s = Some ?s"
      using msg raw cn 1 by (simp add: handle_message_def dealloc_def msg_kind_def)
    ultimately show ?thesis using lh(2) by (intro exI [of _ ?s]) simp
  next
    case 2
    let ?s = "s\<lparr>mailbox := goto 1 Idle (mailbox s), msgs := (msgs s)(ps ! n := None), running := False,
       printed := printed s @ [Shutdown_line]\<rparr>"
    have lh: "live_ok ?s ps" "length (printed ?s) = n + 1"
      by (rule live_handle [OF l(1) n]; simp add: c 2 transcript_def)+
    have "printed s \<noteq> []" using n 2 by auto
    then have "news_ok ?s ps" "cancels_ok ?s ps" using l(2,3) n 2 by (simp_all add: news_ok_def cancels_ok_def)
    then have "heaps_ok ?s ps" using lh(1) by (simp add: heaps_ok_def)
    moreover have "handle_message raw s = Some ?s"
      using msg raw 2 by (simp add: handle_message_def dealloc_def msg_kind_def)
    ultimately show ?thesis using lh(2) by (intro exI [of _ ?s]) simp
  qed
qed

subsection \<open>Every step keeps the invariant\<close>

definition actor_inv :: "actor \<Rightarrow> addr list \<Rightarrow> bool" where
  "actor_inv s ps \<longleftrightarrow> heaps_ok s ps \<and> mail_ok s ps"

lemma mail_okI:
  assumes "queue_inv (mailbox s)" "pcs (mailbox s) 0 = Idle \<or> producing (pcs (mailbox s) 0)"
    "pcs (mailbox s) 0 \<noteq> Push_done False" "pcs (mailbox s) 1 = Idle \<or> consuming (pcs (mailbox s) 1)"
    "\<And>t. 2 \<le> t \<Longrightarrow> pcs (mailbox s) t = Idle" "producing (pcs (mailbox s) 0) \<Longrightarrow> 0 < created s"
    "sent (mailbox s) = map of_nat (take (if pushing (pcs (mailbox s) 0) \<and> \<not> has_claim (pcs (mailbox s) 0)
       then created s - 1 else created s) ps)"
    "\<And>v. push_value (pcs (mailbox s) 0) = Some v \<Longrightarrow> v = of_nat (ps ! (created s - 1))"
    "\<And>k. k < length (returned (mailbox s)) \<Longrightarrow> returned (mailbox s) ! k = (k, sent (mailbox s) ! k)"
    "length (returned (mailbox s)) = length (printed s) + length (pending (pcs (mailbox s) 1))"
    "\<And>v. pcs (mailbox s) 1 = Pop_done (Some v) \<Longrightarrow> v = sent (mailbox s) ! length (printed s)"
  shows "mail_ok s ps"
  using assms unfolding mail_ok_def Let_def by blast

lemma mail_okD:
  assumes "mail_ok s ps"
  shows "queue_inv (mailbox s)" "pcs (mailbox s) 0 = Idle \<or> producing (pcs (mailbox s) 0)"
    "pcs (mailbox s) 0 \<noteq> Push_done False" "pcs (mailbox s) 1 = Idle \<or> consuming (pcs (mailbox s) 1)"
    "\<And>t. 2 \<le> t \<Longrightarrow> pcs (mailbox s) t = Idle" "producing (pcs (mailbox s) 0) \<Longrightarrow> 0 < created s"
    "sent (mailbox s) = map of_nat (take (if pushing (pcs (mailbox s) 0) \<and> \<not> has_claim (pcs (mailbox s) 0)
       then created s - 1 else created s) ps)"
    "\<And>v. push_value (pcs (mailbox s) 0) = Some v \<Longrightarrow> v = of_nat (ps ! (created s - 1))"
    "\<And>k. k < length (returned (mailbox s)) \<Longrightarrow> returned (mailbox s) ! k = (k, sent (mailbox s) ! k)"
    "length (returned (mailbox s)) = length (printed s) + length (pending (pcs (mailbox s) 1))"
    "\<And>v. pcs (mailbox s) 1 = Pop_done (Some v) \<Longrightarrow> v = sent (mailbox s) ! length (printed s)"
  using assms unfolding mail_ok_def Let_def by blast+

lemma heaps_mailbox [simp]: "heaps_ok (s\<lparr>mailbox := q\<rparr>) ps = heaps_ok s ps"
  by (simp add: heaps_ok_def live_ok_def news_ok_def cancels_ok_def)

lemma mail_facts:
  assumes inv: "actor_inv s ps"
  shows "queue_inv (mailbox s)" "tail_nat (mailbox s) \<le> 3" "length (sent (mailbox s)) = tail_nat (mailbox s)"
    "length (returned (mailbox s)) \<le> length (sent (mailbox s))" "length ps = created s" "created s \<le> 3"
    "length (sent (mailbox s)) \<le> created s"
proof -
  let ?q = "mailbox s"
  show qi: "queue_inv ?q" using inv by (simp add: actor_inv_def mail_ok_def Let_def)
  show len: "length (sent ?q) = tail_nat ?q" using qi by (simp add: queue_inv_def shape_ok_def)
  show p: "length ps = created s" "created s \<le> 3" using inv by (simp_all add: actor_inv_def heaps_ok_def live_ok_def)
  have "sent ?q = map of_nat (take (if pushing (pcs ?q 0) \<and> \<not> has_claim (pcs ?q 0) then created s - 1 else created s) ps)"
    using inv by (simp add: actor_inv_def mail_ok_def Let_def)
  then show sc: "length (sent ?q) \<le> created s" using p(1) by (auto split: if_splits)
  show "tail_nat ?q \<le> 3" using sc len p(2) by simp
  show "length (returned ?q) \<le> length (sent ?q)"
  proof (cases "length (returned ?q)")
    case (Suc n)
    have "returned ?q ! n = (n, sent ?q ! n)"
      using inv Suc mail_okD(9) [of s ps n] by (simp add: actor_inv_def)
    then have "(n, sent ?q ! n) \<in> set (returned ?q)" using Suc nth_mem [of n "returned ?q"] by simp
    then have "n < head_nat ?q" using qi unfolding queue_inv_def log_ok_def by blast
    then show ?thesis using Suc qi len by (simp add: queue_inv_def shape_ok_def)
  qed simp
qed

lemma mail_goto0:
  assumes inv: "actor_inv s ps" and p: "pcs (mailbox s) 0 = Push_done True"
  shows "actor_inv (s\<lparr>mailbox := goto 0 Idle (mailbox s)\<rparr>) ps"
proof -
  have m: "mail_ok s ps" and h: "heaps_ok s ps" using inv by (simp_all add: actor_inv_def)
  note d = mail_okD [OF m]
  have "queue_inv (goto 0 Idle (mailbox s))" using rest_inv [OF d(1), of 0 Idle] p by simp
  then have "mail_ok (s\<lparr>mailbox := goto 0 Idle (mailbox s)\<rparr>) ps"
    by (intro mail_okI) (use d p in simp_all)
  then show ?thesis using h by (simp add: actor_inv_def)
qed

lemma mail_post:
  assumes inv: "actor_inv s ps" and p: "pcs (mailbox s) 0 = Idle" and h: "heaps_ok (post a s0) (ps @ [a])"
    and s0: "mailbox s0 = mailbox s" "printed s0 = printed s" "created s0 = created s"
  shows "actor_inv (post a s0) (ps @ [a])"
proof -
  have m: "mail_ok s ps" using inv by (simp add: actor_inv_def)
  note d = mail_okD [OF m] and f = mail_facts [OF inv]
  have q: "mailbox (post a s0) = goto 0 (Push_load (of_nat a)) (mailbox s)" "printed (post a s0) = printed s"
    "created (post a s0) = created s + 1" using s0 by (simp_all add: post_def)
  have "queue_inv (goto 0 (Push_load (of_nat a)) (mailbox s))"
    using rest_inv [OF d(1), of 0 "Push_load _" "Do_push _"] p by simp
  then have "mail_ok (post a s0) (ps @ [a])"
    by (intro mail_okI) (use d p f(5) in \<open>simp_all add: q nth_append\<close>)
  then show ?thesis using h by (simp add: actor_inv_def)
qed

lemma no_refusal:
  assumes inv: "actor_inv s ps" and st: "queue_push_step 0 spurious (pcs (mailbox s) 0) (mailbox s) = Some q'"
    and p: "pushing (pcs (mailbox s) 0)"
  shows "pcs q' 0 \<noteq> Push_done False"
proof
  let ?q = "mailbox s"
  assume r: "pcs q' 0 = Push_done False"
  note f = mail_facts [OF inv]
  have small: "tail_nat ?q < 2 ^ 62" using f(2) by simp
  obtain v pos where ps: "pcs ?q 0 = Push_seq v pos"
    using st r p by (cases "pcs ?q 0") (auto simp: queue_push_step_def split: if_splits)
  have qo: "slots_ok ?q" "shape_ok ?q" "seekers_ok ?q" using f(1) by (simp_all add: queue_inv_def)
  have le: "unat pos \<le> tail_nat ?q" using qo(3) ps unfolding seekers_ok_def by blast
  obtain d where d: "seq_diff (sl_sequence (slots ?q ! slot_index pos)) pos = Some d"
    "d < 0 \<longleftrightarrow> seq_nat ?q (unat pos) < unat pos" by (rule push_diff [OF f(1) small le])
  have "d < 0" using ps st r d(1) by (auto simp: queue_push_step_def split: if_splits)
  then have "CAPACITY \<le> tail_nat ?q" using push_refused [OF qo(1,2) le] d(2) by auto
  then show False using f(2) by (simp add: CAPACITY_def)
qed

lemma mail_push:
  assumes inv: "actor_inv s ps" and p: "pushing (pcs (mailbox s) 0)"
  shows "\<exists>q'. queue_push_step 0 spurious (pcs (mailbox s) 0) (mailbox s) = Some q' \<and> actor_inv (s\<lparr>mailbox := q'\<rparr>) ps"
proof -
  let ?q = "mailbox s"
  note f = mail_facts [OF inv]
  have small: "tail_nat ?q < 2 ^ 62" using f(2) by simp
  obtain q' where q': "queue_push_step 0 spurious (pcs ?q 0) ?q = Some q'" "queue_inv q'"
    using push_step_inv [OF f(1) small p, of spurious] unfolding step_ok_def by blast
  note ef = push_effect [OF q'(1) p]
  have nr: "pcs q' 0 \<noteq> Push_done False" by (rule no_refusal [OF inv q'(1) p])
  have prod: "producing (pcs ?q 0)" using p by (cases "pcs ?q 0") simp_all
  have old: "mail_ok s ps" using inv by (simp add: actor_inv_def)
  have c: "0 < created s" using old prod by (simp add: mail_ok_def Let_def)
  have sent: "sent ?q = map of_nat (take (if \<not> has_claim (pcs ?q 0) then created s - 1 else created s) ps)"
    using old p by (simp add: mail_ok_def Let_def)
  have sent': "sent q' = map of_nat (take (if pushing (pcs q' 0) \<and> \<not> has_claim (pcs q' 0) then created s - 1 else created s) ps)"
    using ef(5)
  proof
    assume a: "sent q' = sent ?q \<and> has_claim (pcs q' 0) = has_claim (pcs ?q 0)"
    have "pushing (pcs q' 0)" if "\<not> has_claim (pcs q' 0)" using ef(3) nr that by (cases "pcs q' 0") auto
    then show ?thesis using a sent by auto
  next
    assume "\<exists>v. sent q' = sent ?q @ [v] \<and> push_value (pcs ?q 0) = Some v \<and> \<not> has_claim (pcs ?q 0) \<and> has_claim (pcs q' 0)"
    then obtain v where v: "sent q' = sent ?q @ [v]" "push_value (pcs ?q 0) = Some v" "\<not> has_claim (pcs ?q 0)"
      "has_claim (pcs q' 0)" by blast
    have "v = of_nat (ps ! (created s - 1))" using old v(2) by (simp add: mail_ok_def Let_def)
    moreover have "take (created s) ps = take (created s - 1) ps @ [ps ! (created s - 1)]"
      using take_Suc_conv_app_nth [of "created s - 1" ps] c f(5) by simp
    ultimately show ?thesis using v sent by simp
  qed
  have grow: "sent q' ! k = sent ?q ! k" if "k < length (sent ?q)" for k
    using ef(5) that by (auto simp: nth_append)
  note d = mail_okD [OF old]
  have ret': "returned q' ! k = (k, sent q' ! k)" if "k < length (returned q')" for k
    using d(9) [of k] that f(4) grow [of k] unfolding ef(1) by simp
  have cl': "v = sent q' ! length (printed s)" if "pcs q' 1 = Pop_done (Some v)" for v
  proof -
    have v: "pcs ?q 1 = Pop_done (Some v)" using that ef(2) [of 1] by simp
    then have "length (printed s) < length (sent ?q)" using d(10) f(4) by simp
    then show ?thesis using grow d(11) [OF v] by simp
  qed
  have "mail_ok (s\<lparr>mailbox := q'\<rparr>) ps"
    by (rule mail_okI) (use d q'(2) ef(1) ef(2) [of 1] ef(2) ef(3) ef(4) nr c sent' ret' cl' in simp_all)
  then show ?thesis using q'(1) inv by (simp add: actor_inv_def)
qed

lemma main_step_inv:
  assumes m: "mallocs_ok m" and inv: "actor_inv s ps"
  shows "\<exists>s' ps'. main_step m spurious s = Some s' \<and> actor_inv s' ps'"
proof -
  let ?q = "mailbox s"
  have h: "heaps_ok s ps" using inv by (simp add: actor_inv_def)
  have pc: "pcs ?q 0 = Idle \<or> producing (pcs ?q 0)" "pcs ?q 0 \<noteq> Push_done False"
    using inv by (simp_all add: actor_inv_def mail_ok_def Let_def)
  consider (idle) "pcs ?q 0 = Idle" | (fin) "pcs ?q 0 = Push_done True" | (push) "pushing (pcs ?q 0)"
    using pc by (cases "pcs ?q 0") auto
  then show ?thesis
  proof cases
    case idle
    consider (0) "created s = 0" | (1) "created s = 1" | (2) "created s = 2" | (3) "2 < created s" by linarith
    then show ?thesis
    proof cases
      case 0
      then show ?thesis using send_new_heaps [OF m h 0] mail_post [OF inv idle] idle
        unfolding main_step_def by (simp, metis)
    next
      case 1
      then show ?thesis using send_cancel_heaps [OF m h 1] mail_post [OF inv idle] idle
        unfolding main_step_def by (simp, metis)
    next
      case 2
      then show ?thesis using send_poison_heaps [OF m h 2] mail_post [OF inv idle] idle
        unfolding main_step_def by (simp, metis)
    next
      case 3
      then show ?thesis using inv idle unfolding main_step_def by auto
    qed
  next
    case fin
    then show ?thesis using mail_goto0 [OF inv fin] unfolding main_step_def by auto
  next
    case push
    then show ?thesis using mail_push [OF inv push, of spurious]
      by (cases "pcs ?q 0") (auto simp: main_step_def)
  qed
qed

text \<open>With one consumer the positions come back in order.\<close>

lemma next_position:
  assumes inv: "actor_inv s ps" and q': "queue_inv q'" "returned q' = returned (mailbox s) @ [(k, v)]"
    and quiet: "\<And>t. reading (pcs q' t) = None"
  shows "k = length (returned (mailbox s)) \<and> v = sent q' ! k"
proof -
  let ?r = "returned (mailbox s)"
  have m: "mail_ok s ps" using inv by (simp add: actor_inv_def)
  have lo: "log_ok q'" using q'(1) by (simp add: queue_inv_def)
  have old: "map fst ?r = [0..<length ?r]"
    by (rule nth_equalityI) (simp_all add: mail_okD(9) [OF m])
  have v: "v = sent q' ! k" using lo q'(2) by (simp add: log_ok_def)
  have mf: "map fst (returned q') = [0..<length ?r] @ [k]" unfolding q'(2) by (simp add: old)
  have "distinct (map fst (returned q'))" using lo by (simp add: log_ok_def)
  then have nk: "k \<notin> {0..<length ?r}" unfolding mf by simp
  have mem: "j \<in> fst ` set (returned q') \<longleftrightarrow> j < head_nat q'" for j
    using lo quiet unfolding log_ok_def by force
  have S: "fst ` set (returned q') = insert k {0..<length ?r}"
    unfolding set_map [symmetric] mf by simp
  have all: "insert k {0..<length ?r} = {0..<head_nat q'}"
    unfolding S [symmetric] by (intro set_eqI) (simp only: mem atLeastLessThan_iff, simp)
  then have "card (insert k {0..<length ?r}) = head_nat q'" by simp
  then have "head_nat q' = length ?r + 1" using nk by simp
  then have "k < length ?r + 1" using all by auto
  then show ?thesis using nk v by simp
qed

lemma mail_pop:
  assumes inv: "actor_inv s ps" and p: "\<not> pushing (pcs (mailbox s) 1)" "\<not> resting (pcs (mailbox s) 1)"
  shows "\<exists>q'. queue_pop_step 1 spurious (pcs (mailbox s) 1) (mailbox s) = Some q' \<and> actor_inv (s\<lparr>mailbox := q'\<rparr>) ps"
proof -
  let ?q = "mailbox s"
  note f = mail_facts [OF inv]
  have m: "mail_ok s ps" using inv by (simp add: actor_inv_def)
  note d = mail_okD [OF m]
  have small: "tail_nat ?q < 2 ^ 62" using f(2) by simp
  obtain q' where q': "queue_pop_step 1 spurious (pcs ?q 1) ?q = Some q'" "queue_inv q'"
    using pop_step_inv [OF f(1) small p(2,1), of spurious] unfolding step_ok_def by blast
  note ef = pop_effect [OF q'(1) p]
  have np: "pending (pcs ?q 1) = []" using p(2) by (cases "pcs ?q 1") simp_all
  have zero: "pcs q' 0 = pcs ?q 0" using ef(2) [of 0] by simp
  have n: "length (returned ?q) = length (printed s)" using d(10) np by simp
  have "(returned q' = returned ?q \<and> pending (pcs q' 1) = []) \<or>
      (\<exists>v. returned q' = returned ?q @ [(length (printed s), v)] \<and> pending (pcs q' 1) = [v] \<and> v = sent q' ! length (printed s))"
    using ef(4)
  proof
    assume "\<exists>k v. returned q' = returned ?q @ [(k, v)] \<and> pending (pcs q' 1) = [v]"
    then obtain k v where kv: "returned q' = returned ?q @ [(k, v)]" "pending (pcs q' 1) = [v]" by blast
    have "reading (pcs q' t) = None" for t
    proof -
      consider "t = 0" | "t = 1" | "2 \<le> t" by linarith
      then show ?thesis
      proof cases
        assume "t = 0"
        then show ?thesis using zero d(2) by (cases "pcs ?q 0") auto
      next
        assume "t = 1"
        then show ?thesis using kv(2) by (cases "pcs q' 1") auto
      next
        assume "2 \<le> t"
        then show ?thesis using ef(2) [of t] d(5) [of t] by simp
      qed
    qed
    then have "k = length (printed s) \<and> v = sent q' ! k" using next_position [OF inv q'(2) kv(1)] n by simp
    then show ?thesis using kv by blast
  qed blast
  then have "mail_ok (s\<lparr>mailbox := q'\<rparr>) ps"
  proof (elim disjE exE)
    assume a: "returned q' = returned ?q \<and> pending (pcs q' 1) = []"
    have "pcs q' 1 \<noteq> Pop_done (Some v)" for v using a by auto
    then show ?thesis by (intro mail_okI) (use d q'(2) ef(1-3) ef(2) [of 0] a n in simp_all)
  next
    fix v
    assume a: "returned q' = returned ?q @ [(length (printed s), v)] \<and> pending (pcs q' 1) = [v] \<and> v = sent q' ! length (printed s)"
    have e: "w = v" if "pcs q' 1 = Pop_done (Some w)" for w using a that by simp
    have "returned q' ! k = (k, sent q' ! k)" if "k < length (returned q')" for k
    proof (cases "k = length (printed s)")
      case True
      then show ?thesis using a n nth_append_length [of "returned ?q"] by metis
    next
      case False
      then have "k < length (returned ?q)" using that a n by simp
      then show ?thesis using d(9) [of k] a ef(1) by (simp add: nth_append)
    qed
    then show ?thesis by (intro mail_okI) (use d q'(2) ef(1-3) ef(2) [of 0] a n e in simp_all)
  qed
  then show ?thesis using q'(1) inv by (simp add: actor_inv_def)
qed

lemma worker_step_inv:
  assumes inv: "actor_inv s ps"
  shows "\<exists>s'. actor_worker_step spurious s = Some s' \<and> actor_inv s' ps"
proof -
  let ?q = "mailbox s"
  have m: "mail_ok s ps" and h: "heaps_ok s ps" using inv by (simp_all add: actor_inv_def)
  note d = mail_okD [OF m] and f = mail_facts [OF inv]
  consider (idle) "pcs ?q 1 = Idle" | (none) "pcs ?q 1 = Pop_done None" | (some) v where "pcs ?q 1 = Pop_done (Some v)"
    | (pop) "\<not> pushing (pcs ?q 1)" "\<not> resting (pcs ?q 1)"
    using d(4) by (cases "pcs ?q 1") auto
  then show ?thesis
  proof cases
    case idle
    have "queue_inv (goto 1 Pop_load ?q)" using rest_inv [OF d(1), of 1 Pop_load Do_pop] idle by simp
    then have "mail_ok (s\<lparr>mailbox := goto 1 Pop_load ?q\<rparr>) ps"
      by (intro mail_okI) (use d idle in simp_all)
    then show ?thesis using idle inv h by (simp add: actor_worker_step_def actor_inv_def)
  next
    case none
    have "queue_inv (goto 1 Idle ?q)" using rest_inv [OF d(1), of 1 Idle] none by simp
    then have "mail_ok (s\<lparr>mailbox := goto 1 Idle ?q\<rparr>) ps"
      by (intro mail_okI) (use d none in simp_all)
    then show ?thesis using none h by (simp add: actor_worker_step_def actor_inv_def)
  next
    case (some v)
    let ?n = "length (printed s)"
    have lt: "?n < length (sent ?q)" using d(10) f(4) some by simp
    then have c: "?n < created s" using f(7) by simp
    have v: "v = of_nat (ps ! ?n)" using d(11) [OF some] d(7) lt f(5) by (auto simp: split: if_splits)
    have "ps ! ?n < 2 ^ 64" using h c f(5) by (simp add: heaps_ok_def live_ok_def)
    then have "ps ! ?n < 2 ^ LENGTH(64)" by simp
    then have raw: "unat v = ps ! ?n" unfolding v by (simp only: unat_of_nat mod_less)
    obtain s' where s': "handle_message v s = Some s'" "mailbox s' = goto 1 Idle ?q" "created s' = created s"
      "length (printed s') = ?n + 1" "heaps_ok s' ps"
      using handle_heaps [OF h refl c raw] by blast
    have "queue_inv (goto 1 Idle ?q)" using rest_inv [OF d(1), of 1 Idle] some by simp
    then have "mail_ok s' ps"
      by (intro mail_okI) (use d some s'(2-4) in simp_all)
    then show ?thesis using s'(1,5) some by (simp add: actor_worker_step_def actor_inv_def)
  next
    case pop
    then show ?thesis using mail_pop [OF inv pop, of spurious]
      by (cases "pcs ?q 1") (auto simp: actor_worker_step_def)
  qed
qed

lemma actor_run_inv:
  "mallocs_ok m \<Longrightarrow> actor_inv s ps \<Longrightarrow> \<exists>s' ps'. actor_run m es s = Some s' \<and> actor_inv s' ps'"
proof (induction m es s arbitrary: ps rule: actor_run.induct)
  case (2 m main spurious es s)
  have "\<exists>s' ps'. (if main then main_step m spurious s else actor_worker_step spurious s) = Some s' \<and> actor_inv s' ps'"
    using main_step_inv [OF 2(2,3), of spurious] worker_step_inv [OF 2(3), of spurious] by auto
  then show ?case using 2(1) [OF _ 2(2)] by fastforce
qed auto

lemma actor_start_inv: "actor_inv actor_start []"
  by (simp add: actor_inv_def actor_start_def heaps_ok_def live_ok_def news_ok_def cancels_ok_def mail_ok_def Let_def
    init_inv transcript_def)

subsection \<open>Properties\<close>

text \<open>C21: Under every schedule of main and worker no message is used after it was freed and none is freed
  twice; the worker prints the lines of the three messages in the order in which they were sent, each at most
  once; as long as it runs, what it has not handled is still allocated, and when it stops every line has been
  printed and every block has been freed.\<close>

theorem actor_processes_in_order:
  assumes "mallocs_ok m"
  shows "\<exists>s. actor_run m es actor_start = Some s \<and>
     printed s = take (length (printed s))
       [New_order_line 1001 65 0x4062D00000000000 10 1, Cancel_order_line 1001 65, Shutdown_line] \<and>
     card (dom (msgs s)) = created s - length (printed s) \<and> length (printed s) \<le> created s \<and>
     (running s \<or> length (printed s) = 3 \<and> msgs s = Map.empty \<and> news s = Map.empty \<and> cancels s = Map.empty)"
proof -
  obtain s ps where s: "actor_run m es actor_start = Some s" and inv: "actor_inv s ps"
    using actor_run_inv [OF assms actor_start_inv] by blast
  have l: "live_ok s ps" "news_ok s ps" "cancels_ok s ps" using inv by (simp_all add: actor_inv_def heaps_ok_def)
  let ?n = "length (printed s)"
  have p: "printed s = take ?n transcript" "?n \<le> created s" "length ps = created s" "created s \<le> 3"
    "distinct (drop ?n ps)" "dom (msgs s) = set (drop ?n ps)" "running s = (?n < 3)"
    using l(1) by (simp_all add: live_ok_def)
  have "card (dom (msgs s)) = created s - ?n" unfolding p(6) using p(3) distinct_card [OF p(5)] by simp
  moreover have "running s \<or> ?n = 3 \<and> msgs s = Map.empty \<and> news s = Map.empty \<and> cancels s = Map.empty"
  proof (cases "?n < 3")
    case False
    then have n: "?n = 3" "created s = 3" using p(2,4) by simp_all
    have "dom (msgs s) = {}" using p(3,6) n by simp
    then show ?thesis using n l(2,3) by (auto simp: news_ok_def cancels_ok_def)
  qed (simp add: p(7))
  ultimately show ?thesis using s p(1,2) unfolding transcript_def by blast
qed

definition small_mallocs :: mallocs where
  "small_mallocs = \<lparr>malloc_msg = first_free 4 \<lparr>msg_type = MSG_POISON_PILL, msg_payload = 0\<rparr>,
     malloc_new = first_free 2 \<lparr>new_order_id = 0, new_symbol = 0, new_price = 0, new_quantity = 0, new_side = 0\<rparr>,
     malloc_cancel = first_free 2 \<lparr>cancel_order_id = 0, cancel_symbol = 0\<rparr>\<rparr>"

lemma small_mallocs_ok: "mallocs_ok small_mallocs"
proof -
  have "a < 2 ^ 64" if "first_free 4 junk h = Some (a, j)" for h :: "Message heap" and junk j a
    using that by (auto simp: first_free_def find_Some_iff)
  then show ?thesis by (auto simp: mallocs_ok_def small_mallocs_def malloc_serves_first_free)
qed

theorem actor_processes_in_order_witness:
  "\<exists>s. actor_run small_mallocs [(True, False), (False, False), (True, True)] actor_start = Some s \<and>
     length (printed s) \<le> created s"
  using actor_processes_in_order [OF small_mallocs_ok, of "[(True, False), (False, False), (True, True)]"] by blast

end
