(* ===== verification/Order_Book.thy ===== *)
theory Order_Book
  imports Prelude
begin

text \<open>
  The order book that four threads update under a lock: with a pthread mutex in
  \<^verbatim>\<open>Phase-2/Day39/C/MutexLock.c\<close> and with a spin lock of its own in \<^verbatim>\<open>SpinLocks.c\<close>. The loop is the same
  text in both files and is modelled once, over the operations of the lock; what it needs from a lock is the
  locale \<open>mutual_exclusion\<close>. A step is one access to shared memory by one thread; \<open>+=\<close> is a load and a store.
\<close>

subsection \<open>The book and the loop\<close>

definition BOOK_THREADS :: nat where "BOOK_THREADS = 4"
definition BOOK_UPDATES :: nat where "BOOK_UPDATES = 100000"

record OrderBooks =
  bid_price :: u32
  price :: u32
  volume :: u32
  quantity :: u64

record ThreadArgs =
  ask_bid :: u32
  ask_price :: u32
  ask_volume :: u32
  ask_quantity :: u64

definition book_args :: ThreadArgs where
  "book_args = \<lparr>ask_bid = 100, ask_price = 105, ask_volume = 1, ask_quantity = 5\<rparr>"

text \<open>The access a thread makes next in the body of the loop.\<close>

datatype bpc = Acquire | Set_bid | Set_price | Load_volume | Store_volume u32 | Load_quantity | Store_quantity u64 | Release

record 'l book_state =
  book_lock :: 'l
  book :: OrderBooks
  bpcs :: "nat \<Rightarrow> bpc"
  updates :: "nat \<Rightarrow> nat"

definition to_pc :: "nat \<Rightarrow> bpc \<Rightarrow> 'l book_state \<Rightarrow> 'l book_state" where
  "to_pc t p s = s\<lparr>bpcs := (bpcs s)(t := p)\<rparr>"

text \<open>\<open>try_lock\<close> is one attempt to take the lock, with the answer whether it was taken.\<close>

definition updateOrder :: "('l \<Rightarrow> 'l \<times> bool) \<Rightarrow> ('l \<Rightarrow> 'l) \<Rightarrow> ThreadArgs \<Rightarrow> nat \<Rightarrow> 'l book_state \<Rightarrow> 'l book_state" where
  "updateOrder try_lock unlock targs t s =
     (case bpcs s t of
        Acquire \<Rightarrow>
          if updates s t < BOOK_UPDATES
          then (let (l, taken) = try_lock (book_lock s) in to_pc t (if taken then Set_bid else Acquire) (s\<lparr>book_lock := l\<rparr>))
          else s
      | Set_bid \<Rightarrow> to_pc t Set_price (s\<lparr>book := (book s)\<lparr>bid_price := ask_bid targs\<rparr>\<rparr>)
      | Set_price \<Rightarrow> to_pc t Load_volume (s\<lparr>book := (book s)\<lparr>price := ask_price targs\<rparr>\<rparr>)
      | Load_volume \<Rightarrow> to_pc t (Store_volume (volume (book s) + ask_volume targs)) s
      | Store_volume v \<Rightarrow> to_pc t Load_quantity (s\<lparr>book := (book s)\<lparr>volume := v\<rparr>\<rparr>)
      | Load_quantity \<Rightarrow> to_pc t (Store_quantity (quantity (book s) + ask_quantity targs)) s
      | Store_quantity v \<Rightarrow> to_pc t Release (s\<lparr>book := (book s)\<lparr>quantity := v\<rparr>\<rparr>)
      | Release \<Rightarrow> to_pc t Acquire (s\<lparr>book_lock := unlock (book_lock s), updates := (updates s)(t := updates s t + 1)\<rparr>))"

fun book_run :: "('l \<Rightarrow> 'l \<times> bool) \<Rightarrow> ('l \<Rightarrow> 'l) \<Rightarrow> ThreadArgs \<Rightarrow> nat list \<Rightarrow> 'l book_state \<Rightarrow> 'l book_state" where
  "book_run try_lock unlock targs [] s = s"
| "book_run try_lock unlock targs (t # ts) s =
     book_run try_lock unlock targs ts (if t < BOOK_THREADS then updateOrder try_lock unlock targs t s else s)"

definition book_start :: "'l \<Rightarrow> 'l book_state" where
  "book_start l = \<lparr>book_lock = l, book = \<lparr>bid_price = 0, price = 0, volume = 0, quantity = 0\<rparr>,
     bpcs = (\<lambda>_. Acquire), updates = (\<lambda>_. 0)\<rparr>"

subsection \<open>The two locks\<close>

text \<open>A pthread mutex is held or not; \<^verbatim>\<open>pthread_mutex_lock\<close> waits while it is held.\<close>

datatype mutex = Unlocked | Locked

definition mutex_try_lock :: "mutex \<Rightarrow> mutex \<times> bool" where
  "mutex_try_lock m = (case m of Unlocked \<Rightarrow> (Locked, True) | Locked \<Rightarrow> (Locked, False))"

definition mutex_unlock :: "mutex \<Rightarrow> mutex" where
  "mutex_unlock m = Unlocked"

text \<open>The spin lock: one flag. \<^verbatim>\<open>atomic_flag_test_and_set\<close> sets it and returns the old value.\<close>

record spinlock_t =
  flag :: bool

definition spinLock_init :: "spinlock_t \<Rightarrow> spinlock_t" where
  "spinLock_init l = l\<lparr>flag := False\<rparr>"

definition test_and_set :: "spinlock_t \<Rightarrow> spinlock_t \<times> bool" where
  "test_and_set l = (l\<lparr>flag := True\<rparr>, flag l)"

definition acquire_attempt :: "spinlock_t \<Rightarrow> spinlock_t \<times> bool" where
  "acquire_attempt l = (let (l, old) = test_and_set l in (l, \<not> old))"

definition release_flag :: "spinlock_t \<Rightarrow> spinlock_t" where
  "release_flag l = l\<lparr>flag := False\<rparr>"

text \<open>The loop body and the run of each of the two programs.\<close>

definition mutex_updateOrder :: "ThreadArgs \<Rightarrow> nat \<Rightarrow> mutex book_state \<Rightarrow> mutex book_state" where
  "mutex_updateOrder = updateOrder mutex_try_lock mutex_unlock"

definition spin_updateOrder :: "ThreadArgs \<Rightarrow> nat \<Rightarrow> spinlock_t book_state \<Rightarrow> spinlock_t book_state" where
  "spin_updateOrder = updateOrder acquire_attempt release_flag"

definition mutex_book_run :: "nat list \<Rightarrow> mutex book_state" where
  "mutex_book_run ts = book_run mutex_try_lock mutex_unlock book_args ts (book_start Unlocked)"

definition spin_book_run :: "nat list \<Rightarrow> spinlock_t book_state" where
  "spin_book_run ts = book_run acquire_attempt release_flag book_args ts (book_start (spinLock_init \<lparr>flag = False\<rparr>))"

subsection \<open>What a thread has done\<close>

fun inside :: "bpc \<Rightarrow> bool" where
  "inside Acquire = False"
| "inside p = True"

fun volume_done :: "bpc \<Rightarrow> nat" where
  "volume_done Load_quantity = 1"
| "volume_done (Store_quantity v) = 1"
| "volume_done Release = 1"
| "volume_done p = 0"

fun quantity_done :: "bpc \<Rightarrow> nat" where
  "quantity_done Release = 1"
| "quantity_done p = 0"

definition volume_updates :: "'l book_state \<Rightarrow> nat" where
  "volume_updates s = (\<Sum>t<BOOK_THREADS. updates s t + volume_done (bpcs s t))"

definition quantity_updates :: "'l book_state \<Rightarrow> nat" where
  "quantity_updates s = (\<Sum>t<BOOK_THREADS. updates s t + quantity_done (bpcs s t))"

definition book_inv :: "('l \<Rightarrow> bool) \<Rightarrow> ThreadArgs \<Rightarrow> 'l book_state \<Rightarrow> bool" where
  "book_inv free targs s \<longleftrightarrow>
     (free (book_lock s) \<longleftrightarrow> (\<forall>t. \<not> inside (bpcs s t))) \<and>
     (\<forall>t u. inside (bpcs s t) \<longrightarrow> inside (bpcs s u) \<longrightarrow> t = u) \<and>
     (\<forall>t. inside (bpcs s t) \<longrightarrow> t < BOOK_THREADS \<and> updates s t < BOOK_UPDATES) \<and>
     (\<forall>t. updates s t \<le> BOOK_UPDATES) \<and>
     volume (book s) = of_nat (volume_updates s) * ask_volume targs \<and>
     quantity (book s) = of_nat (quantity_updates s) * ask_quantity targs \<and>
     (\<forall>t v. bpcs s t = Store_volume v \<longrightarrow> v = volume (book s) + ask_volume targs) \<and>
     (\<forall>t v. bpcs s t = Store_quantity v \<longrightarrow> v = quantity (book s) + ask_quantity targs)"

subsection \<open>The contract of a lock\<close>

lemma outside: "\<not> inside p \<longleftrightarrow> p = Acquire"
  by (cases p) simp_all

lemma totals_change:
  assumes "t < BOOK_THREADS" and "\<And>u. u \<noteq> t \<Longrightarrow> updates s' u = updates s u \<and> bpcs s' u = bpcs s u"
  shows "volume_updates s' + (updates s t + volume_done (bpcs s t)) = volume_updates s + (updates s' t + volume_done (bpcs s' t))"
    "quantity_updates s' + (updates s t + quantity_done (bpcs s t)) = quantity_updates s + (updates s' t + quantity_done (bpcs s' t))"
proof -
  have "(\<Sum>u\<in>{..<BOOK_THREADS} - {t}. updates s' u + volume_done (bpcs s' u)) =
      (\<Sum>u\<in>{..<BOOK_THREADS} - {t}. updates s u + volume_done (bpcs s u))"
    "(\<Sum>u\<in>{..<BOOK_THREADS} - {t}. updates s' u + quantity_done (bpcs s' u)) =
      (\<Sum>u\<in>{..<BOOK_THREADS} - {t}. updates s u + quantity_done (bpcs s u))"
    using assms(2) by (intro sum.cong; simp)+
  then show "volume_updates s' + (updates s t + volume_done (bpcs s t)) = volume_updates s + (updates s' t + volume_done (bpcs s' t))"
    "quantity_updates s' + (updates s t + quantity_done (bpcs s t)) = quantity_updates s + (updates s' t + quantity_done (bpcs s' t))"
    unfolding volume_updates_def quantity_updates_def
    using assms(1) by (simp_all add: sum.remove [of "{..<BOOK_THREADS}" t])
qed

lemma inv_inside:
  assumes inv: "book_inv free targs s" and t: "inside (bpcs s t)"
    and s': "book_lock s' = book_lock s" "updates s' = updates s" "bpcs s' = (bpcs s)(t := p)" "inside p"
    and v: "volume (book s') = volume (book s) + of_nat vd * ask_volume targs" "volume_done p = volume_done (bpcs s t) + vd"
      "\<And>v. p = Store_volume v \<Longrightarrow> v = volume (book s') + ask_volume targs"
    and q: "quantity (book s') = quantity (book s) + of_nat qd * ask_quantity targs"
      "quantity_done p = quantity_done (bpcs s t) + qd"
      "\<And>v. p = Store_quantity v \<Longrightarrow> v = quantity (book s') + ask_quantity targs"
  shows "book_inv free targs s'"
proof -
  have t4: "t < BOOK_THREADS" using inv t by (simp add: book_inv_def)
  have tot: "volume_updates s' = volume_updates s + vd" "quantity_updates s' = quantity_updates s + qd"
    using totals_change [OF t4, of s' s] s' v(2) q(2) by simp_all
  have ins: "inside (bpcs s' u) = inside (bpcs s u)" for u using t s'(3,4) by simp
  have out: "\<not> inside (bpcs s u)" if "u \<noteq> t" for u using inv t that unfolding book_inv_def by blast
  have store: "u = t" if "bpcs s' u = Store_volume w \<or> bpcs s' u = Store_quantity w'" for u w w'
    using that out [of u] s'(3) by (cases "u = t") auto
  have pc: "bpcs s' t = p" using s'(3) by simp
  have "volume (book s) = of_nat (volume_updates s) * ask_volume targs"
    "quantity (book s) = of_nat (quantity_updates s) * ask_quantity targs"
    using inv by (simp_all add: book_inv_def)
  then have "volume (book s') = of_nat (volume_updates s') * ask_volume targs"
    "quantity (book s') = of_nat (quantity_updates s') * ask_quantity targs"
    unfolding v(1) q(1) tot by (simp_all add: algebra_simps)
  moreover have "w = volume (book s') + ask_volume targs" if "bpcs s' u = Store_volume w" for u w
    using store [of u w] that v(3) [of w] pc by simp
  moreover have "w = quantity (book s') + ask_quantity targs" if "bpcs s' u = Store_quantity w" for u w
    using store [of u _ w] that q(3) [of w] pc by simp
  ultimately show ?thesis using inv unfolding book_inv_def ins s'(1,2) by blast
qed

lemma inv_enter:
  assumes inv: "book_inv free targs s" and t: "t < BOOK_THREADS" "updates s t < BOOK_UPDATES" and f: "free (book_lock s)"
    and s': "\<not> free (book_lock s')" "updates s' = updates s" "bpcs s' = (bpcs s)(t := Set_bid)" "book s' = book s"
  shows "book_inv free targs s'"
proof -
  have out: "bpcs s u = Acquire" for u using inv f outside unfolding book_inv_def by blast
  have "volume_updates s' = volume_updates s" "quantity_updates s' = quantity_updates s"
    using totals_change [OF t(1), of s' s] s' out by simp_all
  then show ?thesis using inv out t s' by (simp add: book_inv_def)
qed

lemma inv_leave:
  assumes inv: "book_inv free targs s" and t: "bpcs s t = Release"
    and s': "free (book_lock s')" "updates s' = (updates s)(t := updates s t + 1)" "bpcs s' = (bpcs s)(t := Acquire)" "book s' = book s"
  shows "book_inv free targs s'"
proof -
  have ti: "inside (bpcs s t)" using t by simp
  then have t4: "t < BOOK_THREADS" "updates s t < BOOK_UPDATES" using inv by (simp_all add: book_inv_def)
  have "bpcs s u = Acquire" if "u \<noteq> t" for u using inv ti that outside unfolding book_inv_def by blast
  then have out: "bpcs s' u = Acquire" for u using s'(3) by simp
  have "volume_updates s' = volume_updates s" "quantity_updates s' = quantity_updates s"
    using totals_change [OF t4(1), of s' s] s' t by simp_all
  then show ?thesis using inv out t4 s' by (simp add: book_inv_def)
qed

text \<open>
  A free lock is taken by the first attempt and is then no longer free; an attempt on a held lock fails and
  leaves it held; releasing makes it free.
\<close>

locale mutual_exclusion =
  fixes try_lock :: "'l \<Rightarrow> 'l \<times> bool" and unlock :: "'l \<Rightarrow> 'l" and free :: "'l \<Rightarrow> bool"
  assumes taken: "snd (try_lock l) = free l" and held: "\<not> free (fst (try_lock l))"
    and released: "\<not> free l \<Longrightarrow> free (unlock l)"
begin

lemma step_keeps:
  assumes inv: "book_inv free targs s" and t: "t < BOOK_THREADS"
  shows "book_inv free targs (updateOrder try_lock unlock targs t s)"
proof (cases "bpcs s t")
  case Acquire
  obtain l ok where l: "try_lock (book_lock s) = (l, ok)" by (cases "try_lock (book_lock s)")
  have ok: "ok = free (book_lock s)" "\<not> free l" using taken [of "book_lock s"] held [of "book_lock s"] by (simp_all add: l)
  show ?thesis
  proof (cases "updates s t < BOOK_UPDATES \<and> ok")
    case True
    show ?thesis
      by (rule inv_enter [OF inv t]) (use True Acquire l ok in \<open>simp_all add: updateOrder_def to_pc_def\<close>)
  next
    case False
    let ?s = "s\<lparr>book_lock := l\<rparr>"
    have "to_pc t Acquire ?s = ?s" using Acquire by (simp add: to_pc_def fun_upd_idem)
    then have "updateOrder try_lock unlock targs t s = s \<or> (\<not> ok \<and> updateOrder try_lock unlock targs t s = ?s)"
      using Acquire l False by (simp add: updateOrder_def)
    moreover have vu: "volume_updates ?s = volume_updates s" "quantity_updates ?s = quantity_updates s"
      by (simp_all add: volume_updates_def quantity_updates_def)
    have sel: "book_lock ?s = l" "bpcs ?s = bpcs s" "book ?s = book s" "updates ?s = updates s" by simp_all
    have "\<not> ok \<Longrightarrow> book_inv free targs ?s" using inv ok unfolding book_inv_def vu sel by blast
    ultimately show ?thesis using inv by auto
  qed
next
  case Set_bid
  then show ?thesis
    by (intro inv_inside [OF inv, of t _ Set_price 0 0]) (simp_all add: updateOrder_def to_pc_def)
next
  case Set_price
  then show ?thesis
    by (intro inv_inside [OF inv, of t _ Load_volume 0 0]) (simp_all add: updateOrder_def to_pc_def)
next
  case Load_volume
  then show ?thesis
    by (intro inv_inside [OF inv, of t _ "Store_volume (volume (book s) + ask_volume targs)" 0 0])
      (simp_all add: updateOrder_def to_pc_def)
next
  case (Store_volume v)
  then have "v = volume (book s) + ask_volume targs" using inv unfolding book_inv_def by blast
  then show ?thesis using Store_volume
    by (intro inv_inside [OF inv, of t _ Load_quantity 1 0]) (simp_all add: updateOrder_def to_pc_def)
next
  case Load_quantity
  then show ?thesis
    by (intro inv_inside [OF inv, of t _ "Store_quantity (quantity (book s) + ask_quantity targs)" 0 0])
      (simp_all add: updateOrder_def to_pc_def)
next
  case (Store_quantity v)
  then have "v = quantity (book s) + ask_quantity targs" using inv unfolding book_inv_def by blast
  then show ?thesis using Store_quantity
    by (intro inv_inside [OF inv, of t _ Release 0 1]) (simp_all add: updateOrder_def to_pc_def)
next
  case Release
  then have "\<not> free (book_lock s)" using inv unfolding book_inv_def by (metis inside.simps(8))
  then show ?thesis
    using Release released by (intro inv_leave [OF inv Release]) (simp_all add: updateOrder_def to_pc_def)
qed

lemma run_keeps:
  "book_inv free targs s \<Longrightarrow> book_inv free targs (book_run try_lock unlock targs ts s)"
  by (induction ts arbitrary: s) (auto simp: step_keeps)

lemma start_inv: "free l \<Longrightarrow> book_inv free targs (book_start l)"
  by (simp add: book_inv_def book_start_def volume_updates_def quantity_updates_def)

text \<open>Some thread can always take a step that gets on, until all have finished.\<close>

lemma no_deadlock:
  assumes inv: "book_inv free targs s" and unfinished: "\<exists>t<BOOK_THREADS. updates s t < BOOK_UPDATES"
  shows "\<exists>t<BOOK_THREADS. updateOrder try_lock unlock targs t s \<noteq> s \<and> bpcs (updateOrder try_lock unlock targs t s) t \<noteq> bpcs s t"
proof (cases "\<exists>t. inside (bpcs s t)")
  case True
  then obtain t where t: "inside (bpcs s t)" by blast
  then have "bpcs (updateOrder try_lock unlock targs t s) t \<noteq> bpcs s t"
    by (cases "bpcs s t") (simp_all add: updateOrder_def to_pc_def)
  moreover have "t < BOOK_THREADS" using inv t by (simp add: book_inv_def)
  ultimately show ?thesis by (intro exI [of _ t]) auto
next
  case False
  obtain t where t: "t < BOOK_THREADS" "updates s t < BOOK_UPDATES" using unfinished by blast
  have a: "bpcs s t = Acquire" using False outside by blast
  have "snd (try_lock (book_lock s))" using inv False taken by (simp add: book_inv_def)
  then obtain l where "try_lock (book_lock s) = (l, True)" by (cases "try_lock (book_lock s)") simp
  then have "bpcs (updateOrder try_lock unlock targs t s) t = Set_bid"
    using a t(2) by (simp add: updateOrder_def to_pc_def)
  then show ?thesis using a t(1) by (intro exI [of _ t]) auto
qed

lemma final_totals:
  assumes inv: "book_inv free targs s" and fin: "\<And>t. t < BOOK_THREADS \<Longrightarrow> updates s t = BOOK_UPDATES"
  shows "volume (book s) = of_nat (BOOK_THREADS * BOOK_UPDATES) * ask_volume targs"
    "quantity (book s) = of_nat (BOOK_THREADS * BOOK_UPDATES) * ask_quantity targs" "free (book_lock s)"
proof -
  have out: "\<not> inside (bpcs s t)" for t using inv fin [of t] unfolding book_inv_def by (metis less_irrefl)
  then have a: "bpcs s t = Acquire" for t using outside by blast
  have "volume_updates s = BOOK_THREADS * BOOK_UPDATES" "quantity_updates s = BOOK_THREADS * BOOK_UPDATES"
    by (simp_all add: volume_updates_def quantity_updates_def a fin)
  then show "volume (book s) = of_nat (BOOK_THREADS * BOOK_UPDATES) * ask_volume targs"
    "quantity (book s) = of_nat (BOOK_THREADS * BOOK_UPDATES) * ask_quantity targs"
    using inv by (simp_all add: book_inv_def)
  show "free (book_lock s)" using inv out by (simp add: book_inv_def)
qed

end

interpretation pthread: mutual_exclusion mutex_try_lock mutex_unlock "\<lambda>m. m = Unlocked"
  by unfold_locales (auto simp: mutex_try_lock_def mutex_unlock_def split: mutex.splits)

interpretation spin: mutual_exclusion acquire_attempt release_flag "\<lambda>l. \<not> flag l"
  by unfold_locales (simp_all add: acquire_attempt_def test_and_set_def release_flag_def)

subsection \<open>Properties\<close>

text \<open>The totals \<^verbatim>\<open>main\<close> expects.\<close>

lemma book_totals: "of_nat (BOOK_THREADS * BOOK_UPDATES) * ask_volume book_args = (400000 :: u32)"
  "of_nat (BOOK_THREADS * BOOK_UPDATES) * ask_quantity book_args = (2000000 :: u64)"
  by (simp_all add: BOOK_THREADS_def BOOK_UPDATES_def book_args_def)

text \<open>C22: Under every schedule of the four threads, with the mutex and with the spin lock, at most one thread
  is between acquire and release, no update is lost (the volume is the number of volume updates made, the
  quantity five times the number of quantity updates), as long as a thread has updates left some thread
  gets on, and when all have finished the totals are those main expects, 400000 and 2000000.\<close>

theorem order_book_locked:
  fixes ts :: "nat list"
  defines "m \<equiv> mutex_book_run ts" and "p \<equiv> spin_book_run ts"
  shows "(\<forall>t u. inside (bpcs m t) \<and> inside (bpcs m u) \<longrightarrow> t = u) \<and>
     volume (book m) = of_nat (volume_updates m) \<and> quantity (book m) = 5 * of_nat (quantity_updates m) \<and>
     ((\<exists>t<BOOK_THREADS. updates m t < BOOK_UPDATES) \<longrightarrow>
       (\<exists>t<BOOK_THREADS. bpcs (mutex_updateOrder book_args t m) t \<noteq> bpcs m t)) \<and>
     ((\<forall>t<BOOK_THREADS. updates m t = BOOK_UPDATES) \<longrightarrow> volume (book m) = 400000 \<and> quantity (book m) = 2000000) \<and>
     (\<forall>t u. inside (bpcs p t) \<and> inside (bpcs p u) \<longrightarrow> t = u) \<and>
     volume (book p) = of_nat (volume_updates p) \<and> quantity (book p) = 5 * of_nat (quantity_updates p) \<and>
     ((\<exists>t<BOOK_THREADS. updates p t < BOOK_UPDATES) \<longrightarrow>
       (\<exists>t<BOOK_THREADS. bpcs (spin_updateOrder book_args t p) t \<noteq> bpcs p t)) \<and>
     ((\<forall>t<BOOK_THREADS. updates p t = BOOK_UPDATES) \<longrightarrow> volume (book p) = 400000 \<and> quantity (book p) = 2000000)"
proof -
  have m: "book_inv (\<lambda>m. m = Unlocked) book_args m"
    unfolding m_def mutex_book_run_def by (intro pthread.run_keeps pthread.start_inv refl)
  have p: "book_inv (\<lambda>l. \<not> flag l) book_args p"
    unfolding p_def spin_book_run_def by (intro spin.run_keeps spin.start_inv) (simp add: spinLock_init_def)
  have one: "\<forall>t u. inside (bpcs m t) \<and> inside (bpcs m u) \<longrightarrow> t = u"
    "\<forall>t u. inside (bpcs p t) \<and> inside (bpcs p u) \<longrightarrow> t = u"
    using m p by (simp_all add: book_inv_def)
  have totals: "volume (book m) = of_nat (volume_updates m)" "quantity (book m) = 5 * of_nat (quantity_updates m)"
    "volume (book p) = of_nat (volume_updates p)" "quantity (book p) = 5 * of_nat (quantity_updates p)"
    using m p by (simp_all add: book_inv_def book_args_def)
  have live: "(\<exists>t<BOOK_THREADS. updates m t < BOOK_UPDATES) \<longrightarrow>
       (\<exists>t<BOOK_THREADS. bpcs (mutex_updateOrder book_args t m) t \<noteq> bpcs m t)"
    "(\<exists>t<BOOK_THREADS. updates p t < BOOK_UPDATES) \<longrightarrow>
       (\<exists>t<BOOK_THREADS. bpcs (spin_updateOrder book_args t p) t \<noteq> bpcs p t)"
    unfolding mutex_updateOrder_def spin_updateOrder_def
    using pthread.no_deadlock [OF m] spin.no_deadlock [OF p] by blast+
  have final: "(\<forall>t<BOOK_THREADS. updates m t = BOOK_UPDATES) \<longrightarrow> volume (book m) = 400000 \<and> quantity (book m) = 2000000"
    "(\<forall>t<BOOK_THREADS. updates p t = BOOK_UPDATES) \<longrightarrow> volume (book p) = 400000 \<and> quantity (book p) = 2000000"
    using pthread.final_totals [OF m] spin.final_totals [OF p] unfolding book_totals by blast+
  show ?thesis by (intro conjI one totals live final)
qed

theorem order_book_locked_witness:
  "volume (book (mutex_book_run [0, 0, 1, 0])) = of_nat (volume_updates (mutex_book_run [0, 0, 1, 0])) \<and>
   (\<exists>t<BOOK_THREADS. bpcs (spin_updateOrder book_args t (spin_book_run [0, 0, 1, 0])) t \<noteq>
      bpcs (spin_book_run [0, 0, 1, 0]) t)"
proof -
  have "updates (spin_book_run [0, 0, 1, 0]) 2 = 0"
    by (simp add: spin_book_run_def book_start_def updateOrder_def to_pc_def acquire_attempt_def test_and_set_def
      BOOK_THREADS_def BOOK_UPDATES_def spinLock_init_def)
  then have "\<exists>t<BOOK_THREADS. updates (spin_book_run [0, 0, 1, 0]) t < BOOK_UPDATES"
    by (intro exI [of _ 2]) (simp add: BOOK_THREADS_def BOOK_UPDATES_def)
  then show ?thesis using order_book_locked [of "[0, 0, 1, 0]"] by blast
qed

end
