(* ===== verification/Thread_Pool.thy ===== *)
theory Thread_Pool
  imports Prelude "HOL-Library.Multiset" "HOL-Library.Sublist"
begin

text \<open>
  The thread pool of \<^verbatim>\<open>Phase-2/Day34/C/JobSystem.c\<close>: a circular queue of tasks under a mutex, workers that
  wait on a condition variable, a shutdown that drains the queue. The main thread creates the pool, adds the
  tasks of a list and destroys the pool. A step is one step of one thread: taking the mutex is a step of its
  own, and so is what a thread does while it holds it. The schedule says who moves, whether a waiting thread
  wakes spuriously, and which waiter a signal wakes.

  A task is a value of any type: the pair of function and argument. Sizes stay below the capacity and are
  natural numbers. \<open>accepted\<close>, \<open>taken\<close> and \<open>executed\<close> record what happened and are not in the code.
\<close>

subsection \<open>The pool\<close>

datatype thread_id = Main | Worker nat

datatype 'a wpc = W_lock | W_test | W_wait | W_run 'a | W_exit

datatype mpc = M_next | M_add_body | M_destroy_lock | M_destroy_body | M_join nat | M_done

record 'a threadpool_t =
  tasks :: "'a list"
  capacity :: nat
  head :: nat
  tail :: nat
  count :: nat
  shutdown :: bool
  lock :: "thread_id option"
  thread_count :: nat
  wpcs :: "nat \<Rightarrow> 'a wpc"
  main_pc :: mpc
  script :: "'a list"
  accepted :: "'a list"
  taken :: "'a list"
  executed :: "'a list"

subsection \<open>Creation\<close>

text \<open>
  \<open>memory\<close> says whether the three calls of \<^verbatim>\<open>malloc\<close> succeed (with the unspecified contents of the task array),
  \<open>inits\<close> whether mutex and condition variable can be initialised, \<open>started\<close> how many threads can be
  created. When a thread cannot be created the pool is destroyed again, with the threads there are.
\<close>

datatype 'a creation = No_pool | Pool "'a threadpool_t" | Clean_up "'a threadpool_t"

definition fresh_pool :: "'a list \<Rightarrow> nat \<Rightarrow> nat \<Rightarrow> mpc \<Rightarrow> 'a list \<Rightarrow> 'a threadpool_t" where
  "fresh_pool junk cap n pc todo = \<lparr>tasks = junk, capacity = cap, head = 0, tail = 0, count = 0, shutdown = False,
     lock = None, thread_count = n, wpcs = (\<lambda>_. W_lock), main_pc = pc, script = todo, accepted = [],
     taken = [], executed = []\<rparr>"

definition threadpool_create :: "'a list option \<Rightarrow> bool \<Rightarrow> nat \<Rightarrow> nat \<Rightarrow> nat \<Rightarrow> 'a list \<Rightarrow> 'a creation" where
  "threadpool_create memory inits started threads cap todo =
     (if threads = 0 \<or> cap = 0 then No_pool
      else case memory of
        None \<Rightarrow> No_pool
      | Some junk \<Rightarrow>
          if \<not> inits then No_pool
          else if started < threads then Clean_up (fresh_pool junk cap started M_destroy_lock [])
          else Pool (fresh_pool junk cap threads M_next todo))"

subsection \<open>Steps\<close>

definition set_worker :: "nat \<Rightarrow> 'a wpc \<Rightarrow> 'a threadpool_t \<Rightarrow> 'a threadpool_t" where
  "set_worker w p s = s\<lparr>wpcs := (wpcs s)(w := p)\<rparr>"

text \<open>\<^verbatim>\<open>pthread_cond_signal\<close> wakes the waiter \<open>w\<close> of the schedule, or another one if \<open>w\<close> is not waiting.\<close>

definition waiters :: "'a threadpool_t \<Rightarrow> nat list" where
  "waiters s = filter (\<lambda>w. wpcs s w = W_wait) [0..<thread_count s]"

definition cond_signal :: "nat \<Rightarrow> 'a threadpool_t \<Rightarrow> 'a threadpool_t" where
  "cond_signal w s =
     (if waiters s = [] then s
      else set_worker (if w \<in> set (waiters s) then w else hd (waiters s)) W_lock s)"

definition cond_broadcast :: "'a threadpool_t \<Rightarrow> 'a threadpool_t" where
  "cond_broadcast s = s\<lparr>wpcs := (\<lambda>w. if wpcs s w = W_wait then W_lock else wpcs s w)\<rparr>"

definition worker_thread :: "nat \<Rightarrow> bool \<Rightarrow> 'a threadpool_t \<Rightarrow> 'a threadpool_t" where
  "worker_thread w spurious s =
     (case wpcs s w of
        W_lock \<Rightarrow> if lock s = None then set_worker w W_test (s\<lparr>lock := Some (Worker w)\<rparr>) else s
      | W_test \<Rightarrow>
          if count s = 0 \<and> \<not> shutdown s then set_worker w W_wait (s\<lparr>lock := None\<rparr>)
          else if shutdown s \<and> count s = 0 then set_worker w W_exit (s\<lparr>lock := None\<rparr>)
          else (let task = tasks s ! head s in
                set_worker w (W_run task)
                  (s\<lparr>head := (head s + 1) mod capacity s, count := count s - 1, lock := None, taken := taken s @ [task]\<rparr>))
      | W_wait \<Rightarrow> if spurious then set_worker w W_lock s else s
      | W_run task \<Rightarrow> set_worker w W_lock (s\<lparr>executed := executed s @ [task]\<rparr>)
      | W_exit \<Rightarrow> s)"

text \<open>The body of \<open>threadpool_add\<close> for the next task of the script; a refused task is dropped by the caller.\<close>

definition threadpool_add :: "nat \<Rightarrow> 'a \<Rightarrow> 'a threadpool_t \<Rightarrow> 'a threadpool_t" where
  "threadpool_add w task s =
     (if count s = capacity s \<or> shutdown s then s\<lparr>lock := None\<rparr>
      else (cond_signal w (s\<lparr>tasks := (tasks s)[tail s := task], tail := (tail s + 1) mod capacity s,
              count := count s + 1, accepted := accepted s @ [task]\<rparr>))\<lparr>lock := None\<rparr>)"

definition threadpool_destroy :: "'a threadpool_t \<Rightarrow> 'a threadpool_t" where
  "threadpool_destroy s = (cond_broadcast (s\<lparr>shutdown := True\<rparr>))\<lparr>lock := None, main_pc := M_join 0\<rparr>"

definition main_thread :: "nat \<Rightarrow> 'a threadpool_t \<Rightarrow> 'a threadpool_t" where
  "main_thread w s =
     (case main_pc s of
        M_next \<Rightarrow>
          if script s = [] then s\<lparr>main_pc := M_destroy_lock\<rparr>
          else if lock s = None then s\<lparr>lock := Some Main, main_pc := M_add_body\<rparr> else s
      | M_add_body \<Rightarrow> (threadpool_add w (hd (script s)) s)\<lparr>script := tl (script s), main_pc := M_next\<rparr>
      | M_destroy_lock \<Rightarrow> if lock s = None then s\<lparr>lock := Some Main, main_pc := M_destroy_body\<rparr> else s
      | M_destroy_body \<Rightarrow> threadpool_destroy s
      | M_join i \<Rightarrow>
          if i < thread_count s then (if wpcs s i = W_exit then s\<lparr>main_pc := M_join (i + 1)\<rparr> else s)
          else s\<lparr>main_pc := M_done\<rparr>
      | M_done \<Rightarrow> s)"

fun pool_run :: "(thread_id \<times> nat \<times> bool) list \<Rightarrow> 'a threadpool_t \<Rightarrow> 'a threadpool_t" where
  "pool_run [] s = s"
| "pool_run ((Main, w, spurious) # es) s = pool_run es (main_thread w s)"
| "pool_run ((Worker t, w, spurious) # es) s =
     pool_run es (if t < thread_count s then worker_thread t spurious s else s)"

subsection \<open>The program\<close>

text \<open>
  \<^verbatim>\<open>main\<close> hands over the task numbers below eight for which it gets memory, \<open>got\<close>. A task prints its number;
  numbers here have one digit. The answer is the exit code with the final state of the pool.
\<close>

definition sample_work :: "nat \<Rightarrow> string" where
  "sample_work i = ''Task '' @ [char_of (48 + i)] @ '' done''"

definition job_main :: "nat list option \<Rightarrow> bool \<Rightarrow> nat \<Rightarrow> (nat \<Rightarrow> bool) \<Rightarrow> (thread_id \<times> nat \<times> bool) list \<Rightarrow>
    nat \<times> nat threadpool_t option" where
  "job_main memory inits started got es =
     (case threadpool_create memory inits started 4 16 (filter got [0..<8]) of
        Pool s \<Rightarrow> (0, Some (pool_run es s))
      | _ \<Rightarrow> (1, None))"

definition printed :: "nat threadpool_t \<Rightarrow> string list" where
  "printed s = map sample_work (executed s)"

subsection \<open>The invariant\<close>

text \<open>The tasks in the queue, in order.\<close>

definition queued :: "'a threadpool_t \<Rightarrow> 'a list" where
  "queued s = ring_list (tasks s) (head s) (count s)"

fun running_task :: "'a wpc \<Rightarrow> 'a multiset" where
  "running_task (W_run task) = {#task#}"
| "running_task p = {#}"

definition in_progress :: "'a threadpool_t \<Rightarrow> 'a multiset" where
  "in_progress s = (\<Sum>w<thread_count s. running_task (wpcs s w))"

fun blocked :: "'a wpc \<Rightarrow> bool" where
  "blocked W_wait = True"
| "blocked W_exit = True"
| "blocked p = False"

definition ring_ok :: "'a threadpool_t \<Rightarrow> bool" where
  "ring_ok s \<longleftrightarrow> 0 < capacity s \<and> length (tasks s) = capacity s \<and> head s < capacity s \<and> count s \<le> capacity s \<and>
     tail s = (head s + count s) mod capacity s \<and> accepted s = taken s @ queued s"

definition lock_ok :: "'a threadpool_t \<Rightarrow> bool" where
  "lock_ok s \<longleftrightarrow> (lock s = Some Main \<longleftrightarrow> main_pc s = M_add_body \<or> main_pc s = M_destroy_body) \<and>
     (\<forall>w. lock s = Some (Worker w) \<longleftrightarrow> wpcs s w = W_test) \<and>
     (\<forall>w. thread_count s \<le> w \<longrightarrow> wpcs s w = W_lock) \<and> (main_pc s = M_add_body \<longrightarrow> script s \<noteq> [])"

definition wake_ok :: "'a threadpool_t \<Rightarrow> bool" where
  "wake_ok s \<longleftrightarrow>
     (0 < count s \<longrightarrow> (\<exists>w<thread_count s. \<not> blocked (wpcs s w))) \<and>
     (shutdown s \<longleftrightarrow> main_pc s = M_done \<or> (\<exists>i. main_pc s = M_join i)) \<and>
     (shutdown s \<longrightarrow> (\<forall>w. wpcs s w \<noteq> W_wait)) \<and>
     (\<forall>w. wpcs s w = W_exit \<longrightarrow> shutdown s \<and> count s = 0) \<and>
     (\<forall>i w. main_pc s = M_join i \<longrightarrow> w < i \<longrightarrow> w < thread_count s \<and> wpcs s w = W_exit) \<and>
     (main_pc s = M_done \<longrightarrow> (\<forall>w<thread_count s. wpcs s w = W_exit)) \<and>
     (script s \<noteq> [] \<longrightarrow> 0 < thread_count s)"

definition script_ok :: "'a list \<Rightarrow> 'a threadpool_t \<Rightarrow> bool" where
  "script_ok todo s \<longleftrightarrow> subseq (accepted s @ script s) todo \<and> (length todo \<le> capacity s \<longrightarrow> accepted s @ script s = todo) \<and>
     (shutdown s \<or> main_pc s = M_destroy_lock \<or> main_pc s = M_destroy_body \<longrightarrow> script s = [])"

definition pool_inv :: "'a list \<Rightarrow> 'a threadpool_t \<Rightarrow> bool" where
  "pool_inv todo s \<longleftrightarrow> ring_ok s \<and> lock_ok s \<and> wake_ok s \<and> script_ok todo s \<and>
     mset (taken s) = mset (executed s) + in_progress s"

subsection \<open>The queue\<close>

lemma queued_take:
  assumes "0 < count s" "capacity s' = capacity s" "tasks s' = tasks s" "length (tasks s) = capacity s"
    "head s' = (head s + 1) mod capacity s" "count s' = count s - 1" "head s < capacity s"
  shows "queued s = tasks s ! head s # queued s'"
  using ring_list_take [of "count s" "head s" "tasks s"] assms by (simp add: queued_def)

lemma queued_add:
  assumes r: "ring_ok s" "count s < capacity s" and s': "capacity s' = capacity s" "tasks s' = (tasks s)[tail s := t]"
    "head s' = head s" "count s' = count s + 1"
  shows "queued s' = queued s @ [t]"
  using ring_list_put [of "count s" "tasks s" "head s" t] r by (simp add: queued_def s' ring_ok_def)

lemma queued_cong:
  "tasks s' = tasks s \<Longrightarrow> capacity s' = capacity s \<Longrightarrow> head s' = head s \<Longrightarrow> count s' = count s \<Longrightarrow> queued s' = queued s"
  by (simp add: queued_def)

lemma ring_ok_cong:
  assumes "ring_ok s" "tasks s' = tasks s" "capacity s' = capacity s" "head s' = head s" "count s' = count s"
    "tail s' = tail s" "accepted s' = accepted s" "taken s' = taken s"
  shows "ring_ok s'"
  using assms(1) queued_cong [OF assms(2-5)] by (simp add: ring_ok_def assms(2-8))

lemma wake_ok_cong:
  assumes "wake_ok s" "count s' = count s" "shutdown s' = shutdown s" "thread_count s' = thread_count s" "wpcs s' = wpcs s"
    "main_pc s' = main_pc s" "script s' = script s"
  shows "wake_ok s'"
  using assms(1) unfolding wake_ok_def assms(2-7) .

lemma wake_ok_before_join:
  assumes k: "wake_ok s" and pc: "\<not> shutdown s" "main_pc s' \<noteq> M_done" "\<And>i. main_pc s' \<noteq> M_join i"
    and same: "count s' = count s" "shutdown s' = shutdown s" "thread_count s' = thread_count s" "wpcs s' = wpcs s" "script s' = script s"
  shows "wake_ok s'"
proof -
  have "wpcs s v \<noteq> W_exit" for v using k pc(1) by (auto simp: wake_ok_def)
  then show ?thesis using k pc unfolding wake_ok_def same by simp
qed

lemma in_progress_set:
  assumes "w < thread_count s" "thread_count s' = thread_count s" "wpcs s' = (wpcs s)(w := p)"
  shows "in_progress s' + running_task (wpcs s w) = in_progress s + running_task p"
proof -
  have A: "(\<Sum>v<thread_count s. running_task (q v)) = (\<Sum>v\<in>{..<thread_count s} - {w}. running_task (q v)) + running_task (q w)"
    for q :: "nat \<Rightarrow> 'a wpc"
    using assms(1) by (subst sum.remove [of _ w]) (simp_all add: add.commute)
  have "(\<Sum>v\<in>{..<thread_count s} - {w}. running_task (((wpcs s)(w := p)) v)) =
      (\<Sum>v\<in>{..<thread_count s} - {w}. running_task (wpcs s v))"
    by (rule sum.cong) simp_all
  then show ?thesis unfolding in_progress_def assms(2,3) A [of "wpcs s"] A [of "(wpcs s)(w := p)"] by simp
qed

lemma in_progress_cong:
  "thread_count s' = thread_count s \<Longrightarrow> (\<And>w. running_task (wpcs s' w) = running_task (wpcs s w)) \<Longrightarrow> in_progress s' = in_progress s"
  by (simp add: in_progress_def)

subsection \<open>Every step of a worker keeps the invariant\<close>

lemma set_worker_sel [simp]:
  "tasks (set_worker w p s) = tasks s" "capacity (set_worker w p s) = capacity s" "head (set_worker w p s) = head s"
  "tail (set_worker w p s) = tail s" "count (set_worker w p s) = count s" "shutdown (set_worker w p s) = shutdown s"
  "lock (set_worker w p s) = lock s" "thread_count (set_worker w p s) = thread_count s"
  "wpcs (set_worker w p s) = (wpcs s)(w := p)" "main_pc (set_worker w p s) = main_pc s"
  "script (set_worker w p s) = script s" "accepted (set_worker w p s) = accepted s" "taken (set_worker w p s) = taken s"
  "executed (set_worker w p s) = executed s"
  by (simp_all add: set_worker_def)

text \<open>A worker moves to a point that is neither waiting nor the end, with or without the mutex.\<close>

lemma wake_ok_active:
  assumes "wake_ok s" "w < thread_count s" "\<not> blocked p" "wpcs s w \<noteq> W_exit"
    "thread_count s' = thread_count s" "wpcs s' = (wpcs s)(w := p)" "shutdown s' = shutdown s" "main_pc s' = main_pc s"
    "script s' = script s" "count s' \<le> count s"
  shows "wake_ok s'"
proof -
  have p: "p \<noteq> W_wait" "p \<noteq> W_exit" using assms(3) by auto
  have exits: "(wpcs s' v = W_exit) = (wpcs s v = W_exit)" for v using p assms(4,6) by simp
  have waits: "wpcs s' v = W_wait \<Longrightarrow> wpcs s v = W_wait" for v using p assms(6) by (simp split: if_splits)
  have "\<exists>v<thread_count s. \<not> blocked (wpcs s' v)" using assms(2,3,6) by (intro exI [of _ w]) simp
  moreover have "shutdown s \<longrightarrow> (\<forall>v. wpcs s' v \<noteq> W_wait)" using assms(1) waits unfolding wake_ok_def by blast
  moreover have "\<forall>v. wpcs s v = W_exit \<longrightarrow> shutdown s \<and> count s' = 0" using assms(1,10) unfolding wake_ok_def by fastforce
  ultimately show ?thesis using assms(1) unfolding wake_ok_def exits assms(5,7,8,9) by blast
qed

lemma lock_ok_worker:
  assumes "lock_ok s" "w < thread_count s" "thread_count s' = thread_count s" "wpcs s' = (wpcs s)(w := p)"
    "main_pc s' = main_pc s" "script s' = script s"
    "(lock s = None \<and> lock s' = Some (Worker w) \<and> p = W_test) \<or> (lock s = Some (Worker w) \<and> lock s' = None \<and> p \<noteq> W_test)
      \<or> (lock s' = lock s \<and> p \<noteq> W_test \<and> wpcs s w \<noteq> W_test)"
  shows "lock_ok s'"
proof -
  have m: "lock s = Some Main \<longleftrightarrow> main_pc s = M_add_body \<or> main_pc s = M_destroy_body"
    and t: "\<And>v. wpcs s v = W_test \<longleftrightarrow> lock s = Some (Worker v)" and o: "\<And>v. thread_count s \<le> v \<Longrightarrow> wpcs s v = W_lock"
    and sc: "main_pc s = M_add_body \<longrightarrow> script s \<noteq> []"
    using assms(1) by (simp_all add: lock_ok_def)
  have "lock s' = Some Main \<longleftrightarrow> lock s = Some Main" using assms(7) by auto
  moreover have "lock s' = Some (Worker v) \<longleftrightarrow> wpcs s' v = W_test" for v
    using assms(7) t [of v] t [of w] by (auto simp: assms(4))
  moreover have "thread_count s \<le> v \<longrightarrow> wpcs s' v = W_lock" for v using o [of v] assms(2) by (simp add: assms(4))
  ultimately show ?thesis using m sc by (simp add: lock_ok_def assms(3,5,6))
qed

lemma script_ok_cong:
  assumes "script_ok todo s" "capacity s' = capacity s" "accepted s' = accepted s" "script s' = script s"
    "shutdown s' = shutdown s" "main_pc s' = main_pc s"
  shows "script_ok todo s'"
  using assms(1) by (simp add: script_ok_def assms(2-6))

lemma take_keeps:
  fixes s :: "'a threadpool_t" and w :: nat
  defines "s' \<equiv> set_worker w (W_run (tasks s ! head s)) (s\<lparr>head := (head s + 1) mod capacity s, count := count s - 1,
      lock := None, taken := taken s @ [tasks s ! head s]\<rparr>)"
  assumes inv: "pool_inv todo s" and w: "w < thread_count s" "wpcs s w = W_test" and c: "0 < count s"
  shows "pool_inv todo s'"
proof -
  have sel: "tasks s' = tasks s" "capacity s' = capacity s" "head s' = (head s + 1) mod capacity s" "tail s' = tail s"
    "count s' = count s - 1" "shutdown s' = shutdown s" "lock s' = None" "thread_count s' = thread_count s"
    "wpcs s' = (wpcs s)(w := W_run (tasks s ! head s))" "main_pc s' = main_pc s" "script s' = script s"
    "accepted s' = accepted s" "taken s' = taken s @ [tasks s ! head s]" "executed s' = executed s"
    by (simp_all add: s'_def)
  have r: "ring_ok s" and l: "lock_ok s" and k: "wake_ok s" and sc: "script_ok todo s"
    and ms: "mset (taken s) = mset (executed s) + in_progress s"
    using inv by (simp_all add: pool_inv_def)
  have "queued s = tasks s ! head s # queued s'"
    using r c by (intro queued_take) (simp_all add: sel ring_ok_def)
  moreover have "(head s + count s) mod capacity s = ((head s + 1) mod capacity s + (count s - 1)) mod capacity s"
    using ring_tail_take [OF c, of "head s" "capacity s"] by simp
  moreover have "count s - 1 \<le> capacity s" using r unfolding ring_ok_def by linarith
  ultimately have "ring_ok s'" using r by (simp add: ring_ok_def sel)
  moreover have "lock_ok s'"
  proof (rule lock_ok_worker [OF l w(1) sel(8,9,10,11)])
    show "lock s = None \<and> lock s' = Some (Worker w) \<and> W_run (tasks s ! head s) = W_test \<or>
      lock s = Some (Worker w) \<and> lock s' = None \<and> W_run (tasks s ! head s) \<noteq> W_test \<or>
      lock s' = lock s \<and> W_run (tasks s ! head s) \<noteq> W_test \<and> wpcs s w \<noteq> W_test"
      using l w(2) by (simp add: lock_ok_def sel)
  qed
  moreover have "wake_ok s'" using w by (intro wake_ok_active [OF k w(1)]) (simp_all add: sel)
  moreover have "script_ok todo s'" by (rule script_ok_cong [OF sc]) (simp_all add: sel)
  moreover have "mset (taken s') = mset (executed s') + in_progress s'"
    using ms in_progress_set [OF w(1) sel(8,9)] w(2) by (simp add: sel)
  ultimately show ?thesis by (simp add: pool_inv_def)
qed

text \<open>Every other move of a worker leaves the queue alone.\<close>

lemma move_keeps:
  assumes inv: "pool_inv todo s" and w: "w < thread_count s" and same: "tasks s' = tasks s" "capacity s' = capacity s"
    "head s' = head s" "tail s' = tail s" "count s' = count s" "shutdown s' = shutdown s" "thread_count s' = thread_count s"
    "wpcs s' = (wpcs s)(w := p)" "main_pc s' = main_pc s" "script s' = script s" "accepted s' = accepted s" "taken s' = taken s"
    and l: "(lock s = None \<and> lock s' = Some (Worker w) \<and> p = W_test) \<or> (lock s = Some (Worker w) \<and> lock s' = None \<and> p \<noteq> W_test)
      \<or> (lock s' = lock s \<and> p \<noteq> W_test \<and> wpcs s w \<noteq> W_test)"
    and k: "wake_ok s'" and e: "mset (executed s') + running_task p = mset (executed s) + running_task (wpcs s w)"
  shows "pool_inv todo s'"
proof -
  have i: "ring_ok s" "lock_ok s" "script_ok todo s" and ms: "mset (taken s) = mset (executed s) + in_progress s"
    using inv by (simp_all add: pool_inv_def)
  have "ring_ok s'" by (rule ring_ok_cong [OF i(1)]) (simp_all add: same)
  moreover have "lock_ok s'" by (rule lock_ok_worker [OF i(2) w same(7,8,9,10) l])
  moreover have "script_ok todo s'" by (rule script_ok_cong [OF i(3)]) (simp_all add: same)
  moreover have "mset (taken s') = mset (executed s') + in_progress s'"
  proof -
    have "(mset (executed s') + running_task p) + (in_progress s' + running_task (wpcs s w)) =
        (mset (executed s) + running_task (wpcs s w)) + (in_progress s + running_task p)"
      by (simp only: e in_progress_set [OF w same(7,8)])
    then have "mset (executed s') + in_progress s' = mset (executed s) + in_progress s"
      by (simp add: ac_simps)
    then show ?thesis using ms by (simp add: same)
  qed
  ultimately show ?thesis using k by (simp add: pool_inv_def)
qed

lemma worker_keeps:
  assumes inv: "pool_inv todo s" and w: "w < thread_count s"
  shows "pool_inv todo (worker_thread w spurious s)"
proof (cases "wpcs s w")
  case W_lock
  have k: "wake_ok s" using inv by (simp add: pool_inv_def)
  let ?s = "set_worker w W_test (s\<lparr>lock := Some (Worker w)\<rparr>)"
  have "wake_ok ?s" by (rule wake_ok_active [OF k w, of W_test]) (simp_all add: W_lock)
  then have "lock s = None \<Longrightarrow> pool_inv todo ?s" by (intro move_keeps [OF inv w, of ?s W_test]) (simp_all add: W_lock)
  then show ?thesis using inv by (simp add: worker_thread_def W_lock)
next
  case W_test
  have k: "wake_ok s" and h: "lock s = Some (Worker w)" using inv W_test by (simp_all add: pool_inv_def lock_ok_def)
  show ?thesis
  proof (cases "count s = 0")
    case True
    let ?p = "if shutdown s then W_exit else W_wait"
    let ?s = "set_worker w ?p (s\<lparr>lock := None\<rparr>)"
    have "wake_ok ?s" using k True w W_test unfolding wake_ok_def by (auto split: if_splits)
    then have "pool_inv todo ?s" by (intro move_keeps [OF inv w, of ?s ?p]) (simp_all add: W_test h)
    then show ?thesis using True by (simp add: worker_thread_def W_test split: if_splits)
  next
    case False
    then show ?thesis using take_keeps [OF inv w W_test] by (simp add: worker_thread_def W_test Let_def)
  qed
next
  case W_wait
  have k: "wake_ok s" using inv by (simp add: pool_inv_def)
  let ?s = "set_worker w W_lock s"
  have "wake_ok ?s" by (rule wake_ok_active [OF k w, of W_lock]) (simp_all add: W_wait)
  then have "pool_inv todo ?s" by (intro move_keeps [OF inv w, of ?s W_lock]) (simp_all add: W_wait)
  then show ?thesis using inv by (simp add: worker_thread_def W_wait)
next
  case (W_run task)
  have k: "wake_ok s" using inv by (simp add: pool_inv_def)
  let ?s = "set_worker w W_lock (s\<lparr>executed := executed s @ [task]\<rparr>)"
  have "wake_ok ?s" by (rule wake_ok_active [OF k w, of W_lock]) (simp_all add: W_run)
  then have "pool_inv todo ?s" by (intro move_keeps [OF inv w, of ?s W_lock]) (simp_all add: W_run)
  then show ?thesis by (simp add: worker_thread_def W_run)
next
  case W_exit
  then show ?thesis using inv by (simp add: worker_thread_def)
qed

subsection \<open>Every step of the main thread keeps the invariant\<close>

text \<open>A signal or broadcast only makes waiting workers runnable.\<close>

definition woken :: "'a threadpool_t \<Rightarrow> 'a threadpool_t \<Rightarrow> bool" where
  "woken s s' \<longleftrightarrow> thread_count s' = thread_count s \<and>
     (\<forall>w. wpcs s' w = wpcs s w \<or> wpcs s w = W_wait \<and> wpcs s' w = W_lock)"

lemma wokenD:
  assumes "woken s s'"
  shows "thread_count s' = thread_count s" "wpcs s' w = W_test \<longleftrightarrow> wpcs s w = W_test"
    "wpcs s' w = W_exit \<longleftrightarrow> wpcs s w = W_exit" "running_task (wpcs s' w) = running_task (wpcs s w)"
    "wpcs s' w = W_wait \<Longrightarrow> wpcs s w = W_wait" "\<not> blocked (wpcs s w) \<Longrightarrow> \<not> blocked (wpcs s' w)"
    "wpcs s w = W_lock \<Longrightarrow> wpcs s' w = W_lock"
  using assms unfolding woken_def
  by (metis wpc.distinct blocked.simps running_task.simps)+

lemma woken_refl: "thread_count s' = thread_count s \<Longrightarrow> wpcs s' = wpcs s \<Longrightarrow> woken s s'"
  by (simp add: woken_def)

lemma cond_signal_sel [simp]:
  "tasks (cond_signal w s) = tasks s" "capacity (cond_signal w s) = capacity s" "head (cond_signal w s) = head s"
  "tail (cond_signal w s) = tail s" "count (cond_signal w s) = count s" "shutdown (cond_signal w s) = shutdown s"
  "lock (cond_signal w s) = lock s" "thread_count (cond_signal w s) = thread_count s"
  "main_pc (cond_signal w s) = main_pc s" "script (cond_signal w s) = script s" "accepted (cond_signal w s) = accepted s"
  "taken (cond_signal w s) = taken s" "executed (cond_signal w s) = executed s"
  by (simp_all add: cond_signal_def)

lemma waiter_iff: "v \<in> set (waiters s) \<longleftrightarrow> v < thread_count s \<and> wpcs s v = W_wait"
  by (auto simp: waiters_def)

lemma cond_signal_wakes:
  obtains v where "v < thread_count s" "wpcs s v = W_wait" "cond_signal w s = set_worker v W_lock s"
  | "\<And>v. v < thread_count s \<Longrightarrow> wpcs s v \<noteq> W_wait" "cond_signal w s = s"
proof (cases "waiters s = []")
  case True
  then have "v < thread_count s \<Longrightarrow> wpcs s v \<noteq> W_wait" for v using waiter_iff [of v s] by auto
  then show ?thesis using True that(2) by (simp add: cond_signal_def)
next
  case False
  let ?v = "if w \<in> set (waiters s) then w else hd (waiters s)"
  have "?v \<in> set (waiters s)" using False by simp
  then have "?v < thread_count s" "wpcs s ?v = W_wait" unfolding waiter_iff by blast+
  moreover have "cond_signal w s = set_worker ?v W_lock s" using False by (simp add: cond_signal_def)
  ultimately show ?thesis by (rule that(1))
qed

lemma cond_signal_woken: "woken s (cond_signal w s)"
  by (cases rule: cond_signal_wakes [of s w]) (simp_all add: woken_def)

lemma main_keeps_same:
  assumes inv: "pool_inv todo s" and t: "woken s s'" and same: "capacity s' = capacity s" "taken s' = taken s" "executed s' = executed s"
    and r: "ring_ok s'" and l: "lock s' = Some Main \<longleftrightarrow> main_pc s' = M_add_body \<or> main_pc s' = M_destroy_body"
    "lock s' = lock s \<or> lock s \<in> {None, Some Main} \<and> lock s' \<in> {None, Some Main}" "main_pc s' = M_add_body \<longrightarrow> script s' \<noteq> []"
    and k: "wake_ok s'" and sc: "script_ok todo s'"
  shows "pool_inv todo s'"
proof -
  have i: "lock_ok s" and ms: "mset (taken s) = mset (executed s) + in_progress s" using inv by (simp_all add: pool_inv_def)
  have "in_progress s' = in_progress s" by (rule in_progress_cong) (simp_all add: wokenD [OF t])
  moreover have "(lock s' = Some (Worker w)) = (wpcs s' w = W_test)" for w
    using i l(2) unfolding wokenD(2) [OF t] lock_ok_def by auto
  moreover have "thread_count s' \<le> w \<longrightarrow> wpcs s' w = W_lock" for w
    using i wokenD(1,7) [OF t] by (simp add: lock_ok_def)
  ultimately show ?thesis using ms r l(1,3) k sc by (simp add: pool_inv_def lock_ok_def same)
qed

lemma subseq_skip: "xs \<noteq> [] \<Longrightarrow> subseq (as @ tl xs) (as @ xs)"
  by (cases xs) (auto intro: list_emb_append_mono)

text \<open>Some worker is runnable after a signal: a woken one, or one that was not waiting.\<close>

lemma cond_signal_runnable:
  assumes "0 < thread_count s" "\<And>v. wpcs s v \<noteq> W_exit"
  shows "\<exists>v<thread_count s. \<not> blocked (wpcs (cond_signal w s) v)"
proof (cases rule: cond_signal_wakes [of s w])
  case (1 v)
  then show ?thesis by (intro exI [of _ v]) simp
next
  case 2
  then have "wpcs s 0 \<noteq> W_wait" "wpcs s 0 \<noteq> W_exit" using assms by simp_all
  then have "\<not> blocked (wpcs s 0)" by (cases "wpcs s 0") simp_all
  then show ?thesis using 2 assms(1) by (intro exI [of _ 0]) simp
qed

lemma refuse_keeps:
  assumes inv: "pool_inv todo s" and pc: "main_pc s = M_add_body" and full: "count s = capacity s"
  shows "pool_inv todo (s\<lparr>lock := None, script := tl (script s), main_pc := M_next\<rparr>)" (is "pool_inv todo ?t")
proof -
  have r: "ring_ok s" and l: "lock_ok s" and k: "wake_ok s" and sc: "script_ok todo s"
    using inv by (simp_all add: pool_inv_def)
  have script: "script s \<noteq> []" "lock s = Some Main" and n: "0 < thread_count s" and down: "\<not> shutdown s"
    using l k pc by (simp_all add: lock_ok_def wake_ok_def)
  have "capacity s \<le> length (accepted s)" using r full by (simp add: ring_ok_def queued_def)
  moreover have "0 < length (script s)" using script by simp
  ultimately have "capacity s < length (accepted s @ script s)" by (simp only: length_append)
  then have "\<not> length todo \<le> capacity s" using sc unfolding script_ok_def by auto
  moreover have "subseq (accepted s @ tl (script s)) todo"
    using subseq_skip [OF script(1)] sc unfolding script_ok_def by (metis subseq_order.trans)
  ultimately have "script_ok todo ?t" using down by (simp add: script_ok_def)
  moreover have "wake_ok ?t" using k n pc down by (auto simp: wake_ok_def)
  moreover have "ring_ok ?t" by (rule ring_ok_cong [OF r]) simp_all
  ultimately show ?thesis by (intro main_keeps_same [OF inv]) (simp_all add: woken_refl script)
qed

lemma accept_keeps:
  fixes w :: nat and s :: "'a threadpool_t"
  defines "a \<equiv> s\<lparr>tasks := (tasks s)[tail s := hd (script s)], tail := (tail s + 1) mod capacity s,
              count := count s + 1, accepted := accepted s @ [hd (script s)]\<rparr>"
  assumes inv: "pool_inv todo s" and pc: "main_pc s = M_add_body" and space: "count s \<noteq> capacity s"
  shows "pool_inv todo ((cond_signal w a)\<lparr>lock := None, script := tl (script s), main_pc := M_next\<rparr>)" (is "pool_inv todo ?t")
proof -
  have r: "ring_ok s" and l: "lock_ok s" and k: "wake_ok s" and sc: "script_ok todo s"
    using inv by (simp_all add: pool_inv_def)
  have script: "script s \<noteq> []" "lock s = Some Main" and n: "0 < thread_count s" and down: "\<not> shutdown s"
    using l k pc by (simp_all add: lock_ok_def wake_ok_def)
  have sel: "tasks ?t = (tasks s)[tail s := hd (script s)]" "capacity ?t = capacity s" "head ?t = head s"
    "tail ?t = (tail s + 1) mod capacity s" "count ?t = count s + 1" "shutdown ?t = shutdown s" "lock ?t = None"
    "thread_count ?t = thread_count s" "wpcs ?t = wpcs (cond_signal w a)" "main_pc ?t = M_next" "script ?t = tl (script s)"
    "accepted ?t = accepted s @ [hd (script s)]" "taken ?t = taken s" "executed ?t = executed s"
    by (simp_all add: a_def)
  have "woken a (cond_signal w a)" by (rule cond_signal_woken)
  then have t: "woken s ?t" by (simp add: woken_def a_def)
  have exits: "wpcs s v \<noteq> W_exit" for v using k down by (auto simp: wake_ok_def)
  have "\<exists>v<thread_count a. \<not> blocked (wpcs (cond_signal w a) v)"
    using n exits by (intro cond_signal_runnable) (simp_all add: a_def)
  then have run: "\<exists>v<thread_count s. \<not> blocked (wpcs ?t v)" by (simp add: a_def)
  have less: "count s < capacity s" using r space by (simp add: ring_ok_def)
  have "queued ?t = queued s @ [hd (script s)]" by (rule queued_add [OF r less]) (simp_all add: sel)
  moreover have "(tail s + 1) mod capacity s = (head s + (count s + 1)) mod capacity s"
    using r by (simp add: ring_ok_def mod_Suc_eq)
  ultimately have "ring_ok ?t" using r less unfolding ring_ok_def sel by simp
  moreover have "wake_ok ?t"
    unfolding wake_ok_def wokenD(3) [OF t] using run down exits n by (simp add: sel)
  moreover have "script_ok todo ?t" using sc script down by (simp add: script_ok_def sel)
  ultimately show ?thesis
    by (intro main_keeps_same [OF inv t]) (simp_all add: sel script)
qed

lemma add_keeps:
  assumes inv: "pool_inv todo s" and pc: "main_pc s = M_add_body"
  shows "pool_inv todo ((threadpool_add w (hd (script s)) s)\<lparr>script := tl (script s), main_pc := M_next\<rparr>)"
proof -
  have "\<not> shutdown s" using inv pc by (simp add: pool_inv_def wake_ok_def)
  then show ?thesis using refuse_keeps [OF inv pc] accept_keeps [OF inv pc, of w]
    by (simp add: threadpool_add_def)
qed

lemma destroy_keeps:
  assumes inv: "pool_inv todo s" and pc: "main_pc s = M_destroy_body"
  shows "pool_inv todo (threadpool_destroy s)" (is "pool_inv todo ?t")
proof -
  have r: "ring_ok s" and l: "lock_ok s" and k: "wake_ok s" and sc: "script_ok todo s"
    using inv by (simp_all add: pool_inv_def)
  have held: "lock s = Some Main" and down: "\<not> shutdown s" using l k pc by (simp_all add: lock_ok_def wake_ok_def)
  have sel: "tasks ?t = tasks s" "capacity ?t = capacity s" "head ?t = head s" "tail ?t = tail s" "count ?t = count s"
    "shutdown ?t = True" "lock ?t = None" "thread_count ?t = thread_count s" "main_pc ?t = M_join 0" "script ?t = script s"
    "accepted ?t = accepted s" "taken ?t = taken s" "executed ?t = executed s"
    "wpcs ?t = (\<lambda>w. if wpcs s w = W_wait then W_lock else wpcs s w)"
    by (simp_all add: threadpool_destroy_def cond_broadcast_def cong: if_cong)
  have t: "woken s ?t" by (simp add: woken_def sel)
  have "\<not> blocked (wpcs s v) \<Longrightarrow> \<not> blocked (wpcs ?t v)" for v by (rule wokenD(6) [OF t])
  moreover have "wpcs ?t v \<noteq> W_wait" "wpcs ?t v \<noteq> W_exit" for v
    using k down by (auto simp: sel wake_ok_def)
  moreover have "script s = []" using sc pc by (simp add: script_ok_def)
  ultimately have "wake_ok ?t" using k unfolding wake_ok_def sel(5,6,8,9,10) by auto
  moreover have "ring_ok ?t" by (rule ring_ok_cong [OF r]) (simp_all add: sel)
  moreover have "script_ok todo ?t" using sc pc by (auto simp: script_ok_def sel)
  ultimately show ?thesis by (intro main_keeps_same [OF inv t]) (simp_all add: sel held)
qed

lemma main_keeps:
  assumes inv: "pool_inv todo s"
  shows "pool_inv todo (main_thread w s)"
proof -
  have r: "ring_ok s" and l: "lock_ok s" and k: "wake_ok s" and sc: "script_ok todo s"
    using inv by (simp_all add: pool_inv_def)
  have down: "shutdown s \<longleftrightarrow> main_pc s = M_done \<or> (\<exists>i. main_pc s = M_join i)" using k by (simp add: wake_ok_def)
  have jump: "pool_inv todo (s\<lparr>lock := m, main_pc := pc\<rparr>)"
    if "m = Some Main \<longleftrightarrow> pc = M_add_body \<or> pc = M_destroy_body"
      "m = lock s \<or> lock s \<in> {None, Some Main} \<and> m \<in> {None, Some Main}" "pc = M_add_body \<longrightarrow> script s \<noteq> []"
      "wake_ok (s\<lparr>main_pc := pc\<rparr>)" "script_ok todo (s\<lparr>main_pc := pc\<rparr>)" for m pc
  proof (rule main_keeps_same [OF inv])
    show "ring_ok (s\<lparr>lock := m, main_pc := pc\<rparr>)" by (rule ring_ok_cong [OF r]) simp_all
    show "wake_ok (s\<lparr>lock := m, main_pc := pc\<rparr>)" by (rule wake_ok_cong [OF that(4)]) simp_all
    show "script_ok todo (s\<lparr>lock := m, main_pc := pc\<rparr>)" using that(5) by (simp add: script_ok_def)
  qed (use that in \<open>simp_all add: woken_refl\<close>)
  have id: "s\<lparr>main_pc := pc\<rparr> = s\<lparr>lock := lock s, main_pc := pc\<rparr>" for pc by simp
  have held: "lock s = Some Main \<longleftrightarrow> main_pc s = M_add_body \<or> main_pc s = M_destroy_body" using l by (simp add: lock_ok_def)
  show ?thesis
  proof (cases "main_pc s")
    case M_next
    have k': "wake_ok (s\<lparr>main_pc := M_destroy_lock\<rparr>)" "wake_ok (s\<lparr>main_pc := M_add_body\<rparr>)"
      using M_next down by (auto intro!: wake_ok_before_join [OF k])
    have "script s = [] \<Longrightarrow> script_ok todo (s\<lparr>main_pc := M_destroy_lock\<rparr>)"
      "script_ok todo (s\<lparr>main_pc := M_add_body\<rparr>)"
      using sc M_next by (simp_all add: script_ok_def)
    then show ?thesis using jump [of "lock s" M_destroy_lock] jump [of "Some Main" M_add_body] inv k' held
      by (simp add: main_thread_def M_next)
  next
    case M_add_body
    then show ?thesis using add_keeps [OF inv] by (simp add: main_thread_def)
  next
    case M_destroy_lock
    have "wake_ok (s\<lparr>main_pc := M_destroy_body\<rparr>)"
      using M_destroy_lock down by (auto intro!: wake_ok_before_join [OF k])
    moreover have "script_ok todo (s\<lparr>main_pc := M_destroy_body\<rparr>)" using sc M_destroy_lock by (auto simp: script_ok_def)
    ultimately show ?thesis using jump [of "Some Main" M_destroy_body] inv by (simp add: main_thread_def M_destroy_lock)
  next
    case M_destroy_body
    then show ?thesis using destroy_keeps [OF inv] by (simp add: main_thread_def)
  next
    case (M_join i)
    have joined: "w < i \<Longrightarrow> w < thread_count s \<and> wpcs s w = W_exit" for w using k M_join by (simp add: wake_ok_def)
    have sc': "script_ok todo (s\<lparr>main_pc := M_join (i + 1)\<rparr>)" "script_ok todo (s\<lparr>main_pc := M_done\<rparr>)"
      using sc M_join down by (auto simp: script_ok_def)
    have "wake_ok (s\<lparr>main_pc := M_join (i + 1)\<rparr>)" if "i < thread_count s" "wpcs s i = W_exit"
      using k M_join that joined by (auto simp: wake_ok_def less_Suc_eq)
    moreover have "wake_ok (s\<lparr>main_pc := M_done\<rparr>)" if "\<not> i < thread_count s"
      using k M_join that joined by (simp add: wake_ok_def)
    ultimately show ?thesis
      using jump [of "lock s" "M_join (i + 1)"] jump [of "lock s" M_done] inv held sc' by (simp add: main_thread_def M_join)
  next
    case M_done
    then show ?thesis using inv by (simp add: main_thread_def)
  qed
qed

lemma pool_run_keeps: "pool_inv todo s \<Longrightarrow> pool_inv todo (pool_run es s)"
  by (induction es s rule: pool_run.induct) (simp_all add: main_keeps worker_keeps)

lemma fresh_pool_inv:
  assumes "length junk = cap" "0 < cap" "pc = M_next \<or> pc = M_destroy_lock \<and> todo = []" "0 < n \<or> todo = []"
  shows "pool_inv todo (fresh_pool junk cap n pc todo)"
  using assms by (auto simp: pool_inv_def fresh_pool_def ring_ok_def queued_def lock_ok_def wake_ok_def script_ok_def
    in_progress_def)

subsection \<open>The pool finishes\<close>

text \<open>
  What is still to be done: every step of a thread that changes the state, other than waking spuriously, makes
  it smaller. A task in the queue costs three steps, a task of the script seven.
\<close>

fun worker_effort :: "'a wpc \<Rightarrow> nat" where
  "worker_effort W_lock = 2"
| "worker_effort W_test = 1"
| "worker_effort W_wait = 0"
| "worker_effort (W_run task) = 3"
| "worker_effort W_exit = 0"

definition main_effort :: "'a threadpool_t \<Rightarrow> nat" where
  "main_effort s = 7 * length (script s) +
     (case main_pc s of M_next \<Rightarrow> 3 * thread_count s + 5 | M_add_body \<Rightarrow> 3 * thread_count s + 4
      | M_destroy_lock \<Rightarrow> 3 * thread_count s + 4 | M_destroy_body \<Rightarrow> 3 * thread_count s + 3
      | M_join i \<Rightarrow> thread_count s - i + 1 | M_done \<Rightarrow> 0)"

definition effort :: "'a threadpool_t \<Rightarrow> nat" where
  "effort s = main_effort s + 3 * count s + (\<Sum>w<thread_count s. worker_effort (wpcs s w))"

lemma worker_effort_set:
  assumes "w < thread_count s"
  shows "(\<Sum>v<thread_count s. worker_effort (((wpcs s)(w := p)) v)) + worker_effort (wpcs s w) =
     (\<Sum>v<thread_count s. worker_effort (wpcs s v)) + worker_effort p"
proof -
  have "(\<Sum>v\<in>{..<thread_count s} - {w}. worker_effort (((wpcs s)(w := p)) v)) =
      (\<Sum>v\<in>{..<thread_count s} - {w}. worker_effort (wpcs s v))"
    by (rule sum.cong) simp_all
  then show ?thesis using assms by (simp add: sum.remove [of "{..<thread_count s}" w])
qed

lemma main_effort_cong:
  "thread_count s' = thread_count s \<Longrightarrow> main_pc s' = main_pc s \<Longrightarrow> script s' = script s \<Longrightarrow> main_effort s' = main_effort s"
  by (cases "main_pc s") (simp_all add: main_effort_def)

lemma worker_effort_less:
  assumes w: "w < thread_count s" and moves: "worker_thread w False s \<noteq> s"
  shows "effort (worker_thread w False s) < effort s"
proof -
  have less: "effort s' < effort s"
    if "thread_count s' = thread_count s" "main_pc s' = main_pc s" "script s' = script s" "wpcs s' = (wpcs s)(w := p)"
      "3 * count s' + worker_effort p < 3 * count s + worker_effort (wpcs s w)" for s' p
    using that(5) worker_effort_set [OF w, of p] main_effort_cong [OF that(1-3)] by (simp add: effort_def that(1,4))
  show ?thesis
  proof (cases "wpcs s w")
    case W_lock
    then have "lock s = None" using moves by (simp add: worker_thread_def split: if_splits)
    then show ?thesis using W_lock by (intro less [of _ W_test]) (simp_all add: worker_thread_def)
  next
    case W_test
    show ?thesis
    proof (cases "count s = 0")
      case True
      then show ?thesis using W_test by (intro less [of _ "if shutdown s then W_exit else W_wait"]) (simp_all add: worker_thread_def)
    next
      case False
      then show ?thesis using W_test
        by (intro less [of _ "W_run (tasks s ! head s)"]) (simp_all add: worker_thread_def Let_def)
    qed
  next
    case (W_run task)
    then show ?thesis by (intro less [of _ W_lock]) (simp_all add: worker_thread_def)
  qed (use moves in \<open>simp_all add: worker_thread_def\<close>)
qed

lemma cond_signal_effort:
  "(\<Sum>v<thread_count s. worker_effort (wpcs (cond_signal w s) v)) \<le> (\<Sum>v<thread_count s. worker_effort (wpcs s v)) + 2"
proof (cases rule: cond_signal_wakes [of s w])
  case (1 v)
  then show ?thesis using worker_effort_set [of v s W_lock] by simp
qed simp

lemma broadcast_effort:
  "(\<Sum>v<n. worker_effort (if wpcs s v = W_wait then W_lock else wpcs s v)) \<le> (\<Sum>v<n. worker_effort (wpcs s v)) + 2 * n"
  by (induction n) auto

lemma main_effort_less:
  assumes inv: "pool_inv todo s" and moves: "main_thread w s \<noteq> s"
  shows "effort (main_thread w s) < effort s"
proof (cases "main_pc s")
  case M_next
  then show ?thesis using moves by (auto simp: main_thread_def effort_def main_effort_def split: if_splits)
next
  case M_add_body
  have "script s \<noteq> []" using inv M_add_body by (simp add: pool_inv_def lock_ok_def)
  then obtain task rest where script: "script s = task # rest" by (cases "script s") auto
  let ?a = "s\<lparr>tasks := (tasks s)[tail s := task], tail := (tail s + 1) mod capacity s, count := count s + 1,
      accepted := accepted s @ [task]\<rparr>"
  show ?thesis using cond_signal_effort [where s = ?a and w = w]
    by (simp add: main_thread_def effort_def main_effort_def M_add_body threadpool_add_def script)
next
  case M_destroy_lock
  then show ?thesis using moves by (auto simp: main_thread_def effort_def main_effort_def split: if_splits)
next
  case M_destroy_body
  then show ?thesis using broadcast_effort [of s "thread_count s"]
    by (simp add: main_thread_def effort_def main_effort_def threadpool_destroy_def cond_broadcast_def cong: if_cong)
next
  case (M_join i)
  then show ?thesis using moves by (auto simp: main_thread_def effort_def main_effort_def split: if_splits)
next
  case M_done
  then show ?thesis using moves by (simp add: main_thread_def)
qed

text \<open>Until the main thread is done, some thread can take such a step.\<close>

lemma pool_progress:
  assumes inv: "pool_inv todo s" and busy: "main_pc s \<noteq> M_done"
  shows "main_thread w s \<noteq> s \<or> (\<exists>t<thread_count s. worker_thread t False s \<noteq> s)"
proof -
  have l: "lock_ok s" and k: "wake_ok s" using inv by (simp_all add: pool_inv_def)
  have moved: "set_worker t p s' \<noteq> s" if "p \<noteq> wpcs s t" for t p s'
    using that by (metis set_worker_sel(9) fun_upd_same)
  show ?thesis
  proof (cases "lock s")
    case None
    have held: "main_pc s \<noteq> M_add_body" "main_pc s \<noteq> M_destroy_body" using l None by (simp_all add: lock_ok_def)
    have "main_thread w s \<noteq> s" if "main_pc s = M_next \<or> main_pc s = M_destroy_lock"
    proof -
      have "main_pc (main_thread w s) \<noteq> main_pc s" using that None by (auto simp: main_thread_def)
      then show ?thesis by auto
    qed
    moreover have ?thesis if j: "main_pc s = M_join i" for i
    proof (cases "i < thread_count s \<and> wpcs s i \<noteq> W_exit")
      case True
      have "wpcs s i \<noteq> W_wait" "wpcs s i \<noteq> W_test" using k l j None by (auto simp: wake_ok_def lock_ok_def)
      then have "worker_thread i False s \<noteq> s" using True None
        by (cases "wpcs s i") (simp_all add: worker_thread_def moved)
      then show ?thesis using True by blast
    next
      case False
      then have "main_pc (main_thread w s) \<noteq> main_pc s" using j by (simp add: main_thread_def)
      then show ?thesis by auto
    qed
    ultimately show ?thesis using busy held by (cases "main_pc s") auto
  next
    case (Some holder)
    show ?thesis
    proof (cases holder)
      case Main
      then have "main_pc s = M_add_body \<or> main_pc s = M_destroy_body" using l Some by (simp add: lock_ok_def)
      then have "main_pc (main_thread w s) \<noteq> main_pc s"
        by (auto simp: main_thread_def threadpool_destroy_def)
      then show ?thesis by auto
    next
      case (Worker t)
      then have t: "wpcs s t = W_test" using l Some by (auto simp: lock_ok_def)
      then have "t < thread_count s" using l by (metis lock_ok_def not_less wpc.distinct(1))
      moreover have "worker_thread t False s \<noteq> s" using t by (simp add: worker_thread_def moved Let_def)
      ultimately show ?thesis by blast
    qed
  qed
qed

lemma pool_finishes:
  assumes "pool_inv todo s"
  shows "\<exists>es. length es \<le> effort s \<and> main_pc (pool_run es s) = M_done"
  using assms
proof (induction "effort s" arbitrary: s rule: less_induct)
  case less
  show ?case
  proof (cases "main_pc s = M_done")
    case True
    then show ?thesis by (intro exI [of _ "[]"]) simp
  next
    case False
    obtain e where e: "pool_inv todo (pool_run [e] s)" "effort (pool_run [e] s) < effort s"
    proof (cases "main_thread 0 s = s")
      case False
      then show ?thesis using main_keeps [OF less.prems] main_effort_less [OF less.prems] by (intro that [of "(Main, 0, False)"]) simp_all
    next
      case True
      then obtain t where "t < thread_count s" "worker_thread t False s \<noteq> s" using pool_progress [OF less.prems False] by blast
      then show ?thesis using worker_keeps [OF less.prems] worker_effort_less
        by (intro that [of "(Worker t, 0, False)"]) simp_all
    qed
    obtain es where "length es \<le> effort (pool_run [e] s)" "main_pc (pool_run es (pool_run [e] s)) = M_done"
      using less.hyps [OF e(2,1)] by blast
    moreover have "pool_run (e # es) s = pool_run es (pool_run [e] s)" by (cases e; cases "fst e") simp_all
    ultimately show ?thesis using e(2) by (intro exI [of _ "e # es"]) simp
  qed
qed

text \<open>\<open>started_with s work\<close>: the pool was just created, with the tasks \<open>work\<close> to hand out; none when it is cleaned up.\<close>

definition started_with :: "'a creation \<Rightarrow> 'a list \<Rightarrow> 'a threadpool_t \<Rightarrow> 'a list \<Rightarrow> bool" where
  "started_with c todo s work \<longleftrightarrow> c = Pool s \<and> work = todo \<or> c = Clean_up s \<and> work = []"

lemma created_inv:
  assumes c: "started_with (threadpool_create (Some junk) inits started threads cap todo) todo s work" and junk: "length junk = cap"
  shows "pool_inv work s \<and> capacity s = cap"
proof -
  have pos: "0 < threads" "0 < cap" and inits: "inits" using c by (auto simp: started_with_def threadpool_create_def split: if_splits)
  show ?thesis
  proof (cases "started < threads")
    case True
    then have "threadpool_create (Some junk) inits started threads cap todo = Clean_up (fresh_pool junk cap started M_destroy_lock [])"
      using pos inits by (simp add: threadpool_create_def)
    then have s: "s = fresh_pool junk cap started M_destroy_lock []" "work = []" using c by (simp_all add: started_with_def)
    show ?thesis unfolding s using junk pos by (intro conjI fresh_pool_inv) (simp_all add: fresh_pool_def)
  next
    case False
    then have "threadpool_create (Some junk) inits started threads cap todo = Pool (fresh_pool junk cap threads M_next todo)"
      using pos inits by (simp add: threadpool_create_def)
    then have s: "s = fresh_pool junk cap threads M_next todo" "work = todo" using c by (simp_all add: started_with_def)
    show ?thesis unfolding s using junk pos by (intro conjI fresh_pool_inv) (simp_all add: fresh_pool_def)
  qed
qed

lemma pool_run_capacity: "capacity (pool_run es s) = capacity s"
proof (induction es s rule: pool_run.induct)
  case (2 w spurious es s)
  have "capacity (main_thread w s) = capacity s"
    by (simp add: main_thread_def threadpool_add_def threadpool_destroy_def cond_broadcast_def split: mpc.splits)
  then show ?case using 2 by simp
next
  case (3 t w spurious es s)
  have "capacity (worker_thread t spurious s) = capacity s" by (simp add: worker_thread_def Let_def split: wpc.splits)
  then show ?case using 3 by simp
qed simp

lemma pool_done:
  assumes "pool_inv todo s" "main_pc s = M_done"
  shows "\<forall>w<thread_count s. wpcs s w = W_exit" "mset (executed s) = mset (accepted s)"
    "length todo \<le> capacity s \<longrightarrow> accepted s = todo"
proof -
  have r: "ring_ok s" and k: "wake_ok s" and sc: "script_ok todo s" and ms: "mset (taken s) = mset (executed s) + in_progress s"
    using assms(1) by (simp_all add: pool_inv_def)
  show exits: "\<forall>w<thread_count s. wpcs s w = W_exit" using k assms(2) by (simp add: wake_ok_def)
  have "count s = 0"
  proof (rule ccontr)
    assume "count s \<noteq> 0"
    then obtain w where "w < thread_count s" "\<not> blocked (wpcs s w)" using k by (auto simp: wake_ok_def)
    then show False using exits by simp
  qed
  then have "accepted s = taken s" using r by (simp add: ring_ok_def queued_def)
  moreover have "in_progress s = {#}" using exits by (simp add: in_progress_def)
  ultimately show "mset (executed s) = mset (accepted s)" using ms by simp
  have "script s = []" using sc k assms(2) by (simp add: script_ok_def wake_ok_def)
  then show "length todo \<le> capacity s \<longrightarrow> accepted s = todo" using sc by (simp add: script_ok_def)
qed

text \<open>Every complete run of the program prints each of its numbers once.\<close>

lemma job_main_prints:
  assumes "length junk = 16" "4 \<le> started" "job_main (Some junk) True started got es = (0, Some s)" "main_pc s = M_done"
  shows "mset (printed s) = mset (map sample_work (filter got [0..<8]))"
proof -
  let ?c = "threadpool_create (Some junk) True started 4 16 (filter got [0..<8])"
  let ?p = "fresh_pool junk 16 4 M_next (filter got [0..<8])"
  have c: "?c = Pool ?p" using assms(2) by (simp add: threadpool_create_def)
  then have s: "s = pool_run es ?p" using assms(3) unfolding job_main_def c by simp
  have inv: "pool_inv (filter got [0..<8]) s" unfolding s using assms(1) by (intro pool_run_keeps fresh_pool_inv) simp_all
  have "capacity s = 16" unfolding s pool_run_capacity by (simp add: fresh_pool_def)
  moreover have "length (filter got [0..<8]) \<le> 16" by (rule order_trans [OF length_filter_le]) simp
  ultimately have "accepted s = filter got [0..<8]" using pool_done(3) [OF inv assms(4)] by simp
  then have "mset (executed s) = mset (filter got [0..<8])" using pool_done(2) [OF inv assms(4)] by simp
  then show ?thesis unfolding printed_def mset_map by simp
qed

subsection \<open>Properties\<close>

text \<open>C9: Under every schedule, with spurious wake-ups and any choice of the waiter a signal wakes, at most one
  thread is past the lock, the ring holds at most its capacity, the tasks accepted are exactly those taken, in
  order, followed by those in the ring, and each task taken is executed once or about to be. When the main
  thread has returned from \<open>threadpool_destroy\<close> all workers have exited and exactly the accepted tasks were executed,
  which are all tasks if they fit into the ring.\<close>

theorem pool_executes_accepted:
  fixes es :: "(thread_id \<times> nat \<times> bool) list"
  assumes "length junk = cap"
    "started_with (threadpool_create (Some junk) inits started threads cap todo) todo s0 work"
  defines "s \<equiv> pool_run es s0"
  shows "(\<forall>t u. wpcs s t = W_test \<and> wpcs s u = W_test \<longrightarrow> t = u) \<and>
     ((\<exists>t. wpcs s t = W_test) \<longrightarrow> main_pc s \<noteq> M_add_body \<and> main_pc s \<noteq> M_destroy_body) \<and>
     count s \<le> cap \<and> accepted s = taken s @ queued s \<and> subseq (accepted s) work \<and>
     mset (taken s) = mset (executed s) + in_progress s \<and>
     (main_pc s = M_done \<longrightarrow> (\<forall>w<thread_count s. wpcs s w = W_exit) \<and> mset (executed s) = mset (accepted s) \<and>
        (length work \<le> cap \<longrightarrow> accepted s = work))"
proof -
  have inv: "pool_inv work s" unfolding s_def by (rule pool_run_keeps [OF created_inv [OF assms(2,1), THEN conjunct1]])
  have cap: "capacity s = cap" unfolding s_def pool_run_capacity by (rule created_inv [OF assms(2,1), THEN conjunct2])
  have r: "ring_ok s" and l: "lock_ok s" and sc: "script_ok work s" and ms: "mset (taken s) = mset (executed s) + in_progress s"
    using inv by (simp_all add: pool_inv_def)
  have lock: "wpcs s t = W_test \<longleftrightarrow> lock s = Some (Worker t)" for t using l by (simp add: lock_ok_def)
  have "\<forall>t u. wpcs s t = W_test \<and> wpcs s u = W_test \<longrightarrow> t = u" unfolding lock by auto
  moreover have "(\<exists>t. wpcs s t = W_test) \<longrightarrow> main_pc s \<noteq> M_add_body \<and> main_pc s \<noteq> M_destroy_body"
    using l by (auto simp: lock_ok_def)
  moreover have "count s \<le> cap" "accepted s = taken s @ queued s" using r cap by (simp_all add: ring_ok_def)
  moreover have "subseq (accepted s) work" using sc unfolding script_ok_def by (meson subseq_order.trans subseq_rev_drop_many subseq_order.order_refl)
  ultimately show ?thesis using ms pool_done [OF inv] cap by blast
qed

theorem pool_executes_accepted_witness:
  "\<exists>es. main_pc (pool_run es (fresh_pool [0] 1 3 M_next [7 :: nat])) = M_done \<and>
     executed (pool_run es (fresh_pool [0] 1 3 M_next [7])) = [7 :: nat]"
proof -
  let ?start = "fresh_pool [0] 1 3 M_next [7 :: nat]"
  have "threadpool_create (Some [0]) True 3 3 1 [7 :: nat] = Pool ?start" by (simp add: threadpool_create_def)
  then have start: "started_with (threadpool_create (Some [0]) True 3 3 1 [7]) [7] ?start [7]" by (simp add: started_with_def)
  obtain es where fin: "main_pc (pool_run es ?start) = M_done"
    using pool_finishes [OF created_inv [OF start, THEN conjunct1]] by auto
  have len: "length [0 :: nat] = 1" by simp
  have "mset (executed (pool_run es ?start)) = mset (accepted (pool_run es ?start))"
    "length [7 :: nat] \<le> 1 \<longrightarrow> accepted (pool_run es ?start) = [7]"
    using pool_executes_accepted [OF len start, where es = es] fin by blast+
  then have "mset (executed (pool_run es ?start)) = {#7#}" by simp
  then show ?thesis using fin by (intro exI [of _ es]) simp
qed

text \<open>C10: No wake-up is lost: from every reachable state, until \<open>threadpool_destroy\<close> has returned, some thread can move
  without a spurious wake-up. Every such move reduces the remaining effort, whoever makes it, so the program
  finishes after at most that many moves.\<close>

theorem pool_terminates:
  fixes es :: "(thread_id \<times> nat \<times> bool) list"
  assumes "length junk = cap"
    "started_with (threadpool_create (Some junk) inits started threads cap todo) todo s0 work"
  defines "s \<equiv> pool_run es s0"
  shows "(main_pc s \<noteq> M_done \<longrightarrow> main_thread w s \<noteq> s \<or> (\<exists>t<thread_count s. worker_thread t False s \<noteq> s)) \<and>
     (main_thread w s \<noteq> s \<longrightarrow> effort (main_thread w s) < effort s) \<and>
     (\<forall>t<thread_count s. worker_thread t False s \<noteq> s \<longrightarrow> effort (worker_thread t False s) < effort s) \<and>
     (\<exists>es'. length es' \<le> effort s \<and> main_pc (pool_run es' s) = M_done)"
proof -
  have inv: "pool_inv work s" unfolding s_def by (rule pool_run_keeps [OF created_inv [OF assms(2,1), THEN conjunct1]])
  show ?thesis
    using pool_progress [OF inv] main_effort_less [OF inv] worker_effort_less pool_finishes [OF inv] by blast
qed

theorem pool_terminates_witness:
  "\<exists>es'. main_pc (pool_run es' (fresh_pool [0] 1 2 M_next [7, 8 :: nat])) = M_done"
proof -
  have start: "started_with (threadpool_create (Some [0]) True 2 2 1 [7, 8]) [7, 8] (fresh_pool [0] 1 2 M_next [7, 8 :: nat]) [7, 8]"
    by (simp add: threadpool_create_def started_with_def)
  show ?thesis using pool_terminates [OF _ start, where es = "[]"] by auto
qed

end
