(* ===== verification/Matrix_Product.thy ===== *)
theory Matrix_Product
  imports Prelude
begin

text \<open>
  The three matrix multiplications of \<^verbatim>\<open>Phase-0/Day4/C/matmul.c\<close> and of its template version
  \<^verbatim>\<open>Phase-0/Day4/C++/matmul.cpp\<close>: the naive one, the one with the loops reordered, and the tiled one. Matrices are
  flat arrays, and an access out of bounds is undefined (\<open>None\<close>). The arithmetic of \<open>double\<close> (or of the template
  argument) is an argument of the model: a zero, an addition and a multiplication with no laws at all. That the
  three agree therefore means that they do the same operations in the same order for each entry, so they agree to
  the bit as long as the compiler does not contract or reassociate them.
\<close>

subsection \<open>Arrays and loops\<close>

definition get :: "'a list \<Rightarrow> nat \<Rightarrow> 'a option" where
  "get a i = (if i < length a then Some (a ! i) else None)"

definition set_at :: "'a list \<Rightarrow> nat \<Rightarrow> 'a \<Rightarrow> 'a list option" where
  "set_at a i v = (if i < length a then Some (a[i := v]) else None)"

text \<open>A counting loop that visits \<open>xs\<close> in order.\<close>

primrec for_each :: "nat list \<Rightarrow> (nat \<Rightarrow> 's \<Rightarrow> 's option) \<Rightarrow> 's \<Rightarrow> 's option" where
  "for_each [] body s = Some s"
| "for_each (x # xs) body s = body x s \<bind> for_each xs body"

text \<open>The values of \<open>for (i = 0; i < n; i += b)\<close> when \<open>b\<close> divides \<open>n\<close>.\<close>

definition steps_of :: "nat \<Rightarrow> nat \<Rightarrow> nat list" where
  "steps_of n b = map (\<lambda>t. t * b) [0..<n div b]"

subsection \<open>The program\<close>

definition N :: nat where "N = 1024"
definition BLOCK :: nat where "BLOCK = 64"

text \<open>The number type: what the program does with \<open>double\<close>.\<close>

record 'a arith =
  zero_val :: 'a
  plus_op :: "'a \<Rightarrow> 'a \<Rightarrow> 'a"
  times_op :: "'a \<Rightarrow> 'a \<Rightarrow> 'a"
  from_int :: "nat \<Rightarrow> 'a"

definition fill :: "'a arith \<Rightarrow> nat \<Rightarrow> 'a list \<Rightarrow> 'a list option" where
  "fill R n m = for_each [0..<n * n] (\<lambda>i m. set_at m i (plus_op R (from_int R (i mod 7)) (from_int R 1))) m"

definition zero :: "'a arith \<Rightarrow> nat \<Rightarrow> 'a list \<Rightarrow> 'a list option" where
  "zero R n m = for_each [0..<n * n] (\<lambda>i m. set_at m i (zero_val R)) m"

definition mul_naive :: "'a arith \<Rightarrow> nat \<Rightarrow> 'a list \<Rightarrow> 'a list \<Rightarrow> 'a list \<Rightarrow> 'a list option" where
  "mul_naive R n A B C =
     for_each [0..<n] (\<lambda>i. for_each [0..<n] (\<lambda>j C. do {
       sum \<leftarrow> for_each [0..<n] (\<lambda>k sum. do {
         a \<leftarrow> get A (i * n + k);
         b \<leftarrow> get B (k * n + j);
         Some (plus_op R sum (times_op R a b)) }) (zero_val R);
       set_at C (i * n + j) sum })) C"

text \<open>The statement \<^verbatim>\<open>C[i*N + j] += a * B[k*N + j]\<close>.\<close>

definition add_product :: "'a arith \<Rightarrow> nat \<Rightarrow> 'a list \<Rightarrow> 'a \<Rightarrow> nat \<Rightarrow> nat \<Rightarrow> nat \<Rightarrow> 'a list \<Rightarrow> 'a list option" where
  "add_product R n B a i k j C = do {
     b \<leftarrow> get B (k * n + j);
     c \<leftarrow> get C (i * n + j);
     set_at C (i * n + j) (plus_op R c (times_op R a b)) }"

definition mul_reordered :: "'a arith \<Rightarrow> nat \<Rightarrow> 'a list \<Rightarrow> 'a list \<Rightarrow> 'a list \<Rightarrow> 'a list option" where
  "mul_reordered R n A B C = do {
     C \<leftarrow> zero R n C;
     for_each [0..<n] (\<lambda>i. for_each [0..<n] (\<lambda>k C. do {
       a \<leftarrow> get A (i * n + k);
       for_each [0..<n] (\<lambda>j C. add_product R n B a i k j C) C })) C }"

definition mul_tiled :: "'a arith \<Rightarrow> nat \<Rightarrow> nat \<Rightarrow> 'a list \<Rightarrow> 'a list \<Rightarrow> 'a list \<Rightarrow> 'a list option" where
  "mul_tiled R n block A B C = do {
     C \<leftarrow> zero R n C;
     for_each (steps_of n block) (\<lambda>ii. for_each (steps_of n block) (\<lambda>kk. for_each (steps_of n block) (\<lambda>jj.
       for_each [ii..<ii + block] (\<lambda>i. for_each [kk..<kk + block] (\<lambda>k C. do {
         a \<leftarrow> get A (i * n + k);
         for_each [jj..<jj + block] (\<lambda>j C. add_product R n B a i k j C) C }))))) C }"

definition checksum :: "'a arith \<Rightarrow> nat \<Rightarrow> 'a list \<Rightarrow> 'a option" where
  "checksum R n C = for_each [0..<n * n] (\<lambda>i s. map_option (plus_op R s) (get C i)) (zero_val R)"

text \<open>
  \<open>memory\<close> is the unspecified contents of the three arrays \<^verbatim>\<open>alloc_all\<close> gets, or \<open>None\<close> if a \<^verbatim>\<open>malloc\<close> fails. The answer is
  undefined, an exit code, or the checksum printed.
\<close>

definition matmul_main :: "'a arith \<Rightarrow> nat \<Rightarrow> nat \<Rightarrow> ('a list \<times> 'a list \<times> 'a list) option \<Rightarrow> string option \<Rightarrow> (nat + 'a) option" where
  "matmul_main R n block memory mode =
     (case memory of
        None \<Rightarrow> Some (Inl 1)
      | Some (A, B, C) \<Rightarrow> do {
          A \<leftarrow> fill R n A;
          B \<leftarrow> fill R n B;
          let mode = (case mode of None \<Rightarrow> ''naive'' | Some m \<Rightarrow> m);
          if mode = ''naive'' then mul_naive R n A B C \<bind> checksum R n \<bind> (\<lambda>s. Some (Inr s))
          else if mode = ''reordered'' then mul_reordered R n A B C \<bind> checksum R n \<bind> (\<lambda>s. Some (Inr s))
          else if mode = ''tiled'' then mul_tiled R n block A B C \<bind> checksum R n \<bind> (\<lambda>s. Some (Inr s))
          else Some (Inl 1) })"

definition matmul_program :: "'a arith \<Rightarrow> ('a list \<times> 'a list \<times> 'a list) option \<Rightarrow> string option \<Rightarrow> (nat + 'a) option" where
  "matmul_program R = matmul_main R N BLOCK"

subsection \<open>Loops as lists of updates\<close>

lemma for_each_fold:
  assumes "\<And>x c. x \<in> set xs \<Longrightarrow> length c = m \<Longrightarrow> body x c = Some (fold upd (T x) c)"
    "\<And>p c. length (upd p c) = length c" "length c = m"
  shows "for_each xs body c = Some (fold upd (concat (map T xs)) c)"
proof -
  have len: "length (fold upd ps c) = length c" for ps c by (induction ps arbitrary: c) (simp_all add: assms(2))
  show ?thesis using assms(1,3) by (induction xs arbitrary: c) (simp_all add: len)
qed

lemma for_each_single:
  assumes "\<And>x c. x \<in> set xs \<Longrightarrow> length c = m \<Longrightarrow> body x c = Some (upd (f x) c)"
    "\<And>p c. length (upd p c) = length c" "length c = m"
  shows "for_each xs body c = Some (fold upd (map f xs) c)"
proof -
  have "for_each xs body c = Some (fold upd (concat (map (\<lambda>x. [f x]) xs)) c)"
    by (rule for_each_fold [OF _ assms(2,3)]) (simp add: assms(1))
  moreover have "concat (map (\<lambda>x. [f x]) xs) = map f xs" by (induction xs) simp_all
  ultimately show ?thesis by simp
qed

text \<open>Only one of the values a loop visits contributes.\<close>

lemma concat_single:
  assumes "distinct xs" "a \<in> set xs" "\<And>x. x \<in> set xs \<Longrightarrow> x \<noteq> a \<Longrightarrow> f x = []"
  shows "concat (map f xs) = f a"
  using assms
proof (induction xs)
  case (Cons x xs)
  show ?case
  proof (cases "x = a")
    case True
    then have "\<forall>y\<in>set xs. f y = []" using Cons.prems by auto
    then have "concat (map f xs) = []" by simp
    then show ?thesis using True by simp
  next
    case False
    then show ?thesis using Cons by simp
  qed
qed simp

lemma cell_less: "i < n \<Longrightarrow> j < n \<Longrightarrow> i * n + j < n * (n :: nat)"
proof -
  assume "i < n" "j < n"
  then have "i * n + j < (i + 1) * n" "(i + 1) * n \<le> n * n" by (simp, simp only: mult_le_mono1 Suc_eq_plus1 [symmetric] Suc_leI)
  then show ?thesis by linarith
qed

lemma index_inject: "i * n + j = i' * n + j' \<longleftrightarrow> i = i' \<and> j = j'" if "j < n" "j' < (n :: nat)"
proof
  assume e: "i * n + j = i' * n + j'"
  have "(i * n + j) div n = i" "(i' * n + j') div n = i'" "(i * n + j) mod n = j" "(i' * n + j') mod n = j'"
    using that by simp_all
  then show "i = i' \<and> j = j'" unfolding e by simp
qed simp

subsection \<open>The product\<close>

text \<open>The entry in row \<open>i\<close> and column \<open>j\<close>: products added in the order of \<open>k\<close>.\<close>

definition dot_from :: "'a arith \<Rightarrow> nat \<Rightarrow> 'a list \<Rightarrow> 'a list \<Rightarrow> nat \<Rightarrow> nat \<Rightarrow> nat list \<Rightarrow> 'a \<Rightarrow> 'a" where
  "dot_from R n A B i j ks s = fold (\<lambda>k s. plus_op R s (times_op R (A ! (i * n + k)) (B ! (k * n + j)))) ks s"

definition product :: "'a arith \<Rightarrow> nat \<Rightarrow> 'a list \<Rightarrow> 'a list \<Rightarrow> 'a list" where
  "product R n A B = map (\<lambda>p. dot_from R n A B (p div n) (p mod n) [0..<n] (zero_val R)) [0..<n * n]"

fun add_at :: "'a arith \<Rightarrow> nat \<Rightarrow> 'a list \<Rightarrow> 'a list \<Rightarrow> nat \<times> nat \<times> nat \<Rightarrow> 'a list \<Rightarrow> 'a list" where
  "add_at R n A B (i, k, j) C =
     C[i * n + j := plus_op R (C ! (i * n + j)) (times_op R (A ! (i * n + k)) (B ! (k * n + j)))]"

definition in_range :: "nat \<Rightarrow> nat \<times> nat \<times> nat \<Rightarrow> bool" where
  "in_range n t \<longleftrightarrow> (case t of (i, k, j) \<Rightarrow> i < n \<and> k < n \<and> j < n)"

definition hits :: "nat \<Rightarrow> nat \<Rightarrow> (nat \<times> nat \<times> nat) list \<Rightarrow> nat list" where
  "hits i j ts = concat (map (\<lambda>(i', k, j'). if i' = i \<and> j' = j then [k] else []) ts)"

lemma length_add_at [simp]: "length (add_at R n A B t C) = length C"
  by (cases t) simp

lemma length_fold_add_at [simp]: "length (fold (add_at R n A B) ts C) = length C"
  by (induction ts arbitrary: C) simp_all

lemma fold_add_at_nth:
  assumes "\<forall>t\<in>set ts. in_range n t" "i < n" "j < n" "length C = n * n"
  shows "fold (add_at R n A B) ts C ! (i * n + j) = dot_from R n A B i j (hits i j ts) (C ! (i * n + j))"
  using assms(1,4)
proof (induction ts arbitrary: C)
  case (Cons t ts)
  obtain i' k j' where t: "t = (i', k, j')" by (cases t)
  then have "i' < n" "k < n" "j' < n" using Cons.prems(1) by (simp_all add: in_range_def)
  then have entry: "add_at R n A B t C ! (i * n + j) = dot_from R n A B i j (hits i j [t]) (C ! (i * n + j))"
    using assms(2,3) cell_less [of i n j] Cons.prems(2)
    by (simp add: t hits_def dot_from_def nth_list_update index_inject)
  have "fold (add_at R n A B) (t # ts) C ! (i * n + j) =
      dot_from R n A B i j (hits i j ts) (add_at R n A B t C ! (i * n + j))"
    using Cons.prems by (simp add: Cons.IH)
  also have "\<dots> = dot_from R n A B i j (hits i j [t] @ hits i j ts) (C ! (i * n + j))"
    by (simp add: entry dot_from_def)
  finally show ?case by (simp add: hits_def t)
qed (simp add: hits_def dot_from_def)

lemma length_product [simp]: "length (product R n A B) = n * n"
  by (simp add: product_def)

lemma product_eqI:
  assumes "length C = n * n" "\<And>i j. i < n \<Longrightarrow> j < n \<Longrightarrow> C ! (i * n + j) = dot_from R n A B i j [0..<n] (zero_val R)"
  shows "C = product R n A B"
proof (rule nth_equalityI)
  fix p assume "p < length C"
  then have p: "p < n * n" using assms(1) by simp
  then have n: "0 < n" by (cases n) simp_all
  have "p div n < n" using p by (simp add: less_mult_imp_div_less)
  moreover have "p mod n < n" using n by simp
  moreover have "p div n * n + p mod n = p" by simp
  ultimately have "C ! p = dot_from R n A B (p div n) (p mod n) [0..<n] (zero_val R)" using assms(2) by metis
  then show "C ! p = product R n A B ! p" using p by (simp add: product_def)
qed (simp add: assms(1) product_def)

text \<open>Clearing an array, then adding all products in an order that visits each \<open>k\<close> once and in order.\<close>

lemma set_loop:
  assumes "\<And>i. i \<in> set xs \<Longrightarrow> i < length m"
  shows "for_each xs (\<lambda>i m. set_at m i (f i)) m = Some (fold (\<lambda>i m. m[i := f i]) xs m)"
proof (rule for_each_single [where f = "\<lambda>i. i", simplified])
  show "set_at c x (f x) = Some (c[x := f x])" if "x \<in> set xs" "length c = length m" for x c
    using assms that by (simp add: set_at_def)
qed simp_all

lemma fold_set_all:
  "length m = a \<Longrightarrow> fold (\<lambda>i m. m[i := f i]) [0..<n] m = map f [0..<min n a] @ drop n m"
proof (induction n arbitrary: a)
  case (Suc n)
  have "(map f [0..<min n a] @ drop n m)[n := f n] = map f [0..<min (Suc n) a] @ drop (Suc n) m"
  proof (cases "n < a")
    case True
    then have "drop n m = m ! n # drop (Suc n) m" using Suc.prems by (simp add: Cons_nth_drop_Suc)
    moreover have "min n a = n" "min (Suc n) a = Suc n" using True by simp_all
    ultimately show ?thesis by (simp add: list_update_append)
  next
    case False
    then show ?thesis using Suc.prems by (simp add: list_update_beyond)
  qed
  then show ?case using Suc by simp
qed simp

lemma zero_result: "length m = n * n \<Longrightarrow> zero R n m = Some (replicate (n * n) (zero_val R))"
  unfolding zero_def by (subst set_loop) (simp_all add: fold_set_all map_replicate_trivial)

lemma fill_result:
  "length m = n * n \<Longrightarrow> fill R n m = Some (map (\<lambda>i. plus_op R (from_int R (i mod 7)) (from_int R 1)) [0..<n * n])"
  unfolding fill_def by (subst set_loop) (simp_all add: fold_set_all)

lemma add_all_products:
  assumes "\<forall>t\<in>set ts. in_range n t" "\<And>i j. i < n \<Longrightarrow> j < n \<Longrightarrow> hits i j ts = [0..<n]"
  shows "fold (add_at R n A B) ts (replicate (n * n) (zero_val R)) = product R n A B"
proof (rule product_eqI)
  fix i j assume ij: "i < n" "j < n"
  then have "replicate (n * n) (zero_val R) ! (i * n + j) = zero_val R" using cell_less by simp
  then show "fold (add_at R n A B) ts (replicate (n * n) (zero_val R)) ! (i * n + j) =
      dot_from R n A B i j [0..<n] (zero_val R)"
    using fold_add_at_nth [OF assms(1) ij, of "replicate (n * n) (zero_val R)"] assms(2) [OF ij] by simp
qed simp

subsection \<open>The three loop nests\<close>

lemma add_product_result:
  assumes "length A = n * n" "length B = n * n" "i < n" "k < n" "j < n" "length C = n * n"
  shows "add_product R n B (A ! (i * n + k)) i k j C = Some (add_at R n A B (i, k, j) C)"
  using assms cell_less [of k n j] cell_less [of i n j] by (simp add: add_product_def get_def set_at_def)

definition row :: "nat \<Rightarrow> nat \<Rightarrow> nat list \<Rightarrow> (nat \<times> nat \<times> nat) list" where
  "row i k js = map (\<lambda>j. (i, k, j)) js"

lemma row_result:
  assumes "length A = n * n" "length B = n * n" "i < n" "k < n" "\<And>j. j \<in> set js \<Longrightarrow> j < n" "length C = n * n"
  shows "get A (i * n + k) \<bind> (\<lambda>a. for_each js (\<lambda>j C. add_product R n B a i k j C) C) =
    Some (fold (add_at R n A B) (row i k js) C)"
proof -
  have "get A (i * n + k) = Some (A ! (i * n + k))" using assms(1,3,4) cell_less by (simp add: get_def)
  moreover have "for_each js (\<lambda>j C. add_product R n B (A ! (i * n + k)) i k j C) C = Some (fold (add_at R n A B) (row i k js) C)"
    unfolding row_def
    by (rule for_each_single [where m = "n * n"]) (simp_all add: add_product_result assms)
  ultimately show ?thesis by simp
qed

lemma hits_concat: "hits i j (concat (map T xs)) = concat (map (\<lambda>x. hits i j (T x)) xs)"
  by (induction xs) (simp_all add: hits_def)

lemma hits_row:
  assumes "distinct js"
  shows "hits i j (row i' k js) = (if i' = i \<and> j \<in> set js then [k] else [])"
proof -
  have hits: "hits i j (row i' k js) = concat (map (\<lambda>x. if i' = i \<and> x = j then [k] else []) js)"
    by (simp add: hits_def row_def comp_def)
  show ?thesis
  proof (cases "i' = i \<and> j \<in> set js")
    case True
    then show ?thesis unfolding hits using concat_single [OF assms, of j "\<lambda>x. if i' = i \<and> x = j then [k] else []"] by simp
  next
    case False
    then have "concat (map (\<lambda>x. if i' = i \<and> x = j then [k] else []) js) = []" by (auto simp: concat_eq_Nil_conv)
    then show ?thesis unfolding hits if_not_P [OF False] .
  qed
qed

lemma concat_singletons: "concat (map (\<lambda>x. [x]) xs) = xs"
  by (induction xs) simp_all

definition reordered_order :: "nat \<Rightarrow> (nat \<times> nat \<times> nat) list" where
  "reordered_order n = concat (map (\<lambda>i. concat (map (\<lambda>k. row i k [0..<n]) [0..<n])) [0..<n])"

lemma reordered_hits:
  assumes "i < n" "j < n"
  shows "hits i j (reordered_order n) = [0..<n]"
proof -
  have "hits i j (reordered_order n) = concat (map (\<lambda>i'. concat (map (\<lambda>k. if i' = i then [k] else []) [0..<n])) [0..<n])"
    using assms by (simp add: reordered_order_def hits_concat hits_row)
  also have "\<dots> = concat (map (\<lambda>k. if i = i then [k] else []) [0..<n])"
    by (rule concat_single) (use assms in auto)
  finally show ?thesis by (simp add: concat_singletons)
qed

lemma mul_reordered_result:
  assumes "length A = n * n" "length B = n * n" "length C = n * n"
  shows "mul_reordered R n A B C = Some (product R n A B)"
proof -
  have "for_each [0..<n] (\<lambda>i. for_each [0..<n] (\<lambda>k C. get A (i * n + k) \<bind>
      (\<lambda>a. for_each [0..<n] (\<lambda>j C. add_product R n B a i k j C) C))) (replicate (n * n) (zero_val R)) =
    Some (fold (add_at R n A B) (reordered_order n) (replicate (n * n) (zero_val R)))"
    unfolding reordered_order_def
    by (intro for_each_fold [where m = "n * n"] row_result assms(1,2)) simp_all
  moreover have "\<forall>t\<in>set (reordered_order n). in_range n t" by (auto simp: reordered_order_def row_def in_range_def)
  ultimately show ?thesis
    using add_all_products [of "reordered_order n" n R A B] reordered_hits by (simp add: mul_reordered_def zero_result assms(3))
qed

text \<open>Blocks: they partition the range, in order.\<close>

lemma concat_blocks: "concat (map (\<lambda>t. [t..<t + b]) (map (\<lambda>t. t * b) [0..<m])) = [0..<m * b]"
proof (induction m)
  case (Suc m)
  have "[0..<Suc m * b] = [0..<m * b] @ [m * b..<m * b + b]"
    by (metis add.commute le_add1 mult_Suc upt_add_eq_append zero_le)
  then show ?case using Suc by (simp add: comp_def)
qed simp

lemma steps_of_blocks: "b dvd n \<Longrightarrow> concat (map (\<lambda>t. [t..<t + b]) (steps_of n b)) = [0..<n]"
  unfolding steps_of_def concat_blocks by simp

lemma steps_of_block:
  assumes "b dvd n" "0 < b"
  shows "distinct (steps_of n b)" "t \<in> set (steps_of n b) \<Longrightarrow> t + b \<le> n"
    "i < n \<Longrightarrow> i div b * b \<in> set (steps_of n b)"
    "t \<in> set (steps_of n b) \<Longrightarrow> t \<noteq> i div b * b \<Longrightarrow> i \<notin> set [t..<t + b]"
    "i \<in> set [i div b * b..<i div b * b + b]"
proof -
  obtain m where n: "n = m * b" using assms(1) by (metis dvd_def mult.commute)
  show "distinct (steps_of n b)" using assms(2) by (simp add: steps_of_def distinct_map inj_on_def)
  show "t \<in> set (steps_of n b) \<Longrightarrow> t + b \<le> n"
    using assms(2) by (auto simp: steps_of_def n) (metis Suc_leI add.commute mult_Suc mult_le_mono1)
  show "i < n \<Longrightarrow> i div b * b \<in> set (steps_of n b)"
    using assms(2) by (auto simp: steps_of_def n less_mult_imp_div_less)
  show "i \<notin> set [t..<t + b]" if t: "t \<in> set (steps_of n b)" "t \<noteq> i div b * b"
  proof
    assume i: "i \<in> set [t..<t + b]"
    obtain q where q: "t = q * b" using t(1) by (auto simp: steps_of_def)
    have "i div b = q" using i q assms(2) by (intro div_nat_eqI) (simp_all add: mult.commute)
    then show False using t(2) q by simp
  qed
  have "i div b * b + i mod b = i" "i mod b < b" using assms(2) by simp_all
  then show "i \<in> set [i div b * b..<i div b * b + b]" unfolding set_upt atLeastLessThan_iff by linarith
qed

definition tiled_order :: "nat \<Rightarrow> nat \<Rightarrow> (nat \<times> nat \<times> nat) list" where
  "tiled_order n b = concat (map (\<lambda>ii. concat (map (\<lambda>kk. concat (map (\<lambda>jj. concat (map (\<lambda>i. concat (map (\<lambda>k. row i k [jj..<jj + b])
     [kk..<kk + b])) [ii..<ii + b])) (steps_of n b))) (steps_of n b))) (steps_of n b))"

lemma tiled_hits:
  assumes b: "b dvd n" "0 < b" and ij: "i < n" "j < n"
  shows "hits i j (tiled_order n b) = [0..<n]"
proof -
  let ?S = "steps_of n b"
  let ?ii = "i div b * b" and ?jj = "j div b * b"
  note sb = steps_of_block [OF b]
  have tile: "hits i j (concat (map (\<lambda>i'. concat (map (\<lambda>k. row i' k [jj..<jj + b]) [kk..<kk + b])) [ii..<ii + b])) =
      (if i \<in> set [ii..<ii + b] \<and> j \<in> set [jj..<jj + b] then [kk..<kk + b] else [])" (is "_ = ?r") for ii kk jj
  proof -
    have "hits i j (concat (map (\<lambda>i'. concat (map (\<lambda>k. row i' k [jj..<jj + b]) [kk..<kk + b])) [ii..<ii + b])) =
        concat (map (\<lambda>i'. if i' = i then (if j \<in> set [jj..<jj + b] then [kk..<kk + b] else []) else []) [ii..<ii + b])"
      unfolding hits_concat hits_row [OF distinct_upt]
      by (rule arg_cong [where f = concat], rule map_cong) (auto simp: concat_singletons)
    also have "\<dots> = ?r"
    proof (cases "i \<in> set [ii..<ii + b]")
      case True
      then show ?thesis by (subst concat_single [OF distinct_upt True]) simp_all
    next
      case False
      then have "\<forall>x\<in>set [ii..<ii + b]. x \<noteq> i" by blast
      then show ?thesis using False by (simp del: set_upt add: concat_eq_Nil_conv)
    qed
    finally show ?thesis .
  qed
  have "hits i j (tiled_order n b) = concat (map (\<lambda>ii. concat (map (\<lambda>kk. concat (map (\<lambda>jj.
      if i \<in> set [ii..<ii + b] \<and> j \<in> set [jj..<jj + b] then [kk..<kk + b] else []) ?S)) ?S)) ?S)"
    unfolding tiled_order_def by (simp only: hits_concat [of _ _ _ ?S] tile)
  also have "\<dots> = concat (map (\<lambda>kk. concat (map (\<lambda>jj.
      if i \<in> set [?ii..<?ii + b] \<and> j \<in> set [jj..<jj + b] then [kk..<kk + b] else []) ?S)) ?S)"
  proof (rule concat_single [OF sb(1) sb(3) [OF ij(1)]])
    fix ii assume "ii \<in> set ?S" "ii \<noteq> ?ii"
    then have "i \<notin> set [ii..<ii + b]" by (rule sb(4))
    then show "concat (map (\<lambda>kk. concat (map (\<lambda>jj.
      if i \<in> set [ii..<ii + b] \<and> j \<in> set [jj..<jj + b] then [kk..<kk + b] else []) ?S)) ?S) = []"
      by (simp only: if_False simp_thms concat_eq_Nil_conv set_map) auto
  qed
  also have "\<dots> = concat (map (\<lambda>kk. [kk..<kk + b]) ?S)"
  proof (rule arg_cong [where f = concat], rule map_cong [OF refl])
    fix kk
    have "concat (map (\<lambda>jj. if i \<in> set [?ii..<?ii + b] \<and> j \<in> set [jj..<jj + b] then [kk..<kk + b] else []) ?S) =
        (if i \<in> set [?ii..<?ii + b] \<and> j \<in> set [?jj..<?jj + b] then [kk..<kk + b] else [])"
      by (rule concat_single [OF sb(1) sb(3) [OF ij(2)]]) (use sb(4) in \<open>simp only: if_False simp_thms\<close>)
    then show "concat (map (\<lambda>jj. if i \<in> set [?ii..<?ii + b] \<and> j \<in> set [jj..<jj + b] then [kk..<kk + b] else []) ?S) = [kk..<kk + b]"
      using sb(5) by simp
  qed
  finally show ?thesis using steps_of_blocks [OF b(1)] by simp
qed

lemma mul_tiled_result:
  assumes b: "b dvd n" "0 < b" and len: "length A = n * n" "length B = n * n" "length C = n * n"
  shows "mul_tiled R n b A B C = Some (product R n A B)"
proof -
  note sb = steps_of_block [OF b]
  have in_block: "x < n" if "x \<in> set [t..<t + b]" "t \<in> set (steps_of n b)" for x t
    using that(1) sb(2) [OF that(2)] by simp
  have "for_each (steps_of n b) (\<lambda>ii. for_each (steps_of n b) (\<lambda>kk. for_each (steps_of n b) (\<lambda>jj.
       for_each [ii..<ii + b] (\<lambda>i. for_each [kk..<kk + b] (\<lambda>k C. get A (i * n + k) \<bind>
         (\<lambda>a. for_each [jj..<jj + b] (\<lambda>j C. add_product R n B a i k j C) C)))))) (replicate (n * n) (zero_val R)) =
    Some (fold (add_at R n A B) (tiled_order n b) (replicate (n * n) (zero_val R)))"
    unfolding tiled_order_def
    by (intro for_each_fold [where m = "n * n"] row_result len(1,2)) (simp_all add: in_block del: set_upt)
  moreover have "\<forall>t\<in>set (tiled_order n b). in_range n t"
    unfolding tiled_order_def row_def in_range_def using in_block by (auto simp del: set_upt)
  ultimately show ?thesis
    using add_all_products [of "tiled_order n b" n R A B] tiled_hits [OF b] by (simp add: mul_tiled_def zero_result len(3))
qed

lemma mul_naive_result:
  fixes A B C :: "'a list"
  assumes len: "length A = n * n" "length B = n * n" "length C = n * n"
  shows "mul_naive R n A B C = Some (product R n A B)"
proof -
  let ?d = "\<lambda>i j. dot_from R n A B i j [0..<n] (zero_val R)"
  have dot: "for_each ks (\<lambda>k sum. do { a \<leftarrow> get A (i * n + k); b \<leftarrow> get B (k * n + j); Some (plus_op R sum (times_op R a b)) }) s =
      Some (dot_from R n A B i j ks s)" if "\<forall>k\<in>set ks. k < n" "i < n" "j < n" for i j ks s
    using that(1)
  proof (induction ks arbitrary: s)
    case (Cons k ks)
    then have "i * n + k < n * n" "k * n + j < n * n" using that(2,3) by (auto intro: cell_less)
    then show ?case using Cons by (simp add: get_def len dot_from_def)
  qed (simp add: dot_from_def)
  let ?upd = "\<lambda>(i, j) C. C[i * n + j := ?d i j]"
  let ?ps = "concat (map (\<lambda>i. map (\<lambda>j. (i, j)) [0..<n]) [0..<n])"
  have "mul_naive R n A B C = Some (fold ?upd ?ps C)"
    unfolding mul_naive_def
  proof (rule for_each_fold [where m = "n * n"])
    fix i and C :: "'a list" assume i: "i \<in> set [0..<n]" and C: "length C = n * n"
    show "for_each [0..<n] (\<lambda>j C. do {
        sum \<leftarrow> for_each [0..<n] (\<lambda>k sum. do { a \<leftarrow> get A (i * n + k); b \<leftarrow> get B (k * n + j);
          Some (plus_op R sum (times_op R a b)) }) (zero_val R);
        set_at C (i * n + j) sum }) C = Some (fold ?upd (map (\<lambda>j. (i, j)) [0..<n]) C)"
      using i C cell_less [of i n] by (intro for_each_single [where m = "n * n"]) (simp_all add: dot set_at_def split: prod.splits)
  qed (simp_all add: len split: prod.splits)
  moreover have "fold ?upd ?ps C = product R n A B"
  proof (rule product_eqI)
    have keep: "length (fold ?upd ps C) = length C" for ps and C :: "'a list" by (induction ps arbitrary: C) (simp_all split: prod.splits)
    then show "length (fold ?upd ?ps C) = n * n" using len by simp
    fix i j assume ij: "i < n" "j < n"
    have entry: "fold ?upd ps C ! (i * n + j) = ?d i j"
      if "(i, j) \<in> set ps" "\<forall>(i', j')\<in>set ps. i' < n \<and> j' < n" "length C = n * n" for ps C
      using that
    proof (induction ps rule: rev_induct)
      case (snoc p ps)
      obtain i' j' where p: "p = (i', j')" by (cases p)
      then have "i' < n" "j' < n" using snoc.prems(2) by auto
      then show ?case using snoc p ij cell_less [of i n j] by (cases "(i', j') = (i, j)") (auto simp: keep nth_list_update index_inject)
    qed simp
    show "fold ?upd ?ps C ! (i * n + j) = ?d i j" by (rule entry) (use ij len(3) in \<open>auto simp: image_iff\<close>)
  qed
  ultimately show ?thesis by simp
qed

lemma checksum_result:
  assumes "length C = n * n"
  shows "checksum R n C = Some (fold (\<lambda>c s. plus_op R s c) C (zero_val R))"
proof -
  have "for_each xs (\<lambda>i s. map_option (plus_op R s) (get C i)) s = Some (fold (\<lambda>i s. plus_op R s (C ! i)) xs s)"
    if "\<forall>i\<in>set xs. i < length C" for xs s
    using that by (induction xs arbitrary: s) (simp_all add: get_def)
  moreover have "fold (\<lambda>i s. plus_op R s (C ! i)) [0..<length C] s = fold (\<lambda>c s. plus_op R s c) (map (\<lambda>i. C ! i) [0..<length C]) s" for s
    by (simp add: fold_map comp_def)
  ultimately show ?thesis using assms map_nth [of C] by (simp add: checksum_def)
qed

subsection \<open>The version in C++\<close>

text \<open>
  The class \<^verbatim>\<open>Matrix<T>\<close> keeps its data in a vector of \<open>N * N\<close> values, which starts as all zero; \<^verbatim>\<open>operator()(r, c)\<close> is the index
  \<open>r * N + c\<close>. The multiplications are the same loop nests, over any number type \<open>T\<close>.
\<close>

definition Matrix :: "'a arith \<Rightarrow> nat \<Rightarrow> 'a list" where
  "Matrix R n = replicate (n * n) (zero_val R)"

definition fill_pattern :: "'a arith \<Rightarrow> nat \<Rightarrow> 'a list \<Rightarrow> 'a list option" where
  "fill_pattern R n m = for_each [0..<n * n] (\<lambda>i m. set_at m i (from_int R (i mod 7 + 1))) m"

definition zero_cpp :: "'a arith \<Rightarrow> nat \<Rightarrow> 'a list \<Rightarrow> 'a list option" where
  "zero_cpp R n m = Some (replicate (length m) (zero_val R))"

definition checksum_cpp :: "'a arith \<Rightarrow> nat \<Rightarrow> 'a list \<Rightarrow> 'a option" where
  "checksum_cpp R n = checksum R n"

definition mul_naive_cpp :: "'a arith \<Rightarrow> nat \<Rightarrow> 'a list \<Rightarrow> 'a list \<Rightarrow> 'a list \<Rightarrow> 'a list option" where
  "mul_naive_cpp R n = mul_naive R n"

definition mul_reordered_cpp :: "'a arith \<Rightarrow> nat \<Rightarrow> 'a list \<Rightarrow> 'a list \<Rightarrow> 'a list \<Rightarrow> 'a list option" where
  "mul_reordered_cpp R n A B C = zero_cpp R n C \<bind> (\<lambda>C. for_each [0..<n] (\<lambda>i. for_each [0..<n] (\<lambda>k C. do {
       a \<leftarrow> get A (i * n + k);
       for_each [0..<n] (\<lambda>j C. add_product R n B a i k j C) C })) C)"

definition mul_tiled_cpp :: "'a arith \<Rightarrow> nat \<Rightarrow> nat \<Rightarrow> 'a list \<Rightarrow> 'a list \<Rightarrow> 'a list \<Rightarrow> 'a list option" where
  "mul_tiled_cpp R n block A B C = zero_cpp R n C \<bind> (\<lambda>C.
     for_each (steps_of n block) (\<lambda>ii. for_each (steps_of n block) (\<lambda>kk. for_each (steps_of n block) (\<lambda>jj.
       for_each [ii..<ii + block] (\<lambda>i. for_each [kk..<kk + block] (\<lambda>k C. do {
         a \<leftarrow> get A (i * n + k);
         for_each [jj..<jj + block] (\<lambda>j C. add_product R n B a i k j C) C }))))) C)"

definition matmul_main_cpp :: "'a arith \<Rightarrow> nat \<Rightarrow> nat \<Rightarrow> string option \<Rightarrow> (nat + 'a) option" where
  "matmul_main_cpp R n block mode = do {
     A \<leftarrow> fill_pattern R n (Matrix R n);
     B \<leftarrow> fill_pattern R n (Matrix R n);
     let C = Matrix R n;
     let mode = (case mode of None \<Rightarrow> ''naive'' | Some m \<Rightarrow> m);
     if mode = ''naive'' then mul_naive_cpp R n A B C \<bind> checksum_cpp R n \<bind> (\<lambda>s. Some (Inr s))
     else if mode = ''reordered'' then mul_reordered_cpp R n A B C \<bind> checksum_cpp R n \<bind> (\<lambda>s. Some (Inr s))
     else if mode = ''tiled'' then mul_tiled_cpp R n block A B C \<bind> checksum_cpp R n \<bind> (\<lambda>s. Some (Inr s))
     else Some (Inl 1) }"

lemma cpp_same:
  "length C = n * n \<Longrightarrow> mul_reordered_cpp R n A B C = mul_reordered R n A B C"
  "length C = n * n \<Longrightarrow> mul_tiled_cpp R n b A B C = mul_tiled R n b A B C"
  by (simp_all add: mul_reordered_cpp_def mul_reordered_def mul_tiled_cpp_def mul_tiled_def zero_cpp_def zero_result)

lemma fill_pattern_result: "fill_pattern R n (Matrix R n) = Some (map (\<lambda>i. from_int R (i mod 7 + 1)) [0..<n * n])"
  unfolding fill_pattern_def Matrix_def by (subst set_loop) (simp_all add: fold_set_all)

subsection \<open>Properties\<close>

text \<open>C29: On arrays of the declared size no access is out of bounds, and the three multiplications give the same array:
  in each entry the products are added to zero in the order of \<open>k\<close>, the very same operations. This holds for every number
  type, floating point included, and for every size that the block size divides. The program prints the same checksum
  in each of its modes, and the C++ version computes the same arrays.\<close>

theorem multiplications_agree:
  assumes "block dvd n" "0 < block" "length A = n * n" "length B = n * n" "length C = n * n"
  shows "mul_naive R n A B C = Some (product R n A B) \<and> mul_reordered R n A B C = Some (product R n A B) \<and>
     mul_tiled R n block A B C = Some (product R n A B) \<and>
     mul_naive_cpp R n A B C = Some (product R n A B) \<and> mul_reordered_cpp R n A B C = Some (product R n A B) \<and>
     mul_tiled_cpp R n block A B C = Some (product R n A B) \<and>
     (\<forall>mode \<in> {Some ''naive'', Some ''reordered'', Some ''tiled''}. \<exists>s.
        matmul_main R n block (Some (A, B, C)) mode = Some (Inr s) \<and>
        matmul_main R n block (Some (A, B, C)) None = Some (Inr s))"
proof -
  note results = mul_naive_result [OF assms(3-5)] mul_reordered_result [OF assms(3-5)] mul_tiled_result [OF assms]
  have cpp: "mul_naive_cpp R n A B C = Some (product R n A B)" "mul_reordered_cpp R n A B C = Some (product R n A B)"
    "mul_tiled_cpp R n block A B C = Some (product R n A B)"
    by (simp_all add: mul_naive_cpp_def cpp_same assms(5) results)
  let ?F = "map (\<lambda>i. plus_op R (from_int R (i mod 7)) (from_int R 1)) [0..<n * n]"
  have main: "matmul_main R n block (Some (A, B, C)) mode = Some (Inr (fold (\<lambda>c s. plus_op R s c) (product R n ?F ?F) (zero_val R)))"
    if "mode \<in> {None, Some ''naive'', Some ''reordered'', Some ''tiled''}" for mode
    using that unfolding matmul_main_def
    by (auto simp: fill_result assms(3,4) mul_naive_result mul_reordered_result mul_tiled_result [OF assms(1,2)] assms(5) checksum_result)
  show ?thesis using results cpp main by blast
qed

definition int_arith :: "int arith" where
  "int_arith = \<lparr>zero_val = 0, plus_op = (+), times_op = (*), from_int = int\<rparr>"

theorem multiplications_agree_witness:
  "mul_tiled int_arith 2 1 [1, 2, 3, 4] [5, 6, 7, 8] [0, 0, 0, 0] = Some [19, 22, 43, 50] \<and>
   mul_tiled int_arith 2 1 [1, 2, 3, 4] [5, 6, 7, 8] [0, 0, 0, 0] = mul_naive int_arith 2 [1, 2, 3, 4] [5, 6, 7, 8] [0, 0, 0, 0]"
proof -
  have "product int_arith 2 [1, 2, 3, 4] [5, 6, 7, 8] = [19, 22, 43, 50]"
    by code_simp
  then show ?thesis
    using multiplications_agree [of 1 2 "[1, 2, 3, 4]" "[5, 6, 7, 8]" "[0, 0, 0, 0]" int_arith] by simp
qed

end
