(* ===== verification/Text_Search.thy ===== *)
theory Text_Search
  imports Prelude
begin

text \<open>
  The text search of Day 8, which exists four times: over a mapped file in \<^verbatim>\<open>Phase-1/Day8/C/shared_memory.c\<close> and
  \<^verbatim>\<open>C++/shared_memory.cpp\<close>, over a buffer in \<^verbatim>\<open>C/not_shared.c\<close> and \<^verbatim>\<open>C++/not_shared.cpp\<close>. The search loop is the same in all.
  Pointers into the buffer are indices, a read outside it is undefined (\<open>None\<close>). Around it: opening and mapping the file, with
  the answers of the operating system as arguments, and the C++ class that owns the handles. A handle that is not open must
  not be closed (\<open>None\<close>), and one that stays open at the end is a leak.
\<close>

subsection \<open>The search\<close>

definition newline :: char where "newline = CHR 0x0A"

definition memcmp_equal :: "string \<Rightarrow> nat \<Rightarrow> string \<Rightarrow> bool option" where
  "memcmp_equal buf p target =
     (if p + length target \<le> length buf then Some (take (length target) (drop p buf) = target) else None)"

text \<open>\<^verbatim>\<open>memchr\<close> for the next newline, up to the end of the buffer.\<close>

definition memchr_newline :: "string \<Rightarrow> nat \<Rightarrow> nat option" where
  "memchr_newline buf start =
     (let n = length (takeWhile (\<lambda>c. c \<noteq> newline) (drop start buf)) in
      if start + n < length buf then Some (start + n) else None)"

text \<open>
  The text that \<^verbatim>\<open>"%.*s"\<close> prints: at most as many characters as the precision, and nothing from a zero byte on. The precision
  is the difference of the pointers, cast to \<^verbatim>\<open>int\<close>. A negative one is as if there was none: then only a zero byte ends the text,
  and without one the read leaves the buffer.
\<close>

definition printed_text :: "string \<Rightarrow> nat \<Rightarrow> nat \<Rightarrow> string option" where
  "printed_text buf start stop =
     (let precision = sint (word_of_nat (stop - start) :: i32) in
      if 0 \<le> precision then Some (takeWhile (\<lambda>c. c \<noteq> CHR 0x00) (take (nat precision) (drop start buf)))
      else if CHR 0x00 \<in> set (drop start buf) then Some (takeWhile (\<lambda>c. c \<noteq> CHR 0x00) (drop start buf))
      else None)"

partial_function (option) grep_loop ::
    "string \<Rightarrow> string \<Rightarrow> nat \<Rightarrow> nat \<Rightarrow> nat \<Rightarrow> nat \<Rightarrow> (nat \<times> string) list \<Rightarrow> ((nat \<times> string) list \<times> nat) option" where
  "grep_loop buf target ptr line_start line_no matches out =
     (if length buf < ptr + length target then Some (out, matches)
      else if length buf \<le> ptr then None
      else (let line_no = (if buf ! ptr = newline then line_no + 1 else line_no);
                line_start = (if buf ! ptr = newline then ptr + 1 else line_start) in
        do {
          equal \<leftarrow> memcmp_equal buf ptr target;
          if equal then do {
            let line_end = (case memchr_newline buf line_start of None \<Rightarrow> length buf | Some e \<Rightarrow> e);
            text \<leftarrow> printed_text buf line_start line_end;
            grep_loop buf target (ptr + length target) line_start line_no (matches + 1) (out @ [(line_no, text)])
          }
          else grep_loop buf target (ptr + 1) line_start line_no matches out }))"

text \<open>The lines printed, with their numbers, and the total; \<open>Some None\<close> when the search prints nothing at all.\<close>

definition grep_buffer :: "string \<Rightarrow> string \<Rightarrow> ((nat \<times> string) list \<times> nat) option option" where
  "grep_buffer buf target =
     (if target = [] \<or> length buf < length target then Some None
      else map_option Some (grep_loop buf target 0 0 1 0 []))"

text \<open>The copies of the function in the other three files; in C++ the target is a \<^verbatim>\<open>std::string\<close> with its own length.\<close>

definition grep_buffer_read :: "string \<Rightarrow> string \<Rightarrow> ((nat \<times> string) list \<times> nat) option option" where
  "grep_buffer_read = grep_buffer"

definition grep_buffer_mapped_cpp :: "string \<Rightarrow> string \<Rightarrow> ((nat \<times> string) list \<times> nat) option option" where
  "grep_buffer_mapped_cpp = grep_buffer"

definition grep_buffer_read_cpp :: "string \<Rightarrow> string \<Rightarrow> ((nat \<times> string) list \<times> nat) option option" where
  "grep_buffer_read_cpp = grep_buffer"

lemmas grep_copies = grep_buffer_read_def grep_buffer_mapped_cpp_def grep_buffer_read_cpp_def

subsection \<open>What it finds\<close>

definition occurs_at :: "string \<Rightarrow> string \<Rightarrow> nat \<Rightarrow> bool" where
  "occurs_at buf target p \<longleftrightarrow> p + length target \<le> length buf \<and> take (length target) (drop p buf) = target"

primrec split_lines :: "string \<Rightarrow> string list" where
  "split_lines [] = [[]]"
| "split_lines (c # cs) = (if c = newline then [] # split_lines cs else (c # hd (split_lines cs)) # tl (split_lines cs))"

text \<open>Lines shorter than two gigabytes, whose length an \<^verbatim>\<open>int\<close> can hold.\<close>

definition short_lines :: "string \<Rightarrow> bool" where
  "short_lines buf \<longleftrightarrow> (\<forall>l\<in>set (split_lines buf). length l < 2 ^ 31)"

definition newlines :: "string \<Rightarrow> nat" where
  "newlines cs = length (filter (\<lambda>c. c = newline) cs)"

text \<open>The number and the text of the line around position \<open>p\<close>.\<close>

definition line_around :: "string \<Rightarrow> nat \<Rightarrow> nat \<times> string" where
  "line_around buf p = (1 + newlines (take p buf), takeWhile (\<lambda>c. c \<noteq> CHR 0x00) (split_lines buf ! newlines (take p buf)))"

text \<open>
  The places found: disjoint occurrences from left to right, such that every occurrence overlaps one that was found at or
  before its place.
\<close>

definition leftmost_matches :: "string \<Rightarrow> string \<Rightarrow> nat list \<Rightarrow> bool" where
  "leftmost_matches buf target ps \<longleftrightarrow> sorted_wrt (\<lambda>p q. p + length target \<le> q) ps \<and> (\<forall>p\<in>set ps. occurs_at buf target p) \<and>
     (\<forall>q. occurs_at buf target q \<longrightarrow> (\<exists>p\<in>set ps. p \<le> q \<and> q < p + length target))"

definition line_begin :: "string \<Rightarrow> nat \<Rightarrow> nat" where
  "line_begin buf p = p - length (takeWhile (\<lambda>c. c \<noteq> newline) (rev (take p buf)))"

lemma split_lines_Nil [simp]: "split_lines cs \<noteq> []"
  by (cases cs) simp_all

lemma hd_split_lines: "hd (split_lines cs) = takeWhile (\<lambda>c. c \<noteq> newline) cs"
  by (induction cs) simp_all

lemma line_begin_le: "line_begin buf p \<le> p"
  by (simp add: line_begin_def)

lemma takeWhile_rev_length: "length (takeWhile P (rev (take p buf))) \<le> p"
  by (rule order_trans [OF length_takeWhile_le]) simp

lemma line_begin_Suc:
  assumes "p < length buf"
  shows "line_begin buf (Suc p) = (if buf ! p = newline then Suc p else line_begin buf p)"
  using assms takeWhile_rev_length [of "\<lambda>c. c \<noteq> newline" p buf] by (simp add: line_begin_def take_Suc_conv_app_nth Suc_diff_le)

lemma newlines_Suc: "p < length buf \<Longrightarrow> newlines (take (Suc p) buf) = newlines (take p buf) + (if buf ! p = newline then 1 else 0)"
  by (simp add: newlines_def take_Suc_conv_app_nth)

lemma line_begin_Cons:
  "line_begin (c # cs) (Suc p) = (if newline \<in> set (take p cs) then Suc (line_begin cs p) else if c = newline then 1 else 0)"
  if "p \<le> length cs"
proof (cases "newline \<in> set (take p cs)")
  case True
  then have "\<exists>x\<in>set (rev (take p cs)). \<not> x \<noteq> newline" by simp
  then have "takeWhile (\<lambda>c. c \<noteq> newline) (rev (take p cs) @ [c]) = takeWhile (\<lambda>c. c \<noteq> newline) (rev (take p cs))"
    by (auto intro: takeWhile_append1)
  then show ?thesis using True takeWhile_rev_length [of "\<lambda>c. c \<noteq> newline" p cs] by (simp add: line_begin_def Suc_diff_le)
next
  case False
  then have "takeWhile (\<lambda>c. c \<noteq> newline) (rev (take p cs) @ [c]) = rev (take p cs) @ takeWhile (\<lambda>c. c \<noteq> newline) [c]"
    by (intro takeWhile_append2) auto
  then show ?thesis using False that by (simp add: line_begin_def)
qed

lemma newlines_Cons: "newlines (c # cs) = newlines cs + (if c = newline then 1 else 0)"
  by (simp add: newlines_def)

lemma newlines_0: "newline \<notin> set cs \<Longrightarrow> newlines cs = 0"
  by (auto simp: newlines_def filter_empty_conv)

lemma line_text:
  "p \<le> length buf \<Longrightarrow> takeWhile (\<lambda>c. c \<noteq> newline) (drop (line_begin buf p) buf) = split_lines buf ! newlines (take p buf)"
proof (induction buf arbitrary: p)
  case (Cons c cs)
  have hd: "split_lines xs ! 0 = takeWhile (\<lambda>c. c \<noteq> newline) xs" for xs
    by (metis hd_conv_nth hd_split_lines split_lines_Nil)
  show ?case
  proof (cases p)
    case 0
    then show ?thesis using hd [of "c # cs"] by (simp add: line_begin_def newlines_def)
  next
    case (Suc q)
    then have q: "q \<le> length cs" using Cons.prems by simp
    have count: "newlines (take p (c # cs)) = newlines (take q cs) + (if c = newline then 1 else 0)"
      by (simp add: newlines_def Suc)
    show ?thesis
    proof (cases "newline \<in> set (take q cs)")
      case True
      then have "newlines (take q cs) \<noteq> 0" by (auto simp: newlines_def filter_empty_conv)
      then obtain n where n: "newlines (take q cs) = Suc n" by (cases "newlines (take q cs)") auto
      have "split_lines (c # cs) ! newlines (take p (c # cs)) = split_lines cs ! newlines (take q cs)"
        unfolding count n by (cases "split_lines cs") simp_all
      then show ?thesis using Cons.IH [OF q] True Suc q by (simp add: line_begin_Cons)
    next
      case False
      then show ?thesis using hd [of cs] hd [of "c # cs"] newlines_0 [OF False] Suc q
        by (cases "c = newline") (simp_all add: line_begin_Cons newlines_Cons)
    qed
  qed
qed (simp add: newlines_def line_begin_def)

lemma length_split_lines: "length (split_lines cs) = newlines cs + 1"
  by (induction cs) (auto simp: newlines_def)

lemma newlines_take: "newlines (take p cs) \<le> newlines cs"
proof -
  have "newlines cs = newlines (take p cs) + newlines (drop p cs)"
    using append_take_drop_id [of p cs] by (metis (no_types, lifting) filter_append length_append newlines_def)
  then show ?thesis by simp
qed

lemma short_line: "short_lines buf \<Longrightarrow> length (split_lines buf ! newlines (take p buf)) < 2 ^ 31"
  using newlines_take [of p buf] by (simp add: short_lines_def length_split_lines)

lemma int_precision: "n < 2 ^ 31 \<Longrightarrow> sint (word_of_nat n :: i32) = int n"
  by (simp add: signed_of_nat signed_take_bit_int_eq_self)

lemma printed_line:
  assumes "p \<le> length buf" and short: "short_lines buf"
  shows "printed_text buf (line_begin buf p) (case memchr_newline buf (line_begin buf p) of None \<Rightarrow> length buf | Some e \<Rightarrow> e) =
    Some (takeWhile (\<lambda>c. c \<noteq> CHR 0x00) (split_lines buf ! newlines (take p buf)))"
proof -
  let ?e = "case memchr_newline buf (line_begin buf p) of None \<Rightarrow> length buf | Some e \<Rightarrow> e"
  let ?b = "line_begin buf p"
  let ?l = "takeWhile (\<lambda>c. c \<noteq> newline) (drop ?b buf)"
  have b: "?b \<le> length buf" using line_begin_le [of buf p] assms by simp
  have l: "length ?l \<le> length buf - ?b" using length_takeWhile_le [of _ "drop ?b buf"] by simp
  have line: "take (?e - ?b) (drop ?b buf) = ?l"
  proof (cases "?b + length ?l < length buf")
    case True
    then show ?thesis by (simp add: memchr_newline_def Let_def takeWhile_eq_take [symmetric])
  next
    case False
    then have "length ?l = length (drop ?b buf)" using l b by simp
    then have "?l = drop ?b buf" by (metis takeWhile_eq_take take_all order_refl)
    moreover have "take (length buf - ?b) (drop ?b buf) = drop ?b buf" by simp
    ultimately have "take (length buf - ?b) (drop ?b buf) = ?l" by metis
    then show ?thesis using False by (simp add: memchr_newline_def Let_def)
  qed
  have e: "?e - ?b = length ?l"
    using l b by (auto simp: memchr_newline_def Let_def)
  then have "?e - ?b < 2 ^ 31" using short_line [OF short, of p] unfolding line_text [OF assms(1), symmetric] by simp
  then have "sint (word_of_nat (?e - ?b) :: i32) = int (?e - ?b)" by (rule int_precision)
  then show ?thesis using line unfolding printed_text_def line_text [OF assms(1), symmetric] by (simp add: Let_def)
qed

text \<open>A match without a newline leaves line number and line begin as they are.\<close>

lemma skip_match:
  assumes "occurs_at buf target p" "newline \<notin> set target" "n \<le> length target"
  shows "newlines (take (p + n) buf) = newlines (take p buf) \<and> line_begin buf (p + n) = line_begin buf p"
  using assms(3)
proof (induction n)
  case (Suc n)
  have p: "p + n < length buf" using assms(1) Suc.prems by (simp add: occurs_at_def)
  have "buf ! (p + n) = target ! n" using assms(1) Suc.prems unfolding occurs_at_def by (metis Suc_le_eq add_leD1 nth_drop nth_take)
  then have "buf ! (p + n) \<noteq> newline" using assms(2) Suc.prems by (metis Suc_le_eq nth_mem)
  then show ?case using Suc p by (simp add: newlines_Suc line_begin_Suc)
qed simp

definition found_before :: "string \<Rightarrow> string \<Rightarrow> nat \<Rightarrow> nat list \<Rightarrow> bool" where
  "found_before buf target p ps \<longleftrightarrow> sorted_wrt (\<lambda>p q. p + length target \<le> q) ps \<and>
     (\<forall>q\<in>set ps. occurs_at buf target q \<and> q + length target \<le> p) \<and>
     (\<forall>q<p. occurs_at buf target q \<longrightarrow> (\<exists>r\<in>set ps. r \<le> q \<and> q < r + length target))"

lemma found_match:
  assumes f: "found_before buf target p ps" and o: "occurs_at buf target p"
  shows "found_before buf target (p + length target) (ps @ [p])"
proof -
  have "\<exists>r\<in>set (ps @ [p]). r \<le> q \<and> q < r + length target" if "q < p + length target" "occurs_at buf target q" for q
    using f that unfolding found_before_def by (cases "q < p") auto
  then show ?thesis using f o unfolding found_before_def by (auto simp: sorted_wrt_append)
qed

lemma found_miss:
  assumes "found_before buf target p ps" "\<not> occurs_at buf target p"
  shows "found_before buf target (p + 1) ps"
  using assms unfolding found_before_def by (auto simp: less_Suc_eq)

lemma grep_loop_result:
  assumes t: "target \<noteq> []" "newline \<notin> set target" and short: "short_lines buf"
    and p: "ptr \<le> length buf" "line_start = line_begin buf ptr" "line_no = 1 + newlines (take ptr buf)"
    and f: "found_before buf target ptr ps" and o: "out = map (line_around buf) ps" "matches = length ps"
  shows "\<exists>qs. leftmost_matches buf target qs \<and>
    grep_loop buf target ptr line_start line_no matches out = Some (map (line_around buf) qs, length qs)"
  using p f o
proof (induction "length buf - ptr" arbitrary: ptr line_start line_no matches out ps rule: less_induct)
  case less
  have len: "0 < length target" using t(1) by simp
  show ?case
  proof (cases "length buf < ptr + length target")
    case True
    then have "\<forall>q. occurs_at buf target q \<longrightarrow> q < ptr" by (auto simp: occurs_at_def)
    then have "leftmost_matches buf target ps" using less.prems(4) unfolding leftmost_matches_def found_before_def by blast
    then show ?thesis using True less.prems by (subst grep_loop.simps) auto
  next
    case False
    then have ptr: "ptr < length buf" using len by linarith
    let ?no = "if buf ! ptr = newline then line_no + 1 else line_no"
    let ?start = "if buf ! ptr = newline then ptr + 1 else line_start"
    have next_char: "?no = 1 + newlines (take (ptr + 1) buf)" "?start = line_begin buf (ptr + 1)"
      using less.prems(2,3) ptr by (simp_all add: newlines_Suc line_begin_Suc)
    show ?thesis
    proof (cases "occurs_at buf target ptr")
      case True
      have "buf ! ptr = target ! 0" using True len unfolding occurs_at_def by (metis add.right_neutral le_add1 le_trans nth_drop nth_take)
      then have no: "buf ! ptr \<noteq> newline" using t(2) len by (metis nth_mem)
      let ?e = "case memchr_newline buf line_start of None \<Rightarrow> length buf | Some e \<Rightarrow> e"
      have "\<exists>shown. printed_text buf line_start ?e = Some shown \<and> (line_no, shown) = line_around buf ptr"
        using printed_line [of ptr buf] less.prems(1,2,3) short by (simp add: line_around_def)
      then obtain shown where shown: "printed_text buf line_start ?e = Some shown" "(line_no, shown) = line_around buf ptr" by blast
      have eq: "grep_loop buf target ptr line_start line_no matches out =
          grep_loop buf target (ptr + length target) line_start line_no (matches + 1) (out @ [(line_no, shown)])"
        using True False ptr no shown(1) by (subst grep_loop.simps) (simp add: memcmp_equal_def occurs_at_def Let_def)
      show ?thesis unfolding eq shown(2)
      proof (rule less.hyps)
        show "length buf - (ptr + length target) < length buf - ptr" using ptr len by linarith
        show "ptr + length target \<le> length buf" using False by simp
        show "line_start = line_begin buf (ptr + length target)" "line_no = 1 + newlines (take (ptr + length target) buf)"
          using skip_match [OF True t(2) order_refl] less.prems(2,3) by simp_all
        show "found_before buf target (ptr + length target) (ps @ [ptr])" by (rule found_match [OF less.prems(4) True])
      qed (use less.prems(5,6) in simp_all)
    next
      case no: False
      have eq: "grep_loop buf target ptr line_start line_no matches out = grep_loop buf target (ptr + 1) ?start ?no matches out"
        using no False ptr by (subst grep_loop.simps) (simp add: memcmp_equal_def occurs_at_def Let_def)
      show ?thesis unfolding eq
        by (rule less.hyps [of _ _ _ ps]) (use ptr next_char found_miss [OF less.prems(4) no] less.prems(5,6) in auto)
    qed
  qed
qed

subsection \<open>Mapping the file, in C\<close>

text \<open>What the operating system has open, and what it answers: whether the file opens and its size can be asked, its contents, and
  whether mapping and view succeed. A new handle is a number that was never used.\<close>

record win_os =
  open_files :: "nat set"
  open_maps :: "nat set"
  open_views :: "nat set"
  next_handle :: nat

record win_env =
  file_opens :: bool
  size_known :: bool
  contents :: string
  mapping_works :: bool
  view_works :: bool

definition CloseHandle :: "nat \<Rightarrow> win_os \<Rightarrow> win_os option" where
  "CloseHandle h os =
     (if h \<in> open_files os then Some (os\<lparr>open_files := open_files os - {h}\<rparr>)
      else if h \<in> open_maps os then Some (os\<lparr>open_maps := open_maps os - {h}\<rparr>)
      else None)"

definition UnmapViewOfFile :: "nat \<Rightarrow> win_os \<Rightarrow> win_os option" where
  "UnmapViewOfFile d os = (if d \<in> open_views os then Some (os\<lparr>open_views := open_views os - {d}\<rparr>) else None)"

record mapping =
  map_data :: "nat option"
  map_size :: nat
  map_file :: "nat option"
  map_handle :: "nat option"

text \<open>The results are the pointer returned and the three out-parameters.\<close>

definition win32_file_operations :: "win_env \<Rightarrow> win_os \<Rightarrow> (mapping \<times> win_os) option" where
  "win32_file_operations env os =
     (let r = \<lparr>map_data = None, map_size = 0, map_file = None, map_handle = None\<rparr> in
      if \<not> file_opens env then Some (r, os)
      else (let f = next_handle os; os = os\<lparr>open_files := insert f (open_files os), next_handle := f + 1\<rparr>; r = r\<lparr>map_file := Some f\<rparr> in
        let n = length (contents env) in
          if \<not> size_known env then map_option (\<lambda>os. (r, os)) (CloseHandle f os)
          else if n = 0 then map_option (\<lambda>os. (r\<lparr>map_size := n\<rparr>, os)) (CloseHandle f os)
          else if \<not> mapping_works env then map_option (\<lambda>os. (r\<lparr>map_size := n\<rparr>, os)) (CloseHandle f os)
          else (let m = next_handle os; os = os\<lparr>open_maps := insert m (open_maps os), next_handle := m + 1\<rparr>;
                    r = r\<lparr>map_size := n, map_handle := Some m\<rparr> in
            if \<not> view_works env then do {
              os \<leftarrow> CloseHandle m os;
              os \<leftarrow> CloseHandle f os;
              Some (r, os) }
            else (let d = next_handle os in
              Some (r\<lparr>map_data := Some d\<rparr>, os\<lparr>open_views := insert d (open_views os), next_handle := d + 1\<rparr>)))))"

definition win32_unmap_close :: "nat option \<Rightarrow> nat option \<Rightarrow> nat option \<Rightarrow> win_os \<Rightarrow> win_os option" where
  "win32_unmap_close data hMap hFile os = do {
     os \<leftarrow> (case data of None \<Rightarrow> Some os | Some d \<Rightarrow> UnmapViewOfFile d os);
     os \<leftarrow> (case hMap of None \<Rightarrow> Some os | Some m \<Rightarrow> CloseHandle m os);
     (case hFile of None \<Rightarrow> Some os | Some f \<Rightarrow> CloseHandle f os) }"

text \<open>The exit code, with what was printed.\<close>

definition mapped_main :: "win_env \<Rightarrow> win_os \<Rightarrow> (int \<times> ((nat \<times> string) list \<times> nat) option \<times> win_os) option" where
  "mapped_main env os = do {
     (r, os) \<leftarrow> win32_file_operations env os;
     (case map_data r of
        None \<Rightarrow> Some (-1, None, os)
      | Some d \<Rightarrow> do {
          found \<leftarrow> grep_buffer (contents env) ''king'';
          os \<leftarrow> win32_unmap_close (map_data r) (map_handle r) (map_file r) os;
          Some (0, found, os) }) }"

subsection \<open>Reading the file\<close>

text \<open>
  The version with \<^verbatim>\<open>fread\<close>: whether the file opens, what \<^verbatim>\<open>ftell\<close> says, whether \<^verbatim>\<open>malloc\<close> succeeds and the bytes read. What the
  program holds is an open file and a buffer; closing or freeing what it does not hold is undefined.
\<close>

record stdio_env =
  fopen_works :: bool
  ftell_size :: int
  malloc_works :: bool
  bytes_read :: string

record held =
  fp_open :: bool
  buf_live :: bool

definition fclose :: "held \<Rightarrow> held option" where
  "fclose h = (if fp_open h then Some (h\<lparr>fp_open := False\<rparr>) else None)"

definition free_buf :: "held \<Rightarrow> held option" where
  "free_buf h = (if buf_live h then Some (h\<lparr>buf_live := False\<rparr>) else None)"

definition reading_main :: "stdio_env \<Rightarrow> (int \<times> ((nat \<times> string) list \<times> nat) option \<times> held) option" where
  "reading_main env =
     (let h = \<lparr>fp_open = False, buf_live = False\<rparr> in
      if \<not> fopen_works env then Some (-1, None, h)
      else (let h = h\<lparr>fp_open := True\<rparr> in
        if ftell_size env \<le> 0 then fclose h \<bind> (\<lambda>h. Some (-1, None, h))
        else if \<not> malloc_works env then fclose h \<bind> (\<lambda>h. Some (-1, None, h))
        else (let h = h\<lparr>buf_live := True\<rparr> in do {
          h \<leftarrow> fclose h;
          if int (length (bytes_read env)) \<noteq> ftell_size env then free_buf h \<bind> (\<lambda>h. Some (-1, None, h))
          else do {
            found \<leftarrow> grep_buffer_read (bytes_read env) ''king'';
            h \<leftarrow> free_buf h;
            Some (0, found, h) } })))"

subsection \<open>The class that owns a mapping\<close>

record MappedFile =
  mf_file :: "nat option"
  mf_map :: "nat option"
  mf_data :: "nat option"
  mf_size :: nat

definition empty_mapping :: MappedFile where
  "empty_mapping = \<lparr>mf_file = None, mf_map = None, mf_data = None, mf_size = 0\<rparr>"

text \<open>The constructor throws on each failure, after closing what it had opened.\<close>

definition MappedFile_create :: "win_env \<Rightarrow> win_os \<Rightarrow> (MappedFile option \<times> win_os) option" where
  "MappedFile_create env os =
     (if \<not> file_opens env then Some (None, os)
      else (let f = next_handle os; os = os\<lparr>open_files := insert f (open_files os), next_handle := f + 1\<rparr> in
        let n = length (contents env) in
          if \<not> size_known env then map_option (\<lambda>os. (None, os)) (CloseHandle f os)
          else if n = 0 then map_option (\<lambda>os. (None, os)) (CloseHandle f os)
          else if \<not> mapping_works env then map_option (\<lambda>os. (None, os)) (CloseHandle f os)
          else (let m = next_handle os; os = os\<lparr>open_maps := insert m (open_maps os), next_handle := m + 1\<rparr> in
            if \<not> view_works env then do {
              os \<leftarrow> CloseHandle m os;
              os \<leftarrow> CloseHandle f os;
              Some (None, os) }
            else (let d = next_handle os in
              Some (Some \<lparr>mf_file = Some f, mf_map = Some m, mf_data = Some d, mf_size = n\<rparr>,
                    os\<lparr>open_views := insert d (open_views os), next_handle := d + 1\<rparr>)))))"

definition release_mapping :: "MappedFile \<Rightarrow> win_os \<Rightarrow> (MappedFile \<times> win_os) option" where
  "release_mapping x os = do {
     os \<leftarrow> (case mf_data x of None \<Rightarrow> Some os | Some d \<Rightarrow> UnmapViewOfFile d os);
     os \<leftarrow> (case mf_map x of None \<Rightarrow> Some os | Some m \<Rightarrow> CloseHandle m os);
     os \<leftarrow> (case mf_file x of None \<Rightarrow> Some os | Some f \<Rightarrow> CloseHandle f os);
     Some (empty_mapping, os) }"

text \<open>The moves return the new object and what is left in the other one. \<open>same\<close> says that both are one object.\<close>

definition move_construct :: "MappedFile \<Rightarrow> MappedFile \<times> MappedFile" where
  "move_construct other = (other, empty_mapping)"

definition move_assign :: "bool \<Rightarrow> MappedFile \<Rightarrow> MappedFile \<Rightarrow> win_os \<Rightarrow> (MappedFile \<times> MappedFile \<times> win_os) option" where
  "move_assign same this other os =
     (if same then Some (this, other, os)
      else do {
        (_, os) \<leftarrow> release_mapping this os;
        Some (other, empty_mapping, os) })"

text \<open>
  A program that uses the class: variables hold objects, and the compiler destroys a variable once. A statement that does not
  apply (a variable that is declared already, or not yet) is skipped.
\<close>

datatype file_op = Create nat win_env | Move nat nat | Assign nat nat | Destroy nat

record file_program =
  vars :: "nat \<Rightarrow> MappedFile option"
  os_state :: win_os

fun file_step :: "file_op \<Rightarrow> file_program \<Rightarrow> file_program option" where
  "file_step (Create v env) s =
     (if vars s v \<noteq> None then Some s
      else map_option (\<lambda>(x, os). s\<lparr>vars := (vars s)(v := x), os_state := os\<rparr>) (MappedFile_create env (os_state s)))"
| "file_step (Move v w) s =
     (case vars s w of
        None \<Rightarrow> Some s
      | Some y \<Rightarrow> if vars s v \<noteq> None then Some s
          else (let (x, y') = move_construct y in Some (s\<lparr>vars := (vars s)(v \<mapsto> x, w \<mapsto> y')\<rparr>)))"
| "file_step (Assign v w) s =
     (case (vars s v, vars s w) of
        (Some x, Some y) \<Rightarrow> map_option (\<lambda>(x', y', os). s\<lparr>vars := (vars s)(w \<mapsto> y', v \<mapsto> x'), os_state := os\<rparr>)
          (move_assign (v = w) x y (os_state s))
      | _ \<Rightarrow> Some s)"
| "file_step (Destroy v) s =
     (case vars s v of
        None \<Rightarrow> Some s
      | Some x \<Rightarrow> map_option (\<lambda>(_, os). s\<lparr>vars := (vars s)(v := None), os_state := os\<rparr>) (release_mapping x (os_state s)))"

fun file_run :: "file_op list \<Rightarrow> file_program \<Rightarrow> file_program option" where
  "file_run [] s = Some s"
| "file_run (a # as) s = file_step a s \<bind> file_run as"

definition file_start :: file_program where
  "file_start = \<lparr>vars = (\<lambda>_. None), os_state = \<lparr>open_files = {}, open_maps = {}, open_views = {}, next_handle = 0\<rparr>\<rparr>"

text \<open>\<^verbatim>\<open>main\<close>: the object lives in the block and is destroyed at its end.\<close>

definition mapped_main_cpp :: "win_env \<Rightarrow> win_os \<Rightarrow> (int \<times> ((nat \<times> string) list \<times> nat) option \<times> win_os) option" where
  "mapped_main_cpp env os = do {
     (x, os) \<leftarrow> MappedFile_create env os;
     (case x of
        None \<Rightarrow> Some (-1, None, os)
      | Some x \<Rightarrow> do {
          found \<leftarrow> grep_buffer_mapped_cpp (contents env) ''king'';
          (_, os) \<leftarrow> release_mapping x os;
          Some (0, found, os) }) }"

text \<open>The class \<^verbatim>\<open>FileBuffer\<close> keeps the bytes in a vector; its constructor returns the bytes or throws.\<close>

definition FileBuffer :: "bool \<Rightarrow> stdio_env \<Rightarrow> held \<Rightarrow> (string option \<times> held) option" where
  "FileBuffer seek_works env h =
     (if \<not> fopen_works env then Some (None, h)
      else (let h = h\<lparr>fp_open := True\<rparr> in
        if \<not> seek_works then fclose h \<bind> (\<lambda>h. Some (None, h))
        else if ftell_size env \<le> 0 then fclose h \<bind> (\<lambda>h. Some (None, h))
        else do {
          h \<leftarrow> fclose h;
          Some (if int (length (bytes_read env)) \<noteq> ftell_size env then None else Some (bytes_read env), h) }))"

definition reading_main_cpp :: "bool \<Rightarrow> stdio_env \<Rightarrow> held \<Rightarrow> (int \<times> ((nat \<times> string) list \<times> nat) option \<times> held) option" where
  "reading_main_cpp seek_works env h = do {
     (fb, h) \<leftarrow> FileBuffer seek_works env h;
     (case fb of
        None \<Rightarrow> Some (-1, None, h)
      | Some text \<Rightarrow> map_option (\<lambda>found. (0, found, h)) (grep_buffer_read_cpp text ''king'')) }"

subsection \<open>Ownership\<close>

definition handles :: "(MappedFile \<Rightarrow> nat option) \<Rightarrow> (nat \<Rightarrow> MappedFile option) \<Rightarrow> nat \<Rightarrow> nat option" where
  "handles f xs v = (case xs v of None \<Rightarrow> None | Some x \<Rightarrow> f x)"

lemma handles_Some: "handles f (xs(v \<mapsto> x)) = (handles f xs)(v := f x)"
  by (auto simp: handles_def fun_eq_iff)

lemma handles_None: "handles f (xs(v := None)) = (handles f xs)(v := None)"
  by (auto simp: handles_def fun_eq_iff)

text \<open>The numbers of files and of mappings are apart, since both are closed by the same function.\<close>

definition files_inv :: "(nat \<Rightarrow> MappedFile option) \<Rightarrow> win_os \<Rightarrow> bool" where
  "files_inv xs os \<longleftrightarrow> owners (handles mf_file xs) (open_files os) \<and> owners (handles mf_map xs) (open_maps os) \<and>
     owners (handles mf_data xs) (open_views os) \<and> open_files os \<inter> open_maps os = {} \<and>
     (\<forall>h \<in> open_files os \<union> open_maps os \<union> open_views os. h < next_handle os)"

lemma release_result:
  assumes inv: "files_inv xs os" and x: "xs v = Some x"
  shows "\<exists>os'. release_mapping x os = Some (empty_mapping, os') \<and> files_inv (xs(v := None)) os'"
proof -
  let ?rm = "\<lambda>h S. S - (case h of None \<Rightarrow> {} | Some k \<Rightarrow> {k})"
  let ?os = "os\<lparr>open_files := ?rm (mf_file x) (open_files os), open_maps := ?rm (mf_map x) (open_maps os),
      open_views := ?rm (mf_data x) (open_views os)\<rparr>"
  have h: "handles f xs v = f x" for f using x by (simp add: handles_def)
  have i: "owners (handles mf_file xs) (open_files os)" "owners (handles mf_map xs) (open_maps os)"
    "owners (handles mf_data xs) (open_views os)" "open_files os \<inter> open_maps os = {}"
    "\<forall>h \<in> open_files os \<union> open_maps os \<union> open_views os. h < next_handle os"
    using inv by (simp_all add: files_inv_def)
  have mem: "mf_file x = Some a \<Longrightarrow> a \<in> open_files os" "mf_map x = Some a \<Longrightarrow> a \<in> open_maps os"
    "mf_data x = Some a \<Longrightarrow> a \<in> open_views os" for a
    using owners_mem [OF i(1), of v] owners_mem [OF i(2), of v] owners_mem [OF i(3), of v] by (simp_all add: h)
  have apart: "a \<in> open_maps os \<Longrightarrow> a \<notin> open_files os" for a using i(4) by blast
  have "release_mapping x os = Some (empty_mapping, ?os)"
    using mem apart unfolding release_mapping_def UnmapViewOfFile_def CloseHandle_def
    by (cases "mf_file x"; cases "mf_map x"; cases "mf_data x") simp_all
  moreover have "files_inv (xs(v := None)) ?os"
    unfolding files_inv_def handles_None
    using owners_drop [OF i(1), of v] owners_drop [OF i(2), of v] owners_drop [OF i(3), of v] i(4,5) by (simp add: h) blast
  ultimately show ?thesis by blast
qed

lemma create_result:
  assumes inv: "files_inv xs os" and new: "xs v = None"
  shows "\<exists>x os'. MappedFile_create env os = Some (x, os') \<and> files_inv (xs(v := x)) os'"
proof -
  let ?n = "next_handle os"
  have i: "owners (handles mf_file xs) (open_files os)" "owners (handles mf_map xs) (open_maps os)"
    "owners (handles mf_data xs) (open_views os)" "open_files os \<inter> open_maps os = {}"
    "\<forall>h \<in> open_files os \<union> open_maps os \<union> open_views os. h < ?n"
    using inv by (simp_all add: files_inv_def)
  have fresh: "m \<notin> open_files os" "m \<notin> open_maps os" "m \<notin> open_views os" if "?n \<le> m" for m
    using i(5) that by (auto dest: bspec)
  have none: "handles f xs v = None" for f using new by (simp add: handles_def)
  have closed: "insert ?n S - {?n} = S" if "?n \<notin> S" for S using that by blast
  show ?thesis
  proof (cases "file_opens env \<and> size_known env \<and> contents env \<noteq> [] \<and> mapping_works env \<and> view_works env")
    case True
    let ?x = "\<lparr>mf_file = Some ?n, mf_map = Some (?n + 1), mf_data = Some (?n + 2), mf_size = length (contents env)\<rparr>"
    let ?os = "os\<lparr>open_files := insert ?n (open_files os), open_maps := insert (?n + 1) (open_maps os),
        open_views := insert (?n + 2) (open_views os), next_handle := ?n + 3\<rparr>"
    have "MappedFile_create env os = Some (Some ?x, ?os)" using True by (simp add: MappedFile_create_def Let_def)
    moreover have "files_inv (xs(v \<mapsto> ?x)) ?os"
      unfolding files_inv_def handles_Some
      using owners_new [OF i(1) fresh(1) none] owners_new [OF i(2) fresh(2) none] owners_new [OF i(3) fresh(3) none] i(4,5)
        fresh(1) [of "?n + 1"] fresh(2) [of ?n] by (auto dest: bspec)
    ultimately show ?thesis by blast
  next
    case False
    then have "\<exists>k. MappedFile_create env os = Some (None, os\<lparr>next_handle := ?n + k\<rparr>)"
      using fresh [of ?n] fresh [of "?n + 1"] unfolding MappedFile_create_def Let_def CloseHandle_def
      by (auto simp: closed intro: exI [of _ 0] exI [of _ 1] exI [of _ 2])
    moreover have "files_inv (xs(v := None)) (os\<lparr>next_handle := ?n + k\<rparr>)" for k
      using i(1-4) new trans_less_add1 [OF bspec [OF i(5)]] by (simp add: files_inv_def fun_upd_idem)
    ultimately show ?thesis by blast
  qed
qed

lemma files_inv_move:
  assumes inv: "files_inv xs os" and v: "xs v = None" and w: "xs w = Some y"
  shows "files_inv (xs(v \<mapsto> y, w \<mapsto> empty_mapping)) os"
proof -
  have "handles f (xs(v \<mapsto> y, w \<mapsto> empty_mapping)) = (handles f xs)(v := handles f xs w, w := None)" if "f empty_mapping = None" for f
    unfolding handles_Some that using w by (simp add: handles_def)
  moreover have "handles f xs v = None" for f using v by (simp add: handles_def)
  ultimately show ?thesis using inv owners_move unfolding files_inv_def by (simp add: empty_mapping_def)
qed

lemma file_step_result:
  assumes inv: "files_inv (vars s) (os_state s)"
  shows "\<exists>s'. file_step a s = Some s' \<and> files_inv (vars s') (os_state s')"
proof (cases a)
  case (Create v env)
  show ?thesis
  proof (cases "vars s v")
    case None
    then show ?thesis using create_result [OF inv None, of env] by (auto simp: Create)
  next
    case (Some x)
    then show ?thesis using inv by (simp add: Create)
  qed
next
  case (Move v w)
  show ?thesis
  proof (cases "vars s w = None \<or> vars s v \<noteq> None")
    case True
    then show ?thesis using inv by (auto simp: Move split: option.splits)
  next
    case False
    then obtain y where y: "vars s w = Some y" "vars s v = None" by auto
    then show ?thesis using files_inv_move [OF inv y(2,1)] by (simp add: Move move_construct_def)
  qed
next
  case (Assign v w)
  show ?thesis
  proof (cases "vars s v = None \<or> vars s w = None")
    case True
    then show ?thesis using inv by (auto simp: Assign split: option.splits)
  next
    case False
    then obtain x y where xy: "vars s v = Some x" "vars s w = Some y" by auto
    show ?thesis
    proof (cases "v = w")
      case True
      then have "(vars s)(w \<mapsto> y, v \<mapsto> x) = vars s" using xy by (simp add: fun_upd_idem)
      then show ?thesis using inv xy True by (simp add: Assign move_assign_def)
    next
      case False
      obtain os' where r: "release_mapping x (os_state s) = Some (empty_mapping, os')" "files_inv ((vars s)(v := None)) os'"
        using release_result [OF inv xy(1)] by blast
      have "files_inv ((vars s)(v := None, v \<mapsto> y, w \<mapsto> empty_mapping)) os'"
        by (rule files_inv_move [OF r(2)]) (use xy False in simp_all)
      moreover have "(vars s)(v := None, v \<mapsto> y, w \<mapsto> empty_mapping) = (vars s)(w \<mapsto> empty_mapping, v \<mapsto> y)"
        using False by (simp add: fun_upd_twist)
      ultimately show ?thesis using r(1) xy False by (simp add: Assign move_assign_def)
    qed
  qed
next
  case (Destroy v)
  show ?thesis
  proof (cases "vars s v")
    case (Some x)
    then show ?thesis using release_result [OF inv Some] by (auto simp: Destroy)
  qed (use inv in \<open>simp add: Destroy\<close>)
qed

lemma file_run_result:
  "files_inv (vars s) (os_state s) \<Longrightarrow> \<exists>s'. file_run as s = Some s' \<and> files_inv (vars s') (os_state s')"
proof (induction as arbitrary: s)
  case (Cons a as)
  obtain s' where "file_step a s = Some s'" "files_inv (vars s') (os_state s')" using file_step_result [OF Cons.prems] by blast
  then show ?case using Cons.IH by simp
qed simp

lemma file_start_inv: "files_inv (vars file_start) (os_state file_start)"
  by (auto simp: files_inv_def file_start_def owners_def handles_def ran_def dom_def)

text \<open>The two programs over a mapping: what was open before is open afterwards, nothing else.\<close>

definition os_fresh :: "win_os \<Rightarrow> bool" where
  "os_fresh os \<longleftrightarrow> (\<forall>h \<in> open_files os \<union> open_maps os \<union> open_views os. h < next_handle os)"

lemma mapping_programs:
  assumes f: "os_fresh os" and g: "\<exists>found. grep_buffer (contents env) ''king'' = Some found"
  shows "\<exists>code out k. mapped_main env os = Some (code, out, os\<lparr>next_handle := next_handle os + k\<rparr>) \<and>
    mapped_main_cpp env os = Some (code, out, os\<lparr>next_handle := next_handle os + k\<rparr>)"
proof -
  let ?n = "next_handle os"
  have fresh: "m \<notin> open_files os" "m \<notin> open_maps os" "m \<notin> open_views os" if "?n \<le> m" for m
    using f that unfolding os_fresh_def by (auto dest: bspec)
  have closed: "insert m S - {m} = S" if "m \<notin> S" for m and S :: "nat set" using that by blast
  obtain found where found: "grep_buffer (contents env) ''king'' = Some found" using g by blast
  note defs = grep_copies mapped_main_def mapped_main_cpp_def win32_file_operations_def MappedFile_create_def win32_unmap_close_def
    release_mapping_def CloseHandle_def UnmapViewOfFile_def Let_def
  note free = fresh [of ?n] fresh [of "?n + 1"] fresh [of "?n + 2"]
  consider "\<not> file_opens env" | "file_opens env" "\<not> size_known env \<or> contents env = [] \<or> \<not> mapping_works env"
    | "file_opens env" "size_known env" "contents env \<noteq> []" "mapping_works env" "\<not> view_works env"
    | "file_opens env" "size_known env" "contents env \<noteq> []" "mapping_works env" "view_works env" by blast
  then show ?thesis
  proof cases
    case 1
    then show ?thesis unfolding defs by (intro exI [of _ "-1"] exI [of _ None] exI [of _ 0]) simp
  next
    case 2
    then show ?thesis unfolding defs using free by (intro exI [of _ "-1"] exI [of _ None] exI [of _ 1]) (auto simp: closed)
  next
    case 3
    then show ?thesis unfolding defs using free by (intro exI [of _ "-1"] exI [of _ None] exI [of _ 2]) (simp add: closed)
  next
    case 4
    then show ?thesis unfolding defs using free found by (intro exI [of _ 0] exI [of _ found] exI [of _ 3]) (simp add: closed)
  qed
qed

lemma grep_buffer_result:
  assumes "newline \<notin> set target" "target \<noteq> []" "length target \<le> length buf" "short_lines buf"
  shows "\<exists>ps. leftmost_matches buf target ps \<and> grep_buffer buf target = Some (Some (map (line_around buf) ps, length ps))"
proof -
  have "found_before buf target 0 []" by (simp add: found_before_def)
  then obtain ps where "leftmost_matches buf target ps" "grep_loop buf target 0 0 1 0 [] = Some (map (line_around buf) ps, length ps)"
    using grep_loop_result [OF assms(2,1,4), of 0 0 1 "[]" "[]" 0] by (auto simp: line_begin_def newlines_def)
  then show ?thesis using assms(2,3) by (auto simp: grep_buffer_def)
qed

lemma grep_buffer_total: "newline \<notin> set target \<Longrightarrow> short_lines buf \<Longrightarrow> \<exists>found. grep_buffer buf target = Some found"
  using grep_buffer_result [of target buf] by (cases "target = [] \<or> length buf < length target") (auto simp: grep_buffer_def)

lemma king_total: "short_lines buf \<Longrightarrow> \<exists>found. grep_buffer buf ''king'' = Some found"
  by (rule grep_buffer_total) (simp_all add: newline_def)

subsection \<open>Properties\<close>



text \<open>However objects of the class are created, moved, assigned (to themselves too) and destroyed, and whatever the
  operating system answers, no handle is closed twice; what is open is exactly what the live objects hold, each object its own, so
  nothing is left open when all are destroyed. The programs in C and in C++ leave open what was open before, and print the same.\<close>

theorem mappings_released:
  assumes "os_fresh os" "short_lines (contents env)" "short_lines (bytes_read io)"
  shows "(\<exists>s. file_run as file_start = Some s \<and>
       open_files (os_state s) = ran (handles mf_file (vars s)) \<and> open_maps (os_state s) = ran (handles mf_map (vars s)) \<and>
       open_views (os_state s) = ran (handles mf_data (vars s)) \<and> inj_on (handles mf_file (vars s)) (dom (handles mf_file (vars s))) \<and>
       ((\<forall>v. vars s v = None) \<longrightarrow> open_files (os_state s) = {} \<and> open_maps (os_state s) = {} \<and> open_views (os_state s) = {})) \<and>
     (\<exists>code out k. mapped_main env os = Some (code, out, os\<lparr>next_handle := next_handle os + k\<rparr>) \<and>
       mapped_main_cpp env os = Some (code, out, os\<lparr>next_handle := next_handle os + k\<rparr>)) \<and>
     (\<exists>code out. reading_main io = Some (code, out, \<lparr>fp_open = False, buf_live = False\<rparr>))"
proof -
  obtain s where s: "file_run as file_start = Some s" "files_inv (vars s) (os_state s)"
    using file_run_result [OF file_start_inv] by blast
  have "\<forall>v. vars s v = None \<Longrightarrow> ran (handles f (vars s)) = {}" for f by (simp add: handles_def ran_def)
  then have empty: "(\<forall>v. vars s v = None) \<longrightarrow> ran (handles f (vars s)) = {}" for f by blast
  have "\<exists>s. file_run as file_start = Some s \<and>
       open_files (os_state s) = ran (handles mf_file (vars s)) \<and> open_maps (os_state s) = ran (handles mf_map (vars s)) \<and>
       open_views (os_state s) = ran (handles mf_data (vars s)) \<and> inj_on (handles mf_file (vars s)) (dom (handles mf_file (vars s))) \<and>
       ((\<forall>v. vars s v = None) \<longrightarrow> open_files (os_state s) = {} \<and> open_maps (os_state s) = {} \<and> open_views (os_state s) = {})"
    using s empty unfolding files_inv_def owners_def by (intro exI [of _ s]) simp
  moreover have "\<exists>code out. reading_main io = Some (code, out, \<lparr>fp_open = False, buf_live = False\<rparr>)"
    using king_total [OF assms(3)] by (auto simp: grep_copies reading_main_def fclose_def free_buf_def Let_def)
  ultimately show ?thesis using mapping_programs [OF assms(1) king_total [OF assms(2)]] by blast
qed

theorem mappings_released_witness:
  "\<exists>s. file_run [Create 0 \<lparr>file_opens = True, size_known = True, contents = ''king'', mapping_works = True, view_works = True\<rparr>,
      Move 1 0, Assign 0 1, Destroy 1, Destroy 0] file_start = Some s \<and> open_files (os_state s) \<subseteq> ran (handles mf_file (vars s))"
proof -
  let ?env = "\<lparr>file_opens = True, size_known = True, contents = [], mapping_works = True, view_works = True\<rparr>"
  let ?io = "\<lparr>fopen_works = True, ftell_size = 0, malloc_works = True, bytes_read = []\<rparr>"
  have "os_fresh (os_state file_start)" "short_lines (contents ?env)" "short_lines (bytes_read ?io)"
    by (simp_all add: os_fresh_def file_start_def short_lines_def)
  note r = mappings_released [OF this, THEN conjunct1]
  show ?thesis by (rule exE [OF r]) (rule exI, rule conjI, erule conjunct1, elim conjE, erule equalityD1)
qed

end
