(* ===== verification/Smart_Pointers.thy ===== *)
theory Smart_Pointers
  imports Prelude
begin

text \<open>
  Owning pointers, three times: the counted box of \<^verbatim>\<open>Phase-1/Day12/C/refCountPointer.c\<close>, the class \<^verbatim>\<open>MySharedPtr\<close> of
  \<^verbatim>\<open>C++/share_ptr.cpp\<close> and \<^verbatim>\<open>MyUniquePtr\<close> of \<^verbatim>\<open>C++/uni_ptr.cpp\<close>. The heap has boxes (control blocks) and the objects they own; using
  or freeing what is not there is undefined (\<open>None\<close>), and so is a count beyond the largest \<^verbatim>\<open>int\<close>.

  What a program needs from the counted pointers is the locale \<open>counted_pointer\<close>: making a box, taking a reference, giving one
  back. The theorems about programs are proved there once and hold for the box in C and for the class in C++.
\<close>

subsection \<open>The counted box in C\<close>

record refbox =
  box_data :: ptr
  refcount :: int

record 'd store =
  boxes :: "refbox heap"
  objects :: "'d heap"

definition INT_MAX :: int where "INT_MAX = 2147483647"

text \<open>\<open>m\<close> is the answer of \<^verbatim>\<open>malloc\<close> for the box.\<close>

definition refbox_create :: "ptr \<Rightarrow> (addr \<times> refbox) option \<Rightarrow> 'd store \<Rightarrow> (ptr \<times> 'd store) option" where
  "refbox_create data m s =
     (if data = None then Some (None, s)
      else case m of
        None \<Rightarrow> Some (None, s)
      | Some (a, junk) \<Rightarrow> do {
          h \<leftarrow> store (Some a) (box_data_update (\<lambda>_. data)) ((boxes s)(a \<mapsto> junk));
          h \<leftarrow> store (Some a) (refcount_update (\<lambda>_. 1)) h;
          Some (Some a, s\<lparr>boxes := h\<rparr>) })"

definition increment :: "ptr \<Rightarrow> 'd store \<Rightarrow> 'd store option" where
  "increment p s = do {
     b \<leftarrow> load (boxes s) p;
     if refcount b = INT_MAX then None else do {
     h \<leftarrow> store p (refcount_update (\<lambda>n. n + 1)) (boxes s);
     Some (s\<lparr>boxes := h\<rparr>) } }"

definition decrement :: "ptr \<Rightarrow> 'd store \<Rightarrow> 'd store option" where
  "decrement p s = do {
     h \<leftarrow> store p (refcount_update (\<lambda>n. n - 1)) (boxes s);
     Some (s\<lparr>boxes := h\<rparr>) }"

definition refbox_retain :: "ptr \<Rightarrow> 'd store \<Rightarrow> 'd store option" where
  "refbox_retain p s = (if p = None then Some s else increment p s)"

definition refbox_release :: "ptr \<Rightarrow> 'd store \<Rightarrow> 'd store option" where
  "refbox_release p s =
     (if p = None then Some s else do {
        s \<leftarrow> decrement p s;
        b \<leftarrow> load (boxes s) p;
        if refcount b = 0 then do {
          os \<leftarrow> dealloc (box_data b) (objects s);
          bs \<leftarrow> dealloc p (boxes s);
          Some (s\<lparr>boxes := bs, objects := os\<rparr>) }
        else Some s })"

subsection \<open>The shared pointer in C++\<close>

text \<open>
  The constructor makes a control block at a new address; an object of the class is the address. \<^verbatim>\<open>new\<close> does not return when there
  is no memory. Assignment to itself does nothing.
\<close>

definition MySharedPtr_create :: "ptr \<Rightarrow> addr \<Rightarrow> 'd store \<Rightarrow> ptr \<times> 'd store" where
  "MySharedPtr_create p a s = (Some a, s\<lparr>boxes := (boxes s)(a \<mapsto> \<lparr>box_data = p, refcount = 1\<rparr>)\<rparr>)"

definition MySharedPtr_copy :: "ptr \<Rightarrow> 'd store \<Rightarrow> (ptr \<times> 'd store) option" where
  "MySharedPtr_copy other s = do { s \<leftarrow> increment other s; Some (other, s) }"

definition MySharedPtr_release :: "ptr \<Rightarrow> 'd store \<Rightarrow> 'd store option" where
  "MySharedPtr_release ctrl s =
     (if ctrl = None then Some s else do {
        s \<leftarrow> decrement ctrl s;
        b \<leftarrow> load (boxes s) ctrl;
        if refcount b = 0 then do {
          os \<leftarrow> dealloc (box_data b) (objects s);
          bs \<leftarrow> dealloc ctrl (boxes s);
          Some (s\<lparr>boxes := bs, objects := os\<rparr>) }
        else Some s })"

definition MySharedPtr_assign :: "bool \<Rightarrow> ptr \<Rightarrow> ptr \<Rightarrow> 'd store \<Rightarrow> (ptr \<times> 'd store) option" where
  "MySharedPtr_assign same this other s =
     (if same then Some (this, s)
      else do {
        s \<leftarrow> MySharedPtr_release this s;
        s \<leftarrow> increment other s;
        Some (other, s) })"

text \<open>\<^verbatim>\<open>operator*\<close> and \<^verbatim>\<open>operator->\<close> reach the object.\<close>

definition MySharedPtr_get :: "ptr \<Rightarrow> 'd store \<Rightarrow> 'd option" where
  "MySharedPtr_get ctrl s = do { b \<leftarrow> load (boxes s) ctrl; load (objects s) (box_data b) }"

subsection \<open>Programs that share\<close>

text \<open>
  Variables hold references. \<open>Construct v d o a\<close> makes an object with contents \<open>d\<close> at a new address \<open>o\<close> and its box at a new
  address \<open>a\<close>; \<open>Construct_null v a\<close> makes a box that owns no object, as the constructor does by default. The other statements copy
  a reference into a new variable, assign one, and end the life of a variable. In C the program says so itself
  (\<^verbatim>\<open>refbox_retain\<close> when it copies the pointer, \<^verbatim>\<open>refbox_release\<close> when it is done with one); in C++ the compiler does. A statement
  that does not apply is skipped.
\<close>

datatype 'd share_op = Construct nat 'd addr addr | Construct_null nat addr | Copy nat nat | Assign nat nat | Destroy nat

record 'd share_program =
  refs :: "nat \<Rightarrow> addr option"
  heap_of :: "'d store"

fun share_step :: "(ptr \<Rightarrow> addr \<Rightarrow> 'd store \<Rightarrow> 'd store option) \<Rightarrow> (ptr \<Rightarrow> 'd store \<Rightarrow> 'd store option) \<Rightarrow>
    (ptr \<Rightarrow> 'd store \<Rightarrow> 'd store option) \<Rightarrow> (bool \<Rightarrow> ptr \<Rightarrow> ptr \<Rightarrow> 'd store \<Rightarrow> (ptr \<times> 'd store) option) \<Rightarrow>
    'd share_op \<Rightarrow> 'd share_program \<Rightarrow> 'd share_program option" where
  "share_step create retain release assign (Construct v d ob a) s =
     (if refs s v \<noteq> None \<or> objects (heap_of s) ob \<noteq> None \<or> boxes (heap_of s) a \<noteq> None then Some s
      else map_option (\<lambda>h. s\<lparr>refs := (refs s)(v \<mapsto> a), heap_of := h\<rparr>)
        (create (Some ob) a ((heap_of s)\<lparr>objects := (objects (heap_of s))(ob \<mapsto> d)\<rparr>)))"
| "share_step create retain release assign (Construct_null v a) s =
     (if refs s v \<noteq> None \<or> boxes (heap_of s) a \<noteq> None then Some s
      else map_option (\<lambda>h. s\<lparr>refs := (refs s)(v \<mapsto> a), heap_of := h\<rparr>) (create None a (heap_of s)))"
| "share_step create retain release assign (Copy v w) s =
     (if refs s v \<noteq> None \<or> refs s w = None then Some s
      else map_option (\<lambda>h. s\<lparr>refs := (refs s)(v := refs s w), heap_of := h\<rparr>) (retain (refs s w) (heap_of s)))"
| "share_step create retain release assign (Assign v w) s =
     (if refs s v = None \<or> refs s w = None then Some s
      else map_option (\<lambda>(p, h). s\<lparr>refs := (refs s)(v := p), heap_of := h\<rparr>) (assign (v = w) (refs s v) (refs s w) (heap_of s)))"
| "share_step create retain release assign (Destroy v) s =
     (if refs s v = None then Some s
      else map_option (\<lambda>h. s\<lparr>refs := (refs s)(v := None), heap_of := h\<rparr>) (release (refs s v) (heap_of s)))"

fun share_run :: "(ptr \<Rightarrow> addr \<Rightarrow> 'd store \<Rightarrow> 'd store option) \<Rightarrow> (ptr \<Rightarrow> 'd store \<Rightarrow> 'd store option) \<Rightarrow>
    (ptr \<Rightarrow> 'd store \<Rightarrow> 'd store option) \<Rightarrow> (bool \<Rightarrow> ptr \<Rightarrow> ptr \<Rightarrow> 'd store \<Rightarrow> (ptr \<times> 'd store) option) \<Rightarrow>
    'd share_op list \<Rightarrow> 'd share_program \<Rightarrow> 'd share_program option" where
  "share_run create retain release assign [] s = Some s"
| "share_run create retain release assign (a # as) s =
     share_step create retain release assign a s \<bind> share_run create retain release assign as"

text \<open>A statement over the variables below \<open>n\<close>; \<open>null\<close> says that boxes without an object may be made.\<close>

fun op_ok :: "bool \<Rightarrow> nat \<Rightarrow> 'd share_op \<Rightarrow> bool" where
  "op_ok null n (Construct v d ob a) \<longleftrightarrow> v < n"
| "op_ok null n (Construct_null v a) \<longleftrightarrow> null \<and> v < n"
| "op_ok null n (Copy v w) \<longleftrightarrow> v < n"
| "op_ok null n (Assign v w) \<longleftrightarrow> v < n"
| "op_ok null n (Destroy v) \<longleftrightarrow> v < n"

definition share_start :: "'d share_program" where
  "share_start = \<lparr>refs = (\<lambda>_. None), heap_of = \<lparr>boxes = (\<lambda>_. None), objects = (\<lambda>_. None)\<rparr>\<rparr>"

text \<open>
  The two instances. In C the box comes from \<^verbatim>\<open>malloc\<close>, which succeeds at the address of the statement, and a program that replaces a
  reference releases the old one and retains the new one, unless it is the same variable; without an object \<^verbatim>\<open>refbox_create\<close> makes
  no box. In C++ the operators of the class do all this.
\<close>

definition refbox_new :: "ptr \<Rightarrow> addr \<Rightarrow> 'd store \<Rightarrow> 'd store option" where
  "refbox_new p a s = map_option snd (refbox_create p (Some (a, \<lparr>box_data = None, refcount = 0\<rparr>)) s)"

definition replace_reference :: "bool \<Rightarrow> ptr \<Rightarrow> ptr \<Rightarrow> 'd store \<Rightarrow> (ptr \<times> 'd store) option" where
  "replace_reference same p q s =
     (if same then Some (p, s) else do { s \<leftarrow> refbox_release p s; s \<leftarrow> refbox_retain q s; Some (q, s) })"

definition refbox_program :: "'d share_op list \<Rightarrow> 'd share_program option" where
  "refbox_program as = share_run refbox_new refbox_retain refbox_release replace_reference as share_start"

definition shared_new :: "ptr \<Rightarrow> addr \<Rightarrow> 'd store \<Rightarrow> 'd store option" where
  "shared_new p a s = Some (snd (MySharedPtr_create p a s))"

definition shared_program :: "'d share_op list \<Rightarrow> 'd share_program option" where
  "shared_program as = share_run shared_new (\<lambda>p s. map_option snd (MySharedPtr_copy p s)) MySharedPtr_release MySharedPtr_assign as share_start"

text \<open>The programs \<^verbatim>\<open>main\<close> of both files: \<open>o\<close> numbers the objects, \<open>100 + o\<close> their boxes.\<close>

definition refbox_main :: "string share_op list" where
  "refbox_main = [Construct 1 ''User 1'' 1 101, Copy 2 1, Destroy 1, Destroy 2]"

definition shared_main :: "string share_op list" where
  "shared_main = [Construct 1 ''Foo 20'' 1 101, Copy 2 1, Construct 3 ''Foo 50'' 2 102, Assign 3 2, Destroy 3, Destroy 2, Destroy 1]"

subsection \<open>Counting references\<close>

definition holders :: "(nat \<Rightarrow> addr option) \<Rightarrow> addr \<Rightarrow> nat set" where
  "holders r a = {v. r v = Some a}"

definition share_inv :: "bool \<Rightarrow> nat \<Rightarrow> (nat \<Rightarrow> addr option) \<Rightarrow> 'd store \<Rightarrow> bool" where
  "share_inv null n r s \<longleftrightarrow> dom r \<subseteq> {..<n} \<and>
     (\<forall>a. boxes s a = None \<longleftrightarrow> holders r a = {}) \<and>
     (\<forall>a b. boxes s a = Some b \<longrightarrow> refcount b = int (card (holders r a))) \<and>
     owners (\<lambda>a. boxes s a \<bind> box_data) (dom (objects s)) \<and> (\<forall>a b. boxes s a = Some b \<longrightarrow> null \<or> box_data b \<noteq> None)"

lemma finite_holders: "dom r \<subseteq> {..<n} \<Longrightarrow> finite (holders r a)"
  by (rule finite_subset [of _ "{..<n}"]) (auto simp: holders_def)

lemma holders_upd: "holders (r(v := p)) a = (if p = Some a then insert v (holders r a) else holders r a - {v})"
  by (auto simp: holders_def)

lemma share_invD:
  assumes "share_inv null n r s"
  shows "dom r \<subseteq> {..<n}" "boxes s a = None \<longleftrightarrow> holders r a = {}" "boxes s a = Some b \<Longrightarrow> refcount b = int (card (holders r a))"
    "owners (\<lambda>a. boxes s a \<bind> box_data) (dom (objects s))" "boxes s a = Some b \<Longrightarrow> null \<or> box_data b \<noteq> None"
  using assms by (simp_all add: share_inv_def)

lemma share_inv_count:
  assumes "share_inv null n r s" "r v = Some a"
  obtains b where "boxes s a = Some b" "refcount b = int (card (holders r a))" "0 < card (holders r a)"
    "box_data b = Some ob \<Longrightarrow> objects s ob \<noteq> None"
proof -
  note inv = share_invD [OF assms(1)]
  have h: "holders r a \<noteq> {}" using assms(2) by (auto simp: holders_def)
  then obtain b where b: "boxes s a = Some b" using inv(2) [of a] by auto
  moreover have "0 < card (holders r a)" using h finite_holders [OF inv(1)] by (simp add: card_gt_0_iff)
  moreover have "objects s ob \<noteq> None" if "box_data b = Some ob" for ob
    using owners_mem [OF inv(4), of a ob] b that by (simp add: domIff)
  ultimately show ?thesis using that inv(3) [OF b] by blast
qed

lemma share_inv_box:
  assumes "share_inv False n r s" "r v = Some a"
  obtains b ob where "boxes s a = Some b" "refcount b = int (card (holders r a))" "0 < card (holders r a)" "box_data b = Some ob"
    "objects s ob \<noteq> None"
proof -
  obtain b where b: "boxes s a = Some b" "refcount b = int (card (holders r a))" "0 < card (holders r a)"
    using share_inv_count [OF assms] by blast
  obtain ob where ob: "box_data b = Some ob" using share_invD(5) [OF assms(1) b(1)] by auto
  have "objects s ob \<noteq> None" using share_inv_count [OF assms] ob b(1) by (metis option.inject)
  then show ?thesis using that b ob by blast
qed

lemma share_inv_recount:
  assumes inv: "share_inv null n r s" and b: "boxes s a = Some b" and v: "r v = p" "v < n" and p: "p = None \<or> p = Some a" "q = None \<or> q = Some a"
    and k: "k = int (card (holders (r(v := q)) a))" "holders (r(v := q)) a \<noteq> {}"
  shows "share_inv null n (r(v := q)) (s\<lparr>boxes := (boxes s)(a \<mapsto> b\<lparr>refcount := k\<rparr>)\<rparr>)"
proof -
  note i = share_invD [OF inv]
  have other: "holders (r(v := q)) c = holders r c" if "c \<noteq> a" for c
    using that v p by (auto simp: holders_def)
  have "(\<lambda>c. ((boxes s)(a \<mapsto> b\<lparr>refcount := k\<rparr>)) c \<bind> box_data) = (\<lambda>c. boxes s c \<bind> box_data)"
    using b by (auto simp: fun_eq_iff)
  moreover have "dom (r(v := q)) \<subseteq> {..<n}" using i(1) v(2) by auto
  moreover have "(((boxes s)(a \<mapsto> b\<lparr>refcount := k\<rparr>)) c = None) = (holders (r(v := q)) c = {})" for c
    using i(2) [of c] other [of c] k(2) by auto
  moreover have "((boxes s)(a \<mapsto> b\<lparr>refcount := k\<rparr>)) c = Some b' \<Longrightarrow> refcount b' = int (card (holders (r(v := q)) c))" for c b'
    using i(3) [of c] other [of c] k(1) by (auto split: if_splits)
  moreover have "((boxes s)(a \<mapsto> b\<lparr>refcount := k\<rparr>)) c = Some b' \<Longrightarrow> null \<or> box_data b' \<noteq> None" for c b'
    using i(5) [OF b] i(5) [of c] by (auto split: if_splits)
  ultimately show ?thesis using i(4) unfolding share_inv_def by simp
qed

lemma share_inv_free:
  assumes inv: "share_inv null n r s" and b: "boxes s a = Some b" "dealloc (box_data b) (objects s) = Some os"
    and last: "holders (r(v := None)) a = {}" "r v = Some a"
  shows "share_inv null n (r(v := None)) (s\<lparr>boxes := (boxes s)(a := None), objects := os\<rparr>)"
proof -
  note i = share_invD [OF inv]
  have other: "holders (r(v := None)) c = holders r c" if "c \<noteq> a" for c
    using that last(2) by (auto simp: holders_def)
  have g: "(\<lambda>c. ((boxes s)(a := None)) c \<bind> box_data) = (\<lambda>c. boxes s c \<bind> box_data)(a := None)" by (auto simp: fun_eq_iff)
  have "dom os = dom (objects s) - (case box_data b of None \<Rightarrow> {} | Some ob \<Rightarrow> {ob})"
    using b(2) by (auto simp: dealloc_def split: option.splits if_splits)
  then have "owners (\<lambda>c. ((boxes s)(a := None)) c \<bind> box_data) (dom os)"
    unfolding g using owners_drop [OF i(4), of a] b(1) by simp
  moreover have "dom (r(v := None)) \<subseteq> {..<n}" using i(1) by auto
  moreover have "(((boxes s)(a := None)) c = None) = (holders (r(v := None)) c = {})" for c
    using i(2) [of c] other [of c] last(1) by auto
  moreover have "((boxes s)(a := None)) c = Some b' \<Longrightarrow> refcount b' = int (card (holders (r(v := None)) c))" for c b'
    using i(3) [of c] other [of c] by (auto split: if_splits)
  moreover have "((boxes s)(a := None)) c = Some b' \<Longrightarrow> null \<or> box_data b' \<noteq> None" for c b'
    using i(5) [of c] by (auto split: if_splits)
  ultimately show ?thesis unfolding share_inv_def by simp
qed

lemma share_inv_new:
  assumes inv: "share_inv null n r s" and v: "r v = None" "v < n" and new: "objects s ob = None" "boxes s a = None"
  shows "share_inv null n (r(v \<mapsto> a)) (s\<lparr>objects := (objects s)(ob \<mapsto> d), boxes := (boxes s)(a \<mapsto> \<lparr>box_data = Some ob, refcount = 1\<rparr>)\<rparr>)"
    (is "share_inv null n _ (s\<lparr>objects := _, boxes := ?bs\<rparr>)")
proof -
  note i = share_invD [OF inv]
  have none: "holders r a = {}" using i(2) [of a] new(2) by simp
  have g: "(\<lambda>c. ?bs c \<bind> box_data) = (\<lambda>c. boxes s c \<bind> box_data)(a \<mapsto> ob)" by (auto simp: fun_eq_iff)
  have "owners (\<lambda>c. ?bs c \<bind> box_data) (dom ((objects s)(ob \<mapsto> d)))"
    unfolding g using owners_new [OF i(4), of ob a] new by (simp add: domIff)
  moreover have "dom (r(v \<mapsto> a)) \<subseteq> {..<n}" using i(1) v(2) by auto
  moreover have "(?bs c = None) = (holders (r(v \<mapsto> a)) c = {})" for c
    using i(2) [of c] v(1) by (cases "c = a") (auto simp: holders_upd, auto simp: holders_def)
  moreover have "?bs c = Some b' \<Longrightarrow> refcount b' = int (card (holders (r(v \<mapsto> a)) c))" for c b'
    using i(3) [of c] none v(1) unfolding holders_upd by (auto simp: holders_def split: if_splits)
  moreover have "?bs c = Some b' \<Longrightarrow> null \<or> box_data b' \<noteq> None" for c b'
    using i(5) [of c] by (auto split: if_splits)
  ultimately show ?thesis unfolding share_inv_def by simp
qed

lemma share_inv_null:
  assumes inv: "share_inv True n r s" and v: "r v = None" "v < n" and new: "boxes s a = None"
  shows "share_inv True n (r(v \<mapsto> a)) (s\<lparr>boxes := (boxes s)(a \<mapsto> \<lparr>box_data = None, refcount = 1\<rparr>)\<rparr>)"
    (is "share_inv True n _ (s\<lparr>boxes := ?bs\<rparr>)")
proof -
  note i = share_invD [OF inv]
  have none: "holders r a = {}" using i(2) [of a] new by simp
  have g: "(\<lambda>c. ?bs c \<bind> box_data) = (\<lambda>c. boxes s c \<bind> box_data)" using new by (auto simp: fun_eq_iff)
  have "owners (\<lambda>c. ?bs c \<bind> box_data) (dom (objects s))" unfolding g by (rule i(4))
  moreover have "dom (r(v \<mapsto> a)) \<subseteq> {..<n}" using i(1) v(2) by auto
  moreover have "(?bs c = None) = (holders (r(v \<mapsto> a)) c = {})" for c
    using i(2) [of c] v(1) by (cases "c = a") (auto simp: holders_upd, auto simp: holders_def)
  moreover have "?bs c = Some b' \<Longrightarrow> refcount b' = int (card (holders (r(v \<mapsto> a)) c))" for c b'
    using i(3) [of c] none v(1) unfolding holders_upd by (auto simp: holders_def split: if_splits)
  ultimately show ?thesis unfolding share_inv_def by simp
qed

locale counted_pointer =
  fixes null :: bool
    and create :: "ptr \<Rightarrow> addr \<Rightarrow> 'd store \<Rightarrow> 'd store option"
    and retain release :: "ptr \<Rightarrow> 'd store \<Rightarrow> 'd store option"
    and assign :: "bool \<Rightarrow> ptr \<Rightarrow> ptr \<Rightarrow> 'd store \<Rightarrow> (ptr \<times> 'd store) option"
  assumes create: "boxes s a = None \<Longrightarrow> null \<or> p \<noteq> None \<Longrightarrow>
      create p a s = Some (s\<lparr>boxes := (boxes s)(a \<mapsto> \<lparr>box_data = p, refcount = 1\<rparr>)\<rparr>)"
    and retain: "boxes s a = Some b \<Longrightarrow> refcount b \<noteq> INT_MAX \<Longrightarrow>
      retain (Some a) s = Some (s\<lparr>boxes := (boxes s)(a \<mapsto> b\<lparr>refcount := refcount b + 1\<rparr>)\<rparr>)"
    and release_more: "boxes s a = Some b \<Longrightarrow> refcount b \<noteq> 1 \<Longrightarrow>
      release (Some a) s = Some (s\<lparr>boxes := (boxes s)(a \<mapsto> b\<lparr>refcount := refcount b - 1\<rparr>)\<rparr>)"
    and release_last: "boxes s a = Some b \<Longrightarrow> refcount b = 1 \<Longrightarrow> dealloc (box_data b) (objects s) = Some os \<Longrightarrow>
      release (Some a) s = Some (s\<lparr>boxes := (boxes s)(a := None), objects := os\<rparr>)"
    and assign_self: "assign True p q s = Some (p, s)"
    and assign_other: "assign False p q s = do { s \<leftarrow> release p s; s \<leftarrow> retain q s; Some (q, s) }"
begin

lemma release_keeps:
  assumes inv: "share_inv null n r s" and v: "r v = Some a"
  shows "\<exists>s'. release (Some a) s = Some s' \<and> share_inv null n (r(v := None)) s'"
proof -
  obtain b where b: "boxes s a = Some b" "refcount b = int (card (holders r a))" "0 < card (holders r a)"
    using share_inv_count [OF inv v] by blast
  have "box_data b = Some ob \<Longrightarrow> objects s ob \<noteq> None" for ob using share_inv_count [OF inv v] b(1) by (metis option.inject)
  then obtain os where os: "dealloc (box_data b) (objects s) = Some os" unfolding dealloc_def by (cases "box_data b") auto
  have fin: "finite (holders r a)" by (rule finite_holders [OF share_invD(1) [OF inv]])
  have "v < n" using share_invD(1) [OF inv] v by auto
  have v_in: "v \<in> holders r a" using v by (simp add: holders_def)
  have less: "holders (r(v := None)) a = holders r a - {v}" by (simp add: holders_upd)
  then have card: "card (holders (r(v := None)) a) = card (holders r a) - 1" using v_in fin by simp
  show ?thesis
  proof (cases "refcount b = 1")
    case True
    then have "card (holders (r(v := None)) a) = 0" using card b(2) by simp
    then have "holders (r(v := None)) a = {}" using less fin by simp
    then show ?thesis using release_last [OF b(1) True os] share_inv_free [OF inv b(1) os _ v] by blast
  next
    case False
    then have "card (holders (r(v := None)) a) \<noteq> 0" "refcount b - 1 = int (card (holders (r(v := None)) a))"
      using card b(2,3) by linarith+
    then have "share_inv null n (r(v := None)) (s\<lparr>boxes := (boxes s)(a \<mapsto> b\<lparr>refcount := refcount b - 1\<rparr>)\<rparr>)"
      using \<open>v < n\<close> by (intro share_inv_recount [OF inv b(1) v]) auto
    then show ?thesis using release_more [OF b(1) False] by blast
  qed
qed

lemma retain_keeps:
  assumes inv: "share_inv null n r s" and w: "r w = Some a" and v: "r v = None" "v < n" and n: "int n \<le> INT_MAX"
  shows "\<exists>s'. retain (Some a) s = Some s' \<and> share_inv null n (r(v \<mapsto> a)) s'"
proof -
  obtain b where b: "boxes s a = Some b" "refcount b = int (card (holders r a))" using share_inv_count [OF inv w] by blast
  have fin: "finite (holders r a)" by (rule finite_holders [OF share_invD(1) [OF inv]])
  have v_out: "v \<notin> holders r a" using v by (simp add: holders_def)
  then have card: "card (holders (r(v \<mapsto> a)) a) = card (holders r a) + 1" using fin by (simp add: holders_upd)
  have "insert v (holders r a) \<subseteq> {..<n}" using share_invD(1) [OF inv] v(2) by (auto simp: holders_def)
  then have "card (insert v (holders r a)) \<le> n" using card_mono [of "{..<n}"] by fastforce
  then have "refcount b \<noteq> INT_MAX" using b(2) n v_out fin by simp
  moreover have "share_inv null n (r(v \<mapsto> a)) (s\<lparr>boxes := (boxes s)(a \<mapsto> b\<lparr>refcount := refcount b + 1\<rparr>)\<rparr>)"
    using card b(2) v(2) by (intro share_inv_recount [OF inv b(1) v(1)]) (auto simp: holders_def)
  ultimately show ?thesis using retain [OF b(1)] by blast
qed

lemma step_keeps:
  assumes inv: "share_inv null n (refs s) (heap_of s)" and n: "int n \<le> INT_MAX" and v: "op_ok null n a"
  shows "\<exists>s'. share_step create retain release assign a s = Some s' \<and> share_inv null n (refs s') (heap_of s')"
proof (cases a)
  case (Construct v d ob b)
  show ?thesis
  proof (cases "refs s v \<noteq> None \<or> objects (heap_of s) ob \<noteq> None \<or> boxes (heap_of s) b \<noteq> None")
    case True
    then show ?thesis using inv by (auto simp: Construct)
  next
    case False
    then show ?thesis using share_inv_new [OF inv, of v ob b d] v
      create [of "(heap_of s)\<lparr>objects := (objects (heap_of s))(ob \<mapsto> d)\<rparr>" b "Some ob"] by (simp add: Construct)
  qed
next
  case (Construct_null v b)
  show ?thesis
  proof (cases "refs s v \<noteq> None \<or> boxes (heap_of s) b \<noteq> None")
    case True
    then show ?thesis using inv by (auto simp: Construct_null)
  next
    case False
    moreover have null: "null" "v < n" using v by (simp_all add: Construct_null)
    ultimately have "share_inv null n ((refs s)(v \<mapsto> b)) ((heap_of s)\<lparr>boxes := (boxes (heap_of s))(b \<mapsto> \<lparr>box_data = None, refcount = 1\<rparr>)\<rparr>)"
      using share_inv_null [of n "refs s" "heap_of s" v b] inv by simp
    then show ?thesis using False null create [of "heap_of s" b None] by (simp add: Construct_null)
  qed
next
  case (Copy v w)
  show ?thesis
  proof (cases "refs s v \<noteq> None \<or> refs s w = None")
    case True
    then show ?thesis using inv by (auto simp: Copy)
  next
    case False
    then obtain b where "refs s w = Some b" "refs s v = None" by auto
    then show ?thesis using retain_keeps [OF inv, of w b v] n v by (auto simp: Copy)
  qed
next
  case (Assign v w)
  show ?thesis
  proof (cases "refs s v = None \<or> refs s w = None")
    case True
    then show ?thesis using inv by (auto simp: Assign)
  next
    case False
    then obtain b c where bc: "refs s v = Some b" "refs s w = Some c" by auto
    show ?thesis
    proof (cases "v = w")
      case True
      then have "(refs s)(v := refs s v) = refs s" "assign True (refs s w) (refs s w) (heap_of s) = Some (refs s w, heap_of s)"
        using assign_self by simp_all
      then show ?thesis using True bc inv by (simp add: Assign fun_upd_idem)
    next
      case False
      obtain h where h: "release (Some b) (heap_of s) = Some h" "share_inv null n ((refs s)(v := None)) h"
        using release_keeps [OF inv bc(1)] by blast
      obtain h' where "retain (Some c) h = Some h'" "share_inv null n ((refs s)(v := None, v \<mapsto> c)) h'"
        using retain_keeps [OF h(2), of w c v] bc False v n by (auto simp: Assign)
      then show ?thesis using False bc h(1) by (simp add: Assign assign_other)
    qed
  qed
next
  case (Destroy v)
  show ?thesis
  proof (cases "refs s v")
    case (Some b)
    then show ?thesis using release_keeps [OF inv Some] by (auto simp: Destroy)
  qed (use inv in \<open>simp add: Destroy\<close>)
qed

lemma run_keeps:
  assumes "int n \<le> INT_MAX" "\<forall>a\<in>set as. op_ok null n a" "share_inv null n (refs s) (heap_of s)"
  shows "\<exists>s'. share_run create retain release assign as s = Some s' \<and> share_inv null n (refs s') (heap_of s')"
  using assms(2,3)
proof (induction as arbitrary: s)
  case (Cons a as)
  obtain s' where "share_step create retain release assign a s = Some s'" "share_inv null n (refs s') (heap_of s')"
    using step_keeps [OF Cons.prems(2) assms(1), of a] Cons.prems(1) by auto
  then show ?case using Cons.IH [of s'] Cons.prems(1) by simp
qed simp

end

lemma refcount_steps:
  "refcount_update (\<lambda>n. n + 1) b = b\<lparr>refcount := refcount b + 1\<rparr>"
  "refcount_update (\<lambda>n. n - 1) b = b\<lparr>refcount := refcount b - 1\<rparr>"
  by (cases b; simp)+

interpretation refbox: counted_pointer False refbox_new refbox_retain refbox_release replace_reference
  by unfold_locales
    (auto simp: refcount_steps replace_reference_def refbox_new_def refbox_create_def refbox_retain_def refbox_release_def increment_def decrement_def store_def load_def
      dealloc_def split: option.splits)

lemma copy_increment: "map_option snd (MySharedPtr_copy p s) = increment p s"
  by (cases "increment p s") (simp_all add: MySharedPtr_copy_def)

interpretation shared: counted_pointer True shared_new "\<lambda>p s. map_option snd (MySharedPtr_copy p s)" MySharedPtr_release MySharedPtr_assign
  by unfold_locales
    (auto simp: refcount_steps MySharedPtr_assign_def shared_new_def MySharedPtr_create_def copy_increment MySharedPtr_release_def increment_def decrement_def store_def
      load_def dealloc_def split: option.splits)

lemma share_start_inv: "share_inv null n (refs share_start) (heap_of share_start)"
  by (auto simp: share_inv_def share_start_def holders_def owners_def dom_def ran_def)

subsection \<open>The unique pointer in C++\<close>

text \<open>An object of the class holds a pointer; the operations return what the two objects hold afterwards.\<close>

definition MyUniquePtr_create :: "ptr \<Rightarrow> ptr" where
  "MyUniquePtr_create p = p"

definition MyUniquePtr_destroy :: "ptr \<Rightarrow> 'd heap \<Rightarrow> 'd heap option" where
  "MyUniquePtr_destroy p h = dealloc p h"

definition MyUniquePtr_move :: "ptr \<Rightarrow> ptr \<times> ptr" where
  "MyUniquePtr_move other = (other, None)"

definition MyUniquePtr_assign :: "bool \<Rightarrow> ptr \<Rightarrow> ptr \<Rightarrow> 'd heap \<Rightarrow> (ptr \<times> ptr \<times> 'd heap) option" where
  "MyUniquePtr_assign same this other h =
     (if same then Some (this, other, h)
      else do { h \<leftarrow> dealloc this h; Some (other, None, h) })"

definition MyUniquePtr_get :: "ptr \<Rightarrow> ptr" where
  "MyUniquePtr_get p = p"

datatype 'd unique_op = Make nat 'd addr | Move nat nat | Move_assign nat nat | Delete nat

record 'd unique_program =
  owner :: "nat \<Rightarrow> ptr option"
  things :: "'d heap"

fun unique_step :: "'d unique_op \<Rightarrow> 'd unique_program \<Rightarrow> 'd unique_program option" where
  "unique_step (Make v d ob) s =
     (if owner s v \<noteq> None \<or> things s ob \<noteq> None then Some s
      else Some (s\<lparr>owner := (owner s)(v \<mapsto> MyUniquePtr_create (Some ob)), things := (things s)(ob \<mapsto> d)\<rparr>))"
| "unique_step (Move v w) s =
     (case owner s w of
        None \<Rightarrow> Some s
      | Some q \<Rightarrow> if owner s v \<noteq> None then Some s
          else (let (p, q') = MyUniquePtr_move q in Some (s\<lparr>owner := (owner s)(v \<mapsto> p, w \<mapsto> q')\<rparr>)))"
| "unique_step (Move_assign v w) s =
     (case (owner s v, owner s w) of
        (Some p, Some q) \<Rightarrow> map_option (\<lambda>(p', q', h). s\<lparr>owner := (owner s)(w \<mapsto> q', v \<mapsto> p'), things := h\<rparr>)
          (MyUniquePtr_assign (v = w) p q (things s))
      | _ \<Rightarrow> Some s)"
| "unique_step (Delete v) s =
     (case owner s v of
        None \<Rightarrow> Some s
      | Some p \<Rightarrow> map_option (\<lambda>h. s\<lparr>owner := (owner s)(v := None), things := h\<rparr>) (MyUniquePtr_destroy p (things s)))"

fun unique_run :: "'d unique_op list \<Rightarrow> 'd unique_program \<Rightarrow> 'd unique_program option" where
  "unique_run [] s = Some s"
| "unique_run (a # as) s = unique_step a s \<bind> unique_run as"

definition unique_main :: "string unique_op list" where
  "unique_main = [Make 1 ''Foo 10'' 1, Move 2 1, Make 3 ''Foo 20'' 2, Move_assign 3 2, Delete 3, Delete 2, Delete 1]"

definition owned :: "(nat \<Rightarrow> ptr option) \<Rightarrow> nat \<Rightarrow> addr option" where
  "owned r v = (case r v of None \<Rightarrow> None | Some p \<Rightarrow> p)"

lemma owned_upd: "owned (r(v := p)) = (owned r)(v := (case p of None \<Rightarrow> None | Some q \<Rightarrow> q))"
  by (auto simp: owned_def fun_eq_iff)

lemma unique_delete:
  assumes o: "owners (owned r) (dom h)" and v: "r v = Some p"
  shows "\<exists>h'. dealloc p h = Some h' \<and> owners ((owned r)(v := None)) (dom h')"
proof (cases p)
  case None
  have "owned r v = None" using v None by (simp add: owned_def)
  then have "(owned r)(v := None) = owned r" by (simp add: fun_upd_idem)
  then show ?thesis using o by (simp add: None dealloc_def)
next
  case (Some a)
  then have v': "owned r v = Some a" using v by (simp add: owned_def)
  then have "a \<in> dom h" using owners_mem [OF o] by blast
  then have "dealloc p h = Some (h(a := None))" by (auto simp: dealloc_def Some)
  then show ?thesis using owners_drop [OF o, of v] v' by simp
qed

lemma unique_step_keeps:
  assumes o: "owners (owned (owner s)) (dom (things s))"
  shows "\<exists>s'. unique_step a s = Some s' \<and> owners (owned (owner s')) (dom (things s'))"
proof (cases a)
  case (Make v d ob)
  show ?thesis
  proof (cases "owner s v \<noteq> None \<or> things s ob \<noteq> None")
    case True
    then show ?thesis using o by (auto simp: Make)
  next
    case False
    then have "owned (owner s) v = None" "ob \<notin> dom (things s)" by (auto simp: owned_def)
    then show ?thesis using False owners_new [OF o] by (simp add: Make owned_upd MyUniquePtr_create_def)
  qed
next
  case (Move v w)
  show ?thesis
  proof (cases "owner s w = None \<or> owner s v \<noteq> None")
    case True
    then show ?thesis using o by (auto simp: Move split: option.splits)
  next
    case False
    then obtain q where q: "owner s w = Some q" "owner s v = None" by auto
    then have "owned (owner s) v = None" "q = owned (owner s) w" by (simp_all add: owned_def)
    then show ?thesis using q owners_move [OF o, of v w] by (simp add: Move MyUniquePtr_move_def owned_upd)
  qed
next
  case (Move_assign v w)
  show ?thesis
  proof (cases "owner s v = None \<or> owner s w = None")
    case True
    then show ?thesis using o by (auto simp: Move_assign split: option.splits)
  next
    case False
    then obtain p q where pq: "owner s v = Some p" "owner s w = Some q" by auto
    show ?thesis
    proof (cases "v = w")
      case True
      then have "(owner s)(w \<mapsto> q, v \<mapsto> p) = owner s" using pq by (simp add: fun_upd_idem)
      then show ?thesis using o pq True by (simp add: Move_assign MyUniquePtr_assign_def)
    next
      case False
      obtain h where h: "dealloc p (things s) = Some h" "owners ((owned (owner s))(v := None)) (dom h)"
        using unique_delete [OF o pq(1)] by blast
      have q: "q = ((owned (owner s))(v := None)) w" using pq(2) False by (simp add: owned_def)
      have "owned ((owner s)(w \<mapsto> None, v \<mapsto> q)) = ((owned (owner s))(v := None))(v := q, w := None)"
        using False by (auto simp: owned_upd fun_eq_iff)
      then have "owners (owned ((owner s)(w \<mapsto> None, v \<mapsto> q))) (dom h)"
        using owners_move [OF h(2), of v w] q by simp
      then show ?thesis using h(1) pq False by (simp add: Move_assign MyUniquePtr_assign_def)
    qed
  qed
next
  case (Delete v)
  show ?thesis
  proof (cases "owner s v")
    case (Some p)
    then show ?thesis using unique_delete [OF o Some] by (auto simp: Delete MyUniquePtr_destroy_def owned_upd)
  qed (use o in \<open>simp add: Delete\<close>)
qed

lemma unique_run_keeps:
  "owners (owned (owner s)) (dom (things s)) \<Longrightarrow> \<exists>s'. unique_run as s = Some s' \<and> owners (owned (owner s')) (dom (things s'))"
proof (induction as arbitrary: s)
  case (Cons a as)
  then show ?case using unique_step_keeps [OF Cons.prems, of a] by fastforce
qed simp

text \<open>What a program that shares promises.\<close>

definition shares_exactly :: "'d share_program \<Rightarrow> bool" where
  "shares_exactly s \<longleftrightarrow>
     (\<forall>a. boxes (heap_of s) a = None \<longleftrightarrow> holders (refs s) a = {}) \<and>
     (\<forall>a b. boxes (heap_of s) a = Some b \<longrightarrow> refcount b = int (card (holders (refs s) a))) \<and>
     dom (objects (heap_of s)) = {ob. \<exists>a b. boxes (heap_of s) a = Some b \<and> box_data b = Some ob} \<and>
     (dom (refs s) = {} \<longrightarrow> dom (boxes (heap_of s)) = {} \<and> dom (objects (heap_of s)) = {})"

lemma share_inv_exact:
  assumes inv: "share_inv null n (refs s) (heap_of s)"
  shows "shares_exactly s"
proof -
  note i = share_invD [OF inv]
  have live: "dom (objects (heap_of s)) = {ob. \<exists>a b. boxes (heap_of s) a = Some b \<and> box_data b = Some ob}"
    using i(4) by (auto simp: owners_def ran_def bind_eq_Some_conv)
  have "boxes (heap_of s) a = None" if "dom (refs s) = {}" for a
    using i(2) [of a] that by (auto simp: holders_def)
  then have "dom (refs s) = {} \<Longrightarrow> dom (boxes (heap_of s)) = {}" by auto
  moreover from this have "dom (refs s) = {} \<Longrightarrow> dom (objects (heap_of s)) = {}" unfolding live by auto
  ultimately show ?thesis using i(2,3) live by (simp add: shares_exactly_def)
qed

subsection \<open>Properties\<close>

text \<open>C31: In every program over at most \<open>2 ^ 31 - 1\<close> variables that shares references with the counted box of C (each with an
  object) or with the class of C++ (with an object or without), makes, copies, assigns (also to themselves) and destroys them, no
  box or object is used after it was freed or freed twice: each count is the number of references, a box exists exactly as long as
  there is one, the objects that exist are those in boxes, and when the last variable is gone nothing is left. For the
  unique pointer, moved and assigned in any way, the objects that exist are those held, each by one variable.\<close>

theorem pointers_own_objects:
  assumes "\<forall>a\<in>set as. op_ok False n a" "\<forall>a\<in>set bs. op_ok True n a" "int n \<le> INT_MAX"
  shows "(\<exists>s. refbox_program as = Some s \<and> shares_exactly s) \<and> (\<exists>s. shared_program bs = Some s \<and> shares_exactly s) \<and>
     (\<exists>s. unique_run us \<lparr>owner = Map.empty, things = Map.empty\<rparr> = Some s \<and> owners (owned (owner s)) (dom (things s)))"
proof -
  have "\<exists>s. refbox_program as = Some s \<and> shares_exactly s"
    using refbox.run_keeps [OF assms(3,1) share_start_inv] share_inv_exact unfolding refbox_program_def by metis
  moreover have "\<exists>s. shared_program bs = Some s \<and> shares_exactly s"
    using shared.run_keeps [OF assms(3,2) share_start_inv] share_inv_exact unfolding shared_program_def by metis
  moreover have "owners (owned Map.empty) (dom Map.empty)" by (simp add: owners_def owned_def ran_def dom_def)
  ultimately show ?thesis using unique_run_keeps [of "\<lparr>owner = Map.empty, things = Map.empty\<rparr>" us] by simp
qed

theorem pointers_own_objects_witness:
  "(\<exists>s. refbox_program refbox_main = Some s \<and> shares_exactly s) \<and>
   (\<exists>s. shared_program ([Construct_null 0 100, Assign 0 0] @ shared_main) = Some s \<and> shares_exactly s)"
proof -
  have "\<forall>a\<in>set refbox_main. op_ok False 4 a" "\<forall>a\<in>set ([Construct_null 0 100, Assign 0 0] @ shared_main). op_ok True 4 a"
    by (simp_all add: refbox_main_def shared_main_def)
  moreover have "int 4 \<le> INT_MAX" by (simp add: INT_MAX_def)
  ultimately show ?thesis using pointers_own_objects [of refbox_main 4 "[Construct_null 0 100, Assign 0 0] @ shared_main"] by blast
qed

text \<open>The three programs end with an empty heap.\<close>

lemma pointer_mains_clean:
  "map_option (\<lambda>s. (boxes (heap_of s) 101, objects (heap_of s) 1)) (refbox_program refbox_main) = Some (None, None)"
  "map_option (\<lambda>s. (boxes (heap_of s) 101, boxes (heap_of s) 102, objects (heap_of s) 1, objects (heap_of s) 2)) (shared_program shared_main) =
     Some (None, None, None, None)"
  "map_option (\<lambda>s. (things s 1, things s 2)) (unique_run unique_main \<lparr>owner = (\<lambda>_. None), things = (\<lambda>_. None)\<rparr>) = Some (None, None)"
  by code_simp+

end
