(* ===== verification/Alloc_Tracker.thy ===== *)
theory Alloc_Tracker
  imports Prelude "HOL-Library.Multiset"
begin

text \<open>
  The allocation trackers of Day 17: \<^verbatim>\<open>Phase-1/Day17/C/Tracker.c\<close>, which replaces \<^verbatim>\<open>malloc\<close> and \<^verbatim>\<open>free\<close> by macros, and
  \<^verbatim>\<open>C++/Tracker.cpp\<close>, which replaces the global operators. Both keep a table of at most 1024 blocks, remove by moving the last
  entry into the gap, and report what is left at exit. The real heap maps the address of each live block to its size;
  the address the real allocator returns is an argument, and freeing what is not live is undefined (\<open>None\<close>).
\<close>

subsection \<open>The table\<close>

definition MAX_ALLOCS :: nat where "MAX_ALLOCS = 1024"

text \<open>The loop that looks for the first entry and fills its place with the last one.\<close>

fun find_index_from :: "('e \<Rightarrow> bool) \<Rightarrow> nat \<Rightarrow> 'e list \<Rightarrow> nat option" where
  "find_index_from P i [] = None"
| "find_index_from P i (x # xs) = (if P x then Some i else find_index_from P (i + 1) xs)"

definition swap_back :: "nat \<Rightarrow> 'e list \<Rightarrow> 'e list" where
  "swap_back i xs = butlast (xs[i := last xs])"

subsection \<open>The tracker in C\<close>

record alloc_info =
  ai_ptr :: addr
  ai_size :: nat
  ai_file :: string
  ai_line :: nat

datatype report = Bad_free addr string nat | No_leaks | Leaks_detected | Leak nat addr string nat

record tracker =
  alloc_table :: "alloc_info list"
  inside_tracker :: bool
  real_heap :: "nat heap"
  out :: "report list"

definition real_malloc :: "addr option \<Rightarrow> nat \<Rightarrow> tracker \<Rightarrow> tracker" where
  "real_malloc m sz s = (case m of None \<Rightarrow> s | Some a \<Rightarrow> s\<lparr>real_heap := (real_heap s)(a \<mapsto> sz)\<rparr>)"

definition real_free :: "addr \<Rightarrow> tracker \<Rightarrow> tracker option" where
  "real_free a s = map_option (\<lambda>h. s\<lparr>real_heap := h\<rparr>) (dealloc (Some a) (real_heap s))"

definition tracked_malloc :: "addr option \<Rightarrow> nat \<Rightarrow> string \<Rightarrow> nat \<Rightarrow> tracker \<Rightarrow> addr option \<times> tracker" where
  "tracked_malloc m sz src line s =
     (if inside_tracker s then (m, real_malloc m sz s)
      else (let s = s\<lparr>inside_tracker := True\<rparr>;
                s = real_malloc m sz s;
                s = (case m of None \<Rightarrow> s
                     | Some a \<Rightarrow> if length (alloc_table s) < MAX_ALLOCS
                         then s\<lparr>alloc_table := alloc_table s @ [\<lparr>ai_ptr = a, ai_size = sz, ai_file = src, ai_line = line\<rparr>]\<rparr> else s) in
            (m, s\<lparr>inside_tracker := False\<rparr>)))"

definition tracked_free :: "ptr \<Rightarrow> string \<Rightarrow> nat \<Rightarrow> tracker \<Rightarrow> tracker option" where
  "tracked_free p src line s =
     (case p of
        None \<Rightarrow> Some s
      | Some a \<Rightarrow>
          if inside_tracker s then real_free a s
          else (let s = s\<lparr>inside_tracker := True\<rparr>;
                    s = (case find_index_from (\<lambda>e. ai_ptr e = a) 0 (alloc_table s) of
                           Some i \<Rightarrow> s\<lparr>alloc_table := swap_back i (alloc_table s)\<rparr>
                         | None \<Rightarrow> s\<lparr>out := out s @ [Bad_free a src line]\<rparr>) in do {
            s \<leftarrow> real_free a s;
            Some (s\<lparr>inside_tracker := False\<rparr>) }))"

definition dump_leaks :: "tracker \<Rightarrow> tracker" where
  "dump_leaks s =
     (if alloc_table s = [] then s\<lparr>out := out s @ [No_leaks]\<rparr>
      else s\<lparr>out := out s @ Leaks_detected # map (\<lambda>e. Leak (ai_size e) (ai_ptr e) (ai_file e) (ai_line e)) (alloc_table s)\<rparr>)"

definition tracker_start :: tracker where
  "tracker_start = \<lparr>alloc_table = [], inside_tracker = False, real_heap = (\<lambda>_. None), out = []\<rparr>"

definition tracker_main :: "addr \<Rightarrow> addr \<Rightarrow> tracker option" where
  "tracker_main a b = (let
      (p1, s) = tracked_malloc (Some a) (4 * 10) ''Tracker.c'' 100 tracker_start;
      (p2, s) = tracked_malloc (Some b) (4 * 20) ''Tracker.c'' 101 s in do {
      s \<leftarrow> tracked_free p1 ''Tracker.c'' 104 s;
      Some (dump_leaks s) })"

subsection \<open>The tracker in C++\<close>

record AllocEntry =
  ae_ptr :: addr
  ae_size :: nat
  is_array :: bool

datatype cpp_report = Mismatched addr | Invalid_delete addr | No_cpp_leaks | Cpp_leaks | Cpp_leak nat addr bool

record cpp_tracker =
  g_alloc_map :: "AllocEntry list"
  g_inside_tracker :: bool
  cpp_heap :: "nat heap"
  cpp_out :: "cpp_report list"

definition add_record :: "addr \<Rightarrow> nat \<Rightarrow> bool \<Rightarrow> cpp_tracker \<Rightarrow> cpp_tracker" where
  "add_record a sz arr s =
     (if g_inside_tracker s then s
      else if length (g_alloc_map s) < MAX_ALLOCS
      then s\<lparr>g_alloc_map := g_alloc_map s @ [\<lparr>ae_ptr = a, ae_size = sz, is_array = arr\<rparr>], g_inside_tracker := False\<rparr>
      else s\<lparr>g_inside_tracker := False\<rparr>)"

definition remove_record :: "ptr \<Rightarrow> bool \<Rightarrow> cpp_tracker \<Rightarrow> cpp_tracker" where
  "remove_record p arr s =
     (case p of
        None \<Rightarrow> s
      | Some a \<Rightarrow>
          if g_inside_tracker s then s
          else (case find_index_from (\<lambda>e. ae_ptr e = a) 0 (g_alloc_map s) of
                  Some i \<Rightarrow> s\<lparr>cpp_out := cpp_out s @ (if is_array (g_alloc_map s ! i) \<noteq> arr then [Mismatched a] else []),
                               g_alloc_map := swap_back i (g_alloc_map s), g_inside_tracker := False\<rparr>
                | None \<Rightarrow> s\<lparr>cpp_out := cpp_out s @ [Invalid_delete a], g_inside_tracker := False\<rparr>))"

text \<open>\<open>operator new\<close> throws when \<^verbatim>\<open>malloc\<close> fails: no result.\<close>

definition operator_new :: "bool \<Rightarrow> addr option \<Rightarrow> nat \<Rightarrow> cpp_tracker \<Rightarrow> addr option \<times> cpp_tracker" where
  "operator_new arr m sz s =
     (case m of None \<Rightarrow> (None, s)
      | Some a \<Rightarrow> (Some a, add_record a sz arr (s\<lparr>cpp_heap := (cpp_heap s)(a \<mapsto> sz)\<rparr>)))"

definition operator_delete :: "bool \<Rightarrow> ptr \<Rightarrow> cpp_tracker \<Rightarrow> cpp_tracker option" where
  "operator_delete arr p s =
     (let s = remove_record p arr s in map_option (\<lambda>h. s\<lparr>cpp_heap := h\<rparr>) (dealloc p (cpp_heap s)))"

definition leak_checker :: "cpp_tracker \<Rightarrow> cpp_tracker" where
  "leak_checker s =
     (if g_alloc_map s = [] then s\<lparr>cpp_out := cpp_out s @ [No_cpp_leaks]\<rparr>
      else s\<lparr>cpp_out := cpp_out s @ Cpp_leaks # map (\<lambda>e. Cpp_leak (ae_size e) (ae_ptr e) (is_array e)) (g_alloc_map s)\<rparr>)"

definition cpp_start :: cpp_tracker where
  "cpp_start = \<lparr>g_alloc_map = [], g_inside_tracker = False, cpp_heap = (\<lambda>_. None), cpp_out = []\<rparr>"

definition cpp_main :: "addr \<Rightarrow> addr \<Rightarrow> cpp_tracker option" where
  "cpp_main a b = (let
      (p, s) = operator_new False (Some a) 4 cpp_start;
      (q, s) = operator_new True (Some b) (4 * 50) s in do {
      s \<leftarrow> operator_delete False p s;
      Some (leak_checker s) })"

subsection \<open>Programs under the tracker\<close>

text \<open>\<open>Alloc a sz line\<close>: the real allocator answers with the address \<open>a\<close>, which is not live; otherwise the statement is skipped.
  The second component of an array flag is for C++.\<close>

datatype track_op = Alloc addr nat bool nat | Free addr bool nat

fun track_step :: "track_op \<Rightarrow> tracker \<Rightarrow> tracker option" where
  "track_step (Alloc a sz arr line) s =
     (if real_heap s a \<noteq> None then Some s else Some (snd (tracked_malloc (Some a) sz ''prog.c'' line s)))"
| "track_step (Free a arr line) s = tracked_free (Some a) ''prog.c'' line s"

fun cpp_step :: "track_op \<Rightarrow> cpp_tracker \<Rightarrow> cpp_tracker option" where
  "cpp_step (Alloc a sz arr line) s =
     (if cpp_heap s a \<noteq> None then Some s else Some (snd (operator_new arr (Some a) sz s)))"
| "cpp_step (Free a arr line) s = operator_delete arr (Some a) s"

primrec track_run :: "track_op list \<Rightarrow> tracker \<Rightarrow> tracker option" where
  "track_run [] s = Some s"
| "track_run (x # xs) s = track_step x s \<bind> track_run xs"

primrec cpp_run :: "track_op list \<Rightarrow> cpp_tracker \<Rightarrow> cpp_tracker option" where
  "cpp_run [] s = Some s"
| "cpp_run (x # xs) s = cpp_step x s \<bind> cpp_run xs"

fun is_alloc :: "track_op \<Rightarrow> bool" where
  "is_alloc (Alloc a sz arr line) = True"
| "is_alloc (Free a arr line) = False"

text \<open>What the C++ tracker should report: each \<^verbatim>\<open>delete\<close> whose form differs from that of the \<^verbatim>\<open>new\<close> of its block, in order. \<open>m\<close> maps
  the live blocks to the form they were made with.\<close>

fun form_step :: "track_op \<Rightarrow> (addr \<Rightarrow> bool option) \<Rightarrow> (addr \<Rightarrow> bool option)" where
  "form_step (Alloc a sz arr line) m = (if m a = None then m(a \<mapsto> arr) else m)"
| "form_step (Free a arr line) m = m(a := None)"

fun mismatch :: "track_op \<Rightarrow> (addr \<Rightarrow> bool option) \<Rightarrow> cpp_report list" where
  "mismatch (Alloc a sz arr line) m = []"
| "mismatch (Free a arr line) m = (if m a = Some arr then [] else [Mismatched a])"

primrec mismatches :: "track_op list \<Rightarrow> (addr \<Rightarrow> bool option) \<Rightarrow> cpp_report list" where
  "mismatches [] m = []"
| "mismatches (x # xs) m = mismatch x m @ mismatches xs (form_step x m)"

subsection \<open>The table and the heap\<close>

lemma find_index_from_Some:
  "find_index_from P i xs = Some k \<Longrightarrow> i \<le> k \<and> k < i + length xs \<and> P (xs ! (k - i))"
proof (induction xs arbitrary: i)
  case (Cons x xs)
  show ?case
  proof (cases "P x")
    case False
    then have k: "i + 1 \<le> k \<and> k < i + 1 + length xs \<and> P (xs ! (k - (i + 1)))" using Cons.IH [of "i + 1"] Cons.prems by simp
    then have "k - i = Suc (k - (i + 1))" by linarith
    then show ?thesis using k by simp
  qed (use Cons.prems in simp)
qed simp

lemma find_index_from_None: "find_index_from P i xs = None \<longleftrightarrow> (\<forall>x\<in>set xs. \<not> P x)"
  by (induction xs arbitrary: i) simp_all

lemma mset_swap_back:
  assumes "i < length xs"
  shows "mset xs = add_mset (xs ! i) (mset (swap_back i xs))"
proof -
  have ne: "xs \<noteq> []" using assms by auto
  have "mset (xs[i := last xs]) = add_mset (last xs) (mset xs - {#xs ! i#})" using assms by (simp add: mset_update)
  moreover have "last (xs[i := last xs]) = last xs" using ne by (simp add: last_list_update)
  ultimately have "add_mset (last xs) (mset (butlast (xs[i := last xs]))) = add_mset (last xs) (mset xs - {#xs ! i#})"
    using ne by (metis add_mset_add_single append_butlast_last_id length_0_conv length_list_update mset.simps(1) mset.simps(2) mset_append)
  then show ?thesis using assms by (simp add: swap_back_def)
qed

lemma set_swap_back: "i < length xs \<Longrightarrow> set (swap_back i xs) \<subseteq> set xs"
  using mset_swap_back [of i xs] by (metis set_mset_mset set_mset_mono subset_mset.order_refl add_mset_add_single mset_subset_eq_add_left)

text \<open>The entries are live blocks, one entry per block.\<close>

definition table_inv :: "('e \<Rightarrow> addr) \<Rightarrow> ('e \<Rightarrow> nat) \<Rightarrow> 'e list \<Rightarrow> nat heap \<Rightarrow> bool" where
  "table_inv pt sz xs h \<longleftrightarrow> distinct (map pt xs) \<and> length xs \<le> MAX_ALLOCS \<and> (\<forall>e\<in>set xs. h (pt e) = Some (sz e))"

lemma table_inv_add:
  assumes "table_inv pt sz xs h" "h (pt e) = None" "length xs < MAX_ALLOCS"
  shows "table_inv pt sz (xs @ [e]) (h(pt e \<mapsto> sz e))"
  using assms unfolding table_inv_def by auto

lemma table_inv_heap:
  assumes "table_inv pt sz xs h" "h a = None"
  shows "table_inv pt sz xs (h(a \<mapsto> n))"
  using assms unfolding table_inv_def by auto

lemma table_inv_remove:
  assumes inv: "table_inv pt sz xs h" and i: "find_index_from (\<lambda>e. pt e = a) 0 xs = Some i"
  shows "table_inv pt sz (swap_back i xs) (h(a := None))" "set (map pt (swap_back i xs)) = set (map pt xs) - {a}"
proof -
  have k: "i < length xs" "pt (xs ! i) = a" using find_index_from_Some [OF i] by simp_all
  have "mset (map pt xs) = add_mset a (mset (map pt (swap_back i xs)))"
    using arg_cong [OF mset_swap_back [OF k(1)], of "image_mset pt"] k(2) by simp
  then have d: "distinct (map pt (swap_back i xs))" "a \<notin> set (map pt (swap_back i xs))" "set (map pt xs) = insert a (set (map pt (swap_back i xs)))"
    using inv unfolding table_inv_def by (metis distinct.simps(2) mset.simps(2) mset_eq_imp_distinct_iff mset_eq_setD list.set(2))+
  have "set (swap_back i xs) \<subseteq> set xs" by (rule set_swap_back [OF k(1)])
  moreover have "length (swap_back i xs) \<le> length xs" by (simp add: swap_back_def)
  ultimately show "table_inv pt sz (swap_back i xs) (h(a := None))"
    using inv d(1,2) unfolding table_inv_def by auto
  show "set (map pt (swap_back i xs)) = set (map pt xs) - {a}" using d(2,3) by auto
qed

definition track_inv :: "tracker \<Rightarrow> bool" where
  "track_inv s \<longleftrightarrow> table_inv ai_ptr ai_size (alloc_table s) (real_heap s) \<and> \<not> inside_tracker s"

definition cpp_inv :: "cpp_tracker \<Rightarrow> bool" where
  "cpp_inv s \<longleftrightarrow> table_inv ae_ptr ae_size (g_alloc_map s) (cpp_heap s) \<and> \<not> g_inside_tracker s"

text \<open>No block is missing: with room in the table for the allocations still to come, nothing is reported wrongly.\<close>

definition track_exact :: "nat \<Rightarrow> tracker \<Rightarrow> bool" where
  "track_exact n s \<longleftrightarrow> track_inv s \<and> length (alloc_table s) + n \<le> MAX_ALLOCS \<and> dom (real_heap s) = set (map ai_ptr (alloc_table s)) \<and> out s = []"

definition cpp_exact :: "nat \<Rightarrow> (addr \<Rightarrow> bool option) \<Rightarrow> cpp_tracker \<Rightarrow> bool" where
  "cpp_exact n m s \<longleftrightarrow> cpp_inv s \<and> length (g_alloc_map s) + n \<le> MAX_ALLOCS \<and> dom (cpp_heap s) = set (map ae_ptr (g_alloc_map s)) \<and>
     dom m = dom (cpp_heap s) \<and> (\<forall>e\<in>set (g_alloc_map s). m (ae_ptr e) = Some (is_array e))"

lemma cpp_exactD:
  assumes "cpp_exact n m s"
  shows "table_inv ae_ptr ae_size (g_alloc_map s) (cpp_heap s)" "\<not> g_inside_tracker s" "length (g_alloc_map s) + n \<le> MAX_ALLOCS"
    "dom (cpp_heap s) = set (map ae_ptr (g_alloc_map s))" "dom m = dom (cpp_heap s)"
    "e \<in> set (g_alloc_map s) \<Longrightarrow> m (ae_ptr e) = Some (is_array e)"
  using assms by (auto simp: cpp_exact_def cpp_inv_def)

lemma track_step_inv:
  assumes inv: "track_inv s" and st: "track_step x s = Some s'"
  shows "track_inv s'"
proof (cases x)
  case (Alloc a sz arr line)
  show ?thesis
  proof (cases "real_heap s a")
    case None
    let ?e = "\<lparr>ai_ptr = a, ai_size = sz, ai_file = ''prog.c'', ai_line = line\<rparr>"
    have "table_inv ai_ptr ai_size (alloc_table s) (real_heap s)" using inv by (simp add: track_inv_def)
    then show ?thesis using st inv None table_inv_add [of ai_ptr ai_size "alloc_table s" "real_heap s" ?e]
      table_inv_heap [of ai_ptr ai_size "alloc_table s" "real_heap s" a sz]
      by (auto simp: Alloc tracked_malloc_def real_malloc_def track_inv_def Let_def)
  qed (use st inv in \<open>simp add: Alloc\<close>)
next
  case (Free a arr line)
  have t: "table_inv ai_ptr ai_size (alloc_table s) (real_heap s)" "\<not> inside_tracker s" using inv by (simp_all add: track_inv_def)
  show ?thesis
  proof (cases "find_index_from (\<lambda>e. ai_ptr e = a) 0 (alloc_table s)")
    case None
    then have "\<forall>e\<in>set (alloc_table s). ai_ptr e \<noteq> a" by (simp add: find_index_from_None)
    then have "table_inv ai_ptr ai_size (alloc_table s) ((real_heap s)(a := None))" using t(1) by (simp add: table_inv_def)
    then show ?thesis using st None t(2) by (auto simp: Free tracked_free_def real_free_def dealloc_def track_inv_def Let_def split: option.splits)
  next
    case (Some i)
    then show ?thesis using st t(2) table_inv_remove(1) [OF t(1) Some]
      by (auto simp: Free tracked_free_def real_free_def dealloc_def track_inv_def Let_def split: option.splits)
  qed
qed

lemma track_run_inv: "track_inv s \<Longrightarrow> track_run xs s = Some s' \<Longrightarrow> track_inv s'"
proof (induction xs arbitrary: s)
  case (Cons x xs)
  then obtain t where "track_step x s = Some t" "track_run xs t = Some s'" by (auto simp: bind_eq_Some_conv)
  then show ?case using Cons.IH track_step_inv [OF Cons.prems(1)] by blast
qed simp

lemma track_step_exact:
  assumes ex: "track_exact (if is_alloc x then n + 1 else n) s" and st: "track_step x s = Some s'"
  shows "track_exact n s'"
proof -
  have inv: "track_inv s" using ex by (simp add: track_exact_def)
  have inv': "track_inv s'" by (rule track_step_inv [OF inv st])
  show ?thesis
  proof (cases x)
    case (Alloc a sz arr line)
    show ?thesis
    proof (cases "real_heap s a")
      case None
      have "\<not> inside_tracker s" "length (alloc_table s) < MAX_ALLOCS" using inv ex Alloc by (simp_all add: track_inv_def track_exact_def)
      then have s': "s' = s\<lparr>real_heap := (real_heap s)(a \<mapsto> sz),
          alloc_table := alloc_table s @ [\<lparr>ai_ptr = a, ai_size = sz, ai_file = ''prog.c'', ai_line = line\<rparr>], inside_tracker := False\<rparr>"
        using st None by (simp add: Alloc tracked_malloc_def real_malloc_def Let_def)
      then show ?thesis using ex inv' Alloc by (simp add: track_exact_def)
    next
      case (Some k)
      then show ?thesis using ex inv' st Alloc by (simp add: track_exact_def)
    qed
  next
    case (Free a arr line)
    have t: "table_inv ai_ptr ai_size (alloc_table s) (real_heap s)" "\<not> inside_tracker s" using inv by (simp_all add: track_inv_def)
    have "a \<in> dom (real_heap s)" using st t(2) by (auto simp: Free tracked_free_def real_free_def dealloc_def Let_def split: option.splits)
    then have "find_index_from (\<lambda>e. ai_ptr e = a) 0 (alloc_table s) \<noteq> None"
      using ex by (auto simp: track_exact_def find_index_from_None)
    then obtain i where i: "find_index_from (\<lambda>e. ai_ptr e = a) 0 (alloc_table s) = Some i" by auto
    have "s' = s\<lparr>alloc_table := swap_back i (alloc_table s), real_heap := (real_heap s)(a := None), inside_tracker := False\<rparr>"
      using st i t(2) by (auto simp: Free tracked_free_def real_free_def dealloc_def Let_def split: option.splits)
    moreover have "length (swap_back i (alloc_table s)) \<le> length (alloc_table s)" by (simp add: swap_back_def)
    ultimately show ?thesis using ex inv' table_inv_remove(2) [OF t(1) i] Free by (auto simp: track_exact_def)
  qed
qed

lemma track_run_exact:
  "track_exact (length (filter is_alloc xs)) s \<Longrightarrow> track_run xs s = Some s' \<Longrightarrow> track_exact 0 s'"
proof (induction xs arbitrary: s)
  case (Cons x xs)
  then obtain t where t: "track_step x s = Some t" "track_run xs t = Some s'" by (auto simp: bind_eq_Some_conv)
  have "track_exact (length (filter is_alloc xs)) t"
    by (rule track_step_exact [OF _ t(1)]) (use Cons.prems(1) in \<open>simp split: if_splits\<close>)
  then show ?case using Cons.IH t(2) by blast
qed simp

lemma cpp_alloc_exact:
  assumes ex: "cpp_exact (n + 1) m s" and st: "cpp_step (Alloc a sz arr line) s = Some s'"
  shows "cpp_exact n (form_step (Alloc a sz arr line) m) s' \<and> cpp_out s' = cpp_out s"
proof (cases "cpp_heap s a")
  case None
  note d = cpp_exactD [OF ex]
  let ?e = "\<lparr>ae_ptr = a, ae_size = sz, is_array = arr\<rparr>"
  have room: "length (g_alloc_map s) < MAX_ALLOCS" and m: "m a = None" using d(3,5) None by auto
  have "table_inv ae_ptr ae_size (g_alloc_map s @ [?e]) ((cpp_heap s)(a \<mapsto> sz))"
    using table_inv_add [OF d(1), of ?e] room None by simp
  moreover have "s' = s\<lparr>cpp_heap := (cpp_heap s)(a \<mapsto> sz), g_alloc_map := g_alloc_map s @ [?e], g_inside_tracker := False\<rparr>"
    using st None d(2) room by (simp add: operator_new_def add_record_def)
  moreover have "ae_ptr e \<noteq> a" if "e \<in> set (g_alloc_map s)" for e using d(6) [OF that] m by auto
  ultimately show ?thesis using d(3-6) m by (auto simp: cpp_exact_def cpp_inv_def)
next
  case (Some k)
  then have "m a \<noteq> None" using cpp_exactD(5) [OF ex] by auto
  then show ?thesis using ex st Some by (auto simp: cpp_exact_def)
qed

lemma cpp_free_exact:
  assumes ex: "cpp_exact n m s" and st: "cpp_step (Free a arr line) s = Some s'"
  shows "cpp_exact n (m(a := None)) s' \<and> cpp_out s' = cpp_out s @ mismatch (Free a arr line) m"
proof -
  note d = cpp_exactD [OF ex]
  let ?r = "remove_record (Some a) arr s"
  have heap: "cpp_heap ?r = cpp_heap s" using d(2) by (simp add: remove_record_def split: option.splits)
  have h: "a \<in> dom (cpp_heap s)" "s' = ?r\<lparr>cpp_heap := (cpp_heap s)(a := None)\<rparr>"
    using st heap by (auto simp: operator_delete_def dealloc_def Let_def split: option.splits)
  have "find_index_from (\<lambda>e. ae_ptr e = a) 0 (g_alloc_map s) \<noteq> None"
    using d(4) h(1) by (auto simp: find_index_from_None)
  then obtain i where i: "find_index_from (\<lambda>e. ae_ptr e = a) 0 (g_alloc_map s) = Some i" by auto
  have k: "i < length (g_alloc_map s)" "ae_ptr (g_alloc_map s ! i) = a" using find_index_from_Some [OF i] by simp_all
  then have flag: "m a = Some (is_array (g_alloc_map s ! i))" using d(6) [OF nth_mem [OF k(1)]] by simp
  have r: "g_alloc_map ?r = swap_back i (g_alloc_map s)" "\<not> g_inside_tracker ?r" "cpp_out ?r = cpp_out s @ mismatch (Free a arr line) m"
    using d(2) i flag by (auto simp: remove_record_def)
  note t = table_inv_remove [OF d(1) i]
  have "length (swap_back i (g_alloc_map s)) + n \<le> MAX_ALLOCS" using d(3) by (simp add: swap_back_def)
  moreover have "(m(a := None)) (ae_ptr e) = Some (is_array e)" if e: "e \<in> set (swap_back i (g_alloc_map s))" for e
  proof -
    have "ae_ptr e \<noteq> a" using t(2) e by auto
    then show ?thesis using d(6) set_swap_back [OF k(1)] e by auto
  qed
  moreover have "dom ((cpp_heap s)(a := None)) = set (map ae_ptr (swap_back i (g_alloc_map s)))"
    using d(4) t(2) by simp
  ultimately show ?thesis using t(1) r d(5) by (simp add: h(2) cpp_exact_def cpp_inv_def)
qed

lemma cpp_run_exact:
  "cpp_exact (length (filter is_alloc xs)) m s \<Longrightarrow> cpp_run xs s = Some s' \<Longrightarrow>
   (\<exists>m'. cpp_exact 0 m' s') \<and> cpp_out s' = cpp_out s @ mismatches xs m"
proof (induction xs arbitrary: s m)
  case (Cons x xs)
  then obtain t where t: "cpp_step x s = Some t" "cpp_run xs t = Some s'" by (auto simp: bind_eq_Some_conv)
  have "cpp_exact (length (filter is_alloc xs)) (form_step x m) t \<and> cpp_out t = cpp_out s @ mismatch x m"
  proof (cases x)
    case (Alloc a sz arr line)
    then show ?thesis using cpp_alloc_exact [OF _ t(1) [unfolded Alloc]] Cons.prems(1) by simp
  next
    case (Free a arr line)
    then show ?thesis using cpp_free_exact [OF _ t(1) [unfolded Free]] Cons.prems(1) by simp
  qed
  then have "cpp_exact (length (filter is_alloc xs)) (form_step x m) t" "cpp_out t = cpp_out s @ mismatch x m" by blast+
  then show ?case using Cons.IH [OF _ t(2), of "form_step x m"] by simp
qed auto

lemma tracker_start_exact:
  "length (filter is_alloc xs) \<le> MAX_ALLOCS \<Longrightarrow> track_exact (length (filter is_alloc xs)) tracker_start"
  "length (filter is_alloc xs) \<le> MAX_ALLOCS \<Longrightarrow> cpp_exact (length (filter is_alloc xs)) (\<lambda>_. None) cpp_start"
  by (simp_all add: track_exact_def track_inv_def table_inv_def tracker_start_def cpp_exact_def cpp_inv_def cpp_start_def)

text \<open>A full table: the next block is not entered, and freeing it is reported as an error although it is correct.\<close>

lemma full_table:
  assumes "length (alloc_table s) = MAX_ALLOCS" "track_inv s" "real_heap s a = None"
  shows "\<exists>s'. track_run [Alloc a sz arr 1, Free a arr 2] s = Some s' \<and> real_heap s' = real_heap s \<and> out s' = out s @ [Bad_free a ''prog.c'' 2]"
proof -
  have "\<forall>e\<in>set (alloc_table s). ai_ptr e \<noteq> a" using assms(2,3) by (auto simp: track_inv_def table_inv_def)
  then have "find_index_from (\<lambda>e. ai_ptr e = a) 0 (alloc_table s) = None" by (simp add: find_index_from_None)
  then show ?thesis using assms
    by (simp add: tracked_malloc_def tracked_free_def real_malloc_def real_free_def dealloc_def Let_def track_inv_def fun_upd_idem)
qed

subsection \<open>Properties\<close>

text \<open>C32: In a program of one thread without undefined behaviour every entry of the table of the tracker in C is a live block
  with its size, one entry per block, so a reported leak is always real. If the program makes at most 1024 allocations (and any
  number of frees), the table is exactly the set of live blocks, no correct free is reported, and the report at exit names every
  leaked block, with its size. Under the same bound the table in C++ is exactly the set of live blocks with their sizes, and the
  messages are exactly one for each \<^verbatim>\<open>delete\<close> whose form (array or not) is not that of the \<^verbatim>\<open>new\<close> of its block. But with 1024 blocks
  in the table of C a correct pair of allocation and free is reported as a bad free.\<close>

theorem tracker_exact:
  assumes "track_run xs tracker_start = Some s"
  shows "table_inv ai_ptr ai_size (alloc_table s) (real_heap s) \<and>
     (length (filter is_alloc xs) \<le> MAX_ALLOCS \<longrightarrow> dom (real_heap s) = set (map ai_ptr (alloc_table s)) \<and>
        out (dump_leaks s) = (if dom (real_heap s) = {} then [No_leaks]
          else Leaks_detected # map (\<lambda>e. Leak (ai_size e) (ai_ptr e) (ai_file e) (ai_line e)) (alloc_table s))) \<and>
     (\<forall>t. length (filter is_alloc xs) \<le> MAX_ALLOCS \<and> cpp_run xs cpp_start = Some t \<longrightarrow>
        table_inv ae_ptr ae_size (g_alloc_map t) (cpp_heap t) \<and> dom (cpp_heap t) = set (map ae_ptr (g_alloc_map t)) \<and>
        cpp_out t = mismatches xs (\<lambda>_. None)) \<and>
     (length (alloc_table s) = MAX_ALLOCS \<longrightarrow> (\<forall>a. real_heap s a = None \<longrightarrow>
        (\<exists>s'. track_run [Alloc a 1 False 1, Free a False 2] s = Some s' \<and> out s' = out s @ [Bad_free a ''prog.c'' 2])))"
proof -
  have start: "track_inv tracker_start" by (simp add: track_inv_def table_inv_def tracker_start_def)
  have inv: "track_inv s" by (rule track_run_inv [OF start assms])
  have exact: "track_exact 0 s" if "length (filter is_alloc xs) \<le> MAX_ALLOCS"
    using track_run_exact [OF tracker_start_exact(1) [OF that] assms] .
  have "length (filter is_alloc xs) \<le> MAX_ALLOCS \<longrightarrow> dom (real_heap s) = set (map ai_ptr (alloc_table s)) \<and>
        out (dump_leaks s) = (if dom (real_heap s) = {} then [No_leaks]
          else Leaks_detected # map (\<lambda>e. Leak (ai_size e) (ai_ptr e) (ai_file e) (ai_line e)) (alloc_table s))"
    using exact by (auto simp: track_exact_def dump_leaks_def)
  moreover have "table_inv ai_ptr ai_size (alloc_table s) (real_heap s)" using inv by (simp add: track_inv_def)
  moreover have "table_inv ae_ptr ae_size (g_alloc_map t) (cpp_heap t) \<and> dom (cpp_heap t) = set (map ae_ptr (g_alloc_map t)) \<and>
        cpp_out t = mismatches xs (\<lambda>_. None)"
    if b: "length (filter is_alloc xs) \<le> MAX_ALLOCS" and t: "cpp_run xs cpp_start = Some t" for t
  proof -
    obtain m where "cpp_exact 0 m t" "cpp_out t = cpp_out cpp_start @ mismatches xs (\<lambda>_. None)"
      using cpp_run_exact [OF tracker_start_exact(2) [OF b] t] by blast
    then show ?thesis using cpp_exactD(1,4) by (simp add: cpp_start_def)
  qed
  ultimately show ?thesis using full_table [OF _ inv] by blast
qed

theorem tracker_exact_witness:
  "\<exists>s. track_run [Alloc 16 40 False 100, Alloc 64 80 False 101, Free 16 False 104] tracker_start = Some s \<and>
     table_inv ai_ptr ai_size (alloc_table s) (real_heap s) \<and> dom (real_heap s) = set (map ai_ptr (alloc_table s))"
proof -
  let ?xs = "[Alloc 16 40 False 100, Alloc 64 80 False 101, Free 16 False 104]"
  have "track_run ?xs tracker_start \<noteq> None"
    by (simp add: tracker_start_def tracked_malloc_def real_malloc_def tracked_free_def real_free_def dealloc_def MAX_ALLOCS_def)
  then obtain s where s: "track_run ?xs tracker_start = Some s" by blast
  have "length (filter is_alloc ?xs) \<le> MAX_ALLOCS" by (simp add: MAX_ALLOCS_def)
  then show ?thesis using tracker_exact [OF s] s by blast
qed

text \<open>Both programs report the one block they leak.\<close>

lemma tracker_mains:
  "map_option out (tracker_main 16 64) = Some [Leaks_detected, Leak 80 64 ''Tracker.c'' 101]"
  "map_option cpp_out (cpp_main 16 64) = Some [Cpp_leaks, Cpp_leak 200 64 True]"
  by code_simp+

end
