(* ===== verification/Inventory.thy ===== *)
theory Inventory
  imports Prelude
begin

text \<open>
  The inventory of Day 19: a tagged union in \<^verbatim>\<open>Phase-1/Day19/C/tagged_unioon_inventory.c\<close>, a \<^verbatim>\<open>std::variant\<close> in
  \<^verbatim>\<open>C++/tagged_union_inventory.cpp\<close>. In C the union is eight bytes of memory that any member can be read from, whatever was
  stored: the members are reads and writes at their offsets, and only the tag says which of them makes sense. Reading a \<^verbatim>\<open>bool\<close>
  from a byte other than 0 and 1 is undefined (\<open>None\<close>). A \<^verbatim>\<open>float\<close> is its bit pattern; how \<^verbatim>\<open>printf\<close> and \<^verbatim>\<open>cout\<close> show
  one is left to the reader of the output.
\<close>

subsection \<open>The union as bytes\<close>

type_synonym bytes = "u8 list"

definition read_u32 :: "nat \<Rightarrow> bytes \<Rightarrow> u32" where
  "read_u32 i bs = (let b = (\<lambda>k. ucast (bs ! (i + k)) :: u32) in
     or (b 0) (or (push_bit 8 (b 1)) (or (push_bit 16 (b 2)) (push_bit 24 (b 3)))))"

definition write_u32 :: "nat \<Rightarrow> u32 \<Rightarrow> bytes \<Rightarrow> bytes" where
  "write_u32 i v bs = bs[i := ucast v, i + 1 := ucast (drop_bit 8 v), i + 2 := ucast (drop_bit 16 v), i + 3 := ucast (drop_bit 24 v)]"

definition read_bool :: "nat \<Rightarrow> bytes \<Rightarrow> bool option" where
  "read_bool i bs = (if bs ! i = 0 then Some False else if bs ! i = 1 then Some True else None)"

definition write_bool :: "nat \<Rightarrow> bool \<Rightarrow> bytes \<Rightarrow> bytes" where
  "write_bool i v bs = bs[i := (if v then 1 else 0)]"

text \<open>The offsets of the members: the first field of each struct is at 0, the second at 4.\<close>

definition sizeof_union :: nat where "sizeof_union = 8"
definition sizeof_item :: nat where "sizeof_item = 4 + sizeof_union"

definition ITEM_WEAPON :: u32 where "ITEM_WEAPON = 0"
definition ITEM_POTION :: u32 where "ITEM_POTION = 1"
definition ITEM_ARMOR :: u32 where "ITEM_ARMOR = 2"

record Item =
  tag :: u32
  data :: bytes

text \<open>\<open>junk\<close> is what the uninitialised \<^verbatim>\<open>Item i;\<close> holds.\<close>

definition create_weapon :: "Item \<Rightarrow> i32 \<Rightarrow> u32 \<Rightarrow> Item" where
  "create_weapon junk damage durability = \<lparr>tag = ITEM_WEAPON, data = write_u32 4 durability (write_u32 0 damage (data junk))\<rparr>"

definition create_armor :: "Item \<Rightarrow> i32 \<Rightarrow> i32 \<Rightarrow> Item" where
  "create_armor junk defense weight = \<lparr>tag = ITEM_ARMOR, data = write_u32 4 weight (write_u32 0 defense (data junk))\<rparr>"

definition create_potion :: "Item \<Rightarrow> i32 \<Rightarrow> bool \<Rightarrow> Item" where
  "create_potion junk heal_amount isElixer = \<lparr>tag = ITEM_POTION, data = write_bool 4 isElixer (write_u32 0 heal_amount (data junk))\<rparr>"

datatype line = Damage int | Durability u32 | Defense int | Weight int | Heal_amount int | Is_elixer string | No_valid_choice

definition Process :: "Item \<Rightarrow> line list option" where
  "Process item =
     (if tag item = ITEM_WEAPON then Some [Damage (sint (read_u32 0 (data item))), Durability (read_u32 4 (data item))]
      else if tag item = ITEM_ARMOR then Some [Defense (sint (read_u32 0 (data item))), Weight (sint (read_u32 4 (data item)))]
      else if tag item = ITEM_POTION then do {
        elixer \<leftarrow> read_bool 4 (data item);
        Some [Heal_amount (sint (read_u32 0 (data item))), Is_elixer (if elixer then ''YES'' else ''NO'')] }
      else Some [No_valid_choice])"

definition inventory_main :: "Item \<Rightarrow> (line list list \<times> nat \<times> nat) option" where
  "inventory_main junk = do {
     a \<leftarrow> Process (create_weapon junk 50 1119813632);
     b \<leftarrow> Process (create_armor junk 20 15);
     c \<leftarrow> Process (create_potion junk 100 True);
     Some ([a, b, c], sizeof_item, sizeof_union) }"

subsection \<open>The variant in C++\<close>

datatype Item_cpp = Weapon i32 u32 | Armor i32 i32 | Potion i32 bool

text \<open>\<^verbatim>\<open>std::visit\<close> calls the alternative that is held; its line has the same two values.\<close>

definition process_cpp :: "Item_cpp \<Rightarrow> line list" where
  "process_cpp item =
     (case item of
        Weapon damage durability \<Rightarrow> [Damage (sint damage), Durability durability]
      | Armor defense weight \<Rightarrow> [Defense (sint defense), Weight (sint weight)]
      | Potion heal elixir \<Rightarrow> [Heal_amount (sint heal), Is_elixer (if elixir then ''YES'' else ''NO'')])"

definition inventory_main_cpp :: "line list list" where
  "inventory_main_cpp = map process_cpp [Weapon 50 1119813632, Armor 20 15, Potion 100 True]"

subsection \<open>Types\<close>

text \<open>The value of the variant type that an item of the union stands for, if its tag and bytes make sense.\<close>

definition item_value :: "Item \<Rightarrow> Item_cpp option" where
  "item_value item =
     (if tag item = ITEM_WEAPON then Some (Weapon (read_u32 0 (data item)) (read_u32 4 (data item)))
      else if tag item = ITEM_ARMOR then Some (Armor (read_u32 0 (data item)) (read_u32 4 (data item)))
      else if tag item = ITEM_POTION then map_option (Potion (read_u32 0 (data item))) (read_bool 4 (data item))
      else None)"

definition well_typed :: "Item \<Rightarrow> bool" where
  "well_typed item \<longleftrightarrow> length (data item) = sizeof_union \<and> item_value item \<noteq> None"

lemmas item_tags = ITEM_WEAPON_def ITEM_POTION_def ITEM_ARMOR_def

lemma word_of_bytes:
  fixes v :: u32
  shows "or (ucast (ucast v :: u8)) (or (push_bit 8 (ucast (ucast (drop_bit 8 v) :: u8)))
    (or (push_bit 16 (ucast (ucast (drop_bit 16 v) :: u8))) (push_bit 24 (ucast (ucast (drop_bit 24 v) :: u8))))) = v" (is "?l = v")
proof (rule bit_word_eqI)
  fix n assume "n < LENGTH(32)"
  then have "n < 8 \<or> 8 \<le> n \<and> n < 16 \<or> 16 \<le> n \<and> n < 24 \<or> 24 \<le> n \<and> n < 32" by simp linarith
  then show "bit ?l n = bit v n" unfolding bit_or_iff bit_slice bit_slice0 by auto
qed

lemma read_write_u32:
  assumes "i + 3 < length bs"
  shows "read_u32 i (write_u32 i v bs) = v"
  using assms word_of_bytes [of v] by (simp add: read_u32_def write_u32_def Let_def nth_list_update)

lemma read_write_u32_other:
  assumes "i + 4 \<le> j"
  shows "read_u32 i (write_u32 j v bs) = read_u32 i bs" "read_u32 i (write_bool j b bs) = read_u32 i bs"
  using assms by (simp_all add: read_u32_def write_u32_def write_bool_def Let_def nth_list_update)

lemma read_write_bool: "i < length bs \<Longrightarrow> read_bool i (write_bool i v bs) = Some v"
  by (simp add: read_bool_def write_bool_def)

lemma length_write [simp]: "length (write_u32 i v bs) = length bs" "length (write_bool i b bs) = length bs"
  by (simp_all add: write_u32_def write_bool_def)

lemma created_values:
  assumes "length (data junk) = sizeof_union"
  shows "item_value (create_weapon junk x y) = Some (Weapon x y)" "item_value (create_armor junk x y) = Some (Armor x y)"
    "item_value (create_potion junk x e) = Some (Potion x e)"
  using assms
  by (simp_all add: item_value_def create_weapon_def create_armor_def create_potion_def item_tags sizeof_union_def read_write_u32
      read_write_u32_other read_write_bool)

lemma Process_value: "item_value item = Some v \<Longrightarrow> Process item = Some (process_cpp v)"
  by (auto simp: item_value_def Process_def process_cpp_def item_tags split: if_splits)

subsection \<open>Properties\<close>

text \<open>C33: The functions that make items keep the union well typed: the tag names the member that was stored, whatever the bytes
  held before. Processing a well-typed item is defined, reads only that member and prints the values it was made with, just as
  the variant does; an item with another tag is reported.\<close>

theorem items_well_typed:
  assumes "length (data junk) = sizeof_union"
  shows "well_typed (create_weapon junk a d) \<and> well_typed (create_armor junk a b) \<and> well_typed (create_potion junk a e) \<and>
     Process (create_weapon junk a d) = Some (process_cpp (Weapon a d)) \<and>
     Process (create_armor junk a b) = Some (process_cpp (Armor a b)) \<and>
     Process (create_potion junk a e) = Some (process_cpp (Potion a e)) \<and>
     (\<forall>item. well_typed item \<longrightarrow> (\<exists>v. item_value item = Some v \<and> Process item = Some (process_cpp v))) \<and>
     (\<forall>item. tag item \<notin> {ITEM_WEAPON, ITEM_ARMOR, ITEM_POTION} \<longrightarrow> Process item = Some [No_valid_choice]) \<and>
     inventory_main junk = Some (inventory_main_cpp, 12, 8)"
proof -
  note v = created_values [OF assms]
  have "length (data (create_weapon junk a d)) = sizeof_union" "length (data (create_armor junk a b)) = sizeof_union"
    "length (data (create_potion junk a e)) = sizeof_union"
    using assms by (simp_all add: create_weapon_def create_armor_def create_potion_def)
  then have "well_typed (create_weapon junk a d) \<and> well_typed (create_armor junk a b) \<and> well_typed (create_potion junk a e)"
    by (simp add: well_typed_def v)
  moreover have p: "Process (create_weapon junk a d) = Some (process_cpp (Weapon a d))"
    "Process (create_armor junk a b) = Some (process_cpp (Armor a b))"
    "Process (create_potion junk a e) = Some (process_cpp (Potion a e))" for a b d e
    using v Process_value by blast+
  moreover have "inventory_main junk = Some (inventory_main_cpp, 12, 8)"
    unfolding inventory_main_def p by (simp add: inventory_main_cpp_def sizeof_item_def sizeof_union_def)
  moreover have "\<forall>item. well_typed item \<longrightarrow> (\<exists>v. item_value item = Some v \<and> Process item = Some (process_cpp v))"
    unfolding well_typed_def using Process_value by blast
  moreover have "\<forall>item. tag item \<notin> {ITEM_WEAPON, ITEM_ARMOR, ITEM_POTION} \<longrightarrow> Process item = Some [No_valid_choice]"
    by (simp add: Process_def)
  ultimately show ?thesis by blast
qed

theorem items_well_typed_witness:
  "Process (create_potion \<lparr>tag = 7, data = replicate 8 255\<rparr> 100 True) = Some (process_cpp (Potion 100 True)) \<and>
   well_typed (create_weapon \<lparr>tag = 7, data = replicate 8 255\<rparr> 50 1119813632)"
proof -
  have "length (data \<lparr>tag = 7, data = replicate 8 255\<rparr>) = sizeof_union" by (simp add: sizeof_union_def)
  from items_well_typed [OF this] show ?thesis by blast
qed

end
