(* ===== verification/Coroutines.thy ===== *)
theory Coroutines
  imports Prelude
begin

text \<open>
  Cooperative scripts, Day 36: contexts switched by hand in \<^verbatim>\<open>Phase-2/Day36/C/NPCscripting.c\<close> and \<^verbatim>\<open>context.c\<close>, C++ coroutines
  in \<^verbatim>\<open>C++/NPC.cpp\<close>. A context is its position in the script: switching to it runs the script to the next switch back, or to
  its end. Switching to a context that has ended is undefined (\<open>None\<close>); so is a name that does not fit into its array.
\<close>

subsection \<open>The scripts in C\<close>

definition MAX_NPCS :: nat where "MAX_NPCS = 3"

record NPC =
  position :: nat  \<comment> \<open>the saved context: how many pieces of the script have run\<close>
  name :: string
  done_flag :: bool

text \<open>The lines of \<^verbatim>\<open>npc_script\<close>. There is a switch back after each but the last, which sets the flag and ends the context.\<close>

definition script_line :: "nat \<Rightarrow> string" where
  "script_line k = ['': waking up'', '': moving to point A'', '': attacking'', '': done''] ! k"

definition npc_script :: "NPC \<Rightarrow> (string \<times> NPC) option" where
  "npc_script self =
     (if position self < 3 then Some (name self @ script_line (position self), self\<lparr>position := position self + 1\<rparr>)
      else if position self = 3 then Some (name self @ script_line 3, self\<lparr>position := 4, done_flag := True\<rparr>)
      else None)"

definition npc_init :: "string \<Rightarrow> NPC option" where
  "npc_init nm = (if length nm < 32 then Some \<lparr>position = 0, name = nm, done_flag = False\<rparr> else None)"

definition all_done :: "NPC list \<Rightarrow> bool" where
  "all_done npcs = list_all done_flag npcs"

datatype npc_line = Tick nat | Say string | All_finished

text \<open>One round of the loop over all scripts: each that is not done runs to its next switch.\<close>

fun npc_round :: "NPC list \<Rightarrow> (npc_line list \<times> NPC list) option" where
  "npc_round [] = Some ([], [])"
| "npc_round (n # ns) =
     (if done_flag n then map_option (\<lambda>(ls, ns). (ls, n # ns)) (npc_round ns)
      else do {
        (l, n) \<leftarrow> npc_script n;
        (ls, ns) \<leftarrow> npc_round ns;
        Some (Say l # ls, n # ns) })"

partial_function (option) npc_loop :: "nat \<Rightarrow> NPC list \<Rightarrow> npc_line list option" where
  "npc_loop tick npcs =
     (if all_done npcs then Some [All_finished]
      else do {
        (ls, npcs) \<leftarrow> npc_round npcs;
        rest \<leftarrow> npc_loop (tick + 1) npcs;
        Some (Tick tick # ls @ rest) })"

definition npc_main :: "string list \<Rightarrow> npc_line list option" where
  "npc_main names = do {
     npcs \<leftarrow> those (map npc_init names);
     npc_loop 0 npcs }"

definition npc_program :: "npc_line list option" where
  "npc_program = npc_main [''Goblin'', ''Archer'', ''Wizard'']"

subsection \<open>The coroutines in C++\<close>

text \<open>
  A generator suspends before its first line and after each of its four; the fifth resumption ends it without a value.
  \<^verbatim>\<open>next\<close> gives the line, or nothing if the coroutine was done or has just ended.
\<close>

record Generator =
  resumed :: nat
  who :: string

definition finished :: "Generator \<Rightarrow> bool" where
  "finished g = (4 < resumed g)"

definition next_value :: "Generator \<Rightarrow> string option \<times> Generator" where
  "next_value g =
     (if finished g then (None, g)
      else if resumed g < 4 then (Some (who g @ script_line (resumed g)), g\<lparr>resumed := resumed g + 1\<rparr>)
      else (None, g\<lparr>resumed := resumed g + 1\<rparr>))"

definition npc_generator :: "string \<Rightarrow> Generator" where
  "npc_generator nm = \<lparr>resumed = 0, who = nm\<rparr>"

fun cpp_round :: "Generator list \<Rightarrow> npc_line list \<times> bool \<times> Generator list" where
  "cpp_round [] = ([], False, [])"
| "cpp_round (g # gs) =
     (if finished g then (let (ls, active, gs) = cpp_round gs in (ls, active, g # gs))
      else (let (v, g) = next_value g; (ls, active, gs) = cpp_round gs in
        (case v of None \<Rightarrow> (ls, active, g # gs) | Some l \<Rightarrow> (Say l # ls, True, g # gs))))"

partial_function (option) cpp_loop :: "nat \<Rightarrow> bool \<Rightarrow> Generator list \<Rightarrow> npc_line list option" where
  "cpp_loop tick any_active gs =
     (if \<not> any_active then Some [All_finished]
      else (let (ls, active, gs) = cpp_round gs in do {
        rest \<leftarrow> cpp_loop (tick + 1) active gs;
        Some (Tick tick # ls @ rest) }))"

definition npc_main_cpp :: "string list \<Rightarrow> npc_line list option" where
  "npc_main_cpp names = cpp_loop 0 True (map npc_generator names)"

subsection \<open>Two contexts\<close>

text \<open>\<^verbatim>\<open>context.c\<close>: main and one coroutine hand control to each other; the state is the position of the coroutine.\<close>

definition coro_func :: "nat \<Rightarrow> (string \<times> nat) option" where
  "coro_func k =
     (if k = 0 then Some (''Coro: step1'', 1)
      else if k = 1 then Some (''Coro: step2'', 2)
      else if k = 2 then Some (''Done'', 3)
      else None)"

definition context_main :: "string list option" where
  "context_main = do {
     (l1, c) \<leftarrow> coro_func 0;
     (l2, c) \<leftarrow> coro_func c;
     (l3, c) \<leftarrow> coro_func c;
     Some [''Main: before first switch'', l1, ''Main: back after step 1'', l2, ''Main: back after step 2'', l3, ''Main: all done''] }"

subsection \<open>Rounds\<close>

text \<open>After \<open>k\<close> rounds every script has run \<open>k\<close> pieces.\<close>

definition npcs_at :: "nat \<Rightarrow> string list \<Rightarrow> NPC list" where
  "npcs_at k names = map (\<lambda>nm. \<lparr>position = k, name = nm, done_flag = (k = 4)\<rparr>) names"

definition round_lines :: "nat \<Rightarrow> string list \<Rightarrow> npc_line list" where
  "round_lines k names = Tick k # map (\<lambda>nm. Say (nm @ script_line k)) names"

lemma npc_round_at:
  "k < 4 \<Longrightarrow> npc_round (npcs_at k names) = Some (map (\<lambda>nm. Say (nm @ script_line k)) names, npcs_at (k + 1) names)"
proof (induction names)
  case (Cons nm names)
  have "npc_script \<lparr>position = k, name = nm, done_flag = (k = 4)\<rparr> =
      Some (nm @ script_line k, \<lparr>position = k + 1, name = nm, done_flag = (k + 1 = 4)\<rparr>)"
    using Cons.prems by (auto simp: npc_script_def less_Suc_eq numeral_eq_Suc)
  then show ?case using Cons by (simp add: npcs_at_def)
qed (simp add: npcs_at_def)

lemma all_done_at: "names \<noteq> [] \<Longrightarrow> all_done (npcs_at k names) \<longleftrightarrow> k = 4"
  by (cases names) (auto simp: all_done_def npcs_at_def list_all_iff)

lemma npc_loop_at:
  assumes "names \<noteq> []" "k \<le> 4"
  shows "npc_loop k (npcs_at k names) = Some (concat (map (\<lambda>i. round_lines i names) [k..<4]) @ [All_finished])"
  using assms(2)
proof (induction "4 - k" arbitrary: k)
  case 0
  then show ?case using all_done_at [OF assms(1)] by (subst npc_loop.simps) simp
next
  case (Suc n)
  then have k: "k < 4" by simp
  have "[k..<4] = k # [k + 1..<4]" using k by (simp add: upt_conv_Cons)
  moreover have "npc_loop (k + 1) (npcs_at (k + 1) names) = Some (concat (map (\<lambda>i. round_lines i names) [k + 1..<4]) @ [All_finished])"
    using Suc.hyps(1) [of "k + 1"] Suc.hyps(2) k by simp
  ultimately show ?case using k all_done_at [OF assms(1)] npc_round_at [OF k]
    by (subst npc_loop.simps) (simp add: round_lines_def del: upt_Suc)
qed

definition gens_at :: "nat \<Rightarrow> string list \<Rightarrow> Generator list" where
  "gens_at k names = map (\<lambda>nm. \<lparr>resumed = k, who = nm\<rparr>) names"

lemma cpp_round_at:
  "k < 4 \<Longrightarrow> cpp_round (gens_at k names) = (map (\<lambda>nm. Say (nm @ script_line k)) names, names \<noteq> [], gens_at (k + 1) names)"
  by (induction names) (simp_all add: gens_at_def finished_def next_value_def)

lemma cpp_round_last: "cpp_round (gens_at 4 names) = ([], False, gens_at 5 names)"
  by (induction names) (simp_all add: gens_at_def finished_def next_value_def)

lemma cpp_loop_at:
  assumes "names \<noteq> []" "k \<le> 4"
  shows "cpp_loop k True (gens_at k names) = Some (concat (map (\<lambda>i. round_lines i names) [k..<4]) @ [Tick 4, All_finished])"
  using assms(2)
proof (induction "4 - k" arbitrary: k)
  case 0
  then have "k = 4" by simp
  then show ?case
    by (subst cpp_loop.simps) (simp add: cpp_round_last cpp_loop.simps [of _ False])
next
  case (Suc n)
  then have k: "k < 4" by simp
  have "[k..<4] = k # [k + 1..<4]" using k by (simp add: upt_conv_Cons)
  moreover have "cpp_loop (k + 1) True (gens_at (k + 1) names) = Some (concat (map (\<lambda>i. round_lines i names) [k + 1..<4]) @ [Tick 4, All_finished])"
    using Suc.hyps(1) [of "k + 1"] Suc.hyps(2) k by simp
  ultimately show ?case using cpp_round_at [OF k] assms(1)
    by (subst cpp_loop.simps) (simp add: round_lines_def del: upt_Suc)
qed

lemma npc_inits: "list_all (\<lambda>nm. length nm < 32) names \<Longrightarrow> those (map npc_init names) = Some (npcs_at 0 names)"
  by (induction names) (simp_all add: npc_init_def npcs_at_def)

subsection \<open>Properties\<close>

text \<open>For any names of fewer than 32 characters the scheduling loop ends, no ended script is resumed, and in each of exactly
  four rounds every script says its next line, in the order of the scripts. The version with coroutines prints the same, and one
  more round in which nobody speaks, because it notices the end only when it resumes a script.\<close>

theorem scripts_interleave:
  assumes "names \<noteq> []" "list_all (\<lambda>nm. length nm < 32) names"
  shows "npc_main names = Some (concat (map (\<lambda>k. round_lines k names) [0..<4]) @ [All_finished]) \<and>
     npc_main_cpp names = Some (concat (map (\<lambda>k. round_lines k names) [0..<4]) @ [Tick 4, All_finished]) \<and>
     context_main \<noteq> None"
proof -
  have "npc_main names = Some (concat (map (\<lambda>k. round_lines k names) [0..<4]) @ [All_finished])"
    using npc_loop_at [OF assms(1), of 0] npc_inits [OF assms(2)] by (simp add: npc_main_def)
  moreover have "map npc_generator names = gens_at 0 names" by (simp add: npc_generator_def gens_at_def)
  then have "npc_main_cpp names = Some (concat (map (\<lambda>k. round_lines k names) [0..<4]) @ [Tick 4, All_finished])"
    using cpp_loop_at [OF assms(1), of 0] by (simp add: npc_main_cpp_def)
  moreover have "context_main \<noteq> None" by (simp add: context_main_def coro_func_def)
  ultimately show ?thesis by blast
qed

theorem scripts_interleave_witness:
  "npc_program = Some (concat (map (\<lambda>k. round_lines k [''Goblin'', ''Archer'', ''Wizard'']) [0..<4]) @ [All_finished])"
proof -
  have "list_all (\<lambda>nm. length nm < 32) [''Goblin'', ''Archer'', ''Wizard'']" by simp
  then show ?thesis using scripts_interleave [of "[''Goblin'', ''Archer'', ''Wizard'']"] unfolding npc_program_def by blast
qed

end
