(* ===== verification/Audio_Pipeline.thy ===== *)
theory Audio_Pipeline
  imports Prelude
begin

text \<open>
  The audio pipeline of Day 38, \<^verbatim>\<open>Phase-2/Day38/C/AudioPipeLine.c\<close> and \<^verbatim>\<open>C++/AudioPipeline.cpp\<close>: a producer, a filter and a
  consumer, connected by two bounded queues with a mutex and two condition variables each. Thread \<open>t\<close> pushes to queue \<open>t\<close>
  and pops from queue \<open>t - 1\<close>. A step is one step of one thread: taking the lock, the test of the condition that ends in waiting
  or in the operation, and in C++ the notification after the unlock; in C the signal is sent before the unlock and is part of the
  operation. A waiting thread may wake spuriously. Each condition variable has one possible waiter.

  The samples and the gain are arguments: the value of the sine at the \<open>n\<close>-th sample, the multiplication by the gain, and zero.
\<close>

subsection \<open>The program\<close>

definition FRAME_SIZE :: nat where "FRAME_SIZE = 256"
definition QUEUE_CAP :: nat where "QUEUE_CAP = 4"

record 'v Frame =
  samples :: "'v list"
  is_last :: bool

record 'v AudioQueue =
  buffer :: "'v Frame list"
  head :: nat
  tail :: nat
  fill_count :: nat
  qlock :: "nat option"

definition queue_init :: "'v Frame list \<Rightarrow> 'v AudioQueue" where
  "queue_init junk = \<lparr>buffer = junk, head = 0, tail = 0, fill_count = 0, qlock = None\<rparr>"

text \<open>The operations proper, under the lock.\<close>

definition queue_push :: "'v Frame \<Rightarrow> 'v AudioQueue \<Rightarrow> 'v AudioQueue" where
  "queue_push f q = q\<lparr>buffer := (buffer q)[tail q := f], tail := (tail q + 1) mod QUEUE_CAP, fill_count := fill_count q + 1\<rparr>"

definition queue_pop :: "'v AudioQueue \<Rightarrow> 'v Frame \<times> 'v AudioQueue" where
  "queue_pop q = (buffer q ! head q, q\<lparr>head := (head q + 1) mod QUEUE_CAP, fill_count := fill_count q - 1\<rparr>)"

text \<open>What a thread is doing, and where in the operation it is.\<close>

datatype 'v job = Push "'v Frame" | Pop | Finished

datatype 'v pc = P_lock | P_test | P_wait | P_notify "'v Frame option"

record 'v pipeline =
  queues :: "nat \<Rightarrow> 'v AudioQueue"
  jobs :: "nat \<Rightarrow> 'v job"
  pcs :: "nat \<Rightarrow> 'v pc"
  to_send :: "'v Frame list"
  consumed :: "'v Frame list"

fun queue_of :: "nat \<Rightarrow> 'v job \<Rightarrow> nat" where
  "queue_of t Pop = t - 1"
| "queue_of t j = t"

fun partner :: "nat \<Rightarrow> 'v job \<Rightarrow> nat" where
  "partner t Pop = t - 1"
| "partner t j = t + 1"

fun must_wait :: "'v job \<Rightarrow> 'v AudioQueue \<Rightarrow> bool" where
  "must_wait (Push f) q = (fill_count q = QUEUE_CAP)"
| "must_wait Pop q = (fill_count q = 0)"
| "must_wait Finished q = True"

definition set_pc :: "nat \<Rightarrow> 'v pc \<Rightarrow> 'v pipeline \<Rightarrow> 'v pipeline" where
  "set_pc t p s = s\<lparr>pcs := (pcs s)(t := p)\<rparr>"

definition set_queue :: "nat \<Rightarrow> 'v AudioQueue \<Rightarrow> 'v pipeline \<Rightarrow> 'v pipeline" where
  "set_queue i q s = s\<lparr>queues := (queues s)(i := q)\<rparr>"

definition lock_step :: "nat \<Rightarrow> 'v pipeline \<Rightarrow> 'v pipeline" where
  "lock_step t s = (let i = queue_of t (jobs s t) in
     if qlock (queues s i) = None then set_pc t P_test (set_queue i ((queues s i)\<lparr>qlock := Some t\<rparr>) s) else s)"

definition block_step :: "nat \<Rightarrow> 'v pipeline \<Rightarrow> 'v pipeline" where
  "block_step t s = (let i = queue_of t (jobs s t) in set_pc t P_wait (set_queue i ((queues s i)\<lparr>qlock := None\<rparr>) s))"

definition exec_step :: "nat \<Rightarrow> 'v pipeline \<Rightarrow> 'v pipeline" where
  "exec_step t s = (let i = queue_of t (jobs s t) in
     case jobs s t of
       Push f \<Rightarrow> set_pc t (P_notify None) (set_queue i ((queue_push f (queues s i))\<lparr>qlock := None\<rparr>) s)
     | Pop \<Rightarrow> (let (f, q) = queue_pop (queues s i) in set_pc t (P_notify (Some f)) (set_queue i (q\<lparr>qlock := None\<rparr>) s))
     | Finished \<Rightarrow> s)"

text \<open>The other thread is woken if it waits for this queue.\<close>

definition wake_partner :: "nat \<Rightarrow> 'v pipeline \<Rightarrow> 'v pipeline" where
  "wake_partner t s = (let p = partner t (jobs s t) in
     if pcs s p = P_wait \<and> queue_of p (jobs s p) = queue_of t (jobs s t) then set_pc p P_lock s else s)"

definition filtered :: "('v \<Rightarrow> 'v) \<Rightarrow> 'v Frame \<Rightarrow> 'v Frame" where
  "filtered gain f = (if is_last f then f else f\<lparr>samples := map gain (samples f)\<rparr>)"

definition set_job :: "nat \<Rightarrow> 'v job \<Rightarrow> 'v pipeline \<Rightarrow> 'v pipeline" where
  "set_job t j s = s\<lparr>jobs := (jobs s)(t := j)\<rparr>"

definition stage1_producer :: "'v pipeline \<Rightarrow> 'v pipeline" where
  "stage1_producer s =
     (case to_send s of [] \<Rightarrow> set_job 0 Finished s | f # fs \<Rightarrow> set_job 0 (Push f) (s\<lparr>to_send := fs\<rparr>))"

definition stage2_filter :: "('v \<Rightarrow> 'v) \<Rightarrow> 'v Frame option \<Rightarrow> 'v pipeline \<Rightarrow> 'v pipeline" where
  "stage2_filter gain res s =
     (case jobs s 1 of
        Push f \<Rightarrow> set_job 1 (if is_last f then Finished else Pop) s
      | _ \<Rightarrow> (case res of None \<Rightarrow> s | Some f \<Rightarrow> set_job 1 (Push (filtered gain f)) s))"

definition stage3_consumer :: "'v Frame option \<Rightarrow> 'v pipeline \<Rightarrow> 'v pipeline" where
  "stage3_consumer res s =
     (case res of None \<Rightarrow> s
      | Some f \<Rightarrow> set_job 2 (if is_last f then Finished else Pop) (s\<lparr>consumed := consumed s @ [f]\<rparr>))"

text \<open>After an operation the thread goes on with its loop.\<close>

definition notify_step :: "('v \<Rightarrow> 'v) \<Rightarrow> nat \<Rightarrow> 'v pipeline \<Rightarrow> 'v pipeline" where
  "notify_step gain t s =
     (case pcs s t of
        P_notify res \<Rightarrow> (let s = set_pc t P_lock (wake_partner t s) in
          if t = 0 then stage1_producer s else if t = 1 then stage2_filter gain res s else stage3_consumer res s)
      | _ \<Rightarrow> s)"

definition pipeline_step :: "bool \<Rightarrow> ('v \<Rightarrow> 'v) \<Rightarrow> nat \<Rightarrow> bool \<Rightarrow> 'v pipeline \<Rightarrow> 'v pipeline" where
  "pipeline_step cpp gain t spurious s =
     (if jobs s t = Finished then s
      else case pcs s t of
        P_lock \<Rightarrow> lock_step t s
      | P_test \<Rightarrow>
          if must_wait (jobs s t) (queues s (queue_of t (jobs s t))) then block_step t s
          else if cpp then exec_step t s else notify_step gain t (exec_step t s)
      | P_wait \<Rightarrow> if spurious then set_pc t P_lock s else s
      | P_notify res \<Rightarrow> notify_step gain t s)"

fun pipeline_run :: "bool \<Rightarrow> ('v \<Rightarrow> 'v) \<Rightarrow> (nat \<times> bool) list \<Rightarrow> 'v pipeline \<Rightarrow> 'v pipeline" where
  "pipeline_run cpp gain [] s = s"
| "pipeline_run cpp gain ((t, spurious) # es) s =
     pipeline_run cpp gain es (if t < 3 then pipeline_step cpp gain t spurious s else s)"

definition frame :: "(nat \<Rightarrow> 'v) \<Rightarrow> nat \<Rightarrow> 'v Frame" where
  "frame sine i = \<lparr>samples = map (\<lambda>s. sine (i * FRAME_SIZE + s)) [0..<FRAME_SIZE], is_last = False\<rparr>"

definition poison_pill :: "'v \<Rightarrow> 'v Frame" where
  "poison_pill zero = \<lparr>samples = replicate FRAME_SIZE zero, is_last = True\<rparr>"

definition sent_frames :: "(nat \<Rightarrow> 'v) \<Rightarrow> 'v \<Rightarrow> nat \<Rightarrow> 'v Frame list" where
  "sent_frames sine zero total_frames = map (frame sine) [0..<total_frames] @ [poison_pill zero]"

definition pipeline_start :: "'v Frame list \<Rightarrow> 'v Frame list \<Rightarrow> 'v pipeline" where
  "pipeline_start junk sent = \<lparr>queues = (\<lambda>_. queue_init junk), jobs = (\<lambda>t. if t = 0 then Push (hd sent) else Pop),
     pcs = (\<lambda>_. P_lock), to_send = tl sent, consumed = []\<rparr>"

text \<open>The number the consumer prints when it has seen the pill.\<close>

definition consumer_count :: "'v pipeline \<Rightarrow> nat" where
  "consumer_count s = length (filter (\<lambda>f. \<not> is_last f) (consumed s))"

definition TOTAL_FRAMES :: nat where "TOTAL_FRAMES = 100000"

definition pipeline_main :: "bool \<Rightarrow> ('v \<Rightarrow> 'v) \<Rightarrow> (nat \<Rightarrow> 'v) \<Rightarrow> 'v \<Rightarrow> 'v Frame list \<Rightarrow> (nat \<times> bool) list \<Rightarrow> 'v pipeline" where
  "pipeline_main cpp gain sine zero junk es = pipeline_run cpp gain es (pipeline_start junk (sent_frames sine zero TOTAL_FRAMES))"

subsection \<open>The invariant\<close>

definition contents :: "'v AudioQueue \<Rightarrow> 'v Frame list" where
  "contents q = ring_list (buffer q) (head q) (fill_count q)"

definition queue_ok :: "'v AudioQueue \<Rightarrow> bool" where
  "queue_ok q \<longleftrightarrow> length (buffer q) = QUEUE_CAP \<and> head q < QUEUE_CAP \<and> fill_count q \<le> QUEUE_CAP \<and>
     tail q = (head q + fill_count q) mod QUEUE_CAP"

fun notifying :: "'v pc \<Rightarrow> bool" where
  "notifying (P_notify r) = True"
| "notifying p = False"

text \<open>The frame a thread has in its hands: before it is pushed, or after it was popped.\<close>

fun in_hand :: "'v job \<Rightarrow> 'v pc \<Rightarrow> 'v Frame list" where
  "in_hand (Push f) p = (if notifying p then [] else [f])"
| "in_hand Pop (P_notify (Some f)) = [f]"
| "in_hand j p = []"

definition filter_hand :: "('v \<Rightarrow> 'v) \<Rightarrow> 'v job \<Rightarrow> 'v pc \<Rightarrow> 'v Frame list" where
  "filter_hand gain j p = (case j of Pop \<Rightarrow> map (filtered gain) (in_hand j p) | _ \<Rightarrow> in_hand j p)"

text \<open>Everything that was or will be consumed, in order.\<close>

definition past_filter :: "'v pipeline \<Rightarrow> 'v Frame list" where
  "past_filter s = consumed s @ in_hand (jobs s 2) (pcs s 2) @ contents (queues s 1)"

definition before_filter :: "'v pipeline \<Rightarrow> 'v Frame list" where
  "before_filter s = contents (queues s 0) @ in_hand (jobs s 0) (pcs s 0) @ to_send s"

definition stream :: "('v \<Rightarrow> 'v) \<Rightarrow> 'v pipeline \<Rightarrow> 'v Frame list" where
  "stream gain s = past_filter s @ filter_hand gain (jobs s 1) (pcs s 1) @ map (filtered gain) (before_filter s)"

definition jobs_ok :: "'v pipeline \<Rightarrow> bool" where
  "jobs_ok s \<longleftrightarrow> jobs s 0 \<noteq> Pop \<and> (\<forall>f. jobs s 2 \<noteq> Push f) \<and> (\<forall>t<3. jobs s t = Finished \<longrightarrow> pcs s t = P_lock) \<and>
     (\<forall>t<3. jobs s t = Pop \<longrightarrow> pcs s t \<noteq> P_notify None) \<and> (jobs s 0 = Finished \<longrightarrow> to_send s = [])"

definition locks_ok :: "'v pipeline \<Rightarrow> bool" where
  "locks_ok s \<longleftrightarrow> (\<forall>i<2. \<forall>t. qlock (queues s i) = Some t \<longleftrightarrow> t < 3 \<and> pcs s t = P_test \<and> queue_of t (jobs s t) = i)"

definition wakes_ok :: "'v pipeline \<Rightarrow> bool" where
  "wakes_ok s \<longleftrightarrow> (\<forall>t<3. pcs s t = P_wait \<longrightarrow> must_wait (jobs s t) (queues s (queue_of t (jobs s t))) \<or>
     notifying (pcs s (partner t (jobs s t))) \<and>
       queue_of (partner t (jobs s t)) (jobs s (partner t (jobs s t))) = queue_of t (jobs s t))"

definition ends_ok :: "'v pipeline \<Rightarrow> bool" where
  "ends_ok s \<longleftrightarrow> (jobs s 2 = Finished \<longleftrightarrow> (\<exists>f\<in>set (consumed s). is_last f)) \<and>
     ((jobs s 1 = Finished \<or> (\<exists>f. jobs s 1 = Push f \<and> is_last f \<and> notifying (pcs s 1))) \<longleftrightarrow> (\<exists>f\<in>set (past_filter s). is_last f))"

definition pipe_inv :: "('v \<Rightarrow> 'v) \<Rightarrow> 'v Frame list \<Rightarrow> 'v pipeline \<Rightarrow> bool" where
  "pipe_inv gain sent s \<longleftrightarrow> stream gain s = map (filtered gain) sent \<and> (\<forall>i<2. queue_ok (queues s i)) \<and>
     jobs_ok s \<and> locks_ok s \<and> wakes_ok s \<and> ends_ok s"

lemma set_pc_sel [simp]: "queues (set_pc t p s) = queues s" "jobs (set_pc t p s) = jobs s" "pcs (set_pc t p s) = (pcs s)(t := p)"
  "to_send (set_pc t p s) = to_send s" "consumed (set_pc t p s) = consumed s"
  by (simp_all add: set_pc_def)

lemma set_queue_sel [simp]: "queues (set_queue i q s) = (queues s)(i := q)" "jobs (set_queue i q s) = jobs s" "pcs (set_queue i q s) = pcs s"
  "to_send (set_queue i q s) = to_send s" "consumed (set_queue i q s) = consumed s"
  by (simp_all add: set_queue_def)

lemma set_queue_same: "set_queue i (queues s i) s = s"
  by (simp add: set_queue_def)

lemma set_job_sel [simp]: "queues (set_job t j s) = queues s" "jobs (set_job t j s) = (jobs s)(t := j)" "pcs (set_job t j s) = pcs s"
  "to_send (set_job t j s) = to_send s" "consumed (set_job t j s) = consumed s"
  by (simp_all add: set_job_def)

lemma less_3: "t < 3 \<longleftrightarrow> t = 0 \<or> t = 1 \<or> t = (2 :: nat)"
  by linarith

lemma less_2: "i < 2 \<longleftrightarrow> i = 0 \<or> i = (1 :: nat)"
  by linarith

lemma contents_push:
  assumes "queue_ok q" "fill_count q < QUEUE_CAP"
  shows "contents (queue_push f q) = contents q @ [f]" "queue_ok (queue_push f q)"
  using assms ring_list_put [of "fill_count q" "buffer q" "head q" f]
  by (simp_all add: contents_def queue_push_def queue_ok_def ring_tail_put [simplified] mod_Suc_eq)

lemma contents_pop:
  assumes "queue_ok q" "0 < fill_count q"
  shows "contents q = fst (queue_pop q) # contents (snd (queue_pop q))" "queue_ok (snd (queue_pop q))"
proof -
  have c: "0 < QUEUE_CAP" by (simp add: QUEUE_CAP_def)
  show "contents q = fst (queue_pop q) # contents (snd (queue_pop q))"
    using assms ring_list_take [of "fill_count q" "head q" "buffer q"] by (simp add: contents_def queue_pop_def queue_ok_def)
  have "fill_count q - 1 \<le> QUEUE_CAP" using assms(1) unfolding queue_ok_def by linarith
  then show "queue_ok (snd (queue_pop q))"
    using assms ring_tail_take [of "fill_count q" "head q" QUEUE_CAP] c by (simp add: queue_pop_def queue_ok_def)
qed

lemma contents_lock [simp]: "contents (q\<lparr>qlock := l\<rparr>) = contents q" "queue_ok (q\<lparr>qlock := l\<rparr>) = queue_ok q"
  by (simp_all add: contents_def queue_ok_def)

lemma length_contents [simp]: "length (contents q) = fill_count q"
  by (simp add: contents_def)

lemma contents_Nil [simp]: "contents q = [] \<longleftrightarrow> fill_count q = 0"
  by (metis length_contents length_0_conv)

lemma contents_empty [simp]: "fill_count q = 0 \<Longrightarrow> contents q = []"
  by simp

text \<open>The queue of a thread that is not finished is one of the two.\<close>

lemma queue_of_less: "jobs_ok s \<Longrightarrow> t < 3 \<Longrightarrow> jobs s t \<noteq> Finished \<Longrightarrow> queue_of t (jobs s t) < 2"
  by (cases "jobs s t") (auto simp: jobs_ok_def less_3)

lemma pipe_invD:
  assumes "pipe_inv gain sent s"
  shows "stream gain s = map (filtered gain) sent" "i < 2 \<Longrightarrow> queue_ok (queues s i)" "jobs_ok s" "locks_ok s" "wakes_ok s" "ends_ok s"
  using assms by (simp_all add: pipe_inv_def)

text \<open>Moving between the lock, the test and the wait: nobody's frames change.\<close>

lemma hand_cong: "\<not> notifying p \<Longrightarrow> \<not> notifying p' \<Longrightarrow> in_hand j p = in_hand j p'"
  by (cases j; cases p; cases p') auto

lemma quiet_step:
  assumes inv: "pipe_inv gain sent s" and t: "t < 3" "jobs s t \<noteq> Finished" "\<not> notifying (pcs s t)" "\<not> notifying p"
    and i: "i = queue_of t (jobs s t)"
    and l: "(qlock (queues s i) = None \<and> l = Some t \<and> p = P_test) \<or> (qlock (queues s i) = Some t \<and> l = None \<and> p \<noteq> P_test)
      \<or> (qlock (queues s i) = l \<and> pcs s t \<noteq> P_test \<and> p \<noteq> P_test)"
    and wait: "p = P_wait \<Longrightarrow> must_wait (jobs s t) (queues s i)"
  shows "pipe_inv gain sent (set_pc t p (set_queue i ((queues s i)\<lparr>qlock := l\<rparr>) s))" (is "pipe_inv _ _ ?s")
proof -
  note d = pipe_invD [OF inv]
  have i2: "i < 2" unfolding i by (rule queue_of_less [OF d(3) t(1,2)])
  have hand: "in_hand (jobs s u) (((pcs s)(t := p)) u) = in_hand (jobs s u) (pcs s u)" for u
    using hand_cong [OF t(3,4)] by simp
  have cont: "contents ((queues ?s) k) = contents (queues s k)" for k by simp
  have fh: "filter_hand gain (jobs s u) (((pcs s)(t := p)) u) = filter_hand gain (jobs s u) (pcs s u)" for u
    using hand [of u] by (cases "jobs s u") (auto simp: filter_hand_def)
  have past: "past_filter ?s = past_filter s" "before_filter ?s = before_filter s"
    unfolding past_filter_def before_filter_def cont using hand [of 0] hand [of 2] by simp_all
  have "stream gain ?s = map (filtered gain) sent" using d(1) fh [of 1] unfolding stream_def past by simp
  moreover have "\<forall>k<2. queue_ok (queues ?s k)" using d(2) by simp
  moreover have "jobs_ok ?s" using d(3) t(2,3,4) by (auto simp: jobs_ok_def)
  moreover have "locks_ok ?s"
  proof -
    have k: "qlock (queues s k) = Some u \<longleftrightarrow> u < 3 \<and> pcs s u = P_test \<and> queue_of u (jobs s u) = k" if "k < 2" for k u
      using d(4) that by (simp add: locks_ok_def)
    have "qlock (queues ?s k) = Some u \<longleftrightarrow> u < 3 \<and> pcs ?s u = P_test \<and> queue_of u (jobs ?s u) = k" if "k < 2" for k u
      using k [OF that, of u] k [OF i2, of t] k [OF i2, of u] l t(1) i by (cases "k = i"; cases "u = t") auto
    then show ?thesis by (simp add: locks_ok_def)
  qed
  moreover have "wakes_ok ?s"
  proof -
    have must: "must_wait j (queues ?s k) = must_wait j (queues s k)" for j k by (cases j) simp_all
    have "must_wait (jobs s u) (queues s (queue_of u (jobs s u))) \<or>
        notifying (((pcs s)(t := p)) (partner u (jobs s u))) \<and>
          queue_of (partner u (jobs s u)) (jobs s (partner u (jobs s u))) = queue_of u (jobs s u)"
      if "u < 3" "((pcs s)(t := p)) u = P_wait" for u
    proof (cases "u = t")
      case True
      then show ?thesis using wait that i by simp
    next
      case False
      then have "pcs s u = P_wait" using that(2) by simp
      then show ?thesis using d(5) that(1) t(3) by (auto simp: wakes_ok_def)
    qed
    then show ?thesis unfolding wakes_ok_def must by simp
  qed
  moreover have "ends_ok ?s"
    using d(6) t(2,3,4) unfolding ends_ok_def past by (auto simp: fun_upd_def)
  ultimately show ?thesis by (simp add: pipe_inv_def)
qed

text \<open>A wake-up, spurious or not.\<close>

lemma woken:
  assumes inv: "pipe_inv gain sent s" and t: "t < 3" "pcs s t = P_wait"
  shows "pipe_inv gain sent (set_pc t P_lock s)"
proof -
  let ?i = "queue_of t (jobs s t)"
  have "jobs s t \<noteq> Finished" using pipe_invD(3) [OF inv] t by (auto simp: jobs_ok_def)
  then show ?thesis using quiet_step [OF inv t(1), of P_lock ?i "qlock (queues s ?i)"] t(2) by (simp add: set_queue_same)
qed

lemma wake_partner_sel [simp]: "queues (wake_partner t s) = queues s" "jobs (wake_partner t s) = jobs s"
  "to_send (wake_partner t s) = to_send s" "consumed (wake_partner t s) = consumed s"
  by (simp_all add: wake_partner_def Let_def)

lemma partner_less: "jobs_ok s \<Longrightarrow> t < 3 \<Longrightarrow> jobs s t \<noteq> Finished \<Longrightarrow> partner t (jobs s t) < 3"
  by (cases "jobs s t") (auto simp: jobs_ok_def less_3)

lemma partner_neq: "jobs_ok s \<Longrightarrow> t < 3 \<Longrightarrow> jobs s t \<noteq> Finished \<Longrightarrow> partner t (jobs s t) \<noteq> t"
  by (cases "jobs s t") (auto simp: jobs_ok_def less_3)

text \<open>Two threads at the same queue are each other's partners.\<close>

lemma partners:
  assumes "jobs_ok s" "t < 3" "u < 3" "t \<noteq> u" "jobs s t \<noteq> Finished" "jobs s u \<noteq> Finished"
    and "queue_of t (jobs s t) = queue_of u (jobs s u)"
  shows "partner t (jobs s t) = u"
  using assms by (cases "jobs s t"; cases "jobs s u") (auto simp: jobs_ok_def less_3)

lemma wake_partner_inv:
  assumes inv: "pipe_inv gain sent s" and t: "t < 3" "pcs s t = P_notify r"
  shows "pipe_inv gain sent (wake_partner t s)" "pcs (wake_partner t s) t = P_notify r"
    and "u < 3 \<Longrightarrow> pcs (wake_partner t s) u = P_wait \<Longrightarrow> must_wait (jobs s u) (queues s (queue_of u (jobs s u))) \<or>
      partner u (jobs s u) \<noteq> t \<and> notifying (pcs (wake_partner t s) (partner u (jobs s u))) \<and>
        queue_of (partner u (jobs s u)) (jobs s (partner u (jobs s u))) = queue_of u (jobs s u)"
proof -
  note d = pipe_invD [OF inv]
  have f: "jobs s t \<noteq> Finished" using d(3) t by (auto simp: jobs_ok_def)
  note p = partner_less [OF d(3) t(1) f] partner_neq [OF d(3) t(1) f]
  show i: "pipe_inv gain sent (wake_partner t s)" using woken [OF inv p(1)] inv by (simp add: wake_partner_def Let_def)
  show n: "pcs (wake_partner t s) t = P_notify r" using t p(2) by (simp add: wake_partner_def Let_def)
  assume u: "u < 3" "pcs (wake_partner t s) u = P_wait"
  let ?v = "partner u (jobs s u)"
  have w: "must_wait (jobs s u) (queues s (queue_of u (jobs s u))) \<or>
      notifying (pcs (wake_partner t s) ?v) \<and> queue_of ?v (jobs s ?v) = queue_of u (jobs s u)"
    using pipe_invD(5) [OF i] u by (auto simp: wakes_ok_def)
  have "u \<noteq> t" using u(2) n by auto
  moreover have "jobs s u \<noteq> Finished" using pipe_invD(3) [OF i] u by (auto simp: jobs_ok_def)
  moreover have "\<not> (partner t (jobs s t) = u \<and> queue_of u (jobs s u) = queue_of t (jobs s t))"
    using u(2) by (auto simp: wake_partner_def Let_def split: if_splits)
  ultimately have "\<not> queue_of t (jobs s t) = queue_of u (jobs s u)"
    using partners [OF d(3) t(1) u(1) _ f] by metis
  then show "must_wait (jobs s u) (queues s (queue_of u (jobs s u))) \<or>
      ?v \<noteq> t \<and> notifying (pcs (wake_partner t s) ?v) \<and> queue_of ?v (jobs s ?v) = queue_of u (jobs s u)" using w by metis
qed

text \<open>The operation itself.\<close>

lemma exec_sync:
  assumes inv: "pipe_inv gain sent s" and t: "t < 3" "pcs s t = P_test" "jobs s t \<noteq> Finished" and q: "qlock q = None"
    and i: "i = queue_of t (jobs s t)"
  shows "locks_ok (set_pc t (P_notify r) (set_queue i q s))" "wakes_ok (set_pc t (P_notify r) (set_queue i q s))" (is "wakes_ok ?s")
proof -
  note d = pipe_invD [OF inv]
  have i2: "i < 2" unfolding i by (rule queue_of_less [OF d(3) t(1,3)])
  have k: "qlock (queues s k) = Some u \<longleftrightarrow> u < 3 \<and> pcs s u = P_test \<and> queue_of u (jobs s u) = k" if "k < 2" for k u
    using d(4) that by (simp add: locks_ok_def)
  have "qlock (queues ?s k) = Some u \<longleftrightarrow> u < 3 \<and> pcs ?s u = P_test \<and> queue_of u (jobs ?s u) = k" if "k < 2" for k u
    using k [OF that, of u] k [OF i2, of t] k [OF i2, of u] t q i by (cases "k = i"; cases "u = t") auto
  then show "locks_ok ?s" by (simp add: locks_ok_def)
  show "wakes_ok ?s"
    unfolding wakes_ok_def
  proof (intro allI impI)
    fix u assume u: "u < 3" "pcs ?s u = P_wait"
    have ut: "u \<noteq> t" using u(2) by auto
    then have w: "pcs s u = P_wait" using u(2) by simp
    have fin: "jobs s u \<noteq> Finished" using d(3) u(1) w by (auto simp: jobs_ok_def)
    show "must_wait (jobs ?s u) (queues ?s (queue_of u (jobs ?s u))) \<or>
      notifying (pcs ?s (partner u (jobs ?s u))) \<and>
        queue_of (partner u (jobs ?s u)) (jobs ?s (partner u (jobs ?s u))) = queue_of u (jobs ?s u)"
    proof (cases "queue_of u (jobs s u) = i")
      case True
      then have "partner u (jobs s u) = t" using partners [OF d(3) u(1) t(1) ut fin t(3)] i by simp
      then show ?thesis using True i by simp
    next
      case False
      then have "must_wait (jobs s u) (queues s (queue_of u (jobs s u))) \<or>
        notifying (pcs s (partner u (jobs s u))) \<and>
          queue_of (partner u (jobs s u)) (jobs s (partner u (jobs s u))) = queue_of u (jobs s u)"
        using d(5) u(1) w by (simp add: wakes_ok_def)
      then show ?thesis using False by auto
    qed
  qed
qed

lemma exec_push:
  assumes inv: "pipe_inv gain sent s" and t: "t < 3" "jobs s t = Push f" "pcs s t = P_test" "fill_count (queues s t) < QUEUE_CAP"
  shows "pipe_inv gain sent (exec_step t s)"
proof -
  let ?s = "exec_step t s"
  note d = pipe_invD [OF inv]
  have t2: "t < 2" using queue_of_less [OF d(3) t(1)] t(2) by simp
  have e: "?s = set_pc t (P_notify None) (set_queue t ((queue_push f (queues s t))\<lparr>qlock := None\<rparr>) s)"
    using t(2) by (simp add: exec_step_def Let_def)
  note c = contents_push [OF d(2) [OF t2] t(4), of f]
  have fill: "fill_count (queue_push f q) = fill_count q + 1" "qlock (queue_push f q) = qlock q" for q :: "'a AudioQueue"
    by (simp_all add: queue_push_def)
  have t01: "t = 0 \<or> t = 1" using t2 by (simp add: less_2)
  have past: "past_filter ?s = past_filter s @ (if t = 1 then [f] else [])"
    using t01 t(2,3) c(1) by (auto simp: past_filter_def e)
  have "stream gain ?s = stream gain s"
    using t01
  proof
    assume "t = 0"
    then show ?thesis using e t(2,3) c(1) unfolding stream_def past before_filter_def by simp
  next
    assume "t = 1"
    then show ?thesis using e t(2,3) c(1) unfolding stream_def past before_filter_def filter_hand_def by simp
  qed
  then have "stream gain ?s = map (filtered gain) sent" using d(1) by simp
  moreover have "\<forall>k<2. queue_ok (queues ?s k)" using d(2) c(2) by (simp add: e)
  moreover have "jobs_ok ?s" using d(3) t(2) by (auto simp: jobs_ok_def e)
  moreover have "locks_ok ?s" "wakes_ok ?s"
    using exec_sync [OF inv t(1,3)] t(2) by (auto simp: e)
  moreover have "ends_ok ?s"
    using d(6) t(2,3) t01 unfolding ends_ok_def past by (auto simp: e)
  ultimately show ?thesis by (simp add: pipe_inv_def)
qed

lemma exec_pop:
  assumes inv: "pipe_inv gain sent s" and t: "t < 3" "jobs s t = Pop" "pcs s t = P_test" "0 < fill_count (queues s (t - 1))"
  shows "pipe_inv gain sent (exec_step t s)"
proof -
  let ?s = "exec_step t s" and ?i = "t - 1"
  note d = pipe_invD [OF inv]
  obtain f q where pop: "queue_pop (queues s ?i) = (f, q)" by fastforce
  have t2: "?i < 2" "t = ?i + 1" using d(3) t(1,2) by (auto simp: jobs_ok_def less_3)
  have e: "?s = set_pc t (P_notify (Some f)) (set_queue ?i (q\<lparr>qlock := None\<rparr>) s)"
    using t(2) pop by (simp add: exec_step_def Let_def)
  note c = contents_pop [OF d(2) [OF t2(1)] t(4), unfolded pop fst_conv snd_conv]
  have fill: "fill_count q = fill_count (queues s ?i) - 1" "qlock q = qlock (queues s ?i)"
    using pop by (auto simp: queue_pop_def)
  have t01: "t = 1 \<or> t = 2" using t2 t(1) by auto
  have past: "past_filter ?s = past_filter s"
    using t01 e t(2,3) c(1) by (auto simp: past_filter_def)
  have "stream gain ?s = stream gain s"
    using t01
  proof
    assume "t = 1"
    then show ?thesis using e t(2,3) c(1) unfolding stream_def past before_filter_def filter_hand_def by simp
  next
    assume "t = 2"
    then show ?thesis using e t(2,3) c(1) unfolding stream_def past before_filter_def filter_hand_def by (simp split: job.splits)
  qed
  then have "stream gain ?s = map (filtered gain) sent" using d(1) by simp
  moreover have "\<forall>k<2. queue_ok (queues ?s k)" using d(2) c(2) by (simp add: e)
  moreover have "jobs_ok ?s" using d(3) t(2) by (auto simp: jobs_ok_def e)
  moreover have "locks_ok ?s" "wakes_ok ?s"
    using exec_sync [OF inv t(1,3)] t(2) by (auto simp: e)
  moreover have "ends_ok ?s"
    using d(6) e t(2,3) t01 unfolding ends_ok_def past by auto
  ultimately show ?thesis by (simp add: pipe_inv_def)
qed

text \<open>Going on with the loop after the notification: nobody waits for it any more.\<close>

lemma advance:
  assumes inv: "pipe_inv gain sent s" and t: "t < 3" "pcs s t = P_notify r"
    and w: "\<And>u. u < 3 \<Longrightarrow> pcs s u = P_wait \<Longrightarrow> must_wait (jobs s u) (queues s (queue_of u (jobs s u))) \<or>
      partner u (jobs s u) \<noteq> t \<and> notifying (pcs s (partner u (jobs s u))) \<and>
        queue_of (partner u (jobs s u)) (jobs s (partner u (jobs s u))) = queue_of u (jobs s u)"
    and s': "queues s' = queues s" "jobs s' = (jobs s)(t := j)" "pcs s' = (pcs s)(t := P_lock)"
    and sent: "stream gain s' = stream gain s" "jobs_ok s'" "ends_ok s'"
  shows "pipe_inv gain sent s'"
proof -
  note d = pipe_invD [OF inv]
  have k: "qlock (queues s k) = Some u \<longleftrightarrow> u < 3 \<and> pcs s u = P_test \<and> queue_of u (jobs s u) = k" if "k < 2" for k u
    using d(4) that by (simp add: locks_ok_def)
  have "qlock (queues s' k) = Some u \<longleftrightarrow> u < 3 \<and> pcs s' u = P_test \<and> queue_of u (jobs s' u) = k" if "k < 2" for k u
    using k [OF that, of u] t s' by (cases "u = t") auto
  then have "locks_ok s'" by (simp add: locks_ok_def)
  moreover have "wakes_ok s'"
    unfolding wakes_ok_def
  proof (intro allI impI)
    fix u assume u: "u < 3" "pcs s' u = P_wait"
    then have ut: "u \<noteq> t" and ws: "pcs s u = P_wait" using s' by (auto split: if_splits)
    show "must_wait (jobs s' u) (queues s' (queue_of u (jobs s' u))) \<or>
      notifying (pcs s' (partner u (jobs s' u))) \<and>
        queue_of (partner u (jobs s' u)) (jobs s' (partner u (jobs s' u))) = queue_of u (jobs s' u)"
      using w [OF u(1) ws] ut s' by auto
  qed
  ultimately show ?thesis using d sent s' by (simp add: pipe_inv_def)
qed

lemma notify_inv:
  assumes inv: "pipe_inv gain sent s" and t: "t < 3" "pcs s t = P_notify r"
  shows "pipe_inv gain sent (notify_step gain t s)"
proof -
  let ?w = "wake_partner t s" and ?s = "notify_step gain t s"
  note wi = wake_partner_inv [OF inv t]
  note d = pipe_invD [OF wi(1)]
  have hand: "\<not> notifying P_lock" by simp
  have "\<exists>j. queues ?s = queues ?w \<and> jobs ?s = (jobs ?w)(t := j) \<and> pcs ?s = (pcs ?w)(t := P_lock) \<and>
    stream gain ?s = stream gain ?w \<and> jobs_ok ?s \<and> ends_ok ?s"
  proof -
    consider (producer) "t = 0" | (filter) "t = 1" | (consumer) "t = 2" using t(1) by (auto simp: less_3)
    then show ?thesis
    proof cases
      case producer
      then obtain f where f: "jobs s 0 = Push f" using d(3) wi(2) by (cases "jobs s 0") (auto simp: jobs_ok_def)
      show ?thesis
      proof (cases "to_send s")
        case Nil
        then have e: "?s = set_job 0 Finished (set_pc 0 P_lock ?w)"
          using producer t(2) by (simp add: notify_step_def stage1_producer_def)
        show ?thesis using d f wi(2) producer Nil unfolding e stream_def past_filter_def before_filter_def jobs_ok_def ends_ok_def
          by (intro exI [of _ Finished]) auto
      next
        case (Cons g gs)
        then have e: "?s = set_job 0 (Push g) ((set_pc 0 P_lock ?w)\<lparr>to_send := gs\<rparr>)"
          using producer t(2) by (simp add: notify_step_def stage1_producer_def)
        show ?thesis using d f wi(2) producer Cons unfolding e stream_def past_filter_def before_filter_def jobs_ok_def ends_ok_def
          by (intro exI [of _ "Push g"]) auto
      qed
    next
      case filter
      show ?thesis
      proof (cases "jobs s 1")
        case (Push f)
        then have e: "?s = set_job 1 (if is_last f then Finished else Pop) (set_pc 1 P_lock ?w)"
          using filter t(2) by (simp add: notify_step_def stage2_filter_def)
        show ?thesis using d Push wi(2) filter
          unfolding e stream_def past_filter_def before_filter_def jobs_ok_def ends_ok_def filter_hand_def
          by (intro exI [of _ "if is_last f then Finished else Pop"]) auto
      next
        case Pop
        then obtain f where r: "r = Some f" using d(3) wi(2) filter t(1) by (cases r) (auto simp: jobs_ok_def)
        then have e: "?s = set_job 1 (Push (filtered gain f)) (set_pc 1 P_lock ?w)"
          using Pop filter t(2) by (simp add: notify_step_def stage2_filter_def)
        show ?thesis using d Pop wi(2) filter r
          unfolding e stream_def past_filter_def before_filter_def jobs_ok_def ends_ok_def filter_hand_def
          by (intro exI [of _ "Push (filtered gain f)"]) auto
      next
        case Finished
        then show ?thesis using d(3) wi(2) filter by (auto simp: jobs_ok_def)
      qed
    next
      case consumer
      then have j: "jobs s 2 = Pop" using d(3) wi(2) t(1) by (cases "jobs s 2") (auto simp: jobs_ok_def)
      then obtain f where r: "r = Some f" using d(3) wi(2) consumer t(1) by (cases r) (auto simp: jobs_ok_def)
      then have e: "?s = set_job 2 (if is_last f then Finished else Pop) ((set_pc 2 P_lock ?w)\<lparr>consumed := consumed s @ [f]\<rparr>)"
        using consumer t(2) by (simp add: notify_step_def stage3_consumer_def)
      show ?thesis using d j wi(2) consumer r
        unfolding e stream_def past_filter_def before_filter_def jobs_ok_def ends_ok_def
        by (intro exI [of _ "if is_last f then Finished else Pop"]) auto
    qed
  qed
  then obtain j where "queues ?s = queues ?w" "jobs ?s = (jobs ?w)(t := j)" "pcs ?s = (pcs ?w)(t := P_lock)"
    "stream gain ?s = stream gain ?w" "jobs_ok ?s" "ends_ok ?s" by blast
  then show ?thesis using advance [OF wi(1) t(1) wi(2)] wi(3) by (simp add: wi(1))
qed

text \<open>Every step, and so every schedule, keeps the invariant.\<close>

lemma exec_inv:
  assumes inv: "pipe_inv gain sent s" and t: "t < 3" "jobs s t \<noteq> Finished" "pcs s t = P_test"
    and w: "\<not> must_wait (jobs s t) (queues s (queue_of t (jobs s t)))"
  shows "pipe_inv gain sent (exec_step t s)" "\<exists>r. pcs (exec_step t s) t = P_notify r"
proof -
  have q: "queue_ok (queues s (queue_of t (jobs s t)))"
    using pipe_invD(2) [OF inv] queue_of_less [OF pipe_invD(3) [OF inv] t(1,2)] by blast
  show "pipe_inv gain sent (exec_step t s)"
  proof (cases "jobs s t")
    case (Push f)
    then have "fill_count (queues s t) < QUEUE_CAP" using w q by (simp add: queue_ok_def)
    then show ?thesis by (rule exec_push [OF inv t(1) Push t(3)])
  next
    case Pop
    then have "0 < fill_count (queues s (t - 1))" using w by simp
    then show ?thesis by (rule exec_pop [OF inv t(1) Pop t(3)])
  next
    case Finished
    then show ?thesis using t(2) by simp
  qed
  show "\<exists>r. pcs (exec_step t s) t = P_notify r"
    using t(2) by (cases "jobs s t") (auto simp: exec_step_def Let_def split: prod.split)
qed

lemma lock_step_inv:
  assumes inv: "pipe_inv gain sent s" and t: "t < 3" "jobs s t \<noteq> Finished" "pcs s t = P_lock"
  shows "pipe_inv gain sent (lock_step t s)"
  using quiet_step [OF inv t(1,2), of P_test "queue_of t (jobs s t)" "Some t"] t(3) inv by (simp add: lock_step_def Let_def)

lemma block_step_inv:
  assumes inv: "pipe_inv gain sent s" and t: "t < 3" "jobs s t \<noteq> Finished" "pcs s t = P_test"
    and w: "must_wait (jobs s t) (queues s (queue_of t (jobs s t)))"
  shows "pipe_inv gain sent (block_step t s)"
proof -
  have "qlock (queues s (queue_of t (jobs s t))) = Some t"
    using pipe_invD(4) [OF inv] queue_of_less [OF pipe_invD(3) [OF inv] t(1,2)] t by (simp add: locks_ok_def)
  then show ?thesis using quiet_step [OF inv t(1,2), of P_wait "queue_of t (jobs s t)" None] t(3) w
    by (simp add: block_step_def Let_def)
qed

lemma pipeline_step_inv:
  assumes inv: "pipe_inv gain sent s" and t: "t < 3"
  shows "pipe_inv gain sent (pipeline_step cpp gain t spurious s)"
proof (cases "jobs s t = Finished")
  case True
  then show ?thesis using inv by (simp add: pipeline_step_def)
next
  case False
  show ?thesis
  proof (cases "pcs s t")
    case P_lock
    then show ?thesis using lock_step_inv [OF inv t False] False by (simp add: pipeline_step_def)
  next
    case P_test
    show ?thesis
      using exec_inv [OF inv t False P_test] block_step_inv [OF inv t False P_test] False P_test
        notify_inv [OF exec_inv(1) [OF inv t False P_test] t]
      by (auto simp: pipeline_step_def)
  next
    case P_wait
    then show ?thesis using woken [OF inv t] inv by (simp add: pipeline_step_def)
  next
    case (P_notify r)
    then show ?thesis using notify_inv [OF inv t] False by (simp add: pipeline_step_def)
  qed
qed

lemma pipeline_run_inv: "pipe_inv gain sent s \<Longrightarrow> pipe_inv gain sent (pipeline_run cpp gain es s)"
proof (induction es arbitrary: s)
  case (Cons e es)
  then show ?case by (cases e) (simp add: pipeline_step_inv)
qed simp

lemma pipeline_run_append: "pipeline_run cpp gain (es @ es') s = pipeline_run cpp gain es' (pipeline_run cpp gain es s)"
  by (induction es arbitrary: s) auto

lemma pipeline_start_inv:
  assumes "length junk = QUEUE_CAP" "sent \<noteq> []"
  shows "pipe_inv gain sent (pipeline_start junk sent)"
proof -
  have "contents (queue_init junk) = []" by (simp add: contents_def queue_init_def)
  moreover have "queue_ok (queue_init junk)" using assms by (simp add: queue_ok_def queue_init_def QUEUE_CAP_def)
  moreover have "qlock (queue_init junk) = None" by (simp add: queue_init_def)
  ultimately show ?thesis using assms(2)
    by (auto simp: pipe_inv_def stream_def past_filter_def before_filter_def filter_hand_def jobs_ok_def locks_ok_def
        wakes_ok_def ends_ok_def pipeline_start_def less_3 split: if_splits)
qed

subsection \<open>What is consumed, and that all of it is\<close>

lemma is_last_filtered [simp]: "is_last (filtered gain f) = is_last f"
  by (simp add: filtered_def)

definition one_pill :: "'v Frame list \<Rightarrow> bool" where
  "one_pill sent \<longleftrightarrow> (\<exists>xs f. sent = xs @ [f] \<and> is_last f \<and> (\<forall>x\<in>set xs. \<not> is_last x))"

lemma consumed_prefix: "pipe_inv gain sent s \<Longrightarrow> \<exists>rest. map (filtered gain) sent = consumed s @ rest"
  by (drule pipe_invD(1)) (auto simp: stream_def past_filter_def intro: sym)

lemma nothing_after_the_pill:
  assumes p: "one_pill sent" and e: "map (filtered gain) sent = xs @ rest" and f: "f \<in> set xs" "is_last f"
  shows "rest = []"
proof (rule ccontr)
  assume "rest \<noteq> []"
  then obtain ys y where r: "rest = ys @ [y]" by (cases rest rule: rev_cases) auto
  obtain zs g where s: "sent = zs @ [g]" "\<forall>x\<in>set zs. \<not> is_last x" using p by (auto simp: one_pill_def)
  have "map (filtered gain) zs = xs @ ys" using e r s(1) by simp
  then have "f \<in> set (map (filtered gain) zs)" using f(1) by simp
  then show False using s(2) f(2) by auto
qed

lemma stream_split:
  "stream gain s = consumed s @ in_hand (jobs s 2) (pcs s 2) @ contents (queues s 1) @
     filter_hand gain (jobs s 1) (pcs s 1) @ map (filtered gain) (before_filter s)"
  by (simp add: stream_def past_filter_def)

lemma consumer_finished:
  assumes inv: "pipe_inv gain sent s" and p: "one_pill sent" and fin: "jobs s 2 = Finished"
  shows "consumed s = map (filtered gain) sent" "filter_hand gain (jobs s 1) (pcs s 1) = []" "before_filter s = []"
proof -
  note d = pipe_invD [OF inv]
  obtain f where "f \<in> set (consumed s)" "is_last f" using d(6) fin by (auto simp: ends_ok_def)
  moreover have "map (filtered gain) sent = consumed s @ (in_hand (jobs s 2) (pcs s 2) @ contents (queues s 1) @
     filter_hand gain (jobs s 1) (pcs s 1) @ map (filtered gain) (before_filter s))"
    using d(1) by (simp add: stream_split)
  ultimately have "in_hand (jobs s 2) (pcs s 2) @ contents (queues s 1) @
     filter_hand gain (jobs s 1) (pcs s 1) @ map (filtered gain) (before_filter s) = []"
    using nothing_after_the_pill [OF p] by blast
  then show "consumed s = map (filtered gain) sent" "filter_hand gain (jobs s 1) (pcs s 1) = []" "before_filter s = []"
    using d(1) by (simp_all add: stream_split)
qed

definition enabled :: "nat \<Rightarrow> 'v pipeline \<Rightarrow> bool" where
  "enabled t s \<longleftrightarrow> jobs s t \<noteq> Finished \<and>
     (case pcs s t of P_lock \<Rightarrow> qlock (queues s (queue_of t (jobs s t))) = None | P_wait \<Rightarrow> False | _ \<Rightarrow> True)"

lemma last_in_stream:
  assumes "pipe_inv gain sent s" "one_pill sent"
  shows "\<exists>f\<in>set (stream gain s). is_last f"
  using pipe_invD(1) [OF assms(1)] assms(2) by (auto simp: one_pill_def)

text \<open>No deadlock: while a thread is not finished, some thread can move.\<close>

lemma not_enabled:
  assumes inv: "pipe_inv gain sent s" and n: "\<forall>t<3. \<not> enabled t s" and t: "t < 3" "jobs s t \<noteq> Finished"
  shows "pcs s t = P_wait" "must_wait (jobs s t) (queues s (queue_of t (jobs s t)))"
proof -
  note d = pipe_invD [OF inv]
  have w: "pcs s u = P_wait" if u: "u < 3" "jobs s u \<noteq> Finished" for u
  proof -
    let ?i = "queue_of u (jobs s u)"
    have "qlock (queues s ?i) = None"
    proof (rule ccontr)
      assume "qlock (queues s ?i) \<noteq> None"
      then obtain v where v: "qlock (queues s ?i) = Some v" by blast
      then have "v < 3" "pcs s v = P_test"
        using d(4) queue_of_less [OF d(3) u] by (auto simp: locks_ok_def)
      moreover from this have "jobs s v \<noteq> Finished" using d(3) by (auto simp: jobs_ok_def)
      ultimately show False using n by (auto simp: enabled_def)
    qed
    then show ?thesis using n u by (cases "pcs s u") (auto simp: enabled_def)
  qed
  show "pcs s t = P_wait" by (rule w [OF t])
  let ?p = "partner t (jobs s t)"
  have "\<not> notifying (pcs s ?p)"
  proof
    assume a: "notifying (pcs s ?p)"
    then have "jobs s ?p \<noteq> Finished" using d(3) partner_less [OF d(3) t] by (auto simp: jobs_ok_def)
    then show False using w [OF partner_less [OF d(3) t]] a by simp
  qed
  then show "must_wait (jobs s t) (queues s (queue_of t (jobs s t)))"
    using d(5) t(1) w [OF t] by (auto simp: wakes_ok_def)
qed

lemma pipeline_no_deadlock:
  assumes inv: "pipe_inv gain sent s" and p: "one_pill sent" and n: "\<forall>t<3. \<not> enabled t s"
  shows "\<forall>t<3. jobs s t = Finished"
proof -
  note d = pipe_invD [OF inv]
  note w = not_enabled [OF inv n]
  have cap: "(0 :: nat) \<noteq> QUEUE_CAP" by (simp add: QUEUE_CAP_def)
  have hand: "in_hand (jobs s 0) (pcs s 0) = [f]" if "jobs s 0 = Push f" for f using w(1) [of 0] that by simp
  have two: "jobs s 2 = Finished"
  proof (rule ccontr)
    assume c: "jobs s 2 \<noteq> Finished"
    then have "jobs s 2 = Pop" using d(3) by (cases "jobs s 2") (auto simp: jobs_ok_def)
    then have q1: "contents (queues s 1) = []" and h2: "in_hand (jobs s 2) (pcs s 2) = []"
      using w [of 2] by auto
    then have past: "past_filter s = consumed s" by (simp add: past_filter_def)
    have nl: "\<forall>f\<in>set (past_filter s). \<not> is_last f" using d(6) c unfolding past by (auto simp: ends_ok_def)
    then have "jobs s 1 \<noteq> Finished" using d(6) by (auto simp: ends_ok_def)
    moreover from this have "jobs s 1 = Pop"
      using w(2) [of 1] q1 cap by (cases "jobs s 1") auto
    ultimately have q0: "contents (queues s 0) = []" and h1: "filter_hand gain (jobs s 1) (pcs s 1) = []"
      using w [of 1] by (auto simp: filter_hand_def)
    then have "jobs s 0 = Finished"
      using w(2) [of 0] q0 cap d(3) by (cases "jobs s 0") (auto simp: jobs_ok_def)
    then have "before_filter s = []" using q0 d(3) by (simp add: before_filter_def jobs_ok_def)
    then show False using last_in_stream [OF inv p] nl h1 by (auto simp: stream_def)
  qed
  note e = consumer_finished [OF inv p two]
  have "jobs s 0 = Finished"
    using e(3) hand d(3) by (cases "jobs s 0") (auto simp: before_filter_def jobs_ok_def)
  moreover have "jobs s 1 = Finished"
  proof -
    have "\<exists>f\<in>set (past_filter s). is_last f"
      using d(6) two by (auto simp: ends_ok_def past_filter_def)
    then show ?thesis using d(6) w(1) [of 1] by (auto simp: ends_ok_def)
  qed
  ultimately show ?thesis using two by (auto simp: less_3)
qed

subsection \<open>Termination\<close>

fun pc_effort :: "'v pc \<Rightarrow> nat" where
  "pc_effort P_lock = 2"
| "pc_effort P_test = 1"
| "pc_effort P_wait = 0"
| "pc_effort (P_notify r) = 5"

text \<open>How many operations the frames still need, and the steps of the operations under way.\<close>

definition ops_left :: "'v pipeline \<Rightarrow> nat" where
  "ops_left s = 4 * length (to_send s) + 4 * length (in_hand (jobs s 0) (pcs s 0)) + 3 * fill_count (queues s 0) +
     2 * length (in_hand (jobs s 1) (pcs s 1)) + fill_count (queues s 1)"

definition effort :: "'v pipeline \<Rightarrow> nat" where
  "effort s = 5 * ops_left s + pc_effort (pcs s 0) + pc_effort (pcs s 1) + pc_effort (pcs s 2)"

lemma effort_wake: "effort (wake_partner t s) \<le> effort s + 2" if "jobs_ok s" "t < 3" "jobs s t \<noteq> Finished"
proof -
  have "partner t (jobs s t) < 3" by (rule partner_less [OF that])
  moreover have "in_hand j P_wait = in_hand j P_lock" for j :: "'a job" by (rule hand_cong) simp_all
  ultimately show ?thesis by (auto simp: less_3 wake_partner_def Let_def effort_def ops_left_def)
qed

lemma effort_notify:
  assumes inv: "pipe_inv gain sent s" and t: "t < 3" "pcs s t = P_notify r"
  shows "effort (notify_step gain t s) < effort s"
proof -
  note d = pipe_invD [OF inv]
  have f: "jobs s t \<noteq> Finished" using d(3) t by (auto simp: jobs_ok_def)
  note wi = wake_partner_inv(2) [OF inv t]
  have "effort (notify_step gain t s) + 3 \<le> effort (wake_partner t s)"
  proof -
    consider (producer) "t = 0" | (filter) "t = 1" | (consumer) "t = 2" using t(1) by (auto simp: less_3)
    then show ?thesis
    proof cases
      case producer
      then obtain f where "jobs s 0 = Push f" using d(3) f by (cases "jobs s 0") (auto simp: jobs_ok_def)
      then show ?thesis using wi t producer
        by (cases "to_send s") (simp_all add: notify_step_def stage1_producer_def effort_def ops_left_def)
    next
      case filter
      then show ?thesis using wi t f d(3)
        by (cases "jobs s 1"; cases r) (auto simp: notify_step_def stage2_filter_def effort_def ops_left_def jobs_ok_def)
    next
      case consumer
      then have "jobs s 2 = Pop" using d(3) f by (cases "jobs s 2") (auto simp: jobs_ok_def)
      then show ?thesis using wi t consumer d(3)
        by (cases r) (auto simp: notify_step_def stage3_consumer_def effort_def ops_left_def jobs_ok_def)
    qed
  qed
  then show ?thesis using effort_wake [OF d(3) t(1) f] by linarith
qed

lemma effort_exec:
  assumes inv: "pipe_inv gain sent s" and t: "t < 3" "jobs s t \<noteq> Finished" "pcs s t = P_test"
    and w: "\<not> must_wait (jobs s t) (queues s (queue_of t (jobs s t)))"
  shows "effort (exec_step t s) < effort s"
proof (cases "jobs s t")
  case (Push f)
  then have "t = 0 \<or> t = 1" using pipe_invD(3) [OF inv] t(1) by (auto simp: jobs_ok_def less_3)
  then show ?thesis using t Push w
    by (auto simp: exec_step_def queue_push_def effort_def ops_left_def)
next
  case Pop
  then have "t = 1 \<or> t = 2" using pipe_invD(3) [OF inv] t(1) by (auto simp: jobs_ok_def less_3)
  then show ?thesis using t Pop w
    by (auto simp: exec_step_def queue_pop_def effort_def ops_left_def)
qed (use t in simp)

lemma effort_quiet:
  assumes "t < 3" "\<not> notifying (pcs s t)" "\<not> notifying p" "pc_effort p < pc_effort (pcs s t)"
  shows "effort (set_pc t p (set_queue i ((queues s i)\<lparr>qlock := l\<rparr>) s)) < effort s"
proof -
  have "in_hand (jobs s t) p = in_hand (jobs s t) (pcs s t)" by (rule hand_cong [OF assms(3,2)])
  then show ?thesis using assms(1,4) by (auto simp: less_3 effort_def ops_left_def)
qed

text \<open>Every step of an enabled thread brings the pipeline closer to its end; the other steps change nothing.\<close>

lemma effort_step:
  assumes inv: "pipe_inv gain sent s" and t: "t < 3" "enabled t s"
  shows "effort (pipeline_step cpp gain t False s) < effort s"
proof (cases "pcs s t")
  case P_lock
  then show ?thesis using effort_quiet [of t s P_test] t by (simp add: enabled_def pipeline_step_def lock_step_def Let_def)
next
  case P_test
  have f: "jobs s t \<noteq> Finished" using t by (simp add: enabled_def)
  show ?thesis
  proof (cases "must_wait (jobs s t) (queues s (queue_of t (jobs s t)))")
    case True
    then show ?thesis using effort_quiet [of t s P_wait] t f P_test by (simp add: pipeline_step_def block_step_def Let_def)
  next
    case False
    note e = exec_inv [OF inv t(1) f P_test False]
    obtain r where "pcs (exec_step t s) t = P_notify r" using e(2) by blast
    then have "effort (notify_step gain t (exec_step t s)) < effort (exec_step t s)" by (rule effort_notify [OF e(1) t(1)])
    then show ?thesis using effort_exec [OF inv t(1) f P_test False] f P_test False by (simp add: pipeline_step_def)
  qed
next
  case P_wait
  then show ?thesis using t by (simp add: enabled_def)
next
  case (P_notify r)
  then show ?thesis using effort_notify [OF inv t(1) P_notify] t by (simp add: enabled_def pipeline_step_def)
qed

lemma not_enabled_step: "\<not> enabled t s \<Longrightarrow> pipeline_step cpp gain t False s = s"
  by (auto simp: enabled_def pipeline_step_def lock_step_def Let_def split: pc.splits)

lemma pipeline_completes:
  assumes "pipe_inv gain sent s" "one_pill sent"
  shows "\<exists>es. length es \<le> effort s \<and> (\<forall>e\<in>set es. \<not> snd e) \<and> (\<forall>t<3. jobs (pipeline_run cpp gain es s) t = Finished)"
  using assms(1)
proof (induction "effort s" arbitrary: s rule: less_induct)
  case less
  show ?case
  proof (cases "\<forall>t<3. \<not> enabled t s")
    case True
    then show ?thesis using pipeline_no_deadlock [OF less.prems assms(2)] by (intro exI [of _ "[]"]) simp
  next
    case False
    then obtain t where t: "t < 3" "enabled t s" by blast
    let ?s = "pipeline_step cpp gain t False s"
    have e: "effort ?s < effort s" by (rule effort_step [OF less.prems t])
    obtain es where es: "length es \<le> effort ?s" "\<forall>e\<in>set es. \<not> snd e" "\<forall>t<3. jobs (pipeline_run cpp gain es ?s) t = Finished"
      using less.hyps [OF e pipeline_step_inv [OF less.prems t(1)]] by blast
    show ?thesis using es e t(1) by (intro exI [of _ "(t, False) # es"]) simp
  qed
qed

subsection \<open>The whole pipeline\<close>

lemma one_pill_sent: "one_pill (sent_frames sine zero n)"
  unfolding one_pill_def sent_frames_def
  by (intro exI [of _ "map (frame sine) [0..<n]"] exI [of _ "poison_pill zero"]) (auto simp: frame_def poison_pill_def)

lemma pipeline_main_inv:
  assumes "length junk = QUEUE_CAP"
  shows "pipe_inv gain (sent_frames sine zero TOTAL_FRAMES) (pipeline_main cpp gain sine zero junk es)"
  unfolding pipeline_main_def
  by (rule pipeline_run_inv [OF pipeline_start_inv [OF assms]]) (simp add: sent_frames_def)

lemma count_sent: "length (filter (\<lambda>f. \<not> is_last f) (map (filtered gain) (sent_frames sine zero n))) = n"
  by (simp add: sent_frames_def frame_def poison_pill_def filter_map o_def)

text \<open>C34: In every interleaving of the producer, the filter and the consumer, in C and in C++, the consumer has received the
filtered frames in the order they were produced, none lost and none twice, no queue holds more than four frames, the lock
of the first queue is held exactly by the thread that is in the middle of an operation on it, and the consumer has stopped exactly when it has received all 100000 frames and
the final empty one.\<close>

theorem audio_in_order:
  assumes "length junk = QUEUE_CAP" and s: "s = pipeline_main cpp gain sine zero junk es"
  shows "consumed s = take (length (consumed s)) (map (filtered gain) (sent_frames sine zero TOTAL_FRAMES)) \<and>
    fill_count (queues s 0) \<le> QUEUE_CAP \<and> fill_count (queues s 1) \<le> QUEUE_CAP \<and>
    (\<forall>t. qlock (queues s 0) = Some t \<longleftrightarrow> t < 3 \<and> pcs s t = P_test \<and> queue_of t (jobs s t) = 0) \<and>
    (jobs s 2 = Finished \<longleftrightarrow> length (consumed s) = TOTAL_FRAMES + 1)"
proof (intro conjI)
  let ?sent = "sent_frames sine zero TOTAL_FRAMES"
  have inv: "pipe_inv gain ?sent s" unfolding s by (rule pipeline_main_inv [OF assms(1)])
  note d = pipe_invD [OF inv]
  obtain rest where r: "map (filtered gain) ?sent = consumed s @ rest" using consumed_prefix [OF inv] by blast
  then show "consumed s = take (length (consumed s)) (map (filtered gain) ?sent)" by simp
  show "fill_count (queues s 0) \<le> QUEUE_CAP" "fill_count (queues s 1) \<le> QUEUE_CAP" using d(2) by (simp_all add: queue_ok_def)
  show "\<forall>t. qlock (queues s 0) = Some t \<longleftrightarrow> t < 3 \<and> pcs s t = P_test \<and> queue_of t (jobs s t) = 0"
    using d(4) by (simp add: locks_ok_def)
  have n: "length (map (filtered gain) ?sent) = TOTAL_FRAMES + 1" by (simp add: sent_frames_def)
  show "jobs s 2 = Finished \<longleftrightarrow> length (consumed s) = TOTAL_FRAMES + 1"
  proof
    assume "jobs s 2 = Finished"
    then show "length (consumed s) = TOTAL_FRAMES + 1" using consumer_finished(1) [OF inv one_pill_sent] n by simp
  next
    assume l: "length (consumed s) = TOTAL_FRAMES + 1"
    have "length (consumed s @ rest) = TOTAL_FRAMES + 1" using n unfolding r .
    then have "rest = []" using l by simp
    then have "set (consumed s) = set (stream gain s)" using r d(1) by simp
    then show "jobs s 2 = Finished" using last_in_stream [OF inv one_pill_sent] d(6) by (simp add: ends_ok_def)
  qed
qed

lemma audio_in_order_witness:
  "fill_count (queues (pipeline_main False (\<lambda>x. x div 2) (\<lambda>n. n) (0 :: nat) (replicate 4 (poison_pill 7)) [(0, False), (2, False)]) 0) \<le> QUEUE_CAP"
  using audio_in_order [of "replicate 4 (poison_pill (7 :: nat))" _ False "\<lambda>x. x div 2" "\<lambda>n. n" 0 "[(0, False), (2, False)]", OF _ refl]
  by (simp add: QUEUE_CAP_def)

text \<open>C35: The pipeline does not deadlock and loses no wake-up: from every reachable state it can be brought to the end without any
spurious wake-up, where all three threads have returned, the consumer has all the filtered frames and reports 100000 of them.\<close>

theorem audio_completes:
  assumes "length junk = QUEUE_CAP"
  shows "\<exists>es'. let s = pipeline_main cpp gain sine zero junk (es @ es') in
    (\<forall>t\<in>{0, 1, 2}. jobs s t = Finished) \<and> consumed s = map (filtered gain) (sent_frames sine zero TOTAL_FRAMES) \<and>
    consumer_count s = TOTAL_FRAMES \<and> (\<forall>e\<in>set es'. \<not> snd e)"
proof -
  let ?sent = "sent_frames sine zero TOTAL_FRAMES" and ?s = "pipeline_main cpp gain sine zero junk es"
  obtain es' where e: "\<forall>t<3. jobs (pipeline_run cpp gain es' ?s) t = Finished" "\<forall>e\<in>set es'. \<not> snd e"
    using pipeline_completes [OF pipeline_main_inv [OF assms] one_pill_sent] by blast
  have run: "pipeline_main cpp gain sine zero junk (es @ es') = pipeline_run cpp gain es' ?s"
    by (simp add: pipeline_main_def pipeline_run_append)
  have inv: "pipe_inv gain ?sent (pipeline_main cpp gain sine zero junk (es @ es'))" by (rule pipeline_main_inv [OF assms])
  have "consumed (pipeline_main cpp gain sine zero junk (es @ es')) = map (filtered gain) ?sent"
    using consumer_finished(1) [OF inv one_pill_sent] e(1) unfolding run by simp
  then show ?thesis using e count_sent unfolding run [symmetric] Let_def consumer_count_def
    by (intro exI [of _ es']) (simp add: less_3)
qed

lemma audio_completes_witness:
  "\<exists>es'. consumer_count (pipeline_main True (\<lambda>x. x div 2) (\<lambda>n. n) (0 :: nat) (replicate 4 (poison_pill 7)) ([(0, False), (2, True)] @ es')) = 100000"
  using audio_completes [of "replicate 4 (poison_pill (7 :: nat))" True "\<lambda>x. x div 2" "\<lambda>n. n" 0 "[(0, False), (2, True)]"]
  by (auto simp: QUEUE_CAP_def TOTAL_FRAMES_def Let_def)

end
