(* ===== verification/Event_Loop.thy ===== *)
theory Event_Loop
  imports Prelude
begin

unbundle bit_operations_syntax

text \<open>
  The event-loop servers of Day 35, \<^verbatim>\<open>Phase-2/Day35/C/async.c\<close> and \<^verbatim>\<open>C++/async.cpp\<close>: edge-triggered \<^verbatim>\<open>epoll\<close>, one state
  per connection. The operating system is a state of its own (\<open>kernel\<close>): which descriptors are open, which events are asked for,
  what was sent on each descriptor. Everything it may answer is in the input: the batches of ready descriptors, and for every
  event the answers of \<^verbatim>\<open>accept\<close>, \<^verbatim>\<open>read\<close> and \<^verbatim>\<open>write\<close>. What an input may not do is filtered by the kernel model: an event is
  reported only for a registered descriptor, once in a batch, and only with the flags asked for or an error or hang-up.

  In C a connection is a struct on the heap, found through the pointer stored with the event; in C++ it is a handler, found in a
  map from descriptors. The theorem is that both are the same server, and that in C no pointer is ever stale.
\<close>

subsection \<open>The kernel\<close>

definition EPOLLIN :: u32 where "EPOLLIN = 0x001"
definition EPOLLOUT :: u32 where "EPOLLOUT = 0x004"
definition EPOLLERR :: u32 where "EPOLLERR = 0x008"
definition EPOLLHUP :: u32 where "EPOLLHUP = 0x010"
definition EPOLLRDHUP :: u32 where "EPOLLRDHUP = 0x2000"
definition EPOLLET :: u32 where "EPOLLET = 0x80000000"

datatype source = Listener | Conn nat

record kernel =
  open_fds :: "nat list"
  listen_mask :: "u32 option"
  interest :: "nat \<Rightarrow> u32 option"
  wire :: "nat \<Rightarrow> string"
  closed_wires :: "(nat \<times> string) list"
  console :: string

text \<open>A new descriptor is the lowest one that is not open.\<close>

definition lowest_free :: "nat list \<Rightarrow> nat" where
  "lowest_free os = hd (filter (\<lambda>fd. fd \<notin> set os) [0..<Suc (length os)])"

definition k_open :: "nat \<Rightarrow> kernel \<Rightarrow> (nat \<times> kernel) option" where
  "k_open limit k = (let fd = lowest_free (open_fds k) in
     if fd < limit then Some (fd, k\<lparr>open_fds := fd # open_fds k, wire := (wire k)(fd := [])\<rparr>) else None)"

definition k_close :: "nat \<Rightarrow> kernel \<Rightarrow> kernel" where
  "k_close fd k = (if fd \<in> set (open_fds k)
     then k\<lparr>open_fds := removeAll fd (open_fds k), interest := (interest k)(fd := None), closed_wires := closed_wires k @ [(fd, wire k fd)]\<rparr>
     else k)"

definition ctl_add :: "nat \<Rightarrow> u32 \<Rightarrow> kernel \<Rightarrow> kernel" where
  "ctl_add fd m k = k\<lparr>interest := (interest k)(fd \<mapsto> m)\<rparr>"

definition ctl_mod :: "bool \<Rightarrow> nat \<Rightarrow> u32 \<Rightarrow> kernel \<Rightarrow> kernel" where
  "ctl_mod ok fd m k = (if ok \<and> interest k fd \<noteq> None then k\<lparr>interest := (interest k)(fd \<mapsto> m)\<rparr> else k)"

definition ctl_del :: "nat \<Rightarrow> kernel \<Rightarrow> kernel" where
  "ctl_del fd k = k\<lparr>interest := (interest k)(fd := None)\<rparr>"

definition k_print :: "string \<Rightarrow> kernel \<Rightarrow> kernel" where
  "k_print d k = k\<lparr>console := console k @ d\<rparr>"

definition k_send :: "nat \<Rightarrow> string \<Rightarrow> kernel \<Rightarrow> kernel" where
  "k_send fd d k = k\<lparr>wire := (wire k)(fd := wire k fd @ d)\<rparr>"

text \<open>The answers to the calls made for one event; after the end of a list the answer is \<^verbatim>\<open>EAGAIN\<close>.\<close>

datatype accept_answer = Accepted "bool \<times> bool" bool | Accept_again | Accept_error

datatype read_answer = Read string | Read_again | Read_error

datatype write_answer = Wrote nat | Write_again | Write_error

record answers =
  accepts :: "accept_answer list"
  reads :: "read_answer list"
  writes :: "write_answer list"
  mod_ok :: bool

type_synonym ready = "(source \<times> u32 \<times> answers) list"

datatype wait = Interrupted | Wait_failed | Ready ready

fun source_mask :: "kernel \<Rightarrow> source \<Rightarrow> u32 option" where
  "source_mask k Listener = listen_mask k"
| "source_mask k (Conn fd) = interest k fd"

fun reported :: "kernel \<Rightarrow> source list \<Rightarrow> ready \<Rightarrow> ready" where
  "reported k seen [] = []"
| "reported k seen ((src, ev, a) # r) =
     (case source_mask k src of
        None \<Rightarrow> reported k seen r
      | Some m \<Rightarrow> if src \<in> set seen then reported k seen r
          else (src, ev AND (m OR EPOLLERR OR EPOLLHUP), a) # reported k (src # seen) r)"

definition MAX_EVENTS :: nat where "MAX_EVENTS = 64"

definition epoll_wait :: "kernel \<Rightarrow> ready \<Rightarrow> ready" where
  "epoll_wait k r = take MAX_EVENTS (reported k [] r)"

subsection \<open>The server in C\<close>

definition BUF_SIZE :: nat where "BUF_SIZE = 1024"

definition crlf :: string where "crlf = [CHR 0x0D, CHR 0x0A]"

definition resp :: string where
  "resp = ''HTTP/1.1 200 OK'' @ crlf @ ''Content-Type: text/plain'' @ crlf @ ''Content-Length: 13'' @ crlf @
     ''Connection: close'' @ crlf @ crlf @ ''Hello World!'' @ [CHR 0x0A]"

record conn_state =
  conn_fd :: nat
  write_buf :: string
  write_len :: nat
  write_pos :: nat

record c_server =
  kern :: kernel
  states :: "conn_state heap"
  event_data :: "nat \<Rightarrow> ptr"

text \<open>The answers of the two calls of \<^verbatim>\<open>fcntl\<close>.\<close>

definition set_nonblocking :: "bool \<times> bool \<Rightarrow> int" where
  "set_nonblocking r = (if \<not> fst r then - 1 else if snd r then 0 else - 1)"

definition close_conn :: "ptr \<Rightarrow> c_server \<Rightarrow> c_server option" where
  "close_conn p s = do {
     st \<leftarrow> load (states s) p;
     h \<leftarrow> dealloc p (states s);
     Some (s\<lparr>kern := k_close (conn_fd st) (ctl_del (conn_fd st) (kern s)), states := h\<rparr>)
   }"

definition new_conn :: "nat \<Rightarrow> conn_state" where
  "new_conn fd = \<lparr>conn_fd = fd, write_buf = replicate BUF_SIZE (CHR 0x00), write_len = 0, write_pos = 0\<rparr>"

fun accept_loop :: "conn_state allocator \<Rightarrow> nat \<Rightarrow> accept_answer list \<Rightarrow> c_server \<Rightarrow> c_server option" where
  "accept_loop alloc limit (Accepted nonblocking added # as) s =
     (case k_open limit (kern s) of
        None \<Rightarrow> Some s
      | Some (fd, k) \<Rightarrow>
          if set_nonblocking nonblocking < 0 then accept_loop alloc limit as (s\<lparr>kern := k_close fd k\<rparr>)
          else (case alloc (states s) of
              None \<Rightarrow> None
            | Some (p, junk) \<Rightarrow>
                if added then accept_loop alloc limit as (s\<lparr>kern := ctl_add fd (EPOLLIN OR EPOLLET OR EPOLLRDHUP) k,
                    states := (states s)(p \<mapsto> new_conn fd), event_data := (event_data s)(fd := Some p)\<rparr>)
                else do {
                  h \<leftarrow> dealloc (Some p) ((states s)(p \<mapsto> new_conn fd));
                  accept_loop alloc limit as (s\<lparr>kern := k_close fd k, states := h\<rparr>)
                }))"
| "accept_loop alloc limit as s = Some s"

fun read_loop :: "read_answer list \<Rightarrow> kernel \<Rightarrow> bool \<times> kernel" where
  "read_loop (Read d # rs) k = (if d = [] then (True, k) else read_loop rs (k_print (take BUF_SIZE d) k))"
| "read_loop (Read_error # rs) k = (True, k)"
| "read_loop rs k = (False, k)"

fun write_loop :: "write_answer list \<Rightarrow> conn_state \<Rightarrow> kernel \<Rightarrow> (bool \<times> conn_state \<times> kernel) option" where
  "write_loop ws st k =
     (if write_pos st < write_len st then
        (case ws of
           Wrote n # ws' \<Rightarrow>
             (if write_len st \<le> length (write_buf st) then
                (let w = min n (write_len st - write_pos st) in
                 write_loop ws' (st\<lparr>write_pos := write_pos st + w\<rparr>) (k_send (conn_fd st) (take w (drop (write_pos st) (write_buf st))) k))
              else None)
         | Write_error # ws' \<Rightarrow> Some (True, st, k)
         | _ \<Rightarrow> Some (False, st, k))
      else Some (False, st, k))"

definition read_event :: "ptr \<Rightarrow> answers \<Rightarrow> c_server \<Rightarrow> (bool \<times> c_server) option" where
  "read_event p a s = do {
     st \<leftarrow> load (states s) p;
     let (closed, k) = read_loop (reads a) (kern s);
     if closed then do {
       s \<leftarrow> close_conn p (s\<lparr>kern := k\<rparr>);
       Some (True, s)
     } else if length resp \<le> length (write_buf st) then do {
       h \<leftarrow> store p (\<lambda>st. st\<lparr>write_buf := resp @ drop (length resp) (write_buf st), write_len := length resp, write_pos := 0\<rparr>) (states s);
       Some (False, s\<lparr>kern := ctl_mod (mod_ok a) (conn_fd st) (EPOLLIN OR EPOLLOUT OR EPOLLET OR EPOLLRDHUP) k, states := h\<rparr>)
     } else None
   }"

definition write_event :: "ptr \<Rightarrow> answers \<Rightarrow> c_server \<Rightarrow> c_server option" where
  "write_event p a s = do {
     st \<leftarrow> load (states s) p;
     (err, st', k) \<leftarrow> write_loop (writes a) st (kern s);
     h \<leftarrow> store p (\<lambda>_. st') (states s);
     let s' = s\<lparr>kern := k, states := h\<rparr>;
     if err then close_conn p s'
     else if write_pos st' = write_len st' then close_conn p s' else Some s'
   }"

definition c_event :: "conn_state allocator \<Rightarrow> nat \<Rightarrow> ptr \<times> u32 \<times> answers \<Rightarrow> c_server \<Rightarrow> c_server option" where
  "c_event alloc limit e s = (case e of (p, evs, a) \<Rightarrow>
     if p = None then accept_loop alloc limit (accepts a) s
     else if evs AND (EPOLLRDHUP OR EPOLLHUP OR EPOLLERR) \<noteq> 0 then close_conn p s
     else do {
       (closed, s) \<leftarrow> (if evs AND EPOLLIN \<noteq> 0 then read_event p a s else Some (False, s));
       if closed then Some s
       else if evs AND EPOLLOUT \<noteq> 0 then write_event p a s
       else Some s
     })"

fun c_events :: "conn_state allocator \<Rightarrow> nat \<Rightarrow> (ptr \<times> u32 \<times> answers) list \<Rightarrow> c_server \<Rightarrow> c_server option" where
  "c_events alloc limit [] s = Some s"
| "c_events alloc limit (e # es) s = do { s \<leftarrow> c_event alloc limit e s; c_events alloc limit es s }"

definition c_batch :: "c_server \<Rightarrow> ready \<Rightarrow> (ptr \<times> u32 \<times> answers) list" where
  "c_batch s r = map (\<lambda>(src, ev, a). (case src of Listener \<Rightarrow> None | Conn fd \<Rightarrow> event_data s fd, ev, a)) (epoll_wait (kern s) r)"

text \<open>The endless loop, for as long as the input goes; the flag says that it was left.\<close>

fun c_loop :: "conn_state allocator \<Rightarrow> nat \<Rightarrow> wait list \<Rightarrow> c_server \<Rightarrow> (bool \<times> c_server) option" where
  "c_loop alloc limit [] s = Some (False, s)"
| "c_loop alloc limit (Interrupted # ws) s = c_loop alloc limit ws s"
| "c_loop alloc limit (Wait_failed # ws) s = Some (True, s)"
| "c_loop alloc limit (Ready r # ws) s = do { s \<leftarrow> c_events alloc limit (c_batch s r) s; c_loop alloc limit ws s }"

text \<open>The start: descriptors 0 to 2 are the standard streams. The calls that may fail are, in the order of the code,
\<^verbatim>\<open>socket\<close>, \<^verbatim>\<open>bind\<close>, the two of \<^verbatim>\<open>fcntl\<close>, \<^verbatim>\<open>listen\<close>, \<^verbatim>\<open>epoll_create1\<close> and \<^verbatim>\<open>epoll_ctl\<close>; \<open>None\<close> is the failure exit.\<close>

record startup =
  socket_ok :: bool
  bind_ok :: bool
  nonblock_ok :: "bool \<times> bool"
  listen_ok :: bool
  epoll_ok :: bool
  add_ok :: bool

definition boot :: kernel where
  "boot = \<lparr>open_fds = [2, 1, 0], listen_mask = None, interest = Map.empty, wire = (\<lambda>_. []), closed_wires = [], console = []\<rparr>"

definition c_start :: "nat \<Rightarrow> startup \<Rightarrow> (nat \<times> nat \<times> c_server) option" where
  "c_start limit c =
     (if \<not> socket_ok c then None
      else do {
        (listen_fd, k) \<leftarrow> k_open limit boot;
        if \<not> bind_ok c then None
        else if set_nonblocking (nonblock_ok c) < 0 then None
        else if \<not> listen_ok c then None
        else if \<not> epoll_ok c then None
        else do {
          (epoll_fd, k) \<leftarrow> k_open limit k;
          if \<not> add_ok c then None
          else Some (listen_fd, epoll_fd,
            \<lparr>kern = k\<lparr>listen_mask := Some (EPOLLIN OR EPOLLET)\<rparr>, states = Map.empty, event_data = (\<lambda>_. None)\<rparr>)
        }
      })"

text \<open>The whole program: \<open>None\<close> in the outer option is undefined behaviour, the kernel is what the program leaves behind when it
returns or where the input ends.\<close>

definition c_main :: "conn_state allocator \<Rightarrow> nat \<Rightarrow> startup \<Rightarrow> wait list \<Rightarrow> kernel option option" where
  "c_main alloc limit c ws =
     (case c_start limit c of
        None \<Rightarrow> Some None
      | Some (listen_fd, epoll_fd, s) \<Rightarrow> do {
          (left_loop, s) \<leftarrow> c_loop alloc limit ws s;
          Some (Some (if left_loop then k_close epoll_fd (k_close listen_fd (kern s)) else kern s))
        })"

subsection \<open>The reactor in C++\<close>

text \<open>The objects are owned by the map and by the local pointers of the functions: a descriptor is closed by the destructor when
the object has left the map and the function that still holds it returns. Memory is assumed to suffice.\<close>

datatype handler = AcceptHandler nat | ClientHandler string nat

record reactor =
  rkern :: kernel
  handlers :: "nat \<Rightarrow> handler option"

definition register_handler :: "nat \<Rightarrow> handler \<Rightarrow> u32 \<Rightarrow> bool \<Rightarrow> reactor \<Rightarrow> reactor" where
  "register_handler fd h m ok r = (if ok
     then r\<lparr>rkern := (case h of AcceptHandler l \<Rightarrow> (rkern r)\<lparr>listen_mask := Some m\<rparr> | ClientHandler b i \<Rightarrow> ctl_add fd m (rkern r)),
       handlers := (handlers r)(fd \<mapsto> h)\<rparr>
     else r\<lparr>handlers := (handlers r)(fd := None)\<rparr>)"

definition modify_handler :: "bool \<Rightarrow> nat \<Rightarrow> u32 \<Rightarrow> reactor \<Rightarrow> reactor" where
  "modify_handler ok fd m r = r\<lparr>rkern := ctl_mod ok fd m (rkern r)\<rparr>"

definition remove_handler :: "nat \<Rightarrow> reactor \<Rightarrow> reactor" where
  "remove_handler fd r = r\<lparr>rkern := ctl_del fd (rkern r), handlers := (handlers r)(fd := None)\<rparr>"

definition last_owner :: "nat \<Rightarrow> reactor \<Rightarrow> reactor" where
  "last_owner fd r = (if handlers r fd = None then r\<lparr>rkern := k_close fd (rkern r)\<rparr> else r)"

fun accept_clients :: "nat \<Rightarrow> accept_answer list \<Rightarrow> reactor \<Rightarrow> reactor" where
  "accept_clients limit (Accepted nonblocking added # as) r =
     (case k_open limit (rkern r) of
        None \<Rightarrow> r
      | Some (fd, k) \<Rightarrow>
          if set_nonblocking nonblocking < 0 then accept_clients limit as (r\<lparr>rkern := k_close fd k\<rparr>)
          else accept_clients limit as (last_owner fd
            (register_handler fd (ClientHandler [] 0) (EPOLLIN OR EPOLLET OR EPOLLRDHUP) added (r\<lparr>rkern := k\<rparr>))))"
| "accept_clients limit as r = r"

definition handle_error :: "nat \<Rightarrow> handler \<Rightarrow> reactor \<Rightarrow> reactor" where
  "handle_error fd h r = (case h of AcceptHandler l \<Rightarrow> r | ClientHandler b i \<Rightarrow> remove_handler fd r)"

definition handle_read :: "nat \<Rightarrow> nat \<Rightarrow> handler \<Rightarrow> answers \<Rightarrow> reactor \<Rightarrow> reactor" where
  "handle_read limit fd h a r = (case h of
       AcceptHandler l \<Rightarrow> accept_clients limit (accepts a) r
     | ClientHandler b i \<Rightarrow>
         (let (failed, k) = read_loop (reads a) (rkern r); r = r\<lparr>rkern := k\<rparr> in
          if failed then handle_error fd h r
          else modify_handler (mod_ok a) fd (EPOLLIN OR EPOLLOUT OR EPOLLET OR EPOLLRDHUP)
            (r\<lparr>handlers := (handlers r)(fd \<mapsto> ClientHandler resp 0)\<rparr>)))"

fun send_loop :: "write_answer list \<Rightarrow> nat \<Rightarrow> string \<Rightarrow> nat \<Rightarrow> kernel \<Rightarrow> bool \<times> nat \<times> kernel" where
  "send_loop ws fd buf pos k =
     (if pos < length buf then
        (case ws of
           Wrote n # ws' \<Rightarrow>
             (let w = min n (length buf - pos) in send_loop ws' fd buf (pos + w) (k_send fd (take w (drop pos buf)) k))
         | Write_error # ws' \<Rightarrow> (True, pos, k)
         | _ \<Rightarrow> (False, pos, k))
      else (False, pos, k))"

definition handle_write :: "nat \<Rightarrow> handler \<Rightarrow> answers \<Rightarrow> reactor \<Rightarrow> reactor" where
  "handle_write fd h a r = (case h of
       AcceptHandler l \<Rightarrow> r
     | ClientHandler buf pos \<Rightarrow>
         (let (failed, pos', k) = send_loop (writes a) fd buf pos (rkern r);
              r = r\<lparr>rkern := k, handlers := (handlers r)(fd \<mapsto> ClientHandler buf pos')\<rparr> in
          if failed then handle_error fd h r
          else if pos' = length buf then remove_handler fd r else r))"

definition reactor_event :: "nat \<Rightarrow> nat \<times> u32 \<times> answers \<Rightarrow> reactor \<Rightarrow> reactor" where
  "reactor_event limit e r = (case e of (fd, evs, a) \<Rightarrow>
     (case handlers r fd of
        None \<Rightarrow> r
      | Some h \<Rightarrow> last_owner fd
          (if evs AND (EPOLLRDHUP OR EPOLLHUP OR EPOLLERR) \<noteq> 0 then handle_error fd h r
           else (let r = (if evs AND EPOLLIN \<noteq> 0 then handle_read limit fd h a r else r) in
             if evs AND EPOLLOUT \<noteq> 0
             then (case handlers r fd of None \<Rightarrow> r | Some h \<Rightarrow> handle_write fd h a r)
             else r))))"

fun reactor_events :: "nat \<Rightarrow> (nat \<times> u32 \<times> answers) list \<Rightarrow> reactor \<Rightarrow> reactor" where
  "reactor_events limit [] r = r"
| "reactor_events limit (e # es) r = reactor_events limit es (reactor_event limit e r)"

definition reactor_batch :: "nat \<Rightarrow> reactor \<Rightarrow> ready \<Rightarrow> (nat \<times> u32 \<times> answers) list" where
  "reactor_batch listen_fd r rd = map (\<lambda>(src, ev, a). (case src of Listener \<Rightarrow> listen_fd | Conn fd \<Rightarrow> fd, ev, a)) (epoll_wait (rkern r) rd)"

fun reactor_run :: "nat \<Rightarrow> nat \<Rightarrow> wait list \<Rightarrow> reactor \<Rightarrow> bool \<times> reactor" where
  "reactor_run limit listen_fd [] r = (False, r)"
| "reactor_run limit listen_fd (Interrupted # ws) r = reactor_run limit listen_fd ws r"
| "reactor_run limit listen_fd (Wait_failed # ws) r = (True, r)"
| "reactor_run limit listen_fd (Ready rd # ws) r =
     reactor_run limit listen_fd ws (reactor_events limit (reactor_batch listen_fd r rd) r)"

definition accept_handler :: "nat \<Rightarrow> startup \<Rightarrow> kernel \<Rightarrow> (nat \<times> kernel) option" where
  "accept_handler limit c k =
     (if \<not> socket_ok c then None
      else do {
        (listen_fd, k) \<leftarrow> k_open limit k;
        if \<not> bind_ok c then None
        else if set_nonblocking (nonblock_ok c) < 0 then None
        else if \<not> listen_ok c then None
        else Some (listen_fd, k)
      })"

definition reactor_start :: "nat \<Rightarrow> startup \<Rightarrow> (nat \<times> nat \<times> reactor) option" where
  "reactor_start limit c =
     (if \<not> epoll_ok c then None
      else do {
        (epoll_fd, k) \<leftarrow> k_open limit boot;
        (listen_fd, k) \<leftarrow> accept_handler limit c k;
        Some (listen_fd, epoll_fd, register_handler listen_fd (AcceptHandler listen_fd) (EPOLLIN OR EPOLLET) (add_ok c)
          \<lparr>rkern = k, handlers = Map.empty\<rparr>)
      })"

text \<open>Standard output is \<^verbatim>\<open>std::cout\<close>: what is in its buffer counts as printed.\<close>

definition start_message :: string where
  "start_message = ''Reactor loop running on port 8080...'' @ [CHR 0x0A]"

text \<open>The destructors: the reactor closes its descriptor and drops the handlers, each of which closes its own.\<close>

definition reactor_main :: "nat \<Rightarrow> startup \<Rightarrow> wait list \<Rightarrow> kernel option" where
  "reactor_main limit c ws =
     (case reactor_start limit c of
        None \<Rightarrow> None
      | Some (listen_fd, epoll_fd, r) \<Rightarrow>
          (let (left_loop, r) = reactor_run limit listen_fd ws (r\<lparr>rkern := k_print start_message (rkern r)\<rparr>) in
           Some (if left_loop
             then fold k_close (filter (\<lambda>fd. handlers r fd \<noteq> None \<or> fd = listen_fd) (open_fds (rkern r))) (k_close epoll_fd (rkern r))
             else rkern r)))"

declare write_loop.simps [simp del] send_loop.simps [simp del]

subsection \<open>The two servers are the same\<close>

lemma lowest_free_notin: "lowest_free os \<notin> set os"
proof -
  let ?free = "filter (\<lambda>fd. fd \<notin> set os) [0..<Suc (length os)]"
  have "\<not> {0..<Suc (length os)} \<subseteq> set os"
  proof
    assume "{0..<Suc (length os)} \<subseteq> set os"
    then have "card {0..<Suc (length os)} \<le> card (set os)" by (intro card_mono) auto
    also have "\<dots> \<le> length os" by (rule card_length)
    finally show False by simp
  qed
  then have "?free \<noteq> []" unfolding filter_empty_conv by (metis atLeastLessThan_upt subsetI)
  then have "hd ?free \<in> set ?free" by (rule hd_in_set)
  then have "hd ?free \<notin> set os" unfolding set_filter by blast
  then show ?thesis by (simp only: lowest_free_def not_False_eq_True)
qed

lemma k_open_Some:
  assumes "k_open limit k = Some (fd, k')"
  shows "fd < limit" "fd \<notin> set (open_fds k)" "k' = k\<lparr>open_fds := fd # open_fds k, wire := (wire k)(fd := [])\<rparr>"
  using assms lowest_free_notin [of "open_fds k"] by (auto simp: k_open_def Let_def split: if_splits)

definition bounded :: "conn_state \<Rightarrow> bool" where
  "bounded st \<longleftrightarrow> length (write_buf st) = BUF_SIZE \<and> write_len st \<le> BUF_SIZE \<and> write_pos st \<le> write_len st"

text \<open>Each registered descriptor has its struct, each struct its descriptor, and nothing else is open.\<close>

definition c_inv :: "nat \<Rightarrow> c_server \<Rightarrow> bool" where
  "c_inv limit s \<longleftrightarrow>
     (\<forall>fd. interest (kern s) fd \<noteq> None \<longrightarrow>
        (\<exists>p st. event_data s fd = Some p \<and> states s p = Some st \<and> conn_fd st = fd \<and> bounded st)) \<and>
     (\<forall>p st. states s p = Some st \<longrightarrow> interest (kern s) (conn_fd st) \<noteq> None \<and> event_data s (conn_fd st) = Some p) \<and>
     set (open_fds (kern s)) = {..<5} \<union> dom (interest (kern s)) \<and>
     (\<forall>fd. interest (kern s) fd \<noteq> None \<longrightarrow> 5 \<le> fd \<and> fd < limit) \<and>
     listen_mask (kern s) = Some (EPOLLIN OR EPOLLET)"

definition conn_of :: "c_server \<Rightarrow> nat \<Rightarrow> conn_state option" where
  "conn_of s fd = (if interest (kern s) fd = None then None else load (states s) (event_data s fd))"

definition client :: "conn_state \<Rightarrow> handler" where
  "client st = ClientHandler (take (write_len st) (write_buf st)) (write_pos st)"

definition sim :: "nat \<Rightarrow> c_server \<Rightarrow> reactor \<Rightarrow> bool" where
  "sim l s r \<longleftrightarrow> l < 5 \<and> kern s = rkern r \<and>
     handlers r = (\<lambda>fd. if fd = l then Some (AcceptHandler l) else map_option client (conn_of s fd))"

text \<open>Events on other descriptors leave a registration and its pointer alone.\<close>

definition others :: "nat set \<Rightarrow> c_server \<Rightarrow> c_server \<Rightarrow> bool" where
  "others X s s' \<longleftrightarrow> (\<forall>fd. fd \<notin> X \<longrightarrow> interest (kern s) fd \<noteq> None \<longrightarrow>
     interest (kern s') fd \<noteq> None \<and> event_data s' fd = event_data s fd)"

lemma others_refl: "others X s s"
  by (simp add: others_def)

lemma others_trans: "others X s s' \<Longrightarrow> others X s' s'' \<Longrightarrow> others X s s''"
  by (simp add: others_def)

lemma c_invD:
  assumes "c_inv limit s"
  shows "interest (kern s) fd \<noteq> None \<Longrightarrow> \<exists>p st. event_data s fd = Some p \<and> states s p = Some st \<and> conn_fd st = fd \<and> bounded st"
    "states s p = Some st \<Longrightarrow> interest (kern s) (conn_fd st) \<noteq> None \<and> event_data s (conn_fd st) = Some p"
    "set (open_fds (kern s)) = {..<5} \<union> dom (interest (kern s))"
    "interest (kern s) fd \<noteq> None \<Longrightarrow> 5 \<le> fd \<and> fd < limit"
    "listen_mask (kern s) = Some (EPOLLIN OR EPOLLET)"
  using assms unfolding c_inv_def by blast+

text \<open>There is room for one more struct whenever a descriptor is free.\<close>

lemma states_room:
  assumes inv: "c_inv limit s" and fd: "k_open limit (kern s) = Some (fd, k)"
  shows "finite (dom (states s))" "card (dom (states s)) < limit"
proof -
  let ?f = "\<lambda>p. conn_fd (the (states s p))"
  note d = c_invD [OF inv]
  have m: "event_data s (?f p) = Some p" "?f p \<in> {5..<limit}" if p: "p \<in> dom (states s)" for p
  proof -
    obtain st where st: "states s p = Some st" using p by (auto simp: domIff)
    show "event_data s (?f p) = Some p" "?f p \<in> {5..<limit}" using d(2) [OF st] d(4) [of "conn_fd st"] st by auto
  qed
  have inj: "inj_on ?f (dom (states s))"
  proof (rule inj_on_inverseI)
    show "the (event_data s (?f p)) = p" if "p \<in> dom (states s)" for p unfolding m(1) [OF that] by simp
  qed
  have sub: "?f ` dom (states s) \<subseteq> {5..<limit}" using m(2) by blast
  show fin: "finite (dom (states s))" by (rule finite_imageD [OF finite_subset [OF sub] inj]) simp
  have "card (dom (states s)) = card (?f ` dom (states s))" by (rule card_image [OF inj, symmetric])
  also have "\<dots> \<le> card {5..<limit}" by (rule card_mono [OF _ sub]) simp
  finally show "card (dom (states s)) < limit" using k_open_Some(1) [OF fd] by simp
qed

lemma k_close_open: "fd \<notin> set (open_fds k) \<Longrightarrow>
    k_close fd (k\<lparr>open_fds := fd # open_fds k, wire := w\<rparr>) =
      k\<lparr>open_fds := open_fds k, interest := (interest k)(fd := None), wire := w, closed_wires := closed_wires k @ [(fd, w fd)]\<rparr>"
  by (simp add: k_close_def removeAll_id)

text \<open>A descriptor that is opened and closed again.\<close>

lemma open_close:
  assumes inv: "c_inv limit s" and o: "k_open limit (kern s) = Some (fd, k)"
    and s': "s' = s\<lparr>kern := k_close fd k\<rparr>"
  shows "c_inv limit s'" "others {} s s'" "conn_of s' = conn_of s"
proof -
  note k = k_open_Some [OF o] and d = c_invD [OF inv]
  have i: "interest (kern s) fd = None" using k(2) d(3) by auto
  then have n: "(interest (kern s))(fd := None) = interest (kern s)" by auto
  have e: "interest (kern s') = interest (kern s)" "open_fds (kern s') = open_fds (kern s)" "listen_mask (kern s') = listen_mask (kern s)"
    "states s' = states s" "event_data s' = event_data s"
    unfolding s' k(3) k_close_open [OF k(2)] by (simp_all add: n)
  show "c_inv limit s'" using inv unfolding c_inv_def e .
  show "others {} s s'" unfolding others_def e by simp
  show "conn_of s' = conn_of s" unfolding conn_of_def e ..
qed

lemma bounded_new: "bounded (new_conn fd)" "client (new_conn fd) = ClientHandler [] 0" "conn_fd (new_conn fd) = fd"
  by (simp_all add: bounded_def new_conn_def client_def)

text \<open>A new connection.\<close>

lemma open_add:
  assumes inv: "c_inv limit s" and o: "k_open limit (kern s) = Some (fd, k)" and p: "states s p = None"
    and s': "s' = s\<lparr>kern := ctl_add fd m k, states := (states s)(p \<mapsto> new_conn fd), event_data := (event_data s)(fd := Some p)\<rparr>"
  shows "c_inv limit s'" "others {} s s'" "conn_of s' = (conn_of s)(fd \<mapsto> new_conn fd)"
proof -
  note k = k_open_Some [OF o] and d = c_invD [OF inv]
  have i: "interest (kern s) fd = None" "5 \<le> fd" using k(2) d(3) by auto
  have e: "interest (kern s') = (interest (kern s))(fd \<mapsto> m)" "open_fds (kern s') = fd # open_fds (kern s)"
    "listen_mask (kern s') = listen_mask (kern s)" "states s' = (states s)(p \<mapsto> new_conn fd)"
    "event_data s' = (event_data s)(fd := Some p)"
    unfolding s' k(3) ctl_add_def by simp_all
  have old: "\<exists>q st. event_data s x = Some q \<and> states s q = Some st \<and> q \<noteq> p \<and> conn_fd st = x \<and> bounded st"
    if "interest (kern s) x \<noteq> None" for x using d(1) [OF that] p by fastforce
  have "interest (kern s') x \<noteq> None \<longrightarrow> (\<exists>q st. event_data s' x = Some q \<and> states s' q = Some st \<and> conn_fd st = x \<and> bounded st)" for x
    using old [of x] bounded_new [of fd] by (cases "x = fd") (auto simp: e)
  moreover have "states s' q = Some st \<longrightarrow> interest (kern s') (conn_fd st) \<noteq> None \<and> event_data s' (conn_fd st) = Some q" for q st
    using d(2) [of q st] bounded_new [of fd] i(1) by (cases "q = p") (auto simp: e)
  moreover have "set (open_fds (kern s')) = {..<5} \<union> dom (interest (kern s'))" using d(3) by (auto simp: e)
  moreover have "interest (kern s') x \<noteq> None \<longrightarrow> 5 \<le> x \<and> x < limit" for x
    using d(4) [of x] i(2) k(1) by (cases "x = fd") (auto simp: e)
  ultimately show "c_inv limit s'" using d(5) unfolding c_inv_def e(3) by blast
  show "others {} s s'" using i(1) unfolding others_def e by auto
  show "conn_of s' = (conn_of s)(fd \<mapsto> new_conn fd)"
  proof
    fix x show "conn_of s' x = ((conn_of s)(fd \<mapsto> new_conn fd)) x"
      using old [of x] p by (cases "x = fd") (auto simp: conn_of_def e heap_simps)
  qed
qed

lemma accept_sim:
  assumes alloc: "malloc_serves alloc limit" and "c_inv limit s" "sim l s r"
  shows "\<exists>s'. accept_loop alloc limit as s = Some s' \<and> c_inv limit s' \<and> sim l s' (accept_clients limit as r) \<and> others {} s s'"
  using assms(2,3)
proof (induction as arbitrary: s r)
  case (Cons a as)
  note inv = Cons.prems(1) and sim = Cons.prems(2)
  have K: "rkern r = kern s" and l: "l < 5"
    and H: "handlers r = (\<lambda>fd. if fd = l then Some (AcceptHandler l) else map_option client (conn_of s fd))"
    using sim by (auto simp: sim_def)
  show ?case
  proof (cases a)
    case (Accepted nb added)
    show ?thesis
    proof (cases "k_open limit (kern s)")
      case None
      then show ?thesis using Accepted inv sim K by (simp add: others_refl)
    next
      case (Some x)
      then obtain fd k where o: "k_open limit (kern s) = Some (fd, k)" by (cases x) auto
      note k = k_open_Some [OF o]
      have i: "conn_of s fd = None" "fd \<noteq> l" using k(2) c_invD(3) [OF inv] l by (auto simp: conn_of_def)
      let ?c = "s\<lparr>kern := k_close fd k\<rparr>"
      note c = open_close [OF inv o refl]
      show ?thesis
      proof (cases "set_nonblocking nb < 0")
        case True
        have "sim l ?c (r\<lparr>rkern := k_close fd k\<rparr>)" using c(3) H l by (simp add: sim_def cong: if_cong)
        from Cons.IH [OF c(1) this] show ?thesis using Accepted o K True c(2) others_trans [of "{}" s ?c] by auto
      next
        case False
        obtain p junk where p: "alloc (states s) = Some (p, junk)" "states s p = None"
          using malloc_servesD [OF alloc states_room [OF inv o]] .
        show ?thesis
        proof (cases added)
          case True
          let ?s = "s\<lparr>kern := ctl_add fd (EPOLLIN OR EPOLLET OR EPOLLRDHUP) k, states := (states s)(p \<mapsto> new_conn fd),
            event_data := (event_data s)(fd := Some p)\<rparr>"
          let ?r = "last_owner fd (register_handler fd (ClientHandler [] 0) (EPOLLIN OR EPOLLET OR EPOLLRDHUP) True (r\<lparr>rkern := k\<rparr>))"
          note n = open_add [OF inv o p(2) refl, of "EPOLLIN OR EPOLLET OR EPOLLRDHUP"]
          have "sim l ?s ?r" using n(3) H l i bounded_new(2) by (auto simp: sim_def last_owner_def register_handler_def)
          from Cons.IH [OF n(1) this] show ?thesis
            using Accepted o K False True p n(2) others_trans [of "{}" s ?s] by auto
        next
          case nadd: False
          let ?r = "last_owner fd (register_handler fd (ClientHandler [] 0) (EPOLLIN OR EPOLLET OR EPOLLRDHUP) False (r\<lparr>rkern := k\<rparr>))"
          have h: "(states s)(p := None) = states s" using p(2) by auto
          have "sim l ?c ?r" using c(3) H l i by (auto simp: sim_def last_owner_def register_handler_def fun_eq_iff)
          from Cons.IH [OF c(1) this] show ?thesis
            using Accepted o K False nadd p c(2) others_trans [of "{}" s ?c] by (auto simp: heap_simps h)
        qed
      qed
    qed
  qed (use inv sim in \<open>simp_all add: others_refl\<close>)
qed (simp add: others_refl)

text \<open>Changing the state of one connection, and closing it.\<close>

lemma conn_update:
  assumes inv: "c_inv limit s" and sim: "sim l s r" and st: "states s p = Some st" and st': "bounded st'" "conn_fd st' = conn_fd st"
    and k: "open_fds k = open_fds (kern s)" "listen_mask k = listen_mask (kern s)" "\<And>x. interest k x = None \<longleftrightarrow> interest (kern s) x = None"
    and s': "s' = s\<lparr>kern := k, states := (states s)(p \<mapsto> st')\<rparr>"
  shows "c_inv limit s'" "others {} s s'" "sim l s' (r\<lparr>rkern := k, handlers := (handlers r)(conn_fd st \<mapsto> client st')\<rparr>)"
proof -
  note d = c_invD [OF inv]
  have dom: "dom (interest k) = dom (interest (kern s))" unfolding dom_def k(3) ..
  have "interest k x \<noteq> None \<longrightarrow>
      (\<exists>q t. event_data s x = Some q \<and> ((states s)(p \<mapsto> st')) q = Some t \<and> conn_fd t = x \<and> bounded t)" for x
    using d(1) [of x] st st' unfolding k(3) by fastforce
  moreover have "((states s)(p \<mapsto> st')) q = Some t \<longrightarrow> interest k (conn_fd t) \<noteq> None \<and> event_data s (conn_fd t) = Some q" for q t
    using d(2) [of q t] d(2) [OF st] st' unfolding k(3) by auto
  ultimately show "c_inv limit s'"
    using d(3,4,5) unfolding c_inv_def s' by (simp add: k(1,2) dom k(3) del: not_None_eq)
  show "others {} s s'" unfolding others_def s' by (simp add: k(3) del: not_None_eq)
  have "conn_of s' x = ((conn_of s)(conn_fd st \<mapsto> st')) x" for x
    using d(1) [of x] d(2) [OF st] st by (cases "x = conn_fd st") (auto simp: conn_of_def s' k(3) heap_simps)
  then have c: "conn_of s' = (conn_of s)(conn_fd st \<mapsto> st')" ..
  have "conn_fd st \<noteq> l" using d(2) [OF st] d(4) [of "conn_fd st"] sim by (auto simp: sim_def)
  then show "sim l s' (r\<lparr>rkern := k, handlers := (handlers r)(conn_fd st \<mapsto> client st')\<rparr>)"
    using sim c by (auto simp: sim_def s')
qed

lemma conn_close:
  assumes inv: "c_inv limit s" and sim: "sim l s r" and st: "states s p = Some st"
  shows "\<exists>s'. close_conn (Some p) s = Some s' \<and> c_inv limit s' \<and> others {conn_fd st} s s' \<and>
    sim l s' (last_owner (conn_fd st) (remove_handler (conn_fd st) r))"
proof -
  note d = c_invD [OF inv]
  let ?fd = "conn_fd st"
  let ?k = "k_close ?fd (ctl_del ?fd (kern s))"
  let ?s = "s\<lparr>kern := ?k, states := (states s)(p := None)\<rparr>"
  have e: "close_conn (Some p) s = Some ?s" using st by (simp add: close_conn_def heap_simps)
  have "interest (kern s) ?fd \<noteq> None" "event_data s ?fd = Some p" using d(2) [OF st] by auto
  then have o: "?fd \<in> set (open_fds (kern s))" and five: "5 \<le> ?fd" using d(3,4) by (auto simp: domIff)
  have k: "interest ?k = (interest (kern s))(?fd := None)" "open_fds ?k = removeAll ?fd (open_fds (kern s))"
    "listen_mask ?k = listen_mask (kern s)"
    using o by (simp_all add: k_close_def ctl_del_def)
  have other: "q \<noteq> p" if "event_data s x = Some q" "states s q = Some t" "conn_fd t = x" "x \<noteq> ?fd" for x q t
    using that st by auto
  have "interest ?k x \<noteq> None \<longrightarrow>
      (\<exists>q t. event_data s x = Some q \<and> ((states s)(p := None)) q = Some t \<and> conn_fd t = x \<and> bounded t)" for x
  proof
    assume "interest ?k x \<noteq> None"
    then have x: "x \<noteq> ?fd" "interest (kern s) x \<noteq> None" unfolding k by (auto split: if_splits)
    obtain q t where q: "event_data s x = Some q" "states s q = Some t" "conn_fd t = x" "bounded t" using d(1) [OF x(2)] by blast
    then show "\<exists>q t. event_data s x = Some q \<and> ((states s)(p := None)) q = Some t \<and> conn_fd t = x \<and> bounded t"
      using other [OF q(1-3) x(1)] by auto
  qed
  moreover have "((states s)(p := None)) q = Some t \<longrightarrow> interest ?k (conn_fd t) \<noteq> None \<and> event_data s (conn_fd t) = Some q" for q t
  proof
    assume "((states s)(p := None)) q = Some t"
    then have q: "q \<noteq> p" "states s q = Some t" by (auto split: if_splits)
    then have "conn_fd t \<noteq> ?fd" using d(2) [OF q(2)] d(2) [OF st] by auto
    then show "interest ?k (conn_fd t) \<noteq> None \<and> event_data s (conn_fd t) = Some q" using d(2) [OF q(2)] unfolding k by simp
  qed
  moreover have "set (open_fds ?k) = {..<5} \<union> dom (interest ?k)" unfolding k using d(3) five by auto
  moreover have "interest ?k x \<noteq> None \<longrightarrow> 5 \<le> x \<and> x < limit" for x using d(4) [of x] unfolding k by auto
  ultimately have "c_inv limit ?s" using d(5) k(3) unfolding c_inv_def by simp
  moreover have "others {?fd} s ?s" unfolding others_def by (simp add: k)
  moreover have "sim l ?s (last_owner ?fd (remove_handler ?fd r))"
  proof -
    have "conn_of ?s x = ((conn_of s)(?fd := None)) x" for x
      using d(1) [of x] other [of x] by (auto simp: conn_of_def k heap_simps)
    then have "conn_of ?s = (conn_of s)(?fd := None)" ..
    moreover have "?fd \<noteq> l" using five sim by (simp add: sim_def)
    ultimately show ?thesis using sim by (auto simp: sim_def last_owner_def remove_handler_def)
  qed
  ultimately show ?thesis using e by blast
qed

lemma read_loop_kernel: "read_loop rs k = (b, k') \<Longrightarrow> k' = k\<lparr>console := console k'\<rparr>"
proof (induction rs k rule: read_loop.induct)
  case (1 d rs k)
  then show ?case by (cases "d = []") (auto simp: k_print_def)
qed auto

text \<open>The two loops that write do the same.\<close>

lemma write_loop_sim:
  assumes "bounded st"
  shows "\<exists>err pos k'. send_loop ws (conn_fd st) (take (write_len st) (write_buf st)) (write_pos st) k = (err, pos, k') \<and>
    write_loop ws st k = Some (err, st\<lparr>write_pos := pos\<rparr>, k') \<and> write_pos st \<le> pos \<and> pos \<le> write_len st \<and> k' = k\<lparr>wire := wire k'\<rparr>"
  using assms
proof (induction ws arbitrary: st k)
  case Nil
  then show ?case by (subst send_loop.simps, subst write_loop.simps) (auto simp: bounded_def)
next
  case (Cons w ws)
  have len: "length (take (write_len st) (write_buf st)) = write_len st" using Cons.prems by (simp add: bounded_def)
  show ?case
  proof (cases "write_pos st < write_len st")
    case False
    then show ?thesis using len Cons.prems by (subst send_loop.simps, subst write_loop.simps) (auto simp: bounded_def)
  next
    case True
    show ?thesis
    proof (cases w)
      case (Wrote n)
      let ?n = "min n (write_len st - write_pos st)"
      let ?st = "st\<lparr>write_pos := write_pos st + ?n\<rparr>"
      let ?k = "k_send (conn_fd st) (take ?n (drop (write_pos st) (write_buf st))) k"
      have b: "bounded ?st" using Cons.prems True by (auto simp: bounded_def)
      have chunk: "take ?n (drop (write_pos st) (take (write_len st) (write_buf st))) = take ?n (drop (write_pos st) (write_buf st))"
        by (simp add: drop_take take_take min.commute min.left_commute)
      obtain err pos k' where I: "send_loop ws (conn_fd st) (take (write_len st) (write_buf st)) (write_pos st + ?n) ?k = (err, pos, k')"
        "write_loop ws ?st ?k = Some (err, ?st\<lparr>write_pos := pos\<rparr>, k')" "write_pos st + ?n \<le> pos" "pos \<le> write_len st" "k' = ?k\<lparr>wire := wire k'\<rparr>"
        using Cons.IH [OF b, of ?k] by auto
      have "send_loop (w # ws) (conn_fd st) (take (write_len st) (write_buf st)) (write_pos st) k = (err, pos, k')"
        using I(1) True by (subst send_loop.simps) (simp add: len Wrote Let_def chunk del: length_take)
      moreover have "write_loop (w # ws) st k = Some (err, st\<lparr>write_pos := pos\<rparr>, k')"
        using I(2) True Cons.prems by (subst write_loop.simps) (simp add: Wrote Let_def bounded_def)
      moreover have "k' = k\<lparr>wire := wire k'\<rparr>" using I(5) by (simp add: k_send_def)
      ultimately show ?thesis using I(3,4) by fastforce
    next
      case Write_again
      then show ?thesis using True len Cons.prems by (subst send_loop.simps, subst write_loop.simps) (auto simp: bounded_def)
    next
      case Write_error
      then show ?thesis using True len Cons.prems by (subst send_loop.simps, subst write_loop.simps) (auto simp: bounded_def)
    qed
  qed
qed

text \<open>An event of a connection, then any event.\<close>

lemma resp_fits: "length resp \<le> BUF_SIZE"
  by (simp add: resp_def crlf_def BUF_SIZE_def)

lemma sim_client:
  assumes inv: "c_inv limit s" and sim: "sim l s r" and st: "states s p = Some st"
  shows "handlers r (conn_fd st) = Some (client st)" "interest (kern s) (conn_fd st) \<noteq> None" "event_data s (conn_fd st) = Some p" "bounded st"
    "rkern r = kern s"
proof -
  note d = c_invD [OF inv]
  show i: "interest (kern s) (conn_fd st) \<noteq> None" "event_data s (conn_fd st) = Some p" using d(2) [OF st] by auto
  then show "bounded st" using d(1) [OF i(1)] st by auto
  have "conn_fd st \<noteq> l" using d(4) [OF i(1)] sim by (auto simp: sim_def)
  then show "handlers r (conn_fd st) = Some (client st)" using sim i st by (auto simp: sim_def conn_of_def heap_simps)
  show "rkern r = kern s" using sim by (simp add: sim_def)
qed

lemma reactor_same: "r\<lparr>rkern := k, handlers := (handlers r)(fd \<mapsto> h)\<rparr> = r\<lparr>rkern := k\<rparr>" if "handlers r fd = Some h"
proof -
  have "(handlers r)(fd \<mapsto> h) = handlers r" using that by auto
  then show ?thesis by simp
qed

lemma read_sim:
  assumes inv: "c_inv limit s" and sim: "sim l s r" and st: "states s p = Some st"
  shows "\<exists>closed s'. read_event (Some p) a s = Some (closed, s') \<and> c_inv limit s' \<and> others {conn_fd st} s s' \<and>
    (if closed then handlers (handle_read limit (conn_fd st) (client st) a r) (conn_fd st) = None \<and>
        sim l s' (last_owner (conn_fd st) (handle_read limit (conn_fd st) (client st) a r))
     else (\<exists>st'. states s' p = Some st' \<and> conn_fd st' = conn_fd st) \<and> sim l s' (handle_read limit (conn_fd st) (client st) a r))"
proof -
  note c = sim_client [OF inv sim st]
  obtain closed k where loop: "read_loop (reads a) (kern s) = (closed, k)" by (cases "read_loop (reads a) (kern s)") auto
  note k = read_loop_kernel [OF loop]
  have kk: "open_fds k = open_fds (kern s)" "listen_mask k = listen_mask (kern s)" "interest k = interest (kern s)"
    by (subst k, simp)+
  have same: "(states s)(p \<mapsto> st) = states s" using st by auto
  show ?thesis
  proof (cases closed)
    case True
    let ?s = "s\<lparr>kern := k, states := (states s)(p \<mapsto> st)\<rparr>" and ?r = "r\<lparr>rkern := k, handlers := (handlers r)(conn_fd st \<mapsto> client st)\<rparr>"
    have u: "c_inv limit ?s" "others {} s ?s" "sim l ?s ?r"
      using conn_update [OF inv sim st c(4) refl kk(1,2) _ refl] unfolding kk by simp_all
    obtain s' where s': "close_conn (Some p) ?s = Some s'" "c_inv limit s'" "others {conn_fd st} ?s s'"
      "sim l s' (last_owner (conn_fd st) (remove_handler (conn_fd st) ?r))"
      using conn_close [OF u(1,3), of p st] by auto
    have "read_event (Some p) a s = Some (True, s')"
      using s'(1) True loop st same by (simp add: read_event_def heap_simps)
    moreover have "handle_read limit (conn_fd st) (client st) a r = remove_handler (conn_fd st) ?r"
      using loop True c(5) unfolding reactor_same [OF c(1)] by (simp add: handle_read_def client_def handle_error_def)
    moreover have "others {conn_fd st} s s'" using u(2) s'(3) unfolding others_def by simp
    ultimately show ?thesis using s'(2,4) by (intro exI [of _ True] exI [of _ s']) (simp add: remove_handler_def)
  next
    case False
    let ?st = "st\<lparr>write_buf := resp @ drop (length resp) (write_buf st), write_len := length resp, write_pos := 0\<rparr>"
    let ?k = "ctl_mod (mod_ok a) (conn_fd st) (EPOLLIN OR EPOLLOUT OR EPOLLET OR EPOLLRDHUP) k"
    let ?s = "s\<lparr>kern := ?k, states := (states s)(p \<mapsto> ?st)\<rparr>"
    have b: "bounded ?st" using c(4) resp_fits by (simp add: bounded_def)
    have cl: "client ?st = ClientHandler resp 0" by (simp add: client_def)
    have kk': "open_fds ?k = open_fds (kern s)" "listen_mask ?k = listen_mask (kern s)"
      "interest ?k x = None \<longleftrightarrow> interest (kern s) x = None" for x
      using kk by (auto simp: ctl_mod_def)
    note u = conn_update [OF inv sim st b _ kk' refl, simplified]
    have "read_event (Some p) a s = Some (False, ?s)"
      using False loop st c(4) resp_fits by (simp add: read_event_def heap_simps bounded_def)
    moreover have "handle_read limit (conn_fd st) (client st) a r = r\<lparr>rkern := ?k, handlers := (handlers r)(conn_fd st \<mapsto> client ?st)\<rparr>"
      using loop False c(5) unfolding cl by (simp add: handle_read_def client_def modify_handler_def)
    moreover have "others {conn_fd st} s ?s" using u(2) unfolding others_def by simp
    ultimately show ?thesis using u by (intro exI [of _ False] exI [of _ ?s]) simp
  qed
qed

lemma write_sim:
  assumes inv: "c_inv limit s" and sim: "sim l s r" and st: "states s p = Some st"
  shows "\<exists>s'. write_event (Some p) a s = Some s' \<and> c_inv limit s' \<and> others {conn_fd st} s s' \<and>
    sim l s' (last_owner (conn_fd st) (handle_write (conn_fd st) (client st) a r))"
proof -
  note c = sim_client [OF inv sim st]
  obtain err pos k where w: "send_loop (writes a) (conn_fd st) (take (write_len st) (write_buf st)) (write_pos st) (kern s) = (err, pos, k)"
    "write_loop (writes a) st (kern s) = Some (err, st\<lparr>write_pos := pos\<rparr>, k)" "write_pos st \<le> pos" "pos \<le> write_len st"
    "k = (kern s)\<lparr>wire := wire k\<rparr>"
    using write_loop_sim [OF c(4), of "writes a" "kern s"] by (elim exE conjE) (rule that)
  let ?st = "st\<lparr>write_pos := pos\<rparr>"
  let ?s = "s\<lparr>kern := k, states := (states s)(p \<mapsto> ?st)\<rparr>" and ?r = "r\<lparr>rkern := k, handlers := (handlers r)(conn_fd st \<mapsto> client ?st)\<rparr>"
  have b: "bounded ?st" using c(4) w(4) by (simp add: bounded_def)
  have kk: "open_fds k = open_fds (kern s)" "listen_mask k = listen_mask (kern s)" "interest k = interest (kern s)"
    by (subst w(5), simp)+
  have u: "c_inv limit ?s" "others {} s ?s" "sim l ?s ?r"
    using conn_update [OF inv sim st b _ kk(1,2) _ refl] unfolding kk by simp_all
  have len: "length (take (write_len st) (write_buf st)) = write_len st" using c(4) by (simp add: bounded_def)
  have hw: "handle_write (conn_fd st) (client st) a r = (if err \<or> pos = write_len st then remove_handler (conn_fd st) ?r else ?r)"
    using w(1) c(5) len by (simp add: handle_write_def client_def handle_error_def Let_def min_absorb2)
  have we: "write_event (Some p) a s = (if err \<or> pos = write_len st then close_conn (Some p) ?s else Some ?s)"
    using w(2) st by (simp add: write_event_def heap_simps Let_def)
  show ?thesis
  proof (cases "err \<or> pos = write_len st")
    case True
    obtain s' where s': "close_conn (Some p) ?s = Some s'" "c_inv limit s'" "others {conn_fd st} ?s s'"
      "sim l s' (last_owner (conn_fd st) (remove_handler (conn_fd st) ?r))"
      using conn_close [OF u(1,3), of p ?st, simplified] by blast
    moreover have "others {conn_fd st} s s'" using u(2) s'(3) unfolding others_def by simp
    ultimately show ?thesis using hw we True by simp
  next
    case False
    have "last_owner (conn_fd st) ?r = ?r" by (simp add: last_owner_def)
    moreover have "others {conn_fd st} s ?s" using u(2) unfolding others_def by simp
    ultimately show ?thesis using hw we False u by simp
  qed
qed

lemma last_owner_kept: "handlers r fd \<noteq> None \<Longrightarrow> last_owner fd r = r"
  by (auto simp: last_owner_def)

lemma conn_event_sim:
  assumes inv: "c_inv limit s" and sim: "sim l s r" and fd: "interest (kern s) fd \<noteq> None" "event_data s fd = p"
  shows "\<exists>s'. c_event alloc limit (p, evs, a) s = Some s' \<and> c_inv limit s' \<and> others {fd} s s' \<and>
    sim l s' (reactor_event limit (fd, evs, a) r)"
proof -
  obtain q st where q: "p = Some q" "states s q = Some st" "conn_fd st = fd"
    using c_invD(1) [OF inv fd(1)] fd(2) by auto
  note c = sim_client [OF inv sim q(2), unfolded q(3)]
  let ?bad = "evs AND (EPOLLRDHUP OR EPOLLHUP OR EPOLLERR) \<noteq> 0"
  show ?thesis
  proof (cases ?bad)
    case True
    then have "c_event alloc limit (p, evs, a) s = close_conn (Some q) s"
      "reactor_event limit (fd, evs, a) r = last_owner fd (remove_handler fd r)"
      using q(1) c(1) by (simp_all add: c_event_def reactor_event_def handle_error_def client_def)
    then show ?thesis using conn_close [OF inv sim q(2), unfolded q(3)] by simp
  next
    case False
    let ?r = "if evs AND EPOLLIN \<noteq> 0 then handle_read limit fd (client st) a r else r"
    have re: "reactor_event limit (fd, evs, a) r = last_owner fd (if evs AND EPOLLOUT \<noteq> 0
        then (case handlers ?r fd of None \<Rightarrow> ?r | Some h \<Rightarrow> handle_write fd h a ?r) else ?r)"
      using False c(1) by (simp add: reactor_event_def Let_def)
    have "\<exists>closed s1. (if evs AND EPOLLIN \<noteq> 0 then read_event p a s else Some (False, s)) = Some (closed, s1) \<and>
        c_inv limit s1 \<and> others {fd} s s1 \<and>
        (if closed then handlers ?r fd = None \<and> sim l s1 (last_owner fd ?r)
         else (\<exists>st'. states s1 q = Some st' \<and> conn_fd st' = fd) \<and> sim l s1 ?r)"
    proof (cases "evs AND EPOLLIN \<noteq> 0")
      case True
      then show ?thesis using read_sim [OF inv sim q(2), of a, unfolded q(3)] q(1) by (simp only: if_True not_False_eq_True)
    next
      case False
      then show ?thesis using inv sim q others_refl by (intro exI [of _ False] exI [of _ s]) simp
    qed
    then obtain closed s1 where s1: "(if evs AND EPOLLIN \<noteq> 0 then read_event p a s else Some (False, s)) = Some (closed, s1)"
      "c_inv limit s1" "others {fd} s s1"
      and r: "if closed then handlers ?r fd = None \<and> sim l s1 (last_owner fd ?r)
         else (\<exists>st'. states s1 q = Some st' \<and> conn_fd st' = fd) \<and> sim l s1 ?r" by (elim exE conjE) (rule that)
    have ce: "c_event alloc limit (p, evs, a) s = (if closed then Some s1 else if evs AND EPOLLOUT \<noteq> 0 then write_event p a s1 else Some s1)"
      unfolding c_event_def prod.case using False q(1) s1(1) by (simp del: bind_split)
    show ?thesis
    proof (cases closed)
      case True
      then have n: "handlers ?r fd = None" and sim1: "sim l s1 (last_owner fd ?r)" using r by (simp_all only: if_True)
      have "reactor_event limit (fd, evs, a) r = last_owner fd ?r" unfolding re n option.case if_cancel ..
      then show ?thesis using True ce s1(2,3) sim1 by (intro exI [of _ s1]) (simp only: if_True)
    next
      case open_: False
      obtain st' where st': "states s1 q = Some st'" "conn_fd st' = fd" and sim1: "sim l s1 ?r" using r open_ by auto
      note h = sim_client(1) [OF s1(2) sim1 st'(1), unfolded st'(2)]
      show ?thesis
      proof (cases "evs AND EPOLLOUT \<noteq> 0")
        case True
        then have re': "reactor_event limit (fd, evs, a) r = last_owner fd (handle_write fd (client st') a ?r)"
          unfolding re h option.case by (simp only: if_True not_False_eq_True)
        obtain s2 where s2: "write_event (Some q) a s1 = Some s2" "c_inv limit s2" "others {fd} s1 s2"
          "sim l s2 (last_owner fd (handle_write fd (client st') a ?r))"
          using write_sim [OF s1(2) sim1 st'(1), of a, unfolded st'(2)] by blast
        have "others {fd} s s2" by (rule others_trans [OF s1(3) s2(3)])
        moreover have "c_event alloc limit (p, evs, a) s = Some s2" using ce open_ True s2(1) q(1) by simp
        ultimately show ?thesis using s2(2,4) unfolding re' by blast
      next
        case False
        then have "reactor_event limit (fd, evs, a) r = ?r"
          unfolding re by (subst last_owner_kept) (simp_all only: if_False h option.distinct not_False_eq_True)
        then show ?thesis using ce open_ False s1(2,3) sim1 by (intro exI [of _ s1]) simp
      qed
    qed
  qed
qed

text \<open>An event of the listening descriptor has to say that there is something to accept, and nothing else.\<close>

definition listener_ok :: "wait list \<Rightarrow> bool" where
  "listener_ok ws \<longleftrightarrow> (\<forall>r a ev. Ready r \<in> set ws \<longrightarrow> (Listener, ev, a) \<in> set r \<longrightarrow> ev = EPOLLIN)"

lemma listener_event_sim:
  assumes alloc: "malloc_serves alloc limit" and inv: "c_inv limit s" and sim: "sim l s r" and ev: "evs = EPOLLIN"
  shows "\<exists>s'. c_event alloc limit (None, evs, a) s = Some s' \<and> c_inv limit s' \<and> others {} s s' \<and>
    sim l s' (reactor_event limit (l, evs, a) r)"
proof -
  have h: "handlers r l = Some (AcceptHandler l)" using sim by (simp add: sim_def)
  obtain s' where s': "accept_loop alloc limit (accepts a) s = Some s'" "c_inv limit s'" "sim l s' (accept_clients limit (accepts a) r)" "others {} s s'"
    using accept_sim [OF alloc inv sim] by blast
  have "handlers (accept_clients limit (accepts a) r) l = Some (AcceptHandler l)" using s'(3) by (simp add: sim_def)
  then have "last_owner l (accept_clients limit (accepts a) r) = accept_clients limit (accepts a) r"
    by (intro last_owner_kept) simp
  then have "reactor_event limit (l, evs, a) r = accept_clients limit (accepts a) r"
    unfolding ev by (simp add: reactor_event_def h handle_read_def EPOLLRDHUP_def EPOLLHUP_def EPOLLERR_def EPOLLIN_def EPOLLOUT_def)
  then show ?thesis using s' by (simp add: c_event_def)
qed

text \<open>A batch: what is still to be handled is registered, with the pointer that was reported.\<close>

definition pending :: "c_server \<Rightarrow> (source \<times> u32 \<times> answers) list \<Rightarrow> bool" where
  "pending s es \<longleftrightarrow> distinct (map fst es) \<and>
     (\<forall>(src, ev, a)\<in>set es. case src of Listener \<Rightarrow> ev = EPOLLIN | Conn fd \<Rightarrow> interest (kern s) fd \<noteq> None)"

definition c_entry :: "c_server \<Rightarrow> source \<times> u32 \<times> answers \<Rightarrow> ptr \<times> u32 \<times> answers" where
  "c_entry s = (\<lambda>(src, ev, a). (case src of Listener \<Rightarrow> None | Conn fd \<Rightarrow> event_data s fd, ev, a))"

definition r_entry :: "nat \<Rightarrow> source \<times> u32 \<times> answers \<Rightarrow> nat \<times> u32 \<times> answers" where
  "r_entry l = (\<lambda>(src, ev, a). (case src of Listener \<Rightarrow> l | Conn fd \<Rightarrow> fd, ev, a))"

lemma pending_others:
  assumes o: "others X s s'" and p: "pending s es" and x: "\<forall>fd\<in>X. Conn fd \<notin> fst ` set es"
  shows "pending s' es" "map (c_entry s') es = map (c_entry s) es"
proof -
  have k: "interest (kern s') fd \<noteq> None \<and> event_data s' fd = event_data s fd" if "(Conn fd, ev, a) \<in> set es" for fd ev a
  proof -
    have "fd \<notin> X" using x that by force
    moreover have "interest (kern s) fd \<noteq> None" using p that by (fastforce simp: pending_def)
    ultimately show ?thesis using o by (simp add: others_def)
  qed
  show "map (c_entry s') es = map (c_entry s) es"
    using k by (auto simp: c_entry_def split: source.splits)
  show "pending s' es"
    using p k unfolding pending_def by (fastforce split: source.splits)
qed

lemma events_sim:
  assumes alloc: "malloc_serves alloc limit" and "c_inv limit s" "sim l s r" "pending s es"
  shows "\<exists>s'. c_events alloc limit (map (c_entry s) es) s = Some s' \<and> c_inv limit s' \<and>
    sim l s' (reactor_events limit (map (r_entry l) es) r)"
  using assms(2-)
proof (induction es arbitrary: s r)
  case (Cons e es)
  obtain src ev a where e: "e = (src, ev, a)" by (cases e)
  note p = Cons.prems(3)
  have p': "pending s es" using p by (simp add: pending_def)
  define X where "X = (case src of Listener \<Rightarrow> {} | Conn fd \<Rightarrow> {fd})"
  have "\<exists>s'. c_event alloc limit (c_entry s e) s = Some s' \<and> c_inv limit s' \<and> others X s s' \<and>
      sim l s' (reactor_event limit (r_entry l e) r)"
  proof (cases src)
    case Listener
    then have "ev = EPOLLIN" using p e by (simp add: pending_def)
    from listener_event_sim [OF alloc Cons.prems(1,2) this] show ?thesis
      using Listener by (simp add: e c_entry_def r_entry_def X_def)
  next
    case (Conn fd)
    then have "interest (kern s) fd \<noteq> None" using p e by (simp add: pending_def)
    from conn_event_sim [OF Cons.prems(1,2) this refl] show ?thesis
      using Conn by (simp add: e c_entry_def r_entry_def X_def)
  qed
  then obtain s' where s': "c_event alloc limit (c_entry s e) s = Some s'" "c_inv limit s'" "others X s s'"
    "sim l s' (reactor_event limit (r_entry l e) r)" by blast
  have "\<forall>fd\<in>X. Conn fd \<notin> fst ` set es"
    using p e by (auto simp: pending_def X_def split: source.splits)
  note q = pending_others [OF s'(3) p' this]
  from Cons.IH [OF s'(2,4) q(1)] show ?case using s'(1) unfolding q(2) by simp
qed simp

lemma reported_pending:
  "x \<in> set (reported k seen r) \<Longrightarrow> \<exists>m ev. source_mask k (fst x) = Some m \<and> (fst x, ev, snd (snd x)) \<in> set r \<and>
     fst x \<notin> set seen \<and> fst (snd x) = ev AND (m OR EPOLLERR OR EPOLLHUP)"
  by (induction k seen r rule: reported.induct) (fastforce split: option.splits if_splits)+

lemma reported_distinct: "distinct (map fst (reported k seen r))"
proof (induction k seen r rule: reported.induct)
  case (2 k seen src ev a r)
  then show ?case using reported_pending [of _ k "src # seen" r] by (auto split: option.splits) force
qed simp

lemma epoll_wait_pending:
  assumes inv: "c_inv limit s" and ok: "\<And>ev a. (Listener, ev, a) \<in> set r \<Longrightarrow> ev = EPOLLIN"
  shows "pending s (epoll_wait (kern s) r)"
proof -
  have "distinct (map fst (epoll_wait (kern s) r))"
    using reported_distinct [of "kern s" "[]" r] by (simp add: epoll_wait_def take_map [symmetric])
  moreover have "case src of Listener \<Rightarrow> ev = EPOLLIN | Conn fd \<Rightarrow> interest (kern s) fd \<noteq> None"
    if x: "(src, ev, a) \<in> set (epoll_wait (kern s) r)" for src ev a
  proof -
    obtain m ev' where m: "source_mask (kern s) src = Some m" "(src, ev', a) \<in> set r" "ev = ev' AND (m OR EPOLLERR OR EPOLLHUP)"
      using reported_pending [OF in_set_takeD [OF x [unfolded epoll_wait_def]]] by auto
    show ?thesis
    proof (cases src)
      case Listener
      then have "ev' = EPOLLIN" "m = (EPOLLIN OR EPOLLET)" using ok m c_invD(5) [OF inv] by auto
      then show ?thesis using m(3) Listener by (simp add: EPOLLIN_def EPOLLET_def EPOLLERR_def EPOLLHUP_def)
    next
      case (Conn fd)
      then show ?thesis using m(1) by simp
    qed
  qed
  ultimately show ?thesis by (auto simp: pending_def)
qed

lemma loop_sim:
  assumes alloc: "malloc_serves alloc limit" and "c_inv limit s" "sim l s r" "listener_ok ws"
  shows "\<exists>b s' r'. c_loop alloc limit ws s = Some (b, s') \<and> reactor_run limit l ws r = (b, r') \<and> c_inv limit s' \<and> sim l s' r'"
  using assms(2-)
proof (induction ws arbitrary: s r)
  case (Cons w ws)
  have ok: "listener_ok ws" using Cons.prems(3) by (simp add: listener_ok_def)
  show ?case
  proof (cases w)
    case (Ready rd)
    have k: "rkern r = kern s" using Cons.prems(2) by (simp add: sim_def)
    have "pending s (epoll_wait (kern s) rd)"
      using epoll_wait_pending [OF Cons.prems(1)] Cons.prems(3) Ready by (simp add: listener_ok_def)
    from events_sim [OF alloc Cons.prems(1,2) this]
    obtain s' where s': "c_events alloc limit (c_batch s rd) s = Some s'" "c_inv limit s'"
      "sim l s' (reactor_events limit (reactor_batch l r rd) r)"
      by (auto simp: c_batch_def reactor_batch_def c_entry_def r_entry_def k)
    from Cons.IH [OF s'(2,3) ok] show ?thesis using Ready s'(1) by simp
  qed (use Cons ok in auto)
qed auto

subsection \<open>What the clients receive\<close>

definition pieces :: "string \<Rightarrow> bool" where
  "pieces w \<longleftrightarrow> (\<exists>ns. w = concat (map (\<lambda>n. take n resp) ns))"

definition served :: "string \<Rightarrow> nat \<Rightarrow> string \<Rightarrow> bool" where
  "served buf pos w \<longleftrightarrow> (buf = [] \<and> pos = 0 \<and> w = []) \<or>
     (buf = resp \<and> pos \<le> length resp \<and> (\<exists>v. pieces v \<and> w = v @ take pos resp))"

definition wire_inv :: "reactor \<Rightarrow> bool" where
  "wire_inv r \<longleftrightarrow> {..<5} \<subseteq> set (open_fds (rkern r)) \<and> (\<forall>fd<5. wire (rkern r) fd = []) \<and>
     (\<forall>fd buf pos. handlers r fd = Some (ClientHandler buf pos) \<longrightarrow> 5 \<le> fd \<and> served buf pos (wire (rkern r) fd)) \<and>
     (\<forall>x\<in>set (closed_wires (rkern r)). pieces (snd x))"

lemma pieces_simps: "pieces []" "pieces v \<Longrightarrow> pieces (v @ take n resp)"
proof -
  show "pieces []" unfolding pieces_def by (intro exI [of _ "[]"]) simp
  assume "pieces v"
  then obtain ns where "v = concat (map (\<lambda>n. take n resp) ns)" by (auto simp: pieces_def)
  then show "pieces (v @ take n resp)" unfolding pieces_def by (intro exI [of _ "ns @ [n]"]) simp
qed

lemma served_pieces: "served buf pos w \<Longrightarrow> pieces w"
  by (auto simp: served_def pieces_simps)

lemma wire_invD:
  assumes "wire_inv r"
  shows "handlers r fd = Some (ClientHandler buf pos) \<Longrightarrow> 5 \<le> fd" "handlers r fd = Some (ClientHandler buf pos) \<Longrightarrow> served buf pos (wire (rkern r) fd)"
    "x \<in> set (closed_wires (rkern r)) \<Longrightarrow> pieces (snd x)" "fd < 5 \<Longrightarrow> wire (rkern r) fd = []" "fd < 5 \<Longrightarrow> fd \<in> set (open_fds (rkern r))"
  using assms unfolding wire_inv_def by blast+

lemma wire_close:
  assumes "wire_inv r" "5 \<le> fd" "pieces (wire (rkern r) fd)"
  shows "wire_inv (r\<lparr>rkern := k_close fd (rkern r)\<rparr>)"
  using assms by (auto simp: wire_inv_def k_close_def)

lemma wire_last_owner:
  assumes "wire_inv r" "5 \<le> fd" "pieces (wire (rkern r) fd)"
  shows "wire_inv (last_owner fd r)"
  using assms wire_close by (simp add: last_owner_def)

lemma wire_remove: "wire_inv r \<Longrightarrow> wire_inv (remove_handler fd r)" "wire (rkern (remove_handler fd r)) = wire (rkern r)"
  by (auto simp: wire_inv_def remove_handler_def ctl_del_def)

lemma wire_opened:
  assumes inv: "wire_inv r" and o: "k_open limit (rkern r) = Some (fd, k)"
  shows "5 \<le> fd" "wire k fd = []" "wire_inv (r\<lparr>rkern := k, handlers := (handlers r)(fd := None)\<rparr>)"
    "wire_inv (r\<lparr>rkern := k, handlers := (handlers r)(fd \<mapsto> ClientHandler [] 0)\<rparr>)"
proof -
  note k = k_open_Some [OF o]
  show five: "5 \<le> fd" using k(2) wire_invD(5) [OF inv, of fd] by force
  show "wire k fd = []" unfolding k(3) by simp
  show "wire_inv (r\<lparr>rkern := k, handlers := (handlers r)(fd := None)\<rparr>)"
    "wire_inv (r\<lparr>rkern := k, handlers := (handlers r)(fd \<mapsto> ClientHandler [] 0)\<rparr>)"
    using inv five unfolding k(3) wire_inv_def by (auto simp: served_def)
qed

lemma wire_accept:
  assumes "wire_inv r" "\<And>fd. fd \<notin> set (open_fds (rkern r)) \<Longrightarrow> handlers r fd = None"
  shows "wire_inv (accept_clients limit as r)"
  using assms
proof (induction as arbitrary: r)
  case (Cons a as)
  show ?case
  proof (cases a)
    case (Accepted nb added)
    show ?thesis
    proof (cases "k_open limit (rkern r)")
      case None
      then show ?thesis using Accepted Cons.prems by simp
    next
      case (Some x)
      then obtain fd k where o: "k_open limit (rkern r) = Some (fd, k)" by (cases x) auto
      note w = wire_opened [OF Cons.prems(1) o] and k = k_open_Some [OF o]
      have h: "handlers r fd = None" using Cons.prems(2) k(2) by blast
      then have f: "(handlers r)(fd := None) = handlers r" by auto
      let ?c = "r\<lparr>rkern := k_close fd k\<rparr>"
      have c: "wire_inv ?c" using wire_close [OF w(3) w(1)] w(2) by (simp add: f pieces_simps(1))
      have co: "x \<notin> set (open_fds (rkern ?c)) \<Longrightarrow> handlers ?c x = None" for x
        using Cons.prems(2) [of x] k(2) h by (cases "x = fd") (auto simp: k(3) k_close_def)
      show ?thesis
      proof (cases "set_nonblocking nb < 0")
        case True
        then show ?thesis using Accepted o Cons.IH [OF c co] by simp
      next
        case False
        let ?r = "last_owner fd (register_handler fd (ClientHandler [] 0) (EPOLLIN OR EPOLLET OR EPOLLRDHUP) added (r\<lparr>rkern := k\<rparr>))"
        have "wire_inv ?r \<and> (\<forall>x. x \<notin> set (open_fds (rkern ?r)) \<longrightarrow> handlers ?r x = None)"
        proof (cases added)
          case True
          let ?n = "r\<lparr>rkern := k, handlers := (handlers r)(fd \<mapsto> ClientHandler [] 0)\<rparr>"
          have e: "?r = ?n\<lparr>rkern := ctl_add fd (EPOLLIN OR EPOLLET OR EPOLLRDHUP) k\<rparr>"
            using True by (simp add: last_owner_def register_handler_def)
          have "wire_inv ?r" using w(4) unfolding e by (simp add: wire_inv_def ctl_add_def)
          then show ?thesis using Cons.prems(2) unfolding e by (simp add: ctl_add_def k(3))
        next
          case False
          then have "?r = ?c" using h by (simp add: last_owner_def register_handler_def f)
          then show ?thesis using c co by simp
        qed
        then show ?thesis using Accepted o False Cons.IH [of ?r] by simp
      qed
    qed
  qed (use Cons.prems in simp_all)
qed simp

lemma send_loop_wire:
  assumes "send_loop ws fd buf pos k = (err, pos', k')" "pos \<le> length buf"
  shows "pos \<le> pos' \<and> pos' \<le> length buf \<and> k' = k\<lparr>wire := (wire k)(fd := wire k fd @ take (pos' - pos) (drop pos buf))\<rparr>"
  using assms
proof (induction ws arbitrary: pos k)
  case (Cons w ws)
  show ?case
  proof (cases "\<exists>n. w = Wrote n \<and> pos < length buf")
    case True
    then obtain n where n: "w = Wrote n" "pos < length buf" by blast
    let ?w = "min n (length buf - pos)"
    have "send_loop ws fd buf (pos + ?w) (k_send fd (take ?w (drop pos buf)) k) = (err, pos', k')"
      using Cons.prems(1) n by (subst (asm) send_loop.simps) (simp add: Let_def)
    then have I: "pos + ?w \<le> pos' \<and> pos' \<le> length buf \<and>
      k' = (k_send fd (take ?w (drop pos buf)) k)\<lparr>wire := (wire (k_send fd (take ?w (drop pos buf)) k))
        (fd := wire (k_send fd (take ?w (drop pos buf)) k) fd @ take (pos' - (pos + ?w)) (drop (pos + ?w) buf))\<rparr>"
      using n(2) by (intro Cons.IH) auto
    have "take ?w (drop pos buf) @ take (pos' - (pos + ?w)) (drop (pos + ?w) buf) = take (pos' - pos) (drop pos buf)"
      using I take_add [of ?w "pos' - (pos + ?w)" "drop pos buf"] by (simp add: add.commute)
    then show ?thesis using I by (simp add: k_send_def fun_upd_def cong: if_cong)
  next
    case False
    then have "pos' = pos \<and> k' = k" using Cons.prems(1)
      by (subst (asm) send_loop.simps) (cases w; auto split: if_splits)
    then show ?thesis using Cons.prems(2) by simp
  qed
qed (subst (asm) send_loop.simps, auto split: if_splits)

text \<open>A handled event keeps all this; so does the run.\<close>

lemma wire_read:
  assumes inv: "wire_inv r" and h: "handlers r fd = Some (ClientHandler buf pos)"
  shows "wire_inv (handle_read limit fd (ClientHandler buf pos) a r) \<and>
    pieces (wire (rkern (handle_read limit fd (ClientHandler buf pos) a r)) fd)"
proof -
  note d = wire_invD [OF inv]
  obtain failed k where l: "read_loop (reads a) (rkern r) = (failed, k)" by (cases "read_loop (reads a) (rkern r)") auto
  note k = read_loop_kernel [OF l]
  have kk: "open_fds k = open_fds (rkern r)" "wire k = wire (rkern r)" "closed_wires k = closed_wires (rkern r)"
    by (subst k, simp)+
  have sv: "served buf pos (wire (rkern r) fd)" by (rule d(2) [OF h])
  have i: "wire_inv (r\<lparr>rkern := k\<rparr>)" using inv by (simp add: wire_inv_def kk)
  show ?thesis
  proof (cases failed)
    case True
    have e: "handle_read limit fd (ClientHandler buf pos) a r = remove_handler fd (r\<lparr>rkern := k\<rparr>)"
      using l True by (simp add: handle_read_def handle_error_def)
    show ?thesis unfolding e wire_remove(2) using wire_remove(1) [OF i] served_pieces [OF sv] by (simp add: kk)
  next
    case False
    let ?r = "r\<lparr>rkern := k, handlers := (handlers r)(fd \<mapsto> ClientHandler resp 0)\<rparr>"
    have e: "handle_read limit fd (ClientHandler buf pos) a r =
        modify_handler (mod_ok a) fd (EPOLLIN OR EPOLLOUT OR EPOLLET OR EPOLLRDHUP) ?r"
      using l False by (simp add: handle_read_def)
    have "served resp 0 (wire k fd)" using served_pieces [OF sv] by (simp add: served_def kk)
    then have "wire_inv ?r" using i d(1) [OF h] by (auto simp: wire_inv_def)
    then show ?thesis using served_pieces [OF sv] unfolding e by (auto simp: wire_inv_def modify_handler_def ctl_mod_def kk)
  qed
qed

lemma wire_write:
  assumes inv: "wire_inv r" and h: "handlers r fd = Some (ClientHandler buf pos)"
  shows "wire_inv (handle_write fd (ClientHandler buf pos) a r) \<and> pieces (wire (rkern (handle_write fd (ClientHandler buf pos) a r)) fd)"
proof -
  note d = wire_invD [OF inv]
  have sv: "served buf pos (wire (rkern r) fd)" by (rule d(2) [OF h])
  then have p: "pos \<le> length buf" by (auto simp: served_def)
  obtain failed pos' k where l: "send_loop (writes a) fd buf pos (rkern r) = (failed, pos', k)"
    by (cases "send_loop (writes a) fd buf pos (rkern r)") auto
  have b: "pos \<le> pos'" "pos' \<le> length buf"
    and k: "k = (rkern r)\<lparr>wire := (wire (rkern r))(fd := wire (rkern r) fd @ take (pos' - pos) (drop pos buf))\<rparr>"
    using send_loop_wire [OF l p] by blast+
  have kk: "open_fds k = open_fds (rkern r)" "closed_wires k = closed_wires (rkern r)" "wire k fd = wire (rkern r) fd @ take (pos' - pos) (drop pos buf)"
    "\<And>x. x \<noteq> fd \<Longrightarrow> wire k x = wire (rkern r) x"
    unfolding k by simp_all
  have "served buf pos' (wire k fd)"
    using sv unfolding served_def
  proof (elim disjE conjE)
    assume "buf = []" "pos = 0" "wire (rkern r) fd = []"
    then show "buf = [] \<and> pos' = 0 \<and> wire k fd = [] \<or> buf = resp \<and> pos' \<le> length resp \<and> (\<exists>v. pieces v \<and> wire k fd = v @ take pos' resp)"
      using b by (simp add: kk)
  next
    assume "buf = resp" "\<exists>v. pieces v \<and> wire (rkern r) fd = v @ take pos resp"
    moreover have "take pos resp @ take (pos' - pos) (drop pos resp) = take pos' resp"
      using b take_add [of pos "pos' - pos" resp] by simp
    ultimately show "buf = [] \<and> pos' = 0 \<and> wire k fd = [] \<or> buf = resp \<and> pos' \<le> length resp \<and> (\<exists>v. pieces v \<and> wire k fd = v @ take pos' resp)"
      using b by (auto simp: kk)
  qed
  note sv' = this
  let ?r = "r\<lparr>rkern := k, handlers := (handlers r)(fd \<mapsto> ClientHandler buf pos')\<rparr>"
  have e: "handle_write fd (ClientHandler buf pos) a r = (if failed \<or> pos' = length buf then remove_handler fd ?r else ?r)"
    using l by (simp add: handle_write_def handle_error_def Let_def)
  have five: "5 \<le> fd" by (rule d(1) [OF h])
  have "wire_inv ?r"
    unfolding wire_inv_def
  proof (intro conjI allI impI ballI)
    show "{..<5} \<subseteq> set (open_fds (rkern ?r))" using d(5) by (auto simp: kk)
    show "wire (rkern ?r) x = []" if "x < 5" for x using d(4) [OF that] kk(4) [of x] five that by simp
    show "5 \<le> x" "served bf i (wire (rkern ?r) x)" if "handlers ?r x = Some (ClientHandler bf i)" for x bf i
      using that d(1,2) [of x bf i] five sv' kk(4) [of x] by (auto split: if_splits)
    show "pieces (snd x)" if "x \<in> set (closed_wires (rkern ?r))" for x using d(3) [of x] that by (simp add: kk)
  qed
  then show ?thesis using wire_remove(1) [of ?r fd] wire_remove(2) [of fd ?r] served_pieces [OF sv'] unfolding e by simp
qed

lemma wire_event:
  assumes inv: "wire_inv r" and c: "\<And>x. x \<notin> set (open_fds (rkern r)) \<Longrightarrow> handlers r x = None"
    and l: "\<And>x. handlers r fd = Some (AcceptHandler x) \<Longrightarrow> handlers (accept_clients limit (accepts a) r) fd = Some (AcceptHandler x)"
  shows "wire_inv (reactor_event limit (fd, evs, a) r)"
proof (cases "handlers r fd")
  case None
  then show ?thesis using inv by (simp add: reactor_event_def)
next
  case (Some h)
  show ?thesis
  proof (cases h)
    case (AcceptHandler x)
    have w: "wire_inv (accept_clients limit (accepts a) r)" by (rule wire_accept [OF inv c])
    have h: "handlers (accept_clients limit (accepts a) r) fd = Some (AcceptHandler x)" using l Some AcceptHandler by simp
    show ?thesis using Some AcceptHandler inv w h
      by (auto simp: reactor_event_def handle_error_def handle_read_def handle_write_def last_owner_def Let_def)
  next
    case (ClientHandler buf pos)
    note h = Some [unfolded ClientHandler]
    note five = wire_invD(1) [OF inv h] and sv = wire_invD(2) [OF inv h]
    let ?r = "if evs AND EPOLLIN \<noteq> 0 then handle_read limit fd (ClientHandler buf pos) a r else r"
    have r: "wire_inv ?r" "pieces (wire (rkern ?r) fd)" using wire_read [OF inv h, of limit a] inv served_pieces [OF sv] by auto
    have "wire_inv (case handlers ?r fd of None \<Rightarrow> ?r | Some h \<Rightarrow> handle_write fd h a ?r) \<and>
      pieces (wire (rkern (case handlers ?r fd of None \<Rightarrow> ?r | Some h \<Rightarrow> handle_write fd h a ?r)) fd)"
    proof (cases "handlers ?r fd")
      case None
      then show ?thesis using r by (simp only: option.case)
    next
      case (Some g)
      show ?thesis
      proof (cases g)
        case (AcceptHandler x)
        then show ?thesis unfolding Some using r by (simp add: handle_write_def)
      next
        case (ClientHandler b i)
        then show ?thesis unfolding Some using wire_write [OF r(1)] Some by simp
      qed
    qed
    moreover have "wire_inv (handle_error fd (ClientHandler buf pos) r)" "pieces (wire (rkern (handle_error fd (ClientHandler buf pos) r)) fd)"
      using wire_remove(1) [of r fd] wire_remove(2) [of fd r] inv served_pieces [OF sv] by (simp_all add: handle_error_def)
    ultimately show ?thesis unfolding reactor_event_def prod.case h option.case Let_def
      using r five by (intro wire_last_owner) (simp_all split: if_split)
  qed
qed

subsection \<open>The programs\<close>

lemma handlers_open: "c_inv limit s \<Longrightarrow> sim l s r \<Longrightarrow> fd \<notin> set (open_fds (rkern r)) \<Longrightarrow> handlers r fd = None"
  using c_invD(3) [of limit s] by (auto simp: sim_def conn_of_def)

lemma wire_events:
  assumes alloc: "malloc_serves (alloc :: conn_state allocator) limit" and "c_inv limit s" "sim l s r" "pending s es" "wire_inv r"
  shows "wire_inv (reactor_events limit (map (r_entry l) es) r)"
  using assms(2-)
proof (induction es arbitrary: s r)
  case (Cons e es)
  obtain src ev a where e: "e = (src, ev, a)" by (cases e)
  have sim1: "pending s [e]" using Cons.prems(3) by (simp add: pending_def)
  obtain s' where s': "c_event alloc limit (c_entry s e) s = Some s'" "c_inv limit s'" "sim l s' (reactor_event limit (r_entry l e) r)"
    using events_sim [OF alloc Cons.prems(1,2) sim1] by (auto split: bind_splits)
  define X where "X = (case src of Listener \<Rightarrow> {} | Conn fd \<Rightarrow> {fd})"
  have o: "others X s s'"
  proof (cases src)
    case Listener
    then have "ev = EPOLLIN" using Cons.prems(3) e by (simp add: pending_def)
    from listener_event_sim [OF alloc Cons.prems(1,2) this, of a] s'(1) show ?thesis
      using Listener by (auto simp: e c_entry_def X_def)
  next
    case (Conn fd)
    then have "interest (kern s) fd \<noteq> None" using Cons.prems(3) e by (simp add: pending_def)
    from conn_event_sim [OF Cons.prems(1,2) this refl, of alloc ev a] s'(1) show ?thesis
      using Conn by (auto simp: e c_entry_def X_def)
  qed
  have p: "pending s es" "\<forall>fd\<in>X. Conn fd \<notin> fst ` set es"
    using Cons.prems(3) e by (auto simp: pending_def X_def split: source.splits)
  have "wire_inv (reactor_event limit (r_entry l e) r)"
    unfolding e r_entry_def prod.case
  proof (rule wire_event [OF Cons.prems(4) handlers_open [OF Cons.prems(1,2)]])
    fix x assume "handlers r (case src of Listener \<Rightarrow> l | Conn fd \<Rightarrow> fd) = Some (AcceptHandler x)"
    then have "(case src of Listener \<Rightarrow> l | Conn fd \<Rightarrow> fd) = l \<and> x = l"
      using Cons.prems(2) by (auto simp: sim_def client_def split: if_splits)
    moreover have "\<exists>t. sim l t (accept_clients limit (accepts a) r)" using accept_sim [OF alloc Cons.prems(1,2)] by blast
    ultimately show "handlers (accept_clients limit (accepts a) r) (case src of Listener \<Rightarrow> l | Conn fd \<Rightarrow> fd) = Some (AcceptHandler x)"
      by (auto simp: sim_def)
  qed
  from Cons.IH [OF s'(2,3) pending_others(1) [OF o p] this] show ?case by simp
qed simp

lemma wire_loop:
  assumes alloc: "malloc_serves (alloc :: conn_state allocator) limit" and "c_inv limit s" "sim l s r" "listener_ok ws" "wire_inv r"
  shows "wire_inv (snd (reactor_run limit l ws r))"
  using assms(2-)
proof (induction ws arbitrary: s r)
  case (Cons w ws)
  have ok: "listener_ok ws" using Cons.prems(3) by (simp add: listener_ok_def)
  show ?case
  proof (cases w)
    case (Ready rd)
    have k: "rkern r = kern s" using Cons.prems(2) by (simp add: sim_def)
    have p: "pending s (epoll_wait (kern s) rd)"
      using epoll_wait_pending [OF Cons.prems(1)] Cons.prems(3) Ready by (simp add: listener_ok_def)
    have m: "reactor_batch l r rd = map (r_entry l) (epoll_wait (kern s) rd)" by (simp add: reactor_batch_def r_entry_def k)
    obtain s' where s': "c_inv limit s'" "sim l s' (reactor_events limit (reactor_batch l r rd) r)"
      using events_sim [OF alloc Cons.prems(1,2) p] unfolding m by blast
    have "wire_inv (reactor_events limit (reactor_batch l r rd) r)"
      unfolding m by (rule wire_events [OF alloc Cons.prems(1,2) p Cons.prems(4)])
    from Cons.IH [OF s' ok this] show ?thesis using Ready by simp
  qed (use Cons ok in auto)
qed simp

lemma k_open_boot: "5 \<le> limit \<Longrightarrow> k_open limit boot = Some (3, boot\<lparr>open_fds := [3, 2, 1, 0]\<rparr>)"
  "5 \<le> limit \<Longrightarrow> k_open limit (boot\<lparr>open_fds := [3, 2, 1, 0]\<rparr>) = Some (4, boot\<lparr>open_fds := [4, 3, 2, 1, 0]\<rparr>)"
  by (simp_all add: k_open_def boot_def lowest_free_def fun_upd_def upt_rec)

definition all_calls_ok :: "startup \<Rightarrow> bool" where
  "all_calls_ok c \<longleftrightarrow> socket_ok c \<and> bind_ok c \<and> nonblock_ok c = (True, True) \<and> listen_ok c \<and> epoll_ok c"

definition c_ready :: c_server where
  "c_ready = \<lparr>kern = boot\<lparr>open_fds := [4, 3, 2, 1, 0], listen_mask := Some (EPOLLIN OR EPOLLET)\<rparr>, states = Map.empty, event_data = (\<lambda>_. None)\<rparr>"

definition reactor_ready :: reactor where
  "reactor_ready = \<lparr>rkern = boot\<lparr>open_fds := [4, 3, 2, 1, 0], listen_mask := Some (EPOLLIN OR EPOLLET)\<rparr>, handlers = [4 \<mapsto> AcceptHandler 4]\<rparr>"

lemma starts:
  assumes "5 \<le> limit"
  shows "c_start limit c = (if all_calls_ok c \<and> add_ok c then Some (3, 4, c_ready) else None)"
    "add_ok c \<Longrightarrow> reactor_start limit c = (if all_calls_ok c then Some (4, 3, reactor_ready) else None)"
  using k_open_boot [OF assms]
  by (cases "nonblock_ok c"; auto simp: c_start_def reactor_start_def accept_handler_def all_calls_ok_def c_ready_def
      reactor_ready_def set_nonblocking_def register_handler_def)+

lemma ready_inv: "c_inv limit c_ready" "sim 4 c_ready reactor_ready" "wire_inv reactor_ready"
proof -
  have five: "{..<5 :: nat} = {4, 3, 2, 1, 0}" by auto
  show "c_inv limit c_ready" by (simp add: c_inv_def c_ready_def boot_def five)
  show "sim 4 c_ready reactor_ready" by (auto simp: sim_def c_ready_def reactor_ready_def conn_of_def boot_def)
  show "wire_inv reactor_ready" by (auto simp: wire_inv_def reactor_ready_def boot_def five split: if_splits)
qed

text \<open>What was printed before changes nothing.\<close>

definition preface :: "string \<Rightarrow> kernel \<Rightarrow> kernel" where
  "preface m k = k\<lparr>console := m @ console k\<rparr>"

definition prefaced :: "string \<Rightarrow> reactor \<Rightarrow> reactor" where
  "prefaced m r = r\<lparr>rkern := preface m (rkern r)\<rparr>"

lemma preface_sel [simp]:
  "open_fds (preface m k) = open_fds k" "interest (preface m k) = interest k" "listen_mask (preface m k) = listen_mask k"
  "rkern (prefaced m r) = preface m (rkern r)" "handlers (prefaced m r) = handlers r"
  by (simp_all add: preface_def prefaced_def)

lemma k_preface:
  "k_open limit (preface m k) = map_option (map_prod id (preface m)) (k_open limit k)"
  "k_close fd (preface m k) = preface m (k_close fd k)" "ctl_add fd e (preface m k) = preface m (ctl_add fd e k)"
  "ctl_mod ok fd e (preface m k) = preface m (ctl_mod ok fd e k)" "ctl_del fd (preface m k) = preface m (ctl_del fd k)"
  "k_print d (preface m k) = preface m (k_print d k)" "k_send fd d (preface m k) = preface m (k_send fd d k)"
  "(preface m k)\<lparr>listen_mask := x\<rparr> = preface m (k\<lparr>listen_mask := x\<rparr>)"
  by (auto simp: preface_def k_open_def k_close_def ctl_add_def ctl_mod_def ctl_del_def k_print_def k_send_def Let_def)

lemma prefaced_update:
  "(prefaced m r)\<lparr>handlers := h\<rparr> = prefaced m (r\<lparr>handlers := h\<rparr>)" "(prefaced m r)\<lparr>rkern := k\<rparr> = r\<lparr>rkern := k\<rparr>"
  "r\<lparr>rkern := preface m k, handlers := h\<rparr> = prefaced m (r\<lparr>rkern := k, handlers := h\<rparr>)"
  "r\<lparr>rkern := preface m k\<rparr> = prefaced m (r\<lparr>rkern := k\<rparr>)"
  by (simp_all add: prefaced_def)

lemma reactor_ops_preface:
  "register_handler fd h e ok (prefaced m r) = prefaced m (register_handler fd h e ok r)"
  "modify_handler ok fd e (prefaced m r) = prefaced m (modify_handler ok fd e r)"
  "remove_handler fd (prefaced m r) = prefaced m (remove_handler fd r)"
  "last_owner fd (prefaced m r) = prefaced m (last_owner fd r)"
  "handle_error fd h (prefaced m r) = prefaced m (handle_error fd h r)"
  by (simp_all add: register_handler_def modify_handler_def remove_handler_def last_owner_def handle_error_def prefaced_def k_preface
      split: handler.split)

lemma accept_clients_preface: "accept_clients limit as (prefaced m r) = prefaced m (accept_clients limit as r)"
  by (induction limit as r rule: accept_clients.induct)
    (auto simp: k_preface prefaced_update reactor_ops_preface split: option.split)

lemma read_loop_preface: "read_loop rs (preface m k) = map_prod id (preface m) (read_loop rs k)"
  by (induction rs k rule: read_loop.induct) (auto simp: k_preface)

lemma send_loop_preface: "send_loop ws fd buf pos (preface m k) = map_prod id (map_prod id (preface m)) (send_loop ws fd buf pos k)"
proof (induction ws fd buf pos k rule: send_loop.induct)
  case (1 ws fd buf pos k)
  then show ?case
    by (subst (1 2) send_loop.simps) (auto simp: k_preface Let_def id_def split: list.split write_answer.split)
qed

lemma handle_read_preface: "handle_read limit fd h a (prefaced m r) = prefaced m (handle_read limit fd h a r)"
  by (simp add: handle_read_def accept_clients_preface read_loop_preface reactor_ops_preface prefaced_update Let_def case_prod_unfold
      split: handler.split)

lemma handle_write_preface: "handle_write fd h a (prefaced m r) = prefaced m (handle_write fd h a r)"
  by (simp add: handle_write_def send_loop_preface reactor_ops_preface prefaced_update Let_def case_prod_unfold split: handler.split)

lemma reactor_event_preface: "reactor_event limit e (prefaced m r) = prefaced m (reactor_event limit e r)"
  by (simp add: reactor_event_def handle_read_preface handle_write_preface reactor_ops_preface Let_def split: option.split prod.split)

lemma reactor_events_preface: "reactor_events limit es (prefaced m r) = prefaced m (reactor_events limit es r)"
  by (induction limit es r rule: reactor_events.induct) (simp_all add: reactor_event_preface)

lemma source_mask_preface: "source_mask (preface m k) src = source_mask k src"
  by (cases src) simp_all

lemma reported_preface: "reported (preface m k) seen r = reported k seen r"
  by (induction k seen r rule: reported.induct) (simp_all add: source_mask_preface split: option.split)

lemma reactor_run_preface: "reactor_run limit l ws (prefaced m r) = map_prod id (prefaced m) (reactor_run limit l ws r)"
proof (induction limit l ws r rule: reactor_run.induct)
  case (4 limit l rd ws r)
  have "reactor_batch l (prefaced m r) rd = reactor_batch l r rd" by (simp add: reactor_batch_def epoll_wait_def reported_preface)
  then show ?case using 4 by (simp add: reactor_events_preface)
qed simp_all

lemma print_ready: "reactor_ready\<lparr>rkern := k_print m (rkern reactor_ready)\<rparr> = prefaced m reactor_ready"
  by (simp add: reactor_ready_def prefaced_def preface_def k_print_def boot_def)

text \<open>C36: The two servers are one. As long as at least five descriptors can be open, \<^verbatim>\<open>calloc\<close> serves every new connection, the listening socket can be registered and only
ever reports that it is readable, and waiting does not fail: whatever the clients do and however the kernel slices reads and writes,
the server in C uses no stale pointer and leaves the same descriptors open, the same events asked for and the same bytes sent
as the reactor in C++; what is printed is the same too, after the message with which the reactor starts.\<close>

theorem servers_agree:
  assumes "malloc_serves (alloc :: conn_state allocator) limit" "5 \<le> limit" "listener_ok ws" "Wait_failed \<notin> set ws" "add_ok c"
  shows "\<exists>k. c_main alloc limit c ws = Some k \<and>
    reactor_main limit c ws = map_option (\<lambda>k. k\<lparr>console := start_message @ console k\<rparr>) k"
proof (cases "all_calls_ok c")
  case True
  obtain b s r where l: "c_loop alloc limit ws c_ready = Some (b, s)" "reactor_run limit 4 ws reactor_ready = (b, r)" "sim 4 s r"
    using loop_sim [OF assms(1) ready_inv(1,2) assms(3)] by blast
  have n: "\<not> fst (reactor_run limit 4 ws r)" for r
    using assms(4) by (induction limit "4 :: nat" ws r rule: reactor_run.induct) auto
  show ?thesis using True assms(5) l n [of reactor_ready]
    by (simp add: c_main_def reactor_main_def starts [OF assms(2)] sim_def print_ready reactor_run_preface flip: preface_def)
qed (use assms(5) in \<open>simp add: c_main_def reactor_main_def starts [OF assms(2)]\<close>)

definition calls_ok :: startup where
  "calls_ok = \<lparr>socket_ok = True, bind_ok = True, nonblock_ok = (True, True), listen_ok = True, epoll_ok = True, add_ok = True\<rparr>"

definition one_request :: "wait list" where
  "one_request =
    [Ready [(Listener, EPOLLIN, \<lparr>accepts = [Accepted (True, True) True], reads = [], writes = [], mod_ok = True\<rparr>)],
     Interrupted,
     Ready [(Conn 5, EPOLLIN, \<lparr>accepts = [], reads = [Read ''GET'', Read_again], writes = [], mod_ok = True\<rparr>)],
     Ready [(Conn 5, EPOLLOUT, \<lparr>accepts = [], reads = [], writes = [Wrote 7, Wrote 1000], mod_ok = True\<rparr>)]]"

lemma one_request_ok: "listener_ok one_request" "Wait_failed \<notin> set one_request"
  by (auto simp: one_request_def listener_ok_def)

lemma servers_agree_witness:
  "\<exists>k. c_main (first_free 8 (new_conn 0)) 8 calls_ok one_request = Some k \<and>
    reactor_main 8 calls_ok one_request = map_option (\<lambda>k. k\<lparr>console := start_message @ console k\<rparr>) k"
  by (rule servers_agree) (simp_all add: malloc_serves_first_free one_request_ok calls_ok_def)

text \<open>C37: As long as at least five descriptors can be open, the listening socket only ever reports that it is readable and
\<^verbatim>\<open>calloc\<close> serves every new connection (a failed one is dereferenced), there is no undefined behaviour in C,
whatever the clients send and however the kernel slices it, also when waiting fails; and what a client receives until its connection is
closed is made of beginnings of the response, never anything else.\<close>

theorem responses_on_the_wire:
  assumes "malloc_serves (alloc :: conn_state allocator) limit" "5 \<le> limit" "listener_ok ws"
  shows "\<exists>k. c_main alloc limit c ws = Some k \<and> (\<forall>fd w. (fd, w) \<in> set (case k of None \<Rightarrow> [] | Some k \<Rightarrow> closed_wires k) \<longrightarrow>
    (\<exists>ns. w = concat (map (\<lambda>n. take n resp) ns)))"
proof (cases "all_calls_ok c \<and> add_ok c")
  case True
  obtain b s r where l: "c_loop alloc limit ws c_ready = Some (b, s)" "reactor_run limit 4 ws reactor_ready = (b, r)" "sim 4 s r"
    using loop_sim [OF assms(1) ready_inv(1,2) assms(3)] by blast
  have "wire_inv r" using wire_loop [OF assms(1) ready_inv(1,2) assms(3) ready_inv(3)] l(2) by simp
  note d = wire_invD [OF this]
  have k: "rkern r = kern s" using l(3) by (simp add: sim_def)
  have m: "c_main alloc limit c ws = Some (Some (if b then k_close 4 (k_close 3 (kern s)) else kern s))"
    using True l(1) by (simp add: c_main_def starts [OF assms(2)])
  have "pieces w" if "(fd, w) \<in> set (closed_wires (if b then k_close 4 (k_close 3 (kern s)) else kern s))" for fd w
    using that d(3) [of "(fd, w)"] d(4) [of 3] d(4) [of 4] d(5) [of 3] d(5) [of 4] pieces_simps(1)
    by (auto simp: k k_close_def split: if_splits)
  then show ?thesis unfolding m by (intro exI conjI) (auto simp: pieces_def)
next
  case False
  then have "c_start limit c = None" unfolding starts(1) [OF assms(2)] by (rule if_not_P)
  then show ?thesis by (simp add: c_main_def)
qed

lemma responses_on_the_wire_witness:
  "c_main (first_free 8 (new_conn 0)) 8 calls_ok one_request \<noteq> None"
  using responses_on_the_wire [OF malloc_serves_first_free [of 8 "new_conn 0"] _ one_request_ok(1), of calls_ok] by force

text \<open>One request is answered with exactly the response; a second burst of data before the response is out starts it again.\<close>

lemma request_answered:
  "map_option (map_option closed_wires) (c_main (first_free 8 (new_conn 0)) 8 calls_ok one_request) = Some (Some [(5, resp)])"
  by code_simp

definition two_bursts :: "wait list" where
  "two_bursts =
    [Ready [(Listener, EPOLLIN, \<lparr>accepts = [Accepted (True, True) True], reads = [], writes = [], mod_ok = True\<rparr>)],
     Ready [(Conn 5, EPOLLIN, \<lparr>accepts = [], reads = [Read ''GET''], writes = [], mod_ok = True\<rparr>)],
     Ready [(Conn 5, EPOLLOUT, \<lparr>accepts = [], reads = [], writes = [Wrote 7, Write_again], mod_ok = True\<rparr>)],
     Ready [(Conn 5, EPOLLIN OR EPOLLOUT, \<lparr>accepts = [], reads = [Read ''x''], writes = [Wrote 1000], mod_ok = True\<rparr>)]]"

lemma response_restarts:
  "map_option (map_option closed_wires) (c_main (first_free 8 (new_conn 0)) 8 calls_ok two_bursts) = Some (Some [(5, take 7 resp @ resp)])"
  by code_simp

end
