(* ===== verification/Cow_String.thy ===== *)
theory Cow_String
  imports Smart_Pointers
begin

text \<open>
  The copy-on-write string of Day 16, \<^verbatim>\<open>Phase-1/Day16/C++/cow_string.cpp\<close>. An object of the class points to a counted block,
  the box of \<^theory_text>\<open>Smart_Pointers\<close>, with a character array; the length stored in the block is kept with the characters. Copying and
  assigning share the block, writing a character first makes a copy if the block is shared.

  A failed assertion or a failed \<^verbatim>\<open>new\<close> ends the program: the inner \<open>None\<close>. The outer \<open>None\<close> is undefined behaviour, as everywhere.
\<close>

subsection \<open>The class\<close>

type_synonym chars = "nat \<times> string"

definition NUL :: char where "NUL = CHR 0x00"

text \<open>\<^verbatim>\<open>strlen\<close> and \<^verbatim>\<open>memcpy\<close> of the constructor of the block, on an array in memory.\<close>

definition c_string :: "string \<Rightarrow> string option" where
  "c_string cs = (if NUL \<in> set cs then Some (takeWhile (\<lambda>c. c \<noteq> NUL) cs) else None)"

definition string_data :: "string \<Rightarrow> chars" where
  "string_data str = (length str, str @ [NUL])"

definition cow_create :: "ptr \<Rightarrow> addr \<Rightarrow> chars store \<Rightarrow> chars store option" where
  "cow_create p a s = Some (s\<lparr>boxes := (boxes s)(a \<mapsto> \<lparr>box_data = p, refcount = 1\<rparr>)\<rparr>)"

definition cow_retain :: "ptr \<Rightarrow> chars store \<Rightarrow> chars store option" where
  "cow_retain p s =
     (if p = None then Some s else do {
        h \<leftarrow> store p (refcount_update (\<lambda>n. n + 1)) (boxes s);
        Some (s\<lparr>boxes := h\<rparr>) })"

definition cow_release :: "ptr \<Rightarrow> chars store \<Rightarrow> chars store option" where
  "cow_release p s =
     (if p = None then Some s else do {
        s \<leftarrow> decrement p s;
        b \<leftarrow> load (boxes s) p;
        if refcount b = 0 then do {
          os \<leftarrow> dealloc (box_data b) (objects s);
          bs \<leftarrow> dealloc p (boxes s);
          Some (s\<lparr>boxes := bs, objects := os\<rparr>) }
        else Some s })"

definition cow_assign :: "bool \<Rightarrow> ptr \<Rightarrow> ptr \<Rightarrow> chars store \<Rightarrow> (ptr \<times> chars store) option" where
  "cow_assign same this other s =
     (if same then Some (this, s)
      else do {
        s \<leftarrow> cow_release this s;
        s \<leftarrow> cow_retain other s;
        Some (other, s) })"

definition new_data :: "refbox allocator \<Rightarrow> chars allocator \<Rightarrow> chars \<Rightarrow> chars store \<Rightarrow> (addr \<times> chars store) option" where
  "new_data nb no d s = do {
     (a, junk) \<leftarrow> nb (boxes s);
     (ob, junk') \<leftarrow> no (objects s);
     Some (a, s\<lparr>objects := (objects s)(ob \<mapsto> d), boxes := (boxes s)(a \<mapsto> \<lparr>box_data = Some ob, refcount = 1\<rparr>)\<rparr>) }"

definition detach_if_shared :: "refbox allocator \<Rightarrow> chars allocator \<Rightarrow> ptr \<Rightarrow> chars store \<Rightarrow> (ptr \<times> chars store) option option" where
  "detach_if_shared nb no this s =
     (if this = None then Some (Some (this, s)) else do {
        b \<leftarrow> load (boxes s) this;
        if refcount b > 1 then do {
          (len, cs) \<leftarrow> load (objects s) (box_data b);
          str \<leftarrow> c_string cs;
          case new_data nb no (string_data str) s of
            None \<Rightarrow> Some None
          | Some (a, s) \<Rightarrow> do { s \<leftarrow> decrement this s; Some (Some (Some a, s)) } }
        else Some (Some (this, s)) })"

definition index_read :: "ptr \<Rightarrow> nat \<Rightarrow> chars store \<Rightarrow> char option option" where
  "index_read this i s =
     (if this = None then Some None else do {
        b \<leftarrow> load (boxes s) this;
        (len, cs) \<leftarrow> load (objects s) (box_data b);
        if i < len then (if i < length cs then Some (Some (cs ! i)) else None) else Some None })"

text \<open>
  The writing \<^verbatim>\<open>operator[]\<close> returns a reference into the array of the block, here the address of the array; with the index it can be
  written through at any time, as long as the array exists. \<open>index_write\<close> is the statement \<^verbatim>\<open>s[i] = c\<close>, which writes at once.
\<close>

definition index_ref :: "refbox allocator \<Rightarrow> chars allocator \<Rightarrow> ptr \<Rightarrow> nat \<Rightarrow> chars store \<Rightarrow> (ptr \<times> ptr \<times> chars store) option option" where
  "index_ref nb no this i s =
     (if this = None then Some None else do {
        b \<leftarrow> load (boxes s) this;
        (len, cs) \<leftarrow> load (objects s) (box_data b);
        if \<not> i < len then Some None else do {
          r \<leftarrow> detach_if_shared nb no this s;
          case r of
            None \<Rightarrow> Some None
          | Some (p, s) \<Rightarrow> do { b \<leftarrow> load (boxes s) p; Some (Some (p, box_data b, s)) } } })"

definition write_ref :: "ptr \<Rightarrow> nat \<Rightarrow> char \<Rightarrow> chars store \<Rightarrow> chars store option" where
  "write_ref q i c s = do {
     (len, cs) \<leftarrow> load (objects s) q;
     if i < length cs then do {
       os \<leftarrow> store q (\<lambda>_. (len, cs[i := c])) (objects s);
       Some (s\<lparr>objects := os\<rparr>) }
     else None }"

definition index_write :: "refbox allocator \<Rightarrow> chars allocator \<Rightarrow> ptr \<Rightarrow> nat \<Rightarrow> char \<Rightarrow> chars store \<Rightarrow> (ptr \<times> chars store) option option" where
  "index_write nb no this i c s = do {
     r \<leftarrow> index_ref nb no this i s;
     case r of None \<Rightarrow> Some None | Some (p, q, s) \<Rightarrow> do { s \<leftarrow> write_ref q i c s; Some (Some (p, s)) } }"

definition ref_count :: "ptr \<Rightarrow> chars store \<Rightarrow> int option" where
  "ref_count this s = (if this = None then Some 0 else map_option refcount (load (boxes s) this))"

definition c_str :: "ptr \<Rightarrow> chars store \<Rightarrow> string option" where
  "c_str this s = (if this = None then Some [] else do {
     b \<leftarrow> load (boxes s) this;
     (len, cs) \<leftarrow> load (objects s) (box_data b);
     c_string cs })"

text \<open>Programs over variables of the class.\<close>

datatype cow_op = Make nat string | CopyTo nat nat | AssignTo nat nat | EndLife nat | WriteAt nat nat char

fun cow_step :: "refbox allocator \<Rightarrow> chars allocator \<Rightarrow> cow_op \<Rightarrow> chars share_program \<Rightarrow> chars share_program option option" where
  "cow_step nb no (Make v str) s =
     (if refs s v \<noteq> None then Some (Some s)
      else case new_data nb no (string_data str) (heap_of s) of
        None \<Rightarrow> Some None
      | Some (a, h) \<Rightarrow> Some (Some (s\<lparr>refs := (refs s)(v \<mapsto> a), heap_of := h\<rparr>)))"
| "cow_step nb no (CopyTo v w) s = map_option Some (share_step cow_create cow_retain cow_release cow_assign (Copy v w) s)"
| "cow_step nb no (AssignTo v w) s = map_option Some (share_step cow_create cow_retain cow_release cow_assign (Assign v w) s)"
| "cow_step nb no (EndLife v) s = map_option Some (share_step cow_create cow_retain cow_release cow_assign (Destroy v) s)"
| "cow_step nb no (WriteAt v i c) s =
     (if refs s v = None then Some (Some s)
      else map_option (map_option (\<lambda>(p, h). s\<lparr>refs := (refs s)(v := p), heap_of := h\<rparr>)) (index_write nb no (refs s v) i c (heap_of s)))"

fun cow_run :: "refbox allocator \<Rightarrow> chars allocator \<Rightarrow> cow_op list \<Rightarrow> chars share_program \<Rightarrow> chars share_program option option" where
  "cow_run nb no [] s = Some (Some s)"
| "cow_run nb no (a # as) s = do { r \<leftarrow> cow_step nb no a s; case r of None \<Rightarrow> Some None | Some s \<Rightarrow> cow_run nb no as s }"

definition cow_main :: "cow_op list" where
  "cow_main = [Make 1 ''hello'', CopyTo 2 1, WriteAt 2 0 (CHR ''J'')]"

subsection \<open>What programs see: every variable has a string of its own\<close>

fun value_step :: "cow_op \<Rightarrow> (nat \<Rightarrow> string option) \<Rightarrow> (nat \<Rightarrow> string option) option" where
  "value_step (Make v str) m = Some (if m v = None then m(v \<mapsto> str) else m)"
| "value_step (CopyTo v w) m = Some (if m v = None \<and> m w \<noteq> None then m(v := m w) else m)"
| "value_step (AssignTo v w) m = Some (if m v \<noteq> None \<and> m w \<noteq> None then m(v := m w) else m)"
| "value_step (EndLife v) m = Some (m(v := None))"
| "value_step (WriteAt v i c) m =
     (case m v of None \<Rightarrow> Some m | Some str \<Rightarrow> if i < length str then Some (m(v \<mapsto> str[i := c])) else None)"

fun value_run :: "cow_op list \<Rightarrow> (nat \<Rightarrow> string option) \<Rightarrow> (nat \<Rightarrow> string option) option" where
  "value_run [] m = Some m"
| "value_run (a # as) m = value_step a m \<bind> value_run as"

definition box_value :: "'d store \<Rightarrow> addr \<Rightarrow> 'd option" where
  "box_value h a = (boxes h a \<bind> (\<lambda>b. load (objects h) (box_data b)))"

definition values_of :: "(nat \<Rightarrow> addr option) \<Rightarrow> chars store \<Rightarrow> nat \<Rightarrow> string option" where
  "values_of r h v = (r v \<bind> (\<lambda>a. map_option (\<lambda>x. butlast (snd x)) (box_value h a)))"

definition texts_ok :: "chars store \<Rightarrow> bool" where
  "texts_ok h \<longleftrightarrow> (\<forall>a x. box_value h a = Some x \<longrightarrow> (\<exists>str. x = string_data str \<and> NUL \<notin> set str))"

fun op_texts_ok :: "nat \<Rightarrow> cow_op \<Rightarrow> bool" where
  "op_texts_ok n (Make v str) = (v < n \<and> NUL \<notin> set str)"
| "op_texts_ok n (WriteAt v i c) = (v < n \<and> c \<noteq> NUL)"
| "op_texts_ok n (CopyTo v w) = (v < n)"
| "op_texts_ok n (AssignTo v w) = (v < n)"
| "op_texts_ok n (EndLife v) = (v < n)"

definition cow_inv :: "nat \<Rightarrow> (nat \<Rightarrow> addr option) \<Rightarrow> chars store \<Rightarrow> bool" where
  "cow_inv n r h \<longleftrightarrow> share_inv False n r h \<and> texts_ok h"

interpretation cow: counted_pointer False cow_create cow_retain cow_release cow_assign
  by unfold_locales
    (auto simp: refcount_steps cow_assign_def cow_create_def cow_retain_def cow_release_def decrement_def store_def load_def dealloc_def split: option.splits)

text \<open>Two boxes never have the same object.\<close>

lemma box_objects_differ:
  assumes "share_inv False n r h" "boxes h a = Some b" "boxes h c = Some d" "a \<noteq> c"
  shows "box_data b \<noteq> box_data d"
proof
  assume e: "box_data b = box_data d"
  obtain ob where "box_data b = Some ob" using share_invD(5) [OF assms(1,2)] by auto
  then show False using owners_inj [OF share_invD(4) [OF assms(1)], of a ob c] assms(2-4) e by simp
qed

context counted_pointer
begin

lemma release_values:
  assumes inv: "share_inv False n r s" and v: "r v = Some a" and rel: "release (Some a) s = Some s'" and w: "(r(v := None)) w = Some c"
  shows "box_value s' c = box_value s c"
proof -
  obtain b ob where b: "boxes s a = Some b" "refcount b = int (card (holders r a))" "box_data b = Some ob" "objects s ob \<noteq> None"
    by (rule share_inv_box [OF inv v])
  show ?thesis
  proof (cases "refcount b = 1")
    case True
    have fin: "finite (holders r a)" by (rule finite_holders [OF share_invD(1) [OF inv]])
    have "card (holders r a) = 1" using b(2) True by simp
    then obtain z where "holders r a = {z}" by (rule card_1_singletonE)
    moreover have "v \<in> holders r a" using v by (simp add: holders_def)
    ultimately have one: "holders r a = {v}" by simp
    have ca: "c \<noteq> a"
    proof
      assume "c = a"
      then have "w \<in> holders r a" "w \<noteq> v" using w by (auto simp: holders_def split: if_splits)
      then show False using one by simp
    qed
    have s': "s' = s\<lparr>boxes := (boxes s)(a := None), objects := (objects s)(ob := None)\<rparr>"
      using release_last [OF b(1) True] b(3,4) rel by (auto simp: dealloc_def split: option.splits)
    show ?thesis
    proof (cases "boxes s c")
      case (Some d)
      then have "box_data d \<noteq> Some ob" using box_objects_differ [OF inv b(1) Some] ca b(3) by metis
      then show ?thesis using ca Some by (auto simp: s' box_value_def load_def split: option.splits)
    qed (simp add: s' box_value_def ca)
  next
    case False
    then show ?thesis using release_more [OF b(1)] rel b(1) by (auto simp: box_value_def)
  qed
qed

lemma retain_values:
  assumes "boxes s a = Some b" "refcount b \<noteq> INT_MAX" "retain (Some a) s = Some s'"
  shows "box_value s' c = box_value s c"
  using retain [OF assms(1,2)] assms by (auto simp: box_value_def)

end

text \<open>Making and changing a block.\<close>

lemma box_value_some:
  assumes "share_inv False n r h" "texts_ok h" "r v = Some a"
  obtains b ob str where "boxes h a = Some b" "refcount b = int (card (holders r a))" "0 < card (holders r a)" "box_data b = Some ob"
    "objects h ob = Some (string_data str)" "NUL \<notin> set str" "values_of r h v = Some str" "box_value h a = Some (string_data str)"
proof -
  obtain b ob where b: "boxes h a = Some b" "refcount b = int (card (holders r a))" "0 < card (holders r a)" "box_data b = Some ob" "objects h ob \<noteq> None"
    by (rule share_inv_box [OF assms(1,3)])
  then obtain x where x: "objects h ob = Some x" by auto
  then have bv: "box_value h a = Some x" using b by (simp add: box_value_def load_def)
  then obtain str where str: "x = string_data str" "NUL \<notin> set str" using assms(2) bv unfolding texts_ok_def by blast
  have "values_of r h v = Some str" using bv str assms(3) by (simp add: values_of_def string_data_def)
  then show ?thesis using that b x bv str by simp
qed

lemma values_None: "cow_inv n r h \<Longrightarrow> values_of r h v = None \<longleftrightarrow> r v = None"
proof (cases "r v")
  case (Some a)
  assume "cow_inv n r h"
  then obtain str where "values_of r h v = Some str" using box_value_some [of n r h v a] Some by (auto simp: cow_inv_def)
  then show ?thesis using Some by simp
qed (simp add: values_of_def)

lemma room:
  assumes inv: "share_inv False n r h"
  shows "finite (dom (boxes h))" "card (dom (boxes h)) \<le> n" "finite (dom (objects h))" "card (dom (objects h)) \<le> n"
proof -
  note i = share_invD [OF inv]
  have fin: "finite (dom r)" using i(1) finite_subset by blast
  have b: "dom (boxes h) = ran r" using i(2) by (force simp: ran_def holders_def)
  have img: "ran r = (\<lambda>v. the (r v)) ` dom r" by (force simp: ran_def)
  show fb: "finite (dom (boxes h))" unfolding b img using fin by simp
  have "card (dom r) \<le> n" using i(1) card_mono [of "{..<n}" "dom r"] by simp
  then show cb: "card (dom (boxes h)) \<le> n" unfolding b img using card_image_le [OF fin, of "\<lambda>v. the (r v)"] by linarith
  have o: "dom (objects h) = (\<lambda>a. the (boxes h a \<bind> box_data)) ` dom (boxes h)"
  proof -
    have "dom (objects h) = ran (\<lambda>a. boxes h a \<bind> box_data)" using i(4) by (simp add: owners_def)
    also have "\<dots> = (\<lambda>a. the (boxes h a \<bind> box_data)) ` dom (boxes h)"
      using i(5) by (force simp: ran_def image_iff split: bind_splits)
    finally show ?thesis .
  qed
  show "finite (dom (objects h))" unfolding o using fb by simp
  show "card (dom (objects h)) \<le> n" unfolding o using card_image_le [OF fb, of "\<lambda>a. the (boxes h a \<bind> box_data)"] cb by linarith
qed

definition with_data :: "addr \<Rightarrow> addr \<Rightarrow> chars \<Rightarrow> chars store \<Rightarrow> chars store" where
  "with_data a ob d h = h\<lparr>objects := (objects h)(ob \<mapsto> d), boxes := (boxes h)(a \<mapsto> \<lparr>box_data = Some ob, refcount = 1\<rparr>)\<rparr>"

lemma texts_okD: "texts_ok h \<Longrightarrow> box_value h a = Some x \<Longrightarrow> \<exists>str. x = string_data str \<and> NUL \<notin> set str"
  unfolding texts_ok_def by blast

lemma new_data_alloc:
  assumes inv: "share_inv False n r h" and serve: "malloc_serves nb (n + 1)" "malloc_serves no (n + 1)"
  obtains a ob where "new_data nb no d h = Some (a, with_data a ob d h)" "boxes h a = None" "objects h ob = None"
proof -
  note rm = room [OF inv]
  obtain a j where a: "nb (boxes h) = Some (a, j)" "boxes h a = None" using malloc_servesD [OF serve(1) rm(1)] rm(2) by auto
  obtain ob j' where ob: "no (objects h) = Some (ob, j')" "objects h ob = None" using malloc_servesD [OF serve(2) rm(3)] rm(4) by auto
  show thesis by (rule that [of a ob]) (use a ob in \<open>simp_all add: new_data_def with_data_def\<close>)
qed

lemma with_data_ok:
  assumes inv: "cow_inv n r h" and v: "r v = None" "v < n" and str: "NUL \<notin> set str" and new: "boxes h a = None" "objects h ob = None"
  shows "cow_inv n (r(v \<mapsto> a)) (with_data a ob (string_data str) h)"
    "values_of (r(v \<mapsto> a)) (with_data a ob (string_data str) h) = (values_of r h)(v \<mapsto> str)"
proof -
  let ?h = "with_data a ob (string_data str) h"
  have i: "share_inv False n r h" "texts_ok h" using inv by (simp_all add: cow_inv_def)
  have sh: "share_inv False n (r(v \<mapsto> a)) ?h" unfolding with_data_def by (rule share_inv_new [OF i(1) v new(2,1)])
  have other: "box_value ?h c = box_value h c" if ne: "boxes h c \<noteq> None" for c
  proof -
    obtain d where d: "boxes h c = Some d" using ne by auto
    have "box_data d \<noteq> Some ob" using owners_mem [OF share_invD(4) [OF i(1)], of c ob] d new(2) by auto
    then show ?thesis using d new(1) by (auto simp: box_value_def load_def with_data_def split: option.splits)
  qed
  have own: "box_value ?h a = Some (string_data str)" by (simp add: box_value_def load_def with_data_def)
  have none: "boxes h c \<noteq> None" if "box_value ?h c = Some x" "c \<noteq> a" for c x
    using that by (cases "boxes h c") (auto simp: box_value_def with_data_def)
  have "texts_ok ?h" unfolding texts_ok_def
  proof (intro allI impI)
    fix c x assume c: "box_value ?h c = Some x"
    show "\<exists>str. x = string_data str \<and> NUL \<notin> set str"
    proof (cases "c = a")
      case True
      then show ?thesis using c own str by auto
    next
      case False
      then have "box_value h c = Some x" using other [OF none [OF c False]] c by simp
      then show ?thesis by (rule texts_okD [OF i(2)])
    qed
  qed
  then show "cow_inv n (r(v \<mapsto> a)) ?h" using sh by (simp add: cow_inv_def)
  show "values_of (r(v \<mapsto> a)) ?h = (values_of r h)(v \<mapsto> str)"
  proof
    fix w show "values_of (r(v \<mapsto> a)) ?h w = ((values_of r h)(v \<mapsto> str)) w"
    proof (cases "w = v")
      case True
      then show ?thesis using own by (simp add: values_of_def string_data_def)
    next
      case False
      have "boxes h c \<noteq> None" if "r w = Some c" for c using share_invD(2) [OF i(1), of c] that by (auto simp: holders_def)
      then show ?thesis using False other by (cases "r w") (auto simp: values_of_def)
    qed
  qed
qed

lemma release_inv:
  assumes inv: "cow_inv n r h" and v: "r v = Some a"
  shows "\<exists>h'. cow_release (Some a) h = Some h' \<and> cow_inv n (r(v := None)) h' \<and> values_of (r(v := None)) h' = (values_of r h)(v := None)"
proof -
  have i: "share_inv False n r h" "texts_ok h" using inv by (simp_all add: cow_inv_def)
  obtain h' where h': "cow_release (Some a) h = Some h'" "share_inv False n (r(v := None)) h'" using cow.release_keeps [OF i(1) v] by blast
  note same = cow.release_values [OF i(1) v h'(1)]
  have "texts_ok h'" unfolding texts_ok_def
  proof (intro allI impI)
    fix c x assume c: "box_value h' c = Some x"
    then have "boxes h' c \<noteq> None" by (cases "boxes h' c") (auto simp: box_value_def)
    then have "holders (r(v := None)) c \<noteq> {}" using share_invD(2) [OF h'(2), of c] by simp
    then obtain w where "(r(v := None)) w = Some c" by (auto simp: holders_def)
    then show "\<exists>str. x = string_data str \<and> NUL \<notin> set str" using same [of w c] c texts_okD [OF i(2)] by simp
  qed
  moreover have "values_of (r(v := None)) h' w = ((values_of r h)(v := None)) w" for w
    using same [of w] by (cases "r w") (auto simp: values_of_def)
  ultimately show ?thesis using h' by (auto simp: cow_inv_def)
qed

lemma retain_inv:
  assumes inv: "cow_inv n r h" and w: "r w = Some a" and v: "r v = None" "v < n" and n: "int n \<le> INT_MAX"
  shows "\<exists>h'. cow_retain (Some a) h = Some h' \<and> cow_inv n (r(v \<mapsto> a)) h' \<and> values_of (r(v \<mapsto> a)) h' = (values_of r h)(v := values_of r h w)"
proof -
  have i: "share_inv False n r h" "texts_ok h" using inv by (simp_all add: cow_inv_def)
  obtain h' where h': "cow_retain (Some a) h = Some h'" "share_inv False n (r(v \<mapsto> a)) h'" using cow.retain_keeps [OF i(1) w v n] by blast
  obtain b ob where b: "boxes h a = Some b" by (rule share_inv_box [OF i(1) w])
  have "h' = h\<lparr>boxes := (boxes h)(a \<mapsto> b\<lparr>refcount := refcount b + 1\<rparr>)\<rparr>"
    using h'(1) b by (simp add: cow_retain_def store_def refcount_steps)
  then have same: "box_value h' c = box_value h c" for c using b by (auto simp: box_value_def)
  have "texts_ok h'" using i(2) by (simp add: texts_ok_def same)
  moreover have "values_of (r(v \<mapsto> a)) h' u = ((values_of r h)(v := values_of r h w)) u" for u
    using w by (auto simp: values_of_def same)
  ultimately show ?thesis using h' by (auto simp: cow_inv_def)
qed

lemma holders_one:
  assumes "share_inv False n r h" "r v = Some a" "boxes h a = Some b" "refcount b = 1" "r w = Some a"
  shows "w = v"
proof -
  have fin: "finite (holders r a)" by (rule finite_holders [OF share_invD(1) [OF assms(1)]])
  have "card (holders r a) = 1" using share_invD(3) [OF assms(1,3)] assms(4) by simp
  then obtain z where z: "holders r a = {z}" by (rule card_1_singletonE)
  have "v \<in> holders r a" "w \<in> holders r a" using assms by (simp_all add: holders_def)
  then show ?thesis using z by simp
qed

lemma strlen_data: "NUL \<notin> set str \<Longrightarrow> c_string (snd (string_data str)) = Some str"
proof -
  assume "NUL \<notin> set str"
  then have "takeWhile (\<lambda>c. c \<noteq> NUL) (str @ [NUL]) = str" by (induction str) auto
  then show ?thesis by (simp add: c_string_def string_data_def)
qed

text \<open>Before a write the block belongs to the one variable.\<close>

lemma detach_ok:
  assumes inv: "cow_inv n r h" and v: "r v = Some a" "v < n" and serve: "malloc_serves nb (n + 1)" "malloc_serves no (n + 1)"
  shows "\<exists>p h' b. detach_if_shared nb no (Some a) h = Some (Some (Some p, h')) \<and> cow_inv n (r(v \<mapsto> p)) h' \<and>
    values_of (r(v \<mapsto> p)) h' = values_of r h \<and> boxes h' p = Some b \<and> refcount b = 1"
proof -
  have i: "share_inv False n r h" "texts_ok h" using inv by (simp_all add: cow_inv_def)
  obtain b ob str where b: "boxes h a = Some b" "refcount b = int (card (holders r a))" "0 < card (holders r a)" "box_data b = Some ob"
    "objects h ob = Some (string_data str)" "NUL \<notin> set str" "values_of r h v = Some str" by (rule box_value_some [OF i v(1)])
  show ?thesis
  proof (cases "refcount b > 1")
    case False
    then have "refcount b = 1" using b(2,3) by linarith
    moreover have "r(v \<mapsto> a) = r" using v(1) by auto
    ultimately show ?thesis using False b(1) inv by (intro exI [of _ a] exI [of _ h] exI [of _ b]) (simp add: detach_if_shared_def load_def)
  next
    case True
    let ?dec = "\<lambda>h :: chars store. h\<lparr>boxes := (boxes h)(a \<mapsto> b\<lparr>refcount := refcount b - 1\<rparr>)\<rparr>"
    obtain h1 where h1: "cow_release (Some a) h = Some h1" "cow_inv n (r(v := None)) h1" "values_of (r(v := None)) h1 = (values_of r h)(v := None)"
      using release_inv [OF inv v(1)] by blast
    have h1e: "h1 = ?dec h" using cow.release_more [OF b(1)] True h1(1) by simp
    have dom1: "dom (boxes h1) = dom (boxes h)" using b(1) by (auto simp: h1e)
    obtain p ob' where h2: "new_data nb no (string_data str) h = Some (p, with_data p ob' (string_data str) h)" "boxes h p = None" "objects h ob' = None"
      by (rule new_data_alloc [OF i(1) serve])
    have pa: "p \<noteq> a" using b(1) h2(2) by auto
    let ?h = "with_data p ob' (string_data str) h1"
    have dec: "decrement (Some a) (with_data p ob' (string_data str) h) = Some ?h"
      using b(1) pa by (simp add: decrement_def store_def refcount_steps with_data_def h1e fun_upd_twist)
    have new: "boxes h1 p = None" "objects h1 ob' = None" using h2(2,3) pa by (simp_all add: h1e)
    note w = with_data_ok [OF h1(2) _ v(2) b(6) new, simplified]
    have vs: "(values_of r h)(v \<mapsto> str) = values_of r h" using b(7) by auto
    have "detach_if_shared nb no (Some a) h = Some (Some (Some p, ?h))"
      using b True strlen_data [OF b(6)] h2(1) dec by (simp add: detach_if_shared_def load_def case_prod_unfold)
    then show ?thesis using w h1(3) vs by (intro exI [of _ p] exI [of _ ?h]) (simp add: with_data_def)
  qed
qed

text \<open>A write to a block of one's own.\<close>

lemma write_own:
  assumes inv: "cow_inv n r h" and v: "r v = Some p" and b: "boxes h p = Some b" "refcount b = 1"
    and ob: "box_data b = Some ob" "objects h ob = Some (string_data str)" and i: "i < length str" and c: "c \<noteq> NUL"
  shows "cow_inv n r (h\<lparr>objects := (objects h)(ob \<mapsto> (length str, (str @ [NUL])[i := c]))\<rparr>)" (is "cow_inv n r ?h")
    "values_of r (h\<lparr>objects := (objects h)(ob \<mapsto> (length str, (str @ [NUL])[i := c]))\<rparr>) = (values_of r h)(v \<mapsto> str[i := c])"
proof -
  have s: "share_inv False n r h" "texts_ok h" using inv by (simp_all add: cow_inv_def)
  have new: "(length str, (str @ [NUL])[i := c]) = string_data (str[i := c])" using i by (simp add: string_data_def list_update_append)
  have bv: "box_value h p = Some (string_data str)" using b ob by (simp add: box_value_def load_def)
  have nul: "NUL \<notin> set str" using texts_okD [OF s(2) bv] by (auto simp: string_data_def)
  have "set (str[i := c]) \<subseteq> insert c (set str)" by (rule set_update_subset_insert)
  then have nul': "NUL \<notin> set (str[i := c])" using nul c by auto
  have own: "box_value ?h p = Some (string_data (str[i := c]))" using b ob by (simp add: box_value_def load_def new)
  have other: "box_value ?h d = box_value h d" if dp: "d \<noteq> p" for d
  proof (cases "boxes h d")
    case (Some x)
    then have "box_data x \<noteq> Some ob" using box_objects_differ [OF s(1) b(1) Some] dp ob(1) by metis
    then show ?thesis using Some by (auto simp: box_value_def load_def split: option.splits)
  qed (simp add: box_value_def)
  have "share_inv False n r ?h"
    using s(1) ob(2) unfolding share_inv_def by (simp add: insert_absorb domIff)
  moreover have "texts_ok ?h" unfolding texts_ok_def
  proof (intro allI impI)
    fix d x assume "box_value ?h d = Some x"
    then show "\<exists>str. x = string_data str \<and> NUL \<notin> set str"
      using own nul' other [of d] texts_okD [OF s(2)] by (cases "d = p") auto
  qed
  ultimately show "cow_inv n r ?h" by (simp add: cow_inv_def)
  show "values_of r ?h = (values_of r h)(v \<mapsto> str[i := c])"
  proof
    fix w show "values_of r ?h w = ((values_of r h)(v \<mapsto> str[i := c])) w"
    proof (cases "r w = Some p")
      case True
      then have "w = v" by (rule holders_one [OF s(1) v b])
      then show ?thesis using v own by (simp add: values_of_def string_data_def)
    next
      case False
      then have "w \<noteq> v" using v by auto
      then show ?thesis using other False by (cases "r w") (auto simp: values_of_def)
    qed
  qed
qed

lemma index_write_ok:
  assumes inv: "cow_inv n r h" and v: "r v = Some a" "v < n" and c: "c \<noteq> NUL" and serve: "malloc_serves nb (n + 1)" "malloc_serves no (n + 1)"
    and str: "values_of r h v = Some str"
  shows "if i < length str
    then \<exists>p h'. index_write nb no (Some a) i c h = Some (Some (Some p, h')) \<and> cow_inv n (r(v \<mapsto> p)) h' \<and>
      values_of (r(v \<mapsto> p)) h' = (values_of r h)(v \<mapsto> str[i := c])
    else index_write nb no (Some a) i c h = Some None"
proof -
  have s: "share_inv False n r h" "texts_ok h" using inv by (simp_all add: cow_inv_def)
  obtain b ob where b: "boxes h a = Some b" "box_data b = Some ob" "objects h ob = Some (string_data str)"
    using box_value_some [OF s v(1)] str by (metis option.inject)
  have len: "fst (string_data str) = length str" by (simp add: string_data_def)
  show ?thesis
  proof (cases "i < length str")
    case False
    then show ?thesis using b len by (simp add: index_write_def index_ref_def load_def case_prod_unfold)
  next
    case True
    obtain p h1 b1 where d: "detach_if_shared nb no (Some a) h = Some (Some (Some p, h1))" "cow_inv n (r(v \<mapsto> p)) h1"
      "values_of (r(v \<mapsto> p)) h1 = values_of r h" "boxes h1 p = Some b1" "refcount b1 = 1"
      using detach_ok [OF inv v serve] by blast
    have s1: "share_inv False n (r(v \<mapsto> p)) h1" "texts_ok h1" "(r(v \<mapsto> p)) v = Some p" using d(2) by (simp_all add: cow_inv_def)
    obtain ob1 where o1: "box_data b1 = Some ob1" "objects h1 ob1 = Some (string_data str)"
      using box_value_some [OF s1] str d(3,4) by (metis option.inject)
    let ?h = "h1\<lparr>objects := (objects h1)(ob1 \<mapsto> (length str, (str @ [NUL])[i := c]))\<rparr>"
    have "index_write nb no (Some a) i c h = Some (Some (Some p, ?h))"
      using True b len d(1,4) o1 by (simp add: index_write_def index_ref_def write_ref_def load_def store_def string_data_def)
    moreover have "cow_inv n (r(v \<mapsto> p)) ?h" "values_of (r(v \<mapsto> p)) ?h = (values_of r h)(v \<mapsto> str[i := c])"
      using write_own [OF d(2) s1(3) d(4,5) o1 True c] unfolding d(3) by blast+
    ultimately show ?thesis using True by (simp only: if_True) blast
  qed
qed

lemma cow_step_ok:
  assumes inv: "cow_inv n (refs s) (heap_of s)" and n: "int n \<le> INT_MAX" and ok: "op_texts_ok n a"
    and serve: "malloc_serves nb (n + 1)" "malloc_serves no (n + 1)"
  shows "case value_step a (values_of (refs s) (heap_of s)) of
      None \<Rightarrow> cow_step nb no a s = Some None
    | Some m \<Rightarrow> \<exists>s'. cow_step nb no a s = Some (Some s') \<and> cow_inv n (refs s') (heap_of s') \<and> values_of (refs s') (heap_of s') = m"
proof -
  let ?m = "values_of (refs s) (heap_of s)"
  note none = values_None [OF inv]
  have sh: "share_inv False n (refs s) (heap_of s)" using inv by (simp add: cow_inv_def)
  show ?thesis
  proof (cases a)
    case (Make v str)
    show ?thesis
    proof (cases "refs s v")
      case None
      obtain p ob where d: "new_data nb no (string_data str) (heap_of s) = Some (p, with_data p ob (string_data str) (heap_of s))"
        "boxes (heap_of s) p = None" "objects (heap_of s) ob = None" by (rule new_data_alloc [OF sh serve])
      show ?thesis using None Make ok d(1) with_data_ok [OF inv None _ _ d(2,3), of str] none by simp
    qed (use Make inv none in simp)
  next
    case (CopyTo v w)
    show ?thesis
    proof (cases "refs s v = None \<and> refs s w \<noteq> None")
      case True
      then obtain b where "refs s w = Some b" "refs s v = None" by auto
      then show ?thesis using retain_inv [OF inv, of w b v] n ok none [of v] none [of w] by (auto simp: CopyTo)
    next
      case False
      then have "\<not> (?m v = None \<and> ?m w \<noteq> None)" using none by simp
      then have "value_step a ?m = Some ?m" using CopyTo by (simp only: value_step.simps if_False)
      moreover have "cow_step nb no a s = Some (Some s)" using False CopyTo by auto
      ultimately show ?thesis using inv by simp
    qed
  next
    case (AssignTo v w)
    consider "refs s v = None \<or> refs s w = None" | "refs s v \<noteq> None" "refs s w \<noteq> None" "v = w"
      | b c where "refs s v = Some b" "refs s w = Some c" "v \<noteq> w"
      by (cases "refs s v"; cases "refs s w"; cases "v = w") auto
    then show ?thesis
    proof cases
      case 1
      then have "(if ?m v \<noteq> None \<and> ?m w \<noteq> None then ?m(v := ?m w) else ?m) = ?m" using none [of v] none [of w] by auto
      then have "value_step a ?m = Some ?m" using AssignTo by simp
      moreover have "cow_step nb no a s = Some (Some s)" using 1 AssignTo by auto
      ultimately show ?thesis using inv by simp
    next
      case 2
      then have "value_step a ?m = Some ?m" using AssignTo by simp
      moreover have "cow_step nb no a s = Some (Some s)" using 2 AssignTo cow.assign_self by (auto simp: fun_upd_idem)
      ultimately show ?thesis using inv by simp
    next
      case bc: 3
      obtain h where h: "cow_release (Some b) (heap_of s) = Some h" "cow_inv n ((refs s)(v := None)) h"
        "values_of ((refs s)(v := None)) h = ?m(v := None)"
        using release_inv [OF inv bc(1)] by blast
      have w: "((refs s)(v := None)) w = Some c" using bc(2,3) by simp
      have v: "((refs s)(v := None)) v = None" "v < n" using ok AssignTo by simp_all
      have e: "?m(v := (?m(v := None)) w) = ?m(v := ?m w)" using bc(3) by simp
      obtain h' where h': "cow_retain (Some c) h = Some h'" "cow_inv n ((refs s)(v \<mapsto> c)) h'"
        "values_of ((refs s)(v \<mapsto> c)) h' = ?m(v := ?m w)"
        using retain_inv [OF h(2) w v n] unfolding h(3) e fun_upd_upd by (elim exE conjE) (rule that)
      show ?thesis using bc h(1) h' none [of v] none [of w] by (simp add: AssignTo cow.assign_other)
    qed
  next
    case (EndLife v)
    show ?thesis
    proof (cases "refs s v")
      case None
      then have "?m(v := None) = ?m" using none [of v] by auto
      then show ?thesis using None inv by (simp add: EndLife)
    next
      case (Some b)
      then show ?thesis using release_inv [OF inv Some] by (auto simp: EndLife)
    qed
  next
    case (WriteAt v i c)
    show ?thesis
    proof (cases "refs s v")
      case None
      then show ?thesis using none [of v] inv by (simp add: WriteAt)
    next
      case (Some b)
      obtain str where str: "?m v = Some str" using none [of v] Some by auto
      have "v < n" "c \<noteq> NUL" using ok WriteAt by simp_all
      note w = index_write_ok [OF inv Some this serve str, of i]
      show ?thesis
      proof (cases "i < length str")
        case True
        then obtain p h' where "index_write nb no (Some b) i c (heap_of s) = Some (Some (Some p, h'))" "cow_inv n ((refs s)(v \<mapsto> p)) h'"
          "values_of ((refs s)(v \<mapsto> p)) h' = ?m(v \<mapsto> str[i := c])" using w by auto
        then show ?thesis using Some str True by (simp add: WriteAt)
      next
        case False
        then show ?thesis using Some str w by (simp add: WriteAt)
      qed
    qed
  qed
qed

lemma cow_run_ok:
  assumes "int n \<le> INT_MAX" "malloc_serves nb (n + 1)" "malloc_serves no (n + 1)" "\<forall>a\<in>set as. op_texts_ok n a" "cow_inv n (refs s) (heap_of s)"
  shows "case value_run as (values_of (refs s) (heap_of s)) of
      None \<Rightarrow> cow_run nb no as s = Some None
    | Some m \<Rightarrow> \<exists>s'. cow_run nb no as s = Some (Some s') \<and> cow_inv n (refs s') (heap_of s') \<and> values_of (refs s') (heap_of s') = m"
  using assms(4,5)
proof (induction as arbitrary: s)
  case (Cons a as)
  let ?m = "values_of (refs s) (heap_of s)"
  note step = cow_step_ok [OF Cons.prems(2) assms(1) _ assms(2,3), of a]
  show ?case
  proof (cases "value_step a ?m")
    case None
    then show ?thesis using step Cons.prems(1) by simp
  next
    case (Some m)
    then obtain s' where s': "cow_step nb no a s = Some (Some s')" "cow_inv n (refs s') (heap_of s')" "values_of (refs s') (heap_of s') = m"
      using step Cons.prems(1) by auto
    have "\<forall>b\<in>set as. op_texts_ok n b" using Cons.prems(1) by simp
    from Cons.IH [OF this s'(2)] show ?thesis using Some s'(1,3) by (simp split: option.splits)
  qed
qed simp

lemma cow_start: "cow_inv n (refs share_start) (heap_of share_start)" "values_of (refs share_start) (heap_of share_start) = (\<lambda>_. None)"
  using share_start_inv by (auto simp: cow_inv_def share_start_def texts_ok_def box_value_def values_of_def)

text \<open>C38: Copy-on-write cannot be seen as long as no NUL character is stored and the reference that the writing operator returns
is used at once, in the statement \<^verbatim>\<open>s[i] = c\<close>: every program over constructions, copies, assignments (to themselves too), such
writes and ends of life behaves as if each variable had a string of its own; nothing is used after it is freed or freed twice, a
write past the end stops the program, and when no variable is left no memory is. Memory is assumed to suffice. (A reference that
is kept writes into later copies: \<open>kept_reference_leaks\<close>.)\<close>

theorem copies_are_independent:
  assumes "int n \<le> INT_MAX" "malloc_serves nb (n + 1)" "malloc_serves no (n + 1)" "\<forall>a\<in>set as. op_texts_ok n a"
  shows "case value_run as (\<lambda>_. None) of
      None \<Rightarrow> cow_run nb no as share_start = Some None
    | Some m \<Rightarrow> (\<exists>s. cow_run nb no as share_start = Some (Some s) \<and> values_of (refs s) (heap_of s) = m \<and>
        (m = (\<lambda>_. None) \<longrightarrow> boxes (heap_of s) = (\<lambda>_. None) \<and> objects (heap_of s) = (\<lambda>_. None)))"
proof -
  have empty: "boxes h = (\<lambda>_. None) \<and> objects h = (\<lambda>_. None)" if inv: "cow_inv n r h" and m: "values_of r h = (\<lambda>_. None)" for r h
  proof -
    have r: "r v = None" for v using values_None [OF inv, of v] m by (simp add: fun_eq_iff)
    have sh: "share_inv False n r h" using inv by (simp add: cow_inv_def)
    have b: "boxes h a = None" for a using share_invD(2) [OF sh, of a] r by (simp add: holders_def)
    have "dom (objects h) = ran (\<lambda>a. boxes h a \<bind> box_data)" using share_invD(4) [OF sh] by (simp add: owners_def)
    then have "dom (objects h) = {}" by (simp add: b ran_def)
    then show ?thesis using b by (auto simp: fun_eq_iff)
  qed
  show ?thesis using cow_run_ok [OF assms cow_start(1)] empty unfolding cow_start(2) by (auto split: option.splits)
qed

definition box_alloc :: "refbox allocator" where
  "box_alloc = first_free 8 \<lparr>box_data = None, refcount = 0\<rparr>"

definition chars_alloc :: "chars allocator" where
  "chars_alloc = first_free 8 (0, [])"

lemma copies_are_independent_witness:
  "\<exists>s. cow_run box_alloc chars_alloc cow_main share_start = Some (Some s) \<and>
     values_of (refs s) (heap_of s) = [1 \<mapsto> ''hello'', 2 \<mapsto> ''Jello'']"
proof -
  have m: "value_run cow_main (\<lambda>_. None) = Some [1 \<mapsto> ''hello'', 2 \<mapsto> ''Jello'']"
    by (simp add: cow_main_def fun_eq_iff)
  have "case value_run cow_main (\<lambda>_. None) of None \<Rightarrow> cow_run box_alloc chars_alloc cow_main share_start = Some None
    | Some m \<Rightarrow> (\<exists>s. cow_run box_alloc chars_alloc cow_main share_start = Some (Some s) \<and> values_of (refs s) (heap_of s) = m \<and>
        (m = (\<lambda>_. None) \<longrightarrow> boxes (heap_of s) = (\<lambda>_. None) \<and> objects (heap_of s) = (\<lambda>_. None)))"
    by (rule copies_are_independent [of 7])
      (simp_all add: INT_MAX_def box_alloc_def chars_alloc_def malloc_serves_first_free cow_main_def NUL_def)
  then show ?thesis unfolding m by auto
qed

text \<open>The output of \<^verbatim>\<open>main\<close>: two references before the write, then one each.\<close>

lemma cow_main_output:
  "map_option (map_option (\<lambda>s. (c_str (refs s 1) (heap_of s), ref_count (refs s 1) (heap_of s), c_str (refs s 2) (heap_of s), ref_count (refs s 2) (heap_of s))))
     (cow_run box_alloc chars_alloc cow_main share_start) = Some (Some (Some ''hello'', Some 1, Some ''Jello'', Some 1))"
  "map_option (map_option (\<lambda>s. (ref_count (refs s 1) (heap_of s), index_read (refs s 2) 0 (heap_of s))))
     (cow_run box_alloc chars_alloc (take 2 cow_main) share_start) = Some (Some (Some 2, Some (Some (CHR ''h''))))"
  by code_simp+

text \<open>With a NUL character in the middle the assertion checks the old length, but the copy has the shorter one: the write that
follows is outside the new array.\<close>

lemma write_after_nul_overflows:
  "cow_run box_alloc chars_alloc [Make 1 ''hello'', WriteAt 1 1 NUL, CopyTo 2 1, WriteAt 2 4 (CHR ''x'')] share_start = None"
  by code_simp

text \<open>A reference that is kept while the string is copied: the write through it is seen in the copy.\<close>

definition kept_reference :: "(string option \<times> string option) option" where
  "kept_reference =
     (case cow_run box_alloc chars_alloc [Make 1 ''hello''] share_start of
        Some (Some s) \<Rightarrow>
          (case index_ref box_alloc chars_alloc (refs s 1) 0 (heap_of s) of
             Some (Some (p, q, h)) \<Rightarrow>
               (case cow_run box_alloc chars_alloc [CopyTo 2 1] (s\<lparr>refs := (refs s)(1 := p), heap_of := h\<rparr>) of
                  Some (Some s) \<Rightarrow> map_option (\<lambda>h. (c_str (refs s 1) h, c_str (refs s 2) h)) (write_ref q 0 (CHR ''J'') (heap_of s))
                | _ \<Rightarrow> None)
           | _ \<Rightarrow> None)
      | _ \<Rightarrow> None)"

lemma kept_reference_leaks: "kept_reference = Some (Some ''Jello'', Some ''Jello'')"
  by code_simp

end
