(* ===== verification/Price_Tracker.thy ===== *)
theory Price_Tracker
  imports Prelude
begin

text \<open>
  The atomic price tracker of Day 32, \<^verbatim>\<open>Phase-2/Day32/C/AtomicPriceTracker.c\<close> and \<^verbatim>\<open>C++/AtomicPriceTracker.cpp\<close>: a writer publishes
  price, volume and then a sequence number, a reader polls; and a compare-and-swap loop that raises a shared price. A step is one
  atomic access. The values stay far below the bounds of \<^verbatim>\<open>long\<close> and are integers. The benchmark of the memory orders is not modelled.
\<close>

subsection \<open>The writer and the reader\<close>

definition NUM_UPDATES :: int where "NUM_UPDATES = 1000000"

datatype writer = Store_price int | Store_volume int | Store_seq int | Store_stop | Writer_done

datatype reader = Load_stop | Load_seq | Load_price int | Load_volume int int | Reader_done

record tracker =
  price :: int
  volume :: int
  seq_no :: int
  stop_flag :: bool
  writer :: writer
  reader :: reader
  last_seq :: int
  seen :: "(int \<times> int \<times> int) list"

definition new_price :: "int \<Rightarrow> int" where "new_price i = 10000 + i mod 500"
definition new_volume :: "int \<Rightarrow> int" where "new_volume i = (i * 7) mod 1000"

definition writer_thread :: "tracker \<Rightarrow> tracker" where
  "writer_thread s =
     (case writer s of
        Store_price i \<Rightarrow> s\<lparr>price := new_price i, writer := Store_volume i\<rparr>
      | Store_volume i \<Rightarrow> s\<lparr>volume := new_volume i, writer := Store_seq i\<rparr>
      | Store_seq i \<Rightarrow> s\<lparr>seq_no := i + 1, writer := (if i + 1 < NUM_UPDATES then Store_price (i + 1) else Store_stop)\<rparr>
      | Store_stop \<Rightarrow> s\<lparr>stop_flag := True, writer := Writer_done\<rparr>
      | Writer_done \<Rightarrow> s)"

text \<open>The code counts what it reads and forgets it; here it is kept.\<close>

definition reader_thread :: "tracker \<Rightarrow> tracker" where
  "reader_thread s =
     (case reader s of
        Load_stop \<Rightarrow> s\<lparr>reader := (if stop_flag s then Reader_done else Load_seq)\<rparr>
      | Load_seq \<Rightarrow> s\<lparr>reader := (if seq_no s \<noteq> last_seq s then Load_price (seq_no s) else Load_stop)\<rparr>
      | Load_price q \<Rightarrow> s\<lparr>reader := Load_volume q (price s)\<rparr>
      | Load_volume q p \<Rightarrow> s\<lparr>reader := Load_stop, last_seq := q, seen := seen s @ [(q, p, volume s)]\<rparr>
      | Reader_done \<Rightarrow> s)"

definition tracker_start :: tracker where
  "tracker_start = \<lparr>price = 0, volume = 0, seq_no = 0, stop_flag = False, writer = Store_price 0, reader = Load_stop, last_seq = 0, seen = []\<rparr>"

fun tracker_run :: "bool list \<Rightarrow> tracker \<Rightarrow> tracker" where
  "tracker_run [] s = s"
| "tracker_run (w # ws) s = tracker_run ws (if w then writer_thread s else reader_thread s)"

text \<open>The number the reader prints.\<close>

definition reads :: "tracker \<Rightarrow> nat" where
  "reads s = length (seen s)"

subsection \<open>Raising a price\<close>

datatype updater = U_load | U_loop int | U_return int

record best =
  best_price :: int
  updaters :: "nat \<Rightarrow> updater"

text \<open>One step of the loop: \<open>fails\<close> is a spurious failure of the weak compare-and-swap.\<close>

definition update_step :: "(nat \<Rightarrow> int) \<Rightarrow> nat \<Rightarrow> bool \<Rightarrow> best \<Rightarrow> best" where
  "update_step candidate t fails s =
     (case updaters s t of
        U_load \<Rightarrow> s\<lparr>updaters := (updaters s)(t := U_loop (best_price s))\<rparr>
      | U_loop current \<Rightarrow>
          if candidate t > current then
            (if best_price s = current \<and> \<not> fails
             then s\<lparr>best_price := candidate t, updaters := (updaters s)(t := U_return 1)\<rparr>
             else s\<lparr>updaters := (updaters s)(t := U_loop (best_price s))\<rparr>)
          else s\<lparr>updaters := (updaters s)(t := U_return 0)\<rparr>
      | U_return r \<Rightarrow> s)"

fun update_run :: "(nat \<Rightarrow> int) \<Rightarrow> (nat \<times> bool) list \<Rightarrow> best \<Rightarrow> best" where
  "update_run candidate [] s = s"
| "update_run candidate ((t, fails) # es) s = update_run candidate es (update_step candidate t fails s)"

definition update_start :: "int \<Rightarrow> best" where
  "update_start p = \<lparr>best_price = p, updaters = (\<lambda>_. U_load)\<rparr>"

text \<open>A call of the function by one thread alone, with the spurious failures as input, and the calls of \<^verbatim>\<open>main\<close>.\<close>

fun update_if_higher :: "bool list \<Rightarrow> int \<Rightarrow> int \<Rightarrow> int \<times> int" where
  "update_if_higher fails p candidate =
     (if candidate > p then
        (case fails of [] \<Rightarrow> (candidate, 1) | f # fs \<Rightarrow> if f then update_if_higher fs p candidate else (candidate, 1))
      else (p, 0))"

fun candidates_loop :: "bool list \<Rightarrow> int \<Rightarrow> int list \<Rightarrow> (int \<times> int \<times> int) list" where
  "candidates_loop fails p [] = []"
| "candidates_loop fails p (c # cs) = (let (p', updated) = update_if_higher fails p c in (c, updated, p') # candidates_loop fails p' cs)"

definition candidates :: "int list" where
  "candidates = [100, 250, 90, 300, 300, 500]"

declare update_if_higher.simps [simp del]

subsection \<open>What the reader sees\<close>

text \<open>How many prices, volumes and sequence numbers are published.\<close>

fun prices_out :: "writer \<Rightarrow> int" where
  "prices_out (Store_price i) = i"
| "prices_out (Store_volume i) = i + 1"
| "prices_out (Store_seq i) = i + 1"
| "prices_out w = NUM_UPDATES"

fun volumes_out :: "writer \<Rightarrow> int" where
  "volumes_out (Store_seq i) = i + 1"
| "volumes_out (Store_volume i) = i"
| "volumes_out w = prices_out w"

fun seqs_out :: "writer \<Rightarrow> int" where
  "seqs_out (Store_seq i) = i"
| "seqs_out w = volumes_out w"

text \<open>Price and volume of the \<open>k\<close>-th update, counted from 1 like the sequence numbers.\<close>

definition price_at :: "int \<Rightarrow> int" where "price_at k = (if k = 0 then 0 else new_price (k - 1))"
definition volume_at :: "int \<Rightarrow> int" where "volume_at k = (if k = 0 then 0 else new_volume (k - 1))"

fun writer_ok :: "writer \<Rightarrow> bool" where
  "writer_ok (Store_price i) = (0 \<le> i \<and> i < NUM_UPDATES)"
| "writer_ok (Store_volume i) = (0 \<le> i \<and> i < NUM_UPDATES)"
| "writer_ok (Store_seq i) = (0 \<le> i \<and> i < NUM_UPDATES)"
| "writer_ok w = True"

definition entry_ok :: "int \<Rightarrow> int \<Rightarrow> int \<times> int \<times> int \<Rightarrow> bool" where
  "entry_ok np nv e = (case e of (q, p, v) \<Rightarrow>
     1 \<le> q \<and> (\<exists>i j. q \<le> i \<and> q \<le> j \<and> i \<le> j + 1 \<and> i \<le> np \<and> j \<le> nv \<and> p = price_at i \<and> v = volume_at j))"

fun reader_ok :: "tracker \<Rightarrow> reader \<Rightarrow> bool" where
  "reader_ok s (Load_price q) = (last_seq s < q \<and> q \<le> seqs_out (writer s))"
| "reader_ok s (Load_volume q p) = (last_seq s < q \<and> q \<le> seqs_out (writer s) \<and>
     (\<exists>i. q \<le> i \<and> i \<le> prices_out (writer s) \<and> p = price_at i))"
| "reader_ok s r = True"

definition tracker_inv :: "tracker \<Rightarrow> bool" where
  "tracker_inv s \<longleftrightarrow> writer_ok (writer s) \<and> price s = price_at (prices_out (writer s)) \<and> volume s = volume_at (volumes_out (writer s)) \<and>
     seq_no s = seqs_out (writer s) \<and> reader_ok s (reader s) \<and>
     0 \<le> last_seq s \<and> last_seq s \<le> seq_no s \<and> int (length (seen s)) \<le> last_seq s \<and>
     (\<forall>e\<in>set (seen s). entry_ok (prices_out (writer s)) (volumes_out (writer s)) e \<and> fst e \<le> last_seq s) \<and>
     sorted_wrt (<) (map fst (seen s))"

lemma outs_order:
  "writer_ok w \<Longrightarrow> seqs_out w \<le> volumes_out w \<and> volumes_out w \<le> prices_out w \<and> prices_out w \<le> volumes_out w + 1 \<and> 0 \<le> seqs_out w \<and>
     prices_out w \<le> NUM_UPDATES"
  by (cases w) (auto simp: NUM_UPDATES_def)

lemma entry_mono: "entry_ok np nv e \<Longrightarrow> np \<le> np' \<Longrightarrow> nv \<le> nv' \<Longrightarrow> entry_ok np' nv' e"
proof -
  assume a: "entry_ok np nv e" "np \<le> np'" "nv \<le> nv'"
  obtain q p v where e: "e = (q, p, v)" by (cases e)
  obtain i j where "1 \<le> q" "q \<le> i" "q \<le> j" "i \<le> j + 1" "i \<le> np" "j \<le> nv" "p = price_at i" "v = volume_at j"
    using a(1) unfolding entry_ok_def e prod.case by blast
  then show ?thesis unfolding entry_ok_def e prod.case using a(2,3) order_trans by metis
qed

lemma writer_outs:
  assumes "tracker_inv s"
  shows "prices_out (writer s) \<le> prices_out (writer (writer_thread s))" "volumes_out (writer s) \<le> volumes_out (writer (writer_thread s))"
    "seqs_out (writer s) \<le> seqs_out (writer (writer_thread s))" "writer_ok (writer (writer_thread s))"
    "price (writer_thread s) = price_at (prices_out (writer (writer_thread s)))"
    "volume (writer_thread s) = volume_at (volumes_out (writer (writer_thread s)))"
    "seq_no (writer_thread s) = seqs_out (writer (writer_thread s))"
proof -
  have "prices_out (writer s) \<le> prices_out (writer (writer_thread s)) \<and> volumes_out (writer s) \<le> volumes_out (writer (writer_thread s)) \<and>
    seqs_out (writer s) \<le> seqs_out (writer (writer_thread s)) \<and> writer_ok (writer (writer_thread s)) \<and>
    price (writer_thread s) = price_at (prices_out (writer (writer_thread s))) \<and>
    volume (writer_thread s) = volume_at (volumes_out (writer (writer_thread s))) \<and>
    seq_no (writer_thread s) = seqs_out (writer (writer_thread s))" (is ?g)
  proof (cases "writer s")
    case (Store_price i)
    then show ?g using assms by (simp add: tracker_inv_def writer_thread_def price_at_def)
  next
    case (Store_volume i)
    then show ?g using assms by (simp add: tracker_inv_def writer_thread_def volume_at_def)
  next
    case (Store_seq i)
    have "i + 1 < NUM_UPDATES \<or> \<not> i + 1 < NUM_UPDATES \<and> NUM_UPDATES = i + 1" using assms Store_seq by (auto simp: tracker_inv_def)
    then show ?g using assms Store_seq by (elim disjE conjE) (simp_all add: tracker_inv_def writer_thread_def)
  qed (use assms in \<open>simp_all add: tracker_inv_def writer_thread_def\<close>)
  then show "prices_out (writer s) \<le> prices_out (writer (writer_thread s))" "volumes_out (writer s) \<le> volumes_out (writer (writer_thread s))"
    "seqs_out (writer s) \<le> seqs_out (writer (writer_thread s))" "writer_ok (writer (writer_thread s))"
    "price (writer_thread s) = price_at (prices_out (writer (writer_thread s)))"
    "volume (writer_thread s) = volume_at (volumes_out (writer (writer_thread s)))"
    "seq_no (writer_thread s) = seqs_out (writer (writer_thread s))" by simp_all
qed

lemma writer_rest: "reader (writer_thread s) = reader s" "last_seq (writer_thread s) = last_seq s" "seen (writer_thread s) = seen s"
  by (simp_all add: writer_thread_def split: writer.split)

lemma writer_inv:
  assumes inv: "tracker_inv s"
  shows "tracker_inv (writer_thread s)"
proof -
  note w = writer_outs [OF inv] and r = writer_rest [of s]
  have "reader_ok (writer_thread s) (reader s)"
  proof (cases "reader s")
    case (Load_volume q p)
    then obtain i where "last_seq s < q" "q \<le> seqs_out (writer s)" "q \<le> i" "i \<le> prices_out (writer s)" "p = price_at i"
      using inv by (auto simp: tracker_inv_def)
    then show ?thesis using w(1,3) r(2) unfolding Load_volume reader_ok.simps by force
  qed (use inv w(3) r(2) in \<open>auto simp: tracker_inv_def\<close>)
  moreover have "\<forall>e\<in>set (seen s). entry_ok (prices_out (writer (writer_thread s))) (volumes_out (writer (writer_thread s))) e \<and> fst e \<le> last_seq s"
    using inv entry_mono [OF _ w(1,2)] by (simp add: tracker_inv_def)
  moreover have "last_seq s \<le> seqs_out (writer (writer_thread s))" using inv w(3) by (simp add: tracker_inv_def)
  ultimately show ?thesis using inv w(4-7) by (simp add: tracker_inv_def r)
qed

lemma reader_inv:
  assumes inv: "tracker_inv s"
  shows "tracker_inv (reader_thread s)"
proof (cases "reader s")
  case Load_stop
  then show ?thesis using inv by (simp add: tracker_inv_def reader_thread_def)
next
  case Load_seq
  then show ?thesis using inv by (auto simp: tracker_inv_def reader_thread_def)
next
  case (Load_price q)
  then have "q \<le> prices_out (writer s)" using inv outs_order [of "writer s"] by (auto simp: tracker_inv_def)
  then show ?thesis using inv Load_price by (auto simp: tracker_inv_def reader_thread_def)
next
  case (Load_volume q p)
  note o = outs_order [of "writer s"]
  obtain i where i: "last_seq s < q" "q \<le> seqs_out (writer s)" "q \<le> i" "i \<le> prices_out (writer s)" "p = price_at i"
    using inv Load_volume by (auto simp: tracker_inv_def)
  have "entry_ok (prices_out (writer s)) (volumes_out (writer s)) (q, p, volume s)"
    unfolding entry_ok_def prod.case
    using i inv o by (intro conjI exI [of _ i] exI [of _ "volumes_out (writer s)"]) (auto simp: tracker_inv_def)
  then show ?thesis using inv i Load_volume
    by (auto simp: tracker_inv_def reader_thread_def sorted_wrt_append)
next
  case Reader_done
  then show ?thesis using inv by (simp add: reader_thread_def)
qed

lemma tracker_start_inv: "tracker_inv tracker_start"
  by (simp add: tracker_inv_def tracker_start_def NUM_UPDATES_def price_at_def volume_at_def)

lemma tracker_run_inv: "tracker_inv s \<Longrightarrow> tracker_inv (tracker_run ws s)"
  by (induction ws arbitrary: s) (simp_all add: writer_inv reader_inv)

text \<open>In every interleaving the reader never gets a price or a volume older than the sequence number it has read, its sequence
numbers increase and it counts at most one million updates; but price and volume may belong to different updates, and do in one
of the interleavings.\<close>

theorem reader_never_stale:
  "(\<forall>e\<in>set (seen (tracker_run ws tracker_start)). entry_ok NUM_UPDATES NUM_UPDATES e) \<and>
   sorted_wrt (<) (map fst (seen (tracker_run ws tracker_start))) \<and>
   int (reads (tracker_run ws tracker_start)) \<le> NUM_UPDATES \<and>
   seen (tracker_run ([True, True, True, False, False, True] @ replicate 2 False) tracker_start) = [(1, new_price 1, new_volume 0)]"
proof (intro conjI)
  let ?s = "tracker_run ws tracker_start"
  have inv: "tracker_inv ?s" by (rule tracker_run_inv [OF tracker_start_inv])
  then have o: "prices_out (writer ?s) \<le> NUM_UPDATES" "volumes_out (writer ?s) \<le> NUM_UPDATES" "seqs_out (writer ?s) \<le> NUM_UPDATES"
    using outs_order [of "writer ?s"] by (auto simp: tracker_inv_def)
  show "\<forall>e\<in>set (seen ?s). entry_ok NUM_UPDATES NUM_UPDATES e"
    using inv entry_mono [OF _ o(1,2)] by (simp add: tracker_inv_def)
  show "sorted_wrt (<) (map fst (seen ?s))" using inv by (simp add: tracker_inv_def)
  show "int (reads ?s) \<le> NUM_UPDATES" using inv o(3) by (simp add: tracker_inv_def reads_def)
  show "seen (tracker_run ([True, True, True, False, False, True] @ replicate 2 False) tracker_start) = [(1, new_price 1, new_volume 0)]"
    by code_simp
qed

lemma reader_never_stale_witness:
  "entry_ok NUM_UPDATES NUM_UPDATES (1, new_price 1, new_volume 0)"
proof -
  let ?ws = "[True, True, True, False, False, True] @ replicate 2 False"
  have "(1, new_price 1, new_volume 0) \<in> set (seen (tracker_run ?ws tracker_start))"
    using reader_never_stale [of ?ws] by (metis list.set_intros(1))
  then show ?thesis using reader_never_stale [of ?ws] by blast
qed

subsection \<open>Raising a price\<close>

definition best_inv :: "(nat \<Rightarrow> int) \<Rightarrow> int \<Rightarrow> best \<Rightarrow> bool" where
  "best_inv candidate p s \<longleftrightarrow> p \<le> best_price s \<and>
     (best_price s \<noteq> p \<longrightarrow> (\<exists>t. updaters s t = U_return 1 \<and> candidate t = best_price s)) \<and>
     (\<forall>t c. updaters s t = U_loop c \<longrightarrow> p \<le> c \<and> c \<le> best_price s) \<and>
     (\<forall>t r. updaters s t = U_return r \<longrightarrow> (r = 0 \<or> r = 1) \<and> candidate t \<le> best_price s \<and> (r = 1 \<longrightarrow> p < candidate t))"

lemma update_step_inv:
  assumes inv: "best_inv candidate p s"
  shows "best_inv candidate p (update_step candidate t fails s)"
proof (cases "\<exists>r. updaters s t = U_return r")
  case True
  then show ?thesis using inv by (auto simp: update_step_def)
next
  case False
  have keep: "\<exists>u. ((updaters s)(t := x)) u = U_return 1 \<and> candidate u = best_price s" if ne: "best_price s \<noteq> p" for x
  proof -
    obtain u where "updaters s u = U_return 1" "candidate u = best_price s" using inv ne by (auto simp: best_inv_def)
    moreover from this have "u \<noteq> t" using False by auto
    ultimately show ?thesis by (intro exI [of _ u]) simp
  qed
  have change: "best_inv candidate p (s\<lparr>updaters := (updaters s)(t := x)\<rparr>)"
    if "\<And>c. x = U_loop c \<Longrightarrow> p \<le> c \<and> c \<le> best_price s" "\<And>r. x = U_return r \<Longrightarrow> r = 0 \<and> candidate t \<le> best_price s" for x
    using inv keep that by (auto simp: best_inv_def)
  have lo: "p \<le> best_price s" using inv by (simp add: best_inv_def)
  show ?thesis
  proof (cases "updaters s t")
    case U_load
    then have "update_step candidate t fails s = s\<lparr>updaters := (updaters s)(t := U_loop (best_price s))\<rparr>" by (simp add: update_step_def)
    then show ?thesis using change [of "U_loop (best_price s)"] lo by simp
  next
    case (U_loop c)
    have c: "p \<le> c" "c \<le> best_price s" using inv U_loop by (auto simp: best_inv_def)
    consider "candidate t \<le> c" | "c < candidate t" "best_price s = c \<and> \<not> fails" | "c < candidate t" "\<not> (best_price s = c \<and> \<not> fails)"
      by linarith
    then show ?thesis
    proof cases
      case 1
      then have "update_step candidate t fails s = s\<lparr>updaters := (updaters s)(t := U_return 0)\<rparr>" using U_loop by (simp add: update_step_def)
      then show ?thesis using change [of "U_return 0"] 1 c by simp
    next
      case 2
      then have e: "update_step candidate t fails s = s\<lparr>best_price := candidate t, updaters := (updaters s)(t := U_return 1)\<rparr>"
        using U_loop by (simp add: update_step_def)
      have up: "best_price s < candidate t" "p < candidate t" using 2 c by auto
      have "p \<le> d \<and> d \<le> candidate t" if "updaters s u = U_loop d" for u d using inv that up unfolding best_inv_def by fastforce
      moreover have "(r = 0 \<or> r = 1) \<and> candidate u \<le> candidate t \<and> (r = 1 \<longrightarrow> p < candidate u)" if "updaters s u = U_return r" for u r
        using inv that up unfolding best_inv_def by fastforce
      ultimately show ?thesis unfolding e best_inv_def using up by auto
    next
      case 3
      then have "update_step candidate t fails s = s\<lparr>updaters := (updaters s)(t := U_loop (best_price s))\<rparr>"
        using U_loop by (auto simp: update_step_def)
      then show ?thesis using change [of "U_loop (best_price s)"] lo by simp
    qed
  qed (use False in simp)
qed

lemma update_run_inv: "best_inv candidate p s \<Longrightarrow> best_inv candidate p (update_run candidate es s)"
proof (induction es arbitrary: s)
  case (Cons e es)
  then show ?case by (cases e) (simp add: update_step_inv)
qed simp

text \<open>C39: Any number of threads may raise the price at once, with spurious failures at any time: when all have returned, the price
is the largest of the candidates and the initial price, and exactly the candidates above the initial price can have been stored.
One thread alone returns 1 exactly when its candidate is higher.\<close>

theorem price_is_the_maximum:
  assumes "s = update_run candidate es (update_start p)" "\<And>t. t < n \<Longrightarrow> \<exists>r. updaters s t = U_return r" "\<And>t. n \<le> t \<Longrightarrow> updaters s t = U_load"
  shows "best_price s = Max (insert p (candidate ` {..<n})) \<and>
    (\<forall>t<n. updaters s t = U_return 1 \<longrightarrow> p < candidate t) \<and>
    update_if_higher fails q c = (if q < c then (c, 1) else (q, 0))"
proof (intro conjI)
  have "best_inv candidate p (update_start p)" by (simp add: best_inv_def update_start_def)
  then have inv: "best_inv candidate p s" unfolding assms(1) by (rule update_run_inv)
  show "best_price s = Max (insert p (candidate ` {..<n}))"
  proof (rule Max_eqI [symmetric])
    fix y assume "y \<in> insert p (candidate ` {..<n})"
    then show "y \<le> best_price s" using inv assms(2) by (fastforce simp: best_inv_def)
  next
    have "\<exists>t<n. candidate t = best_price s" if "best_price s \<noteq> p"
    proof -
      obtain t where t: "updaters s t = U_return 1" "candidate t = best_price s" using inv \<open>best_price s \<noteq> p\<close> by (auto simp: best_inv_def)
      then have "t < n" using assms(3) [of t] by (cases "t < n") auto
      then show ?thesis using t by blast
    qed
    then show "best_price s \<in> insert p (candidate ` {..<n})" by force
  qed simp
  show "\<forall>t<n. updaters s t = U_return 1 \<longrightarrow> p < candidate t" using inv by (auto simp: best_inv_def)
  show "update_if_higher fails q c = (if q < c then (c, 1) else (q, 0))"
    by (induction fails) (subst update_if_higher.simps, simp)+
qed

lemma price_is_the_maximum_witness:
  "best_price (update_run (\<lambda>t. [100, 250] ! t) [(0, False), (1, False), (0, True), (0, False), (1, False), (1, False)] (update_start 0)) = 250"
proof -
  let ?s = "update_run (\<lambda>t. [100, 250] ! t) [(0, False), (1, False), (0, True), (0, False), (1, False), (1, False)] (update_start 0)"
  have e: "?s = \<lparr>best_price = 250, updaters = (\<lambda>_. U_load)(0 := U_return 1, 1 := U_return 1)\<rparr>"
    by (simp add: update_start_def update_step_def fun_eq_iff)
  have r: "\<exists>r. updaters ?s t = U_return r" if "t < 2" for t using that unfolding e by (auto simp: less_2_cases_iff)
  have l: "updaters ?s t = U_load" if "2 \<le> t" for t using that unfolding e by auto
  have "best_price ?s = Max (insert 0 ((\<lambda>t. [100, 250] ! t) ` {..<2}))"
    using price_is_the_maximum [OF refl r l, where fails = "[]" and q = 0 and c = 0] by blast
  also have "{..<2} = {0, 1 :: nat}" by auto
  finally show ?thesis by simp
qed

lemma candidates_output:
  "map (fst \<circ> snd) (candidates_loop [] 0 candidates) = [1, 1, 0, 1, 0, 1]" "map (snd \<circ> snd) (candidates_loop [] 0 candidates) = [100, 250, 250, 300, 300, 500]"
  by code_simp+

end
