(* ===== verification/Worker_Pool.thy ===== *)
theory Worker_Pool
  imports Prelude "HOL-Library.Multiset"
begin

text \<open>
  The market pool of Day 31, \<^verbatim>\<open>Phase-2/Day31/C/MarketPool.c\<close> and \<^verbatim>\<open>C++/MarketPool.cpp\<close>: workers take ticks from a shared queue
  under a mutex and print them. A step is one critical section or one line printed; a schedule says whose step is next and, in C,
  whether locking succeeds. Unlocking and joining succeed. The price is a \<^verbatim>\<open>double\<close> that holds the integers 150 to 161 exactly.
\<close>

subsection \<open>The programs\<close>

definition NUM_WORKERS :: nat where "NUM_WORKERS = 4"
definition TOTAL_TICKS :: nat where "TOTAL_TICKS = 12"

record Tick =
  symbol :: string
  price :: int
  tick_id :: int

datatype worker = W_run | W_print Tick | W_exit bool

record pool =
  current_tick :: nat
  workers :: "nat \<Rightarrow> worker"
  printed :: "(nat \<times> Tick) list"

definition set_worker :: "nat \<Rightarrow> worker \<Rightarrow> pool \<Rightarrow> pool" where
  "set_worker w x s = s\<lparr>workers := (workers s)(w := x)\<rparr>"

definition tick_queue :: "Tick list" where
  "tick_queue = map (\<lambda>i. \<lparr>symbol = ''AAPL'', price = 150 + int i, tick_id = int i + 1\<rparr>) [0..<TOTAL_TICKS]"

definition worker_func :: "bool \<Rightarrow> nat \<Rightarrow> pool \<Rightarrow> pool" where
  "worker_func lock_ok w s =
     (case workers s w of
        W_run \<Rightarrow>
          if \<not> lock_ok then set_worker w (W_exit True) s
          else if current_tick s < TOTAL_TICKS
          then set_worker w (W_print (tick_queue ! current_tick s)) (s\<lparr>current_tick := current_tick s + 1\<rparr>)
          else set_worker w (W_exit False) s
      | W_print t \<Rightarrow> set_worker w W_run (s\<lparr>printed := printed s @ [(w, t)]\<rparr>)
      | W_exit e \<Rightarrow> s)"

fun pool_run :: "nat \<Rightarrow> (nat \<times> bool) list \<Rightarrow> pool \<Rightarrow> pool" where
  "pool_run n [] s = s"
| "pool_run n ((w, lock_ok) # es) s = pool_run n es (if w < n then worker_func lock_ok w s else s)"

definition pool_start :: pool where
  "pool_start = \<lparr>current_tick = 0, workers = (\<lambda>_. W_run), printed = []\<rparr>"

text \<open>The threads are created until the first failure.\<close>

definition spawned :: "bool list \<Rightarrow> nat" where
  "spawned creates = length (takeWhile (\<lambda>ok. ok) (take NUM_WORKERS creates))"

definition exited :: "nat \<Rightarrow> pool \<Rightarrow> bool" where
  "exited n s \<longleftrightarrow> list_all (\<lambda>w. case workers s w of W_exit e \<Rightarrow> True | _ \<Rightarrow> False) [0..<n]"

text \<open>The exit status and what was printed; \<open>None\<close> while a worker is still running.\<close>

definition pool_main :: "bool list \<Rightarrow> (nat \<times> bool) list \<Rightarrow> (int \<times> (nat \<times> Tick) list) option" where
  "pool_main creates es =
     (let n = spawned creates; s = pool_run n es pool_start in
      if \<not> exited n s then None
      else Some (if n < NUM_WORKERS \<or> list_ex (\<lambda>w. workers s w = W_exit True) [0..<n] then 1 else 0, printed s))"

text \<open>In C++ the queue is a vector that the pool owns, locking does not fail, and a thread that cannot be created ends the program
with an exception after the others were joined.\<close>

definition worker_loop :: "Tick list \<Rightarrow> nat \<Rightarrow> pool \<Rightarrow> pool" where
  "worker_loop queue w s =
     (case workers s w of
        W_run \<Rightarrow>
          if length queue \<le> current_tick s then set_worker w (W_exit False) s
          else set_worker w (W_print (queue ! current_tick s)) (s\<lparr>current_tick := current_tick s + 1\<rparr>)
      | W_print t \<Rightarrow> set_worker w W_run (s\<lparr>printed := printed s @ [(w, t)]\<rparr>)
      | W_exit e \<Rightarrow> s)"

fun cpp_pool_run :: "Tick list \<Rightarrow> nat \<Rightarrow> nat list \<Rightarrow> pool \<Rightarrow> pool" where
  "cpp_pool_run queue n [] s = s"
| "cpp_pool_run queue n (w # es) s = cpp_pool_run queue n es (if w < n then worker_loop queue w s else s)"

definition cpp_pool_main :: "bool list \<Rightarrow> nat list \<Rightarrow> (int \<times> (nat \<times> Tick) list) option" where
  "cpp_pool_main creates es =
     (let n = spawned creates; s = cpp_pool_run tick_queue n es pool_start in
      if \<not> exited n s then None else Some (if n < NUM_WORKERS then 1 else 0, printed s))"

subsection \<open>Every tick is printed once\<close>

fun in_hand :: "worker \<Rightarrow> Tick multiset" where
  "in_hand (W_print t) = {#t#}"
| "in_hand x = {#}"

definition pool_inv :: "nat \<Rightarrow> pool \<Rightarrow> bool" where
  "pool_inv n s \<longleftrightarrow> current_tick s \<le> TOTAL_TICKS \<and>
     mset (map snd (printed s)) + (\<Sum>w<n. in_hand (workers s w)) = mset (take (current_tick s) tick_queue) \<and>
     (\<forall>w<n. workers s w = W_exit False \<longrightarrow> current_tick s = TOTAL_TICKS)"

lemma length_tick_queue: "length tick_queue = TOTAL_TICKS"
  by (simp add: tick_queue_def)

lemma hands_update:
  fixes n :: nat
  assumes "w < n"
  shows "(\<Sum>v<n. in_hand ((f(w := x)) v)) + in_hand (f w) = (\<Sum>v<n. in_hand (f v)) + in_hand x"
proof -
  have n: "w \<in> {..<n}" "finite {..<n}" using assms by simp_all
  have "(\<Sum>v\<in>{..<n} - {w}. in_hand ((f(w := x)) v)) = (\<Sum>v\<in>{..<n} - {w}. in_hand (f v))" by (intro sum.cong) auto
  then show ?thesis
    unfolding sum.remove [OF n(2,1), of "\<lambda>v. in_hand ((f(w := x)) v)"] sum.remove [OF n(2,1), of "\<lambda>v. in_hand (f v)"] by simp
qed

lemma worker_inv:
  assumes inv: "pool_inv n s" and w: "w < n"
  shows "pool_inv n (worker_func ok w s)"
proof (cases "workers s w")
  case W_run
  show ?thesis
  proof (cases "ok \<and> current_tick s < TOTAL_TICKS")
    case True
    let ?t = "tick_queue ! current_tick s"
    have "take (current_tick s + 1) tick_queue = take (current_tick s) tick_queue @ [?t]"
      using True by (simp add: take_Suc_conv_app_nth length_tick_queue)
    then show ?thesis using True W_run inv hands_update [OF w, of "workers s" "W_print ?t"]
      by (auto simp: worker_func_def pool_inv_def set_worker_def)
  next
    case False
    then show ?thesis using W_run inv hands_update [OF w, of "workers s" "W_exit True"] hands_update [OF w, of "workers s" "W_exit False"]
      by (auto simp: worker_func_def pool_inv_def set_worker_def)
  qed
next
  case (W_print t)
  then have "(\<Sum>v<n. in_hand (workers s v)) = add_mset t (\<Sum>v<n. in_hand (((workers s)(w := W_run)) v))"
    using hands_update [OF w, of "workers s" W_run] by simp
  then show ?thesis using inv W_print by (simp add: worker_func_def pool_inv_def set_worker_def)
next
  case (W_exit e)
  then show ?thesis using inv by (simp add: worker_func_def)
qed

lemma pool_run_inv: "pool_inv n s \<Longrightarrow> pool_inv n (pool_run n es s)"
proof (induction es arbitrary: s)
  case (Cons e es)
  then show ?case by (cases e) (simp add: worker_inv)
qed simp

lemma pool_start_inv: "pool_inv n pool_start"
  by (simp add: pool_inv_def pool_start_def)

lemma exited_hands:
  assumes "exited n s"
  shows "(\<Sum>w<n. in_hand (workers s w)) = {#}"
proof (rule sum.neutral, rule ballI)
  fix w assume "w \<in> {..<n}"
  then show "in_hand (workers s w) = {#}" using assms by (cases "workers s w") (auto simp: exited_def list_all_iff dest!: bspec [of _ _ w])
qed

lemma worker_loop_eq: "worker_loop tick_queue w s = worker_func True w s"
  by (auto simp: worker_loop_def worker_func_def length_tick_queue split: worker.split)

lemma cpp_pool_run_eq: "cpp_pool_run tick_queue n es s = pool_run n (map (\<lambda>w. (w, True)) es) s"
  by (induction es arbitrary: s) (simp_all add: worker_loop_eq)

lemma no_error_without_lock_failure:
  "workers s w \<noteq> W_exit True \<Longrightarrow> workers (pool_run n (map (\<lambda>w. (w, True)) es) s) w \<noteq> W_exit True"
proof (induction es arbitrary: s)
  case (Cons e es)
  have "workers (worker_func True e s) w \<noteq> W_exit True"
    using Cons.prems by (cases "workers s e") (auto simp: worker_func_def set_worker_def)
  then show ?case using Cons by simp
qed simp

text \<open>Whatever the interleaving, a tick is never printed twice; when the program succeeds it has printed every tick once, and
it succeeds only if all workers were created. The C++ pool is the C pool in which locking does not fail.\<close>

theorem each_tick_once:
  "(case pool_main creates es of
      None \<Rightarrow> True
    | Some (status, out) \<Rightarrow> mset (map snd out) \<subseteq># mset tick_queue \<and>
        (status = 0 \<longrightarrow> mset (map snd out) = mset tick_queue \<and> spawned creates = NUM_WORKERS)) \<and>
   mset (map snd (printed (pool_run n es pool_start))) \<subseteq># mset tick_queue \<and>
   cpp_pool_main creates ws = pool_main creates (map (\<lambda>w. (w, True)) ws)"
proof (intro conjI)
  have sub: "mset (take k tick_queue) \<subseteq># mset tick_queue" for k
    by (metis append_take_drop_id mset_append mset_subset_eq_add_left)
  have "mset (map snd (printed s)) \<subseteq># mset (take (current_tick s) tick_queue)" if "pool_inv n s" for n s
    using that unfolding pool_inv_def by (metis mset_subset_eq_add_left)
  then have printed: "mset (map snd (printed s)) \<subseteq># mset tick_queue" if "pool_inv n s" for n s
    using that sub subset_mset.order_trans by blast
  then show "mset (map snd (printed (pool_run n es pool_start))) \<subseteq># mset tick_queue"
    using pool_run_inv [OF pool_start_inv] by blast
  show "case pool_main creates es of None \<Rightarrow> True
    | Some (status, out) \<Rightarrow> mset (map snd out) \<subseteq># mset tick_queue \<and>
        (status = 0 \<longrightarrow> mset (map snd out) = mset tick_queue \<and> spawned creates = NUM_WORKERS)"
  proof (cases "pool_main creates es")
    case (Some x)
    let ?n = "spawned creates"
    let ?s = "pool_run ?n es pool_start"
    have inv: "pool_inv ?n ?s" by (rule pool_run_inv [OF pool_start_inv])
    have e: "exited ?n ?s" and x: "x = (if ?n < NUM_WORKERS \<or> list_ex (\<lambda>w. workers ?s w = W_exit True) [0..<?n] then 1 else 0, printed ?s)"
      using Some by (auto simp: pool_main_def Let_def split: if_splits)
    have "mset (map snd (printed ?s)) = mset tick_queue \<and> ?n = NUM_WORKERS"
      if "\<not> ?n < NUM_WORKERS" "\<not> list_ex (\<lambda>w. workers ?s w = W_exit True) [0..<?n]"
    proof -
      have le: "?n \<le> NUM_WORKERS" unfolding spawned_def using length_takeWhile_le [of "\<lambda>ok. ok" "take NUM_WORKERS creates"] by simp
      have "0 < ?n" using that(1) by (simp add: NUM_WORKERS_def)
      then have z: "0 \<in> set [0..<?n]" by simp
      have "workers ?s 0 \<noteq> W_exit True" using that(2) z unfolding list_ex_iff by blast
      moreover have "case workers ?s 0 of W_exit e \<Rightarrow> True | _ \<Rightarrow> False" using e z unfolding exited_def list_all_iff by blast
      ultimately have "workers ?s 0 = W_exit False" by (cases "workers ?s 0") auto
      then have "current_tick ?s = TOTAL_TICKS" using inv \<open>0 < ?n\<close> by (simp add: pool_inv_def)
      then have "mset (map snd (printed ?s)) = mset tick_queue"
        using inv exited_hands [OF e] by (simp add: pool_inv_def length_tick_queue)
      then show ?thesis using that(1) le by simp
    qed
    then show ?thesis using Some x printed [OF inv] by simp
  qed simp
  show "cpp_pool_main creates ws = pool_main creates (map (\<lambda>w. (w, True)) ws)"
    using no_error_without_lock_failure [of pool_start]
    by (auto simp: cpp_pool_main_def pool_main_def cpp_pool_run_eq Let_def list_ex_iff pool_start_def)
qed

text \<open>One worker alone, and two in turn.\<close>

lemma each_tick_once_witness:
  "(case pool_main [True, True, True, True] (concat (replicate 26 [(0, True), (1, True), (2, True), (3, True)])) of
     None \<Rightarrow> True | Some (status, out) \<Rightarrow> mset (map snd out) \<subseteq># mset tick_queue)"
  using each_tick_once [of "[True, True, True, True]" "concat (replicate 26 [(0, True), (1, True), (2, True), (3, True)])" 0 "[]"]
  by (auto split: option.splits prod.splits)

lemma pool_succeeds:
  "map_option (\<lambda>(r, out). (r, map (tick_id \<circ> snd) out))
     (pool_main [True, True, True, True] (concat (replicate 8 [(0, True), (1, True), (2, True), (3, True)]))) =
   Some (0, [1, 2, 3, 4, 5, 6, 7, 8, 9, 10, 11, 12])"
  by code_simp

end
