(* ===== verification/Turn_Taking.thy ===== *)
theory Turn_Taking
  imports Prelude
begin

text \<open>
  The condition-variable test of Day 38, \<^verbatim>\<open>Phase-2/Day38/C/fistTest.c\<close>: two threads increment and decrement a counter ten times
  each, in turn. A step is a critical section, up to the wait or up to the unlock; a waiting thread moves only when it is signalled or
  wakes spuriously. Thread 0 increments, thread 1 decrements.
\<close>

subsection \<open>The program\<close>

datatype place = Ready nat | Waiting nat | Returned

record shared =
  count :: u64
  turn :: bool
  places :: "nat \<Rightarrow> place"
  printed :: "string list"

text \<open>The signal wakes the other thread if it waits.\<close>

fun wake_up :: "place \<Rightarrow> place" where
  "wake_up (Waiting i) = Ready i"
| "wake_up x = x"

definition signal :: "nat \<Rightarrow> shared \<Rightarrow> shared" where
  "signal t s = s\<lparr>places := (places s)(t := wake_up (places s t))\<rparr>"

definition set_place :: "nat \<Rightarrow> place \<Rightarrow> shared \<Rightarrow> shared" where
  "set_place t x s = s\<lparr>places := (places s)(t := x)\<rparr>"

definition next_round :: "nat \<Rightarrow> place" where
  "next_round i = (if i + 1 < 10 then Ready (i + 1) else Returned)"

definition increment :: "nat \<Rightarrow> shared \<Rightarrow> shared" where
  "increment i s =
     (if turn s then set_place 0 (Waiting i) s
      else set_place 0 (next_round i) (signal 1
        (s\<lparr>count := count s + 1, turn := True, printed := printed s @ [''incrementing....'']\<rparr>)))"

definition decrement :: "nat \<Rightarrow> shared \<Rightarrow> shared" where
  "decrement i s =
     (if \<not> turn s then set_place 1 (Waiting i) s
      else set_place 1 (next_round i) (signal 0
        (s\<lparr>count := count s - 1, turn := False, printed := printed s @ [''decrementing....'']\<rparr>)))"

definition turn_step :: "nat \<Rightarrow> bool \<Rightarrow> shared \<Rightarrow> shared" where
  "turn_step t spurious s =
     (case places s t of
        Ready i \<Rightarrow> if t = 0 then increment i s else if t = 1 then decrement i s else s
      | Waiting i \<Rightarrow> if spurious then set_place t (Ready i) s else s
      | Returned \<Rightarrow> s)"

fun turn_run :: "(nat \<times> bool) list \<Rightarrow> shared \<Rightarrow> shared" where
  "turn_run [] s = s"
| "turn_run ((t, spurious) # es) s = turn_run es (if t < 2 then turn_step t spurious s else s)"

definition turn_start :: shared where
  "turn_start = \<lparr>count = 0, turn = False, places = (\<lambda>_. Ready 0), printed = []\<rparr>"

definition turn_main :: "(nat \<times> bool) list \<Rightarrow> u64 option" where
  "turn_main es = (let s = turn_run es turn_start in
     if places s 0 = Returned \<and> places s 1 = Returned then Some (count s) else None)"

subsection \<open>Turns alternate, no wake-up is lost\<close>

fun rounds :: "place \<Rightarrow> nat" where
  "rounds (Ready i) = i"
| "rounds (Waiting i) = i"
| "rounds Returned = 10"

definition lines :: "nat \<Rightarrow> string list" where
  "lines n = map (\<lambda>i. if even i then ''incrementing....'' else ''decrementing....'') [0..<n]"

fun place_ok :: "place \<Rightarrow> bool" where
  "place_ok (Ready i) = (i < 10)"
| "place_ok (Waiting i) = (i < 10)"
| "place_ok Returned = True"

definition turn_inv :: "shared \<Rightarrow> bool" where
  "turn_inv s \<longleftrightarrow> place_ok (places s 0) \<and> place_ok (places s 1) \<and>
     rounds (places s 0) = rounds (places s 1) + (if turn s then 1 else 0) \<and>
     count s = (if turn s then 1 else 0) \<and> printed s = lines (rounds (places s 0) + rounds (places s 1)) \<and>
     ((\<exists>i. places s 0 = Waiting i) \<longrightarrow> turn s) \<and> ((\<exists>i. places s 1 = Waiting i) \<longrightarrow> \<not> turn s)"

lemma next_round_ok: "i < 10 \<Longrightarrow> place_ok (next_round i) \<and> rounds (next_round i) = i + 1 \<and> (\<forall>j. next_round i \<noteq> Waiting j)"
  by (auto simp: next_round_def)

lemma lines_Suc: "lines (Suc n) = lines n @ [if even n then ''incrementing....'' else ''decrementing....'']"
  by (simp add: lines_def)

lemma woken_place: "rounds (wake_up x) = rounds x" "place_ok (wake_up x) = place_ok x" "wake_up x \<noteq> Waiting j"
  by (cases x; simp)+

lemma turn_step_inv:
  assumes inv: "turn_inv s" and t: "t < 2"
  shows "turn_inv (turn_step t spurious s)"
proof (cases "places s t")
  case (Ready i)
  consider "t = 0" | "t = 1" using t by linarith
  then show ?thesis
  proof cases
    case 1
    then have i: "i < 10" "places s 0 = Ready i" using inv Ready by (auto simp: turn_inv_def)
    note n = next_round_ok [OF i(1)]
    show ?thesis using 1 i inv n
      by (cases "turn s") (auto simp: turn_step_def increment_def set_place_def signal_def turn_inv_def woken_place lines_Suc)
  next
    case 2
    then have i: "i < 10" "places s 1 = Ready i" using inv Ready by (auto simp: turn_inv_def)
    note n = next_round_ok [OF i(1)]
    show ?thesis using 2 i inv n
      by (cases "turn s") (auto simp: turn_step_def decrement_def set_place_def signal_def turn_inv_def woken_place lines_Suc)
  qed
next
  case (Waiting i)
  consider "t = 0" | "t = 1" using t by linarith
  then show ?thesis using Waiting inv
    by cases (auto simp: turn_step_def set_place_def turn_inv_def)
next
  case Returned
  then show ?thesis using inv by (simp add: turn_step_def)
qed

lemma turn_run_inv: "turn_inv s \<Longrightarrow> turn_inv (turn_run es s)"
proof (induction es arbitrary: s)
  case (Cons e es)
  then show ?case by (cases e) (simp add: turn_step_inv)
qed simp

lemma turn_start_inv: "turn_inv turn_start"
  by (simp add: turn_inv_def turn_start_def lines_def)

definition left :: "shared \<Rightarrow> nat" where
  "left s = 20 - (rounds (places s 0) + rounds (places s 1))"

text \<open>While the threads have not returned, the one whose turn it is is not waiting.\<close>

lemma turn_progress:
  assumes inv: "turn_inv s" and n: "\<not> (places s 0 = Returned \<and> places s 1 = Returned)"
  shows "\<exists>t<2. left (turn_step t False s) < left s"
proof (cases "turn s")
  case True
  then obtain i where i: "places s 1 = Ready i" "i < 10" using inv n
    by (cases "places s 1"; cases "places s 0") (auto simp: turn_inv_def)
  show ?thesis
  proof (intro exI conjI)
    show "left (turn_step 1 False s) < left s"
      using i True inv next_round_ok [OF i(2)]
      by (cases "places s 0") (auto simp: turn_step_def decrement_def set_place_def signal_def left_def woken_place turn_inv_def)
  qed simp
next
  case False
  then obtain i where i: "places s 0 = Ready i" "i < 10" using inv n
    by (cases "places s 1"; cases "places s 0") (auto simp: turn_inv_def)
  show ?thesis
  proof (intro exI conjI)
    show "left (turn_step 0 False s) < left s"
      using i False inv next_round_ok [OF i(2)]
      by (cases "places s 1") (auto simp: turn_step_def increment_def set_place_def signal_def left_def woken_place turn_inv_def)
  qed simp
qed

lemma turn_completes: "turn_inv s \<Longrightarrow> \<exists>es. places (turn_run es s) 0 = Returned \<and> places (turn_run es s) 1 = Returned"
proof (induction "left s" arbitrary: s rule: less_induct)
  case less
  show ?case
  proof (cases "places s 0 = Returned \<and> places s 1 = Returned")
    case True
    then show ?thesis by (intro exI [of _ "[]"]) simp
  next
    case False
    obtain t where t: "t < 2" "left (turn_step t False s) < left s" using turn_progress [OF less.prems False] by blast
    obtain es where "places (turn_run es (turn_step t False s)) 0 = Returned" "places (turn_run es (turn_step t False s)) 1 = Returned"
      using less.hyps [OF t(2) turn_step_inv [OF less.prems t(1)]] by blast
    then show ?thesis using t(1) by (intro exI [of _ "(t, False) # es"]) simp
  qed
qed

lemma turn_run_append: "turn_run (es @ es') s = turn_run es' (turn_run es s)"
  by (induction es s rule: turn_run.induct) auto

text \<open>The two threads take turns in every interleaving, starting with the increment; no signal is lost, so the program can
always end, and it then prints 0.\<close>

theorem threads_take_turns:
  "printed (turn_run es turn_start) = lines (length (printed (turn_run es turn_start))) \<and>
   count (turn_run es turn_start) \<le> 1 \<and>
   turn_main es \<in> {None, Some 0} \<and>
   (\<exists>es'. turn_main (es @ es') = Some 0)"
proof (intro conjI)
  have inv: "turn_inv (turn_run es turn_start)" for es by (rule turn_run_inv [OF turn_start_inv])
  have "printed (turn_run es turn_start) = lines (rounds (places (turn_run es turn_start) 0) + rounds (places (turn_run es turn_start) 1))"
    using inv [of es] by (simp add: turn_inv_def)
  then show "printed (turn_run es turn_start) = lines (length (printed (turn_run es turn_start)))"
    by (simp add: lines_def)
  show "count (turn_run es turn_start) \<le> 1" using inv [of es] by (simp add: turn_inv_def)
  have fin: "turn_main es \<in> {None, Some 0}" for es
    using inv [of es] by (auto simp: turn_main_def turn_inv_def Let_def split: if_splits)
  then show "turn_main es \<in> {None, Some 0}" .
  obtain es' where "places (turn_run (es @ es') turn_start) 0 = Returned" "places (turn_run (es @ es') turn_start) 1 = Returned"
    using turn_completes [OF inv [of es]] unfolding turn_run_append by blast
  then have "turn_main (es @ es') \<noteq> None" by (simp add: turn_main_def Let_def)
  then show "\<exists>es'. turn_main (es @ es') = Some 0" using fin [of "es @ es'"] by (intro exI [of _ es']) auto
qed

end
