(* ===== verification/Symbol_Map.thy ===== *)
theory Symbol_Map
  imports Symbol_Table
begin

unbundle bit_operations_syntax

text \<open>
  The symbol table in C++, \<^verbatim>\<open>Phase-1/Day24/C++/LookUpTable.cpp\<close>, for string keys: the slots, the hash, the mask and the load
  test are those of the C program, but keys are whole strings, a resize places the entries without comparing keys, and memory that
  cannot be allocated is an exception that is not modelled. The table is read and written within its vector: outside is \<open>None\<close>.
\<close>

subsection \<open>The class\<close>

record 'v symbol_map =
  slots_vec :: "'v slot list"
  map_capacity :: nat
  map_count :: nat
  map_tombstones :: nat

partial_function (option) raw_probe :: "'v slot list \<Rightarrow> u32 \<Rightarrow> u32 \<Rightarrow> u32 \<Rightarrow> nat option option" where
  "raw_probe tab msk start index =
     (if \<not> unat index < length tab then None
      else if slot_state (tab ! unat index) \<noteq> OCCUPIED then Some (Some (unat index))
      else if (index + 1) AND msk = start then Some None
      else raw_probe tab msk start ((index + 1) AND msk))"

definition full_slot :: "cstring \<Rightarrow> 'v \<Rightarrow> 'v slot" where
  "full_slot key v = \<lparr>sym_name = key, sym_price = v, slot_state = OCCUPIED\<rparr>"

definition insertRaw :: "'v slot list \<Rightarrow> nat \<Rightarrow> cstring \<Rightarrow> 'v \<Rightarrow> 'v slot list option" where
  "insertRaw tab capacity key v =
     (let msk = index_mask capacity; index = hashFunc key AND msk in
      map_option (\<lambda>r. case r of None \<Rightarrow> tab | Some i \<Rightarrow> tab[i := full_slot key v]) (raw_probe tab msk index index))"

fun resize_loop :: "'v slot list \<Rightarrow> nat \<Rightarrow> 'v slot list \<Rightarrow> 'v slot list option" where
  "resize_loop [] capacity new = Some new"
| "resize_loop (s # old) capacity new =
     (if slot_state s = OCCUPIED
      then insertRaw new capacity (sym_name s) (sym_price s) \<bind> resize_loop old capacity
      else resize_loop old capacity new)"

definition resize :: "'v \<Rightarrow> nat \<Rightarrow> 'v symbol_map \<Rightarrow> 'v symbol_map option" where
  "resize v0 capacity t =
     map_option (\<lambda>new. t\<lparr>slots_vec := new, map_capacity := capacity, map_tombstones := 0\<rparr>)
       (resize_loop (slots_vec t) capacity (replicate capacity (empty_slot v0)))"

definition map_create :: "'v \<Rightarrow> nat \<Rightarrow> 'v symbol_map" where
  "map_create v0 capacity = \<lparr>slots_vec = replicate capacity (empty_slot v0), map_capacity = capacity, map_count = 0, map_tombstones = 0\<rparr>"

partial_function (option) key_probe :: "'v slot list \<Rightarrow> u32 \<Rightarrow> cstring \<Rightarrow> u32 \<Rightarrow> u32 \<Rightarrow> nat option \<Rightarrow> probe_result option" where
  "key_probe tab msk key start index firstTombstone =
     (if \<not> unat index < length tab then None
      else if slot_state (tab ! unat index) = EMPTY then
        Some (Dest (case firstTombstone of Some t \<Rightarrow> t | None \<Rightarrow> unat index))
      else if slot_state (tab ! unat index) \<noteq> DELETED \<and> sym_name (tab ! unat index) = key then Some (Hit (unat index))
      else if (index + 1) AND msk = start then Some Full
      else key_probe tab msk key start ((index + 1) AND msk)
             (if slot_state (tab ! unat index) = DELETED \<and> firstTombstone = None then Some (unat index) else firstTombstone))"

definition map_load_exceeded :: "'v symbol_map \<Rightarrow> bool" where
  "map_load_exceeded t \<longleftrightarrow>
     6305039478318694 * int (map_capacity t) < int (map_count t + map_tombstones t + 1) * 9007199254740992"

definition map_insert :: "'v \<Rightarrow> cstring \<Rightarrow> 'v \<Rightarrow> 'v symbol_map \<Rightarrow> (bool \<times> 'v symbol_map) option" where
  "map_insert v0 key v t = do {
     t \<leftarrow> (if map_load_exceeded t then resize v0 (unat (word_of_nat (map_capacity t) * 2 :: u64)) t else Some t);
     let msk = index_mask (map_capacity t);
     let index = hashFunc key AND msk;
     let tab = slots_vec t;
     r \<leftarrow> key_probe tab msk key index index None;
     Some (case r of
         Dest dest \<Rightarrow> (True, t\<lparr>slots_vec := tab[dest := full_slot key v], map_count := map_count t + 1,
           map_tombstones := (if slot_state (tab ! dest) = DELETED then map_tombstones t - 1 else map_tombstones t)\<rparr>)
       | Hit i \<Rightarrow> (True, t\<lparr>slots_vec := tab[i := (tab ! i)\<lparr>sym_price := v\<rparr>]\<rparr>)
       | Full \<Rightarrow> (False, t))
   }"

partial_function (option) lookup_probe :: "'v slot list \<Rightarrow> u32 \<Rightarrow> cstring \<Rightarrow> u32 \<Rightarrow> u32 \<Rightarrow> nat option option" where
  "lookup_probe tab msk key start index =
     (if \<not> unat index < length tab then None
      else if slot_state (tab ! unat index) = EMPTY then Some None
      else if slot_state (tab ! unat index) = OCCUPIED \<and> sym_name (tab ! unat index) = key then Some (Some (unat index))
      else if (index + 1) AND msk = start then Some None
      else lookup_probe tab msk key start ((index + 1) AND msk))"

definition map_find :: "cstring \<Rightarrow> 'v symbol_map \<Rightarrow> nat option option" where
  "map_find key t = (let msk = index_mask (map_capacity t); index = hashFunc key AND msk in lookup_probe (slots_vec t) msk key index index)"

definition map_lookup :: "cstring \<Rightarrow> 'v symbol_map \<Rightarrow> 'v option option" where
  "map_lookup key t = map_option (map_option (\<lambda>i. sym_price (slots_vec t ! i))) (map_find key t)"

definition map_remove :: "cstring \<Rightarrow> 'v symbol_map \<Rightarrow> (bool \<times> 'v symbol_map) option" where
  "map_remove key t = map_option (\<lambda>r. case r of
       None \<Rightarrow> (False, t)
     | Some i \<Rightarrow> (True, t\<lparr>slots_vec := (slots_vec t)[i := (slots_vec t ! i)\<lparr>slot_state := DELETED\<rparr>],
         map_count := map_count t - 1, map_tombstones := map_tombstones t + 1\<rparr>)) (map_find key t)"

text \<open>\<^verbatim>\<open>smokeTest\<close>: the lines it prints, as in the C program.\<close>

primrec map_insert_all :: "'v \<Rightarrow> (cstring \<times> 'v) list \<Rightarrow> 'v symbol_map \<Rightarrow> 'v symbol_map option" where
  "map_insert_all v0 [] t = Some t"
| "map_insert_all v0 (kv # kvs) t = do { (ok, t) \<leftarrow> map_insert v0 (fst kv) (snd kv) t; map_insert_all v0 kvs t }"

definition smokeTest :: "(int \<Rightarrow> 'v) \<Rightarrow> 'v table_line list option" where
  "smokeTest dbl = do {
     let t = map_create (dbl 0) 16;
     t \<leftarrow> map_insert_all (dbl 0) [(AAPL, dbl 18250), (NVDA, dbl 72133), (TSLA, dbl 19357), (AAPL, dbl 18500)] t;
     p \<leftarrow> map_lookup AAPL t;
     let out = (case p of Some v \<Rightarrow> [PriceLine AAPL v] | None \<Rightarrow> []);
     p \<leftarrow> map_lookup NVDA t;
     let out = out @ (case p of Some v \<Rightarrow> [PriceLine NVDA v] | None \<Rightarrow> []);
     p \<leftarrow> map_lookup MSFT t;
     let out = out @ (case p of Some v \<Rightarrow> [] | None \<Rightarrow> [NotFoundLine MSFT]);
     (_, t) \<leftarrow> map_remove NVDA t;
     p \<leftarrow> map_lookup NVDA t;
     let out = out @ (case p of Some v \<Rightarrow> [] | None \<Rightarrow> [DeletedLine NVDA]);
     t \<leftarrow> map_insert_all (dbl 0) (map (\<lambda>i. (83 # decimal i, dbl (of_nat i * 150))) [0..<50]) t;
     let out = out @ [GrowthLine (map_capacity t) (map_count t)];
     p \<leftarrow> map_lookup AAPL t;
     Some (out @ (case p of Some v \<Rightarrow> [StillFoundLine AAPL v] | None \<Rightarrow> []))
   }"

subsection \<open>The probes\<close>

definition vec_ok :: "'v slot list \<Rightarrow> bool" where
  "vec_ok tab \<longleftrightarrow> pow2_size tab \<and> searchable sym_hash is_empty_slot slot_key tab"

lemma slot_key_Some: "slot_key s = Some k \<longleftrightarrow> slot_state s = OCCUPIED \<and> sym_name s = k"
  by (simp add: slot_key_def)

lemma lookup_probe_spec:
  assumes tab: "vec_ok tab" and start: "unat start = probe_at sym_hash tab k 0"
    and d: "d < length tab" and index: "unat index = probe_at sym_hash tab k d"
    and probed: "probed sym_hash is_empty_slot slot_key tab k d"
  shows "\<exists>r. lookup_probe tab (index_mask (length tab)) k start index = Some r \<and>
     (case r of None \<Rightarrow> slot_of slot_key tab k = None | Some i \<Rightarrow> i < length tab \<and> slot_key (tab ! i) = Some k)"
  using d index probed
proof (induction "length tab - d" arbitrary: d index)
  case (Suc n)
  let ?i = "probe_at sym_hash tab k d"
  have p2: "pow2_size tab" and wf: "searchable sym_hash is_empty_slot slot_key tab" using tab by (simp_all add: vec_ok_def)
  have i: "?i < length tab" using pow2_nonempty [OF p2] by simp
  consider "slot_state (tab ! ?i) = EMPTY" | "slot_key (tab ! ?i) = Some k"
    | "slot_state (tab ! ?i) \<noteq> EMPTY" "slot_key (tab ! ?i) \<noteq> Some k" by blast
  then show ?case
  proof cases
    case 1
    then have "slot_of slot_key tab k = None"
      using symtab.probe_miss [OF wf Suc.prems(3) Suc.prems(1)] by (simp add: is_empty_slot_def)
    then show ?thesis using 1 Suc.prems i by (subst lookup_probe.simps) simp
  next
    case 2
    then show ?thesis using Suc.prems i by (subst lookup_probe.simps) (auto simp: slot_key_Some)
  next
    case 3
    then have pd: "probed sym_hash is_empty_slot slot_key tab k (Suc d)"
      using Suc.prems by (simp add: probed_Suc is_empty_slot_def)
    have step: "lookup_probe tab (index_mask (length tab)) k start index =
        (if Suc d = length tab then Some None
         else lookup_probe tab (index_mask (length tab)) k start ((index + 1) AND index_mask (length tab)))"
      using Suc.prems i 3 round_trip_index [OF p2 start Suc.prems(1,2)]
      by (subst lookup_probe.simps) (auto simp: slot_key_Some)
    show ?thesis
    proof (cases "Suc d = length tab")
      case True
      then have "slot_of slot_key tab k = None" using symtab.probe_exhausted pd by metis
      then show ?thesis using step True by simp
    next
      case False
      then show ?thesis
        using Suc.hyps(1) [of "Suc d" "(index + 1) AND index_mask (length tab)"] Suc.hyps(2) Suc.prems pd
          next_index [OF p2 Suc.prems(2)] step by simp
    qed
  qed
qed simp

lemma key_probe_spec:
  assumes tab: "vec_ok tab" and space: "i < length tab" "is_empty_slot (tab ! i)"
    and start: "unat start = probe_at sym_hash tab k 0"
    and d: "d < length tab" and index: "unat index = probe_at sym_hash tab k d"
    and probed: "probed sym_hash is_empty_slot slot_key tab k d"
    and ft: "\<forall>t. ft = Some t \<longrightarrow> (\<exists>e<d. t = probe_at sym_hash tab k e \<and> slot_key (tab ! t) = None)"
  shows "\<exists>r. key_probe tab (index_mask (length tab)) k start index ft = Some r \<and>
     (case r of Hit i \<Rightarrow> i < length tab \<and> slot_key (tab ! i) = Some k | Dest i \<Rightarrow> dest_ok tab k i | Full \<Rightarrow> False)"
  using d index probed ft
proof (induction "length tab - d" arbitrary: d index ft)
  case (Suc n)
  let ?i = "probe_at sym_hash tab k d"
  have p2: "pow2_size tab" and wf: "searchable sym_hash is_empty_slot slot_key tab" using tab by (simp_all add: vec_ok_def)
  have i: "?i < length tab" using pow2_nonempty [OF p2] by simp
  consider "slot_state (tab ! ?i) = EMPTY" | "slot_key (tab ! ?i) = Some k"
    | "slot_state (tab ! ?i) \<noteq> EMPTY" "slot_key (tab ! ?i) \<noteq> Some k" by blast
  then show ?case
  proof cases
    case 1
    then have e: "is_empty_slot (tab ! ?i)" by (simp add: is_empty_slot_def)
    have "slot_of slot_key tab k = None" by (rule symtab.probe_miss [OF wf Suc.prems(3) Suc.prems(1) e])
    then have "dest_ok tab k (case ft of Some t \<Rightarrow> t | None \<Rightarrow> ?i)"
      by (rule dest_chosen [OF Suc.prems(1,3) e Suc.prems(4)])
    then show ?thesis using Suc.prems(2) i 1 by (subst key_probe.simps) (simp cong: option.case_cong)
  next
    case 2
    then show ?thesis using Suc.prems i by (subst key_probe.simps) (auto simp: slot_key_Some)
  next
    case 3
    then have pd: "probed sym_hash is_empty_slot slot_key tab k (Suc d)"
      using Suc.prems by (simp add: probed_Suc is_empty_slot_def)
    then have more: "Suc d < length tab" using probed_stops [OF space pd] Suc.prems(1) by simp
    let ?ft = "if slot_state (tab ! ?i) = DELETED \<and> ft = None then Some ?i else ft"
    have nomatch: "\<not> (slot_state (tab ! ?i) \<noteq> DELETED \<and> sym_name (tab ! ?i) = k)"
      using 3 by (cases "slot_state (tab ! ?i)") (auto simp: slot_key_Some)
    have step: "key_probe tab (index_mask (length tab)) k start index ft =
        key_probe tab (index_mask (length tab)) k start ((index + 1) AND index_mask (length tab)) ?ft"
      using Suc.prems i 3 nomatch more round_trip_index [OF p2 start Suc.prems(1,2)]
      by (subst key_probe.simps) auto
    have ft': "\<forall>t. ?ft = Some t \<longrightarrow> (\<exists>e<Suc d. t = probe_at sym_hash tab k e \<and> slot_key (tab ! t) = None)"
      using Suc.prems(4) by (auto simp: slot_key_def less_Suc_eq)
    show ?thesis unfolding step
      by (rule Suc.hyps(1) [OF _ more next_index [OF p2 Suc.prems(2)] pd ft']) (use Suc.hyps(2) in simp)
  qed
qed simp

text \<open>A probe that ignores keys finds the first slot that is not occupied.\<close>

lemma raw_probe_spec:
  assumes p2: "pow2_size tab" and clean: "deleted tab = 0" and space: "i < length tab" "is_empty_slot (tab ! i)"
    and absent: "slot_of slot_key tab k = None"
    and start: "unat start = probe_at sym_hash tab k 0"
    and d: "d < length tab" and index: "unat index = probe_at sym_hash tab k d"
    and probed: "probed sym_hash is_empty_slot slot_key tab k d"
  shows "\<exists>r. raw_probe tab (index_mask (length tab)) start index = Some (Some r) \<and> dest_ok tab k r"
  using d index probed
proof (induction "length tab - d" arbitrary: d index)
  case (Suc n)
  let ?i = "probe_at sym_hash tab k d"
  have i: "?i < length tab" using pow2_nonempty [OF p2] by simp
  then have live: "slot_state (tab ! ?i) \<noteq> DELETED" using clean by (auto simp: deleted_def filter_empty_conv)
  show ?case
  proof (cases "slot_state (tab ! ?i) = OCCUPIED")
    case False
    then have "is_empty_slot (tab ! ?i)" using live by (cases "slot_state (tab ! ?i)") (simp_all add: is_empty_slot_def)
    then have "dest_ok tab k ?i" using dest_chosen [OF Suc.prems(1,3) _ _ absent, where ft = None] by simp
    then show ?thesis using Suc.prems(2) i False by (subst raw_probe.simps) simp
  next
    case True
    have "slot_key (tab ! ?i) \<noteq> Some k" using absent i by (simp add: slot_of_None)
    then have pd: "probed sym_hash is_empty_slot slot_key tab k (Suc d)"
      using Suc.prems True by (simp add: probed_Suc is_empty_slot_def)
    then have more: "Suc d < length tab" using probed_stops [OF space pd] Suc.prems(1) by simp
    have step: "raw_probe tab (index_mask (length tab)) start index =
        raw_probe tab (index_mask (length tab)) start ((index + 1) AND index_mask (length tab))"
      using Suc.prems i True more round_trip_index [OF p2 start Suc.prems(1,2)] by (subst raw_probe.simps) auto
    show ?thesis unfolding step
      by (rule Suc.hyps(1) [OF _ more next_index [OF p2 Suc.prems(2)] pd]) (use Suc.hyps(2) in simp)
  qed
qed simp

lemma full_slot_key [simp]: "slot_key (full_slot k v) = Some k" "sym_price (full_slot k v) = v"
  by (simp_all add: slot_key_def full_slot_def)

lemma vec_place:
  assumes tab: "vec_ok tab" and dest: "dest_ok tab k i"
  shows "vec_ok (tab[i := full_slot k v])" "prices (tab[i := full_slot k v]) = (prices tab)(k \<mapsto> v)"
    "occupied (tab[i := full_slot k v]) = Suc (occupied tab)"
    "deleted (tab[i := full_slot k v]) = (if slot_state (tab ! i) = DELETED then deleted tab - 1 else deleted tab)"
    "slot_state (tab ! i) = DELETED \<Longrightarrow> 0 < deleted tab"
proof -
  have wf: "pow2_size tab" "searchable sym_hash is_empty_slot slot_key tab" using tab by (simp_all add: vec_ok_def)
  note pl = place_effects [OF wf dest full_slot_key(1) [of k v]]
  show "vec_ok (tab[i := full_slot k v])" "prices (tab[i := full_slot k v]) = (prices tab)(k \<mapsto> v)"
    using pl(1,2) wf(1) by (simp_all add: vec_ok_def pow2_size_update)
  show "occupied (tab[i := full_slot k v]) = Suc (occupied tab)"
    "deleted (tab[i := full_slot k v]) = (if slot_state (tab ! i) = DELETED then deleted tab - 1 else deleted tab)"
    "slot_state (tab ! i) = DELETED \<Longrightarrow> 0 < deleted tab"
    by (rule pl(3), rule pl(4), rule pl(5))
qed

lemma insertRaw_spec:
  assumes tab: "vec_ok tab" "deleted tab = 0" "occupied tab < length tab" and absent: "prices tab k = None"
  shows "\<exists>tab'. insertRaw tab (length tab) k v = Some tab' \<and> vec_ok tab' \<and> deleted tab' = 0 \<and> length tab' = length tab \<and>
     prices tab' = (prices tab)(k \<mapsto> v) \<and> occupied tab' = Suc (occupied tab)"
proof -
  have p2: "pow2_size tab" using tab(1) by (simp add: vec_ok_def)
  obtain i where i: "i < length tab" "is_empty_slot (tab ! i)" using vacancy [of tab] tab by auto
  have no: "slot_of slot_key tab k = None" using absent by (simp add: prices_def)
  let ?start = "hashFunc k AND index_mask (length tab)"
  obtain r where r: "raw_probe tab (index_mask (length tab)) ?start ?start = Some (Some r)" "dest_ok tab k r"
    using raw_probe_spec [OF p2 tab(2) i no first_index [OF p2] _ first_index [OF p2]] pow2_nonempty [OF p2] by auto
  then show ?thesis using vec_place(1-4) [OF tab(1) r(2), where v = v] tab(2) by (simp add: insertRaw_def)
qed

text \<open>Moving the entries of a table keeps them all: their keys are distinct, so no comparison is needed.\<close>

lemma resize_loop_spec:
  assumes new: "vec_ok new" "deleted new = 0" "length new = cap"
    and idx: "distinct idx" "\<forall>i\<in>set idx. i < length old" and old: "searchable sym_hash is_empty_slot slot_key old"
    and fresh: "\<forall>i\<in>set idx. \<forall>k. slot_key (old ! i) = Some k \<longrightarrow> prices new k = None"
    and space: "occupied new + occupied (map ((!) old) idx) < cap"
  shows "\<exists>new'. resize_loop (map ((!) old) idx) cap new = Some new' \<and> vec_ok new' \<and> deleted new' = 0 \<and> length new' = cap \<and>
     occupied new' = occupied new + occupied (map ((!) old) idx) \<and> prices new' = prices new ++ prices (map ((!) old) idx)"
  using new idx fresh space
proof (induction idx arbitrary: new)
  case Nil
  then show ?case by (simp add: occupied_def prices_Nil)
next
  case (Cons i idx)
  have i: "i < length old" using Cons.prems by simp
  show ?case
  proof (cases "slot_state (old ! i) = OCCUPIED")
    case False
    then have "prices (map ((!) old) (i # idx)) = prices (map ((!) old) idx)"
      by (intro ext) (simp add: prices_Cons slot_key_def)
    then show ?thesis using Cons.IH [OF Cons.prems(1-3)] Cons.prems(4-) False by (simp add: occupied_Cons)
  next
    case True
    let ?k = "sym_name (old ! i)" and ?p = "sym_price (old ! i)"
    have key: "slot_key (old ! i) = Some ?k" using True by (simp add: slot_key_def)
    have none: "prices new ?k = None" using Cons.prems(6) key by simp
    obtain new1 where n1: "insertRaw new cap ?k ?p = Some new1" "vec_ok new1"
      "length new1 = cap" "prices new1 = (prices new)(?k \<mapsto> ?p)" "occupied new1 = Suc (occupied new)" "deleted new1 = 0"
      using insertRaw_spec [OF Cons.prems(1,2) _ none, of ?p] Cons.prems(3,7) by auto
    have other: "slot_key (old ! j) \<noteq> Some ?k" if "j \<in> set idx" for j
      using searchable_unique [OF old i, of j ?k] key that Cons.prems(4,5) by auto
    have "\<exists>new'. resize_loop (map ((!) old) idx) cap new1 = Some new' \<and> vec_ok new' \<and> deleted new' = 0 \<and> length new' = cap \<and>
        occupied new' = occupied new1 + occupied (map ((!) old) idx) \<and> prices new' = prices new1 ++ prices (map ((!) old) idx)"
      using Cons.prems(4-) n1 other True by (intro Cons.IH) (auto simp: occupied_Cons)
    moreover have "prices (map ((!) old) idx) ?k = None" using other by (simp add: prices_None)
    then have "prices new1 ++ prices (map ((!) old) idx) = prices new ++ prices (map ((!) old) (i # idx))"
      using prices_moved [OF n1(4) key] by simp
    ultimately show ?thesis using n1 True by (simp add: occupied_Cons)
  qed
qed

subsection \<open>A map from strings to values\<close>

definition map_ok :: "'v symbol_map \<Rightarrow> bool" where
  "map_ok t \<longleftrightarrow> map_capacity t = length (slots_vec t) \<and> vec_ok (slots_vec t) \<and> map_count t = occupied (slots_vec t) \<and>
     map_tombstones t = deleted (slots_vec t) \<and> occupied (slots_vec t) + deleted (slots_vec t) < length (slots_vec t)"

definition map_content :: "'v symbol_map \<Rightarrow> cstring \<Rightarrow> 'v option" where
  "map_content t = prices (slots_vec t)"

lemma vec_empty:
  assumes "m \<le> 32"
  shows "vec_ok (replicate (2 ^ m) (empty_slot p0))" "deleted (replicate (2 ^ m) (empty_slot p0)) = 0"
    "occupied (replicate (2 ^ m) (empty_slot p0)) = 0" "prices (replicate (2 ^ m) (empty_slot p0)) = Map.empty"
  using empty_table [OF assms, of p0] by (simp_all add: tab_ok_def vec_ok_def)

lemma map_create_ok: "m \<le> 32 \<Longrightarrow> map_ok (map_create v0 (2 ^ m))" "m \<le> 32 \<Longrightarrow> map_content (map_create v0 (2 ^ m)) = Map.empty"
  using vec_empty [of m v0] by (simp_all add: map_create_def map_ok_def map_content_def)

lemma resize_spec:
  assumes t: "map_ok t" and cap: "map_capacity t \<le> 2 ^ 31"
  shows "\<exists>t'. resize v0 (unat (word_of_nat (map_capacity t) * 2 :: u64)) t = Some t' \<and> map_ok t' \<and> map_content t' = map_content t \<and>
     map_capacity t' = 2 * map_capacity t \<and> map_tombstones t' = 0 \<and> map_count t' = map_count t"
proof -
  let ?tab = "slots_vec t"
  have tab: "map_capacity t = length ?tab" "vec_ok ?tab" "map_count t = occupied ?tab" "occupied ?tab < length ?tab"
    using t by (simp_all add: map_ok_def)
  have wf: "searchable sym_hash is_empty_slot slot_key ?tab" using tab(2) by (simp add: vec_ok_def)
  obtain m where m: "length ?tab = 2 ^ m" using tab(2) by (auto simp: vec_ok_def pow2_size_def)
  have le: "(2::nat) ^ m \<le> 2 ^ 31" using cap unfolding tab(1) m .
  then have "m \<le> 31" by (rule power_le_imp_le_exp [rotated]) simp
  then have m32: "Suc m \<le> 32" by simp
  have cap2: "unat (word_of_nat (map_capacity t) * 2 :: u64) = 2 ^ Suc m"
    unfolding tab(1) m using double_no_wrap [OF le] by simp
  define new where "new = replicate (2 ^ Suc m) (empty_slot v0)"
  note new = vec_empty [OF m32, of v0, folded new_def]
  have less: "occupied ?tab < 2 ^ Suc m" using tab(4) m by simp
  have len: "length new = 2 ^ Suc m" by (simp add: new_def)
  have none: "prices new k = None" for k by (simp add: new(4))
  have "\<exists>new'. resize_loop (map ((!) ?tab) [0..<length ?tab]) (2 ^ Suc m) new = Some new' \<and> vec_ok new' \<and> deleted new' = 0 \<and>
     length new' = 2 ^ Suc m \<and> occupied new' = occupied new + occupied (map ((!) ?tab) [0..<length ?tab]) \<and>
     prices new' = prices new ++ prices (map ((!) ?tab) [0..<length ?tab])"
    by (rule resize_loop_spec [OF new(1,2) len _ _ wf]) (simp_all add: none map_nth new(3) less [simplified])
  then obtain new' where n: "resize_loop ?tab (2 ^ Suc m) new = Some new'" "vec_ok new'" "deleted new' = 0"
     "length new' = 2 ^ Suc m" "occupied new' = occupied ?tab" "prices new' = prices ?tab"
    by (auto simp: map_nth new(3,4))
  let ?t = "t\<lparr>slots_vec := new', map_capacity := 2 ^ Suc m, map_tombstones := 0\<rparr>"
  have "resize v0 (unat (word_of_nat (map_capacity t) * 2 :: u64)) t = Some ?t"
    unfolding cap2 by (simp add: resize_def n(1) new_def [symmetric] del: power_Suc)
  moreover have "map_ok ?t" using n tab less by (simp add: map_ok_def)
  moreover have "map_content ?t = map_content t" using n(6) by (simp add: map_content_def)
  ultimately show ?thesis using m tab(1) by (intro exI [of _ ?t]) simp
qed

text \<open>The part of \<^verbatim>\<open>insert\<close> after the load test, on a table with room.\<close>

definition insert_here :: "cstring \<Rightarrow> 'v \<Rightarrow> 'v symbol_map \<Rightarrow> (bool \<times> 'v symbol_map) option" where
  "insert_here key v t = do {
     let msk = index_mask (map_capacity t);
     let index = hashFunc key AND msk;
     let tab = slots_vec t;
     r \<leftarrow> key_probe tab msk key index index None;
     Some (case r of
         Dest dest \<Rightarrow> (True, t\<lparr>slots_vec := tab[dest := full_slot key v], map_count := map_count t + 1,
           map_tombstones := (if slot_state (tab ! dest) = DELETED then map_tombstones t - 1 else map_tombstones t)\<rparr>)
       | Hit i \<Rightarrow> (True, t\<lparr>slots_vec := tab[i := (tab ! i)\<lparr>sym_price := v\<rparr>]\<rparr>)
       | Full \<Rightarrow> (False, t))
   }"

lemma map_insert_cases:
  "map_insert v0 key v t = (if map_load_exceeded t then resize v0 (unat (word_of_nat (map_capacity t) * 2 :: u64)) t else Some t)
     \<bind> insert_here key v"
  by (simp add: map_insert_def insert_here_def [abs_def] Let_def)

lemma insert_here_spec:
  assumes t: "map_ok t" and room: "map_count t + map_tombstones t + 1 < map_capacity t"
  shows "\<exists>t'. insert_here k v t = Some (True, t') \<and> map_ok t' \<and> map_content t' = (map_content t)(k \<mapsto> v) \<and>
     map_capacity t' = map_capacity t \<and> map_tombstones t' \<le> map_tombstones t \<and>
     map_count t' = (if map_content t k = None then Suc (map_count t) else map_count t)"
proof -
  let ?tab = "slots_vec t"
  have tab: "map_capacity t = length ?tab" "vec_ok ?tab" "map_count t = occupied ?tab" "map_tombstones t = deleted ?tab"
    "occupied ?tab + deleted ?tab < length ?tab"
    using t by (simp_all add: map_ok_def)
  obtain i where i: "i < length ?tab" "is_empty_slot (?tab ! i)" using vacancy [OF tab(5)] .
  have wf: "pow2_size ?tab" "searchable sym_hash is_empty_slot slot_key ?tab" using tab(2) by (simp_all add: vec_ok_def)
  let ?start = "hashFunc k AND index_mask (length ?tab)"
  obtain r where r: "key_probe ?tab (index_mask (length ?tab)) k ?start ?start None = Some r"
    "case r of Hit i \<Rightarrow> i < length ?tab \<and> slot_key (?tab ! i) = Some k | Dest i \<Rightarrow> dest_ok ?tab k i | Full \<Rightarrow> False"
    using key_probe_spec [OF tab(2) i first_index [OF wf(1)] _ first_index [OF wf(1)], where k = k and ft = None]
      pow2_nonempty [OF wf(1)] by auto
  show ?thesis
  proof (cases r)
    case (Hit j)
    then have h: "j < length ?tab" "slot_key (?tab ! j) = Some k" using r(2) by auto
    have old: "map_content t k \<noteq> None" using symtab.find_unique [OF wf(2) h] by (simp add: map_content_def prices_def)
    show ?thesis using r(1) Hit tab update_effects [OF wf(2) h, where p = v] wf(1) old
      by (simp add: insert_here_def Let_def map_ok_def map_content_def vec_ok_def pow2_size_update)
  next
    case (Dest j)
    then have d: "dest_ok ?tab k j" using r(2) by simp
    then have new: "map_content t k = None" by (simp add: map_content_def prices_def dest_ok_def)
    show ?thesis using r(1) Dest tab vec_place(1-4) [OF tab(2) d, where v = v] vec_place(5) [OF tab(2) d] room new
      by (auto simp add: insert_here_def Let_def map_ok_def map_content_def)
  qed (use r(2) in simp)
qed

lemma map_room: "map_ok t \<Longrightarrow> \<not> map_load_exceeded t \<Longrightarrow> map_count t + map_tombstones t + 1 < map_capacity t"
  by (simp add: map_load_exceeded_def map_ok_def)

lemma map_insert_spec:
  assumes t: "map_ok t" and cap: "map_capacity t \<le> 2 ^ 31"
  shows "\<exists>t'. map_insert v0 k v t = Some (True, t') \<and> map_ok t' \<and> map_content t' = (map_content t)(k \<mapsto> v) \<and>
     map_capacity t' = (if map_load_exceeded t then 2 else 1) * map_capacity t \<and> map_tombstones t' \<le> map_tombstones t \<and>
     map_count t' = (if map_content t k = None then Suc (map_count t) else map_count t)"
proof (cases "map_load_exceeded t")
  case False
  then show ?thesis using insert_here_spec [OF t map_room [OF t False], of k v] by (simp add: map_insert_cases)
next
  case exceeded: True
  obtain t1 where t1: "resize v0 (unat (word_of_nat (map_capacity t) * 2 :: u64)) t = Some t1" "map_ok t1"
     "map_content t1 = map_content t" "map_capacity t1 = 2 * map_capacity t" "map_tombstones t1 = 0" "map_count t1 = map_count t"
    using resize_spec [OF t cap] by blast
  have "map_count t1 + map_tombstones t1 + 1 < map_capacity t1" using t t1 by (simp add: map_ok_def)
  then obtain t' where "insert_here k v t1 = Some (True, t')" "map_ok t'" "map_content t' = (map_content t1)(k \<mapsto> v)"
     "map_capacity t' = map_capacity t1" "map_tombstones t' \<le> map_tombstones t1"
     "map_count t' = (if map_content t1 k = None then Suc (map_count t1) else map_count t1)"
    using insert_here_spec [OF t1(2)] by blast
  then show ?thesis using t1 exceeded by (simp add: map_insert_cases)
qed

lemma map_find_spec:
  assumes t: "map_ok t"
  shows "(map_find k t = Some None \<and> map_content t k = None) \<or>
     (\<exists>i<length (slots_vec t). map_find k t = Some (Some i) \<and> slot_key (slots_vec t ! i) = Some k \<and>
        map_content t k = Some (sym_price (slots_vec t ! i)))"
proof -
  let ?tab = "slots_vec t"
  have tab: "map_capacity t = length ?tab" "vec_ok ?tab" "pow2_size ?tab" "searchable sym_hash is_empty_slot slot_key ?tab"
    using t by (simp_all add: map_ok_def vec_ok_def)
  obtain r where "map_find k t = Some r"
    "case r of None \<Rightarrow> slot_of slot_key ?tab k = None | Some i \<Rightarrow> i < length ?tab \<and> slot_key (?tab ! i) = Some k"
    using lookup_probe_spec [OF tab(2) first_index [OF tab(3)] _ first_index [OF tab(3)], of k] pow2_nonempty [OF tab(3)]
    by (auto simp: map_find_def tab(1) Let_def)
  then show ?thesis using symtab.find_unique [OF tab(4)]
    by (cases r) (auto simp: map_content_def prices_def)
qed

lemma map_lookup_spec: "map_ok t \<Longrightarrow> map_lookup k t = Some (map_content t k)"
  using map_find_spec [of t k] by (auto simp: map_lookup_def)

lemma map_remove_spec:
  assumes t: "map_ok t"
  shows "\<exists>t'. map_remove k t = Some (map_content t k \<noteq> None, t') \<and> map_ok t' \<and> map_content t' = (map_content t)(k := None) \<and>
     map_capacity t' = map_capacity t \<and>
     (if map_content t k = None then t' = t else Suc (map_count t') = map_count t \<and> map_tombstones t' = Suc (map_tombstones t))"
  using map_find_spec [OF t, of k]
proof (elim disjE exE conjE)
  assume f: "map_find k t = Some None" "map_content t k = None"
  then show ?thesis using t by (simp add: map_remove_def fun_upd_idem)
next
  fix i
  assume f: "i < length (slots_vec t)" "map_find k t = Some (Some i)" "slot_key (slots_vec t ! i) = Some k"
    "map_content t k = Some (sym_price (slots_vec t ! i))"
  have wf: "searchable sym_hash is_empty_slot slot_key (slots_vec t)" "pow2_size (slots_vec t)"
    using t by (simp_all add: map_ok_def vec_ok_def)
  show ?thesis using t f(2,4) wf(2) erase_effects [OF wf(1) f(1,3)]
    by (auto simp: map_remove_def map_ok_def map_content_def vec_ok_def pow2_size_update)
qed


lemma map_insert_unique:
  assumes "map_insert v0 k v t = Some (ok, t')" "map_ok t" "map_capacity t \<le> 2 ^ 31"
  shows "ok" "map_ok t'" "map_content t' = (map_content t)(k \<mapsto> v)"
  using map_insert_spec [OF assms(2,3), of v0 k v] assms(1) by auto

text \<open>C40: The symbol table in C++ is a map from strings to values: inserting any string, of any length, ends, stays within the
  vector, grows it when the load demands it and changes the map there only; lookup returns what the map holds and remove takes out
  exactly that string. The C program does this for symbols of at most seven characters only.\<close>

theorem symbol_map_refines:
  assumes t: "map_ok t" and cap: "map_capacity t \<le> 2 ^ 31"
  shows "\<exists>t1. map_insert v0 k v t = Some (True, t1) \<and> map_ok t1 \<and>
     map_capacity t1 = (if map_load_exceeded t then 2 else 1) * map_capacity t \<and>
     map_lookup q t1 = Some (((map_content t)(k \<mapsto> v)) q) \<and>
     (\<exists>t2. map_remove r t1 = Some (((map_content t)(k \<mapsto> v)) r \<noteq> None, t2) \<and> map_ok t2 \<and>
        map_lookup q t2 = Some (((map_content t)(k \<mapsto> v, r := None)) q))"
proof -
  obtain t1 where t1: "map_insert v0 k v t = Some (True, t1)" "map_ok t1" "map_content t1 = (map_content t)(k \<mapsto> v)"
    "map_capacity t1 = (if map_load_exceeded t then 2 else 1) * map_capacity t"
    using map_insert_spec [OF t cap, of v0 k v] by blast
  obtain t2 where "map_remove r t1 = Some (map_content t1 r \<noteq> None, t2)" "map_ok t2" "map_content t2 = (map_content t1)(r := None)"
    using map_remove_spec [OF t1(2), of r] by blast
  then show ?thesis using t1 map_lookup_spec [OF t1(2)] map_lookup_spec [of t2] by simp
qed

lemma symbol_map_refines_witness:
  "\<exists>t1. map_insert 0 (AAPL @ AAPL) (7::nat) (map_create 0 16) = Some (True, t1) \<and> map_lookup (AAPL @ AAPL) t1 = Some (Some 7)"
proof -
  have "map_ok (map_create (0::nat) 16)" "map_capacity (map_create (0::nat) 16) \<le> 2 ^ 31"
    using map_create_ok(1) [of 4] by (simp_all add: map_create_def)
  from symbol_map_refines [OF this, of 0 "AAPL @ AAPL" 7 "AAPL @ AAPL"] show ?thesis by auto
qed

declare raw_probe.simps [code] key_probe.simps [code] lookup_probe.simps [code]

text \<open>The two demonstration programs print the same.\<close>

lemma smokeTest_output:
  fixes dbl :: "int \<Rightarrow> 'v::equal"
  shows "smokeTest dbl = Some [PriceLine AAPL (dbl 18500), PriceLine NVDA (dbl 72133), NotFoundLine MSFT, DeletedLine NVDA,
     GrowthLine 128 52, StillFoundLine AAPL (dbl 18500)]"
  by code_simp

lemma smokeTest_as_in_C:
  fixes dbl :: "int \<Rightarrow> 'v::equal"
  shows "smokeTest dbl = symbol_table_main dbl g_table"
  by (simp only: smokeTest_output symbol_table_main_output)

end
