(* ===== verification/Spec2Isabelle.thy ===== *)
theory Spec2Isabelle
  imports LRU_Cache Wire_Format Symbol_Table String_Pool Free_List SSO_String Object_Pool Allocators
    Buddy Deadlock Pager Ring_Queue Treiber_Stack Bitboard Bitmap_Image MPMC_Queue Actor_Model
    Order_Book Thread_Pool Matrix_Product Text_Search Smart_Pointers Alloc_Tracker Inventory
    Coroutines Audio_Pipeline Event_Loop Cow_String Price_Tracker Worker_Pool Turn_Taking Symbol_Map
begin

text \<open>
  \<^bold>\<open>The program.\<close> The repository is a course of systems programming: one small program per day, most of them in
  C, under \<^verbatim>\<open>src/Phase-0\<close> to \<^verbatim>\<open>src/Phase-2\<close>. The programs do not call each other, but they share
  techniques: structs on the heap, pools with free lists, hash tables with probing, ring buffers, atomics, mutexes
  and condition variables. The development follows this: one theory per program or family of programs, and shared
  theories for the techniques.

  \<^bold>\<open>How programs are modelled.\<close> Machine integers are words of their width where they are combined bit by
  bit or may wrap around; where a theorem shows or assumes that a counter, an index or a size stays in range, it is an \<open>int\<close>
  or a \<open>nat\<close>, and the bound is in the theorem or in the text before it. The heap of structs is a partial map from
  addresses (\<^theory_text>\<open>Prelude\<close>); every access through a pointer is an \<open>option\<close>, and \<open>None\<close> is undefined behaviour (a null or
  dangling pointer, a double free, an index out of bounds), so a theorem that an operation returns \<open>Some\<close> is a memory-safety
  theorem. A pointer loop that might not end is a \<^theory_text>\<open>partial_function (option)\<close>, in which a loop that does not end is
  \<open>None\<close> too. Errors the program reports are ordinary values. What the environment decides is an argument: whether
  \<open>malloc\<close>, \<open>mmap\<close> or a thread creation succeeds, what a file holds, random numbers. Concurrent programs are step
  functions on a shared state, one access to shared memory (or one critical section) per step, and a schedule is a list
  that says who moves; a theorem about all lists is about all interleavings. Atomics are sequentially consistent: the
  memory orders of the code are not distinguished.

  \<^bold>\<open>Shared theories.\<close>
  \<^item> \<^theory_text>\<open>Prelude\<close>: words, the heap, the allocator as a parameter, circular indices, ring buffers as lists
    (\<open>ring_list\<close>), counting the owners of an object (\<open>owners\<close>).
  \<^item> \<^theory_text>\<open>Linked_Lists\<close>: chains and doubly linked lists on the heap, unlinking and pushing; used by the LRU cache, the page
    cache, the buddy allocator and the free list.
  \<^item> \<^theory_text>\<open>Probing\<close>: open addressing as the locale \<open>open_addressing\<close>, interpreted on the symbol table and the string pool.
  \<^item> \<^theory_text>\<open>Smart_Pointers\<close>: objects that count their owners as the locale \<open>counted_pointer\<close>, interpreted there on two
    programs and in \<^theory_text>\<open>Cow_String\<close> on a third.

  \<^bold>\<open>Conditions.\<close> A property holds under the hypotheses of its theorem, which the text before it repeats. The recurring ones are that
  memory suffices (\<open>malloc_serves\<close>) where the code does not test the result of \<open>malloc\<close>, that sizes stay so far below \<open>2 ^ 64\<close>
  that adding a header or padding does not wrap around, and that system calls succeed where the code ignores their result.
  What the code does outside of them is, where it goes wrong, stated by a lemma of its own.

  \<^bold>\<open>Data structures and allocators.\<close>
  \<^item> \<^theory_text>\<open>LRU_Cache\<close> (\<^verbatim>\<open>Phase-1/Day30/C/lru.c\<close>, \<^verbatim>\<open>bench_c.c\<close>): hash chains and the recency list refine a list of
    key-value pairs; with a positive capacity and enough memory any sequence of operations is safe, within capacity, and leaks
    nothing.
  \<^item> \<^theory_text>\<open>Symbol_Table\<close> (\<^verbatim>\<open>Phase-1/Day24/C/LookUpTable.c\<close>): insertion, growth, lookup and deletion with tombstones refine
    a map for symbols of at most seven characters; longer ones are lost.
  \<^item> \<^theory_text>\<open>Symbol_Map\<close> (\<^verbatim>\<open>Phase-1/Day24/C++/LookUpTable.cpp\<close>): the same table with string keys refines a map for all strings;
    both demonstration programs print the same.
  \<^item> \<^theory_text>\<open>String_Pool\<close> (\<^verbatim>\<open>Phase-1/Day16/C/string_interning.c\<close>, \<^verbatim>\<open>StringHashs.c\<close>): one pooled copy per string.
  \<^item> \<^theory_text>\<open>Free_List\<close> (\<^verbatim>\<open>Phase-1/Day23/C/freelist.c\<close>): first fit with splitting and coalescing tiles the pool.
  \<^item> \<^theory_text>\<open>Buddy\<close> (\<^verbatim>\<open>Phase-1/Day9/C/buddy_alloc.c\<close>): splitting and merging keep the pool tiled by aligned blocks; with no
    live block the pool is one free block again; the stress test passes.
  \<^item> \<^theory_text>\<open>Allocators\<close> (\<^verbatim>\<open>Phase-1/Day6/C/arena.c\<close>, \<^verbatim>\<open>Phase-1/Day27/C/Allocators.c\<close>): bump arenas hand out aligned
    disjoint regions; the vector on either backend is a list.
  \<^item> \<^theory_text>\<open>Object_Pool\<close> (\<^verbatim>\<open>Phase-1/Day23/C/ObjPool.c\<close>, \<^verbatim>\<open>ObjPool_w_Freelist.c\<close>, \<^verbatim>\<open>Entity_ObjPool.c\<close>): refinement to a stack of
    free nodes, error reports of the entity pool.
  \<^item> \<^theory_text>\<open>SSO_String\<close> (\<^verbatim>\<open>Phase-1/Day21/C/sso_string.c\<close>): both representations stand for one string; append, copy, free; \<open>size_t\<close>
    arithmetic wraps, and does not below \<open>2 ^ 63\<close> bytes.
  \<^item> \<^theory_text>\<open>Cow_String\<close> (\<^verbatim>\<open>Phase-1/Day16/C++\<close>): copies share a buffer until one of them is written, and nobody can
    tell, unless a reference into the buffer is kept across a copy (\<open>kept_reference_leaks\<close>) or a NUL is stored.
  \<^item> \<^theory_text>\<open>Smart_Pointers\<close> (\<^verbatim>\<open>Phase-1/Day12\<close>): an object lives exactly as long as somebody owns it, and is freed once.
  \<^item> \<^theory_text>\<open>Alloc_Tracker\<close> (\<^verbatim>\<open>Phase-1/Day17\<close>, the two trackers): the table of allocations is exactly what is live for up to 1024
    allocations; with a full table correct frees are reported.
  \<^item> \<^theory_text>\<open>Inventory\<close> (\<^verbatim>\<open>Phase-1/Day19\<close>): tagged unions are only read under the tag they were written with.
  \<^item> \<^theory_text>\<open>Matrix_Product\<close> (\<^verbatim>\<open>Phase-0/Day4\<close>): the naive, the reordered and the tiled product compute the same matrix.
  \<^item> \<^theory_text>\<open>Pager\<close> (\<^verbatim>\<open>Phase-1/Day25/C/src/pager.c\<close>): the page cache is transparent, eviction spares pinned pages, closing
    makes the file hold what the users saw, as long as reading and writing the file succeed (\<open>io_ok\<close>); pin counts stop at
    \<open>INT_MAX\<close>.
  \<^item> \<^theory_text>\<open>Text_Search\<close> (\<^verbatim>\<open>Phase-1/Day8\<close>): four versions of a text search find exactly the matching lines, for a
    target without a newline and lines shorter than \<open>2 ^ 31\<close>; the handles
    of the mapped file are closed once.

  \<^bold>\<open>Formats and bit manipulation.\<close>
  \<^item> \<^theory_text>\<open>Wire_Format\<close> (\<^verbatim>\<open>Phase-1/Day13/C\<close>, \<^verbatim>\<open>Phase-1/Day26/C/zeroCopyParse.c\<close>, \<^verbatim>\<open>Phase-0/Day5/C/parser.c\<close>): serializer,
    feed parser and TLV parser; round trip and bounds.
  \<^item> \<^theory_text>\<open>Bitmap_Image\<close> (\<^verbatim>\<open>Phase-1/Day14/C/byteMath.c\<close>): reading, inverting and writing a bitmap file.
  \<^item> \<^theory_text>\<open>Bitboard\<close> (\<^verbatim>\<open>Phase-1/Day20/C\<close>): shifts and masks of chess boards against squares and ranks.

  \<^bold>\<open>Concurrency.\<close>
  \<^item> \<^theory_text>\<open>Ring_Queue\<close> (\<^verbatim>\<open>Phase-1/Day22/C\<close>, \<^verbatim>\<open>Phase-1/Day11/C/SPSC.c\<close>): one producer, one consumer; FIFO in every
    interleaving and from every start index, so also across the wrap-around of the 64-bit indices.
  \<^item> \<^theory_text>\<open>MPMC_Queue\<close> (\<^verbatim>\<open>Phase-1/Day11/C/MPMC.c\<close>, \<^verbatim>\<open>MPMC_test.c\<close>): any number of threads; each position returns what was pushed
    there, at most once. The theorems hold for runs of fewer than \<open>2 ^ 62\<close> steps, below which no ticket wraps.
  \<^item> \<^theory_text>\<open>Treiber_Stack\<close> (\<^verbatim>\<open>Phase-2/Day33/C/TrieberStack.c\<close>): hazard pointers make the stack linearizable and free of use
    after free, for runs of fewer than \<open>2 ^ 64\<close> steps, below which the tag does not wrap.
  \<^item> \<^theory_text>\<open>Actor_Model\<close> (\<^verbatim>\<open>Phase-2/Day37/C/ActorModel.c\<close>): a mailbox between two threads.
  \<^item> \<^theory_text>\<open>Order_Book\<close> (\<^verbatim>\<open>Phase-2/Day39/C\<close>): the locale \<open>mutual_exclusion\<close>, interpreted on the mutex and the spin lock.
  \<^item> \<^theory_text>\<open>Thread_Pool\<close> (\<^verbatim>\<open>Phase-2/Day34/C/JobSystem.c\<close>): tasks are executed once, no wake-up is lost, the pool finishes.
  \<^item> \<^theory_text>\<open>Deadlock\<close> (\<^verbatim>\<open>Phase-2/Day40/C/DeadlockDetection.c\<close>): the cycle search is exact, and lock requests that would close
    a cycle are refused, so no circular wait is reachable as long as the handles of the threads stay different when cut to an \<open>int\<close>.
  \<^item> \<^theory_text>\<open>Worker_Pool\<close> (\<^verbatim>\<open>Phase-2/Day31\<close>): every tick is processed once.
  \<^item> \<^theory_text>\<open>Price_Tracker\<close> (\<^verbatim>\<open>Phase-2/Day32\<close>): the compare-and-swap loops of the writers leave the maximum.
  \<^item> \<^theory_text>\<open>Event_Loop\<close> (\<^verbatim>\<open>Phase-2/Day35\<close>): the epoll server in C and the reactor in C++ behave alike as long as memory
    suffices, the listening socket is registered and waiting does not fail; a client only ever receives beginnings of the response.
  \<^item> \<^theory_text>\<open>Coroutines\<close> (\<^verbatim>\<open>Phase-2/Day36\<close>): scripts on their own stacks and in coroutines, resumed in turn.
  \<^item> \<^theory_text>\<open>Audio_Pipeline\<close>, \<^theory_text>\<open>Turn_Taking\<close> (\<^verbatim>\<open>Phase-2/Day38\<close>): a bounded queue between producer and consumer delivers
    everything in order and finishes; two threads take turns on condition variables.

  \<^bold>\<open>Not modelled.\<close> Timing, printing of addresses, signal handlers and the programs that are undefined on purpose
  (\<^verbatim>\<open>Phase-1/Day15\<close>, \<^verbatim>\<open>Day28\<close>), the demonstrations of language features (\<^verbatim>\<open>Phase-0/Day2\<close>, \<^verbatim>\<open>Day3\<close>, \<^verbatim>\<open>Phase-1/Day18\<close>), the
  interposition of \<^verbatim>\<open>malloc\<close> by the dynamic linker (\<^verbatim>\<open>Phase-1/Day17\<close>), the benchmark harness (\<^verbatim>\<open>Phase-1/Day29\<close>), weak memory,
  and those C++ versions of a program that repeat the design of its C version on containers, smart pointers and locks of the
  standard library.
\<close>

end
